(* ===== verification/Prelude.thy ===== *)
theory Prelude
  imports Main "HOL-Library.Word"
begin

unbundle bit_operations_syntax

text \<open>
  What every component of the development shares: the machine integer types of the C code,
  the faults a C function can end in, sequencing of faulting computations, and the generic
  lemmas on words, lists and bits the component proofs use.

  A pointer that the source compares with NULL is an option (None is NULL). A call that
  can abort (a failed assertion, a NULL dereference, an access outside an allocated block)
  returns a value of type 'a cres: Inl of the fault or Inr of the result. A call that asks
  the C library for memory takes the outcome of that request as a Boolean argument, or a
  schedule of outcomes when it makes several requests.
\<close>

type_synonym byte = "8 word"
type_synonym u32 = "32 word"
type_synonym u64 = "64 word"

datatype fault =
    AssertFail      \<comment> \<open>a failed assert, UtkAssert or UtkError\<close>
  | NullDeref       \<comment> \<open>reading or writing through NULL\<close>
  | OutOfBounds     \<comment> \<open>an access outside the allocated block\<close>
  | Uninit          \<comment> \<open>use of a value that was never written\<close>
  | DivideByZero    \<comment> \<open>a division by zero\<close>

type_synonym 'a cres = "fault + 'a"

definition bindR :: "'a cres \<Rightarrow> ('a \<Rightarrow> 'b cres) \<Rightarrow> 'b cres" where
  "bindR m f = (case m of Inl e \<Rightarrow> Inl e | Inr x \<Rightarrow> f x)"

lemma bindR_simps [simp]:
  "bindR (Inl e) f = Inl e"
  "bindR (Inr x) f = f x"
  by (simp_all add: bindR_def)

lemma bindR_cong [fundef_cong]:
  "m = m' \<Longrightarrow> (\<And>x. m' = Inr x \<Longrightarrow> f x = f' x) \<Longrightarrow> bindR m f = bindR m' f'"
  by (cases m') auto

lemma bindR_Inr_iff: "bindR m f = Inr y \<longleftrightarrow> (\<exists>x. m = Inr x \<and> f x = Inr y)"
  by (cases m) auto

text \<open>The result of a call that did not fault.\<close>

definition ok :: "'a cres \<Rightarrow> 'a option" where
  "ok m = (case m of Inl e \<Rightarrow> None | Inr x \<Rightarrow> Some x)"

lemma ok_simps [simp]: "ok (Inl e) = None" "ok (Inr x) = Some x"
  by (simp_all add: ok_def)

lemma ok_eq_Some [simp]: "ok m = Some x \<longleftrightarrow> m = Inr x"
  by (cases m) auto

text \<open>A read of an allocated block: in range, or a fault.\<close>

definition rd :: "'a list \<Rightarrow> nat \<Rightarrow> 'a cres" where
  "rd xs i = (if i < length xs then Inr (xs ! i) else Inl OutOfBounds)"

definition wr :: "'a list \<Rightarrow> nat \<Rightarrow> 'a \<Rightarrow> 'a list cres" where
  "wr xs i v = (if i < length xs then Inr (xs[i := v]) else Inl OutOfBounds)"

lemma rd_in [simp]: "i < length xs \<Longrightarrow> rd xs i = Inr (xs ! i)"
  by (simp add: rd_def)

lemma wr_in [simp]: "i < length xs \<Longrightarrow> wr xs i v = Inr (xs[i := v])"
  by (simp add: wr_def)

text \<open>The C library test for white space, in the C locale.\<close>

definition isspaceC :: "byte \<Rightarrow> bool" where
  "isspaceC c \<longleftrightarrow> c = 0x20 \<or> 9 \<le> c \<and> c \<le> 13"

text \<open>The length of a C string.\<close>

definition strlenC :: "byte list \<Rightarrow> nat cres" where
  "strlenC mem = (let n = length (takeWhile (\<lambda>c. c \<noteq> 0) mem) in
     if n < length mem then Inr n else Inl OutOfBounds)"

subsection \<open>Words\<close>

named_theorems word_nat \<open>facts that move a word goal to natural numbers\<close>

lemma unat_mono_bound: "unat (x :: 'n::len word) < 2 ^ LENGTH('n)"
  by (rule unsigned_less)

lemma unat_less_2p32 [simp]: "unat (x :: u32) < 4294967296"
  using unat_mono_bound [of x] by simp

lemma below_unat_u32: "n < unat (x :: u32) \<Longrightarrow> n < 4294967296"
  by (rule less_trans [OF _ unat_less_2p32])

lemma unat_less_256 [simp]: "unat (b :: byte) < 256"
  using unat_mono_bound [of b] by simp

lemma unat_less_2p64 [simp]: "unat (x :: u64) < 18446744073709551616"
  using unat_mono_bound [of x] by simp

lemma unat_add_no_wrap [word_nat]:
  "unat a + unat b < 2 ^ LENGTH('n::len) \<Longrightarrow> unat (a + b :: 'n word) = unat a + unat b"
  by (simp add: unat_word_ariths)

lemma unat_mult_no_wrap [word_nat]:
  "unat a * unat b < 2 ^ LENGTH('n::len) \<Longrightarrow> unat (a * b :: 'n word) = unat a * unat b"
  by (simp add: unat_word_ariths)

lemma unat_sub_no_wrap [word_nat]:
  "b \<le> a \<Longrightarrow> unat (a - b :: 'n::len word) = unat a - unat b"
  by (simp add: unat_sub)

lemma unat_drop_bit_div [word_nat]:
  "unat (drop_bit n a :: 'n::len word) = unat a div 2 ^ n"
  by (metis drop_bit_eq_div unat_drop_bit_eq)

lemma unat_and_mask_mod [word_nat]:
  "unat (a AND mask n :: 'n::len word) = unat a mod 2 ^ n"
  by (metis take_bit_eq_mask take_bit_eq_mod unsigned_take_bit_eq)

lemma unat_of_nat_small: "n < 2 ^ LENGTH('n::len) \<Longrightarrow> unat (of_nat n :: 'n word) = n"
  by (simp add: unat_of_nat)

lemma sint_of_nat: "n < 2 ^ 31 \<Longrightarrow> sint (of_nat n :: u32) = int n"
  by (simp add: signed_of_nat signed_take_bit_int_eq_self)

lemma sint_u32_small: "unat (w :: u32) < 2147483648 \<Longrightarrow> sint w = int (unat w)"
  using sint_of_nat [of "unat w"] by simp

lemma sint_pos_unat:
  assumes "0 < sint (w :: u32)"
  shows "unat w < 2147483648"
proof (rule ccontr)
  assume "\<not> unat w < 2147483648"
  then have "2147483648 \<le> int (unat w)" by linarith
  then have "2 ^ 31 \<le> uint w" by simp
  then have "signed_take_bit 31 (uint w) \<le> uint w - 2 ^ Suc 31" by (rule signed_take_bit_int_less_eq)
  moreover have "sint w = signed_take_bit 31 (uint w)" by (simp add: sint_uint)
  moreover have "uint w < 2 ^ Suc 31" using uint_lt2p [of w] by simp
  ultimately show False using assms by linarith
qed

lemma unat_Suc_below: "unat (i :: 'n::len word) < unat (j :: 'n word) \<Longrightarrow> unat (i + 1) = Suc (unat i)"
proof -
  assume "unat i < unat j"
  then have "Suc (unat i) < 2 ^ LENGTH('n)"
    using unat_mono_bound [of j] by linarith
  then show ?thesis by (simp add: unat_word_ariths)
qed

lemma word_and_bit_ne_0: "(w AND 2 ^ n \<noteq> 0) = bit (w :: 'n::len word) n"
proof -
  have "(w AND push_bit n 1 = 0) = (\<not> bit w n)"
  proof
    assume "w AND push_bit n 1 = 0"
    then have "\<not> bit (w AND push_bit n 1) n" by (metis bit_0_eq bot_apply bot_bool_def)
    then show "\<not> bit w n"
      by (auto simp: bit_simps dest: bit_imp_le_length)
  next
    assume "\<not> bit w n"
    then show "w AND push_bit n 1 = 0"
      by (intro bit_word_eqI) (auto simp: bit_simps)
  qed
  then show ?thesis by simp
qed

lemma bit_or_exp:
  "n < LENGTH('n) \<Longrightarrow> bit (w OR 2 ^ n :: 'n::len word) m = (bit w m \<or> m = n)"
  by (auto simp: bit_simps dest: bit_imp_le_length)

lemma bit_and_not_exp:
  "bit (w AND NOT (2 ^ n) :: 'n::len word) m = (bit w m \<and> m \<noteq> n)"
  by (auto simp: bit_simps dest: bit_imp_le_length)

subsection \<open>Lists\<close>

lemma nth_of_drop: "drop p mem = c # t \<Longrightarrow> p < length mem \<and> mem ! p = c \<and> drop (Suc p) mem = t"
  by (metis Cons_nth_drop_Suc drop_all list.inject list.simps(3) not_le_imp_less)

lemma list_update_nth_eq: "i < length xs \<Longrightarrow> (xs[i := v]) ! j = (if i = j then v else xs ! j)"
  by simp

lemma shift_right_update:
  assumes "i < n" "n + 2 \<le> length es"
  shows "(take (i + 1) es @ take (n - i) (drop i es) @ drop (n + 1) es)[i := x, n + 1 := y] =
    take i es @ x # take (n - i) (drop i es) @ y # drop (n + 2) es"
proof -
  have "take (i + 1) es = take i es @ [es ! i]"
    using assms by (simp add: take_Suc_conv_app_nth)
  moreover have "drop (n + 1) es = es ! (n + 1) # drop (n + 2) es"
    using assms by (metis Cons_nth_drop_Suc Suc_eq_plus1 add_2_eq_Suc' less_eq_Suc_le)
  ultimately show ?thesis using assms by (simp add: list_update_append Suc_diff_le)
qed

lemma shift_left_update:
  assumes "i < n" "n < length es"
  shows "(take i es @ take (n - (i + 1)) (drop (i + 1) es) @ drop (n - 1) es)[n - 1 := y] =
    take i es @ take (n - (i + 1)) (drop (i + 1) es) @ y # drop n es"
proof -
  have "drop (n - 1) es = es ! (n - 1) # drop n es"
    using assms by (metis Cons_nth_drop_Suc Suc_pred' gr_zeroI less_imp_diff_less not_less0)
  then show ?thesis using assms by (auto simp: list_update_append)
qed

end
