(* ===== verification/IndexSet.thy ===== *)
theory IndexSet
  imports Prelude
begin

text \<open>
  The contract of a container of indices: a test, an insertion and a deletion of one
  index at a time. SGBaseBitArray of SGFoundation and Bitvec of the database library
  both provide it. A client runs a sequence of insertions and deletions; the locale shows
  once that the container then holds what a mathematical set would.
\<close>

datatype 'i set_op = Add 'i | Del 'i

fun run_ops :: "('s \<Rightarrow> 'i \<Rightarrow> 's option) \<Rightarrow> ('s \<Rightarrow> 'i \<Rightarrow> 's option) \<Rightarrow> 's \<Rightarrow> 'i set_op list \<Rightarrow> 's option" where
  "run_ops ins del s [] = Some s"
| "run_ops ins del s (Add i # ops) =
     (case ins s i of None \<Rightarrow> None | Some t \<Rightarrow> run_ops ins del t ops)"
| "run_ops ins del s (Del i # ops) =
     (case del s i of None \<Rightarrow> None | Some t \<Rightarrow> run_ops ins del t ops)"

fun spec_ops :: "'i set \<Rightarrow> 'i set_op list \<Rightarrow> 'i set" where
  "spec_ops A [] = A"
| "spec_ops A (Add i # ops) = spec_ops (insert i A) ops"
| "spec_ops A (Del i # ops) = spec_ops (A - {i}) ops"

fun op_index :: "'i set_op \<Rightarrow> 'i" where
  "op_index (Add i) = i"
| "op_index (Del i) = i"

locale index_set =
  fixes inv :: "'s \<Rightarrow> bool"
    and valid :: "'s \<Rightarrow> 'i \<Rightarrow> bool"
    and elems :: "'s \<Rightarrow> 'i set"
    and test :: "'s \<Rightarrow> 'i \<Rightarrow> bool option"
    and ins :: "'s \<Rightarrow> 'i \<Rightarrow> 's option"
    and del :: "'s \<Rightarrow> 'i \<Rightarrow> 's option"
  assumes test_ok: "inv s \<Longrightarrow> valid s i \<Longrightarrow> test s i = Some (i \<in> elems s)"
    and ins_ok: "inv s \<Longrightarrow> valid s i \<Longrightarrow>
      \<exists>t. ins s i = Some t \<and> inv t \<and> elems t = insert i (elems s) \<and> valid t = valid s"
    and del_ok: "inv s \<Longrightarrow> valid s i \<Longrightarrow>
      \<exists>t. del s i = Some t \<and> inv t \<and> elems t = elems s - {i} \<and> valid t = valid s"
begin

lemma run_ops_spec:
  assumes "inv s" and "\<forall>op \<in> set ops. valid s (op_index op)"
  shows "\<exists>t. run_ops ins del s ops = Some t \<and> inv t \<and> elems t = spec_ops (elems s) ops
    \<and> valid t = valid s"
  using assms
proof (induction ops arbitrary: s)
  case Nil
  then show ?case by simp
next
  case (Cons op ops)
  show ?case
  proof (cases op)
    case (Add i)
    with Cons.prems ins_ok [of s i] obtain t where
      t: "ins s i = Some t" "inv t" "elems t = insert i (elems s)" "valid t = valid s"
      by auto
    with Cons.IH [of t] Cons.prems Add show ?thesis by auto
  next
    case (Del i)
    with Cons.prems del_ok [of s i] obtain t where
      t: "del s i = Some t" "inv t" "elems t = elems s - {i}" "valid t = valid s"
      by auto
    with Cons.IH [of t] Cons.prems Del show ?thesis by auto
  qed
qed

lemma test_after_run:
  assumes "inv s" and "\<forall>op \<in> set ops. valid s (op_index op)" and "valid s i"
  shows "\<exists>t. run_ops ins del s ops = Some t \<and> test t i = Some (i \<in> spec_ops (elems s) ops)"
proof -
  from run_ops_spec [OF assms(1,2)] obtain t where
    "run_ops ins del s ops = Some t" "inv t" "elems t = spec_ops (elems s) ops" "valid t = valid s"
    by auto
  with test_ok [of t i] assms(3) show ?thesis by auto
qed

end

end
