(* ===== verification/BitArray.thy ===== *)
theory BitArray
  imports IndexSet
begin

text \<open>
  SGBaseBitArray.c: a growable array of bits over 32-bit words
  (frameworks/SGFoundation/framework/source/base/collection). The struct is a record, a
  SGBaseBitArrayRef an option of it. Memory obtained from malloc and realloc holds
  indeterminate words, which the argument junk supplies; a Boolean argument says whether
  the request succeeds. All index and length arithmetic is on 32-bit words as in the code.

  Shown: every allocation and resizing keeps the store as long as the recorded capacity,
  a fresh array is clear, growing keeps the bits and clears the new ones, shrinking keeps
  the bits below the new length, and sets, clears and tests behave like a set of indices.
\<close>

subsection \<open>Data and operations\<close>

record SGBaseBitArray =
  mpStore :: "u32 list"
  mCapacity :: u32

definition BITS_PER_WORD :: u32 where "BITS_PER_WORD = 32"
definition PREFERED_LENGTH :: u32 where "PREFERED_LENGTH = 16 * 8"
definition NBITS_SHIFT :: nat where "NBITS_SHIFT = 5"
definition INDEX_MASK :: u32 where "INDEX_MASK = 0x1f"

definition SGBaseBitArrayGetSizeOfStore :: "SGBaseBitArray option \<Rightarrow> u32 cres" where
  "SGBaseBitArrayGetSizeOfStore me =
     (case me of None \<Rightarrow> Inl AssertFail | Some a \<Rightarrow> Inr (4 * mCapacity a))"

definition memset_words :: "u32 list \<Rightarrow> nat \<Rightarrow> u32 list cres" where
  "memset_words st n = (if n \<le> length st then Inr (replicate n 0 @ drop n st) else Inl OutOfBounds)"

definition SGBaseBitArrayClearAll :: "SGBaseBitArray option \<Rightarrow> SGBaseBitArray cres" where
  "SGBaseBitArrayClearAll me =
     (case me of None \<Rightarrow> Inl AssertFail
      | Some a \<Rightarrow> bindR (SGBaseBitArrayGetSizeOfStore (Some a)) (\<lambda>size.
          bindR (memset_words (mpStore a) (unat size div 4)) (\<lambda>st. Inr (a\<lparr>mpStore := st\<rparr>))))"

definition SGBaseBitArrayAllocLength ::
  "bool \<Rightarrow> bool \<Rightarrow> (nat \<Rightarrow> u32) \<Rightarrow> u32 \<Rightarrow> SGBaseBitArray cres" where
  "SGBaseBitArrayAllocLength ok1 ok2 junk aLength =
     (if \<not> ok1 then Inl AssertFail else
      let capacity = aLength div BITS_PER_WORD + 1 in
      if \<not> ok2 then Inl AssertFail else
      SGBaseBitArrayClearAll
        (Some \<lparr>mpStore = map junk [0..<unat (4 * capacity) div 4], mCapacity = capacity\<rparr>))"

definition SGBaseBitArrayAlloc :: "bool \<Rightarrow> bool \<Rightarrow> (nat \<Rightarrow> u32) \<Rightarrow> SGBaseBitArray cres" where
  "SGBaseBitArrayAlloc ok1 ok2 junk = SGBaseBitArrayAllocLength ok1 ok2 junk PREFERED_LENGTH"

definition SGBaseBitArrayGetLength :: "SGBaseBitArray option \<Rightarrow> u32 cres" where
  "SGBaseBitArrayGetLength me =
     (case me of None \<Rightarrow> Inl AssertFail | Some a \<Rightarrow> Inr (mCapacity a * BITS_PER_WORD))"

text \<open>realloc keeps the words both blocks have; the rest of the new block is indeterminate.\<close>

definition realloc_words :: "(nat \<Rightarrow> u32) \<Rightarrow> u32 list \<Rightarrow> nat \<Rightarrow> u32 list" where
  "realloc_words junk st n = take n st @ map junk [length st..<n]"

definition SGBaseBitArraySetLength ::
  "bool \<Rightarrow> (nat \<Rightarrow> u32) \<Rightarrow> SGBaseBitArray option \<Rightarrow> u32 \<Rightarrow> SGBaseBitArray cres" where
  "SGBaseBitArraySetLength ok1 junk me aLength =
     (case me of None \<Rightarrow> Inl AssertFail
      | Some a \<Rightarrow>
         let oldcap = mCapacity a; newcap = aLength div BITS_PER_WORD + 1 in
         if oldcap = newcap then Inr a
         else if \<not> ok1 then Inl AssertFail
         else let newp = realloc_words junk (mpStore a) (unat (4 * newcap) div 4);
                  b = a\<lparr>mpStore := newp, mCapacity := newcap\<rparr> in
              if oldcap \<ge> newcap then Inr b
              else bindR (memset_words (drop (unat oldcap) newp)
                           (unat (4 * (newcap - oldcap)) div 4))
                     (\<lambda>tail. Inr (b\<lparr>mpStore := take (unat oldcap) newp @ tail\<rparr>)))"

definition SGBaseBitArrayReserve ::
  "bool \<Rightarrow> (nat \<Rightarrow> u32) \<Rightarrow> SGBaseBitArray option \<Rightarrow> u32 \<Rightarrow> SGBaseBitArray cres" where
  "SGBaseBitArrayReserve ok1 junk me reserveLength =
     bindR (SGBaseBitArrayGetLength me) (\<lambda>len.
       if reserveLength > len then SGBaseBitArraySetLength ok1 junk me reserveLength
       else (case me of None \<Rightarrow> Inl AssertFail | Some a \<Rightarrow> Inr a))"

definition SGBaseBitArrayGetAtIndex :: "SGBaseBitArray option \<Rightarrow> u32 \<Rightarrow> bool cres" where
  "SGBaseBitArrayGetAtIndex me anIndex =
     (case me of None \<Rightarrow> Inl NullDeref
      | Some a \<Rightarrow>
         let idx = drop_bit NBITS_SHIFT anIndex in
         if \<not> idx < mCapacity a then Inl AssertFail
         else bindR (rd (mpStore a) (unat idx)) (\<lambda>w.
           Inr (w AND push_bit (unat (anIndex AND INDEX_MASK)) 1 \<noteq> 0)))"

definition SGBaseBitArraySetAtIndex :: "SGBaseBitArray option \<Rightarrow> u32 \<Rightarrow> SGBaseBitArray cres" where
  "SGBaseBitArraySetAtIndex me anIndex =
     (case me of None \<Rightarrow> Inl NullDeref
      | Some a \<Rightarrow>
         let idx = drop_bit NBITS_SHIFT anIndex in
         if \<not> idx < mCapacity a then Inl AssertFail
         else bindR (rd (mpStore a) (unat idx)) (\<lambda>w.
           bindR (wr (mpStore a) (unat idx) (w OR push_bit (unat (anIndex AND INDEX_MASK)) 1))
             (\<lambda>st. Inr (a\<lparr>mpStore := st\<rparr>))))"

definition SGBaseBitArrayClearAtIndex :: "SGBaseBitArray option \<Rightarrow> u32 \<Rightarrow> SGBaseBitArray cres" where
  "SGBaseBitArrayClearAtIndex me anIndex =
     (case me of None \<Rightarrow> Inl NullDeref
      | Some a \<Rightarrow>
         let idx = drop_bit NBITS_SHIFT anIndex in
         if \<not> idx < mCapacity a then Inl AssertFail
         else bindR (rd (mpStore a) (unat idx)) (\<lambda>w.
           bindR (wr (mpStore a) (unat idx)
                    (w AND NOT (push_bit (unat (anIndex AND INDEX_MASK)) 1)))
             (\<lambda>st. Inr (a\<lparr>mpStore := st\<rparr>))))"

subsection \<open>Invariant and abstraction\<close>

definition ba_inv :: "SGBaseBitArray \<Rightarrow> bool" where
  "ba_inv a \<longleftrightarrow> length (mpStore a) = unat (mCapacity a) \<and> 0 < mCapacity a
     \<and> unat (mCapacity a) \<le> 2 ^ 27"

definition ba_valid :: "SGBaseBitArray \<Rightarrow> u32 \<Rightarrow> bool" where
  "ba_valid a i \<longleftrightarrow> unat i div 32 < unat (mCapacity a)"

definition ba_elems :: "SGBaseBitArray \<Rightarrow> u32 set" where
  "ba_elems a = {i. unat i div 32 < length (mpStore a)
     \<and> bit (mpStore a ! (unat i div 32)) (unat i mod 32)}"

lemmas ba_consts = BITS_PER_WORD_def PREFERED_LENGTH_def NBITS_SHIFT_def INDEX_MASK_def

lemma ba_index [simp]: "unat (drop_bit NBITS_SHIFT i :: u32) = unat i div 32"
  by (simp add: NBITS_SHIFT_def unat_drop_bit_div del: unat_drop_bit_eq)

lemma ba_offset [simp]: "unat (i AND INDEX_MASK :: u32) = unat i mod 32"
proof -
  have "INDEX_MASK = mask 5" by (simp add: INDEX_MASK_def mask_eq_exp_minus_1)
  then show ?thesis using unat_and_mask_mod [of i 5] by simp
qed

lemma ba_index_less: "(drop_bit NBITS_SHIFT i < mCapacity a) = ba_valid a i"
  by (simp add: ba_valid_def word_less_nat_alt)

lemma ba_capacity [simp]:
  "unat (len div BITS_PER_WORD + 1 :: u32) = unat len div 32 + 1"
proof -
  have "unat (len div BITS_PER_WORD) = unat len div 32"
    by (simp add: BITS_PER_WORD_def unat_div_distrib)
  moreover have "unat len div 32 < 2 ^ 27"
    using unat_less_2p32 [of len] by (simp add: less_mult_imp_div_less)
  ultimately show ?thesis by (simp add: unat_word_ariths)
qed

lemma ba_block_words:
  "unat c \<le> 2 ^ 27 \<Longrightarrow> unat (4 * c :: u32) div 4 = unat c"
  by (simp add: unat_word_ariths)

lemma ba_valid_same: "mCapacity b = mCapacity a \<Longrightarrow> ba_valid b = ba_valid a"
  by (simp add: ba_valid_def fun_eq_iff)

lemma u32_split: "unat (i :: u32) div 32 = unat j div 32 \<Longrightarrow> unat i mod 32 = unat j mod 32 \<Longrightarrow> i = j"
  by (metis div_mult_mod_eq word_unat_eq_iff)

lemma ba_get:
  assumes "ba_inv a" and "ba_valid a i"
  shows "SGBaseBitArrayGetAtIndex (Some a) i = Inr (i \<in> ba_elems a)"
  using assms
  by (auto simp: SGBaseBitArrayGetAtIndex_def Let_def ba_index_less word_and_bit_ne_0 ba_elems_def
      ba_inv_def ba_valid_def)

lemma ba_set:
  assumes "ba_inv a" and "ba_valid a i"
  shows "\<exists>b. SGBaseBitArraySetAtIndex (Some a) i = Inr b \<and> ba_inv b
    \<and> ba_elems b = insert i (ba_elems a) \<and> ba_valid b = ba_valid a"
proof -
  have len: "unat i div 32 < length (mpStore a)"
    using assms by (simp add: ba_inv_def ba_valid_def)
  let ?b = "a\<lparr>mpStore := (mpStore a)[unat i div 32 :=
      mpStore a ! (unat i div 32) OR push_bit (unat i mod 32) 1]\<rparr>"
  have "SGBaseBitArraySetAtIndex (Some a) i = Inr ?b"
    using assms(2) len by (simp add: SGBaseBitArraySetAtIndex_def Let_def ba_index_less)
  moreover have "ba_elems ?b = insert i (ba_elems a)"
    using len by (auto simp: ba_elems_def nth_list_update bit_or_exp split: if_splits dest: u32_split)
  ultimately show ?thesis using assms(1) by (simp add: ba_inv_def ba_valid_def fun_eq_iff)
qed

lemma ba_clear:
  assumes "ba_inv a" and "ba_valid a i"
  shows "\<exists>b. SGBaseBitArrayClearAtIndex (Some a) i = Inr b \<and> ba_inv b
    \<and> ba_elems b = ba_elems a - {i} \<and> ba_valid b = ba_valid a"
proof -
  have len: "unat i div 32 < length (mpStore a)"
    using assms by (simp add: ba_inv_def ba_valid_def)
  let ?b = "a\<lparr>mpStore := (mpStore a)[unat i div 32 :=
      mpStore a ! (unat i div 32) AND NOT (push_bit (unat i mod 32) 1)]\<rparr>"
  have "SGBaseBitArrayClearAtIndex (Some a) i = Inr ?b"
    using assms(2) len by (simp add: SGBaseBitArrayClearAtIndex_def Let_def ba_index_less)
  moreover have "ba_elems ?b = ba_elems a - {i}"
    using len by (auto simp: ba_elems_def nth_list_update bit_and_not_exp split: if_splits dest: u32_split)
  ultimately show ?thesis using assms(1) by (simp add: ba_inv_def ba_valid_def fun_eq_iff)
qed

interpretation ba: index_set ba_inv ba_valid ba_elems
  "\<lambda>a i. ok (SGBaseBitArrayGetAtIndex (Some a) i)"
  "\<lambda>a i. ok (SGBaseBitArraySetAtIndex (Some a) i)"
  "\<lambda>a i. ok (SGBaseBitArrayClearAtIndex (Some a) i)"
  by unfold_locales (auto simp: ba_get dest: ba_set ba_clear)

subsection \<open>Allocation and resizing\<close>

lemma ba_capacity_bound: "unat (len div BITS_PER_WORD + 1 :: u32) \<le> 2 ^ 27"
  using less_mult_imp_div_less [of "unat len" "2 ^ 27" 32] unat_less_2p32 [of len] by simp

lemma ba_clear_all:
  assumes "ba_inv a"
  shows "SGBaseBitArrayClearAll (Some a) = Inr (a\<lparr>mpStore := replicate (unat (mCapacity a)) 0\<rparr>)"
  using assms
  by (simp add: SGBaseBitArrayClearAll_def SGBaseBitArrayGetSizeOfStore_def memset_words_def
      ba_block_words ba_inv_def)

lemma ba_elems_replicate [simp]: "ba_elems (a\<lparr>mpStore := replicate n 0\<rparr>) = {}"
  by (simp add: ba_elems_def)

lemma ba_alloc:
  "\<exists>a. SGBaseBitArrayAllocLength True True junk len = Inr a \<and> ba_inv a \<and> ba_elems a = {}
    \<and> mCapacity a = len div BITS_PER_WORD + 1"
proof -
  let ?c = "len div BITS_PER_WORD + 1"
  let ?a = "\<lparr>mpStore = map junk [0..<unat (4 * ?c) div 4], mCapacity = ?c\<rparr>"
  have "ba_inv ?a"
    using ba_capacity_bound [of len] ba_block_words [OF ba_capacity_bound [of len]]
    by (simp add: ba_inv_def word_less_nat_alt)
  moreover from this have "SGBaseBitArrayAllocLength True True junk len =
      Inr (?a\<lparr>mpStore := replicate (unat (mCapacity ?a)) 0\<rparr>)"
    by (simp only: SGBaseBitArrayAllocLength_def Let_def ba_clear_all not_True_eq_False if_False)
  moreover have "ba_elems (?a\<lparr>mpStore := replicate (unat (mCapacity ?a)) 0\<rparr>) = {}"
    by (rule ba_elems_replicate)
  ultimately show ?thesis by (auto simp: ba_inv_def)
qed

lemma length_realloc_words [simp]: "length (realloc_words junk st n) = n"
  by (simp add: realloc_words_def)

lemma nth_realloc_words: "k < n \<Longrightarrow> k < length st \<Longrightarrow> realloc_words junk st n ! k = st ! k"
  by (simp add: realloc_words_def nth_append)

text \<open>
  Resizing: the store follows the new capacity, an index below both capacities keeps its
  bit, and every index beyond the old capacity is clear.
\<close>

lemma ba_set_length:
  assumes inv: "ba_inv a"
  shows "\<exists>b. SGBaseBitArraySetLength True junk (Some a) len = Inr b \<and> ba_inv b
    \<and> mCapacity b = len div BITS_PER_WORD + 1
    \<and> ba_elems b = {i \<in> ba_elems a. ba_valid b i}"
proof -
  define c where "c = len div BITS_PER_WORD + 1"
  have cb: "unat c \<le> 2 ^ 27" and c0: "0 < unat c"
    unfolding c_def using ba_capacity_bound [of len] by simp_all
  note words = ba_block_words [OF cb]
  consider (same) "mCapacity a = c" | (shrink) "c < mCapacity a" | (grow) "mCapacity a < c"
    by (rule linorder_cases)
  then show ?thesis
  proof cases
    case same
    with inv show ?thesis
      by (auto simp: SGBaseBitArraySetLength_def Let_def c_def ba_elems_def ba_inv_def ba_valid_def)
  next
    case shrink
    let ?b = "a\<lparr>mpStore := realloc_words junk (mpStore a) (unat c), mCapacity := c\<rparr>"
    have lt: "unat c < length (mpStore a)"
      using shrink inv by (simp add: ba_inv_def word_less_nat_alt)
    have "SGBaseBitArraySetLength True junk (Some a) len = Inr ?b"
      using shrink words by (auto simp: SGBaseBitArraySetLength_def Let_def simp flip: c_def)
    moreover have "ba_inv ?b" using cb c0 by (simp add: ba_inv_def word_less_nat_alt)
    moreover have "ba_elems ?b = {i \<in> ba_elems a. ba_valid ?b i}"
      using lt by (auto simp: ba_elems_def ba_valid_def nth_realloc_words)
    ultimately show ?thesis by (auto simp flip: c_def)
  next
    case grow
    let ?o = "unat (mCapacity a)"
    have o: "?o < unat c" "length (mpStore a) = ?o"
      using grow inv by (simp_all add: ba_inv_def word_less_nat_alt)
    have d: "unat (4 * (c - mCapacity a)) div 4 = unat c - ?o"
      using grow cb ba_block_words [of "c - mCapacity a"]
      by (simp add: unat_sub_no_wrap)
    let ?b = "a\<lparr>mpStore := mpStore a @ replicate (unat c - ?o) 0, mCapacity := c\<rparr>"
    have "SGBaseBitArraySetLength True junk (Some a) len = Inr ?b"
      using grow words d o
      by (simp add: SGBaseBitArraySetLength_def Let_def memset_words_def realloc_words_def flip: c_def)
    moreover have "ba_inv ?b" using cb c0 o by (simp add: ba_inv_def word_less_nat_alt)
    moreover have "ba_elems ?b = {i \<in> ba_elems a. ba_valid ?b i}"
      using o by (auto simp: ba_elems_def ba_valid_def nth_append split: if_splits)
    ultimately show ?thesis by (auto simp flip: c_def)
  qed
qed

lemma ba_get_length:
  assumes "ba_inv a"
  shows "SGBaseBitArrayGetLength (Some a) = Inr l \<Longrightarrow>
    unat l = (if unat (mCapacity a) < 2 ^ 27 then 32 * unat (mCapacity a) else 0)"
proof -
  assume l: "SGBaseBitArrayGetLength (Some a) = Inr l"
  from assms have "unat (mCapacity a) \<le> 2 ^ 27" by (simp add: ba_inv_def)
  then have "unat (mCapacity a * 32) =
      (if unat (mCapacity a) < 2 ^ 27 then 32 * unat (mCapacity a) else 0)"
    by (auto simp: unat_word_ariths)
  with l show ?thesis by (simp add: SGBaseBitArrayGetLength_def BITS_PER_WORD_def)
qed

subsection \<open>Properties\<close>

text \<open>
  C2: a bit array freshly allocated for len bits, after any sequence of set and clear calls
  at indices below its capacity, answers get with exactly the membership that the same
  sequence leaves in the empty set; no call faults.
\<close>

theorem bit_array_set_semantics:
  assumes "\<forall>op \<in> set ops. unat (op_index op) div 32 < unat (len div 32 + 1)"
    and "unat i div 32 < unat (len div 32 + 1)"
  shows "\<exists>a t. SGBaseBitArrayAllocLength True True junk len = Inr a
    \<and> run_ops (\<lambda>a i. ok (SGBaseBitArraySetAtIndex (Some a) i))
        (\<lambda>a i. ok (SGBaseBitArrayClearAtIndex (Some a) i)) a ops = Some t
    \<and> SGBaseBitArrayGetAtIndex (Some t) i = Inr (i \<in> spec_ops {} ops)"
proof -
  from ba_alloc [of junk len] obtain a where
    a: "SGBaseBitArrayAllocLength True True junk len = Inr a" "ba_inv a" "ba_elems a = {}"
      "mCapacity a = len div 32 + 1"
    by (auto simp: BITS_PER_WORD_def)
  have "\<forall>op \<in> set ops. ba_valid a (op_index op)" "ba_valid a i"
    using assms a(4) by (simp_all add: ba_valid_def)
  from ba.test_after_run [OF a(2) this] a(1,3) show ?thesis by auto
qed

theorem bit_array_set_semantics_witness:
  "\<exists>a t. SGBaseBitArrayAllocLength True True (\<lambda>_. 99) 40 = Inr a
    \<and> run_ops (\<lambda>a i. ok (SGBaseBitArraySetAtIndex (Some a) i))
        (\<lambda>a i. ok (SGBaseBitArrayClearAtIndex (Some a) i)) a [Add 33, Add 7, Del 33] = Some t
    \<and> SGBaseBitArrayGetAtIndex (Some t) 7 = Inr True"
  using bit_array_set_semantics [of "[Add 33, Add 7, Del 33]" 40 7 "\<lambda>_. 99"] by simp

text \<open>
  Changing the length of a bit array keeps the bits that still fit, drops those that do
  not, and every index the array grew by is clear, whatever realloc left there.
\<close>

theorem bit_array_resize:
  assumes "ba_inv a" and "unat i div 32 < unat (len div 32 + 1)"
  shows "\<exists>b. SGBaseBitArraySetLength True junk (Some a) len = Inr b \<and> ba_inv b
    \<and> SGBaseBitArrayGetAtIndex (Some b) i =
      Inr (if ba_valid a i then SGBaseBitArrayGetAtIndex (Some a) i = Inr True else False)"
proof -
  from ba_set_length [OF assms(1), of junk len] obtain b where
    b: "SGBaseBitArraySetLength True junk (Some a) len = Inr b" "ba_inv b"
      "mCapacity b = len div 32 + 1" "ba_elems b = {i \<in> ba_elems a. ba_valid b i}"
    by (auto simp: BITS_PER_WORD_def)
  have v: "ba_valid b i" using assms(2) b(3) by (simp add: ba_valid_def)
  have "ba_valid a i" if "i \<in> ba_elems a"
    using that assms(1) by (simp add: ba_elems_def ba_valid_def ba_inv_def)
  with b v ba_get [OF b(2) v] ba_get [OF assms(1), of i] show ?thesis by auto
qed

theorem bit_array_resize_witness:
  "\<exists>b. SGBaseBitArraySetLength True (\<lambda>_. 5) (Some \<lparr>mpStore = [8], mCapacity = 1\<rparr>) 64 = Inr b \<and> ba_inv b
    \<and> SGBaseBitArrayGetAtIndex (Some b) 3 = Inr True"
  using bit_array_resize [of "\<lparr>mpStore = [8], mCapacity = 1\<rparr>" 3 64 "\<lambda>_. 5"]
  by (simp add: ba_inv_def ba_valid_def SGBaseBitArrayGetAtIndex_def NBITS_SHIFT_def INDEX_MASK_def)

end
