(* ===== verification/SeqStore.thy ===== *)
theory SeqStore
  imports Prelude
begin

text \<open>
  The contract of an indexed sequence edited in place: append, insert at an index, remove
  at an index, remove the last item. The specification is the list itself; an edit outside
  the list, or of an item that does not fit beside the others, is an error. The locale shows once that a
  script of edits leaves the store holding exactly what the script leaves in the list.
\<close>

datatype 'v edit = Append 'v | Insert 'v nat | Remove nat | RemoveLast

fun edit_list :: "('v list \<Rightarrow> 'v \<Rightarrow> bool) \<Rightarrow> 'v list \<Rightarrow> 'v edit \<Rightarrow> 'v list option" where
  "edit_list fits xs (Append v) = (if fits xs v then Some (xs @ [v]) else None)"
| "edit_list fits xs (Insert v i) =
     (if i \<le> length xs \<and> fits xs v then Some (take i xs @ v # drop i xs) else None)"
| "edit_list fits xs (Remove i) =
     (if i < length xs then Some (take i xs @ drop (i + 1) xs) else None)"
| "edit_list fits xs RemoveLast = Some (butlast xs)"

fun edits_list :: "('v list \<Rightarrow> 'v \<Rightarrow> bool) \<Rightarrow> 'v list \<Rightarrow> 'v edit list \<Rightarrow> 'v list option" where
  "edits_list fits xs [] = Some xs"
| "edits_list fits xs (e # es) =
     (case edit_list fits xs e of None \<Rightarrow> None | Some ys \<Rightarrow> edits_list fits ys es)"

fun run_edits :: "('s \<Rightarrow> 'v edit \<Rightarrow> 's option) \<Rightarrow> 's \<Rightarrow> 'v edit list \<Rightarrow> 's option" where
  "run_edits apply_edit s [] = Some s"
| "run_edits apply_edit s (e # es) =
     (case apply_edit s e of None \<Rightarrow> None | Some t \<Rightarrow> run_edits apply_edit t es)"

locale seq_store =
  fixes inv :: "'s \<Rightarrow> bool"
    and items :: "'s \<Rightarrow> 'v list"
    and fits :: "'v list \<Rightarrow> 'v \<Rightarrow> bool"
    and apply_edit :: "'s \<Rightarrow> 'v edit \<Rightarrow> 's option"
  assumes edit_ok: "inv s \<Longrightarrow> edit_list fits (items s) e = Some ys \<Longrightarrow>
    \<exists>t. apply_edit s e = Some t \<and> inv t \<and> items t = ys"
begin

lemma run_edits_spec:
  "inv s \<Longrightarrow> edits_list fits (items s) es = Some ys \<Longrightarrow>
    \<exists>t. run_edits apply_edit s es = Some t \<and> inv t \<and> items t = ys"
proof (induction es arbitrary: s)
  case Nil
  then show ?case by simp
next
  case (Cons e es)
  then obtain zs where zs: "edit_list fits (items s) e = Some zs" "edits_list fits zs es = Some ys"
    by (auto split: option.splits)
  from edit_ok [OF Cons.prems(1) zs(1)] obtain t where
    "apply_edit s e = Some t" "inv t" "items t = zs" by auto
  with Cons.IH [of t] zs(2) show ?case by auto
qed

end

end
