(* ===== verification/CArray.thy ===== *)
theory CArray
  imports SeqStore "HOL-Library.Monad_Syntax"
begin

text \<open>
  SGBaseCArray.c: a growable array of pointers, kept NULL-terminated
  (frameworks/SGFoundation/framework/source/base/collection). A cell of the block is either
  indeterminate (Junk) or a pointer, None being NULL. Counters and size\_t are 32 bits wide,
  as on the 32-bit targets of the framework; sizes in bytes are kept, so that a byte count
  that wraps gives the short block the code would get.

  A call returns an option of a 'a cres: None when its loop does not end, Inl on a fault.

  Shown: the operations refine insertion into and deletion from a list, the block stays
  NULL-terminated, growth is geometric and ends exactly for requests of at most 2 ^ 31
  elements.
\<close>

subsection \<open>Data and operations\<close>

datatype 'v cell = Junk | Ptr "'v option"

record 'v SGBaseCArray =
  capacity :: u32
  count :: u32
  elements :: "'v cell list option"

definition kSGBaseCArrayBacketsInitSize :: u32 where "kSGBaseCArrayBacketsInitSize = 16"
definition kSGBaseCArrayBacketsGrow :: u32 where "kSGBaseCArrayBacketsGrow = 2"

definition SGBaseCArrayInit :: "'v SGBaseCArray option \<Rightarrow> 'v SGBaseCArray cres" where
  "SGBaseCArrayInit self =
     (case self of None \<Rightarrow> Inl AssertFail
      | Some a \<Rightarrow> Inr (a\<lparr>capacity := 0, count := 0, elements := None\<rparr>))"

definition SGBaseCArrayFinalize :: "'v SGBaseCArray option \<Rightarrow> 'v SGBaseCArray cres" where
  "SGBaseCArrayFinalize self =
     (case self of None \<Rightarrow> Inl AssertFail | Some a \<Rightarrow> SGBaseCArrayInit (Some a))"

partial_function (option) newCapacityLoop :: "u32 \<Rightarrow> u32 \<Rightarrow> u32 option" where
  "newCapacityLoop newCount numElements =
     (if newCount < numElements
      then newCapacityLoop (newCount * kSGBaseCArrayBacketsGrow) numElements
      else Some newCount)"

definition SGBaseCArrayNewCapacityFor :: "'v SGBaseCArray \<Rightarrow> u32 \<Rightarrow> u32 option" where
  "SGBaseCArrayNewCapacityFor self numElements =
     newCapacityLoop (if 0 = capacity self then kSGBaseCArrayBacketsInitSize else capacity self)
       numElements"

text \<open>
  The result of Reserve is the updated struct; the pointer the code returns is its
  elements field. The argument ok1 says whether malloc or realloc succeeds; a malloc that
  fails is written through before it is tested.
\<close>

definition SGBaseCArrayReserve ::
  "bool \<Rightarrow> 'v SGBaseCArray option \<Rightarrow> u32 \<Rightarrow> 'v SGBaseCArray cres option" where
  "SGBaseCArrayReserve ok1 self numElements =
     (case self of None \<Rightarrow> Some (Inl AssertFail)
      | Some a \<Rightarrow>
         if capacity a \<ge> numElements then Some (Inr a)
         else do {
           cap \<leftarrow> SGBaseCArrayNewCapacityFor a numElements;
           if \<not> cap \<ge> numElements then Some (Inl AssertFail)
           else let size = cap * 4; n = unat size div 4 in
             (case elements a of
                None \<Rightarrow>
                  if 0 \<noteq> count a then Some (Inl AssertFail)
                  else if \<not> ok1 then Some (Inl NullDeref)
                  else Some (bindR (wr (replicate n Junk) 0 (Ptr None)) (\<lambda>newp.
                    Inr (a\<lparr>capacity := cap, elements := Some newp\<rparr>)))
              | Some es \<Rightarrow>
                  if \<not> ok1 then Some (Inl AssertFail)
                  else Some (Inr (a\<lparr>capacity := cap,
                         elements := Some (take n es @ replicate (n - length es) Junk)\<rparr>)))
         })"

text \<open>Storing through the elements pointer.\<close>

definition storeAt :: "'v SGBaseCArray \<Rightarrow> nat \<Rightarrow> 'v option \<Rightarrow> 'v SGBaseCArray cres" where
  "storeAt a i v =
     (case elements a of None \<Rightarrow> Inl NullDeref
      | Some es \<Rightarrow> bindR (wr es i (Ptr v)) (\<lambda>es'. Inr (a\<lparr>elements := Some es'\<rparr>)))"

text \<open>memmove of n cells inside the block, from index src to index dst.\<close>

definition memmoveCells :: "'v SGBaseCArray \<Rightarrow> nat \<Rightarrow> nat \<Rightarrow> nat \<Rightarrow> 'v SGBaseCArray cres" where
  "memmoveCells a dst src n =
     (case elements a of None \<Rightarrow> Inl NullDeref
      | Some es \<Rightarrow>
         if dst + n \<le> length es \<and> src + n \<le> length es
         then Inr (a\<lparr>elements := Some (take dst es @ take n (drop src es) @ drop (dst + n) es)\<rparr>)
         else Inl OutOfBounds)"

fun applyLoop :: "'v cell list \<Rightarrow> ('v option \<Rightarrow> u32 \<Rightarrow> 'u \<Rightarrow> 'u) \<Rightarrow> nat \<Rightarrow> nat \<Rightarrow> 'u \<Rightarrow> 'u cres" where
  "applyLoop es applier i 0 u = Inr u"
| "applyLoop es applier i (Suc n) u =
     bindR (rd es i) (\<lambda>c. case c of Junk \<Rightarrow> Inl Uninit
       | Ptr p \<Rightarrow> applyLoop es applier (Suc i) n (applier p (of_nat i) u))"

definition SGBaseCArrayApply ::
  "'v SGBaseCArray option \<Rightarrow> ('v option \<Rightarrow> u32 \<Rightarrow> 'u \<Rightarrow> 'u) option \<Rightarrow> 'u \<Rightarrow> 'u cres" where
  "SGBaseCArrayApply self applier userData =
     (case (self, applier) of
        (Some a, Some f) \<Rightarrow>
          (case elements a of
             None \<Rightarrow> if count a = 0 then Inr userData else Inl NullDeref
           | Some es \<Rightarrow> applyLoop es f 0 (unat (count a)) userData)
      | _ \<Rightarrow> Inl AssertFail)"

definition SGBaseCArrayAppendValue ::
  "bool \<Rightarrow> 'v SGBaseCArray option \<Rightarrow> 'v option \<Rightarrow> 'v SGBaseCArray cres option" where
  "SGBaseCArrayAppendValue ok1 self aValue =
     (case self of None \<Rightarrow> Some (Inl AssertFail)
      | Some a \<Rightarrow> do {
          let idx = count a;
          r \<leftarrow> SGBaseCArrayReserve ok1 (Some a) (idx + 2);
          Some (bindR r (\<lambda>a.
            bindR (storeAt a (unat idx) aValue) (\<lambda>a.
            bindR (storeAt a (unat (idx + 1)) None) (\<lambda>a.
            Inr (a\<lparr>count := idx + 1\<rparr>)))))
        })"

definition SGBaseCArrayInsertValueAtIndex ::
  "bool \<Rightarrow> 'v SGBaseCArray option \<Rightarrow> 'v option \<Rightarrow> u32 \<Rightarrow> 'v SGBaseCArray cres option" where
  "SGBaseCArrayInsertValueAtIndex ok1 self aValue anIndex =
     (case self of None \<Rightarrow> Some (Inl AssertFail)
      | Some a \<Rightarrow>
         let cnt = count a in
         if cnt = anIndex then SGBaseCArrayAppendValue ok1 (Some a) aValue
         else if \<not> anIndex < cnt then Some (Inl AssertFail)
         else do {
           r \<leftarrow> SGBaseCArrayReserve ok1 (Some a) (cnt + 2);
           Some (bindR r (\<lambda>a.
             bindR (memmoveCells a (unat anIndex + 1) (unat anIndex) (unat (cnt - anIndex))) (\<lambda>a.
             bindR (storeAt a (unat anIndex) aValue) (\<lambda>a.
             bindR (storeAt a (unat (cnt + 1)) None) (\<lambda>a.
             Inr (a\<lparr>count := cnt + 1\<rparr>))))))
         })"

definition SGBaseCArrayRemoveValueAtIndex ::
  "'v SGBaseCArray option \<Rightarrow> u32 \<Rightarrow> 'v SGBaseCArray cres" where
  "SGBaseCArrayRemoveValueAtIndex self anIndex =
     (case self of None \<Rightarrow> Inl AssertFail
      | Some a \<Rightarrow>
         if \<not> anIndex < count a then Inl AssertFail
         else let move = count a - (anIndex + 1) in
           bindR (if move > 0 then memmoveCells a (unat anIndex) (unat anIndex + 1) (unat move)
                  else Inr a) (\<lambda>a.
           bindR (storeAt a (unat (count a - 1)) None) (\<lambda>a.
           Inr (a\<lparr>count := count a - 1\<rparr>))))"

definition SGBaseCArrayRemoveLastValue ::
  "'v SGBaseCArray option \<Rightarrow> 'v SGBaseCArray cres" where
  "SGBaseCArrayRemoveLastValue self =
     (case self of None \<Rightarrow> Inl AssertFail
      | Some a \<Rightarrow>
         if 0 = count a then Inr a
         else bindR (storeAt a (unat (count a - 1)) None) (\<lambda>a.
           Inr (a\<lparr>count := count a - 1\<rparr>)))"

subsection \<open>Growth\<close>

definition geometric :: "u32 \<Rightarrow> bool" where
  "geometric c \<longleftrightarrow> (\<exists>k \<le> 27. unat c = 16 * 2 ^ k)"

lemma newCapacityLoop_ends:
  assumes "unat c = 16 * 2 ^ k" "k \<le> 27" "unat n \<le> 2 ^ 31"
  shows "\<exists>c'. newCapacityLoop c n = Some c' \<and> geometric c' \<and> n \<le> c' \<and> c \<le> c'
    \<and> (c' = c \<or> unat c' < 2 * unat n)"
  using assms
proof (induction "27 - k" arbitrary: c k)
  case 0
  then have "k = 27" by simp
  with 0 have "n \<le> c" by (simp add: word_le_nat_alt)
  with 0 show ?case by (auto simp: newCapacityLoop.simps [of c n] geometric_def)
next
  case (Suc d)
  show ?case
  proof (cases "c < n")
    case True
    from Suc have k: "k < 27" by simp
    then have "(2::nat) ^ k \<le> 2 ^ 26" by (intro power_increasing) auto
    then have u: "unat (c * 2) = 16 * 2 ^ Suc k"
      using Suc.prems(1) by (simp add: unat_word_ariths)
    have "d = 27 - Suc k" using Suc.hyps(2) by simp
    from Suc.hyps(1) [OF this u] k Suc.prems(3) obtain c' where
      c': "newCapacityLoop (c * 2) n = Some c'" "geometric c'" "n \<le> c'" "c * 2 \<le> c'"
        "c' = c * 2 \<or> unat c' < 2 * unat n"
      by auto
    have "c \<le> c * 2" using u Suc.prems(1) by (simp add: word_le_nat_alt)
    moreover have "unat (c * 2) < 2 * unat n"
      using True u Suc.prems(1) by (simp add: word_less_nat_alt)
    ultimately show ?thesis
      using c' True by (auto simp: newCapacityLoop.simps [of c n] kSGBaseCArrayBacketsGrow_def)
  next
    case False
    with Suc.prems show ?thesis
      by (auto simp: newCapacityLoop.simps [of c n] geometric_def)
  qed
qed

text \<open>Beyond 2 ^ 31 the doubling wraps to 0, from where it never leaves.\<close>

lemma newCapacityLoop_diverges:
  assumes "2 ^ 31 < unat n"
  shows "newCapacityLoop (16 * 2 ^ k) n = None"
proof -
  have step: "(16 * 2 ^ k :: u32) < n" for k
  proof (cases "k \<le> 27")
    case True
    then have "(2::nat) ^ k \<le> 2 ^ 27" by (intro power_increasing) auto
    then have "unat (of_nat (16 * 2 ^ k) :: u32) \<le> 2 ^ 31"
      by (simp only: unat_of_nat) simp
    then have "unat (16 * 2 ^ k :: u32) \<le> 2 ^ 31" by simp
    with assms show ?thesis by (simp add: word_less_nat_alt)
  next
    case False
    then obtain j where "k = 28 + j" using le_Suc_ex [of 28 k] by auto
    then have "(16 * 2 ^ k :: u32) = 2 ^ 32 * 2 ^ j" by (simp add: power_add)
    also have "\<dots> = 0"
      by (rule word_unat_eq_iff [THEN iffD2]) (simp add: unat_word_ariths)
    finally show ?thesis using assms by (auto simp: word_less_nat_alt)
  qed
  have "\<not> (\<exists>k. c = 16 * 2 ^ k \<and> m = n)" if "newCapacityLoop c m = Some r" for c m r
  proof (rule newCapacityLoop.raw_induct [where P = "\<lambda>c m r. \<not> (\<exists>k. c = 16 * 2 ^ k \<and> m = n)", OF _ that])
    fix f c m r
    assume IH: "\<And>c m r. f c m = Some r \<Longrightarrow> \<not> (\<exists>k. c = 16 * 2 ^ k \<and> m = n)"
      and eq: "(if c < m then f (c * kSGBaseCArrayBacketsGrow) m else Some c) = Some r"
    show "\<not> (\<exists>k. c = 16 * 2 ^ k \<and> m = n)"
    proof
      assume "\<exists>k. c = 16 * 2 ^ k \<and> m = n"
      then obtain k where k: "c = 16 * 2 ^ k" "m = n" by auto
      with eq step [of k] have "f (16 * 2 ^ Suc k) n = Some r"
        by (simp add: kSGBaseCArrayBacketsGrow_def mult.assoc mult.commute)
      with IH show False by blast
    qed
  qed
  then show ?thesis by (cases "newCapacityLoop (16 * 2 ^ k) n") auto
qed

subsection \<open>Invariant and refinement to lists\<close>

definition ca_inv :: "'v SGBaseCArray \<Rightarrow> bool" where
  "ca_inv a \<longleftrightarrow>
     (case elements a of
        None \<Rightarrow> capacity a = 0 \<and> count a = 0
      | Some es \<Rightarrow> length es = unat (capacity a) \<and> geometric (capacity a)
          \<and> unat (capacity a) \<le> 2 ^ 29 \<and> count a < capacity a
          \<and> (\<forall>i < unat (count a). es ! i \<noteq> Junk) \<and> es ! unat (count a) = Ptr None)"

fun cell_ptr :: "'v cell \<Rightarrow> 'v option" where
  "cell_ptr Junk = None"
| "cell_ptr (Ptr p) = p"

definition ca_list :: "'v SGBaseCArray \<Rightarrow> 'v option list" where
  "ca_list a = (case elements a of None \<Rightarrow> []
     | Some es \<Rightarrow> map cell_ptr (take (unat (count a)) es))"

lemma length_ca_list: "ca_inv a \<Longrightarrow> length (ca_list a) = unat (count a)"
  by (auto simp: ca_inv_def ca_list_def word_less_nat_alt split: option.splits)

lemma geometric_16: "geometric 16"
  by (auto simp: geometric_def intro: exI [of _ 0])

lemma unat_bound_29: "unat (c::u32) \<le> 2 ^ 29 \<Longrightarrow> unat (c * 4) div 4 = unat c"
  by (simp add: unat_word_ariths)

text \<open>Reserve keeps the contents, and the block it leaves has room for the request.\<close>

lemma ca_reserve:
  assumes inv: "ca_inv a" and n: "0 < n" "unat n \<le> 2 ^ 29"
  shows "\<exists>b es. SGBaseCArrayReserve True (Some a) n = Some (Inr b) \<and> ca_inv b
    \<and> count b = count a \<and> elements b = Some es \<and> ca_list b = ca_list a \<and> n \<le> capacity b"
proof (cases "n \<le> capacity a")
  case True
  with n have "elements a \<noteq> None" using inv
    by (auto simp: ca_inv_def word_less_nat_alt word_le_nat_alt split: option.splits)
  with True inv show ?thesis by (auto simp: SGBaseCArrayReserve_def)
next
  case False
  define c where "c = (if 0 = capacity a then kSGBaseCArrayBacketsInitSize else capacity a)"
  have "geometric c" using inv
    by (auto simp: c_def ca_inv_def kSGBaseCArrayBacketsInitSize_def geometric_16 split: option.splits)
  then obtain k where "unat c = 16 * 2 ^ k" "k \<le> 27" by (auto simp: geometric_def)
  from newCapacityLoop_ends [OF this, of n] n obtain c' where
    c': "newCapacityLoop c n = Some c'" "geometric c'" "n \<le> c'" "c' = c \<or> unat c' < 2 * unat n"
    by auto
  from c'(2) obtain j where j: "unat c' = 16 * 2 ^ j" by (auto simp: geometric_def)
  have le29: "unat c' \<le> 2 ^ 29"
  proof (cases "j \<le> 25")
    case True
    then have "(2::nat) ^ j \<le> 2 ^ 25" by (intro power_increasing) auto
    with j show ?thesis by simp
  next
    case False
    then have "(2::nat) ^ 26 \<le> 2 ^ j" by (intro power_increasing) auto
    with j have "2 ^ 30 \<le> unat c'" by simp
    with c'(4) n have "c' = c" by auto
    moreover have "unat c \<le> 2 ^ 29" using inv
      by (auto simp: c_def ca_inv_def kSGBaseCArrayBacketsInitSize_def split: option.splits)
    ultimately show ?thesis by simp
  qed
  have pos: "0 < c'" using j by (simp add: word_less_nat_alt)
  note words = unat_bound_29 [OF le29]
  have cap: "SGBaseCArrayNewCapacityFor a n = Some c'"
    using c'(1) by (simp add: SGBaseCArrayNewCapacityFor_def c_def)
  show ?thesis
  proof (cases "elements a")
    case None
    let ?b = "a\<lparr>capacity := c', elements := Some ((replicate (unat c') Junk)[0 := Ptr None])\<rparr>"
    have cnt: "count a = 0" using None inv by (simp add: ca_inv_def)
    have "SGBaseCArrayReserve True (Some a) n = Some (Inr ?b)"
      using False None cap c'(3) cnt words pos
      by (simp add: SGBaseCArrayReserve_def Let_def word_less_nat_alt)
    moreover have "ca_inv ?b" using None cnt c' le29 pos
      by (simp add: ca_inv_def word_less_nat_alt)
    ultimately show ?thesis using None cnt c'(3) by (simp add: ca_list_def)
  next
    case (Some es)
    let ?es = "take (unat c') es @ replicate (unat c' - length es) Junk"
    let ?b = "a\<lparr>capacity := c', elements := Some ?es\<rparr>"
    have es: "length es = unat (capacity a)" "count a < capacity a"
      "\<forall>i < unat (count a). es ! i \<noteq> Junk" "es ! unat (count a) = Ptr None"
      using Some inv by (auto simp: ca_inv_def)
    have lt: "unat (count a) < length es" "length es < unat c'"
      using es(1,2) False c'(3) by (auto simp: word_less_nat_alt word_le_nat_alt)
    have "SGBaseCArrayReserve True (Some a) n = Some (Inr ?b)"
      using False Some cap c'(3) words by (simp add: SGBaseCArrayReserve_def Let_def)
    moreover have "ca_inv ?b" using es lt c' le29
      by (auto simp: ca_inv_def word_less_nat_alt nth_append)
    ultimately show ?thesis using Some lt c'(3) by (simp add: ca_list_def)
  qed
qed

lemma take_update_snoc:
  "n < length xs \<Longrightarrow> take (Suc n) (xs[n := v]) = take n xs @ [v]"
  by (simp add: take_Suc_conv_app_nth)

lemma ca_append:
  assumes inv: "ca_inv a" and n: "unat (count a) + 2 \<le> 2 ^ 29"
  shows "\<exists>b. SGBaseCArrayAppendValue True (Some a) v = Some (Inr b) \<and> ca_inv b
    \<and> ca_list b = ca_list a @ [v] \<and> count b = count a + 1"
proof -
  have u: "unat (count a + 2) = unat (count a) + 2" "unat (count a + 1) = unat (count a) + 1"
    using n by (simp_all add: unat_word_ariths)
  have "0 < count a + 2" using u by (simp add: word_less_nat_alt)
  from ca_reserve [OF inv this] u n obtain b es where
    b: "SGBaseCArrayReserve True (Some a) (count a + 2) = Some (Inr b)" "ca_inv b"
      "count b = count a" "elements b = Some es" "ca_list b = ca_list a" "count a + 2 \<le> capacity b"
    by auto
  have len: "unat (count a) + 2 \<le> length es"
    using b(2,4,6) u by (simp add: ca_inv_def word_le_nat_alt)
  let ?c = "b\<lparr>elements := Some (es[unat (count a) := Ptr v, unat (count a) + 1 := Ptr None]),
    count := count a + 1\<rparr>"
  have "SGBaseCArrayAppendValue True (Some a) v = Some (Inr ?c)"
    using b(1,4) len u by (simp add: SGBaseCArrayAppendValue_def storeAt_def Let_def)
  moreover have "ca_inv ?c"
    using b(2,3,4) len u by (auto simp: ca_inv_def word_less_nat_alt nth_list_update less_Suc_eq)
  moreover have "ca_list ?c = ca_list b @ [v]"
    using b(3,4) len u by (simp add: ca_list_def take_update_snoc)
  ultimately show ?thesis using b(5) by auto
qed

lemma ca_insert:
  assumes inv: "ca_inv a" and n: "unat (count a) + 2 \<le> 2 ^ 29" and i: "i \<le> count a"
  shows "\<exists>b. SGBaseCArrayInsertValueAtIndex True (Some a) v i = Some (Inr b) \<and> ca_inv b
    \<and> ca_list b = take (unat i) (ca_list a) @ v # drop (unat i) (ca_list a)
    \<and> count b = count a + 1"
proof (cases "count a = i")
  case True
  with ca_append [OF inv n, of v] length_ca_list [OF inv] show ?thesis
    by (simp add: SGBaseCArrayInsertValueAtIndex_def Let_def)
next
  case False
  with i have lt: "i < count a" by simp
  let ?i = "unat i" and ?n = "unat (count a)"
  have u: "unat (count a + 2) = ?n + 2" "unat (count a + 1) = ?n + 1"
    "unat (count a - i) = ?n - ?i" "?i < ?n"
    using n lt unat_sub_no_wrap [OF i] by (simp_all add: unat_word_ariths word_less_nat_alt)
  have "0 < count a + 2" using u by (simp add: word_less_nat_alt)
  from ca_reserve [OF inv this] u n obtain b es where
    b: "SGBaseCArrayReserve True (Some a) (count a + 2) = Some (Inr b)" "ca_inv b"
      "count b = count a" "elements b = Some es" "ca_list b = ca_list a" "count a + 2 \<le> capacity b"
    by auto
  have len: "?n + 2 \<le> length es"
    using b(2,4,6) u by (simp add: ca_inv_def word_le_nat_alt)
  let ?mv = "take (?i + 1) es @ take (?n - ?i) (drop ?i es) @ drop (?n + 1) es"
  let ?es = "take ?i es @ Ptr v # take (?n - ?i) (drop ?i es) @ Ptr None # drop (?n + 2) es"
  have "?mv[?i := Ptr v, ?n + 1 := Ptr None] = ?es"
    using shift_right_update [of ?i ?n es "Ptr v" "Ptr None"] len u by simp
  moreover have "?i + 1 + (?n - ?i) = ?n + 1" using u by simp
  ultimately have op: "SGBaseCArrayInsertValueAtIndex True (Some a) v i =
      Some (Inr (b\<lparr>elements := Some ?es, count := count a + 1\<rparr>))"
    using b(1,4) len u lt False
    by (simp add: SGBaseCArrayInsertValueAtIndex_def storeAt_def memmoveCells_def Let_def)
  have old: "\<forall>k < ?n. es ! k \<noteq> Junk" using b(2,3,4) by (simp add: ca_inv_def)
  have "ca_inv (b\<lparr>elements := Some ?es, count := count a + 1\<rparr>)"
    using b(2,3,4) len u old
    by (auto simp: ca_inv_def word_less_nat_alt nth_append nth_Cons' min_def)
  moreover have "ca_list (b\<lparr>elements := Some ?es, count := count a + 1\<rparr>) =
      take ?i (ca_list b) @ v # drop ?i (ca_list b)"
    using b(3,4) len u by (simp add: ca_list_def take_map drop_map drop_take min_def Suc_diff_le)
  ultimately show ?thesis using op b(5) by auto
qed

lemma ca_remove:
  assumes inv: "ca_inv a" and i: "i < count a"
  shows "\<exists>b. SGBaseCArrayRemoveValueAtIndex (Some a) i = Inr b \<and> ca_inv b
    \<and> ca_list b = take (unat i) (ca_list a) @ drop (unat i + 1) (ca_list a)
    \<and> count b = count a - 1"
proof -
  let ?i = "unat i" and ?n = "unat (count a)"
  from i obtain es where es: "elements a = Some es"
    using inv by (auto simp: ca_inv_def split: option.splits)
  have len: "?n < length es" "\<forall>k < ?n. es ! k \<noteq> Junk" "es ! ?n = Ptr None"
    using inv es by (auto simp: ca_inv_def word_less_nat_alt)
  have lt: "?i < ?n" using i by (simp add: word_less_nat_alt)
  have i1: "unat (i + 1) = ?i + 1"
    using unat_Suc_below [OF lt] by simp
  then have le: "i + 1 \<le> count a" using lt by (simp add: word_le_nat_alt)
  have "count a \<noteq> 0" using lt unat_0_iff [of "count a"] by linarith
  then have u: "unat (count a - (i + 1)) = ?n - (?i + 1)" "unat (count a - 1) = ?n - 1"
    using le i1 by (simp_all add: unat_sub_no_wrap unat_minus_one)
  let ?mv = "take ?i es @ take (?n - (?i + 1)) (drop (?i + 1) es) @ drop (?n - 1) es"
  let ?es = "take ?i es @ take (?n - (?i + 1)) (drop (?i + 1) es) @ Ptr None # drop ?n es"
  have mv: "?mv[?n - 1 := Ptr None] = ?es"
    using shift_left_update [of ?i ?n es "Ptr None"] len lt by simp
  have whole: "?mv = es" if "?i + 1 = ?n"
    using that by (metis append_Nil append_take_drop_id diff_self_eq_0 diff_add_inverse2 take_0)
  have op: "SGBaseCArrayRemoveValueAtIndex (Some a) i =
      Inr (a\<lparr>elements := Some ?es, count := count a - 1\<rparr>)"
  proof (cases "?i + 1 = ?n")
    case True
    then have "\<not> 0 < count a - (i + 1)" using u by (simp add: word_less_nat_alt)
    with True whole mv i es len u show ?thesis
      by (simp add: SGBaseCArrayRemoveValueAtIndex_def storeAt_def Let_def)
  next
    case False
    then have "0 < count a - (i + 1)" using u lt by (simp add: word_less_nat_alt)
    moreover have "?i + (?n - (?i + 1)) = ?n - 1" using lt by simp
    ultimately show ?thesis using mv i es len u lt
      by (simp add: SGBaseCArrayRemoveValueAtIndex_def storeAt_def memmoveCells_def Let_def)
  qed
  have "ca_inv (a\<lparr>elements := Some ?es, count := count a - 1\<rparr>)"
    using inv es len lt u by (auto simp: ca_inv_def word_less_nat_alt nth_append nth_Cons' min_def)
  moreover have "ca_list (a\<lparr>elements := Some ?es, count := count a - 1\<rparr>) =
      take ?i (ca_list a) @ drop (?i + 1) (ca_list a)"
  proof -
    have "take (?n - 1) ?es = take ?i es @ take (?n - (?i + 1)) (drop (?i + 1) es)"
      using len lt by simp
    then show ?thesis using es len lt u
      by (simp add: ca_list_def take_map drop_map drop_take min_def)
  qed
  ultimately show ?thesis using op by auto
qed

lemma ca_remove_last:
  assumes inv: "ca_inv a"
  shows "\<exists>b. SGBaseCArrayRemoveLastValue (Some a) = Inr b \<and> ca_inv b
    \<and> ca_list b = butlast (ca_list a) \<and> count b \<le> count a"
proof (cases "count a = 0")
  case True
  with length_ca_list [OF inv] inv show ?thesis by (auto simp: SGBaseCArrayRemoveLastValue_def)
next
  case False
  let ?n = "unat (count a)"
  from False obtain es where es: "elements a = Some es"
    using inv by (auto simp: ca_inv_def split: option.splits)
  have len: "?n < length es" "0 < ?n" "\<forall>k < ?n. es ! k \<noteq> Junk"
    using inv es False by (auto simp: ca_inv_def word_less_nat_alt unat_gt_0)
  have u: "unat (count a - 1) = ?n - 1" using False by (simp add: unat_minus_one)
  let ?b = "a\<lparr>elements := Some (es[?n - 1 := Ptr None]), count := count a - 1\<rparr>"
  have "SGBaseCArrayRemoveLastValue (Some a) = Inr ?b"
    using False es len u by (simp add: SGBaseCArrayRemoveLastValue_def storeAt_def)
  moreover have "ca_inv ?b"
    using inv es len u by (auto simp: ca_inv_def word_less_nat_alt)
  moreover have "ca_list ?b = butlast (ca_list a)"
    using es len u by (simp add: ca_list_def butlast_take map_butlast [symmetric])
  ultimately show ?thesis using u by (auto simp: word_le_nat_alt)
qed

text \<open>
  One edit of the array by the operation of the source that performs it, with memory
  available. An index outside 32 bits cannot be passed.
\<close>

definition ca_edit :: "'v SGBaseCArray \<Rightarrow> 'v option edit \<Rightarrow> 'v SGBaseCArray option" where
  "ca_edit a e =
     (case e of
        Append v \<Rightarrow> Option.bind (SGBaseCArrayAppendValue True (Some a) v) ok
      | Insert v i \<Rightarrow> if i < 2 ^ 32
          then Option.bind (SGBaseCArrayInsertValueAtIndex True (Some a) v (of_nat i)) ok else None
      | Remove i \<Rightarrow> if i < 2 ^ 32 then ok (SGBaseCArrayRemoveValueAtIndex (Some a) (of_nat i)) else None
      | RemoveLast \<Rightarrow> ok (SGBaseCArrayRemoveLastValue (Some a)))"

definition ca_room :: nat where "ca_room = 2 ^ 29 - 2"

definition ca_fits :: "'a list \<Rightarrow> 'a \<Rightarrow> bool" where "ca_fits xs v \<longleftrightarrow> length xs < ca_room"

lemma ca_edit_refines:
  assumes inv: "ca_inv a" and e: "edit_list ca_fits (ca_list a) e = Some ys"
  shows "\<exists>b. ca_edit a e = Some b \<and> ca_inv b \<and> ca_list b = ys"
proof (cases e)
  case (Append v)
  with e ca_append [OF inv, of v] length_ca_list [OF inv] show ?thesis
    by (auto simp: ca_edit_def ca_fits_def ca_room_def split: if_splits)
next
  case (Insert v i)
  with e have i: "i \<le> length (ca_list a)" "length (ca_list a) < ca_room"
    and ys: "ys = take i (ca_list a) @ v # drop i (ca_list a)"
    by (auto simp: ca_fits_def split: if_splits)
  have n: "length (ca_list a) = unat (count a)" using length_ca_list [OF inv] .
  with i have u: "unat (of_nat i :: u32) = i" by (simp add: ca_room_def unat_of_nat_small)
  with i n have "(of_nat i :: u32) \<le> count a" by (simp add: word_le_nat_alt)
  from ca_insert [OF inv _ this, of v] u i n ys show ?thesis
    by (auto simp: ca_edit_def ca_room_def Insert)
next
  case (Remove i)
  with e have i: "i < length (ca_list a)" and ys: "ys = take i (ca_list a) @ drop (i + 1) (ca_list a)"
    by (auto split: if_splits)
  have n: "length (ca_list a) = unat (count a)" using length_ca_list [OF inv] .
  with i have i32: "i < 2 ^ 32" by (simp add: below_unat_u32)
  then have u: "unat (of_nat i :: u32) = i" by (simp add: unat_of_nat_small)
  with i n have "(of_nat i :: u32) < count a" by (simp add: word_less_nat_alt)
  from ca_remove [OF inv this] u ys i32 show ?thesis by (auto simp: ca_edit_def Remove)
next
  case RemoveLast
  with e ca_remove_last [OF inv] show ?thesis by (auto simp: ca_edit_def)
qed

interpretation ca: seq_store ca_inv ca_list ca_fits ca_edit
  by unfold_locales (rule ca_edit_refines)

lemma ca_init_inv:
  "SGBaseCArrayInit (Some a) = Inr b \<Longrightarrow> ca_inv b \<and> ca_list b = []"
  by (auto simp: SGBaseCArrayInit_def ca_inv_def ca_list_def)

text \<open>Apply visits the elements in order, each with its index.\<close>

lemma applyLoop_fold:
  "(\<forall>k. i \<le> k \<and> k < i + n \<longrightarrow> k < length es \<and> es ! k \<noteq> Junk) \<Longrightarrow>
    applyLoop es f i n u = Inr (fold (\<lambda>k. f (cell_ptr (es ! k)) (of_nat k)) [i..<i + n] u)"
proof (induction n arbitrary: i u)
  case 0
  then show ?case by simp
next
  case (Suc n)
  then have i: "i < length es" "es ! i \<noteq> Junk" by auto
  then obtain p where p: "es ! i = Ptr p" by (cases "es ! i") auto
  have "[i..<i + Suc n] = i # [Suc i..<Suc i + n]" by (simp add: upt_conv_Cons)
  with Suc.IH [of "Suc i" "f p (of_nat i) u"] Suc.prems i p show ?case by simp
qed

lemma ca_apply:
  assumes "ca_inv a"
  shows "SGBaseCArrayApply (Some a) (Some f) u =
    Inr (fold (\<lambda>k. f (ca_list a ! k) (of_nat k)) [0..<length (ca_list a)] u)"
proof (cases "elements a")
  case None
  with assms show ?thesis by (simp add: SGBaseCArrayApply_def ca_inv_def ca_list_def)
next
  case (Some es)
  have es: "unat (count a) < length es" "\<forall>i < unat (count a). es ! i \<noteq> Junk"
    using assms Some by (auto simp: ca_inv_def word_less_nat_alt)
  with applyLoop_fold [of 0 "unat (count a)" es f u] Some
  have "SGBaseCArrayApply (Some a) (Some f) u =
      Inr (fold (\<lambda>k. f (cell_ptr (es ! k)) (of_nat k)) [0..<unat (count a)] u)"
    by (simp add: SGBaseCArrayApply_def)
  also have "fold (\<lambda>k. f (cell_ptr (es ! k)) (of_nat k)) [0..<unat (count a)] u =
      fold (\<lambda>k. f (ca_list a ! k) (of_nat k)) [0..<unat (count a)] u"
    using Some es by (intro fold_cong) (auto simp: ca_list_def)
  finally show ?thesis using length_ca_list [OF assms] by simp
qed

subsection \<open>Properties\<close>

text \<open>
  C3: a pointer array that was initialised and then edited by any script of appends,
  insertions and removals holds exactly what the script leaves in the empty list, and no
  edit faults, as long as the script is valid on the list and memory is available.
\<close>

theorem c_array_edits:
  assumes "edits_list ca_fits [] es = Some ys"
  shows "\<exists>a b. SGBaseCArrayInit (Some a0) = Inr a \<and> run_edits ca_edit a es = Some b
    \<and> ca_inv b \<and> ca_list b = ys \<and> unat (count b) = length ys"
proof -
  obtain a where a: "SGBaseCArrayInit (Some a0) = Inr a" by (simp add: SGBaseCArrayInit_def)
  from ca_init_inv [OF this] ca.run_edits_spec [of a es ys] assms obtain b where
    b: "run_edits ca_edit a es = Some b" "ca_inv b" "ca_list b = ys"
    by auto
  with a length_ca_list [OF b(2)] show ?thesis by auto
qed

theorem c_array_edits_witness:
  "\<exists>a b. SGBaseCArrayInit (Some \<lparr>capacity = 3, count = 9, elements = None\<rparr>) = Inr a
    \<and> run_edits ca_edit a [Append (Some (1::nat)), Insert (Some 2) 0, Append None, Remove 1] = Some b
    \<and> ca_inv b \<and> ca_list b = [Some 2, None] \<and> unat (count b) = Suc (Suc 0)"
  using c_array_edits [of "[Append (Some (1::nat)), Insert (Some 2) 0, Append None, Remove 1]"
      "[Some 2, None]" "\<lparr>capacity = 3, count = 9, elements = None\<rparr>"]
  by (simp add: ca_fits_def ca_room_def)

text \<open>
  C22: the capacity search of the array. From any capacity an array can have it ends, for a
  request of at most 2 ^ 31 elements, with a capacity that covers the request and, unless
  no growth was needed, is less than twice the request; for a larger request the doubling
  wraps around and the loop never ends.
\<close>

theorem c_array_growth:
  assumes "capacity a = 0 \<or> geometric (capacity a)"
  shows "if unat n \<le> 2 ^ 31
    then \<exists>c. SGBaseCArrayNewCapacityFor a n = Some c \<and> n \<le> c
      \<and> (c = 16 \<or> c = capacity a \<or> unat c < 2 * unat n)
    else SGBaseCArrayNewCapacityFor a n = None"
proof -
  define c where "c = (if 0 = capacity a then 16 else capacity a)"
  have "geometric c" using assms geometric_16 by (auto simp: c_def)
  then obtain k where k: "k \<le> 27" "unat c = 16 * 2 ^ k" by (auto simp: geometric_def)
  have eq: "SGBaseCArrayNewCapacityFor a n = newCapacityLoop c n"
    by (simp add: SGBaseCArrayNewCapacityFor_def c_def kSGBaseCArrayBacketsInitSize_def)
  show ?thesis
  proof (cases "unat n \<le> 2 ^ 31")
    case True
    from newCapacityLoop_ends [OF k(2,1) True] True show ?thesis unfolding eq c_def by auto
  next
    case False
    have "(2::nat) ^ k \<le> 2 ^ 27" using k(1) by (intro power_increasing) auto
    then have "unat (of_nat (16 * 2 ^ k) :: u32) = unat c"
      using k(2) by (subst unat_of_nat_small) auto
    then have "c = 16 * 2 ^ k" by (simp add: word_unat_eq_iff)
    with False newCapacityLoop_diverges [of n k] show ?thesis unfolding eq by simp
  qed
qed

theorem c_array_growth_witness:
  "\<exists>c. SGBaseCArrayNewCapacityFor \<lparr>capacity = 16, count = 0, elements = None\<rparr> 100 = Some c \<and> 100 \<le> c
      \<and> (c = 16 \<or> c = 16 \<or> unat c < 2 * unat (100 :: u32))"
  using c_array_growth [of "\<lparr>capacity = 16, count = 0, elements = None\<rparr>" 100] geometric_16 by simp

end
