(* ===== verification/BlockPool.thy ===== *)
theory BlockPool
  imports Prelude
begin

text \<open>
  The contract of a pool of equally sized blocks: a request hands out a block that is not
  in use or reports that all are in use, a block in use can be given back, and its owner
  may write anything into it. A pool with its clients is a state machine whose state pairs
  the pool with the set of blocks in use; the clients give back and write only what they
  were handed. The locale shows once that in every reachable state a request can be
  answered, that no block in use is handed out again, and that a refusal means that every
  block is in use.
\<close>

datatype pool_event = Granted "nat option" | Returned nat | Wrote nat nat byte

inductive pool_step ::
  "('s \<Rightarrow> (nat option \<times> 's) option) \<Rightarrow> ('s \<Rightarrow> nat \<Rightarrow> 's option) \<Rightarrow> ('s \<Rightarrow> nat \<Rightarrow> nat \<Rightarrow> byte \<Rightarrow> 's option)
   \<Rightarrow> nat \<Rightarrow> 's \<times> nat set \<Rightarrow> pool_event \<Rightarrow> 's \<times> nat set \<Rightarrow> bool"
  for tk gv wt bsz where
  grant: "tk s = Some (r, t) \<Longrightarrow> pool_step tk gv wt bsz (s, L) (Granted r) (t, L \<union> set_option r)"
| return: "b \<in> L \<Longrightarrow> gv s b = Some t \<Longrightarrow> pool_step tk gv wt bsz (s, L) (Returned b) (t, L - {b})"
| scribble: "b \<in> L \<Longrightarrow> k < bsz \<Longrightarrow> wt s b k v = Some t \<Longrightarrow>
    pool_step tk gv wt bsz (s, L) (Wrote b k v) (t, L)"

inductive_cases grantE: "pool_step tk gv wt bsz (s, L) (Granted r) (t, M)"

inductive pool_run ::
  "('s \<Rightarrow> (nat option \<times> 's) option) \<Rightarrow> ('s \<Rightarrow> nat \<Rightarrow> 's option) \<Rightarrow> ('s \<Rightarrow> nat \<Rightarrow> nat \<Rightarrow> byte \<Rightarrow> 's option)
   \<Rightarrow> nat \<Rightarrow> 's \<times> nat set \<Rightarrow> pool_event list \<Rightarrow> 's \<times> nat set \<Rightarrow> bool"
  for tk gv wt bsz where
  start: "pool_run tk gv wt bsz x [] x"
| step: "pool_run tk gv wt bsz x es y \<Longrightarrow> pool_step tk gv wt bsz y e z \<Longrightarrow>
    pool_run tk gv wt bsz x (es @ [e]) z"

locale block_pool =
  fixes inv :: "'s \<Rightarrow> nat set \<Rightarrow> bool"
    and nblocks :: nat
    and bsz :: nat
    and tk :: "'s \<Rightarrow> (nat option \<times> 's) option"
    and gv :: "'s \<Rightarrow> nat \<Rightarrow> 's option"
    and wt :: "'s \<Rightarrow> nat \<Rightarrow> nat \<Rightarrow> byte \<Rightarrow> 's option"
  assumes tk_ok: "inv s L \<Longrightarrow> \<exists>r t. tk s = Some (r, t) \<and> inv t (L \<union> set_option r)
      \<and> (case r of None \<Rightarrow> L = {0..<nblocks} | Some b \<Rightarrow> b < nblocks \<and> b \<notin> L)"
    and gv_ok: "inv s L \<Longrightarrow> b \<in> L \<Longrightarrow> \<exists>t. gv s b = Some t \<and> inv t (L - {b})"
    and wt_ok: "inv s L \<Longrightarrow> b \<in> L \<Longrightarrow> k < bsz \<Longrightarrow> \<exists>t. wt s b k v = Some t \<and> inv t L"
begin

lemma step_inv:
  "pool_step tk gv wt bsz x e y \<Longrightarrow> inv (fst x) (snd x) \<Longrightarrow> inv (fst y) (snd y)"
proof (induction rule: pool_step.induct)
  case (grant s r t L)
  with tk_ok [of s L] show ?case by auto
next
  case (return b L s t)
  with gv_ok [of s L b] show ?case by auto
next
  case (scribble b L k s v t)
  with wt_ok [of s L b k v] show ?case by auto
qed

lemma run_inv:
  "pool_run tk gv wt bsz x es y \<Longrightarrow> inv (fst x) (snd x) \<Longrightarrow> inv (fst y) (snd y)"
  by (induction rule: pool_run.induct) (auto dest: step_inv)

lemma run_grant:
  assumes "inv s L" "pool_run tk gv wt bsz (s, L) es (t, M)"
  shows "\<exists>r u. pool_step tk gv wt bsz (t, M) (Granted r) (u, M \<union> set_option r)
    \<and> (case r of None \<Rightarrow> M = {0..<nblocks} | Some b \<Rightarrow> b < nblocks \<and> b \<notin> M)"
proof -
  from run_inv [OF assms(2)] assms(1) have "inv t M" by simp
  from tk_ok [OF this] show ?thesis by (auto intro: pool_step.grant)
qed

lemma grant_only_free:
  assumes "inv s L" "pool_run tk gv wt bsz (s, L) es (t, M)"
    and "pool_step tk gv wt bsz (t, M) (Granted r) (u, M')"
  shows "case r of None \<Rightarrow> M = {0..<nblocks} | Some b \<Rightarrow> b < nblocks \<and> b \<notin> M \<and> M' = insert b M"
proof -
  from run_inv [OF assms(2)] assms(1) have "inv t M" by simp
  from tk_ok [OF this] assms(3) show ?thesis by (auto elim!: grantE split: option.splits)
qed

lemma return_never_stuck:
  assumes "inv s L" "pool_run tk gv wt bsz (s, L) es (t, M)" "b \<in> M"
  shows "\<exists>u. pool_step tk gv wt bsz (t, M) (Returned b) (u, M - {b})"
proof -
  from run_inv [OF assms(2)] assms(1) have "inv t M" by simp
  from gv_ok [OF this assms(3)] assms(3) show ?thesis by (auto intro: pool_step.return)
qed

end

end
