(* ===== verification/Chunk.thy ===== *)
theory Chunk
  imports BlockPool
begin

text \<open>
  SGBaseChunk.c: one chunk of the small-object allocator
  (frameworks/SGFoundation/framework/source/base/allocator), at most 255 blocks of equal
  size whose free blocks form a list threaded through their own first bytes. A pointer
  into the chunk is its distance from SG\_BASE\_CHUNK\_BYTES; size\_t is 32 bits wide and
  the byte counts handed to malloc are computed at that width.

  Shown: after Init the free list holds every block in order, and with any interleaving of
  allocations, deallocations of blocks in use and writes into blocks in use, the chunk
  implements the block pool contract.
\<close>

subsection \<open>Data and operations\<close>

record SGBaseChunk =
  firstAvailableBlock :: byte
  blocksAvailable :: byte
  bytes :: "byte list"

definition sizeof_SGBaseChunk :: u32 where "sizeof_SGBaseChunk = 3"

definition SGBaseChunkAlloc ::
  "bool \<Rightarrow> (nat \<Rightarrow> byte) \<Rightarrow> u32 \<Rightarrow> byte \<Rightarrow> SGBaseChunk cres" where
  "SGBaseChunkAlloc ok1 junk blockSize numBlocks =
     (if \<not> (blockSize \<noteq> 0 \<and> numBlocks \<noteq> 0) then Inl AssertFail
      else if \<not> (blockSize * ucast numBlocks) div blockSize = ucast numBlocks then Inl AssertFail
      else let memorySize = sizeof_SGBaseChunk + 1 * (blockSize * ucast numBlocks) - 1 in
        if \<not> memorySize > 0 then Inl AssertFail
        else if \<not> ok1 then Inl AssertFail
        else Inr \<lparr>firstAvailableBlock = junk 0, blocksAvailable = junk 1,
                  bytes = map junk [2..<unat memorySize]\<rparr>)"

function initLoop :: "u32 \<Rightarrow> byte \<Rightarrow> byte \<Rightarrow> nat \<Rightarrow> byte list \<Rightarrow> byte list cres" where
  "initLoop blockSize numBlocks i p bs =
     (if i < numBlocks
      then bindR (wr bs p (i + 1)) (\<lambda>bs'. initLoop blockSize numBlocks (i + 1) (p + unat blockSize) bs')
      else Inr bs)"
  by pat_completeness auto
termination
proof (relation "measure (\<lambda>(_, n, i, _, _). unat n - unat i)", goal_cases)
  case 1
  then show ?case by simp
next
  case (2 blockSize numBlocks i p bs x)
  then have lt: "unat i < unat numBlocks" by (simp add: word_less_nat_alt)
  with unat_Suc_below [OF lt] show ?case by simp
qed

declare initLoop.simps [simp del]

definition SGBaseChunkInit :: "SGBaseChunk option \<Rightarrow> u32 \<Rightarrow> byte \<Rightarrow> SGBaseChunk cres" where
  "SGBaseChunkInit self blockSize numBlocks =
     (case self of None \<Rightarrow> Inl AssertFail
      | Some c \<Rightarrow>
         if \<not> (blockSize \<noteq> 0 \<and> numBlocks \<noteq> 0) then Inl AssertFail
         else if \<not> (blockSize * ucast numBlocks) div blockSize = ucast numBlocks then Inl AssertFail
         else bindR (initLoop blockSize numBlocks 0 0 (bytes c)) (\<lambda>bs.
           Inr (c\<lparr>firstAvailableBlock := 0, blocksAvailable := numBlocks, bytes := bs\<rparr>)))"

definition SGBaseChunkCreate ::
  "bool \<Rightarrow> (nat \<Rightarrow> byte) \<Rightarrow> u32 \<Rightarrow> byte \<Rightarrow> SGBaseChunk cres" where
  "SGBaseChunkCreate ok1 junk blockSize numBlocks =
     bindR (SGBaseChunkAlloc ok1 junk blockSize numBlocks)
       (\<lambda>c. SGBaseChunkInit (Some c) blockSize numBlocks)"

definition SGBaseChunkAllocateBlock ::
  "SGBaseChunk option \<Rightarrow> u32 \<Rightarrow> (u32 option \<times> SGBaseChunk) cres" where
  "SGBaseChunkAllocateBlock self blockSize =
     (case self of None \<Rightarrow> Inl AssertFail
      | Some c \<Rightarrow>
         if 0 = blocksAvailable c then Inr (None, c)
         else let pResult = ucast (firstAvailableBlock c) * blockSize in
           bindR (rd (bytes c) (unat pResult)) (\<lambda>nxt.
             Inr (Some pResult, c\<lparr>firstAvailableBlock := nxt,
                                  blocksAvailable := blocksAvailable c - 1\<rparr>)))"

definition SGBaseChunkDeallocateBlock ::
  "SGBaseChunk option \<Rightarrow> int \<Rightarrow> u32 \<Rightarrow> SGBaseChunk cres" where
  "SGBaseChunkDeallocateBlock self p blockSize =
     (case self of None \<Rightarrow> Inl AssertFail
      | Some c \<Rightarrow>
         if \<not> 0 \<le> p then Inl AssertFail
         else if \<not> 0 = p mod uint blockSize then Inl AssertFail
         else bindR (wr (bytes c) (nat p) (firstAvailableBlock c)) (\<lambda>bs.
           Inr (c\<lparr>bytes := bs, firstAvailableBlock := word_of_int (p div uint blockSize),
                  blocksAvailable := blocksAvailable c + 1\<rparr>)))"

text \<open>The owner of a block writes a byte into it.\<close>

definition chunk_write :: "u32 \<Rightarrow> SGBaseChunk \<Rightarrow> nat \<Rightarrow> nat \<Rightarrow> byte \<Rightarrow> SGBaseChunk option" where
  "chunk_write blockSize c b k v =
     ok (bindR (wr (bytes c) (b * unat blockSize + k) v) (\<lambda>bs. Inr (c\<lparr>bytes := bs\<rparr>)))"

subsection \<open>The free list\<close>

fun chain :: "nat \<Rightarrow> byte list \<Rightarrow> nat \<Rightarrow> nat \<Rightarrow> nat list" where
  "chain bsz bs 0 i = []"
| "chain bsz bs (Suc n) i = i # chain bsz bs n (unat (bs ! (i * bsz)))"

definition chunk_free :: "nat \<Rightarrow> SGBaseChunk \<Rightarrow> nat list" where
  "chunk_free bsz c = chain bsz (bytes c) (unat (blocksAvailable c)) (unat (firstAvailableBlock c))"

definition chunk_inv :: "u32 \<Rightarrow> byte \<Rightarrow> SGBaseChunk \<Rightarrow> nat set \<Rightarrow> bool" where
  "chunk_inv blockSize numBlocks c L \<longleftrightarrow>
     blockSize \<noteq> 0 \<and> length (bytes c) = unat numBlocks * unat blockSize
     \<and> unat numBlocks * unat blockSize < 2 ^ 32
     \<and> distinct (chunk_free (unat blockSize) c)
     \<and> L \<subseteq> {0..<unat numBlocks}
     \<and> set (chunk_free (unat blockSize) c) = {0..<unat numBlocks} - L"

lemma chain_cong:
  "(\<And>j. j \<in> set (chain bsz bs n i) \<Longrightarrow> bs' ! (j * bsz) = bs ! (j * bsz)) \<Longrightarrow>
    chain bsz bs' n i = chain bsz bs n i"
  by (induction n arbitrary: i) auto

lemma length_chain [simp]: "length (chain bsz bs n i) = n"
  by (induction n arbitrary: i) auto

lemma chain_upt:
  "(\<And>j. i \<le> j \<Longrightarrow> j < i + n \<Longrightarrow> unat (bs ! (j * bsz)) = Suc j) \<Longrightarrow> chain bsz bs n i = [i..<i + n]"
proof (induction n arbitrary: i)
  case 0
  then show ?case by simp
next
  case (Suc n)
  have "chain bsz bs n (Suc i) = [Suc i..<Suc i + n]" by (rule Suc.IH) (use Suc.prems in auto)
  then show ?case using Suc.prems [of i] by (simp add: upt_conv_Cons)
qed

lemma block_start_eq:
  assumes "b * n + k = j * n" "k < n"
  shows "b = (j::nat)"
proof -
  have "(b * n + k) div n = b" using assms(2) by simp
  moreover have "(j * n) div n = j" using assms(2) by simp
  ultimately show ?thesis using assms(1) by simp
qed

lemma block_in_range:
  assumes "b < N" "k < n"
  shows "b * n + k < N * (n::nat)"
proof -
  have "b * n + k < Suc b * n" using assms(2) by simp
  also have "\<dots> \<le> N * n" using assms(1) by (intro mult_le_mono1) simp
  finally show ?thesis .
qed

lemma card_diff_less:
  assumes "finite A" "b \<in> A" "b \<in> L"
  shows "card (A - L) < card A"
proof (rule psubset_card_mono [OF assms(1)])
  show "A - L \<subset> A" using assms(2,3) by blast
qed

lemma chunk_start_in: "b < N \<Longrightarrow> 0 < n \<Longrightarrow> b * n < N * (n::nat)"
  using block_in_range [of b N 0 n] by simp

subsection \<open>Initialisation\<close>

lemma unat_ucast_byte [simp]: "unat (ucast (b :: byte) :: u32) = unat b"
proof -
  have "unat b < 2 ^ 32" by (rule less_trans [OF unat_less_256]) simp
  then show ?thesis by (simp add: unsigned_ucast_eq take_bit_nat_eq_self)
qed

lemma initLoop_writes:
  assumes "unat i \<le> unat n" "length bs = unat n * unat z" "0 < unat z"
  shows "\<exists>bs'. initLoop z n i (unat i * unat z) bs = Inr bs' \<and> length bs' = length bs
    \<and> (\<forall>j. unat i \<le> j \<and> j < unat n \<longrightarrow> unat (bs' ! (j * unat z)) = Suc j)
    \<and> (\<forall>j < unat i. bs' ! (j * unat z) = bs ! (j * unat z))"
  using assms
proof (induction "unat n - unat i" arbitrary: i bs)
  case 0
  then have "\<not> i < n" by (simp add: word_less_nat_alt)
  with 0 show ?case by (simp add: initLoop.simps [of z n i])
next
  case (Suc d)
  then have lt: "unat i < unat n" by simp
  have i1: "unat (i + 1) = Suc (unat i)" by (rule unat_Suc_below [OF lt])
  have p: "unat i * unat z < length bs"
    using chunk_start_in [OF lt Suc.prems(3)] Suc.prems(2) by simp
  let ?bs = "bs[unat i * unat z := i + 1]"
  have "d = unat n - unat (i + 1)" using Suc.hyps(2) i1 by simp
  from Suc.hyps(1) [OF this, of ?bs] Suc.prems i1 lt obtain bs' where
    bs': "initLoop z n (i + 1) (unat (i + 1) * unat z) ?bs = Inr bs'" "length bs' = length bs"
      "\<forall>j. unat (i + 1) \<le> j \<and> j < unat n \<longrightarrow> unat (bs' ! (j * unat z)) = Suc j"
      "\<forall>j < unat (i + 1). bs' ! (j * unat z) = ?bs ! (j * unat z)"
    by auto
  have step: "initLoop z n i (unat i * unat z) bs = Inr bs'"
    using lt p bs'(1) i1 by (simp add: initLoop.simps [of z n i] word_less_nat_alt add.commute)
  have "unat (bs' ! (unat i * unat z)) = Suc (unat i)"
    using bs'(4) i1 p by simp
  then have "\<forall>j. unat i \<le> j \<and> j < unat n \<longrightarrow> unat (bs' ! (j * unat z)) = Suc j"
    using bs'(3) i1 by (metis Suc_leI le_neq_implies_less)
  moreover have "\<forall>j < unat i. bs' ! (j * unat z) = bs ! (j * unat z)"
    using bs'(4) i1 Suc.prems(3) by (auto simp: nth_list_update)
  ultimately show ?case using step bs'(2) by auto
qed

text \<open>The overflow guard of the code means that the product is exact.\<close>

lemma chunk_guard_exact:
  assumes "blockSize \<noteq> 0" "(blockSize * ucast numBlocks) div blockSize = (ucast (numBlocks :: byte) :: u32)"
    "numBlocks \<noteq> 0"
  shows "unat (blockSize * ucast numBlocks :: u32) = unat numBlocks * unat blockSize"
proof -
  let ?z = "unat blockSize" and ?n = "unat numBlocks" and ?m = "(2::nat) ^ 32"
  have z: "0 < ?z" using assms(1) by (simp add: unat_gt_0)
  have p: "unat (blockSize * ucast numBlocks :: u32) = (?z * ?n) mod ?m"
    by (simp add: unat_word_ariths)
  with assms(2) have d: "(?z * ?n) mod ?m div ?z = ?n"
    by (metis unat_div_distrib unat_ucast_byte)
  then have "?n * ?z \<le> (?z * ?n) mod ?m"
    by (metis div_times_less_eq_dividend)
  moreover have "(?z * ?n) mod ?m \<le> ?z * ?n" by simp
  ultimately show ?thesis using p by (simp add: mult.commute)
qed

lemma chunk_init:
  assumes args: "blockSize \<noteq> 0" "numBlocks \<noteq> 0"
      "(blockSize * ucast numBlocks) div blockSize = (ucast numBlocks :: u32)"
    and len: "length (bytes c) = unat numBlocks * unat blockSize"
  shows "\<exists>c'. SGBaseChunkInit (Some c) blockSize numBlocks = Inr c'
    \<and> chunk_inv blockSize numBlocks c' {} \<and> chunk_free (unat blockSize) c' = [0..<unat numBlocks]"
proof -
  have z: "0 < unat blockSize" using args(1) by (simp add: unat_gt_0)
  have bound: "unat numBlocks * unat blockSize < 2 ^ 32"
    using chunk_guard_exact [OF args(1,3,2)] unat_less_2p32 [of "blockSize * ucast numBlocks"] by simp
  from initLoop_writes [of 0 numBlocks "bytes c" blockSize] len z obtain bs where
    bs: "initLoop blockSize numBlocks 0 0 (bytes c) = Inr bs" "length bs = length (bytes c)"
      "\<forall>j < unat numBlocks. unat (bs ! (j * unat blockSize)) = Suc j"
    by auto
  let ?c = "c\<lparr>firstAvailableBlock := 0, blocksAvailable := numBlocks, bytes := bs\<rparr>"
  have "SGBaseChunkInit (Some c) blockSize numBlocks = Inr ?c"
    using args bs(1) by (simp add: SGBaseChunkInit_def)
  moreover have free: "chunk_free (unat blockSize) ?c = [0..<unat numBlocks]"
    using chain_upt [of 0 "unat numBlocks" bs "unat blockSize"] bs(3) by (simp add: chunk_free_def)
  ultimately show ?thesis using args(1) bs(2) len bound by (simp add: chunk_inv_def)
qed

lemma chunk_create:
  assumes args: "blockSize \<noteq> 0" "numBlocks \<noteq> 0" "unat numBlocks * unat blockSize + 2 < 2 ^ 32"
  shows "\<exists>c. SGBaseChunkCreate True junk blockSize numBlocks = Inr c
    \<and> chunk_inv blockSize numBlocks c {} \<and> chunk_free (unat blockSize) c = [0..<unat numBlocks]"
proof -
  have u: "unat (blockSize * ucast numBlocks :: u32) = unat numBlocks * unat blockSize"
    using args(3) by (subst unat_mult_no_wrap) (simp_all add: mult.commute)
  have g: "(blockSize * ucast numBlocks) div blockSize = (ucast numBlocks :: u32)"
    using args(1) u by (intro word_unat_eq_iff [THEN iffD2]) (simp add: unat_div_distrib unat_gt_0)
  have mem: "sizeof_SGBaseChunk + 1 * (blockSize * ucast numBlocks) - 1 =
      (blockSize * ucast numBlocks :: u32) + 2"
    by (simp add: sizeof_SGBaseChunk_def)
  have um: "unat ((blockSize * ucast numBlocks :: u32) + 2) = unat numBlocks * unat blockSize + 2"
    using u args(3) by (simp add: unat_word_ariths)
  let ?c = "\<lparr>firstAvailableBlock = junk 0, blocksAvailable = junk 1,
      bytes = map junk [2..<unat numBlocks * unat blockSize + 2]\<rparr>"
  have "SGBaseChunkAlloc True junk blockSize numBlocks = Inr ?c"
    using args(1,2) g um unfolding SGBaseChunkAlloc_def Let_def mem
    by (simp add: word_less_nat_alt)
  moreover have "length (bytes ?c) = unat numBlocks * unat blockSize" by (simp del: upt_Suc)
  ultimately show ?thesis using chunk_init [OF args(1,2) g, of ?c]
    by (simp only: SGBaseChunkCreate_def bindR_simps)
qed

subsection \<open>The pool contract\<close>

definition chunk_take :: "u32 \<Rightarrow> SGBaseChunk \<Rightarrow> (nat option \<times> SGBaseChunk) option" where
  "chunk_take blockSize c =
     map_option (\<lambda>(r, t). (map_option (\<lambda>p. unat p div unat blockSize) r, t))
       (ok (SGBaseChunkAllocateBlock (Some c) blockSize))"

definition chunk_give :: "u32 \<Rightarrow> SGBaseChunk \<Rightarrow> nat \<Rightarrow> SGBaseChunk option" where
  "chunk_give blockSize c b =
     ok (SGBaseChunkDeallocateBlock (Some c) (int (b * unat blockSize)) blockSize)"

lemma chunk_take_ok:
  assumes inv: "chunk_inv z n c L"
  shows "\<exists>r t. chunk_take z c = Some (r, t) \<and> chunk_inv z n t (L \<union> set_option r)
    \<and> (case r of None \<Rightarrow> L = {0..<unat n} | Some b \<Rightarrow> b < unat n \<and> b \<notin> L)"
proof (cases "blocksAvailable c = 0")
  case True
  with inv have "L = {0..<unat n}" by (auto simp: chunk_inv_def chunk_free_def)
  with True inv show ?thesis by (simp add: chunk_take_def SGBaseChunkAllocateBlock_def)
next
  case False
  then obtain m where m: "unat (blocksAvailable c) = Suc m"
    by (cases "unat (blocksAvailable c)") (auto simp: unat_0_iff)
  let ?b = "unat (firstAvailableBlock c)" and ?z = "unat z"
  have z: "0 < ?z" using inv by (simp add: chunk_inv_def unat_gt_0)
  have free: "chunk_free ?z c = ?b # chain ?z (bytes c) m (unat (bytes c ! (?b * ?z)))"
    by (simp add: chunk_free_def m)
  have b: "?b < unat n" "?b \<notin> L" using inv free by (auto simp: chunk_inv_def)
  have off: "?b * ?z < unat n * ?z" by (rule chunk_start_in [OF b(1) z])
  have u: "unat (ucast (firstAvailableBlock c) * z :: u32) = ?b * ?z"
    using less_trans [OF off] inv by (subst unat_mult_no_wrap) (simp_all add: chunk_inv_def)
  let ?t = "c\<lparr>firstAvailableBlock := bytes c ! (?b * ?z), blocksAvailable := blocksAvailable c - 1\<rparr>"
  have "chunk_take z c = Some (Some ?b, ?t)"
    using False inv off u z
    by (simp add: chunk_take_def SGBaseChunkAllocateBlock_def Let_def chunk_inv_def)
  moreover have "chunk_free ?z ?t = chain ?z (bytes c) m (unat (bytes c ! (?b * ?z)))"
    using False m by (simp add: chunk_free_def unat_minus_one)
  then have "chunk_inv z n ?t (insert ?b L)"
    using inv free b by (auto simp: chunk_inv_def)
  ultimately show ?thesis using b by auto
qed

lemma chunk_give_ok:
  assumes inv: "chunk_inv z n c L" and b: "b \<in> L"
  shows "\<exists>t. chunk_give z c b = Some t \<and> chunk_inv z n t (L - {b})
    \<and> chunk_free (unat z) t = b # chunk_free (unat z) c"
proof -
  let ?z = "unat z"
  have z: "0 < ?z" using inv by (simp add: chunk_inv_def unat_gt_0)
  have bn: "b < unat n" using inv b by (auto simp: chunk_inv_def)
  have off: "b * ?z < length (bytes c)"
    using chunk_start_in [OF bn z] inv by (simp add: chunk_inv_def)
  have ub: "unat (word_of_int (int b) :: byte) = b"
    using less_trans [OF bn unat_less_256] by (simp add: unat_of_nat_small)
  let ?bs = "(bytes c)[b * ?z := firstAvailableBlock c]"
  let ?t = "c\<lparr>bytes := ?bs, firstAvailableBlock := word_of_int (int b),
      blocksAvailable := blocksAvailable c + 1\<rparr>"
  have zi: "uint z = int ?z" by (rule uint_nat)
  have "int (b * ?z) div uint z = int b" "int (b * ?z) mod uint z = 0" "nat (int (b * ?z)) = b * ?z"
    using z unfolding zi by (simp_all only: zdiv_int [symmetric] zmod_int [symmetric] nat_int) simp_all
  then have op: "chunk_give z c b = Some ?t"
    using off by (simp only: chunk_give_def SGBaseChunkDeallocateBlock_def option.case wr_in) simp
  have "length (chunk_free ?z c) = unat (blocksAvailable c)" by (simp add: chunk_free_def)
  moreover have "distinct (chunk_free ?z c)" using inv by (simp add: chunk_inv_def)
  ultimately have "unat (blocksAvailable c) = card (set (chunk_free ?z c))"
    by (simp add: distinct_card)
  also have "\<dots> = card ({0..<unat n} - L)" using inv by (simp add: chunk_inv_def)
  also have "\<dots> < card {0..<unat n}" using b bn by (intro card_diff_less) simp_all
  finally have "unat (blocksAvailable c + 1) = Suc (unat (blocksAvailable c))"
    using unat_Suc_below [of "blocksAvailable c" n] by simp
  then have "chunk_free ?z ?t =
      b # chain ?z ?bs (unat (blocksAvailable c)) (unat (firstAvailableBlock c))"
    using ub off by (simp add: chunk_free_def)
  also have "chain ?z ?bs (unat (blocksAvailable c)) (unat (firstAvailableBlock c)) = chunk_free ?z c"
    unfolding chunk_free_def
  proof (rule chain_cong)
    fix j assume "j \<in> set (chain ?z (bytes c) (unat (blocksAvailable c)) (unat (firstAvailableBlock c)))"
    then have "j \<noteq> b" using inv b by (auto simp: chunk_inv_def chunk_free_def)
    with z show "?bs ! (j * ?z) = bytes c ! (j * ?z)" by simp
  qed
  finally have free: "chunk_free ?z ?t = b # chunk_free ?z c" .
  have "chunk_inv z n ?t (L - {b})"
    using inv b bn free by (auto simp: chunk_inv_def)
  with op free show ?thesis by auto
qed

lemma chunk_write_ok:
  assumes inv: "chunk_inv z n c L" and b: "b \<in> L" and k: "k < unat z"
  shows "\<exists>t. chunk_write z c b k v = Some t \<and> chunk_inv z n t L"
proof -
  let ?z = "unat z"
  have bn: "b < unat n" using inv b by (auto simp: chunk_inv_def)
  have off: "b * ?z + k < length (bytes c)"
    using block_in_range [OF bn k] inv by (simp add: chunk_inv_def)
  let ?t = "c\<lparr>bytes := (bytes c)[b * ?z + k := v]\<rparr>"
  have "chunk_free ?z ?t = chunk_free ?z c"
    unfolding chunk_free_def
  proof (simp, rule chain_cong)
    fix j assume "j \<in> set (chain ?z (bytes c) (unat (blocksAvailable c)) (unat (firstAvailableBlock c)))"
    then have "j \<noteq> b" using inv b by (auto simp: chunk_inv_def chunk_free_def)
    with block_start_eq [OF _ k, of b j] have "b * ?z + k \<noteq> j * ?z" by blast
    then show "(bytes c)[b * ?z + k := v] ! (j * ?z) = bytes c ! (j * ?z)" by simp
  qed
  with inv have "chunk_inv z n ?t L" by (simp add: chunk_inv_def)
  with off show ?thesis by (simp add: chunk_write_def)
qed

interpretation chunk: block_pool "chunk_inv z n" "unat n" "unat z" "chunk_take z" "chunk_give z" "chunk_write z"
  for z n
proof
  show "\<exists>r t. chunk_take z s = Some (r, t) \<and> chunk_inv z n t (L \<union> set_option r)
    \<and> (case r of None \<Rightarrow> L = {0..<unat n} | Some b \<Rightarrow> b < unat n \<and> b \<notin> L)"
    if "chunk_inv z n s L" for s L
    using that by (rule chunk_take_ok)
  show "\<exists>t. chunk_give z s b = Some t \<and> chunk_inv z n t (L - {b})"
    if "chunk_inv z n s L" "b \<in> L" for s L b
    using chunk_give_ok [OF that] by auto
  show "\<exists>t. chunk_write z s b k v = Some t \<and> chunk_inv z n t L"
    if "chunk_inv z n s L" "b \<in> L" "k < unat z" for s L b k v
    using that by (rule chunk_write_ok)
qed

subsection \<open>Properties\<close>

text \<open>
  C1: a chunk created for numBlocks blocks of blockSize bytes, used by clients that give
  back and write only blocks they hold, in any order: every request succeeds or is refused,
  a block that is granted is a block of the chunk that nobody holds, and a refusal means
  that all blocks are held.
\<close>

theorem chunk_pool_safe:
  assumes "blockSize \<noteq> 0" "numBlocks \<noteq> 0" "unat numBlocks * unat blockSize + 2 < 2 ^ 32"
    and "SGBaseChunkCreate True junk blockSize numBlocks = Inr c"
    and "pool_run (chunk_take blockSize) (chunk_give blockSize) (chunk_write blockSize) (unat blockSize)
      (c, {}) es (t, M)"
  shows "\<exists>r u. chunk_take blockSize t = Some (r, u)
    \<and> (case r of None \<Rightarrow> M = {0..<unat numBlocks} | Some b \<Rightarrow> b < unat numBlocks \<and> b \<notin> M)"
proof -
  from chunk_create [OF assms(1,2,3), of junk] assms(4) have "chunk_inv blockSize numBlocks c {}" by simp
  from chunk.run_grant [OF this assms(5)] show ?thesis by (auto elim!: grantE)
qed

text \<open>Two blocks of four bytes: one is taken and written to, the other taken, the first given back.\<close>

definition chunk_at :: "byte \<Rightarrow> byte \<Rightarrow> byte \<Rightarrow> SGBaseChunk" where
  "chunk_at i n b = \<lparr>firstAvailableBlock = i, blocksAvailable = n, bytes = [b, 0, 0, 0, 2, 0, 0, 0]\<rparr>"

lemma chunk_at_created: "SGBaseChunkCreate True (\<lambda>_. 0) 4 2 = Inr (chunk_at 0 2 1)"
  by (simp add: chunk_at_def SGBaseChunkCreate_def SGBaseChunkAlloc_def SGBaseChunkInit_def sizeof_SGBaseChunk_def
      initLoop.simps [of 4 2 0] initLoop.simps [of 4 2 1] initLoop.simps [of 4 2 2] upt_rec)

lemma chunk_at_run:
  "pool_run (chunk_take 4) (chunk_give 4) (chunk_write 4) (unat (4 :: u32)) (chunk_at 0 2 1, {})
     [Granted (Some 0), Wrote 0 0 9, Granted (Some 1), Returned 0] (chunk_at 0 1 2, {1})"
proof -
  have "chunk_take 4 (chunk_at 0 2 1) = Some (Some 0, chunk_at 1 1 1)" "chunk_write 4 (chunk_at 1 1 1) 0 0 9 = Some (chunk_at 1 1 9)"
    "chunk_take 4 (chunk_at 1 1 9) = Some (Some 1, chunk_at 2 0 9)" "chunk_give 4 (chunk_at 2 0 9) 0 = Some (chunk_at 0 1 2)"
    by (simp_all add: chunk_take_def chunk_write_def chunk_at_def SGBaseChunkAllocateBlock_def SGBaseChunkDeallocateBlock_def chunk_give_def rd_def wr_def)
  note step = this
  have g0: "pool_step (chunk_take 4) (chunk_give 4) (chunk_write 4) (unat (4 :: u32)) (chunk_at 0 2 1, {}) (Granted (Some 0)) (chunk_at 1 1 1, {} \<union> set_option (Some 0))"
    by (rule pool_step.grant) (rule step(1))
  have w: "pool_step (chunk_take 4) (chunk_give 4) (chunk_write 4) (unat (4 :: u32)) (chunk_at 1 1 1, {0}) (Wrote 0 0 9) (chunk_at 1 1 9, {0})"
    by (rule pool_step.scribble) (simp_all add: step(2))
  have g1: "pool_step (chunk_take 4) (chunk_give 4) (chunk_write 4) (unat (4 :: u32)) (chunk_at 1 1 9, {0}) (Granted (Some 1)) (chunk_at 2 0 9, {0} \<union> set_option (Some 1))"
    by (rule pool_step.grant) (rule step(3))
  have b: "pool_step (chunk_take 4) (chunk_give 4) (chunk_write 4) (unat (4 :: u32)) (chunk_at 2 0 9, {0, 1}) (Returned 0) (chunk_at 0 1 2, {0, 1} - {0})"
    by (rule pool_step.return) (simp_all add: step(4))
  have w': "pool_step (chunk_take 4) (chunk_give 4) (chunk_write 4) (unat (4 :: u32)) (chunk_at 1 1 1, {} \<union> set_option (Some 0)) (Wrote 0 0 9) (chunk_at 1 1 9, {0})"
    using w by simp
  have b': "pool_step (chunk_take 4) (chunk_give 4) (chunk_write 4) (unat (4 :: u32)) (chunk_at 2 0 9, {0} \<union> set_option (Some 1)) (Returned 0) (chunk_at 0 1 2, {1})"
    using b by (simp add: insert_commute insert_Diff_if)
  from pool_run.step [OF pool_run.step [OF pool_run.step [OF pool_run.step [OF pool_run.start g0] w'] g1] b'] show ?thesis by simp
qed

theorem chunk_pool_safe_witness:
  "\<exists>r u. chunk_take 4 (chunk_at 0 1 2) = Some (r, u)
    \<and> (case r of None \<Rightarrow> {1} = {0..<unat (2 :: byte)} | Some b \<Rightarrow> b < unat (2 :: byte) \<and> b \<notin> {1})"
  by (rule chunk_pool_safe [OF _ _ _ chunk_at_created chunk_at_run]) simp_all

end
