(* ===== verification/URLEscape.thy ===== *)
theory URLEscape
  imports Prelude
begin

text \<open>
  SGURLEscape.c: percent-encoding and decoding of byte strings
  (frameworks/SGFoundation/framework/source/extensions/data). The argument mem is the
  memory the string pointer addresses, up to the end of its block; the output buffer is an
  allocated block with indeterminate contents (junk). size\_t and int are 32 bits wide and
  wrap. The result is Inr of the buffer, Inr None when the code returns NULL, Inl on a
  fault.

  Shown: encoding never writes outside its buffer and gives the percent-encoding of the
  input; decoding inverts it; decoding a string that ends inside an escape leaves the
  input block, because the remaining length wraps below zero.
\<close>

subsection \<open>What the code uses of the C library\<close>

definition isalnumC :: "byte \<Rightarrow> bool" where
  "isalnumC c \<longleftrightarrow> 0x30 \<le> c \<and> c \<le> 0x39 \<or> 0x41 \<le> c \<and> c \<le> 0x5a \<or> 0x61 \<le> c \<and> c \<le> 0x7a"

definition hexval :: "byte \<Rightarrow> u32 option" where
  "hexval c =
     (if 0x30 \<le> c \<and> c \<le> 0x39 then Some (ucast c - 0x30)
      else if 0x41 \<le> c \<and> c \<le> 0x46 then Some (ucast c - 0x37)
      else if 0x61 \<le> c \<and> c \<le> 0x66 then Some (ucast c - 0x57)
      else None)"

text \<open>
  sscanf(s, "\%02X", hex): white space is skipped, then at most two characters are read as
  strtoul would read them. The digits case of two characters; a sign takes one of the two;
  a lone "0x" reads as 0, as the BSD library does. The end of the string before any
  character is an input failure, reported as EOF.
\<close>

datatype scan = ScanEOF | ScanFail | ScanOk u32

definition scanHex1 :: "byte list \<Rightarrow> scan cres" where
  "scanHex1 s = bindR (rd s 0) (\<lambda>c. case hexval c of None \<Rightarrow> Inr ScanFail | Some d \<Rightarrow> Inr (ScanOk d))"

definition scanHex2 :: "byte list \<Rightarrow> scan cres" where
  "scanHex2 s = bindR (rd s 0) (\<lambda>c.
     if c = 0 then Inr ScanEOF
     else if c = 0x2b then scanHex1 (drop 1 s)
     else if c = 0x2d then bindR (scanHex1 (drop 1 s)) (\<lambda>r.
       case r of ScanOk d \<Rightarrow> Inr (ScanOk (- d)) | _ \<Rightarrow> Inr r)
     else case hexval c of None \<Rightarrow> Inr ScanFail
       | Some d \<Rightarrow> bindR (rd s 1) (\<lambda>c'. case hexval c' of
           None \<Rightarrow> Inr (ScanOk d) | Some d' \<Rightarrow> Inr (ScanOk (16 * d + d'))))"

definition sscanf02X :: "byte list \<Rightarrow> scan cres" where
  "sscanf02X s = scanHex2 (dropWhile isspaceC s)"

definition hexDigitUpper :: "byte \<Rightarrow> byte" where
  "hexDigitUpper d = (if d < 10 then 0x30 + d else 0x37 + d)"

definition sprintf02X :: "byte \<Rightarrow> byte list" where
  "sprintf02X c = [0x25, hexDigitUpper (c div 16), hexDigitUpper (c mod 16), 0]"

subsection \<open>The operations\<close>

text \<open>strchr also finds the terminating NUL, so a zero byte is in the table.\<close>

definition isSymbolToBeUnescaped :: "byte \<Rightarrow> bool" where
  "isSymbolToBeUnescaped c \<longleftrightarrow> isalnumC c \<or> c \<in> set [0x2a, 0x2d, 0x2e, 0x5f, 0]"

fun writeBytes :: "byte list \<Rightarrow> nat \<Rightarrow> byte list \<Rightarrow> byte list cres" where
  "writeBytes ns i [] = Inr ns"
| "writeBytes ns i (b # bs) = bindR (wr ns i b) (\<lambda>ns'. writeBytes ns' (Suc i) bs)"

definition nextOk :: "bool list \<Rightarrow> bool \<times> bool list" where
  "nextOk oks = (case oks of [] \<Rightarrow> (True, []) | b # bs \<Rightarrow> (b, bs))"

definition reallocBytes :: "(nat \<Rightarrow> byte) \<Rightarrow> byte list option \<Rightarrow> nat \<Rightarrow> byte list" where
  "reallocBytes junk ns n =
     (let old = (case ns of None \<Rightarrow> [] | Some b \<Rightarrow> b) in take n old @ map junk [length old..<n])"

definition deref :: "byte list option \<Rightarrow> byte list cres" where
  "deref p = (case p of None \<Rightarrow> Inl NullDeref | Some b \<Rightarrow> Inr b)"

fun escapeLoop ::
  "(nat \<Rightarrow> byte) \<Rightarrow> bool list \<Rightarrow> byte list \<Rightarrow> nat \<Rightarrow> nat \<Rightarrow> byte list option \<Rightarrow> u32 \<Rightarrow> u32 \<Rightarrow> nat
   \<Rightarrow> byte list option cres" where
  "escapeLoop junk oks mem p 0 ns allocsize newlen index =
     bindR (deref ns) (\<lambda>b. bindR (wr b index 0) (\<lambda>b'. Inr (Some b')))"
| "escapeLoop junk oks mem p (Suc len) ns allocsize newlen index =
     bindR (rd mem p) (\<lambda>c.
       if isSymbolToBeUnescaped c
       then bindR (deref ns) (\<lambda>b. bindR (wr b index c) (\<lambda>b'.
              escapeLoop junk oks mem (Suc p) len (Some b') allocsize newlen (index + 1)))
       else
         let newlen' = newlen + 2 in
         if newlen' > allocsize
         then (case nextOk oks of
             (False, _) \<Rightarrow> Inr None
           | (True, oks') \<Rightarrow>
               let allocsize' = allocsize * 2 in
               bindR (writeBytes (reallocBytes junk ns (unat allocsize')) index (sprintf02X c)) (\<lambda>b'.
               escapeLoop junk oks' mem (Suc p) len (Some b') allocsize' newlen' (index + 3)))
         else bindR (deref ns) (\<lambda>b. bindR (writeBytes b index (sprintf02X c)) (\<lambda>b'.
               escapeLoop junk oks mem (Suc p) len (Some b') allocsize newlen' (index + 3))))"

definition SGURLEscape ::
  "(nat \<Rightarrow> byte) \<Rightarrow> bool list \<Rightarrow> byte list \<Rightarrow> u32 \<Rightarrow> byte list option cres" where
  "SGURLEscape junk oks mem len =
     bindR (if len \<noteq> 0 then Inr len else map_sum id of_nat (strlenC mem)) (\<lambda>n.
       let allocsize = n + 1; (ok1, oks') = nextOk oks;
           ns = (if ok1 then Some (map junk [0..<unat allocsize]) else None) in
       escapeLoop junk oks' mem 0 (unat (allocsize - 1)) ns allocsize allocsize 0)"

function unescapeLoop ::
  "byte list \<Rightarrow> nat \<Rightarrow> byte list \<Rightarrow> nat \<Rightarrow> u32 \<Rightarrow> u32 option \<Rightarrow> byte list cres" where
  "unescapeLoop mem p ns index allocsize hex =
     (let allocsize1 = allocsize - 1 in
      if allocsize1 > 0
      then bindR (rd mem p) (\<lambda>c.
        bindR (if c = 0x25
               then bindR (sscanf02X (drop (p + 1) mem)) (\<lambda>r.
                 let hex' = (case r of ScanOk h \<Rightarrow> Some h | _ \<Rightarrow> hex) in
                 if r = ScanFail then Inr (c, p, allocsize1, hex')
                 else (case hex' of None \<Rightarrow> Inl Uninit
                       | Some h \<Rightarrow> Inr (ucast h, p + 2, allocsize1 - 2, hex')))
               else if c = 0x2b then Inr (0x20, p, allocsize1, hex)
               else Inr (c, p, allocsize1, hex))
          (\<lambda>(c', p', allocsize2, hex'').
        bindR (wr ns index c') (\<lambda>ns'.
        unescapeLoop mem (p' + 1) ns' (index + 1) allocsize2 hex'')))
      else wr ns index 0)"
  by pat_completeness auto
termination
  by (relation "measure (\<lambda>(mem, p, ns, index, allocsize, hex). length ns - index)")
    (auto simp: wr_def split: if_splits)

declare unescapeLoop.simps [simp del]

definition SGURLUnescape ::
  "(nat \<Rightarrow> byte) \<Rightarrow> bool \<Rightarrow> byte list \<Rightarrow> u32 \<Rightarrow> byte list option cres" where
  "SGURLUnescape junk ok1 mem len =
     bindR (if len \<noteq> 0 then Inr len else map_sum id of_nat (strlenC mem)) (\<lambda>n.
       let allocsize = n + 1 in
       if \<not> ok1 then Inr None
       else bindR (unescapeLoop mem 0 (map junk [0..<unat allocsize]) 0 allocsize None)
              (\<lambda>ns. Inr (Some ns)))"

subsection \<open>Encoding\<close>

definition escapeByte :: "byte \<Rightarrow> byte list" where
  "escapeByte c = (if isSymbolToBeUnescaped c then [c] else butlast (sprintf02X c))"

definition escapeBytes :: "byte list \<Rightarrow> byte list" where
  "escapeBytes s = concat (map escapeByte s)"

lemma writeBytes_ok:
  "i + length bs \<le> length ns \<Longrightarrow>
    writeBytes ns i bs = Inr (take i ns @ bs @ drop (i + length bs) ns)"
proof (induction bs arbitrary: ns i)
  case Nil
  then show ?case by simp
next
  case (Cons b bs)
  then have "writeBytes (ns[i := b]) (Suc i) bs =
      Inr (take (Suc i) (ns[i := b]) @ bs @ drop (Suc i + length bs) (ns[i := b]))"
    by simp
  with Cons.prems show ?case by (simp add: take_Suc_conv_app_nth)
qed

lemma length_escapeByte: "1 \<le> length (escapeByte c)" "length (escapeByte c) \<le> 3"
  by (simp_all add: escapeByte_def sprintf02X_def)

lemma escapeBytes_Cons: "escapeBytes (c # s) = escapeByte c @ escapeBytes s"
  by (simp add: escapeBytes_def)

lemma escapeBytes_Nil [simp]: "escapeBytes [] = []"
  by (simp add: escapeBytes_def)

lemma length_escapeBytes: "length s \<le> length (escapeBytes s)" "length (escapeBytes s) \<le> 3 * length s"
proof (induction s)
  case Nil
  { case 1 show ?case by simp next case 2 show ?case by simp }
next
  case (Cons c s)
  { case 1 show ?case using Cons length_escapeByte [of c] by (simp add: escapeBytes_Cons)
  next case 2 show ?case using Cons length_escapeByte [of c] by (simp add: escapeBytes_Cons) }
qed

lemma nextOk_True: "set oks \<subseteq> {True} \<Longrightarrow> \<exists>oks'. nextOk oks = (True, oks') \<and> set oks' \<subseteq> {True}"
  by (cases oks) (auto simp: nextOk_def)

text \<open>Room for one escape sequence, after the doubling the code does when it is short.\<close>

lemma escape_room:
  fixes newlen allocsize :: u32
  assumes "unat newlen = index + Suc n + 1" "unat newlen \<le> unat allocsize"
    "index + 3 * Suc n + 1 < 2 ^ 31"
  shows "unat (newlen + 2) = index + n + 4"
    and "\<not> newlen + 2 > allocsize \<Longrightarrow> index + n + 4 \<le> unat allocsize"
    and "newlen + 2 > allocsize \<Longrightarrow>
      unat (allocsize * 2) = 2 * unat allocsize \<and> index + n + 4 \<le> unat (allocsize * 2)"
proof -
  show n2: "unat (newlen + 2) = index + n + 4"
    using assms by (simp add: unat_word_ariths)
  show "index + n + 4 \<le> unat allocsize" if "\<not> newlen + 2 > allocsize"
    using that n2 by (simp add: word_less_nat_alt)
  show "unat (allocsize * 2) = 2 * unat allocsize \<and> index + n + 4 \<le> unat (allocsize * 2)"
    if "newlen + 2 > allocsize"
  proof -
    have "unat allocsize < index + n + 4" using that n2 by (simp add: word_less_nat_alt)
    then have "unat (allocsize * 2) = 2 * unat allocsize"
      using assms(3) by (simp add: unat_word_ariths)
    then show ?thesis using assms(1,2) by simp
  qed
qed

lemma sprintf02X_split: "sprintf02X c = butlast (sprintf02X c) @ [0]" "length (sprintf02X c) = 4"
  by (simp_all add: sprintf02X_def)

lemma escapeLoop_ok:
  assumes "drop p mem = s @ rest" "length b = unat allocsize"
    "unat newlen = index + length s + 1" "unat newlen \<le> unat allocsize"
    "index + 3 * length s + 1 < 2 ^ 31" "set oks \<subseteq> {True}"
  shows "\<exists>b'. escapeLoop junk oks mem p (length s) (Some b) allocsize newlen index = Inr (Some b')
    \<and> take (index + length (escapeBytes s) + 1) b' = take index b @ escapeBytes s @ [0]
    \<and> index + length (escapeBytes s) < length b'"
  using assms
proof (induction s arbitrary: p b allocsize newlen index oks)
  case Nil
  then have "index < length b" by simp
  then show ?case by (simp add: deref_def take_Suc_conv_app_nth)
next
  case (Cons c s)
  from Cons.prems(1) have p: "p < length mem" "mem ! p = c" "drop (Suc p) mem = s @ rest"
    using nth_of_drop [of p mem c "s @ rest"] by auto
  have ib: "index < length b" using Cons.prems(2,3,4) by simp
  show ?case
  proof (cases "isSymbolToBeUnescaped c")
    case True
    have "drop (Suc p) mem = s @ rest" "length (b[index := c]) = unat allocsize"
      "unat newlen = (index + 1) + length s + 1" "(index + 1) + 3 * length s + 1 < 2 ^ 31"
      using p Cons.prems by simp_all
    from Cons.IH [OF this(1,2,3) Cons.prems(4) this(4) Cons.prems(6)] p ib True show ?thesis
      by (auto simp: deref_def escapeBytes_Cons escapeByte_def take_Suc_conv_app_nth)
  next
    case False
    note room = escape_room [of newlen index "length s" allocsize] and pr = Cons.prems
    have esc: "escapeByte c = butlast (sprintf02X c)" "length (butlast (sprintf02X c)) = 3"
      using False by (simp_all add: escapeByte_def sprintf02X_def)
    have n2: "unat (newlen + 2) = index + length s + 4" using room(1) pr by simp
    have step: "\<exists>b'. escapeLoop junk oks' mem (Suc p) (length s)
          (Some (take index b0 @ sprintf02X c @ drop (index + 4) b0)) a (newlen + 2) (index + 3) = Inr (Some b')
        \<and> take (index + length (escapeBytes (c # s)) + 1) b' = take index b0 @ escapeBytes (c # s) @ [0]
        \<and> index + length (escapeBytes (c # s)) < length b'"
      if "length b0 = unat a" "index + length s + 4 \<le> unat a" "set oks' \<subseteq> {True}" for b0 a oks'
    proof -
      have 1: "length (take index b0 @ sprintf02X c @ drop (index + 4) b0) = unat a"
        using that sprintf02X_split(2) [of c] by simp
      have 2: "unat (newlen + 2) = (index + 3) + length s + 1" using n2 by simp
      have 3: "unat (newlen + 2) \<le> unat a" using n2 that by simp
      have 4: "(index + 3) + 3 * length s + 1 < 2 ^ 31" using pr(5) by simp
      have 5: "take (index + 3) (take index b0 @ sprintf02X c @ drop (index + 4) b0) =
          take index b0 @ butlast (sprintf02X c)"
        using that by (simp add: sprintf02X_def)
      from Cons.IH [OF p(3) 1 2 3 4 that(3)] show ?thesis
        unfolding 5 using esc by (auto simp: escapeBytes_Cons algebra_simps)
    qed
    show ?thesis
    proof (cases "newlen + 2 > allocsize")
      case True
      from nextOk_True [OF pr(6)] obtain oks' where o: "nextOk oks = (True, oks')" "set oks' \<subseteq> {True}"
        by auto
      let ?b = "reallocBytes junk (Some b) (unat (allocsize * 2))"
      have lb: "length ?b = unat (allocsize * 2)" by (simp add: reallocBytes_def)
      have r: "unat (allocsize * 2) = 2 * unat allocsize" "index + length s + 4 \<le> unat (allocsize * 2)"
        using room(3) True pr by auto
      have "take index ?b = take index b"
        using r ib pr(2) by (simp add: reallocBytes_def)
      with step [OF lb r(2) o(2)] show ?thesis
        using p False True o(1) lb r sprintf02X_split(2) [of c]
        by (simp add: Let_def writeBytes_ok)
    next
      case nt: False
      have r: "index + length s + 4 \<le> unat allocsize" using room(2) nt pr by simp
      from step [OF pr(2) r pr(6)] show ?thesis
        using p False nt r pr(2) sprintf02X_split(2) [of c]
        by (simp add: Let_def deref_def writeBytes_ok)
    qed
  qed
qed

lemma SGURLEscape_ok:
  assumes "mem = s @ rest" "s \<noteq> []" "length s < 2 ^ 29"
    and "len = of_nat (length s) \<or> len = 0 \<and> 0 \<notin> set s \<and> rest = 0 # t"
  shows "\<exists>b. SGURLEscape junk [] mem len = Inr (Some b)
    \<and> take (length (escapeBytes s) + 1) b = escapeBytes s @ [0]
    \<and> length (escapeBytes s) < length b"
proof -
  let ?n = "of_nat (length s) :: u32"
  have un: "unat ?n = length s" "unat (?n + 1) = length s + 1"
    using assms(3) by (simp_all add: unat_of_nat unat_word_ariths)
  have strlen: "strlenC mem = Inr (length s)" if "0 \<notin> set s" "rest = 0 # t"
  proof -
    have "takeWhile (\<lambda>c. c \<noteq> 0) (s @ 0 # t) = s"
      using that(1) by (induction s) auto
    then show ?thesis using assms(1) that by (simp add: strlenC_def)
  qed
  have n0: "?n \<noteq> 0" using un(1) assms(2) by (metis length_0_conv unat_0_iff)
  have sel: "(if len \<noteq> 0 then Inr len else map_sum id of_nat (strlenC mem)) = Inr ?n"
    using assms(4) n0 strlen by auto
  from escapeLoop_ok [of 0 mem s rest "map junk [0..<length s + 1]" "?n + 1" "?n + 1" 0 "[]" junk]
    assms(1,3) un
  obtain b where "escapeLoop junk [] mem 0 (length s) (Some (map junk [0..<length s + 1])) (?n + 1) (?n + 1) 0
      = Inr (Some b)"
    "take (length (escapeBytes s) + 1) b = escapeBytes s @ [0]" "length (escapeBytes s) < length b"
    by auto
  then show ?thesis using sel un by (auto simp: SGURLEscape_def Let_def nextOk_def)
qed

subsection \<open>Decoding\<close>

lemma nibble_cases:
  fixes d :: byte
  assumes "d < 16"
  shows "d \<in> set (map of_nat [0..<16])"
proof -
  have "unat d < 16" using assms by (simp add: word_less_nat_alt)
  then show ?thesis by (auto intro!: image_eqI [of _ _ "unat d"])
qed

lemma hexDigitUpper_props:
  assumes "d < 16"
  shows "hexval (hexDigitUpper d) = Some (ucast d)" "\<not> isspaceC (hexDigitUpper d)"
    "hexDigitUpper d \<noteq> 0" "hexDigitUpper d \<noteq> 0x2b" "hexDigitUpper d \<noteq> 0x2d"
proof -
  have "\<forall>d \<in> set (map of_nat [0..<16] :: byte list). hexval (hexDigitUpper d) = Some (ucast d)
      \<and> \<not> isspaceC (hexDigitUpper d) \<and> hexDigitUpper d \<notin> {0, 0x2b, 0x2d}"
    by (simp add: upt_rec hexDigitUpper_def hexval_def isspaceC_def)
  with nibble_cases [OF assms] show "hexval (hexDigitUpper d) = Some (ucast d)"
    "\<not> isspaceC (hexDigitUpper d)" "hexDigitUpper d \<noteq> 0" "hexDigitUpper d \<noteq> 0x2b" "hexDigitUpper d \<noteq> 0x2d"
    by blast+
qed

lemma nibbles:
  fixes c :: byte
  shows "c div 16 < 16" "c mod 16 < 16" "16 * ucast (c div 16) + ucast (c mod 16) = (ucast c :: u32)"
proof -
  have u: "unat (c div 16) = unat c div 16" "unat (c mod 16) = unat c mod 16"
    by (simp_all add: unat_div_distrib unat_mod_distrib)
  have "unat c div 16 < 16" using less_mult_imp_div_less [of "unat c" 16 16] unat_less_256 [of c] by simp
  with u show "c div 16 < 16" "c mod 16 < 16" by (simp_all add: word_less_nat_alt)
  have "(ucast c :: u32) = of_nat (unat c)" by simp
  also have "\<dots> = of_nat (16 * (unat c div 16) + unat c mod 16)" by simp
  also have "\<dots> = 16 * of_nat (unat (c div 16)) + of_nat (unat (c mod 16))"
    unfolding u by (simp only: of_nat_add of_nat_mult of_nat_numeral)
  also have "\<dots> = 16 * ucast (c div 16) + ucast (c mod 16)" by simp
  finally show "16 * ucast (c div 16) + ucast (c mod 16) = (ucast c :: u32)" ..
qed

lemma sscanf_sprintf:
  "sscanf02X (hexDigitUpper (c div 16) # hexDigitUpper (c mod 16) # t) = Inr (ScanOk (ucast c))"
  using hexDigitUpper_props [OF nibbles(1) [of c]] hexDigitUpper_props(1) [OF nibbles(2) [of c]]
    nibbles(3) [of c]
  by (simp add: sscanf02X_def scanHex2_def)

lemma escapeByte_cases:
  "escapeByte c = [c] \<and> c \<noteq> 0x25 \<and> c \<noteq> 0x2b
   \<or> escapeByte c = [0x25, hexDigitUpper (c div 16), hexDigitUpper (c mod 16)]"
  by (auto simp: escapeByte_def sprintf02X_def isSymbolToBeUnescaped_def isalnumC_def)

lemma ucast_ucast_byte: "ucast (ucast (c :: byte) :: u32) = c"
  by (rule bit_word_eqI) (auto simp: bit_simps dest: bit_imp_le_length)

lemma unescapeLoop_ok:
  assumes "drop p mem = escapeBytes s @ rest" "unat allocsize = length (escapeBytes s) + 1"
    "index + length s < length ns"
  shows "\<exists>ns'. unescapeLoop mem p ns index allocsize hex = Inr ns'
    \<and> take (index + length s + 1) ns' = take index ns @ s @ [0] \<and> length ns' = length ns"
  using assms
proof (induction s arbitrary: p ns allocsize index hex)
  case Nil
  then have "allocsize = 1" by (simp add: word_unat_eq_iff)
  with Nil show ?case
    by (simp add: unescapeLoop.simps [of mem p ns index 1 hex] take_Suc_conv_app_nth)
next
  case (Cons c s)
  define n where "n = length (escapeBytes s)"
  have n0: "allocsize \<noteq> 0" using Cons.prems(2) by auto
  show ?case
  proof (cases "escapeByte c = [c] \<and> c \<noteq> 0x25 \<and> c \<noteq> 0x2b")
    case True
    then have d: "drop p mem = c # escapeBytes s @ rest" using Cons.prems(1) by (simp add: escapeBytes_Cons)
    note p = nth_of_drop [OF d]
    have u: "unat (allocsize - 1) = n + 1"
      using Cons.prems(2) n0 True by (simp add: unat_minus_one escapeBytes_Cons n_def)
    then have pos: "allocsize - 1 > 0" by (simp add: word_less_nat_alt)
    from Cons.IH [of "Suc p" "allocsize - 1" "index + 1" "ns[index := c]" hex] p u Cons.prems(3)
    show ?thesis using pos True
      by (simp add: unescapeLoop.simps [of mem p ns index allocsize hex] Let_def n_def
          take_Suc_conv_app_nth)
  next
    case False
    then have e: "escapeByte c = [0x25, hexDigitUpper (c div 16), hexDigitUpper (c mod 16)]"
      using escapeByte_cases [of c] by auto
    then have d: "drop p mem = 0x25 # hexDigitUpper (c div 16) # hexDigitUpper (c mod 16)
        # escapeBytes s @ rest"
      using Cons.prems(1) by (simp add: escapeBytes_Cons)
    note p = nth_of_drop [OF d]
    have d3: "drop (p + 3) mem = escapeBytes s @ rest"
      using arg_cong [OF d, of "drop 3"] by (simp add: add.commute)
    have u1: "unat (allocsize - 1) = n + 3"
      using Cons.prems(2) n0 e by (simp add: unat_minus_one escapeBytes_Cons n_def)
    then have pos: "allocsize - 1 > 0" by (simp add: word_less_nat_alt)
    have u3: "unat (allocsize - 1 - 2) = n + 1"
      using u1 by (subst unat_sub) (simp_all add: word_le_nat_alt)
    from Cons.IH [of "p + 3" "allocsize - 1 - 2" "index + 1" "ns[index := c]" "Some (ucast c)"]
      d3 u3 Cons.prems(3)
    show ?thesis using pos p sscanf_sprintf [of c "escapeBytes s @ rest"]
      by (simp add: unescapeLoop.simps [of mem p ns index allocsize hex] Let_def n_def
          take_Suc_conv_app_nth ucast_ucast_byte numeral_3_eq_3)
  qed
qed

lemma SGURLUnescape_escape:
  assumes "length s < 2 ^ 29" "s \<noteq> []"
  shows "\<exists>b. SGURLUnescape junk True (escapeBytes s @ 0 # t) (of_nat (length (escapeBytes s))) = Inr (Some b)
    \<and> take (length s + 1) b = s @ [0]"
proof -
  let ?n = "of_nat (length (escapeBytes s)) :: u32"
  have l: "length (escapeBytes s) < 2 ^ 31" "0 < length (escapeBytes s)"
    using length_escapeBytes [of s] assms by auto
  then have un: "unat ?n = length (escapeBytes s)" "unat (?n + 1) = length (escapeBytes s) + 1"
    by (simp_all add: unat_of_nat unat_word_ariths)
  then have n0: "?n \<noteq> 0" using l(2) by (metis less_irrefl unat_0_iff)
  from unescapeLoop_ok [of 0 "escapeBytes s @ 0 # t" s "0 # t" "?n + 1" 0
      "map junk [0..<length (escapeBytes s) + 1]" None] un length_escapeBytes(1) [of s]
  show ?thesis using n0 un by (auto simp: SGURLUnescape_def Let_def simp del: upt_Suc)
qed

text \<open>A percent sign with one digit left: the remaining length wraps and the scan runs on.\<close>

lemma unescapeLoop_truncated:
  assumes "drop p mem = s @ [0x25, d, 0]" "unat allocsize = length s + 3"
    "hexval d = Some h" "\<forall>c \<in> set s. c \<noteq> 0x25" "index + length s < length ns"
  shows "unescapeLoop mem p ns index allocsize hex = Inl OutOfBounds"
  using assms
proof (induction s arbitrary: p ns allocsize index hex)
  case Nil
  then have d: "drop p mem = [0x25, d, 0]" by simp
  have len: "length mem = p + 3" using arg_cong [OF d, of length] by simp
  have a: "allocsize = 3" using Nil(2) by (simp add: word_unat_eq_iff)
  have d0: "d \<noteq> 0" "\<not> isspaceC d" "d \<noteq> 0x2b" "d \<noteq> 0x2d"
    using Nil(3) by (auto simp: hexval_def isspaceC_def word_le_nat_alt split: if_splits)
  have "sscanf02X [d, 0] = Inr (ScanOk h)"
    using d0 Nil(3) by (simp add: sscanf02X_def scanHex2_def hexval_def)
  moreover have "unescapeLoop mem (p + 3) ns' j 0 hex' = Inl OutOfBounds" for ns' j hex'
    using len by (simp add: unescapeLoop.simps [of mem "p + 3"] rd_def Let_def word_greater_zero_iff)
  ultimately show ?case using nth_of_drop [OF d] a Nil(5)
    by (simp add: unescapeLoop.simps [of mem p ns index 3 hex] numeral_3_eq_3)
next
  case (Cons c s)
  then have d: "drop p mem = c # s @ [0x25, d, 0]" by simp
  note p = nth_of_drop [OF d]
  have n0: "allocsize \<noteq> 0" using Cons.prems(2) by auto
  have u: "unat (allocsize - 1) = length s + 3" using Cons.prems(2) n0 by (simp add: unat_minus_one)
  then have pos: "allocsize - 1 > 0" by (simp add: word_less_nat_alt)
  have IH: "unescapeLoop mem (Suc p) (ns[index := c']) (Suc index) (allocsize - 1) hex = Inl OutOfBounds"
    for c'
    by (rule Cons.IH) (use p u Cons.prems in auto)
  show ?case using p pos IH Cons.prems(4,5)
    by (simp add: unescapeLoop.simps [of mem p ns index allocsize hex] Let_def)
qed

lemma SGURLUnescape_truncated:
  assumes "hexval d = Some h" "\<forall>c \<in> set s. c \<noteq> 0x25" "length s + 3 < 2 ^ 32"
  shows "SGURLUnescape junk True (s @ [0x25, d, 0]) (of_nat (length s + 2)) = Inl OutOfBounds"
proof -
  let ?n = "of_nat (length s + 2) :: u32"
  have un: "unat ?n = length s + 2" using assms(3) by (subst unat_of_nat_small) simp_all
  have un1: "unat (?n + 1) = length s + 3"
    using un assms(3) by (subst unat_add_no_wrap) simp_all
  have n0: "?n \<noteq> 0" using un by (metis add_is_0 unat_0_iff zero_neq_numeral)
  have "unescapeLoop (s @ [0x25, d, 0]) 0 (map junk [0..<unat (?n + 1)]) 0 (?n + 1) None = Inl OutOfBounds"
    by (rule unescapeLoop_truncated [where s = s and d = d and h = h]) (use assms un1 in auto)
  then show ?thesis using n0 by (simp add: SGURLUnescape_def Let_def del: of_nat_add)
qed

subsection \<open>Properties\<close>

lemma escapeBytes_nonzero: "0 \<notin> set s \<Longrightarrow> 0 \<notin> set (escapeBytes s)"
proof (induction s)
  case (Cons c s)
  have "0 \<notin> set (escapeByte c)"
    using escapeByte_cases [of c] Cons.prems hexDigitUpper_props(3) [OF nibbles(1) [of c]] hexDigitUpper_props(3) [OF nibbles(2) [of c]] by auto
  with Cons show ?case by (simp add: escapeBytes_Cons)
qed simp

text \<open>
  C4: escaping a non-empty byte string and unescaping the result, given its length n, gives the
  bytes back, for every content including zero bytes, percent signs, plus signs and spaces, and
  neither routine reads or writes outside its blocks. The result is terminated; without a zero
  byte in the input n is its length as a C string, while zero bytes stand in it as they are.
\<close>

theorem url_escape_roundtrip:
  assumes "s \<noteq> []" "length s < 2 ^ 29"
  shows "\<exists>n e b. SGURLEscape junk [] (s @ rest) (of_nat (length s)) = Inr (Some e)
    \<and> e ! n = 0 \<and> n < length e \<and> (0 \<notin> set s \<longrightarrow> 0 \<notin> set (take n e))
    \<and> SGURLUnescape junk True e (of_nat n) = Inr (Some b)
    \<and> take (length s + 1) b = s @ [0]"
proof -
  let ?n = "length (escapeBytes s)"
  from SGURLEscape_ok [OF refl assms, of "of_nat (length s)" rest "[]" junk] obtain e where
    e: "SGURLEscape junk [] (s @ rest) (of_nat (length s)) = Inr (Some e)"
      "take (?n + 1) e = escapeBytes s @ [0]" "?n < length e"
    by auto
  have split: "e = escapeBytes s @ 0 # drop (?n + 1) e"
    by (metis e(2) append_take_drop_id append.assoc append_Cons append_Nil)
  from SGURLUnescape_escape [OF assms(2,1), of junk "drop (?n + 1) e"] obtain b where
    "SGURLUnescape junk True e (of_nat ?n) = Inr (Some b)" "take (length s + 1) b = s @ [0]"
    using split by metis
  moreover have "e ! ?n = 0" using split by (metis nth_append_length)
  moreover have "take ?n e = escapeBytes s" using split by (metis append_eq_conv_conj)
  ultimately show ?thesis using e escapeBytes_nonzero [of s] by (intro exI [of _ ?n] exI [of _ e] exI [of _ b]) simp
qed

theorem url_escape_roundtrip_witness:
  "\<exists>n e b. SGURLEscape (\<lambda>_. 1) [] ([0x41, 0x25, 0] @ [7]) (of_nat (length [0x41, 0x25, 0 :: byte])) = Inr (Some e)
    \<and> e ! n = 0 \<and> n < length e
    \<and> SGURLUnescape (\<lambda>_. 1) True e (of_nat n) = Inr (Some b)
    \<and> take (length [0x41, 0x25, 0 :: byte] + 1) b = [0x41, 0x25, 0] @ [0]"
  using url_escape_roundtrip [of "[0x41, 0x25, 0]" "\<lambda>_. 1" "[7]"] by auto

text \<open>
  Unescaping a string that ends in a percent sign and a single hexadecimal digit reads
  past the end of the string: the remaining length wraps around.
\<close>

theorem url_unescape_truncated_escape:
  assumes "hexval d = Some h" "\<forall>c \<in> set s. c \<noteq> 0x25" "length s + 3 < 2 ^ 32"
  shows "SGURLUnescape junk True (s @ [0x25, d, 0]) (of_nat (length s + 2)) = Inl OutOfBounds"
  using assms by (rule SGURLUnescape_truncated)

theorem url_unescape_truncated_escape_witness:
  "SGURLUnescape (\<lambda>_. 0) True ([0x61] @ [0x25, 0x34, 0]) (of_nat (length [0x61 :: byte] + 2)) = Inl OutOfBounds"
  by (rule url_unescape_truncated_escape [where h = 4]) (simp_all add: hexval_def)

end
