(* ===== verification/Fifo.thy ===== *)
theory Fifo
  imports Prelude
begin

text \<open>
  vdbefifo.c of the database library (misc/sqlite): the queue of row identifiers that
  UPDATE and DELETE statements collect. The pages live in an explicit heap (a map from
  addresses to pages) and are linked by address, so a stale first or last pointer would
  show. sqlite3\_malloc is the argument addr of a call: the address of a fresh block, or
  None when there is no memory; junk is what a fresh block holds. The counters are naturals: their C values are bounded by
  the number of 8-byte entries a 32-bit address space holds.

  Shown: on the linked representation, push appends and pop takes from the front, a failed
  allocation leaves the queue as it was, every script of them runs to its end, and clearing frees
  exactly the pages that were allocated.
\<close>

subsection \<open>The queue contract\<close>

text \<open>
  A script of pushes and pops against a plain list. The flags say which pushes the memory
  allowed; a push that was refused reports it and leaves the list as it was.
\<close>

datatype rc = SQLITE_OK | SQLITE_NOMEM | SQLITE_DONE

datatype 'a queue_op = Push 'a | Pop

type_synonym 'a queue_answer = "rc \<times> 'a option"

fun queue_spec :: "'a list \<Rightarrow> bool list \<Rightarrow> 'a queue_op list \<Rightarrow> 'a queue_answer list \<times> 'a list" where
  "queue_spec q oks [] = ([], q)"
| "queue_spec q oks (Push x # ops) =
     (let ok = oks \<noteq> [] \<and> hd oks; (rs, q') = queue_spec (if ok then q @ [x] else q) (tl oks) ops in
      ((if ok then SQLITE_OK else SQLITE_NOMEM, None) # rs, q'))"
| "queue_spec [] oks (Pop # ops) =
     (let (rs, q') = queue_spec [] (tl oks) ops in ((SQLITE_DONE, None) # rs, q'))"
| "queue_spec (x # q) oks (Pop # ops) =
     (let (rs, q') = queue_spec q (tl oks) ops in ((SQLITE_OK, Some x) # rs, q'))"

text \<open>The same script run by an implementation; k numbers the operations.\<close>

fun queue_exec ::
  "(nat \<Rightarrow> 'a \<Rightarrow> 's \<Rightarrow> (rc \<times> 's) cres) \<Rightarrow> ('s \<Rightarrow> (rc \<times> 'a option \<times> 's) cres) \<Rightarrow> nat \<Rightarrow> 'a queue_op list \<Rightarrow> 's
   \<Rightarrow> ('a queue_answer list \<times> 's) cres" where
  "queue_exec push pop k [] s = Inr ([], s)"
| "queue_exec push pop k (Push x # ops) s = bindR (push k x s) (\<lambda>(rc, t).
     bindR (queue_exec push pop (k + 1) ops t) (\<lambda>(rs, u). Inr ((rc, None) # rs, u)))"
| "queue_exec push pop k (Pop # ops) s = bindR (pop s) (\<lambda>(rc, r, t).
     bindR (queue_exec push pop (k + 1) ops t) (\<lambda>(rs, u). Inr ((rc, r) # rs, u)))"

text \<open>
  The promise: on a legal memory every push and every pop returns. A push appends, or reports
  no memory and keeps the queue, the latter only where the memory may refuse its request; a pop
  takes from the front.
\<close>

locale fifo_queue =
  fixes legal :: "'m \<Rightarrow> bool"
    and may_fail :: "'m \<Rightarrow> nat \<Rightarrow> bool"
    and inv :: "'s \<Rightarrow> bool"
    and items :: "'s \<Rightarrow> 'a list"
    and push :: "'m \<Rightarrow> nat \<Rightarrow> 'a \<Rightarrow> 's \<Rightarrow> (rc \<times> 's) cres"
    and pop :: "'s \<Rightarrow> (rc \<times> 'a option \<times> 's) cres"
  assumes push_ok: "legal m \<Longrightarrow> inv s \<Longrightarrow> \<exists>t. inv t \<and>
      (push m k x s = Inr (SQLITE_OK, t) \<and> items t = items s @ [x]
       \<or> push m k x s = Inr (SQLITE_NOMEM, t) \<and> items t = items s \<and> may_fail m k)"
    and pop_ok: "inv s \<Longrightarrow> \<exists>t. inv t \<and>
      (case items s of [] \<Rightarrow> pop s = Inr (SQLITE_DONE, None, t) \<and> items t = []
       | x # xs \<Rightarrow> pop s = Inr (SQLITE_OK, Some x, t) \<and> items t = xs)"
begin

lemma exec_spec:
  assumes "legal m" "inv s"
  shows "\<exists>oks rs t. queue_exec (push m) pop k ops s = Inr (rs, t) \<and> inv t
    \<and> queue_spec (items s) oks ops = (rs, items t) \<and> length oks = length ops
    \<and> (\<forall>i < length ops. \<not> oks ! i \<longrightarrow> may_fail m (k + i))"
  using assms(2)
proof (induction ops arbitrary: s k)
  case Nil
  then show ?case by simp
next
  case (Cons op ops)
  show ?case
  proof (cases op)
    case (Push x)
    from push_ok [OF assms(1) Cons.prems, of k x] obtain t ok where t: "inv t"
      "push m k x s = Inr (if ok then SQLITE_OK else SQLITE_NOMEM, t)"
      "items t = (if ok then items s @ [x] else items s)" "\<not> ok \<Longrightarrow> may_fail m k" by metis
    from Cons.IH [OF t(1), of "k + 1"] obtain oks rs u where u:
      "queue_exec (push m) pop (k + 1) ops t = Inr (rs, u)" "inv u"
      "queue_spec (items t) oks ops = (rs, items u)" "length oks = length ops"
      "\<forall>i < length ops. \<not> oks ! i \<longrightarrow> may_fail m (k + 1 + i)" by blast
    with t Push show ?thesis
      by (intro exI [of _ "ok # oks"]) (auto simp: nth_Cons split: nat.splits)
  next
    case Pop
    from pop_ok [OF Cons.prems] obtain t where t: "inv t"
      "case items s of [] \<Rightarrow> pop s = Inr (SQLITE_DONE, None, t) \<and> items t = []
       | x # xs \<Rightarrow> pop s = Inr (SQLITE_OK, Some x, t) \<and> items t = xs" by blast
    from Cons.IH [OF t(1), of "k + 1"] obtain oks rs u where u:
      "queue_exec (push m) pop (k + 1) ops t = Inr (rs, u)" "inv u"
      "queue_spec (items t) oks ops = (rs, items u)" "length oks = length ops"
      "\<forall>i < length ops. \<not> oks ! i \<longrightarrow> may_fail m (k + 1 + i)" by blast
    with t Pop show ?thesis
      by (intro exI [of _ "True # oks"]) (auto simp: nth_Cons split: nat.splits list.splits)
  qed
qed

end

subsection \<open>Data and operations\<close>

record FifoPage =
  nSlot :: nat
  iWrite :: nat
  iRead :: nat
  pNext :: "nat option"
  aSlot :: "u64 list"

record Fifo =
  nEntry :: nat
  pFirst :: "nat option"
  pLast :: "nat option"

type_synonym fheap = "nat \<rightharpoonup> FifoPage"

definition sizeof_FifoPage :: nat where "sizeof_FifoPage = 24"
definition FIFOSIZE_FIRST :: nat where "FIFOSIZE_FIRST = (128 - sizeof_FifoPage) div 8 + 1"
definition FIFOSIZE_MAX :: nat where "FIFOSIZE_MAX = (262144 - sizeof_FifoPage) div 8 + 1"

definition allocateFifoPage :: "(nat \<Rightarrow> u64) \<Rightarrow> nat option \<Rightarrow> fheap \<Rightarrow> nat \<Rightarrow> fheap \<times> nat option" where
  "allocateFifoPage junk addr h nEnt =
     (let n = (if nEnt > FIFOSIZE_MAX then FIFOSIZE_MAX else nEnt) in
      case addr of None \<Rightarrow> (h, None)
      | Some a \<Rightarrow> (h(a \<mapsto> \<lparr>nSlot = n, iWrite = 0, iRead = 0, pNext = None,
                          aSlot = map junk [0..<n]\<rparr>), Some a))"

definition sqlite3VdbeFifoInit :: Fifo where
  "sqlite3VdbeFifoInit = \<lparr>nEntry = 0, pFirst = None, pLast = None\<rparr>"

text \<open>The last lines of push: store the value on the page at address a.\<close>

definition fifoStore :: "fheap \<Rightarrow> Fifo \<Rightarrow> nat \<Rightarrow> u64 \<Rightarrow> (rc \<times> fheap \<times> Fifo) cres" where
  "fifoStore h f a val =
     (case h a of None \<Rightarrow> Inl OutOfBounds
      | Some pg \<Rightarrow> bindR (wr (aSlot pg) (iWrite pg) val) (\<lambda>sl.
          Inr (SQLITE_OK, h(a \<mapsto> pg\<lparr>aSlot := sl, iWrite := iWrite pg + 1\<rparr>),
               f\<lparr>nEntry := nEntry f + 1\<rparr>)))"

definition sqlite3VdbeFifoPush ::
  "(nat \<Rightarrow> u64) \<Rightarrow> nat option \<Rightarrow> fheap \<Rightarrow> Fifo \<Rightarrow> u64 \<Rightarrow> (rc \<times> fheap \<times> Fifo) cres" where
  "sqlite3VdbeFifoPush junk addr h f val =
     (case pLast f of
        None \<Rightarrow>
          (case allocateFifoPage junk addr h FIFOSIZE_FIRST of
             (h', None) \<Rightarrow> Inr (SQLITE_NOMEM, h', f\<lparr>pLast := None, pFirst := None\<rparr>)
           | (h', Some a) \<Rightarrow> fifoStore h' (f\<lparr>pLast := Some a, pFirst := Some a\<rparr>) a val)
      | Some l \<Rightarrow>
          (case h l of None \<Rightarrow> Inl OutOfBounds
           | Some pg \<Rightarrow>
               if iWrite pg \<ge> nSlot pg
               then (case allocateFifoPage junk addr h (nEntry f) of
                   (h', None) \<Rightarrow> Inr (SQLITE_NOMEM, h'(l \<mapsto> pg\<lparr>pNext := None\<rparr>), f)
                 | (h', Some a) \<Rightarrow>
                     fifoStore (h'(l \<mapsto> pg\<lparr>pNext := Some a\<rparr>)) (f\<lparr>pLast := Some a\<rparr>) a val)
               else fifoStore h f l val))"

definition sqlite3VdbeFifoPop :: "fheap \<Rightarrow> Fifo \<Rightarrow> (rc \<times> u64 option \<times> fheap \<times> Fifo) cres" where
  "sqlite3VdbeFifoPop h f =
     (if nEntry f = 0 then Inr (SQLITE_DONE, None, h, f)
      else case pFirst f of None \<Rightarrow> Inl NullDeref
      | Some a \<Rightarrow>
         (case h a of None \<Rightarrow> Inl OutOfBounds
          | Some pg \<Rightarrow> bindR (rd (aSlot pg) (iRead pg)) (\<lambda>v.
              let pg' = pg\<lparr>iRead := iRead pg + 1\<rparr>; h' = h(a \<mapsto> pg'); n = nEntry f - 1 in
              if iRead pg' \<ge> iWrite pg'
              then Inr (SQLITE_OK, Some v, h'(a := None),
                     f\<lparr>nEntry := n, pFirst := pNext pg',
                       pLast := (if n = 0 then None else pLast f)\<rparr>)
              else Inr (SQLITE_OK, Some v, h', f\<lparr>nEntry := n\<rparr>))))"

partial_function (option) fifoFreePages :: "fheap \<Rightarrow> nat option \<Rightarrow> fheap cres option" where
  "fifoFreePages h p =
     (case p of None \<Rightarrow> Some (Inr h)
      | Some a \<Rightarrow>
         (case h a of None \<Rightarrow> Some (Inl OutOfBounds)
          | Some pg \<Rightarrow> fifoFreePages (h(a := None)) (pNext pg)))"

definition sqlite3VdbeFifoClear :: "fheap \<Rightarrow> Fifo \<Rightarrow> (fheap \<times> Fifo) cres option" where
  "sqlite3VdbeFifoClear h f =
     (case fifoFreePages h (pFirst f) of None \<Rightarrow> None
      | Some r \<Rightarrow> Some (bindR r (\<lambda>h'. Inr (h', sqlite3VdbeFifoInit))))"

subsection \<open>Representation\<close>

fun plist :: "fheap \<Rightarrow> nat option \<Rightarrow> nat list \<Rightarrow> bool" where
  "plist h p [] \<longleftrightarrow> p = None"
| "plist h p (a # as) \<longleftrightarrow> p = Some a \<and> (\<exists>pg. h a = Some pg \<and> plist h (pNext pg) as)"

definition page_items :: "FifoPage \<Rightarrow> u64 list" where
  "page_items pg = drop (iRead pg) (take (iWrite pg) (aSlot pg))"

definition page_ok :: "FifoPage \<Rightarrow> bool" where
  "page_ok pg \<longleftrightarrow> iRead pg < iWrite pg \<and> iWrite pg \<le> nSlot pg \<and> length (aSlot pg) = nSlot pg"

fun heap_items :: "fheap \<Rightarrow> nat list \<Rightarrow> u64 list" where
  "heap_items h [] = []"
| "heap_items h (a # as) = (case h a of None \<Rightarrow> [] | Some pg \<Rightarrow> page_items pg) @ heap_items h as"

definition fifo_rep :: "fheap \<Rightarrow> Fifo \<Rightarrow> nat list \<Rightarrow> bool" where
  "fifo_rep h f as \<longleftrightarrow> plist h (pFirst f) as \<and> distinct as
     \<and> pLast f = (if as = [] then None else Some (last as))
     \<and> (\<forall>a \<in> set as. \<exists>pg. h a = Some pg \<and> page_ok pg)
     \<and> nEntry f = length (heap_items h as)"

lemma plist_frame: "a \<notin> set as \<Longrightarrow> plist (h(a := x)) p as = plist h p as"
  by (induction as arbitrary: p) auto

lemma heap_items_frame: "a \<notin> set as \<Longrightarrow> heap_items (h(a := x)) as = heap_items h as"
  by (induction as) auto

lemma plist_fun: "plist h p as \<Longrightarrow> plist h p bs \<Longrightarrow> as = bs"
proof (induction as arbitrary: p bs)
  case Nil
  then show ?case by (cases bs) auto
next
  case (Cons a as)
  then show ?case by (cases bs) auto
qed

lemma heap_items_append: "heap_items h (as @ bs) = heap_items h as @ heap_items h bs"
  by (induction as) auto

lemma plist_append1:
  "plist h p (as @ [l]) \<Longrightarrow> l \<notin> set as \<Longrightarrow> h l = Some pg \<Longrightarrow> n \<notin> set (as @ [l]) \<Longrightarrow>
    plist (h(l \<mapsto> pg\<lparr>pNext := Some n\<rparr>, n \<mapsto> new\<lparr>pNext := None\<rparr>)) p (as @ [l, n])"
  by (induction as arbitrary: p) auto

lemma plist_last_none: "plist h p (as @ [l]) \<Longrightarrow> h l = Some pg \<Longrightarrow> pNext pg = None"
  by (induction as arbitrary: p) auto

lemma plist_update_same_next:
  "plist h p as \<Longrightarrow> h l = Some pg \<Longrightarrow> pNext pg' = pNext pg \<Longrightarrow> plist (h(l \<mapsto> pg')) p as"
  by (induction as arbitrary: p) auto

lemma heap_items_distinct_last:
  "distinct (as @ [l]) \<Longrightarrow> heap_items (h(l \<mapsto> pg)) (as @ [l]) = heap_items h as @ page_items pg"
  by (simp add: heap_items_append heap_items_frame)

lemma page_items_nonempty: "page_ok pg \<Longrightarrow> page_items pg \<noteq> []"
  by (simp add: page_ok_def page_items_def)

lemma fifo_rep_empty_iff: "fifo_rep h f as \<Longrightarrow> nEntry f = 0 \<longleftrightarrow> as = []"
  by (cases as) (auto simp: fifo_rep_def dest: page_items_nonempty)

lemma page_items_push:
  "page_ok pg \<or> iRead pg = 0 \<and> iWrite pg = 0 \<Longrightarrow> iWrite pg < nSlot pg \<Longrightarrow> length (aSlot pg) = nSlot pg \<Longrightarrow>
    page_items (pg\<lparr>aSlot := (aSlot pg)[iWrite pg := v], iWrite := iWrite pg + 1\<rparr>) = page_items pg @ [v]
    \<and> page_ok (pg\<lparr>aSlot := (aSlot pg)[iWrite pg := v], iWrite := iWrite pg + 1\<rparr>)"
  by (auto simp: page_items_def page_ok_def take_Suc_conv_app_nth)

lemma fifosize_pos: "0 < FIFOSIZE_FIRST" "FIFOSIZE_FIRST \<le> FIFOSIZE_MAX" "0 < FIFOSIZE_MAX"
  by (simp_all add: FIFOSIZE_FIRST_def FIFOSIZE_MAX_def sizeof_FifoPage_def)

subsection \<open>Push, pop and clear\<close>

lemma fifoStore_last:
  assumes l: "h l = Some pg" and rep: "plist h (pFirst f) (as @ [l])" "distinct (as @ [l])"
    and last: "pLast f = Some l"
    and ok: "\<forall>a \<in> set as. \<exists>pg. h a = Some pg \<and> page_ok pg"
    and n: "nEntry f = length (heap_items h (as @ [l]))"
    and pg: "page_ok pg \<or> iRead pg = 0 \<and> iWrite pg = 0" "iWrite pg < nSlot pg" "length (aSlot pg) = nSlot pg"
  shows "\<exists>h' f'. fifoStore h f l v = Inr (SQLITE_OK, h', f') \<and> fifo_rep h' f' (as @ [l])
    \<and> heap_items h' (as @ [l]) = heap_items h (as @ [l]) @ [v] \<and> h' |` (- set (as @ [l])) = h |` (- set (as @ [l]))"
proof -
  let ?pg = "pg\<lparr>aSlot := (aSlot pg)[iWrite pg := v], iWrite := iWrite pg + 1\<rparr>"
  let ?h = "h(l \<mapsto> ?pg)" and ?f = "f\<lparr>nEntry := nEntry f + 1\<rparr>"
  note push = page_items_push [OF pg, of v]
  have "fifoStore h f l v = Inr (SQLITE_OK, ?h, ?f)" using l pg by (simp add: fifoStore_def)
  moreover have items: "heap_items ?h (as @ [l]) = heap_items h (as @ [l]) @ [v]"
    using push l rep(2) by (simp add: heap_items_append heap_items_frame)
  moreover have "fifo_rep ?h ?f (as @ [l])"
    using items rep last ok n push l plist_update_same_next [OF rep(1) l, of ?pg]
    by (auto simp: fifo_rep_def)
  moreover have "?h |` (- set (as @ [l])) = h |` (- set (as @ [l]))" by simp
  ultimately show ?thesis by blast
qed

text \<open>
  Besides the values of the queue, the lemmas say that the rest of the heap, without the pages
  of the queue, is as before: h |` (- set as).
\<close>

lemma fifo_push:
  assumes rep: "fifo_rep h f as" and fresh: "h n = None"
  shows "\<exists>h' f' bs. sqlite3VdbeFifoPush junk (Some n) h f v = Inr (SQLITE_OK, h', f')
    \<and> fifo_rep h' f' bs \<and> heap_items h' bs = heap_items h as @ [v] \<and> h' |` (- set bs) = h |` (- set as)"
proof -
  have nas: "n \<notin> set as" using rep fresh by (auto simp: fifo_rep_def)
  have gone: "h |` (- set (as @ [n])) = h |` (- set as)"
    using fresh by (auto simp: restrict_map_def fun_eq_iff)
  show ?thesis
  proof (cases as rule: rev_cases)
    case Nil
    let ?pg = "\<lparr>nSlot = FIFOSIZE_FIRST, iWrite = 0, iRead = 0, pNext = None,
        aSlot = map junk [0..<FIFOSIZE_FIRST]\<rparr>"
    have "nEntry f = 0" "pLast f = None" using rep Nil by (simp_all add: fifo_rep_def)
    moreover have "\<exists>h' f'. fifoStore (h(n \<mapsto> ?pg)) (f\<lparr>pLast := Some n, pFirst := Some n\<rparr>) n v =
        Inr (SQLITE_OK, h', f') \<and> fifo_rep h' f' ([] @ [n])
        \<and> heap_items h' ([] @ [n]) = heap_items (h(n \<mapsto> ?pg)) ([] @ [n]) @ [v]
        \<and> h' |` (- set ([] @ [n])) = (h(n \<mapsto> ?pg)) |` (- set ([] @ [n]))"
      by (rule fifoStore_last [where pg = ?pg])
        (use \<open>nEntry f = 0\<close> fifosize_pos in \<open>auto simp: page_items_def\<close>)
    ultimately show ?thesis using Nil fifosize_pos gone
      by (auto simp: sqlite3VdbeFifoPush_def allocateFifoPage_def page_items_def intro!: exI [of _ "[n]"])
  next
    case (snoc bs l)
    from rep snoc obtain pg where l: "h l = Some pg" "page_ok pg" "pLast f = Some l"
      by (auto simp: fifo_rep_def)
    have r: "plist h (pFirst f) (bs @ [l])" "distinct (bs @ [l])" "nEntry f = length (heap_items h (bs @ [l]))"
      "\<forall>a \<in> set bs. \<exists>pg. h a = Some pg \<and> page_ok pg"
      using rep snoc by (auto simp: fifo_rep_def)
    show ?thesis
    proof (cases "iWrite pg \<ge> nSlot pg")
      case False
      from fifoStore_last [OF l(1) r(1,2) l(3) r(4,3), of v] l(2) False snoc
      show ?thesis using l by (auto simp: sqlite3VdbeFifoPush_def page_ok_def intro!: exI [of _ as])
    next
      case True
      define k where "k = (if nEntry f > FIFOSIZE_MAX then FIFOSIZE_MAX else nEntry f)"
      have "page_items pg \<noteq> []" using page_items_nonempty [OF l(2)] .
      then have k: "0 < k" using r(3) l(1) fifosize_pos by (auto simp: k_def heap_items_append)
      let ?new = "\<lparr>nSlot = k, iWrite = 0, iRead = 0, pNext = None, aSlot = map junk [0..<k]\<rparr>"
      let ?h = "h(n \<mapsto> ?new, l \<mapsto> pg\<lparr>pNext := Some n\<rparr>)"
      have nl: "n \<noteq> l" using nas snoc by auto
      have hh: "?h = h(l \<mapsto> pg\<lparr>pNext := Some n\<rparr>, n \<mapsto> ?new)" using nl by auto
      have pl: "plist ?h (pFirst f) ((bs @ [l]) @ [n])"
        using plist_append1 [OF r(1) _ l(1), of n ?new] r(2) nas snoc hh by simp
      have items: "heap_items ?h ((bs @ [l]) @ [n]) = heap_items h (bs @ [l])"
        using nl nas snoc r(2) l(1) by (simp add: heap_items_append heap_items_frame page_items_def)
      have "\<exists>h' f'. fifoStore ?h (f\<lparr>pLast := Some n\<rparr>) n v = Inr (SQLITE_OK, h', f')
          \<and> fifo_rep h' f' ((bs @ [l]) @ [n])
          \<and> heap_items h' ((bs @ [l]) @ [n]) = heap_items ?h ((bs @ [l]) @ [n]) @ [v]
          \<and> h' |` (- set ((bs @ [l]) @ [n])) = ?h |` (- set ((bs @ [l]) @ [n]))"
      proof (rule fifoStore_last [where pg = ?new])
        show "\<forall>a \<in> set (bs @ [l]). \<exists>pg. ?h a = Some pg \<and> page_ok pg"
          using r(4) l(2) nas snoc by (auto simp: page_ok_def)
      qed (use pl items r nl nas snoc k in auto)
      moreover have "?h |` (- set ((bs @ [l]) @ [n])) = h |` (- set as)"
        using fresh snoc by (auto simp: restrict_map_def fun_eq_iff)
      moreover have "sqlite3VdbeFifoPush junk (Some n) h f v = fifoStore ?h (f\<lparr>pLast := Some n\<rparr>) n v"
        using l True by (simp add: sqlite3VdbeFifoPush_def allocateFifoPage_def k_def Let_def)
      ultimately show ?thesis using snoc items by metis
    qed
  qed
qed

lemma fifo_push_nomem:
  assumes rep: "fifo_rep h f as"
  shows "(\<exists>h' f' bs. sqlite3VdbeFifoPush junk None h f v = Inr (SQLITE_OK, h', f')
      \<and> fifo_rep h' f' bs \<and> heap_items h' bs = heap_items h as @ [v] \<and> h' |` (- set bs) = h |` (- set as))
    \<or> sqlite3VdbeFifoPush junk None h f v = Inr (SQLITE_NOMEM, h, f)"
proof (cases as rule: rev_cases)
  case Nil
  with rep show ?thesis
    by (auto simp: sqlite3VdbeFifoPush_def allocateFifoPage_def fifo_rep_def)
next
  case (snoc cs l)
  from rep snoc obtain pg where l: "h l = Some pg" "page_ok pg" "pLast f = Some l"
    by (auto simp: fifo_rep_def)
  have r: "plist h (pFirst f) (cs @ [l])" "distinct (cs @ [l])" "nEntry f = length (heap_items h (cs @ [l]))"
    "\<forall>a \<in> set cs. \<exists>pg. h a = Some pg \<and> page_ok pg"
    using rep snoc by (auto simp: fifo_rep_def)
  have "pg\<lparr>pNext := None\<rparr> = pg" using plist_last_none [OF r(1) l(1)] by simp
  then have full: "sqlite3VdbeFifoPush junk None h f v = Inr (SQLITE_NOMEM, h, f)" if "iWrite pg \<ge> nSlot pg"
    using that l by (simp add: sqlite3VdbeFifoPush_def allocateFifoPage_def fun_upd_idem)
  have room: "sqlite3VdbeFifoPush junk None h f v = fifoStore h f l v" if "iWrite pg < nSlot pg"
    using that l by (simp add: sqlite3VdbeFifoPush_def)
  show ?thesis
  proof (cases "iWrite pg < nSlot pg")
    case True
    with fifoStore_last [OF l(1) r(1,2) l(3) r(4,3), of v] l(2) snoc room [OF True] show ?thesis
      unfolding page_ok_def by metis
  qed (use full in simp)
qed

lemma fifo_pop:
  assumes rep: "fifo_rep h f as"
  shows "case heap_items h as of
      [] \<Rightarrow> sqlite3VdbeFifoPop h f = Inr (SQLITE_DONE, None, h, f)
    | x # xs \<Rightarrow> \<exists>h' f' bs. sqlite3VdbeFifoPop h f = Inr (SQLITE_OK, Some x, h', f')
        \<and> fifo_rep h' f' bs \<and> heap_items h' bs = xs \<and> h' |` (- set bs) = h |` (- set as)"
proof (cases as)
  case Nil
  with rep show ?thesis by (simp add: fifo_rep_def sqlite3VdbeFifoPop_def)
next
  case (Cons a bs)
  from rep Cons obtain pg where a: "h a = Some pg" "page_ok pg" "pFirst f = Some a" "a \<notin> set bs"
    "plist h (pNext pg) bs" by (auto simp: fifo_rep_def)
  have e: "nEntry f \<noteq> 0" using fifo_rep_empty_iff [OF rep] Cons by simp
  have it: "page_items pg = aSlot pg ! iRead pg # drop (iRead pg + 1) (take (iWrite pg) (aSlot pg))"
    using a(2) by (simp add: page_ok_def page_items_def) (metis Cons_nth_drop_Suc le_trans length_take
        less_le_trans min.absorb2 nth_take)
  let ?pg = "pg\<lparr>iRead := iRead pg + 1\<rparr>"
  have items: "heap_items h as = aSlot pg ! iRead pg # page_items ?pg @ heap_items h bs"
    using Cons a(1) it by (simp add: page_items_def)
  have rd: "iRead pg < length (aSlot pg)" using a(2) by (simp add: page_ok_def)
  show ?thesis
  proof (cases "iRead pg + 1 \<ge> iWrite pg")
    case True
    then have nil: "page_items ?pg = []" by (simp add: page_items_def)
    let ?h = "h(a := None)"
    let ?f = "f\<lparr>nEntry := nEntry f - 1, pFirst := pNext pg,
        pLast := (if nEntry f - 1 = 0 then None else pLast f)\<rparr>"
    have n: "nEntry f - 1 = length (heap_items h bs)"
      using rep items nil by (simp add: fifo_rep_def)
    have bs: "bs = [] \<longleftrightarrow> heap_items h bs = []"
      using rep Cons by (cases bs) (auto simp: fifo_rep_def dest: page_items_nonempty)
    have "fifo_rep ?h ?f bs"
      using rep Cons a n bs by (auto simp: fifo_rep_def plist_frame heap_items_frame)
    moreover have "?h |` (- set bs) = h |` (- set as)" using Cons a(4) by (auto simp: restrict_map_def fun_eq_iff)
    moreover have "sqlite3VdbeFifoPop h f = Inr (SQLITE_OK, Some (aSlot pg ! iRead pg), ?h, ?f)"
      using True e a rd by (simp add: sqlite3VdbeFifoPop_def Let_def)
    ultimately show ?thesis using items nil heap_items_frame [OF a(4), of h None] by auto
  next
    case False
    let ?h = "h(a \<mapsto> ?pg)" and ?f = "f\<lparr>nEntry := nEntry f - 1\<rparr>"
    have "fifo_rep ?h ?f as"
      using rep Cons a False items
      by (auto simp: fifo_rep_def plist_frame heap_items_frame page_ok_def)
    moreover have "heap_items ?h as = page_items ?pg @ heap_items h bs"
      using Cons a by (simp add: heap_items_frame)
    moreover have "?h |` (- set as) = h |` (- set as)" using Cons by simp
    moreover have "sqlite3VdbeFifoPop h f = Inr (SQLITE_OK, Some (aSlot pg ! iRead pg), ?h, ?f)"
      using False e a rd by (simp add: sqlite3VdbeFifoPop_def Let_def)
    ultimately show ?thesis using items by auto
  qed
qed

lemma fifo_free_pages:
  "plist h p as \<Longrightarrow> distinct as \<Longrightarrow> fifoFreePages h p = Some (Inr (h |` (- set as)))"
proof (induction as arbitrary: h p)
  case Nil
  then show ?case by (simp add: fifoFreePages.simps)
next
  case (Cons a as)
  then obtain pg where pg: "p = Some a" "h a = Some pg" "plist h (pNext pg) as" by auto
  then have "plist (h(a := None)) (pNext pg) as" using Cons.prems by (simp add: plist_frame)
  moreover have "fifoFreePages h p = fifoFreePages (h(a := None)) (pNext pg)"
    using pg by (simp add: fifoFreePages.simps [of h "Some a"])
  ultimately have "fifoFreePages h p = Some (Inr ((h(a := None)) |` (- set as)))"
    using Cons.IH Cons.prems(2) by (simp only: distinct.simps)
  also have "(h(a := None)) |` (- set as) = h |` (- set (a # as))"
    by (auto simp: restrict_map_def fun_eq_iff)
  finally show ?case .
qed

subsection \<open>The contract on the linked pages\<close>

text \<open>
  The memory is a function alloc: the address it gives request k on a heap, or None. It is legal
  when an address it gives is not in use. It may fail at k when it refuses request k on some
  finite heap. The state is the heap with the queue; h0 is what the heap holds besides the pages
  of the queue.
\<close>

type_synonym fifo_mem = "nat \<Rightarrow> fheap \<Rightarrow> nat option"

definition fifo_mem_legal :: "fifo_mem \<Rightarrow> bool" where
  "fifo_mem_legal alloc \<longleftrightarrow> (\<forall>k h a. alloc k h = Some a \<longrightarrow> h a = None)"

definition fifo_mem_may_fail :: "fifo_mem \<Rightarrow> nat \<Rightarrow> bool" where
  "fifo_mem_may_fail alloc k \<longleftrightarrow> (\<exists>h. finite (dom h) \<and> alloc k h = None)"

definition fifo_state_ok :: "fheap \<Rightarrow> fheap \<times> Fifo \<Rightarrow> bool" where
  "fifo_state_ok h0 s \<longleftrightarrow> finite (dom h0) \<and> (\<exists>as. fifo_rep (fst s) (snd s) as \<and> fst s |` (- set as) = h0)"

definition fifo_items :: "fheap \<times> Fifo \<Rightarrow> u64 list" where
  "fifo_items s = heap_items (fst s) (THE as. plist (fst s) (pFirst (snd s)) as)"

definition fifo_push_at :: "(nat \<Rightarrow> u64) \<Rightarrow> fifo_mem \<Rightarrow> nat \<Rightarrow> u64 \<Rightarrow> fheap \<times> Fifo \<Rightarrow> (rc \<times> fheap \<times> Fifo) cres" where
  "fifo_push_at junk alloc k v s = sqlite3VdbeFifoPush junk (alloc k (fst s)) (fst s) (snd s) v"

definition fifo_pop_at :: "fheap \<times> Fifo \<Rightarrow> (rc \<times> u64 option \<times> fheap \<times> Fifo) cres" where
  "fifo_pop_at s = sqlite3VdbeFifoPop (fst s) (snd s)"

lemma fifo_items_rep: "fifo_rep h f as \<Longrightarrow> fifo_items (h, f) = heap_items h as"
proof -
  assume "fifo_rep h f as"
  then have "plist h (pFirst f) as" by (simp add: fifo_rep_def)
  then have "(THE as. plist h (pFirst f) as) = as" by (blast intro: the_equality dest: plist_fun)
  then show ?thesis by (simp add: fifo_items_def)
qed

lemma fifo_state_okI: "fifo_rep h f as \<Longrightarrow> h |` (- set as) = h0 \<Longrightarrow> finite (dom h0) \<Longrightarrow> fifo_state_ok h0 (h, f)"
  by (auto simp: fifo_state_ok_def)

lemma fifo_state_finite: "fifo_state_ok h0 (h, f) \<Longrightarrow> finite (dom h)"
proof -
  assume "fifo_state_ok h0 (h, f)"
  then obtain as where "finite (dom h0)" "h |` (- set as) = h0" by (auto simp: fifo_state_ok_def)
  then have "dom h \<subseteq> dom h0 \<union> set as" by (auto simp: restrict_map_def)
  with \<open>finite (dom h0)\<close> show ?thesis by (meson List.finite_set finite_UnI finite_subset)
qed

interpretation fifo: fifo_queue fifo_mem_legal fifo_mem_may_fail "fifo_state_ok h0" fifo_items "fifo_push_at junk" fifo_pop_at
  for h0 junk
proof
  fix m s k x
  assume m: "fifo_mem_legal m" and s: "fifo_state_ok h0 s"
  obtain h f where hf [simp]: "s = (h, f)" by (cases s)
  from s obtain as where as: "fifo_rep h f as" "h |` (- set as) = h0" "finite (dom h0)" by (auto simp: fifo_state_ok_def)
  have pushed: "\<exists>t. fifo_state_ok h0 t \<and> fifo_push_at junk m k x s = Inr (SQLITE_OK, t) \<and> fifo_items t = fifo_items s @ [x]"
    if "sqlite3VdbeFifoPush junk (m k h) h f x = Inr (SQLITE_OK, h', f')" "fifo_rep h' f' bs"
      "heap_items h' bs = heap_items h as @ [x]" "h' |` (- set bs) = h |` (- set as)" for h' f' bs
    using that as by (intro exI [of _ "(h', f')"]) (simp add: fifo_push_at_def fifo_items_rep fifo_state_okI)
  show "\<exists>t. fifo_state_ok h0 t \<and> (fifo_push_at junk m k x s = Inr (SQLITE_OK, t) \<and> fifo_items t = fifo_items s @ [x]
      \<or> fifo_push_at junk m k x s = Inr (SQLITE_NOMEM, t) \<and> fifo_items t = fifo_items s \<and> fifo_mem_may_fail m k)"
  proof (cases "m k h")
    case None
    with fifo_state_finite [of h0 h f] s have "fifo_mem_may_fail m k" by (auto simp: fifo_mem_may_fail_def)
    with fifo_push_nomem [OF as(1), of junk x] s None pushed show ?thesis by (fastforce simp: fifo_push_at_def)
  next
    case (Some n)
    with m have "h n = None" by (auto simp: fifo_mem_legal_def)
    from fifo_push [OF as(1) this, of junk x] Some pushed show ?thesis by metis
  qed
next
  fix s
  assume s: "fifo_state_ok h0 s"
  obtain h f where hf [simp]: "s = (h, f)" by (cases s)
  from s obtain as where as: "fifo_rep h f as" "h |` (- set as) = h0" "finite (dom h0)" by (auto simp: fifo_state_ok_def)
  note its = fifo_items_rep [OF as(1)]
  show "\<exists>t. fifo_state_ok h0 t \<and>
      (case fifo_items s of [] \<Rightarrow> fifo_pop_at s = Inr (SQLITE_DONE, None, t) \<and> fifo_items t = []
       | x # xs \<Rightarrow> fifo_pop_at s = Inr (SQLITE_OK, Some x, t) \<and> fifo_items t = xs)"
  proof (cases "heap_items h as")
    case Nil
    with fifo_pop [OF as(1)] s its show ?thesis by (auto simp: fifo_pop_at_def)
  next
    case (Cons x xs)
    with fifo_pop [OF as(1)] obtain h' f' bs where p: "sqlite3VdbeFifoPop h f = Inr (SQLITE_OK, Some x, h', f')"
      "fifo_rep h' f' bs" "heap_items h' bs = xs" "h' |` (- set bs) = h |` (- set as)" by auto
    with as its Cons show ?thesis
      by (intro exI [of _ "(h', f')"]) (simp add: fifo_pop_at_def fifo_items_rep fifo_state_okI)
  qed
qed

text \<open>Clearing a queue ends, frees exactly the pages of the queue, and leaves the empty queue.\<close>

lemma fifo_clear_frees:
  assumes "fifo_rep h f as"
  shows "sqlite3VdbeFifoClear h f = Some (Inr (h |` (- set as), sqlite3VdbeFifoInit))"
  using assms fifo_free_pages [of h "pFirst f" as]
  by (simp add: fifo_rep_def sqlite3VdbeFifoClear_def)

subsection \<open>Properties\<close>

text \<open>
  C5: let any script of pushes and pops run from an initialised queue, on a memory that
  gives addresses not in use and may refuse requests. Every operation of the script returns. Its
  answers are those of a list to which the accepted pushes append and from whose front the pops
  take, an empty queue being reported exactly when the list is empty; a push is refused only
  where the memory may refuse its request, and then it reports SQLITE\_NOMEM and nothing is
  lost. Clearing the queue afterwards gives back every page that was allocated.
\<close>

theorem fifo_order:
  assumes "\<forall>k h a. alloc k h = Some a \<longrightarrow> h a = None" and "finite (dom h)"
  shows "\<exists>oks h' f'. queue_exec (fifo_push_at junk alloc) fifo_pop_at 0 ops (h, sqlite3VdbeFifoInit)
      = Inr (fst (queue_spec [] oks ops), h', f')
    \<and> length oks = length ops
    \<and> (\<forall>i < length ops. \<not> oks ! i \<longrightarrow> (\<exists>g. finite (dom g) \<and> alloc i g = None))
    \<and> sqlite3VdbeFifoClear h' f' = Some (Inr (h, sqlite3VdbeFifoInit))"
proof -
  have rep: "fifo_rep h sqlite3VdbeFifoInit []" by (simp add: fifo_rep_def sqlite3VdbeFifoInit_def)
  have legal: "fifo_mem_legal alloc" using assms(1) by (simp add: fifo_mem_legal_def)
  have "fifo_state_ok h (h, sqlite3VdbeFifoInit)" using rep assms(2) by (intro fifo_state_okI [of _ _ "[]"]) (simp_all add: restrict_map_def)
  from fifo.exec_spec [OF legal this, of junk 0 ops] fifo_items_rep [OF rep]
  obtain oks rs h' f' where r: "queue_exec (fifo_push_at junk alloc) fifo_pop_at 0 ops (h, sqlite3VdbeFifoInit) = Inr (rs, h', f')"
    "fifo_state_ok h (h', f')" "queue_spec [] oks ops = (rs, fifo_items (h', f'))" "length oks = length ops"
    "\<forall>i < length ops. \<not> oks ! i \<longrightarrow> fifo_mem_may_fail alloc i" by auto
  from r(2) obtain as where "fifo_rep h' f' as" "h' |` (- set as) = h" by (auto simp: fifo_state_ok_def)
  with fifo_clear_frees [of h' f' as] r(1,3,4,5) show ?thesis
    by (intro exI [of _ oks] exI [of _ h'] exI [of _ f']) (simp add: fifo_mem_may_fail_def)
qed

text \<open>
  The queue runs empty and is filled again, with a refused request in between; the one address
  the memory has is given again once its page was freed.
\<close>

definition fifo_example_mem :: fifo_mem where
  "fifo_example_mem k h = (if k = 4 then None else if h 5 = None then Some 5 else None)"

definition fifo_example_ops :: "u64 queue_op list" where
  "fifo_example_ops = [Push 10, Push 11, Pop, Pop, Push 12, Pop, Push 13, Pop]"

theorem fifo_order_witness:
  "\<exists>oks h' f'. queue_exec (fifo_push_at (\<lambda>_. 0) fifo_example_mem) fifo_pop_at 0 fifo_example_ops (Map.empty, sqlite3VdbeFifoInit)
      = Inr ([(SQLITE_OK, None), (SQLITE_OK, None), (SQLITE_OK, Some 10), (SQLITE_OK, Some 11), (SQLITE_NOMEM, None),
          (SQLITE_DONE, None), (SQLITE_OK, None), (SQLITE_OK, Some 13)], h', f')
    \<and> fst (queue_spec [] oks fifo_example_ops) = [(SQLITE_OK, None), (SQLITE_OK, None), (SQLITE_OK, Some 10), (SQLITE_OK, Some 11),
        (SQLITE_NOMEM, None), (SQLITE_DONE, None), (SQLITE_OK, None), (SQLITE_OK, Some 13)]
    \<and> sqlite3VdbeFifoClear h' f' = Some (Inr (Map.empty, sqlite3VdbeFifoInit))"
proof -
  have m: "\<forall>k h a. fifo_example_mem k h = Some a \<longrightarrow> h a = None" by (auto simp: fifo_example_mem_def split: if_splits)
  have e: "\<exists>u. queue_exec (fifo_push_at (\<lambda>_. 0) fifo_example_mem) fifo_pop_at 0 fifo_example_ops (Map.empty, sqlite3VdbeFifoInit)
      = Inr ([(SQLITE_OK, None), (SQLITE_OK, None), (SQLITE_OK, Some 10), (SQLITE_OK, Some 11), (SQLITE_NOMEM, None),
          (SQLITE_DONE, None), (SQLITE_OK, None), (SQLITE_OK, Some 13)], u)"
    by (simp add: fifo_example_ops_def fifo_push_at_def fifo_pop_at_def fifo_example_mem_def sqlite3VdbeFifoInit_def
        sqlite3VdbeFifoPush_def sqlite3VdbeFifoPop_def allocateFifoPage_def fifoStore_def FIFOSIZE_FIRST_def FIFOSIZE_MAX_def
        sizeof_FifoPage_def rd_def wr_def Let_def)
  from e fifo_order [OF m, of Map.empty "\<lambda>_. 0" fifo_example_ops] show ?thesis by auto
qed

end
