(* ===== verification/Prng.thy ===== *)
theory Prng
  imports Prelude "HOL-Library.Multiset"
begin

text \<open>
  random.c of the database library (misc/sqlite): the RC4 generator behind random row
  identifiers and temporary file names. The static struct sqlite3Prng is a record that every
  call takes and returns; the 256 seed bytes that sqlite3OsRandomness fills in are the
  argument seed. The mutex around a request is not modelled: a request is one call.

  Shown: the table is a permutation of the 256 byte values after initialisation and after
  every byte, a request returns as many bytes as asked for, and restoring a saved state
  replays the bytes.
\<close>

record sqlite3PrngType =
  isInit :: bool
  prng_i :: byte
  prng_j :: byte
  prng_s :: "byte list"

definition seedStep :: "byte list \<Rightarrow> nat \<Rightarrow> byte \<times> byte list \<Rightarrow> byte \<times> byte list" where
  "seedStep k i js =
     (case js of (j, s) \<Rightarrow>
        let j' = j + (s ! i + k ! i); t = s ! unat j' in
        (j', (s[unat j' := s ! i])[i := t]))"

definition seedPrng :: "byte list \<Rightarrow> sqlite3PrngType \<Rightarrow> sqlite3PrngType" where
  "seedPrng k p =
     (case fold (seedStep k) [0..<256] (0, map of_nat [0..<256]) of
        (j, s) \<Rightarrow> \<lparr>isInit = True, prng_i = 0, prng_j = j, prng_s = s\<rparr>)"

definition randomByte :: "byte list \<Rightarrow> sqlite3PrngType \<Rightarrow> byte \<times> sqlite3PrngType" where
  "randomByte seed p0 =
     (let p = (if \<not> isInit p0 then seedPrng seed p0 else p0);
          i = prng_i p + 1;
          t = prng_s p ! unat i;
          j = prng_j p + t;
          s1 = (prng_s p)[unat i := prng_s p ! unat j];
          s2 = s1[unat j := t];
          t' = t + s2 ! unat i in
      (s2 ! unat t', p\<lparr>prng_i := i, prng_j := j, prng_s := s2\<rparr>))"

fun sqlite3_randomness :: "byte list \<Rightarrow> nat \<Rightarrow> sqlite3PrngType \<Rightarrow> byte list \<times> sqlite3PrngType" where
  "sqlite3_randomness seed 0 p = ([], p)"
| "sqlite3_randomness seed (Suc n) p =
     (let (b, p') = randomByte seed p; (bs, p'') = sqlite3_randomness seed n p' in (b # bs, p''))"

text \<open>The saved copy is a second static struct; the three test routines work on the pair.\<close>

record prng_globals =
  sqlite3Prng :: sqlite3PrngType
  sqlite3SavedPrng :: sqlite3PrngType

definition sqlite3PrngSaveState :: "prng_globals \<Rightarrow> prng_globals" where
  "sqlite3PrngSaveState g = g\<lparr>sqlite3SavedPrng := sqlite3Prng g\<rparr>"

definition sqlite3PrngRestoreState :: "prng_globals \<Rightarrow> prng_globals" where
  "sqlite3PrngRestoreState g = g\<lparr>sqlite3Prng := sqlite3SavedPrng g\<rparr>"

definition sqlite3PrngResetState :: "prng_globals \<Rightarrow> prng_globals" where
  "sqlite3PrngResetState g = g\<lparr>sqlite3Prng := (sqlite3Prng g)\<lparr>isInit := False\<rparr>\<rparr>"

definition randomness_g :: "byte list \<Rightarrow> nat \<Rightarrow> prng_globals \<Rightarrow> byte list \<times> prng_globals" where
  "randomness_g seed n g =
     (case sqlite3_randomness seed n (sqlite3Prng g) of (bs, p) \<Rightarrow> (bs, g\<lparr>sqlite3Prng := p\<rparr>))"

subsection \<open>The table stays a permutation\<close>

definition prng_perm :: "byte list \<Rightarrow> bool" where
  "prng_perm s \<longleftrightarrow> length s = 256 \<and> set s = UNIV"

definition prng_inv :: "sqlite3PrngType \<Rightarrow> bool" where
  "prng_inv p \<longleftrightarrow> isInit p \<longrightarrow> prng_perm (prng_s p)"

lemma prng_perm_swap:
  assumes "prng_perm s" "i < 256" "j < 256"
  shows "prng_perm ((s[i := s ! j])[j := s ! i])" "prng_perm ((s[j := s ! i])[i := s ! j])"
proof -
  have "mset ((s[i := s ! j])[j := s ! i]) = mset s" "mset ((s[j := s ! i])[i := s ! j]) = mset s"
    using assms by (simp_all add: prng_perm_def mset_swap)
  then have "set ((s[i := s ! j])[j := s ! i]) = set s" "set ((s[j := s ! i])[i := s ! j]) = set s"
    using mset_eq_setD by blast+
  then show "prng_perm ((s[i := s ! j])[j := s ! i])" "prng_perm ((s[j := s ! i])[i := s ! j])"
    using assms(1) by (simp_all add: prng_perm_def)
qed

lemma prng_perm_start: "prng_perm (map of_nat [0..<256])"
proof -
  have "b \<in> of_nat ` {0..<256}" for b :: byte
    by (rule image_eqI [of _ _ "unat b"]) simp_all
  then show ?thesis by (auto simp: prng_perm_def)
qed

lemma seedStep_perm:
  "i < 256 \<Longrightarrow> prng_perm (snd js) \<Longrightarrow> prng_perm (snd (seedStep k i js))"
  by (cases js) (simp add: seedStep_def Let_def prng_perm_swap(2))

lemma seed_fold_perm:
  "set is \<subseteq> {0..<256} \<Longrightarrow> prng_perm (snd js) \<Longrightarrow> prng_perm (snd (fold (seedStep k) is js))"
  by (induction "is" arbitrary: js) (auto simp: seedStep_perm)

lemma seedPrng_perm: "prng_perm (prng_s (seedPrng k p))" "isInit (seedPrng k p)"
  using seed_fold_perm [of "[0..<256]" "(0, map of_nat [0..<256])" k] prng_perm_start
  by (auto simp: seedPrng_def split: prod.splits)

lemma randomByte_perm:
  assumes "prng_inv p"
  shows "isInit (snd (randomByte seed p)) \<and> prng_perm (prng_s (snd (randomByte seed p)))"
proof -
  let ?p = "if \<not> isInit p then seedPrng seed p else p"
  have "prng_perm (prng_s ?p)" "isInit ?p"
    using assms seedPrng_perm by (simp_all add: prng_inv_def)
  then show ?thesis by (simp add: randomByte_def Let_def prng_perm_swap(1))
qed

lemma randomness_inv:
  "prng_inv p \<Longrightarrow> prng_inv (snd (sqlite3_randomness seed n p))
    \<and> length (fst (sqlite3_randomness seed n p)) = n"
proof (induction n arbitrary: p)
  case 0
  then show ?case by simp
next
  case (Suc n)
  obtain b p' where rb: "randomByte seed p = (b, p')" by fastforce
  with randomByte_perm [OF Suc.prems, of seed] have "prng_inv p'" by (simp add: prng_inv_def)
  from Suc.IH [OF this] rb show ?case by (auto simp: Let_def split: prod.splits)
qed

lemma randomness_append:
  "sqlite3_randomness seed (m + n) p =
    (let (a, p') = sqlite3_randomness seed m p; (b, p'') = sqlite3_randomness seed n p' in (a @ b, p''))"
  by (induction m arbitrary: p) (simp_all add: Let_def split: prod.splits)

subsection \<open>Properties\<close>

text \<open>
  From any state in which the table, if initialised, is a permutation of the byte
  values, a request returns as many bytes as asked for and leaves such a state again; after
  at least one byte the generator is initialised.
\<close>

theorem prng_request_inv:
  assumes "prng_inv p"
  shows "length (fst (sqlite3_randomness seed n p)) = n
    \<and> prng_inv (snd (sqlite3_randomness seed n p))
    \<and> (0 < n \<longrightarrow> isInit (snd (sqlite3_randomness seed n p)))"
proof -
  have "isInit (snd (sqlite3_randomness seed n p))" if "0 < n"
    using that
  proof (cases n)
    case (Suc m)
    then have "sqlite3_randomness seed n p = sqlite3_randomness seed (m + 1) p" by simp
    moreover have "isInit (snd (sqlite3_randomness seed (m + 1) p))"
      using randomness_inv [OF assms, of seed m] randomByte_perm [of "snd (sqlite3_randomness seed m p)" seed]
      unfolding randomness_append by (auto simp: Let_def split: prod.splits)
    ultimately show ?thesis by simp
  qed simp
  with randomness_inv [OF assms] show ?thesis by blast
qed

theorem prng_request_inv_witness:
  "length (fst (sqlite3_randomness (replicate 256 7) 2 \<lparr>isInit = False, prng_i = 0, prng_j = 0, prng_s = []\<rparr>)) = 2"
  using prng_request_inv [of "\<lparr>isInit = False, prng_i = 0, prng_j = 0, prng_s = []\<rparr>" "replicate 256 7" 2]
  by (simp add: prng_inv_def)

text \<open>
  Restoring a saved state replays the generator: whatever was requested in between,
  the bytes after the restore are those that would have followed the save, and reset makes
  the next request seed the table anew.
\<close>

theorem prng_save_restore:
  "fst (randomness_g seed m (sqlite3PrngRestoreState (snd (randomness_g seed n (sqlite3PrngSaveState g))))) =
     fst (randomness_g seed m g)
   \<and> fst (randomness_g seed m (sqlite3PrngResetState g)) =
     fst (randomness_g seed m (sqlite3PrngResetState (g\<lparr>sqlite3Prng := p\<rparr>)))"
proof -
  have init: "randomByte seed (q\<lparr>isInit := False\<rparr>) = randomByte seed (r\<lparr>isInit := False\<rparr>)" for q r
    by (simp add: randomByte_def seedPrng_def)
  have "fst (sqlite3_randomness seed m (q\<lparr>isInit := False\<rparr>)) = fst (sqlite3_randomness seed m (r\<lparr>isInit := False\<rparr>))"
    for q r
    by (cases m) (simp_all add: init [of q r])
  then show ?thesis
    by (simp add: randomness_g_def sqlite3PrngSaveState_def sqlite3PrngRestoreState_def
        sqlite3PrngResetState_def split: prod.splits)
      (metis fst_conv)
qed

end
