(* ===== verification/Bitvec.thy ===== *)
theory Bitvec
  imports IndexSet
begin

text \<open>
  bitvec.c of the database library (misc/sqlite): the set of journalled pages of a
  transaction, held as a bitmap, as an open-addressing hash table, or as up to 125
  sub-vectors. The constants are those of a 4-byte pointer target. The union u is a
  datatype with one constructor per member; a freshly zeroed union is a zero bitmap or an
  empty hash table, whichever member the size selects. The debug asserts of the source are
  compiled out in this configuration (NDEBUG) and are preconditions here.

  A probe loop visits slot after slot; after BITVEC\_NINT steps it is back where it began
  with nothing changed, so a loop still running then never ends: None. The recursion of
  Set and Clear takes fuel; seven calls are enough for every representable size, as shown.
  Allocation outcomes come from a list, memory being available once it is used up.

  Shown: for sizes up to 2 ^ 32 - 125, set, clear and test implement a set of page
  numbers through every change of representation.
\<close>

subsection \<open>Data\<close>

definition BITVEC_SZ :: nat where "BITVEC_SZ = 512"
definition BITVEC_USIZE :: nat where "BITVEC_USIZE = (BITVEC_SZ - 12) div 4 * 4"
definition BITVEC_NCHAR :: nat where "BITVEC_NCHAR = BITVEC_USIZE"
definition BITVEC_NBIT :: nat where "BITVEC_NBIT = BITVEC_NCHAR * 8"
definition BITVEC_NINT :: nat where "BITVEC_NINT = BITVEC_USIZE div 4"
definition BITVEC_MXHASH :: nat where "BITVEC_MXHASH = BITVEC_NINT div 2"
definition BITVEC_NPTR :: nat where "BITVEC_NPTR = BITVEC_USIZE div 4"

definition BITVEC_HASH :: "u32 \<Rightarrow> u32" where
  "BITVEC_HASH x = (x * 37) mod of_nat BITVEC_NINT"

datatype Bitvec = Bitvec (iSize: u32) (nSet: u32) (iDivisor: u32) (bv_u: bitvec_u)
  and bitvec_u = ABitmap "byte list" | AHash "u32 list" | ApSub "Bitvec option list"

subsection \<open>Operations\<close>

definition zeroUnion :: "u32 \<Rightarrow> bitvec_u" where
  "zeroUnion sz = (if unat sz \<le> BITVEC_NBIT then ABitmap (replicate BITVEC_NCHAR 0)
     else AHash (replicate BITVEC_NINT 0))"

definition sqlite3BitvecCreate :: "bool \<Rightarrow> u32 \<Rightarrow> Bitvec option" where
  "sqlite3BitvecCreate ok1 sz = (if ok1 then Some (Bitvec sz 0 0 (zeroUnion sz)) else None)"

datatype probe = Found | Free nat

fun probeHash :: "u32 list \<Rightarrow> u32 \<Rightarrow> nat \<Rightarrow> nat \<Rightarrow> probe option" where
  "probeHash tbl i h 0 = None"
| "probeHash tbl i h (Suc n) =
     (if tbl ! h = 0 then Some (Free h)
      else if tbl ! h = i then Some Found
      else probeHash tbl i (if h + 1 \<ge> BITVEC_NINT then 0 else h + 1) n)"

definition hashFind :: "u32 list \<Rightarrow> u32 \<Rightarrow> probe option" where
  "hashFind tbl i = probeHash tbl i (unat (BITVEC_HASH i)) BITVEC_NINT"

lemma size_nth_sub: "bin < length subs \<Longrightarrow> subs ! bin = Some q \<Longrightarrow> size q < size_list (size_option size) subs"
  by (metis less_add_Suc1 nth_mem option.size_gen(2) plus_nat.simps(2) size_list_estimation add.commute plus_1_eq_Suc lessI)

function sqlite3BitvecTest :: "Bitvec option \<Rightarrow> u32 \<Rightarrow> bool cres option" where
  "sqlite3BitvecTest None i = Some (Inr False)"
| "sqlite3BitvecTest (Some (Bitvec sz n d u)) i =
     (if i > sz \<or> i = 0 then Some (Inr False)
      else if unat sz \<le> BITVEC_NBIT then
        (case u of
           ABitmap bm \<Rightarrow> Some (bindR (rd bm (unat ((i - 1) div 8))) (\<lambda>b.
             Inr (b AND push_bit (unat ((i - 1) AND 7)) 1 \<noteq> 0)))
         | _ \<Rightarrow> Some (Inl Uninit))
      else if d > 0 then
        (case u of
           ApSub subs \<Rightarrow>
             let bin = unat ((i - 1) div d) in
             if bin < length subs then sqlite3BitvecTest (subs ! bin) ((i - 1) mod d + 1)
             else Some (Inl OutOfBounds)
         | _ \<Rightarrow> Some (Inl Uninit))
      else
        (case u of
           AHash tbl \<Rightarrow> (case hashFind tbl i of None \<Rightarrow> None
             | Some r \<Rightarrow> Some (Inr (r = Found)))
         | _ \<Rightarrow> Some (Inl Uninit)))"
  by pat_completeness auto
termination
proof (relation "measure (\<lambda>(p, i). size_option size p)", goal_cases)
  case 1
  then show ?case by simp
next
  case (2 sz n d u i subs bin)
  then show ?case
    by (cases "subs ! bin") (auto dest: size_nth_sub)
qed

definition allocOk :: "bool list \<Rightarrow> bool \<times> bool list" where
  "allocOk oks = (case oks of [] \<Rightarrow> (True, []) | b # bs \<Rightarrow> (b, bs))"

definition SQLITE_NOMEM_CODE :: u32 where "SQLITE_NOMEM_CODE = 7"

type_synonym bv_result = "(u32 \<times> bool list \<times> Bitvec) cres option"

text \<open>
  Set, and the loop that re-inserts the values of a hash table that is being split
  (rc collects the result codes by bitwise or).
\<close>

function (sequential) sqlite3BitvecSet :: "nat \<Rightarrow> bool list \<Rightarrow> Bitvec \<Rightarrow> u32 \<Rightarrow> bv_result"
  and resetValues :: "nat \<Rightarrow> bool list \<Rightarrow> u32 \<Rightarrow> Bitvec \<Rightarrow> u32 list \<Rightarrow> bv_result" where
  "sqlite3BitvecSet 0 oks p i = None"
| "sqlite3BitvecSet (Suc k) oks (Bitvec sz n d u) i =
     (if unat sz \<le> BITVEC_NBIT then
        (case u of
           ABitmap bm \<Rightarrow> Some (bindR (rd bm (unat ((i - 1) div 8))) (\<lambda>b.
             bindR (wr bm (unat ((i - 1) div 8)) (b OR push_bit (unat ((i - 1) AND 7)) 1)) (\<lambda>bm'.
             Inr (0, oks, Bitvec sz n d (ABitmap bm')))))
         | _ \<Rightarrow> Some (Inl Uninit))
      else if d \<noteq> 0 then
        (case u of
           ApSub subs \<Rightarrow>
             let bin = unat ((i - 1) div d); i' = (i - 1) mod d + 1 in
             if \<not> bin < length subs then Some (Inl OutOfBounds)
             else
               (case (case subs ! bin of Some q \<Rightarrow> (Some q, oks)
                      | None \<Rightarrow> (case allocOk oks of (b, oks') \<Rightarrow> (sqlite3BitvecCreate b d, oks'))) of
                  (None, oks') \<Rightarrow> Some (Inr (SQLITE_NOMEM_CODE, oks', Bitvec sz n d (ApSub subs)))
                | (Some q, oks') \<Rightarrow>
                    (case sqlite3BitvecSet k oks' q i' of None \<Rightarrow> None
                     | Some r \<Rightarrow> Some (bindR r (\<lambda>(rc, oks'', q').
                         Inr (rc, oks'', Bitvec sz n d (ApSub (subs[bin := Some q'])))))))
         | _ \<Rightarrow> Some (Inl Uninit))
      else
        (case u of
           AHash tbl \<Rightarrow>
             (case hashFind tbl i of
                None \<Rightarrow> None
              | Some Found \<Rightarrow> Some (Inr (0, oks, Bitvec sz n d u))
              | Some (Free h) \<Rightarrow>
                  let n' = n + 1 in
                  if unat n' \<ge> BITVEC_MXHASH then
                    let d' = (sz + of_nat BITVEC_NPTR - 1) div of_nat BITVEC_NPTR;
                        p' = Bitvec sz n' d' (if d' \<noteq> 0 then ApSub (replicate BITVEC_NPTR None)
                                               else AHash (replicate BITVEC_NINT 0)) in
                    (case sqlite3BitvecSet k oks p' i of None \<Rightarrow> None
                     | Some (Inl e) \<Rightarrow> Some (Inl e)
                     | Some (Inr (rc, oks', p'')) \<Rightarrow> resetValues k oks' rc p'' tbl)
                  else Some (Inr (0, oks, Bitvec sz n' d (AHash (tbl[h := i])))))
         | _ \<Rightarrow> Some (Inl Uninit)))"
| "resetValues k oks rc p [] = Some (Inr (rc, oks, p))"
| "resetValues k oks rc p (v # vs) =
     (if v = 0 then resetValues k oks rc p vs
      else (case sqlite3BitvecSet k oks p v of None \<Rightarrow> None
            | Some (Inl e) \<Rightarrow> Some (Inl e)
            | Some (Inr (rc', oks', p')) \<Rightarrow> resetValues k oks' (rc OR rc') p' vs))"
  by pat_completeness auto
termination
  by (relation "measures [\<lambda>x. case x of Inl (k, _) \<Rightarrow> k | Inr (k, _) \<Rightarrow> k,
      \<lambda>x. case x of Inl _ \<Rightarrow> 0 | Inr (_, _, _, _, vs) \<Rightarrow> Suc (length vs)]") auto

fun clearRefill :: "nat \<Rightarrow> bool list \<Rightarrow> u32 \<Rightarrow> Bitvec \<Rightarrow> u32 list \<Rightarrow> (bool list \<times> Bitvec) cres option" where
  "clearRefill k oks i p [] = Some (Inr (oks, p))"
| "clearRefill k oks i p (v # vs) =
     (if v \<noteq> 0 \<and> v \<noteq> i
      then (case sqlite3BitvecSet k oks p v of None \<Rightarrow> None
            | Some (Inl e) \<Rightarrow> Some (Inl e)
            | Some (Inr (rc, oks', p')) \<Rightarrow> clearRefill k oks' i p' vs)
      else clearRefill k oks i p vs)"

fun sqlite3BitvecClear :: "nat \<Rightarrow> bool list \<Rightarrow> Bitvec \<Rightarrow> u32 \<Rightarrow> (bool list \<times> Bitvec) cres option" where
  "sqlite3BitvecClear 0 oks p i = None"
| "sqlite3BitvecClear (Suc k) oks (Bitvec sz n d u) i =
     (if unat sz \<le> BITVEC_NBIT then
        (case u of
           ABitmap bm \<Rightarrow> Some (bindR (rd bm (unat ((i - 1) div 8))) (\<lambda>b.
             bindR (wr bm (unat ((i - 1) div 8)) (b AND NOT (push_bit (unat ((i - 1) AND 7)) 1))) (\<lambda>bm'.
             Inr (oks, Bitvec sz n d (ABitmap bm')))))
         | _ \<Rightarrow> Some (Inl Uninit))
      else if d \<noteq> 0 then
        (case u of
           ApSub subs \<Rightarrow>
             let bin = unat ((i - 1) div d); i' = (i - 1) mod d + 1 in
             if \<not> bin < length subs then Some (Inl OutOfBounds)
             else (case subs ! bin of
                 None \<Rightarrow> Some (Inr (oks, Bitvec sz n d u))
               | Some q \<Rightarrow>
                   (case sqlite3BitvecClear k oks q i' of None \<Rightarrow> None
                    | Some r \<Rightarrow> Some (bindR r (\<lambda>(oks', q').
                        Inr (oks', Bitvec sz n d (ApSub (subs[bin := Some q'])))))))
         | _ \<Rightarrow> Some (Inl Uninit))
      else
        (case u of
           AHash tbl \<Rightarrow> clearRefill k oks i (Bitvec sz 0 d (AHash (replicate BITVEC_NINT 0))) tbl
         | _ \<Rightarrow> Some (Inl Uninit)))"

text \<open>Destroy, as the number of blocks it returns to sqlite3\_free.\<close>

fun sqlite3BitvecDestroy :: "Bitvec \<Rightarrow> nat" where
  "sqlite3BitvecDestroy (Bitvec sz n d u) =
     (if d \<noteq> 0 then
        (case u of ApSub subs \<Rightarrow>
           sum_list (map (\<lambda>x. case x of None \<Rightarrow> 0 | Some q \<Rightarrow> sqlite3BitvecDestroy q) subs)
         | _ \<Rightarrow> 0)
      else 0) + 1"

lemma bv_consts [simp]:
  "BITVEC_NBIT = 4000" "BITVEC_NINT = 125" "BITVEC_MXHASH = 62" "BITVEC_NPTR = 125" "BITVEC_NCHAR = 500"
  by (simp_all add: BITVEC_NBIT_def BITVEC_NINT_def BITVEC_MXHASH_def BITVEC_NPTR_def BITVEC_NCHAR_def
      BITVEC_USIZE_def BITVEC_SZ_def)

subsection \<open>The hash table\<close>

definition hslot :: "u32 \<Rightarrow> nat \<Rightarrow> nat" where
  "hslot i k = (unat (BITVEC_HASH i) + k) mod 125"

text \<open>
  A table is well formed when no value occurs twice, some slot is free, and no free slot
  lies between the home slot of a value and the slot that holds it.
\<close>

definition hash_ok :: "u32 list \<Rightarrow> bool" where
  "hash_ok t \<longleftrightarrow> length t = 125 \<and> 0 \<in> set t
     \<and> (\<forall>a < 125. \<forall>b < 125. t ! a \<noteq> 0 \<and> t ! a = t ! b \<longrightarrow> a = b)
     \<and> (\<forall>v \<in> set t. v \<noteq> 0 \<longrightarrow> (\<exists>k < 125. t ! hslot v k = v \<and> (\<forall>m < k. t ! hslot v m \<noteq> 0)))"

lemma hslot_less [simp]: "hslot i k < 125"
  by (simp add: hslot_def)

lemma BITVEC_HASH_less: "unat (BITVEC_HASH i) < 125"
  by (simp add: BITVEC_HASH_def unat_mod_distrib)

lemma wrap_mod_125: "h < 125 \<Longrightarrow> m < 125 \<Longrightarrow> (h + m) mod 125 = (if h + m < 125 then h + m else h + m - 125)"
  for h m :: nat
  by (simp add: le_mod_geq)

lemma hslot_inj: "m < 125 \<Longrightarrow> k < 125 \<Longrightarrow> hslot i m = hslot i k \<Longrightarrow> m = k"
  using BITVEC_HASH_less [of i]
  by (auto simp: hslot_def wrap_mod_125 split: if_splits)

lemma hslot_surj:
  assumes "z < 125"
  shows "\<exists>k < 125. hslot i k = z"
proof -
  let ?h = "unat (BITVEC_HASH i)"
  have h: "?h < 125" by (rule BITVEC_HASH_less)
  show ?thesis
  proof (cases "?h \<le> z")
    case True
    with assms show ?thesis by (intro exI [of _ "z - ?h"]) (simp add: hslot_def)
  next
    case False
    have "(?h + (125 + z - ?h)) mod 125 = z" using h assms by simp
    with False h show ?thesis by (intro exI [of _ "125 + z - ?h"]) (simp add: hslot_def)
  qed
qed

lemma probe_walk:
  assumes "h < 125" "k < n" "\<forall>m < k. t ! ((h + m) mod 125) \<noteq> 0 \<and> t ! ((h + m) mod 125) \<noteq> i"
  shows "t ! ((h + k) mod 125) = 0 \<Longrightarrow> probeHash t i h n = Some (Free ((h + k) mod 125))"
    and "t ! ((h + k) mod 125) = i \<Longrightarrow> i \<noteq> 0 \<Longrightarrow> probeHash t i h n = Some Found"
proof -
  have "(t ! ((h + k) mod 125) = 0 \<longrightarrow> probeHash t i h n = Some (Free ((h + k) mod 125)))
    \<and> (t ! ((h + k) mod 125) = i \<longrightarrow> i \<noteq> 0 \<longrightarrow> probeHash t i h n = Some Found)"
    using assms
  proof (induction k arbitrary: h n)
    case 0
    then show ?case by (cases n) auto
  next
    case (Suc k)
    from Suc.prems obtain n' where n: "n = Suc n'" by (cases n) auto
    let ?h = "if h + 1 \<ge> 125 then 0 else h + 1"
    have shift: "(?h + m) mod 125 = (h + Suc m) mod 125" for m
      using Suc.prems(1) by (cases "h = 124") auto
    have now: "t ! h \<noteq> 0" "t ! h \<noteq> i" using Suc.prems(1,3) by (auto dest: spec [of _ 0])
    have "\<forall>m < k. t ! ((?h + m) mod 125) \<noteq> 0 \<and> t ! ((?h + m) mod 125) \<noteq> i"
      using Suc.prems(3) unfolding shift by auto
    from Suc.IH [OF _ _ this, of n'] Suc.prems(1,2) n now show ?case
      unfolding shift by auto
  qed
  then show "t ! ((h + k) mod 125) = 0 \<Longrightarrow> probeHash t i h n = Some (Free ((h + k) mod 125))"
    and "t ! ((h + k) mod 125) = i \<Longrightarrow> i \<noteq> 0 \<Longrightarrow> probeHash t i h n = Some Found"
    by auto
qed

lemma hashFind_present:
  assumes "hash_ok t" "i \<in> set t" "i \<noteq> 0"
  shows "hashFind t i = Some Found"
proof -
  from assms obtain k where k: "k < 125" "t ! hslot i k = i" "\<forall>m < k. t ! hslot i m \<noteq> 0"
    by (auto simp: hash_ok_def)
  have "t ! hslot i m \<noteq> i" if "m < k" for m
  proof
    assume "t ! hslot i m = i"
    with k(2) assms(1,3) have "hslot i m = hslot i k"
      unfolding hash_ok_def by (metis hslot_less)
    with hslot_inj [of m k i] k(1) that show False by simp
  qed
  with k show ?thesis
    unfolding hashFind_def bv_consts
    by (intro probe_walk(2) [OF BITVEC_HASH_less, of k]) (auto simp: hslot_def assms(3))
qed

lemma hashFind_absent:
  assumes "hash_ok t" "i \<notin> set t"
  shows "\<exists>k < 125. hashFind t i = Some (Free (hslot i k)) \<and> t ! hslot i k = 0
    \<and> (\<forall>m < k. t ! hslot i m \<noteq> 0)"
proof -
  from assms(1) obtain z where z: "z < 125" "t ! z = 0"
    by (auto simp: hash_ok_def in_set_conv_nth)
  with hslot_surj [OF z(1), of i] have "\<exists>k. k < 125 \<and> t ! hslot i k = 0" by auto
  then obtain k where k: "k < 125" "t ! hslot i k = 0" "\<forall>m < k. \<not> (m < 125 \<and> t ! hslot i m = 0)"
    using ex_has_least_nat [of "\<lambda>k. k < 125 \<and> t ! hslot i k = 0" _ "\<lambda>k. k"]
    by (metis leD)
  then have nz: "\<forall>m < k. t ! hslot i m \<noteq> 0" by auto
  have "t ! hslot i m \<noteq> i" for m
    using assms by (metis hash_ok_def hslot_less nth_mem)
  with k nz have "hashFind t i = Some (Free (hslot i k))"
    unfolding hashFind_def bv_consts hslot_def
    by (intro probe_walk(1) [OF BITVEC_HASH_less]) auto
  with k nz show ?thesis by auto
qed

text \<open>The values a table holds, and that inserting below capacity keeps it well formed.\<close>

definition hash_vals :: "u32 list \<Rightarrow> u32 set" where
  "hash_vals t = set t - {0}"

lemma finite_hash_vals [simp]: "finite (hash_vals t)"
  by (simp add: hash_vals_def)

lemma free_slot_exists:
  assumes "length t = 125" "\<forall>a < 125. \<forall>b < 125. t ! a \<noteq> 0 \<and> t ! a = t ! b \<longrightarrow> a = b"
    "card (hash_vals t) < 125"
  shows "0 \<in> set t"
proof (rule ccontr)
  assume "0 \<notin> set t"
  then have nz: "t ! a \<noteq> 0" if "a < 125" for a using that assms(1) by (metis nth_mem)
  then have "distinct t" using assms(1,2) by (auto simp: distinct_conv_nth)
  then have "card (set t) = 125" using assms(1) by (simp add: distinct_card)
  moreover have "hash_vals t = set t" using \<open>0 \<notin> set t\<close> by (auto simp: hash_vals_def)
  ultimately show False using assms(3) by simp
qed

lemma set_update_free:
  assumes "length t = 125" "h < 125" "t ! h = 0" "i \<noteq> 0"
  shows "hash_vals (t[h := i]) = insert i (hash_vals t)"
proof -
  have "v \<in> set (t[h := i])" if "v \<in> set t" "v \<noteq> 0" for v
  proof -
    from that obtain a where "a < 125" "t ! a = v" using assms(1) by (auto simp: in_set_conv_nth)
    then have "a \<noteq> h" using assms(3) that(2) by auto
    then have "t[h := i] ! a = v" using \<open>t ! a = v\<close> by simp
    then show ?thesis using \<open>a < 125\<close> assms(1) by (metis length_list_update nth_mem)
  qed
  moreover have "i \<in> set (t[h := i])" using assms by (simp add: set_update_memI)
  ultimately show ?thesis
    using assms(4) by (auto simp: hash_vals_def dest: set_update_subset_insert [THEN subsetD])
qed

lemma hash_insert_ok:
  assumes ok: "hash_ok t" and i: "i \<notin> set t" "i \<noteq> 0" and k: "k < 125" "t ! hslot i k = 0"
      "\<forall>m < k. t ! hslot i m \<noteq> 0"
    and room: "card (hash_vals t) + 1 < 125"
  shows "hash_ok (t[hslot i k := i])" and "hash_vals (t[hslot i k := i]) = insert i (hash_vals t)"
proof -
  let ?h = "hslot i k" and ?t = "t[hslot i k := i]"
  have len: "length t = 125" and uniq: "\<forall>a < 125. \<forall>b < 125. t ! a \<noteq> 0 \<and> t ! a = t ! b \<longrightarrow> a = b"
    and reach: "\<forall>v \<in> set t. v \<noteq> 0 \<longrightarrow> (\<exists>k < 125. t ! hslot v k = v \<and> (\<forall>m < k. t ! hslot v m \<noteq> 0))"
    using ok by (auto simp: hash_ok_def)
  show vals: "hash_vals ?t = insert i (hash_vals t)"
    using set_update_free [OF len _ k(2) i(2)] by simp
  have nth: "?t ! a = (if a = ?h then i else t ! a)" if "a < 125" for a
    using that len by (simp add: nth_list_update)
  have ni: "t ! a \<noteq> i" if "a < 125" for a using that i(1) len by (metis nth_mem)
  have uniq': "\<forall>a < 125. \<forall>b < 125. ?t ! a \<noteq> 0 \<and> ?t ! a = ?t ! b \<longrightarrow> a = b"
    using uniq ni by (auto simp: nth)
  have reach': "\<exists>k < 125. ?t ! hslot v k = v \<and> (\<forall>m < k. ?t ! hslot v m \<noteq> 0)"
    if v: "v \<in> set ?t" "v \<noteq> 0" for v
  proof (cases "v = i")
    case True
    have "?t ! hslot i m \<noteq> 0" if "m < k" for m
      using k(3) that i(2) by (simp add: nth)
    with True k(1) show ?thesis by (intro exI [of _ k]) (simp add: nth)
  next
    case False
    with v have "v \<in> set t" using set_update_subset_insert [of t ?h i] by auto
    with reach v(2) obtain j where j: "j < 125" "t ! hslot v j = v" "\<forall>m < j. t ! hslot v m \<noteq> 0"
      by blast
    have "?t ! hslot v j = v" using j(2) v(2) k(2) by (auto simp: nth)
    moreover have "\<forall>m < j. ?t ! hslot v m \<noteq> 0" using j(3) i(2) by (simp add: nth)
    ultimately show ?thesis using j(1) by blast
  qed
  have "card (hash_vals ?t) < 125"
    using vals room by (simp add: card_insert_if)
  then have "0 \<in> set ?t" by (intro free_slot_exists [OF _ uniq']) (simp_all add: len)
  then show "hash_ok ?t" using len uniq' reach' by (simp add: hash_ok_def)
qed

lemma hash_ok_empty: "hash_ok (replicate 125 0)" "hash_vals (replicate 125 0) = {}"
  by (auto simp: hash_ok_def hash_vals_def)

subsection \<open>Invariant and abstraction\<close>

definition hash_inv :: "u32 \<Rightarrow> u32 \<Rightarrow> u32 list \<Rightarrow> bool" where
  "hash_inv sz n t \<longleftrightarrow> hash_ok t \<and> (\<forall>v \<in> set t. v \<le> sz) \<and> unat n = card (hash_vals t)
     \<and> card (hash_vals t) < 62"

fun bv_inv :: "Bitvec \<Rightarrow> bool" where
  "bv_inv (Bitvec sz n d u) =
     (if unat sz \<le> 4000 then (case u of ABitmap bm \<Rightarrow> length bm = 500 | _ \<Rightarrow> False)
      else unat sz \<le> 4294967171 \<and>
        (if d = 0 then (case u of AHash t \<Rightarrow> hash_inv sz n t | _ \<Rightarrow> False)
         else unat d = (unat sz + 124) div 125 \<and>
           (case u of
              ApSub subs \<Rightarrow> length subs = 125 \<and>
                (\<forall>x \<in> set subs. case x of None \<Rightarrow> True | Some q \<Rightarrow> iSize q = d \<and> bv_inv q)
            | _ \<Rightarrow> False)))"

definition bv_elems :: "Bitvec \<Rightarrow> u32 set" where
  "bv_elems p = {i. sqlite3BitvecTest (Some p) i = Some (Inr True)}"

definition bv_valid :: "Bitvec \<Rightarrow> u32 \<Rightarrow> bool" where
  "bv_valid p i \<longleftrightarrow> i \<noteq> 0 \<and> i \<le> iSize p"

lemma bv_valid_pos: "bv_valid p i \<Longrightarrow> 0 < unat i"
  by (simp add: bv_valid_def unat_gt_0)

lemma unat_pred: "i \<noteq> 0 \<Longrightarrow> unat (i - 1 :: u32) = unat i - 1"
  by (rule unat_minus_one)

text \<open>Bin and rest of an index in a vector of sub-vectors.\<close>

lemma unat_bin: "i \<noteq> 0 \<Longrightarrow> unat ((i - 1) div d :: u32) = (unat i - 1) div unat d"
  by (simp add: unat_div_distrib unat_pred)

lemma unat_rest:
  assumes "i \<noteq> 0" "d \<noteq> 0"
  shows "unat ((i - 1) mod d + 1 :: u32) = (unat i - 1) mod unat d + 1"
proof -
  have "(unat i - 1) mod unat d < unat d" using assms(2) by (simp add: unat_gt_0)
  then show ?thesis
    using assms(1) unat_less_2p32 [of d]
    by (subst unat_add_no_wrap) (simp_all add: unat_mod_distrib unat_pred del: unat_less_2p32)
qed

lemma rest_valid:
  assumes "i \<noteq> 0" "d \<noteq> 0"
  shows "(i - 1) mod d + 1 \<noteq> (0 :: u32)" "(i - 1) mod d + 1 \<le> d"
proof -
  have "(unat i - 1) mod unat d < unat d" using assms(2) by (simp add: unat_gt_0)
  with unat_rest [OF assms] show "(i - 1) mod d + 1 \<le> d" by (simp add: word_le_nat_alt)
  show "(i - 1) mod d + 1 \<noteq> (0 :: u32)"
    using unat_rest [OF assms] by (metis add_is_0 one_neq_zero unat_0_iff)
qed

lemma bin_less:
  assumes "i \<noteq> 0" "unat i \<le> s" "unat d = (s + 124) div 125" "0 < s"
  shows "unat ((i - 1) div d :: u32) < 125"
proof -
  have "0 < unat i" using assms(1) by (simp add: unat_gt_0)
  then have "unat i - 1 < 125 * unat d" using assms(2-4) by auto
  then have "(unat i - 1) div unat d < 125"
    by (metis less_mult_imp_div_less mult.commute)
  then show ?thesis using unat_bin [OF assms(1)] by simp
qed

lemma bin_rest_inj:
  assumes "i \<noteq> 0" "j \<noteq> 0" "d \<noteq> 0"
    "unat ((i - 1) div d :: u32) = unat ((j - 1) div d)" "(i - 1) mod d + 1 = (j - 1) mod d + (1 :: u32)"
  shows "i = j"
proof -
  have "(unat i - 1) mod unat d = (unat j - 1) mod unat d"
    using arg_cong [OF assms(5), of unat] unat_rest assms(1-3) by simp
  moreover have "(unat i - 1) div unat d = (unat j - 1) div unat d"
    using assms(4) unat_bin assms(1,2) by simp
  ultimately have "unat i - 1 = unat j - 1" by (metis div_mult_mod_eq)
  moreover have "0 < unat i" "0 < unat j" using assms(1,2) by (simp_all add: unat_gt_0)
  ultimately show ?thesis by (simp add: word_unat_eq_iff)
qed

lemma byte_index [simp]: "i \<noteq> 0 \<Longrightarrow> unat ((i - 1) div 8 :: u32) = (unat i - 1) div 8"
  by (simp add: unat_bin)

lemma bit_index [simp]: "i \<noteq> 0 \<Longrightarrow> unat ((i - 1) AND 7 :: u32) = (unat i - 1) mod 8"
proof -
  assume "i \<noteq> 0"
  moreover have "(7 :: u32) = mask 3" by (simp add: mask_eq_exp_minus_1)
  ultimately show ?thesis by (simp only: unat_and_mask_mod) (simp add: unat_pred)
qed

lemma byte_in_bitmap: "unat i \<le> unat sz \<Longrightarrow> unat sz \<le> 4000 \<Longrightarrow> (unat (i :: u32) - 1) div 8 < 500"
  by (rule less_mult_imp_div_less) arith

lemma test_bitmap:
  assumes "unat sz \<le> 4000" "length bm = 500" "i \<noteq> 0" "i \<le> sz"
  shows "sqlite3BitvecTest (Some (Bitvec sz n d (ABitmap bm))) i =
    Some (Inr (bit (bm ! ((unat i - 1) div 8)) ((unat i - 1) mod 8)))"
proof -
  have "\<not> sz < i" "(unat i - 1) div 8 < 500"
    using assms(1,4) byte_in_bitmap [of i sz] by (simp_all add: not_less word_le_nat_alt)
  with assms show ?thesis by (simp add: word_and_bit_ne_0)
qed

lemma elems_bitmap:
  assumes "unat sz \<le> 4000" "length bm = 500"
  shows "i \<in> bv_elems (Bitvec sz n d (ABitmap bm)) \<longleftrightarrow>
    i \<noteq> 0 \<and> i \<le> sz \<and> bit (bm ! ((unat i - 1) div 8)) ((unat i - 1) mod 8)"
proof (cases "i \<noteq> 0 \<and> i \<le> sz")
  case True
  with test_bitmap [OF assms, of i n d] show ?thesis by (simp add: bv_elems_def del: sqlite3BitvecTest.simps)
next
  case False
  then show ?thesis by (auto simp: bv_elems_def not_le)
qed

lemma test_hash:
  assumes "unat sz > 4000" "hash_inv sz n t" "i \<noteq> 0" "i \<le> sz"
  shows "sqlite3BitvecTest (Some (Bitvec sz n 0 (AHash t))) i = Some (Inr (i \<in> hash_vals t))"
proof (cases "i \<in> set t")
  case True
  with assms hashFind_present [of t i] show ?thesis by (auto simp: hash_inv_def hash_vals_def not_less)
next
  case False
  with assms hashFind_absent [of t i] show ?thesis by (auto simp: hash_inv_def hash_vals_def not_less)
qed

lemma elems_hash:
  assumes "unat sz > 4000" "hash_inv sz n t"
  shows "bv_elems (Bitvec sz n 0 (AHash t)) = hash_vals t"
proof -
  have "i \<in> bv_elems (Bitvec sz n 0 (AHash t)) \<longleftrightarrow> i \<in> hash_vals t" for i
  proof (cases "i \<noteq> 0 \<and> i \<le> sz")
    case True
    with test_hash [OF assms, of i] show ?thesis by (simp add: bv_elems_def del: sqlite3BitvecTest.simps)
  next
    case False
    then show ?thesis using assms(2) by (auto simp: bv_elems_def not_le hash_inv_def hash_vals_def)
  qed
  then show ?thesis by blast
qed

lemma test_sub:
  assumes "unat sz > 4000" "d \<noteq> 0" "unat d = (unat sz + 124) div 125" "length subs = 125"
    "i \<noteq> 0" "i \<le> sz"
  shows "sqlite3BitvecTest (Some (Bitvec sz n d (ApSub subs))) i =
    sqlite3BitvecTest (subs ! unat ((i - 1) div d)) ((i - 1) mod d + 1)"
proof -
  have "unat ((i - 1) div d) < 125"
    using bin_less [OF assms(5) _ assms(3)] assms(1,6) by (simp add: word_le_nat_alt)
  moreover have "\<not> sz < i" using assms(6) by (simp add: not_less)
  ultimately show ?thesis using assms by (simp add: word_greater_zero_iff)
qed

lemma elems_sub:
  assumes "unat sz > 4000" "d \<noteq> 0" "unat d = (unat sz + 124) div 125" "length subs = 125"
  shows "i \<in> bv_elems (Bitvec sz n d (ApSub subs)) \<longleftrightarrow> i \<noteq> 0 \<and> i \<le> sz \<and>
    (\<exists>q. subs ! unat ((i - 1) div d) = Some q \<and> (i - 1) mod d + 1 \<in> bv_elems q)"
proof (cases "i \<noteq> 0 \<and> i \<le> sz")
  case True
  then show ?thesis using test_sub [OF assms, of i n]
    by (cases "subs ! unat ((i - 1) div d)") (simp_all add: bv_elems_def del: sqlite3BitvecTest.simps(2))
next
  case False
  then show ?thesis by (auto simp: bv_elems_def not_le)
qed

lemma bv_inv_cases:
  assumes "bv_inv p"
  obtains (bitmap) sz n d bm where "p = Bitvec sz n d (ABitmap bm)" "unat sz \<le> 4000" "length bm = 500"
  | (hash) sz n t where "p = Bitvec sz n 0 (AHash t)" "unat sz > 4000" "unat sz \<le> 4294967171" "hash_inv sz n t"
  | (sub) sz n d subs where "p = Bitvec sz n d (ApSub subs)" "unat sz > 4000" "unat sz \<le> 4294967171" "d \<noteq> 0"
      "unat d = (unat sz + 124) div 125" "length subs = 125"
      "\<forall>b q. b < 125 \<and> subs ! b = Some q \<longrightarrow> iSize q = d \<and> bv_inv q"
proof -
  obtain sz n d u where p: "p = Bitvec sz n d u" by (cases p)
  show thesis
  proof (cases "unat sz \<le> 4000")
    case True
    with assms p bitmap show thesis by (cases u) auto
  next
    case False
    note big = False
    show thesis
    proof (cases "d = 0")
      case True
      with assms p big hash show thesis by (cases u) auto
    next
      case False
      with assms p big obtain subs where u: "u = ApSub subs" "length subs = 125"
        "\<forall>x \<in> set subs. case x of None \<Rightarrow> True | Some q \<Rightarrow> iSize q = d \<and> bv_inv q"
        by (cases u) auto
      have subs: "\<forall>b q. b < 125 \<and> subs ! b = Some q \<longrightarrow> iSize q = d \<and> bv_inv q"
      proof (intro allI impI)
        fix b q assume "b < 125 \<and> subs ! b = Some q"
        then have "Some q \<in> set subs" using u(2) by (metis nth_mem)
        with u(3) show "iSize q = d \<and> bv_inv q" by auto
      qed
      have "unat sz \<le> 4294967171" "unat d = (unat sz + 124) div 125"
        using assms big False by (simp_all add: p)
      with p u(1,2) False big subs show thesis by (intro sub [of sz n d subs]) simp_all
    qed
  qed
qed

lemma bv_test: "bv_inv p \<Longrightarrow> sqlite3BitvecTest (Some p) i = Some (Inr (i \<in> bv_elems p))"
proof (induction p arbitrary: i rule: measure_induct_rule [of size])
  case (less p)
  show ?case
  proof (cases "i \<noteq> 0 \<and> i \<le> iSize p")
    case False
    then have "sqlite3BitvecTest (Some p) i = Some (Inr False)" by (cases p) auto
    then show ?thesis by (simp add: bv_elems_def)
  next
    case True
    from less.prems show ?thesis
    proof (cases rule: bv_inv_cases)
      case (bitmap sz n d bm)
      with True test_bitmap [of sz bm i n d] elems_bitmap [of sz bm i n d] show ?thesis
        by (simp del: sqlite3BitvecTest.simps)
    next
      case (hash sz n t)
      with True test_hash [of sz n t i] elems_hash [of sz n t] show ?thesis
        by (simp del: sqlite3BitvecTest.simps)
    next
      case (sub sz n d subs)
      let ?b = "unat ((i - 1) div d)"
      have b: "?b < 125" using bin_less [of i "unat sz" d] sub True by (simp add: word_le_nat_alt)
      have eq: "sqlite3BitvecTest (Some p) i = sqlite3BitvecTest (subs ! ?b) ((i - 1) mod d + 1)"
        using test_sub [of sz d subs i n] sub True by (simp del: sqlite3BitvecTest.simps)
      show ?thesis
      proof (cases "subs ! ?b")
        case None
        with eq show ?thesis by (simp add: bv_elems_def)
      next
        case (Some q)
        then have "size q < size p" using size_nth_sub [of ?b subs q] b sub by simp
        with less.IH [of q "(i - 1) mod d + 1"] Some eq sub(7) b
          elems_sub [of sz d subs i n] sub True show ?thesis
          by (auto simp del: sqlite3BitvecTest.simps)
      qed
    qed
  qed
qed

text \<open>A new vector is empty.\<close>

lemma bv_create:
  assumes "unat sz \<le> 4294967171"
  shows "bv_inv (Bitvec sz 0 0 (zeroUnion sz))" "bv_elems (Bitvec sz 0 0 (zeroUnion sz)) = {}"
proof -
  have h: "hash_inv sz 0 (replicate 125 0)"
    using hash_ok_empty by (simp add: hash_inv_def)
  then show inv: "bv_inv (Bitvec sz 0 0 (zeroUnion sz))"
    using assms by (simp add: zeroUnion_def)
  show "bv_elems (Bitvec sz 0 0 (zeroUnion sz)) = {}"
  proof (cases "unat sz \<le> 4000")
    case True
    have "(unat i - 1) div 8 < 500" if "i \<le> sz" for i
      using byte_in_bitmap [of i sz] that True by (simp add: word_le_nat_alt)
    with True elems_bitmap [of sz "replicate 500 0" _ 0 0] show ?thesis
      by (auto simp: zeroUnion_def)
  next
    case False
    with elems_hash [OF _ h] hash_ok_empty show ?thesis by (simp add: zeroUnion_def)
  qed
qed

subsection \<open>Set\<close>

definition adds :: "Bitvec \<Rightarrow> u32 \<Rightarrow> bv_result \<Rightarrow> bool" where
  "adds p i r \<longleftrightarrow> (\<exists>p'. r = Some (Inr (0, [], p')) \<and> bv_inv p' \<and> iSize p' = iSize p
     \<and> bv_elems p' = insert i (bv_elems p))"

lemma bit_pos_inj:
  "i \<noteq> 0 \<Longrightarrow> j \<noteq> 0 \<Longrightarrow> (unat i - 1) div 8 = (unat j - 1) div 8 \<Longrightarrow>
    (unat i - 1) mod 8 = (unat j - 1) mod 8 \<Longrightarrow> i = (j :: u32)"
proof -
  assume a: "i \<noteq> 0" "j \<noteq> 0" "(unat i - 1) div 8 = (unat j - 1) div 8"
    "(unat i - 1) mod 8 = (unat j - 1) mod 8"
  then have "unat i - 1 = unat j - 1" by (metis div_mult_mod_eq)
  moreover have "0 < unat i" "0 < unat j" using a(1,2) by (simp_all add: unat_gt_0)
  ultimately show "i = j" by (simp add: word_unat_eq_iff)
qed

lemma set_bitmap:
  assumes "unat sz \<le> 4000" "length bm = 500" "i \<noteq> 0" "i \<le> sz"
  shows "adds (Bitvec sz n d (ABitmap bm)) i (sqlite3BitvecSet (Suc k) [] (Bitvec sz n d (ABitmap bm)) i)"
proof -
  let ?b = "(unat i - 1) div 8" and ?m = "(unat i - 1) mod 8"
  let ?bm = "bm[?b := bm ! ?b OR push_bit ?m 1]"
  have b: "?b < 500" using byte_in_bitmap [of i sz] assms(1,4) by (simp add: word_le_nat_alt)
  have "sqlite3BitvecSet (Suc k) [] (Bitvec sz n d (ABitmap bm)) i =
      Some (Inr (0, [], Bitvec sz n d (ABitmap ?bm)))"
    using assms b by simp
  moreover have "bv_elems (Bitvec sz n d (ABitmap ?bm)) = insert i (bv_elems (Bitvec sz n d (ABitmap bm)))"
  proof (rule set_eqI)
    fix j
    show "j \<in> bv_elems (Bitvec sz n d (ABitmap ?bm)) \<longleftrightarrow>
        j \<in> insert i (bv_elems (Bitvec sz n d (ABitmap bm)))"
      using elems_bitmap [of sz ?bm j n d] elems_bitmap [of sz bm j n d] assms b bit_pos_inj [of i j]
      by (auto simp: nth_list_update bit_or_exp split: if_splits)
  qed
  ultimately show ?thesis using assms by (simp add: adds_def)
qed

lemma set_hash_small:
  assumes "unat sz > 4000" "hash_inv sz n t" "i \<noteq> 0" "i \<le> sz" "card (insert i (hash_vals t)) < 62"
  shows "\<exists>n' t'. sqlite3BitvecSet (Suc k) oks (Bitvec sz n 0 (AHash t)) i =
      Some (Inr (0, oks, Bitvec sz n' 0 (AHash t'))) \<and> hash_inv sz n' t'
    \<and> hash_vals t' = insert i (hash_vals t)"
proof (cases "i \<in> set t")
  case True
  with assms hashFind_present [of t i] have "hashFind t i = Some Found" by (simp add: hash_inv_def)
  moreover have "insert i (hash_vals t) = hash_vals t" using True assms(3) by (auto simp: hash_vals_def)
  ultimately show ?thesis using assms(1,2) by (auto simp: not_le)
next
  case False
  have ok: "hash_ok t" using assms(2) by (simp add: hash_inv_def)
  from hashFind_absent [OF ok False] obtain m where
    m: "m < 125" "hashFind t i = Some (Free (hslot i m))" "t ! hslot i m = 0" "\<forall>j < m. t ! hslot i j \<noteq> 0"
    by auto
  let ?t = "t[hslot i m := i]"
  have ni: "i \<notin> hash_vals t" using False by (simp add: hash_vals_def)
  then have c: "card (insert i (hash_vals t)) = card (hash_vals t) + 1" by simp
  from hash_insert_ok [OF ok False assms(3) m(1,3,4)] c assms(5) have
    t': "hash_ok ?t" "hash_vals ?t = insert i (hash_vals t)" by simp_all
  have n': "unat (n + 1) = card (hash_vals t) + 1"
    using assms(2,5) c by (subst unat_add_no_wrap) (simp_all add: hash_inv_def)
  have "\<forall>v \<in> set ?t. v \<le> sz"
    using assms(2,4) set_update_subset_insert [of t "hslot i m" i] by (auto simp: hash_inv_def)
  with t' n' c ni assms(5) have "hash_inv sz (n + 1) ?t" by (simp add: hash_inv_def)
  moreover have "sqlite3BitvecSet (Suc k) oks (Bitvec sz n 0 (AHash t)) i =
      Some (Inr (0, oks, Bitvec sz (n + 1) 0 (AHash ?t)))"
    using assms(1,5) m(2) n' c by (simp add: Let_def)
  ultimately show ?thesis using t'(2) by blast
qed

text \<open>Changing one sub-vector changes the elements of its bin only.\<close>

lemma elems_sub_update:
  assumes "unat sz > 4000" "d \<noteq> 0" "unat d = (unat sz + 124) div 125" "length subs = 125"
    and "i \<noteq> 0" "i \<le> sz"
  shows "j \<in> bv_elems (Bitvec sz n d (ApSub (subs[unat ((i - 1) div d) := Some q]))) \<longleftrightarrow>
    (if j \<noteq> 0 \<and> j \<le> sz \<and> unat ((j - 1) div d) = unat ((i - 1) div d) then (j - 1) mod d + 1 \<in> bv_elems q
     else j \<in> bv_elems (Bitvec sz n d (ApSub subs)))"
proof -
  have "unat ((i - 1) div d) < 125"
    using bin_less [of i "unat sz" d] assms by (simp add: word_le_nat_alt)
  then show ?thesis
    using elems_sub [OF assms(1-3), of "subs[unat ((i - 1) div d) := Some q]" j n]
      elems_sub [OF assms(1-4), of j n] assms(4)
    by (auto simp: nth_list_update)
qed

lemma set_sub:
  assumes "unat sz > 4000" "unat sz \<le> 4294967171" "d \<noteq> 0" "unat d = (unat sz + 124) div 125" "length subs = 125"
    and subs: "\<forall>b q. b < 125 \<and> subs ! b = Some q \<longrightarrow> iSize q = d \<and> bv_inv q"
    and i: "i \<noteq> 0" "i \<le> sz"
    and IH: "\<And>q j. bv_inv q \<Longrightarrow> iSize q = d \<Longrightarrow> bv_valid q j \<Longrightarrow> adds q j (sqlite3BitvecSet k [] q j)"
  shows "\<exists>subs'. sqlite3BitvecSet (Suc k) [] (Bitvec sz n d (ApSub subs)) i =
      Some (Inr (0, [], Bitvec sz n d (ApSub subs'))) \<and> length subs' = 125
    \<and> (\<forall>b q. b < 125 \<and> subs' ! b = Some q \<longrightarrow> iSize q = d \<and> bv_inv q)
    \<and> bv_elems (Bitvec sz n d (ApSub subs')) = insert i (bv_elems (Bitvec sz n d (ApSub subs)))"
proof -
  let ?b = "unat ((i - 1) div d)" and ?i = "(i - 1) mod d + 1"
  have b: "?b < 125" using bin_less [of i "unat sz" d] assms by (simp add: word_le_nat_alt)
  define q where "q = (case subs ! ?b of Some q \<Rightarrow> q | None \<Rightarrow> Bitvec d 0 0 (zeroUnion d))"
  have d: "unat d \<le> 4294967171" using assms(2,4) by simp
  have q: "bv_inv q" "iSize q = d"
    using subs b bv_create [OF d] by (auto simp: q_def split: option.splits)
  have qe: "bv_elems q = {j. \<exists>q. subs ! ?b = Some q \<and> j \<in> bv_elems q}"
    using bv_create [OF d] by (auto simp: q_def split: option.splits)
  have "bv_valid q ?i" using rest_valid [OF i(1) assms(3)] q(2) by (simp add: bv_valid_def)
  from IH [OF q this] obtain q' where q': "sqlite3BitvecSet k [] q ?i = Some (Inr (0, [], q'))"
    "bv_inv q'" "iSize q' = d" "bv_elems q' = insert ?i (bv_elems q)"
    using q(2) by (auto simp: adds_def)
  let ?s = "subs[?b := Some q']"
  have run: "sqlite3BitvecSet (Suc k) [] (Bitvec sz n d (ApSub subs)) i =
      Some (Inr (0, [], Bitvec sz n d (ApSub ?s)))"
    using assms(1,3,5) b q'(1)
    by (cases "subs ! ?b") (auto simp: Let_def allocOk_def sqlite3BitvecCreate_def q_def)
  have "j \<in> bv_elems (Bitvec sz n d (ApSub ?s)) \<longleftrightarrow> j \<in> insert i (bv_elems (Bitvec sz n d (ApSub subs)))" for j
  proof (cases "j \<noteq> 0 \<and> j \<le> sz \<and> unat ((j - 1) div d) = ?b")
    case True
    then have "j \<in> bv_elems (Bitvec sz n d (ApSub ?s)) \<longleftrightarrow> (j - 1) mod d + 1 = ?i \<or> (j - 1) mod d + 1 \<in> bv_elems q"
      using elems_sub_update [OF assms(1,3,4,5) i, of j n q'] q'(4) by simp
    moreover have "j \<in> bv_elems (Bitvec sz n d (ApSub subs)) \<longleftrightarrow> (j - 1) mod d + 1 \<in> bv_elems q"
      using elems_sub [OF assms(1,3,4,5), of j n] True qe by simp
    moreover have "(j - 1) mod d + 1 = ?i \<longleftrightarrow> j = i"
      using bin_rest_inj [of j i d] True i(1) assms(3) by auto
    ultimately show ?thesis by simp
  next
    case False
    with i show ?thesis using elems_sub_update [OF assms(1,3,4,5) i, of j n q'] by auto
  qed
  then have "bv_elems (Bitvec sz n d (ApSub ?s)) = insert i (bv_elems (Bitvec sz n d (ApSub subs)))" by blast
  moreover have "\<forall>b q. b < 125 \<and> ?s ! b = Some q \<longrightarrow> iSize q = d \<and> bv_inv q"
    using subs q'(2,3) assms(5) b by (auto simp: nth_list_update)
  ultimately show ?thesis using run assms(5) by (intro exI [of _ ?s]) simp
qed

lemma bv_inv_sub:
  "unat sz > 4000 \<Longrightarrow> unat sz \<le> 4294967171 \<Longrightarrow> d \<noteq> 0 \<Longrightarrow> unat d = (unat sz + 124) div 125 \<Longrightarrow>
    length subs = 125 \<Longrightarrow> \<forall>b q. b < 125 \<and> subs ! b = Some q \<longrightarrow> iSize q = d \<and> bv_inv q \<Longrightarrow>
    bv_inv (Bitvec sz n d (ApSub subs))"
  by (auto simp: in_set_conv_nth split: option.splits)

lemma reset_sub:
  assumes "unat sz > 4000" "unat sz \<le> 4294967171" "d \<noteq> 0" "unat d = (unat sz + 124) div 125"
    and IH: "\<And>q j. bv_inv q \<Longrightarrow> iSize q = d \<Longrightarrow> bv_valid q j \<Longrightarrow> adds q j (sqlite3BitvecSet k [] q j)"
    and "length subs = 125" "\<forall>b q. b < 125 \<and> subs ! b = Some q \<longrightarrow> iSize q = d \<and> bv_inv q"
      "\<forall>v \<in> set vs. v \<le> sz"
  shows "\<exists>subs'. resetValues (Suc k) [] 0 (Bitvec sz n d (ApSub subs)) vs =
      Some (Inr (0, [], Bitvec sz n d (ApSub subs'))) \<and> length subs' = 125
    \<and> (\<forall>b q. b < 125 \<and> subs' ! b = Some q \<longrightarrow> iSize q = d \<and> bv_inv q)
    \<and> bv_elems (Bitvec sz n d (ApSub subs')) = (set vs - {0}) \<union> bv_elems (Bitvec sz n d (ApSub subs))"
  using assms(6-)
proof (induction vs arbitrary: subs)
  case Nil
  then show ?case by auto
next
  case (Cons v vs)
  show ?case
  proof (cases "v = 0")
    case True
    with Cons show ?thesis by auto
  next
    case False
    have v: "v \<le> sz" "\<forall>v \<in> set vs. v \<le> sz" using Cons.prems(3) by simp_all
    from set_sub [OF assms(1-4) Cons.prems(1,2) False v(1) IH, of n] obtain subs' where
      s: "sqlite3BitvecSet (Suc k) [] (Bitvec sz n d (ApSub subs)) v = Some (Inr (0, [], Bitvec sz n d (ApSub subs')))"
        "length subs' = 125" "\<forall>b q. b < 125 \<and> subs' ! b = Some q \<longrightarrow> iSize q = d \<and> bv_inv q"
        "bv_elems (Bitvec sz n d (ApSub subs')) = insert v (bv_elems (Bitvec sz n d (ApSub subs)))"
      by blast
    from Cons.IH [OF s(2,3) v(2)] obtain subs'' where
      "resetValues (Suc k) [] 0 (Bitvec sz n d (ApSub subs')) vs = Some (Inr (0, [], Bitvec sz n d (ApSub subs'')))"
      "length subs'' = 125" "\<forall>b q. b < 125 \<and> subs'' ! b = Some q \<longrightarrow> iSize q = d \<and> bv_inv q"
      "bv_elems (Bitvec sz n d (ApSub subs'')) = (set vs - {0}) \<union> bv_elems (Bitvec sz n d (ApSub subs'))"
      by blast
    moreover have "resetValues (Suc k) [] 0 (Bitvec sz n d (ApSub subs)) (v # vs) =
        resetValues (Suc k) [] 0 (Bitvec sz n d (ApSub subs')) vs"
      using s(1) False by (simp del: sqlite3BitvecSet.simps)
    moreover have "(set (v # vs) - {0}) \<union> bv_elems (Bitvec sz n d (ApSub subs)) =
        (set vs - {0}) \<union> bv_elems (Bitvec sz n d (ApSub subs'))"
      using s(4) False by auto
    ultimately show ?thesis by metis
  qed
qed

lemma new_divisor:
  assumes "unat sz > 4000" "unat sz \<le> 4294967171"
  shows "unat ((sz + 125 - 1) div 125 :: u32) = (unat sz + 124) div 125" "(sz + 125 - 1) div 125 \<noteq> (0 :: u32)"
proof -
  have e: "sz + 125 - 1 = sz + 124" by simp
  have a: "unat (sz + 124) = unat sz + 124" using assms(2) by (subst unat_add_no_wrap) simp_all
  show u: "unat ((sz + 125 - 1) div 125 :: u32) = (unat sz + 124) div 125"
    unfolding e unat_div_distrib a by simp
  have "0 < unat ((sz + 125 - 1) div 125 :: u32)" using assms(1) unfolding u by simp
  then show "(sz + 125 - 1) div 125 \<noteq> (0 :: u32)" by (simp only: unat_gt_0 not_False_eq_True)
qed

lemma set_hash:
  assumes sz: "unat sz > 4000" "unat sz \<le> 4294967171" and inv: "hash_inv sz n t"
    and i: "i \<noteq> 0" "i \<le> sz"
    and IH: "\<And>q j. bv_inv q \<Longrightarrow> unat (iSize q) = (unat sz + 124) div 125 \<Longrightarrow> bv_valid q j \<Longrightarrow>
      adds q j (sqlite3BitvecSet k [] q j)"
  shows "adds (Bitvec sz n 0 (AHash t)) i (sqlite3BitvecSet (Suc (Suc k)) [] (Bitvec sz n 0 (AHash t)) i)"
proof (cases "card (insert i (hash_vals t)) < 62")
  case True
  from set_hash_small [OF sz(1) inv i True, of "Suc k" "[]"] obtain n' t' where
    "sqlite3BitvecSet (Suc (Suc k)) [] (Bitvec sz n 0 (AHash t)) i = Some (Inr (0, [], Bitvec sz n' 0 (AHash t')))"
    "hash_inv sz n' t'" "hash_vals t' = insert i (hash_vals t)" by blast
  then show ?thesis
    using elems_hash [OF sz(1)] inv sz by (simp add: adds_def del: sqlite3BitvecSet.simps)
next
  case False
  define d where "d = (sz + 125 - 1) div 125"
  have d: "d \<noteq> 0" "unat d = (unat sz + 124) div 125" using new_divisor [OF sz] by (simp_all add: d_def)
  have IHd: "adds q j (sqlite3BitvecSet k [] q j)" if "bv_inv q" "iSize q = d" "bv_valid q j" for q j
    using IH that d(2) by simp
  have ok: "hash_ok t" "card (hash_vals t) < 62" "unat n = card (hash_vals t)" and le: "\<forall>v \<in> set t. v \<le> sz"
    using inv by (simp_all add: hash_inv_def)
  have ni: "i \<notin> set t" using False ok(2) i(1) by (auto simp: hash_vals_def insert_absorb)
  with False have "card (hash_vals t) + 1 \<ge> 62" by (simp add: hash_vals_def)
  with ok have n': "\<not> unat (n + 1) < 62" by (subst unat_add_no_wrap) simp_all
  from hashFind_absent [OF ok(1) ni] obtain h where h: "hashFind t i = Some (Free h)" by blast
  let ?e = "replicate 125 None"
  have none: "\<forall>b q. b < 125 \<and> ?e ! b = Some q \<longrightarrow> iSize q = d \<and> bv_inv q"
    by (metis nth_replicate option.distinct(1))
  have len: "length (?e :: Bitvec option list) = 125" by simp
  from set_sub [OF sz d len none i IHd, of "n + 1"] obtain s1 where
    s1: "sqlite3BitvecSet (Suc k) [] (Bitvec sz (n + 1) d (ApSub ?e)) i = Some (Inr (0, [], Bitvec sz (n + 1) d (ApSub s1)))"
      "length s1 = 125" "\<forall>b q. b < 125 \<and> s1 ! b = Some q \<longrightarrow> iSize q = d \<and> bv_inv q"
      "bv_elems (Bitvec sz (n + 1) d (ApSub s1)) = insert i (bv_elems (Bitvec sz (n + 1) d (ApSub ?e)))"
    by blast
  from reset_sub [OF sz d IHd s1(2,3) le, of "n + 1"] obtain s2 where
    s2: "resetValues (Suc k) [] 0 (Bitvec sz (n + 1) d (ApSub s1)) t = Some (Inr (0, [], Bitvec sz (n + 1) d (ApSub s2)))"
      "length s2 = 125" "\<forall>b q. b < 125 \<and> s2 ! b = Some q \<longrightarrow> iSize q = d \<and> bv_inv q"
      "bv_elems (Bitvec sz (n + 1) d (ApSub s2)) = (set t - {0}) \<union> bv_elems (Bitvec sz (n + 1) d (ApSub s1))"
    by blast
  have "sqlite3BitvecSet (Suc (Suc k)) [] (Bitvec sz n 0 (AHash t)) i = Some (Inr (0, [], Bitvec sz (n + 1) d (ApSub s2)))"
    unfolding sqlite3BitvecSet.simps(2) [of "Suc k"]
    using sz(1) h n' d(1) s1(1) s2(1) unfolding d_def
    by (simp add: Let_def del: sqlite3BitvecSet.simps resetValues.simps)
  moreover have "bv_elems (Bitvec sz (n + 1) d (ApSub ?e)) = {}"
    using elems_sub [OF sz(1) d, of ?e _ "n + 1"] bin_less [of _ "unat sz" d] d sz(1)
    by (auto simp: word_le_nat_alt)
  ultimately show ?thesis
    using bv_inv_sub [OF sz d s2(2,3)] s1(4) s2(4) elems_hash [OF sz(1) inv]
    by (auto simp: adds_def hash_vals_def simp del: sqlite3BitvecSet.simps bv_inv.simps)
qed

text \<open>
  The nesting of a vector of a given size, and that the calls of Set go at most two deep per
  level.
\<close>

function bv_depth :: "nat \<Rightarrow> nat" where
  "bv_depth s = (if s \<le> 4000 then 0 else Suc (bv_depth ((s + 124) div 125)))"
  by pat_completeness auto
termination by (relation "measure id") auto

declare bv_depth.simps [simp del]

lemma bv_set:
  assumes "bv_inv p" "bv_valid p i" "2 * bv_depth (unat (iSize p)) < k"
  shows "adds p i (sqlite3BitvecSet k [] p i)"
  using assms
proof (induction "unat (iSize p)" arbitrary: p i k rule: less_induct)
  case less
  obtain k' where k: "k = Suc k'" using less.prems(3) by (cases k) auto
  from less.prems(1) show ?case
  proof (cases rule: bv_inv_cases)
    case (bitmap sz n d bm)
    with set_bitmap [of sz bm i n d k'] less.prems(2) k show ?thesis
      by (simp add: bv_valid_def del: sqlite3BitvecSet.simps)
  next
    case (hash sz n t)
    let ?s = "(unat sz + 124) div 125"
    have fuel: "2 * bv_depth ?s + 2 < k"
      using less.prems(3) hash(1,2) bv_depth.simps [of "unat sz"] by simp
    then obtain k'' where k2: "k = Suc (Suc k'')" "2 * bv_depth ?s < k''"
      by (cases k; cases "k - 1") auto
    have "adds q j (sqlite3BitvecSet k'' [] q j)" if "bv_inv q" "unat (iSize q) = ?s" "bv_valid q j" for q j
      using less.hyps [of q j k''] that k2(2) hash(1,2) by simp
    with set_hash [OF hash(2-4), of i k''] less.prems(2) hash(1) k2(1) show ?thesis
      by (simp add: bv_valid_def del: sqlite3BitvecSet.simps)
  next
    case (sub sz n d subs)
    have fuel: "2 * bv_depth (unat d) < k'"
      using less.prems(3) sub(1,2,5) k bv_depth.simps [of "unat sz"] by simp
    have "adds q j (sqlite3BitvecSet k' [] q j)" if "bv_inv q" "iSize q = d" "bv_valid q j" for q j
      using less.hyps [of q j k'] that fuel sub(1,2,5) by simp
    from set_sub [OF sub(2-7) _ _ this, of i n] less.prems(2) sub(1) bv_inv_sub [OF sub(2-5), of _ n] k
    show ?thesis by (auto simp: adds_def bv_valid_def simp del: sqlite3BitvecSet.simps bv_inv.simps)
  qed
qed

lemma bv_depth_mono: "s \<le> s' \<Longrightarrow> bv_depth s \<le> bv_depth s'"
proof (induction s' arbitrary: s rule: less_induct)
  case (less s')
  show ?case
  proof (cases "s \<le> 4000")
    case True
    then show ?thesis by (simp add: bv_depth.simps [of s])
  next
    case False
    with less.prems have "bv_depth ((s + 124) div 125) \<le> bv_depth ((s' + 124) div 125)"
      by (intro less.IH div_le_mono) auto
    with False less.prems show ?thesis by (simp add: bv_depth.simps [of s] bv_depth.simps [of s'])
  qed
qed

lemma bv_depth_bound: "s \<le> 4294967171 \<Longrightarrow> bv_depth s \<le> 3"
proof -
  assume "s \<le> 4294967171"
  then have "bv_depth s \<le> bv_depth 4294967171" by (rule bv_depth_mono)
  also have "bv_depth 4294967171 = 3" by (simp add: bv_depth.simps)
  finally show ?thesis .
qed

lemma bv_size_bound: "bv_inv p \<Longrightarrow> unat (iSize p) \<le> 4294967171"
  by (erule bv_inv_cases) auto

lemma bv_set_7:
  assumes "bv_inv p" "bv_valid p i"
  shows "adds p i (sqlite3BitvecSet 7 [] p i)"
  using bv_set [OF assms, of 7] bv_depth_bound [OF bv_size_bound [OF assms(1)]] by simp

subsection \<open>Clear\<close>

definition removes :: "Bitvec \<Rightarrow> u32 \<Rightarrow> (bool list \<times> Bitvec) cres option \<Rightarrow> bool" where
  "removes p i r \<longleftrightarrow> (\<exists>p'. r = Some (Inr ([], p')) \<and> bv_inv p' \<and> iSize p' = iSize p
     \<and> bv_elems p' = bv_elems p - {i})"

lemma clear_bitmap:
  assumes "unat sz \<le> 4000" "length bm = 500" "i \<noteq> 0" "i \<le> sz"
  shows "removes (Bitvec sz n d (ABitmap bm)) i (sqlite3BitvecClear (Suc k) [] (Bitvec sz n d (ABitmap bm)) i)"
proof -
  let ?b = "(unat i - 1) div 8" and ?m = "(unat i - 1) mod 8"
  let ?bm = "bm[?b := bm ! ?b AND NOT (push_bit ?m 1)]"
  have b: "?b < 500" using byte_in_bitmap [of i sz] assms(1,4) by (simp add: word_le_nat_alt)
  have "sqlite3BitvecClear (Suc k) [] (Bitvec sz n d (ABitmap bm)) i = Some (Inr ([], Bitvec sz n d (ABitmap ?bm)))"
    using assms b by simp
  moreover have "bv_elems (Bitvec sz n d (ABitmap ?bm)) = bv_elems (Bitvec sz n d (ABitmap bm)) - {i}"
  proof (rule set_eqI)
    fix j
    show "j \<in> bv_elems (Bitvec sz n d (ABitmap ?bm)) \<longleftrightarrow> j \<in> bv_elems (Bitvec sz n d (ABitmap bm)) - {i}"
      using elems_bitmap [of sz ?bm j n d] elems_bitmap [of sz bm j n d] assms b bit_pos_inj [of i j]
      by (auto simp: nth_list_update bit_and_not_exp split: if_splits)
  qed
  ultimately show ?thesis using assms by (simp add: removes_def)
qed

lemma refill_hash:
  assumes "unat sz > 4000" "hash_inv sz n t" "\<forall>v \<in> set vs. v \<le> sz" "finite A" "card A < 62"
    "hash_vals t \<union> (set vs - {0, i}) \<subseteq> A"
  shows "\<exists>n' t'. clearRefill (Suc k) [] i (Bitvec sz n 0 (AHash t)) vs =
      Some (Inr ([], Bitvec sz n' 0 (AHash t'))) \<and> hash_inv sz n' t'
    \<and> hash_vals t' = hash_vals t \<union> (set vs - {0, i})"
  using assms
proof (induction vs arbitrary: n t)
  case Nil
  then show ?case by auto
next
  case (Cons v vs)
  show ?case
  proof (cases "v \<noteq> 0 \<and> v \<noteq> i")
    case False
    with Cons.IH [OF Cons.prems(1,2)] Cons.prems have "\<exists>n' t'. clearRefill (Suc k) [] i (Bitvec sz n 0 (AHash t)) vs =
      Some (Inr ([], Bitvec sz n' 0 (AHash t'))) \<and> hash_inv sz n' t'
      \<and> hash_vals t' = hash_vals t \<union> (set vs - {0, i})" by auto
    moreover have "set (v # vs) - {0, i} = set vs - {0, i}" using False by auto
    moreover have "clearRefill (Suc k) [] i (Bitvec sz n 0 (AHash t)) (v # vs) =
        clearRefill (Suc k) [] i (Bitvec sz n 0 (AHash t)) vs"
      using False by (simp only: clearRefill.simps if_False)
    ultimately show ?thesis by simp
  next
    case True
    have "card (insert v (hash_vals t)) \<le> card A"
      using Cons.prems(4,6) True by (intro card_mono) auto
    with Cons.prems(5) have "card (insert v (hash_vals t)) < 62" by simp
    from set_hash_small [OF Cons.prems(1,2) _ _ this, of k "[]"] True Cons.prems(3) obtain n1 t1 where
      s: "sqlite3BitvecSet (Suc k) [] (Bitvec sz n 0 (AHash t)) v = Some (Inr (0, [], Bitvec sz n1 0 (AHash t1)))"
        "hash_inv sz n1 t1" "hash_vals t1 = insert v (hash_vals t)"
      by auto
    have "hash_vals t1 \<union> (set vs - {0, i}) \<subseteq> A" using s(3) Cons.prems(6) True by auto
    from Cons.IH [OF Cons.prems(1) s(2) _ Cons.prems(4,5) this] Cons.prems(3) obtain n' t' where
      t': "clearRefill (Suc k) [] i (Bitvec sz n1 0 (AHash t1)) vs = Some (Inr ([], Bitvec sz n' 0 (AHash t')))"
        "hash_inv sz n' t'" "hash_vals t' = hash_vals t1 \<union> (set vs - {0, i})"
      by auto
    have "clearRefill (Suc k) [] i (Bitvec sz n 0 (AHash t)) (v # vs) = Some (Inr ([], Bitvec sz n' 0 (AHash t')))"
      using True s(1) t'(1) by (simp del: sqlite3BitvecSet.simps)
    moreover have "hash_vals t' = hash_vals t \<union> (set (v # vs) - {0, i})" using t'(3) s(3) True by auto
    ultimately show ?thesis using t'(2) by blast
  qed
qed

lemma clear_hash_run:
  assumes sz: "unat sz > 4000" and inv: "hash_inv sz n t"
  shows "\<exists>n' t'. sqlite3BitvecClear (Suc (Suc k)) [] (Bitvec sz n 0 (AHash t)) i =
      Some (Inr ([], Bitvec sz n' 0 (AHash t'))) \<and> hash_inv sz n' t' \<and> hash_vals t' = set t - {0, i}"
proof -
  have e: "hash_inv sz 0 (replicate 125 0)" using hash_ok_empty by (simp add: hash_inv_def)
  have "hash_vals (replicate 125 0) \<union> (set t - {0, i}) \<subseteq> hash_vals t"
    unfolding hash_ok_empty by (auto simp: hash_vals_def)
  from refill_hash [OF sz e _ finite_hash_vals [of t] _ this, of k] inv hash_ok_empty(2)
  obtain n' t' where t': "clearRefill (Suc k) [] i (Bitvec sz 0 0 (AHash (replicate 125 0))) t =
      Some (Inr ([], Bitvec sz n' 0 (AHash t')))" "hash_inv sz n' t'" "hash_vals t' = set t - {0, i}"
    unfolding hash_inv_def by auto
  then show ?thesis using sz by (simp del: clearRefill.simps)
qed

lemma clear_hash:
  assumes sz: "unat sz > 4000" "unat sz \<le> 4294967171" and inv: "hash_inv sz n t"
  shows "removes (Bitvec sz n 0 (AHash t)) i (sqlite3BitvecClear (Suc (Suc k)) [] (Bitvec sz n 0 (AHash t)) i)"
proof -
  from clear_hash_run [OF sz(1) inv, of k i] obtain n' t' where
    t': "sqlite3BitvecClear (Suc (Suc k)) [] (Bitvec sz n 0 (AHash t)) i = Some (Inr ([], Bitvec sz n' 0 (AHash t')))"
      "hash_inv sz n' t'" "hash_vals t' = set t - {0, i}" by blast
  moreover have "bv_elems (Bitvec sz n' 0 (AHash t')) = bv_elems (Bitvec sz n 0 (AHash t)) - {i}"
    using elems_hash [OF sz(1) t'(2)] elems_hash [OF sz(1) inv] t'(3) by (auto simp: hash_vals_def)
  ultimately show ?thesis using sz by (simp add: removes_def del: sqlite3BitvecClear.simps)
qed

lemma clear_sub:
  assumes "unat sz > 4000" "unat sz \<le> 4294967171" "d \<noteq> 0" "unat d = (unat sz + 124) div 125" "length subs = 125"
    and subs: "\<forall>b q. b < 125 \<and> subs ! b = Some q \<longrightarrow> iSize q = d \<and> bv_inv q"
    and i: "i \<noteq> 0" "i \<le> sz"
    and IH: "\<And>q j. bv_inv q \<Longrightarrow> iSize q = d \<Longrightarrow> bv_valid q j \<Longrightarrow> removes q j (sqlite3BitvecClear k [] q j)"
  shows "removes (Bitvec sz n d (ApSub subs)) i (sqlite3BitvecClear (Suc k) [] (Bitvec sz n d (ApSub subs)) i)"
proof -
  let ?b = "unat ((i - 1) div d)" and ?i = "(i - 1) mod d + 1"
  have b: "?b < 125" using bin_less [of i "unat sz" d] assms by (simp add: word_le_nat_alt)
  show ?thesis
  proof (cases "subs ! ?b")
    case None
    then have "i \<notin> bv_elems (Bitvec sz n d (ApSub subs))" using elems_sub [OF assms(1,3,4,5), of i n] by simp
    moreover have "sqlite3BitvecClear (Suc k) [] (Bitvec sz n d (ApSub subs)) i =
        Some (Inr ([], Bitvec sz n d (ApSub subs)))"
      using assms(1,3,5) b None by (simp add: Let_def)
    ultimately show ?thesis using bv_inv_sub [OF assms(1-5) subs]
      by (simp add: removes_def del: sqlite3BitvecClear.simps bv_inv.simps)
  next
    case (Some q)
    with subs b have q: "bv_inv q" "iSize q = d" by auto
    have "bv_valid q ?i" using rest_valid [OF i(1) assms(3)] q(2) by (simp add: bv_valid_def)
    from IH [OF q this] obtain q' where q': "sqlite3BitvecClear k [] q ?i = Some (Inr ([], q'))"
      "bv_inv q'" "iSize q' = d" "bv_elems q' = bv_elems q - {?i}"
      using q(2) by (auto simp: removes_def)
    let ?s = "subs[?b := Some q']"
    have run: "sqlite3BitvecClear (Suc k) [] (Bitvec sz n d (ApSub subs)) i = Some (Inr ([], Bitvec sz n d (ApSub ?s)))"
      using assms(1,3,5) b q'(1) Some by (simp add: Let_def)
    have "j \<in> bv_elems (Bitvec sz n d (ApSub ?s)) \<longleftrightarrow> j \<in> bv_elems (Bitvec sz n d (ApSub subs)) - {i}" for j
    proof (cases "j \<noteq> 0 \<and> j \<le> sz \<and> unat ((j - 1) div d) = ?b")
      case True
      then have "j \<in> bv_elems (Bitvec sz n d (ApSub ?s)) \<longleftrightarrow> (j - 1) mod d + 1 \<noteq> ?i \<and> (j - 1) mod d + 1 \<in> bv_elems q"
        using elems_sub_update [OF assms(1,3,4,5) i, of j n q'] q'(4) by auto
      moreover have "j \<in> bv_elems (Bitvec sz n d (ApSub subs)) \<longleftrightarrow> (j - 1) mod d + 1 \<in> bv_elems q"
        using elems_sub [OF assms(1,3,4,5), of j n] True Some by simp
      moreover have "(j - 1) mod d + 1 = ?i \<longleftrightarrow> j = i"
        using bin_rest_inj [of j i d] True i(1) assms(3) by auto
      ultimately show ?thesis by blast
    next
      case False
      with i show ?thesis using elems_sub_update [OF assms(1,3,4,5) i, of j n q'] by auto
    qed
    then have e: "bv_elems (Bitvec sz n d (ApSub ?s)) = bv_elems (Bitvec sz n d (ApSub subs)) - {i}" by blast
    have "\<forall>b q. b < 125 \<and> ?s ! b = Some q \<longrightarrow> iSize q = d \<and> bv_inv q"
      using subs q'(2,3) assms(5) b by (auto simp: nth_list_update)
    with bv_inv_sub [OF assms(1-4), of ?s n] assms(5) run e show ?thesis
      by (simp add: removes_def del: sqlite3BitvecClear.simps bv_inv.simps)
  qed
qed

lemma bv_clear:
  assumes "bv_inv p" "bv_valid p i" "2 * bv_depth (unat (iSize p)) < k"
  shows "removes p i (sqlite3BitvecClear k [] p i)"
  using assms
proof (induction "unat (iSize p)" arbitrary: p i k rule: less_induct)
  case less
  obtain k' where k: "k = Suc k'" using less.prems(3) by (cases k) auto
  from less.prems(1) show ?case
  proof (cases rule: bv_inv_cases)
    case (bitmap sz n d bm)
    with clear_bitmap [of sz bm i n d k'] less.prems(2) k show ?thesis
      by (simp add: bv_valid_def del: sqlite3BitvecClear.simps)
  next
    case (hash sz n t)
    obtain k'' where "k = Suc (Suc k'')"
      using less.prems(3) hash(1,2) k bv_depth.simps [of "unat sz"] by (cases k') auto
    with clear_hash [OF hash(2-4), of i k''] hash(1) show ?thesis by (simp del: sqlite3BitvecClear.simps)
  next
    case (sub sz n d subs)
    have fuel: "2 * bv_depth (unat d) < k'"
      using less.prems(3) sub(1,2,5) k bv_depth.simps [of "unat sz"] by simp
    have "removes q j (sqlite3BitvecClear k' [] q j)" if "bv_inv q" "iSize q = d" "bv_valid q j" for q j
      using less.hyps [of q j k'] that fuel sub(1,2,5) by simp
    from clear_sub [OF sub(2-7) _ _ this, of i n] less.prems(2) sub(1) k show ?thesis
      by (simp add: bv_valid_def del: sqlite3BitvecClear.simps)
  qed
qed

lemma bv_clear_7:
  assumes "bv_inv p" "bv_valid p i"
  shows "removes p i (sqlite3BitvecClear 7 [] p i)"
  using bv_clear [OF assms, of 7] bv_depth_bound [OF bv_size_bound [OF assms(1)]] by simp

subsection \<open>The index set contract\<close>

definition bv_ins :: "Bitvec \<Rightarrow> u32 \<Rightarrow> Bitvec option" where
  "bv_ins p i = (case sqlite3BitvecSet 7 [] p i of Some (Inr (rc, oks, p')) \<Rightarrow> if rc = 0 then Some p' else None
     | _ \<Rightarrow> None)"

definition bv_del :: "Bitvec \<Rightarrow> u32 \<Rightarrow> Bitvec option" where
  "bv_del p i = (case sqlite3BitvecClear 7 [] p i of Some (Inr (oks, p')) \<Rightarrow> Some p' | _ \<Rightarrow> None)"

definition bv_mem :: "Bitvec \<Rightarrow> u32 \<Rightarrow> bool option" where
  "bv_mem p i = Option.bind (sqlite3BitvecTest (Some p) i) ok"

interpretation bv: index_set bv_inv bv_valid bv_elems bv_mem bv_ins bv_del
proof
  show "bv_mem p i = Some (i \<in> bv_elems p)" if "bv_inv p" for p i
    using bv_test [OF that] by (simp add: bv_mem_def del: sqlite3BitvecTest.simps)
  show "\<exists>t. bv_ins p i = Some t \<and> bv_inv t \<and> bv_elems t = insert i (bv_elems p) \<and> bv_valid t = bv_valid p"
    if "bv_inv p" "bv_valid p i" for p i
    using bv_set_7 [OF that] by (auto simp: bv_ins_def adds_def bv_valid_def fun_eq_iff)
  show "\<exists>t. bv_del p i = Some t \<and> bv_inv t \<and> bv_elems t = bv_elems p - {i} \<and> bv_valid t = bv_valid p"
    if "bv_inv p" "bv_valid p i" for p i
    using bv_clear_7 [OF that] by (auto simp: bv_del_def removes_def bv_valid_def fun_eq_iff)
qed

subsection \<open>Properties\<close>

text \<open>
  C23: a page set of any size up to 2 ^ 32 - 125, after any sequence of set and clear calls
  with memory available, through all changes between bitmap, hash table and sub-vectors,
  answers test with the membership that the sequence leaves in the empty set. Seven nested
  calls are enough.
\<close>

theorem bitvec_set_semantics:
  assumes "unat sz \<le> 4294967171" "\<forall>op \<in> set ops. op_index op \<noteq> 0 \<and> op_index op \<le> sz" "i \<noteq> 0" "i \<le> sz"
  shows "\<exists>p q. sqlite3BitvecCreate True sz = Some p \<and> run_ops bv_ins bv_del p ops = Some q
    \<and> sqlite3BitvecTest (Some q) i = Some (Inr (i \<in> spec_ops {} ops))"
proof -
  let ?p = "Bitvec sz 0 0 (zeroUnion sz)"
  have v: "\<forall>op \<in> set ops. bv_valid ?p (op_index op)" "bv_valid ?p i" using assms(2-) by (simp_all add: bv_valid_def)
  from bv.run_ops_spec [OF bv_create(1) [OF assms(1)] v(1)] obtain q where
    q: "run_ops bv_ins bv_del ?p ops = Some q" "bv_inv q" "bv_elems q = spec_ops {} ops"
    using bv_create(2) [OF assms(1)] by auto
  with bv_test [OF q(2), of i] show ?thesis by (simp add: sqlite3BitvecCreate_def del: sqlite3BitvecTest.simps)
qed

theorem bitvec_set_semantics_witness:
  "\<exists>p q. sqlite3BitvecCreate True 5000000 = Some p \<and> run_ops bv_ins bv_del p [Add 4999999, Add 3, Del 3] = Some q
    \<and> sqlite3BitvecTest (Some q) 4999999 = Some (Inr True)"
  using bitvec_set_semantics [of 5000000 "[Add 4999999, Add 3, Del 3]" 4999999]
  by (simp del: run_ops.simps sqlite3BitvecTest.simps)

text \<open>
  Clearing a page set that is held as a hash table rebuilds the table in place and never
  splits it: for any fuel of at least two the result is again a hash table of the same size.
\<close>

theorem bitvec_clear_stays_hash:
  assumes "bv_inv (Bitvec sz n 0 (AHash t))" "i \<noteq> 0" "i \<le> sz"
  shows "\<exists>n' t'. sqlite3BitvecClear (k + 2) [] (Bitvec sz n 0 (AHash t)) i =
      Some (Inr ([], Bitvec sz n' 0 (AHash t'))) \<and> set t' - {0} = set t - {0, i} \<and> unat n' = card (set t - {0, i})"
proof -
  from assms(1) have sz: "unat sz > 4000" "hash_inv sz n t" by (auto simp: not_le split: if_splits)
  from clear_hash_run [OF sz, of k i] show ?thesis by (auto simp: hash_inv_def hash_vals_def)
qed

theorem bitvec_clear_stays_hash_witness:
  "\<exists>n' t'. sqlite3BitvecClear (0 + 2) [] (Bitvec 5000 0 0 (AHash (replicate 125 0))) 9 =
      Some (Inr ([], Bitvec 5000 n' 0 (AHash t'))) \<and> set t' - {0} = set (replicate 125 0) - {0, 9}
      \<and> unat n' = card (set (replicate 125 (0 :: u32)) - {0, 9})"
  by (rule bitvec_clear_stays_hash) (simp_all add: hash_inv_def hash_ok_empty)

end
