(* ===== verification/BitvecTest.thy ===== *)
theory BitvecTest
  imports Bitvec Prng "HOL-Library.Signed_Division"
begin

text \<open>
  The self test of bitvec.c: sqlite3BitvecBuiltinTest interprets a program of set and clear
  instructions on a page set and on a plain bitmap side by side, drawing random page numbers
  from random.c, and compares the two at the end. The int variables are 32-bit words read as
  signed numbers where the code compares, divides, shifts or indexes with them, so that any size,
  a negative one too, can be given: the division rounds towards zero, sz + 7 wraps on overflow as
  on the target, an index below zero is an access outside the block, and a request for no byte or
  a negative number of bytes returns NULL. The instruction array is updated in place as in the
  source. The interpreter takes fuel; a program ends after as
  many rounds as its counters say, so some fuel is always enough, as shown. Byte order of
  the random int is that of the Intel target.

  Shown: for the sizes from 1 to 2 ^ 31 - 8, on every program without the fault-injecting
  instruction 5 the test ends and reports no error; for sizes of -15 and below it returns -1
  without running the program.
\<close>

subsection \<open>Operations\<close>

definition bitOf :: "u32 \<Rightarrow> byte" where
  "bitOf i = push_bit (unat (i AND 7)) 1"

text \<open>The index I>>3 of the macros, on an int.\<close>

definition bitSlot :: "u32 \<Rightarrow> nat cres" where
  "bitSlot i = (if sint i < 0 then Inl OutOfBounds else Inr (nat (sint i div 8)))"

definition SETBIT :: "byte list \<Rightarrow> u32 \<Rightarrow> byte list cres" where
  "SETBIT V i = bindR (bitSlot i) (\<lambda>k. bindR (rd V k) (\<lambda>b. wr V k (b OR bitOf i)))"

definition CLEARBIT :: "byte list \<Rightarrow> u32 \<Rightarrow> byte list cres" where
  "CLEARBIT V i = bindR (bitSlot i) (\<lambda>k. bindR (rd V k) (\<lambda>b. wr V k (b AND NOT (bitOf i))))"

definition TESTBIT :: "byte list \<Rightarrow> u32 \<Rightarrow> bool cres" where
  "TESTBIT V i = bindR (bitSlot i) (\<lambda>k. bindR (rd V k) (\<lambda>b. Inr (b AND bitOf i \<noteq> 0)))"

definition intOfBytes :: "byte list \<Rightarrow> u32" where
  "intOfBytes bs = foldr (\<lambda>b a. a * 256 + ucast b) bs 0"

text \<open>
  The operand fetch of one round: the instruction length, the page number before reduction,
  the array with the start operand advanced, and the generator.
\<close>

definition builtinFetch ::
  "byte list \<Rightarrow> u32 list \<Rightarrow> nat \<Rightarrow> u32 \<Rightarrow> sqlite3PrngType \<Rightarrow> (nat \<times> u32 \<times> u32 list \<times> sqlite3PrngType) cres" where
  "builtinFetch seed aOp pc op g =
     (if op = 1 \<or> op = 2 \<or> op = 5
      then bindR (rd aOp (pc + 2)) (\<lambda>s. bindR (rd aOp (pc + 3)) (\<lambda>x.
             Inr (4, s - 1, aOp[pc + 2 := s + x], g)))
      else case sqlite3_randomness seed 4 g of (bs, g') \<Rightarrow> Inr (2, intOfBytes bs, aOp, g'))"

text \<open>The effect of one round on the bitmap and the page set; the first component of the
  result is false when the code leaves with an error.\<close>

definition builtinApply ::
  "bool list \<Rightarrow> u32 \<Rightarrow> u32 \<Rightarrow> byte list \<Rightarrow> Bitvec \<Rightarrow> (bool \<times> bool list \<times> byte list \<times> Bitvec) cres option" where
  "builtinApply oks op i pV p =
     (if op AND 1 \<noteq> 0
      then (case SETBIT pV (i + 1) of Inl e \<Rightarrow> Some (Inl e)
        | Inr pV' \<Rightarrow>
           if op \<noteq> 5
           then (case sqlite3BitvecSet 7 oks p (i + 1) of None \<Rightarrow> None
             | Some r \<Rightarrow> Some (bindR r (\<lambda>(rc, oks', p'). Inr (rc = 0, oks', pV', p'))))
           else Some (Inr (True, oks, pV', p)))
      else (case CLEARBIT pV (i + 1) of Inl e \<Rightarrow> Some (Inl e)
        | Inr pV' \<Rightarrow>
           (case sqlite3BitvecClear 7 oks p (i + 1) of None \<Rightarrow> None
            | Some r \<Rightarrow> Some (bindR r (\<lambda>(oks', p'). Inr (True, oks', pV', p'))))))"

text \<open>The reduction of the page number: an int remainder, whose sign is that of the dividend.\<close>

definition builtinReduce :: "u32 \<Rightarrow> u32 \<Rightarrow> u32 cres" where
  "builtinReduce i sz = (if sz = 0 then Inl DivideByZero else Inr (of_int (sint (i AND 0x7fffffff) smod sint sz)))"

fun builtinLoop ::
  "nat \<Rightarrow> byte list \<Rightarrow> u32 \<Rightarrow> bool list \<Rightarrow> u32 list \<Rightarrow> nat \<Rightarrow> byte list \<Rightarrow> Bitvec \<Rightarrow> sqlite3PrngType
   \<Rightarrow> (byte list \<times> Bitvec) option cres option" where
  "builtinLoop 0 seed sz oks aOp pc pV p g = None"
| "builtinLoop (Suc f) seed sz oks aOp pc pV p g =
     (case rd aOp pc of Inl e \<Rightarrow> Some (Inl e)
      | Inr op \<Rightarrow>
         if op = 0 then Some (Inr (Some (pV, p)))
         else (case builtinFetch seed aOp pc op g of Inl e \<Rightarrow> Some (Inl e)
           | Inr (nx, i, aOp1, g') \<Rightarrow>
              (case rd aOp1 (pc + 1) of Inl e \<Rightarrow> Some (Inl e)
               | Inr n \<Rightarrow>
                  let aOp2 = aOp1[pc + 1 := n - 1]; nx' = (if sint (n - 1) > 0 then 0 else nx) in
                  (case builtinReduce i sz of Inl e \<Rightarrow> Some (Inl e)
                   | Inr i' \<Rightarrow>
                      (case builtinApply oks op i' pV p of None \<Rightarrow> None
                       | Some (Inl e) \<Rightarrow> Some (Inl e)
                       | Some (Inr (True, oks', pV', p')) \<Rightarrow>
                           builtinLoop f seed sz oks' aOp2 (pc + nx') pV' p' g'
                       | Some (Inr (False, oks', pV', p')) \<Rightarrow> Some (Inr None))))))"

text \<open>The comparison loop for i up to sz: the first index where the two differ, or rc.\<close>

partial_function (option) builtinCompare :: "byte list \<Rightarrow> Bitvec \<Rightarrow> u32 \<Rightarrow> u32 \<Rightarrow> int \<Rightarrow> int cres option" where
  "builtinCompare pV p sz i rc =
     (if sint sz < sint i then Some (Inr rc)
      else (case TESTBIT pV i of Inl e \<Rightarrow> Some (Inl e)
      | Inr b \<Rightarrow>
         (case sqlite3BitvecTest (Some p) i of None \<Rightarrow> None
          | Some (Inl e) \<Rightarrow> Some (Inl e)
          | Some (Inr b') \<Rightarrow> if b \<noteq> b' then Some (Inr (sint i)) else builtinCompare pV p sz (i + 1) rc)))"

definition testInt :: "bool cres option \<Rightarrow> int" where
  "testInt r = (if r = Some (Inr True) then 1 else 0)"

text \<open>The bytes of the plain bitmap, as an int.\<close>

definition bitmapBytes :: "u32 \<Rightarrow> int" where
  "bitmapBytes sz = sint (sz + 7) sdiv 8 + 1"

definition sqlite3BitvecBuiltinTest ::
  "nat \<Rightarrow> byte list \<Rightarrow> bool \<Rightarrow> bool \<Rightarrow> bool list \<Rightarrow> u32 \<Rightarrow> u32 list \<Rightarrow> sqlite3PrngType \<Rightarrow> int cres option" where
  "sqlite3BitvecBuiltinTest fuel seed ok1 ok2 oks sz aOp g =
     (case sqlite3BitvecCreate ok1 sz of
        None \<Rightarrow> Some (Inr (-1))
      | Some p \<Rightarrow>
         if \<not> ok2 \<or> bitmapBytes sz \<le> 0 then Some (Inr (-1))
         else (case builtinLoop fuel seed sz oks aOp 0 (replicate (nat (bitmapBytes sz)) 0) p g of
             None \<Rightarrow> None
           | Some (Inl e) \<Rightarrow> Some (Inl e)
           | Some (Inr None) \<Rightarrow> Some (Inr (-1))
           | Some (Inr (Some (pV, p'))) \<Rightarrow>
               builtinCompare pV p' sz 1
                 (testInt (sqlite3BitvecTest None 0) + testInt (sqlite3BitvecTest (Some p') (sz + 1))
                  + testInt (sqlite3BitvecTest (Some p') 0))))"

subsection \<open>Agreement of bitmap and page set\<close>

definition bt_inv :: "u32 \<Rightarrow> byte list \<Rightarrow> Bitvec \<Rightarrow> bool" where
  "bt_inv sz V p \<longleftrightarrow> bv_inv p \<and> iSize p = sz \<and> unat sz < 2147483648 \<and> length V = (unat sz + 7) div 8 + 1
     \<and> (\<forall>j. j \<noteq> 0 \<and> j \<le> sz \<longrightarrow> bit (V ! (unat j div 8)) (unat j mod 8) = (j \<in> bv_elems p))"

lemma bitOf_exp [simp]: "bitOf i = 2 ^ (unat i mod 8)"
proof -
  have "(7 :: u32) = mask 3" by (simp add: mask_eq_exp_minus_1)
  then have "unat (i AND 7) = unat i mod 8" by (simp only: unat_and_mask_mod) simp
  then show ?thesis by (simp add: bitOf_def)
qed

lemma slot_word [simp]: "unat (i :: u32) < 2147483648 \<Longrightarrow> bitSlot i = Inr (unat i div 8)"
  by (simp add: bitSlot_def sint_u32_small nat_div_distrib)

lemma slot_in: "length V = (unat sz + 7) div 8 + 1 \<Longrightarrow> unat j \<le> unat sz \<Longrightarrow> unat j div 8 < length V"
  using div_le_mono [of "unat j" "unat sz + 7" 8] by simp

lemma slot_inj: "unat (i :: u32) div 8 = unat j div 8 \<Longrightarrow> unat i mod 8 = unat j mod 8 \<Longrightarrow> i = j"
  by (metis div_mult_mod_eq word_unat_eq_iff)

lemma TESTBIT_ok: "bt_inv sz V p \<Longrightarrow> j \<noteq> 0 \<Longrightarrow> j \<le> sz \<Longrightarrow> TESTBIT V j = Inr (j \<in> bv_elems p)"
  using slot_in [of V sz j] by (simp add: bt_inv_def TESTBIT_def word_and_bit_ne_0 word_le_nat_alt)

lemma builtinApply_ok:
  assumes inv: "bt_inv sz V p" and i: "i + 1 \<noteq> 0" "i + 1 \<le> sz" and op: "op \<noteq> 5"
  shows "\<exists>V' p'. builtinApply [] op i V p = Some (Inr (True, [], V', p')) \<and> bt_inv sz V' p'"
proof -
  let ?j = "i + 1"
  have p: "bv_inv p" "bv_valid p ?j" using inv i by (simp_all add: bt_inv_def bv_valid_def)
  have slot: "unat ?j div 8 < length V"
    using slot_in [of V sz ?j] inv i(2) by (simp add: bt_inv_def word_le_nat_alt)
  have idx: "bitSlot ?j = Inr (unat ?j div 8)"
    using inv i(2) by (intro slot_word) (simp add: bt_inv_def word_le_nat_alt)
  show ?thesis
  proof (cases "op AND 1 = 0")
    case False
    from bv_set_7 [OF p] obtain p' where p': "sqlite3BitvecSet 7 [] p ?j = Some (Inr (0, [], p'))"
      "bv_inv p'" "iSize p' = iSize p" "bv_elems p' = insert ?j (bv_elems p)" by (auto simp: adds_def)
    let ?V = "V[unat ?j div 8 := V ! (unat ?j div 8) OR 2 ^ (unat ?j mod 8)]"
    have "bt_inv sz ?V p'"
      using inv p'(2-4) slot slot_inj [of _ ?j] i unfolding bt_inv_def
      by (auto simp: nth_list_update bit_or_exp)
    with False op p'(1) slot idx show ?thesis by (simp add: builtinApply_def SETBIT_def)
  next
    case True
    from bv_clear_7 [OF p] obtain p' where p': "sqlite3BitvecClear 7 [] p ?j = Some (Inr ([], p'))"
      "bv_inv p'" "iSize p' = iSize p" "bv_elems p' = bv_elems p - {?j}" by (auto simp: removes_def)
    let ?V = "V[unat ?j div 8 := V ! (unat ?j div 8) AND NOT (2 ^ (unat ?j mod 8))]"
    have "bt_inv sz ?V p'"
      using inv p'(2-4) slot slot_inj [of _ ?j] i unfolding bt_inv_def
      by (auto simp: nth_list_update bit_and_not_exp)
    with True p'(1) slot idx show ?thesis by (simp add: builtinApply_def CLEARBIT_def)
  qed
qed

subsection \<open>Programs\<close>

text \<open>An instruction: opcode, repetition count, and start and step where it has them.\<close>

type_synonym bt_instr = "u32 \<times> u32 \<times> u32 list"

fun instr_ok :: "bt_instr \<Rightarrow> bool" where
  "instr_ok (op, n, xs) \<longleftrightarrow> op \<noteq> 0 \<and> op \<noteq> 5 \<and> length xs = (if op = 1 \<or> op = 2 then 2 else 0)"

definition assemble :: "bt_instr list \<Rightarrow> u32 list" where
  "assemble prog = concat (map (\<lambda>(op, n, xs). op # n # xs) prog) @ [0]"

lemma smod_nonneg: "0 \<le> a \<Longrightarrow> 0 \<le> b \<Longrightarrow> a smod b = a mod (b :: int)"
  by (cases "a = 0") (simp_all add: signed_modulo_int_def)

lemma builtinReduce_pos:
  assumes "sz \<noteq> 0" "unat sz < 2147483648"
  shows "builtinReduce i sz = Inr ((i AND 0x7fffffff) mod sz)"
proof -
  have "(0x7fffffff :: u32) = mask 31" by (simp add: mask_eq_exp_minus_1)
  then have "unat (i AND 0x7fffffff) = unat i mod 2 ^ 31" by (simp only: unat_and_mask_mod)
  then have "unat (i AND 0x7fffffff) < 2147483648" by simp
  with assms(2) have "sint (i AND 0x7fffffff) smod sint sz = int (unat ((i AND 0x7fffffff) mod sz))"
    by (simp add: sint_u32_small smod_nonneg unat_mod_distrib zmod_int)
  with assms(1) show ?thesis by (simp add: builtinReduce_def)
qed

lemma reduce_valid:
  assumes "sz \<noteq> 0"
  shows "(i AND 0x7fffffff) mod sz + 1 \<noteq> (0 :: u32)" "(i AND 0x7fffffff) mod sz + 1 \<le> sz"
proof -
  let ?r = "(i AND 0x7fffffff) mod sz"
  have "unat ?r < unat sz" using assms by (simp add: unat_mod_distrib unat_gt_0)
  then have "unat (?r + 1) = Suc (unat ?r)" by (rule unat_Suc_below)
  with \<open>unat ?r < unat sz\<close> show "?r + 1 \<le> sz" "?r + 1 \<noteq> 0"
    by (auto simp: word_le_nat_alt simp flip: unat_0_iff simp del: unat_0_iff)
qed

lemma sint_pred: "sint (m :: u32) > 0 \<Longrightarrow> sint (m - 1) = sint m - 1"
proof -
  assume pos: "sint m > 0"
  have "sint m < 2 ^ 31" using sint_less [of m] by simp
  with pos have "signed_take_bit 31 (sint m - 1) = sint m - 1"
    by (intro signed_take_bit_int_eq_self) simp_all
  then show ?thesis by (simp add: sint_word_ariths)
qed


lemma builtinFetch_ok:
  assumes "instr_ok (op, n, xs)"
  shows "\<exists>i xs' g'. builtinFetch seed (pre @ (op # n # xs) @ rest) (length pre) op g =
      Inr (2 + length xs, i, pre @ (op # n # xs') @ rest, g') \<and> length xs' = length xs"
proof (cases "op = 1 \<or> op = 2")
  case True
  with assms obtain s x where "xs = [s, x]"
    by (auto simp: length_Suc_conv numeral_2_eq_2)
  with True show ?thesis
    by (auto simp: builtinFetch_def rd_def nth_append list_update_append)
next
  case False
  with assms show ?thesis by (auto simp: builtinFetch_def split: prod.splits)
qed

lemma builtin_step:
  assumes inv: "bt_inv sz V p" and sz: "sz \<noteq> 0" and ins: "instr_ok (op, n, xs)"
  shows "\<exists>V' p' xs' g'. bt_inv sz V' p' \<and> length xs' = length xs
    \<and> (\<forall>f. builtinLoop (Suc f) seed sz [] (pre @ (op # n # xs) @ rest) (length pre) V p g =
        builtinLoop f seed sz [] (pre @ (op # (n - 1) # xs') @ rest)
          (length pre + (if sint (n - 1) > 0 then 0 else 2 + length xs)) V' p' g')"
proof -
  from builtinFetch_ok [OF ins, of seed pre rest g] obtain i xs' g' where
    f: "builtinFetch seed (pre @ (op # n # xs) @ rest) (length pre) op g =
      Inr (2 + length xs, i, pre @ (op # n # xs') @ rest, g')" "length xs' = length xs" by blast
  from builtinApply_ok [OF inv reduce_valid [OF sz], of op i] ins obtain V' p' where
    a: "builtinApply [] op ((i AND 0x7fffffff) mod sz) V p = Some (Inr (True, [], V', p'))" "bt_inv sz V' p'"
    by auto
  have "builtinLoop (Suc k) seed sz [] (pre @ (op # n # xs) @ rest) (length pre) V p g =
      builtinLoop k seed sz [] (pre @ (op # (n - 1) # xs') @ rest)
        (length pre + (if sint (n - 1) > 0 then 0 else 2 + length xs)) V' p' g'" for k
    using ins f(1) a(1) builtinReduce_pos [OF sz, of i] inv
    by (simp add: rd_def Let_def nth_append list_update_append bt_inv_def)
  with a(2) f(2) show ?thesis by blast
qed

text \<open>One instruction with its repetitions: the machine moves on to what follows it.\<close>

lemma builtin_instr:
  assumes "bt_inv sz V p" "sz \<noteq> 0" "instr_ok (op, n, xs)"
  shows "\<exists>k V' p' pre' g'. bt_inv sz V' p'
    \<and> (\<forall>f. builtinLoop (k + f) seed sz [] (pre @ (op # n # xs) @ rest) (length pre) V p g =
        builtinLoop f seed sz [] (pre' @ rest) (length pre') V' p' g')"
  using assms
proof (induction "nat (sint (n - 1))" arbitrary: n xs V p g rule: less_induct)
  case less
  from builtin_step [OF less.prems, of seed pre rest g] obtain V' p' xs' g' where
    s: "bt_inv sz V' p'" "length xs' = length xs"
      "\<And>f. builtinLoop (Suc f) seed sz [] (pre @ (op # n # xs) @ rest) (length pre) V p g =
        builtinLoop f seed sz [] (pre @ (op # (n - 1) # xs') @ rest)
          (length pre + (if sint (n - 1) > 0 then 0 else 2 + length xs)) V' p' g'" by blast
  have ok: "instr_ok (op, n - 1, xs')" using less.prems(3) s(2) by simp
  show ?case
  proof (cases "sint (n - 1) > 0")
    case True
    then have "nat (sint (n - 1 - 1)) < nat (sint (n - 1))" using sint_pred [OF True] by simp
    from less.hyps [OF this s(1) less.prems(2) ok, of g'] obtain k V'' p'' pre' g'' where
      r: "bt_inv sz V'' p''"
        "\<And>f. builtinLoop (k + f) seed sz [] (pre @ (op # (n - 1) # xs') @ rest) (length pre) V' p' g' =
          builtinLoop f seed sz [] (pre' @ rest) (length pre') V'' p'' g''" by blast
    have "builtinLoop (Suc k + f) seed sz [] (pre @ (op # n # xs) @ rest) (length pre) V p g =
        builtinLoop f seed sz [] (pre' @ rest) (length pre') V'' p'' g''" for f
      using s(3) [of "k + f"] r(2) [of f] True by simp
    with r(1) show ?thesis by blast
  next
    case False
    let ?pre = "pre @ op # (n - 1) # xs'"
    have "builtinLoop (1 + f) seed sz [] (pre @ (op # n # xs) @ rest) (length pre) V p g =
        builtinLoop f seed sz [] (?pre @ rest) (length ?pre) V' p' g'" for f
      using s(3) [of f] s(2) False by simp
    with s(1) show ?thesis by blast
  qed
qed

lemma builtin_program:
  assumes "bt_inv sz V p" "sz \<noteq> 0" "\<forall>ins \<in> set prog. instr_ok ins"
  shows "\<exists>k V' p'. bt_inv sz V' p'
    \<and> (\<forall>f \<ge> k. builtinLoop f seed sz [] (pre @ assemble prog) (length pre) V p g = Some (Inr (Some (V', p'))))"
  using assms
proof (induction prog arbitrary: pre V p g)
  case Nil
  have "builtinLoop f seed sz [] (pre @ assemble []) (length pre) V p g = Some (Inr (Some (V, p)))" if "f \<ge> 1" for f
    using that by (cases f) (simp_all add: assemble_def rd_def)
  with Nil(1) show ?case by blast
next
  case (Cons ins prog)
  obtain op n xs where ins: "ins = (op, n, xs)" by (cases ins)
  have split: "assemble (ins # prog) = (op # n # xs) @ assemble prog" by (simp add: assemble_def ins)
  have ok: "instr_ok (op, n, xs)" using Cons.prems(3) ins by (simp del: instr_ok.simps)
  from builtin_instr [OF Cons.prems(1,2) ok, of seed pre "assemble prog" g] obtain k V1 p1 pre' g' where
    k: "bt_inv sz V1 p1" "\<And>f. builtinLoop (k + f) seed sz [] (pre @ assemble (ins # prog)) (length pre) V p g =
      builtinLoop f seed sz [] (pre' @ assemble prog) (length pre') V1 p1 g'"
    unfolding split by blast
  from Cons.IH [OF k(1) Cons.prems(2), of pre' g'] Cons.prems(3) obtain m V2 p2 where
    m: "bt_inv sz V2 p2"
      "\<And>f. f \<ge> m \<Longrightarrow> builtinLoop f seed sz [] (pre' @ assemble prog) (length pre') V1 p1 g' = Some (Inr (Some (V2, p2)))"
    by auto
  have "builtinLoop f seed sz [] (pre @ assemble (ins # prog)) (length pre) V p g = Some (Inr (Some (V2, p2)))"
    if "f \<ge> k + m" for f
    using k(2) [of "f - k"] m(2) [of "f - k"] that by simp
  with m(1) show ?case by blast
qed

lemma builtinCompare_ok:
  assumes inv: "bt_inv sz V p" and sz: "unat sz \<le> 2147483640" and i: "1 \<le> unat i" "unat i \<le> unat sz + 1"
  shows "builtinCompare V p sz i rc = Some (Inr rc)"
  using i
proof (induction "unat sz + 1 - unat i" arbitrary: i)
  case 0
  then have "sint sz < sint i" using sz by (simp add: sint_u32_small)
  then show ?case by (simp add: builtinCompare.simps)
next
  case (Suc n)
  then have le: "unat i \<le> unat sz" by simp
  have step: "unat (i + 1) = unat i + 1" using le sz by (subst unat_add_no_wrap) simp_all
  have j: "i \<noteq> 0" "i \<le> sz" using Suc.prems(1) le by (auto simp: word_le_nat_alt)
  have "\<not> sint sz < sint i" using le sz j by (simp add: sint_u32_small word_le_def not_less)
  with TESTBIT_ok [OF inv j] bv_test [of p i] Suc.hyps(1) [of "i + 1"] Suc.hyps(2) Suc.prems step le inv j
  show ?case by (subst builtinCompare.simps) (simp add: bt_inv_def del: sqlite3BitvecTest.simps)
qed

subsection \<open>Properties\<close>

lemma bitmapBytes_pos: "unat sz \<le> 2147483640 \<Longrightarrow> bitmapBytes sz = int ((unat sz + 7) div 8 + 1)"
proof -
  assume sz: "unat sz \<le> 2147483640"
  then have "unat (sz + 7) = unat sz + 7" by (subst unat_add_no_wrap) simp_all
  then have "sint (sz + 7) = int (unat sz + 7)" using sz by (simp add: sint_u32_small)
  then show ?thesis by (simp add: bitmapBytes_def signed_divide_int_def zdiv_int sgn_if)
qed

text \<open>A size for which the number of bytes of the bitmap is not positive.\<close>

lemma builtin_test_refused:
  "bitmapBytes sz \<le> 0 \<Longrightarrow> sqlite3BitvecBuiltinTest fuel seed ok1 ok2 oks sz aOp g = Some (Inr (-1))"
  by (simp add: sqlite3BitvecBuiltinTest_def split: option.splits)

lemma bitmapBytes_neg:
  assumes "sint sz \<le> -15"
  shows "bitmapBytes sz \<le> 0"
proof -
  have "signed_take_bit 31 (sint sz + 7) = sint sz + 7"
    using assms sint_ge [of sz] by (intro signed_take_bit_int_eq_self) simp_all
  then have "sint (sz + 7) = sint sz + 7" by (simp add: sint_word_ariths)
  moreover have "1 \<le> (- sint sz - 7) div 8" using assms by linarith
  ultimately show ?thesis using assms by (simp add: bitmapBytes_def signed_divide_int_def sgn_if)
qed

lemma builtin_test_ends:
  assumes "sz \<noteq> 0" "unat sz \<le> 2147483640" "\<forall>ins \<in> set prog. instr_ok ins"
  shows "\<exists>k. \<forall>fuel \<ge> k. sqlite3BitvecBuiltinTest fuel seed True True [] sz (assemble prog) g = Some (Inr 0)"
proof -
  let ?p = "Bitvec sz 0 0 (zeroUnion sz)" and ?V = "replicate ((unat sz + 7) div 8 + 1) 0"
  have "bt_inv sz ?V ?p"
    using bv_create [of sz] assms(2) slot_in [of ?V sz]
    by (auto simp: bt_inv_def word_le_nat_alt nth_replicate simp del: replicate.simps bv_inv.simps)
  from builtin_program [OF this assms(1,3), of seed "[]" g] obtain k V p where
    k: "bt_inv sz V p" "\<And>f. f \<ge> k \<Longrightarrow> builtinLoop f seed sz [] (assemble prog) 0 ?V ?p g = Some (Inr (Some (V, p)))"
    by auto
  have inv: "bv_inv p" "iSize p = sz" using k(1) by (simp_all add: bt_inv_def)
  have "testInt (sqlite3BitvecTest (Some p) 0) = 0" by (cases p) (simp add: testInt_def)
  moreover have "testInt (sqlite3BitvecTest (Some p) (sz + 1)) = 0"
  proof -
    have "unat (sz + 1) = unat sz + 1" using assms(2) by (subst unat_add_no_wrap) simp_all
    then have "sz < sz + 1" by (simp add: word_less_nat_alt)
    with inv(2) show ?thesis by (cases p) (simp add: testInt_def)
  qed
  ultimately have "sqlite3BitvecBuiltinTest f seed True True [] sz (assemble prog) g = Some (Inr 0)" if "f \<ge> k" for f
    using k(2) [OF that] builtinCompare_ok [OF k(1) assms(2), of 1 0] bitmapBytes_pos [OF assms(2)]
    by (simp add: sqlite3BitvecBuiltinTest_def sqlite3BitvecCreate_def testInt_def [of "Some (Inr False)"]
        nat_add_distrib nat_int_add del: replicate.simps)
  then show ?thesis by blast
qed

text \<open>
  C24: the built-in self test of the page set, whose size sz is an int. For every size from 1 to
  2 ^ 31 - 8 and every program of instructions other than the fault-injecting instruction 5, in
  any number and with any operands and any random numbers, the test ends and returns 0 errors,
  memory being available. For sizes of -15 and below it returns -1 on every array of
  instructions.
\<close>

theorem bitvec_builtin_test_passes:
  "(0 < sint sz \<and> sint sz \<le> 2147483640 \<and> (\<forall>ins \<in> set prog. instr_ok ins) \<longrightarrow>
      (\<exists>k. \<forall>fuel \<ge> k. sqlite3BitvecBuiltinTest fuel seed True True [] sz (assemble prog) g = Some (Inr 0)))
   \<and> (sint sz \<le> -15 \<longrightarrow> sqlite3BitvecBuiltinTest fuel seed ok1 ok2 oks sz aOp g = Some (Inr (-1)))"
proof -
  have pos: "sz \<noteq> 0 \<and> unat sz \<le> 2147483640" if "0 < sint sz" "sint sz \<le> 2147483640"
  proof -
    have "unat sz < 2147483648" using sint_pos_unat [OF that(1)] .
    then have "sint sz = int (unat sz)" by (rule sint_u32_small)
    with that show ?thesis by (intro conjI) (use that in force, linarith)
  qed
  show ?thesis
    using pos builtin_test_ends [of sz prog seed g] builtin_test_refused [OF bitmapBytes_neg] by (intro conjI impI) simp_all
qed

theorem bitvec_builtin_test_passes_witness:
  "\<exists>k. \<forall>fuel \<ge> k. sqlite3BitvecBuiltinTest fuel (replicate 256 7) True True [] 4001 (assemble [(1, 70, [1, 3]), (4, 9, []), (2, 5, [4000, 1])])
     \<lparr>isInit = False, prng_i = 0, prng_j = 0, prng_s = []\<rparr> = Some (Inr 0)"
  using bitvec_builtin_test_passes [of 4001 "[(1, 70, [1, 3]), (4, 9, []), (2, 5, [4000, 1])]"] by simp

end
