(* ===== verification/StrUtil.thy ===== *)
theory StrUtil
  imports Prelude
begin

text \<open>
  The string routines of util.c of the database library (misc/sqlite): case-insensitive
  comparison, recognition and conversion of numbers, removal of SQL quotes, blob literals,
  and the checks of a connection's magic number.

  A char pointer that is only read is the list of bytes from that address to the end of its
  block, terminator included, so that advancing the pointer is dropping from the list and a
  read at the empty list is a read outside the block. A plain char is compared as the code
  compares it; the characters that matter are all below 128. The int values of the number
  conversions are 64-bit words where the code accumulates in an i64.
\<close>

subsection \<open>Comparison\<close>

definition sqlite3UpperToLower :: "byte list" where
  "sqlite3UpperToLower = [
   0, 1, 2, 3, 4, 5, 6, 7, 8, 9, 10, 11, 12, 13, 14, 15, 16, 17, 18, 19, 20, 21, 22, 23,
   24, 25, 26, 27, 28, 29, 30, 31, 32, 33, 34, 35, 36, 37, 38, 39, 40, 41, 42, 43, 44, 45, 46, 47,
   48, 49, 50, 51, 52, 53, 54, 55, 56, 57, 58, 59, 60, 61, 62, 63, 64, 97, 98, 99, 100, 101, 102, 103,
   104, 105, 106, 107, 108, 109, 110, 111, 112, 113, 114, 115, 116, 117, 118, 119, 120, 121, 122, 91, 92, 93, 94, 95,
   96, 97, 98, 99, 100, 101, 102, 103, 104, 105, 106, 107, 108, 109, 110, 111, 112, 113, 114, 115, 116, 117, 118, 119,
   120, 121, 122, 123, 124, 125, 126, 127, 128, 129, 130, 131, 132, 133, 134, 135, 136, 137, 138, 139, 140, 141, 142, 143,
   144, 145, 146, 147, 148, 149, 150, 151, 152, 153, 154, 155, 156, 157, 158, 159, 160, 161, 162, 163, 164, 165, 166, 167,
   168, 169, 170, 171, 172, 173, 174, 175, 176, 177, 178, 179, 180, 181, 182, 183, 184, 185, 186, 187, 188, 189, 190, 191,
   192, 193, 194, 195, 196, 197, 198, 199, 200, 201, 202, 203, 204, 205, 206, 207, 208, 209, 210, 211, 212, 213, 214, 215,
   216, 217, 218, 219, 220, 221, 222, 223, 224, 225, 226, 227, 228, 229, 230, 231, 232, 233, 234, 235, 236, 237, 238, 239,
   240, 241, 242, 243, 244, 245, 246, 247, 248, 249, 250, 251, 252, 253, 254, 255]"

definition UpperToLower :: "byte \<Rightarrow> byte" where
  "UpperToLower c = sqlite3UpperToLower ! unat c"

fun sqlite3StrICmp :: "byte list \<Rightarrow> byte list \<Rightarrow> int cres" where
  "sqlite3StrICmp (a # as) (b # bs) =
     (if a \<noteq> 0 \<and> UpperToLower a = UpperToLower b then sqlite3StrICmp as bs
      else Inr (uint (UpperToLower a) - uint (UpperToLower b)))"
| "sqlite3StrICmp _ _ = Inl OutOfBounds"

fun sqlite3StrNICmp :: "byte list \<Rightarrow> byte list \<Rightarrow> nat \<Rightarrow> int cres" where
  "sqlite3StrNICmp as bs 0 = Inr 0"
| "sqlite3StrNICmp (a # as) (b # bs) (Suc n) =
     (if a \<noteq> 0 \<and> UpperToLower a = UpperToLower b then sqlite3StrNICmp as bs n
      else Inr (uint (UpperToLower a) - uint (UpperToLower b)))"
| "sqlite3StrNICmp _ _ (Suc n) = Inl OutOfBounds"

subsection \<open>Numbers\<close>

datatype enc = UTF8 | UTF16LE | UTF16BE

definition isdigitC :: "byte \<Rightarrow> bool" where
  "isdigitC c \<longleftrightarrow> 0x30 \<le> c \<and> c \<le> 0x39"

definition peek :: "byte list \<Rightarrow> byte cres" where
  "peek z = (case z of [] \<Rightarrow> Inl OutOfBounds | c # _ \<Rightarrow> Inr c)"

text \<open>The loops that advance over digits, by one or two bytes at a time.\<close>

function skipDigits :: "nat \<Rightarrow> byte list \<Rightarrow> byte list cres" where
  "skipDigits incr [] = Inl OutOfBounds"
| "skipDigits incr (c # z) = (if isdigitC c \<and> 0 < incr then skipDigits incr (drop incr (c # z)) else Inr (c # z))"
  by pat_completeness auto
termination by (relation "measure (\<lambda>(_, z). length z)") auto

definition skipSign :: "nat \<Rightarrow> byte list \<Rightarrow> byte list cres" where
  "skipSign incr z = bindR (peek z) (\<lambda>c. Inr (if c = 0x2d \<or> c = 0x2b then drop incr z else z))"

text \<open>One or more digits: the text after them, or None when there is no digit.\<close>

definition digits1 :: "nat \<Rightarrow> byte list \<Rightarrow> byte list option cres" where
  "digits1 incr z = bindR (peek z) (\<lambda>c.
     if \<not> isdigitC c then Inr None
     else bindR (skipDigits incr (drop incr z)) (\<lambda>z'. Inr (Some z')))"

text \<open>
  The optional fraction and the optional exponent: the text after them with the new value of
  realnum, or None when the code returns 0.
\<close>

definition numFraction :: "nat \<Rightarrow> byte list \<Rightarrow> (byte list \<times> bool) option cres" where
  "numFraction incr z = bindR (peek z) (\<lambda>c.
     if c = 0x2e then bindR (digits1 incr (drop incr z)) (\<lambda>r. Inr (map_option (\<lambda>z. (z, True)) r))
     else Inr (Some (z, False)))"

definition numExponent :: "nat \<Rightarrow> byte list \<Rightarrow> bool \<Rightarrow> (byte list \<times> bool) option cres" where
  "numExponent incr z real = bindR (peek z) (\<lambda>c.
     if c = 0x65 \<or> c = 0x45
     then bindR (skipSign incr (drop incr z)) (\<lambda>z. bindR (digits1 incr z) (\<lambda>r.
            Inr (map_option (\<lambda>z. (z, True)) r)))
     else Inr (Some (z, real)))"

text \<open>The result pairs the return value with the value stored through realnum, if any.\<close>

definition sqlite3IsNumber :: "byte list \<Rightarrow> enc \<Rightarrow> (bool \<times> bool option) cres" where
  "sqlite3IsNumber z0 enc =
     (let incr = (if enc = UTF8 then 1 else 2); z1 = (if enc = UTF16BE then drop 1 z0 else z0) in
      bindR (skipSign incr z1) (\<lambda>z2.
      bindR (digits1 incr z2) (\<lambda>r.
        case r of None \<Rightarrow> Inr (False, None)
        | Some z3 \<Rightarrow>
            bindR (numFraction incr z3) (\<lambda>r.
              case r of None \<Rightarrow> Inr (False, Some False)
              | Some (z4, real1) \<Rightarrow>
                  bindR (numExponent incr z4 real1) (\<lambda>r.
                    case r of None \<Rightarrow> Inr (False, Some real1)
                    | Some (z5, real2) \<Rightarrow> bindR (peek z5) (\<lambda>c. Inr (c = 0, Some real2)))))))"

text \<open>
  compare2pow63 compares 18 characters with the leading digits of 2 ^ 63; only the sign of
  the memcmp result is defined, and it is the difference of the first differing characters
  here.
\<close>

definition pow63digits :: "byte list" where
  "pow63digits = map (\<lambda>d. 0x30 + d) [9,2,2,3,3,7,2,0,3,6,8,5,4,7,7,5,8,0]"

fun memcmpC :: "byte list \<Rightarrow> byte list \<Rightarrow> int cres" where
  "memcmpC z [] = Inr 0"
| "memcmpC [] (d # ds) = Inl OutOfBounds"
| "memcmpC (c # z) (d # ds) = (if c = d then memcmpC z ds else Inr (uint c - uint d))"

definition compare2pow63 :: "byte list \<Rightarrow> int cres" where
  "compare2pow63 zNum = bindR (memcmpC zNum pow63digits) (\<lambda>c.
     if c = 0 then bindR (rd zNum 18) (\<lambda>d. Inr (uint d - 0x38)) else Inr c)"

fun skipSpace :: "byte list \<Rightarrow> byte list cres" where
  "skipSpace [] = Inl OutOfBounds"
| "skipSpace (c # z) = (if isspaceC c then skipSpace z else Inr (c # z))"

fun skipZeros :: "byte list \<Rightarrow> byte list cres" where
  "skipZeros [] = Inl OutOfBounds"
| "skipZeros (c # z) = (if c = 0x30 then skipZeros z else Inr (c # z))"

definition readSign :: "byte list \<Rightarrow> (bool \<times> byte list) cres" where
  "readSign z = bindR (peek z) (\<lambda>c.
     Inr (if c = 0x2d then (True, drop 1 z) else if c = 0x2b then (False, drop 1 z) else (False, z)))"

text \<open>The digit loop: value, number of digits, and the character that ended it.\<close>

fun accumDigits :: "u64 \<Rightarrow> nat \<Rightarrow> byte list \<Rightarrow> (u64 \<times> nat \<times> byte) cres" where
  "accumDigits v i [] = Inl OutOfBounds"
| "accumDigits v i (c # z) =
     (if isdigitC c then accumDigits (v * 10 + ucast (c - 0x30)) (i + 1) z else Inr (v, i, c))"

definition sqlite3Atoi64 :: "byte list \<Rightarrow> (bool \<times> u64) cres" where
  "sqlite3Atoi64 zNum0 =
     bindR (skipSpace zNum0) (\<lambda>z1. bindR (readSign z1) (\<lambda>(neg, z2). bindR (skipZeros z2) (\<lambda>zNum.
     bindR (accumDigits 0 0 zNum) (\<lambda>(v, i, c).
       let num = (if neg then - v else v) in
       if c \<noteq> 0 \<or> i = 0 \<or> i > 19 then Inr (False, num)
       else if i < 19 then Inr (True, num)
       else bindR (compare2pow63 zNum) (\<lambda>d. Inr (d < (if neg then 1 else 0), num))))))"

definition sqlite3FitsIn64Bits :: "byte list \<Rightarrow> bool \<Rightarrow> bool cres" where
  "sqlite3FitsIn64Bits zNum0 negFlag =
     bindR (readSign zNum0) (\<lambda>(neg, z1).
       let neg' = (if negFlag then \<not> neg else neg) in
       bindR (skipZeros z1) (\<lambda>zNum. bindR (accumDigits 0 0 zNum) (\<lambda>(v, i, c).
         if i < 19 then Inr True
         else if i > 19 then Inr False
         else bindR (compare2pow63 zNum) (\<lambda>d. Inr (d < (if neg' then 1 else 0))))))"

text \<open>At most eleven digits are read; the value fits an i64 exactly.\<close>

fun accumDigits11 :: "nat \<Rightarrow> int \<Rightarrow> nat \<Rightarrow> byte list \<Rightarrow> (int \<times> nat) cres" where
  "accumDigits11 0 v i z = Inr (v, i)"
| "accumDigits11 (Suc n) v i z = bindR (peek z) (\<lambda>c.
     if isdigitC c then accumDigits11 n (v * 10 + (uint c - 0x30)) (i + 1) (drop 1 z) else Inr (v, i))"

definition sqlite3GetInt32 :: "byte list \<Rightarrow> u32 option cres" where
  "sqlite3GetInt32 zNum0 =
     bindR (readSign zNum0) (\<lambda>(neg, z1). bindR (skipZeros z1) (\<lambda>zNum.
     bindR (accumDigits11 11 0 0 zNum) (\<lambda>(v, i).
       if i > 10 then Inr None
       else if v - (if neg then 1 else 0) > 2147483647 then Inr None
       else Inr (Some (word_of_int (if neg then - v else v))))))"

subsection \<open>Quotes, blobs and checks\<close>

text \<open>
  sqlite3Dequote works in place: the block z, the read index i and the write index j. The
  function returns the block.
\<close>

definition quoteEnd :: "byte \<Rightarrow> byte option" where
  "quoteEnd q = (if q = 0x27 \<or> q = 0x22 \<or> q = 0x60 then Some q else if q = 0x5b then Some 0x5d else None)"

function dequoteLoop :: "byte \<Rightarrow> byte list \<Rightarrow> nat \<Rightarrow> nat \<Rightarrow> byte list cres" where
  "dequoteLoop quote z i j =
     (if \<not> i < length z then Inl OutOfBounds
      else if z ! i = 0 then Inr z
      else if z ! i = quote
      then bindR (rd z (i + 1)) (\<lambda>c.
        if c = quote then bindR (wr z j quote) (\<lambda>z'. dequoteLoop quote z' (i + 2) (j + 1))
        else wr z j 0)
      else bindR (wr z j (z ! i)) (\<lambda>z'. dequoteLoop quote z' (i + 1) (j + 1)))"
  by pat_completeness auto
termination
  by (relation "measure (\<lambda>(_, z, i, _). length z - i)") (auto simp: wr_def rd_def split: if_splits)

declare dequoteLoop.simps [simp del]

definition sqlite3Dequote :: "byte list option \<Rightarrow> byte list option cres" where
  "sqlite3Dequote z =
     (case z of None \<Rightarrow> Inr None
      | Some b \<Rightarrow> bindR (rd b 0) (\<lambda>q.
          case quoteEnd q of None \<Rightarrow> Inr (Some b)
          | Some e \<Rightarrow> bindR (dequoteLoop e b 1 0) (\<lambda>b'. Inr (Some b'))))"

definition hexToInt :: "byte \<Rightarrow> byte" where
  "hexToInt h = (h + 9 * (1 AND drop_bit 6 h)) AND 0xf"

text \<open>
  The loop of sqlite3HexToBlob: pairs of characters while i is below the decremented n; the
  terminator is written behind the last pair.
\<close>

fun hexLoop :: "byte list \<Rightarrow> nat \<Rightarrow> nat \<Rightarrow> byte list \<Rightarrow> nat \<Rightarrow> byte list cres" where
  "hexLoop z n i blob 0 = Inl OutOfBounds"
| "hexLoop z n i blob (Suc f) =
     (if i < n
      then bindR (rd z i) (\<lambda>a. bindR (rd z (i + 1)) (\<lambda>b.
             bindR (wr blob (i div 2) (push_bit 4 (hexToInt a) OR hexToInt b)) (\<lambda>blob'.
               hexLoop z n (i + 2) blob' f)))
      else wr blob (i div 2) 0)"

definition sqlite3HexToBlob :: "(nat \<Rightarrow> byte) \<Rightarrow> bool \<Rightarrow> byte list \<Rightarrow> nat \<Rightarrow> byte list option cres" where
  "sqlite3HexToBlob junk ok1 z n =
     (if \<not> ok1 then Inr None
      else bindR (hexLoop z (n - 1) 0 (map junk [0..<n div 2 + 1]) (n + 1)) (\<lambda>b. Inr (Some b)))"

definition SQLITE_MAGIC_OPEN :: u32 where "SQLITE_MAGIC_OPEN = 0xa029a697"
definition SQLITE_MAGIC_SICK :: u32 where "SQLITE_MAGIC_SICK = 0x4b771290"
definition SQLITE_MAGIC_BUSY :: u32 where "SQLITE_MAGIC_BUSY = 0xf03b7906"

text \<open>The argument is the magic field of the connection, None for a NULL pointer.\<close>

definition sqlite3SafetyCheckOk :: "u32 option \<Rightarrow> bool" where
  "sqlite3SafetyCheckOk db = (case db of None \<Rightarrow> False
     | Some magic \<Rightarrow> if magic \<noteq> SQLITE_MAGIC_OPEN \<and> magic \<noteq> SQLITE_MAGIC_BUSY then False else True)"

definition sqlite3SafetyCheckSickOrOk :: "u32 option \<Rightarrow> bool" where
  "sqlite3SafetyCheckSickOrOk db = (case db of None \<Rightarrow> False
     | Some magic \<Rightarrow> if magic \<noteq> SQLITE_MAGIC_SICK \<and> magic \<noteq> SQLITE_MAGIC_OPEN \<and> magic \<noteq> SQLITE_MAGIC_BUSY
         then False else True)"

subsection \<open>The case table\<close>

lemma UpperToLower_table:
  "sqlite3UpperToLower = map (\<lambda>n. if 65 \<le> n \<and> n \<le> 90 then of_nat (n + 32) else of_nat n) [0..<256]"
  by code_simp

lemma UpperToLower_eq: "UpperToLower c = (if 0x41 \<le> c \<and> c \<le> 0x5a then c + 0x20 else c)"
proof -
  have "UpperToLower c = (if 65 \<le> unat c \<and> unat c \<le> 90 then of_nat (unat c + 32) else of_nat (unat c))"
    unfolding UpperToLower_def UpperToLower_table by (subst nth_map) simp_all
  then show ?thesis by (simp add: word_le_nat_alt)
qed

lemma UpperToLower_0 [simp]: "UpperToLower c = 0 \<longleftrightarrow> c = 0"
proof -
  have "c + 0x20 \<noteq> 0" if "c \<le> 0x5a"
  proof -
    have "unat (c + 0x20) = unat c + 0x20"
      using that by (subst unat_add_no_wrap) (simp_all add: word_le_nat_alt)
    then show ?thesis by (metis add_is_0 unat_0 zero_neq_numeral)
  qed
  then show ?thesis by (auto simp: UpperToLower_eq)
qed

lemma UpperToLower_zero [simp]: "UpperToLower 0 = 0"
  by (simp add: UpperToLower_eq)

lemma uint_UpperToLower_pos: "c \<noteq> 0 \<Longrightarrow> 0 < uint (UpperToLower c)"
  using UpperToLower_0 [of c] by (metis order_le_imp_less_or_eq uint_0_iff unsigned_greater_eq)

definition lower :: "byte list \<Rightarrow> byte list" where
  "lower s = map UpperToLower s"

lemma lower_simps [simp]: "lower [] = []" "lower (c # s) = UpperToLower c # lower s"
  by (simp_all add: lower_def)

lemma StrICmp_spec:
  assumes "0 \<notin> set s" "0 \<notin> set s'"
  shows "\<exists>d. sqlite3StrICmp (s @ 0 # t) (s' @ 0 # t') = Inr d \<and> (d = 0 \<longleftrightarrow> lower s = lower s')
    \<and> (d < 0 \<longleftrightarrow> ord_class.lexordp (lower s) (lower s'))"
  using assms
proof (induction s arbitrary: s')
  case Nil
  then show ?case by (cases s') (auto dest: uint_UpperToLower_pos)
next
  case (Cons a s)
  show ?case
  proof (cases s')
    case Nil
    with Cons.prems show ?thesis by (auto dest: uint_UpperToLower_pos)
  next
    case (Cons b bs)
    with Cons.prems Cons.IH [of bs] show ?thesis
      using word_uint_eq_iff [of "UpperToLower a" "UpperToLower b"]
      by (cases "UpperToLower a = UpperToLower b") (auto simp: word_less_def)
  qed
qed

lemma StrNICmp_spec:
  assumes "0 \<notin> set s" "0 \<notin> set s'"
  shows "\<exists>d. sqlite3StrNICmp (s @ 0 # t) (s' @ 0 # t') n = Inr d
    \<and> (d = 0 \<longleftrightarrow> lower (take n s) = lower (take n s'))
    \<and> (d < 0 \<longleftrightarrow> ord_class.lexordp (lower (take n s)) (lower (take n s')))"
  using assms
proof (induction s arbitrary: s' n)
  case Nil
  then show ?case by (cases n; cases s') (auto dest: uint_UpperToLower_pos)
next
  case (Cons a s)
  show ?case
  proof (cases n)
    case 0
    then show ?thesis by simp
  next
    case (Suc m)
    note n = Suc
    show ?thesis
    proof (cases s')
      case Nil
      with Cons.prems n show ?thesis by (auto dest: uint_UpperToLower_pos)
    next
      case (Cons b bs)
      with Cons.prems Cons.IH [of bs m] n show ?thesis
        using word_uint_eq_iff [of "UpperToLower a" "UpperToLower b"]
      by (cases "UpperToLower a = UpperToLower b") (auto simp: word_less_def)
    qed
  qed
qed

subsection \<open>Decimal numbers\<close>

definition digit :: "byte \<Rightarrow> nat" where "digit c = unat c - 48"

definition digits :: "byte list \<Rightarrow> bool" where "digits ds \<longleftrightarrow> (\<forall>c \<in> set ds. isdigitC c)"

fun dec :: "byte list \<Rightarrow> nat" where
  "dec [] = 0"
| "dec (d # ds) = digit d * 10 ^ length ds + dec ds"

lemma digits_simps [simp]:
  "digits []" "digits (c # ds) \<longleftrightarrow> isdigitC c \<and> digits ds" "digits (as @ bs) \<longleftrightarrow> digits as \<and> digits bs"
  by (auto simp: digits_def)

lemma digit_bounds: "isdigitC c \<Longrightarrow> 48 \<le> unat c \<and> unat c \<le> 57 \<and> digit c \<le> 9 \<and> unat c = 48 + digit c"
  by (auto simp: isdigitC_def digit_def word_le_nat_alt)

lemma digit_word: "isdigitC c \<Longrightarrow> ucast (c - 0x30) = (of_nat (digit c) :: u64)"
proof -
  assume "isdigitC c"
  then have "0x30 \<le> c" by (simp add: isdigitC_def)
  then have "unat (c - 0x30) = digit c" by (simp add: unat_sub digit_def)
  then show ?thesis by (metis of_nat_unat)
qed

lemma dec_append: "dec (as @ bs) = dec as * 10 ^ length bs + dec bs"
  by (induction as) (simp_all add: algebra_simps power_add)

lemma dec_less: "digits ds \<Longrightarrow> dec ds < 10 ^ length ds"
proof (induction ds)
  case Nil
  then show ?case by simp
next
  case (Cons d ds)
  then have "digit d * 10 ^ length ds \<le> 9 * 10 ^ length ds"
    using digit_bounds [of d] by (intro mult_le_mono1) simp
  moreover have "dec ds < 10 ^ length ds" using Cons by simp
  ultimately have "digit d * 10 ^ length ds + dec ds < 10 * 10 ^ length ds" by linarith
  then show ?case by simp
qed

lemma accumDigits_spec:
  assumes "digits ds" "\<not> isdigitC c"
  shows "accumDigits v i (ds @ c # t) = Inr (v * 10 ^ length ds + of_nat (dec ds), i + length ds, c)"
  using assms(1)
proof (induction ds arbitrary: v i)
  case Nil
  with assms(2) show ?case by simp
next
  case (Cons d ds)
  then show ?case by (simp add: digit_word algebra_simps)
qed

definition strip0 :: "byte list \<Rightarrow> byte list" where
  "strip0 ds = dropWhile (\<lambda>c. c = 0x30) ds"

lemma strip0_simps [simp]:
  "strip0 [] = []" "strip0 (c # ds) = (if c = 0x30 then strip0 ds else c # ds)"
  by (simp_all add: strip0_def)

lemma digits_strip0: "digits ds \<Longrightarrow> digits (strip0 ds)"
  by (auto simp: digits_def strip0_def dest: set_dropWhileD)

lemma dec_strip0: "dec (strip0 ds) = dec ds"
  by (induction ds) (auto simp: digit_def)

lemma skipZeros_spec: "digits ds \<Longrightarrow> \<not> isdigitC c \<Longrightarrow> skipZeros (ds @ c # t) = Inr (strip0 ds @ c # t)"
  by (induction ds) (auto simp: isdigitC_def)

lemma strip0_low:
  assumes "digits ds" "strip0 ds \<noteq> []"
  shows "10 ^ (length (strip0 ds) - 1) \<le> dec (strip0 ds)"
proof -
  from assms obtain d es where d: "strip0 ds = d # es" by (cases "strip0 ds") auto
  have "d \<noteq> 0x30" using d hd_dropWhile [of "\<lambda>c. c = 0x30" ds] assms(2) by (simp add: strip0_def)
  moreover have "isdigitC d" using digits_strip0 [OF assms(1)] d by simp
  ultimately have "1 \<le> digit d" using digit_bounds [of d] by (auto simp: word_unat_eq_iff)
  then show ?thesis using d by (simp add: trans_le_add1)
qed

lemma strip0_Nil: "digits ds \<Longrightarrow> strip0 ds = [] \<longleftrightarrow> dec ds = 0"
  using strip0_low [of ds] dec_strip0 [of ds] by fastforce

text \<open>Digit strings of the same length compare as their values.\<close>

lemma memcmp_dec:
  assumes "digits as" "digits bs" "length as = length bs"
  shows "\<exists>d. memcmpC (as @ z) bs = Inr d \<and> (d < 0 \<longleftrightarrow> dec as < dec bs) \<and> (d = 0 \<longleftrightarrow> dec as = dec bs)"
  using assms
proof (induction as arbitrary: bs)
  case Nil
  then show ?case by simp
next
  case (Cons a as)
  then obtain b bs' where bs: "bs = b # bs'" "length bs' = length as" by (cases bs) auto
  have da: "dec as < 10 ^ length as" "dec bs' < 10 ^ length as" using Cons.prems bs dec_less [of as] dec_less [of bs'] by auto
  have u: "unat a = 48 + digit a" "unat b = 48 + digit b" using Cons.prems bs digit_bounds by auto
  show ?case
  proof (cases "digit a" "digit b" rule: linorder_cases)
    case equal
    then have "a = b" using u by (simp add: word_unat_eq_iff)
    with Cons.IH [of bs'] Cons.prems bs show ?thesis by auto
  next
    case less
    have "Suc (digit a) * 10 ^ length as \<le> digit b * 10 ^ length as" using less by (intro mult_le_mono1) simp
    then have "dec (a # as) < dec bs" using da bs by simp
    moreover have "uint a < uint b" using less u by (simp flip: uint_nat add: uint_nat)
    ultimately show ?thesis using bs by (auto simp: word_uint_eq_iff)
  next
    case greater
    have "Suc (digit b) * 10 ^ length as \<le> digit a * 10 ^ length as" using greater by (intro mult_le_mono1) simp
    then have "dec bs < dec (a # as)" using da bs by simp
    moreover have "uint b < uint a" using greater u by (simp add: uint_nat)
    ultimately show ?thesis using bs by (auto simp: word_uint_eq_iff)
  qed
qed

lemma pow63digits_props:
  "digits pow63digits" "length pow63digits = 18" "dec pow63digits = 922337203685477580"
  by (simp_all add: pow63digits_def isdigitC_def digit_def)

lemma compare2pow63_spec:
  assumes "digits ds" "length ds = 19"
  shows "\<exists>d. compare2pow63 (ds @ z) = Inr d \<and> (d < 0 \<longleftrightarrow> dec ds < 2 ^ 63) \<and> (d < 1 \<longleftrightarrow> dec ds \<le> 2 ^ 63)"
proof -
  from assms(2) obtain es e where ds: "ds = es @ [e]" "length es = 18" by (cases ds rule: rev_cases) auto
  have e: "digits es" "isdigitC e" using assms(1) ds by simp_all
  note eb = digit_bounds [OF e(2)]
  have v: "dec ds = dec es * 10 + digit e" by (simp add: ds dec_append)
  from memcmp_dec [OF e(1) pow63digits_props(1), of "[e] @ z"] ds(2) pow63digits_props obtain c where
    c: "memcmpC (ds @ z) pow63digits = Inr c" "c < 0 \<longleftrightarrow> dec es < 922337203685477580"
      "c = 0 \<longleftrightarrow> dec es = 922337203685477580" by (auto simp: ds)
  have r: "rd (ds @ z) 18 = Inr e" using ds by (simp add: rd_def nth_append)
  show ?thesis
  proof (cases "c = 0")
    case True
    have "uint e = 48 + int (digit e)" using eb by (simp add: uint_nat)
    with True c r v show ?thesis by (auto simp: compare2pow63_def)
  next
    case False
    with c v eb show ?thesis by (auto simp: compare2pow63_def)
  qed
qed

lemma skipSpace_spec: "\<forall>c \<in> set sp. isspaceC c \<Longrightarrow> \<not> isspaceC c \<Longrightarrow> skipSpace (sp @ c # t) = Inr (c # t)"
  by (induction sp) auto

definition sign_text :: "byte list \<Rightarrow> bool" where
  "sign_text sg \<longleftrightarrow> sg = [] \<or> sg = [0x2d] \<or> sg = [0x2b]"

definition signed :: "byte list \<Rightarrow> nat \<Rightarrow> int" where
  "signed sg n = (if sg = [0x2d] then - int n else int n)"

lemma digit_not_sign: "isdigitC c \<Longrightarrow> c \<noteq> 0x2d \<and> c \<noteq> 0x2b \<and> \<not> isspaceC c"
  by (auto simp: isdigitC_def isspaceC_def word_le_nat_alt)

lemma readSign_spec:
  assumes "sign_text sg" "digits ds" "ds \<noteq> []"
  shows "readSign (sg @ ds @ t) = Inr (sg = [0x2d], ds @ t)"
proof -
  from assms(2,3) obtain d es where d: "ds = d # es" "isdigitC d" by (cases ds) auto
  with digit_not_sign [OF d(2)] assms(1) show ?thesis
    by (auto simp: sign_text_def readSign_def peek_def)
qed

lemma skipSpace_number:
  assumes "\<forall>c \<in> set sp. isspaceC c" "sign_text sg" "digits ds" "ds \<noteq> []"
  shows "skipSpace (sp @ sg @ ds @ t) = Inr (sg @ ds @ t)"
proof -
  from assms(3,4) obtain d es where d: "ds = d # es" "isdigitC d" by (cases ds) auto
  have ns: "\<not> isspaceC 0x2d" "\<not> isspaceC 0x2b" by (simp_all add: isspaceC_def)
  from assms(2) consider "sg = []" | "sg = [0x2d]" | "sg = [0x2b]" by (auto simp: sign_text_def)
  then show ?thesis
    using digit_not_sign [OF d(2)] ns skipSpace_spec [OF assms(1), of d "es @ t"]
      skipSpace_spec [OF assms(1) ns(1), of "ds @ t"] skipSpace_spec [OF assms(1) ns(2), of "ds @ t"]
    by cases (simp_all add: d(1))
qed

text \<open>How the number of significant digits bounds the value.\<close>

lemma length_strip0_bounds:
  assumes "digits ds"
  shows "length (strip0 ds) < 19 \<Longrightarrow> dec ds < 10 ^ 18"
    and "19 < length (strip0 ds) \<Longrightarrow> 2 ^ 63 < dec ds"
proof -
  assume "length (strip0 ds) < 19"
  then have "(10::nat) ^ length (strip0 ds) \<le> 10 ^ 18" by (intro power_increasing) auto
  with dec_less [OF digits_strip0 [OF assms]] dec_strip0 show "dec ds < 10 ^ 18" by (metis order_less_le_trans)
next
  assume l: "19 < length (strip0 ds)"
  then have "(10::nat) ^ 19 \<le> 10 ^ (length (strip0 ds) - 1)" by (intro power_increasing) auto
  moreover have "strip0 ds \<noteq> []" using l by auto
  ultimately have "10 ^ 19 \<le> dec (strip0 ds)" using strip0_low [OF assms] by (meson order_trans)
  then show "2 ^ 63 < dec ds" unfolding dec_strip0 by (simp add: order_less_le_trans [of _ "10 ^ 19"])
qed

text \<open>The comparison that decides a number of 19 digits, as both conversions make it.\<close>

lemma fits_19:
  assumes "digits ds" "length ds = 19"
  shows "\<exists>d. compare2pow63 (ds @ z) = Inr d
    \<and> (d < (if sg = [0x2d] then 1 else 0) \<longleftrightarrow> - (2 ^ 63) \<le> signed sg (dec ds) \<and> signed sg (dec ds) < 2 ^ 63)"
  using compare2pow63_spec [OF assms, of z] by (auto simp: signed_def)

lemma Atoi64_spec:
  assumes "\<forall>c \<in> set sp. isspaceC c" "sign_text sg" "digits ds" "ds \<noteq> []" "\<not> isdigitC c"
  shows "\<exists>r. sqlite3Atoi64 (sp @ sg @ ds @ c # t) = Inr (r, word_of_int (signed sg (dec ds)))
    \<and> (r \<longleftrightarrow> c = 0 \<and> dec ds \<noteq> 0 \<and> - (2 ^ 63) \<le> signed sg (dec ds) \<and> signed sg (dec ds) < 2 ^ 63)"
proof -
  let ?es = "strip0 ds" and ?v = "signed sg (dec ds)"
  have es: "digits ?es" by (rule digits_strip0 [OF assms(3)])
  have num: "(if sg = [0x2d] then - of_nat (dec ds) else of_nat (dec ds)) = (word_of_int ?v :: u64)"
    by (simp add: signed_def)
  have run: "sqlite3Atoi64 (sp @ sg @ ds @ c # t) =
      (if c \<noteq> 0 \<or> ?es = [] \<or> length ?es > 19 then Inr (False, word_of_int ?v)
       else if length ?es < 19 then Inr (True, word_of_int ?v)
       else bindR (compare2pow63 (?es @ c # t)) (\<lambda>d. Inr (d < (if sg = [0x2d] then 1 else 0), word_of_int ?v)))"
    using assms(5) skipSpace_number [OF assms(1-4), of "c # t"] readSign_spec [OF assms(2-4), of "c # t"]
      skipZeros_spec [OF assms(3,5), of t] accumDigits_spec [OF es assms(5), of 0 0 t] dec_strip0 [of ds]
    by (simp add: sqlite3Atoi64_def Let_def flip: num)
  show ?thesis
  proof (cases "c \<noteq> 0 \<or> ?es = [] \<or> length ?es > 19")
    case True
    with run length_strip0_bounds(2) [OF assms(3)] strip0_Nil [OF assms(3)] show ?thesis
      by (auto simp: signed_def)
  next
    case False
    show ?thesis
    proof (cases "length ?es < 19")
      case True
      from length_strip0_bounds(1) [OF assms(3) True] have "dec ds < 2 ^ 63" by simp
      with True False run strip0_Nil [OF assms(3)] show ?thesis by (auto simp: signed_def)
    next
      case False2: False
      with False have "length ?es = 19" by simp
      from fits_19 [OF es this, of "c # t" sg] False False2 run strip0_Nil [OF assms(3)] show ?thesis
        by (auto simp: dec_strip0)
    qed
  qed
qed

lemma FitsIn64Bits_spec:
  assumes "sign_text sg" "digits ds" "ds \<noteq> []" "\<not> isdigitC c"
  shows "sqlite3FitsIn64Bits (sg @ ds @ c # t) negFlag =
    Inr (let v = (if negFlag then - signed sg (dec ds) else signed sg (dec ds)) in - (2 ^ 63) \<le> v \<and> v < 2 ^ 63)"
proof -
  let ?es = "strip0 ds"
  have es: "digits ?es" by (rule digits_strip0 [OF assms(2)])
  define sg' where "sg' = (if (if negFlag then sg \<noteq> [0x2d] else sg = [0x2d]) then [0x2d] else [] :: byte list)"
  have v: "(if negFlag then - signed sg (dec ds) else signed sg (dec ds)) = signed sg' (dec ds)"
    by (auto simp: signed_def sg'_def)
  have run: "sqlite3FitsIn64Bits (sg @ ds @ c # t) negFlag =
      (if length ?es < 19 then Inr True else if length ?es > 19 then Inr False
       else bindR (compare2pow63 (?es @ c # t)) (\<lambda>d. Inr (d < (if sg' = [0x2d] then 1 else 0))))"
    using readSign_spec [OF assms(1-3), of "c # t"] skipZeros_spec [OF assms(2,4), of t]
      accumDigits_spec [OF es assms(4), of 0 0 t]
    by (simp add: sqlite3FitsIn64Bits_def Let_def sg'_def)
  consider "length ?es < 19" | "length ?es > 19" | "length ?es = 19" by linarith
  then show ?thesis
  proof cases
    case 1
    from length_strip0_bounds(1) [OF assms(2) 1] have "dec ds < 2 ^ 63" by simp
    with 1 run v show ?thesis by (auto simp: signed_def Let_def)
  next
    case 2
    from length_strip0_bounds(2) [OF assms(2) 2] 2 run v show ?thesis by (auto simp: signed_def Let_def)
  next
    case 3
    from fits_19 [OF es 3, of "c # t" sg'] 3 run v show ?thesis by (auto simp: dec_strip0)
  qed
qed

lemma accumDigits11_spec:
  assumes "digits ds"
  shows "length ds < n \<Longrightarrow> \<not> isdigitC c \<Longrightarrow>
      accumDigits11 n v i (ds @ c # t) = Inr (v * 10 ^ length ds + int (dec ds), i + length ds)"
    and "n \<le> length ds \<Longrightarrow> \<exists>v'. accumDigits11 n v i (ds @ c # t) = Inr (v', i + n)"
  using assms
proof (induction ds arbitrary: n v i)
  case Nil
  {
    case 1
    then show ?case by (cases n) (auto simp: peek_def)
  next
    case 2
    then show ?case by simp
  }
next
  case (Cons d ds)
  {
    case 1
    then obtain m where m: "n = Suc m" by (cases n) auto
    have "uint d - 48 = int (digit d)" using 1 digit_bounds [of d] by (simp add: uint_nat)
    with 1 m Cons.IH(1) [of m] show ?case by (simp add: peek_def algebra_simps)
  next
    case 2
    show ?case
    proof (cases n)
      case 0
      then show ?thesis by simp
    next
      case (Suc m)
      with 2 Cons.IH(2) [of m "v * 10 + (uint d - 48)" "Suc i"] show ?thesis by (simp add: peek_def)
    qed
  }
qed

lemma GetInt32_spec:
  assumes "sign_text sg" "digits ds" "ds \<noteq> []" "\<not> isdigitC c"
  shows "sqlite3GetInt32 (sg @ ds @ c # t) =
    Inr (let v = signed sg (dec ds) in if - (2 ^ 31) \<le> v \<and> v < 2 ^ 31 then Some (word_of_int v) else None)"
proof -
  let ?es = "strip0 ds"
  have es: "digits ?es" by (rule digits_strip0 [OF assms(2)])
  note run = readSign_spec [OF assms(1-3), of "c # t"] skipZeros_spec [OF assms(2,4), of t]
  show ?thesis
  proof (cases "length ?es < 11")
    case True
    from accumDigits11_spec(1) [OF es True assms(4), of 0 0 t] run True show ?thesis
      by (simp add: sqlite3GetInt32_def Let_def dec_strip0 signed_def)
  next
    case False
    then have "(10::nat) ^ 10 \<le> 10 ^ (length ?es - 1)" by (intro power_increasing) auto
    moreover have "?es \<noteq> []" using False by auto
    ultimately have "10 ^ 10 \<le> dec ds" using strip0_low [OF assms(2)] dec_strip0 by (metis order_trans)
    with accumDigits11_spec(2) [OF es, of 11 0 0 c t] False run show ?thesis
      by (auto simp: sqlite3GetInt32_def Let_def signed_def)
  qed
qed

subsection \<open>The grammar of numbers\<close>

definition numeral_text :: "byte list \<Rightarrow> bool \<Rightarrow> bool" where
  "numeral_text s real \<longleftrightarrow> (\<exists>sg ds fr ex. s = sg @ ds @ fr @ ex \<and> sign_text sg \<and> digits ds \<and> ds \<noteq> []
     \<and> (fr = [] \<or> (\<exists>fs. fr = 0x2e # fs \<and> digits fs \<and> fs \<noteq> []))
     \<and> (ex = [] \<or> (\<exists>e esg es. ex = e # esg @ es \<and> (e = 0x65 \<or> e = 0x45) \<and> sign_text esg \<and> digits es \<and> es \<noteq> []))
     \<and> real = (fr \<noteq> [] \<or> ex \<noteq> []))"

lemma peek_some: "0 \<in> set z \<Longrightarrow> \<exists>c z'. z = c # z' \<and> peek z = Inr c"
  by (cases z) (auto simp: peek_def)

lemma skipDigits_spec:
  "0 \<in> set z \<Longrightarrow> \<exists>ds z'. z = ds @ z' \<and> digits ds \<and> z' \<noteq> [] \<and> \<not> isdigitC (hd z') \<and> 0 \<in> set z'
    \<and> skipDigits 1 z = Inr z'"
proof (induction z)
  case Nil
  then show ?case by simp
next
  case (Cons c z)
  show ?case
  proof (cases "isdigitC c")
    case True
    then have "c \<noteq> 0" by (auto simp: isdigitC_def)
    with Cons obtain ds z' where "z = ds @ z'" "digits ds" "z' \<noteq> []" "\<not> isdigitC (hd z')" "0 \<in> set z'"
      "skipDigits 1 z = Inr z'" by auto
    with True show ?thesis by (intro exI [of _ "c # ds"] exI [of _ z']) simp
  next
    case False
    with Cons.prems show ?thesis by (intro exI [of _ "[]"] exI [of _ "c # z"]) auto
  qed
qed

lemma digits1_spec:
  assumes "0 \<in> set z"
  shows "\<not> isdigitC (hd z) \<and> digits1 1 z = Inr None
    \<or> (\<exists>ds z'. z = ds @ z' \<and> digits ds \<and> ds \<noteq> [] \<and> z' \<noteq> [] \<and> \<not> isdigitC (hd z') \<and> 0 \<in> set z'
        \<and> digits1 1 z = Inr (Some z'))"
proof -
  from peek_some [OF assms] obtain c y where c: "z = c # y" "peek z = Inr c" by blast
  show ?thesis
  proof (cases "isdigitC c")
    case True
    then have "c \<noteq> 0" by (auto simp: isdigitC_def)
    with assms c(1) have "0 \<in> set y" by auto
    from skipDigits_spec [OF this] obtain ds z' where "y = ds @ z'" "digits ds" "z' \<noteq> []"
      "\<not> isdigitC (hd z')" "0 \<in> set z'" "skipDigits 1 y = Inr z'" by blast
    with True c show ?thesis
      by (intro disjI2 exI [of _ "c # ds"] exI [of _ z']) (simp add: digits1_def)
  next
    case False
    with c show ?thesis by (simp add: digits1_def)
  qed
qed

lemma digits_no_sign: "digits ds \<Longrightarrow> ds \<noteq> [] \<Longrightarrow> hd (ds @ z) \<noteq> 0x2d \<and> hd (ds @ z) \<noteq> 0x2b"
  by (cases ds) (auto dest: digit_not_sign)

text \<open>A maximal run of digits is determined by the text.\<close>

lemma digits_run_unique:
  assumes "digits ds" "digits es" "ds @ y = es @ z" "y \<noteq> []" "z \<noteq> []" "\<not> isdigitC (hd y)" "\<not> isdigitC (hd z)"
  shows "ds = es \<and> y = z"
  using assms
proof (induction ds arbitrary: es)
  case Nil
  then show ?case by (cases es) auto
next
  case (Cons d ds)
  then show ?case by (cases es) auto
qed

lemma digits1_run:
  assumes "digits ds" "ds \<noteq> []" "z \<noteq> []" "\<not> isdigitC (hd z)" "0 \<in> set z"
  shows "digits1 1 (ds @ z) = Inr (Some z)"
proof -
  have "0 \<in> set (ds @ z)" using assms(5) by simp
  from digits1_spec [OF this] show ?thesis
  proof (elim disjE exE conjE)
    assume "\<not> isdigitC (hd (ds @ z))"
    with assms(1,2) show ?thesis by (cases ds) auto
  next
    fix es y
    assume "ds @ z = es @ y" "digits es" "y \<noteq> []" "\<not> isdigitC (hd y)" "digits1 1 (ds @ z) = Inr (Some y)"
    with digits_run_unique [of ds es z y] assms show ?thesis by auto
  qed
qed

lemma skipSign_run: "sign_text sg \<Longrightarrow> digits ds \<Longrightarrow> ds \<noteq> [] \<Longrightarrow> skipSign 1 (sg @ ds @ z) = Inr (ds @ z)"
  using digits_no_sign [of ds z]
  by (cases ds) (auto simp: sign_text_def skipSign_def peek_def)

lemma skipSign_spec:
  assumes "0 \<in> set z"
  shows "\<exists>sg z'. sign_text sg \<and> z = sg @ z' \<and> 0 \<in> set z' \<and> skipSign 1 z = Inr z'"
proof -
  from peek_some [OF assms] obtain c y where c: "z = c # y" "peek z = Inr c" by blast
  show ?thesis
  proof (cases "c = 0x2d \<or> c = 0x2b")
    case True
    with assms c show ?thesis
      by (intro exI [of _ "[c]"] exI [of _ y]) (auto simp: sign_text_def skipSign_def)
  next
    case False
    with assms c show ?thesis
      by (intro exI [of _ "[]"] exI [of _ z]) (auto simp: sign_text_def skipSign_def)
  qed
qed

definition fraction_text :: "byte list \<Rightarrow> bool" where
  "fraction_text fr \<longleftrightarrow> fr = [] \<or> (\<exists>fs. fr = 0x2e # fs \<and> digits fs \<and> fs \<noteq> [])"

definition exponent_text :: "byte list \<Rightarrow> bool" where
  "exponent_text ex \<longleftrightarrow> ex = [] \<or>
     (\<exists>e esg es. ex = e # esg @ es \<and> (e = 0x65 \<or> e = 0x45) \<and> sign_text esg \<and> digits es \<and> es \<noteq> [])"

lemma numeral_text_alt:
  "numeral_text s real \<longleftrightarrow> (\<exists>sg ds fr ex. s = sg @ ds @ fr @ ex \<and> sign_text sg \<and> digits ds \<and> ds \<noteq> []
     \<and> fraction_text fr \<and> exponent_text ex \<and> real = (fr \<noteq> [] \<or> ex \<noteq> []))"
  by (simp only: numeral_text_def fraction_text_def exponent_text_def)

lemma numFraction_spec:
  assumes "0 \<in> set z"
  shows "numFraction 1 z = Inr None
    \<or> (\<exists>fr z'. z = fr @ z' \<and> fraction_text fr \<and> 0 \<in> set z' \<and> numFraction 1 z = Inr (Some (z', fr \<noteq> [])))"
proof -
  from peek_some [OF assms] obtain c y where c: "z = c # y" "peek z = Inr c" by blast
  show ?thesis
  proof (cases "c = 0x2e")
    case True
    with assms c have "0 \<in> set y" by auto
    from digits1_spec [OF this] show ?thesis
    proof (elim disjE exE conjE)
      assume "digits1 1 y = Inr None"
      with True c show ?thesis by (simp add: numFraction_def)
    next
      fix ds z' assume "y = ds @ z'" "digits ds" "ds \<noteq> []" "0 \<in> set z'" "digits1 1 y = Inr (Some z')"
      with True c show ?thesis
        by (intro disjI2 exI [of _ "c # ds"] exI [of _ z']) (simp add: numFraction_def fraction_text_def)
    qed
  next
    case False
    with assms c show ?thesis
      by (intro disjI2 exI [of _ "[]"] exI [of _ z]) (simp add: numFraction_def fraction_text_def)
  qed
qed

lemma numExponent_spec:
  assumes "0 \<in> set z"
  shows "numExponent 1 z real = Inr None
    \<or> (\<exists>ex z'. z = ex @ z' \<and> exponent_text ex \<and> 0 \<in> set z'
        \<and> numExponent 1 z real = Inr (Some (z', real \<or> ex \<noteq> [])))"
proof -
  from peek_some [OF assms] obtain c y where c: "z = c # y" "peek z = Inr c" by blast
  show ?thesis
  proof (cases "c = 0x65 \<or> c = 0x45")
    case True
    with assms c have "0 \<in> set y" by auto
    from skipSign_spec [OF this] obtain sg y' where
      s: "sign_text sg" "y = sg @ y'" "0 \<in> set y'" "skipSign 1 y = Inr y'" by blast
    from digits1_spec [OF s(3)] show ?thesis
    proof (elim disjE exE conjE)
      assume "digits1 1 y' = Inr None"
      with True c s show ?thesis by (simp add: numExponent_def)
    next
      fix ds z' assume "y' = ds @ z'" "digits ds" "ds \<noteq> []" "0 \<in> set z'" "digits1 1 y' = Inr (Some z')"
      with True c s show ?thesis
        by (intro disjI2 exI [of _ "c # sg @ ds"] exI [of _ z'])
          (auto simp: numExponent_def exponent_text_def)
    qed
  next
    case False
    with assms c show ?thesis
      by (intro disjI2 exI [of _ "[]"] exI [of _ z]) (simp add: numExponent_def exponent_text_def)
  qed
qed

lemma numFraction_run:
  assumes "fraction_text fr" "z \<noteq> []" "\<not> isdigitC (hd z)" "0 \<in> set z" "hd z \<noteq> 0x2e"
  shows "numFraction 1 (fr @ z) = Inr (Some (z, fr \<noteq> []))"
  using assms digits1_run [OF _ _ assms(2-4)]
  by (cases z) (auto simp: fraction_text_def numFraction_def peek_def)

lemma numExponent_run:
  assumes "exponent_text ex" "z \<noteq> []" "\<not> isdigitC (hd z)" "0 \<in> set z" "hd z \<noteq> 0x65" "hd z \<noteq> 0x45"
  shows "numExponent 1 (ex @ z) real = Inr (Some (z, real \<or> ex \<noteq> []))"
proof (cases "ex = []")
  case True
  with assms show ?thesis by (cases z) (auto simp: numExponent_def peek_def)
next
  case False
  with assms(1) obtain e esg es where
    e: "ex = e # esg @ es" "e = 0x65 \<or> e = 0x45" "sign_text esg" "digits es" "es \<noteq> []"
    by (auto simp: exponent_text_def)
  then show ?thesis using skipSign_run [OF e(3-5), of z] digits1_run [OF e(4,5) assms(2-4)]
    by (auto simp: numExponent_def peek_def)
qed

lemma IsNumber_complete:
  assumes "sign_text sg" "digits ds" "ds \<noteq> []" "fraction_text fr" "exponent_text ex"
  shows "sqlite3IsNumber ((sg @ ds @ fr @ ex) @ 0 # t) UTF8 = Inr (True, Some (fr \<noteq> [] \<or> ex \<noteq> []))"
proof -
  have nd: "\<not> isdigitC 0" "\<not> isdigitC 0x2e" "\<not> isdigitC 0x65" "\<not> isdigitC 0x45"
    by (simp_all add: isdigitC_def)
  have h: "\<not> isdigitC (hd (ex @ 0 # t))" "hd (ex @ 0 # t) \<noteq> 0x2e"
    using assms(5) nd by (auto simp: exponent_text_def)
  then have h': "\<not> isdigitC (hd (fr @ ex @ 0 # t))" using assms(4) nd by (auto simp: fraction_text_def)
  have e: "numExponent 1 (ex @ 0 # t) r = Inr (Some (0 # t, r \<or> ex \<noteq> []))" for r
    by (rule numExponent_run [OF assms(5)]) (simp_all add: nd)
  have f: "numFraction 1 (fr @ ex @ 0 # t) = Inr (Some (ex @ 0 # t, fr \<noteq> []))"
    by (rule numFraction_run [OF assms(4)]) (simp_all add: h)
  have d: "digits1 1 (ds @ fr @ ex @ 0 # t) = Inr (Some (fr @ ex @ 0 # t))"
    by (rule digits1_run [OF assms(2,3)]) (simp_all add: h')
  show ?thesis
    using e f d skipSign_run [OF assms(1-3), of "fr @ ex @ 0 # t"]
    by (simp add: sqlite3IsNumber_def Let_def peek_def)
qed

lemma digits_no_zero: "digits ds \<Longrightarrow> 0 \<notin> set ds"
  by (auto simp: digits_def isdigitC_def dest!: bspec)

lemma sign_no_zero: "sign_text sg \<Longrightarrow> 0 \<notin> set sg"
  by (auto simp: sign_text_def)

lemma numeral_no_zero: "numeral_text s real \<Longrightarrow> 0 \<notin> set s"
  unfolding numeral_text_def by (elim exE conjE disjE) (simp_all add: digits_no_zero sign_no_zero)

lemma split_at_zero: "0 \<notin> set a \<Longrightarrow> 0 \<notin> set b \<Longrightarrow> a @ 0 # x = b @ 0 # y \<Longrightarrow> a = b \<and> x = y" for a b :: "byte list"
proof (induction a arbitrary: b)
  case Nil
  then show ?case by (cases b) auto
next
  case (Cons c a)
  then show ?case by (cases b) auto
qed

lemma IsNumber_sound:
  assumes "0 \<in> set z"
  shows "\<exists>b r. sqlite3IsNumber z UTF8 = Inr (b, r)
    \<and> (b \<longrightarrow> (\<exists>s t real. z = s @ 0 # t \<and> numeral_text s real \<and> r = Some real))"
proof -
  from skipSign_spec [OF assms] obtain sg z2 where
    s: "sign_text sg" "z = sg @ z2" "0 \<in> set z2" "skipSign 1 z = Inr z2" by blast
  from digits1_spec [OF s(3)] show ?thesis
  proof (elim disjE exE conjE)
    assume "digits1 1 z2 = Inr None"
    with s(4) show ?thesis by (auto simp: sqlite3IsNumber_def)
  next
    fix ds z3
    assume d: "z2 = ds @ z3" "digits ds" "ds \<noteq> []" "0 \<in> set z3" "digits1 1 z2 = Inr (Some z3)"
    from numFraction_spec [OF d(4)] show ?thesis
    proof (elim disjE exE conjE)
      assume "numFraction 1 z3 = Inr None"
      with s(4) d(5) show ?thesis by (auto simp: sqlite3IsNumber_def)
    next
      fix fr z4
      assume f: "z3 = fr @ z4" "fraction_text fr" "0 \<in> set z4" "numFraction 1 z3 = Inr (Some (z4, fr \<noteq> []))"
      from numExponent_spec [OF f(3), of "fr \<noteq> []"] show ?thesis
      proof (elim disjE exE conjE)
        assume "numExponent 1 z4 (fr \<noteq> []) = Inr None"
        with s(4) d(5) f(4) show ?thesis by (auto simp: sqlite3IsNumber_def)
      next
        fix ex z5
        assume e: "z4 = ex @ z5" "exponent_text ex" "0 \<in> set z5"
          "numExponent 1 z4 (fr \<noteq> []) = Inr (Some (z5, fr \<noteq> [] \<or> ex \<noteq> []))"
        from peek_some [OF e(3)] obtain c t where c: "z5 = c # t" "peek z5 = Inr c" by blast
        have "numeral_text (sg @ ds @ fr @ ex) (fr \<noteq> [] \<or> ex \<noteq> [])"
          using s(1) d(2,3) f(2) e(2) numeral_text_alt by blast
        moreover have "c = 0 \<Longrightarrow> z = (sg @ ds @ fr @ ex) @ 0 # t" using s(2) d(1) f(1) e(1) c(1) by simp
        moreover have "sqlite3IsNumber z UTF8 = Inr (c = 0, Some (fr \<noteq> [] \<or> ex \<noteq> []))"
          using s(4) d(5) f(4) e(4) c(2) by (simp add: sqlite3IsNumber_def)
        ultimately show ?thesis by blast
      qed
    qed
  qed
qed

subsection \<open>Quotes and blobs\<close>

definition double_quotes :: "byte \<Rightarrow> byte list \<Rightarrow> byte list" where
  "double_quotes e s = concat (map (\<lambda>c. if c = e then [e, e] else [c]) s)"

lemma double_quotes_simps [simp]:
  "double_quotes e [] = []"
  "double_quotes e (c # s) = (if c = e then [e, e] else [c]) @ double_quotes e s"
  by (simp_all add: double_quotes_def)

lemma drop_update_below: "j < i \<Longrightarrow> drop i (z[j := v]) = drop i z"
  by (simp add: drop_update_cancel)

lemma dequoteLoop_spec:
  assumes "j < i" "drop i z = double_quotes e s @ e # c # t" "c \<noteq> e" "0 \<notin> set s" "e \<noteq> 0"
  shows "\<exists>z'. dequoteLoop e z i j = Inr z' \<and> take j z' = take j z \<and> take (length s + 1) (drop j z') = s @ [0]
    \<and> length z' = length z"
  using assms
proof (induction s arbitrary: z i j)
  case Nil
  then have d: "drop i z = e # c # t" by simp
  note n1 = nth_of_drop [OF d]
  note n2 = nth_of_drop [OF conjunct2 [OF conjunct2 [OF n1]]]
  have jl: "j < length z" using n1 Nil.prems(1) by simp
  have "dequoteLoop e z i j = Inr (z[j := 0])"
    using n1 n2 Nil.prems jl by (simp add: dequoteLoop.simps [of e z])
  moreover have "take (Suc 0) (drop j (z[j := 0])) = [0]"
    using jl by (simp add: take_Suc_conv_app_nth [of 0, simplified] hd_drop_conv_nth)
  ultimately show ?case by simp
next
  case (Cons a s)
  have jl: "j < length z" using Cons.prems(1,2) by (metis drop_all append_is_Nil_conv leI list.distinct(1) order.strict_trans)
  show ?case
  proof (cases "a = e")
    case True
    then have d: "drop i z = e # e # double_quotes e s @ e # c # t" using Cons.prems(2) by simp
    note n1 = nth_of_drop [OF d]
    note n2 = nth_of_drop [OF conjunct2 [OF conjunct2 [OF n1]]]
    let ?z = "z[j := e]"
    have "drop (i + 2) ?z = double_quotes e s @ e # c # t" using n2 Cons.prems(1) by (simp add: drop_update_cancel)
    from Cons.IH [of "j + 1" "i + 2" ?z, OF _ this] Cons.prems obtain z' where
      z': "dequoteLoop e ?z (i + 2) (j + 1) = Inr z'" "take (j + 1) z' = take (j + 1) ?z"
        "take (length s + 1) (drop (j + 1) z') = s @ [0]" "length z' = length z" by auto
    have "dequoteLoop e z i j = Inr z'"
      using n1 n2 Cons.prems(5) jl z'(1) by (simp add: dequoteLoop.simps [of e z])
    moreover have "take j z' = take j z" "drop j z' = e # drop (j + 1) z'"
      using arg_cong [OF z'(2), of "take j"] arg_cong [OF z'(2), of "\<lambda>l. l ! j"] jl z'(4)
      by (simp_all add: take_update_cancel Cons_nth_drop_Suc [symmetric])
    ultimately show ?thesis using z'(3,4) True by simp
  next
    case False
    then have d: "drop i z = a # double_quotes e s @ e # c # t" using Cons.prems(2) by simp
    note n1 = nth_of_drop [OF d]
    let ?z = "z[j := a]"
    have "drop (i + 1) ?z = double_quotes e s @ e # c # t" using n1 Cons.prems(1) by (simp add: drop_update_cancel)
    from Cons.IH [of "j + 1" "i + 1" ?z, OF _ this] Cons.prems obtain z' where
      z': "dequoteLoop e ?z (i + 1) (j + 1) = Inr z'" "take (j + 1) z' = take (j + 1) ?z"
        "take (length s + 1) (drop (j + 1) z') = s @ [0]" "length z' = length z" by auto
    have "dequoteLoop e z i j = Inr z'"
      using n1 False Cons.prems(4) jl z'(1) by (simp add: dequoteLoop.simps [of e z])
    moreover have "take j z' = take j z" "drop j z' = a # drop (j + 1) z'"
      using arg_cong [OF z'(2), of "take j"] arg_cong [OF z'(2), of "\<lambda>l. l ! j"] jl z'(4)
      by (simp_all add: take_update_cancel Cons_nth_drop_Suc [symmetric])
    ultimately show ?thesis using z'(3,4) by simp
  qed
qed

definition hexDigit :: "byte \<Rightarrow> nat option" where
  "hexDigit c = (if 48 \<le> unat c \<and> unat c \<le> 57 then Some (unat c - 48)
     else if 65 \<le> unat c \<and> unat c \<le> 70 then Some (unat c - 55)
     else if 97 \<le> unat c \<and> unat c \<le> 102 then Some (unat c - 87) else None)"

lemma hexToInt_spec: "hexDigit c = Some d \<Longrightarrow> hexToInt c = of_nat d \<and> d < 16"
proof -
  assume a: "hexDigit c = Some d"
  have table: "\<forall>n \<in> set [0..<256]. case hexDigit (of_nat n) of None \<Rightarrow> True
      | Some d \<Rightarrow> hexToInt (of_nat n) = of_nat d \<and> d < 16"
    by code_simp
  have "unat c \<in> set [0..<256]" by simp
  with table have "case hexDigit (of_nat (unat c)) of None \<Rightarrow> True
      | Some d \<Rightarrow> hexToInt (of_nat (unat c)) = of_nat d \<and> d < 16" by blast
  with a show ?thesis by simp
qed

lemma hex_pair: "x < 16 \<Longrightarrow> y < 16 \<Longrightarrow> unat (push_bit 4 (of_nat x) OR of_nat y :: byte) = 16 * x + y"
proof -
  assume a: "x < 16" "y < 16"
  have "\<forall>x \<in> set [0..<16]. \<forall>y \<in> set [0..<16]. unat (push_bit 4 (of_nat x) OR of_nat y :: byte) = 16 * x + y"
    by code_simp
  with a show ?thesis by simp
qed

lemma hexLoop_spec:
  assumes cs: "length cs = 2 * k" "\<forall>c \<in> set cs. hexDigit c \<noteq> None" and m: "m \<le> k" "k - m < f"
    and b: "length b = k + 1"
      "\<forall>j < m. unat (b ! j) = 16 * the (hexDigit (cs ! (2 * j))) + the (hexDigit (cs ! (2 * j + 1)))"
  shows "\<exists>b'. hexLoop (cs @ t) (2 * k - 1) (2 * m) b f = Inr b' \<and> length b' = k + 1 \<and> b' ! k = 0
    \<and> (\<forall>j < k. unat (b' ! j) = 16 * the (hexDigit (cs ! (2 * j))) + the (hexDigit (cs ! (2 * j + 1))))"
  using m b
proof (induction f arbitrary: m b)
  case 0
  then show ?case by simp
next
  case (Suc f)
  show ?case
  proof (cases "m = k")
    case True
    with Suc.prems show ?thesis by (auto simp: nth_list_update)
  next
    case False
    with Suc.prems(1) have m: "m < k" "2 * m < 2 * k - 1" "2 * m + 1 < length cs" using cs(1) by simp_all
    obtain x y where xy: "hexDigit (cs ! (2 * m)) = Some x" "hexDigit (cs ! (2 * m + 1)) = Some y"
      using cs(2) m(3) by (metis Suc_eq_plus1 Suc_lessD not_Some_eq nth_mem)
    note hx = hexToInt_spec [OF xy(1)] hexToInt_spec [OF xy(2)]
    let ?b = "b[m := push_bit 4 (of_nat x) OR of_nat y]"
    have "\<forall>j < m + 1. unat (?b ! j) = 16 * the (hexDigit (cs ! (2 * j))) + the (hexDigit (cs ! (2 * j + 1)))"
      using Suc.prems(3,4) m(1) xy hex_pair [of x y] hx by (auto simp: nth_list_update less_Suc_eq)
    moreover have "m + 1 \<le> k" "k - (m + 1) < f" "length ?b = k + 1" using Suc.prems(2,3) m(1) by auto
    ultimately obtain b' where
      b': "hexLoop (cs @ t) (2 * k - 1) (2 * (m + 1)) ?b f = Inr b'" "length b' = k + 1" "b' ! k = 0"
        "\<forall>j < k. unat (b' ! j) = 16 * the (hexDigit (cs ! (2 * j))) + the (hexDigit (cs ! (2 * j + 1)))"
      using Suc.IH by blast
    have "hexLoop (cs @ t) (2 * k - 1) (2 * m) b (Suc f) = hexLoop (cs @ t) (2 * k - 1) (2 * (m + 1)) ?b f"
      using m Suc.prems(3) hx by (simp add: rd_def nth_append)
    with b' show ?thesis by metis
  qed
qed

lemma Dequote_spec:
  assumes "quoteEnd q = Some e" "0 \<notin> set s" "c \<noteq> e"
  shows "\<exists>b. sqlite3Dequote (Some (q # double_quotes e s @ e # c # t)) = Inr (Some b)
    \<and> take (length s + 1) b = s @ [0] \<and> length b = length (q # double_quotes e s @ e # c # t)"
proof -
  have "e \<noteq> 0" using assms(1) by (auto simp: quoteEnd_def split: if_splits)
  from dequoteLoop_spec [of 0 1 "q # double_quotes e s @ e # c # t", OF _ _ assms(3,2) this] assms(1)
  show ?thesis by (auto simp: sqlite3Dequote_def)
qed

subsection \<open>Properties\<close>

text \<open>Comparison of n bytes that both blocks have, a zero byte at most at the end.\<close>

lemma StrNICmp_key:
  "n \<le> length z \<Longrightarrow> n \<le> length z' \<Longrightarrow> 0 \<notin> set (take (n - 1) z) \<Longrightarrow>
     \<exists>d. sqlite3StrNICmp z z' n = Inr d \<and> (d = 0 \<longleftrightarrow> lower (take n z) = lower (take n z'))"
proof (induction n arbitrary: z z')
  case (Suc n)
  obtain a as b bs where z: "z = a # as" "z' = b # bs" using Suc.prems(1,2) by (cases z; cases z') simp_all
  show ?case
  proof (cases "UpperToLower a = UpperToLower b \<and> a \<noteq> 0")
    case True
    have "0 \<notin> set (take (n - 1) as)" using Suc.prems(3) z(1) by (cases n) simp_all
    with Suc.IH [of as bs] Suc.prems(1,2) z True show ?thesis by simp
  next
    case False
    have "a = 0 \<Longrightarrow> n = 0" using Suc.prems(3) z(1) by (cases n) simp_all
    moreover have "uint (UpperToLower a) - uint (UpperToLower b) = 0 \<longleftrightarrow> UpperToLower a = UpperToLower b"
      by (simp add: word_uint_eq_iff)
    moreover have "sqlite3StrNICmp z z' (Suc n) = Inr (uint (UpperToLower a) - uint (UpperToLower b))" using False z by auto
    ultimately show ?thesis using False z by (cases "a = 0") simp_all
  qed
qed simp

text \<open>
  Case-insensitive comparison. On two C strings it never reads past a terminator, it
  returns zero exactly when the strings agree after lower-casing ASCII letters, and a
  negative value exactly when the first precedes the second in the lexicographic order of
  the lower-cased strings; the bounded comparison does the same on the first n characters.
\<close>

theorem str_icmp_order:
  assumes "0 \<notin> set s" "0 \<notin> set s'"
  shows "(\<exists>d. sqlite3StrICmp (s @ 0 # t) (s' @ 0 # t') = Inr d \<and> (d = 0 \<longleftrightarrow> lower s = lower s')
      \<and> (d < 0 \<longleftrightarrow> ord_class.lexordp (lower s) (lower s')))
    \<and> (\<exists>d. sqlite3StrNICmp (s @ 0 # t) (s' @ 0 # t') n = Inr d
      \<and> (d = 0 \<longleftrightarrow> lower (take n s) = lower (take n s'))
      \<and> (d < 0 \<longleftrightarrow> ord_class.lexordp (lower (take n s)) (lower (take n s'))))"
  using StrICmp_spec [OF assms] StrNICmp_spec [OF assms] by blast

theorem str_icmp_order_witness:
  "\<exists>d. sqlite3StrICmp ([0x41, 0x62] @ 0 # []) ([0x61, 0x42] @ 0 # [7]) = Inr d \<and> (d = 0 \<longleftrightarrow> True)"
  using str_icmp_order [of "[0x41, 0x62]" "[0x61, 0x42]" "[]" "[7]" 2]
  by (auto simp: UpperToLower_eq)

text \<open>
  C30: conversion of decimal text to a 64-bit integer. For white space, an optional sign, at
  least one digit and a character that is not a digit, the stored value is the number modulo
  2 ^ 64, and the routine reports success exactly when the text ends there, the number is in
  the range of a 64-bit signed integer, and it is not zero: for zero it reports failure.
\<close>

theorem atoi64_value:
  assumes "\<forall>c \<in> set sp. isspaceC c" "sign_text sg" "digits ds" "ds \<noteq> []" "\<not> isdigitC c"
  shows "\<exists>r. sqlite3Atoi64 (sp @ sg @ ds @ c # t) = Inr (r, word_of_int (signed sg (dec ds)))
    \<and> (r \<longleftrightarrow> c = 0 \<and> dec ds \<noteq> 0 \<and> - (2 ^ 63) \<le> signed sg (dec ds) \<and> signed sg (dec ds) < 2 ^ 63)"
  using assms by (rule Atoi64_spec)

theorem atoi64_value_witness:
  "\<exists>r. sqlite3Atoi64 ([0x20] @ [0x2d] @ [0x30, 0x34, 0x32] @ 0 # []) = Inr (r, word_of_int (signed [0x2d] (dec [0x30, 0x34, 0x32])))
    \<and> (r \<longleftrightarrow> (0 :: byte) = 0 \<and> dec [0x30, 0x34, 0x32] \<noteq> 0 \<and> - (2 ^ 63) \<le> signed [0x2d] (dec [0x30, 0x34, 0x32])
        \<and> signed [0x2d] (dec [0x30, 0x34, 0x32]) < 2 ^ 63)"
  by (rule atoi64_value) (simp_all add: isspaceC_def sign_text_def isdigitC_def)

text \<open>
  The 64-bit range test. It answers exactly whether the number, negated when the caller
  asks, lies between - 2 ^ 63 and 2 ^ 63 - 1; in particular it accepts - 2 ^ 63.
\<close>

theorem fits_in_64_bits_range:
  assumes "sign_text sg" "digits ds" "ds \<noteq> []" "\<not> isdigitC c"
  shows "sqlite3FitsIn64Bits (sg @ ds @ c # t) negFlag =
    Inr (let v = (if negFlag then - signed sg (dec ds) else signed sg (dec ds)) in - (2 ^ 63) \<le> v \<and> v < 2 ^ 63)"
  using assms by (rule FitsIn64Bits_spec)

theorem fits_in_64_bits_range_witness:
  "sqlite3FitsIn64Bits ([0x2d] @ (pow63digits @ [0x38]) @ 0 # []) False = Inr True"
  using fits_in_64_bits_range [of "[0x2d]" "pow63digits @ [0x38]" 0 "[]" False] pow63digits_props
  by (simp add: sign_text_def isdigitC_def signed_def dec_append digit_def)

text \<open>
  Conversion to a 32-bit integer succeeds exactly on numbers between - 2 ^ 31 and
  2 ^ 31 - 1 and returns the number, whatever follows the digits.
\<close>

theorem get_int32_range:
  assumes "sign_text sg" "digits ds" "ds \<noteq> []" "\<not> isdigitC c"
  shows "sqlite3GetInt32 (sg @ ds @ c # t) =
    Inr (let v = signed sg (dec ds) in if - (2 ^ 31) \<le> v \<and> v < 2 ^ 31 then Some (word_of_int v) else None)"
  using assms by (rule GetInt32_spec)

theorem get_int32_range_witness:
  "sqlite3GetInt32 ([0x2d] @ [0x37] @ 0x78 # []) = Inr (Some (- 7))"
  using get_int32_range [of "[0x2d]" "[0x37]" "0x78" "[]"]
  by (simp add: sign_text_def isdigitC_def signed_def digit_def)

text \<open>
  Recognition of numbers. On a C string the routine returns true exactly when the string
  is an optional sign, digits, an optional fraction and an optional exponent, and then
  reports through realnum whether there was a fraction or an exponent.
\<close>

theorem is_number_grammar:
  assumes "0 \<notin> set s"
  shows "\<exists>b r. sqlite3IsNumber (s @ 0 # t) UTF8 = Inr (b, r)
    \<and> (\<forall>real. b \<and> r = Some real \<longleftrightarrow> numeral_text s real)"
proof -
  have "0 \<in> set (s @ 0 # t)" by simp
  from IsNumber_sound [OF this] obtain b r where
    br: "sqlite3IsNumber (s @ 0 # t) UTF8 = Inr (b, r)"
      "b \<longrightarrow> (\<exists>s' t' real. s @ 0 # t = s' @ 0 # t' \<and> numeral_text s' real \<and> r = Some real)"
    by blast
  have "b \<and> r = Some real" if "numeral_text s real" for real
    using that IsNumber_complete [of _ _ _ _ t] br(1) unfolding numeral_text_alt by fastforce
  moreover have "numeral_text s real" if "b" "r = Some real" for real
    using br(2) that split_at_zero [OF assms] numeral_no_zero by blast
  ultimately show ?thesis using br(1) by blast
qed

theorem is_number_grammar_witness:
  "\<exists>b r. sqlite3IsNumber ([0x2d, 0x31, 0x2e, 0x35] @ 0 # []) UTF8 = Inr (b, r)
    \<and> (\<forall>real. b \<and> r = Some real \<longleftrightarrow> numeral_text [0x2d, 0x31, 0x2e, 0x35] real)"
  by (rule is_number_grammar) simp

text \<open>
  Removing SQL quotes in place undoes quoting: a string put between quote characters of
  any of the four kinds, with the closing quote doubled inside, comes back unchanged and
  terminated, and the block keeps its size.
\<close>

theorem dequote_roundtrip:
  assumes "quoteEnd q = Some e" "0 \<notin> set s" "c \<noteq> e"
  shows "\<exists>b. sqlite3Dequote (Some (q # double_quotes e s @ e # c # t)) = Inr (Some b)
    \<and> take (length s + 1) b = s @ [0] \<and> length b = length (q # double_quotes e s @ e # c # t)"
  by (rule Dequote_spec [OF assms])

theorem dequote_roundtrip_witness:
  "\<exists>b. sqlite3Dequote (Some (0x5b # double_quotes 0x5d [0x61, 0x5d] @ 0x5d # 0 # [])) = Inr (Some b)
    \<and> take (length [0x61, 0x5d :: byte] + 1) b = [0x61, 0x5d] @ [0]
    \<and> length b = length (0x5b # double_quotes 0x5d [0x61, 0x5d] @ 0x5d # 0 # [])"
  by (rule dequote_roundtrip) (simp_all add: quoteEnd_def)

text \<open>
  A blob literal of 2 k hexadecimal digits of either case is decoded to the k bytes the
  pairs denote, followed by a terminator, within the allocated block.
\<close>

theorem hex_to_blob_value:
  assumes "length cs = 2 * k" "\<forall>c \<in> set cs. hexDigit c \<noteq> None"
  shows "\<exists>b. sqlite3HexToBlob junk True (cs @ t) (2 * k) = Inr (Some b) \<and> length b = k + 1 \<and> b ! k = 0
    \<and> (\<forall>j < k. unat (b ! j) = 16 * the (hexDigit (cs ! (2 * j))) + the (hexDigit (cs ! (2 * j + 1))))"
  using hexLoop_spec [OF assms, of 0 "2 * k + 1" "map junk [0..<k + 1]" t]
  by (auto simp: sqlite3HexToBlob_def simp del: upt_Suc hexLoop.simps)

theorem hex_to_blob_value_witness:
  "\<exists>b. sqlite3HexToBlob (\<lambda>_. 0) True ([0x34, 0x46] @ [0x27]) (2 * 1) = Inr (Some b) \<and> length b = 1 + 1 \<and> b ! 1 = 0
    \<and> (\<forall>j < 1. unat (b ! j) = 16 * the (hexDigit ([0x34, 0x46] ! (2 * j))) + the (hexDigit ([0x34, 0x46] ! (2 * j + 1))))"
  by (rule hex_to_blob_value) (simp_all add: hexDigit_def)

end
