(* ===== verification/Codec.thy ===== *)
theory Codec
  imports Prelude
begin

text \<open>
  The contract of a self-delimiting byte encoding: decoding a buffer that starts with the
  encoding of a value returns the value and the number of bytes of the encoding, whatever
  follows. The record format, the page headers and the text encodings of the database
  library rest on such codes. The locale shows once that a sequence of values written one
  after another is read back by repeated decoding.
\<close>

fun decode_n :: "(byte list \<Rightarrow> ('v \<times> nat) cres) \<Rightarrow> nat \<Rightarrow> byte list \<Rightarrow> ('v list \<times> byte list) cres" where
  "decode_n dec 0 p = Inr ([], p)"
| "decode_n dec (Suc n) p =
     bindR (dec p) (\<lambda>(v, k). bindR (decode_n dec n (drop k p)) (\<lambda>(vs, q). Inr (v # vs, q)))"

locale codec =
  fixes valid :: "'v \<Rightarrow> bool"
    and encode :: "'v \<Rightarrow> byte list"
    and decode :: "byte list \<Rightarrow> ('v \<times> nat) cres"
  assumes decode_encode: "valid v \<Longrightarrow> decode (encode v @ t) = Inr (v, length (encode v))"
begin

lemma decode_stream:
  "\<forall>v \<in> set vs. valid v \<Longrightarrow> decode_n decode (length vs) (concat (map encode vs) @ t) = Inr (vs, t)"
  by (induction vs) (simp_all add: decode_encode)

lemma encode_inj: "valid v \<Longrightarrow> valid w \<Longrightarrow> encode v = encode w \<Longrightarrow> v = w"
  using decode_encode [of v "[]"] decode_encode [of w "[]"] by simp

lemma encode_prefix_free:
  assumes "valid v" "valid w" "encode w = encode v @ t"
  shows "v = w \<and> t = []"
proof -
  from decode_encode [OF assms(1), of t] decode_encode [OF assms(2), of "[]"] assms(3)
  have "v = w" "length (encode v) = length (encode w)" by simp_all
  with assms(3) show ?thesis by simp
qed

end

end
