(* ===== verification/Varint.thy ===== *)
theory Varint
  imports Codec
begin

text \<open>
  The variable-length and the four-byte integers of the database file format, util.c of the
  database library (misc/sqlite). A buffer that is read is the list of bytes from the given
  address to the end of its block; a buffer that is written is a block from which the same
  block with the new bytes is returned. The reader sqlite3GetVarint keeps its two interleaved
  32-bit accumulators, masks and shifts as they are written in the source.

  Shown: the reader equals a byte-by-byte reference reader on every input, reading the same
  bytes; it inverts the writer; lengths agree; the 32-bit variants agree with the 64-bit
  ones.
\<close>

subsection \<open>Writing\<close>

text \<open>The nine-byte case: seven bits into p[7] down to p[0].\<close>

fun putHigh :: "byte list \<Rightarrow> u64 \<Rightarrow> nat \<Rightarrow> byte list cres" where
  "putHigh p v 0 = Inr p"
| "putHigh p v (Suc i) =
     bindR (wr p i (ucast ((v AND 0x7f) OR 0x80))) (\<lambda>p'. putHigh p' (drop_bit 7 v) i)"

lemma drop_bit_7_less: "v \<noteq> 0 \<Longrightarrow> unat (drop_bit 7 v :: u64) < unat v"
  by (simp add: unat_drop_bit_div unat_gt_0)

text \<open>The do-while loop that fills buf, least significant group first.\<close>

function varintBuf :: "u64 \<Rightarrow> byte list" where
  "varintBuf v = ucast ((v AND 0x7f) OR 0x80) #
     (if drop_bit 7 v \<noteq> 0 then varintBuf (drop_bit 7 v) else [])"
  by pat_completeness auto
termination
proof (relation "measure unat")
  fix v :: u64
  assume "drop_bit 7 v \<noteq> 0"
  then have "v \<noteq> 0" by auto
  then show "(drop_bit 7 v, v) \<in> measure unat" using drop_bit_7_less by simp
qed simp

declare varintBuf.simps [simp del]

fun putBytes :: "byte list \<Rightarrow> nat \<Rightarrow> byte list \<Rightarrow> byte list cres" where
  "putBytes p i [] = Inr p"
| "putBytes p i (c # cs) = bindR (wr p i c) (\<lambda>p'. putBytes p' (i + 1) cs)"

definition sqlite3PutVarint :: "byte list \<Rightarrow> u64 \<Rightarrow> (nat \<times> byte list) cres" where
  "sqlite3PutVarint p v =
     (if v AND push_bit 32 0xff000000 \<noteq> 0
      then bindR (wr p 8 (ucast v)) (\<lambda>p'. bindR (putHigh p' (drop_bit 8 v) 8) (\<lambda>p''. Inr (9, p'')))
      else
        let buf = varintBuf v; n = length buf; buf' = buf[0 := buf ! 0 AND 0x7f] in
        bindR (putBytes p 0 (rev buf')) (\<lambda>p'. Inr (n, p')))"

text \<open>putVarint32 of sqliteInt.h inlines the single-byte case of this routine.\<close>

definition sqlite3PutVarint32 :: "byte list \<Rightarrow> u32 \<Rightarrow> (nat \<times> byte list) cres" where
  "sqlite3PutVarint32 p v =
     (if v AND NOT 0x3fff = 0
      then bindR (wr p 0 (ucast (drop_bit 7 v OR 0x80))) (\<lambda>p'.
             bindR (wr p' 1 (ucast (v AND 0x7f))) (\<lambda>p''. Inr (2, p'')))
      else sqlite3PutVarint p (ucast v))"

definition putVarint32 :: "byte list \<Rightarrow> u32 \<Rightarrow> (nat \<times> byte list) cres" where
  "putVarint32 p v =
     (if v < 0x80 then bindR (wr p 0 (ucast v)) (\<lambda>p'. Inr (1, p')) else sqlite3PutVarint32 p v)"

subsection \<open>Reading\<close>

definition MASK2 :: u32 where "MASK2 = push_bit 14 0x7f OR 0x7f"
definition MASK3 :: u32 where "MASK3 = push_bit 28 0x7f OR push_bit 14 0x7f OR 0x7f"

definition join :: "u32 \<Rightarrow> u32 \<Rightarrow> u64" where
  "join s a = push_bit 32 (ucast s) OR ucast a"

text \<open>
  The reader, byte by byte from the ninth down to the third: a and b are the accumulators, s the saved high part,
  p4 the fifth byte that p[-4] fetches again.
\<close>

definition getVarint9 :: "byte list \<Rightarrow> u32 \<Rightarrow> u32 \<Rightarrow> u32 \<Rightarrow> byte \<Rightarrow> (u64 \<times> nat) cres" where
  "getVarint9 p a b s p4 = bindR (rd p 8) (\<lambda>x.
     let a = push_bit 15 a OR ucast x;
         b = push_bit 8 (b AND MASK2);
         a = a OR b;
         s = push_bit 4 s OR drop_bit 3 (ucast p4 AND 0x7f) in
     Inr (join s a, 9))"

definition getVarint8 :: "byte list \<Rightarrow> u32 \<Rightarrow> u32 \<Rightarrow> u32 \<Rightarrow> byte \<Rightarrow> (u64 \<times> nat) cres" where
  "getVarint8 p a b s p4 = bindR (rd p 7) (\<lambda>x.
     let a = a AND MASK2; b = push_bit 14 b OR ucast x in
     if b AND 0x80 = 0
     then let b = b AND MASK3; a = push_bit 7 a OR b; s = drop_bit 4 s in Inr (join s a, 8)
     else getVarint9 p a b s p4)"

definition getVarint7 :: "byte list \<Rightarrow> u32 \<Rightarrow> u32 \<Rightarrow> u32 \<Rightarrow> byte \<Rightarrow> (u64 \<times> nat) cres" where
  "getVarint7 p a b s p4 = bindR (rd p 6) (\<lambda>x.
     let a = push_bit 14 a OR ucast x in
     if a AND 0x80 = 0
     then let a = a AND MASK3; b = push_bit 7 (b AND MASK2); a = a OR b; s = drop_bit 11 s in
       Inr (join s a, 7)
     else getVarint8 p a b s p4)"

definition getVarint6 :: "byte list \<Rightarrow> u32 \<Rightarrow> u32 \<Rightarrow> u32 \<Rightarrow> byte \<Rightarrow> (u64 \<times> nat) cres" where
  "getVarint6 p a b s p4 = bindR (rd p 5) (\<lambda>x.
     let s = push_bit 7 s OR b; b = push_bit 14 b OR ucast x in
     if b AND 0x80 = 0
     then let a = push_bit 7 (a AND MASK2) OR b; s = drop_bit 18 s in Inr (join s a, 6)
     else getVarint7 p a b s p4)"

definition getVarint5 :: "byte list \<Rightarrow> u32 \<Rightarrow> u32 \<Rightarrow> (u64 \<times> nat) cres" where
  "getVarint5 p a b = bindR (rd p 4) (\<lambda>x.
     let b = b AND MASK2; s = a; a = push_bit 14 a OR ucast x in
     if a AND 0x80 = 0
     then let b = push_bit 7 b; a = a OR b; s = drop_bit 18 s in Inr (join s a, 5)
     else getVarint6 p a b s x)"

definition getVarint4 :: "byte list \<Rightarrow> u32 \<Rightarrow> u32 \<Rightarrow> (u64 \<times> nat) cres" where
  "getVarint4 p a b = bindR (rd p 3) (\<lambda>x.
     let b = push_bit 14 b OR ucast x in
     if b AND 0x80 = 0
     then let b = b AND MASK2; a = push_bit 7 a OR b in Inr (ucast a, 4)
     else getVarint5 p a b)"

definition getVarint3 :: "byte list \<Rightarrow> u32 \<Rightarrow> u32 \<Rightarrow> (u64 \<times> nat) cres" where
  "getVarint3 p a b = bindR (rd p 2) (\<lambda>x.
     let a = push_bit 14 a OR ucast x in
     if a AND 0x80 = 0
     then let a = a AND MASK2; b = push_bit 7 (b AND 0x7f); a = a OR b in Inr (ucast a, 3)
     else let a = a AND MASK2 in getVarint4 p a b)"

definition sqlite3GetVarint :: "byte list \<Rightarrow> (u64 \<times> nat) cres" where
  "sqlite3GetVarint p = bindR (rd p 0) (\<lambda>x0.
     let a = ucast x0 :: u32 in
     if a AND 0x80 = 0 then Inr (ucast a, 1)
     else bindR (rd p 1) (\<lambda>x1.
     let b = ucast x1 :: u32 in
     if b AND 0x80 = 0 then Inr (ucast (push_bit 7 (a AND 0x7f) OR b), 2)
     else getVarint3 p a b))"

definition getVarint32at5 :: "byte list \<Rightarrow> u32 \<Rightarrow> u32 \<Rightarrow> (u32 \<times> nat) cres" where
  "getVarint32at5 p a b = bindR (rd p 4) (\<lambda>x.
     let a = push_bit 14 a OR ucast x in
     if a AND 0x80 = 0 then let a = a AND MASK3; b = push_bit 7 (b AND MASK3) in Inr (a OR b, 5)
     else bindR (sqlite3GetVarint p) (\<lambda>(v64, n). Inr (ucast v64, n)))"

definition getVarint32at4 :: "byte list \<Rightarrow> u32 \<Rightarrow> u32 \<Rightarrow> (u32 \<times> nat) cres" where
  "getVarint32at4 p a b = bindR (rd p 3) (\<lambda>x.
     let b = push_bit 14 b OR ucast x in
     if b AND 0x80 = 0 then let b = b AND MASK2; a = push_bit 7 (a AND MASK2) in Inr (a OR b, 4)
     else getVarint32at5 p a b)"

definition getVarint32at3 :: "byte list \<Rightarrow> u32 \<Rightarrow> u32 \<Rightarrow> (u32 \<times> nat) cres" where
  "getVarint32at3 p a b = bindR (rd p 2) (\<lambda>x.
     let a = push_bit 14 a OR ucast x in
     if a AND 0x80 = 0 then let a = a AND MASK2; b = push_bit 7 (b AND 0x7f) in Inr (a OR b, 3)
     else getVarint32at4 p a b)"

definition sqlite3GetVarint32 :: "byte list \<Rightarrow> (u32 \<times> nat) cres" where
  "sqlite3GetVarint32 p = bindR (rd p 0) (\<lambda>x0. bindR (rd p 1) (\<lambda>x1.
     let a = ucast x0 :: u32; b = ucast x1 :: u32 in
     if b AND 0x80 = 0 then Inr (push_bit 7 (a AND 0x7f) OR b, 2)
     else getVarint32at3 p a b))"

text \<open>getVarint32 of sqliteInt.h inlines the single-byte case.\<close>

definition getVarint32 :: "byte list \<Rightarrow> (u32 \<times> nat) cres" where
  "getVarint32 p = bindR (rd p 0) (\<lambda>x0. if x0 < 0x80 then Inr (ucast x0, 1) else sqlite3GetVarint32 p)"

text \<open>The loop of sqlite3VarintLen ends at nine at the latest.\<close>

function varintLenLoop :: "u64 \<Rightarrow> nat \<Rightarrow> nat" where
  "varintLenLoop v i =
     (let i = i + 1; v = drop_bit 7 v in if v \<noteq> 0 \<and> i < 9 then varintLenLoop v i else i)"
  by pat_completeness auto
termination by (relation "measure (\<lambda>(_, i). 9 - i)") auto

declare varintLenLoop.simps [simp del]

definition sqlite3VarintLen :: "u64 \<Rightarrow> nat" where
  "sqlite3VarintLen v = varintLenLoop v 0"

subsection \<open>Four bytes\<close>

definition sqlite3Get4byte :: "byte list \<Rightarrow> (u32 \<times> nat) cres" where
  "sqlite3Get4byte p = bindR (rd p 0) (\<lambda>a. bindR (rd p 1) (\<lambda>b. bindR (rd p 2) (\<lambda>c. bindR (rd p 3) (\<lambda>d.
     Inr (push_bit 24 (ucast a) OR push_bit 16 (ucast b) OR push_bit 8 (ucast c) OR ucast d, 4)))))"

definition sqlite3Put4byte :: "byte list \<Rightarrow> u32 \<Rightarrow> byte list cres" where
  "sqlite3Put4byte p v =
     bindR (wr p 0 (ucast (drop_bit 24 v))) (\<lambda>p. bindR (wr p 1 (ucast (drop_bit 16 v))) (\<lambda>p.
     bindR (wr p 2 (ucast (drop_bit 8 v))) (\<lambda>p. wr p 3 (ucast v))))"

subsection \<open>The reader equals the reference reader\<close>

fun refVarint :: "nat \<Rightarrow> u64 \<Rightarrow> byte list \<Rightarrow> (u64 \<times> nat) cres" where
  "refVarint k acc [] = Inl OutOfBounds"
| "refVarint k acc (x # p) =
     (if k = 8 then Inr (push_bit 8 acc OR ucast x, 9)
      else if bit x 7 then refVarint (k + 1) (push_bit 7 acc OR ucast (x AND 0x7f)) p
      else Inr (push_bit 7 acc OR ucast x, k + 1))"

lemma u32_and_80: "(a :: u32) AND 0x80 = 0 \<longleftrightarrow> \<not> bit a 7"
  using word_and_bit_ne_0 [of a 7] by auto

lemma bit_byte_out [simp]: "8 \<le> n \<Longrightarrow> \<not> bit (x :: byte) n"
  using bit_imp_le_length [of x n] by auto

text \<open>Two words are equal when they agree bit by bit.\<close>

lemma upt_64:
  "[0..<64] =
     [0, 1, 2, 3, 4, 5, 6, 7, 8, 9, 10, 11, 12, 13, 14, 15, 16, 17, 18, 19, 20, 21, 22, 23, 24, 25,
      26, 27, 28, 29, 30, 31, 32, 33, 34, 35, 36, 37, 38, 39, 40, 41, 42, 43, 44, 45, 46, 47, 48, 49,
      50, 51, 52, 53, 54, 55, 56, 57, 58, 59, 60, 61, 62, 63]"
  by (simp add: upt_rec)

lemma u64_eqI: "(\<And>n. n \<in> set [0..<64] \<Longrightarrow> bit x n = bit y n) \<Longrightarrow> x = (y :: u64)"
  by (rule bit_word_eqI) simp

lemma u32_eqI: "(\<And>n. n \<in> set [0..<64] \<Longrightarrow> bit x n = bit y n) \<Longrightarrow> x = (y :: u32)"
  by (rule bit_word_eqI) simp

lemma byte_eqI: "(\<And>n. n \<in> set [0..<64] \<Longrightarrow> bit x n = bit y n) \<Longrightarrow> x = (y :: byte)"
  by (rule bit_word_eqI) simp

lemma all_bits: "list_all P [0..<64] \<Longrightarrow> n \<in> set [0..<64] \<Longrightarrow> P n"
  by (simp add: list_all_iff)

lemmas masks = MASK2_def MASK3_def join_def

text \<open>One step of an accumulator, and of the reference value.\<close>

definition pair :: "u32 \<Rightarrow> byte \<Rightarrow> u32" where
  "pair a x = push_bit 14 a OR ucast x"

definition grp :: "u64 \<Rightarrow> byte \<Rightarrow> u64" where
  "grp acc x = push_bit 7 acc OR ucast (x AND 0x7f)"

lemma bit_pair [bit_simps]: "bit (pair a x) n \<longleftrightarrow> n < 32 \<and> (14 \<le> n \<and> bit a (n - 14) \<or> bit x n)"
  by (auto simp: pair_def bit_simps dest: bit_imp_le_length)

lemma bit_grp [bit_simps]:
  "bit (grp acc x) n \<longleftrightarrow> n < 64 \<and> (7 \<le> n \<and> bit acc (n - 7) \<or> n < 7 \<and> bit x n)"
proof -
  have m: "(0x7f :: byte) = mask 7" by (simp add: mask_eq_exp_minus_1)
  show ?thesis unfolding grp_def m bit_or_iff bit_push_bit_iff unsigned_and_eq bit_and_iff bit_unsigned_iff bit_mask_iff
    by (auto dest: bit_imp_le_length)
qed

lemma bit_MASK [bit_simps]:
  "bit MASK2 n \<longleftrightarrow> n < 7 \<or> 14 \<le> n \<and> n < 21"
  "bit MASK3 n \<longleftrightarrow> n < 7 \<or> 14 \<le> n \<and> n < 21 \<or> 28 \<le> n \<and> n < 32"
proof -
  have m: "(0x7f :: u32) = mask 7" by (simp add: mask_eq_exp_minus_1)
  show "bit MASK2 n \<longleftrightarrow> n < 7 \<or> 14 \<le> n \<and> n < 21"
    "bit MASK3 n \<longleftrightarrow> n < 7 \<or> 14 \<le> n \<and> n < 21 \<or> 28 \<le> n \<and> n < 32"
    unfolding MASK2_def MASK3_def m bit_or_iff bit_push_bit_iff bit_mask_iff by auto
qed

lemma bit_join [bit_simps]: "bit (join s a) n \<longleftrightarrow> n < 64 \<and> (32 \<le> n \<and> bit s (n - 32) \<or> bit a n)"
  by (auto simp: join_def bit_simps dest: bit_imp_le_length)

lemma refVarint_last: "k < 8 \<Longrightarrow> \<not> bit x 7 \<Longrightarrow> refVarint k acc (x # q) = Inr (grp acc x, k + 1)"
proof -
  assume "k < 8" "\<not> bit x 7"
  moreover from \<open>\<not> bit x 7\<close> have "x AND 0x7f = x" by (intro byte_eqI, elim all_bits [rotated]) (simp add: upt_64 bit_simps)
  ultimately show ?thesis by (simp add: grp_def)
qed

lemma refVarint_more: "k < 8 \<Longrightarrow> bit x 7 \<Longrightarrow> refVarint k acc (x # q) = refVarint (k + 1) (grp acc x) q"
  by (simp add: grp_def)

declare refVarint.simps [simp del]

lemma pair_flag: "pair a x AND 0x80 = 0 \<longleftrightarrow> \<not> bit x 7"
  by (simp add: u32_and_80 bit_pair)

lemma get9_ref:
  "getVarint9 (x0 # x1 # x2 # x3 # x4 # x5 # x6 # x7 # q) ((pair (pair (pair (ucast x0) x2 AND MASK2) x4) x6) AND MASK2) (pair (pair ((pair (ucast x1) x3) AND MASK2) x5) x7) (push_bit 7 (pair (ucast x0) x2 AND MASK2) OR ((pair (ucast x1) x3) AND MASK2)) x4 =
    refVarint 8 (grp (grp (grp (grp (grp (grp (grp (grp 0 x0) x1) x2) x3) x4) x5) x6) x7) q"
proof (cases q)
  case (Cons x8 r)
  have "join (push_bit 4 (push_bit 7 (pair (ucast x0) x2 AND MASK2) OR ((pair (ucast x1) x3) AND MASK2)) OR drop_bit 3 (ucast x4 AND 0x7f))
      ((push_bit 15 ((pair (pair (pair (ucast x0) x2 AND MASK2) x4) x6) AND MASK2) OR ucast x8) OR push_bit 8 ((pair (pair ((pair (ucast x1) x3) AND MASK2) x5) x7) AND MASK2)) =
    push_bit 8 (grp (grp (grp (grp (grp (grp (grp (grp 0 x0) x1) x2) x3) x4) x5) x6) x7) OR ucast x8"
    by (rule u64_eqI, erule all_bits [rotated]) (simp add: upt_64 bit_simps)
  moreover have "rd (x0 # x1 # x2 # x3 # x4 # x5 # x6 # x7 # x8 # r) 8 = Inr x8" by simp
  ultimately show ?thesis unfolding Cons getVarint9_def by (simp only: bindR_simps Let_def refVarint.simps simp_thms if_True)
qed (simp add: getVarint9_def rd_def refVarint.simps)

lemma get8_ref:
  "getVarint8 (x0 # x1 # x2 # x3 # x4 # x5 # x6 # q) (pair (pair (pair (ucast x0) x2 AND MASK2) x4) x6) (pair ((pair (ucast x1) x3) AND MASK2) x5) (push_bit 7 (pair (ucast x0) x2 AND MASK2) OR ((pair (ucast x1) x3) AND MASK2)) x4 =
    refVarint 7 (grp (grp (grp (grp (grp (grp (grp 0 x0) x1) x2) x3) x4) x5) x6) q"
proof (cases q)
  case (Cons x7 r)
  have rd: "rd (x0 # x1 # x2 # x3 # x4 # x5 # x6 # x7 # r) 7 = Inr x7" by simp
  show ?thesis
  proof (cases "bit x7 7")
    case True
    have "refVarint 7 (grp (grp (grp (grp (grp (grp (grp 0 x0) x1) x2) x3) x4) x5) x6) (x7 # r) = refVarint 8 (grp (grp (grp (grp (grp (grp (grp (grp 0 x0) x1) x2) x3) x4) x5) x6) x7) r"
      using refVarint_more [of 7 x7 "(grp (grp (grp (grp (grp (grp (grp 0 x0) x1) x2) x3) x4) x5) x6)" r] True by simp
    with True get9_ref [of x0 x1 x2 x3 x4 x5 x6 x7 r] show ?thesis
      unfolding Cons getVarint8_def rd bindR_simps Let_def pair_def [symmetric] pair_flag by (simp only: not_True_eq_False if_False)
  next
    case False
    have "refVarint 7 (grp (grp (grp (grp (grp (grp (grp 0 x0) x1) x2) x3) x4) x5) x6) (x7 # r) = Inr ((grp (grp (grp (grp (grp (grp (grp (grp 0 x0) x1) x2) x3) x4) x5) x6) x7), 8)"
      using refVarint_last [of 7 x7 "(grp (grp (grp (grp (grp (grp (grp 0 x0) x1) x2) x3) x4) x5) x6)" r] False by simp
    moreover from False have "join (drop_bit 4 (push_bit 7 (pair (ucast x0) x2 AND MASK2) OR ((pair (ucast x1) x3) AND MASK2))) (push_bit 7 ((pair (pair (pair (ucast x0) x2 AND MASK2) x4) x6) AND MASK2) OR ((pair (pair ((pair (ucast x1) x3) AND MASK2) x5) x7) AND MASK3)) = (grp (grp (grp (grp (grp (grp (grp (grp 0 x0) x1) x2) x3) x4) x5) x6) x7)"
      by (intro u64_eqI, elim all_bits [rotated]) (simp add: upt_64 bit_simps)
    ultimately show ?thesis using False
      unfolding Cons getVarint8_def rd bindR_simps Let_def pair_def [symmetric] pair_flag by (simp only: not_False_eq_True if_True)
  qed
qed (simp add: getVarint8_def rd_def refVarint.simps)

lemma get7_ref:
  "getVarint7 (x0 # x1 # x2 # x3 # x4 # x5 # q) (pair (pair (ucast x0) x2 AND MASK2) x4) (pair ((pair (ucast x1) x3) AND MASK2) x5) (push_bit 7 (pair (ucast x0) x2 AND MASK2) OR ((pair (ucast x1) x3) AND MASK2)) x4 =
    refVarint 6 (grp (grp (grp (grp (grp (grp 0 x0) x1) x2) x3) x4) x5) q"
proof (cases q)
  case (Cons x6 r)
  have rd: "rd (x0 # x1 # x2 # x3 # x4 # x5 # x6 # r) 6 = Inr x6" by simp
  show ?thesis
  proof (cases "bit x6 7")
    case True
    have "refVarint 6 (grp (grp (grp (grp (grp (grp 0 x0) x1) x2) x3) x4) x5) (x6 # r) = refVarint 7 (grp (grp (grp (grp (grp (grp (grp 0 x0) x1) x2) x3) x4) x5) x6) r"
      using refVarint_more [of 6 x6 "(grp (grp (grp (grp (grp (grp 0 x0) x1) x2) x3) x4) x5)" r] True by simp
    with True get8_ref [of x0 x1 x2 x3 x4 x5 x6 r] show ?thesis
      unfolding Cons getVarint7_def rd bindR_simps Let_def pair_def [symmetric] pair_flag by (simp only: not_True_eq_False if_False)
  next
    case False
    have "refVarint 6 (grp (grp (grp (grp (grp (grp 0 x0) x1) x2) x3) x4) x5) (x6 # r) = Inr ((grp (grp (grp (grp (grp (grp (grp 0 x0) x1) x2) x3) x4) x5) x6), 7)"
      using refVarint_last [of 6 x6 "(grp (grp (grp (grp (grp (grp 0 x0) x1) x2) x3) x4) x5)" r] False by simp
    moreover from False have "join (drop_bit 11 (push_bit 7 (pair (ucast x0) x2 AND MASK2) OR ((pair (ucast x1) x3) AND MASK2))) (((pair (pair (pair (ucast x0) x2 AND MASK2) x4) x6) AND MASK3) OR push_bit 7 ((pair ((pair (ucast x1) x3) AND MASK2) x5) AND MASK2)) = (grp (grp (grp (grp (grp (grp (grp 0 x0) x1) x2) x3) x4) x5) x6)"
      by (intro u64_eqI, elim all_bits [rotated]) (simp add: upt_64 bit_simps)
    ultimately show ?thesis using False
      unfolding Cons getVarint7_def rd bindR_simps Let_def pair_def [symmetric] pair_flag by (simp only: not_False_eq_True if_True)
  qed
qed (simp add: getVarint7_def rd_def refVarint.simps)

lemma get6_ref:
  "getVarint6 (x0 # x1 # x2 # x3 # x4 # q) (pair (pair (ucast x0) x2 AND MASK2) x4) ((pair (ucast x1) x3) AND MASK2) (pair (ucast x0) x2 AND MASK2) x4 =
    refVarint 5 (grp (grp (grp (grp (grp 0 x0) x1) x2) x3) x4) q"
proof (cases q)
  case (Cons x5 r)
  have rd: "rd (x0 # x1 # x2 # x3 # x4 # x5 # r) 5 = Inr x5" by simp
  show ?thesis
  proof (cases "bit x5 7")
    case True
    have "refVarint 5 (grp (grp (grp (grp (grp 0 x0) x1) x2) x3) x4) (x5 # r) = refVarint 6 (grp (grp (grp (grp (grp (grp 0 x0) x1) x2) x3) x4) x5) r"
      using refVarint_more [of 5 x5 "(grp (grp (grp (grp (grp 0 x0) x1) x2) x3) x4)" r] True by simp
    with True get7_ref [of x0 x1 x2 x3 x4 x5 r] show ?thesis
      unfolding Cons getVarint6_def rd bindR_simps Let_def pair_def [symmetric] pair_flag by (simp only: not_True_eq_False if_False)
  next
    case False
    have "refVarint 5 (grp (grp (grp (grp (grp 0 x0) x1) x2) x3) x4) (x5 # r) = Inr ((grp (grp (grp (grp (grp (grp 0 x0) x1) x2) x3) x4) x5), 6)"
      using refVarint_last [of 5 x5 "(grp (grp (grp (grp (grp 0 x0) x1) x2) x3) x4)" r] False by simp
    moreover from False have "join (drop_bit 18 (push_bit 7 (pair (ucast x0) x2 AND MASK2) OR ((pair (ucast x1) x3) AND MASK2))) (push_bit 7 ((pair (pair (ucast x0) x2 AND MASK2) x4) AND MASK2) OR (pair ((pair (ucast x1) x3) AND MASK2) x5)) = (grp (grp (grp (grp (grp (grp 0 x0) x1) x2) x3) x4) x5)"
      by (intro u64_eqI, elim all_bits [rotated]) (simp add: upt_64 bit_simps)
    ultimately show ?thesis using False
      unfolding Cons getVarint6_def rd bindR_simps Let_def pair_def [symmetric] pair_flag by (simp only: not_False_eq_True if_True)
  qed
qed (simp add: getVarint6_def rd_def refVarint.simps)

lemma get5_ref:
  "getVarint5 (x0 # x1 # x2 # x3 # q) (pair (ucast x0) x2 AND MASK2) (pair (ucast x1) x3) =
    refVarint 4 (grp (grp (grp (grp 0 x0) x1) x2) x3) q"
proof (cases q)
  case (Cons x4 r)
  have rd: "rd (x0 # x1 # x2 # x3 # x4 # r) 4 = Inr x4" by simp
  show ?thesis
  proof (cases "bit x4 7")
    case True
    have "refVarint 4 (grp (grp (grp (grp 0 x0) x1) x2) x3) (x4 # r) = refVarint 5 (grp (grp (grp (grp (grp 0 x0) x1) x2) x3) x4) r"
      using refVarint_more [of 4 x4 "(grp (grp (grp (grp 0 x0) x1) x2) x3)" r] True by simp
    with True get6_ref [of x0 x1 x2 x3 x4 r] show ?thesis
      unfolding Cons getVarint5_def rd bindR_simps Let_def pair_def [symmetric] pair_flag by (simp only: not_True_eq_False if_False)
  next
    case False
    have "refVarint 4 (grp (grp (grp (grp 0 x0) x1) x2) x3) (x4 # r) = Inr ((grp (grp (grp (grp (grp 0 x0) x1) x2) x3) x4), 5)"
      using refVarint_last [of 4 x4 "(grp (grp (grp (grp 0 x0) x1) x2) x3)" r] False by simp
    moreover from False have "join (drop_bit 18 (pair (ucast x0) x2 AND MASK2)) ((pair (pair (ucast x0) x2 AND MASK2) x4) OR push_bit 7 ((pair (ucast x1) x3) AND MASK2)) = (grp (grp (grp (grp (grp 0 x0) x1) x2) x3) x4)"
      by (intro u64_eqI, elim all_bits [rotated]) (simp add: upt_64 bit_simps)
    ultimately show ?thesis using False
      unfolding Cons getVarint5_def rd bindR_simps Let_def pair_def [symmetric] pair_flag by (simp only: not_False_eq_True if_True)
  qed
qed (simp add: getVarint5_def rd_def refVarint.simps)

lemma get4_ref:
  "getVarint4 (x0 # x1 # x2 # q) (pair (ucast x0) x2 AND MASK2) (ucast x1) =
    refVarint 3 (grp (grp (grp 0 x0) x1) x2) q"
proof (cases q)
  case (Cons x3 r)
  have rd: "rd (x0 # x1 # x2 # x3 # r) 3 = Inr x3" by simp
  show ?thesis
  proof (cases "bit x3 7")
    case True
    have "refVarint 3 (grp (grp (grp 0 x0) x1) x2) (x3 # r) = refVarint 4 (grp (grp (grp (grp 0 x0) x1) x2) x3) r"
      using refVarint_more [of 3 x3 "(grp (grp (grp 0 x0) x1) x2)" r] True by simp
    with True get5_ref [of x0 x1 x2 x3 r] show ?thesis
      unfolding Cons getVarint4_def rd bindR_simps Let_def pair_def [symmetric] pair_flag by (simp only: not_True_eq_False if_False)
  next
    case False
    have "refVarint 3 (grp (grp (grp 0 x0) x1) x2) (x3 # r) = Inr ((grp (grp (grp (grp 0 x0) x1) x2) x3), 4)"
      using refVarint_last [of 3 x3 "(grp (grp (grp 0 x0) x1) x2)" r] False by simp
    moreover from False have "ucast (push_bit 7 (pair (ucast x0) x2 AND MASK2) OR ((pair (ucast x1) x3) AND MASK2)) = (grp (grp (grp (grp 0 x0) x1) x2) x3)"
      by (intro u64_eqI, elim all_bits [rotated]) (simp add: upt_64 bit_simps)
    ultimately show ?thesis using False
      unfolding Cons getVarint4_def rd bindR_simps Let_def pair_def [symmetric] pair_flag by (simp only: not_False_eq_True if_True)
  qed
qed (simp add: getVarint4_def rd_def refVarint.simps)

lemma get3_ref:
  "getVarint3 (x0 # x1 # q) (ucast x0) (ucast x1) =
    refVarint 2 (grp (grp 0 x0) x1) q"
proof (cases q)
  case (Cons x2 r)
  have rd: "rd (x0 # x1 # x2 # r) 2 = Inr x2" by simp
  show ?thesis
  proof (cases "bit x2 7")
    case True
    have "refVarint 2 (grp (grp 0 x0) x1) (x2 # r) = refVarint 3 (grp (grp (grp 0 x0) x1) x2) r"
      using refVarint_more [of 2 x2 "(grp (grp 0 x0) x1)" r] True by simp
    with True get4_ref [of x0 x1 x2 r] show ?thesis
      unfolding Cons getVarint3_def rd bindR_simps Let_def pair_def [symmetric] pair_flag by (simp only: not_True_eq_False if_False)
  next
    case False
    have "refVarint 2 (grp (grp 0 x0) x1) (x2 # r) = Inr ((grp (grp (grp 0 x0) x1) x2), 3)"
      using refVarint_last [of 2 x2 "(grp (grp 0 x0) x1)" r] False by simp
    moreover from False have "ucast ((pair (ucast x0) x2 AND MASK2) OR push_bit 7 (ucast x1 AND 0x7f)) = (grp (grp (grp 0 x0) x1) x2)"
      by (intro u64_eqI, elim all_bits [rotated]) (simp add: upt_64 bit_simps)
    ultimately show ?thesis using False
      unfolding Cons getVarint3_def rd bindR_simps Let_def pair_def [symmetric] pair_flag by (simp only: not_False_eq_True if_True)
  qed
qed (simp add: getVarint3_def rd_def refVarint.simps)

lemma ucast_byte_u32_u64: "(ucast (ucast x :: u32) :: u64) = ucast x" for x :: byte
  by (rule u64_eqI, erule all_bits [rotated]) (simp add: upt_64 bit_simps)

lemma byte_flag: "(ucast x :: u32) AND 0x80 = 0 \<longleftrightarrow> \<not> bit x 7" for x :: byte
  by (simp add: u32_and_80 bit_simps)

lemma GetVarint_ref: "sqlite3GetVarint p = refVarint 0 0 p"
proof (cases p)
  case Nil
  then show ?thesis by (simp add: sqlite3GetVarint_def rd_def refVarint.simps)
next
  case (Cons x0 q)
  note p0 = Cons
  show ?thesis
  proof (cases "bit x0 7")
    case False
    have "grp 0 x0 = ucast x0"
      using False by (intro u64_eqI, elim all_bits [rotated]) (simp add: upt_64 bit_simps)
    with False p0 refVarint_last [of 0 x0 0 q] show ?thesis
      by (simp add: sqlite3GetVarint_def Let_def byte_flag ucast_byte_u32_u64)
  next
    case True
    note b0 = True refVarint_more [of 0 x0 0 q, OF _ True, simplified]
    show ?thesis
    proof (cases q)
      case Nil
      with p0 b0 show ?thesis by (simp add: sqlite3GetVarint_def rd_def refVarint.simps byte_flag)
    next
      case (Cons x1 r)
      note p1 = Cons
      show ?thesis
      proof (cases "bit x1 7")
        case False
        have "ucast (push_bit 7 ((ucast x0 :: u32) AND 0x7f) OR ucast x1) = grp (grp 0 x0) x1"
          using False by (intro u64_eqI, elim all_bits [rotated]) (simp add: upt_64 bit_simps)
        with False p0 p1 b0 refVarint_last [of 1 x1 "grp 0 x0" r] show ?thesis
          by (simp only: sqlite3GetVarint_def) (simp add: Let_def byte_flag)
      next
        case True
        show ?thesis
          using get3_ref [of x0 x1 r] True b0 p0 p1 refVarint_more [of 1 x1 "grp 0 x0" r, OF _ True]
          by (simp add: sqlite3GetVarint_def Let_def byte_flag numeral_2_eq_2)
      qed
    qed
  qed
qed

text \<open>The 32-bit reader returns the low half of what the 64-bit reader returns.\<close>

definition low32 :: "(u64 \<times> nat) cres \<Rightarrow> (u32 \<times> nat) cres" where
  "low32 r = bindR r (\<lambda>(v, n). Inr (ucast v, n))"

lemma low32_simps [simp]: "low32 (Inr (v, n)) = Inr (ucast v, n)" "low32 (Inl e) = Inl e"
  by (simp_all add: low32_def)

lemma GetVarint_flagged: "list_all (\<lambda>x. bit x 7) xs \<Longrightarrow> length xs \<le> 8 \<Longrightarrow>
    sqlite3GetVarint (xs @ q) = refVarint (length xs) (foldl grp 0 xs) q"
proof (induction xs arbitrary: q rule: rev_induct)
  case Nil
  then show ?case by (simp add: GetVarint_ref)
next
  case (snoc x xs)
  then have "sqlite3GetVarint (xs @ x # q) = refVarint (length xs) (foldl grp 0 xs) (x # q)" by simp
  with snoc.prems refVarint_more [of "length xs" x "foldl grp 0 xs" q] show ?case by simp
qed

lemma GetVarint_flagged5:
  assumes "bit x0 7" "bit x1 7" "bit x2 7" "bit x3 7" "bit x4 7"
  shows "sqlite3GetVarint (x0 # x1 # x2 # x3 # x4 # r) = refVarint 5 (grp (grp (grp (grp (grp 0 x0) x1) x2) x3) x4) r"
  using GetVarint_flagged [of "[x0, x1, x2, x3, x4]" r] assms by (simp add: eval_nat_numeral)

lemma get32at5_ref:
  assumes "bit x0 7" "bit x1 7" "bit x2 7" "bit x3 7"
  shows "getVarint32at5 (x0 # x1 # x2 # x3 # q) (pair (ucast x0) x2) (pair (ucast x1) x3) = low32 (refVarint 4 (grp (grp (grp (grp 0 x0) x1) x2) x3) q)"
proof (cases q)
  case (Cons x4 r)
  have rd: "rd (x0 # x1 # x2 # x3 # x4 # r) 4 = Inr x4" by simp
  show ?thesis
  proof (cases "bit x4 7")
    case True
    have eq: "refVarint 4 (grp (grp (grp (grp 0 x0) x1) x2) x3) (x4 # r) = refVarint 5 (grp (grp (grp (grp (grp 0 x0) x1) x2) x3) x4) r"
      using refVarint_more [of 4 x4 "(grp (grp (grp (grp 0 x0) x1) x2) x3)" r] True by simp
    show ?thesis
      using True GetVarint_flagged5 [OF assms True, of r] unfolding Cons eq getVarint32at5_def rd bindR_simps Let_def pair_def [symmetric] pair_flag low32_def [symmetric]
      by (simp only: assms simp_thms if_False)
  next
    case False
    have "refVarint 4 (grp (grp (grp (grp 0 x0) x1) x2) x3) (x4 # r) = Inr ((grp (grp (grp (grp (grp 0 x0) x1) x2) x3) x4), 5)"
      using refVarint_last [of 4 x4 "(grp (grp (grp (grp 0 x0) x1) x2) x3)" r] False by simp
    moreover from False have "((pair (pair (ucast x0) x2) x4) AND MASK3) OR push_bit 7 ((pair (ucast x1) x3) AND MASK3) = ucast (grp (grp (grp (grp (grp 0 x0) x1) x2) x3) x4)"
      by (intro u32_eqI, elim all_bits [rotated]) (simp add: upt_64 bit_simps)
    ultimately show ?thesis using False
      unfolding Cons getVarint32at5_def rd bindR_simps Let_def pair_def [symmetric] pair_flag
      by (simp only: not_False_eq_True if_True low32_simps)
  qed
qed (simp add: getVarint32at5_def rd_def refVarint.simps)

lemma get32at4_ref:
  assumes "bit x0 7" "bit x1 7" "bit x2 7"
  shows "getVarint32at4 (x0 # x1 # x2 # q) (pair (ucast x0) x2) (ucast x1) = low32 (refVarint 3 (grp (grp (grp 0 x0) x1) x2) q)"
proof (cases q)
  case (Cons x3 r)
  have rd: "rd (x0 # x1 # x2 # x3 # r) 3 = Inr x3" by simp
  show ?thesis
  proof (cases "bit x3 7")
    case True
    have eq: "refVarint 3 (grp (grp (grp 0 x0) x1) x2) (x3 # r) = refVarint 4 (grp (grp (grp (grp 0 x0) x1) x2) x3) r"
      using refVarint_more [of 3 x3 "(grp (grp (grp 0 x0) x1) x2)" r] True by simp
    show ?thesis
      using True get32at5_ref [OF assms True, of r] unfolding Cons eq getVarint32at4_def rd bindR_simps Let_def pair_def [symmetric] pair_flag low32_def [symmetric]
      by (simp only: assms simp_thms if_False)
  next
    case False
    have "refVarint 3 (grp (grp (grp 0 x0) x1) x2) (x3 # r) = Inr ((grp (grp (grp (grp 0 x0) x1) x2) x3), 4)"
      using refVarint_last [of 3 x3 "(grp (grp (grp 0 x0) x1) x2)" r] False by simp
    moreover from False have "push_bit 7 ((pair (ucast x0) x2) AND MASK2) OR ((pair (ucast x1) x3) AND MASK2) = ucast (grp (grp (grp (grp 0 x0) x1) x2) x3)"
      by (intro u32_eqI, elim all_bits [rotated]) (simp add: upt_64 bit_simps)
    ultimately show ?thesis using False
      unfolding Cons getVarint32at4_def rd bindR_simps Let_def pair_def [symmetric] pair_flag
      by (simp only: not_False_eq_True if_True low32_simps)
  qed
qed (simp add: getVarint32at4_def rd_def refVarint.simps)

lemma get32at3_ref:
  assumes "bit x0 7" "bit x1 7"
  shows "getVarint32at3 (x0 # x1 # q) (ucast x0) (ucast x1) = low32 (refVarint 2 (grp (grp 0 x0) x1) q)"
proof (cases q)
  case (Cons x2 r)
  have rd: "rd (x0 # x1 # x2 # r) 2 = Inr x2" by simp
  show ?thesis
  proof (cases "bit x2 7")
    case True
    have eq: "refVarint 2 (grp (grp 0 x0) x1) (x2 # r) = refVarint 3 (grp (grp (grp 0 x0) x1) x2) r"
      using refVarint_more [of 2 x2 "(grp (grp 0 x0) x1)" r] True by simp
    show ?thesis
      using True get32at4_ref [OF assms True, of r] unfolding Cons eq getVarint32at3_def rd bindR_simps Let_def pair_def [symmetric] pair_flag low32_def [symmetric]
      by (simp only: assms simp_thms if_False)
  next
    case False
    have "refVarint 2 (grp (grp 0 x0) x1) (x2 # r) = Inr ((grp (grp (grp 0 x0) x1) x2), 3)"
      using refVarint_last [of 2 x2 "(grp (grp 0 x0) x1)" r] False by simp
    moreover from False have "((pair (ucast x0) x2) AND MASK2) OR push_bit 7 (ucast x1 AND 0x7f) = ucast (grp (grp (grp 0 x0) x1) x2)"
      by (intro u32_eqI, elim all_bits [rotated]) (simp add: upt_64 bit_simps)
    ultimately show ?thesis using False
      unfolding Cons getVarint32at3_def rd bindR_simps Let_def pair_def [symmetric] pair_flag
      by (simp only: not_False_eq_True if_True low32_simps)
  qed
qed (simp add: getVarint32at3_def rd_def refVarint.simps)

lemma byte_below_80: "x < 0x80 \<longleftrightarrow> \<not> bit x 7" for x :: byte
proof -
  have "\<forall>n \<in> set [0..<256]. ((of_nat n :: byte) < 0x80) = (\<not> bit (of_nat n :: byte) 7)" by code_simp
  moreover have "unat x \<in> set [0..<256]" by simp
  ultimately have "((of_nat (unat x) :: byte) < 0x80) = (\<not> bit (of_nat (unat x) :: byte) 7)" by blast
  then show ?thesis by simp
qed

lemma getVarint32_low: "getVarint32 p = low32 (sqlite3GetVarint p)"
proof (cases p)
  case Nil
  then show ?thesis by (simp add: getVarint32_def sqlite3GetVarint_def rd_def)
next
  case (Cons x0 q)
  have flag: "x0 < 0x80 \<longleftrightarrow> \<not> bit x0 7" by (rule byte_below_80)
  show ?thesis
  proof (cases "bit x0 7")
    case False
    have e: "(ucast (ucast x0 :: u64) :: u32) = ucast x0"
      by (rule u32_eqI, erule all_bits [rotated]) (simp add: upt_64 bit_simps)
    have "low32 (Inr (ucast (ucast x0 :: u32), 1)) = Inr (ucast x0, 1)"
      by (simp only: low32_simps ucast_byte_u32_u64 e)
    with False Cons flag show ?thesis
      by (simp add: getVarint32_def sqlite3GetVarint_def Let_def byte_flag del: low32_simps)
  next
    case True
    note b0 = True
    show ?thesis
    proof (cases q)
      case Nil
      with Cons True flag show ?thesis
        by (simp add: getVarint32_def sqlite3GetVarint32_def sqlite3GetVarint_def rd_def byte_flag)
    next
      case Cons2: (Cons x1 r)
      show ?thesis
      proof (cases "bit x1 7")
        case False
        have "push_bit 7 ((ucast x0 :: u32) AND 0x7f) OR ucast x1 =
            ucast (ucast (push_bit 7 ((ucast x0 :: u32) AND 0x7f) OR ucast x1) :: u64)"
          by (rule u32_eqI, erule all_bits [rotated]) (simp add: upt_64 bit_simps)
        with False True Cons Cons2 flag show ?thesis
          by (simp only: getVarint32_def sqlite3GetVarint32_def sqlite3GetVarint_def Let_def byte_flag)
            (simp add: rd_def)
      next
        case True
        with b0 Cons Cons2 flag get32at3_ref [OF b0 True, of r] get3_ref [of x0 x1 r] show ?thesis
          by (simp add: getVarint32_def sqlite3GetVarint32_def sqlite3GetVarint_def Let_def byte_flag)
      qed
    qed
  qed
qed

subsection \<open>The writer\<close>

fun groups :: "nat \<Rightarrow> u64 \<Rightarrow> byte list" where
  "groups 0 v = []"
| "groups (Suc k) v = groups k (drop_bit 7 v) @ [ucast ((v AND 0x7f) OR 0x80)]"

lemma length_groups [simp]: "length (groups k v) = k"
  by (induction k arbitrary: v) auto

lemma group_flag: "bit (ucast ((v AND 0x7f) OR 0x80) :: byte) 7" for v :: u64
  by (simp add: bit_simps)

lemma groups_flagged: "list_all (\<lambda>x. bit x 7) (groups k v)"
  by (induction k arbitrary: v) (simp_all add: group_flag)

lemma bit_7f: "bit (0x7f :: int) n \<longleftrightarrow> n < 7"
proof -
  have "(0x7f :: int) = mask 7" by (simp add: mask_eq_exp_minus_1)
  then show ?thesis by (simp only: bit_mask_iff) simp
qed

lemma bit_80: "bit (0x80 :: int) n \<longleftrightarrow> n = 7"
proof -
  have "(0x80 :: int) = 2 ^ 7" by simp
  then show ?thesis by (simp only: bit_exp_iff) simp
qed

lemma grp_low: "grp acc (ucast ((v AND 0x7f) OR 0x80)) = push_bit 7 acc OR (v AND 0x7f)"
  "grp acc (ucast (v AND 0x7f)) = push_bit 7 acc OR (v AND 0x7f)" for v :: u64
  by (auto intro!: bit_word_eqI simp: bit_grp bit_or_iff bit_push_bit_iff bit_and_iff bit_unsigned_iff bit_7f bit_80)

lemma foldl_groups: "foldl grp 0 (groups k v) = take_bit (7 * k) v"
proof (induction k arbitrary: v)
  case 0
  then show ?case by simp
next
  case (Suc k)
  have "push_bit 7 (take_bit (7 * k) (drop_bit 7 v)) OR (v AND 0x7f) = take_bit (7 * Suc k) v"
    by (rule bit_word_eqI)
      (auto simp: bit_or_iff bit_push_bit_iff bit_and_iff bit_take_bit_iff bit_drop_bit_eq bit_7f)
  with Suc show ?case by (simp add: grp_low)
qed

lemma varintBuf_groups: "rev (varintBuf v) = groups (length (varintBuf v)) v"
proof (induction v rule: varintBuf.induct)
  case (1 v)
  show ?case
  proof (cases "drop_bit 7 v = 0")
    case True
    then show ?thesis by (simp add: varintBuf.simps [of v])
  next
    case False
    with 1 show ?thesis by (simp add: varintBuf.simps [of v])
  qed
qed

lemma varintBuf_covers: "drop_bit (7 * length (varintBuf v)) v = 0"
proof (induction v rule: varintBuf.induct)
  case (1 v)
  show ?case
  proof (cases "drop_bit 7 v = 0")
    case True
    then show ?thesis by (simp add: varintBuf.simps [of v])
  next
    case False
    with 1 show ?thesis by (simp add: varintBuf.simps [of v] drop_bit_drop_bit add.commute)
  qed
qed

lemma varintBuf_minimal: "length (varintBuf v) = Suc k \<Longrightarrow> k = 0 \<or> drop_bit (7 * k) v \<noteq> 0"
proof (induction v arbitrary: k rule: varintBuf.induct)
  case (1 v)
  show ?case
  proof (cases "drop_bit 7 v = 0")
    case True
    with 1(2) show ?thesis by (simp add: varintBuf.simps [of v])
  next
    case False
    with 1(2) have k: "length (varintBuf (drop_bit 7 v)) = k" by (simp add: varintBuf.simps [of v])
    then obtain j where j: "k = Suc j" by (cases k) (auto simp: varintBuf.simps [of "drop_bit 7 v"])
    from 1(1) [OF False, of j] k j False show ?thesis by (auto simp: drop_bit_drop_bit add.commute)
  qed
qed

definition varintBytes :: "u64 \<Rightarrow> byte list" where
  "varintBytes v = (if drop_bit 56 v \<noteq> 0 then groups 8 (drop_bit 8 v) @ [ucast v]
     else groups (length (varintBuf v) - 1) (drop_bit 7 v) @ [ucast (v AND 0x7f)])"

lemma varintBuf_length_le: "drop_bit 56 v = 0 \<Longrightarrow> length (varintBuf v) \<le> 8"
proof (rule ccontr)
  assume v: "drop_bit 56 v = 0" "\<not> length (varintBuf v) \<le> 8"
  then obtain k where k: "length (varintBuf v) = Suc (k + 8)" by (metis add.commute add_Suc_right less_imp_Suc_add not_le)
  from varintBuf_minimal [OF this] have "drop_bit (7 * (k + 8)) v \<noteq> 0" by simp
  moreover have "drop_bit (7 * (k + 8)) v = drop_bit (7 * k) (drop_bit 56 v)" by (simp add: drop_bit_drop_bit)
  ultimately show False using v(1) by simp
qed

lemma varintBuf_pos: "0 < length (varintBuf v)"
  by (simp add: varintBuf.simps [of v])

lemma decode_varintBytes: "sqlite3GetVarint (varintBytes v @ t) = Inr (v, length (varintBytes v))"
proof (cases "drop_bit 56 v = 0")
  case False
  have "push_bit 8 (take_bit 56 (drop_bit 8 v)) OR ucast (ucast v :: byte) = v"
    by (rule bit_word_eqI)
      (auto simp: bit_or_iff bit_push_bit_iff bit_take_bit_iff bit_drop_bit_eq bit_unsigned_iff)
  with False GetVarint_flagged [OF groups_flagged, of 8 "drop_bit 8 v" "ucast v # t"] show ?thesis
    by (simp add: varintBytes_def foldl_groups refVarint.simps)
next
  case True
  obtain k where k: "length (varintBuf v) = Suc k" using varintBuf_pos [of v] by (cases "length (varintBuf v)") auto
  then have k8: "k < 8" using varintBuf_length_le [OF True] by simp
  have "drop_bit (7 * Suc k) v = 0" using varintBuf_covers [of v] k by simp
  then have c: "take_bit (7 * Suc k) v = v" using bits_ident [of "7 * Suc k" v] by simp
  have "grp (take_bit (7 * k) (drop_bit 7 v)) (ucast (v AND 0x7f)) = v"
    using foldl_groups [of "Suc k" v] c by (simp add: foldl_groups grp_low)
  moreover have "\<not> bit (ucast (v AND 0x7f) :: byte) 7" by (simp add: bit_simps)
  ultimately show ?thesis
    using True k k8 GetVarint_flagged [OF groups_flagged, of k "drop_bit 7 v" "ucast (v AND 0x7f) # t"]
      refVarint_last [of k "ucast (v AND 0x7f)" "take_bit (7 * k) (drop_bit 7 v)" t]
    by (simp add: varintBytes_def foldl_groups)
qed

interpretation varint: codec "\<lambda>_. True" varintBytes sqlite3GetVarint
  by unfold_locales (rule decode_varintBytes)

lemma putBytes_ok: "i + length cs \<le> length p \<Longrightarrow> putBytes p i cs = Inr (take i p @ cs @ drop (i + length cs) p)"
proof (induction cs arbitrary: p i)
  case Nil
  then show ?case by simp
next
  case (Cons c cs)
  then have i: "i < length p" by simp
  with Cons.IH [of "i + 1" "p[i := c]"] Cons.prems show ?case
    by (simp add: take_Suc_conv_app_nth drop_update_cancel)
qed

lemma putHigh_ok: "i \<le> length p \<Longrightarrow> putHigh p v i = Inr (groups i v @ drop i p)"
proof (induction i arbitrary: p v)
  case 0
  then show ?case by simp
next
  case (Suc i)
  then have i: "i < length p" by simp
  have "drop i (p[i := x]) = x # drop (Suc i) p" for x
    using i by (simp add: Cons_nth_drop_Suc [symmetric])
  with Suc.IH [of "p[i := ucast ((v AND 0x7f) OR 0x80)]" "drop_bit 7 v"] i show ?case by simp
qed

lemma high_byte: "v AND push_bit 32 0xff000000 = 0 \<longleftrightarrow> drop_bit 56 v = (0 :: u64)"
proof -
  have m: "push_bit 32 0xff000000 = push_bit 56 (mask 8 :: u64)" by (simp add: mask_eq_exp_minus_1)
  have "(v AND push_bit 56 (mask 8) = 0) \<longleftrightarrow> (\<forall>m. \<not> bit v (56 + m))"
  proof
    assume a: "v AND push_bit 56 (mask 8) = 0"
    show "\<forall>m. \<not> bit v (56 + m)"
    proof (intro allI notI)
      fix m assume b: "bit v (56 + m)"
      then have "56 + m < 64" using bit_imp_le_length [OF b] by simp
      with b have "bit (v AND push_bit 56 (mask 8)) (56 + m)" by (simp add: bit_and_iff bit_push_bit_iff bit_mask_iff)
      with a show False by simp
    qed
  next
    assume a: "\<forall>m. \<not> bit v (56 + m)"
    have "\<not> bit v n" if "56 \<le> n" for n using a [rule_format, of "n - 56"] that by simp
    then show "v AND push_bit 56 (mask 8) = 0"
      by (intro bit_word_eqI) (auto simp: bit_and_iff bit_push_bit_iff)
  qed
  also have "\<dots> \<longleftrightarrow> drop_bit 56 v = 0"
  proof -
    have "m < 64" if "bit v (56 + m)" for m using bit_imp_le_length [OF that] by simp
    then show ?thesis by (auto simp: bit_eq_iff bit_drop_bit_eq)
  qed
  finally show ?thesis unfolding m .
qed

lemma ucast_clear_flag: "(ucast ((v AND 0x7f) OR 0x80) :: byte) AND 0x7f = ucast (v AND 0x7f)" for v :: u64
  by (rule byte_eqI, erule all_bits [rotated]) (simp add: upt_64 bit_simps)

lemma rev_clear_flag:
  "rev ((varintBuf v)[0 := varintBuf v ! 0 AND 0x7f]) = groups (length (varintBuf v) - 1) (drop_bit 7 v) @ [ucast (v AND 0x7f)]"
proof -
  obtain b bs where b: "varintBuf v = b # bs" by (simp add: varintBuf.simps [of v])
  with varintBuf_groups [of v] have "rev bs = groups (length bs) (drop_bit 7 v)" "b = ucast ((v AND 0x7f) OR 0x80)"
    by simp_all
  then show ?thesis by (simp add: b ucast_clear_flag)
qed

lemma PutVarint_ok:
  assumes "length (varintBytes v) \<le> length p"
  shows "sqlite3PutVarint p v = Inr (length (varintBytes v), varintBytes v @ drop (length (varintBytes v)) p)"
proof (cases "drop_bit 56 v = 0")
  case True
  with assms varintBuf_pos [of v] putBytes_ok [of 0 _ p] rev_clear_flag [of v] show ?thesis
    by (simp only: sqlite3PutVarint_def high_byte) (simp add: varintBytes_def Let_def)
next
  case False
  with assms have l: "9 \<le> length p" by (simp add: varintBytes_def)
  then have "drop 8 (p[8 := ucast v]) = ucast v # drop 9 p" by (simp add: Cons_nth_drop_Suc [symmetric])
  with False l putHigh_ok [of 8 "p[8 := ucast v]" "drop_bit 8 v"] show ?thesis
    by (simp only: sqlite3PutVarint_def high_byte) (simp add: varintBytes_def)
qed

lemma varintLenLoop_spec: "i < 9 \<Longrightarrow> varintLenLoop v i = min 9 (i + length (varintBuf v))"
proof (induction v i rule: varintLenLoop.induct)
  case (1 v i)
  show ?case
  proof (cases "drop_bit 7 v \<noteq> 0 \<and> i + 1 < 9")
    case True
    with 1 show ?thesis by (simp add: varintLenLoop.simps [of v i] varintBuf.simps [of v])
  next
    case False
    with 1(2) show ?thesis by (auto simp: varintLenLoop.simps [of v i] varintBuf.simps [of v])
  qed
qed

lemma VarintLen_ok: "sqlite3VarintLen v = length (varintBytes v)"
proof (cases "drop_bit 56 v = 0")
  case True
  with varintBuf_length_le [OF True] varintBuf_pos [of v] varintLenLoop_spec [of 0 v] show ?thesis
    by (simp add: sqlite3VarintLen_def varintBytes_def)
next
  case False
  have "8 < length (varintBuf v)"
  proof (rule ccontr)
    assume "\<not> 8 < length (varintBuf v)"
    then have "drop_bit 56 v = drop_bit (56 - 7 * length (varintBuf v)) (drop_bit (7 * length (varintBuf v)) v)"
      by (simp add: drop_bit_drop_bit)
    with varintBuf_covers [of v] False show False by simp
  qed
  with False varintLenLoop_spec [of 0 v] show ?thesis by (simp add: sqlite3VarintLen_def varintBytes_def)
qed

subsection \<open>Four-byte integers\<close>

lemma bit_u32_out: "32 \<le> n \<Longrightarrow> \<not> bit (x :: u32) n"
  using bit_imp_le_length [of x n] by auto

definition fourBytes :: "u32 \<Rightarrow> byte list" where
  "fourBytes v = [ucast (drop_bit 24 v), ucast (drop_bit 16 v), ucast (drop_bit 8 v), ucast v]"

lemma decode_fourBytes: "sqlite3Get4byte (fourBytes v @ t) = Inr (v, length (fourBytes v))"
proof -
  have "push_bit 24 (ucast (ucast (drop_bit 24 v) :: byte)) OR push_bit 16 (ucast (ucast (drop_bit 16 v) :: byte))
      OR push_bit 8 (ucast (ucast (drop_bit 8 v) :: byte)) OR ucast (ucast v :: byte) = v"
    by (rule u32_eqI, erule all_bits [rotated]) (simp add: upt_64 bit_simps bit_u32_out)
  then show ?thesis by (simp add: sqlite3Get4byte_def fourBytes_def rd_def numeral_2_eq_2 numeral_3_eq_3)
qed

interpretation four_bytes: codec "\<lambda>_. True" fourBytes sqlite3Get4byte
  by unfold_locales (rule decode_fourBytes)

lemma Put4byte_ok: "4 \<le> length p \<Longrightarrow> sqlite3Put4byte p v = Inr (fourBytes v @ drop 4 p)"
proof -
  assume "4 \<le> length p"
  then obtain a b c d q where "p = a # b # c # d # q"
    by (auto simp: Suc_le_length_iff eval_nat_numeral)
  then show ?thesis by (simp add: sqlite3Put4byte_def fourBytes_def wr_def numeral_2_eq_2 numeral_3_eq_3)
qed

subsection \<open>The 32-bit writer\<close>

lemma u32_below: "v < 2 ^ k \<Longrightarrow> k < 32 \<Longrightarrow> k \<le> n \<Longrightarrow> \<not> bit (v :: u32) n"
proof -
  assume a: "v < 2 ^ k" "k < 32" "k \<le> n"
  then have "take_bit k v = v" by (simp add: less_mask_eq take_bit_eq_mask)
  then have "bit v n = bit (take_bit k v) n" by simp
  with a(3) show ?thesis by (simp add: bit_take_bit_iff)
qed

lemma two_bytes: "v AND NOT 0x3fff = 0 \<Longrightarrow> 14 \<le> n \<Longrightarrow> \<not> bit (v :: u32) n"
proof
  assume a: "v AND NOT 0x3fff = 0" "14 \<le> n" "bit v n"
  have "(0x3fff :: u32) = mask 14" by (simp add: mask_eq_exp_minus_1)
  with a(2,3) have "bit (v AND NOT 0x3fff) n"
    by (simp only: bit_and_iff bit_not_iff bit_mask_iff) (auto dest: bit_imp_le_length)
  with a(1) show False by simp
qed

lemma putVarint32_fits:
  assumes lb: "length (varintBytes (ucast v)) \<le> length p"
  shows "putVarint32 p v = sqlite3PutVarint p (ucast v)"
proof -
  let ?w = "ucast v :: u64"
  show ?thesis
  proof (cases "v < 0x80")
    case True
    then have nb: "\<not> bit v n" if "7 \<le> n" for n using u32_below [of v 7 n] that by simp
    have "drop_bit 7 ?w = 0"
      by (rule bit_word_eqI) (auto simp: bit_drop_bit_eq bit_unsigned_iff nb)
    moreover have "drop_bit 56 ?w = 0"
      by (rule bit_word_eqI) (auto simp: bit_drop_bit_eq bit_unsigned_iff nb)
    moreover have "(ucast (?w AND 0x7f) :: byte) = ucast v"
      by (rule byte_eqI, erule all_bits [rotated]) (simp add: upt_64 bit_simps nb)
    ultimately have "varintBytes ?w = [ucast v]"
      by (simp add: varintBytes_def varintBuf.simps [of ?w])
    with PutVarint_ok [OF lb] lb True show ?thesis by (cases p) (simp_all add: putVarint32_def)
  next
    case False
    show ?thesis
    proof (cases "v AND NOT 0x3fff = 0")
      case True
      note nb = two_bytes [OF True]
      have "drop_bit 7 ?w \<noteq> 0"
      proof
        assume "drop_bit 7 ?w = 0"
        then have "take_bit 7 ?w = ?w" using bits_ident [of 7 ?w] by simp
        then have "unat ?w mod 2 ^ 7 = unat ?w" by (metis take_bit_eq_mask unat_and_mask_mod)
        then have "unat ?w < 2 ^ 7" by (metis mod_less_divisor zero_less_numeral zero_less_power)
        moreover have "unat ?w = unat v"
          using less_trans [OF unat_less_2p32 [of v], of "2 ^ 64"] by (simp add: unsigned_ucast_eq take_bit_nat_eq_self)
        ultimately show False using False by (simp add: word_less_nat_alt)
      qed
      moreover have "drop_bit 14 ?w = 0"
        by (rule bit_word_eqI) (auto simp: bit_drop_bit_eq bit_unsigned_iff nb)
      moreover have "drop_bit 56 ?w = 0"
        by (rule bit_word_eqI) (auto simp: bit_drop_bit_eq bit_unsigned_iff nb)
      moreover have "(ucast ((drop_bit 7 ?w AND 0x7f) OR 0x80) :: byte) = ucast (drop_bit 7 v OR 0x80)"
        by (rule byte_eqI, erule all_bits [rotated]) (simp add: upt_64 bit_simps nb)
      moreover have "(ucast (?w AND 0x7f) :: byte) = ucast (v AND 0x7f)"
        by (rule byte_eqI, erule all_bits [rotated]) (simp add: upt_64 bit_simps)
      ultimately have "varintBytes ?w = [ucast (drop_bit 7 v OR 0x80), ucast (v AND 0x7f)]"
        by (simp add: varintBytes_def varintBuf.simps [of ?w] varintBuf.simps [of "drop_bit 7 ?w"] drop_bit_drop_bit)
      moreover from this lb obtain a b q where "p = a # b # q" by (auto simp: Suc_le_length_iff eval_nat_numeral)
      ultimately show ?thesis using PutVarint_ok [OF lb] True False by (simp add: putVarint32_def sqlite3PutVarint32_def)
    next
      case False2: False
      with False show ?thesis by (simp only: putVarint32_def sqlite3PutVarint32_def if_False)
    qed
  qed
qed

lemma putVarint32_same:
  assumes "9 \<le> length p"
  shows "putVarint32 p v = sqlite3PutVarint p (ucast v)"
proof (rule putVarint32_fits)
  show "length (varintBytes (ucast v)) \<le> length p"
    using assms varintBuf_length_le [of "ucast v"] by (auto simp: varintBytes_def)
qed

subsection \<open>Properties\<close>

text \<open>
  C26: the unrolled variable-length reader, with its interleaved 32-bit accumulators, returns
  on every buffer, complete or truncated, exactly what reading byte by byte returns, and the
  32-bit reader returns the low 32 bits and the length of the 64-bit reader.
\<close>

theorem varint_reader_reference:
  "sqlite3GetVarint p = refVarint 0 0 p \<and> getVarint32 p = low32 (sqlite3GetVarint p)"
  by (simp add: GetVarint_ref [of p] getVarint32_low [of p])

text \<open>
  C25: writing a 64-bit value and reading it back gives the value and the length written,
  which is the length sqlite3VarintLen predicts and between 1 and 9; bytes behind the
  encoding are untouched; the 32-bit writer writes the same bytes.
\<close>

theorem varint_roundtrip:
  assumes "9 \<le> length p"
  shows "\<exists>n q. sqlite3PutVarint p v = Inr (n, q) \<and> sqlite3GetVarint q = Inr (v, n) \<and> n = sqlite3VarintLen v
    \<and> 1 \<le> n \<and> n \<le> 9 \<and> drop n q = drop n p \<and> length q = length p
    \<and> putVarint32 p w = sqlite3PutVarint p (ucast w)"
proof -
  let ?b = "varintBytes v"
  have l: "1 \<le> length ?b" "length ?b \<le> 9"
    using varintBuf_length_le [of v] by (auto simp: varintBytes_def)
  then have "sqlite3PutVarint p v = Inr (length ?b, ?b @ drop (length ?b) p)"
    using assms by (intro PutVarint_ok) simp
  moreover have "sqlite3GetVarint (?b @ drop (length ?b) p) = Inr (v, length ?b)" by (rule decode_varintBytes)
  moreover have "length (?b @ drop (length ?b) p) = length p" using l assms by simp
  ultimately show ?thesis using l VarintLen_ok putVarint32_same [OF assms] by simp
qed

theorem varint_roundtrip_witness:
  "\<exists>n q. sqlite3PutVarint (replicate 12 0) 123456789012 = Inr (n, q) \<and> sqlite3GetVarint q = Inr (123456789012, n)
    \<and> n = sqlite3VarintLen 123456789012 \<and> 1 \<le> n \<and> n \<le> 9 \<and> drop n q = drop n (replicate 12 0)
    \<and> length q = length (replicate 12 (0 :: byte))
    \<and> putVarint32 (replicate 12 0) 300 = sqlite3PutVarint (replicate 12 0) (ucast (300 :: u32))"
  by (rule varint_roundtrip) simp

text \<open>
  A record of integers written one after another, in either format, is read back value
  by value with nothing left over and nothing lost, whatever follows it.
\<close>

theorem integer_streams:
  "decode_n sqlite3GetVarint (length vs) (concat (map varintBytes vs) @ t) = Inr (vs, t)
   \<and> decode_n sqlite3Get4byte (length ws) (concat (map fourBytes ws) @ t) = Inr (ws, t)"
  using varint.decode_stream [of vs t] four_bytes.decode_stream [of ws t] by simp

end
