(* ===== verification/Utf.thy ===== *)
theory Utf
  imports Codec StrUtil
begin

text \<open>
  The text encodings of utf.c of the database library (misc/sqlite). A code point is a
  32-bit word. The writing macros return the bytes they append; a reader takes the bytes
  from the read pointer to the end of the block and returns the code point with the number
  of bytes it consumed. The argument term of the UTF-8 reader is the distance to zTerm, None
  for a NULL zTerm.

  A Mem is the record of its block, length and encoding; the length is a number of bytes of
  text and the block may be longer. The translation writes into an output block of the size
  the code computes, so that writing past it would be a fault.

  Shown: each encoding reads back what it writes, on every code point of the self test; a
  reader always consumes something and stays inside the text; translation preserves the text, and
  on arbitrary bytes, an even number of them for UTF-16, it never writes past its output block.
\<close>

subsection \<open>Writing\<close>

definition sqlite3UtfTrans1 :: "byte list" where
  "sqlite3UtfTrans1 = [
   0, 1, 2, 3, 4, 5, 6, 7, 8, 9, 10, 11, 12, 13, 14, 15,
   16, 17, 18, 19, 20, 21, 22, 23, 24, 25, 26, 27, 28, 29, 30, 31,
   0, 1, 2, 3, 4, 5, 6, 7, 8, 9, 10, 11, 12, 13, 14, 15,
   0, 1, 2, 3, 4, 5, 6, 7, 0, 1, 2, 3, 0, 1, 0, 0]"

definition WRITE_UTF8 :: "u32 \<Rightarrow> byte list" where
  "WRITE_UTF8 c =
     (if c < 0x80 then [ucast (c AND 0xFF)]
      else if c < 0x800 then [ucast (0xC0 + (drop_bit 6 c AND 0x1F)), ucast (0x80 + (c AND 0x3F))]
      else if c < 0x10000 then
        [ucast (0xE0 + (drop_bit 12 c AND 0x0F)), ucast (0x80 + (drop_bit 6 c AND 0x3F)), ucast (0x80 + (c AND 0x3F))]
      else
        [ucast (0xF0 + (drop_bit 18 c AND 0x07)), ucast (0x80 + (drop_bit 12 c AND 0x3F)),
         ucast (0x80 + (drop_bit 6 c AND 0x3F)), ucast (0x80 + (c AND 0x3F))])"

definition highByte :: "u32 \<Rightarrow> byte" where
  "highByte c = ucast ((drop_bit 10 c AND 0x3F) + (drop_bit 10 (c - 0x10000) AND 0xC0))"

definition WRITE_UTF16LE :: "u32 \<Rightarrow> byte list" where
  "WRITE_UTF16LE c =
     (if c \<le> 0xFFFF then [ucast (c AND 0xFF), ucast (drop_bit 8 c AND 0xFF)]
      else [highByte c, ucast (0xD8 + (drop_bit 18 (c - 0x10000) AND 0x03)),
            ucast (c AND 0xFF), ucast (0xDC + (drop_bit 8 c AND 0x03))])"

definition WRITE_UTF16BE :: "u32 \<Rightarrow> byte list" where
  "WRITE_UTF16BE c =
     (if c \<le> 0xFFFF then [ucast (drop_bit 8 c AND 0xFF), ucast (c AND 0xFF)]
      else [ucast (0xD8 + (drop_bit 18 (c - 0x10000) AND 0x03)), highByte c,
            ucast (0xDC + (drop_bit 8 c AND 0x03)), ucast (c AND 0xFF)])"

subsection \<open>Reading\<close>

text \<open>What both UTF-16 readers make of a first unit c and a second unit c2.\<close>

definition surrogate :: "u32 \<Rightarrow> bool" where
  "surrogate c \<longleftrightarrow> c \<ge> 0xD800 \<and> c < 0xE000"

definition joinUnits :: "u32 \<Rightarrow> u32 \<Rightarrow> u32" where
  "joinUnits c c2 =
     (let c' = (c2 AND 0x3FF) + push_bit 10 (c AND 0x3F) + push_bit 10 ((c AND 0x3C0) + 0x40) in
      if c' AND 0xFFFF0000 = 0 then 0xFFFD else c')"

definition READ_UTF16LE :: "byte list \<Rightarrow> (u32 \<times> nat) cres" where
  "READ_UTF16LE z = bindR (rd z 0) (\<lambda>a. bindR (rd z 1) (\<lambda>b.
     let c = ucast a + push_bit 8 (ucast b) in
     if surrogate c
     then bindR (rd z 2) (\<lambda>a2. bindR (rd z 3) (\<lambda>b2. Inr (joinUnits c (ucast a2 + push_bit 8 (ucast b2)), 4)))
     else Inr (c, 2)))"

definition READ_UTF16BE :: "byte list \<Rightarrow> (u32 \<times> nat) cres" where
  "READ_UTF16BE z = bindR (rd z 0) (\<lambda>a. bindR (rd z 1) (\<lambda>b.
     let c = push_bit 8 (ucast a) + ucast b in
     if surrogate c
     then bindR (rd z 2) (\<lambda>a2. bindR (rd z 3) (\<lambda>b2. Inr (joinUnits c (push_bit 8 (ucast a2) + ucast b2), 4)))
     else Inr (c, 2)))"

definition contByte :: "byte \<Rightarrow> bool" where
  "contByte b \<longleftrightarrow> b AND 0xc0 = 0x80"

fun utf8Loop :: "u32 \<Rightarrow> nat \<Rightarrow> byte list \<Rightarrow> nat option \<Rightarrow> (u32 \<times> nat) cres" where
  "utf8Loop c k z (Some 0) = Inr (c, k)"
| "utf8Loop c k [] term = Inl OutOfBounds"
| "utf8Loop c k (b # z) term =
     (if contByte b
      then utf8Loop (push_bit 6 c + ucast (0x3f AND b)) (k + 1) z (map_option (\<lambda>n. n - 1) term)
      else Inr (c, k))"

definition utf8Check :: "u32 \<Rightarrow> u32" where
  "utf8Check c = (if sint c < 0x80 \<or> c AND 0xFFFFF800 = 0xD800 \<or> c AND 0xFFFFFFFE = 0xFFFE then 0xFFFD else c)"

definition sqlite3Utf8Read :: "byte list \<Rightarrow> nat option \<Rightarrow> (u32 \<times> nat) cres" where
  "sqlite3Utf8Read z term = bindR (rd z 0) (\<lambda>b.
     if b \<ge> 0xc0
     then bindR (rd sqlite3UtfTrans1 (unat (b - 0xc0))) (\<lambda>t.
       bindR (utf8Loop (ucast t) 1 (drop 1 z) (map_option (\<lambda>n. n - 1) term)) (\<lambda>(c, k). Inr (utf8Check c, k)))
     else Inr (ucast b, 1))"

fun skipCont :: "byte list \<Rightarrow> byte list cres" where
  "skipCont [] = Inl OutOfBounds"
| "skipCont (b # z) = (if contByte b then skipCont z else Inr (b # z))"

definition SQLITE_SKIP_UTF8 :: "byte list \<Rightarrow> byte list cres" where
  "SQLITE_SKIP_UTF8 z = bindR (rd z 0) (\<lambda>b. if b \<ge> 0xc0 then skipCont (drop 1 z) else Inr (drop 1 z))"

lemma skipCont_length: "skipCont z = Inr z' \<Longrightarrow> length z' \<le> length z"
  by (induction z) (auto split: if_splits)

lemma skip_length: "SQLITE_SKIP_UTF8 z = Inr z' \<Longrightarrow> length z' < length z"
  by (cases z) (auto simp: SQLITE_SKIP_UTF8_def rd_def split: if_splits dest!: skipCont_length)

text \<open>
  sqlite3Utf8CharLen: the argument term is the number of bytes to zTerm, None when nByte is
  negative. The byte at the read pointer is fetched before the pointer is compared with
  zTerm.
\<close>

function charLenLoop :: "byte list \<Rightarrow> nat option \<Rightarrow> nat \<Rightarrow> nat cres" where
  "charLenLoop z term r = bindR (rd z 0) (\<lambda>b.
     if b \<noteq> 0 \<and> term \<noteq> Some 0
     then bindR (SQLITE_SKIP_UTF8 z) (\<lambda>z'.
            charLenLoop z' (map_option (\<lambda>n. n - (length z - length z')) term) (r + 1))
     else Inr r)"
  by pat_completeness auto
termination by (relation "measure (\<lambda>(z, _, _). length z)") (auto dest: skip_length)

declare charLenLoop.simps [simp del]

definition sqlite3Utf8CharLen :: "byte list \<Rightarrow> nat option \<Rightarrow> nat cres" where
  "sqlite3Utf8CharLen zIn nByte = charLenLoop zIn nByte 0"

subsection \<open>Translation\<close>

record Mem =
  mem_z :: "byte list"
  mem_n :: nat
  mem_enc :: enc

text \<open>The byte swap between the two UTF-16 orders, in place, pair by pair up to zTerm.\<close>

function swapLoop :: "byte list \<Rightarrow> nat \<Rightarrow> nat \<Rightarrow> byte list cres" where
  "swapLoop z n i =
     (if i < n
      then bindR (rd z i) (\<lambda>temp. bindR (rd z (i + 1)) (\<lambda>b.
             bindR (wr z i b) (\<lambda>z. bindR (wr z (i + 1) temp) (\<lambda>z. swapLoop z n (i + 2)))))
      else Inr z)"
  by pat_completeness auto
termination by (relation "measure (\<lambda>(_, n, i). n - i)") auto

declare swapLoop.simps [simp del]

text \<open>Appending bytes at the output pointer.\<close>

fun putOut :: "byte list \<Rightarrow> nat \<Rightarrow> byte list \<Rightarrow> byte list cres" where
  "putOut out k [] = Inr out"
| "putOut out k (c # cs) = bindR (wr out k c) (\<lambda>out'. putOut out' (k + 1) cs)"

text \<open>
  The four conversion loops: read a character at the input pointer, append its encoding. The
  input pointer i runs up to n; read and write are the macros of the two encodings. A reader
  that consumed nothing would loop for ever; fuel n is enough as every reader consumes at
  least one byte.
\<close>

fun translateLoop ::
  "(byte list \<Rightarrow> nat \<Rightarrow> (u32 \<times> nat) cres) \<Rightarrow> (u32 \<Rightarrow> byte list) \<Rightarrow> nat \<Rightarrow> byte list \<Rightarrow> nat \<Rightarrow> nat \<Rightarrow> byte list \<Rightarrow> nat
   \<Rightarrow> (nat \<times> byte list) cres option" where
  "translateLoop rdr wtr 0 z n i out k = (if i < n then None else Some (Inr (k, out)))"
| "translateLoop rdr wtr (Suc f) z n i out k =
     (if i < n
      then (case rdr (drop i z) (n - i) of Inl e \<Rightarrow> Some (Inl e)
        | Inr (c, m) \<Rightarrow>
            (case putOut out k (wtr c) of Inl e \<Rightarrow> Some (Inl e)
             | Inr out' \<Rightarrow> translateLoop rdr wtr f z n (i + m) out' (k + length (wtr c))))
      else Some (Inr (k, out)))"

definition readerFor :: "enc \<Rightarrow> byte list \<Rightarrow> nat \<Rightarrow> (u32 \<times> nat) cres" where
  "readerFor e z n = (case e of UTF8 \<Rightarrow> sqlite3Utf8Read z (Some n) | UTF16LE \<Rightarrow> READ_UTF16LE z | UTF16BE \<Rightarrow> READ_UTF16BE z)"

definition writerFor :: "enc \<Rightarrow> u32 \<Rightarrow> byte list" where
  "writerFor e = (case e of UTF8 \<Rightarrow> WRITE_UTF8 | UTF16LE \<Rightarrow> WRITE_UTF16LE | UTF16BE \<Rightarrow> WRITE_UTF16BE)"

text \<open>
  The result is the return code and the Mem. The argument ok1 is the outcome of the request
  for the output block (or for the writable copy, which keeps the text and adds two bytes
  for the terminator).
\<close>

text \<open>
  The size of the output block is an int: when it reaches 2 ^ 31 it overflows and wraps to a
  number that is not positive, and sqlite3\_malloc returns NULL.
\<close>

definition growth :: "enc \<Rightarrow> nat \<Rightarrow> nat" where
  "growth desired n = (if desired = UTF8 then n * 2 + 1 else n * 2 + 2)"

definition translateLen :: "nat \<Rightarrow> enc \<Rightarrow> int" where
  "translateLen n desired = sint (of_nat (growth desired n) :: u32)"

definition sqlite3VdbeMemTranslate ::
  "(nat \<Rightarrow> byte) \<Rightarrow> bool \<Rightarrow> Mem \<Rightarrow> enc \<Rightarrow> (bool \<times> Mem) cres option" where
  "sqlite3VdbeMemTranslate junk ok1 m desired =
     (if mem_enc m = desired then Some (Inl AssertFail)
      else if mem_enc m \<noteq> UTF8 \<and> desired \<noteq> UTF8
      then if \<not> ok1 then Some (Inr (False, m))
        else Some (bindR (swapLoop (mem_z m) (mem_n m) 0) (\<lambda>z. Inr (True, m\<lparr>mem_z := z, mem_enc := desired\<rparr>)))
      else
        let len = translateLen (mem_n m) desired in
        if \<not> ok1 \<or> len \<le> 0 then Some (Inr (False, m))
        else
          (case translateLoop (readerFor (mem_enc m)) (writerFor desired) (mem_n m) (mem_z m) (mem_n m) 0
                  (map junk [0..<nat len]) 0 of
             None \<Rightarrow> None
           | Some (Inl e) \<Rightarrow> Some (Inl e)
           | Some (Inr (k, out)) \<Rightarrow>
               Some (bindR (putOut out k (if desired = UTF8 then [0] else [0, 0])) (\<lambda>out'.
                 Inr (True, m\<lparr>mem_z := out', mem_n := k, mem_enc := desired\<rparr>)))))"

text \<open>
  Removal of a byte order mark. The length of a Mem is never negative here, so that the test
  of the code is that there are at least two bytes.
\<close>

definition sqlite3VdbeMemHandleBom :: "bool \<Rightarrow> Mem \<Rightarrow> (bool \<times> Mem) cres" where
  "sqlite3VdbeMemHandleBom ok1 m =
     bindR (if mem_n m > 1
            then bindR (rd (mem_z m) 0) (\<lambda>b1. bindR (rd (mem_z m) 1) (\<lambda>b2.
              Inr (if b1 = 0xFE \<and> b2 = 0xFF then Some UTF16BE
                   else if b1 = 0xFF \<and> b2 = 0xFE then Some UTF16LE else None)))
            else Inr None) (\<lambda>bom.
       case bom of None \<Rightarrow> Inr (True, m)
       | Some e \<Rightarrow>
          if \<not> ok1 then Inr (False, m)
          else let n = mem_n m - 2; z = take n (drop 2 (mem_z m)) @ drop n (mem_z m) in
            bindR (wr z n 0) (\<lambda>z. bindR (wr z (n + 1) 0) (\<lambda>z.
              Inr (True, m\<lparr>mem_z := z, mem_n := n, mem_enc := e\<rparr>))))"

text \<open>
  sqlite3Utf16ByteLen on a little-endian machine: nChar is None when it is negative. The
  read pointer is a pointer to char, so that the macro READ_UTF16LE sign-extends the bytes
  it fetches there. It consumes two or four bytes, so fuel equal to the size of the block is
  enough.
\<close>

definition READ_UTF16LE_char :: "byte list \<Rightarrow> (u32 \<times> nat) cres" where
  "READ_UTF16LE_char z = bindR (rd z 0) (\<lambda>a. bindR (rd z 1) (\<lambda>b.
     let c = scast a + push_bit 8 (scast b) in
     if surrogate c
     then bindR (rd z 2) (\<lambda>a2. bindR (rd z 3) (\<lambda>b2. Inr (joinUnits c (scast a2 + push_bit 8 (scast b2)), 4)))
     else Inr (c, 2)))"

fun byteLenLoop :: "nat \<Rightarrow> byte list \<Rightarrow> nat option \<Rightarrow> u32 \<Rightarrow> nat \<Rightarrow> nat cres option" where
  "byteLenLoop f z nChar c used =
     (if c \<noteq> 0 \<and> nChar \<noteq> Some 0
      then (case f of 0 \<Rightarrow> None
        | Suc f' \<Rightarrow> (case READ_UTF16LE_char (drop used z) of Inl e \<Rightarrow> Some (Inl e)
            | Inr (c', k) \<Rightarrow> byteLenLoop f' z (map_option (\<lambda>n. n - 1) nChar) c' (used + k)))
      else Some (Inr (used - (if c = 0 then 2 else 0))))"

declare byteLenLoop.simps [simp del]

definition sqlite3Utf16ByteLen :: "byte list \<Rightarrow> nat option \<Rightarrow> nat cres option" where
  "sqlite3Utf16ByteLen z nChar = byteLenLoop (length z + 1) z nChar 1 0"

text \<open>The assertions of sqlite3UtfSelfTest for one code point; the test runs them all.\<close>

definition selfTestUtf8 :: "u32 \<Rightarrow> bool" where
  "selfTestUtf8 i =
     (let t = (if i \<ge> 0xD800 \<and> i \<le> 0xDFFF then 0xFFFD else i);
          t = (if i AND 0xFFFFFFFE = 0xFFFE then 0xFFFD else t); z = WRITE_UTF8 i in
      sqlite3Utf8Read (z @ [0]) (Some (length z)) = Inr (t, length z))"

definition selfTestUtf16LE :: "u32 \<Rightarrow> bool" where
  "selfTestUtf16LE i \<longleftrightarrow> (i \<ge> 0xD800 \<and> i < 0xE000) \<or>
     READ_UTF16LE (WRITE_UTF16LE i @ [0]) = Inr (i, length (WRITE_UTF16LE i))"

definition selfTestUtf16BE :: "u32 \<Rightarrow> bool" where
  "selfTestUtf16BE i \<longleftrightarrow> (i \<ge> 0xD800 \<and> i < 0xE000) \<or>
     READ_UTF16BE (WRITE_UTF16BE i @ [0]) = Inr (i, length (WRITE_UTF16BE i))"

definition sqlite3UtfSelfTest :: bool where
  "sqlite3UtfSelfTest \<longleftrightarrow> (\<forall>n < 0x110000. selfTestUtf8 (of_nat n) \<and> selfTestUtf16LE (of_nat n) \<and> selfTestUtf16BE (of_nat n))"

subsection \<open>Encodings as numbers\<close>

lemma unat_and_masks:
  fixes c :: u32
  shows "unat (c AND 0xFF) = unat c mod 256" "unat (c AND 0x1F) = unat c mod 32"
    "unat (c AND 0x3F) = unat c mod 64" "unat (c AND 0x0F) = unat c mod 16" "unat (c AND 0x07) = unat c mod 8"
    "unat (c AND 0x03) = unat c mod 4" "unat (c AND 0x3FF) = unat c mod 1024"
proof -
  have m: "(0xFF :: u32) = mask 8" "(0x1F :: u32) = mask 5" "(0x3F :: u32) = mask 6" "(0x0F :: u32) = mask 4"
    "(0x07 :: u32) = mask 3" "(0x03 :: u32) = mask 2" "(0x3FF :: u32) = mask 10"
    by (simp_all add: mask_eq_exp_minus_1)
  show "unat (c AND 0xFF) = unat c mod 256" "unat (c AND 0x1F) = unat c mod 32"
    "unat (c AND 0x3F) = unat c mod 64" "unat (c AND 0x0F) = unat c mod 16" "unat (c AND 0x07) = unat c mod 8"
    "unat (c AND 0x03) = unat c mod 4" "unat (c AND 0x3FF) = unat c mod 1024"
    unfolding m unat_and_mask_mod by simp_all
qed

lemma unat_shifted: "unat (drop_bit k c :: u32) = unat c div 2 ^ k"
  by (rule unat_drop_bit_div)

lemma ucast_of_nat: "(ucast w :: byte) = of_nat (unat w)" for w :: u32
  by simp

lemma unat_plus_small: "unat a = x \<Longrightarrow> unat b = y \<Longrightarrow> x + y < 2 ^ 32 \<Longrightarrow> unat (a + b :: u32) = x + y"
  by (subst unat_add_no_wrap) simp_all

definition utf8_nums :: "nat \<Rightarrow> nat list" where
  "utf8_nums n = (if n < 0x80 then [n]
     else if n < 0x800 then [0xC0 + n div 64 mod 32, 0x80 + n mod 64]
     else if n < 0x10000 then [0xE0 + n div 4096 mod 16, 0x80 + n div 64 mod 64, 0x80 + n mod 64]
     else [0xF0 + n div 262144 mod 8, 0x80 + n div 4096 mod 64, 0x80 + n div 64 mod 64, 0x80 + n mod 64])"

lemma tag_byte:
  "unat x = m \<Longrightarrow> unat t = k \<Longrightarrow> k + m < 2 ^ 32 \<Longrightarrow> (ucast (t + x) :: byte) = of_nat (k + m)" for t x :: u32
  using unat_plus_small [of t k x m] by (simp only: ucast_of_nat)

lemma tag_bound: "0 < d \<Longrightarrow> k + d < 2 ^ 32 \<Longrightarrow> k + m mod d < 2 ^ 32" for k m d :: nat
  using mod_less_divisor [of d m] by linarith

lemma WRITE_UTF8_nums: "WRITE_UTF8 c = map of_nat (utf8_nums (unat c))"
proof -
  have t: "(ucast (0xC0 + (x AND 0x1F)) :: byte) = of_nat (0xC0 + unat x mod 32)"
    "(ucast (0xE0 + (x AND 0x0F)) :: byte) = of_nat (0xE0 + unat x mod 16)"
    "(ucast (0xF0 + (x AND 0x07)) :: byte) = of_nat (0xF0 + unat x mod 8)"
    "(ucast (0x80 + (x AND 0x3F)) :: byte) = of_nat (0x80 + unat x mod 64)" for x :: u32
    by (rule tag_byte, rule unat_and_masks, simp, rule tag_bound, simp, simp)+
  show ?thesis
    unfolding WRITE_UTF8_def utf8_nums_def t unat_shifted word_less_nat_alt ucast_of_nat [of "c AND 0xFF"] unat_and_masks
    by simp
qed

lemma cont_table: "m < 64 \<Longrightarrow> contByte (of_nat (0x80 + m)) \<and> 0x3f AND (of_nat (0x80 + m) :: byte) = of_nat m"
proof -
  have "\<forall>m \<in> set [0..<64]. contByte (of_nat (0x80 + m)) \<and> 0x3f AND (of_nat (0x80 + m) :: byte) = of_nat m"
    by code_simp
  moreover assume "m < 64"
  ultimately show ?thesis by simp
qed

lemma lead_table:
  "m < 64 \<Longrightarrow> (0xc0 :: byte) \<le> of_nat (0xc0 + m) \<and> unat (of_nat (0xc0 + m) - 0xc0 :: byte) = m"
proof -
  have "\<forall>m \<in> set [0..<64]. (0xc0 :: byte) \<le> of_nat (0xc0 + m) \<and> unat (of_nat (0xc0 + m) - 0xc0 :: byte) = m"
    by code_simp
  moreover assume "m < 64"
  ultimately show ?thesis by simp
qed

lemma trans_table:
  "m < 32 \<Longrightarrow> sqlite3UtfTrans1 ! m = of_nat m" "m < 16 \<Longrightarrow> sqlite3UtfTrans1 ! (32 + m) = of_nat m"
  "m < 8 \<Longrightarrow> sqlite3UtfTrans1 ! (48 + m) = of_nat m" "length sqlite3UtfTrans1 = 64"
proof -
  have "\<forall>m \<in> set [0..<32]. sqlite3UtfTrans1 ! m = of_nat m \<and> (m < 16 \<longrightarrow> sqlite3UtfTrans1 ! (32 + m) = of_nat m)
      \<and> (m < 8 \<longrightarrow> sqlite3UtfTrans1 ! (48 + m) = of_nat m)"
    by code_simp
  then show "m < 32 \<Longrightarrow> sqlite3UtfTrans1 ! m = of_nat m" "m < 16 \<Longrightarrow> sqlite3UtfTrans1 ! (32 + m) = of_nat m"
    "m < 8 \<Longrightarrow> sqlite3UtfTrans1 ! (48 + m) = of_nat m" by simp_all
  show "length sqlite3UtfTrans1 = 64" by (simp add: sqlite3UtfTrans1_def)
qed

lemma ascii_table: "m < 128 \<Longrightarrow> \<not> (0xc0 :: byte) \<le> of_nat m"
  by (simp add: word_le_nat_alt unat_of_nat)

lemma ucast_of_nat_byte: "m < 256 \<Longrightarrow> (ucast (of_nat m :: byte) :: u32) = of_nat m"
proof -
  assume "m < 256"
  then have "unat (of_nat m :: byte) = m" by (simp add: unat_of_nat)
  then show ?thesis by (metis of_nat_unat)
qed

text \<open>Where the reader stops: at the end of the text or before a byte that starts a character.\<close>

definition stops :: "byte list \<Rightarrow> nat option \<Rightarrow> bool" where
  "stops t r \<longleftrightarrow> r = Some 0 \<or> (t \<noteq> [] \<and> \<not> contByte (hd t))"

lemma utf8Loop_step:
  "term \<noteq> Some 0 \<Longrightarrow> utf8Loop c k (b # z) term =
     (if contByte b then utf8Loop (push_bit 6 c + ucast (0x3f AND b)) (k + 1) z (map_option (\<lambda>n. n - 1) term)
      else Inr (c, k))"
  by (cases "term"; cases "the term") auto

lemma utf8Loop_stops: "stops t r \<Longrightarrow> utf8Loop c k t r = Inr (c, k)"
  by (cases "r = Some 0"; cases t) (auto simp: stops_def utf8Loop_step)

lemma utf8Loop_cont:
  assumes "m < 64"
  shows "utf8Loop (of_nat x) k (of_nat (0x80 + m) # z) (map_option (\<lambda>n. n + Suc j) r) =
    utf8Loop (of_nat (64 * x + m)) (k + 1) z (map_option (\<lambda>n. n + j) r)"
proof -
  have v: "push_bit 6 (of_nat x) + ucast (of_nat m :: byte) = (of_nat (64 * x + m) :: u32)"
    using assms by (simp add: ucast_of_nat_byte push_bit_eq_mult)
  have "map_option (\<lambda>n. n - 1) (map_option (\<lambda>n. n + Suc j) r) = map_option (\<lambda>n. n + j) r"
    by (cases r) simp_all
  moreover have "map_option (\<lambda>n. n + Suc j) r \<noteq> Some 0" by (cases r) simp_all
  ultimately show ?thesis
    using cont_table [OF assms] v by (simp add: utf8Loop_step del: of_nat_add)
qed

lemma Utf8Read_lead:
  assumes "m < 64" "sqlite3UtfTrans1 ! m = of_nat x" "x < 256"
  shows "sqlite3Utf8Read (of_nat (0xc0 + m) # z) (map_option (\<lambda>n. n + Suc j) r) =
    bindR (utf8Loop (of_nat x) 1 z (map_option (\<lambda>n. n + j) r)) (\<lambda>(c, k). Inr (utf8Check c, k))"
proof -
  have "map_option (\<lambda>n. n - 1) (map_option (\<lambda>n. n + Suc j) r) = map_option (\<lambda>n. n + j) r"
    by (cases r) simp_all
  with lead_table [OF assms(1)] assms trans_table(4) show ?thesis
    by (simp add: sqlite3Utf8Read_def rd_def ucast_of_nat_byte del: of_nat_add)
qed

lemma unat_and_high: "unat (c AND NOT (mask k) :: u32) = unat c div 2 ^ k * 2 ^ k" if "k < 32" for c :: u32
proof -
  have "c AND NOT (mask k) = push_bit k (drop_bit k c)"
    by (rule bit_word_eqI) (auto simp: bit_simps)
  then have "c AND NOT (mask k) = drop_bit k c * 2 ^ k" by (simp add: push_bit_eq_mult)
  moreover have p: "unat (2 ^ k :: u32) = 2 ^ k"
    using unat_of_nat_small [of "2 ^ k", where 'n = 32] that power_strict_increasing [of k 32 "2 :: nat"] by simp
  moreover have "unat (drop_bit k c) * unat (2 ^ k :: u32) < 2 ^ 32"
    unfolding p unat_drop_bit_div
    using le_less_trans [OF div_times_less_eq_dividend [of "unat c" "2 ^ k"] unat_less_2p32 [of c]] by simp
  ultimately show ?thesis by (simp add: unat_mult_no_wrap unat_drop_bit_div)
qed

lemma unat_and_highs:
  fixes c :: u32
  shows "unat (c AND 0xFFFFF800) = unat c div 2048 * 2048" "unat (c AND 0xFFFFFFFE) = unat c div 2 * 2"
    "unat (c AND 0xFFFF0000) = unat c div 65536 * 65536"
proof -
  have m: "(0xFFFFF800 :: u32) = NOT (mask 11)" "(0xFFFFFFFE :: u32) = NOT (mask 1)" "(0xFFFF0000 :: u32) = NOT (mask 16)"
    by (simp_all add: mask_eq_exp_minus_1)
  show "unat (c AND 0xFFFFF800) = unat c div 2048 * 2048" "unat (c AND 0xFFFFFFFE) = unat c div 2 * 2"
    "unat (c AND 0xFFFF0000) = unat c div 65536 * 65536"
    unfolding m by (subst unat_and_high; simp)+
qed

text \<open>Code points that the reader replaces.\<close>

definition rejected :: "nat \<Rightarrow> bool" where
  "rejected n \<longleftrightarrow> 0xD800 \<le> n \<and> n \<le> 0xDFFF \<or> n = 0xFFFE \<or> n = 0xFFFF"

lemma div_range: "0 < d \<Longrightarrow> n div d = q \<longleftrightarrow> d * q \<le> n \<and> n < d * Suc q" for n d q :: nat
  using times_div_less_eq_dividend [of d n] dividend_less_times_div [of d n] div_nat_eqI [of d q n] by auto

lemma utf8Check_spec:
  assumes "0x80 \<le> n" "n < 0x110000"
  shows "utf8Check (of_nat n) = (if rejected n then 0xFFFD else of_nat n)"
proof -
  have u: "unat (of_nat n :: u32) = n" using assms(2) by (intro unat_of_nat_small) simp
  have s: "sint (of_nat n :: u32) = int n"
    using assms(2) by (simp add: signed_of_nat signed_take_bit_int_eq_self)
  have "of_nat n AND 0xFFFFF800 = (0xD800 :: u32) \<longleftrightarrow> n div 2048 * 2048 = 0xD800"
    unfolding word_unat_eq_iff unat_and_highs u by simp
  also have "\<dots> \<longleftrightarrow> n div 2048 = 27" by simp
  also have "\<dots> \<longleftrightarrow> 0xD800 \<le> n \<and> n \<le> 0xDFFF" by (subst div_range) auto
  finally have a: "of_nat n AND 0xFFFFF800 = (0xD800 :: u32) \<longleftrightarrow> 0xD800 \<le> n \<and> n \<le> 0xDFFF" .
  have "of_nat n AND 0xFFFFFFFE = (0xFFFE :: u32) \<longleftrightarrow> n div 2 * 2 = 0xFFFE"
    unfolding word_unat_eq_iff unat_and_highs u by simp
  also have "\<dots> \<longleftrightarrow> n div 2 = 0x7FFF" by simp
  also have "\<dots> \<longleftrightarrow> n = 0xFFFE \<or> n = 0xFFFF" by (subst div_range) auto
  finally have b: "of_nat n AND 0xFFFFFFFE = (0xFFFE :: u32) \<longleftrightarrow> n = 0xFFFE \<or> n = 0xFFFF" .
  show ?thesis unfolding utf8Check_def a b s using assms(1) by (auto simp: rejected_def)
qed

lemma group64:
  "64 * (n div 4096) + n div 64 mod 64 = n div 64" "64 * (n div 262144) + n div 4096 mod 64 = n div 4096" for n :: nat
  using mult_div_mod_eq [of 64 "n div 64"] mult_div_mod_eq [of 64 "n div 4096"] by (simp_all flip: div_mult2_eq)

lemma utf8Loop_conts:
  assumes "stops t r"
  shows "\<forall>m \<in> set ms. m < 64 \<Longrightarrow>
    utf8Loop (of_nat x) k (map (\<lambda>m. of_nat (0x80 + m)) ms @ t) (map_option (\<lambda>n. n + length ms) r) =
      Inr (of_nat (foldl (\<lambda>x m. 64 * x + m) x ms), k + length ms)"
proof (induction ms arbitrary: x k)
  case Nil
  then show ?case using utf8Loop_stops [OF assms] by (simp add: option.map_ident)
next
  case (Cons m ms)
  from utf8Loop_cont [of m x k "map (\<lambda>m. of_nat (0x80 + m)) ms @ t" "length ms" r] Cons
  show ?case by (simp del: of_nat_add of_nat_mult)
qed

lemma Utf8Read_multi:
  assumes "stops t r" "m < 64" "sqlite3UtfTrans1 ! m = of_nat x" "x < 256" "\<forall>m \<in> set ms. m < 64"
  shows "sqlite3Utf8Read (of_nat (0xc0 + m) # map (\<lambda>m. of_nat (0x80 + m)) ms @ t) (map_option (\<lambda>n. n + Suc (length ms)) r) =
    Inr (utf8Check (of_nat (foldl (\<lambda>x m. 64 * x + m) x ms)), Suc (length ms))"
  using Utf8Read_lead [OF assms(2-4), of "map (\<lambda>m. of_nat (0x80 + m)) ms @ t" "length ms" r]
    utf8Loop_conts [OF assms(1,5), of x 1]
  by (simp del: of_nat_add of_nat_mult)

text \<open>The number behind the first byte and the six-bit groups of a multi-byte character.\<close>

definition utf8_lead :: "nat \<Rightarrow> nat \<times> nat \<times> nat list" where
  "utf8_lead n = (if n < 0x800 then (n div 64, n div 64, [n mod 64])
     else if n < 0x10000 then (32 + n div 4096, n div 4096, [n div 64 mod 64, n mod 64])
     else (48 + n div 262144, n div 262144, [n div 4096 mod 64, n div 64 mod 64, n mod 64]))"

lemma utf8_lead_spec:
  assumes "0x80 \<le> n" "n < 0x110000" "utf8_lead n = (m, x, ms)"
  shows "m < 64 \<and> sqlite3UtfTrans1 ! m = of_nat x \<and> x < 256 \<and> (\<forall>m \<in> set ms. m < 64)
    \<and> foldl (\<lambda>x m. 64 * x + m) x ms = n \<and> utf8_nums n = (0xc0 + m) # map (\<lambda>m. 0x80 + m) ms"
proof -
  consider "n < 0x800" | "0x800 \<le> n" "n < 0x10000" | "0x10000 \<le> n" by linarith
  then show ?thesis
  proof cases
    case 1
    then have "n div 64 < 32" using less_mult_imp_div_less [of n 32 64] by simp
    with 1 assms trans_table(1) show ?thesis by (auto simp: utf8_lead_def utf8_nums_def)
  next
    case 2
    then have "n div 4096 < 16" using less_mult_imp_div_less [of n 16 4096] by simp
    with 2 assms trans_table(2) group64 show ?thesis by (auto simp: utf8_lead_def utf8_nums_def)
  next
    case 3
    have "n div 262144 < 8" using assms(2) less_mult_imp_div_less [of n 8 262144] by simp
    with 3 assms trans_table(3) group64 show ?thesis by (auto simp: utf8_lead_def utf8_nums_def)
  qed
qed

lemma Utf8Read_nums:
  assumes "n < 0x110000" "stops t r"
  shows "sqlite3Utf8Read (map of_nat (utf8_nums n) @ t) (map_option (\<lambda>x. x + length (utf8_nums n)) r) =
    Inr (if rejected n then 0xFFFD else of_nat n, length (utf8_nums n))"
proof (cases "n < 0x80")
  case True
  then have "\<not> rejected n" by (simp add: rejected_def)
  with True ascii_table [of n] show ?thesis
    by (simp add: utf8_nums_def sqlite3Utf8Read_def ucast_of_nat_byte)
next
  case False
  obtain m x ms where l: "utf8_lead n = (m, x, ms)" by (cases "utf8_lead n")
  from utf8_lead_spec [OF _ assms(1) l] False have
    s: "m < 64" "sqlite3UtfTrans1 ! m = of_nat x" "x < 256" "\<forall>m \<in> set ms. m < 64"
      "foldl (\<lambda>x m. 64 * x + m) x ms = n" "utf8_nums n = (0xc0 + m) # map (\<lambda>m. 0x80 + m) ms"
    by simp_all
  from Utf8Read_multi [OF assms(2) s(1-4)] utf8Check_spec [of n] False assms(1) show ?thesis
    unfolding s(5,6) by (simp add: comp_def del: of_nat_add)
qed

subsection \<open>UTF-16\<close>

lemma unat_and_field:
  fixes w :: u32
  shows "unat (w AND 0xC0) = unat w div 64 mod 4 * 64" "unat (w AND 0x3C0) = unat w div 64 mod 16 * 64"
proof -
  have f: "unat (w AND push_bit 6 (mask k)) = unat w div 64 mod 2 ^ k * 64" if "k \<le> 16" for k
  proof -
    have "w AND push_bit 6 (mask k) = push_bit 6 (drop_bit 6 w AND mask k)"
      by (rule bit_word_eqI) (auto simp: bit_simps)
    then have e: "w AND push_bit 6 (mask k) = (drop_bit 6 w AND mask k) * 64" by (simp add: push_bit_eq_mult)
    have "(2::nat) ^ k \<le> 2 ^ 16" using that by (intro power_increasing) simp_all
    then have "unat w div 64 mod 2 ^ k < 2 ^ 16" by (rule less_le_trans [rotated]) simp
    then have "unat w div 64 mod 2 ^ k * 64 < 2 ^ 32" by simp
    then show ?thesis unfolding e by (subst unat_mult_no_wrap) (simp_all add: unat_and_mask_mod unat_drop_bit_div)
  qed
  have m: "(0xC0 :: u32) = push_bit 6 (mask 2)" "(0x3C0 :: u32) = push_bit 6 (mask 4)"
    by (simp_all add: mask_eq_exp_minus_1)
  show "unat (w AND 0xC0) = unat w div 64 mod 4 * 64" "unat (w AND 0x3C0) = unat w div 64 mod 16 * 64"
    unfolding m using f [of 2] f [of 4] by simp_all
qed

lemma unit_of_bytes:
  assumes "a < 256" "b < 256"
  shows "ucast (of_nat a :: byte) + push_bit 8 (ucast (of_nat b :: byte)) = (of_nat (a + 256 * b) :: u32)"
    "push_bit 8 (ucast (of_nat b :: byte)) + ucast (of_nat a :: byte) = (of_nat (a + 256 * b) :: u32)"
  using assms by (simp_all add: ucast_of_nat_byte push_bit_eq_mult)

lemma word_of_unat: "unat w = n \<Longrightarrow> w = of_nat n" for w :: u32
  by auto

lemma joinUnits_nums:
  assumes "q < 1024" "r < 1024"
  shows "joinUnits (of_nat (0xD800 + q)) (of_nat (0xDC00 + r)) = of_nat (0x10000 + 1024 * q + r)"
proof -
  let ?c = "of_nat (0xD800 + q) :: u32" and ?d = "of_nat (0xDC00 + r) :: u32"
  have u: "unat ?c = 0xD800 + q" "unat ?d = 0xDC00 + r" by (rule unat_of_nat_small, use assms in simp)+
  have "(0xDC00 + r) mod 1024 = r" using assms(2) mod_mult_self3 [of 55 1024 r] by simp
  then have 1: "unat (?d AND 0x3FF) = r" using u by (simp only: unat_and_masks)
  have "(0xD800 + q) mod 64 = q mod 64" using mod_mult_self3 [of 864 64 q] by simp
  then have 2: "unat (?c AND 0x3F) = q mod 64" using u by (simp only: unat_and_masks)
  have "(0xD800 + q) div 64 = 864 + q div 64" using div_mult_self3 [of 64 864 q] by simp
  moreover have "(864 + q div 64) mod 16 = q div 64"
    using mod_mult_self3 [of 54 16 "q div 64"] less_mult_imp_div_less [of q 16 64] assms(1) by simp
  ultimately have 3: "unat (?c AND 0x3C0) = q div 64 * 64" using u by (simp only: unat_and_field)
  let ?n = "r + 1024 * (q mod 64) + 1024 * (q div 64 * 64 + 64)"
  have w1: "?d AND 0x3FF = of_nat r" by (rule word_of_unat [OF 1])
  have w2: "?c AND 0x3F = of_nat (q mod 64)" by (rule word_of_unat [OF 2])
  have w3: "?c AND 0x3C0 = of_nat (q div 64 * 64)" by (rule word_of_unat [OF 3])
  have "(?d AND 0x3FF) + push_bit 10 (?c AND 0x3F) + push_bit 10 ((?c AND 0x3C0) + 0x40) = of_nat ?n"
    unfolding w1 w2 w3 by (simp add: push_bit_eq_mult algebra_simps)
  moreover have "r + 1024 * b + 1024 * (a * 64 + 64) = 0x10000 + 1024 * q + r" if "a * 64 + b = q" for a b
    unfolding that [symmetric] by (simp add: algebra_simps)
  from this [OF div_mult_mod_eq] have n: "?n = 0x10000 + 1024 * q + r" .
  moreover have "unat (of_nat (0x10000 + 1024 * q + r) :: u32) = 0x10000 + 1024 * q + r"
    by (rule unat_of_nat_small) (use assms in simp)
  then have "(of_nat (0x10000 + 1024 * q + r) :: u32) AND 0xFFFF0000 \<noteq> 0"
    unfolding word_unat_eq_iff unat_and_highs using div_le_mono [of 65536 "0x10000 + 1024 * q + r" 65536] by simp
  ultimately show ?thesis unfolding joinUnits_def Let_def by (simp only: if_False)
qed

definition utf16_units :: "nat \<Rightarrow> nat list" where
  "utf16_units n = (if n \<le> 0xFFFF then [n] else [0xD800 + (n - 0x10000) div 1024, 0xDC00 + n mod 1024])"

definition le_bytes :: "nat \<Rightarrow> byte list" where
  "le_bytes u = [of_nat (u mod 256), of_nat (u div 256)]"

definition be_bytes :: "nat \<Rightarrow> byte list" where
  "be_bytes u = [of_nat (u div 256), of_nat (u mod 256)]"

lemma pair_parts:
  fixes q n :: nat
  assumes "q < 1024"
  shows "(0xD800 + q) mod 256 = q mod 256" "(0xD800 + q) div 256 = 0xD8 + q div 256"
    "(0xDC00 + n mod 1024) mod 256 = n mod 256" "(0xDC00 + n mod 1024) div 256 = 0xDC + n div 256 mod 4"
proof -
  show "(0xD800 + q) mod 256 = q mod 256" using mod_mult_self3 [of 216 256 q] by simp
  show "(0xD800 + q) div 256 = 0xD8 + q div 256" using div_mult_self3 [of 256 216 q] by simp
  have m: "n mod 1024 mod 256 = n mod 256" by (rule mod_mod_cancel) simp
  show "(0xDC00 + n mod 1024) mod 256 = n mod 256" using mod_mult_self3 [of 220 256 "n mod 1024"] m by simp
  have "n mod 1024 = 256 * (n div 256 mod 4) + n mod 256" using mod_mult2_eq [of n 256 4] by simp
  then have "n mod 1024 div 256 = n div 256 mod 4" by simp
  then show "(0xDC00 + n mod 1024) div 256 = 0xDC + n div 256 mod 4" using div_mult_self3 [of 256 220 "n mod 1024"] by simp
qed

lemma pair_bytes:
  assumes "0xFFFF < n" "n < 0x110000"
  defines "q \<equiv> (n - 0x10000) div 1024"
  shows "highByte (of_nat n) = of_nat (q mod 256)"
    "(ucast (0xD8 + (drop_bit 18 (of_nat n - 0x10000 :: u32) AND 0x03)) :: byte) = of_nat (0xD8 + q div 256)"
    "(ucast (of_nat n AND 0xFF :: u32) :: byte) = of_nat (n mod 256)"
    "(ucast (0xDC + (drop_bit 8 (of_nat n :: u32) AND 0x03)) :: byte) = of_nat (0xDC + n div 256 mod 4)"
proof -
  let ?c = "of_nat n :: u32"
  have u: "unat ?c = n" by (rule unat_of_nat_small) (use assms in simp)
  have d: "unat (?c - 0x10000) = n - 0x10000"
    using u assms(1) by (subst unat_sub_no_wrap) (simp_all add: word_le_nat_alt)
  have q: "q < 1024" unfolding q_def by (rule less_mult_imp_div_less) (use assms in simp)
  have "n = 64 * 1024 + (n - 0x10000)" using assms(1) by simp
  then have "n div 1024 = 64 + q" unfolding q_def using div_mult_self3 [of 1024 64 "n - 0x10000"] by simp
  then have "n div 1024 mod 64 = q mod 64" by simp
  then have h1: "unat (drop_bit 10 ?c AND 0x3F) = q mod 64" by (simp add: unat_and_masks unat_shifted u)
  have h2: "unat (drop_bit 10 (?c - 0x10000) AND 0xC0) = q div 64 mod 4 * 64"
    unfolding unat_and_field unat_shifted d q_def by simp
  have h: "q mod 64 + q div 64 mod 4 * 64 = q mod 256" using mod_mult2_eq [of q 64 4] by simp
  then have "q mod 64 + q div 64 mod 4 * 64 < 2 ^ 32" using mod_less_divisor [of 256 q] by simp
  from tag_byte [OF h2 h1 this] h show "highByte ?c = of_nat (q mod 256)" unfolding highByte_def by simp
  have "unat (drop_bit 18 (?c - 0x10000) AND 0x03) = q div 256 mod 4"
    unfolding unat_and_masks unat_shifted d q_def by (simp flip: div_mult2_eq)
  also have "q div 256 mod 4 = q div 256" using less_mult_imp_div_less [of q 4 256] q by simp
  finally show "(ucast (0xD8 + (drop_bit 18 (?c - 0x10000) AND 0x03)) :: byte) = of_nat (0xD8 + q div 256)"
    by (rule tag_byte) (use q in simp_all)
  show "(ucast (?c AND 0xFF) :: byte) = of_nat (n mod 256)" unfolding ucast_of_nat unat_and_masks u ..
  show "(ucast (0xDC + (drop_bit 8 ?c AND 0x03)) :: byte) = of_nat (0xDC + n div 256 mod 4)"
    by (rule tag_byte, unfold unat_and_masks unat_shifted u, simp, simp, rule tag_bound) simp_all
qed

lemma unit_bytes:
  assumes "n \<le> 0xFFFF"
  shows "(ucast (of_nat n AND 0xFF :: u32) :: byte) = of_nat (n mod 256)"
    "(ucast (drop_bit 8 (of_nat n) AND 0xFF :: u32) :: byte) = of_nat (n div 256)"
proof -
  have u: "unat (of_nat n :: u32) = n" by (rule unat_of_nat_small) (use assms in simp)
  have "n div 256 < 256" by (rule less_mult_imp_div_less) (use assms in simp)
  with u show "(ucast (of_nat n AND 0xFF :: u32) :: byte) = of_nat (n mod 256)"
    "(ucast (drop_bit 8 (of_nat n) AND 0xFF :: u32) :: byte) = of_nat (n div 256)"
    unfolding ucast_of_nat unat_and_masks unat_shifted by simp_all
qed

lemma WRITE_UTF16_nums:
  assumes "n < 0x110000"
  shows "WRITE_UTF16LE (of_nat n) = concat (map le_bytes (utf16_units n))"
    "WRITE_UTF16BE (of_nat n) = concat (map be_bytes (utf16_units n))"
proof -
  have u: "unat (of_nat n :: u32) = n" by (rule unat_of_nat_small) (use assms in simp)
  have c: "of_nat n \<le> (0xFFFF :: u32) \<longleftrightarrow> n \<le> 0xFFFF" unfolding word_le_nat_alt u by simp
  have q: "(n - 0x10000) div 1024 < 1024" by (rule less_mult_imp_div_less) (use assms in simp)
  show "WRITE_UTF16LE (of_nat n) = concat (map le_bytes (utf16_units n))"
    "WRITE_UTF16BE (of_nat n) = concat (map be_bytes (utf16_units n))"
    unfolding WRITE_UTF16LE_def WRITE_UTF16BE_def c utf16_units_def le_bytes_def be_bytes_def
    using pair_bytes [OF _ assms] unit_bytes [of n] pair_parts(1,2) [OF q] pair_parts(3,4) [OF q, of n]
    by (simp_all del: of_nat_add split: if_split)
qed

lemma surrogate_nums: "u < 0x10000 \<Longrightarrow> surrogate (of_nat u) \<longleftrightarrow> 0xD800 \<le> u \<and> u < 0xE000"
  by (simp add: surrogate_def word_le_nat_alt word_less_nat_alt unat_of_nat_small)

lemma unit_join:
  assumes "u < 0x10000"
  shows "ucast (of_nat (u mod 256) :: byte) + push_bit 8 (ucast (of_nat (u div 256) :: byte)) = (of_nat u :: u32)"
    "push_bit 8 (ucast (of_nat (u div 256) :: byte)) + ucast (of_nat (u mod 256) :: byte) = (of_nat u :: u32)"
proof -
  have d: "u div 256 < 256" "u mod 256 < 256" by (rule less_mult_imp_div_less) (use assms in simp_all)
  have e: "u mod 256 + 256 * (u div 256) = u" by simp
  show "ucast (of_nat (u mod 256) :: byte) + push_bit 8 (ucast (of_nat (u div 256) :: byte)) = (of_nat u :: u32)"
    "push_bit 8 (ucast (of_nat (u div 256) :: byte)) + ucast (of_nat (u mod 256) :: byte) = (of_nat u :: u32)"
    using unit_of_bytes [OF d(2,1)] unfolding e .
qed

text \<open>Either byte order reads a plain unit, and a pair of surrogate units, back.\<close>

lemma READ_UTF16_unit:
  assumes "u < 0x10000" "\<not> (0xD800 \<le> u \<and> u < 0xE000)"
  shows "READ_UTF16LE (le_bytes u @ t) = Inr (of_nat u, 2)" "READ_UTF16BE (be_bytes u @ t) = Inr (of_nat u, 2)"
  unfolding READ_UTF16LE_def READ_UTF16BE_def le_bytes_def be_bytes_def
  using surrogate_nums [OF assms(1)] assms(2) unit_join [OF assms(1)] by (simp_all add: Let_def)

lemma READ_UTF16_pair:
  assumes "q < 1024" "r < 1024"
  shows "READ_UTF16LE (le_bytes (0xD800 + q) @ le_bytes (0xDC00 + r) @ t) = Inr (of_nat (0x10000 + 1024 * q + r), 4)"
    "READ_UTF16BE (be_bytes (0xD800 + q) @ be_bytes (0xDC00 + r) @ t) = Inr (of_nat (0x10000 + 1024 * q + r), 4)"
proof -
  have u: "0xD800 + q < 0x10000" "0xDC00 + r < 0x10000" using assms by simp_all
  have s: "surrogate (of_nat (0xD800 + q))" using surrogate_nums [OF u(1)] assms(1) by simp
  show "READ_UTF16LE (le_bytes (0xD800 + q) @ le_bytes (0xDC00 + r) @ t) = Inr (of_nat (0x10000 + 1024 * q + r), 4)"
    unfolding READ_UTF16LE_def le_bytes_def
    by (simp add: rd_def unit_join [OF u(1)] unit_join [OF u(2)] s joinUnits_nums [OF assms] numeral_2_eq_2 numeral_3_eq_3 del: of_nat_add)
  show "READ_UTF16BE (be_bytes (0xD800 + q) @ be_bytes (0xDC00 + r) @ t) = Inr (of_nat (0x10000 + 1024 * q + r), 4)"
    unfolding READ_UTF16BE_def be_bytes_def
    by (simp add: rd_def unit_join [OF u(1)] unit_join [OF u(2)] s joinUnits_nums [OF assms] numeral_2_eq_2 numeral_3_eq_3 del: of_nat_add)
qed

text \<open>A code point that both UTF-16 forms represent, and one that UTF-8 reads back as well.\<close>

definition scalar :: "u32 \<Rightarrow> bool" where
  "scalar c \<longleftrightarrow> unat c < 0x110000 \<and> \<not> surrogate c"

definition plain :: "u32 \<Rightarrow> bool" where
  "plain c \<longleftrightarrow> unat c < 0x110000 \<and> \<not> rejected (unat c)"

lemma plain_scalar: "plain c \<Longrightarrow> scalar c"
  by (auto simp: plain_def scalar_def rejected_def surrogate_def word_le_nat_alt word_less_nat_alt)

lemma READ_UTF16_nums:
  assumes "n < 0x110000" "\<not> (0xD800 \<le> n \<and> n < 0xE000)"
  shows "READ_UTF16LE (concat (map le_bytes (utf16_units n)) @ t) = Inr (of_nat n, 2 * length (utf16_units n))"
    "READ_UTF16BE (concat (map be_bytes (utf16_units n)) @ t) = Inr (of_nat n, 2 * length (utf16_units n))"
proof -
  consider "n \<le> 0xFFFF" | "0xFFFF < n" by linarith
  then have "READ_UTF16LE (concat (map le_bytes (utf16_units n)) @ t) = Inr (of_nat n, 2 * length (utf16_units n))
    \<and> READ_UTF16BE (concat (map be_bytes (utf16_units n)) @ t) = Inr (of_nat n, 2 * length (utf16_units n))"
  proof cases
    case 1
    then show ?thesis using READ_UTF16_unit [of n t] assms(2) by (simp add: utf16_units_def)
  next
    case 2
    let ?q = "(n - 0x10000) div 1024"
    have q: "?q < 1024" by (rule less_mult_imp_div_less) (use assms in simp)
    have "n = 1024 * 64 + (n - 0x10000)" using 2 by simp
    then have "n mod 1024 = (n - 0x10000) mod 1024" using mod_mult_self4 [of 1024 64 "n - 0x10000"] by simp
    then have "0x10000 + 1024 * ?q + n mod 1024 = n" using 2 mult_div_mod_eq [of 1024 "n - 0x10000"] by linarith
    with READ_UTF16_pair [OF q, of "n mod 1024" t] 2 show ?thesis
      by (simp add: utf16_units_def del: of_nat_add)
  qed
  then show "READ_UTF16LE (concat (map le_bytes (utf16_units n)) @ t) = Inr (of_nat n, 2 * length (utf16_units n))"
    "READ_UTF16BE (concat (map be_bytes (utf16_units n)) @ t) = Inr (of_nat n, 2 * length (utf16_units n))" by blast+
qed

lemma length_units: "length (concat (map le_bytes us)) = 2 * length us" "length (concat (map be_bytes us)) = 2 * length us"
  by (induction us) (simp_all add: le_bytes_def be_bytes_def)

lemma READ_UTF16_WRITE:
  assumes "n < 0x110000" "\<not> (0xD800 \<le> n \<and> n < 0xE000)"
  shows "READ_UTF16LE (WRITE_UTF16LE (of_nat n) @ t) = Inr (of_nat n, length (WRITE_UTF16LE (of_nat n)))"
    "READ_UTF16BE (WRITE_UTF16BE (of_nat n) @ t) = Inr (of_nat n, length (WRITE_UTF16BE (of_nat n)))"
  using READ_UTF16_nums [OF assms, of t] WRITE_UTF16_nums [OF assms(1)] length_units by simp_all

lemma scalar_nums: "scalar c \<Longrightarrow> unat c < 0x110000 \<and> \<not> (0xD800 \<le> unat c \<and> unat c < 0xE000)"
  by (simp add: scalar_def surrogate_def word_le_nat_alt word_less_nat_alt)

interpretation utf16le: codec scalar WRITE_UTF16LE READ_UTF16LE
proof
  fix v t assume "scalar v"
  then show "READ_UTF16LE (WRITE_UTF16LE v @ t) = Inr (v, length (WRITE_UTF16LE v))"
    using READ_UTF16_WRITE(1) [of "unat v" t] scalar_nums [of v] by simp
qed

interpretation utf16be: codec scalar WRITE_UTF16BE READ_UTF16BE
proof
  fix v t assume "scalar v"
  then show "READ_UTF16BE (WRITE_UTF16BE v @ t) = Inr (v, length (WRITE_UTF16BE v))"
    using READ_UTF16_WRITE(2) [of "unat v" t] scalar_nums [of v] by simp
qed

lemma Utf8Read_WRITE:
  assumes "plain c" "stops t r"
  shows "sqlite3Utf8Read (WRITE_UTF8 c @ t) (map_option (\<lambda>x. x + length (WRITE_UTF8 c)) r) = Inr (c, length (WRITE_UTF8 c))"
  using Utf8Read_nums [of "unat c", OF _ assms(2)] assms(1) by (simp add: plain_def WRITE_UTF8_nums)

lemma self_test_marks:
  assumes "n < 0x110000"
  shows "(of_nat n :: u32) AND 0xFFFFFFFE = 0xFFFE \<longleftrightarrow> n = 0xFFFE \<or> n = 0xFFFF"
    "(0xD800 :: u32) \<le> of_nat n \<longleftrightarrow> 0xD800 \<le> n" "of_nat n \<le> (0xDFFF :: u32) \<longleftrightarrow> n \<le> 0xDFFF"
    "of_nat n < (0xE000 :: u32) \<longleftrightarrow> n < 0xE000"
proof -
  have u: "unat (of_nat n :: u32) = n" by (rule unat_of_nat_small) (use assms in simp)
  have "of_nat n AND 0xFFFFFFFE = (0xFFFE :: u32) \<longleftrightarrow> n div 2 = 0x7FFF"
    unfolding word_unat_eq_iff unat_and_highs u by simp
  then show "(of_nat n :: u32) AND 0xFFFFFFFE = 0xFFFE \<longleftrightarrow> n = 0xFFFE \<or> n = 0xFFFF"
    by (subst (asm) div_range) auto
  show "(0xD800 :: u32) \<le> of_nat n \<longleftrightarrow> 0xD800 \<le> n" "of_nat n \<le> (0xDFFF :: u32) \<longleftrightarrow> n \<le> 0xDFFF"
    "of_nat n < (0xE000 :: u32) \<longleftrightarrow> n < 0xE000"
    unfolding word_le_nat_alt word_less_nat_alt u by simp_all
qed

lemma selfTestUtf8_holds: "n < 0x110000 \<Longrightarrow> selfTestUtf8 (of_nat n)"
proof -
  assume n: "n < 0x110000"
  have u: "unat (of_nat n :: u32) = n" by (rule unat_of_nat_small) (use n in simp)
  have "stops [0] (Some 0)" by (simp add: stops_def)
  from Utf8Read_nums [OF n this] show ?thesis
    unfolding selfTestUtf8_def Let_def self_test_marks [OF n] WRITE_UTF8_nums u
    by (auto simp: rejected_def)
qed

text \<open>
  C27: the self test of the encodings passes. Every code point up to 0x10FFFF reads back from
  its UTF-8 form (surrogates and the two non-characters as the replacement character), and
  every one that is not a surrogate reads back from both UTF-16 forms, each time with the
  read pointer exactly behind the character.
\<close>

theorem utf_self_test: "sqlite3UtfSelfTest"
proof -
  have "selfTestUtf16LE (of_nat n) \<and> selfTestUtf16BE (of_nat n)" if n: "n < 0x110000" for n
    unfolding selfTestUtf16LE_def selfTestUtf16BE_def self_test_marks [OF n] using READ_UTF16_WRITE [OF n] by blast
  with selfTestUtf8_holds show ?thesis unfolding sqlite3UtfSelfTest_def by blast
qed

subsection \<open>Translation preserves text\<close>

lemma putOut_fits:
  "k + length cs \<le> length out \<Longrightarrow> putOut out k cs = Inr (take k out @ cs @ drop (k + length cs) out)"
proof (induction cs arbitrary: out k)
  case (Cons c cs)
  then have "k < length out" by simp
  then have "wr out k c = Inr (out[k := c])" by simp
  moreover have "putOut (out[k := c]) (k + 1) cs =
    Inr (take (k + 1) (out[k := c]) @ cs @ drop (k + 1 + length cs) (out[k := c]))"
    by (rule Cons.IH) (use Cons.prems in simp)
  ultimately show ?case using Cons.prems by (simp add: take_Suc_conv_app_nth)
qed simp

text \<open>
  What a conversion loop needs of the reader of its source encoding: at the start of a text,
  with the number of bytes left, it returns the first character and the size of its encoding.
\<close>

locale text_encoding =
  fixes valid :: "u32 \<Rightarrow> bool"
    and encode :: "u32 \<Rightarrow> byte list"
    and reader :: "byte list \<Rightarrow> nat \<Rightarrow> (u32 \<times> nat) cres"
  assumes reads: "valid c \<Longrightarrow> \<forall>d \<in> set cs. valid d \<Longrightarrow>
      reader (concat (map encode (c # cs)) @ t) (length (concat (map encode (c # cs)))) = Inr (c, length (encode c))"
    and encode_ne: "encode c \<noteq> []"
begin

lemma translate_text:
  "\<forall>c \<in> set cs. valid c \<Longrightarrow> drop i z = concat (map encode cs) @ t \<Longrightarrow> i \<le> length z \<Longrightarrow> n = i + length (concat (map encode cs)) \<Longrightarrow>
   length cs \<le> f \<Longrightarrow> k + length (concat (map w cs)) \<le> length out \<Longrightarrow>
   translateLoop reader w f z n i out k =
     Some (Inr (k + length (concat (map w cs)),
       take k out @ concat (map w cs) @ drop (k + length (concat (map w cs))) out))"
proof (induction cs arbitrary: i f k out)
  case Nil
  then show ?case by (cases f) simp_all
next
  case (Cons c cs)
  let ?rest = "concat (map encode cs)"
  obtain g where f: "f = Suc g" using Cons.prems(5) by (cases f) simp_all
  have "i < n" using Cons.prems(4) encode_ne [of c] by simp
  moreover have "reader (drop i z) (n - i) = Inr (c, length (encode c))"
    using reads [of c cs t] Cons.prems(1,2,4) by simp
  moreover have o: "putOut out k (w c) = Inr (take k out @ w c @ drop (k + length (w c)) out)"
    by (rule putOut_fits) (use Cons.prems(6) in simp)
  ultimately have s: "translateLoop reader w f z n i out k =
      translateLoop reader w g z n (i + length (encode c)) (take k out @ w c @ drop (k + length (w c)) out) (k + length (w c))"
    by (simp add: f)
  have k: "k + length (w c) \<le> length out" using Cons.prems(6) by simp
  have "drop (i + length (encode c)) z = ?rest @ t"
    using arg_cong [OF Cons.prems(2), of "drop (length (encode c))"] by (simp add: add.commute)
  moreover have "i + length (encode c) \<le> length z"
    using arg_cong [OF Cons.prems(2), of length] Cons.prems(3) by simp
  ultimately have "translateLoop reader w g z n (i + length (encode c)) (take k out @ w c @ drop (k + length (w c)) out) (k + length (w c)) =
    Some (Inr (k + length (w c) + length (concat (map w cs)),
       take (k + length (w c)) (take k out @ w c @ drop (k + length (w c)) out) @ concat (map w cs)
         @ drop (k + length (w c) + length (concat (map w cs))) (take k out @ w c @ drop (k + length (w c)) out)))"
    by (intro Cons.IH) (use Cons.prems k f in simp_all)
  with k show ?case unfolding s by (simp add: add.assoc min_absorb2 add.commute)
qed

end

text \<open>The three encodings.\<close>

lemma utf8_first: "\<exists>b bs. WRITE_UTF8 c = b # bs \<and> \<not> contByte b" if "unat c < 0x110000"
proof (cases "unat c < 0x80")
  case True
  have "\<forall>m \<in> set [0..<128]. \<not> contByte (of_nat m)" by code_simp
  moreover have "unat c \<in> set [0..<128]" using True by simp
  ultimately have "\<not> contByte (of_nat (unat c))" by (rule bspec)
  with True show ?thesis by (auto simp: WRITE_UTF8_nums utf8_nums_def)
next
  case False
  obtain m x ms where l: "utf8_lead (unat c) = (m, x, ms)" by (cases "utf8_lead (unat c)")
  have "\<forall>m \<in> set [0..<64]. \<not> contByte (of_nat (0xc0 + m))" by code_simp
  with utf8_lead_spec [OF _ that l] False show ?thesis by (auto simp: WRITE_UTF8_nums simp del: of_nat_add)
qed

lemma stops_text:
  "\<forall>d \<in> set cs. plain d \<Longrightarrow> stops (concat (map WRITE_UTF8 cs) @ t) (Some (length (concat (map WRITE_UTF8 cs))))"
  by (cases cs) (auto simp: stops_def plain_def dest!: utf8_first)

interpretation enc8: text_encoding plain "writerFor UTF8" "readerFor UTF8"
proof
  fix c cs t assume "plain c" "\<forall>d \<in> set cs. plain d"
  then show "readerFor UTF8 (concat (map (writerFor UTF8) (c # cs)) @ t) (length (concat (map (writerFor UTF8) (c # cs)))) =
    Inr (c, length (writerFor UTF8 c))"
    using Utf8Read_WRITE [OF _ stops_text, of c cs t] by (simp add: readerFor_def writerFor_def add.commute)
qed (simp add: writerFor_def WRITE_UTF8_def)

interpretation enc16le: text_encoding plain "writerFor UTF16LE" "readerFor UTF16LE"
  by unfold_locales
    (simp_all add: readerFor_def writerFor_def utf16le.decode_encode plain_scalar, simp add: WRITE_UTF16LE_def)

interpretation enc16be: text_encoding plain "writerFor UTF16BE" "readerFor UTF16BE"
  by unfold_locales
    (simp_all add: readerFor_def writerFor_def utf16be.decode_encode plain_scalar, simp add: WRITE_UTF16BE_def)

lemma any_encoding: "text_encoding plain (writerFor e) (readerFor e)"
  using enc8.text_encoding_axioms enc16le.text_encoding_axioms enc16be.text_encoding_axioms by (cases e) simp_all

text \<open>The text of a list of code points in an encoding.\<close>

definition textOf :: "enc \<Rightarrow> u32 list \<Rightarrow> byte list" where
  "textOf e cs = concat (map (writerFor e) cs)"

lemma writer_growth: "length (writerFor e c) \<le> 2 * length (writerFor e' c)"
proof -
  have "c < 0x800 \<Longrightarrow> c \<le> 0xFFFF" "c < 0x80 \<Longrightarrow> c \<le> 0xFFFF" by (auto simp: word_le_nat_alt word_less_nat_alt)
  then show ?thesis
    by (cases e; cases e') (auto simp: writerFor_def WRITE_UTF8_def WRITE_UTF16LE_def WRITE_UTF16BE_def)
qed

lemma text_growth: "length (textOf e cs) \<le> 2 * length (textOf e' cs)"
proof (induction cs)
  case (Cons c cs)
  with writer_growth [of e c e'] show ?case by (simp add: textOf_def)
qed (simp add: textOf_def)

lemma text_length: "length cs \<le> length (textOf e cs)"
proof (induction cs)
  case (Cons c cs)
  have "writerFor e c \<noteq> []" by (rule text_encoding.encode_ne [OF any_encoding])
  then show ?case using Cons by (cases "writerFor e c") (simp_all add: textOf_def)
qed (simp add: textOf_def)

fun swapPairs :: "byte list \<Rightarrow> byte list" where
  "swapPairs (a # b # t) = b # a # swapPairs t"
| "swapPairs t = t"

lemma swapPairs_append: "even (length xs) \<Longrightarrow> swapPairs (xs @ ys) = swapPairs xs @ swapPairs ys"
  by (induction xs rule: swapPairs.induct) simp_all

lemma swapPairs_idem [simp]: "swapPairs (swapPairs xs) = xs"
  by (induction xs rule: swapPairs.induct) simp_all

lemma length_swapPairs [simp]: "length (swapPairs xs) = length xs"
  by (induction xs rule: swapPairs.induct) simp_all

lemma swapLoop_spec:
  "drop i z = xs @ t \<Longrightarrow> i \<le> length z \<Longrightarrow> even (length xs) \<Longrightarrow> swapLoop z (i + length xs) i = Inr (take i z @ swapPairs xs @ t)"
proof (induction xs arbitrary: z i rule: swapPairs.induct)
  case (1 a b xs)
  have z: "z = take i z @ a # b # xs @ t" using append_take_drop_id [of i z] 1(2) by simp
  have l: "length z = i + 2 + length xs + length t" using arg_cong [OF 1(2), of length] 1(3) by simp
  have r: "z ! i = a" "z ! Suc i = b"
    using nth_of_drop [OF 1(2) [unfolded append_Cons]] nth_of_drop [of "Suc i" z b "xs @ t"] by auto
  let ?z = "z[i := b, Suc i := a]"
  have z': "?z = take i z @ b # a # xs @ t"
    by (subst z, subst z) (use 1(3) in \<open>simp add: list_update_append\<close>)
  have "swapLoop ?z (i + 2 + length xs) (i + 2) = Inr (take (i + 2) ?z @ swapPairs xs @ t)"
    by (rule 1(1)) (use 1(3,4) l in \<open>simp_all add: z'\<close>)
  then show ?case
    by (subst swapLoop.simps) (use r l 1(3) z' in \<open>simp add: add.commute add.left_commute\<close>)
next
  case "2_1"
  then show ?case by (subst swapLoop.simps) (use append_take_drop_id [of i z] in simp)
qed simp_all

lemma swap_WRITE: "swapPairs (WRITE_UTF16LE c) = WRITE_UTF16BE c" "even (length (WRITE_UTF16LE c))"
  by (simp_all add: WRITE_UTF16LE_def WRITE_UTF16BE_def)

lemma swap_textOf: "swapPairs (textOf UTF16LE cs) = textOf UTF16BE cs \<and> even (length (textOf UTF16LE cs))"
  by (induction cs) (simp_all add: textOf_def writerFor_def swapPairs_append swap_WRITE)

lemma swap_text:
  assumes "e \<noteq> UTF8" "e' \<noteq> UTF8" "e \<noteq> e'"
  shows "swapPairs (textOf e cs) = textOf e' cs" "even (length (textOf e cs))"
proof -
  have "swapPairs (textOf UTF16BE cs) = textOf UTF16LE cs" using swap_textOf [of cs] by (metis swapPairs_idem)
  moreover have "length (textOf UTF16BE cs) = length (textOf UTF16LE cs)" using swap_textOf [of cs] by (metis length_swapPairs)
  ultimately show "swapPairs (textOf e cs) = textOf e' cs" "even (length (textOf e cs))"
    using assms swap_textOf [of cs] by (cases e; cases e'; simp only: enc.simps simp_thms)+
qed

text \<open>A Mem holds a text in its encoding.\<close>

definition holds :: "Mem \<Rightarrow> u32 list \<Rightarrow> bool" where
  "holds m cs \<longleftrightarrow> mem_n m \<le> length (mem_z m) \<and> take (mem_n m) (mem_z m) = textOf (mem_enc m) cs"

lemma holds_split: "holds m cs \<Longrightarrow> \<exists>t. mem_z m = textOf (mem_enc m) cs @ t \<and> mem_n m = length (textOf (mem_enc m) cs)"
  unfolding holds_def by (metis append_take_drop_id length_take min_absorb2)

text \<open>A conversion needs a block whose size fits an int; swapping the bytes needs none.\<close>

definition translatable :: "enc \<Rightarrow> enc \<Rightarrow> nat \<Rightarrow> bool" where
  "translatable e d n \<longleftrightarrow> e \<noteq> UTF8 \<and> d \<noteq> UTF8 \<or> growth d n < 2 ^ 31"

lemma translateLen_pos: "growth d n < 2 ^ 31 \<Longrightarrow> translateLen n d = int (growth d n)"
  unfolding translateLen_def by (rule sint_of_nat)

lemma translateLen_neg:
  assumes "\<not> growth d n < 2 ^ 31" "n < 2 ^ 31"
  shows "translateLen n d \<le> 0"
proof (rule ccontr)
  assume "\<not> translateLen n d \<le> 0"
  have k: "2147483648 \<le> growth d n" "growth d n \<le> 4294967296" using assms by (auto simp: growth_def)
  from \<open>\<not> translateLen n d \<le> 0\<close> have pos: "0 < sint (of_nat (growth d n) :: u32)" by (simp add: translateLen_def)
  then have "unat (of_nat (growth d n) :: u32) < 2147483648" by (rule sint_pos_unat)
  with k have "growth d n = 4294967296" by (cases "growth d n = 4294967296") (simp_all add: unat_of_nat)
  then have "(of_nat (growth d n) :: u32) = of_nat 4294967296" by (rule arg_cong)
  with pos show False by simp
qed

lemma translate_too_long:
  "mem_enc m \<noteq> desired \<Longrightarrow> \<not> translatable (mem_enc m) desired (mem_n m) \<Longrightarrow> mem_n m < 2 ^ 31 \<Longrightarrow>
    sqlite3VdbeMemTranslate junk ok1 m desired = Some (Inr (False, m))"
  using translateLen_neg [of desired "mem_n m"] by (auto simp: sqlite3VdbeMemTranslate_def translatable_def)

lemma translate_swap:
  assumes "holds m cs" "mem_enc m \<noteq> desired" "mem_enc m \<noteq> UTF8" "desired \<noteq> UTF8"
  shows "\<exists>m'. sqlite3VdbeMemTranslate junk True m desired = Some (Inr (True, m')) \<and> holds m' cs \<and> mem_enc m' = desired"
proof -
  obtain t where t: "mem_z m = textOf (mem_enc m) cs @ t" "mem_n m = length (textOf (mem_enc m) cs)"
    using holds_split [OF assms(1)] by blast
  have "swapLoop (mem_z m) (mem_n m) 0 = Inr (textOf desired cs @ t)"
    using swapLoop_spec [of 0 "mem_z m" "textOf (mem_enc m) cs" t] swap_text [of "mem_enc m" desired cs] assms(2-4) t
    by simp
  moreover have "length (textOf desired cs) = mem_n m"
    using t(2) swap_text(1) [of "mem_enc m" desired cs] assms(2-4) by (metis length_swapPairs)
  ultimately show ?thesis using assms by (auto simp: sqlite3VdbeMemTranslate_def holds_def)
qed

lemma translate_convert:
  assumes "holds m cs" "\<forall>c \<in> set cs. plain c" "mem_enc m \<noteq> desired" "mem_enc m = UTF8 \<or> desired = UTF8"
    "growth desired (mem_n m) < 2 ^ 31"
  shows "\<exists>m'. sqlite3VdbeMemTranslate junk True m desired = Some (Inr (True, m')) \<and> holds m' cs \<and> mem_enc m' = desired"
proof -
  obtain t where t: "mem_z m = textOf (mem_enc m) cs @ t" "mem_n m = length (textOf (mem_enc m) cs)"
    using holds_split [OF assms(1)] by blast
  define len where "len = growth desired (mem_n m)"
  have len0: "\<not> int len \<le> 0" by (simp add: len_def growth_def)
  define junks where "junks = map junk [0..<len]"
  define tm where "tm = (if desired = UTF8 then [0] else [0, 0 :: byte])"
  let ?w = "textOf desired cs"
  have fit: "length ?w + length tm \<le> length junks"
    using text_growth [of desired cs "mem_enc m"] t(2) by (auto simp: junks_def len_def growth_def tm_def)
  have "translateLoop (readerFor (mem_enc m)) (writerFor desired) (mem_n m) (mem_z m) (mem_n m) 0 junks 0 =
      Some (Inr (0 + length ?w, take 0 junks @ ?w @ drop (0 + length ?w) junks))"
    unfolding textOf_def
    by (rule text_encoding.translate_text [OF any_encoding, where t = t])
      (use assms(2) t fit text_length [of cs "mem_enc m"] in \<open>simp_all add: textOf_def\<close>)
  moreover have "putOut (?w @ drop (length ?w) junks) (length ?w) tm =
      Inr (take (length ?w) (?w @ drop (length ?w) junks) @ tm @ drop (length ?w + length tm) (?w @ drop (length ?w) junks))"
    by (rule putOut_fits) (use fit in simp)
  ultimately have "sqlite3VdbeMemTranslate junk True m desired = Some (Inr (True,
      m\<lparr>mem_z := ?w @ tm @ drop (length tm) (drop (length ?w) junks), mem_n := length ?w, mem_enc := desired\<rparr>))"
    unfolding sqlite3VdbeMemTranslate_def Let_def translateLen_pos [OF assms(5)] nat_int len_def [symmetric] junks_def [symmetric] tm_def [symmetric]
    using assms(3,4) len0 by (auto simp: add.commute)
  then show ?thesis by (simp add: holds_def)
qed

lemma translate_holds:
  assumes "holds m cs" "\<forall>c \<in> set cs. plain c" "mem_enc m \<noteq> desired" "translatable (mem_enc m) desired (mem_n m)"
  shows "\<exists>m'. sqlite3VdbeMemTranslate junk True m desired = Some (Inr (True, m')) \<and> holds m' cs \<and> mem_enc m' = desired"
  using translate_swap [OF assms(1,3)] translate_convert [OF assms(1-3)] assms(4) unfolding translatable_def by blast

text \<open>
  C28: translating a text between any two of the three encodings keeps it. When memory is
  granted and the size of the new block, 2n + 1 or 2n + 2 for n bytes of text, fits an int, or only
  the bytes are swapped, the call succeeds, the result holds the same code points in the desired encoding, and translating it
  back, under the same condition on its length, gives the original bytes. A longer text is
  refused with SQLITE\_NOMEM and left as it was.
\<close>

theorem utf_translate_text:
  assumes "holds m cs" "\<forall>c \<in> set cs. plain c" "mem_enc m \<noteq> desired" "mem_n m < 2 ^ 31"
  shows "if translatable (mem_enc m) desired (mem_n m)
    then \<exists>m'. sqlite3VdbeMemTranslate junk True m desired = Some (Inr (True, m'))
      \<and> mem_enc m' = desired \<and> take (mem_n m') (mem_z m') = textOf desired cs \<and> mem_n m' = length (textOf desired cs)
      \<and> (translatable desired (mem_enc m) (mem_n m') \<longrightarrow>
          (\<exists>m''. sqlite3VdbeMemTranslate junk True m' (mem_enc m) = Some (Inr (True, m''))
            \<and> take (mem_n m'') (mem_z m'') = take (mem_n m) (mem_z m) \<and> mem_n m'' = mem_n m))
    else sqlite3VdbeMemTranslate junk True m desired = Some (Inr (False, m))"
proof (cases "translatable (mem_enc m) desired (mem_n m)")
  case True
  obtain m' where 1: "sqlite3VdbeMemTranslate junk True m desired = Some (Inr (True, m'))" "holds m' cs" "mem_enc m' = desired"
    using translate_holds [OF assms(1-3) True] by blast
  moreover have "\<exists>m''. sqlite3VdbeMemTranslate junk True m' (mem_enc m) = Some (Inr (True, m'')) \<and> holds m'' cs \<and> mem_enc m'' = mem_enc m"
    if "translatable desired (mem_enc m) (mem_n m')"
    using translate_holds [OF 1(2) assms(2), of "mem_enc m" junk] 1(3) assms(3) that by simp
  moreover have "mem_n m = length (textOf (mem_enc m) cs)" "mem_n m' = length (textOf desired cs)"
    using holds_split assms(1) 1(2,3) by blast+
  ultimately show ?thesis using assms(1) True holds_split [of _ cs] unfolding holds_def by metis
qed (use translate_too_long [OF assms(3) _ assms(4)] in simp)

theorem utf_translate_text_witness:
  "\<exists>m' m''. sqlite3VdbeMemTranslate (\<lambda>_. 7) True \<lparr>mem_z = [0x41, 0xC3, 0xA9, 0], mem_n = 3, mem_enc = UTF8\<rparr> UTF16LE = Some (Inr (True, m'))
    \<and> take (mem_n m') (mem_z m') = [0x41, 0, 0xE9, 0]
    \<and> sqlite3VdbeMemTranslate (\<lambda>_. 7) True m' UTF8 = Some (Inr (True, m'')) \<and> take (mem_n m'') (mem_z m'') = [0x41, 0xC3, 0xA9]"
proof -
  have "holds \<lparr>mem_z = [0x41, 0xC3, 0xA9, 0], mem_n = 3, mem_enc = UTF8\<rparr> [0x41, 0xE9]" by code_simp
  moreover have "\<forall>c \<in> set [0x41, 0xE9]. plain c" by (simp add: plain_def rejected_def)
  moreover have "textOf UTF16LE [0x41, 0xE9] = [0x41, 0, 0xE9, 0]" by code_simp
  ultimately show ?thesis
    using utf_translate_text [of "\<lparr>mem_z = [0x41, 0xC3, 0xA9, 0], mem_n = 3, mem_enc = UTF8\<rparr>" "[0x41, 0xE9]" UTF16LE "\<lambda>_. 7"]
    by (auto simp: translatable_def growth_def)
qed

subsection \<open>Translation of arbitrary bytes\<close>

text \<open>
  A reader that accepts any r remaining bytes with Q r, consumes at least one byte and whose
  character takes at most two bytes of output for each byte of the text it consumed keeps a
  conversion loop inside an output block of twice the size.
\<close>

lemma translate_safe:
  assumes step: "\<And>z' r. 0 < r \<Longrightarrow> Q r \<Longrightarrow> r + s \<le> length z' \<Longrightarrow>
      \<exists>c j. rdr z' r = Inr (c, j) \<and> 0 < j \<and> length (w c) \<le> 2 * min j r \<and> Q (r - j)"
  shows "Q (n - i) \<Longrightarrow> n + s \<le> length z \<Longrightarrow> n - i \<le> f \<Longrightarrow> k + 2 * (n - i) \<le> K \<Longrightarrow> K \<le> length out \<Longrightarrow>
    \<exists>k' out'. translateLoop rdr w f z n i out k = Some (Inr (k', out')) \<and> k' \<le> K \<and> length out' = length out"
proof (induction f arbitrary: i out k)
  case (Suc f)
  show ?case
  proof (cases "i < n")
    case True
    then obtain c j where j: "rdr (drop i z) (n - i) = Inr (c, j)" "0 < j" "length (w c) \<le> 2 * min j (n - i)" "Q (n - i - j)"
      using step [of "n - i" "drop i z", OF _ Suc.prems(1)] Suc.prems(2) by (auto simp: diff_le_mono)
    have fit: "k + length (w c) \<le> length out" using j(3) Suc.prems(4,5) by linarith
    have "k + length (w c) + 2 * (n - (i + j)) \<le> K" using j(3) Suc.prems(4) by linarith
    moreover have "Q (n - (i + j))" using j(4) by simp
    moreover have "n - (i + j) \<le> f" using j(2) Suc.prems(3) by linarith
    ultimately show ?thesis
      using Suc.IH [of "i + j" "k + length (w c)" "take k out @ w c @ drop (k + length (w c)) out"] Suc.prems(2,5) True j(1) fit
      by (simp add: putOut_fits)
  qed (use Suc.prems in simp)
qed simp

lemma utf8Loop_total:
  "n \<le> length z \<Longrightarrow> \<exists>c' j. utf8Loop c k z (Some n) = Inr (c', k + j) \<and> j \<le> n \<and> (j = 0 \<longrightarrow> c' = c)"
proof (induction z arbitrary: c k n)
  case (Cons b z)
  show ?case
  proof (cases n)
    case (Suc n')
    then obtain c' j where "utf8Loop (push_bit 6 c + ucast (0x3f AND b)) (k + 1) z (Some n') = Inr (c', k + 1 + j)" "j \<le> n'"
      using Cons.IH [of n' "push_bit 6 c + ucast (0x3f AND b)" "k + 1"] Cons.prems by auto
    with Suc show ?thesis by (auto intro: exI [of _ "Suc j"])
  qed simp
qed simp

lemma small_ucast: "(ucast (b :: byte) :: u32) \<le> 0xFFFF"
proof -
  have "unat (ucast b :: u32) = unat b" using ucast_of_nat_byte [of "unat b"] unat_of_nat_small [of "unat b", where 'n = 32]
    unat_less_256 [of b] by simp
  moreover have "unat b \<le> 65535" using unat_less_256 [of b] by linarith
  ultimately show ?thesis by (simp add: word_le_nat_alt)
qed

lemma Utf8Read_total:
  assumes "0 < n" "n \<le> length z"
  shows "\<exists>c j. sqlite3Utf8Read z (Some n) = Inr (c, j) \<and> 0 < j \<and> j \<le> n \<and> (j = 1 \<longrightarrow> c \<le> 0xFFFF)"
proof -
  obtain b t where z: "z = b # t" using assms by (cases z) auto
  have t: "n - 1 \<le> length t" using assms z by simp
  show ?thesis
  proof (cases "b \<ge> 0xc0")
    case True
    then have "unat (b - 0xc0) = unat b - 192" by (simp add: unat_sub_no_wrap)
    then have "unat (b - 0xc0) < 64" using unat_less_256 [of b] by linarith
    then have i: "unat (b - 0xc0) < length sqlite3UtfTrans1" by (simp add: trans_table)
    obtain c j where "utf8Loop (ucast (sqlite3UtfTrans1 ! unat (b - 0xc0))) 1 t (Some (n - 1)) = Inr (c, 1 + j)" "j \<le> n - 1"
        "j = 0 \<longrightarrow> c = ucast (sqlite3UtfTrans1 ! unat (b - 0xc0))"
      using utf8Loop_total [OF t] by blast
    moreover have "utf8Check (ucast x) \<le> 0xFFFF" for x :: byte using small_ucast by (simp add: utf8Check_def)
    ultimately show ?thesis using True z i assms(1) by (auto simp: sqlite3Utf8Read_def)
  qed (use z assms small_ucast in \<open>simp add: sqlite3Utf8Read_def\<close>)
qed

lemma READ_UTF16_total:
  assumes "0 < r" "even r" "r + 2 \<le> length z"
  shows "\<exists>c j. READ_UTF16LE z = Inr (c, j) \<and> (j = 2 \<and> c < 0x10000 \<or> j = 4)"
    "\<exists>c j. READ_UTF16BE z = Inr (c, j) \<and> (j = 2 \<and> c < 0x10000 \<or> j = 4)"
proof -
  have "2 \<le> r" using assms(1,2) by (metis Suc_leI dvd_imp_le)
  then have l: "0 < length z" "1 < length z" "2 < length z" "3 < length z" using assms(3) by linarith+
  have u: "ucast a + push_bit 8 (ucast b) < (0x10000 :: u32)" "push_bit 8 (ucast b) + ucast a < (0x10000 :: u32)" for a b :: byte
  proof -
    have "ucast a + push_bit 8 (ucast b) = (of_nat (unat a + 256 * unat b) :: u32)"
      "push_bit 8 (ucast b) + ucast a = (of_nat (unat a + 256 * unat b) :: u32)"
      using unit_of_bytes [of "unat a" "unat b"] by simp_all
    moreover have "unat a + 256 * unat b < 65536" using unat_less_256 [of a] unat_less_256 [of b] by linarith
    ultimately show "ucast a + push_bit 8 (ucast b) < (0x10000 :: u32)" "push_bit 8 (ucast b) + ucast a < (0x10000 :: u32)"
      by (simp_all only: word_less_nat_alt) (subst unat_of_nat_small; simp)+
  qed
  show "\<exists>c j. READ_UTF16LE z = Inr (c, j) \<and> (j = 2 \<and> c < 0x10000 \<or> j = 4)"
    "\<exists>c j. READ_UTF16BE z = Inr (c, j) \<and> (j = 2 \<and> c < 0x10000 \<or> j = 4)"
    unfolding READ_UTF16LE_def READ_UTF16BE_def Let_def using l u by simp_all
qed

lemma write_sizes:
  "length (WRITE_UTF8 c) \<le> 4" "c < 0x10000 \<Longrightarrow> length (WRITE_UTF8 c) \<le> 3"
  "e \<noteq> UTF8 \<Longrightarrow> length (writerFor e c) \<le> 4" "e \<noteq> UTF8 \<Longrightarrow> c \<le> 0xFFFF \<Longrightarrow> length (writerFor e c) = 2"
  by (cases e; simp add: writerFor_def WRITE_UTF8_def WRITE_UTF16LE_def WRITE_UTF16BE_def)+

lemma reader_step:
  assumes "0 < r" "e \<noteq> UTF8 \<longrightarrow> even r" "r + 2 \<le> length z" "e = UTF8 \<longleftrightarrow> desired \<noteq> UTF8"
  shows "\<exists>c j. readerFor e z r = Inr (c, j) \<and> 0 < j \<and> length (writerFor desired c) \<le> 2 * min j r \<and> (e \<noteq> UTF8 \<longrightarrow> even (r - j))"
proof (cases "e = UTF8")
  case True
  then obtain c j where r: "readerFor e z r = Inr (c, j)" "0 < j" "j \<le> r" "j = 1 \<longrightarrow> c \<le> 0xFFFF"
    using Utf8Read_total [of r z] assms(1,3) by (auto simp: readerFor_def)
  have "length (writerFor desired c) \<le> 2 * j"
  proof (cases "j = 1")
    case True
    then show ?thesis using write_sizes(4) [of desired c] r(4) assms(4) \<open>e = UTF8\<close> by simp
  next
    case False
    then have "4 \<le> 2 * j" using r(2) by linarith
    then show ?thesis using write_sizes(3) [of desired c] assms(4) \<open>e = UTF8\<close> by simp
  qed
  then show ?thesis using r True by (auto simp: min_def)
next
  case False
  have ev: "even r" using assms(2) False by simp
  then have r2: "2 \<le> r" using assms(1) by (metis Suc_leI dvd_imp_le)
  obtain c j where r: "readerFor e z r = Inr (c, j)" "j = 2 \<and> c < 0x10000 \<or> j = 4"
    using READ_UTF16_total [OF assms(1) ev assms(3)] False by (cases e) (auto simp: readerFor_def)
  moreover have "length (writerFor desired c) \<le> 2 * min j r"
    using write_sizes(1,2) [of c] r(2) r2 False assms(4) by (auto simp: writerFor_def min_def)
  moreover have "even (r - j)" "0 < j" using ev r(2) by auto
  ultimately show ?thesis by blast
qed

lemma swap_safe:
  assumes "even n" "n \<le> length z"
  shows "swapLoop z n 0 = Inr (swapPairs (take n z) @ drop n z)"
  using swapLoop_spec [of 0 z "take n z" "drop n z"] assms by simp

lemma translate_convert_safe:
  assumes "mem_enc m \<noteq> desired" "mem_n m + 2 \<le> length (mem_z m)" "mem_enc m \<noteq> UTF8 \<longrightarrow> even (mem_n m)"
    "mem_enc m = UTF8 \<or> desired = UTF8" "growth desired (mem_n m) < 2 ^ 31"
  shows "\<exists>m'. sqlite3VdbeMemTranslate junk True m desired = Some (Inr (True, m'))
    \<and> mem_enc m' = desired \<and> mem_n m' \<le> 2 * mem_n m \<and> mem_n m' < length (mem_z m') \<and> mem_z m' ! mem_n m' = 0"
proof -
  define len where "len = growth desired (mem_n m)"
  have len0: "\<not> int len \<le> 0" by (simp add: len_def growth_def)
  define junks where "junks = map junk [0..<len]"
  define tm where "tm = (if desired = UTF8 then [0] else [0, 0 :: byte])"
  let ?n = "mem_n m"
  have "e = UTF8 \<longleftrightarrow> desired \<noteq> UTF8" if "e = mem_enc m" for e using that assms(1,4) by auto
  then have "\<exists>k out. translateLoop (readerFor (mem_enc m)) (writerFor desired) ?n (mem_z m) ?n 0 junks 0 = Some (Inr (k, out))
      \<and> k \<le> 2 * ?n \<and> length out = length junks"
    by (intro translate_safe [where Q = "\<lambda>r. mem_enc m \<noteq> UTF8 \<longrightarrow> even r" and s = 2])
      (use reader_step [of _ "mem_enc m" _ desired] assms(2,3) in \<open>simp_all add: junks_def len_def growth_def\<close>)
  then obtain k out where t: "translateLoop (readerFor (mem_enc m)) (writerFor desired) ?n (mem_z m) ?n 0 junks 0 = Some (Inr (k, out))"
    "k \<le> 2 * ?n" "length out = length junks" by blast
  have fit: "k + length tm \<le> length out" using t(2,3) by (simp add: junks_def len_def growth_def tm_def)
  then have "sqlite3VdbeMemTranslate junk True m desired = Some (Inr (True,
      m\<lparr>mem_z := take k out @ tm @ drop (k + length tm) out, mem_n := k, mem_enc := desired\<rparr>))"
    unfolding sqlite3VdbeMemTranslate_def Let_def translateLen_pos [OF assms(5)] nat_int len_def [symmetric] junks_def [symmetric] tm_def [symmetric]
    using assms(1,4) t(1) putOut_fits [OF fit] len0 by auto
  with t(2) fit show ?thesis by (auto simp: tm_def nth_append split: if_splits)
qed

text \<open>
  C29: translation of text that need not be well formed. Let the block have two bytes behind the
  text, as a terminated string has, and let UTF-16 text have an even number of bytes; the bytes
  are arbitrary. When memory is granted the call reads and writes only inside its blocks and
  returns. When the size of the new block fits an int, or the bytes are swapped, it succeeds, leaves
  at most twice as many bytes and, when it builds a new block, ends them with a zero byte; a longer
  text is refused with SQLITE\_NOMEM. (For an odd number of bytes of UTF-16 the code can write
  behind its block: utf\_translate\_odd.)
\<close>

theorem utf_translate_safe:
  assumes "mem_enc m \<noteq> desired" "mem_n m + 2 \<le> length (mem_z m)" "mem_enc m \<noteq> UTF8 \<longrightarrow> even (mem_n m)" "mem_n m < 2 ^ 31"
  shows "if translatable (mem_enc m) desired (mem_n m)
    then \<exists>m'. sqlite3VdbeMemTranslate junk True m desired = Some (Inr (True, m'))
      \<and> mem_enc m' = desired \<and> mem_n m' \<le> 2 * mem_n m \<and> mem_n m' < length (mem_z m')
      \<and> (mem_enc m = UTF8 \<or> desired = UTF8 \<longrightarrow> mem_z m' ! mem_n m' = 0)
    else sqlite3VdbeMemTranslate junk True m desired = Some (Inr (False, m))"
proof (cases "translatable (mem_enc m) desired (mem_n m)")
  case True
  have "\<exists>m'. sqlite3VdbeMemTranslate junk True m desired = Some (Inr (True, m'))
      \<and> mem_enc m' = desired \<and> mem_n m' \<le> 2 * mem_n m \<and> mem_n m' < length (mem_z m')
      \<and> (mem_enc m = UTF8 \<or> desired = UTF8 \<longrightarrow> mem_z m' ! mem_n m' = 0)"
  proof (cases "mem_enc m \<noteq> UTF8 \<and> desired \<noteq> UTF8")
    case True
    with assms swap_safe [of "mem_n m" "mem_z m"] show ?thesis by (simp add: sqlite3VdbeMemTranslate_def)
  next
    case False
    with True translate_convert_safe [OF assms(1-3)] show ?thesis by (auto simp: translatable_def)
  qed
  with True show ?thesis by simp
qed (use translate_too_long [OF assms(1) _ assms(4)] in simp)

theorem utf_translate_safe_witness:
  "\<exists>m'. sqlite3VdbeMemTranslate (\<lambda>_. 7) True \<lparr>mem_z = [0xE3, 0x81, 0xFF, 0, 0], mem_n = 3, mem_enc = UTF8\<rparr> UTF16BE = Some (Inr (True, m'))
    \<and> mem_n m' \<le> 6 \<and> mem_z m' ! mem_n m' = 0"
  using utf_translate_safe [of "\<lparr>mem_z = [0xE3, 0x81, 0xFF, 0, 0], mem_n = 3, mem_enc = UTF8\<rparr>" UTF16BE "\<lambda>_. 7"]
  by (auto simp: translatable_def growth_def)

text \<open>
  The size of the output block is not enough for UTF-16 text with an odd number of
  bytes: with one byte of text the block has three bytes, the unit that starts there may
  need three bytes of UTF-8, and the terminator is written behind the block.
\<close>

theorem utf_translate_odd:
  "sqlite3VdbeMemTranslate junk True \<lparr>mem_z = [0x42, 0x30, 0], mem_n = 1, mem_enc = UTF16LE\<rparr> UTF8 = Some (Inl OutOfBounds)"
proof -
  have "WRITE_UTF8 0x3042 = [0xE3, 0x81, 0x82]" by code_simp
  moreover have "READ_UTF16LE [0x42, 0x30, 0] = Inr (0x3042, 2)" by code_simp
  ultimately show ?thesis
    by (simp add: sqlite3VdbeMemTranslate_def translateLen_pos growth_def readerFor_def writerFor_def wr_def upt_conv_Cons)
qed

subsection \<open>Counting characters\<close>

lemma skipCont_conts:
  "\<forall>m \<in> set ms. m < 64 \<Longrightarrow> t \<noteq> [] \<Longrightarrow> \<not> contByte (hd t) \<Longrightarrow> skipCont (map (\<lambda>m. of_nat (0x80 + m)) ms @ t) = Inr t"
proof (induction ms)
  case (Cons m ms)
  then show ?case using cont_table [of m] by (simp del: of_nat_add)
qed (cases t, simp_all)

lemma skip_char:
  assumes "plain c" "t \<noteq> []" "\<not> contByte (hd t)"
  shows "SQLITE_SKIP_UTF8 (WRITE_UTF8 c @ t) = Inr t"
proof (cases "unat c < 0x80")
  case True
  with ascii_table [of "unat c"] show ?thesis
    by (simp add: SQLITE_SKIP_UTF8_def WRITE_UTF8_nums utf8_nums_def)
next
  case False
  obtain m x ms where l: "utf8_lead (unat c) = (m, x, ms)" by (cases "utf8_lead (unat c)")
  have "unat c < 0x110000" using assms(1) by (simp add: plain_def)
  from utf8_lead_spec [OF _ this l] False have s: "m < 64" "\<forall>m \<in> set ms. m < 64"
    "utf8_nums (unat c) = (0xc0 + m) # map (\<lambda>m. 0x80 + m) ms" by simp_all
  with skipCont_conts [OF s(2) assms(2,3)] lead_table [OF s(1)] show ?thesis
    by (simp add: SQLITE_SKIP_UTF8_def WRITE_UTF8_nums comp_def del: of_nat_add)
qed

lemma text8_starts:
  "\<forall>d \<in> set cs. plain d \<Longrightarrow> t \<noteq> [] \<Longrightarrow> \<not> contByte (hd t) \<Longrightarrow>
     textOf UTF8 cs @ t \<noteq> [] \<and> \<not> contByte (hd (textOf UTF8 cs @ t))"
  by (cases cs) (auto simp: textOf_def writerFor_def plain_def dest!: utf8_first)

lemma WRITE_UTF8_nonzero:
  assumes "plain c" "c \<noteq> 0"
  shows "\<exists>b bs. WRITE_UTF8 c = b # bs \<and> b \<noteq> 0"
proof (cases "unat c < 0x80")
  case True
  moreover have "(of_nat (unat c) :: byte) \<noteq> 0"
  proof -
    have "\<forall>m \<in> set [1..<128]. (of_nat m :: byte) \<noteq> 0" by code_simp
    moreover have "unat c \<in> set [1..<128]" using True assms(2) by (simp add: Suc_le_eq unat_gt_0)
    ultimately show ?thesis by (rule bspec)
  qed
  ultimately show ?thesis by (simp add: WRITE_UTF8_nums utf8_nums_def)
next
  case False
  obtain m x ms where l: "utf8_lead (unat c) = (m, x, ms)" by (cases "utf8_lead (unat c)")
  have "unat c < 0x110000" using assms(1) by (simp add: plain_def)
  from utf8_lead_spec [OF _ this l] False have "m < 64" "utf8_nums (unat c) = (0xc0 + m) # map (\<lambda>m. 0x80 + m) ms" by simp_all
  moreover have "(of_nat (0xc0 + m) :: byte) \<noteq> 0" 
  proof
    assume "(of_nat (0xc0 + m) :: byte) = 0"
    with lead_table [OF \<open>m < 64\<close>] show False by simp
  qed
  ultimately show ?thesis by (simp add: WRITE_UTF8_nums del: of_nat_add)
qed

lemma charLen_text:
  "\<forall>d \<in> set cs. plain d \<and> d \<noteq> 0 \<Longrightarrow> charLenLoop (textOf UTF8 cs @ 0 # t) None r = Inr (r + length cs)"
proof (induction cs arbitrary: r)
  case Nil
  then show ?case by (subst charLenLoop.simps) (simp add: textOf_def)
next
  case (Cons c cs)
  let ?rest = "textOf UTF8 cs @ 0 # t"
  obtain b bs where b: "WRITE_UTF8 c = b # bs" "b \<noteq> 0" using WRITE_UTF8_nonzero [of c] Cons.prems by auto
  have z: "textOf UTF8 (c # cs) @ 0 # t = WRITE_UTF8 c @ ?rest" by (simp add: textOf_def writerFor_def)
  have "\<not> contByte 0" by (simp add: contByte_def)
  then have "?rest \<noteq> []" "\<not> contByte (hd ?rest)" using text8_starts [of cs "0 # t"] Cons.prems by auto
  then have "SQLITE_SKIP_UTF8 (WRITE_UTF8 c @ ?rest) = Inr ?rest" using skip_char Cons.prems by simp
  then show ?case
    unfolding z by (subst charLenLoop.simps) (use b Cons in simp)
qed

text \<open>With sign-extended bytes a unit is zero as before, and is never taken for a surrogate.\<close>

lemma char_unit:
  "scast a + push_bit 8 (scast b) = (word_of_int (sint a + 256 * sint b) :: u32)" for a b :: byte
  by (simp add: push_bit_eq_mult mult.commute)

lemma char_range: "- 128 \<le> sint a \<and> sint a \<le> 127" for a :: byte
  using sint_ge [of a] sint_lt [of a] by simp

lemma char_unit_range: "- 32896 \<le> sint a + 256 * sint b \<and> sint a + 256 * sint b \<le> 32639" for a b :: byte
  using char_range [of a] char_range [of b] by linarith

lemma char_unit_cases:
  fixes a b :: byte
  shows "\<not> surrogate (scast a + push_bit 8 (scast b))"
    "(scast a + push_bit 8 (scast b) :: u32) = 0 \<longleftrightarrow> a = 0 \<and> b = 0"
proof -
  let ?x = "sint a + 256 * sint b"
  have u: "uint (word_of_int ?x :: u32) = (if ?x < 0 then ?x + 2 ^ 32 else ?x)"
  proof (cases "?x < 0")
    case True
    have "?x mod 2 ^ 32 = (?x + 2 ^ 32) mod 2 ^ 32" by simp
    also have "\<dots> = ?x + 2 ^ 32" by (rule mod_pos_pos_trivial) (use True char_unit_range [of a b] in simp_all)
    finally show ?thesis using True by (simp only: uint_word_of_int) simp
  next
    case False
    then have "?x mod 2 ^ 32 = ?x" by (intro mod_pos_pos_trivial) (use char_unit_range [of a b] in simp_all)
    then show ?thesis using False by (simp only: uint_word_of_int) simp
  qed
  show "\<not> surrogate (scast a + push_bit 8 (scast b))"
    unfolding char_unit surrogate_def word_le_def word_less_def u using char_unit_range [of a b] by simp
  have "(word_of_int ?x :: u32) = 0 \<longleftrightarrow> ?x = 0"
    unfolding word_uint_eq_iff u using char_unit_range [of a b] by simp
  also have "\<dots> \<longleftrightarrow> sint a = 0 \<and> sint b = 0"
  proof (cases "sint b" "0 :: int" rule: linorder_cases)
    case less
    then have "sint b \<le> - 1" by simp
    then show ?thesis using char_range [of a] by linarith
  next
    case greater
    then have "1 \<le> sint b" by simp
    then show ?thesis using char_range [of a] by linarith
  qed simp
  finally show "(scast a + push_bit 8 (scast b) :: u32) = 0 \<longleftrightarrow> a = 0 \<and> b = 0"
    unfolding char_unit by (simp add: signed_eq_0_iff)
qed

lemma READ_char: "READ_UTF16LE_char (a # b # t) = Inr (scast a + push_bit 8 (scast b), 2)"
  by (simp add: READ_UTF16LE_char_def Let_def char_unit_cases)

lemma byteLen_stop: "c = 0 \<or> nChar = Some 0 \<Longrightarrow> byteLenLoop f z nChar c used = Some (Inr (used - (if c = 0 then 2 else 0)))"
  by (subst byteLenLoop.simps) auto

lemma byteLen_go:
  "c \<noteq> 0 \<Longrightarrow> READ_UTF16LE_char (drop used z) = Inr (c', j) \<Longrightarrow>
     byteLenLoop (Suc f) z (Some (Suc k)) c used = byteLenLoop f z (Some k) c' (used + j)"
  by (subst byteLenLoop.simps) simp

definition nonzero_units :: "byte list \<Rightarrow> bool" where
  "nonzero_units xs \<longleftrightarrow> even (length xs) \<and> (\<forall>i < length xs div 2. xs ! (2 * i) \<noteq> 0 \<or> xs ! (2 * i + 1) \<noteq> 0)"

lemma nonzero_units_Cons:
  "nonzero_units (a # b # xs) \<longleftrightarrow> (a \<noteq> 0 \<or> b \<noteq> 0) \<and> nonzero_units xs"
  by (auto simp: nonzero_units_def less_Suc_eq_0_disj)

lemma byteLen_units:
  "nonzero_units xs \<Longrightarrow> drop used z = xs @ 0 # 0 # t \<Longrightarrow> c \<noteq> 0 \<Longrightarrow> length xs < f \<Longrightarrow>
     byteLenLoop f z (Some k) c used = Some (Inr (used + min (2 * k) (length xs)))"
proof (induction xs arbitrary: f k c used rule: swapPairs.induct)
  case (1 a b xs)
  obtain g where f: "f = Suc g" using 1(5) by (cases f) simp_all
  show ?case
  proof (cases k)
    case (Suc j)
    let ?c = "scast a + push_bit 8 (scast b) :: u32"
    have r: "READ_UTF16LE_char (drop used z) = Inr (?c, 2)" using 1(3) by (simp add: READ_char)
    have "drop (used + 2) z = xs @ 0 # 0 # t" using arg_cong [OF 1(3), of "drop 2"] by (simp add: add.commute)
    then have "byteLenLoop g z (Some j) ?c (used + 2) = Some (Inr (used + 2 + min (2 * j) (length xs)))"
      by (intro 1(1)) (use 1(2,5) f in \<open>simp_all add: nonzero_units_Cons char_unit_cases\<close>)
    then show ?thesis using byteLen_go [OF 1(4) r] by (simp add: f Suc)
  qed (simp add: 1(4) byteLen_stop)
next
  case "2_1"
  have "READ_UTF16LE_char (0 # 0 # t) = Inr (0, 2)" by (simp add: READ_char)
  with "2_1" show ?case by (cases f; cases k) (simp_all add: byteLen_stop byteLen_go)
qed (simp add: nonzero_units_def)

text \<open>
  What the two length functions count. On a terminated UTF-8 text without zero
  characters the character count is the number of code points. The byte size of the first k
  characters of a UTF-16 text is that of its first k 16-bit units, or of all of them when
  there are fewer: a character outside the basic plane is counted as two.
\<close>

theorem utf_lengths:
  assumes "\<forall>d \<in> set cs. plain d \<and> d \<noteq> 0" "nonzero_units xs"
  shows "sqlite3Utf8CharLen (textOf UTF8 cs @ 0 # t) None = Inr (length cs)
    \<and> sqlite3Utf16ByteLen (xs @ 0 # 0 # t) (Some k) = Some (Inr (min (2 * k) (length xs)))"
proof
  show "sqlite3Utf8CharLen (textOf UTF8 cs @ 0 # t) None = Inr (length cs)"
    using charLen_text [OF assms(1), of t 0] by (simp add: sqlite3Utf8CharLen_def)
  show "sqlite3Utf16ByteLen (xs @ 0 # 0 # t) (Some k) = Some (Inr (min (2 * k) (length xs)))"
    unfolding sqlite3Utf16ByteLen_def
    using byteLen_units [OF assms(2), of 0 "xs @ 0 # 0 # t" t 1 _ k] by simp
qed

theorem utf_lengths_witness:
  "sqlite3Utf8CharLen [0x41, 0xC3, 0xA9, 0] None = Inr 2
    \<and> sqlite3Utf16ByteLen (WRITE_UTF16LE 0x10000 @ 0 # 0 # []) (Some 1) = Some (Inr 2)"
proof -
  have "textOf UTF8 [0x41, 0xE9] = [0x41, 0xC3, 0xA9]" "nonzero_units (WRITE_UTF16LE 0x10000)"
    "length (WRITE_UTF16LE 0x10000) = 4" by code_simp+
  then show ?thesis using utf_lengths [of "[0x41, 0xE9]" "WRITE_UTF16LE 0x10000" "[]" 1] by (simp add: plain_def rejected_def)
qed

text \<open>A byte order mark names the encoding and is removed; the text behind it stays.\<close>

lemma bom_removed:
  assumes "mem_z m = a # b # xs @ t" "mem_n m = length xs + 2" "length t \<ge> 2"
    "(a, b, e) \<in> {(0xFE, 0xFF, UTF16BE), (0xFF, 0xFE, UTF16LE)}"
  shows "\<exists>m'. sqlite3VdbeMemHandleBom True m = Inr (True, m') \<and> mem_enc m' = e
    \<and> mem_n m' = length xs \<and> take (length xs) (mem_z m') = xs"
proof -
  let ?d = "drop (length xs) (mem_z m)" and ?n = "length xs"
  have r: "rd (mem_z m) 0 = Inr a" "rd (mem_z m) 1 = Inr b" using assms(1) by simp_all
  have d: "2 \<le> length ?d" "take ?n (drop 2 (mem_z m)) = xs" using assms(1,3) by simp_all
  then have w: "wr (xs @ ?d) ?n 0 = Inr ((xs @ ?d)[?n := 0])" "wr ((xs @ ?d)[?n := 0]) (?n + 1) 0 = Inr ((xs @ ?d)[?n := 0, ?n + 1 := 0])"
    by simp_all
  have "sqlite3VdbeMemHandleBom True m = Inr (True, m\<lparr>mem_z := (xs @ ?d)[?n := 0, ?n + 1 := 0], mem_n := ?n, mem_enc := e\<rparr>)"
  proof -
    have n: "1 < mem_n m" "mem_n m - 2 = ?n" using assms(2) by simp_all
    have ne: "(0xFF :: byte) \<noteq> 0xFE" by code_simp
    have "a = 0xFE \<and> b = 0xFF \<and> e = UTF16BE \<or> a = 0xFF \<and> b = 0xFE \<and> e = UTF16LE" using assms(4) by blast
    then have "(if a = 0xFE \<and> b = 0xFF then Some UTF16BE else if a = 0xFF \<and> b = 0xFE then Some UTF16LE else None) = Some e"
      using ne by metis
    with n show ?thesis unfolding sqlite3VdbeMemHandleBom_def Let_def r n d(2) by (simp only: bindR_simps w if_True option.case not_True_eq_False if_False)
  qed
  then show ?thesis by (simp add: list_update_append)
qed

end
