(* ===== verification/MapStore.thy ===== *)
theory MapStore
  imports Prelude
begin

text \<open>
  The contract of a keyed table that a client fills and empties. One call sets the data of a
  key, or removes the key when it carries no data, and answers the previous data. A call for
  a new key may be refused for lack of memory; then it answers its own data and changes
  nothing. The locale shows once that after any sequence of calls, some of them refused, the
  table holds what a map would hold, and that a lookup agrees with it.
\<close>

inductive map_runs ::
  "('c \<Rightarrow> 'k) \<Rightarrow> ('c \<Rightarrow> 'd option) \<Rightarrow> ('c \<Rightarrow> bool) \<Rightarrow> ('k \<Rightarrow> 'd option) \<Rightarrow> 'c list \<Rightarrow> 'd option list \<Rightarrow> ('k \<Rightarrow> 'd option) \<Rightarrow> bool"
  for key :: "'c \<Rightarrow> 'k" and dat :: "'c \<Rightarrow> 'd option" and granted :: "'c \<Rightarrow> bool"
where
  finished: "map_runs key dat granted m [] [] m"
| performed: "map_runs key dat granted (m(key c := dat c)) cs rs m' \<Longrightarrow>
    map_runs key dat granted m (c # cs) (m (key c) # rs) m'"
| refused: "\<not> granted c \<Longrightarrow> m (key c) = None \<Longrightarrow> dat c \<noteq> None \<Longrightarrow> map_runs key dat granted m cs rs m' \<Longrightarrow>
    map_runs key dat granted m (c # cs) (dat c # rs) m'"

inductive_cases map_runs_NilE: "map_runs key dat granted m [] rs m'"
inductive_cases map_runs_ConsE: "map_runs key dat granted m (c # cs) rs m'"

fun run_calls :: "('s \<Rightarrow> 'c \<Rightarrow> ('a \<times> 's) option) \<Rightarrow> 's \<Rightarrow> 'c list \<Rightarrow> ('a list \<times> 's) option" where
  "run_calls upd s [] = Some ([], s)"
| "run_calls upd s (c # cs) =
     (case upd s c of None \<Rightarrow> None
      | Some (r, t) \<Rightarrow> (case run_calls upd t cs of None \<Rightarrow> None | Some (rs, u) \<Rightarrow> Some (r # rs, u)))"

text \<open>When every request is granted the outcome is determined.\<close>

lemma map_runs_granted:
  "map_runs key dat granted m cs rs m' \<Longrightarrow> \<forall>c \<in> set cs. granted c \<Longrightarrow> m' = fold (\<lambda>c m. m(key c := dat c)) cs m"
  by (induction rule: map_runs.induct) simp_all

locale map_store =
  fixes rep :: "'s \<Rightarrow> ('k \<Rightarrow> 'd option) \<Rightarrow> bool"
    and key :: "'c \<Rightarrow> 'k"
    and dat :: "'c \<Rightarrow> 'd option"
    and granted :: "'c \<Rightarrow> bool"
    and valid :: "'c \<Rightarrow> bool"
    and upd :: "'s \<Rightarrow> 'c \<Rightarrow> ('d option \<times> 's) option"
    and look :: "'s \<Rightarrow> 'c \<Rightarrow> 'd option option"
  assumes look_ok: "rep s m \<Longrightarrow> valid c \<Longrightarrow> look s c = Some (m (key c))"
    and upd_ok: "rep s m \<Longrightarrow> valid c \<Longrightarrow>
      (\<exists>t. upd s c = Some (m (key c), t) \<and> rep t (m(key c := dat c)))
      \<or> (\<not> granted c \<and> m (key c) = None \<and> dat c \<noteq> None \<and> (\<exists>t. upd s c = Some (dat c, t) \<and> rep t m))"
begin

lemma run_spec:
  "rep s m \<Longrightarrow> \<forall>c \<in> set cs. valid c \<Longrightarrow>
     \<exists>rs t m'. run_calls upd s cs = Some (rs, t) \<and> map_runs key dat granted m cs rs m' \<and> rep t m'"
proof (induction cs arbitrary: s m)
  case Nil
  then show ?case by (auto intro: map_runs.finished)
next
  case (Cons c cs)
  from upd_ok [of s m c] Cons.prems consider
      (performed) t where "upd s c = Some (m (key c), t)" "rep t (m(key c := dat c))"
    | (refused) t where "\<not> granted c" "m (key c) = None" "dat c \<noteq> None" "upd s c = Some (dat c, t)" "rep t m"
    by auto
  then show ?case
  proof cases
    case performed
    from Cons.IH [OF performed(2)] Cons.prems(2) obtain rs u m' where
      "run_calls upd t cs = Some (rs, u)" "map_runs key dat granted (m(key c := dat c)) cs rs m'" "rep u m'" by (metis list.set_intros(2))
    with performed(1) show ?thesis by (auto intro: map_runs.performed)
  next
    case refused
    from Cons.IH [OF refused(5)] Cons.prems(2) obtain rs u m' where
      "run_calls upd t cs = Some (rs, u)" "map_runs key dat granted m cs rs m'" "rep u m'" by (metis list.set_intros(2))
    with refused map_runs.refused [of granted c m key dat cs rs m'] show ?thesis by auto
  qed
qed

lemma look_after_run:
  assumes "rep s m" "\<forall>c \<in> set cs. valid c" "\<forall>c \<in> set cs. granted c" "valid c'"
  shows "\<exists>rs t. run_calls upd s cs = Some (rs, t) \<and> look t c' = Some (fold (\<lambda>c m. m(key c := dat c)) cs m (key c'))"
proof -
  obtain rs t m' where "run_calls upd s cs = Some (rs, t)" "map_runs key dat granted m cs rs m'" "rep t m'"
    using run_spec [OF assms(1,2)] by blast
  with map_runs_granted [of key dat granted m cs rs m'] look_ok [of t m' c'] assms(3,4) show ?thesis by auto
qed

end

end
