(* ===== verification/Hash.thy ===== *)
theory Hash
  imports StrUtil MapStore
begin

text \<open>
  The hash tables of hash.c of the database library (misc/sqlite), which hold the schema,
  the functions and the collations of a connection.

  All elements of a table are on one doubly linked list; the elements of a bucket are
  neighbours there, and a bucket knows its first element and how many it has. The elements
  live in a heap, a map from addresses to HashElem; a pointer is an address option. A key is
  the memory block its pointer points to with the number of bytes nKey; the pointer is not
  NULL and nKey is not negative, as every caller has it. The data pointer is an option, None
  is NULL. A memory request of sqlite3HashInsert is an argument: the address granted for the
  element, whether the copy of the key and the two tables are granted.

  Shown: the structure is an invariant of every operation, no operation faults on it, and
  the table behaves as a finite map from keys (up to case, for string keys) to data, also
  when memory runs out.
\<close>

subsection \<open>Keys\<close>

datatype keyClass = HASH_STRING | HASH_BINARY

fun hashLoop :: "(byte \<Rightarrow> u32) \<Rightarrow> u32 \<Rightarrow> nat \<Rightarrow> byte list \<Rightarrow> u32 cres" where
  "hashLoop f h 0 z = Inr h"
| "hashLoop f h (Suc n) [] = Inl OutOfBounds"
| "hashLoop f h (Suc n) (c # z) = hashLoop f (push_bit 3 h XOR h XOR f c) n z"

definition strHash :: "byte list \<Rightarrow> nat \<Rightarrow> u32 cres" where
  "strHash z nKey = bindR (if nKey = 0 then strlenC z else Inr nKey) (\<lambda>n.
     bindR (hashLoop (\<lambda>c. ucast (UpperToLower c)) 0 n z) (\<lambda>h. Inr (h AND 0x7fffffff)))"

definition strCompare :: "byte list \<Rightarrow> nat \<Rightarrow> byte list \<Rightarrow> nat \<Rightarrow> int cres" where
  "strCompare k1 n1 k2 n2 = (if n1 \<noteq> n2 then Inr 1 else sqlite3StrNICmp k1 k2 n1)"

definition binHash :: "byte list \<Rightarrow> nat \<Rightarrow> u32 cres" where
  "binHash z nKey = bindR (hashLoop scast 0 nKey z) (\<lambda>h. Inr (h AND 0x7fffffff))"

definition binCompare :: "byte list \<Rightarrow> nat \<Rightarrow> byte list \<Rightarrow> nat \<Rightarrow> int cres" where
  "binCompare k1 n1 k2 n2 =
     (if n1 \<noteq> n2 then Inr 1 else if length k2 < n1 then Inl OutOfBounds else memcmpC k1 (take n1 k2))"

definition hashFunction :: "keyClass \<Rightarrow> byte list \<Rightarrow> nat \<Rightarrow> u32 cres" where
  "hashFunction kc = (case kc of HASH_STRING \<Rightarrow> strHash | HASH_BINARY \<Rightarrow> binHash)"

definition compareFunction :: "keyClass \<Rightarrow> byte list \<Rightarrow> nat \<Rightarrow> byte list \<Rightarrow> nat \<Rightarrow> int cres" where
  "compareFunction kc = (case kc of HASH_STRING \<Rightarrow> strCompare | HASH_BINARY \<Rightarrow> binCompare)"

subsection \<open>The table\<close>

record 'd HashElem =
  el_next :: "nat option"
  el_prev :: "nat option"
  el_data :: "'d option"
  el_pKey :: "byte list"
  el_nKey :: nat

record ht_entry =
  ht_count :: int
  ht_chain :: "nat option"

record Hash =
  h_keyClass :: keyClass
  h_copyKey :: bool
  h_count :: int
  h_htsize :: nat
  h_first :: "nat option"
  h_ht :: "ht_entry list option"

type_synonym 'd elems = "nat \<Rightarrow> 'd HashElem option"

definition getE :: "'d elems \<Rightarrow> nat \<Rightarrow> 'd HashElem cres" where
  "getE hp a = (case hp a of None \<Rightarrow> Inl NullDeref | Some e \<Rightarrow> Inr e)"

definition updE :: "'d elems \<Rightarrow> nat \<Rightarrow> ('d HashElem \<Rightarrow> 'd HashElem) \<Rightarrow> 'd elems cres" where
  "updE hp a f = bindR (getE hp a) (\<lambda>e. Inr (hp(a \<mapsto> f e)))"

definition updOpt :: "'d elems \<Rightarrow> nat option \<Rightarrow> ('d HashElem \<Rightarrow> 'd HashElem) \<Rightarrow> 'd elems cres" where
  "updOpt hp p f = (case p of None \<Rightarrow> Inr hp | Some a \<Rightarrow> updE hp a f)"

definition getTable :: "Hash \<Rightarrow> ht_entry list cres" where
  "getTable H = (case h_ht H of None \<Rightarrow> Inl NullDeref | Some ht \<Rightarrow> Inr ht)"

definition sqlite3HashInit :: "keyClass \<Rightarrow> bool \<Rightarrow> Hash" where
  "sqlite3HashInit keyClass copyKey =
     \<lparr>h_keyClass = keyClass, h_copyKey = copyKey, h_count = 0, h_htsize = 0, h_first = None, h_ht = None\<rparr>"

text \<open>
  The loop of sqlite3HashClear over the next pointers, freeing each element. A list with a
  cycle would make it read freed memory, which is a fault, so fuel equal to the number of
  elements is enough.
\<close>

fun clearLoop :: "nat \<Rightarrow> 'd elems \<Rightarrow> nat option \<Rightarrow> 'd elems cres option" where
  "clearLoop f hp None = Some (Inr hp)"
| "clearLoop 0 hp (Some a) = None"
| "clearLoop (Suc f) hp (Some a) =
     (case getE hp a of Inl e \<Rightarrow> Some (Inl e) | Inr e \<Rightarrow> clearLoop f (hp(a := None)) (el_next e))"

definition sqlite3HashClear :: "nat \<Rightarrow> Hash \<times> 'd elems \<Rightarrow> (Hash \<times> 'd elems) cres option" where
  "sqlite3HashClear f = (\<lambda>(H, hp).
     (case clearLoop f hp (h_first H) of None \<Rightarrow> None
      | Some r \<Rightarrow> Some (bindR r (\<lambda>hp'. Inr (H\<lparr>h_first := None, h_ht := None, h_htsize := 0, h_count := 0\<rparr>, hp')))))"

definition insertElement :: "Hash \<Rightarrow> 'd elems \<Rightarrow> nat \<Rightarrow> nat \<Rightarrow> (Hash \<times> 'd elems) cres" where
  "insertElement H hp b a = bindR (getTable H) (\<lambda>ht. bindR (rd ht b) (\<lambda>ent.
     bindR (case ht_chain ent of
        Some pHead \<Rightarrow> bindR (getE hp pHead) (\<lambda>eh.
          bindR (updE hp a (\<lambda>e. e\<lparr>el_next := Some pHead, el_prev := el_prev eh\<rparr>)) (\<lambda>hp.
          bindR (updOpt hp (el_prev eh) (\<lambda>e. e\<lparr>el_next := Some a\<rparr>)) (\<lambda>hp.
          bindR (updE hp pHead (\<lambda>e. e\<lparr>el_prev := Some a\<rparr>)) (\<lambda>hp.
            Inr (if el_prev eh = None then H\<lparr>h_first := Some a\<rparr> else H, hp)))))
      | None \<Rightarrow>
          bindR (updE hp a (\<lambda>e. e\<lparr>el_next := h_first H\<rparr>)) (\<lambda>hp.
          bindR (updOpt hp (h_first H) (\<lambda>e. e\<lparr>el_prev := Some a\<rparr>)) (\<lambda>hp.
          bindR (updE hp a (\<lambda>e. e\<lparr>el_prev := None\<rparr>)) (\<lambda>hp.
            Inr (H\<lparr>h_first := Some a\<rparr>, hp)))))
       (\<lambda>(H, hp). Inr (H\<lparr>h_ht := Some (ht[b := \<lparr>ht_count = ht_count ent + 1, ht_chain = Some a\<rparr>])\<rparr>, hp))))"

text \<open>
  The loop of rehash moves the elements one by one, in the order of the old list; fuel equal
  to their number is enough. The size is a power of two, so that the mask of the code is
  h AND (new_size - 1).
\<close>

fun rehashLoop :: "nat \<Rightarrow> Hash \<Rightarrow> 'd elems \<Rightarrow> nat \<Rightarrow> nat option \<Rightarrow> (Hash \<times> 'd elems) cres option" where
  "rehashLoop f H hp new_size None = Some (Inr (H, hp))"
| "rehashLoop 0 H hp new_size (Some a) = None"
| "rehashLoop (Suc f) H hp new_size (Some a) =
     (case bindR (getE hp a) (\<lambda>e. bindR (hashFunction (h_keyClass H) (el_pKey e) (el_nKey e)) (\<lambda>h.
             bindR (insertElement H hp (unat (h AND of_nat (new_size - 1))) a) (\<lambda>(H, hp). Inr (H, hp, el_next e)))) of
        Inl e \<Rightarrow> Some (Inl e)
      | Inr (H', hp', next_elem) \<Rightarrow> rehashLoop f H' hp' new_size next_elem)"

definition rehash :: "bool \<Rightarrow> nat \<Rightarrow> Hash \<times> 'd elems \<Rightarrow> nat \<Rightarrow> (Hash \<times> 'd elems) cres option" where
  "rehash ok1 f = (\<lambda>(H, hp) new_size.
     (if \<not> ok1 then Some (Inr (H, hp))
      else rehashLoop f (H\<lparr>h_ht := Some (replicate new_size \<lparr>ht_count = 0, ht_chain = None\<rparr>),
             h_htsize := new_size, h_first := None\<rparr>) hp new_size (h_first H)))"

fun findLoop :: "keyClass \<Rightarrow> 'd elems \<Rightarrow> nat \<Rightarrow> nat option \<Rightarrow> byte list \<Rightarrow> nat \<Rightarrow> nat option cres" where
  "findLoop kc hp 0 elem pKey nKey = Inr None"
| "findLoop kc hp (Suc count) None pKey nKey = Inr None"
| "findLoop kc hp (Suc count) (Some a) pKey nKey =
     bindR (getE hp a) (\<lambda>e. bindR (compareFunction kc (el_pKey e) (el_nKey e) pKey nKey) (\<lambda>c.
       if c = 0 then Inr (Some a) else findLoop kc hp count (el_next e) pKey nKey))"

definition findElementGivenHash :: "Hash \<Rightarrow> 'd elems \<Rightarrow> byte list \<Rightarrow> nat \<Rightarrow> nat \<Rightarrow> nat option cres" where
  "findElementGivenHash H hp pKey nKey h =
     (case h_ht H of None \<Rightarrow> Inr None
      | Some ht \<Rightarrow> bindR (rd ht h) (\<lambda>ent. findLoop (h_keyClass H) hp (nat (ht_count ent)) (ht_chain ent) pKey nKey))"

definition removeElementGivenHash :: "nat \<Rightarrow> Hash \<Rightarrow> 'd elems \<Rightarrow> nat \<Rightarrow> nat \<Rightarrow> (Hash \<times> 'd elems) cres option" where
  "removeElementGivenHash f H hp a h =
     (case bindR (getE hp a) (\<lambda>e.
        bindR (updOpt hp (el_prev e) (\<lambda>p. p\<lparr>el_next := el_next e\<rparr>)) (\<lambda>hp.
        let H = (if el_prev e = None then H\<lparr>h_first := el_next e\<rparr> else H) in
        bindR (updOpt hp (el_next e) (\<lambda>n. n\<lparr>el_prev := el_prev e\<rparr>)) (\<lambda>hp.
        bindR (getTable H) (\<lambda>ht. bindR (rd ht h) (\<lambda>ent.
        let chain = (if ht_chain ent = Some a then el_next e else ht_chain ent);
            count = ht_count ent - 1;
            ent' = \<lparr>ht_count = count, ht_chain = (if count \<le> 0 then None else chain)\<rparr> in
        Inr (H\<lparr>h_ht := Some (ht[h := ent']), h_count := h_count H - 1\<rparr>, hp(a := None))))))) of
      Inl e \<Rightarrow> Some (Inl e)
    | Inr (H, hp) \<Rightarrow>
        if h_count H \<le> 0
        then if h_first H = None \<and> h_count H = 0 then sqlite3HashClear f (H, hp) else Some (Inl AssertFail)
        else Some (Inr (H, hp)))"

definition sqlite3HashFindElem :: "Hash \<times> 'd elems \<Rightarrow> byte list \<Rightarrow> nat \<Rightarrow> nat option cres" where
  "sqlite3HashFindElem = (\<lambda>(H, hp) pKey nKey.
     if h_ht H = None then Inr None
     else bindR (hashFunction (h_keyClass H) pKey nKey) (\<lambda>h.
       findElementGivenHash H hp pKey nKey (unat h mod h_htsize H)))"

definition sqlite3HashFind :: "Hash \<times> 'd elems \<Rightarrow> byte list \<Rightarrow> nat \<Rightarrow> 'd option cres" where
  "sqlite3HashFind T pKey nKey = bindR (sqlite3HashFindElem T pKey nKey) (\<lambda>elem.
     case elem of None \<Rightarrow> Inr None | Some a \<Rightarrow> bindR (getE (snd T) a) (\<lambda>e. Inr (el_data e)))"

text \<open>
  The memory requests of one insertion: the address granted for the element, and whether the
  copy of the key, the first table and a larger table are granted. The first table has
  128 / sizeof(struct _ht) = 16 buckets with the four-byte pointers and integers of the
  platform. The fuel is the number of elements that rehash and clear go through.
\<close>

record memory =
  m_elem :: "nat option"
  m_key :: bool
  m_first :: bool
  m_grow :: bool

definition sqlite3HashInsertNew :: "nat \<Rightarrow> memory \<Rightarrow> Hash \<times> 'd elems \<Rightarrow> u32 \<Rightarrow> byte list \<Rightarrow> nat \<Rightarrow> 'd
    \<Rightarrow> ('d option \<times> Hash \<times> 'd elems) cres option" where
  "sqlite3HashInsertNew f mm = (\<lambda>(H, hp) hraw pKey nKey data.
     (case m_elem mm of None \<Rightarrow> Some (Inr (Some data, H, hp))
      | Some a \<Rightarrow>
        if h_copyKey H \<and> \<not> m_key mm then Some (Inr (Some data, H, hp))
        else if h_copyKey H \<and> length pKey < nKey then Some (Inl OutOfBounds)
        else
          let k = (if h_copyKey H then take nKey pKey else pKey);
              hp1 = hp(a \<mapsto> \<lparr>el_next = None, el_prev = None, el_data = None, el_pKey = k, el_nKey = nKey\<rparr>);
              H1 = H\<lparr>h_count := h_count H + 1\<rparr> in
          (case (if h_htsize H1 = 0 then rehash (m_first mm) f (H1, hp1) 16 else Some (Inr (H1, hp1))) of
             None \<Rightarrow> None
           | Some (Inl e) \<Rightarrow> Some (Inl e)
           | Some (Inr (H2, hp2)) \<Rightarrow>
             if h_htsize H2 = 0 then Some (Inr (Some data, H2\<lparr>h_count := 0\<rparr>, hp2(a := None)))
             else
               (case (if h_count H2 > int (h_htsize H2) then rehash (m_grow mm) f (H2, hp2) (h_htsize H2 * 2)
                      else Some (Inr (H2, hp2))) of
                  None \<Rightarrow> None
                | Some (Inl e) \<Rightarrow> Some (Inl e)
                | Some (Inr (H3, hp3)) \<Rightarrow>
                    Some (bindR (insertElement H3 hp3 (unat hraw mod h_htsize H3) a) (\<lambda>(H4, hp4).
                      bindR (updE hp4 a (\<lambda>e. e\<lparr>el_data := Some data\<rparr>)) (\<lambda>hp5. Inr (None, H4, hp5))))))))"

definition sqlite3HashInsert :: "nat \<Rightarrow> memory \<Rightarrow> Hash \<times> 'd elems \<Rightarrow> byte list \<Rightarrow> nat \<Rightarrow> 'd option
    \<Rightarrow> ('d option \<times> Hash \<times> 'd elems) cres option" where
  "sqlite3HashInsert f mm = (\<lambda>(H, hp) pKey nKey data.
     (case bindR (hashFunction (h_keyClass H) pKey nKey) (\<lambda>hraw.
        bindR (if h_htsize H \<noteq> 0 then findElementGivenHash H hp pKey nKey (unat hraw mod h_htsize H) else Inr None)
          (\<lambda>elem. Inr (hraw, elem))) of
        Inl e \<Rightarrow> Some (Inl e)
      | Inr (hraw, Some a) \<Rightarrow>
          (case getE hp a of Inl e \<Rightarrow> Some (Inl e)
           | Inr e \<Rightarrow>
             if data = None
             then map_option (map_sum id (\<lambda>T. (el_data e, T))) (removeElementGivenHash f H hp a (unat hraw mod h_htsize H))
             else if nKey \<noteq> el_nKey e then Some (Inl AssertFail)
             else Some (Inr (el_data e, H, hp(a \<mapsto> e\<lparr>el_data := data, el_pKey := (if h_copyKey H then el_pKey e else pKey)\<rparr>))))
      | Inr (hraw, None) \<Rightarrow>
          (case data of None \<Rightarrow> Some (Inr (None, H, hp))
           | Some d \<Rightarrow> sqlite3HashInsertNew f mm (H, hp) hraw pKey nKey d)))"

subsection \<open>Lists of neighbours\<close>

text \<open>The elements of a list that satisfy P are neighbours.\<close>

definition none_of :: "('a \<Rightarrow> bool) \<Rightarrow> 'a list \<Rightarrow> bool" where
  "none_of P xs \<longleftrightarrow> (\<forall>x \<in> set xs. \<not> P x)"

fun contig :: "('a \<Rightarrow> bool) \<Rightarrow> 'a list \<Rightarrow> bool" where
  "contig P [] = True"
| "contig P (x # xs) = (if P x then none_of P (dropWhile P xs) else contig P xs)"

lemma none_of_simps [simp]:
  "none_of P []" "none_of P (x # xs) \<longleftrightarrow> \<not> P x \<and> none_of P xs" "none_of P (xs @ ys) \<longleftrightarrow> none_of P xs \<and> none_of P ys"
  by (auto simp: none_of_def)

lemma none_of_subset: "none_of P xs \<Longrightarrow> set ys \<subseteq> set xs \<Longrightarrow> none_of P ys"
  by (auto simp: none_of_def)

lemma none_of_filter: "none_of P xs \<longleftrightarrow> filter P xs = []"
  by (auto simp: none_of_def filter_empty_conv)

lemma none_of_dropWhile: "none_of P xs \<Longrightarrow> dropWhile P xs = xs"
  by (cases xs) simp_all

lemma contig_none: "none_of P xs \<Longrightarrow> contig P xs"
  by (induction xs) simp_all

lemma contig_insert_other:
  "contig P (a @ x # b) \<Longrightarrow> \<not> P x \<Longrightarrow> \<not> P n \<Longrightarrow> contig P (a @ n # x # b)"
proof (induction a)
  case (Cons c a)
  have "none_of P (dropWhile P (a @ x # b)) \<Longrightarrow> none_of P (dropWhile P (a @ n # x # b))"
    using Cons.prems(2,3) by (induction a) (simp_all split: if_splits)
  with Cons show ?case by simp
qed simp

lemma contig_insert_own:
  "contig P (a @ x # b) \<Longrightarrow> P x \<Longrightarrow> P n \<Longrightarrow> none_of P a \<Longrightarrow> contig P (a @ n # x # b)"
  by (induction a) simp_all

lemma contig_of_tail: "none_of P (dropWhile P b) \<Longrightarrow> contig P b"
  using contig_none by (induction b) (simp_all split: if_splits)

lemma contig_remove: "contig P (a @ x # b) \<Longrightarrow> contig P (a @ b)"
proof (induction a)
  case Nil
  then show ?case using contig_of_tail [of P b] by (cases "P x") simp_all
next
  case (Cons c a)
  have "none_of P b \<Longrightarrow> none_of P (dropWhile P b)" by (simp add: none_of_dropWhile)
  then have "none_of P (dropWhile P (a @ x # b)) \<Longrightarrow> none_of P (dropWhile P (a @ b))"
    by (induction a) (simp_all split: if_splits)
  with Cons show ?case by simp
qed

text \<open>A walk from the first neighbour.\<close>

lemma contig_filter: "none_of P (dropWhile P xs) \<Longrightarrow> filter P xs = takeWhile P xs"
  by (induction xs) (simp_all add: none_of_filter split: if_splits)

lemma contig_split:
  assumes "contig P xs"
  shows "\<exists>a b. xs = a @ filter P xs @ b \<and> none_of P a \<and> none_of P b"
  using assms
proof (induction xs)
  case (Cons x xs)
  show ?case
  proof (cases "P x")
    case True
    then have r: "none_of P (dropWhile P xs)" using Cons.prems(1) by simp
    with True contig_filter [OF r] show ?thesis
      by (intro exI [of _ "[]"] exI [of _ "dropWhile P xs"]) simp
  next
    case False
    then obtain a b where "xs = a @ filter P xs @ b" "none_of P a" "none_of P b"
      using Cons by auto
    with False show ?thesis by (intro exI [of _ "x # a"] exI [of _ b]) simp
  qed
qed simp

subsection \<open>Doubly linked segments\<close>

definition firstOf :: "'a list \<Rightarrow> 'a option \<Rightarrow> 'a option" where
  "firstOf xs n = (case xs of [] \<Rightarrow> n | x # _ \<Rightarrow> Some x)"

definition lastOf :: "'a list \<Rightarrow> 'a option \<Rightarrow> 'a option" where
  "lastOf xs p = (if xs = [] then p else Some (last xs))"

lemma firstOf_simps [simp]: "firstOf [] n = n" "firstOf (x # xs) n = Some x"
  by (simp_all add: firstOf_def)

lemma lastOf_simps [simp]: "lastOf [] p = p" "lastOf (x # xs) p = lastOf xs (Some x)"
  by (simp_all add: lastOf_def)

lemma firstOf_append: "firstOf (xs @ ys) n = firstOf xs (firstOf ys n)"
  by (cases xs) simp_all

fun seg :: "'d elems \<Rightarrow> nat option \<Rightarrow> nat list \<Rightarrow> nat option \<Rightarrow> bool" where
  "seg hp p [] n = True"
| "seg hp p (a # as) n =
     ((\<exists>e. hp a = Some e \<and> el_prev e = p \<and> el_next e = firstOf as n) \<and> seg hp (Some a) as n)"

lemma seg_append: "seg hp p (as @ bs) n \<longleftrightarrow> seg hp p as (firstOf bs n) \<and> seg hp (lastOf as p) bs n"
  by (induction as arbitrary: p) (auto simp: firstOf_append)

lemma seg_frame [simp]: "a \<notin> set as \<Longrightarrow> seg (hp(a := v)) p as n = seg hp p as n"
  by (induction as arbitrary: p) auto

lemma seg_dom: "seg hp p as n \<Longrightarrow> a \<in> set as \<Longrightarrow> hp a \<noteq> None"
  by (induction as arbitrary: p) auto

lemma seg_set_next:
  "seg hp p as n \<Longrightarrow> as \<noteq> [] \<Longrightarrow> distinct as \<Longrightarrow> hp (last as) = Some e \<Longrightarrow> seg (hp(last as \<mapsto> e\<lparr>el_next := n'\<rparr>)) p as n'"
proof (induction as arbitrary: p)
  case (Cons a as)
  then show ?case
  proof (cases "as = []")
    case False
    then have "last as \<noteq> a" using Cons.prems(3) by auto
    moreover have "firstOf as n = firstOf as n'" using False by (cases as) simp_all
    ultimately show ?thesis using Cons False by auto
  qed auto
qed simp

lemma seg_set_prev:
  "seg hp p (a # as) n \<Longrightarrow> a \<notin> set as \<Longrightarrow> hp a = Some e \<Longrightarrow> seg (hp(a \<mapsto> e\<lparr>el_prev := p'\<rparr>)) p' (a # as) n"
  by auto

lemma getE_simps: "hp a = Some e \<Longrightarrow> getE hp a = Inr e" "hp a = Some e \<Longrightarrow> updE hp a f = Inr (hp(a \<mapsto> f e))"
  by (simp_all add: getE_def updE_def)

subsection \<open>Linking and unlinking an element\<close>

text \<open>What the links do not touch.\<close>

definition content :: "'d HashElem \<Rightarrow> 'd option \<times> byte list \<times> nat" where
  "content e = (el_data e, el_pKey e, el_nKey e)"

definition contents :: "'d elems \<Rightarrow> nat \<Rightarrow> ('d option \<times> byte list \<times> nat) option" where
  "contents hp a = map_option content (hp a)"

lemma contents_link [simp]:
  "hp a = Some e \<Longrightarrow> contents (hp(a \<mapsto> e\<lparr>el_next := n\<rparr>)) = contents hp"
  "hp a = Some e \<Longrightarrow> contents (hp(a \<mapsto> e\<lparr>el_prev := p\<rparr>)) = contents hp"
  "hp a = Some e \<Longrightarrow> contents (hp(a \<mapsto> e\<lparr>el_next := n, el_prev := p\<rparr>)) = contents hp"
  by (auto simp: contents_def content_def fun_eq_iff)

lemma contents_dom: "contents hp = contents hp' \<Longrightarrow> dom hp = dom hp'"
proof -
  assume "contents hp = contents hp'"
  then have "hp a = None \<longleftrightarrow> hp' a = None" for a by (metis contents_def option.map_disc_iff)
  then show ?thesis by (auto simp: dom_def)
qed

text \<open>Linking before an element x of the list, and at its front.\<close>

lemma link_before:
  assumes "seg hp None (pre @ x # post) None" "distinct (pre @ x # post)" "a \<notin> set (pre @ x # post)" "hp a = Some e"
  shows "\<exists>eh hp1 hp2 hp3. hp x = Some eh \<and> el_prev eh = lastOf pre None
    \<and> updE hp a (\<lambda>e. e\<lparr>el_next := Some x, el_prev := el_prev eh\<rparr>) = Inr hp1
    \<and> updOpt hp1 (el_prev eh) (\<lambda>e. e\<lparr>el_next := Some a\<rparr>) = Inr hp2
    \<and> updE hp2 x (\<lambda>e. e\<lparr>el_prev := Some a\<rparr>) = Inr hp3
    \<and> seg hp3 None (pre @ a # x # post) None \<and> contents hp3 = contents hp
    \<and> (\<forall>b. b \<notin> set (pre @ a # x # post) \<longrightarrow> hp3 b = hp b)"
proof -
  from assms(1) obtain eh where x: "hp x = Some eh" "el_prev eh = lastOf pre None"
    and s: "seg hp None pre (Some x)" "seg hp (lastOf pre None) (x # post) None"
    by (auto simp: seg_append)
  have ne: "a \<noteq> x" "a \<notin> set pre" "a \<notin> set post" "x \<notin> set pre" "x \<notin> set post" "set pre \<inter> set post = {}"
    using assms(2,3) by auto
  define hp1 where "hp1 = hp(a \<mapsto> e\<lparr>el_next := Some x, el_prev := lastOf pre None\<rparr>)"
  have c1: "contents hp1 = contents hp" using assms(4) by (simp add: hp1_def)
  have s1: "seg hp1 None pre (Some x)" "seg hp1 (lastOf pre None) (x # post) None" using s ne by (simp_all add: hp1_def)
  have x1: "hp1 x = Some eh" using x ne by (simp add: hp1_def)
  obtain hp2 where h2: "updOpt hp1 (lastOf pre None) (\<lambda>e. e\<lparr>el_next := Some a\<rparr>) = Inr hp2"
    "seg hp2 None pre (Some a)" "seg hp2 (lastOf pre None) (x # post) None" "hp2 a = hp1 a" "hp2 x = Some eh"
    "contents hp2 = contents hp" "\<forall>b. b \<notin> set (pre @ a # x # post) \<longrightarrow> hp2 b = hp b"
  proof (cases "pre = []")
    case True
    with s1 c1 x1 that show ?thesis by (simp add: updOpt_def lastOf_def hp1_def)
  next
    case False
    then have l: "last pre \<in> set pre" "distinct pre" using assms(2) by simp_all
    obtain el where el: "hp1 (last pre) = Some el" using seg_dom [OF s1(1) l(1)] by auto
    let ?hp2 = "hp1(last pre \<mapsto> el\<lparr>el_next := Some a\<rparr>)"
    have "last pre \<noteq> a" "last pre \<noteq> x" "last pre \<notin> set post" using l ne by auto
    moreover have "\<forall>b. b \<notin> set (pre @ a # x # post) \<longrightarrow> ?hp2 b = hp b" using l(1) by (auto simp: hp1_def)
    ultimately show ?thesis
      using that [of ?hp2] seg_set_next [OF s1(1) False l(2) el, of "Some a"] s1(2) False el c1 x1
      by (simp add: updOpt_def lastOf_def getE_simps)
  qed
  let ?hp3 = "hp2(x \<mapsto> eh\<lparr>el_prev := Some a\<rparr>)"
  have "seg ?hp3 None pre (Some a)" using h2(2) ne by simp
  moreover have "seg ?hp3 (Some a) (x # post) None" by (rule seg_set_prev [OF h2(3) ne(5) h2(5)])
  moreover have "?hp3 a = Some (e\<lparr>el_next := Some x, el_prev := lastOf pre None\<rparr>)" using h2(4) ne by (simp add: hp1_def)
  ultimately have "seg ?hp3 None (pre @ a # x # post) None" by (simp add: seg_append)
  moreover have "contents ?hp3 = contents hp" using h2(5,6) by simp
  ultimately show ?thesis using x h2(1,5,7) assms(4) unfolding hp1_def by (auto simp: getE_simps)
qed

lemma link_front:
  assumes "seg hp None as None" "distinct as" "a \<notin> set as" "hp a = Some e"
  shows "\<exists>hp1 hp2 hp3. updE hp a (\<lambda>e. e\<lparr>el_next := firstOf as None\<rparr>) = Inr hp1
    \<and> updOpt hp1 (firstOf as None) (\<lambda>e. e\<lparr>el_prev := Some a\<rparr>) = Inr hp2
    \<and> updE hp2 a (\<lambda>e. e\<lparr>el_prev := None\<rparr>) = Inr hp3
    \<and> seg hp3 None (a # as) None \<and> contents hp3 = contents hp \<and> (\<forall>b. b \<notin> set (a # as) \<longrightarrow> hp3 b = hp b)"
proof -
  let ?e = "e\<lparr>el_next := firstOf as None\<rparr>"
  define hp1 where "hp1 = hp(a \<mapsto> ?e)"
  have s1: "seg hp1 None as None" using assms(1,3) by (simp add: hp1_def)
  have c1: "contents hp1 = contents hp" using assms(4) by (simp add: hp1_def)
  have a1: "hp1 a = Some ?e" by (simp add: hp1_def)
  obtain hp2 where h2: "updOpt hp1 (firstOf as None) (\<lambda>e. e\<lparr>el_prev := Some a\<rparr>) = Inr hp2"
    "seg hp2 (Some a) as None" "hp2 a = Some ?e" "contents hp2 = contents hp"
    "\<forall>b. b \<notin> set (a # as) \<longrightarrow> hp2 b = hp b"
  proof (cases as)
    case Nil
    with c1 a1 that show ?thesis by (simp add: updOpt_def hp1_def)
  next
    case (Cons b bs)
    then obtain eb where eb: "hp1 b = Some eb" using s1 by auto
    have "seg (hp1(b \<mapsto> eb\<lparr>el_prev := Some a\<rparr>)) (Some a) (b # bs) None"
      by (rule seg_set_prev [where e = eb]) (use s1 Cons assms(2) eb in simp_all)
    with that [of "hp1(b \<mapsto> eb\<lparr>el_prev := Some a\<rparr>)"] eb c1 a1 Cons assms(3) show ?thesis
      by (simp add: updOpt_def getE_simps) (simp add: hp1_def)
  qed
  let ?hp3 = "hp2(a \<mapsto> ?e\<lparr>el_prev := None\<rparr>)"
  have "seg ?hp3 None (a # as) None" using h2(2) assms(3) by simp
  moreover have "contents ?hp3 = contents hp" using h2(3,4) by simp
  ultimately show ?thesis using h2(1,3,5) assms(4) unfolding hp1_def by (auto simp: getE_simps)
qed

subsection \<open>Buckets\<close>

definition bucket :: "(nat \<Rightarrow> nat) \<Rightarrow> nat list \<Rightarrow> nat \<Rightarrow> ht_entry \<Rightarrow> bool" where
  "bucket bk as b ent \<longleftrightarrow> contig (\<lambda>a. bk a = b) as \<and> ht_count ent = int (length (filter (\<lambda>a. bk a = b) as))
     \<and> ht_chain ent = firstOf (filter (\<lambda>a. bk a = b) as) None"

definition buckets :: "(nat \<Rightarrow> nat) \<Rightarrow> nat list \<Rightarrow> ht_entry list \<Rightarrow> bool" where
  "buckets bk as ht \<longleftrightarrow> (\<forall>b < length ht. bucket bk as b (ht ! b))"

definition linked :: "Hash \<Rightarrow> 'd elems \<Rightarrow> nat list \<Rightarrow> bool" where
  "linked H hp as \<longleftrightarrow> seg hp None as None \<and> distinct as \<and> h_first H = firstOf as None"

lemma buckets_update:
  assumes "b < length ht" "bucket bk as' b ent"
    and "\<And>b'. b' < length ht \<Longrightarrow> b' \<noteq> b \<Longrightarrow> bucket bk as' b' (ht ! b')"
  shows "buckets bk as' (ht[b := ent])"
  unfolding buckets_def using assms by (auto simp: nth_list_update)

lemma filter_neighbours:
  assumes "filter P as = x # fs"
  shows "\<exists>pre post. as = pre @ x # post \<and> none_of P pre \<and> P x \<and> filter P post = fs"
  using assms by (auto simp: none_of_def filter_eq_Cons_iff)

text \<open>Linking an element: one more in its bucket, in front of its neighbours.\<close>

lemma insertElement_spec:
  assumes "linked H hp as" "h_ht H = Some ht" "buckets bk as ht" "bk a < length ht" "a \<notin> set as" "hp a = Some e"
  shows "\<exists>hp' as' ht'. insertElement H hp (bk a) a = Inr (H\<lparr>h_first := firstOf as' None, h_ht := Some ht'\<rparr>, hp')
    \<and> seg hp' None as' None \<and> distinct as' \<and> buckets bk as' ht' \<and> length ht' = length ht
    \<and> set as' = insert a (set as) \<and> contents hp' = contents hp \<and> (\<forall>b. b \<notin> insert a (set as) \<longrightarrow> hp' b = hp b)"
proof -
  let ?P = "\<lambda>c. bk c = bk a"
  let ?ent = "ht ! bk a"
  have lk: "seg hp None as None" "distinct as" "h_first H = firstOf as None" using assms(1) by (simp_all add: linked_def)
  have bu: "bucket bk as b (ht ! b)" if "b < length ht" for b using assms(3) that by (simp add: buckets_def)
  have b: "contig ?P as" "ht_count ?ent = int (length (filter ?P as))" "ht_chain ?ent = firstOf (filter ?P as) None"
    using bu [OF assms(4)] by (simp_all add: bucket_def)
  let ?ent' = "\<lparr>ht_count = ht_count ?ent + 1, ht_chain = Some a\<rparr>"
  have tab: "getTable H = Inr ht" "rd ht (bk a) = Inr ?ent" using assms(2,4) by (simp_all add: getTable_def)
  show ?thesis
  proof (cases "filter ?P as")
    case Nil
    then have n: "none_of ?P as" by (simp add: none_of_filter)
    from link_front [OF lk(1,2) assms(5,6)] obtain hp1 hp2 hp3 where
      h: "updE hp a (\<lambda>e. e\<lparr>el_next := firstOf as None\<rparr>) = Inr hp1"
        "updOpt hp1 (firstOf as None) (\<lambda>e. e\<lparr>el_prev := Some a\<rparr>) = Inr hp2"
        "updE hp2 a (\<lambda>e. e\<lparr>el_prev := None\<rparr>) = Inr hp3"
        "seg hp3 None (a # as) None" "contents hp3 = contents hp" "\<forall>b. b \<notin> set (a # as) \<longrightarrow> hp3 b = hp b" by blast
    have "insertElement H hp (bk a) a = Inr (H\<lparr>h_first := Some a, h_ht := Some (ht[bk a := ?ent'])\<rparr>, hp3)"
      using h(1-3) lk(3) b(3) Nil by (simp add: insertElement_def tab)
    moreover have "buckets bk (a # as) (ht[bk a := ?ent'])"
      by (rule buckets_update [OF assms(4)])
        (use n b(2) bu Nil in \<open>auto simp: bucket_def none_of_dropWhile\<close>)
    ultimately show ?thesis using h(4-6) lk(2) assms(5)
      by (intro exI [of _ hp3] exI [of _ "a # as"] exI [of _ "ht[bk a := ?ent']"]) simp
  next
    case (Cons x fs)
    from filter_neighbours [OF Cons] obtain pre post where
      p: "as = pre @ x # post" "none_of ?P pre" "bk x = bk a" "filter ?P post = fs" by blast
    let ?as = "pre @ a # x # post"
    from link_before [OF lk(1) [unfolded p(1)] lk(2) [unfolded p(1)] assms(5) [unfolded p(1)] assms(6)] obtain eh hp1 hp2 hp3 where
      h: "hp x = Some eh" "el_prev eh = lastOf pre None"
        "updE hp a (\<lambda>e. e\<lparr>el_next := Some x, el_prev := el_prev eh\<rparr>) = Inr hp1"
        "updOpt hp1 (el_prev eh) (\<lambda>e. e\<lparr>el_next := Some a\<rparr>) = Inr hp2"
        "updE hp2 x (\<lambda>e. e\<lparr>el_prev := Some a\<rparr>) = Inr hp3"
        "seg hp3 None ?as None" "contents hp3 = contents hp" "\<forall>b. b \<notin> set ?as \<longrightarrow> hp3 b = hp b" by blast
    have "(if el_prev eh = None then H\<lparr>h_first := Some a\<rparr> else H) = H\<lparr>h_first := firstOf ?as None\<rparr>"
      using h(2) lk(3) p(1) by (cases pre) (simp_all add: lastOf_def)
    then have "insertElement H hp (bk a) a = Inr (H\<lparr>h_first := firstOf ?as None, h_ht := Some (ht[bk a := ?ent'])\<rparr>, hp3)"
      using h(1,3-5) b(3) Cons by (simp add: insertElement_def tab getE_simps)
    moreover have "buckets bk ?as (ht[bk a := ?ent'])"
    proof (rule buckets_update [OF assms(4)])
      have "contig ?P ?as" using contig_insert_own [of ?P pre x post a] b(1) p by simp
      moreover have "filter ?P pre = []" using p(2) by (simp add: none_of_filter)
      ultimately show "bucket bk ?as (bk a) ?ent'" using b(2) p(1,3) by (simp add: bucket_def)
    next
      fix b' assume b': "b' < length ht" "b' \<noteq> bk a"
      have "contig (\<lambda>a. bk a = b') ?as"
        by (rule contig_insert_other) (use bu [OF b'(1)] b'(2) p(1,3) in \<open>auto simp: bucket_def\<close>)
      then show "bucket bk ?as b' (ht ! b')" using bu [OF b'(1)] b'(2) p(1,3) by (simp add: bucket_def)
    qed
    ultimately show ?thesis using h(6-8) lk(2) assms(5) p(1)
      by (intro exI [of _ hp3] exI [of _ ?as] exI [of _ "ht[bk a := ?ent']"]) auto
  qed
qed

subsection \<open>Keys as values\<close>

text \<open>
  A key is used as its callers use it: at least one byte, the block has all of them, and a
  string key has a zero byte at most at its end.
\<close>

definition keyOK :: "keyClass \<Rightarrow> byte list \<Rightarrow> nat \<Rightarrow> bool" where
  "keyOK kc z n \<longleftrightarrow> 0 < n \<and> n \<le> length z \<and> (kc = HASH_STRING \<longrightarrow> 0 \<notin> set (take (n - 1) z))"

definition canon :: "keyClass \<Rightarrow> byte list \<Rightarrow> nat \<Rightarrow> byte list" where
  "canon kc z n = (case kc of HASH_STRING \<Rightarrow> lower (take n z) | HASH_BINARY \<Rightarrow> take n z)"

definition khash :: "keyClass \<Rightarrow> byte list \<Rightarrow> u32" where
  "khash kc cs = foldl (\<lambda>h c. push_bit 3 h XOR h XOR (case kc of HASH_STRING \<Rightarrow> ucast c | HASH_BINARY \<Rightarrow> scast c)) 0 cs AND 0x7fffffff"

lemma hashLoop_foldl:
  "n \<le> length z \<Longrightarrow> hashLoop f h n z = Inr (foldl (\<lambda>h c. push_bit 3 h XOR h XOR f c) h (take n z))"
proof (induction n arbitrary: h z)
  case (Suc n)
  then show ?case by (cases z) simp_all
qed simp

lemma foldl_lower: "foldl g h (lower cs) = foldl (\<lambda>h c. g h (UpperToLower c)) h cs"
  by (simp add: lower_def foldl_map)

lemma hashFunction_ok: "keyOK kc z n \<Longrightarrow> hashFunction kc z n = Inr (khash kc (canon kc z n))"
  by (cases kc) (simp_all add: keyOK_def hashFunction_def strHash_def binHash_def khash_def canon_def hashLoop_foldl foldl_lower)

lemma memcmp_key: "length ds \<le> length z \<Longrightarrow> \<exists>d. memcmpC z ds = Inr d \<and> (d = 0 \<longleftrightarrow> take (length ds) z = ds)"
proof (induction ds arbitrary: z)
  case (Cons d ds)
  then obtain c cs where z: "z = c # cs" by (cases z) simp_all
  with Cons show ?case by (cases "c = d") (auto simp: word_uint_eq_iff)
qed simp

lemma compareFunction_ok:
  assumes "keyOK kc z n" "keyOK kc z' n'"
  shows "\<exists>d. compareFunction kc z n z' n' = Inr d \<and> (d = 0 \<longleftrightarrow> canon kc z n = canon kc z' n')"
proof (cases "n = n'")
  case True
  with StrNICmp_key [of n z z'] memcmp_key [of "take n z'" z] assms show ?thesis
    by (cases kc) (simp_all add: compareFunction_def strCompare_def binCompare_def canon_def keyOK_def)
next
  case False
  have "length (canon kc z n) = n" "length (canon kc z' n') = n'"
    using assms by (cases kc; simp add: canon_def keyOK_def lower_def)+
  with False have "canon kc z n \<noteq> canon kc z' n'" by metis
  with False show ?thesis by (cases kc) (simp_all add: compareFunction_def strCompare_def binCompare_def)
qed

lemma mask_mod: "unat (h AND of_nat (2 ^ k - 1) :: u32) = unat h mod 2 ^ k"
proof -
  have "(of_nat (2 ^ k - 1) :: u32) = of_nat (mask k)" by (simp add: mask_eq_exp_minus_1)
  also have "\<dots> = mask k" by (rule of_nat_mask_eq)
  finally show ?thesis by (simp add: unat_and_mask_mod)
qed

text \<open>The key and the bucket of an element, from the contents of the heap.\<close>

definition keyOf :: "keyClass \<Rightarrow> (nat \<Rightarrow> ('d option \<times> byte list \<times> nat) option) \<Rightarrow> nat \<Rightarrow> byte list" where
  "keyOf kc C a = (case C a of None \<Rightarrow> [] | Some (d, z, n) \<Rightarrow> canon kc z n)"

definition goodKey :: "keyClass \<Rightarrow> (nat \<Rightarrow> ('d option \<times> byte list \<times> nat) option) \<Rightarrow> nat \<Rightarrow> bool" where
  "goodKey kc C a \<longleftrightarrow> (\<exists>d z n. C a = Some (d, z, n) \<and> keyOK kc z n)"

definition bucketOf :: "keyClass \<Rightarrow> nat \<Rightarrow> (nat \<Rightarrow> ('d option \<times> byte list \<times> nat) option) \<Rightarrow> nat \<Rightarrow> nat" where
  "bucketOf kc m C a = unat (khash kc (keyOf kc C a)) mod m"

lemma goodKey_elem:
  assumes "goodKey kc (contents hp) a"
  shows "\<exists>e. hp a = Some e \<and> keyOK kc (el_pKey e) (el_nKey e) \<and> keyOf kc (contents hp) a = canon kc (el_pKey e) (el_nKey e)"
  using assms by (auto simp: goodKey_def contents_def content_def keyOf_def)

subsection \<open>Rehashing\<close>

fun nexts :: "'d elems \<Rightarrow> nat list \<Rightarrow> bool" where
  "nexts hp [] = True"
| "nexts hp (a # as) = ((\<exists>e. hp a = Some e \<and> el_next e = firstOf as None) \<and> nexts hp as)"

lemma seg_nexts: "seg hp p as None \<Longrightarrow> nexts hp as"
  by (induction as arbitrary: p) auto

lemma nexts_frame: "\<forall>a \<in> set as. hp' a = hp a \<Longrightarrow> nexts hp as \<Longrightarrow> nexts hp' as"
  by (induction as) auto

lemma rehashLoop_spec:
  assumes "linked H hp ds" "h_ht H = Some ht" "length ht = 2 ^ k" "buckets (bucketOf (h_keyClass H) (2 ^ k) C) ds ht"
    "nexts hp rs" "distinct rs" "set ds \<inter> set rs = {}" "\<forall>a \<in> set rs. goodKey (h_keyClass H) C a" "contents hp = C" "length rs \<le> f"
  shows "\<exists>hp' as ht'. rehashLoop f H hp (2 ^ k) (firstOf rs None) =
      Some (Inr (H\<lparr>h_first := firstOf as None, h_ht := Some ht'\<rparr>, hp'))
    \<and> seg hp' None as None \<and> distinct as \<and> buckets (bucketOf (h_keyClass H) (2 ^ k) C) as ht' \<and> length ht' = 2 ^ k
    \<and> set as = set ds \<union> set rs \<and> contents hp' = C"
  using assms
proof (induction rs arbitrary: H hp ds ht f)
  case Nil
  then have "H\<lparr>h_first := firstOf ds None, h_ht := Some ht\<rparr> = H" by (simp add: linked_def)
  with Nil show ?case by (intro exI [of _ hp] exI [of _ ds] exI [of _ ht]) (auto simp: linked_def)
next
  case (Cons a rs)
  let ?bk = "bucketOf (h_keyClass H) (2 ^ k) C"
  obtain g where f: "f = Suc g" using Cons.prems(10) by (cases f) simp_all
  obtain e where e: "hp a = Some e" "keyOK (h_keyClass H) (el_pKey e) (el_nKey e)"
      "keyOf (h_keyClass H) C a = canon (h_keyClass H) (el_pKey e) (el_nKey e)"
    using goodKey_elem [of "h_keyClass H" hp a] Cons.prems(8,9) by auto
  have n: "el_next e = firstOf rs None" using Cons.prems(5) e(1) by auto
  let ?h = "khash (h_keyClass H) (keyOf (h_keyClass H) C a)"
  have b: "unat (?h AND of_nat (2 ^ k - 1)) = ?bk a" by (simp only: mask_mod bucketOf_def)
  have ins: "?bk a < length ht" "a \<notin> set ds" using Cons.prems(3,7) by (simp_all add: bucketOf_def)
  from insertElement_spec [OF Cons.prems(1,2,4) ins e(1)] obtain hp' as ht' where
    i: "insertElement H hp (?bk a) a = Inr (H\<lparr>h_first := firstOf as None, h_ht := Some ht'\<rparr>, hp')"
      "seg hp' None as None" "distinct as" "buckets ?bk as ht'" "length ht' = length ht" "set as = insert a (set ds)"
      "contents hp' = contents hp" "\<forall>b. b \<notin> insert a (set ds) \<longrightarrow> hp' b = hp b" by blast
  let ?H = "H\<lparr>h_first := firstOf as None, h_ht := Some ht'\<rparr>"
  have s: "rehashLoop f H hp (2 ^ k) (firstOf (a # rs) None) = rehashLoop g ?H hp' (2 ^ k) (firstOf rs None)"
    using i(1) n hashFunction_ok [OF e(2)] b [unfolded e(3)] by (simp add: f getE_simps [where hp = hp, OF e(1)])
  have "nexts hp' rs" by (rule nexts_frame [of _ hp' hp]) (use Cons.prems(5-7) i(8) in auto)
  then have "\<exists>hp'' as'' ht''. rehashLoop g ?H hp' (2 ^ k) (firstOf rs None) =
      Some (Inr (?H\<lparr>h_first := firstOf as'' None, h_ht := Some ht''\<rparr>, hp''))
    \<and> seg hp'' None as'' None \<and> distinct as'' \<and> buckets (bucketOf (h_keyClass ?H) (2 ^ k) C) as'' ht'' \<and> length ht'' = 2 ^ k
    \<and> set as'' = set as \<union> set rs \<and> contents hp'' = C"
    by (intro Cons.IH [of ?H hp' as ht'])
      (use Cons.prems(3,6-10) i(2-7) f in \<open>auto simp: linked_def\<close>)
  then show ?case unfolding s using i(6) by simp
qed

subsection \<open>The structure of a table\<close>

definition core :: "Hash \<Rightarrow> 'd elems \<Rightarrow> nat list \<Rightarrow> bool" where
  "core H hp as \<longleftrightarrow> linked H hp as \<and> (\<forall>a \<in> set as. goodKey (h_keyClass H) (contents hp) a)
     \<and> (case h_ht H of None \<Rightarrow> h_htsize H = 0 \<and> as = []
        | Some ht \<Rightarrow> length ht = h_htsize H \<and> (\<exists>k. h_htsize H = 2 ^ k)
            \<and> buckets (bucketOf (h_keyClass H) (h_htsize H) (contents hp)) as ht)"

text \<open>What linking and rehashing leave alone.\<close>

definition sameUse :: "Hash \<Rightarrow> Hash \<Rightarrow> bool" where
  "sameUse H H' \<longleftrightarrow> h_keyClass H' = h_keyClass H \<and> h_copyKey H' = h_copyKey H \<and> h_count H' = h_count H"

lemma core_some: "core H hp as \<Longrightarrow> h_htsize H \<noteq> 0 \<Longrightarrow> \<exists>ht. h_ht H = Some ht"
  by (auto simp: core_def split: option.splits)

lemma core_none: "core H hp as \<Longrightarrow> h_htsize H = 0 \<Longrightarrow> h_ht H = None \<and> as = []"
  by (auto simp: core_def split: option.splits)

lemma contig_cong: "\<forall>x \<in> set xs. P x = Q x \<Longrightarrow> contig P xs = contig Q xs"
proof (induction xs)
  case (Cons x xs)
  have "dropWhile P xs = dropWhile Q xs" using Cons.prems by (auto intro: dropWhile_cong)
  then have "none_of P (dropWhile P xs) = none_of Q (dropWhile Q xs)"
    using Cons.prems by (auto simp: none_of_def dest: set_dropWhileD)
  with Cons show ?case by simp
qed simp

lemma buckets_cong:
  assumes "\<forall>x \<in> set as. bk x = bk' x"
  shows "buckets bk as ht = buckets bk' as ht"
proof -
  have "filter (\<lambda>a. bk a = b) as = filter (\<lambda>a. bk' a = b) as" for b using assms by (auto intro: filter_cong)
  moreover have "contig (\<lambda>a. bk a = b) as = contig (\<lambda>a. bk' a = b) as" for b by (rule contig_cong) (use assms in simp)
  ultimately show ?thesis by (simp add: buckets_def bucket_def)
qed

text \<open>A heap that differs only outside the list, or in data and key pointers of equal keys.\<close>

lemma core_frame:
  assumes "core H hp as" "\<forall>a \<in> set as. \<exists>e e'. hp a = Some e \<and> hp' a = Some e' \<and> el_next e' = el_next e \<and> el_prev e' = el_prev e"
    "\<forall>a \<in> set as. goodKey (h_keyClass H) (contents hp') a \<and> keyOf (h_keyClass H) (contents hp') a = keyOf (h_keyClass H) (contents hp) a"
  shows "core H hp' as"
proof -
  have seg: "seg hp p bs n \<Longrightarrow> set bs \<subseteq> set as \<Longrightarrow> seg hp' p bs n" for p bs n
  proof (induction bs arbitrary: p)
    case (Cons b bs)
    then obtain e e' where "hp b = Some e" "hp' b = Some e'" "el_next e' = el_next e" "el_prev e' = el_prev e"
      using assms(2) by auto
    with Cons show ?case by auto
  qed simp
  have "\<forall>x \<in> set as. bucketOf (h_keyClass H) m (contents hp') x = bucketOf (h_keyClass H) m (contents hp) x" for m
    using assms(3) by (simp add: bucketOf_def)
  then have "buckets (bucketOf (h_keyClass H) m (contents hp')) as ht = buckets (bucketOf (h_keyClass H) m (contents hp)) as ht" for m ht
    by (rule buckets_cong)
  with assms(1,3) seg [of None as None] show ?thesis by (auto simp: core_def linked_def split: option.splits)
qed

lemma rehash_core:
  assumes "core H hp as" "length as \<le> f"
  shows "\<exists>H' hp' as'. rehash ok1 f (H, hp) (2 ^ k) = Some (Inr (H', hp')) \<and> core H' hp' as' \<and> set as' = set as
    \<and> contents hp' = contents hp \<and> sameUse H H' \<and> h_htsize H' = (if ok1 then 2 ^ k else h_htsize H) \<and> (\<not> ok1 \<longrightarrow> H' = H \<and> hp' = hp)"
proof (cases ok1)
  case True
  let ?ht = "replicate (2 ^ k) \<lparr>ht_count = 0, ht_chain = None\<rparr>"
  let ?H = "H\<lparr>h_ht := Some ?ht, h_htsize := 2 ^ k, h_first := None\<rparr>"
  have l: "seg hp None as None" "distinct as" "h_first H = firstOf as None" using assms(1) by (simp_all add: core_def linked_def)
  have "\<exists>hp' as' ht'. rehashLoop f ?H hp (2 ^ k) (firstOf as None) =
      Some (Inr (?H\<lparr>h_first := firstOf as' None, h_ht := Some ht'\<rparr>, hp'))
    \<and> seg hp' None as' None \<and> distinct as' \<and> buckets (bucketOf (h_keyClass ?H) (2 ^ k) (contents hp)) as' ht' \<and> length ht' = 2 ^ k
    \<and> set as' = set [] \<union> set as \<and> contents hp' = contents hp"
    by (rule rehashLoop_spec [where ds = "[]" and ht = ?ht])
      (use assms l seg_nexts [OF l(1)] in \<open>simp_all add: linked_def buckets_def bucket_def core_def\<close>)
  then obtain hp' as' ht' where r: "rehashLoop f ?H hp (2 ^ k) (firstOf as None) =
      Some (Inr (?H\<lparr>h_first := firstOf as' None, h_ht := Some ht'\<rparr>, hp'))"
    "seg hp' None as' None" "distinct as'" "buckets (bucketOf (h_keyClass H) (2 ^ k) (contents hp)) as' ht'" "length ht' = 2 ^ k"
    "set as' = set as" "contents hp' = contents hp" by auto
  let ?H' = "?H\<lparr>h_first := firstOf as' None, h_ht := Some ht'\<rparr>"
  have "core ?H' hp' as'" using r(2-7) assms(1) by (simp add: core_def linked_def)
  moreover have "rehash ok1 f (H, hp) (2 ^ k) = Some (Inr (?H', hp'))" using r(1) True l(3) by (simp add: rehash_def)
  ultimately show ?thesis using r(6,7) True
    by (intro exI [of _ ?H'] exI [of _ hp'] exI [of _ as']) (simp add: sameUse_def)
next
  case False
  with assms show ?thesis by (intro exI [of _ H] exI [of _ hp] exI [of _ as]) (simp add: rehash_def sameUse_def)
qed

lemma insert_core:
  assumes "core H hp as" "h_htsize H \<noteq> 0" "goodKey (h_keyClass H) (contents hp) a" "a \<notin> set as"
  shows "\<exists>H' hp' as'. insertElement H hp (bucketOf (h_keyClass H) (h_htsize H) (contents hp) a) a = Inr (H', hp')
    \<and> core H' hp' as' \<and> set as' = insert a (set as) \<and> contents hp' = contents hp \<and> sameUse H H' \<and> h_htsize H' = h_htsize H"
proof -
  let ?bk = "bucketOf (h_keyClass H) (h_htsize H) (contents hp)"
  obtain ht where ht: "h_ht H = Some ht" "length ht = h_htsize H" "\<exists>k. h_htsize H = 2 ^ k" "buckets ?bk as ht" "linked H hp as"
    using core_some [OF assms(1,2)] assms(1) by (auto simp: core_def)
  obtain e where e: "hp a = Some e" using goodKey_elem [OF assms(3)] by auto
  have "?bk a < length ht" using ht(2) assms(2) by (simp add: bucketOf_def)
  from insertElement_spec [OF ht(5,1,4) this assms(4) e] obtain hp' as' ht' where
    i: "insertElement H hp (?bk a) a = Inr (H\<lparr>h_first := firstOf as' None, h_ht := Some ht'\<rparr>, hp')"
      "seg hp' None as' None" "distinct as'" "buckets ?bk as' ht'" "length ht' = length ht" "set as' = insert a (set as)"
      "contents hp' = contents hp" by blast
  let ?H = "H\<lparr>h_first := firstOf as' None, h_ht := Some ht'\<rparr>"
  have "core ?H hp' as'" using i(2-7) ht(2,3) assms(1,3) by (auto simp: core_def linked_def)
  with i(1,6,7) show ?thesis
    by (intro exI [of _ ?H] exI [of _ hp'] exI [of _ as']) (simp add: sameUse_def)
qed

subsection \<open>Unlinking and searching\<close>

lemma contents_remove: "contents (hp(a := None)) = (contents hp)(a := None)"
  by (auto simp: contents_def)

lemma unlink:
  assumes "seg hp None (pre @ a # post) None" "distinct (pre @ a # post)"
  shows "\<exists>e hp1 hp2. hp a = Some e \<and> el_prev e = lastOf pre None \<and> el_next e = firstOf post None
    \<and> updOpt hp (el_prev e) (\<lambda>p. p\<lparr>el_next := el_next e\<rparr>) = Inr hp1
    \<and> updOpt hp1 (el_next e) (\<lambda>n. n\<lparr>el_prev := el_prev e\<rparr>) = Inr hp2
    \<and> seg (hp2(a := None)) None (pre @ post) None \<and> contents hp2 = contents hp"
proof -
  from assms(1) obtain e where e: "hp a = Some e" "el_prev e = lastOf pre None" "el_next e = firstOf post None"
    and s: "seg hp None pre (Some a)" "seg hp (Some a) post None" by (auto simp: seg_append)
  have ne: "a \<notin> set pre" "a \<notin> set post" "distinct pre" "distinct post" "set pre \<inter> set post = {}" using assms(2) by auto
  obtain hp1 where h1: "updOpt hp (lastOf pre None) (\<lambda>p. p\<lparr>el_next := firstOf post None\<rparr>) = Inr hp1"
    "seg hp1 None pre (firstOf post None)" "seg hp1 (Some a) post None" "contents hp1 = contents hp"
  proof (cases "pre = []")
    case True
    with s that show ?thesis by (simp add: updOpt_def)
  next
    case False
    then obtain el where el: "hp (last pre) = Some el" using seg_dom [OF s(1), of "last pre"] by auto
    have "last pre \<notin> set post" using ne(5) last_in_set [OF False] by blast
    with seg_set_next [OF s(1) False ne(3) el, of "firstOf post None"] False s(2) el that
    show ?thesis by (simp add: updOpt_def lastOf_def getE_simps)
  qed
  obtain hp2 where h2: "updOpt hp1 (firstOf post None) (\<lambda>n. n\<lparr>el_prev := lastOf pre None\<rparr>) = Inr hp2"
    "seg hp2 None pre (firstOf post None)" "seg hp2 (lastOf pre None) post None" "contents hp2 = contents hp"
  proof (cases post)
    case Nil
    with h1 that show ?thesis by (simp add: updOpt_def)
  next
    case (Cons b bs)
    then obtain eb where eb: "hp1 b = Some eb" using h1(3) by auto
    have "seg (hp1(b \<mapsto> eb\<lparr>el_prev := lastOf pre None\<rparr>)) (lastOf pre None) (b # bs) None"
      by (rule seg_set_prev [where e = eb]) (use h1(3) Cons ne(4) eb in simp_all)
    moreover have "seg (hp1(b \<mapsto> eb\<lparr>el_prev := lastOf pre None\<rparr>)) None pre (firstOf post None)"
      using h1(2) Cons ne(5) by simp
    ultimately show ?thesis using that [of "hp1(b \<mapsto> eb\<lparr>el_prev := lastOf pre None\<rparr>)"] eb h1(4) Cons
      by (simp add: updOpt_def getE_simps)
  qed
  have "seg (hp2(a := None)) None (pre @ post) None" using h2(2,3) ne by (simp add: seg_append)
  with e h1(1) h2(1,4) show ?thesis by auto
qed

lemma findLoop_spec:
  "nexts hp (fs @ post) \<Longrightarrow> \<forall>a \<in> set fs. goodKey kc (contents hp) a \<Longrightarrow> keyOK kc z n \<Longrightarrow>
     findLoop kc hp (length fs) (firstOf (fs @ post) None) z n = Inr (find (\<lambda>a. keyOf kc (contents hp) a = canon kc z n) fs)"
proof (induction fs)
  case (Cons a fs)
  obtain e where e: "hp a = Some e" "keyOK kc (el_pKey e) (el_nKey e)" "keyOf kc (contents hp) a = canon kc (el_pKey e) (el_nKey e)"
    using goodKey_elem [of kc hp a] Cons.prems(2) by auto
  moreover obtain d where "compareFunction kc (el_pKey e) (el_nKey e) z n = Inr d"
      "d = 0 \<longleftrightarrow> canon kc (el_pKey e) (el_nKey e) = canon kc z n"
    using compareFunction_ok [OF e(2) Cons.prems(3)] by blast
  moreover have "el_next e = firstOf (fs @ post) None" using Cons.prems(1) e(1) by auto
  ultimately show ?case using Cons by (simp add: getE_simps)
qed simp

lemma find_filter: "\<forall>a \<in> set as. Q a \<longrightarrow> P a \<Longrightarrow> find Q (filter P as) = find Q as"
  by (induction as) auto

lemma nexts_append: "nexts hp (as @ bs) \<Longrightarrow> nexts hp bs"
  by (induction as) auto

lemma find_core:
  assumes "core H hp as" "keyOK (h_keyClass H) z n" "h_htsize H \<noteq> 0"
  shows "findElementGivenHash H hp z n (unat (khash (h_keyClass H) (canon (h_keyClass H) z n)) mod h_htsize H) =
    Inr (find (\<lambda>a. keyOf (h_keyClass H) (contents hp) a = canon (h_keyClass H) z n) as)"
proof -
  let ?kc = "h_keyClass H"
  let ?bk = "bucketOf ?kc (h_htsize H) (contents hp)"
  let ?b = "unat (khash ?kc (canon ?kc z n)) mod h_htsize H"
  let ?fs = "filter (\<lambda>a. ?bk a = ?b) as"
  obtain ht where ht: "h_ht H = Some ht" "length ht = h_htsize H" "buckets ?bk as ht" "linked H hp as" "\<forall>a \<in> set as. goodKey ?kc (contents hp) a"
    using core_some [OF assms(1,3)] assms(1) by (auto simp: core_def)
  have b: "?b < length ht" using ht(2) assms(3) by simp
  with ht(3) have e: "contig (\<lambda>a. ?bk a = ?b) as" "ht_count (ht ! ?b) = int (length ?fs)" "ht_chain (ht ! ?b) = firstOf ?fs None"
    by (simp_all add: buckets_def bucket_def)
  obtain pre post where p: "as = pre @ ?fs @ post" using contig_split [OF e(1)] by blast
  have "nexts hp (pre @ ?fs @ post)" using seg_nexts ht(4) p by (metis linked_def)
  then have "nexts hp (?fs @ post)" by (rule nexts_append)
  then have "findLoop ?kc hp (length ?fs) (firstOf (?fs @ post) None) z n = Inr (find (\<lambda>a. keyOf ?kc (contents hp) a = canon ?kc z n) ?fs)"
    by (rule findLoop_spec) (use ht(5) assms(2) in simp_all)
  moreover have "findLoop ?kc hp (length ?fs) (firstOf ?fs None) z n = findLoop ?kc hp (length ?fs) (firstOf (?fs @ post) None) z n"
    by (cases ?fs) simp_all
  moreover have "find (\<lambda>a. keyOf ?kc (contents hp) a = canon ?kc z n) ?fs = find (\<lambda>a. keyOf ?kc (contents hp) a = canon ?kc z n) as"
    by (rule find_filter) (simp add: bucketOf_def)
  ultimately show ?thesis using b e ht(1) by (simp add: findElementGivenHash_def)
qed

lemma bucket_remove:
  assumes "bucket bk (pre @ a # post) (bk a) ent" "next = firstOf post None"
    "chain = (if ht_chain ent = Some a then next else ht_chain ent)" "count = ht_count ent - 1" "distinct (pre @ a # post)"
  shows "bucket bk (pre @ post) (bk a) \<lparr>ht_count = count, ht_chain = (if count \<le> 0 then None else chain)\<rparr>"
proof -
  let ?P = "\<lambda>c. bk c = bk a"
  have b: "contig ?P (pre @ a # post)" "ht_count ent = int (length (filter ?P (pre @ a # post)))"
    "ht_chain ent = firstOf (filter ?P (pre @ a # post)) None" using assms(1) by (simp_all add: bucket_def)
  have c: "count = int (length (filter ?P (pre @ post)))" using b(2) assms(4) by simp
  have ch: "chain = firstOf (filter ?P (pre @ post)) None" if ne: "filter ?P (pre @ post) \<noteq> []"
  proof (cases "filter ?P pre")
    case Nil
    have "contig ?P (pre @ a # post) \<Longrightarrow> none_of ?P pre \<Longrightarrow> none_of ?P (dropWhile ?P post)"
      by (induction pre) simp_all
    then have "filter ?P post = takeWhile ?P post" using b(1) Nil contig_filter by (simp add: none_of_filter)
    with ne Nil have "firstOf post None = firstOf (filter ?P post) None" by (cases post) (auto split: if_splits)
    with Nil b(3) assms(2,3) show ?thesis by simp
  next
    case (Cons x fs)
    then have "x \<in> set (filter ?P pre)" by simp
    then have "x \<noteq> a" using assms(5) by auto
    with Cons b(3) assms(3) show ?thesis by simp
  qed
  have "(if count \<le> 0 then None else chain) = firstOf (filter ?P (pre @ post)) None"
  proof (cases "filter ?P (pre @ post) = []")
    case True
    with c show ?thesis by (simp only: list.size firstOf_simps) simp
  next
    case False
    then have "0 < length (filter ?P (pre @ post))" by (simp only: length_greater_0_conv not_False_eq_True)
    then have "\<not> count \<le> 0" unfolding c by linarith
    with ch [OF False] show ?thesis by simp
  qed
  with contig_remove [OF b(1)] c show ?thesis by (simp add: bucket_def)
qed

lemma bucketOf_remove: "a \<notin> set as \<Longrightarrow> \<forall>x \<in> set as. bucketOf kc m (C(a := None)) x = bucketOf kc m C x"
  by (auto simp: bucketOf_def keyOf_def)

lemma remove_core:
  assumes "core H hp (pre @ a # post)" "h_count H = int (length (pre @ a # post))"
  shows "\<exists>H' hp'. removeElementGivenHash f H hp a (bucketOf (h_keyClass H) (h_htsize H) (contents hp) a) = Some (Inr (H', hp'))
    \<and> core H' hp' (pre @ post) \<and> contents hp' = (contents hp)(a := None) \<and> h_keyClass H' = h_keyClass H
    \<and> h_copyKey H' = h_copyKey H \<and> h_count H' = int (length (pre @ post))"
proof -
  let ?kc = "h_keyClass H" and ?bk = "bucketOf (h_keyClass H) (h_htsize H) (contents hp)"
  have l: "seg hp None (pre @ a # post) None" "distinct (pre @ a # post)" "h_first H = firstOf (pre @ a # post) None"
    using assms(1) by (simp_all add: core_def linked_def)
  obtain ht where ht: "h_ht H = Some ht" "length ht = h_htsize H" "\<exists>k. h_htsize H = 2 ^ k" "buckets ?bk (pre @ a # post) ht"
    using assms(1) by (auto simp: core_def split: option.splits)
  then have b: "?bk a < length ht" by (auto simp: bucketOf_def)
  from unlink [OF l(1,2)] obtain e hp1 hp2 where
    u: "hp a = Some e" "el_prev e = lastOf pre None" "el_next e = firstOf post None"
      "updOpt hp (el_prev e) (\<lambda>p. p\<lparr>el_next := el_next e\<rparr>) = Inr hp1"
      "updOpt hp1 (el_next e) (\<lambda>n. n\<lparr>el_prev := el_prev e\<rparr>) = Inr hp2"
      "seg (hp2(a := None)) None (pre @ post) None" "contents hp2 = contents hp" by blast
  let ?hp = "hp2(a := None)"
  define H1 where "H1 = (if el_prev e = None then H\<lparr>h_first := el_next e\<rparr> else H)"
  define count where "count = ht_count (ht ! ?bk a) - 1"
  define chain where "chain = (if ht_chain (ht ! ?bk a) = Some a then el_next e else ht_chain (ht ! ?bk a))"
  define ht' where "ht' = ht[?bk a := \<lparr>ht_count = count, ht_chain = (if count \<le> 0 then None else chain)\<rparr>]"
  let ?H = "H1\<lparr>h_ht := Some ht', h_count := h_count H - 1\<rparr>"
  have H1: "h_first H1 = firstOf (pre @ post) None" "h_ht H1 = Some ht" "h_keyClass H1 = ?kc" "h_copyKey H1 = h_copyKey H" "h_htsize H1 = h_htsize H" "h_count H1 = h_count H"
    using u(2,3) l(3) ht(1) by (cases pre; simp add: H1_def lastOf_def)+
  have bu: "buckets ?bk (pre @ post) ht'" unfolding ht'_def
  proof (rule buckets_update [OF b])
    show "bucket ?bk (pre @ post) (?bk a) \<lparr>ht_count = count, ht_chain = (if count \<le> 0 then None else chain)\<rparr>"
      by (rule bucket_remove [OF _ u(3) chain_def count_def l(2)]) (use ht(4) b in \<open>simp add: buckets_def\<close>)
  next
    fix b' assume "b' < length ht" "b' \<noteq> ?bk a"
    with ht(4) contig_remove [of "\<lambda>c. ?bk c = b'" pre a post] show "bucket ?bk (pre @ post) b' (ht ! b')"
      by (simp add: buckets_def bucket_def)
  qed
  have na: "a \<notin> set (pre @ post)" using l(2) by simp
  have "goodKey ?kc ((contents hp)(a := None)) x" if "x \<in> set (pre @ post)" for x
    using assms(1) that na by (auto simp: core_def goodKey_def)
  moreover have "linked ?H ?hp (pre @ post)" using H1(1) u(6) l(2) by (simp add: linked_def)
  moreover have "length ht' = h_htsize H" using ht(2) by (simp add: ht'_def)
  moreover have "buckets (bucketOf ?kc (h_htsize H) ((contents hp)(a := None))) (pre @ post) ht'"
    using bu buckets_cong [OF bucketOf_remove [OF na]] by blast
  ultimately have co: "core ?H ?hp (pre @ post)"
    unfolding core_def contents_remove u(7) using H1(3,5) ht(3) by simp
  have "(case bindR (getE hp a) (\<lambda>e.
        bindR (updOpt hp (el_prev e) (\<lambda>p. p\<lparr>el_next := el_next e\<rparr>)) (\<lambda>hp.
        let H = (if el_prev e = None then H\<lparr>h_first := el_next e\<rparr> else H) in
        bindR (updOpt hp (el_next e) (\<lambda>n. n\<lparr>el_prev := el_prev e\<rparr>)) (\<lambda>hp.
        bindR (getTable H) (\<lambda>ht. bindR (rd ht (?bk a)) (\<lambda>ent.
        let chain = (if ht_chain ent = Some a then el_next e else ht_chain ent);
            count = ht_count ent - 1;
            ent' = \<lparr>ht_count = count, ht_chain = (if count \<le> 0 then None else chain)\<rparr> in
        Inr (H\<lparr>h_ht := Some (ht[?bk a := ent']), h_count := h_count H - 1\<rparr>, hp(a := None))))))) of
      Inl e \<Rightarrow> x e | Inr (H, hp) \<Rightarrow> y H hp) = y ?H ?hp" for x :: "fault \<Rightarrow> 'z" and y
    using u(1,4,5) H1 b by (simp add: getE_simps H1_def [symmetric] getTable_def Let_def ht'_def count_def chain_def)
  then have r: "removeElementGivenHash f H hp a (?bk a) =
      (if h_count ?H \<le> 0 then if h_first ?H = None \<and> h_count ?H = 0 then sqlite3HashClear f (?H, ?hp) else Some (Inl AssertFail)
       else Some (Inr (?H, ?hp)))"
    unfolding removeElementGivenHash_def by blast
  show ?thesis
  proof (cases "pre @ post = []")
    case True
    then have "h_first ?H = None" "h_count ?H = 0" using H1(1) assms(2) by simp_all
    then have "removeElementGivenHash f H hp a (?bk a) =
        Some (Inr (?H\<lparr>h_first := None, h_ht := None, h_htsize := 0, h_count := 0\<rparr>, ?hp))"
      using r by (simp add: sqlite3HashClear_def)
    moreover have "core (?H\<lparr>h_first := None, h_ht := None, h_htsize := 0, h_count := 0\<rparr>) ?hp (pre @ post)"
      using True by (simp add: core_def linked_def)
    ultimately show ?thesis using True H1 u(7)
      by (intro exI [of _ "?H\<lparr>h_first := None, h_ht := None, h_htsize := 0, h_count := 0\<rparr>"] exI [of _ ?hp])
        (simp add: contents_remove)
  next
    case False
    then have "0 < int (length pre) + int (length post)" by (cases pre; cases post) simp_all
    then have "\<not> h_count ?H \<le> 0" using assms(2) by (simp del: length_0_conv length_greater_0_conv)
    with r co H1 u(7) assms(2) show ?thesis
      by (intro exI [of _ ?H] exI [of _ ?hp]) (simp add: contents_remove)
  qed
qed

subsection \<open>The table as a map\<close>

definition dataOf :: "(nat \<Rightarrow> ('d option \<times> byte list \<times> nat) option) \<Rightarrow> nat \<Rightarrow> 'd option" where
  "dataOf C a = (case C a of None \<Rightarrow> None | Some (d, z, n) \<Rightarrow> d)"

definition table :: "Hash \<Rightarrow> 'd elems \<Rightarrow> nat list \<Rightarrow> bool" where
  "table H hp as \<longleftrightarrow> core H hp as \<and> dom hp = set as \<and> h_count H = int (length as)
     \<and> (\<forall>a \<in> set as. dataOf (contents hp) a \<noteq> None) \<and> inj_on (keyOf (h_keyClass H) (contents hp)) (set as)"

definition holdsMap :: "keyClass \<Rightarrow> (nat \<Rightarrow> ('d option \<times> byte list \<times> nat) option) \<Rightarrow> nat set \<Rightarrow> (byte list \<Rightarrow> 'd option) \<Rightarrow> bool" where
  "holdsMap kc C S m \<longleftrightarrow> (\<forall>k d. m k = Some d \<longleftrightarrow> (\<exists>a \<in> S. keyOf kc C a = k \<and> dataOf C a = Some d))"

definition represents :: "Hash \<times> 'd elems \<Rightarrow> (byte list \<Rightarrow> 'd option) \<Rightarrow> bool" where
  "represents = (\<lambda>(H, hp) m. \<exists>as. table H hp as \<and> holdsMap (h_keyClass H) (contents hp) (set as) m)"

lemma holdsMap_absent:
  assumes "holdsMap kc C S m" "\<forall>a \<in> S. keyOf kc C a \<noteq> k"
  shows "m k = None"
proof (rule ccontr)
  assume "m k \<noteq> None"
  then obtain d where "m k = Some d" by blast
  with assms show False unfolding holdsMap_def by metis
qed

lemma holdsMap_present:
  assumes "holdsMap kc C S m" "a \<in> S" "keyOf kc C a = k" "dataOf C a \<noteq> None"
  shows "m k = dataOf C a"
proof -
  obtain d where "dataOf C a = Some d" using assms(4) by auto
  with assms(1-3) show ?thesis unfolding holdsMap_def by metis
qed

text \<open>Changing one element of the contents.\<close>

lemma keyOf_other: "x \<noteq> a \<Longrightarrow> keyOf kc (C(a := v)) x = keyOf kc C x" "x \<noteq> a \<Longrightarrow> dataOf (C(a := v)) x = dataOf C x"
  by (simp_all add: keyOf_def dataOf_def)

lemma holdsMap_set:
  assumes "holdsMap kc C S m" "a \<notin> S" "\<forall>x \<in> S. keyOf kc C x \<noteq> k" "C' = C(a \<mapsto> (Some d, z, n))" "canon kc z n = k"
  shows "holdsMap kc C' (insert a S) (m(k \<mapsto> d))"
proof -
  have a: "keyOf kc C' a = k" "dataOf C' a = Some d" using assms(4,5) by (simp_all add: keyOf_def dataOf_def)
  have o: "keyOf kc C' x = keyOf kc C x \<and> dataOf C' x = dataOf C x" if "x \<in> S" for x
    using that assms(2,4) by (metis keyOf_other)
  show ?thesis unfolding holdsMap_def
  proof (intro allI)
    fix j e
    have "(m(k \<mapsto> d)) j = Some e \<longleftrightarrow> (j = k \<and> e = d) \<or> (j \<noteq> k \<and> (\<exists>x \<in> S. keyOf kc C x = j \<and> dataOf C x = Some e))"
      using assms(1) by (auto simp: holdsMap_def)
    also have "\<dots> \<longleftrightarrow> (\<exists>x \<in> insert a S. keyOf kc C' x = j \<and> dataOf C' x = Some e)"
      using a o assms(3) by auto
    finally show "(m(k \<mapsto> d)) j = Some e \<longleftrightarrow> (\<exists>x \<in> insert a S. keyOf kc C' x = j \<and> dataOf C' x = Some e)" .
  qed
qed

lemma holdsMap_remove:
  assumes "holdsMap kc C S m" "a \<in> S" "inj_on (keyOf kc C) S"
  shows "holdsMap kc (C(a := None)) (S - {a}) (m(keyOf kc C a := None))"
proof -
  have o: "keyOf kc (C(a := None)) x = keyOf kc C x \<and> dataOf (C(a := None)) x = dataOf C x" if "x \<in> S - {a}" for x
    using that by (simp add: keyOf_other)
  have "keyOf kc C x \<noteq> keyOf kc C a" if "x \<in> S - {a}" for x using that assms(2,3) by (auto simp: inj_on_def)
  with o assms(1) show ?thesis unfolding holdsMap_def by (auto 4 3)
qed

lemma represents_find:
  assumes "represents (H, hp) m" "keyOK (h_keyClass H) z n"
  shows "sqlite3HashFind (H, hp) z n = Inr (m (canon (h_keyClass H) z n))"
proof -
  let ?kc = "h_keyClass H" and ?C = "contents hp"
  let ?Q = "\<lambda>a. keyOf ?kc ?C a = canon ?kc z n"
  obtain as where as: "table H hp as" "holdsMap ?kc ?C (set as) m" using assms(1) by (auto simp: represents_def)
  have co: "core H hp as" using as(1) by (simp add: table_def)
  show ?thesis
  proof (cases "h_htsize H = 0")
    case True
    with core_none [OF co] as(2) show ?thesis
      by (auto simp: sqlite3HashFind_def sqlite3HashFindElem_def dest: holdsMap_absent [where k = "canon ?kc z n"])
  next
    case False
    then obtain ht where "h_ht H = Some ht" using core_some [OF co] by blast
    then have f: "sqlite3HashFindElem (H, hp) z n = Inr (find ?Q as)"
      using find_core [OF co assms(2) False] hashFunction_ok [OF assms(2)] by (simp add: sqlite3HashFindElem_def)
    show ?thesis
    proof (cases "find ?Q as")
      case None
      with holdsMap_absent [OF as(2)] f show ?thesis by (auto simp: sqlite3HashFind_def find_None_iff)
    next
      case (Some a)
      then have a: "a \<in> set as" "?Q a" by (auto simp: find_Some_iff)
      then obtain e where e: "hp a = Some e" using as(1) by (auto simp: table_def)
      have "m (canon ?kc z n) = dataOf ?C a" by (rule holdsMap_present [OF as(2) a]) (use as(1) a(1) in \<open>simp add: table_def\<close>)
      with e f Some show ?thesis
        by (simp add: sqlite3HashFind_def getE_simps dataOf_def contents_def content_def)
    qed
  qed
qed

subsection \<open>Insertion\<close>

lemma core_distinct: "core H hp as \<Longrightarrow> distinct as"
  by (simp add: core_def linked_def)

lemma same_length: "distinct as \<Longrightarrow> distinct bs \<Longrightarrow> set as = set bs \<Longrightarrow> length as = length bs"
  by (metis distinct_card)

lemma core_count [simp]: "core (H\<lparr>h_count := c\<rparr>) hp as = core H hp as"
  by (cases "h_ht H") (simp_all add: core_def linked_def)

text \<open>The element that an insertion allocates.\<close>

lemma core_alloc:
  assumes "core H hp as" "a \<notin> set as"
  shows "core H (hp(a \<mapsto> e)) as"
proof (rule core_frame [OF assms(1)])
  have s: "seg hp None as None" "\<forall>x \<in> set as. goodKey (h_keyClass H) (contents hp) x" using assms(1) by (simp_all add: core_def linked_def)
  show "\<forall>x \<in> set as. \<exists>e1 e2. hp x = Some e1 \<and> (hp(a \<mapsto> e)) x = Some e2 \<and> el_next e2 = el_next e1 \<and> el_prev e2 = el_prev e1"
    using seg_dom [OF s(1)] assms(2) by fastforce
  show "\<forall>x \<in> set as. goodKey (h_keyClass H) (contents (hp(a \<mapsto> e))) x \<and>
      keyOf (h_keyClass H) (contents (hp(a \<mapsto> e))) x = keyOf (h_keyClass H) (contents hp) x"
    using s(2) assms(2) by (auto simp: goodKey_def keyOf_def contents_def)
qed

text \<open>The data pointer is stored last.\<close>

lemma core_store:
  assumes "core H hp as" "hp a = Some e" "a \<in> set as" "keyOK (h_keyClass H) z (el_nKey e)"
    "canon (h_keyClass H) z (el_nKey e) = canon (h_keyClass H) (el_pKey e) (el_nKey e)"
  shows "core H (hp(a \<mapsto> e\<lparr>el_data := d, el_pKey := z\<rparr>)) as"
proof (rule core_frame [OF assms(1)])
  have s: "seg hp None as None" "\<forall>x \<in> set as. goodKey (h_keyClass H) (contents hp) x" using assms(1) by (simp_all add: core_def linked_def)
  show "\<forall>x \<in> set as. \<exists>e1 e2. hp x = Some e1 \<and> (hp(a \<mapsto> e\<lparr>el_data := d, el_pKey := z\<rparr>)) x = Some e2
      \<and> el_next e2 = el_next e1 \<and> el_prev e2 = el_prev e1"
    using seg_dom [OF s(1)] assms(2) by fastforce
  show "\<forall>x \<in> set as. goodKey (h_keyClass H) (contents (hp(a \<mapsto> e\<lparr>el_data := d, el_pKey := z\<rparr>))) x \<and>
      keyOf (h_keyClass H) (contents (hp(a \<mapsto> e\<lparr>el_data := d, el_pKey := z\<rparr>))) x = keyOf (h_keyClass H) (contents hp) x"
    using s(2) assms(2,4,5) by (auto simp: goodKey_def keyOf_def contents_def content_def)
qed

text \<open>The two rehash steps of an insertion give a table with buckets.\<close>

lemma grow_core:
  assumes "core H hp as" "length as \<le> f" "h_htsize H = 0 \<longrightarrow> m_first mm"
  shows "\<exists>H2 hp2 H3 hp3 as3. (if h_htsize H = 0 then rehash (m_first mm) f (H, hp) 16 else Some (Inr (H, hp))) = Some (Inr (H2, hp2))
    \<and> h_htsize H2 \<noteq> 0
    \<and> (if h_count H2 > int (h_htsize H2) then rehash (m_grow mm) f (H2, hp2) (h_htsize H2 * 2) else Some (Inr (H2, hp2))) = Some (Inr (H3, hp3))
    \<and> core H3 hp3 as3 \<and> set as3 = set as \<and> contents hp3 = contents hp \<and> sameUse H H3 \<and> h_htsize H3 \<noteq> 0"
proof -
  obtain H2 hp2 as2 where 2: "(if h_htsize H = 0 then rehash (m_first mm) f (H, hp) 16 else Some (Inr (H, hp))) = Some (Inr (H2, hp2))"
    "core H2 hp2 as2" "set as2 = set as" "contents hp2 = contents hp" "sameUse H H2" "h_htsize H2 \<noteq> 0"
  proof (cases "h_htsize H = 0")
    case True
    have "\<exists>H' hp' as'. rehash (m_first mm) f (H, hp) (2 ^ 4) = Some (Inr (H', hp')) \<and> core H' hp' as' \<and> set as' = set as
      \<and> contents hp' = contents hp \<and> sameUse H H' \<and> h_htsize H' = (if m_first mm then 2 ^ 4 else h_htsize H) \<and> (\<not> m_first mm \<longrightarrow> H' = H \<and> hp' = hp)"
      by (rule rehash_core [OF assms(1,2)])
    with True assms(3) that show ?thesis by auto
  next
    case False
    with assms(1) that show ?thesis by (simp add: sameUse_def)
  qed
  have l2: "length as2 \<le> f" using same_length [OF core_distinct [OF 2(2)] core_distinct [OF assms(1)] 2(3)] assms(2) by simp
  obtain k where k: "h_htsize H2 = 2 ^ k" using core_some [OF 2(2,6)] 2(2) by (auto simp: core_def)
  obtain H3 hp3 as3 where 3: "(if h_count H2 > int (h_htsize H2) then rehash (m_grow mm) f (H2, hp2) (h_htsize H2 * 2) else Some (Inr (H2, hp2))) = Some (Inr (H3, hp3))"
    "core H3 hp3 as3" "set as3 = set as2" "contents hp3 = contents hp2" "sameUse H2 H3" "h_htsize H3 \<noteq> 0"
  proof (cases "h_count H2 > int (h_htsize H2)")
    case True
    have "h_htsize H2 * 2 = 2 ^ Suc k" using k by simp
    with rehash_core [OF 2(2) l2, of "m_grow mm" "Suc k"] True 2(6) that show ?thesis by (auto split: if_splits)
  next
    case False
    with 2(2,6) that show ?thesis by (simp add: sameUse_def)
  qed
  from 2(1,3,4,5,6) 3 show ?thesis
    by (intro exI [of _ H2] exI [of _ hp2] exI [of _ H3] exI [of _ hp3] exI [of _ as3]) (simp add: sameUse_def)
qed

text \<open>Assembling the table after an element a with a new key was added.\<close>

lemma table_add:
  assumes "table H hp as" "core H' hp' as'" "set as' = insert a (set as)" "a \<notin> set as"
    "contents hp' = (contents hp)(a \<mapsto> (Some d, z, n))" "h_keyClass H' = h_keyClass H" "h_count H' = h_count H + 1"
    "\<forall>x \<in> set as. keyOf (h_keyClass H) (contents hp) x \<noteq> canon (h_keyClass H) z n"
  shows "table H' hp' as'"
proof -
  let ?kc = "h_keyClass H"
  have o: "keyOf ?kc (contents hp') x = keyOf ?kc (contents hp) x" "dataOf (contents hp') x = dataOf (contents hp) x" if "x \<in> set as" for x
    using that assms(4,5) by (auto simp: keyOf_def dataOf_def)
  have a: "keyOf ?kc (contents hp') a = canon ?kc z n" "dataOf (contents hp') a = Some d"
    unfolding assms(5) by (simp_all add: keyOf_def dataOf_def)
  have "inj_on (keyOf ?kc (contents hp')) (set as) = inj_on (keyOf ?kc (contents hp)) (set as)"
    by (rule inj_on_cong) (rule o(1))
  then have "inj_on (keyOf ?kc (contents hp')) (insert a (set as))"
    using assms(1,8) a(1) o(1) by (auto simp: table_def)
  moreover have "dom hp' = insert a (dom hp)"
  proof -
    have "contents hp' x = None \<longleftrightarrow> hp' x = None" "contents hp x = None \<longleftrightarrow> hp x = None" for x by (simp_all add: contents_def)
    then have "hp' x = None \<longleftrightarrow> x \<noteq> a \<and> hp x = None" for x using assms(5) by (metis fun_upd_apply option.distinct(1))
    then show ?thesis by (auto simp: dom_def)
  qed
  moreover have "length as' = Suc (length as)"
    using core_distinct [OF assms(2)] assms(1,3,4) core_distinct [of H hp as] distinct_card [of as'] distinct_card [of as]
    by (auto simp: table_def)
  moreover have "\<forall>x \<in> insert a (set as). dataOf (contents hp') x \<noteq> None" using assms(1) a(2) o(2) by (auto simp: table_def)
  ultimately show ?thesis using assms(1-3,6,7) by (simp add: table_def)
qed

definition enough :: "memory \<Rightarrow> Hash \<Rightarrow> bool" where
  "enough mm H \<longleftrightarrow> m_elem mm \<noteq> None \<and> (h_copyKey H \<longrightarrow> m_key mm) \<and> (h_htsize H = 0 \<longrightarrow> m_first mm)"

lemma insertNew_refused:
  assumes "table H hp as" "keyOK (h_keyClass H) z n" "\<forall>a. m_elem mm = Some a \<longrightarrow> hp a = None" "\<not> enough mm H"
  shows "sqlite3HashInsertNew f mm (H, hp) hraw z n d = Some (Inr (Some d, H, hp))"
proof (cases "m_elem mm")
  case (Some a)
  have len: "\<not> length z < n" using assms(2) by (simp add: keyOK_def)
  show ?thesis
  proof (cases "h_copyKey H \<and> \<not> m_key mm")
    case False
    then have h: "h_htsize H = 0" "\<not> m_first mm" using assms(4) Some by (auto simp: enough_def)
    then have "h_count H = 0" using assms(1) core_none [of H hp as] by (auto simp: table_def)
    moreover have "hp(a := None) = hp" using assms(3) Some by auto
    ultimately show ?thesis using Some False h len
      by (simp add: sqlite3HashInsertNew_def rehash_def Let_def)
  qed (use Some in \<open>simp add: sqlite3HashInsertNew_def\<close>)
qed (simp add: sqlite3HashInsertNew_def)

lemma keyOK_copy: "keyOK kc z n \<Longrightarrow> keyOK kc (take n z) n \<and> canon kc (take n z) n = canon kc z n"
  by (cases kc) (auto simp: keyOK_def canon_def dest: in_set_takeD)

lemma insertNew_granted:
  assumes "table H hp as" "keyOK (h_keyClass H) z n" "m_elem mm = Some a" "hp a = None" "enough mm H" "length as \<le> f"
    "\<forall>x \<in> set as. keyOf (h_keyClass H) (contents hp) x \<noteq> canon (h_keyClass H) z n"
  shows "\<exists>H' hp' as' z'. sqlite3HashInsertNew f mm (H, hp) (khash (h_keyClass H) (canon (h_keyClass H) z n)) z n d = Some (Inr (None, H', hp'))
    \<and> table H' hp' as' \<and> set as' = insert a (set as) \<and> a \<notin> set as \<and> contents hp' = (contents hp)(a \<mapsto> (Some d, z', n))
    \<and> canon (h_keyClass H) z' n = canon (h_keyClass H) z n \<and> h_keyClass H' = h_keyClass H \<and> h_copyKey H' = h_copyKey H"
proof -
  let ?kc = "h_keyClass H" and ?H1 = "H\<lparr>h_count := h_count H + 1\<rparr>"
  define z' where "z' = (if h_copyKey H then take n z else z)"
  have z': "keyOK ?kc z' n" "canon ?kc z' n = canon ?kc z n" using keyOK_copy [OF assms(2)] assms(2) by (simp_all add: z'_def)
  define e0 :: "'a HashElem" where "e0 = \<lparr>el_next = None, el_prev = None, el_data = None, el_pKey = z', el_nKey = n\<rparr>"
  define hp1 where "hp1 = hp(a \<mapsto> e0)"
  have co: "core H hp as" "dom hp = set as" using assms(1) by (simp_all add: table_def)
  have a: "a \<notin> set as" using co(2) assms(4) by auto
  have c1: "core ?H1 hp1 as" unfolding hp1_def using core_alloc [OF co(1) a] by simp
  have C1: "contents hp1 = (contents hp)(a \<mapsto> (None, z', n))" by (auto simp: hp1_def e0_def contents_def content_def)
  have "h_htsize ?H1 = 0 \<longrightarrow> m_first mm" using assms(5) by (simp add: enough_def)
  from grow_core [OF c1 assms(6) this] obtain H2 hp2 H3 hp3 as3 where
    g: "(if h_htsize ?H1 = 0 then rehash (m_first mm) f (?H1, hp1) 16 else Some (Inr (?H1, hp1))) = Some (Inr (H2, hp2))"
      "h_htsize H2 \<noteq> 0"
      "(if h_count H2 > int (h_htsize H2) then rehash (m_grow mm) f (H2, hp2) (h_htsize H2 * 2) else Some (Inr (H2, hp2))) = Some (Inr (H3, hp3))"
      "core H3 hp3 as3" "set as3 = set as" "contents hp3 = contents hp1" "sameUse ?H1 H3" "h_htsize H3 \<noteq> 0" by blast
  have kc3: "h_keyClass H3 = ?kc" using g(7) by (simp add: sameUse_def)
  have key: "keyOf ?kc (contents hp3) a = canon ?kc z n" "goodKey ?kc (contents hp3) a"
    using z' C1 g(6) by (auto simp: keyOf_def goodKey_def)
  have b: "bucketOf (h_keyClass H3) (h_htsize H3) (contents hp3) a = unat (khash ?kc (canon ?kc z n)) mod h_htsize H3"
    by (simp add: bucketOf_def kc3 key(1))
  from insert_core [OF g(4,8), of a] key(2) a g(5) kc3 obtain H4 hp4 as4 where
    i: "insertElement H3 hp3 (unat (khash ?kc (canon ?kc z n)) mod h_htsize H3) a = Inr (H4, hp4)"
      "core H4 hp4 as4" "set as4 = insert a (set as)" "contents hp4 = contents hp3" "sameUse H3 H4"
    unfolding b by auto
  obtain e4 where e4: "hp4 a = Some e4" "content e4 = (None, z', n)"
    using i(4) g(6) C1 by (metis (no_types, lifting) contents_def fun_upd_same map_option_eq_Some)
  define hp5 where "hp5 = hp4(a \<mapsto> e4\<lparr>el_data := Some d\<rparr>)"
  have kc4: "h_keyClass H4 = ?kc" "h_copyKey H4 = h_copyKey H" "h_count H4 = h_count H + 1" using i(5) g(7) by (simp_all add: sameUse_def)
  have "core H4 (hp4(a \<mapsto> e4\<lparr>el_data := Some d, el_pKey := z'\<rparr>)) as4"
    by (rule core_store [OF i(2) e4(1)]) (use i(3) e4(2) z'(1) kc4(1) in \<open>simp_all add: content_def\<close>)
  moreover have "e4\<lparr>el_data := Some d, el_pKey := z'\<rparr> = e4\<lparr>el_data := Some d\<rparr>" using e4(2) by (simp add: content_def)
  ultimately have c5: "core H4 hp5 as4" by (simp add: hp5_def)
  have C5: "contents hp5 = (contents hp)(a \<mapsto> (Some d, z', n))"
    using i(4) g(6) C1 e4(2) by (auto simp: hp5_def contents_def content_def fun_eq_iff)
  have t: "table H4 hp5 as4"
    by (rule table_add [OF assms(1) c5 i(3) a C5 kc4(1,3)]) (use assms(7) z'(2) in simp)
  have "sqlite3HashInsertNew f mm (H, hp) (khash ?kc (canon ?kc z n)) z n d = Some (Inr (None, H4, hp5))"
  proof -
    have "\<not> length z < n" "\<not> (h_copyKey H \<and> \<not> m_key mm)" using assms(2,5) by (auto simp: keyOK_def enough_def)
    with g(1-3) i(1) e4(1) show ?thesis
      unfolding sqlite3HashInsertNew_def prod.case assms(3) option.case Let_def z'_def [symmetric] e0_def [symmetric] hp1_def [symmetric]
      by (simp only: if_False option.case sum.case prod.case bindR_simps getE_simps hp5_def simp_thms)
  qed
  with t i(3) a C5 z'(2) kc4(1,2) show ?thesis by blast
qed

lemma contents_None: "contents hp x = None \<longleftrightarrow> hp x = None"
  by (simp add: contents_def)

lemma table_remove:
  assumes "table H hp as" "holdsMap (h_keyClass H) (contents hp) (set as) m" "a \<in> set as"
  defines "k \<equiv> keyOf (h_keyClass H) (contents hp) a"
  shows "\<exists>H' hp'. removeElementGivenHash f H hp a (unat (khash (h_keyClass H) k) mod h_htsize H) = Some (Inr (H', hp'))
    \<and> represents (H', hp') (m(k := None)) \<and> h_keyClass H' = h_keyClass H \<and> h_copyKey H' = h_copyKey H"
proof -
  let ?kc = "h_keyClass H" and ?C = "contents hp"
  have co: "core H hp as" "h_count H = int (length as)" "inj_on (keyOf ?kc ?C) (set as)" using assms(1) by (simp_all add: table_def)
  obtain pre post where p: "as = pre @ a # post" using assms(3) by (meson split_list)
  have b: "bucketOf ?kc (h_htsize H) ?C a = unat (khash ?kc k) mod h_htsize H" by (simp add: bucketOf_def k_def)
  from remove_core [of H hp pre a post f] co(1,2) p b obtain H' hp' where
    r: "removeElementGivenHash f H hp a (unat (khash ?kc k) mod h_htsize H) = Some (Inr (H', hp'))"
      "core H' hp' (pre @ post)" "contents hp' = ?C(a := None)" "h_keyClass H' = ?kc" "h_copyKey H' = h_copyKey H"
      "h_count H' = int (length (pre @ post))" by auto
  have s: "set (pre @ post) = set as - {a}" using p core_distinct [OF co(1)] by auto
  have "hp' x = None \<longleftrightarrow> x = a \<or> hp x = None" for x using r(3) contents_None by (metis fun_upd_apply)
  then have "dom hp' = set (pre @ post)" using assms(1) unfolding s by (auto simp: table_def dom_def)
  moreover have "inj_on (keyOf ?kc (contents hp')) (set (pre @ post)) = inj_on (keyOf ?kc ?C) (set (pre @ post))"
    by (rule inj_on_cong) (unfold r(3), rule keyOf_other, use s in blast)
  then have "inj_on (keyOf ?kc (contents hp')) (set (pre @ post))" using co(3) s inj_on_subset [of _ "set as"] by auto
  moreover have "\<forall>x \<in> set (pre @ post). dataOf (contents hp') x \<noteq> None"
    unfolding s r(3) using assms(1) by (auto simp: table_def keyOf_other)
  ultimately have "table H' hp' (pre @ post)" using r(2,4,6) by (simp add: table_def)
  moreover have "holdsMap ?kc (contents hp') (set (pre @ post)) (m(k := None))"
    unfolding s r(3) k_def by (rule holdsMap_remove [OF assms(2,3) co(3)])
  ultimately have "represents (H', hp') (m(k := None))" using r(4) by (auto simp: represents_def)
  with r(1,4,5) show ?thesis by blast
qed

lemma table_replace:
  assumes "table H hp as" "holdsMap (h_keyClass H) (contents hp) (set as) m" "a \<in> set as" "hp a = Some e"
    "keyOK (h_keyClass H) z (el_nKey e)" "canon (h_keyClass H) z (el_nKey e) = canon (h_keyClass H) (el_pKey e) (el_nKey e)"
  defines "k \<equiv> keyOf (h_keyClass H) (contents hp) a"
  shows "represents (H, hp(a \<mapsto> e\<lparr>el_data := Some d, el_pKey := z\<rparr>)) (m(k \<mapsto> d))"
proof -
  let ?kc = "h_keyClass H" and ?C = "contents hp" and ?hp = "hp(a \<mapsto> e\<lparr>el_data := Some d, el_pKey := z\<rparr>)"
  have C: "contents ?hp = ?C(a \<mapsto> (Some d, z, el_nKey e))" by (auto simp: contents_def content_def)
  have k: "canon ?kc z (el_nKey e) = k" using assms(4,6) by (simp add: k_def keyOf_def contents_def content_def)
  have co: "core H hp as" "inj_on (keyOf ?kc ?C) (set as)" "dom hp = set as" using assms(1) by (simp_all add: table_def)
  have keys: "keyOf ?kc (contents ?hp) x = keyOf ?kc ?C x" for x using k unfolding C by (cases "x = a") (auto simp: keyOf_def k_def)
  have "inj_on (keyOf ?kc (contents ?hp)) (set as)" using co(2) by (simp only: keys inj_on_def)
  moreover have "\<forall>x \<in> set as. dataOf (contents ?hp) x \<noteq> None"
    unfolding C using assms(1) by (auto simp: table_def dataOf_def)
  moreover have "dom ?hp = set as" using co(3) assms(3) by auto
  ultimately have t: "table H ?hp as"
    using core_store [OF co(1) assms(4,3,5,6)] assms(1) by (simp add: table_def)
  have "holdsMap ?kc ((?C(a := None))(a \<mapsto> (Some d, z, el_nKey e))) (insert a (set as - {a})) ((m(k := None))(k \<mapsto> d))"
  proof (rule holdsMap_set [OF _ _ _ refl k])
    show "holdsMap ?kc (?C(a := None)) (set as - {a}) (m(k := None))"
      unfolding k_def by (rule holdsMap_remove [OF assms(2,3) co(2)])
    show "\<forall>x \<in> set as - {a}. keyOf ?kc (?C(a := None)) x \<noteq> k"
      using co(2) assms(3) by (auto simp: keyOf_other k_def inj_on_def)
  qed simp
  then have "holdsMap ?kc (contents ?hp) (set as) (m(k \<mapsto> d))" unfolding C using assms(3) by (simp add: insert_absorb)
  with t show ?thesis by (auto simp: represents_def)
qed

lemma insert_find:
  assumes "core H hp as" "keyOK (h_keyClass H) z n"
  defines "k \<equiv> canon (h_keyClass H) z n"
  shows "bindR (hashFunction (h_keyClass H) z n) (\<lambda>hraw.
      bindR (if h_htsize H \<noteq> 0 then findElementGivenHash H hp z n (unat hraw mod h_htsize H) else Inr None)
        (\<lambda>elem. Inr (hraw, elem))) = Inr (khash (h_keyClass H) k, find (\<lambda>a. keyOf (h_keyClass H) (contents hp) a = k) as)"
  using hashFunction_ok [OF assms(2)] find_core [OF assms(1,2)] core_none [OF assms(1)]
  by (cases "h_htsize H = 0") (simp_all add: k_def)

text \<open>A call for a key that is not in the table.\<close>

lemma represents_insert_new:
  assumes "table H hp as" "holdsMap (h_keyClass H) (contents hp) (set as) m" "keyOK (h_keyClass H) z n"
    "\<forall>a. m_elem mm = Some a \<longrightarrow> hp a = None" "nat (h_count H) \<le> f" "k = canon (h_keyClass H) z n"
    "find (\<lambda>a. keyOf (h_keyClass H) (contents hp) a = k) as = None"
  shows "m k = None \<and> (\<exists>H' hp'. h_keyClass H' = h_keyClass H \<and> h_copyKey H' = h_copyKey H
    \<and> (if data \<noteq> None \<and> \<not> enough mm H
       then sqlite3HashInsert f mm (H, hp) z n data = Some (Inr (data, H', hp')) \<and> represents (H', hp') m
       else sqlite3HashInsert f mm (H, hp) z n data = Some (Inr (None, H', hp')) \<and> represents (H', hp') (m(k := data))))"
proof -
  let ?kc = "h_keyClass H" and ?C = "contents hp"
  have co: "core H hp as" "h_count H = int (length as)" using assms(1) by (simp_all add: table_def)
  have rep: "represents (H, hp) m" using assms(1,2) by (auto simp: represents_def)
  have no: "\<forall>x \<in> set as. keyOf ?kc ?C x \<noteq> canon ?kc z n" using assms(6,7) by (auto simp: find_None_iff)
  then have mk: "m k = None" unfolding assms(6) by (rule holdsMap_absent [OF assms(2)])
  have ins: "sqlite3HashInsert f mm (H, hp) z n data =
      (case data of None \<Rightarrow> Some (Inr (None, H, hp)) | Some d \<Rightarrow> sqlite3HashInsertNew f mm (H, hp) (khash ?kc k) z n d)"
    unfolding sqlite3HashInsert_def prod.case insert_find [OF co(1) assms(3)] assms(6) assms(7) [unfolded assms(6)] by simp
  consider (no_data) "data = None" | (refused) d where "data = Some d" "\<not> enough mm H" | (granted) d where "data = Some d" "enough mm H"
    by blast
  then have "\<exists>H' hp'. h_keyClass H' = ?kc \<and> h_copyKey H' = h_copyKey H
    \<and> (if data \<noteq> None \<and> \<not> enough mm H
       then sqlite3HashInsert f mm (H, hp) z n data = Some (Inr (data, H', hp')) \<and> represents (H', hp') m
       else sqlite3HashInsert f mm (H, hp) z n data = Some (Inr (None, H', hp')) \<and> represents (H', hp') (m(k := data)))"
  proof cases
    case no_data
    have m: "m(k := data) = m" unfolding no_data using mk by (simp add: fun_upd_idem)
    have "sqlite3HashInsert f mm (H, hp) z n data = Some (Inr (None, H, hp))" using ins no_data by simp
    with rep m no_data show ?thesis by (intro exI [of _ H] exI [of _ hp]) simp
  next
    case refused
    with insertNew_refused [OF assms(1,3,4)] ins rep show ?thesis by (intro exI [of _ H] exI [of _ hp]) simp
  next
    case granted
    then obtain a where a: "m_elem mm = Some a" "hp a = None" using assms(4) by (auto simp: enough_def)
    have l: "length as \<le> f" using assms(5) co(2) by simp
    from insertNew_granted [OF assms(1,3) a granted(2) l no, of d] obtain H' hp' as' z' where
      n: "sqlite3HashInsertNew f mm (H, hp) (khash ?kc k) z n d = Some (Inr (None, H', hp'))"
        "table H' hp' as'" "set as' = insert a (set as)" "a \<notin> set as" "contents hp' = ?C(a \<mapsto> (Some d, z', n))"
        "canon ?kc z' n = canon ?kc z n" "h_keyClass H' = ?kc" "h_copyKey H' = h_copyKey H"
      unfolding assms(6) by blast
    have "holdsMap ?kc (contents hp') (set as') (m(canon ?kc z n \<mapsto> d))"
      unfolding n(3) by (rule holdsMap_set [OF assms(2) n(4) no n(5,6)])
    with n(2,7) have "represents (H', hp') (m(k \<mapsto> d))" unfolding assms(6) by (auto simp: represents_def)
    with n(1,7,8) ins granted show ?thesis by (intro exI [of _ H'] exI [of _ hp']) simp
  qed
  with mk show ?thesis by blast
qed

text \<open>A call for a key that is in the table.\<close>

lemma represents_insert_old:
  assumes "table H hp as" "holdsMap (h_keyClass H) (contents hp) (set as) m" "keyOK (h_keyClass H) z n" "k = canon (h_keyClass H) z n"
    "find (\<lambda>a. keyOf (h_keyClass H) (contents hp) a = k) as = Some a"
  shows "m k \<noteq> None \<and> (\<exists>H' hp'. h_keyClass H' = h_keyClass H \<and> h_copyKey H' = h_copyKey H
    \<and> sqlite3HashInsert f mm (H, hp) z n data = Some (Inr (m k, H', hp')) \<and> represents (H', hp') (m(k := data)))"
proof -
  let ?kc = "h_keyClass H" and ?C = "contents hp"
  have co: "core H hp as" using assms(1) by (simp add: table_def)
  have a: "a \<in> set as" "keyOf ?kc ?C a = k" using assms(5) by (auto simp: find_Some_iff)
  obtain e where e: "hp a = Some e" "keyOK ?kc (el_pKey e) (el_nKey e)" "k = canon ?kc (el_pKey e) (el_nKey e)"
    using goodKey_elem [of ?kc hp a] co a by (auto simp: core_def)
  have d: "dataOf ?C a = el_data e" using e(1) by (simp add: dataOf_def contents_def content_def)
  have nn: "dataOf ?C a \<noteq> None" using assms(1) a(1) by (simp add: table_def)
  then have mk: "m k = el_data e" "el_data e \<noteq> None" using holdsMap_present [OF assms(2) a] d by simp_all
  have len: "length (canon ?kc y j) = j" if "keyOK ?kc y j" for y j
    using that by (cases ?kc) (auto simp: canon_def keyOK_def lower_def)
  have n: "el_nKey e = n" using len [OF e(2)] len [OF assms(3)] e(3) assms(4) by simp
  have ins: "sqlite3HashInsert f mm (H, hp) z n data =
      (if data = None then map_option (map_sum id (\<lambda>T. (el_data e, T))) (removeElementGivenHash f H hp a (unat (khash ?kc k) mod h_htsize H))
       else Some (Inr (el_data e, H, hp(a \<mapsto> e\<lparr>el_data := data, el_pKey := (if h_copyKey H then el_pKey e else z)\<rparr>))))"
    unfolding sqlite3HashInsert_def prod.case insert_find [OF co assms(3)] assms(4) assms(5) [unfolded assms(4)]
    using e(1) n by (simp add: getE_simps)
  have "\<exists>H' hp'. h_keyClass H' = ?kc \<and> h_copyKey H' = h_copyKey H
    \<and> sqlite3HashInsert f mm (H, hp) z n data = Some (Inr (m k, H', hp')) \<and> represents (H', hp') (m(k := data))"
  proof (cases data)
    case None
    from table_remove [OF assms(1,2) a(1), of f] obtain H' hp' where
      "removeElementGivenHash f H hp a (unat (khash ?kc k) mod h_htsize H) = Some (Inr (H', hp'))"
      "represents (H', hp') (m(k := None))" "h_keyClass H' = ?kc" "h_copyKey H' = h_copyKey H" unfolding a(2) by blast
    with None ins mk(1) show ?thesis by (intro exI [of _ H'] exI [of _ hp']) simp
  next
    case (Some d)
    let ?z = "if h_copyKey H then el_pKey e else z"
    have "represents (H, hp(a \<mapsto> e\<lparr>el_data := Some d, el_pKey := ?z\<rparr>)) (m(k \<mapsto> d))"
      unfolding a(2) [symmetric]
      by (rule table_replace [OF assms(1,2) a(1) e(1)]) (use e(2,3) assms(3,4) n in simp_all)
    with Some ins mk(1) show ?thesis
      by (intro exI [of _ H] exI [of _ "hp(a \<mapsto> e\<lparr>el_data := Some d, el_pKey := ?z\<rparr>)"]) simp
  qed
  with mk show ?thesis by simp
qed

subsection \<open>Clients\<close>

text \<open>
  A call of a client: the arguments of sqlite3HashInsert and which memory requests are
  granted. The address of a new element comes from an allocator, which returns an address
  that is not in use.
\<close>

record 'd hash_call =
  c_pKey :: "byte list"
  c_nKey :: nat
  c_data :: "'d option"
  c_elem :: bool
  c_key :: bool
  c_first :: bool
  c_grow :: bool

definition allocator :: "('d elems \<Rightarrow> nat) \<Rightarrow> bool" where
  "allocator alloc \<longleftrightarrow> (\<forall>hp. finite (dom hp) \<longrightarrow> hp (alloc hp) = None)"

definition callMemory :: "('d elems \<Rightarrow> nat) \<Rightarrow> 'd elems \<Rightarrow> 'd hash_call \<Rightarrow> memory" where
  "callMemory alloc hp c = \<lparr>m_elem = (if c_elem c then Some (alloc hp) else None), m_key = c_key c, m_first = c_first c, m_grow = c_grow c\<rparr>"

definition hashCall :: "('d elems \<Rightarrow> nat) \<Rightarrow> Hash \<times> 'd elems \<Rightarrow> 'd hash_call \<Rightarrow> ('d option \<times> Hash \<times> 'd elems) option" where
  "hashCall alloc = (\<lambda>(H, hp) c.
     (case sqlite3HashInsert (nat (h_count H)) (callMemory alloc hp c) (H, hp) (c_pKey c) (c_nKey c) (c_data c) of
        Some (Inr r) \<Rightarrow> Some r | _ \<Rightarrow> None))"

definition callKey :: "keyClass \<Rightarrow> 'd hash_call \<Rightarrow> byte list" where
  "callKey kc c = canon kc (c_pKey c) (c_nKey c)"

definition callOK :: "keyClass \<Rightarrow> 'd hash_call \<Rightarrow> bool" where
  "callOK kc c \<longleftrightarrow> keyOK kc (c_pKey c) (c_nKey c)"

definition callGranted :: "'d hash_call \<Rightarrow> bool" where
  "callGranted c \<longleftrightarrow> c_elem c \<and> c_key c \<and> c_first c"

definition tableOf :: "('d elems \<Rightarrow> nat) \<Rightarrow> keyClass \<Rightarrow> Hash \<times> 'd elems \<Rightarrow> (byte list \<Rightarrow> 'd option) \<Rightarrow> bool" where
  "tableOf alloc kc = (\<lambda>(H, hp) m. allocator alloc \<and> h_keyClass H = kc \<and> represents (H, hp) m)"

lemma represents_finite: "represents (H, hp) m \<Longrightarrow> finite (dom hp)"
  by (auto simp: represents_def table_def)

lemma represents_insert:
  assumes "represents (H, hp) m" "keyOK (h_keyClass H) z n" "\<forall>a. m_elem mm = Some a \<longrightarrow> hp a = None" "nat (h_count H) \<le> f"
    "k = canon (h_keyClass H) z n"
  shows "\<exists>H' hp'. h_keyClass H' = h_keyClass H \<and> h_copyKey H' = h_copyKey H
    \<and> (if m k = None \<and> data \<noteq> None \<and> \<not> enough mm H
       then sqlite3HashInsert f mm (H, hp) z n data = Some (Inr (data, H', hp')) \<and> represents (H', hp') m
       else sqlite3HashInsert f mm (H, hp) z n data = Some (Inr (m k, H', hp')) \<and> represents (H', hp') (m(k := data)))"
proof -
  obtain as where as: "table H hp as" "holdsMap (h_keyClass H) (contents hp) (set as) m"
    using assms(1) by (auto simp: represents_def)
  show ?thesis
  proof (cases "find (\<lambda>a. keyOf (h_keyClass H) (contents hp) a = k) as")
    case None
    from represents_insert_new [OF as assms(2-5) None, of data] show ?thesis by (elim conjE) (simp only: simp_thms)
  next
    case (Some a)
    from represents_insert_old [OF as assms(2,5) Some, of f mm data] show ?thesis by auto
  qed
qed

lemma hashCall_cases:
  assumes "tableOf alloc kc s m" "callOK kc c"
  shows "(\<exists>t. hashCall alloc s c = Some (m (callKey kc c), t) \<and> tableOf alloc kc t (m(callKey kc c := c_data c)))
    \<or> (\<not> callGranted c \<and> m (callKey kc c) = None \<and> c_data c \<noteq> None
       \<and> (\<exists>t. hashCall alloc s c = Some (c_data c, t) \<and> tableOf alloc kc t m))"
proof -
  obtain H hp where s: "s = (H, hp)" by (cases s)
  with assms(1) have r: "allocator alloc" "h_keyClass H = kc" "represents (H, hp) m" by (simp_all add: tableOf_def)
  let ?mm = "callMemory alloc hp c"
  have fresh: "\<forall>a. m_elem ?mm = Some a \<longrightarrow> hp a = None"
    using r(1) represents_finite [OF r(3)] by (auto simp: allocator_def callMemory_def split: if_splits)
  have k: "keyOK (h_keyClass H) (c_pKey c) (c_nKey c)" "callKey kc c = canon (h_keyClass H) (c_pKey c) (c_nKey c)"
    using assms(2) r(2) by (simp_all add: callOK_def callKey_def)
  have "\<not> enough ?mm H \<Longrightarrow> \<not> callGranted c" by (auto simp: enough_def callGranted_def callMemory_def)
  with represents_insert [OF r(3) k(1) fresh order.refl k(2), of "c_data c"] r(1,2) show ?thesis
    by (auto simp: s hashCall_def tableOf_def split: if_splits)
qed

interpretation ht: map_store "tableOf alloc kc" "callKey kc" c_data callGranted "callOK kc" "hashCall alloc"
    "\<lambda>T c. ok (sqlite3HashFind T (c_pKey c) (c_nKey c))" for alloc kc
proof
  fix s :: "Hash \<times> 'a elems" and m c assume "tableOf alloc kc s m" "callOK kc c"
  then show "ok (sqlite3HashFind s (c_pKey c) (c_nKey c)) = Some (m (callKey kc c))"
    using represents_find [of "fst s" "snd s" m "c_pKey c" "c_nKey c"]
    by (cases s) (simp add: tableOf_def callOK_def callKey_def)
qed (rule hashCall_cases)

lemma init_represents: "represents (sqlite3HashInit kc copyKey, Map.empty) Map.empty"
proof -
  have "table (sqlite3HashInit kc copyKey) Map.empty []"
    by (simp add: table_def core_def linked_def sqlite3HashInit_def)
  then show ?thesis by (auto simp: represents_def holdsMap_def intro!: exI [of _ "[]"])
qed

text \<open>Clearing a table frees every element and gives back an empty table.\<close>

lemma clearLoop_spec:
  "nexts hp as \<Longrightarrow> distinct as \<Longrightarrow> length as \<le> f \<Longrightarrow> clearLoop f hp (firstOf as None) = Some (Inr (hp |` (- set as)))"
proof (induction as arbitrary: hp f)
  case Nil
  then show ?case by (cases f) simp_all
next
  case (Cons a as)
  obtain g where f: "f = Suc g" using Cons.prems(3) by (cases f) simp_all
  obtain e where e: "hp a = Some e" "el_next e = firstOf as None" using Cons.prems(1) by auto
  have "clearLoop g (hp(a := None)) (firstOf as None) = Some (Inr ((hp(a := None)) |` (- set as)))"
  proof (rule Cons.IH)
    show "nexts (hp(a := None)) as" by (rule nexts_frame [of _ _ hp]) (use Cons.prems(1,2) in auto)
  qed (use Cons.prems(2,3) f in simp_all)
  moreover have "(hp(a := None)) |` (- set as) = hp |` (- set (a # as))" by (auto simp: restrict_map_def)
  ultimately show ?case using e f by (simp add: getE_simps)
qed

lemma represents_clear:
  assumes "represents (H, hp) m" "nat (h_count H) \<le> f"
  shows "sqlite3HashClear f (H, hp) = Some (Inr (sqlite3HashInit (h_keyClass H) (h_copyKey H), Map.empty))"
proof -
  obtain as where as: "table H hp as" using assms(1) by (auto simp: represents_def)
  then have l: "seg hp None as None" "distinct as" "h_first H = firstOf as None" "dom hp = set as" "length as \<le> f"
    using assms(2) by (auto simp: table_def core_def linked_def)
  have "hp |` (- set as) = Map.empty" using l(4) by (auto simp: restrict_map_def fun_eq_iff)
  with clearLoop_spec [OF seg_nexts [OF l(1)] l(2,5)] l(3) show ?thesis
    by (simp add: sqlite3HashClear_def sqlite3HashInit_def)
qed

lemma hash_runs:
  assumes "allocator alloc" "\<forall>c \<in> set cs. callOK kc c"
  shows "\<exists>rs H hp m. run_calls (hashCall alloc) (sqlite3HashInit kc copyKey, Map.empty) cs = Some (rs, (H, hp))
    \<and> map_runs (callKey kc) c_data callGranted Map.empty cs rs m \<and> tableOf alloc kc (H, hp) m"
proof -
  have "tableOf alloc kc (sqlite3HashInit kc copyKey, Map.empty) Map.empty"
    using assms(1) init_represents [of kc copyKey] by (simp add: tableOf_def sqlite3HashInit_def)
  from ht.run_spec [OF this assms(2)] show ?thesis by (metis surj_pair)
qed

lemma table_find: "tableOf alloc kc (H, hp) m \<Longrightarrow> keyOK kc z n \<Longrightarrow> sqlite3HashFind (H, hp) z n = Inr (m (canon kc z n))"
  using represents_find [of H hp m] by (auto simp: tableOf_def)

text \<open>
  C6: a hash table is a finite map. Starting from an initialised table, any sequence of
  insertions, replacements and removals runs without fault, whatever memory requests fail;
  its answers and the final content are those of a map in which a call for a new key may be
  refused only for lack of memory; and a search for any key then finds the data of the map,
  string keys being compared without regard to case.
\<close>

theorem hash_map_semantics:
  assumes "allocator alloc" "\<forall>c \<in> set cs. callOK kc c"
  shows "\<exists>rs T m. run_calls (hashCall alloc) (sqlite3HashInit kc copyKey, Map.empty) cs = Some (rs, T)
    \<and> map_runs (callKey kc) c_data callGranted Map.empty cs rs m
    \<and> (\<forall>z n. keyOK kc z n \<longrightarrow> sqlite3HashFind T z n = Inr (m (canon kc z n)))"
proof -
  from hash_runs [OF assms] obtain rs H hp m where
    "run_calls (hashCall alloc) (sqlite3HashInit kc copyKey, Map.empty) cs = Some (rs, (H, hp))"
      "map_runs (callKey kc) c_data callGranted Map.empty cs rs m" "tableOf alloc kc (H, hp) m" by metis
  then show ?thesis using table_find by blast
qed

text \<open>An allocator exists: the address after the largest one in use.\<close>

lemma allocator_exists: "allocator (\<lambda>hp. Suc (Max (insert 0 (dom hp))))"
proof -
  have "hp (Suc (Max (insert 0 (dom hp)))) = None" if "finite (dom hp)" for hp :: "'d elems"
  proof (rule ccontr)
    assume "hp (Suc (Max (insert 0 (dom hp)))) \<noteq> None"
    then have "Suc (Max (insert 0 (dom hp))) \<in> insert 0 (dom hp)" by auto
    with that have "Suc (Max (insert 0 (dom hp))) \<le> Max (insert 0 (dom hp))" by (intro Max_ge) auto
    then show False by simp
  qed
  then show ?thesis unfolding allocator_def by blast
qed

theorem hash_map_semantics_witness:
  "\<exists>rs T m. run_calls (hashCall (\<lambda>hp. Suc (Max (insert 0 (dom hp))))) (sqlite3HashInit HASH_STRING True, Map.empty)
      [\<lparr>c_pKey = [0x54, 0x31, 0], c_nKey = 3, c_data = Some (7 :: int), c_elem = True, c_key = True, c_first = True, c_grow = True\<rparr>] = Some (rs, T)
    \<and> map_runs (callKey HASH_STRING) c_data callGranted Map.empty
      [\<lparr>c_pKey = [0x54, 0x31, 0], c_nKey = 3, c_data = Some 7, c_elem = True, c_key = True, c_first = True, c_grow = True\<rparr>] rs m
    \<and> sqlite3HashFind T [0x74, 0x31, 0] 3 = Inr (m [0x74, 0x31, 0])"
proof -
  have "keyOK HASH_STRING [0x74, 0x31, 0] 3" "canon HASH_STRING [0x74, 0x31, 0] 3 = [0x74, 0x31, 0]" by code_simp+
  moreover have "keyOK HASH_STRING [0x54, 0x31, 0] 3" by code_simp
  ultimately show ?thesis
    using hash_map_semantics [OF allocator_exists, where kc = HASH_STRING and copyKey = True and cs = "[\<lparr>c_pKey = [0x54, 0x31, 0], c_nKey = 3, c_data = Some (7 :: int), c_elem = True, c_key = True, c_first = True, c_grow = True\<rparr>]"]
    by (auto simp: callOK_def)
qed

text \<open>
  Clearing a table after any use frees every element and leaves an initialised table.
\<close>

theorem hash_clear_frees:
  assumes "allocator alloc" "\<forall>c \<in> set cs. callOK kc c"
  shows "\<exists>rs H hp. run_calls (hashCall alloc) (sqlite3HashInit kc copyKey, Map.empty) cs = Some (rs, H, hp)
    \<and> sqlite3HashClear (nat (h_count H)) (H, hp) = Some (Inr (sqlite3HashInit kc (h_copyKey H), Map.empty))"
proof -
  from hash_runs [OF assms] obtain rs H hp m where
    r: "run_calls (hashCall alloc) (sqlite3HashInit kc copyKey, Map.empty) cs = Some (rs, (H, hp))" "tableOf alloc kc (H, hp) m" by metis
  with represents_clear [of H hp m "nat (h_count H)"] show ?thesis by (auto simp: tableOf_def)
qed

theorem hash_clear_frees_witness:
  "\<exists>rs H hp. run_calls (hashCall (\<lambda>hp. Suc (Max (insert 0 (dom hp))))) (sqlite3HashInit HASH_BINARY False, Map.empty)
      [\<lparr>c_pKey = [1, 0, 2], c_nKey = 3, c_data = Some (7 :: int), c_elem = True, c_key = True, c_first = True, c_grow = True\<rparr>] = Some (rs, H, hp)
    \<and> sqlite3HashClear (nat (h_count H)) (H, hp) = Some (Inr (sqlite3HashInit HASH_BINARY (h_copyKey H), Map.empty))"
  by (rule hash_clear_frees [OF allocator_exists]) (simp add: callOK_def keyOK_def)

end
