(* ===== verification/Keyword.thy ===== *)
theory Keyword
  imports StrUtil
begin

text \<open>
  Recognition of the SQL keywords: the function keywordCode of keywordhash.h of the database
  library (misc/sqlite), with its tables, and the token codes of parse.h as abbreviations.
  The loop follows the chain of a bucket; a link is one more than the index it points to and
  zero ends the chain, and the argument of kwLoop is such a link.

  Shown: every one of the 116 keywords is recognised in any mixture of cases with its code,
  and everything else is an identifier, although the text of the keywords overlaps in the
  table and the buckets are chained.
\<close>

subsection \<open>Token codes\<close>

abbreviation (input) TK_SEMI :: nat where "TK_SEMI \<equiv> 1"
abbreviation (input) TK_EXPLAIN :: nat where "TK_EXPLAIN \<equiv> 2"
abbreviation (input) TK_QUERY :: nat where "TK_QUERY \<equiv> 3"
abbreviation (input) TK_PLAN :: nat where "TK_PLAN \<equiv> 4"
abbreviation (input) TK_BEGIN :: nat where "TK_BEGIN \<equiv> 5"
abbreviation (input) TK_TRANSACTION :: nat where "TK_TRANSACTION \<equiv> 6"
abbreviation (input) TK_DEFERRED :: nat where "TK_DEFERRED \<equiv> 7"
abbreviation (input) TK_IMMEDIATE :: nat where "TK_IMMEDIATE \<equiv> 8"
abbreviation (input) TK_EXCLUSIVE :: nat where "TK_EXCLUSIVE \<equiv> 9"
abbreviation (input) TK_COMMIT :: nat where "TK_COMMIT \<equiv> 10"
abbreviation (input) TK_END :: nat where "TK_END \<equiv> 11"
abbreviation (input) TK_ROLLBACK :: nat where "TK_ROLLBACK \<equiv> 12"
abbreviation (input) TK_CREATE :: nat where "TK_CREATE \<equiv> 13"
abbreviation (input) TK_TABLE :: nat where "TK_TABLE \<equiv> 14"
abbreviation (input) TK_IF :: nat where "TK_IF \<equiv> 15"
abbreviation (input) TK_NOT :: nat where "TK_NOT \<equiv> 16"
abbreviation (input) TK_EXISTS :: nat where "TK_EXISTS \<equiv> 17"
abbreviation (input) TK_TEMP :: nat where "TK_TEMP \<equiv> 18"
abbreviation (input) TK_LP :: nat where "TK_LP \<equiv> 19"
abbreviation (input) TK_RP :: nat where "TK_RP \<equiv> 20"
abbreviation (input) TK_AS :: nat where "TK_AS \<equiv> 21"
abbreviation (input) TK_COMMA :: nat where "TK_COMMA \<equiv> 22"
abbreviation (input) TK_ID :: nat where "TK_ID \<equiv> 23"
abbreviation (input) TK_ABORT :: nat where "TK_ABORT \<equiv> 24"
abbreviation (input) TK_AFTER :: nat where "TK_AFTER \<equiv> 25"
abbreviation (input) TK_ANALYZE :: nat where "TK_ANALYZE \<equiv> 26"
abbreviation (input) TK_ASC :: nat where "TK_ASC \<equiv> 27"
abbreviation (input) TK_ATTACH :: nat where "TK_ATTACH \<equiv> 28"
abbreviation (input) TK_BEFORE :: nat where "TK_BEFORE \<equiv> 29"
abbreviation (input) TK_CASCADE :: nat where "TK_CASCADE \<equiv> 30"
abbreviation (input) TK_CAST :: nat where "TK_CAST \<equiv> 31"
abbreviation (input) TK_CONFLICT :: nat where "TK_CONFLICT \<equiv> 32"
abbreviation (input) TK_DATABASE :: nat where "TK_DATABASE \<equiv> 33"
abbreviation (input) TK_DESC :: nat where "TK_DESC \<equiv> 34"
abbreviation (input) TK_DETACH :: nat where "TK_DETACH \<equiv> 35"
abbreviation (input) TK_EACH :: nat where "TK_EACH \<equiv> 36"
abbreviation (input) TK_FAIL :: nat where "TK_FAIL \<equiv> 37"
abbreviation (input) TK_FOR :: nat where "TK_FOR \<equiv> 38"
abbreviation (input) TK_IGNORE :: nat where "TK_IGNORE \<equiv> 39"
abbreviation (input) TK_INITIALLY :: nat where "TK_INITIALLY \<equiv> 40"
abbreviation (input) TK_INSTEAD :: nat where "TK_INSTEAD \<equiv> 41"
abbreviation (input) TK_LIKE_KW :: nat where "TK_LIKE_KW \<equiv> 42"
abbreviation (input) TK_MATCH :: nat where "TK_MATCH \<equiv> 43"
abbreviation (input) TK_KEY :: nat where "TK_KEY \<equiv> 44"
abbreviation (input) TK_OF :: nat where "TK_OF \<equiv> 45"
abbreviation (input) TK_OFFSET :: nat where "TK_OFFSET \<equiv> 46"
abbreviation (input) TK_PRAGMA :: nat where "TK_PRAGMA \<equiv> 47"
abbreviation (input) TK_RAISE :: nat where "TK_RAISE \<equiv> 48"
abbreviation (input) TK_REPLACE :: nat where "TK_REPLACE \<equiv> 49"
abbreviation (input) TK_RESTRICT :: nat where "TK_RESTRICT \<equiv> 50"
abbreviation (input) TK_ROW :: nat where "TK_ROW \<equiv> 51"
abbreviation (input) TK_TRIGGER :: nat where "TK_TRIGGER \<equiv> 52"
abbreviation (input) TK_VACUUM :: nat where "TK_VACUUM \<equiv> 53"
abbreviation (input) TK_VIEW :: nat where "TK_VIEW \<equiv> 54"
abbreviation (input) TK_VIRTUAL :: nat where "TK_VIRTUAL \<equiv> 55"
abbreviation (input) TK_REINDEX :: nat where "TK_REINDEX \<equiv> 56"
abbreviation (input) TK_RENAME :: nat where "TK_RENAME \<equiv> 57"
abbreviation (input) TK_CTIME_KW :: nat where "TK_CTIME_KW \<equiv> 58"
abbreviation (input) TK_OR :: nat where "TK_OR \<equiv> 60"
abbreviation (input) TK_AND :: nat where "TK_AND \<equiv> 61"
abbreviation (input) TK_IS :: nat where "TK_IS \<equiv> 62"
abbreviation (input) TK_BETWEEN :: nat where "TK_BETWEEN \<equiv> 63"
abbreviation (input) TK_IN :: nat where "TK_IN \<equiv> 64"
abbreviation (input) TK_ISNULL :: nat where "TK_ISNULL \<equiv> 65"
abbreviation (input) TK_NOTNULL :: nat where "TK_NOTNULL \<equiv> 66"
abbreviation (input) TK_NE :: nat where "TK_NE \<equiv> 67"
abbreviation (input) TK_EQ :: nat where "TK_EQ \<equiv> 68"
abbreviation (input) TK_GT :: nat where "TK_GT \<equiv> 69"
abbreviation (input) TK_LE :: nat where "TK_LE \<equiv> 70"
abbreviation (input) TK_LT :: nat where "TK_LT \<equiv> 71"
abbreviation (input) TK_GE :: nat where "TK_GE \<equiv> 72"
abbreviation (input) TK_ESCAPE :: nat where "TK_ESCAPE \<equiv> 73"
abbreviation (input) TK_BITAND :: nat where "TK_BITAND \<equiv> 74"
abbreviation (input) TK_BITOR :: nat where "TK_BITOR \<equiv> 75"
abbreviation (input) TK_LSHIFT :: nat where "TK_LSHIFT \<equiv> 76"
abbreviation (input) TK_RSHIFT :: nat where "TK_RSHIFT \<equiv> 77"
abbreviation (input) TK_PLUS :: nat where "TK_PLUS \<equiv> 78"
abbreviation (input) TK_MINUS :: nat where "TK_MINUS \<equiv> 79"
abbreviation (input) TK_STAR :: nat where "TK_STAR \<equiv> 80"
abbreviation (input) TK_SLASH :: nat where "TK_SLASH \<equiv> 81"
abbreviation (input) TK_REM :: nat where "TK_REM \<equiv> 82"
abbreviation (input) TK_CONCAT :: nat where "TK_CONCAT \<equiv> 83"
abbreviation (input) TK_COLLATE :: nat where "TK_COLLATE \<equiv> 84"
abbreviation (input) TK_BITNOT :: nat where "TK_BITNOT \<equiv> 87"
abbreviation (input) TK_STRING :: nat where "TK_STRING \<equiv> 88"
abbreviation (input) TK_JOIN_KW :: nat where "TK_JOIN_KW \<equiv> 89"
abbreviation (input) TK_CONSTRAINT :: nat where "TK_CONSTRAINT \<equiv> 90"
abbreviation (input) TK_DEFAULT :: nat where "TK_DEFAULT \<equiv> 91"
abbreviation (input) TK_NULL :: nat where "TK_NULL \<equiv> 92"
abbreviation (input) TK_PRIMARY :: nat where "TK_PRIMARY \<equiv> 93"
abbreviation (input) TK_UNIQUE :: nat where "TK_UNIQUE \<equiv> 94"
abbreviation (input) TK_CHECK :: nat where "TK_CHECK \<equiv> 95"
abbreviation (input) TK_REFERENCES :: nat where "TK_REFERENCES \<equiv> 96"
abbreviation (input) TK_AUTOINCR :: nat where "TK_AUTOINCR \<equiv> 97"
abbreviation (input) TK_ON :: nat where "TK_ON \<equiv> 98"
abbreviation (input) TK_DELETE :: nat where "TK_DELETE \<equiv> 99"
abbreviation (input) TK_UPDATE :: nat where "TK_UPDATE \<equiv> 100"
abbreviation (input) TK_INSERT :: nat where "TK_INSERT \<equiv> 101"
abbreviation (input) TK_SET :: nat where "TK_SET \<equiv> 102"
abbreviation (input) TK_DEFERRABLE :: nat where "TK_DEFERRABLE \<equiv> 103"
abbreviation (input) TK_FOREIGN :: nat where "TK_FOREIGN \<equiv> 104"
abbreviation (input) TK_DROP :: nat where "TK_DROP \<equiv> 105"
abbreviation (input) TK_UNION :: nat where "TK_UNION \<equiv> 106"
abbreviation (input) TK_ALL :: nat where "TK_ALL \<equiv> 107"
abbreviation (input) TK_EXCEPT :: nat where "TK_EXCEPT \<equiv> 108"
abbreviation (input) TK_INTERSECT :: nat where "TK_INTERSECT \<equiv> 109"
abbreviation (input) TK_SELECT :: nat where "TK_SELECT \<equiv> 110"
abbreviation (input) TK_DISTINCT :: nat where "TK_DISTINCT \<equiv> 111"
abbreviation (input) TK_DOT :: nat where "TK_DOT \<equiv> 112"
abbreviation (input) TK_FROM :: nat where "TK_FROM \<equiv> 113"
abbreviation (input) TK_JOIN :: nat where "TK_JOIN \<equiv> 114"
abbreviation (input) TK_USING :: nat where "TK_USING \<equiv> 115"
abbreviation (input) TK_ORDER :: nat where "TK_ORDER \<equiv> 116"
abbreviation (input) TK_BY :: nat where "TK_BY \<equiv> 117"
abbreviation (input) TK_GROUP :: nat where "TK_GROUP \<equiv> 118"
abbreviation (input) TK_HAVING :: nat where "TK_HAVING \<equiv> 119"
abbreviation (input) TK_LIMIT :: nat where "TK_LIMIT \<equiv> 120"
abbreviation (input) TK_WHERE :: nat where "TK_WHERE \<equiv> 121"
abbreviation (input) TK_INTO :: nat where "TK_INTO \<equiv> 122"
abbreviation (input) TK_VALUES :: nat where "TK_VALUES \<equiv> 123"
abbreviation (input) TK_INTEGER :: nat where "TK_INTEGER \<equiv> 124"
abbreviation (input) TK_FLOAT :: nat where "TK_FLOAT \<equiv> 125"
abbreviation (input) TK_BLOB :: nat where "TK_BLOB \<equiv> 126"
abbreviation (input) TK_REGISTER :: nat where "TK_REGISTER \<equiv> 127"
abbreviation (input) TK_VARIABLE :: nat where "TK_VARIABLE \<equiv> 128"
abbreviation (input) TK_CASE :: nat where "TK_CASE \<equiv> 129"
abbreviation (input) TK_WHEN :: nat where "TK_WHEN \<equiv> 130"
abbreviation (input) TK_THEN :: nat where "TK_THEN \<equiv> 131"
abbreviation (input) TK_ELSE :: nat where "TK_ELSE \<equiv> 132"
abbreviation (input) TK_INDEX :: nat where "TK_INDEX \<equiv> 133"
abbreviation (input) TK_ALTER :: nat where "TK_ALTER \<equiv> 134"
abbreviation (input) TK_TO :: nat where "TK_TO \<equiv> 135"
abbreviation (input) TK_ADD :: nat where "TK_ADD \<equiv> 136"
abbreviation (input) TK_COLUMNKW :: nat where "TK_COLUMNKW \<equiv> 137"
abbreviation (input) TK_ILLEGAL :: nat where "TK_ILLEGAL \<equiv> 144"
abbreviation (input) TK_SPACE :: nat where "TK_SPACE \<equiv> 145"
abbreviation (input) TK_COMMENT :: nat where "TK_COMMENT \<equiv> 147"

subsection \<open>The tables\<close>

definition zText1 :: "byte list" where
  "zText1 =
     [0x42, 0x45, 0x46, 0x4f, 0x52, 0x45, 0x49, 0x47, 0x4e, 0x4f, 0x52, 0x45, 0x47, 0x45, 0x58, 0x50,
     0x4c, 0x41, 0x49, 0x4e, 0x53, 0x54, 0x45, 0x41, 0x44, 0x44, 0x45, 0x53, 0x43, 0x41, 0x50, 0x45,
     0x41, 0x43, 0x48, 0x45, 0x43, 0x4b, 0x45, 0x59, 0x43, 0x4f, 0x4e, 0x53, 0x54, 0x52, 0x41, 0x49,
     0x4e, 0x54, 0x45, 0x52, 0x53, 0x45, 0x43, 0x54, 0x41, 0x42, 0x4c, 0x45, 0x46, 0x54]"

definition zText2 :: "byte list" where
  "zText2 =
     [0x48, 0x45, 0x4e, 0x44, 0x41, 0x54, 0x41, 0x42, 0x41, 0x53, 0x45, 0x4c, 0x45, 0x43, 0x54, 0x52,
     0x41, 0x4e, 0x53, 0x41, 0x43, 0x54, 0x49, 0x4f, 0x4e, 0x41, 0x54, 0x55, 0x52, 0x41, 0x4c, 0x54,
     0x45, 0x52, 0x41, 0x49, 0x53, 0x45, 0x4c, 0x53, 0x45, 0x58, 0x43, 0x45, 0x50, 0x54, 0x52, 0x49,
     0x47, 0x47, 0x45, 0x52, 0x45, 0x46, 0x45, 0x52, 0x45, 0x4e, 0x43, 0x45, 0x53]"

definition zText3 :: "byte list" where
  "zText3 =
     [0x55, 0x4e, 0x49, 0x51, 0x55, 0x45, 0x52, 0x59, 0x41, 0x54, 0x54, 0x41, 0x43, 0x48, 0x41, 0x56,
     0x49, 0x4e, 0x47, 0x52, 0x4f, 0x55, 0x50, 0x44, 0x41, 0x54, 0x45, 0x4d, 0x50, 0x4f, 0x52, 0x41,
     0x52, 0x59, 0x42, 0x45, 0x47, 0x49, 0x4e, 0x4e, 0x45, 0x52, 0x45, 0x49, 0x4e, 0x44, 0x45, 0x58,
     0x43, 0x4c, 0x55, 0x53, 0x49, 0x56, 0x45, 0x58, 0x49, 0x53, 0x54, 0x53, 0x42, 0x45, 0x54, 0x57,
     0x45, 0x45, 0x4e]"

definition zText4 :: "byte list" where
  "zText4 =
     [0x4f, 0x54, 0x4e, 0x55, 0x4c, 0x4c, 0x49, 0x4b, 0x45, 0x43, 0x41, 0x53, 0x43, 0x41, 0x44, 0x45,
     0x46, 0x45, 0x52, 0x52, 0x41, 0x42, 0x4c, 0x45, 0x43, 0x41, 0x53, 0x45, 0x43, 0x4f, 0x4c, 0x4c,
     0x41, 0x54, 0x45, 0x43, 0x52, 0x45, 0x41, 0x54, 0x45, 0x43, 0x55, 0x52, 0x52, 0x45, 0x4e, 0x54,
     0x5f, 0x44, 0x41, 0x54, 0x45, 0x44, 0x45, 0x4c, 0x45, 0x54, 0x45, 0x44, 0x45, 0x54, 0x41, 0x43,
     0x48]"

definition zText5 :: "byte list" where
  "zText5 =
     [0x49, 0x4d, 0x4d, 0x45, 0x44, 0x49, 0x41, 0x54, 0x45, 0x4a, 0x4f, 0x49, 0x4e, 0x53, 0x45, 0x52,
     0x54, 0x4d, 0x41, 0x54, 0x43, 0x48, 0x50, 0x4c, 0x41, 0x4e, 0x41, 0x4c, 0x59, 0x5a, 0x45, 0x50,
     0x52, 0x41, 0x47, 0x4d, 0x41, 0x42, 0x4f, 0x52, 0x54, 0x56, 0x41, 0x4c, 0x55, 0x45, 0x53, 0x56,
     0x49, 0x52, 0x54, 0x55, 0x41, 0x4c, 0x49, 0x4d, 0x49, 0x54, 0x57, 0x48, 0x45, 0x4e]"

definition zText6 :: "byte list" where
  "zText6 =
     [0x57, 0x48, 0x45, 0x52, 0x45, 0x4e, 0x41, 0x4d, 0x45, 0x41, 0x46, 0x54, 0x45, 0x52, 0x45, 0x50,
     0x4c, 0x41, 0x43, 0x45, 0x41, 0x4e, 0x44, 0x45, 0x46, 0x41, 0x55, 0x4c, 0x54, 0x41, 0x55, 0x54,
     0x4f, 0x49, 0x4e, 0x43, 0x52, 0x45, 0x4d, 0x45, 0x4e, 0x54, 0x43, 0x41, 0x53, 0x54, 0x43, 0x4f,
     0x4c, 0x55, 0x4d, 0x4e, 0x43, 0x4f, 0x4d, 0x4d, 0x49, 0x54, 0x43, 0x4f, 0x4e, 0x46, 0x4c, 0x49,
     0x43, 0x54]"

definition zText7 :: "byte list" where
  "zText7 =
     [0x43, 0x52, 0x4f, 0x53, 0x53, 0x43, 0x55, 0x52, 0x52, 0x45, 0x4e, 0x54, 0x5f, 0x54, 0x49, 0x4d,
     0x45, 0x53, 0x54, 0x41, 0x4d, 0x50, 0x52, 0x49, 0x4d, 0x41, 0x52, 0x59, 0x44, 0x45, 0x46, 0x45,
     0x52, 0x52, 0x45, 0x44, 0x49, 0x53, 0x54, 0x49, 0x4e, 0x43, 0x54, 0x44, 0x52, 0x4f, 0x50, 0x46,
     0x41, 0x49, 0x4c, 0x46, 0x52, 0x4f, 0x4d, 0x46, 0x55, 0x4c, 0x4c, 0x47, 0x4c, 0x4f, 0x42]"

definition zText8 :: "byte list" where
  "zText8 =
     [0x59, 0x49, 0x46, 0x49, 0x4e, 0x54, 0x4f, 0x46, 0x46, 0x53, 0x45, 0x54, 0x49, 0x53, 0x4e, 0x55,
     0x4c, 0x4c, 0x4f, 0x52, 0x44, 0x45, 0x52, 0x45, 0x53, 0x54, 0x52, 0x49, 0x43, 0x54, 0x4f, 0x55,
     0x54, 0x45, 0x52, 0x49, 0x47, 0x48, 0x54, 0x52, 0x4f, 0x4c, 0x4c, 0x42, 0x41, 0x43, 0x4b, 0x52,
     0x4f, 0x57, 0x55, 0x4e, 0x49, 0x4f, 0x4e, 0x55, 0x53, 0x49, 0x4e, 0x47, 0x56, 0x41, 0x43, 0x55,
     0x55, 0x4d]"

definition zText9 :: "byte list" where
  "zText9 =
     [0x56, 0x49, 0x45, 0x57, 0x49, 0x4e, 0x49, 0x54, 0x49, 0x41, 0x4c, 0x4c, 0x59]"

definition zText :: "byte list" where
  "zText = zText1 @ zText2 @ zText3 @ zText4 @ zText5 @ zText6 @ zText7 @ zText8 @ zText9 @ [0]"

definition aHash :: "nat list" where
  "aHash =
     [63, 92, 109, 61, 0, 39, 0, 0, 69, 0, 64, 0, 0, 101, 4, 65, 7, 0, 108, 72,
     103, 99, 0, 22, 0, 0, 113, 0, 111, 106, 0, 18, 80, 0, 1, 0, 0, 56, 57, 0,
     55, 11, 0, 33, 77, 89, 0, 110, 88, 0, 0, 45, 0, 90, 54, 0, 20, 0, 114, 34,
     19, 0, 10, 97, 28, 83, 0, 0, 116, 93, 47, 115, 41, 12, 44, 0, 78, 0, 87, 29,
     0, 86, 0, 0, 0, 82, 79, 84, 75, 96, 6, 14, 95, 0, 68, 0, 21, 76, 98, 27,
     0, 112, 67, 104, 49, 40, 71, 0, 0, 81, 100, 0, 107, 0, 15, 0, 0, 24, 0, 73,
     42, 50, 0, 16, 48, 0, 37]"

definition aNext :: "nat list" where
  "aNext =
     [0, 0, 0, 0, 0, 0, 0, 0, 0, 9, 0, 0, 0, 0, 0, 0, 0, 5, 0, 0,
     0, 0, 0, 0, 0, 0, 0, 0, 0, 0, 0, 0, 0, 0, 0, 0, 32, 0, 0, 17,
     0, 0, 0, 36, 38, 0, 0, 25, 0, 0, 31, 0, 0, 0, 43, 52, 0, 0, 0, 53,
     0, 0, 0, 0, 0, 0, 0, 0, 0, 51, 0, 0, 0, 0, 26, 0, 8, 46, 3, 0,
     0, 0, 0, 0, 0, 0, 2, 58, 66, 0, 13, 0, 91, 85, 0, 94, 0, 74, 0, 0,
     0, 62, 35, 102, 0, 0, 105, 23, 30, 60, 70, 0, 0, 59, 0, 0]"

definition aLen :: "nat list" where
  "aLen =
     [6, 3, 7, 6, 6, 7, 7, 3, 4, 6, 4, 5, 3, 10, 9, 5, 4, 4, 3, 8,
     2, 6, 11, 2, 7, 5, 5, 4, 6, 7, 10, 6, 5, 6, 6, 5, 6, 9, 4, 2,
     5, 5, 7, 5, 9, 6, 7, 7, 3, 4, 4, 7, 3, 10, 4, 7, 6, 12, 6, 6,
     9, 4, 6, 5, 4, 7, 6, 5, 6, 7, 5, 4, 5, 6, 5, 7, 3, 7, 13, 2,
     2, 4, 6, 6, 8, 5, 17, 12, 7, 8, 8, 2, 4, 4, 4, 4, 4, 2, 2, 4,
     2, 6, 3, 6, 5, 8, 5, 5, 8, 3, 5, 5, 6, 4, 9, 3]"

definition aOffset :: "nat list" where
  "aOffset =
     [0, 2, 2, 6, 10, 13, 18, 23, 25, 26, 31, 33, 37, 40, 47, 55, 58, 61, 63, 65,
     70, 71, 76, 85, 86, 91, 95, 99, 102, 107, 113, 123, 126, 131, 136, 141, 144, 148, 148, 152,
     157, 160, 164, 166, 169, 177, 183, 189, 189, 192, 195, 199, 200, 204, 214, 218, 225, 231, 243, 249,
     255, 264, 266, 272, 277, 279, 286, 291, 296, 302, 308, 313, 317, 320, 326, 330, 337, 339, 346, 348,
     350, 359, 363, 369, 375, 383, 388, 388, 404, 411, 418, 419, 426, 430, 434, 438, 442, 445, 447, 449,
     452, 452, 455, 458, 464, 468, 476, 480, 485, 493, 496, 501, 506, 512, 516, 521]"

definition aCode :: "nat list" where
  "aCode =
     [TK_BEFORE, TK_FOR, TK_FOREIGN, TK_IGNORE, TK_LIKE_KW, TK_EXPLAIN, TK_INSTEAD, TK_ADD,
     TK_DESC, TK_ESCAPE, TK_EACH, TK_CHECK, TK_KEY, TK_CONSTRAINT, TK_INTERSECT, TK_TABLE,
     TK_JOIN_KW, TK_THEN, TK_END, TK_DATABASE, TK_AS, TK_SELECT, TK_TRANSACTION, TK_ON,
     TK_JOIN_KW, TK_ALTER, TK_RAISE, TK_ELSE, TK_EXCEPT, TK_TRIGGER, TK_REFERENCES, TK_UNIQUE,
     TK_QUERY, TK_ATTACH, TK_HAVING, TK_GROUP, TK_UPDATE, TK_TEMP, TK_TEMP, TK_OR,
     TK_BEGIN, TK_JOIN_KW, TK_REINDEX, TK_INDEX, TK_EXCLUSIVE, TK_EXISTS, TK_BETWEEN, TK_NOTNULL,
     TK_NOT, TK_NULL, TK_LIKE_KW, TK_CASCADE, TK_ASC, TK_DEFERRABLE, TK_CASE, TK_COLLATE,
     TK_CREATE, TK_CTIME_KW, TK_DELETE, TK_DETACH, TK_IMMEDIATE, TK_JOIN, TK_INSERT, TK_MATCH,
     TK_PLAN, TK_ANALYZE, TK_PRAGMA, TK_ABORT, TK_VALUES, TK_VIRTUAL, TK_LIMIT, TK_WHEN,
     TK_WHERE, TK_RENAME, TK_AFTER, TK_REPLACE, TK_AND, TK_DEFAULT, TK_AUTOINCR, TK_TO,
     TK_IN, TK_CAST, TK_COLUMNKW, TK_COMMIT, TK_CONFLICT, TK_JOIN_KW, TK_CTIME_KW, TK_CTIME_KW,
     TK_PRIMARY, TK_DEFERRED, TK_DISTINCT, TK_IS, TK_DROP, TK_FAIL, TK_FROM, TK_JOIN_KW,
     TK_LIKE_KW, TK_BY, TK_IF, TK_INTO, TK_OF, TK_OFFSET, TK_SET, TK_ISNULL,
     TK_ORDER, TK_RESTRICT, TK_JOIN_KW, TK_JOIN_KW, TK_ROLLBACK, TK_ROW, TK_UNION, TK_USING,
     TK_VACUUM, TK_VIEW, TK_INITIALLY, TK_ALL]"

subsection \<open>The search\<close>

lemma aNext_decreases: "\<forall>i \<in> set [0..<116]. aNext ! i \<le> i"
  by code_simp

lemma text_sizes [simp]:
  "length zText1 = 62"
  "length zText2 = 61"
  "length zText3 = 67"
  "length zText4 = 65"
  "length zText5 = 62"
  "length zText6 = 66"
  "length zText7 = 63"
  "length zText8 = 66"
  "length zText9 = 13"
  by (simp_all add: zText1_def zText2_def zText3_def zText4_def zText5_def zText6_def zText7_def zText8_def zText9_def)

lemma table_sizes: "length aNext = 116" "length aLen = 116" "length aOffset = 116" "length aCode = 116" "length aHash = 127"
    "length zText = 526"
  by (simp_all add: aNext_def aLen_def aOffset_def aCode_def aHash_def zText_def)

function kwLoop :: "byte list \<Rightarrow> nat \<Rightarrow> nat \<Rightarrow> nat cres" where
  "kwLoop z n 0 = Inr TK_ID"
| "kwLoop z n (Suc i) =
     bindR (rd aLen i) (\<lambda>len. bindR (rd aOffset i) (\<lambda>off.
       bindR (if len = n then bindR (sqlite3StrNICmp (drop off zText) z n) (\<lambda>c. Inr (c = 0)) else Inr False) (\<lambda>found.
         if found then rd aCode i else bindR (rd aNext i) (kwLoop z n))))"
  by pat_completeness auto
termination
proof (relation "measure (\<lambda>(z, n, j). j)")
  fix z :: "byte list" and n i x xa xb xc assume "rd aNext i = Inr xc"
  then have "i < 116" "xc = aNext ! i" by (simp_all add: rd_def table_sizes split: if_splits)
  moreover from this(1) have "i \<in> set [0..<116]" by simp
  then have "aNext ! i \<le> i" by (rule bspec [OF aNext_decreases])
  ultimately show "((z, n, xc), z, n, Suc i) \<in> measure (\<lambda>(z, n, j). j)" by simp
qed simp

definition keywordCode :: "byte list \<Rightarrow> nat \<Rightarrow> nat cres" where
  "keywordCode z n =
     (if n < 2 then Inr TK_ID
      else bindR (rd z 0) (\<lambda>a. bindR (rd z (n - 1)) (\<lambda>b.
        let h = nat (((uint (UpperToLower a) * 4) XOR (uint (UpperToLower b) * 3) XOR int n) mod 127) in
        bindR (rd aHash h) (kwLoop z n))))"

subsection \<open>The keywords\<close>

definition keyword :: "nat \<Rightarrow> byte list" where
  "keyword i = take (aLen ! i) (drop (aOffset ! i) zText)"

text \<open>The text of a keyword, by the string literal in which it starts.\<close>

lemma drop_past: "length xs \<le> n \<Longrightarrow> drop n (xs @ ys) = drop (n - length xs) ys"
  by simp

lemma zText_from1: "0 \<le> n \<Longrightarrow> drop n zText = drop (n - 0) (zText1 @ zText2 @ zText3 @ zText4 @ zText5 @ zText6 @ zText7 @ zText8 @ zText9 @ [0])"
  by (simp add: zText_def)

lemma keywords1:
  "keyword 0 = [0x42, 0x45, 0x46, 0x4f, 0x52, 0x45]"
  "keyword 1 = [0x46, 0x4f, 0x52]"
  "keyword 2 = [0x46, 0x4f, 0x52, 0x45, 0x49, 0x47, 0x4e]"
  "keyword 3 = [0x49, 0x47, 0x4e, 0x4f, 0x52, 0x45]"
  "keyword 4 = [0x52, 0x45, 0x47, 0x45, 0x58, 0x50]"
  "keyword 5 = [0x45, 0x58, 0x50, 0x4c, 0x41, 0x49, 0x4e]"
  "keyword 6 = [0x49, 0x4e, 0x53, 0x54, 0x45, 0x41, 0x44]"
  "keyword 7 = [0x41, 0x44, 0x44]"
  "keyword 8 = [0x44, 0x45, 0x53, 0x43]"
  "keyword 9 = [0x45, 0x53, 0x43, 0x41, 0x50, 0x45]"
  "keyword 10 = [0x45, 0x41, 0x43, 0x48]"
  "keyword 11 = [0x43, 0x48, 0x45, 0x43, 0x4b]"
  "keyword 12 = [0x4b, 0x45, 0x59]"
  "keyword 13 = [0x43, 0x4f, 0x4e, 0x53, 0x54, 0x52, 0x41, 0x49, 0x4e, 0x54]"
  "keyword 14 = [0x49, 0x4e, 0x54, 0x45, 0x52, 0x53, 0x45, 0x43, 0x54]"
  "keyword 15 = [0x54, 0x41, 0x42, 0x4c, 0x45]"
  "keyword 16 = [0x4c, 0x45, 0x46, 0x54]"
  "keyword 17 = [0x54, 0x48, 0x45, 0x4e]"
  by (simp_all add: keyword_def aLen_def aOffset_def zText_def zText1_def zText2_def)

lemma zText_from2: "62 \<le> n \<Longrightarrow> drop n zText = drop (n - 62) (zText2 @ zText3 @ zText4 @ zText5 @ zText6 @ zText7 @ zText8 @ zText9 @ [0])"
  by (simp add: zText_def)

lemma keywords2:
  "keyword 18 = [0x45, 0x4e, 0x44]"
  "keyword 19 = [0x44, 0x41, 0x54, 0x41, 0x42, 0x41, 0x53, 0x45]"
  "keyword 20 = [0x41, 0x53]"
  "keyword 21 = [0x53, 0x45, 0x4c, 0x45, 0x43, 0x54]"
  "keyword 22 = [0x54, 0x52, 0x41, 0x4e, 0x53, 0x41, 0x43, 0x54, 0x49, 0x4f, 0x4e]"
  "keyword 23 = [0x4f, 0x4e]"
  "keyword 24 = [0x4e, 0x41, 0x54, 0x55, 0x52, 0x41, 0x4c]"
  "keyword 25 = [0x41, 0x4c, 0x54, 0x45, 0x52]"
  "keyword 26 = [0x52, 0x41, 0x49, 0x53, 0x45]"
  "keyword 27 = [0x45, 0x4c, 0x53, 0x45]"
  "keyword 28 = [0x45, 0x58, 0x43, 0x45, 0x50, 0x54]"
  "keyword 29 = [0x54, 0x52, 0x49, 0x47, 0x47, 0x45, 0x52]"
  "keyword 30 = [0x52, 0x45, 0x46, 0x45, 0x52, 0x45, 0x4e, 0x43, 0x45, 0x53]"
  by (simp_all add: keyword_def aLen_def aOffset_def zText_from2 zText2_def zText3_def)

lemma zText_from3: "123 \<le> n \<Longrightarrow> drop n zText = drop (n - 123) (zText3 @ zText4 @ zText5 @ zText6 @ zText7 @ zText8 @ zText9 @ [0])"
  by (simp add: zText_def)

lemma keywords3:
  "keyword 31 = [0x55, 0x4e, 0x49, 0x51, 0x55, 0x45]"
  "keyword 32 = [0x51, 0x55, 0x45, 0x52, 0x59]"
  "keyword 33 = [0x41, 0x54, 0x54, 0x41, 0x43, 0x48]"
  "keyword 34 = [0x48, 0x41, 0x56, 0x49, 0x4e, 0x47]"
  "keyword 35 = [0x47, 0x52, 0x4f, 0x55, 0x50]"
  "keyword 36 = [0x55, 0x50, 0x44, 0x41, 0x54, 0x45]"
  "keyword 37 = [0x54, 0x45, 0x4d, 0x50, 0x4f, 0x52, 0x41, 0x52, 0x59]"
  "keyword 38 = [0x54, 0x45, 0x4d, 0x50]"
  "keyword 39 = [0x4f, 0x52]"
  "keyword 40 = [0x42, 0x45, 0x47, 0x49, 0x4e]"
  "keyword 41 = [0x49, 0x4e, 0x4e, 0x45, 0x52]"
  "keyword 42 = [0x52, 0x45, 0x49, 0x4e, 0x44, 0x45, 0x58]"
  "keyword 43 = [0x49, 0x4e, 0x44, 0x45, 0x58]"
  "keyword 44 = [0x45, 0x58, 0x43, 0x4c, 0x55, 0x53, 0x49, 0x56, 0x45]"
  "keyword 45 = [0x45, 0x58, 0x49, 0x53, 0x54, 0x53]"
  "keyword 46 = [0x42, 0x45, 0x54, 0x57, 0x45, 0x45, 0x4e]"
  "keyword 47 = [0x4e, 0x4f, 0x54, 0x4e, 0x55, 0x4c, 0x4c]"
  "keyword 48 = [0x4e, 0x4f, 0x54]"
  by (simp_all add: keyword_def aLen_def aOffset_def zText_from3 zText3_def zText4_def)

lemma zText_from4: "190 \<le> n \<Longrightarrow> drop n zText = drop (n - 190) (zText4 @ zText5 @ zText6 @ zText7 @ zText8 @ zText9 @ [0])"
  by (simp add: zText_def)

lemma keywords4:
  "keyword 49 = [0x4e, 0x55, 0x4c, 0x4c]"
  "keyword 50 = [0x4c, 0x49, 0x4b, 0x45]"
  "keyword 51 = [0x43, 0x41, 0x53, 0x43, 0x41, 0x44, 0x45]"
  "keyword 52 = [0x41, 0x53, 0x43]"
  "keyword 53 = [0x44, 0x45, 0x46, 0x45, 0x52, 0x52, 0x41, 0x42, 0x4c, 0x45]"
  "keyword 54 = [0x43, 0x41, 0x53, 0x45]"
  "keyword 55 = [0x43, 0x4f, 0x4c, 0x4c, 0x41, 0x54, 0x45]"
  "keyword 56 = [0x43, 0x52, 0x45, 0x41, 0x54, 0x45]"
  "keyword 57 = [0x43, 0x55, 0x52, 0x52, 0x45, 0x4e, 0x54, 0x5f, 0x44, 0x41, 0x54, 0x45]"
  "keyword 58 = [0x44, 0x45, 0x4c, 0x45, 0x54, 0x45]"
  "keyword 59 = [0x44, 0x45, 0x54, 0x41, 0x43, 0x48]"
  by (simp_all add: keyword_def aLen_def aOffset_def zText_from4 zText4_def zText5_def)

lemma zText_from5: "255 \<le> n \<Longrightarrow> drop n zText = drop (n - 255) (zText5 @ zText6 @ zText7 @ zText8 @ zText9 @ [0])"
  by (simp add: zText_def)

lemma keywords5:
  "keyword 60 = [0x49, 0x4d, 0x4d, 0x45, 0x44, 0x49, 0x41, 0x54, 0x45]"
  "keyword 61 = [0x4a, 0x4f, 0x49, 0x4e]"
  "keyword 62 = [0x49, 0x4e, 0x53, 0x45, 0x52, 0x54]"
  "keyword 63 = [0x4d, 0x41, 0x54, 0x43, 0x48]"
  "keyword 64 = [0x50, 0x4c, 0x41, 0x4e]"
  "keyword 65 = [0x41, 0x4e, 0x41, 0x4c, 0x59, 0x5a, 0x45]"
  "keyword 66 = [0x50, 0x52, 0x41, 0x47, 0x4d, 0x41]"
  "keyword 67 = [0x41, 0x42, 0x4f, 0x52, 0x54]"
  "keyword 68 = [0x56, 0x41, 0x4c, 0x55, 0x45, 0x53]"
  "keyword 69 = [0x56, 0x49, 0x52, 0x54, 0x55, 0x41, 0x4c]"
  "keyword 70 = [0x4c, 0x49, 0x4d, 0x49, 0x54]"
  "keyword 71 = [0x57, 0x48, 0x45, 0x4e]"
  by (simp_all add: keyword_def aLen_def aOffset_def zText_from5 zText5_def zText6_def)

lemma zText_from6: "317 \<le> n \<Longrightarrow> drop n zText = drop (n - 317) (zText6 @ zText7 @ zText8 @ zText9 @ [0])"
  by (simp add: zText_def)

lemma keywords6:
  "keyword 72 = [0x57, 0x48, 0x45, 0x52, 0x45]"
  "keyword 73 = [0x52, 0x45, 0x4e, 0x41, 0x4d, 0x45]"
  "keyword 74 = [0x41, 0x46, 0x54, 0x45, 0x52]"
  "keyword 75 = [0x52, 0x45, 0x50, 0x4c, 0x41, 0x43, 0x45]"
  "keyword 76 = [0x41, 0x4e, 0x44]"
  "keyword 77 = [0x44, 0x45, 0x46, 0x41, 0x55, 0x4c, 0x54]"
  "keyword 78 = [0x41, 0x55, 0x54, 0x4f, 0x49, 0x4e, 0x43, 0x52, 0x45, 0x4d, 0x45, 0x4e, 0x54]"
  "keyword 79 = [0x54, 0x4f]"
  "keyword 80 = [0x49, 0x4e]"
  "keyword 81 = [0x43, 0x41, 0x53, 0x54]"
  "keyword 82 = [0x43, 0x4f, 0x4c, 0x55, 0x4d, 0x4e]"
  "keyword 83 = [0x43, 0x4f, 0x4d, 0x4d, 0x49, 0x54]"
  "keyword 84 = [0x43, 0x4f, 0x4e, 0x46, 0x4c, 0x49, 0x43, 0x54]"
  by (simp_all add: keyword_def aLen_def aOffset_def zText_from6 zText6_def zText7_def)

lemma zText_from7: "383 \<le> n \<Longrightarrow> drop n zText = drop (n - 383) (zText7 @ zText8 @ zText9 @ [0])"
  by (simp add: zText_def)

lemma keywords7:
  "keyword 85 = [0x43, 0x52, 0x4f, 0x53, 0x53]"
  "keyword 86 = [0x43, 0x55, 0x52, 0x52, 0x45, 0x4e, 0x54, 0x5f, 0x54, 0x49, 0x4d, 0x45, 0x53, 0x54, 0x41, 0x4d, 0x50]"
  "keyword 87 = [0x43, 0x55, 0x52, 0x52, 0x45, 0x4e, 0x54, 0x5f, 0x54, 0x49, 0x4d, 0x45]"
  "keyword 88 = [0x50, 0x52, 0x49, 0x4d, 0x41, 0x52, 0x59]"
  "keyword 89 = [0x44, 0x45, 0x46, 0x45, 0x52, 0x52, 0x45, 0x44]"
  "keyword 90 = [0x44, 0x49, 0x53, 0x54, 0x49, 0x4e, 0x43, 0x54]"
  "keyword 91 = [0x49, 0x53]"
  "keyword 92 = [0x44, 0x52, 0x4f, 0x50]"
  "keyword 93 = [0x46, 0x41, 0x49, 0x4c]"
  "keyword 94 = [0x46, 0x52, 0x4f, 0x4d]"
  "keyword 95 = [0x46, 0x55, 0x4c, 0x4c]"
  "keyword 96 = [0x47, 0x4c, 0x4f, 0x42]"
  "keyword 97 = [0x42, 0x59]"
  by (simp_all add: keyword_def aLen_def aOffset_def zText_from7 zText7_def zText8_def)

lemma zText_from8: "446 \<le> n \<Longrightarrow> drop n zText = drop (n - 446) (zText8 @ zText9 @ [0])"
  by (simp add: zText_def)

lemma keywords8:
  "keyword 98 = [0x49, 0x46]"
  "keyword 99 = [0x49, 0x4e, 0x54, 0x4f]"
  "keyword 100 = [0x4f, 0x46]"
  "keyword 101 = [0x4f, 0x46, 0x46, 0x53, 0x45, 0x54]"
  "keyword 102 = [0x53, 0x45, 0x54]"
  "keyword 103 = [0x49, 0x53, 0x4e, 0x55, 0x4c, 0x4c]"
  "keyword 104 = [0x4f, 0x52, 0x44, 0x45, 0x52]"
  "keyword 105 = [0x52, 0x45, 0x53, 0x54, 0x52, 0x49, 0x43, 0x54]"
  "keyword 106 = [0x4f, 0x55, 0x54, 0x45, 0x52]"
  "keyword 107 = [0x52, 0x49, 0x47, 0x48, 0x54]"
  "keyword 108 = [0x52, 0x4f, 0x4c, 0x4c, 0x42, 0x41, 0x43, 0x4b]"
  "keyword 109 = [0x52, 0x4f, 0x57]"
  "keyword 110 = [0x55, 0x4e, 0x49, 0x4f, 0x4e]"
  "keyword 111 = [0x55, 0x53, 0x49, 0x4e, 0x47]"
  "keyword 112 = [0x56, 0x41, 0x43, 0x55, 0x55, 0x4d]"
  by (simp_all add: keyword_def aLen_def aOffset_def zText_from8 zText8_def zText9_def)

lemma zText_from9: "512 \<le> n \<Longrightarrow> drop n zText = drop (n - 512) (zText9 @ [0])"
  by (simp add: zText_def)

lemma keywords9:
  "keyword 113 = [0x56, 0x49, 0x45, 0x57]"
  "keyword 114 = [0x49, 0x4e, 0x49, 0x54, 0x49, 0x41, 0x4c, 0x4c, 0x59]"
  "keyword 115 = [0x41, 0x4c, 0x4c]"
  by (simp_all add: keyword_def aLen_def aOffset_def zText_from9 zText9_def)

lemma keyword_1: "keyword (Suc 0) = [0x46, 0x4f, 0x52]"
  using keywords1(2) by simp

lemmas keyword_texts = keyword_1 keywords1 keywords2 keywords3 keywords4 keywords5 keywords6 keywords7 keywords8 keywords9

lemma keyword_inside: "\<forall>i \<in> set [0..<116]. aOffset ! i + aLen ! i \<le> 525 \<and> 2 \<le> aLen ! i"
  by code_simp

lemma keyword_length:
  assumes "i < 116"
  shows "length (keyword i) = aLen ! i" "aOffset ! i + aLen ! i \<le> 525" "2 \<le> aLen ! i"
proof -
  have "i \<in> set [0..<116]" using assms by simp
  then show "aOffset ! i + aLen ! i \<le> 525" "2 \<le> aLen ! i" using keyword_inside by blast+
  then show "length (keyword i) = aLen ! i" by (simp add: keyword_def table_sizes)
qed

lemma text_nonzero: "0 \<notin> set (take 525 zText)"
proof -
  have "0 \<notin> set (zText1 @ zText2 @ zText3 @ zText4 @ zText5 @ zText6 @ zText7 @ zText8 @ zText9)"
    by (simp add: zText1_def zText2_def zText3_def zText4_def zText5_def zText6_def zText7_def zText8_def zText9_def)
  then show ?thesis by (simp add: zText_def)
qed

text \<open>One step of the search: compare with the keyword of the link, go on with the next link.\<close>

lemma kwLoop_step:
  assumes "0 < j" "j \<le> 116" "n \<le> length z"
  shows "kwLoop z n j = (if lower (keyword (j - 1)) = lower (take n z) then Inr (aCode ! (j - 1)) else kwLoop z n (aNext ! (j - 1)))"
proof -
  obtain i where j: "j = Suc i" using assms(1) by (cases j) simp_all
  have i: "i < 116" using assms(2) j by simp
  note k = keyword_length [OF i]
  let ?t = "drop (aOffset ! i) zText"
  show ?thesis
  proof (cases "aLen ! i = n")
    case True
    have "n \<le> length ?t" using k(2) True by (simp add: table_sizes)
    moreover have "set (take (n - 1) ?t) \<subseteq> set (take 525 zText)"
    proof -
      have "take (n - 1) ?t = drop (aOffset ! i) (take (aOffset ! i + (n - 1)) zText)" by (simp add: take_drop add.commute)
      moreover have "set (take (aOffset ! i + (n - 1)) zText) \<subseteq> set (take 525 zText)"
        by (rule set_take_subset_set_take) (use k(2) True in simp)
      ultimately show ?thesis using set_drop_subset by fastforce
    qed
    ultimately obtain d where "sqlite3StrNICmp ?t z n = Inr d" "d = 0 \<longleftrightarrow> lower (take n ?t) = lower (take n z)"
      using StrNICmp_key [of n ?t z] assms(3) text_nonzero by blast
    then show ?thesis using True i by (simp add: j table_sizes keyword_def)
  next
    case False
    have "length (lower (keyword i)) \<noteq> length (lower (take n z))" using k(1) assms(3) False by (simp add: lower_def)
    then have "lower (keyword i) \<noteq> lower (take n z)" by metis
    with False i show ?thesis by (simp add: j table_sizes)
  qed
qed

definition hashBytes :: "byte list \<Rightarrow> nat" where
  "hashBytes w = nat (((uint (w ! 0) * 4) XOR (uint (w ! (length w - 1)) * 3) XOR int (length w)) mod 127)"

lemma hashBytes_bound: "hashBytes w < length aHash"
  by (simp add: hashBytes_def table_sizes nat_less_iff)

lemma keywordCode_lower:
  assumes "n \<le> length z" "2 \<le> n"
  shows "keywordCode z n = kwLoop z n (aHash ! hashBytes (lower (take n z)))"
proof -
  have "lower (take n z) ! 0 = UpperToLower (z ! 0)" "lower (take n z) ! (n - 1) = UpperToLower (z ! (n - 1))"
    "length (lower (take n z)) = n" using assms by (simp_all add: lower_def)
  moreover have "rd z 0 = Inr (z ! 0)" "rd z (n - 1) = Inr (z ! (n - 1))" using assms by (auto simp: rd_def)
  ultimately show ?thesis
    using assms hashBytes_bound [of "lower (take n z)"] by (simp add: keywordCode_def hashBytes_def Let_def)
qed

text \<open>Every keyword is found under its own code.\<close>

lemma found1:
  "kwLoop (keyword 0) (aLen ! 0) (aHash ! hashBytes (lower (keyword 0))) = Inr (aCode ! 0)"
  "kwLoop (keyword 1) (aLen ! 1) (aHash ! hashBytes (lower (keyword 1))) = Inr (aCode ! 1)"
  "kwLoop (keyword 2) (aLen ! 2) (aHash ! hashBytes (lower (keyword 2))) = Inr (aCode ! 2)"
  "kwLoop (keyword 3) (aLen ! 3) (aHash ! hashBytes (lower (keyword 3))) = Inr (aCode ! 3)"
  "kwLoop (keyword 4) (aLen ! 4) (aHash ! hashBytes (lower (keyword 4))) = Inr (aCode ! 4)"
  "kwLoop (keyword 5) (aLen ! 5) (aHash ! hashBytes (lower (keyword 5))) = Inr (aCode ! 5)"
  "kwLoop (keyword 6) (aLen ! 6) (aHash ! hashBytes (lower (keyword 6))) = Inr (aCode ! 6)"
  "kwLoop (keyword 7) (aLen ! 7) (aHash ! hashBytes (lower (keyword 7))) = Inr (aCode ! 7)"
  "kwLoop (keyword 8) (aLen ! 8) (aHash ! hashBytes (lower (keyword 8))) = Inr (aCode ! 8)"
  "kwLoop (keyword 9) (aLen ! 9) (aHash ! hashBytes (lower (keyword 9))) = Inr (aCode ! 9)"
  "kwLoop (keyword 10) (aLen ! 10) (aHash ! hashBytes (lower (keyword 10))) = Inr (aCode ! 10)"
  "kwLoop (keyword 11) (aLen ! 11) (aHash ! hashBytes (lower (keyword 11))) = Inr (aCode ! 11)"
  by (simp_all add: keyword_texts hashBytes_def UpperToLower_eq aHash_def aLen_def aNext_def aCode_def kwLoop_step del: One_nat_def kwLoop.simps(2))

lemma found2:
  "kwLoop (keyword 12) (aLen ! 12) (aHash ! hashBytes (lower (keyword 12))) = Inr (aCode ! 12)"
  "kwLoop (keyword 13) (aLen ! 13) (aHash ! hashBytes (lower (keyword 13))) = Inr (aCode ! 13)"
  "kwLoop (keyword 14) (aLen ! 14) (aHash ! hashBytes (lower (keyword 14))) = Inr (aCode ! 14)"
  "kwLoop (keyword 15) (aLen ! 15) (aHash ! hashBytes (lower (keyword 15))) = Inr (aCode ! 15)"
  "kwLoop (keyword 16) (aLen ! 16) (aHash ! hashBytes (lower (keyword 16))) = Inr (aCode ! 16)"
  "kwLoop (keyword 17) (aLen ! 17) (aHash ! hashBytes (lower (keyword 17))) = Inr (aCode ! 17)"
  "kwLoop (keyword 18) (aLen ! 18) (aHash ! hashBytes (lower (keyword 18))) = Inr (aCode ! 18)"
  "kwLoop (keyword 19) (aLen ! 19) (aHash ! hashBytes (lower (keyword 19))) = Inr (aCode ! 19)"
  "kwLoop (keyword 20) (aLen ! 20) (aHash ! hashBytes (lower (keyword 20))) = Inr (aCode ! 20)"
  "kwLoop (keyword 21) (aLen ! 21) (aHash ! hashBytes (lower (keyword 21))) = Inr (aCode ! 21)"
  "kwLoop (keyword 22) (aLen ! 22) (aHash ! hashBytes (lower (keyword 22))) = Inr (aCode ! 22)"
  "kwLoop (keyword 23) (aLen ! 23) (aHash ! hashBytes (lower (keyword 23))) = Inr (aCode ! 23)"
  by (simp_all add: keyword_texts hashBytes_def UpperToLower_eq aHash_def aLen_def aNext_def aCode_def kwLoop_step del: One_nat_def kwLoop.simps(2))

lemma found3:
  "kwLoop (keyword 24) (aLen ! 24) (aHash ! hashBytes (lower (keyword 24))) = Inr (aCode ! 24)"
  "kwLoop (keyword 25) (aLen ! 25) (aHash ! hashBytes (lower (keyword 25))) = Inr (aCode ! 25)"
  "kwLoop (keyword 26) (aLen ! 26) (aHash ! hashBytes (lower (keyword 26))) = Inr (aCode ! 26)"
  "kwLoop (keyword 27) (aLen ! 27) (aHash ! hashBytes (lower (keyword 27))) = Inr (aCode ! 27)"
  "kwLoop (keyword 28) (aLen ! 28) (aHash ! hashBytes (lower (keyword 28))) = Inr (aCode ! 28)"
  "kwLoop (keyword 29) (aLen ! 29) (aHash ! hashBytes (lower (keyword 29))) = Inr (aCode ! 29)"
  "kwLoop (keyword 30) (aLen ! 30) (aHash ! hashBytes (lower (keyword 30))) = Inr (aCode ! 30)"
  "kwLoop (keyword 31) (aLen ! 31) (aHash ! hashBytes (lower (keyword 31))) = Inr (aCode ! 31)"
  "kwLoop (keyword 32) (aLen ! 32) (aHash ! hashBytes (lower (keyword 32))) = Inr (aCode ! 32)"
  "kwLoop (keyword 33) (aLen ! 33) (aHash ! hashBytes (lower (keyword 33))) = Inr (aCode ! 33)"
  "kwLoop (keyword 34) (aLen ! 34) (aHash ! hashBytes (lower (keyword 34))) = Inr (aCode ! 34)"
  "kwLoop (keyword 35) (aLen ! 35) (aHash ! hashBytes (lower (keyword 35))) = Inr (aCode ! 35)"
  by (simp_all add: keyword_texts hashBytes_def UpperToLower_eq aHash_def aLen_def aNext_def aCode_def kwLoop_step del: One_nat_def kwLoop.simps(2))

lemma found4:
  "kwLoop (keyword 36) (aLen ! 36) (aHash ! hashBytes (lower (keyword 36))) = Inr (aCode ! 36)"
  "kwLoop (keyword 37) (aLen ! 37) (aHash ! hashBytes (lower (keyword 37))) = Inr (aCode ! 37)"
  "kwLoop (keyword 38) (aLen ! 38) (aHash ! hashBytes (lower (keyword 38))) = Inr (aCode ! 38)"
  "kwLoop (keyword 39) (aLen ! 39) (aHash ! hashBytes (lower (keyword 39))) = Inr (aCode ! 39)"
  "kwLoop (keyword 40) (aLen ! 40) (aHash ! hashBytes (lower (keyword 40))) = Inr (aCode ! 40)"
  "kwLoop (keyword 41) (aLen ! 41) (aHash ! hashBytes (lower (keyword 41))) = Inr (aCode ! 41)"
  "kwLoop (keyword 42) (aLen ! 42) (aHash ! hashBytes (lower (keyword 42))) = Inr (aCode ! 42)"
  "kwLoop (keyword 43) (aLen ! 43) (aHash ! hashBytes (lower (keyword 43))) = Inr (aCode ! 43)"
  "kwLoop (keyword 44) (aLen ! 44) (aHash ! hashBytes (lower (keyword 44))) = Inr (aCode ! 44)"
  "kwLoop (keyword 45) (aLen ! 45) (aHash ! hashBytes (lower (keyword 45))) = Inr (aCode ! 45)"
  "kwLoop (keyword 46) (aLen ! 46) (aHash ! hashBytes (lower (keyword 46))) = Inr (aCode ! 46)"
  "kwLoop (keyword 47) (aLen ! 47) (aHash ! hashBytes (lower (keyword 47))) = Inr (aCode ! 47)"
  by (simp_all add: keyword_texts hashBytes_def UpperToLower_eq aHash_def aLen_def aNext_def aCode_def kwLoop_step del: One_nat_def kwLoop.simps(2))

lemma found5:
  "kwLoop (keyword 48) (aLen ! 48) (aHash ! hashBytes (lower (keyword 48))) = Inr (aCode ! 48)"
  "kwLoop (keyword 49) (aLen ! 49) (aHash ! hashBytes (lower (keyword 49))) = Inr (aCode ! 49)"
  "kwLoop (keyword 50) (aLen ! 50) (aHash ! hashBytes (lower (keyword 50))) = Inr (aCode ! 50)"
  "kwLoop (keyword 51) (aLen ! 51) (aHash ! hashBytes (lower (keyword 51))) = Inr (aCode ! 51)"
  "kwLoop (keyword 52) (aLen ! 52) (aHash ! hashBytes (lower (keyword 52))) = Inr (aCode ! 52)"
  "kwLoop (keyword 53) (aLen ! 53) (aHash ! hashBytes (lower (keyword 53))) = Inr (aCode ! 53)"
  "kwLoop (keyword 54) (aLen ! 54) (aHash ! hashBytes (lower (keyword 54))) = Inr (aCode ! 54)"
  "kwLoop (keyword 55) (aLen ! 55) (aHash ! hashBytes (lower (keyword 55))) = Inr (aCode ! 55)"
  "kwLoop (keyword 56) (aLen ! 56) (aHash ! hashBytes (lower (keyword 56))) = Inr (aCode ! 56)"
  "kwLoop (keyword 57) (aLen ! 57) (aHash ! hashBytes (lower (keyword 57))) = Inr (aCode ! 57)"
  "kwLoop (keyword 58) (aLen ! 58) (aHash ! hashBytes (lower (keyword 58))) = Inr (aCode ! 58)"
  "kwLoop (keyword 59) (aLen ! 59) (aHash ! hashBytes (lower (keyword 59))) = Inr (aCode ! 59)"
  by (simp_all add: keyword_texts hashBytes_def UpperToLower_eq aHash_def aLen_def aNext_def aCode_def kwLoop_step del: One_nat_def kwLoop.simps(2))

lemma found6:
  "kwLoop (keyword 60) (aLen ! 60) (aHash ! hashBytes (lower (keyword 60))) = Inr (aCode ! 60)"
  "kwLoop (keyword 61) (aLen ! 61) (aHash ! hashBytes (lower (keyword 61))) = Inr (aCode ! 61)"
  "kwLoop (keyword 62) (aLen ! 62) (aHash ! hashBytes (lower (keyword 62))) = Inr (aCode ! 62)"
  "kwLoop (keyword 63) (aLen ! 63) (aHash ! hashBytes (lower (keyword 63))) = Inr (aCode ! 63)"
  "kwLoop (keyword 64) (aLen ! 64) (aHash ! hashBytes (lower (keyword 64))) = Inr (aCode ! 64)"
  "kwLoop (keyword 65) (aLen ! 65) (aHash ! hashBytes (lower (keyword 65))) = Inr (aCode ! 65)"
  "kwLoop (keyword 66) (aLen ! 66) (aHash ! hashBytes (lower (keyword 66))) = Inr (aCode ! 66)"
  "kwLoop (keyword 67) (aLen ! 67) (aHash ! hashBytes (lower (keyword 67))) = Inr (aCode ! 67)"
  "kwLoop (keyword 68) (aLen ! 68) (aHash ! hashBytes (lower (keyword 68))) = Inr (aCode ! 68)"
  "kwLoop (keyword 69) (aLen ! 69) (aHash ! hashBytes (lower (keyword 69))) = Inr (aCode ! 69)"
  "kwLoop (keyword 70) (aLen ! 70) (aHash ! hashBytes (lower (keyword 70))) = Inr (aCode ! 70)"
  "kwLoop (keyword 71) (aLen ! 71) (aHash ! hashBytes (lower (keyword 71))) = Inr (aCode ! 71)"
  by (simp_all add: keyword_texts hashBytes_def UpperToLower_eq aHash_def aLen_def aNext_def aCode_def kwLoop_step del: One_nat_def kwLoop.simps(2))

lemma found7:
  "kwLoop (keyword 72) (aLen ! 72) (aHash ! hashBytes (lower (keyword 72))) = Inr (aCode ! 72)"
  "kwLoop (keyword 73) (aLen ! 73) (aHash ! hashBytes (lower (keyword 73))) = Inr (aCode ! 73)"
  "kwLoop (keyword 74) (aLen ! 74) (aHash ! hashBytes (lower (keyword 74))) = Inr (aCode ! 74)"
  "kwLoop (keyword 75) (aLen ! 75) (aHash ! hashBytes (lower (keyword 75))) = Inr (aCode ! 75)"
  "kwLoop (keyword 76) (aLen ! 76) (aHash ! hashBytes (lower (keyword 76))) = Inr (aCode ! 76)"
  "kwLoop (keyword 77) (aLen ! 77) (aHash ! hashBytes (lower (keyword 77))) = Inr (aCode ! 77)"
  "kwLoop (keyword 78) (aLen ! 78) (aHash ! hashBytes (lower (keyword 78))) = Inr (aCode ! 78)"
  "kwLoop (keyword 79) (aLen ! 79) (aHash ! hashBytes (lower (keyword 79))) = Inr (aCode ! 79)"
  "kwLoop (keyword 80) (aLen ! 80) (aHash ! hashBytes (lower (keyword 80))) = Inr (aCode ! 80)"
  "kwLoop (keyword 81) (aLen ! 81) (aHash ! hashBytes (lower (keyword 81))) = Inr (aCode ! 81)"
  "kwLoop (keyword 82) (aLen ! 82) (aHash ! hashBytes (lower (keyword 82))) = Inr (aCode ! 82)"
  "kwLoop (keyword 83) (aLen ! 83) (aHash ! hashBytes (lower (keyword 83))) = Inr (aCode ! 83)"
  by (simp_all add: keyword_texts hashBytes_def UpperToLower_eq aHash_def aLen_def aNext_def aCode_def kwLoop_step del: One_nat_def kwLoop.simps(2))

lemma found8:
  "kwLoop (keyword 84) (aLen ! 84) (aHash ! hashBytes (lower (keyword 84))) = Inr (aCode ! 84)"
  "kwLoop (keyword 85) (aLen ! 85) (aHash ! hashBytes (lower (keyword 85))) = Inr (aCode ! 85)"
  "kwLoop (keyword 86) (aLen ! 86) (aHash ! hashBytes (lower (keyword 86))) = Inr (aCode ! 86)"
  "kwLoop (keyword 87) (aLen ! 87) (aHash ! hashBytes (lower (keyword 87))) = Inr (aCode ! 87)"
  "kwLoop (keyword 88) (aLen ! 88) (aHash ! hashBytes (lower (keyword 88))) = Inr (aCode ! 88)"
  "kwLoop (keyword 89) (aLen ! 89) (aHash ! hashBytes (lower (keyword 89))) = Inr (aCode ! 89)"
  "kwLoop (keyword 90) (aLen ! 90) (aHash ! hashBytes (lower (keyword 90))) = Inr (aCode ! 90)"
  "kwLoop (keyword 91) (aLen ! 91) (aHash ! hashBytes (lower (keyword 91))) = Inr (aCode ! 91)"
  "kwLoop (keyword 92) (aLen ! 92) (aHash ! hashBytes (lower (keyword 92))) = Inr (aCode ! 92)"
  "kwLoop (keyword 93) (aLen ! 93) (aHash ! hashBytes (lower (keyword 93))) = Inr (aCode ! 93)"
  "kwLoop (keyword 94) (aLen ! 94) (aHash ! hashBytes (lower (keyword 94))) = Inr (aCode ! 94)"
  "kwLoop (keyword 95) (aLen ! 95) (aHash ! hashBytes (lower (keyword 95))) = Inr (aCode ! 95)"
  by (simp_all add: keyword_texts hashBytes_def UpperToLower_eq aHash_def aLen_def aNext_def aCode_def kwLoop_step del: One_nat_def kwLoop.simps(2))

lemma found9:
  "kwLoop (keyword 96) (aLen ! 96) (aHash ! hashBytes (lower (keyword 96))) = Inr (aCode ! 96)"
  "kwLoop (keyword 97) (aLen ! 97) (aHash ! hashBytes (lower (keyword 97))) = Inr (aCode ! 97)"
  "kwLoop (keyword 98) (aLen ! 98) (aHash ! hashBytes (lower (keyword 98))) = Inr (aCode ! 98)"
  "kwLoop (keyword 99) (aLen ! 99) (aHash ! hashBytes (lower (keyword 99))) = Inr (aCode ! 99)"
  "kwLoop (keyword 100) (aLen ! 100) (aHash ! hashBytes (lower (keyword 100))) = Inr (aCode ! 100)"
  "kwLoop (keyword 101) (aLen ! 101) (aHash ! hashBytes (lower (keyword 101))) = Inr (aCode ! 101)"
  "kwLoop (keyword 102) (aLen ! 102) (aHash ! hashBytes (lower (keyword 102))) = Inr (aCode ! 102)"
  "kwLoop (keyword 103) (aLen ! 103) (aHash ! hashBytes (lower (keyword 103))) = Inr (aCode ! 103)"
  "kwLoop (keyword 104) (aLen ! 104) (aHash ! hashBytes (lower (keyword 104))) = Inr (aCode ! 104)"
  "kwLoop (keyword 105) (aLen ! 105) (aHash ! hashBytes (lower (keyword 105))) = Inr (aCode ! 105)"
  "kwLoop (keyword 106) (aLen ! 106) (aHash ! hashBytes (lower (keyword 106))) = Inr (aCode ! 106)"
  "kwLoop (keyword 107) (aLen ! 107) (aHash ! hashBytes (lower (keyword 107))) = Inr (aCode ! 107)"
  by (simp_all add: keyword_texts hashBytes_def UpperToLower_eq aHash_def aLen_def aNext_def aCode_def kwLoop_step del: One_nat_def kwLoop.simps(2))

lemma found10:
  "kwLoop (keyword 108) (aLen ! 108) (aHash ! hashBytes (lower (keyword 108))) = Inr (aCode ! 108)"
  "kwLoop (keyword 109) (aLen ! 109) (aHash ! hashBytes (lower (keyword 109))) = Inr (aCode ! 109)"
  "kwLoop (keyword 110) (aLen ! 110) (aHash ! hashBytes (lower (keyword 110))) = Inr (aCode ! 110)"
  "kwLoop (keyword 111) (aLen ! 111) (aHash ! hashBytes (lower (keyword 111))) = Inr (aCode ! 111)"
  "kwLoop (keyword 112) (aLen ! 112) (aHash ! hashBytes (lower (keyword 112))) = Inr (aCode ! 112)"
  "kwLoop (keyword 113) (aLen ! 113) (aHash ! hashBytes (lower (keyword 113))) = Inr (aCode ! 113)"
  "kwLoop (keyword 114) (aLen ! 114) (aHash ! hashBytes (lower (keyword 114))) = Inr (aCode ! 114)"
  "kwLoop (keyword 115) (aLen ! 115) (aHash ! hashBytes (lower (keyword 115))) = Inr (aCode ! 115)"
  by (simp_all add: keyword_texts hashBytes_def UpperToLower_eq aHash_def aLen_def aNext_def aCode_def kwLoop_step del: One_nat_def kwLoop.simps(2))

lemma upt_116:
  "[0..<116] =
     [0, 1, 2, 3, 4, 5, 6, 7, 8, 9, 10, 11, 12, 13, 14, 15, 16, 17, 18, 19, 20, 21, 22, 23,
      24, 25, 26, 27, 28, 29, 30, 31, 32, 33, 34, 35, 36, 37, 38, 39, 40, 41, 42, 43, 44, 45, 46, 47,
      48, 49, 50, 51, 52, 53, 54, 55, 56, 57, 58, 59, 60, 61, 62, 63, 64, 65, 66, 67, 68, 69, 70, 71,
      72, 73, 74, 75, 76, 77, 78, 79, 80, 81, 82, 83, 84, 85, 86, 87, 88, 89, 90, 91, 92, 93, 94, 95,
      96, 97, 98, 99, 100, 101, 102, 103, 104, 105, 106, 107, 108, 109, 110, 111, 112, 113, 114, 115]"
  by (simp add: upt_rec)

lemma keyword_found: "i < 116 \<Longrightarrow> kwLoop (keyword i) (aLen ! i) (aHash ! hashBytes (lower (keyword i))) = Inr (aCode ! i)"
proof -
  have "\<forall>i \<in> set [0..<116]. kwLoop (keyword i) (aLen ! i) (aHash ! hashBytes (lower (keyword i))) = Inr (aCode ! i)"
    using found1 found2 found3 found4 found5 found6 found7 found8 found9 found10
    unfolding upt_116 list.set by (simp only: ball_simps simp_thms)
  moreover assume "i < 116"
  ultimately show ?thesis by simp
qed

lemma kwLoop_cong:
  "j \<le> 116 \<Longrightarrow> n \<le> length z \<Longrightarrow> n \<le> length z' \<Longrightarrow> lower (take n z) = lower (take n z') \<Longrightarrow> kwLoop z n j = kwLoop z' n j"
proof (induction j rule: less_induct)
  case (less j)
  show ?case
  proof (cases "j = 0")
    case False
    then have "aNext ! (j - 1) \<le> j - 1" using bspec [OF aNext_decreases, of "j - 1"] less.prems(1) by simp
    with False less show ?thesis by (simp add: kwLoop_step)
  qed simp
qed

lemma kwLoop_other:
  "j \<le> 116 \<Longrightarrow> n \<le> length z \<Longrightarrow> \<forall>i < 116. lower (keyword i) \<noteq> lower (take n z) \<Longrightarrow> kwLoop z n j = Inr TK_ID"
proof (induction j rule: less_induct)
  case (less j)
  show ?case
  proof (cases "j = 0")
    case False
    then have "aNext ! (j - 1) \<le> j - 1" using bspec [OF aNext_decreases, of "j - 1"] less.prems(1) by simp
    with False less show ?thesis by (simp add: kwLoop_step)
  qed simp
qed

lemma aHash_bound: "h < length aHash \<Longrightarrow> aHash ! h \<le> 116"
proof -
  have "\<forall>x \<in> set aHash. x \<le> 116" by (simp add: aHash_def)
  then show "h < length aHash \<Longrightarrow> aHash ! h \<le> 116" by simp
qed

text \<open>The search always ends with an answer.\<close>

lemma kwLoop_total: "j \<le> 116 \<Longrightarrow> n \<le> length z \<Longrightarrow> \<exists>c. kwLoop z n j = Inr c"
proof (induction j rule: less_induct)
  case (less j)
  show ?case
  proof (cases "j = 0")
    case False
    then have "aNext ! (j - 1) \<le> j - 1" using bspec [OF aNext_decreases, of "j - 1"] less.prems(1) by simp
    with False less show ?thesis by (simp add: kwLoop_step)
  qed simp
qed

lemma keyword_recognition_total: "n \<le> length z \<Longrightarrow> \<exists>c. keywordCode z n = Inr c"
  using kwLoop_total [OF aHash_bound [OF hashBytes_bound]] keywordCode_lower [of n z]
  by (cases "n < 2") (simp_all add: keywordCode_def)

lemma keyword_code_cases:
  assumes "n \<le> length z"
  shows "\<exists>c. keywordCode z n = Inr c \<and> (\<forall>i < 116. lower (take n z) = lower (keyword i) \<longrightarrow> c = aCode ! i)
    \<and> ((\<forall>i < 116. lower (take n z) \<noteq> lower (keyword i)) \<longrightarrow> c = TK_ID)"
proof (cases "\<exists>i < 116. lower (take n z) = lower (keyword i)")
  case True
  have code: "keywordCode z n = Inr (aCode ! i)" if i: "i < 116" "lower (take n z) = lower (keyword i)" for i
  proof -
    note k = keyword_length [OF i(1)]
    have n: "aLen ! i = n" using arg_cong [OF i(2), of length] k(1) assms by (simp add: lower_def)
    have b: "aHash ! hashBytes (lower (take n z)) \<le> 116" by (rule aHash_bound [OF hashBytes_bound])
    have "keywordCode z n = kwLoop z n (aHash ! hashBytes (lower (take n z)))"
      by (rule keywordCode_lower [OF assms]) (use k(3) n in simp)
    also have "\<dots> = kwLoop (keyword i) n (aHash ! hashBytes (lower (take n z)))"
      by (rule kwLoop_cong [OF b assms]) (use k(1) n i(2) in simp_all)
    also have "\<dots> = Inr (aCode ! i)" using keyword_found [OF i(1)] n i(2) by simp
    finally show ?thesis .
  qed
  from True obtain i where i: "i < 116" "lower (take n z) = lower (keyword i)" by blast
  with code show ?thesis by (metis sum.inject(2))
next
  case False
  then have no: "\<forall>i < 116. lower (keyword i) \<noteq> lower (take n z)" by metis
  show ?thesis
  proof (cases "n < 2")
    case True
    then show ?thesis using False by (auto simp: keywordCode_def)
  next
    case 2: False
    have "keywordCode z n = Inr TK_ID"
      using keywordCode_lower [OF assms] kwLoop_other [OF aHash_bound [OF hashBytes_bound] assms no] 2 by simp
    with False show ?thesis by blast
  qed
qed

text \<open>The keywords of the language with their token codes, spelled out.\<close>

definition sqlKeywords :: "(string \<times> nat) list" where
  "sqlKeywords =
    [(''BEFORE'', TK_BEFORE), (''FOR'', TK_FOR), (''FOREIGN'', TK_FOREIGN), (''IGNORE'', TK_IGNORE),
     (''REGEXP'', TK_LIKE_KW), (''EXPLAIN'', TK_EXPLAIN), (''INSTEAD'', TK_INSTEAD), (''ADD'', TK_ADD),
     (''DESC'', TK_DESC), (''ESCAPE'', TK_ESCAPE), (''EACH'', TK_EACH), (''CHECK'', TK_CHECK),
     (''KEY'', TK_KEY), (''CONSTRAINT'', TK_CONSTRAINT), (''INTERSECT'', TK_INTERSECT), (''TABLE'', TK_TABLE),
     (''LEFT'', TK_JOIN_KW), (''THEN'', TK_THEN), (''END'', TK_END), (''DATABASE'', TK_DATABASE),
     (''AS'', TK_AS), (''SELECT'', TK_SELECT), (''TRANSACTION'', TK_TRANSACTION), (''ON'', TK_ON),
     (''NATURAL'', TK_JOIN_KW), (''ALTER'', TK_ALTER), (''RAISE'', TK_RAISE), (''ELSE'', TK_ELSE),
     (''EXCEPT'', TK_EXCEPT), (''TRIGGER'', TK_TRIGGER), (''REFERENCES'', TK_REFERENCES), (''UNIQUE'', TK_UNIQUE),
     (''QUERY'', TK_QUERY), (''ATTACH'', TK_ATTACH), (''HAVING'', TK_HAVING), (''GROUP'', TK_GROUP),
     (''UPDATE'', TK_UPDATE), (''TEMPORARY'', TK_TEMP), (''TEMP'', TK_TEMP), (''OR'', TK_OR),
     (''BEGIN'', TK_BEGIN), (''INNER'', TK_JOIN_KW), (''REINDEX'', TK_REINDEX), (''INDEX'', TK_INDEX),
     (''EXCLUSIVE'', TK_EXCLUSIVE), (''EXISTS'', TK_EXISTS), (''BETWEEN'', TK_BETWEEN), (''NOTNULL'', TK_NOTNULL),
     (''NOT'', TK_NOT), (''NULL'', TK_NULL), (''LIKE'', TK_LIKE_KW), (''CASCADE'', TK_CASCADE),
     (''ASC'', TK_ASC), (''DEFERRABLE'', TK_DEFERRABLE), (''CASE'', TK_CASE), (''COLLATE'', TK_COLLATE),
     (''CREATE'', TK_CREATE), (''CURRENT_DATE'', TK_CTIME_KW), (''DELETE'', TK_DELETE), (''DETACH'', TK_DETACH),
     (''IMMEDIATE'', TK_IMMEDIATE), (''JOIN'', TK_JOIN), (''INSERT'', TK_INSERT), (''MATCH'', TK_MATCH),
     (''PLAN'', TK_PLAN), (''ANALYZE'', TK_ANALYZE), (''PRAGMA'', TK_PRAGMA), (''ABORT'', TK_ABORT),
     (''VALUES'', TK_VALUES), (''VIRTUAL'', TK_VIRTUAL), (''LIMIT'', TK_LIMIT), (''WHEN'', TK_WHEN),
     (''WHERE'', TK_WHERE), (''RENAME'', TK_RENAME), (''AFTER'', TK_AFTER), (''REPLACE'', TK_REPLACE),
     (''AND'', TK_AND), (''DEFAULT'', TK_DEFAULT), (''AUTOINCREMENT'', TK_AUTOINCR), (''TO'', TK_TO),
     (''IN'', TK_IN), (''CAST'', TK_CAST), (''COLUMN'', TK_COLUMNKW), (''COMMIT'', TK_COMMIT),
     (''CONFLICT'', TK_CONFLICT), (''CROSS'', TK_JOIN_KW), (''CURRENT_TIMESTAMP'', TK_CTIME_KW), (''CURRENT_TIME'', TK_CTIME_KW),
     (''PRIMARY'', TK_PRIMARY), (''DEFERRED'', TK_DEFERRED), (''DISTINCT'', TK_DISTINCT), (''IS'', TK_IS),
     (''DROP'', TK_DROP), (''FAIL'', TK_FAIL), (''FROM'', TK_FROM), (''FULL'', TK_JOIN_KW),
     (''GLOB'', TK_LIKE_KW), (''BY'', TK_BY), (''IF'', TK_IF), (''INTO'', TK_INTO),
     (''OF'', TK_OF), (''OFFSET'', TK_OFFSET), (''SET'', TK_SET), (''ISNULL'', TK_ISNULL),
     (''ORDER'', TK_ORDER), (''RESTRICT'', TK_RESTRICT), (''OUTER'', TK_JOIN_KW), (''RIGHT'', TK_JOIN_KW),
     (''ROLLBACK'', TK_ROLLBACK), (''ROW'', TK_ROW), (''UNION'', TK_UNION), (''USING'', TK_USING),
     (''VACUUM'', TK_VACUUM), (''VIEW'', TK_VIEW), (''INITIALLY'', TK_INITIALLY), (''ALL'', TK_ALL)]"

definition spelled :: "string \<Rightarrow> byte list" where
  "spelled w = map of_char w"

lemma keywords_spelled: "map keyword [0..<116] = map (\<lambda>(w, c). spelled w) sqlKeywords"
proof -
  have "[0..<116] = 0 # 1 # [2..<116]" by (simp add: upt_conv_Cons numeral_2_eq_2)
  then show ?thesis by (simp add: sqlKeywords_def spelled_def keyword_texts del: One_nat_def)
qed

lemma keywords_coded: "aCode = map snd sqlKeywords"
  by (simp add: sqlKeywords_def aCode_def)

lemma sqlKeywords_nth: "length sqlKeywords = 116" "i < 116 \<Longrightarrow> sqlKeywords ! i = (w, c) \<Longrightarrow> keyword i = spelled w \<and> aCode ! i = c"
proof -
  show l: "length sqlKeywords = 116" by (simp add: sqlKeywords_def)
  assume i: "i < 116" "sqlKeywords ! i = (w, c)"
  then have "map keyword [0..<116] ! i = spelled w" unfolding keywords_spelled using l by simp
  with i l show "keyword i = spelled w \<and> aCode ! i = c" by (simp add: keywords_coded)
qed

text \<open>
  C31: keyword recognition is exact. For an identifier of n bytes, in any mixture of cases, the
  lookup in the overlapping keyword text returns what a search through the plain list of the
  116 keywords returns: the code of the keyword it spells, and TK_ID when it spells none.
\<close>

theorem keyword_recognition:
  assumes "n \<le> length z"
  shows "keywordCode z n = Inr (case find (\<lambda>(w, c). lower (take n z) = lower (spelled w)) sqlKeywords of
    Some (w, c) \<Rightarrow> c | None \<Rightarrow> TK_ID)"
proof -
  from keyword_code_cases [OF assms] obtain r where
    r: "keywordCode z n = Inr r" "\<And>i. i < 116 \<Longrightarrow> lower (take n z) = lower (keyword i) \<Longrightarrow> r = aCode ! i"
      "\<forall>i < 116. lower (take n z) \<noteq> lower (keyword i) \<Longrightarrow> r = TK_ID" by blast
  show ?thesis
  proof (cases "find (\<lambda>(w, c). lower (take n z) = lower (spelled w)) sqlKeywords")
    case None
    have "lower (take n z) \<noteq> lower (keyword i)" if "i < 116" for i
      using None that sqlKeywords_nth nth_mem [of i sqlKeywords] by (cases "sqlKeywords ! i") (auto simp: find_None_iff)
    with None r show ?thesis by simp
  next
    case (Some a)
    then obtain i w c where i: "i < 116" "sqlKeywords ! i = (w, c)" "lower (take n z) = lower (spelled w)" "a = (w, c)"
      by (cases a) (auto simp: find_Some_iff sqlKeywords_nth(1))
    with Some r(1,2) sqlKeywords_nth(2) [OF i(1,2)] show ?thesis by auto
  qed
qed

theorem keyword_recognition_witness: "keywordCode [0x53, 0x65, 0x6C, 0x65, 0x43, 0x74, 0x28] 6 = Inr TK_SELECT"
  using keyword_recognition [of 6 "[0x53, 0x65, 0x6C, 0x65, 0x43, 0x74, 0x28]"]
  by (simp add: sqlKeywords_def spelled_def UpperToLower_eq)

end
