(* ===== verification/Tokenize.thy ===== *)
theory Tokenize
  imports Keyword
begin

text \<open>
  The tokenizer of the database library (misc/sqlite/tokenize.c): sqlite3GetToken, which
  splits the next token off SQL text, and sqlite3RunParser, which feeds the tokens to the
  parser. A string is the block from the read pointer on. The parser that is called for each
  token and the routines that make the texts of messages are arguments, as is the schedule
  raised of the calls of sqlite3\_interrupt by other threads; the outcome of the request for the
  parser's memory is the argument ok1. pzErrMsg is None for a NULL pointer and Some of what the
  caller's place for a message holds. A Parse has the part of its connection that the routine
  uses. What the routine frees at its end (locks, tables, triggers, variables) is left out.

  Shown: on a C string every call returns a token of at least one byte inside the text, with
  one exception (an exclamation mark at the very end, whose token is one byte longer than
  the text); the parser loop ends; the parser is fed exactly the tokens that are neither
  space nor comment, closed by a semicolon and the end marker; and the number of errors that
  is returned agrees with the result code. The two ways in which the routine faults are shown as
  well, on every text that leads there.
\<close>

subsection \<open>Character classes\<close>

definition sqlite3IsAsciiIdChar :: "nat list" where
  "sqlite3IsAsciiIdChar =
    [0, 0, 0, 0, 1, 0, 0, 0, 0, 0, 0, 0, 0, 0, 0, 0,
     1, 1, 1, 1, 1, 1, 1, 1, 1, 1, 0, 0, 0, 0, 0, 0,
     0, 1, 1, 1, 1, 1, 1, 1, 1, 1, 1, 1, 1, 1, 1, 1,
     1, 1, 1, 1, 1, 1, 1, 1, 1, 1, 1, 0, 0, 0, 0, 1,
     0, 1, 1, 1, 1, 1, 1, 1, 1, 1, 1, 1, 1, 1, 1, 1,
     1, 1, 1, 1, 1, 1, 1, 1, 1, 1, 1, 0, 0, 0, 0, 0]"

definition IdChar :: "byte \<Rightarrow> bool" where
  "IdChar c \<longleftrightarrow> c AND 0x80 \<noteq> 0 \<or> (0x1f < c \<and> sqlite3IsAsciiIdChar ! unat (c - 0x20) \<noteq> 0)"

definition isxdigitC :: "byte \<Rightarrow> bool" where
  "isxdigitC c \<longleftrightarrow> 0x30 \<le> c \<and> c \<le> 0x39 \<or> 0x41 \<le> c \<and> c \<le> 0x46 \<or> 0x61 \<le> c \<and> c \<le> 0x66"

subsection \<open>The loops\<close>

text \<open>The number of bytes that satisfy P, from an index on: the index of the first that does not.\<close>

fun scan :: "(byte \<Rightarrow> bool) \<Rightarrow> byte list \<Rightarrow> nat \<Rightarrow> nat cres" where
  "scan P [] i = Inl OutOfBounds"
| "scan P (c # z) i = (if P c then scan P z (i + 1) else Inr i)"

definition scanFrom :: "(byte \<Rightarrow> bool) \<Rightarrow> byte list \<Rightarrow> nat \<Rightarrow> nat cres" where
  "scanFrom P z i = scan P (drop i z) i"

fun commentLoop :: "byte \<Rightarrow> byte list \<Rightarrow> nat \<Rightarrow> (byte \<times> nat) cres" where
  "commentLoop c [] i = Inl OutOfBounds"
| "commentLoop c (d # z) i =
     (if c = 0x2a \<and> d = 0x2f then Inr (c, i) else if d = 0 then Inr (0, i) else commentLoop d z (i + 1))"

fun stringLoop :: "byte \<Rightarrow> byte list \<Rightarrow> nat \<Rightarrow> (byte \<times> nat) cres" where
  "stringLoop delim [] i = Inl OutOfBounds"
| "stringLoop delim [c] i = (if c = 0 then Inr (0, i) else Inl OutOfBounds)"
| "stringLoop delim (c # d # z) i =
     (if c = 0 then Inr (0, i)
      else if c = delim then if d = delim then stringLoop delim z (i + 2) else Inr (c, i)
      else stringLoop delim (d # z) (i + 1))"

fun bracketLoop :: "byte list \<Rightarrow> nat \<Rightarrow> (bool \<times> nat) cres" where
  "bracketLoop [] i = Inl OutOfBounds"
| "bracketLoop (c # z) i = (if c = 0x5d then Inr (True, i + 1) else if c = 0 then Inr (False, i) else bracketLoop z (i + 1))"

fun varLoop :: "byte list \<Rightarrow> nat \<Rightarrow> nat \<Rightarrow> (nat \<times> nat \<times> nat) cres" where
  "varLoop [] i n = Inl OutOfBounds"
| "varLoop (c # z) i n =
     (if c = 0 then Inr (i, n, TK_VARIABLE)
      else if IdChar c then varLoop z (i + 1) (n + 1)
      else if c = 0x28 \<and> n > 0 then
        bindR (scan (\<lambda>c. c \<noteq> 0 \<and> \<not> isspaceC c \<and> c \<noteq> 0x29) z (i + 1)) (\<lambda>j. bindR (rd z (j - (i + 1))) (\<lambda>c.
          if c = 0x29 then Inr (j + 1, n, TK_VARIABLE) else Inr (j, n, TK_ILLEGAL)))
      else if c = 0x3a then
        (case z of [] \<Rightarrow> Inl OutOfBounds
         | d # z' \<Rightarrow> if d = 0x3a then varLoop z' (i + 2) n else Inr (i, n, TK_VARIABLE))
      else Inr (i, n, TK_VARIABLE))"

definition numberToken :: "byte list \<Rightarrow> (nat \<times> nat) cres" where
  "numberToken z =
     bindR (scanFrom isdigitC z 0) (\<lambda>i. bindR (rd z i) (\<lambda>c.
     bindR (if c = 0x2e then bindR (scanFrom isdigitC z (i + 1)) (\<lambda>i. Inr (TK_FLOAT, i)) else Inr (TK_INTEGER, i)) (\<lambda>(tk, i).
     bindR (rd z i) (\<lambda>c.
     bindR (if c = 0x65 \<or> c = 0x45
            then bindR (rd z (i + 1)) (\<lambda>d.
              if isdigitC d then Inr True
              else if d = 0x2b \<or> d = 0x2d then bindR (rd z (i + 2)) (\<lambda>e. Inr (isdigitC e)) else Inr False)
            else Inr False) (\<lambda>exponent.
     bindR (if exponent then bindR (scanFrom isdigitC z (i + 2)) (\<lambda>i. Inr (TK_FLOAT, i)) else Inr (tk, i)) (\<lambda>(tk, i).
     bindR (scanFrom IdChar z i) (\<lambda>j. Inr (if i < j then TK_ILLEGAL else tk, j))))))))"

definition variableToken :: "byte list \<Rightarrow> (nat \<times> nat) cres" where
  "variableToken z = bindR (varLoop (drop 1 z) 1 0) (\<lambda>(i, n, tk). Inr (if n = 0 then TK_ILLEGAL else tk, i))"

definition identToken :: "byte list \<Rightarrow> (nat \<times> nat) cres" where
  "identToken z = bindR (rd z 0) (\<lambda>c.
     if \<not> IdChar c then Inr (TK_ILLEGAL, 1)
     else bindR (scanFrom IdChar z 1) (\<lambda>i. bindR (keywordCode z i) (\<lambda>tk. Inr (tk, i))))"

text \<open>A two-byte operator: look at the second byte.\<close>

definition second :: "byte list \<Rightarrow> (byte \<Rightarrow> nat \<times> nat) \<Rightarrow> (nat \<times> nat) cres" where
  "second z f = bindR (rd z 1) (\<lambda>c. Inr (f c))"

definition sqlite3GetToken :: "byte list \<Rightarrow> (nat \<times> nat) cres" where
  "sqlite3GetToken z = bindR (rd z 0) (\<lambda>c.
     if c = 0x20 \<or> c = 0x09 \<or> c = 0x0a \<or> c = 0x0c \<or> c = 0x0d then bindR (scanFrom isspaceC z 1) (\<lambda>i. Inr (TK_SPACE, i))
     else if c = 0x2d then
       bindR (rd z 1) (\<lambda>d. if d = 0x2d then bindR (scanFrom (\<lambda>c. c \<noteq> 0 \<and> c \<noteq> 0x0a) z 2) (\<lambda>i. Inr (TK_COMMENT, i))
                           else Inr (TK_MINUS, 1))
     else if c = 0x28 then Inr (TK_LP, 1)
     else if c = 0x29 then Inr (TK_RP, 1)
     else if c = 0x3b then Inr (TK_SEMI, 1)
     else if c = 0x2b then Inr (TK_PLUS, 1)
     else if c = 0x2a then Inr (TK_STAR, 1)
     else if c = 0x2f then
       bindR (rd z 1) (\<lambda>d. if d \<noteq> 0x2a then Inr (TK_SLASH, 1)
         else bindR (rd z 2) (\<lambda>e. if e = 0 then Inr (TK_SLASH, 1)
           else bindR (commentLoop e (drop 3 z) 3) (\<lambda>(c, i). Inr (TK_COMMENT, if c \<noteq> 0 then i + 1 else i))))
     else if c = 0x25 then Inr (TK_REM, 1)
     else if c = 0x3d then second z (\<lambda>d. (TK_EQ, if d = 0x3d then 2 else 1))
     else if c = 0x3c then
       second z (\<lambda>d. if d = 0x3d then (TK_LE, 2) else if d = 0x3e then (TK_NE, 2) else if d = 0x3c then (TK_LSHIFT, 2) else (TK_LT, 1))
     else if c = 0x3e then
       second z (\<lambda>d. if d = 0x3d then (TK_GE, 2) else if d = 0x3e then (TK_RSHIFT, 2) else (TK_GT, 1))
     else if c = 0x21 then second z (\<lambda>d. if d \<noteq> 0x3d then (TK_ILLEGAL, 2) else (TK_NE, 2))
     else if c = 0x7c then second z (\<lambda>d. if d \<noteq> 0x7c then (TK_BITOR, 1) else (TK_CONCAT, 2))
     else if c = 0x2c then Inr (TK_COMMA, 1)
     else if c = 0x26 then Inr (TK_BITAND, 1)
     else if c = 0x7e then Inr (TK_BITNOT, 1)
     else if c = 0x60 \<or> c = 0x27 \<or> c = 0x22 then
       bindR (stringLoop c (drop 1 z) 1) (\<lambda>(d, i). Inr (if d \<noteq> 0 then (TK_STRING, i + 1) else (TK_ILLEGAL, i)))
     else if c = 0x2e then bindR (rd z 1) (\<lambda>d. if \<not> isdigitC d then Inr (TK_DOT, 1) else numberToken z)
     else if isdigitC c then numberToken z
     else if c = 0x5b then bindR (bracketLoop (drop 1 z) 1) (\<lambda>(closed, i). Inr (if closed then TK_ID else TK_ILLEGAL, i))
     else if c = 0x3f then bindR (scanFrom isdigitC z 1) (\<lambda>i. Inr (TK_VARIABLE, i))
     else if c = 0x23 then bindR (scanFrom isdigitC z 1) (\<lambda>i. if i > 1 then Inr (TK_REGISTER, i) else variableToken z)
     else if c = 0x24 \<or> c = 0x40 \<or> c = 0x3a then variableToken z
     else if c = 0x78 \<or> c = 0x58 then
       bindR (rd z 1) (\<lambda>d. if d = 0x27
         then bindR (scanFrom (\<lambda>c. c \<noteq> 0 \<and> c \<noteq> 0x27) z 2) (\<lambda>i. bindR (rd z i) (\<lambda>e.
           Inr (if (\<forall>x \<in> set (take (i - 2) (drop 2 z)). isxdigitC x) \<and> even i \<and> e \<noteq> 0 then TK_BLOB else TK_ILLEGAL,
                if e \<noteq> 0 then i + 1 else i)))
         else identToken z)
     else identToken z)"

subsection \<open>Feeding the parser\<close>

record 'e Parse =
  ps_rc :: int
  ps_zTail :: nat
  ps_zErrMsg :: "byte list option"
  ps_nErr :: int
  ps_pVdbe :: bool
  ps_mallocFailed :: bool
  ps_activeVdbeCnt :: int
  ps_isInterrupted :: bool
  ps_engine :: 'e

record 'e loop_state =
  ls_i :: nat
  ls_last :: int
  ls_token :: "byte list"
  ls_parse :: "'e Parse"
  ls_nErr :: nat
  ls_msg :: "byte list option option"

abbreviation (input) SQLITE_OK :: int where "SQLITE_OK \<equiv> 0"
abbreviation (input) SQLITE_ERROR :: int where "SQLITE_ERROR \<equiv> 1"
abbreviation (input) SQLITE_NOMEM :: int where "SQLITE_NOMEM \<equiv> 7"
abbreviation (input) SQLITE_INTERRUPT :: int where "SQLITE_INTERRUPT \<equiv> 9"
abbreviation (input) SQLITE_TOOBIG :: int where "SQLITE_TOOBIG \<equiv> 18"
abbreviation (input) SQLITE_DONE :: int where "SQLITE_DONE \<equiv> 101"

text \<open>
  sqlite3SetString of malloc.c puts the concatenation of its texts into a new block, or NULL when
  there is no memory for it; the terminator is not part of the value. pz is None for NULL, which
  is dereferenced when the old text is freed.
\<close>

definition sqlite3SetString :: "bool \<Rightarrow> byte list option option \<Rightarrow> byte list list \<Rightarrow> byte list option option cres" where
  "sqlite3SetString ok1 pz zs = (case pz of None \<Rightarrow> Inl NullDeref
     | Some _ \<Rightarrow> Inr (Some (if ok1 then Some (concat zs) else None)))"

definition interruptText :: "byte list" where
  "interruptText = [0x69, 0x6e, 0x74, 0x65, 0x72, 0x72, 0x75, 0x70, 0x74]"

text \<open>
  What else the routine calls: the parser, sqlite3MPrintf for the message on an illegal token (the
  text, or None for NULL, and whether memory ran out), sqlite3ErrStr for the text of a result code,
  and whether there is memory for the copy of a text.
\<close>

record 'e callees =
  sqlite3Parser :: "nat \<Rightarrow> byte list \<Rightarrow> 'e Parse \<Rightarrow> 'e Parse"
  sqlite3MPrintf :: "byte list \<Rightarrow> byte list option \<times> bool"
  sqlite3ErrStr :: "int \<Rightarrow> byte list"
  copyOk :: "byte list \<Rightarrow> bool"

text \<open>
  One round of the loop: Inl for the end of the loop and Inr for another round. The argument
  raised tells for each offset whether sqlite3\_interrupt was called between the previous test of
  the flag and the one after the token that ends at the offset.
\<close>

definition parseStep :: "'e callees \<Rightarrow> (nat \<Rightarrow> bool) \<Rightarrow> nat \<Rightarrow> byte list \<Rightarrow> 'e loop_state \<Rightarrow> ('e loop_state + 'e loop_state) cres" where
  "parseStep cs raised mxSqlLen zSql ls =
     (if ps_mallocFailed (ls_parse ls) then Inr (Inl ls)
     else bindR (rd zSql (ls_i ls)) (\<lambda>c. if c = 0 then Inr (Inl ls)
     else bindR (sqlite3GetToken (drop (ls_i ls) zSql)) (\<lambda>(tk, n).
       let i = ls_i ls + n; tx = take n (drop (ls_i ls) zSql); P = ls_parse ls; ls = ls\<lparr>ls_i := i, ls_token := tx\<rparr> in
       if i > mxSqlLen then Inr (Inl (ls\<lparr>ls_parse := P\<lparr>ps_rc := SQLITE_TOOBIG\<rparr>\<rparr>))
       else if tk = TK_SPACE \<or> tk = TK_COMMENT then
         let P = P\<lparr>ps_isInterrupted := ps_isInterrupted P \<or> raised i\<rparr> in
         if ps_isInterrupted P then
           bindR (sqlite3SetString (copyOk cs interruptText) (ls_msg ls) [interruptText]) (\<lambda>m.
             Inr (Inl (ls\<lparr>ls_parse := P\<lparr>ps_rc := SQLITE_INTERRUPT\<rparr>, ls_msg := m\<rparr>)))
         else Inr (Inr (ls\<lparr>ls_parse := P\<rparr>))
       else if tk = TK_ILLEGAL then
         let ls = ls\<lparr>ls_nErr := ls_nErr ls + 1\<rparr> in
         (case ls_msg ls of None \<Rightarrow> Inr (Inl ls)
          | Some _ \<Rightarrow> let (m, oom) = sqlite3MPrintf cs tx in
             Inr (Inl (ls\<lparr>ls_msg := Some m, ls_parse := P\<lparr>ps_mallocFailed := ps_mallocFailed P \<or> oom\<rparr>\<rparr>)))
       else
         let P1 = (if tk = TK_SEMI then P\<lparr>ps_zTail := i\<rparr> else P); P2 = sqlite3Parser cs tk tx P1;
             ls = ls\<lparr>ls_parse := P2, ls_last := int tk\<rparr> in
         if ps_rc P2 \<noteq> SQLITE_OK then Inr (Inl ls) else Inr (Inr ls))))"

text \<open>Every token has at least one byte, so fuel for each byte of the text is enough.\<close>

fun parseLoop :: "nat \<Rightarrow> 'e callees \<Rightarrow> (nat \<Rightarrow> bool) \<Rightarrow> nat \<Rightarrow> byte list \<Rightarrow> 'e loop_state \<Rightarrow> 'e loop_state cres option" where
  "parseLoop f cs raised mxSqlLen zSql ls =
     (case parseStep cs raised mxSqlLen zSql ls of
        Inl e \<Rightarrow> Some (Inl e)
      | Inr (Inl ls') \<Rightarrow> Some (Inr ls')
      | Inr (Inr ls') \<Rightarrow> (case f of 0 \<Rightarrow> None | Suc g \<Rightarrow> parseLoop g cs raised mxSqlLen zSql ls'))"

declare parseLoop.simps [simp del]

text \<open>What follows the label abort_parse: the closing calls and the result code.\<close>

definition closeParse :: "'e callees \<Rightarrow> byte list \<Rightarrow> 'e loop_state \<Rightarrow> 'e loop_state cres" where
  "closeParse cs zSql ls = bindR (rd zSql (ls_i ls)) (\<lambda>c.
     Inr (if c = 0 \<and> ls_nErr ls = 0 \<and> ps_rc (ls_parse ls) = SQLITE_OK
          then let P = ls_parse ls;
                   P = (if ls_last ls \<noteq> int TK_SEMI then (sqlite3Parser cs TK_SEMI (ls_token ls) P)\<lparr>ps_zTail := ls_i ls\<rparr> else P) in
               ls\<lparr>ls_parse := sqlite3Parser cs 0 (ls_token ls) P\<rparr>
          else ls))"

definition finishParse :: "'e callees \<Rightarrow> bool \<Rightarrow> 'e loop_state \<Rightarrow> (nat \<times> 'e Parse \<times> byte list option option) cres" where
  "finishParse cs nested ls =
     (let P = ls_parse ls; nErr = ls_nErr ls; msg = ls_msg ls;
          P = (if ps_mallocFailed P then P\<lparr>ps_rc := SQLITE_NOMEM\<rparr> else P) in
      bindR (if ps_rc P \<noteq> SQLITE_OK \<and> ps_rc P \<noteq> SQLITE_DONE \<and> ps_zErrMsg P = None
             then let tx = sqlite3ErrStr cs (ps_rc P) in
               sqlite3SetString (copyOk cs tx) (Some (ps_zErrMsg P)) [tx]
             else Inr (Some (ps_zErrMsg P))) (\<lambda>z.
      let P = P\<lparr>ps_zErrMsg := (case z of None \<Rightarrow> None | Some m \<Rightarrow> m)\<rparr>;
          msg' = (if ps_zErrMsg P \<noteq> None \<and> msg = Some None then Some (ps_zErrMsg P) else msg);
          nErr = (if ps_zErrMsg P \<noteq> None then nErr + 1 else nErr);
          P = P\<lparr>ps_zErrMsg := None\<rparr>;
          P = (if ps_pVdbe P \<and> ps_nErr P > 0 \<and> \<not> nested then P\<lparr>ps_pVdbe := False\<rparr> else P);
          P = (if nErr > 0 \<and> (ps_rc P = SQLITE_OK \<or> ps_rc P = SQLITE_DONE) then P\<lparr>ps_rc := SQLITE_ERROR\<rparr> else P) in
      Inr (nErr, P, msg')))"

text \<open>The assignments at entry; the interrupt flag is cleared when no statement is running.\<close>

definition startParse :: "'e Parse \<Rightarrow> 'e Parse" where
  "startParse P =
     (if ps_activeVdbeCnt P = 0 then P\<lparr>ps_isInterrupted := False\<rparr> else P)\<lparr>ps_rc := SQLITE_OK, ps_zTail := 0\<rparr>"

definition sqlite3RunParser :: "nat \<Rightarrow> bool \<Rightarrow> 'e callees \<Rightarrow> byte list option option \<Rightarrow> (nat \<Rightarrow> bool) \<Rightarrow> nat \<Rightarrow> bool \<Rightarrow> 'e Parse \<Rightarrow> byte list
    \<Rightarrow> (int \<times> 'e Parse \<times> byte list option option) cres option" where
  "sqlite3RunParser f ok1 cs pzErrMsg raised mxSqlLen nested P zSql =
     (let P = startParse P in
      if \<not> ok1 then Some (Inr (SQLITE_NOMEM, P\<lparr>ps_mallocFailed := True\<rparr>, pzErrMsg))
      else (case parseLoop f cs raised mxSqlLen zSql
               \<lparr>ls_i = 0, ls_last = -1, ls_token = [], ls_parse = P, ls_nErr = 0, ls_msg = pzErrMsg\<rparr> of
          None \<Rightarrow> None
        | Some r \<Rightarrow> Some (bindR r (\<lambda>ls. bindR (closeParse cs zSql ls) (\<lambda>ls.
            bindR (finishParse cs nested ls) (\<lambda>(nErr, P, msg). Inr (int nErr, P, msg)))))))"

subsection \<open>Tokens stay inside the text\<close>

lemma class_zero [simp]: "\<not> isspaceC 0" "\<not> isdigitC 0" "\<not> IdChar 0"
  by (simp_all add: isspaceC_def isdigitC_def IdChar_def)

lemma scan_string: "\<not> P 0 \<Longrightarrow> scan P (s @ 0 # t) i = Inr (i + length (takeWhile P s))"
  by (induction s arbitrary: i) simp_all

lemma scanFrom_string:
  "\<not> P 0 \<Longrightarrow> i \<le> length s \<Longrightarrow> scanFrom P (s @ 0 # t) i = Inr (i + length (takeWhile P (drop i s)))"
  by (simp add: scanFrom_def scan_string)

lemma scan_bound: "i \<le> length s \<Longrightarrow> i + length (takeWhile P (drop i s)) \<le> length s"
  using length_takeWhile_le [of P "drop i s"] by simp

lemma rd_string: "i \<le> length s \<Longrightarrow> rd (s @ 0 # t) i = Inr ((s @ [0]) ! i)"
  by (simp add: rd_def nth_append)

lemma nonzero_inside: "(s @ [0]) ! i \<noteq> 0 \<Longrightarrow> i \<le> length s \<Longrightarrow> i < length s"
  by (cases "i = length s") simp_all

definition inside :: "nat \<Rightarrow> nat \<Rightarrow> (nat \<times> nat) cres \<Rightarrow> bool" where
  "inside lo hi r \<longleftrightarrow> (\<exists>tk n. r = Inr (tk, n) \<and> lo \<le> n \<and> n \<le> hi)"

lemma inside_Inr [simp]: "inside lo hi (Inr (tk, n)) \<longleftrightarrow> lo \<le> n \<and> n \<le> hi"
  by (simp add: inside_def)

lemma commentLoop_string:
  "\<exists>d j. commentLoop c (s @ 0 # t) i = Inr (d, j) \<and> i \<le> j \<and> j \<le> i + length s \<and> (d \<noteq> 0 \<longrightarrow> j < i + length s)"
proof (induction s arbitrary: c i)
  case (Cons x s)
  from Cons.IH [of x "i + 1"] show ?case by auto
qed auto

lemma stringLoop_string:
  "delim \<noteq> 0 \<Longrightarrow> 0 \<notin> set s \<Longrightarrow>
     \<exists>d j. stringLoop delim (s @ 0 # t) i = Inr (d, j) \<and> i \<le> j \<and> j \<le> i + length s \<and> (d \<noteq> 0 \<longrightarrow> j < i + length s)"
proof (induction s arbitrary: i rule: induct_list012)
  case 1
  then show ?case by (cases t) simp_all
next
  case (2 x)
  then show ?case by (cases t) auto
next
  case (3 x y s)
  from 3(1) [of "i + 2"] 3(2) [of "i + 1"] 3(3,4) show ?case by (cases "x = delim"; cases "y = delim") auto
qed

lemma bracketLoop_string:
  "0 \<notin> set s \<Longrightarrow> \<exists>b j. bracketLoop (s @ 0 # t) i = Inr (b, j) \<and> i \<le> j \<and> j \<le> i + length s"
proof (induction s arbitrary: i)
  case (Cons x s)
  from Cons.IH [of "i + 1"] Cons.prems show ?case by auto
qed auto

lemma varLoop_string:
  "0 \<notin> set s \<Longrightarrow> \<exists>j m tk. varLoop (s @ 0 # t) i n = Inr (j, m, tk) \<and> i \<le> j \<and> j \<le> i + length s"
proof (induction s arbitrary: i n rule: induct_list012)
  case (2 x)
  show ?case using 2 by (auto simp: scan_string)
next
  case (3 x y s)
  let ?Q = "\<lambda>c. c \<noteq> 0 \<and> \<not> isspaceC c \<and> c \<noteq> 0x29"
  let ?k = "length (takeWhile ?Q (y # s))"
  have sc: "scan ?Q ((y # s) @ 0 # t) (i + 1) = Inr (i + 1 + ?k)" by (rule scan_string) simp
  have k: "?k \<le> length (y # s)" by (rule length_takeWhile_le)
  have r: "rd ((y # s) @ 0 # t) ?k = Inr (((y # s) @ [0]) ! ?k)" by (rule rd_string [OF k])
  have l: "((y # s) @ [0]) ! ?k = 0x29 \<Longrightarrow> ?k < length (y # s)" by (rule nonzero_inside [OF _ k]) simp
  have paren: "\<exists>j m tk. bindR (scan ?Q ((y # s) @ 0 # t) (i + 1)) (\<lambda>j. bindR (rd ((y # s) @ 0 # t) (j - (i + 1))) (\<lambda>c.
          if c = 0x29 then Inr (j + 1, n, TK_VARIABLE) else Inr (j, n, TK_ILLEGAL))) = Inr (j, m, tk)
      \<and> i \<le> j \<and> j \<le> i + length (x # y # s)"
    unfolding sc using r l k by auto
  from 3(2) [of "i + 1" "n + 1"] 3(1) [of "i + 2" n] 3(3) paren show ?case
    by (auto simp del: scan.simps)
qed simp
text \<open>Numbers: digits, a fraction, an exponent, and what follows directly.\<close>

lemma number_tail:
  assumes "i \<le> length s" "lo \<le> i"
  shows "inside lo (length s) (bindR (scanFrom IdChar (s @ 0 # t) i) (\<lambda>j. Inr (if i < j then TK_ILLEGAL else tk, j)))"
  using assms scan_bound [OF assms(1), of IdChar] by (simp add: scanFrom_string inside_def)

lemma number_exponent:
  assumes "i \<le> length s" "lo \<le> i"
  shows "inside lo (length s) (bindR (rd (s @ 0 # t) i) (\<lambda>c.
     bindR (if c = 0x65 \<or> c = 0x45
            then bindR (rd (s @ 0 # t) (i + 1)) (\<lambda>d.
              if isdigitC d then Inr True
              else if d = 0x2b \<or> d = 0x2d then bindR (rd (s @ 0 # t) (i + 2)) (\<lambda>e. Inr (isdigitC e)) else Inr False)
            else Inr False) (\<lambda>exponent.
     bindR (if exponent then bindR (scanFrom isdigitC (s @ 0 # t) (i + 2)) (\<lambda>i. Inr (TK_FLOAT, i)) else Inr (tk, i)) (\<lambda>(tk, i).
     bindR (scanFrom IdChar (s @ 0 # t) i) (\<lambda>j. Inr (if i < j then TK_ILLEGAL else tk, j))))))"
proof -
  let ?c = "(s @ [0]) ! i" and ?d = "(s @ [0]) ! (i + 1)" and ?e = "(s @ [0]) ! (i + 2)"
  have plain: "inside lo (length s) (bindR (scanFrom IdChar (s @ 0 # t) i) (\<lambda>j. Inr (if i < j then TK_ILLEGAL else tk, j)))"
    by (rule number_tail [OF assms])
  show ?thesis
  proof (cases "?c = 0x65 \<or> ?c = 0x45")
    case False
    with plain show ?thesis unfolding rd_string [OF assms(1)] by simp
  next
    case True
    then have c: "i < length s" using nonzero_inside [of s i] assms(1) by auto
    have exp: "inside lo (length s) (bindR (scanFrom isdigitC (s @ 0 # t) (i + 2)) (\<lambda>i.
        bindR (scanFrom IdChar (s @ 0 # t) i) (\<lambda>j. Inr (if i < j then TK_ILLEGAL else TK_FLOAT, j))))" if "i + 2 \<le> length s"
      using that scan_bound [OF that, of isdigitC] number_tail [of "i + 2 + length (takeWhile isdigitC (drop (i + 2) s))" s lo t TK_FLOAT] assms(2)
      by (simp add: scanFrom_string)
    have r: "rd (s @ 0 # t) i = Inr ?c" "rd (s @ 0 # t) (i + 1) = Inr ?d" using rd_string [of i s t] rd_string [of "i + 1" s t] c by simp_all
    have bind: "bindR (bindR m (\<lambda>i. Inr (TK_FLOAT, i))) (\<lambda>(tk, i). g tk i) = bindR m (g TK_FLOAT)" for m and g :: "nat \<Rightarrow> nat \<Rightarrow> (nat \<times> nat) cres"
      by (cases m) simp_all
    show ?thesis
    proof (cases "isdigitC ?d \<or> ?d = 0x2b \<or> ?d = 0x2d")
      case False
      with True plain show ?thesis unfolding r by (simp del: rd_in)
    next
      case d: True
      then have "?d \<noteq> 0" using class_zero(2) by auto
      then have d2: "i + 2 \<le> length s" using nonzero_inside [of s "i + 1"] c by simp
      then have r2: "rd (s @ 0 # t) (i + 2) = Inr ?e" by (rule rd_string)
      show ?thesis unfolding r r2 using True d plain exp [OF d2] by (auto simp: bind simp del: rd_in)
    qed
  qed
qed

lemma number_string:
  assumes "0 < length (takeWhile isdigitC s) \<or> (\<exists>d s'. s = 0x2e # d # s')"
  shows "inside 1 (length s) (numberToken (s @ 0 # t))"
proof -
  let ?i = "length (takeWhile isdigitC s)"
  have i: "?i \<le> length s" by (rule length_takeWhile_le)
  have s: "scanFrom isdigitC (s @ 0 # t) 0 = Inr ?i" by (simp add: scanFrom_string)
  have r: "rd (s @ 0 # t) ?i = Inr ((s @ [0]) ! ?i)" by (rule rd_string [OF i])
  show ?thesis
  proof (cases "(s @ [0]) ! ?i = 0x2e")
    case True
    then have l: "?i + 1 \<le> length s" using nonzero_inside [of s ?i] i by auto
    define j where "j = ?i + 1 + length (takeWhile isdigitC (drop (?i + 1) s))"
    have j: "scanFrom isdigitC (s @ 0 # t) (?i + 1) = Inr j" "j \<le> length s" "1 \<le> j"
      using l scan_bound [OF l, of isdigitC] by (simp_all add: scanFrom_string j_def)
    show ?thesis
      unfolding numberToken_def s bindR_simps r using number_exponent [OF j(2,3), of t TK_FLOAT] True
      by (simp only: if_True j(1) bindR_simps prod.case simp_thms)
  next
    case False
    have "1 \<le> ?i" using assms False by (cases "\<exists>d s'. s = 0x2e # d # s'") (auto simp: isdigitC_def Suc_le_eq)
    from number_exponent [OF i this, of t TK_INTEGER] False show ?thesis
      unfolding numberToken_def s bindR_simps r by (simp only: if_False bindR_simps prod.case r)
  qed
qed
lemma ident_string:
  assumes "s \<noteq> []"
  shows "inside 1 (length s) (identToken (s @ 0 # t))"
proof -
  let ?i = "1 + length (takeWhile IdChar (drop 1 s))"
  have l: "1 \<le> length s" using assms by (cases s) simp_all
  have i: "?i \<le> length s" by (rule scan_bound [OF l])
  have r: "rd (s @ 0 # t) 0 = Inr ((s @ [0]) ! 0)" by (rule rd_string) simp
  have sc: "scanFrom IdChar (s @ 0 # t) 1 = Inr ?i" using l by (simp add: scanFrom_string)
  have "?i \<le> length (s @ 0 # t)" using i by simp
  from keyword_recognition_total [OF this] obtain c where "keywordCode (s @ 0 # t) ?i = Inr c" by blast
  with i l show ?thesis unfolding identToken_def r bindR_simps sc by simp
qed

lemma variable_string:
  assumes "s \<noteq> []" "0 \<notin> set s"
  shows "inside 1 (length s) (variableToken (s @ 0 # t))"
proof -
  obtain c s' where s: "s = c # s'" using assms(1) by (cases s) simp_all
  with assms(2) varLoop_string [of s' t 1 0] show ?thesis by (auto simp: variableToken_def)
qed

lemma second_string:
  assumes "s \<noteq> []" "\<And>d. 1 \<le> snd (f d) \<and> (snd (f d) = 1 \<or> snd (f d) = 2 \<and> d \<noteq> 0)"
  shows "inside 1 (length s) (second (s @ 0 # t) f)"
proof -
  have l: "1 \<le> length s" using assms(1) by (cases s) simp_all
  let ?d = "(s @ [0]) ! 1"
  have "snd (f ?d) \<le> length s" using assms(2) [of ?d] l nonzero_inside [of s 1] by auto
  with assms(2) [of ?d] show ?thesis unfolding second_def rd_string [OF l] by (cases "f ?d") simp
qed

lemma scan_token:
  assumes "\<not> P 0" "i \<le> length s" "1 \<le> i"
  shows "inside 1 (length s) (bindR (scanFrom P (s @ 0 # t) i) (\<lambda>i. Inr (tk, i)))"
  using assms scan_bound [OF assms(2), of P] by (simp add: scanFrom_string)

lemma blob_string:
  assumes "2 \<le> length s"
  shows "inside 1 (length s) (bindR (scanFrom (\<lambda>c. c \<noteq> 0 \<and> c \<noteq> 0x27) (s @ 0 # t) 2) (\<lambda>i. bindR (rd (s @ 0 # t) i) (\<lambda>e.
     Inr (if B i e then TK_BLOB else TK_ILLEGAL, if e \<noteq> 0 then i + 1 else i))))"
proof -
  let ?i = "2 + length (takeWhile (\<lambda>c. c \<noteq> 0 \<and> c \<noteq> 0x27) (drop 2 s))"
  have i: "?i \<le> length s" by (rule scan_bound [OF assms])
  have sc: "scanFrom (\<lambda>c. c \<noteq> 0 \<and> c \<noteq> 0x27) (s @ 0 # t) 2 = Inr ?i" using assms by (simp add: scanFrom_string)
  show ?thesis unfolding sc bindR_simps rd_string [OF i] inside_Inr using i nonzero_inside [of s ?i] by (auto simp: Suc_le_eq)
qed

lemma comment_string:
  assumes "3 \<le> length s"
  shows "inside 1 (length s) (bindR (commentLoop e (drop 3 (s @ 0 # t)) 3) (\<lambda>(c, i). Inr (TK_COMMENT, if c \<noteq> 0 then i + 1 else i)))"
proof -
  have "drop 3 (s @ 0 # t) = drop 3 s @ 0 # t" using assms by simp
  with commentLoop_string [of e "drop 3 s" t 3] assms show ?thesis by auto
qed

lemma quote_string:
  assumes "s \<noteq> []" "0 \<notin> set s" "c \<noteq> 0"
  shows "inside 1 (length s) (bindR (stringLoop c (drop 1 (s @ 0 # t)) 1) (\<lambda>(d, i). Inr (if d \<noteq> 0 then (TK_STRING, i + 1) else (TK_ILLEGAL, i))))"
proof -
  obtain x s' where s: "s = x # s'" using assms(1) by (cases s) simp_all
  with stringLoop_string [of c s' t 1] assms show ?thesis by auto
qed

lemma bracket_string:
  assumes "s \<noteq> []" "0 \<notin> set s"
  shows "inside 1 (length s) (bindR (bracketLoop (drop 1 (s @ 0 # t)) 1) (\<lambda>(closed, i). Inr (if closed then TK_ID else TK_ILLEGAL, i)))"
proof -
  obtain x s' where s: "s = x # s'" using assms(1) by (cases s) simp_all
  with bracketLoop_string [of s' t 1] assms show ?thesis by auto
qed

lemma inside_if: "(P \<Longrightarrow> inside a b X) \<Longrightarrow> (\<not> P \<Longrightarrow> inside a b Y) \<Longrightarrow> inside a b (if P then X else Y)"
  by simp

lemma second_byte:
  assumes "s \<noteq> []"
  shows "1 \<le> length s" "rd (s @ 0 # t) 1 = Inr ((s @ [0]) ! 1)" "(s @ [0]) ! 1 \<noteq> 0 \<Longrightarrow> 2 \<le> length s"
proof -
  show l: "1 \<le> length s" using assms by (cases s) simp_all
  show "rd (s @ 0 # t) 1 = Inr ((s @ [0]) ! 1)" by (rule rd_string [OF l])
  assume "(s @ [0]) ! 1 \<noteq> 0"
  from nonzero_inside [OF this l] show "2 \<le> length s" by simp
qed

lemma minus_string:
  assumes "s \<noteq> []"
  shows "inside 1 (length s) (bindR (rd (s @ 0 # t) 1) (\<lambda>d. if d = 0x2d
    then bindR (scanFrom (\<lambda>c. c \<noteq> 0 \<and> c \<noteq> 0x0a) (s @ 0 # t) 2) (\<lambda>i. Inr (TK_COMMENT, i)) else Inr (TK_MINUS, 1)))"
  using scan_token [of "\<lambda>c. c \<noteq> 0 \<and> c \<noteq> 0x0a" 2 s t TK_COMMENT] second_byte(1,3) [OF assms]
  unfolding second_byte(2) [OF assms] by (simp del: rd_in)

lemma slash_string:
  assumes "s \<noteq> []"
  shows "inside 1 (length s) (bindR (rd (s @ 0 # t) 1) (\<lambda>d. if d \<noteq> 0x2a then Inr (TK_SLASH, 1)
    else bindR (rd (s @ 0 # t) 2) (\<lambda>e. if e = 0 then Inr (TK_SLASH, 1)
      else bindR (commentLoop e (drop 3 (s @ 0 # t)) 3) (\<lambda>(c, i). Inr (TK_COMMENT, if c \<noteq> 0 then i + 1 else i)))))"
proof (cases "(s @ [0]) ! 1 = 0x2a")
  case True
  then have l2: "2 \<le> length s" using second_byte(3) [OF assms] by simp
  have r2: "rd (s @ 0 # t) 2 = Inr ((s @ [0]) ! 2)" by (rule rd_string [OF l2])
  have "3 \<le> length s" if "(s @ [0]) ! 2 \<noteq> 0" using nonzero_inside [OF that l2] by simp
  with comment_string [of s "(s @ [0]) ! 2" t] True second_byte(1) [OF assms] show ?thesis
    unfolding second_byte(2) [OF assms] bindR_simps r2 by (simp del: drop_append)
qed (use second_byte [OF assms] in \<open>simp del: rd_in\<close>)

lemma dot_string:
  assumes "s = 0x2e # s'"
  shows "inside 1 (length s) (bindR (rd (s @ 0 # t) 1) (\<lambda>d. if \<not> isdigitC d then Inr (TK_DOT, 1) else numberToken (s @ 0 # t)))"
proof (cases "isdigitC ((s @ [0]) ! 1)")
  case True
  then have "(s @ [0]) ! 1 \<noteq> 0" using class_zero(2) by auto
  then obtain d s'' where "s = 0x2e # d # s''" using assms second_byte(3) [of s] by (cases s') simp_all
  with number_string [of s t] True second_byte(2) [of s t] show ?thesis by (simp del: rd_in)
qed (use assms second_byte [of s] in \<open>simp del: rd_in\<close>)

lemma register_string:
  assumes "s \<noteq> []" "0 \<notin> set s"
  shows "inside 1 (length s) (bindR (scanFrom isdigitC (s @ 0 # t) 1) (\<lambda>i. if i > 1 then Inr (TK_REGISTER, i) else variableToken (s @ 0 # t)))"
  using variable_string [OF assms, of t] second_byte(1) [OF assms(1)] scan_bound [of 1 s isdigitC] by (simp add: scanFrom_string)

lemma x_string:
  assumes "s \<noteq> []"
  shows "inside 1 (length s) (bindR (rd (s @ 0 # t) 1) (\<lambda>d. if d = 0x27
    then bindR (scanFrom (\<lambda>c. c \<noteq> 0 \<and> c \<noteq> 0x27) (s @ 0 # t) 2) (\<lambda>i. bindR (rd (s @ 0 # t) i) (\<lambda>e.
      Inr (if (\<forall>x \<in> set (take (i - 2) (drop 2 (s @ 0 # t))). isxdigitC x) \<and> even i \<and> e \<noteq> 0 then TK_BLOB else TK_ILLEGAL,
           if e \<noteq> 0 then i + 1 else i))) else identToken (s @ 0 # t)))"
proof (cases "(s @ [0]) ! 1 = 0x27")
  case True
  then have "2 \<le> length s" using second_byte(3) [OF assms] by simp
  then show ?thesis unfolding second_byte(2) [OF assms] bindR_simps True by (simp only: blob_string if_True simp_thms)
next
  case False
  with ident_string [OF assms, of t] show ?thesis unfolding second_byte(2) [OF assms] bindR_simps by (simp only: if_False)
qed

lemma bang_string:
  assumes "s = 0x21 # s'" "s' \<noteq> []"
  shows "inside 1 (length s) (second (s @ 0 # t) (\<lambda>d. if d \<noteq> 0x3d then (TK_ILLEGAL, 2) else (TK_NE, 2)))"
proof -
  have "2 \<le> length s" using assms by (cases s') simp_all
  then show ?thesis using second_byte(2) [of s t] assms(1) by (simp add: second_def del: rd_in)
qed

lemma operator_string:
  assumes "s \<noteq> []"
  shows "inside 1 (length s) (second (s @ 0 # t) (\<lambda>d. (TK_EQ, if d = 0x3d then 2 else 1)))"
    "inside 1 (length s) (second (s @ 0 # t) (\<lambda>d. if d = 0x3d then (TK_LE, 2) else if d = 0x3e then (TK_NE, 2) else if d = 0x3c then (TK_LSHIFT, 2) else (TK_LT, 1)))"
    "inside 1 (length s) (second (s @ 0 # t) (\<lambda>d. if d = 0x3d then (TK_GE, 2) else if d = 0x3e then (TK_RSHIFT, 2) else (TK_GT, 1)))"
    "inside 1 (length s) (second (s @ 0 # t) (\<lambda>d. if d \<noteq> 0x7c then (TK_BITOR, 1) else (TK_CONCAT, 2)))"
  by (rule second_string [OF assms], simp)+

text \<open>The tokens, by their first byte.\<close>

lemma GetToken_string:
  assumes "s \<noteq> []" "0 \<notin> set s" "s \<noteq> [0x21]"
  shows "inside 1 (length s) (sqlite3GetToken (s @ 0 # t))"
proof -
  obtain c s' where s: "s = c # s'" using assms(1) by (cases s) simp_all
  have r0: "rd (s @ 0 # t) 0 = Inr c" using s by simp
  have dot: "c = 0x2e \<Longrightarrow> inside 1 (length s) (bindR (rd (s @ 0 # t) 1) (\<lambda>d. if \<not> isdigitC d then Inr (TK_DOT, 1) else numberToken (s @ 0 # t)))"
    using dot_string [of s s'] s by simp
  have num: "isdigitC c \<Longrightarrow> inside 1 (length s) (numberToken (s @ 0 # t))" using number_string [of s t] s by simp
  have bang: "c = 0x21 \<Longrightarrow> inside 1 (length s) (second (s @ 0 # t) (\<lambda>d. if d \<noteq> 0x3d then (TK_ILLEGAL, 2) else (TK_NE, 2)))"
    using bang_string [of s s'] assms(3) s by simp
  have one: "inside 1 (length s) (Inr (tk, 1))" for tk using second_byte(1) [OF assms(1)] by simp
  have quote: "inside 1 (length s) (bindR (stringLoop c (drop 1 (s @ 0 # t)) 1) (\<lambda>(d, i). Inr (if d \<noteq> 0 then (TK_STRING, i + 1) else (TK_ILLEGAL, i))))"
    by (rule quote_string [OF assms(1,2)]) (use assms(2) s in auto)
  have spaces: "inside 1 (length s) (bindR (scanFrom isspaceC (s @ 0 # t) 1) (\<lambda>i. Inr (tk, i)))"
    and digs: "inside 1 (length s) (bindR (scanFrom isdigitC (s @ 0 # t) 1) (\<lambda>i. Inr (tk, i)))" for tk
    by (rule scan_token, simp, rule second_byte(1) [OF assms(1)], simp)+
  show ?thesis unfolding sqlite3GetToken_def r0 bindR_simps
    by (intro inside_if)
      ((rule dot num bang, assumption) | rule one quote minus_string [OF assms(1)] slash_string [OF assms(1)]
        x_string [OF assms(1)] operator_string [OF assms(1)] register_string [OF assms(1,2)]
        | rule spaces digs
          bracket_string [OF assms(1,2)] variable_string [OF assms(1,2)] ident_string [OF assms(1)])+
qed
lemma bang_token: "sqlite3GetToken (0x21 # 0 # t) = Inr (TK_ILLEGAL, 2)"
  by (simp add: sqlite3GetToken_def second_def)

lemma token_inside_cases:
  assumes "s \<noteq> []" "0 \<notin> set s"
  shows "\<exists>tk n. sqlite3GetToken (s @ 0 # t) = Inr (tk, n) \<and> 1 \<le> n \<and> (n \<le> length s \<or> tk = TK_ILLEGAL)"
proof (cases "s = [0x21]")
  case True
  with bang_token show ?thesis by simp
next
  case False
  from GetToken_string [OF assms False, of t] show ?thesis by (auto simp: inside_def)
qed

text \<open>
  C32: a token is never empty and stays inside the text. On a nonempty C string the tokenizer
  reads no byte behind the terminator and returns a token of at least one byte that ends at
  or before the terminator, except for an exclamation mark that is the last byte: its
  illegal token has two bytes.
\<close>

theorem token_inside:
  assumes "s \<noteq> []" "0 \<notin> set s"
  shows "\<exists>tk n. sqlite3GetToken (s @ 0 # t) = Inr (tk, n) \<and> 1 \<le> n
    \<and> (n \<le> length s \<or> s = [0x21] \<and> tk = TK_ILLEGAL \<and> n = 2)"
proof (cases "s = [0x21]")
  case True
  with bang_token show ?thesis by simp
next
  case False
  from GetToken_string [OF assms False, of t] show ?thesis by (auto simp: inside_def)
qed

theorem token_inside_witness:
  "\<exists>tk n. sqlite3GetToken ([0x3c, 0x3e, 0x20] @ 0 # []) = Inr (tk, n) \<and> 1 \<le> n \<and> n \<le> 3"
  using token_inside [of "[0x3c, 0x3e, 0x20]" "[]"] by auto

subsection \<open>The parser loop\<close>

lemma parseLoop_Inl: "parseStep cs ra mx z ls = Inr (Inl ls') \<Longrightarrow> parseLoop f cs ra mx z ls = Some (Inr ls')"
  by (subst parseLoop.simps) simp

lemma parseLoop_Inr:
  "parseStep cs ra mx z ls = Inr (Inr ls') \<Longrightarrow> parseLoop (Suc f) cs ra mx z ls = parseLoop f cs ra mx z ls'"
  by (subst parseLoop.simps) simp

lemma parseLoop_fault: "parseStep cs ra mx z ls = Inl e \<Longrightarrow> parseLoop f cs ra mx z ls = Some (Inl e)"
  by (subst parseLoop.simps) simp

lemma rest_string: "i < length s \<Longrightarrow> drop i (s @ 0 # t) = drop i s @ 0 # t"
  by simp

lemma string_rd: "i < length s \<Longrightarrow> 0 \<notin> set s \<Longrightarrow> rd (s @ 0 # t) i = Inr (s ! i) \<and> s ! i \<noteq> 0"
  by (metis nth_append nth_mem rd_string less_imp_le)

lemma rest_nonempty: "i < length s \<Longrightarrow> 0 \<notin> set s \<Longrightarrow> drop i s \<noteq> [] \<and> 0 \<notin> set (drop i s)"
  using in_set_dropD by fastforce

text \<open>
  Where an interrupt can come from: a call of sqlite3\_interrupt during the parse, a flag that is
  not cleared at entry because a statement is running, or the parser.
\<close>

definition can_interrupt :: "'e callees \<Rightarrow> (nat \<Rightarrow> bool) \<Rightarrow> 'e Parse \<Rightarrow> bool" where
  "can_interrupt cs raised P \<longleftrightarrow> (\<exists>i. raised i) \<or> ps_isInterrupted P
     \<or> (\<exists>tk tx Q. \<not> ps_isInterrupted Q \<and> ps_isInterrupted (sqlite3Parser cs tk tx Q))"

lemma interrupt_parser:
  "can_interrupt cs ra (sqlite3Parser cs tk tx Q) \<Longrightarrow> ps_isInterrupted Q = ps_isInterrupted P \<Longrightarrow> can_interrupt cs ra P"
  unfolding can_interrupt_def by blast

lemma token_at:
  assumes "0 \<notin> set s" "i < length s"
  obtains tk n where "rd (s @ 0 # t) i = Inr (s ! i)" "s ! i \<noteq> 0" "sqlite3GetToken (drop i (s @ 0 # t)) = Inr (tk, n)" "1 \<le> n"
    "i + n \<le> length s \<or> tk = TK_ILLEGAL \<and> last s = 0x21"
proof -
  have ne: "drop i s \<noteq> []" "0 \<notin> set (drop i s)" using rest_nonempty [OF assms(2,1)] by auto
  have r: "rd (s @ 0 # t) i = Inr (s ! i)" "s ! i \<noteq> 0" using string_rd [OF assms(2,1), of t] by auto
  have d: "drop i (s @ 0 # t) = drop i s @ 0 # t" by (rule rest_string [OF assms(2)])
  show thesis
  proof (cases "drop i s = [0x21]")
    case True
    then have "last s = 0x21" using last_drop [OF assms(2)] by simp
    with that [OF r, of TK_ILLEGAL 2] bang_token [of t] True d show thesis by simp
  next
    case False
    from GetToken_string [OF ne False, of t] obtain tk n where "sqlite3GetToken (drop i s @ 0 # t) = Inr (tk, n)" "1 \<le> n" "n \<le> length (drop i s)"
      by (auto simp: inside_def)
    with that [OF r, of tk n] d assms(2) show thesis by (simp add: le_diff_conv2 add.commute)
  qed
qed

lemma parseStep_cases:
  assumes "0 \<notin> set s" "ls_i ls \<le> length s"
  shows "(\<exists>ls'. parseStep cs ra mx (s @ 0 # t) ls = Inr (Inl ls') \<and> (ls_i ls' \<le> length s \<or> s \<noteq> [] \<and> last s = 0x21))
    \<or> (\<exists>ls'. parseStep cs ra mx (s @ 0 # t) ls = Inr (Inr ls') \<and> ls_i ls < ls_i ls' \<and> ls_i ls' \<le> length s \<and> ls_msg ls' = ls_msg ls
        \<and> (can_interrupt cs ra (ls_parse ls') \<longrightarrow> can_interrupt cs ra (ls_parse ls)))
    \<or> ls_msg ls = None \<and> can_interrupt cs ra (ls_parse ls) \<and> parseStep cs ra mx (s @ 0 # t) ls = Inl NullDeref"
proof (cases "ps_mallocFailed (ls_parse ls) \<or> ls_i ls = length s")
  case True
  then show ?thesis using assms(2) by (auto simp: parseStep_def)
next
  case False
  let ?i = "ls_i ls" and ?P = "ls_parse ls"
  have i: "?i < length s" using False assms(2) by simp
  from token_at [OF assms(1) i, of t] obtain tk n where
    r: "rd (s @ 0 # t) ?i = Inr (s ! ?i)" "s ! ?i \<noteq> 0" and g: "sqlite3GetToken (drop ?i (s @ 0 # t)) = Inr (tk, n)" "1 \<le> n"
    and n: "?i + n \<le> length s \<or> tk = TK_ILLEGAL \<and> last s = 0x21" by blast
  have s: "s \<noteq> []" using i by auto
  show ?thesis
  proof (cases "mx < ?i + n \<or> tk = TK_ILLEGAL")
    case True
    then show ?thesis unfolding parseStep_def r(1) bindR_simps g(1) prod.case Let_def
      using False r(2) n s by (auto split: prod.split option.split)
  next
    case f: False
    show ?thesis
    proof (cases "tk = TK_SPACE \<or> tk = TK_COMMENT")
      case True
      then show ?thesis unfolding parseStep_def r(1) bindR_simps g(1) prod.case Let_def
        using False f r(2) n g(2) by (auto simp: sqlite3SetString_def can_interrupt_def split: option.split)
    next
      case tok: False
      let ?P1 = "if tk = TK_SEMI then ?P\<lparr>ps_zTail := ?i + n\<rparr> else ?P"
      have keep: "can_interrupt cs ra (sqlite3Parser cs tk tx ?P1) \<longrightarrow> can_interrupt cs ra ?P" for tx
        using interrupt_parser [of cs ra tk tx ?P1 ?P] by auto
      from f tok show ?thesis unfolding parseStep_def r(1) bindR_simps g(1) prod.case Let_def
        using False r(2) n g(2) keep by auto
    qed
  qed
qed

lemma parseLoop_cases:
  "0 \<notin> set s \<Longrightarrow> ls_i ls \<le> length s \<Longrightarrow> length s - ls_i ls \<le> f \<Longrightarrow>
     (\<exists>ls'. parseLoop f cs ra mx (s @ 0 # t) ls = Some (Inr ls') \<and> (ls_i ls' \<le> length s \<or> s \<noteq> [] \<and> last s = 0x21))
     \<or> ls_msg ls = None \<and> can_interrupt cs ra (ls_parse ls) \<and> parseLoop f cs ra mx (s @ 0 # t) ls = Some (Inl NullDeref)"
proof (induction f arbitrary: ls)
  case 0
  from parseStep_cases [OF 0(1,2), of cs ra mx t] 0(2,3) show ?case by (auto dest: parseLoop_Inl parseLoop_fault)
next
  case (Suc f)
  from parseStep_cases [OF Suc.prems(1,2), of cs ra mx t]
  consider (stop) ls' where "parseStep cs ra mx (s @ 0 # t) ls = Inr (Inl ls')" "ls_i ls' \<le> length s \<or> s \<noteq> [] \<and> last s = 0x21"
    | (again) ls' where "parseStep cs ra mx (s @ 0 # t) ls = Inr (Inr ls')" "ls_i ls < ls_i ls'" "ls_i ls' \<le> length s" "ls_msg ls' = ls_msg ls"
        "can_interrupt cs ra (ls_parse ls') \<longrightarrow> can_interrupt cs ra (ls_parse ls)"
    | (fault) "ls_msg ls = None" "can_interrupt cs ra (ls_parse ls)" "parseStep cs ra mx (s @ 0 # t) ls = Inl NullDeref" by auto
  then show ?case
  proof cases
    case again
    have "length s - ls_i ls' \<le> f" using again(2,3) Suc.prems(3) by linarith
    from Suc.IH [OF Suc.prems(1) again(3) this] again(4,5) parseLoop_Inr [OF again(1)] show ?thesis by auto
  qed (auto dest: parseLoop_Inl parseLoop_fault)
qed

lemma finish_outcome:
  "\<exists>nErr P msg. finishParse cs nested ls = Inr (nErr, P, msg)
    \<and> (0 < nErr \<longrightarrow> ps_rc P \<noteq> SQLITE_OK \<and> ps_rc P \<noteq> SQLITE_DONE)
    \<and> (ps_rc P \<noteq> SQLITE_OK \<and> ps_rc P \<noteq> SQLITE_DONE \<longrightarrow> 0 < nErr \<or> \<not> copyOk cs (sqlite3ErrStr cs (ps_rc P)))"
  unfolding finishParse_def Let_def by (auto simp: sqlite3SetString_def)

text \<open>
  C33: the outcome of running the parser over a C string, for every parser it may call. If there is
  no memory for the parser, SQLITE\_NOMEM is returned as the number of errors, with the result code
  OK and the memory flag set. Otherwise the routine ends in one of three ways. It returns: if the
  number of errors is positive the result code in the parser state is neither OK nor DONE, and if
  the code is neither, the number is positive unless there was no memory for the text of the code.
  Or it was interrupted, the caller passed no place for a message, and sqlite3SetString
  dereferences NULL. Or the text ends in an exclamation mark and the byte behind the terminator is read.
\<close>

theorem run_parser_outcome:
  assumes "0 \<notin> set s" "length s \<le> f"
  shows "sqlite3RunParser f False cs pz raised mx nested P (s @ 0 # t) = Some (Inr (SQLITE_NOMEM, (startParse P)\<lparr>ps_mallocFailed := True\<rparr>, pz))
    \<and> ((\<exists>nErr P' msg. sqlite3RunParser f True cs pz raised mx nested P (s @ 0 # t) = Some (Inr (nErr, P', msg))
        \<and> (0 < nErr \<longrightarrow> ps_rc P' \<noteq> SQLITE_OK \<and> ps_rc P' \<noteq> SQLITE_DONE)
        \<and> (ps_rc P' \<noteq> SQLITE_OK \<and> ps_rc P' \<noteq> SQLITE_DONE \<longrightarrow> 0 < nErr \<or> \<not> copyOk cs (sqlite3ErrStr cs (ps_rc P'))))
      \<or> pz = None \<and> can_interrupt cs raised (startParse P)
        \<and> sqlite3RunParser f True cs pz raised mx nested P (s @ 0 # t) = Some (Inl NullDeref)
      \<or> s \<noteq> [] \<and> last s = 0x21 \<and> sqlite3RunParser f True cs pz raised mx nested P (s @ 0 # t) = Some (Inl OutOfBounds))"
proof (rule conjI)
  let ?ls = "\<lparr>ls_i = 0, ls_last = -1, ls_token = [], ls_parse = startParse P, ls_nErr = 0, ls_msg = pz\<rparr>"
  let ?run = "sqlite3RunParser f True cs pz raised mx nested P (s @ 0 # t)"
  let ?fin = "\<lambda>nErr P'. (0 < nErr \<longrightarrow> ps_rc P' \<noteq> SQLITE_OK \<and> ps_rc P' \<noteq> SQLITE_DONE)
    \<and> (ps_rc P' \<noteq> SQLITE_OK \<and> ps_rc P' \<noteq> SQLITE_DONE \<longrightarrow> 0 < nErr \<or> \<not> copyOk cs (sqlite3ErrStr cs (ps_rc P')))"
  from parseLoop_cases [OF assms(1), of ?ls f cs raised mx t] assms(2)
  consider (stop) ls where "parseLoop f cs raised mx (s @ 0 # t) ?ls = Some (Inr ls)" "ls_i ls \<le> length s \<or> s \<noteq> [] \<and> last s = 0x21"
    | (fault) "pz = None" "can_interrupt cs raised (startParse P)" "parseLoop f cs raised mx (s @ 0 # t) ?ls = Some (Inl NullDeref)"
    by auto
  then show "(\<exists>nErr P' msg. ?run = Some (Inr (nErr, P', msg)) \<and> ?fin nErr P')
      \<or> pz = None \<and> can_interrupt cs raised (startParse P) \<and> ?run = Some (Inl NullDeref)
      \<or> s \<noteq> [] \<and> last s = 0x21 \<and> ?run = Some (Inl OutOfBounds)"
  proof cases
    case stop
    consider (out) "closeParse cs (s @ 0 # t) ls = Inl OutOfBounds" "\<not> ls_i ls \<le> length s"
      | (inb) ls' where "closeParse cs (s @ 0 # t) ls = Inr ls'"
      by (cases "ls_i ls < length (s @ 0 # t)") (auto simp: closeParse_def rd_def)
    then show ?thesis
    proof cases
      case out
      with stop show ?thesis by (simp add: sqlite3RunParser_def)
    next
      case inb
      obtain nErr P' msg where "finishParse cs nested ls' = Inr (nErr, P', msg)" "?fin (int nErr) P'"
        using finish_outcome [of cs nested ls'] by auto
      with stop(1) inb have "?run = Some (Inr (int nErr, P', msg))" by (simp add: sqlite3RunParser_def)
      with \<open>?fin (int nErr) P'\<close> show ?thesis by blast
    qed
  qed (simp add: sqlite3RunParser_def)
qed (simp add: sqlite3RunParser_def)

text \<open>A parser that records what it is fed.\<close>

definition recorder :: "(nat \<times> byte list) list callees" where
  "recorder = \<lparr>sqlite3Parser = (\<lambda>tk tx P. P\<lparr>ps_engine := ps_engine P @ [(tk, tx)]\<rparr>),
     sqlite3MPrintf = (\<lambda>tx. (Some tx, False)), sqlite3ErrStr = (\<lambda>_. []), copyOk = (\<lambda>_. True)\<rparr>"

definition freshParse :: "(nat \<times> byte list) list Parse" where
  "freshParse = \<lparr>ps_rc = 0, ps_zTail = 0, ps_zErrMsg = None, ps_nErr = 0, ps_pVdbe = False, ps_mallocFailed = False,
     ps_activeVdbeCnt = 0, ps_isInterrupted = False, ps_engine = []\<rparr>"

theorem run_parser_outcome_witness:
  "\<exists>nErr P' msg. sqlite3RunParser 2 True recorder None (\<lambda>_. False) 100 False freshParse ([0x40, 0x20] @ 0 # []) = Some (Inr (nErr, P', msg))
    \<and> (0 < nErr \<longleftrightarrow> ps_rc P' \<noteq> SQLITE_OK \<and> ps_rc P' \<noteq> SQLITE_DONE)"
proof -
  have "\<not> can_interrupt recorder (\<lambda>_. False) (startParse freshParse)"
    by (simp add: can_interrupt_def recorder_def startParse_def freshParse_def)
  with run_parser_outcome [of "[0x40, 0x20]" 2 recorder None "\<lambda>_. False" 100 False freshParse "[]"]
  show ?thesis by (auto simp: recorder_def)
qed

text \<open>The offsets at which the loop starts a token: legal tokens lead from one to the next.\<close>

inductive token_start :: "byte list \<Rightarrow> nat \<Rightarrow> bool" for s where
  first: "token_start s 0"
| following: "token_start s i \<Longrightarrow> i < length s \<Longrightarrow> sqlite3GetToken (drop i s @ [0]) = Inr (tk, n) \<Longrightarrow> tk \<noteq> TK_ILLEGAL \<Longrightarrow>
    token_start s (i + n)"

text \<open>A parser that reports no error and does not run out of memory.\<close>

definition parser_goes_on :: "'e callees \<Rightarrow> bool" where
  "parser_goes_on cs \<longleftrightarrow> (\<forall>tk tx P. ps_rc P = SQLITE_OK \<and> \<not> ps_mallocFailed P \<longrightarrow>
     ps_rc (sqlite3Parser cs tk tx P) = SQLITE_OK \<and> \<not> ps_mallocFailed (sqlite3Parser cs tk tx P))"

definition going :: "'e loop_state \<Rightarrow> bool" where
  "going ls \<longleftrightarrow> ps_rc (ls_parse ls) = SQLITE_OK \<and> \<not> ps_mallocFailed (ls_parse ls)"

text \<open>One legal token: the loop goes on behind it, or it is interrupted.\<close>

lemma parseStep_legal:
  assumes "0 \<notin> set s" "parser_goes_on cs" "going ls" "ls_i ls < length s"
    and g: "sqlite3GetToken (drop (ls_i ls) s @ [0]) = Inr (tk, n)" "tk \<noteq> TK_ILLEGAL" "ls_i ls + n \<le> mx"
  shows "(\<exists>ls'. parseStep cs ra mx (s @ [0]) ls = Inr (Inr ls') \<and> ls_i ls' = ls_i ls + n \<and> going ls' \<and> ls_msg ls' = ls_msg ls
      \<and> (can_interrupt cs ra (ls_parse ls') \<longrightarrow> can_interrupt cs ra (ls_parse ls))
      \<and> \<not> ((tk = TK_SPACE \<or> tk = TK_COMMENT) \<and> ra (ls_i ls + n)))
    \<or> can_interrupt cs ra (ls_parse ls) \<and> (ls_msg ls = None \<longrightarrow> parseStep cs ra mx (s @ [0]) ls = Inl NullDeref)"
proof -
  let ?i = "ls_i ls" and ?P = "ls_parse ls"
  have r: "rd (s @ [0]) ?i = Inr (s ! ?i)" "s ! ?i \<noteq> 0" using string_rd [OF assms(4,1), of "[]"] by auto
  have d: "sqlite3GetToken (drop ?i (s @ [0])) = Inr (tk, n)" using g(1) assms(4) by simp
  show ?thesis
  proof (cases "tk = TK_SPACE \<or> tk = TK_COMMENT")
    case True
    then show ?thesis unfolding parseStep_def r(1) bindR_simps d prod.case Let_def
      using assms(3) r(2) g(2,3) by (auto simp: going_def sqlite3SetString_def can_interrupt_def)
  next
    case False
    let ?P1 = "if tk = TK_SEMI then ?P\<lparr>ps_zTail := ?i + n\<rparr> else ?P"
    let ?P2 = "sqlite3Parser cs tk (take n (drop ?i (s @ [0]))) ?P1"
    have "ps_rc ?P2 = SQLITE_OK \<and> \<not> ps_mallocFailed ?P2"
      using assms(2,3) unfolding parser_goes_on_def going_def by (cases "tk = TK_SEMI") simp_all
    moreover have "can_interrupt cs ra ?P2 \<longrightarrow> can_interrupt cs ra ?P"
      using interrupt_parser [of cs ra tk _ ?P1 ?P] by auto
    ultimately show ?thesis unfolding parseStep_def r(1) bindR_simps d prod.case Let_def
      using False assms(3) r(2) g(2,3) by (auto simp: going_def)
  qed
qed

lemma parse_reach:
  assumes "token_start s i" "0 \<notin> set s" "parser_goes_on cs" "going ls" "ls_i ls = 0" "i \<le> mx"
  shows "(\<exists>k ls'. k \<le> i \<and> i \<le> length s \<and> ls_i ls' = i \<and> going ls' \<and> ls_msg ls' = ls_msg ls
      \<and> (can_interrupt cs ra (ls_parse ls') \<longrightarrow> can_interrupt cs ra (ls_parse ls))
      \<and> (\<forall>f. parseLoop (k + f) cs ra mx (s @ [0]) ls = parseLoop f cs ra mx (s @ [0]) ls'))
    \<or> can_interrupt cs ra (ls_parse ls) \<and> (ls_msg ls = None \<longrightarrow> (\<forall>f \<ge> i. parseLoop f cs ra mx (s @ [0]) ls = Some (Inl NullDeref)))"
  using assms(1,6)
proof (induction rule: token_start.induct)
  case first
  show ?case using assms(4,5) by (intro disjI1 exI [of _ 0] exI [of _ ls]) simp
next
  case (following i tk n)
  have "i \<le> mx" using following.prems by simp
  from token_inside_cases [of "drop i s" "[]"] rest_nonempty [OF following.hyps(2) assms(2)] following.hyps(2-4)
  have n: "1 \<le> n" "i + n \<le> length s" by auto
  from following.IH [OF \<open>i \<le> mx\<close>] show ?case
  proof (elim disjE exE conjE)
    fix k ls'
    assume k: "k \<le> i" "ls_i ls' = i" "going ls'" "ls_msg ls' = ls_msg ls" "can_interrupt cs ra (ls_parse ls') \<longrightarrow> can_interrupt cs ra (ls_parse ls)"
      "\<forall>f. parseLoop (k + f) cs ra mx (s @ [0]) ls = parseLoop f cs ra mx (s @ [0]) ls'"
    from parseStep_legal [OF assms(2,3) k(3), of tk n mx ra] following.hyps(2-4) following.prems k(2)
    consider (more) ls'' where "parseStep cs ra mx (s @ [0]) ls' = Inr (Inr ls'')" "ls_i ls'' = i + n" "going ls''" "ls_msg ls'' = ls_msg ls'"
        "can_interrupt cs ra (ls_parse ls'') \<longrightarrow> can_interrupt cs ra (ls_parse ls')"
      | (intr) "can_interrupt cs ra (ls_parse ls')" "ls_msg ls' = None \<longrightarrow> parseStep cs ra mx (s @ [0]) ls' = Inl NullDeref"
      by auto
    then show ?case
    proof cases
      case more
      have "parseLoop (Suc k + f) cs ra mx (s @ [0]) ls = parseLoop f cs ra mx (s @ [0]) ls''" for f
        using k(6) [rule_format, of "Suc f"] parseLoop_Inr [OF more(1), of f] by simp
      with more k n show ?thesis by (intro disjI1 exI [of _ "Suc k"] exI [of _ ls'']) simp
    next
      case intr
      have "parseLoop f cs ra mx (s @ [0]) ls = Some (Inl NullDeref)" if "ls_msg ls = None" "i + n \<le> f" for f
        using k(6) [rule_format, of "f - k"] k(1,4) that intr(2) parseLoop_fault [of cs ra mx "s @ [0]" ls'] by simp
      with intr(1) k(5) show ?thesis by simp
    qed
  qed auto
qed

text \<open>
  C35: the two faults of the parser loop, for a parser that reports no error. Let the text end in an
  exclamation mark that is a token of its own (after legal tokens, the text before it being within
  the limit and no interrupt coming). Then the routine reads behind the terminator: the token ends
  one byte after it, and the test whether the text is used up looks there. And let a caller pass no
  place for a message, as sqlite3NestedParse does, and be interrupted when white space or a comment
  was read within the limit. Then sqlite3SetString is called with NULL and dereferences it.
\<close>

theorem run_parser_faults:
  assumes "0 \<notin> set s" "length s \<le> f" "parser_goes_on cs" "\<not> ps_mallocFailed P"
  shows "(token_start (s @ [0x21]) (length s) \<and> length s \<le> mx \<and> \<not> can_interrupt cs raised (startParse P) \<longrightarrow>
        sqlite3RunParser f True cs pz raised mx nested P ((s @ [0x21]) @ [0]) = Some (Inl OutOfBounds))
    \<and> (token_start s i \<and> i < length s \<and> sqlite3GetToken (drop i s @ [0]) = Inr (tk, n) \<and> (tk = TK_SPACE \<or> tk = TK_COMMENT)
        \<and> i + n \<le> mx \<and> raised (i + n) \<longrightarrow>
        sqlite3RunParser f True cs None raised mx nested P (s @ [0]) = Some (Inl NullDeref))"
proof (intro conjI impI)
  let ?ls = "\<lambda>pz. \<lparr>ls_i = 0, ls_last = -1, ls_token = [], ls_parse = startParse P, ls_nErr = 0, ls_msg = pz\<rparr>"
  have go: "going (?ls pz)" for pz using assms(4) by (simp add: going_def startParse_def)
  {
    let ?s = "s @ [0x21]"
    assume a: "token_start ?s (length s) \<and> length s \<le> mx \<and> \<not> can_interrupt cs raised (startParse P)"
    have z: "0 \<notin> set ?s" using assms(1) by simp
    from parse_reach [of ?s "length s" cs "?ls pz" mx raised] a z assms(3) go obtain k ls where
      k: "k \<le> length s" "ls_i ls = length s" "going ls" "\<And>f. parseLoop (k + f) cs raised mx (?s @ [0]) (?ls pz) = parseLoop f cs raised mx (?s @ [0]) ls"
      by auto
    have "\<exists>ls'. parseStep cs raised mx (?s @ [0]) ls = Inr (Inl ls') \<and> ls_i ls' = length s + 2"
      using k(2,3) bang_token [of "[]"] by (auto simp: parseStep_def going_def rd_def nth_append Let_def split: option.split prod.split)
    then obtain ls' where l: "parseStep cs raised mx (?s @ [0]) ls = Inr (Inl ls')" "ls_i ls' = length s + 2" by blast
    have "parseLoop f cs raised mx (?s @ [0]) (?ls pz) = Some (Inr ls')"
      using k(4) [of "f - k"] k(1) assms(2) parseLoop_Inl [OF l(1)] by simp
    with l(2) show "sqlite3RunParser f True cs pz raised mx nested P (?s @ [0]) = Some (Inl OutOfBounds)"
      by (simp add: sqlite3RunParser_def closeParse_def rd_def)
  next
    assume a: "token_start s i \<and> i < length s \<and> sqlite3GetToken (drop i s @ [0]) = Inr (tk, n) \<and> (tk = TK_SPACE \<or> tk = TK_COMMENT)
        \<and> i + n \<le> mx \<and> raised (i + n)"
    have "parseLoop f cs raised mx (s @ [0]) (?ls None) = Some (Inl NullDeref)"
    proof -
      from parse_reach [of s i cs "?ls None" mx raised] a assms(1,3) go [of None]
      consider (at) k ls where "k \<le> i" "ls_i ls = i" "going ls" "ls_msg ls = None"
          "\<And>f. parseLoop (k + f) cs raised mx (s @ [0]) (?ls None) = parseLoop f cs raised mx (s @ [0]) ls"
        | (before) "\<And>f. i \<le> f \<Longrightarrow> parseLoop f cs raised mx (s @ [0]) (?ls None) = Some (Inl NullDeref)" by auto
      then show ?thesis
      proof cases
        case at
        have "tk \<noteq> TK_ILLEGAL" using a by auto
        with parseStep_legal [OF assms(1,3) at(3), of tk n mx raised] a at(2,4)
        have "parseStep cs raised mx (s @ [0]) ls = Inl NullDeref" by auto
        from parseLoop_fault [OF this] at(5) [of "f - k"] at(1) a assms(2) show ?thesis by simp
      next
        case before
        with a assms(2) show ?thesis by simp
      qed
    qed
    then show "sqlite3RunParser f True cs None raised mx nested P (s @ [0]) = Some (Inl NullDeref)"
      by (simp add: sqlite3RunParser_def)
  }
qed

theorem run_parser_faults_witness:
  "sqlite3RunParser 2 True recorder (Some None) (\<lambda>_. False) 100 False freshParse (([0x2a, 0x20] @ [0x21]) @ [0]) = Some (Inl OutOfBounds)
    \<and> sqlite3RunParser 2 True recorder None (\<lambda>i. i = 2) 100 True freshParse ([0x2a, 0x20] @ [0]) = Some (Inl NullDeref)"
proof -
  have g: "sqlite3GetToken (0x2a # t) = Inr (TK_STAR, 1)" "sqlite3GetToken [0x20, 0x21, 0] = Inr (TK_SPACE, 1)" "sqlite3GetToken [0x20, 0] = Inr (TK_SPACE, 1)" for t
    by (simp_all add: sqlite3GetToken_def scanFrom_def isspaceC_def)
  have r: "parser_goes_on recorder" "\<not> can_interrupt recorder (\<lambda>_. False) (startParse freshParse)" "\<not> ps_mallocFailed freshParse"
    by (simp_all add: parser_goes_on_def can_interrupt_def recorder_def startParse_def freshParse_def)
  have t1: "token_start ([0x2a, 0x20] @ [0x21]) (0 + 1)" by (rule token_start.following [OF token_start.first, where tk = TK_STAR]) (simp_all add: g)
  have t2: "token_start ([0x2a, 0x20] @ [0x21]) (0 + 1 + 1)" by (rule token_start.following [OF t1, where tk = TK_SPACE]) (simp_all add: g)
  have t3: "token_start [0x2a, 0x20] (0 + 1)" by (rule token_start.following [OF token_start.first, where tk = TK_STAR]) (simp_all add: g)
  show ?thesis
    using run_parser_faults [of "[0x2a, 0x20]" 2 recorder freshParse 100 "\<lambda>_. False" "Some None" False]
      run_parser_faults [of "[0x2a, 0x20]" 2 recorder freshParse 100 "\<lambda>i. i = 2" "Some None" True 1 TK_SPACE 1] r t2 t3 g by simp
qed

text \<open>The tokens of a text, or None when one of them is illegal.\<close>

fun lex :: "nat \<Rightarrow> byte list \<Rightarrow> (nat \<times> byte list) list option" where
  "lex f [] = None"
| "lex f (c # z) =
     (if c = 0 then Some []
      else (case f of 0 \<Rightarrow> None
        | Suc g \<Rightarrow> (case sqlite3GetToken (c # z) of Inl e \<Rightarrow> None
            | Inr (tk, n) \<Rightarrow> if tk = TK_ILLEGAL then None
                else map_option (\<lambda>ts. (tk, take n (c # z)) # ts) (lex g (drop n (c # z))))))"

definition significant :: "nat \<times> byte list \<Rightarrow> bool" where
  "significant t \<longleftrightarrow> fst t \<noteq> TK_SPACE \<and> fst t \<noteq> TK_COMMENT"

lemma significant_pair: "significant (tk, tx) \<longleftrightarrow> tk \<noteq> TK_SPACE \<and> tk \<noteq> TK_COMMENT"
  by (simp add: significant_def)

lemma lex_Cons:
  assumes "lex f (s @ 0 # t) = Some ts" "s \<noteq> []" "0 \<notin> set s"
  shows "\<exists>g tk n us. f = Suc g \<and> sqlite3GetToken (s @ 0 # t) = Inr (tk, n) \<and> tk \<noteq> TK_ILLEGAL \<and> 1 \<le> n \<and> n \<le> length s
    \<and> ts = (tk, take n s) # us \<and> lex g (drop n s @ 0 # t) = Some us"
proof -
  obtain c s' where s: "s = c # s'" using assms(2) by (cases s) simp_all
  then have c: "c \<noteq> 0" using assms(3) by auto
  obtain g where f: "f = Suc g" using assms(1) c s by (cases f) simp_all
  from token_inside_cases [OF assms(2,3), of t] obtain tk n where
    g: "sqlite3GetToken (s @ 0 # t) = Inr (tk, n)" "1 \<le> n" "n \<le> length s \<or> tk = TK_ILLEGAL" by blast
  have tk: "tk \<noteq> TK_ILLEGAL" using assms(1) c s f g(1) by auto
  then obtain us where "lex g (drop n (s @ 0 # t)) = Some us" "ts = (tk, take n (s @ 0 # t)) # us"
    using assms(1) c g(1) unfolding f s by auto
  with f g tk show ?thesis by auto
qed

lemma lex_tiles: "lex f (s @ 0 # t) = Some ts \<Longrightarrow> 0 \<notin> set s \<Longrightarrow> concat (map snd ts) = s"
proof (induction f arbitrary: s ts)
  case 0
  then show ?case by (cases "s = []") (auto dest: lex_Cons)
next
  case (Suc f)
  show ?case
  proof (cases "s = []")
    case False
    from lex_Cons [OF Suc.prems(1) False Suc.prems(2)] obtain tk n us where
      l: "ts = (tk, take n s) # us" "lex f (drop n s @ 0 # t) = Some us" by auto
    have "concat (map snd us) = drop n s" by (rule Suc.IH [OF l(2)]) (use Suc.prems(2) in_set_dropD in fast)
    with l(1) show ?thesis by simp
  qed (use Suc.prems in simp)
qed

definition quiet :: "(nat \<times> byte list) list loop_state \<Rightarrow> bool" where
  "quiet ls \<longleftrightarrow> \<not> ps_mallocFailed (ls_parse ls) \<and> \<not> ps_isInterrupted (ls_parse ls) \<and> ps_rc (ls_parse ls) = 0 \<and> ps_zErrMsg (ls_parse ls) = None \<and> ls_nErr ls = 0"

lemma parseLoop_feed:
  assumes "0 \<notin> set s" "length s \<le> mx" "ls_i ls \<le> length s" "quiet ls" "lex f (drop (ls_i ls) (s @ 0 # t)) = Some ts"
  shows "\<exists>ls'. parseLoop f recorder (\<lambda>_. False) mx (s @ 0 # t) ls = Some (Inr ls') \<and> quiet ls' \<and> ls_i ls' = length s
    \<and> ps_engine (ls_parse ls') = ps_engine (ls_parse ls) @ filter significant ts
    \<and> ls_last ls' = (if filter significant ts = [] then ls_last ls else int (fst (last (filter significant ts))))
    \<and> ls_token ls' = (if ts = [] then ls_token ls else snd (last ts))"
  using assms(3-5)
proof (induction f arbitrary: ls ts)
  case 0
  have "ls_i ls = length s"
  proof (rule ccontr)
    assume "ls_i ls \<noteq> length s"
    then have i: "ls_i ls < length s" using 0(1) by simp
    have "lex 0 (drop (ls_i ls) s @ 0 # t) = Some ts" using 0(3) rest_string [OF i, of t] by simp
    from lex_Cons [OF this] rest_nonempty [OF i assms(1)] show False by blast
  qed
  with 0 show ?case by (subst parseLoop.simps) (simp add: parseStep_def quiet_def)
next
  case (Suc f)
  let ?i = "ls_i ls"
  show ?case
  proof (cases "?i = length s")
    case True
    with Suc.prems show ?thesis by (subst parseLoop.simps) (simp add: parseStep_def quiet_def)
  next
    case False
    then have i: "?i < length s" using Suc.prems(1) by simp
    have ne: "drop ?i s \<noteq> []" "0 \<notin> set (drop ?i s)" using rest_nonempty [OF i assms(1)] by auto
    have "lex (Suc f) (drop ?i s @ 0 # t) = Some ts" using Suc.prems(3) rest_string [OF i, of t] by simp
    from lex_Cons [OF this ne] obtain tk n us where
      l: "sqlite3GetToken (drop ?i s @ 0 # t) = Inr (tk, n)" "tk \<noteq> TK_ILLEGAL" "1 \<le> n" "n \<le> length (drop ?i s)"
        "ts = (tk, take n (drop ?i s)) # us" "lex f (drop n (drop ?i s) @ 0 # t) = Some us" by auto
    have r: "rd (s @ 0 # t) ?i = Inr (s ! ?i)" "s ! ?i \<noteq> 0" using string_rd [OF i assms(1), of t] by auto
    define P where "P = ls_parse ls"
    define ls' where "ls' = (if tk = TK_SPACE \<or> tk = TK_COMMENT then ls\<lparr>ls_i := ?i + n, ls_token := take n (drop ?i s)\<rparr>
      else ls\<lparr>ls_i := ?i + n, ls_token := take n (drop ?i s),
        ls_parse := (if tk = TK_SEMI then P\<lparr>ps_zTail := ?i + n\<rparr> else P)\<lparr>ps_engine := ps_engine P @ [(tk, take n (drop ?i s))]\<rparr>, ls_last := int tk\<rparr>)"
    have q: "quiet ls'" using Suc.prems(2) by (auto simp: quiet_def ls'_def P_def)
    have "parseStep recorder (\<lambda>_. False) mx (s @ 0 # t) ls = Inr (Inr ls')"
      unfolding parseStep_def r(1) bindR_simps rest_string [OF i] l(1) prod.case Let_def
      using Suc.prems(2) r(2) l(2,4) i assms(2) by (auto simp: quiet_def recorder_def ls'_def P_def)
    from parseLoop_Inr [OF this] have s: "parseLoop (Suc f) recorder (\<lambda>_. False) mx (s @ 0 # t) ls =
      parseLoop f recorder (\<lambda>_. False) mx (s @ 0 # t) ls'" .
    have i': "ls_i ls' = ?i + n" by (simp add: ls'_def)
    have "ls_i ls' \<le> length s" "lex f (drop (ls_i ls') (s @ 0 # t)) = Some us"
      using l(4,6) i by (simp_all add: i' add.commute)
    from Suc.IH [OF this(1) q this(2)] obtain ls'' where
      e: "parseLoop f recorder (\<lambda>_. False) mx (s @ 0 # t) ls' = Some (Inr ls'')" "quiet ls''" "ls_i ls'' = length s"
        "ps_engine (ls_parse ls'') = ps_engine (ls_parse ls') @ filter significant us"
        "ls_last ls'' = (if filter significant us = [] then ls_last ls' else int (fst (last (filter significant us))))"
        "ls_token ls'' = (if us = [] then ls_token ls' else snd (last us))" by blast
    with s l(5) show ?thesis by (auto simp: ls'_def significant_pair P_def)
  qed
qed

text \<open>
  C34: what the parser is fed. For SQL text all of whose tokens are legal and whose length is
  within the limit, the texts of the tokens put together are the text; the parser receives
  exactly the tokens that are neither space nor comment, in order, then a semicolon unless
  the last of them was one, then the end marker, and no error is reported.
\<close>

theorem run_parser_feed:
  assumes "0 \<notin> set s" "length s \<le> mx" "lex f (s @ 0 # t) = Some ts"
  defines "sig \<equiv> filter significant ts"
  shows "concat (map snd ts) = s \<and> (\<exists>P' msg tx. sqlite3RunParser f True recorder w (\<lambda>_. False) mx nested freshParse (s @ 0 # t) = Some (Inr (0, P', msg))
    \<and> ps_engine P' = sig @ (if sig \<noteq> [] \<and> fst (last sig) = TK_SEMI then [] else [(TK_SEMI, tx)]) @ [(0, tx)] \<and> ps_rc P' = SQLITE_OK)"
proof
  show "concat (map snd ts) = s" by (rule lex_tiles [OF assms(3,1)])
  let ?ls = "\<lparr>ls_i = 0, ls_last = -1, ls_token = [], ls_parse = startParse freshParse, ls_nErr = 0, ls_msg = w\<rparr>"
  have "quiet ?ls" by (simp add: quiet_def startParse_def freshParse_def)
  from parseLoop_feed [OF assms(1,2) _ this, of f t ts] assms(3) obtain ls where
    l: "parseLoop f recorder (\<lambda>_. False) mx (s @ 0 # t) ?ls = Some (Inr ls)" "quiet ls" "ls_i ls = length s"
      "ps_engine (ls_parse ls) = sig" "ls_last ls = (if sig = [] then - 1 else int (fst (last sig)))"
    by (auto simp: startParse_def freshParse_def sig_def)
  define P where "P = (let P = ls_parse ls;
      P = (if ls_last ls \<noteq> int TK_SEMI then P\<lparr>ps_engine := ps_engine P @ [(TK_SEMI, ls_token ls)], ps_zTail := ls_i ls\<rparr> else P) in
    P\<lparr>ps_engine := ps_engine P @ [(0, ls_token ls)]\<rparr>)"
  have c: "closeParse recorder (s @ 0 # t) ls = Inr (ls\<lparr>ls_parse := P\<rparr>)"
    using l(2,3) by (simp add: closeParse_def quiet_def recorder_def P_def Let_def)
  have q: "\<not> ps_mallocFailed P" "ps_rc P = 0" "ps_zErrMsg P = None" "ls_nErr ls = 0"
    using l(2) by (simp_all add: quiet_def P_def Let_def)
  then obtain P' where f: "finishParse recorder nested (ls\<lparr>ls_parse := P\<rparr>) = Inr (0, P', ls_msg ls)" "ps_engine P' = ps_engine P" "ps_rc P' = 0"
    by (auto simp: finishParse_def Let_def)
  have "sqlite3RunParser f True recorder w (\<lambda>_. False) mx nested freshParse (s @ 0 # t) = Some (Inr (0, P', ls_msg ls))"
    using l(1) c f(1) by (simp add: sqlite3RunParser_def)
  moreover have "ps_engine P = sig @ (if sig \<noteq> [] \<and> fst (last sig) = TK_SEMI then [] else [(TK_SEMI, ls_token ls)]) @ [(0, ls_token ls)]"
    using l(4,5) by (auto simp: P_def Let_def)
  ultimately show "\<exists>P' msg tx. sqlite3RunParser f True recorder w (\<lambda>_. False) mx nested freshParse (s @ 0 # t) = Some (Inr (0, P', msg))
    \<and> ps_engine P' = sig @ (if sig \<noteq> [] \<and> fst (last sig) = TK_SEMI then [] else [(TK_SEMI, tx)]) @ [(0, tx)] \<and> ps_rc P' = SQLITE_OK"
    using f(2,3) by auto
qed

theorem run_parser_feed_witness:
  "\<exists>P' msg tx. sqlite3RunParser 3 True recorder (Some None) (\<lambda>_. False) 9 False freshParse ([0x2a, 0x20, 0x2b] @ 0 # []) = Some (Inr (0, P', msg))
    \<and> ps_engine P' = [(TK_STAR, [0x2a]), (TK_PLUS, [0x2b])] @ [(TK_SEMI, tx)] @ [(0, tx)] \<and> ps_rc P' = SQLITE_OK"
proof -
  have sp: "sqlite3GetToken (0x2a # t) = Inr (TK_STAR, 1)" "sqlite3GetToken (0x2b # t) = Inr (TK_PLUS, 1)"
    "sqlite3GetToken (0x20 # 0x2b # t) = Inr (TK_SPACE, 1)" for t
    by (simp_all add: sqlite3GetToken_def scanFrom_def isspaceC_def)
  have "lex 3 ([0x2a, 0x20, 0x2b] @ 0 # []) = Some [(TK_STAR, [0x2a]), (TK_SPACE, [0x20]), (TK_PLUS, [0x2b])]"
    by (simp add: numeral_3_eq_3 sp)
  from run_parser_feed [OF _ _ this, of 9 "Some None" False] show ?thesis by (simp add: significant_def)
qed

end
