(* ===== verification/Complete.thy ===== *)
theory Complete
  imports Tokenize "HOL-Library.Sublist"
begin

text \<open>
  sqlite3_complete of the database library (misc/sqlite/complete.c), which tells whether SQL
  text ends at the end of a statement: the scanner that classes tokens, with its loops, and
  the table-driven state machine.

  Shown: on every C string the routine returns without leaving the text, and the answer is
  true exactly when the text splits into lexemes whose classes are a sequence of complete
  statements, as a plain splitter describes them: a statement ends at its first semicolon,
  and one that begins like a trigger definition at its first semicolon, END, semicolon.
\<close>

subsection \<open>The scanner and the state machine\<close>

abbreviation (input) tkSEMI :: nat where "tkSEMI \<equiv> 0"
abbreviation (input) tkWS :: nat where "tkWS \<equiv> 1"
abbreviation (input) tkOTHER :: nat where "tkOTHER \<equiv> 2"
abbreviation (input) tkEXPLAIN :: nat where "tkEXPLAIN \<equiv> 3"
abbreviation (input) tkCREATE :: nat where "tkCREATE \<equiv> 4"
abbreviation (input) tkTEMP :: nat where "tkTEMP \<equiv> 5"
abbreviation (input) tkTRIGGER :: nat where "tkTRIGGER \<equiv> 6"
abbreviation (input) tkEND :: nat where "tkEND \<equiv> 7"

definition trans :: "nat list list" where
  "trans =
    [[0, 0, 1, 2, 3, 1, 1, 1],
     [0, 1, 1, 1, 1, 1, 1, 1],
     [0, 2, 1, 1, 3, 1, 1, 1],
     [0, 3, 1, 1, 1, 3, 4, 1],
     [5, 4, 4, 4, 4, 4, 4, 4],
     [5, 5, 4, 4, 4, 4, 4, 6],
     [0, 6, 4, 4, 4, 4, 4, 4]]"

text \<open>The loops: the text from the byte that stops them, None when that is the terminator.\<close>

fun commentEnd :: "byte list \<Rightarrow> byte list option cres" where
  "commentEnd (c # d # z) =
     (if c = 0 then Inr None else if c = 0x2a \<and> d = 0x2f then Inr (Some (c # d # z)) else commentEnd (d # z))"
| "commentEnd [c] = (if c = 0 then Inr None else Inl OutOfBounds)"
| "commentEnd [] = Inl OutOfBounds"

fun upTo :: "byte \<Rightarrow> byte list \<Rightarrow> byte list option cres" where
  "upTo d (c # z) = (if c = 0 then Inr None else if c = d then Inr (Some (c # z)) else upTo d z)"
| "upTo d [] = Inl OutOfBounds"

text \<open>The class of an identifier of nId bytes, by its first byte.\<close>

definition isWord :: "byte list \<Rightarrow> nat \<Rightarrow> string \<Rightarrow> bool cres" where
  "isWord z nId w = (if nId = length w then bindR (sqlite3StrNICmp z (spelled w @ [0]) nId) (\<lambda>c. Inr (c = 0)) else Inr False)"

definition wordToken :: "byte list \<Rightarrow> nat \<Rightarrow> nat cres" where
  "wordToken z nId = bindR (rd z 0) (\<lambda>c.
     if c = 0x63 \<or> c = 0x43 then
       bindR (isWord z nId ''create'') (\<lambda>b. Inr (if b then tkCREATE else tkOTHER))
     else if c = 0x74 \<or> c = 0x54 then
       bindR (isWord z nId ''trigger'') (\<lambda>b. if b then Inr tkTRIGGER else
       bindR (isWord z nId ''temp'') (\<lambda>b. if b then Inr tkTEMP else
       bindR (isWord z nId ''temporary'') (\<lambda>b. Inr (if b then tkTEMP else tkOTHER))))
     else if c = 0x65 \<or> c = 0x45 then
       bindR (isWord z nId ''end'') (\<lambda>b. if b then Inr tkEND else
       bindR (isWord z nId ''explain'') (\<lambda>b. Inr (if b then tkEXPLAIN else tkOTHER)))
     else Inr tkOTHER)"

text \<open>
  One round of the main loop: a return of 0, a return of state==0, or a token with the text
  at which the next round starts.
\<close>

datatype step = ReturnZero | ReturnState | Token nat "byte list"

definition stopAt :: "byte list option cres \<Rightarrow> (byte list \<Rightarrow> step) \<Rightarrow> step \<Rightarrow> step cres" where
  "stopAt r f none = bindR r (\<lambda>p. Inr (case p of None \<Rightarrow> none | Some z \<Rightarrow> f z))"

definition completeStep :: "byte list \<Rightarrow> step cres" where
  "completeStep z = bindR (rd z 0) (\<lambda>c.
     if c = 0x3b then Inr (Token tkSEMI (drop 1 z))
     else if c = 0x20 \<or> c = 0x0d \<or> c = 0x09 \<or> c = 0x0a \<or> c = 0x0c then Inr (Token tkWS (drop 1 z))
     else if c = 0x2f then
       bindR (rd z 1) (\<lambda>d. if d \<noteq> 0x2a then Inr (Token tkOTHER (drop 1 z))
         else stopAt (commentEnd (drop 2 z)) (\<lambda>z. Token tkWS (drop 2 z)) ReturnZero)
     else if c = 0x2d then
       bindR (rd z 1) (\<lambda>d. if d \<noteq> 0x2d then Inr (Token tkOTHER (drop 1 z))
         else stopAt (upTo 0x0a z) (\<lambda>z. Token tkWS (drop 1 z)) ReturnState)
     else if c = 0x5b then stopAt (upTo 0x5d (drop 1 z)) (\<lambda>z. Token tkOTHER (drop 1 z)) ReturnZero
     else if c = 0x60 \<or> c = 0x22 \<or> c = 0x27 then stopAt (upTo c (drop 1 z)) (\<lambda>z. Token tkOTHER (drop 1 z)) ReturnZero
     else if IdChar c then
       bindR (scanFrom IdChar z 1) (\<lambda>nId. bindR (wordToken z nId) (\<lambda>tk. Inr (Token tk (drop nId z))))
     else Inr (Token tkOTHER (drop 1 z)))"

text \<open>Every round takes at least one byte, so that fuel for each byte is enough.\<close>

fun completeLoop :: "nat \<Rightarrow> nat \<Rightarrow> byte list \<Rightarrow> bool cres option" where
  "completeLoop f state z = (case rd z 0 of Inl e \<Rightarrow> Some (Inl e)
     | Inr c \<Rightarrow> if c = 0 then Some (Inr (state = 0))
         else (case completeStep z of Inl e \<Rightarrow> Some (Inl e)
             | Inr ReturnZero \<Rightarrow> Some (Inr False)
             | Inr ReturnState \<Rightarrow> Some (Inr (state = 0))
             | Inr (Token tk z') \<Rightarrow> (case f of 0 \<Rightarrow> None | Suc g \<Rightarrow> completeLoop g (trans ! state ! tk) z')))"

declare completeLoop.simps [simp del]

definition sqlite3_complete :: "nat \<Rightarrow> byte list \<Rightarrow> bool cres option" where
  "sqlite3_complete f zSql = completeLoop f 0 zSql"

subsection \<open>The statements of a token sequence\<close>

text \<open>What follows the first semicolon, and what follows the first semicolon, END, semicolon.\<close>

definition endNormal :: "nat list \<Rightarrow> nat list option" where
  "endNormal ts = (case dropWhile (\<lambda>t. t \<noteq> tkSEMI) ts of [] \<Rightarrow> None | _ # ys \<Rightarrow> Some ys)"

fun endTrigger :: "nat list \<Rightarrow> nat list option" where
  "endTrigger (a # b # c # ts) = (if a = tkSEMI \<and> b = tkEND \<and> c = tkSEMI then Some ts else endTrigger (b # c # ts))"
| "endTrigger _ = None"

text \<open>What follows the head of a trigger definition: [EXPLAIN] CREATE {TEMP} TRIGGER.\<close>

definition afterCreate :: "nat list \<Rightarrow> nat list option" where
  "afterCreate ts = (case dropWhile (\<lambda>t. t = tkTEMP) ts of [] \<Rightarrow> None | t # ys \<Rightarrow> if t = tkTRIGGER then Some ys else None)"

fun triggerBody :: "nat list \<Rightarrow> nat list option" where
  "triggerBody (a # b # ts) =
     (if a = tkCREATE then afterCreate (b # ts) else if a = tkEXPLAIN \<and> b = tkCREATE then afterCreate ts else None)"
| "triggerBody _ = None"

definition statementEnd :: "nat list \<Rightarrow> nat list option" where
  "statementEnd ts = (case triggerBody ts of None \<Rightarrow> endNormal ts | Some ys \<Rightarrow> endTrigger ys)"

lemma endNormal_shorter: "endNormal ts = Some ys \<Longrightarrow> length ys < length ts"
  using length_dropWhile_le [of "\<lambda>t. t \<noteq> tkSEMI" ts] by (auto simp: endNormal_def split: list.splits)

lemma endTrigger_shorter: "endTrigger ts = Some ys \<Longrightarrow> length ys < length ts"
  by (induction ts rule: endTrigger.induct) (auto split: if_splits)

lemma afterCreate_shorter: "afterCreate ts = Some ys \<Longrightarrow> length ys < length ts"
  using length_dropWhile_le [of "\<lambda>t. t = tkTEMP" ts]
  by (auto simp: afterCreate_def split: list.splits if_splits)

lemma triggerBody_shorter: "triggerBody ts = Some ys \<Longrightarrow> length ys < length ts"
  by (induction ts rule: triggerBody.induct) (auto dest: afterCreate_shorter split: if_splits)

lemma statementEnd_shorter: "statementEnd ts = Some ys \<Longrightarrow> length ys < length ts"
  by (auto simp: statementEnd_def split: option.splits
      dest!: endNormal_shorter endTrigger_shorter triggerBody_shorter)

function completeStatements :: "nat list \<Rightarrow> bool" where
  "completeStatements ts = (ts = [] \<or> (case statementEnd ts of None \<Rightarrow> False | Some ys \<Rightarrow> completeStatements ys))"
  by pat_completeness auto
termination by (relation "measure length") (auto dest: statementEnd_shorter)

declare completeStatements.simps [simp del]

subsection \<open>The state machine\<close>

definition machine :: "nat \<Rightarrow> nat list \<Rightarrow> nat" where
  "machine q ts = foldl (\<lambda>q t. trans ! q ! t) q ts"

definition fromOpt :: "nat list option \<Rightarrow> bool" where
  "fromOpt p = (case p of None \<Rightarrow> False | Some ys \<Rightarrow> machine 0 ys = 0)"

lemma machine_simps [simp]: "machine q [] = q" "machine q (t # ts) = machine (trans ! q ! t) ts"
  by (simp_all add: machine_def)

lemma fromOpt_simps [simp]: "fromOpt None = False" "fromOpt (Some ys) \<longleftrightarrow> machine 0 ys = 0"
  by (simp_all add: fromOpt_def)

lemma token_cases: "t < 8 \<Longrightarrow> t \<in> {0, 1, 2, 3, 4, 5, 6, 7 :: nat}"
  by auto

lemma trans_WS: "q < 7 \<Longrightarrow> trans ! q ! tkWS = q"
  using less_Suc_eq [of q] by (auto simp: trans_def numeral_eq_Suc less_Suc_eq)

lemma trans_bound: "q < 7 \<Longrightarrow> t < 8 \<Longrightarrow> trans ! q ! t < 7"
proof -
  assume q: "q < 7" "t < 8"
  have "\<forall>r \<in> set trans. length r = 8 \<and> (\<forall>x \<in> set r. x < 7)" "length trans = 7" by (simp_all add: trans_def)
  with q show ?thesis by (metis nth_mem)
qed

lemma machine_filter: "q < 7 \<Longrightarrow> \<forall>t \<in> set ts. t < 8 \<Longrightarrow> machine q ts = machine q (filter (\<lambda>t. t \<noteq> tkWS) ts)"
  by (induction ts arbitrary: q) (auto simp: trans_WS trans_bound simp del: One_nat_def)

lemma trans_normal: "t < 8 \<Longrightarrow> t \<noteq> tkWS \<Longrightarrow> trans ! 1 ! t = (if t = tkSEMI then 0 else 1)"
  by (drule token_cases) (auto simp: trans_def)

lemma trans_trigger: "t < 8 \<Longrightarrow> t \<noteq> tkWS \<Longrightarrow> trans ! 4 ! t = (if t = tkSEMI then 5 else 4)"
    "t < 8 \<Longrightarrow> t \<noteq> tkWS \<Longrightarrow> trans ! 5 ! t = (if t = tkSEMI then 5 else if t = tkEND then 6 else 4)"
    "t < 8 \<Longrightarrow> t \<noteq> tkWS \<Longrightarrow> trans ! 6 ! t = (if t = tkSEMI then 0 else 4)"
  by (drule token_cases, force simp: trans_def)+

lemma trans_head: "t < 8 \<Longrightarrow> t \<noteq> tkWS \<Longrightarrow> trans ! 0 ! t = (if t = tkSEMI then 0 else if t = tkEXPLAIN then 2 else if t = tkCREATE then 3 else 1)"
    "t < 8 \<Longrightarrow> t \<noteq> tkWS \<Longrightarrow> trans ! 2 ! t = (if t = tkSEMI then 0 else if t = tkCREATE then 3 else 1)"
    "t < 8 \<Longrightarrow> t \<noteq> tkWS \<Longrightarrow> trans ! 3 ! t = (if t = tkSEMI then 0 else if t = tkTEMP then 3 else if t = tkTRIGGER then 4 else 1)"
  by (drule token_cases, force simp: trans_def)+

definition classes :: "nat list \<Rightarrow> bool" where
  "classes ts \<longleftrightarrow> (\<forall>t \<in> set ts. t < 8 \<and> t \<noteq> tkWS)"

lemma classes_simps [simp]: "classes []" "classes (t # ts) \<longleftrightarrow> t < 8 \<and> t \<noteq> tkWS \<and> classes ts"
  by (auto simp: classes_def)

lemma endNormal_simps [simp]: "endNormal [] = None" "endNormal (t # ts) = (if t = tkSEMI then Some ts else endNormal ts)"
  by (simp_all add: endNormal_def)

lemma machine_normal: "classes ts \<Longrightarrow> machine 1 ts = 0 \<longleftrightarrow> fromOpt (endNormal ts)"
  by (induction ts) (simp_all add: trans_normal del: One_nat_def)

lemma endTrigger_skip: "t \<noteq> tkSEMI \<Longrightarrow> endTrigger (t # ts) = endTrigger ts"
  by (cases ts; cases "tl ts") simp_all

lemma endTrigger_SEMI: "t \<noteq> tkEND \<Longrightarrow> endTrigger (tkSEMI # t # ts) = endTrigger (t # ts)"
  by (cases ts) simp_all

lemma endTrigger_END: "t \<noteq> tkSEMI \<Longrightarrow> endTrigger (tkSEMI # tkEND # t # ts) = endTrigger ts"
  by (simp add: endTrigger_skip)

lemma machine_trigger:
  "classes ts \<Longrightarrow> (machine 4 ts = 0 \<longleftrightarrow> fromOpt (endTrigger ts)) \<and> (machine 5 ts = 0 \<longleftrightarrow> fromOpt (endTrigger (tkSEMI # ts)))
    \<and> (machine 6 ts = 0 \<longleftrightarrow> fromOpt (endTrigger (tkSEMI # tkEND # ts)))"
proof (induction ts)
  case (Cons t ts)
  then show ?case
    by (cases "t = tkSEMI"; cases "t = tkEND")
      (simp_all add: trans_trigger endTrigger_skip endTrigger_SEMI endTrigger_END del: endTrigger.simps(1), simp_all)
qed simp

lemma afterCreate_simps [simp]: "afterCreate [] = None"
  "afterCreate (t # ts) = (if t = tkTEMP then afterCreate ts else if t = tkTRIGGER then Some ts else None)"
  by (simp_all add: afterCreate_def)

lemma machine_create:
  "classes ts \<Longrightarrow> machine 3 ts = 0 \<longleftrightarrow> fromOpt (case afterCreate ts of None \<Rightarrow> endNormal ts | Some ys \<Rightarrow> endTrigger ys)"
proof (induction ts)
  case (Cons t ts)
  then show ?case using machine_trigger [of ts] machine_normal [of ts]
    by (cases "t = tkTEMP"; cases "t = tkTRIGGER") (simp_all add: trans_head split: option.splits)
qed simp

lemma machine_statement: "classes (t # ts) \<Longrightarrow> machine 0 (t # ts) = 0 \<longleftrightarrow> fromOpt (statementEnd (t # ts))"
  using machine_normal [of ts] machine_create [of ts] machine_create [of "tl ts"] machine_normal [of "tl ts"]
  by (cases ts) (auto simp: trans_head statementEnd_def split: option.splits if_splits)

lemma classes_endNormal: "classes ts \<Longrightarrow> endNormal ts = Some ys \<Longrightarrow> classes ys"
  by (induction ts) (auto split: if_splits)

lemma classes_endTrigger: "classes ts \<Longrightarrow> endTrigger ts = Some ys \<Longrightarrow> classes ys"
  by (induction ts rule: endTrigger.induct) (auto split: if_splits)

lemma classes_afterCreate: "classes ts \<Longrightarrow> afterCreate ts = Some ys \<Longrightarrow> classes ys"
  by (induction ts) (auto split: if_splits)

lemma classes_triggerBody: "classes ts \<Longrightarrow> triggerBody ts = Some ys \<Longrightarrow> classes ys"
  by (induction ts rule: triggerBody.induct) (auto dest: classes_afterCreate split: if_splits)

lemma classes_rest: "classes ts \<Longrightarrow> statementEnd ts = Some ys \<Longrightarrow> classes ys"
  by (auto simp: statementEnd_def split: option.splits intro: classes_endNormal classes_endTrigger classes_triggerBody)

lemma machine_complete: "classes ts \<Longrightarrow> machine 0 ts = 0 \<longleftrightarrow> completeStatements ts"
proof (induction ts rule: completeStatements.induct)
  case (1 ts)
  show ?case
  proof (cases ts)
    case (Cons t us)
    with machine_statement [of t us] 1(2) have m: "machine 0 ts = 0 \<longleftrightarrow> fromOpt (statementEnd ts)" by simp
    show ?thesis
    proof (cases "statementEnd ts")
      case (Some ys)
      with 1 Cons m classes_rest show ?thesis by (subst completeStatements.simps) simp
    qed (use m Cons in \<open>subst completeStatements.simps, simp\<close>)
  qed (simp add: completeStatements.simps)
qed
subsection \<open>Lexemes\<close>

definition wordClass :: "byte list \<Rightarrow> nat" where
  "wordClass w =
     (if lower w = spelled ''create'' then tkCREATE
      else if lower w = spelled ''trigger'' then tkTRIGGER
      else if lower w = spelled ''temp'' \<or> lower w = spelled ''temporary'' then tkTEMP
      else if lower w = spelled ''end'' then tkEND
      else if lower w = spelled ''explain'' then tkEXPLAIN
      else tkOTHER)"

text \<open>
  The lexemes of the routine: the lexeme, the text behind it and the class. No text of a
  comment contains its end, no quoted text its quote, a word takes every byte it can, and a
  comment to the end of the line may end with the text.
\<close>

inductive lexeme :: "byte list \<Rightarrow> byte list \<Rightarrow> nat \<Rightarrow> bool" where
  semi: "lexeme [0x3b] r tkSEMI"
| space: "c \<in> {0x20, 0x0d, 0x09, 0x0a, 0x0c} \<Longrightarrow> lexeme [c] r tkWS"
| comment: "\<not> sublist [0x2a, 0x2f] b \<Longrightarrow> lexeme ([0x2f, 0x2a] @ b @ [0x2a, 0x2f]) r tkWS"
| line: "0x0a \<notin> set b \<Longrightarrow> lexeme ([0x2d, 0x2d] @ b @ [0x0a]) r tkWS"
| lastLine: "0x0a \<notin> set b \<Longrightarrow> lexeme ([0x2d, 0x2d] @ b) [] tkWS"
| bracket: "0x5d \<notin> set b \<Longrightarrow> lexeme ([0x5b] @ b @ [0x5d]) r tkOTHER"
| quoted: "q \<in> {0x60, 0x22, 0x27} \<Longrightarrow> q \<notin> set b \<Longrightarrow> lexeme ([q] @ b @ [q]) r tkOTHER"
| word: "w \<noteq> [] \<Longrightarrow> list_all IdChar w \<Longrightarrow> r = [] \<or> \<not> IdChar (hd r) \<Longrightarrow> lexeme w r (wordClass w)"
| slash: "r = [] \<or> hd r \<noteq> 0x2a \<Longrightarrow> lexeme [0x2f] r tkOTHER"
| dash: "r = [] \<or> hd r \<noteq> 0x2d \<Longrightarrow> lexeme [0x2d] r tkOTHER"
| symbol: "\<not> IdChar c \<Longrightarrow> c \<notin> {0x3b, 0x20, 0x0d, 0x09, 0x0a, 0x0c, 0x2f, 0x2d, 0x5b, 0x60, 0x22, 0x27} \<Longrightarrow> lexeme [c] r tkOTHER"

inductive lexes :: "byte list \<Rightarrow> nat list \<Rightarrow> bool" where
  none: "lexes [] []"
| more: "lexeme s r tk \<Longrightarrow> lexes r ts \<Longrightarrow> lexes (s @ r) (tk # ts)"

text \<open>The loops on a string.\<close>

lemma upTo_stop: "0 \<notin> set b \<Longrightarrow> d \<notin> set b \<Longrightarrow> d \<noteq> 0 \<Longrightarrow> upTo d (b @ d # z) = Inr (Some (d # z))"
  by (induction b) auto

lemma upTo_none: "0 \<notin> set b \<Longrightarrow> d \<notin> set b \<Longrightarrow> upTo d (b @ 0 # z) = Inr None"
  by (induction b) auto

lemma commentEnd_Cons:
  "c \<noteq> 0 \<Longrightarrow> \<not> (c = 0x2a \<and> z \<noteq> [] \<and> hd z = 0x2f) \<Longrightarrow> z \<noteq> [] \<Longrightarrow> commentEnd (c # z) = commentEnd z"
  by (cases z) auto

lemma commentEnd_stop:
  "0 \<notin> set b \<Longrightarrow> \<not> sublist [0x2a, 0x2f] b \<Longrightarrow> commentEnd (b @ [0x2a, 0x2f] @ z) = Inr (Some ([0x2a, 0x2f] @ z))"
proof (induction b)
  case (Cons c b)
  have "\<not> (c = 0x2a \<and> hd (b @ [0x2a, 0x2f] @ z) = 0x2f)"
    using Cons.prems(2) by (cases b) (auto simp: sublist_Cons_right)
  with Cons show ?case by (simp add: commentEnd_Cons sublist_Cons_right)
qed simp

lemma commentEnd_none: "0 \<notin> set b \<Longrightarrow> \<not> sublist [0x2a, 0x2f] b \<Longrightarrow> commentEnd (b @ 0 # z) = Inr None"
proof (induction b)
  case Nil
  show ?case by (cases z) simp_all
next
  case (Cons c b)
  have "\<not> (c = 0x2a \<and> hd (b @ 0 # z) = 0x2f)"
    using Cons.prems(2) by (cases b) (auto simp: sublist_Cons_right)
  with Cons show ?case by (simp add: commentEnd_Cons sublist_Cons_right)
qed

lemma first_comment_end: "sublist [0x2a, 0x2f] s \<Longrightarrow> \<exists>b z. s = b @ [0x2a, 0x2f] @ z \<and> \<not> sublist [0x2a, 0x2f :: byte] b"
proof (induction s)
  case (Cons c s)
  show ?case
  proof (cases "prefix [0x2a, 0x2f] (c # s)")
    case True
    then obtain z where "c # s = [] @ [0x2a, 0x2f] @ z" by (auto simp: prefix_def)
    then show ?thesis by fastforce
  next
    case False
    with Cons obtain b z where b: "s = b @ [0x2a, 0x2f] @ z" "\<not> sublist [0x2a, 0x2f] b" by (auto simp: sublist_Cons_right)
    with False have "\<not> sublist [0x2a, 0x2f] (c # b)" by (cases b) (auto simp: sublist_Cons_right)
    with b show ?thesis by (metis append_Cons)
  qed
qed simp

lemma isWord_spec:
  assumes "n \<le> length z" "0 \<notin> set (take n z)" "lower (spelled w) = spelled w"
  shows "isWord z n w = Inr (lower (take n z) = spelled w)"
proof (cases "n = length w")
  case True
  have "0 \<notin> set (take (n - 1) z)" using assms(2) by (meson diff_le_self in_mono set_take_subset_set_take)
  from StrNICmp_key [OF assms(1) _ this, of "spelled w @ [0]"] True assms(3) show ?thesis
    by (auto simp: isWord_def spelled_def)
next
  case False
  then have "lower (take n z) \<noteq> spelled w" using assms(1) by (auto simp: spelled_def lower_def dest: arg_cong [of _ _ length])
  with False show ?thesis by (simp add: isWord_def)
qed

lemma lower_literals [simp]: "lower (spelled ''create'') = spelled ''create''" "lower (spelled ''trigger'') = spelled ''trigger''"
  "lower (spelled ''temp'') = spelled ''temp''" "lower (spelled ''temporary'') = spelled ''temporary''"
  "lower (spelled ''end'') = spelled ''end''" "lower (spelled ''explain'') = spelled ''explain''"
  by (simp_all add: spelled_def UpperToLower_eq)

lemma UpperToLower_letters: "UpperToLower c = 0x63 \<longleftrightarrow> c = 0x63 \<or> c = 0x43" "UpperToLower c = 0x74 \<longleftrightarrow> c = 0x74 \<or> c = 0x54"
  "UpperToLower c = 0x65 \<longleftrightarrow> c = 0x65 \<or> c = 0x45"
proof -
  have add: "c + 0x20 = d \<longleftrightarrow> c = d - 0x20" for d :: byte by (auto simp: eq_diff_eq)
  show "UpperToLower c = 0x63 \<longleftrightarrow> c = 0x63 \<or> c = 0x43" "UpperToLower c = 0x74 \<longleftrightarrow> c = 0x74 \<or> c = 0x54"
  "UpperToLower c = 0x65 \<longleftrightarrow> c = 0x65 \<or> c = 0x45" by (auto simp: UpperToLower_eq add)
qed

lemma word_dispatch:
  fixes c :: byte
  assumes "a1 \<Longrightarrow> c = 0x63 \<or> c = 0x43" "a2 \<Longrightarrow> c = 0x74 \<or> c = 0x54" "a3 \<Longrightarrow> c = 0x74 \<or> c = 0x54"
    "a4 \<Longrightarrow> c = 0x74 \<or> c = 0x54" "a5 \<Longrightarrow> c = 0x65 \<or> c = 0x45" "a6 \<Longrightarrow> c = 0x65 \<or> c = 0x45"
  shows "(if c = 0x63 \<or> c = 0x43 then bindR (Inr a1) (\<lambda>b. Inr (if b then tkCREATE else tkOTHER))
     else if c = 0x74 \<or> c = 0x54 then
       bindR (Inr a2) (\<lambda>b. if b then Inr tkTRIGGER else bindR (Inr a3) (\<lambda>b. if b then Inr tkTEMP else
       bindR (Inr a4) (\<lambda>b. Inr (if b then tkTEMP else tkOTHER))))
     else if c = 0x65 \<or> c = 0x45 then
       bindR (Inr a5) (\<lambda>b. if b then Inr tkEND else bindR (Inr a6) (\<lambda>b. Inr (if b then tkEXPLAIN else tkOTHER)))
     else Inr tkOTHER) =
    (Inr (if a1 then tkCREATE else if a2 then tkTRIGGER else if a3 \<or> a4 then tkTEMP else if a5 then tkEND
       else if a6 then tkEXPLAIN else tkOTHER) :: nat cres)"
proof -
  consider "c = 0x63 \<or> c = 0x43" "\<not> (c = 0x74 \<or> c = 0x54)" "\<not> (c = 0x65 \<or> c = 0x45)"
    | "\<not> (c = 0x63 \<or> c = 0x43)" "c = 0x74 \<or> c = 0x54" "\<not> (c = 0x65 \<or> c = 0x45)"
    | "\<not> (c = 0x63 \<or> c = 0x43)" "\<not> (c = 0x74 \<or> c = 0x54)" "c = 0x65 \<or> c = 0x45"
    | "\<not> (c = 0x63 \<or> c = 0x43)" "\<not> (c = 0x74 \<or> c = 0x54)" "\<not> (c = 0x65 \<or> c = 0x45)" by fastforce
  then show ?thesis
  proof cases
    case 1
    with assms have "\<not> a2" "\<not> a3" "\<not> a4" "\<not> a5" "\<not> a6" by blast+
    with 1 show ?thesis by simp
  next
    case 2
    with assms have "\<not> a1" "\<not> a5" "\<not> a6" by blast+
    with 2 show ?thesis by simp
  next
    case 3
    with assms have "\<not> a1" "\<not> a2" "\<not> a3" "\<not> a4" by blast+
    with 3 show ?thesis by simp
  next
    case 4
    with assms have "\<not> a1" "\<not> a2" "\<not> a3" "\<not> a4" "\<not> a5" "\<not> a6" by blast+
    with 4 show ?thesis by simp
  qed
qed

lemma wordToken_spec:
  assumes "1 \<le> n" "n \<le> length z" "0 \<notin> set (take n z)"
  shows "wordToken z n = Inr (wordClass (take n z))"
proof -
  obtain c z' m where z: "z = c # z'" "n = Suc m" using assms(1,2) by (cases z; cases n) simp_all
  note w = isWord_spec [OF assms(2,3) lower_literals(1)] isWord_spec [OF assms(2,3) lower_literals(2)]
    isWord_spec [OF assms(2,3) lower_literals(3)] isWord_spec [OF assms(2,3) lower_literals(4)]
    isWord_spec [OF assms(2,3) lower_literals(5)] isWord_spec [OF assms(2,3) lower_literals(6)]
  define u where "u = lower (take n z)"
  have u: "hd u = UpperToLower c" using z by (simp add: u_def)
  have r: "rd z 0 = Inr c" using z by simp
  have hd: "hd (spelled ''create'') = 0x63" "hd (spelled ''trigger'') = 0x74" "hd (spelled ''temp'') = 0x74"
    "hd (spelled ''temporary'') = 0x74" "hd (spelled ''end'') = 0x65" "hd (spelled ''explain'') = 0x65"
    by (simp_all add: spelled_def)
  have ne: "u = spelled ''create'' \<Longrightarrow> c = 0x63 \<or> c = 0x43" "u = spelled ''trigger'' \<Longrightarrow> c = 0x74 \<or> c = 0x54"
    "u = spelled ''temp'' \<Longrightarrow> c = 0x74 \<or> c = 0x54" "u = spelled ''temporary'' \<Longrightarrow> c = 0x74 \<or> c = 0x54"
    "u = spelled ''end'' \<Longrightarrow> c = 0x65 \<or> c = 0x45" "u = spelled ''explain'' \<Longrightarrow> c = 0x65 \<or> c = 0x45"
    using u by (simp_all add: hd UpperToLower_letters)
  show ?thesis
    unfolding wordToken_def w wordClass_def u_def [symmetric] r bindR_simps(2) [of c] by (rule word_dispatch [OF ne])
qed
subsection \<open>The routine on a string\<close>

lemma special_not_id: "IdChar c \<Longrightarrow> c \<notin> {0, 0x3b, 0x20, 0x0d, 0x09, 0x0a, 0x0c, 0x2f, 0x2d, 0x5b, 0x60, 0x22, 0x27}"
  by (auto simp: IdChar_def sqlite3IsAsciiIdChar_def)

lemma step_simple:
  assumes "rd z 0 = Inr c" "c \<noteq> 0x2f" "c \<noteq> 0x2d" "c \<noteq> 0x5b" "c \<notin> {0x60, 0x22, 0x27}" "\<not> IdChar c"
  shows "completeStep z = Inr (Token (if c = 0x3b then tkSEMI else if c \<in> {0x20, 0x0d, 0x09, 0x0a, 0x0c} then tkWS else tkOTHER) (drop 1 z))"
  using assms by (simp add: completeStep_def)

lemma step_slash: "completeStep (0x2f # z) = bindR (rd z 0) (\<lambda>d. if d \<noteq> 0x2a then Inr (Token tkOTHER z)
    else stopAt (commentEnd (drop 1 z)) (\<lambda>z. Token tkWS (drop 2 z)) ReturnZero)"
  by (simp add: completeStep_def rd_def)

lemma step_dash: "completeStep (0x2d # z) = bindR (rd z 0) (\<lambda>d. if d \<noteq> 0x2d then Inr (Token tkOTHER z)
    else stopAt (upTo 0x0a (0x2d # z)) (\<lambda>z. Token tkWS (drop 1 z)) ReturnState)"
  by (simp add: completeStep_def rd_def)

lemma step_bracket: "completeStep (0x5b # z) = stopAt (upTo 0x5d z) (\<lambda>z. Token tkOTHER (drop 1 z)) ReturnZero"
  by (simp add: completeStep_def)

lemma step_quote: "q \<in> {0x60, 0x22, 0x27} \<Longrightarrow> completeStep (q # z) = stopAt (upTo q z) (\<lambda>z. Token tkOTHER (drop 1 z)) ReturnZero"
  by (auto simp: completeStep_def)

lemma takeWhile_word:
  assumes "list_all P w" "r = [] \<or> \<not> P (hd r)"
  shows "takeWhile P (w @ r) = w"
  using assms by (cases r) (auto simp: list_all_iff takeWhile_append)

lemma step_word:
  assumes "w \<noteq> []" "list_all IdChar w" "r = [] \<or> \<not> IdChar (hd r)" "0 \<notin> set (w @ r)"
  shows "completeStep ((w @ r) @ 0 # t) = Inr (Token (wordClass w) (r @ 0 # t))"
proof -
  obtain c w' where w: "w = c # w'" using assms(1) by (cases w) simp_all
  then have c: "IdChar c" and w': "list_all IdChar w'" using assms(2) by simp_all
  have "scanFrom IdChar ((w @ r) @ 0 # t) 1 = Inr (length w)"
    using w takeWhile_word [OF w' assms(3)] by (simp add: scanFrom_def scan_string flip: append_assoc)
  moreover have "wordToken ((w @ r) @ 0 # t) (length w) = Inr (wordClass w)"
    using wordToken_spec [of "length w" "(w @ r) @ 0 # t"] w assms(4) by simp
  ultimately show ?thesis
    using special_not_id [OF c] c w by (simp add: completeStep_def)
qed

lemma hd_rd: "s \<noteq> [] \<Longrightarrow> rd (s @ 0 # t) 0 = Inr (hd s)"
  by (cases s) simp_all

text \<open>A lexeme at the front of the text is what a round takes.\<close>

lemma step_lexeme:
  assumes "lexeme s r tk" "0 \<notin> set (s @ r)"
  shows "completeStep ((s @ r) @ 0 # t) = Inr (Token tk (r @ 0 # t))
    \<or> completeStep ((s @ r) @ 0 # t) = Inr ReturnState \<and> r = [] \<and> tk = tkWS"
  using assms
proof cases
  case semi
  then show ?thesis by (simp add: completeStep_def)
next
  case (space c)
  then show ?thesis by (auto simp: completeStep_def)
next
  case (comment b)
  with assms(2) commentEnd_stop [of b "r @ 0 # t"] show ?thesis by (simp add: step_slash stopAt_def)
next
  case (line b)
  with assms(2) upTo_stop [of b "0x0a" "r @ 0 # t"] show ?thesis by (simp add: step_dash stopAt_def)
next
  case (lastLine b)
  with assms(2) upTo_none [of b "0x0a" t] show ?thesis by (simp add: step_dash stopAt_def)
next
  case (bracket b)
  with assms(2) upTo_stop [of b "0x5d" "r @ 0 # t"] show ?thesis by (simp add: step_bracket stopAt_def)
next
  case (quoted q b)
  with assms(2) upTo_stop [of b q "r @ 0 # t"] show ?thesis by (simp add: step_quote stopAt_def)
next
  case word
  with step_word assms(2) show ?thesis by blast
next
  case slash
  then show ?thesis by (cases r) (auto simp: step_slash)
next
  case dash
  then show ?thesis by (cases r) (auto simp: step_dash)
next
  case (symbol c)
  then show ?thesis by (auto simp: step_simple)
qed

text \<open>What a round takes is a lexeme, and a round never faults.\<close>

definition stepOK :: "byte list \<Rightarrow> byte list \<Rightarrow> step cres \<Rightarrow> bool" where
  "stepOK s t r \<longleftrightarrow> r = Inr ReturnZero \<or> r = Inr ReturnState \<and> lexeme s [] tkWS
    \<or> (\<exists>s1 s2 tk. s = s1 @ s2 \<and> s1 \<noteq> [] \<and> lexeme s1 s2 tk \<and> r = Inr (Token tk (s2 @ 0 # t)))"

lemma stepOK_Token: "s1 \<noteq> [] \<Longrightarrow> lexeme s1 s2 tk \<Longrightarrow> s = s1 @ s2 \<Longrightarrow> z = s2 @ 0 # t \<Longrightarrow> stepOK s t (Inr (Token tk z))"
  by (auto simp: stepOK_def)

lemma stepOK_stop:
  assumes "0 \<notin> set b" "d \<noteq> 0" "\<And>x y. d \<notin> set x \<Longrightarrow> b = x @ d # y \<Longrightarrow> lexeme (p @ x @ [d]) y tk" "p \<noteq> []"
  shows "stepOK (p @ b) t (stopAt (upTo d (b @ 0 # t)) (\<lambda>z. Token tk (drop 1 z)) ReturnZero)"
proof (cases "d \<in> set b")
  case True
  then obtain x y where b: "b = x @ d # y" "d \<notin> set x" using split_list_first by metis
  then have "upTo d (b @ 0 # t) = Inr (Some (d # y @ 0 # t))" using assms(1,2) upTo_stop [of x d "y @ 0 # t"] by simp
  with b assms(3,4) show ?thesis by (auto simp: stopAt_def intro!: stepOK_Token [of "p @ x @ [d]" y])
next
  case False
  with assms(1) upTo_none [of b d t] show ?thesis by (simp add: stopAt_def stepOK_def)
qed

lemma stepOK_comment:
  assumes "0 \<notin> set b"
  shows "stepOK ([0x2f, 0x2a] @ b) t (stopAt (commentEnd (b @ 0 # t)) (\<lambda>z. Token tkWS (drop 2 z)) ReturnZero)"
proof (cases "sublist [0x2a, 0x2f] b")
  case True
  then obtain x y where b: "b = x @ [0x2a, 0x2f] @ y" "\<not> sublist [0x2a, 0x2f] x" using first_comment_end by blast
  then have "commentEnd (b @ 0 # t) = Inr (Some ([0x2a, 0x2f] @ y @ 0 # t))"
    using assms commentEnd_stop [of x "y @ 0 # t"] by simp
  with b lexeme.comment [OF b(2), of y] show ?thesis
    by (auto simp: stopAt_def intro!: stepOK_Token [of "[0x2f, 0x2a] @ x @ [0x2a, 0x2f]" y])
next
  case False
  with assms commentEnd_none [of b t] show ?thesis by (simp add: stopAt_def stepOK_def)
qed

lemma stepOK_line:
  assumes "0 \<notin> set b"
  shows "stepOK ([0x2d, 0x2d] @ b) t (stopAt (upTo 0x0a ([0x2d, 0x2d] @ b @ 0 # t)) (\<lambda>z. Token tkWS (drop 1 z)) ReturnState)"
proof (cases "0x0a \<in> set b")
  case True
  then obtain x y where b: "b = x @ 0x0a # y" "0x0a \<notin> set x" using split_list_first by metis
  then have "upTo 0x0a (b @ 0 # t) = Inr (Some (0x0a # y @ 0 # t))" using assms upTo_stop [of x "0x0a" "y @ 0 # t"] by simp
  with b lexeme.line [OF b(2), of y] show ?thesis
    by (auto simp: stopAt_def intro!: stepOK_Token [of "[0x2d, 0x2d] @ x @ [0x0a]" y])
next
  case False
  with assms upTo_none [of b "0x0a" t] lexeme.lastLine [OF False] show ?thesis by (simp add: stopAt_def stepOK_def)
qed
lemma stepOK_word:
  assumes "IdChar c" "0 \<notin> set s"
  shows "stepOK (c # s) t (completeStep ((c # s) @ 0 # t))"
proof -
  let ?w = "c # takeWhile IdChar s" and ?r = "dropWhile IdChar s"
  have w: "list_all IdChar ?w" using assms(1) set_takeWhileD by (fastforce simp: list_all_iff)
  have r: "?r = [] \<or> \<not> IdChar (hd ?r)" by (metis hd_dropWhile)
  have s: "?w @ ?r = c # s" by simp
  have "0 \<notin> set (?w @ ?r)" using assms class_zero(3) unfolding s by auto
  from step_word [OF _ w r this, of t] lexeme.word [OF _ w r] show ?thesis
    unfolding s by (auto intro!: stepOK_Token [of ?w ?r])
qed

lemma step_string:
  assumes "s \<noteq> []" "0 \<notin> set s"
  shows "stepOK s t (completeStep (s @ 0 # t))"
proof -
  obtain c s' where s: "s = c # s'" using assms(1) by (cases s) simp_all
  have z: "0 \<notin> set s'" using assms(2) s by simp
  consider "c = 0x2f" | "c = 0x2d" | "c = 0x5b" | "c \<in> {0x60, 0x22, 0x27}" | "IdChar c"
    | "c \<noteq> 0x2f" "c \<noteq> 0x2d" "c \<noteq> 0x5b" "c \<notin> {0x60, 0x22, 0x27}" "\<not> IdChar c" by blast
  then show ?thesis
  proof cases
    case 1
    show ?thesis
    proof (cases "s' \<noteq> [] \<and> hd s' = 0x2a")
      case True
      then obtain b where "s' = 0x2a # b" by (cases s') auto
      with stepOK_comment [of b t] z s 1 show ?thesis by (simp add: step_slash)
    next
      case False
      with lexeme.slash [of s'] s 1 show ?thesis by (cases s') (auto simp: step_slash intro: stepOK_Token)
    qed
  next
    case 2
    show ?thesis
    proof (cases "s' \<noteq> [] \<and> hd s' = 0x2d")
      case True
      then obtain b where "s' = 0x2d # b" by (cases s') auto
      with stepOK_line [of b t] z s 2 show ?thesis by (simp add: step_dash)
    next
      case False
      with lexeme.dash [of s'] s 2 show ?thesis by (cases s') (auto simp: step_dash intro: stepOK_Token)
    qed
  next
    case 3
    with stepOK_stop [OF z, of "0x5d" "[0x5b]" tkOTHER t] lexeme.bracket s show ?thesis by (simp add: step_bracket)
  next
    case 4
    with stepOK_stop [OF z, of c "[c]" tkOTHER t] lexeme.quoted [OF 4] s show ?thesis by (auto simp: step_quote)
  next
    case 5
    with stepOK_word z s show ?thesis by blast
  next
    case 6
    let ?tk = "if c = 0x3b then tkSEMI else if c \<in> {0x20, 0x0d, 0x09, 0x0a, 0x0c} then tkWS else tkOTHER"
    have "lexeme [c] s' ?tk" using 6 lexeme.semi lexeme.space lexeme.symbol by auto
    then have "stepOK s t (Inr (Token ?tk (s' @ 0 # t)))" by (rule stepOK_Token [rotated]) (simp_all add: s)
    moreover have "completeStep (s @ 0 # t) = Inr (Token ?tk (s' @ 0 # t))"
      using step_simple [of "s @ 0 # t" c] 6 s by simp
    ultimately show ?thesis by simp
  qed
qed

lemma wordClass_bound: "wordClass w < 8"
  by (simp add: wordClass_def)

lemma lexeme_bound: "lexeme s r tk \<Longrightarrow> tk < 8"
  by (induction rule: lexeme.induct) (simp_all add: wordClass_bound)

lemma lexes_bound: "lexes s ts \<Longrightarrow> \<forall>t \<in> set ts. t < 8"
  by (induction rule: lexes.induct) (auto dest: lexeme_bound)

lemma lexeme_nonempty: "lexeme s r tk \<Longrightarrow> s \<noteq> []"
  by (induction rule: lexeme.induct) auto

lemma lexes_nonempty:
  "s \<noteq> [] \<Longrightarrow> lexes s ts \<Longrightarrow> \<exists>s1 s2 tk us. s = s1 @ s2 \<and> lexeme s1 s2 tk \<and> lexes s2 us \<and> ts = tk # us"
  by (erule lexes.cases) auto

lemma lexes_Nil: "lexes [] ts \<longleftrightarrow> ts = []"
  by (auto elim: lexes.cases intro: lexes.none dest: lexeme_nonempty)

lemma loop_rounds:
  "rd z 0 = Inr c \<Longrightarrow> c = 0 \<Longrightarrow> completeLoop f q z = Some (Inr (q = 0))"
  "rd z 0 = Inr c \<Longrightarrow> c \<noteq> 0 \<Longrightarrow> completeStep z = Inr ReturnZero \<Longrightarrow> completeLoop f q z = Some (Inr False)"
  "rd z 0 = Inr c \<Longrightarrow> c \<noteq> 0 \<Longrightarrow> completeStep z = Inr ReturnState \<Longrightarrow> completeLoop f q z = Some (Inr (q = 0))"
  "rd z 0 = Inr c \<Longrightarrow> c \<noteq> 0 \<Longrightarrow> completeStep z = Inr (Token tk z') \<Longrightarrow> completeLoop (Suc f) q z = completeLoop f (trans ! q ! tk) z'"
  by (subst completeLoop.simps, simp)+

lemma loop_string:
  "0 \<notin> set s \<Longrightarrow> q < 7 \<Longrightarrow> length s \<le> f \<Longrightarrow>
     \<exists>b. completeLoop f q (s @ 0 # t) = Some (Inr b) \<and> (b \<longleftrightarrow> (\<exists>ts. lexes s ts \<and> machine q ts = 0))"
proof (induction "length s" arbitrary: s q f rule: less_induct)
  case less
  show ?case
  proof (cases "s = []")
    case True
    then show ?thesis using loop_rounds(1) [of "0 # t" 0 f q] by (simp add: lexes_Nil)
  next
    case False
    have c: "rd (s @ 0 # t) 0 = Inr (hd s)" "hd s \<noteq> 0" using hd_rd [OF False] hd_in_set [OF False] less.prems(1) by (metis, metis)
    have split: "completeStep (s @ 0 # t) = Inr (Token tk (s2 @ 0 # t)) \<or> completeStep (s @ 0 # t) = Inr ReturnState \<and> s2 = [] \<and> tk = tkWS"
      if "s = s1 @ s2" "lexeme s1 s2 tk" for s1 s2 tk using step_lexeme [OF that(2), of t] that less.prems(1) by simp
    note round = loop_rounds(2-) [OF c]
    from step_string [OF False less.prems(1), of t] consider
      (zero) "completeStep (s @ 0 # t) = Inr ReturnZero"
      | (state) "completeStep (s @ 0 # t) = Inr ReturnState" "lexeme s [] tkWS"
      | (tok) s1 s2 tk where "completeStep (s @ 0 # t) = Inr (Token tk (s2 @ 0 # t))" "s = s1 @ s2" "s1 \<noteq> []" "lexeme s1 s2 tk"
      unfolding stepOK_def by blast
    then show ?thesis
    proof cases
      case zero
      then have "\<not> lexes s ts" for ts using lexes_nonempty [OF False, of ts] split by fastforce
      with round(1) [OF zero] show ?thesis by blast
    next
      case state
      have "ts = [tkWS]" if "lexes s ts" for ts
        using lexes_nonempty [OF False that] split state(1) lexes_Nil by fastforce
      moreover have "lexes s [tkWS]" using lexes.more [OF state(2) lexes.none] by simp
      moreover have "machine q [tkWS] = q" using trans_WS [OF less.prems(2)] by simp
      ultimately have "(\<exists>ts. lexes s ts \<and> machine q ts = 0) \<longleftrightarrow> q = 0" by metis
      with round(2) [OF state(1)] show ?thesis by simp
    next
      case tok
      obtain g where g: "f = Suc g" using less.prems(3) tok(2,3) by (cases f) simp_all
      have "length s2 < length s" "length s2 \<le> g" using tok(2,3) less.prems(3) g by (cases s1; simp)+
      with less.hyps [of s2 "trans ! q ! tk" g] less.prems(1,2) trans_bound lexeme_bound [OF tok(4)] tok(2) obtain b where
        b: "completeLoop g (trans ! q ! tk) (s2 @ 0 # t) = Some (Inr b)" "b \<longleftrightarrow> (\<exists>ts. lexes s2 ts \<and> machine (trans ! q ! tk) ts = 0)" by auto
      have "\<exists>us. lexes s2 us \<and> ts = tk # us" if "lexes s ts" for ts
        using lexes_nonempty [OF False that] split tok(1) by fastforce
      moreover have "lexes s (tk # us)" if "lexes s2 us" for us using lexes.more [OF tok(4) that] tok(2) by simp
      ultimately have "(\<exists>ts. lexes s ts \<and> machine q ts = 0) \<longleftrightarrow> b" using b(2) by (metis machine_simps(2))
      with round(3) [OF tok(1)] b(1) g show ?thesis by simp
    qed
  qed
qed

lemma machine_lexes: "lexes s ts \<Longrightarrow> machine 0 ts = 0 \<longleftrightarrow> completeStatements (filter (\<lambda>t. t \<noteq> tkWS) ts)"
  using lexes_bound [of s ts] machine_filter [of 0 ts] machine_complete [of "filter (\<lambda>t. t \<noteq> tkWS) ts"]
  by (auto simp: classes_def)

text \<open>
  C36: the test for complete statements. On every C string the routine returns, and it returns
  true exactly when the text is a sequence of lexemes (so no quoted text, bracket or comment
  is left open) whose classes, white space and comments left out, are a sequence of complete
  statements. The sequence may be empty, so that blank text counts as complete, while invariant
  F10511 of sqlite3.h asks for a last token that is a semicolon; and a statement that begins like
  a trigger definition is complete only at a semicolon, END, semicolon, whether or not it has a
  BEGIN.
\<close>

theorem complete_statements:
  assumes "0 \<notin> set s" "length s \<le> f"
  shows "\<exists>b. sqlite3_complete f (s @ 0 # t) = Some (Inr b)
    \<and> (b \<longleftrightarrow> (\<exists>ts. lexes s ts \<and> completeStatements (filter (\<lambda>t. t \<noteq> tkWS) ts)))
    \<and> ((\<exists>ts. lexes s ts \<and> set ts \<subseteq> {tkWS}) \<longrightarrow> b)"
proof -
  have "completeStatements (filter (\<lambda>t. t \<noteq> tkWS) ts)" if "set ts \<subseteq> {tkWS}" for ts
  proof -
    have "filter (\<lambda>t. t \<noteq> tkWS) ts = []" using that by (auto simp: filter_empty_conv)
    then show ?thesis by (simp add: completeStatements.simps [of "[]"])
  qed
  note blank = this
  from loop_string [OF assms(1) _ assms(2), of 0 t] obtain b where
    "completeLoop f 0 (s @ 0 # t) = Some (Inr b)" "b \<longleftrightarrow> (\<exists>ts. lexes s ts \<and> machine 0 ts = 0)" by auto
  moreover have "b \<longleftrightarrow> (\<exists>ts. lexes s ts \<and> completeStatements (filter (\<lambda>t. t \<noteq> tkWS) ts))"
    using calculation(2) machine_lexes by auto
  ultimately show ?thesis using blank by (auto simp: sqlite3_complete_def)
qed

theorem complete_statements_witness: "sqlite3_complete 3 ([0x40, 0x3b, 0x20] @ 0 # []) = Some (Inr True)"
proof -
  have "lexes ([0x40] @ [0x3b] @ [0x20] @ []) [tkOTHER, tkSEMI, tkWS]"
    by (intro lexes.intros lexeme.semi lexeme.space lexeme.symbol) (simp_all add: IdChar_def sqlite3IsAsciiIdChar_def)
  moreover have "completeStatements [tkOTHER, tkSEMI]"
    by (simp add: completeStatements.simps [of "[2, 0]"] completeStatements.simps [of "[]"] statementEnd_def)
  ultimately have "\<exists>ts. lexes [0x40, 0x3b, 0x20] ts \<and> completeStatements (filter (\<lambda>t. t \<noteq> tkWS) ts)"
    by (intro exI [of _ "[tkOTHER, tkSEMI, tkWS]"]) simp
  with complete_statements [of "[0x40, 0x3b, 0x20]" 3 "[]"] show ?thesis by auto
qed

end
