(* ===== verification/BtreePage.thy ===== *)
theory BtreePage
  imports Varint
begin

text \<open>
  The page layer of the B-tree, btree.c and btreeInt.h of the database library (misc/sqlite):
  a page of bytes with a header, an array of cell pointers that grows up, cells that are
  placed from the end of the page down, and the free blocks between them, which form a list
  threaded through the page.

  A MemPage is a record that holds the bytes of its page; the u16 fields are naturals whose
  wrap-around is written out, the int variables naturals or, where the code subtracts,
  integers. A pointer to a cell is the list of bytes from its address on. An access outside
  the page is a fault; a loop over the list of free blocks that does not end, as on a corrupt
  page, is None. The temporary space of the pager is the argument temp, the outcome of
  sqlite3PagerWrite and the pointer map are arguments too. The assertions of the source are
  compiled out and are preconditions here.
\<close>

subsection \<open>Data\<close>

record BtShared =
  bt_pageSize :: nat
  bt_usableSize :: nat
  bt_maxLocal :: int
  bt_minLocal :: int
  bt_maxLeaf :: int
  bt_minLeaf :: int
  bt_autoVacuum :: bool

record MemPage =
  isInit :: bool
  idxShift :: bool
  nOverflow :: nat
  intKey :: bool
  leaf :: bool
  zeroData :: bool
  leafData :: bool
  hasData :: bool
  hdrOffset :: nat
  childPtrSize :: nat
  maxLocal :: nat
  minLocal :: nat
  cellOffset :: nat
  nFree :: nat
  nCell :: nat
  aOvfl :: "(byte list \<times> nat) list"
  pBt :: BtShared
  aData :: "byte list"
  pgno :: nat
  pParent :: "nat option"

record CellInfo =
  ci_nKey :: u64
  ci_nData :: u32
  ci_nPayload :: u32
  ci_nHeader :: nat
  ci_nLocal :: nat
  ci_iOverflow :: nat
  ci_nSize :: nat

abbreviation usableSize :: "MemPage \<Rightarrow> nat" where
  "usableSize pg \<equiv> bt_usableSize (pBt pg)"

definition MX_CELL :: "BtShared \<Rightarrow> int" where
  "MX_CELL bt = (int (bt_pageSize bt) - 8) div 6"

definition PTF_INTKEY :: byte where "PTF_INTKEY = 0x01"
definition PTF_ZERODATA :: byte where "PTF_ZERODATA = 0x02"
definition PTF_LEAFDATA :: byte where "PTF_LEAFDATA = 0x04"
definition PTF_LEAF :: byte where "PTF_LEAF = 0x08"

definition get2byte :: "byte list \<Rightarrow> nat \<Rightarrow> nat cres" where
  "get2byte d a = bindR (rd d a) (\<lambda>x. bindR (rd d (a + 1)) (\<lambda>y. Inr (push_bit 8 (unat x) OR unat y)))"

definition put2byte :: "byte list \<Rightarrow> nat \<Rightarrow> int \<Rightarrow> byte list cres" where
  "put2byte d a v = bindR (wr d a (word_of_int (v div 256))) (\<lambda>d. wr d (a + 1) (word_of_int v))"

text \<open>
  put2byte is a macro that evaluates the value for each of the two bytes; where the value is
  itself read from the page, the second reading follows the first write.
\<close>

definition put2byteOf :: "byte list \<Rightarrow> nat \<Rightarrow> (byte list \<Rightarrow> int cres) \<Rightarrow> byte list cres" where
  "put2byteOf d a f = bindR (f d) (\<lambda>v. bindR (wr d a (word_of_int (v div 256))) (\<lambda>d.
     bindR (f d) (\<lambda>v. wr d (a + 1) (word_of_int v))))"

text \<open>memcpy between two blocks and memset of a part of one.\<close>

definition memcpyB :: "byte list \<Rightarrow> nat \<Rightarrow> byte list \<Rightarrow> nat \<Rightarrow> nat \<Rightarrow> byte list cres" where
  "memcpyB dst d src s n =
     (if d + n \<le> length dst \<and> s + n \<le> length src then Inr (take d dst @ take n (drop s src) @ drop (d + n) dst)
      else Inl OutOfBounds)"

definition memsetB :: "byte list \<Rightarrow> nat \<Rightarrow> nat \<Rightarrow> byte list cres" where
  "memsetB dst d n = (if d + n \<le> length dst then Inr (take d dst @ replicate n 0 @ drop (d + n) dst) else Inl OutOfBounds)"

subsection \<open>Cells\<close>

definition findCell :: "MemPage \<Rightarrow> nat \<Rightarrow> byte list cres" where
  "findCell pg iCell = bindR (get2byte (aData pg) (cellOffset pg + 2 * iCell)) (\<lambda>pc. Inr (drop pc (aData pg)))"

text \<open>The overflow cells are searched from the last to the first.\<close>

fun findOverflowLoop :: "MemPage \<Rightarrow> nat \<Rightarrow> nat \<Rightarrow> byte list cres" where
  "findOverflowLoop pg 0 iCell = findCell pg iCell"
| "findOverflowLoop pg (Suc i) iCell = bindR (rd (aOvfl pg) i) (\<lambda>(pCell, k).
     if k \<le> iCell then if k = iCell then Inr pCell else findOverflowLoop pg i (iCell - 1)
     else findOverflowLoop pg i iCell)"

definition findOverflowCell :: "MemPage \<Rightarrow> nat \<Rightarrow> byte list cres" where
  "findOverflowCell pg iCell = findOverflowLoop pg (nOverflow pg) iCell"

definition sqlite3BtreeParseCellPtr :: "MemPage \<Rightarrow> byte list \<Rightarrow> CellInfo cres" where
  "sqlite3BtreeParseCellPtr pg pCell =
     (let n = childPtrSize pg in
      bindR (if hasData pg then bindR (getVarint32 (drop n pCell)) (\<lambda>(v, k). Inr (v, n + k)) else Inr (0, n)) (\<lambda>(nData, n).
      bindR (if intKey pg then bindR (sqlite3GetVarint (drop n pCell)) (\<lambda>(key, k). Inr (key, nData, n + k))
             else bindR (getVarint32 (drop n pCell)) (\<lambda>(x, k). Inr (ucast x, nData + x, n + k))) (\<lambda>(nKey, nPayload, n).
      let info = \<lparr>ci_nKey = nKey, ci_nData = nData, ci_nPayload = nPayload, ci_nHeader = n mod 65536,
                  ci_nLocal = 0, ci_iOverflow = 0, ci_nSize = 0\<rparr> in
      if unat nPayload \<le> maxLocal pg then
        let nSize = unat nPayload + n in
        Inr (info\<lparr>ci_nLocal := unat nPayload mod 65536, ci_iOverflow := 0, ci_nSize := (if nSize < 4 then 4 else nSize) mod 65536\<rparr>)
      else
        let minL = of_nat (minLocal pg);
            surplus = minL + (nPayload - minL) mod (of_nat (usableSize pg) - 4);
            nLocal = (if sint surplus \<le> int (maxLocal pg) then unat surplus mod 65536 else minLocal pg);
            iOverflow = (nLocal + n) mod 65536 in
        Inr (info\<lparr>ci_nLocal := nLocal, ci_iOverflow := iOverflow, ci_nSize := (iOverflow + 4) mod 65536\<rparr>))))"

definition sqlite3BtreeParseCell :: "MemPage \<Rightarrow> nat \<Rightarrow> CellInfo cres" where
  "sqlite3BtreeParseCell pg iCell = bindR (findCell pg iCell) (sqlite3BtreeParseCellPtr pg)"

definition cellSizePtr :: "MemPage \<Rightarrow> byte list \<Rightarrow> nat cres" where
  "cellSizePtr pg pCell = bindR (sqlite3BtreeParseCellPtr pg pCell) (\<lambda>info. Inr (ci_nSize info))"

subsection \<open>Space\<close>

fun defragLoop :: "MemPage \<Rightarrow> byte list \<Rightarrow> nat \<Rightarrow> nat \<Rightarrow> byte list \<Rightarrow> nat \<Rightarrow> (byte list \<times> nat) cres" where
  "defragLoop pg temp 0 i data brk = Inr (data, brk)"
| "defragLoop pg temp (Suc k) i data brk =
     (let pAddr = cellOffset pg + 2 * i in
      bindR (get2byte data pAddr) (\<lambda>pc.
      bindR (cellSizePtr pg (drop pc temp)) (\<lambda>size.
        if brk < size then Inl OutOfBounds
        else bindR (memcpyB data (brk - size) temp pc size) (\<lambda>data.
          bindR (put2byte data pAddr (int (brk - size))) (\<lambda>data. defragLoop pg temp k (i + 1) data (brk - size))))))"

definition defragmentPage :: "byte list \<Rightarrow> MemPage \<Rightarrow> MemPage cres" where
  "defragmentPage temp pg =
     (let data = aData pg; hdr = hdrOffset pg in
      bindR (get2byte data (hdr + 5)) (\<lambda>brk.
        if usableSize pg < brk then Inl OutOfBounds
        else bindR (memcpyB temp brk data brk (usableSize pg - brk)) (\<lambda>temp.
        bindR (defragLoop pg temp (nCell pg) 0 data (usableSize pg)) (\<lambda>(data, brk).
        bindR (put2byte data (hdr + 5) (int brk)) (\<lambda>data.
        bindR (wr data (hdr + 1) 0) (\<lambda>data. bindR (wr data (hdr + 2) 0) (\<lambda>data. bindR (wr data (hdr + 7) 0) (\<lambda>data.
          let addr = cellOffset pg + 2 * nCell pg in
          if brk < addr then Inl OutOfBounds
          else bindR (memsetB data addr (brk - addr)) (\<lambda>data. Inr (pg\<lparr>aData := data\<rparr>))))))))))"

text \<open>The search for a free block of nByte bytes: the address of the pointer to it, its offset and size.\<close>

partial_function (option) searchFree :: "byte list \<Rightarrow> nat \<Rightarrow> nat \<Rightarrow> (nat \<times> nat \<times> nat) option cres option" where
  "searchFree data nByte addr =
     (case get2byte data addr of Inl e \<Rightarrow> Some (Inl e)
      | Inr pc \<Rightarrow> if pc = 0 then Some (Inr None)
          else (case get2byte data (pc + 2) of Inl e \<Rightarrow> Some (Inl e)
            | Inr sz \<Rightarrow> if sz \<ge> nByte then Some (Inr (Some (addr, pc, sz))) else searchFree data nByte pc))"

text \<open>Taking space from the gap between the pointers and the cells, after defragmentation if it is too small.\<close>

definition allocateGap :: "byte list \<Rightarrow> MemPage \<Rightarrow> nat \<Rightarrow> nat \<Rightarrow> (int \<times> MemPage) cres" where
  "allocateGap temp pg nFrag nByte =
     (let hdr = hdrOffset pg in
      bindR (get2byte (aData pg) (hdr + 5)) (\<lambda>top. bindR (get2byte (aData pg) (hdr + 3)) (\<lambda>n.
      bindR (if nFrag \<ge> 60 \<or> int (cellOffset pg + 2 * n) > int top - int nByte
             then bindR (defragmentPage temp pg) (\<lambda>pg. bindR (get2byte (aData pg) (hdr + 5)) (\<lambda>top. Inr (pg, top)))
             else Inr (pg, top)) (\<lambda>(pg, top).
      let top = int top - int nByte in
      bindR (put2byte (aData pg) (hdr + 5) top) (\<lambda>data. Inr (top, pg\<lparr>aData := data\<rparr>))))))"

definition allocateBlock :: "MemPage \<Rightarrow> nat \<Rightarrow> nat \<Rightarrow> nat \<times> nat \<times> nat \<Rightarrow> (int \<times> MemPage) cres" where
  "allocateBlock pg nFrag nByte = (\<lambda>(addr, pc, size).
     if size < nByte + 4
     then bindR (rd (aData pg) pc) (\<lambda>x. bindR (rd (aData pg) (pc + 1)) (\<lambda>y.
       bindR (wr (aData pg) addr x) (\<lambda>data. bindR (wr data (addr + 1) y) (\<lambda>data.
       bindR (wr data (hdrOffset pg + 7) (word_of_int (int nFrag + int size - int nByte))) (\<lambda>data.
         Inr (int pc, pg\<lparr>aData := data\<rparr>))))))
     else bindR (put2byte (aData pg) (pc + 2) (int size - int nByte)) (\<lambda>data.
       Inr (int pc + int size - int nByte, pg\<lparr>aData := data\<rparr>)))"

definition allocateSpace :: "byte list \<Rightarrow> MemPage \<Rightarrow> nat \<Rightarrow> (int \<times> MemPage) cres option" where
  "allocateSpace temp pg nByte0 =
     (let nByte = (if nByte0 < 4 then 4 else nByte0) in
      if nFree pg < nByte \<or> nOverflow pg > 0 then Some (Inr (0, pg))
      else let pg = pg\<lparr>nFree := nFree pg - nByte\<rparr> in
        (case rd (aData pg) (hdrOffset pg + 7) of Inl e \<Rightarrow> Some (Inl e)
         | Inr nFrag \<Rightarrow>
             if unat nFrag < 60
             then (case searchFree (aData pg) nByte (hdrOffset pg + 1) of None \<Rightarrow> None
               | Some (Inl e) \<Rightarrow> Some (Inl e)
               | Some (Inr (Some b)) \<Rightarrow> Some (allocateBlock pg (unat nFrag) nByte b)
               | Some (Inr None) \<Rightarrow> Some (allocateGap temp pg (unat nFrag) nByte))
             else Some (allocateGap temp pg (unat nFrag) nByte)))"

text \<open>freeSpace: where the block belongs in the list, and the loop that joins neighbours.\<close>

partial_function (option) insertPoint :: "byte list \<Rightarrow> nat \<Rightarrow> nat \<Rightarrow> (nat \<times> nat) cres option" where
  "insertPoint data start addr =
     (case get2byte data addr of Inl e \<Rightarrow> Some (Inl e)
      | Inr pbegin \<Rightarrow> if pbegin < start \<and> pbegin > 0 then insertPoint data start pbegin else Some (Inr (addr, pbegin)))"

definition joinBlocks :: "byte list \<Rightarrow> nat \<Rightarrow> nat \<Rightarrow> nat \<Rightarrow> nat \<Rightarrow> byte list cres" where
  "joinBlocks data hdr pbegin psize pnext =
     (let frag = int pnext - int (pbegin + psize) in
      bindR (rd data (hdr + 7)) (\<lambda>f. bindR (wr data (hdr + 7) (f - word_of_int frag)) (\<lambda>data.
      bindR (put2byteOf data pbegin (\<lambda>d. bindR (get2byte d pnext) (\<lambda>v. Inr (int v)))) (\<lambda>data.
      put2byteOf data (pbegin + 2) (\<lambda>d. bindR (get2byte d (pnext + 2)) (\<lambda>v. Inr (int (pnext + v) - int pbegin)))))))"

partial_function (option) coalesce :: "byte list \<Rightarrow> nat \<Rightarrow> nat \<Rightarrow> byte list cres option" where
  "coalesce data hdr addr =
     (case get2byte data addr of Inl e \<Rightarrow> Some (Inl e)
      | Inr pbegin \<Rightarrow> if pbegin = 0 then Some (Inr data)
          else (case get2byte data pbegin of Inl e \<Rightarrow> Some (Inl e)
            | Inr pnext \<Rightarrow> (case get2byte data (pbegin + 2) of Inl e \<Rightarrow> Some (Inl e)
              | Inr psize \<Rightarrow>
                  if pbegin + psize + 3 \<ge> pnext \<and> pnext > 0
                  then (case joinBlocks data hdr pbegin psize pnext of Inl e \<Rightarrow> Some (Inl e)
                    | Inr data \<Rightarrow> coalesce data hdr addr)
                  else coalesce data hdr pbegin)))"

text \<open>The last step: a free block at the start of the content area goes back to the gap.\<close>

definition dropFirst :: "byte list \<Rightarrow> nat \<Rightarrow> byte list cres" where
  "dropFirst data hdr =
     bindR (rd data (hdr + 1)) (\<lambda>a. bindR (rd data (hdr + 5)) (\<lambda>b. bindR (rd data (hdr + 2)) (\<lambda>c. bindR (rd data (hdr + 6)) (\<lambda>d.
       if a = b \<and> c = d
       then bindR (get2byte data (hdr + 1)) (\<lambda>pbegin.
         bindR (rd data pbegin) (\<lambda>x. bindR (rd data (pbegin + 1)) (\<lambda>y.
         bindR (wr data (hdr + 1) x) (\<lambda>data. bindR (wr data (hdr + 2) y) (\<lambda>data.
         bindR (get2byte data (hdr + 5)) (\<lambda>top.
           put2byteOf data (hdr + 5) (\<lambda>d. bindR (get2byte d (pbegin + 2)) (\<lambda>sz. Inr (int (top + sz))))))))))
       else Inr data))))"

definition freeSpace :: "MemPage \<Rightarrow> nat \<Rightarrow> nat \<Rightarrow> MemPage cres option" where
  "freeSpace pg start size0 =
     (let size = (if size0 < 4 then 4 else size0); hdr = hdrOffset pg in
      case insertPoint (aData pg) start (hdr + 1) of None \<Rightarrow> None
      | Some (Inl e) \<Rightarrow> Some (Inl e)
      | Some (Inr (addr, pbegin)) \<Rightarrow>
          (case bindR (put2byte (aData pg) addr (int start)) (\<lambda>data. bindR (put2byte data start (int pbegin)) (\<lambda>data.
                  put2byte data (start + 2) (int size))) of
             Inl e \<Rightarrow> Some (Inl e)
           | Inr data \<Rightarrow>
               (case coalesce data hdr (hdr + 1) of None \<Rightarrow> None
                | Some r \<Rightarrow> Some (bindR r (\<lambda>data. bindR (dropFirst data hdr) (\<lambda>data.
                    Inr (pg\<lparr>aData := data, nFree := (nFree pg + size) mod 65536\<rparr>)))))))"

subsection \<open>Whole pages\<close>

definition decodeFlags :: "MemPage \<Rightarrow> byte \<Rightarrow> MemPage" where
  "decodeFlags pg flagByte =
     (let bt = pBt pg; lf = (flagByte AND PTF_LEAF \<noteq> 0); zd = (flagByte AND PTF_ZERODATA \<noteq> 0);
          ld = (flagByte AND PTF_LEAFDATA \<noteq> 0) in
      pg\<lparr>intKey := (flagByte AND (PTF_INTKEY OR PTF_LEAFDATA) \<noteq> 0), zeroData := zd, leaf := lf,
         childPtrSize := (if lf then 0 else 4), leafData := ld,
         maxLocal := nat ((if ld then bt_maxLeaf bt else bt_maxLocal bt) mod 65536),
         minLocal := nat ((if ld then bt_minLeaf bt else bt_minLocal bt) mod 65536),
         hasData := \<not> (zd \<or> (\<not> lf \<and> ld))\<rparr>)"

datatype page_rc = PAGE_OK | PAGE_CORRUPT

text \<open>The loop over the free blocks: their total added to nFree, or None for a corrupt list.\<close>

function sumFree :: "byte list \<Rightarrow> nat \<Rightarrow> nat \<Rightarrow> int \<Rightarrow> int option cres" where
  "sumFree data usable pc n =
     (if pc = 0 then Inr (Some n)
      else if int pc > int usable - 4 then Inr None
      else bindR (get2byte data pc) (\<lambda>nxt. bindR (get2byte data (pc + 2)) (\<lambda>size.
        if nxt > 0 \<and> nxt \<le> pc + size + 3 then Inr None else sumFree data usable nxt (n + int size))))"
  by pat_completeness auto
termination by (relation "measure (\<lambda>(_, usable, pc, _). if pc = 0 then 0 else usable + 1 - pc)") auto

declare sumFree.simps [simp del]

definition sqlite3BtreeInitPage :: "MemPage \<Rightarrow> nat option \<Rightarrow> (page_rc \<times> MemPage) cres" where
  "sqlite3BtreeInitPage pg parent =
     (if pParent pg \<noteq> parent \<and> (pParent pg \<noteq> None \<or> isInit pg) then Inr (PAGE_CORRUPT, pg)
      else if isInit pg then Inr (PAGE_OK, pg)
      else
        let pg = (if pParent pg = None \<and> parent \<noteq> None then pg\<lparr>pParent := parent\<rparr> else pg); hdr = hdrOffset pg in
        bindR (rd (aData pg) hdr) (\<lambda>flags.
        let pg = (decodeFlags pg flags)\<lparr>nOverflow := 0, idxShift := False\<rparr>;
            pg = pg\<lparr>cellOffset := hdr + 12 - (if leaf pg then 4 else 0)\<rparr> in
        bindR (get2byte (aData pg) (hdr + 5)) (\<lambda>top. bindR (get2byte (aData pg) (hdr + 3)) (\<lambda>n.
        let pg = pg\<lparr>nCell := n\<rparr> in
        if int n > MX_CELL (pBt pg) then Inr (PAGE_CORRUPT, pg)
        else if n = 0 \<and> parent \<noteq> None \<and> parent \<noteq> Some 1 then Inr (PAGE_CORRUPT, pg)
        else bindR (get2byte (aData pg) (hdr + 1)) (\<lambda>pc. bindR (rd (aData pg) (hdr + 7)) (\<lambda>frag.
          bindR (sumFree (aData pg) (usableSize pg) pc (int (unat frag) + int top - int (cellOffset pg + 2 * n))) (\<lambda>r.
            case r of None \<Rightarrow> Inr (PAGE_CORRUPT, pg)
            | Some tot \<Rightarrow>
                let pg = pg\<lparr>nFree := nat (tot mod 65536)\<rparr> in
                if tot \<ge> int (usableSize pg) then Inr (PAGE_CORRUPT, pg) else Inr (PAGE_OK, pg\<lparr>isInit := True\<rparr>))))))))"

definition zeroPage :: "MemPage \<Rightarrow> byte \<Rightarrow> MemPage cres" where
  "zeroPage pg flags =
     (let hdr = hdrOffset pg; u = usableSize pg; first = hdr + 8 + (if flags AND PTF_LEAF = 0 then 4 else 0) in
      bindR (if u < hdr then Inl OutOfBounds else memsetB (aData pg) hdr (u - hdr)) (\<lambda>data. bindR (wr data hdr flags) (\<lambda>data.
      bindR (memsetB data (hdr + 1) 4) (\<lambda>data. bindR (wr data (hdr + 7) 0) (\<lambda>data.
      bindR (put2byte data (hdr + 5) (int u)) (\<lambda>data.
        Inr ((decodeFlags (pg\<lparr>aData := data, nFree := nat ((int u - int first) mod 65536)\<rparr>) flags)\<lparr>hdrOffset := hdr, cellOffset := first,
          nOverflow := 0, idxShift := False, nCell := 0, isInit := True\<rparr>)))))))"

subsection \<open>Inserting and dropping cells\<close>

fun dropLoop :: "byte list \<Rightarrow> nat \<Rightarrow> nat \<Rightarrow> byte list cres" where
  "dropLoop data ptr 0 = Inr data"
| "dropLoop data ptr (Suc k) = bindR (rd data (ptr + 2)) (\<lambda>x. bindR (wr data ptr x) (\<lambda>data.
     bindR (rd data (ptr + 3)) (\<lambda>y. bindR (wr data (ptr + 1) y) (\<lambda>data. dropLoop data (ptr + 2) k))))"

definition dropCell :: "MemPage \<Rightarrow> nat \<Rightarrow> nat \<Rightarrow> MemPage cres option" where
  "dropCell pg idx sz =
     (let ptr = cellOffset pg + 2 * idx in
      case get2byte (aData pg) ptr of Inl e \<Rightarrow> Some (Inl e)
      | Inr pc \<Rightarrow>
          (case freeSpace pg pc sz of None \<Rightarrow> None
           | Some r \<Rightarrow> Some (bindR r (\<lambda>pg.
               bindR (dropLoop (aData pg) ptr (nCell pg - (idx + 1))) (\<lambda>data.
               let n = nat ((int (nCell pg) - 1) mod 65536) in
               bindR (put2byte data (hdrOffset pg + 3) (int n)) (\<lambda>data.
               Inr (pg\<lparr>aData := data, nCell := n, nFree := (nFree pg + 2) mod 65536, idxShift := True\<rparr>)))))))"

text \<open>The loop that makes room for a pointer moves k pointers up, the last first.\<close>

fun insertLoop :: "byte list \<Rightarrow> nat \<Rightarrow> nat \<Rightarrow> byte list cres" where
  "insertLoop data ins 0 = Inr data"
| "insertLoop data ins (Suc k) =
     (let ptr = ins + 2 * Suc k in
      bindR (rd data (ptr - 2)) (\<lambda>x. bindR (wr data ptr x) (\<lambda>data.
      bindR (rd data (ptr - 1)) (\<lambda>y. bindR (wr data (ptr + 1) y) (\<lambda>data. insertLoop data ins k)))))"

text \<open>
  pTemp is None for NULL. The result pairs the return code of the code (None is SQLITE\_OK)
  with the page.
\<close>

record page_env =
  env_temp :: "byte list"
  env_write :: "nat option"
  env_ptrmapPut :: "u32 \<Rightarrow> nat option"

definition insertOverflow :: "MemPage \<Rightarrow> nat \<Rightarrow> byte list \<Rightarrow> nat \<Rightarrow> byte list option \<Rightarrow> nat \<Rightarrow> MemPage cres" where
  "insertOverflow pg i pCell sz pTemp nSkip =
     bindR (case pTemp of None \<Rightarrow> Inr pCell
       | Some t \<Rightarrow> if sz < nSkip then Inl OutOfBounds else memcpyB t nSkip pCell nSkip (sz - nSkip)) (\<lambda>c.
       if nOverflow pg < 5 then Inr (pg\<lparr>nOverflow := nOverflow pg + 1, aOvfl := take (nOverflow pg) (aOvfl pg) @ [(c, i)], nFree := 0\<rparr>)
       else Inl OutOfBounds)"

definition insertPlaced :: "page_env \<Rightarrow> MemPage \<Rightarrow> nat \<Rightarrow> byte list \<Rightarrow> nat \<Rightarrow> nat \<Rightarrow> nat \<Rightarrow> (nat option \<times> MemPage) cres" where
  "insertPlaced env pg i pCell sz nSkip idx =
     (let ins = cellOffset pg + 2 * i; n = (nCell pg + 1) mod 65536;
          pg = pg\<lparr>nCell := n, nFree := nat ((int (nFree pg) - 2) mod 65536)\<rparr> in
      bindR (if sz < nSkip then Inl OutOfBounds else memcpyB (aData pg) (idx + nSkip) pCell nSkip (sz - nSkip)) (\<lambda>data.
      bindR (insertLoop data ins (nCell pg - 1 - i)) (\<lambda>data.
      bindR (put2byte data ins (int idx)) (\<lambda>data. bindR (put2byte data (hdrOffset pg + 3) (int n)) (\<lambda>data.
      let pg = pg\<lparr>aData := data, idxShift := True\<rparr> in
      if bt_autoVacuum (pBt pg)
      then bindR (sqlite3BtreeParseCellPtr pg pCell) (\<lambda>info.
        if uint (ci_nData info) + (if intKey pg then 0 else sint (ci_nKey info)) > int (ci_nLocal info)
        then bindR (sqlite3Get4byte (drop (ci_iOverflow info) pCell)) (\<lambda>(pgnoOvfl, _). Inr (env_ptrmapPut env pgnoOvfl, pg))
        else Inr (None, pg))
      else Inr (None, pg))))))"

definition insertCell :: "page_env \<Rightarrow> MemPage \<Rightarrow> nat \<Rightarrow> byte list \<Rightarrow> nat \<Rightarrow> byte list option \<Rightarrow> nat \<Rightarrow> (nat option \<times> MemPage) cres option" where
  "insertCell env pg i pCell sz pTemp nSkip =
     (if nOverflow pg > 0 \<or> sz + 2 > nFree pg
      then Some (bindR (insertOverflow pg i pCell sz pTemp nSkip) (\<lambda>pg. Inr (None, pg)))
      else if env_write env \<noteq> None then Some (Inr (env_write env, pg))
      else
        (case bindR (get2byte (aData pg) (hdrOffset pg + 5)) (\<lambda>top.
                if int (cellOffset pg + 2 * nCell pg + 2) > int top - int sz then defragmentPage (env_temp env) pg else Inr pg) of
           Inl e \<Rightarrow> Some (Inl e)
         | Inr pg \<Rightarrow>
             (case allocateSpace (env_temp env) pg sz of None \<Rightarrow> None
              | Some r \<Rightarrow> Some (bindR r (\<lambda>(idx, pg).
                  if idx < 0 then Inl OutOfBounds else insertPlaced env pg i pCell sz nSkip (nat idx))))))"

fun assembleLoop :: "byte list \<Rightarrow> nat \<Rightarrow> nat \<Rightarrow> (byte list \<times> nat) list \<Rightarrow> byte list cres" where
  "assembleLoop data cellptr cellbody [] = Inr data"
| "assembleLoop data cellptr cellbody ((c, sz) # cs) =
     bindR (put2byte data cellptr (int cellbody)) (\<lambda>data. bindR (memcpyB data cellbody c 0 sz) (\<lambda>data.
       assembleLoop data (cellptr + 2) (cellbody + sz) cs))"

definition assemblePage :: "byte list \<Rightarrow> MemPage \<Rightarrow> (byte list \<times> nat) list \<Rightarrow> MemPage cres option" where
  "assemblePage temp pg cells =
     (let n = length cells in
      case put2byte (aData pg) (hdrOffset pg + 3) (int n) of Inl e \<Rightarrow> Some (Inl e)
      | Inr data \<Rightarrow>
          if n = 0 then Some (Inr (pg\<lparr>aData := data, nCell := 0\<rparr>))
          else (case allocateSpace temp (pg\<lparr>aData := data\<rparr>) (sum_list (map snd cells)) of None \<Rightarrow> None
            | Some r \<Rightarrow> Some (bindR r (\<lambda>(cellbody, pg).
                if cellbody < 0 then Inl OutOfBounds
                else bindR (assembleLoop (aData pg) (cellOffset pg) (nat cellbody) cells) (\<lambda>data.
                  Inr (pg\<lparr>aData := data, nFree := nat ((int (nFree pg) - 2 * int n) mod 65536), nCell := n mod 65536\<rparr>))))))"

end
