(* ===== verification/PageSpace.thy ===== *)
theory PageSpace
  imports BtreePage
begin

text \<open>
  The space of a B-tree page. The free blocks of a page are a chain through its bytes, the
  cells and the free blocks lie apart from each other in the content area, and what they do
  not cover is the number of fragmented bytes in the header. Shown: allocation, release with
  coalescing and defragmentation keep this layout and the bytes of every cell.
\<close>

subsection \<open>Two-byte numbers in a page\<close>

definition word2 :: "byte list \<Rightarrow> nat \<Rightarrow> nat" where
  "word2 d a = unat (d ! a) * 256 + unat (d ! (a + 1))"

definition put2 :: "byte list \<Rightarrow> nat \<Rightarrow> int \<Rightarrow> byte list" where
  "put2 d a v = d[a := word_of_int (v div 256), a + 1 := word_of_int v]"

lemma shift_or: "y < 256 \<Longrightarrow> push_bit 8 x OR y = x * 256 + (y :: nat)"
proof -
  assume "y < 256"
  then have y: "take_bit 8 y = y" by (simp add: take_bit_nat_eq_self_iff)
  have "push_bit 8 x AND take_bit 8 y = 0" by (rule bit_eqI) (auto simp: bit_simps)
  then have "push_bit 8 x + y = push_bit 8 x OR y" unfolding y by (rule disjunctive_add_eq_or)
  then show ?thesis by (simp add: push_bit_eq_mult mult.commute)
qed

lemma get2byte_ok: "a + 1 < length d \<Longrightarrow> get2byte d a = Inr (word2 d a)"
  by (simp add: get2byte_def word2_def shift_or)

lemma put2byte_ok: "a + 1 < length d \<Longrightarrow> put2byte d a v = Inr (put2 d a v)"
  by (simp add: put2byte_def put2_def)

lemma length_put2 [simp]: "length (put2 d a v) = length d"
  by (simp add: put2_def)

lemma nth_put2: "j \<noteq> a \<Longrightarrow> j \<noteq> a + 1 \<Longrightarrow> put2 d a v ! j = d ! j"
  by (simp add: put2_def)

lemma word2_less: "word2 d a < 65536"
  using unat_less_256 [of "d ! a"] unat_less_256 [of "d ! (a + 1)"] by (simp add: word2_def del: unat_less_256)

lemma unat_of_byte: "0 \<le> v \<Longrightarrow> v < 256 \<Longrightarrow> unat (word_of_int v :: byte) = nat v"
  by (simp add: unat_eq_nat_uint uint_word_of_int)

lemma word2_put2: "a + 1 < length d \<Longrightarrow> 0 \<le> v \<Longrightarrow> v < 65536 \<Longrightarrow> word2 (put2 d a v) a = nat v"
proof -
  assume a: "a + 1 < length d" "0 \<le> v" "v < 65536"
  have "unat (word_of_int v :: byte) = nat (v mod 256)"
    by (simp add: unat_eq_nat_uint uint_word_of_int)
  moreover have "unat (word_of_int (v div 256) :: byte) = nat (v div 256)"
    by (rule unat_of_byte) (use a in auto)
  moreover have "nat (v div 256) * 256 + nat (v mod 256) = nat v"
    using a(2) by (simp add: nat_div_distrib nat_mod_distrib)
  ultimately show ?thesis using a(1) by (simp add: word2_def put2_def)
qed

lemma word2_put2_apart: "b + 1 < a \<or> a + 1 < b \<Longrightarrow> word2 (put2 d a v) b = word2 d b"
  by (auto simp: word2_def nth_put2)

lemma word2_agree: "d' ! b = d ! b \<Longrightarrow> d' ! (b + 1) = d ! (b + 1) \<Longrightarrow> word2 d' b = word2 d b"
  by (simp add: word2_def)

lemma put2byteOf_ok:
  assumes "a + 1 < length d" "f d = Inr v" "f (d[a := word_of_int (v div 256)]) = Inr v"
  shows "put2byteOf d a f = Inr (put2 d a v)"
  using assms by (simp add: put2byteOf_def put2_def)

text \<open>Reading a two-byte number is not disturbed by a single write elsewhere.\<close>

lemma word2_update: "a \<noteq> b \<Longrightarrow> a \<noteq> b + 1 \<Longrightarrow> word2 (d[a := x]) b = word2 d b"
  by (simp add: word2_def)

subsection \<open>Regions\<close>

type_synonym region = "nat \<times> nat"

definition apart :: "region \<Rightarrow> region \<Rightarrow> bool" where
  "apart x y \<longleftrightarrow> fst x + snd x \<le> fst y \<or> fst y + snd y \<le> fst x"

definition spaced :: "region \<Rightarrow> region \<Rightarrow> bool" where
  "spaced x y \<longleftrightarrow> fst x + snd x + 3 < fst y"

definition sizes :: "region list \<Rightarrow> nat" where
  "sizes xs = sum_list (map snd xs)"

definition bytesAt :: "byte list \<Rightarrow> region \<Rightarrow> byte list" where
  "bytesAt d x = take (snd x) (drop (fst x) d)"

lemma sizes_simps [simp]: "sizes [] = 0" "sizes (x # xs) = snd x + sizes xs" "sizes (xs @ ys) = sizes xs + sizes ys"
  by (simp_all add: sizes_def)

lemma apart_sym: "apart x y \<longleftrightarrow> apart y x"
  by (auto simp: apart_def)

lemma bytesAt_agree:
  assumes "length d' = length d" "\<And>j. fst x \<le> j \<Longrightarrow> j < fst x + snd x \<Longrightarrow> d' ! j = d ! j"
  shows "bytesAt d' x = bytesAt d x"
  using assms by (auto simp: bytesAt_def intro!: nth_equalityI)

text \<open>The chain of free blocks from the pointer at an address, with the pointer it ends in.\<close>

fun links :: "byte list \<Rightarrow> nat \<Rightarrow> region list \<Rightarrow> nat \<Rightarrow> bool" where
  "links d addr [] e \<longleftrightarrow> word2 d addr = e"
| "links d addr (b # bs) e \<longleftrightarrow> 0 < fst b \<and> word2 d addr = fst b \<and> word2 d (fst b + 2) = snd b \<and> links d (fst b) bs e"

definition tailAddr :: "nat \<Rightarrow> region list \<Rightarrow> nat" where
  "tailAddr addr bs = (if bs = [] then addr else fst (last bs))"

lemma tailAddr_simps [simp]: "tailAddr addr [] = addr" "tailAddr addr (b # bs) = tailAddr (fst b) bs"
  by (simp_all add: tailAddr_def)

lemma links_append: "links d addr (bs @ cs) e \<longleftrightarrow> links d addr bs (word2 d (tailAddr addr bs)) \<and> links d (tailAddr addr bs) cs e"
  by (induction bs arbitrary: addr) auto

lemma links_agree:
  "links d addr bs e \<Longrightarrow> word2 d' addr' = word2 d addr \<Longrightarrow>
   (\<And>b. b \<in> set bs \<Longrightarrow> word2 d' (fst b) = word2 d (fst b) \<and> word2 d' (fst b + 2) = word2 d (fst b + 2)) \<Longrightarrow>
   links d' addr' bs e"
  by (induction bs arbitrary: addr addr') auto

text \<open>A chain whose last pointer has changed.\<close>

lemma links_retarget:
  "links d addr bs e \<Longrightarrow> (\<And>b. b \<in> set bs \<Longrightarrow> word2 d' (fst b + 2) = word2 d (fst b + 2)) \<Longrightarrow>
   (\<And>a. a \<in> set (butlast (addr # map fst bs)) \<Longrightarrow> word2 d' a = word2 d a) \<Longrightarrow>
   links d' addr bs (word2 d' (tailAddr addr bs))"
  by (induction bs arbitrary: addr) auto

text \<open>The first free block that satisfies a condition.\<close>

lemma searchFree_spec:
  assumes "links d addr bs 0" "addr + 1 < length d" "\<forall>b \<in> set bs. fst b + 3 < length d"
  shows "searchFree d n addr = Some (Inr (case dropWhile (\<lambda>b. snd b < n) bs of [] \<Rightarrow> None
    | b # _ \<Rightarrow> Some (tailAddr addr (takeWhile (\<lambda>b. snd b < n) bs), fst b, snd b)))"
  using assms
proof (induction bs arbitrary: addr)
  case Nil
  then show ?case by (subst searchFree.simps) (simp add: get2byte_ok)
next
  case (Cons b bs)
  then show ?case
    by (subst searchFree.simps) (cases "snd b < n"; cases "dropWhile (\<lambda>b. snd b < n) bs"; simp add: get2byte_ok del: dropWhile_eq_Nil_conv)
qed

lemma insertPoint_spec:
  assumes "links d addr bs 0" "addr + 1 < length d" "\<forall>b \<in> set bs. fst b + 3 < length d"
  shows "insertPoint d start addr = Some (Inr (tailAddr addr (takeWhile (\<lambda>b. fst b < start) bs),
    case dropWhile (\<lambda>b. fst b < start) bs of [] \<Rightarrow> 0 | b # _ \<Rightarrow> fst b))"
  using assms
proof (induction bs arbitrary: addr)
  case Nil
  then show ?case by (subst insertPoint.simps) (simp add: get2byte_ok)
next
  case (Cons b bs)
  then show ?case by (subst insertPoint.simps) (simp add: get2byte_ok)
qed

subsection \<open>The layout of the content area\<close>

text \<open>
  The content area of a page with its header at hdr and u usable bytes: the regions in use and
  the free blocks lie in it apart from each other, the free blocks in increasing order with
  more than three bytes between them, and the bytes not covered are those counted in the
  header. The area starts at lim or later.
\<close>

definition within :: "nat \<Rightarrow> nat \<Rightarrow> region \<Rightarrow> bool" where
  "within lo u x \<longleftrightarrow> 4 \<le> snd x \<and> lo \<le> fst x \<and> fst x + snd x \<le> u"

definition space :: "byte list \<Rightarrow> nat \<Rightarrow> nat \<Rightarrow> nat \<Rightarrow> region list \<Rightarrow> region list \<Rightarrow> bool" where
  "space d hdr u lim used blocks \<longleftrightarrow>
     hdr + 8 \<le> lim \<and> u \<le> length d \<and> u < 65536 \<and> lim \<le> word2 d (hdr + 5) \<and> word2 d (hdr + 5) \<le> u
     \<and> links d (hdr + 1) blocks 0
     \<and> (\<forall>x \<in> set used \<union> set blocks. within (word2 d (hdr + 5)) u x)
     \<and> sorted_wrt apart used \<and> sorted_wrt spaced blocks \<and> (\<forall>x \<in> set used. \<forall>y \<in> set blocks. apart x y)
     \<and> word2 d (hdr + 5) + unat (d ! (hdr + 7)) + sizes used + sizes blocks = u"

text \<open>What an operation on the free space may touch: the header fields and the blocks.\<close>

definition keeps :: "byte list \<Rightarrow> byte list \<Rightarrow> nat \<Rightarrow> region list \<Rightarrow> bool" where
  "keeps d d' hdr bs \<longleftrightarrow> length d' = length d
     \<and> (\<forall>j. j \<notin> {hdr + 1, hdr + 2, hdr + 5, hdr + 6, hdr + 7} \<longrightarrow> (\<forall>b \<in> set bs. \<not> (fst b \<le> j \<and> j < fst b + snd b)) \<longrightarrow> d' ! j = d ! j)"

lemma keeps_refl [simp]: "keeps d d hdr bs"
  by (simp add: keeps_def)

lemma keeps_trans: "keeps d d' hdr bs \<Longrightarrow> keeps d' d'' hdr bs \<Longrightarrow> keeps d d'' hdr bs"
  by (simp add: keeps_def)

lemma keeps_mono: "keeps d d' hdr bs \<Longrightarrow> set bs \<subseteq> set cs \<Longrightarrow> keeps d d' hdr cs"
  unfolding keeps_def by blast

lemma keeps_bytes:
  assumes "keeps d d' hdr bs" "hdr + 8 \<le> fst x" "\<forall>b \<in> set bs. apart x b"
  shows "bytesAt d' x = bytesAt d x"
proof (rule bytesAt_agree)
  show "length d' = length d" using assms(1) by (simp add: keeps_def)
  fix j assume j: "fst x \<le> j" "j < fst x + snd x"
  then have "\<forall>b \<in> set bs. \<not> (fst b \<le> j \<and> j < fst b + snd b)" using assms(3) by (force simp: apart_def)
  then show "d' ! j = d ! j" using assms(1,2) j unfolding keeps_def by auto
qed

lemma keeps_low:
  assumes "keeps d d' hdr bs" "\<forall>b \<in> set bs. lim \<le> fst b" "j < lim" "j \<notin> {hdr + 1, hdr + 2, hdr + 5, hdr + 6, hdr + 7}"
  shows "d' ! j = d ! j"
  using assms unfolding keeps_def by fastforce

lemma keeps_put2:
  assumes "b \<in> set bs" "fst b \<le> a" "a + 1 < fst b + snd b"
  shows "keeps d (put2 d a v) hdr bs"
  unfolding keeps_def using assms by (auto simp: nth_put2 intro!: nth_put2)
text \<open>The addresses of the pointers of the chain, split at one of them.\<close>

lemma space_addrs:
  assumes "space d hdr u lim used blocks"
  shows "sorted_wrt (\<lambda>a b. a + 4 \<le> b) ((hdr + 1) # map fst blocks)"
proof -
  have "sorted_wrt (\<lambda>x y. fst x + 4 \<le> fst y) blocks"
    using assms by (auto simp: space_def spaced_def within_def intro: sorted_wrt_mono_rel [of blocks spaced])
  moreover have "\<forall>x \<in> set blocks. hdr + 5 \<le> fst x" using assms by (force simp: space_def within_def)
  ultimately show ?thesis by (simp add: sorted_wrt_map add.commute)
qed

lemma sorted_split:
  assumes "sorted_wrt (\<lambda>a b. a + 4 \<le> b) (addr # map fst (bs1 @ bs2))"
  shows "\<forall>a \<in> set (butlast (addr # map fst bs1)). a + 4 \<le> tailAddr addr bs1"
    "\<forall>x \<in> set bs1. fst x = tailAddr addr bs1 \<or> fst x + 4 \<le> tailAddr addr bs1"
    "\<forall>x \<in> set bs2. tailAddr addr bs1 + 4 \<le> fst x"
    "tailAddr addr bs1 = addr \<or> (\<exists>x \<in> set bs1. tailAddr addr bs1 = fst x)"
proof -
  let ?xs = "addr # map fst bs1"
  have t: "tailAddr addr bs1 = last ?xs" by (simp add: tailAddr_def last_map)
  have xs: "?xs = butlast ?xs @ [tailAddr addr bs1]" unfolding t by (rule append_butlast_last_id [symmetric]) simp
  have "sorted_wrt (\<lambda>a b. a + 4 \<le> b) ((butlast ?xs @ [tailAddr addr bs1]) @ map fst bs2)"
    using assms unfolding xs [symmetric] by simp
  then show low: "\<forall>a \<in> set (butlast ?xs). a + 4 \<le> tailAddr addr bs1" and "\<forall>x \<in> set bs2. tailAddr addr bs1 + 4 \<le> fst x"
    by (simp_all add: sorted_wrt_append del: butlast.simps)
  have "set ?xs = set (butlast ?xs @ [tailAddr addr bs1])" using xs by (rule arg_cong)
  then have "\<forall>x \<in> set bs1. fst x \<in> set (butlast ?xs) \<union> {tailAddr addr bs1}" by auto
  with low show "\<forall>x \<in> set bs1. fst x = tailAddr addr bs1 \<or> fst x + 4 \<le> tailAddr addr bs1" by blast
  show "tailAddr addr bs1 = addr \<or> (\<exists>x \<in> set bs1. tailAddr addr bs1 = fst x)" by (auto simp: tailAddr_def)
qed

lemma space_bounds:
  assumes "space d hdr u lim used blocks"
  shows "hdr + 8 \<le> length d" "\<forall>b \<in> set blocks. fst b + 3 < length d \<and> hdr + 8 \<le> fst b \<and> lim \<le> fst b \<and> 4 \<le> snd b \<and> fst b + snd b \<le> u"
    "\<forall>x \<in> set used. hdr + 8 \<le> fst x \<and> lim \<le> fst x \<and> fst x + snd x \<le> length d \<and> 4 \<le> snd x"
  using assms by (force simp: space_def within_def)+

lemma space_links: "space d hdr u lim used blocks \<Longrightarrow> links d (hdr + 1) blocks 0"
  by (simp add: space_def)

lemma space_search:
  assumes "space d hdr u lim used blocks"
  shows "searchFree d n (hdr + 1) = Some (Inr (case dropWhile (\<lambda>b. snd b < n) blocks of [] \<Rightarrow> None
      | b # _ \<Rightarrow> Some (tailAddr (hdr + 1) (takeWhile (\<lambda>b. snd b < n) blocks), fst b, snd b)))"
  using searchFree_spec [OF space_links [OF assms]] space_bounds [OF assms] by simp

subsection \<open>Allocation\<close>

text \<open>A block that is used up but for at most three bytes leaves the chain.\<close>

lemma take_whole:
  assumes s: "space d hdr u lim used (bs1 @ (pc, sz) # bs2)" and n: "4 \<le> n" "n \<le> sz" "sz < n + 4" "unat (d ! (hdr + 7)) < 60"
  defines "t \<equiv> tailAddr (hdr + 1) bs1"
  defines "d' \<equiv> d[t := d ! pc, t + 1 := d ! (pc + 1), hdr + 7 := word_of_int (int (unat (d ! (hdr + 7))) + int sz - int n)]"
  shows "space d' hdr u lim ((pc, n) # used) (bs1 @ bs2) \<and> keeps d d' hdr (bs1 @ (pc, sz) # bs2)"
proof
  note b = space_bounds [OF s]
  note so = sorted_split [OF space_addrs [OF s], folded t_def]
  have pc: "t + 4 \<le> pc" "hdr + 8 \<le> pc" "pc + 3 < length d" "pc + sz \<le> u" using so(3) b(2) by auto
  have tl: "t + 1 < length d" "t = hdr + 1 \<or> hdr + 8 \<le> t" using so(4) b pc(1,3) by auto
  have len: "length d' = length d" by (simp add: d'_def)
  have wt: "word2 d' t = word2 d pc" using tl pc b(1) by (auto simp: word2_def d'_def nth_list_update)
  have w: "word2 d' a = word2 d a" if "a + 1 < t \<or> t + 1 < a" "a + 1 < hdr + 7 \<or> hdr + 7 < a" for a
    using that by (auto simp: word2_def d'_def)
  have l: "links d (hdr + 1) bs1 pc" "links d pc bs2 0"
    using space_links [OF s] by (auto simp: links_append t_def)
  have b1: "\<forall>x \<in> set bs1. word2 d' (fst x + 2) = word2 d (fst x + 2)"
  proof
    fix x assume x: "x \<in> set bs1"
    have "fst x = t \<or> fst x + 4 \<le> t" "hdr + 8 \<le> fst x" using so(2) b(2) x by auto
    then show "word2 d' (fst x + 2) = word2 d (fst x + 2)" by (intro w) auto
  qed
  have top: "word2 d' (hdr + 5) = word2 d (hdr + 5)" by (rule w) (use tl(2) in auto)
  have "links d' (hdr + 1) bs1 (word2 d' t)" unfolding t_def
  proof (rule links_retarget [OF l(1)])
    fix a assume a: "a \<in> set (butlast ((hdr + 1) # map fst bs1))"
    then have "a \<in> set ((hdr + 1) # map fst bs1)" by (rule in_set_butlastD)
    then have "a = hdr + 1 \<or> hdr + 8 \<le> a" using b(2) by auto
    then show "word2 d' a = word2 d a" using so(1) a by (intro w) auto
  qed (use b1 in blast)
  moreover have "links d' t bs2 0"
    by (rule links_agree [OF l(2) wt]) (use so(3) b(2) in \<open>force intro!: w\<close>)
  ultimately have links': "links d' (hdr + 1) (bs1 @ bs2) 0" by (simp add: links_append t_def)
  have frag: "unat (d' ! (hdr + 7)) = unat (d ! (hdr + 7)) + sz - n"
  proof -
    define v where "v = int (unat (d ! (hdr + 7))) + int sz - int n"
    have "unat (word_of_int v :: byte) = nat v" by (rule unat_of_byte) (use n in \<open>unfold v_def, linarith+\<close>)
    moreover have "d' ! (hdr + 7) = word_of_int v" using b(1) by (simp only: d'_def v_def nth_list_update_eq length_list_update)
    moreover have "nat v = unat (d ! (hdr + 7)) + sz - n" using n unfolding v_def by linarith
    ultimately show ?thesis by simp
  qed
  show "space d' hdr u lim ((pc, n) # used) (bs1 @ bs2)"
    unfolding space_def top len using s n links' frag
    by (auto simp: space_def sorted_wrt_append within_def apart_def spaced_def)
  have tj: "j \<noteq> t \<and> j \<noteq> t + 1" if j: "j \<notin> {hdr + 1, hdr + 2, hdr + 5, hdr + 6, hdr + 7}"
    "\<forall>b \<in> set (bs1 @ (pc, sz) # bs2). \<not> (fst b \<le> j \<and> j < fst b + snd b)" for j
  proof (cases "t = hdr + 1")
    case False
    then obtain x where x: "x \<in> set bs1" "t = fst x" using so(4) by auto
    then have "4 \<le> snd x" "\<not> (fst x \<le> j \<and> j < fst x + snd x)" using b(2) j(2) by auto
    then show ?thesis using x(2) by auto
  qed (use j(1) in auto)
  show "keeps d d' hdr (bs1 @ (pc, sz) # bs2)" unfolding keeps_def
  proof (intro conjI allI impI, rule len)
    fix j assume j: "j \<notin> {hdr + 1, hdr + 2, hdr + 5, hdr + 6, hdr + 7}" "\<forall>b \<in> set (bs1 @ (pc, sz) # bs2). \<not> (fst b \<le> j \<and> j < fst b + snd b)"
    from tj [OF j] j(1) show "d' ! j = d ! j" by (simp add: d'_def)
  qed
qed
text \<open>A larger block gives up its end.\<close>

lemma take_part:
  assumes s: "space d hdr u lim used (bs1 @ (pc, sz) # bs2)" and n: "4 \<le> n" "n + 4 \<le> sz"
  defines "d' \<equiv> put2 d (pc + 2) (int sz - int n)"
  shows "space d' hdr u lim ((pc + sz - n, n) # used) (bs1 @ (pc, sz - n) # bs2) \<and> keeps d d' hdr (bs1 @ (pc, sz) # bs2)"
proof
  note b = space_bounds [OF s]
  define t where "t = tailAddr (hdr + 1) bs1"
  note so = sorted_split [OF space_addrs [OF s], folded t_def]
  have pc: "hdr + 8 \<le> pc" "pc + 3 < length d" "pc + sz \<le> u" "u < 65536" using b(2) s by (auto simp: space_def)
  have len: "length d' = length d" by (simp add: d'_def)
  have sz': "word2 d' (pc + 2) = sz - n" unfolding d'_def using pc n by (subst word2_put2) auto
  have w: "word2 d' a = word2 d a" if "a + 1 < pc + 2 \<or> pc + 3 < a" for a
    using that by (auto simp: d'_def word2_put2_apart)
  have l: "links d (hdr + 1) bs1 pc" "links d pc bs2 0" using space_links [OF s] by (auto simp: links_append t_def)
  have "links d' (hdr + 1) bs1 pc"
  proof (rule links_agree [OF l(1)])
    show "word2 d' (hdr + 1) = word2 d (hdr + 1)" by (rule w) (use pc in simp)
    fix x assume "x \<in> set bs1"
    then have "fst x + 4 \<le> pc" using so(2,3) by force
    then show "word2 d' (fst x) = word2 d (fst x) \<and> word2 d' (fst x + 2) = word2 d (fst x + 2)" by (auto intro!: w)
  qed
  moreover have "links d' pc bs2 0"
  proof (rule links_agree [OF l(2)])
    show "word2 d' pc = word2 d pc" by (rule w) simp
    fix x assume "x \<in> set bs2"
    then have "pc + 4 \<le> fst x" using s n by (auto simp: space_def sorted_wrt_append spaced_def)
    then show "word2 d' (fst x) = word2 d (fst x) \<and> word2 d' (fst x + 2) = word2 d (fst x + 2)" by (auto intro!: w)
  qed
  moreover have "word2 d' t = pc"
  proof -
    have "t + 4 \<le> pc" using so(3) by simp
    then have "word2 d' t = word2 d t" by (intro w) simp
    then show ?thesis using space_links [OF s] by (simp add: links_append t_def)
  qed
  ultimately have links': "links d' (hdr + 1) (bs1 @ (pc, sz - n) # bs2) 0"
    using sz' pc(1) by (simp add: links_append t_def)
  have top: "word2 d' (hdr + 5) = word2 d (hdr + 5)" "d' ! (hdr + 7) = d ! (hdr + 7)"
    using pc(1) w [of "hdr + 5"] by (simp_all add: d'_def nth_put2)
  show "space d' hdr u lim ((pc + sz - n, n) # used) (bs1 @ (pc, sz - n) # bs2)"
    unfolding space_def top len using s n links' by (auto simp: space_def sorted_wrt_append within_def apart_def spaced_def)
  show "keeps d d' hdr (bs1 @ (pc, sz) # bs2)" unfolding d'_def
    by (rule keeps_put2 [of "(pc, sz)"]) (use n in auto)
qed

text \<open>Space from the gap below the content area.\<close>

lemma take_gap:
  assumes s: "space d hdr u lim used blocks" and n: "4 \<le> n" "lim + n \<le> word2 d (hdr + 5)"
  defines "t \<equiv> word2 d (hdr + 5)"
  defines "d' \<equiv> put2 d (hdr + 5) (int t - int n)"
  shows "space d' hdr u lim ((t - n, n) # used) blocks \<and> keeps d d' hdr blocks"
proof
  note b = space_bounds [OF s]
  have len: "length d' = length d" by (simp add: d'_def)
  have t: "n \<le> t" "t < 65536" using n s by (auto simp: t_def space_def)
  have top: "word2 d' (hdr + 5) = t - n" "d' ! (hdr + 7) = d ! (hdr + 7)"
    unfolding d'_def using t b(1) by (auto simp: word2_put2 nth_put2)
  have w: "word2 d' a = word2 d a" if "a + 1 < hdr + 5 \<or> hdr + 6 < a" for a
    using that by (auto simp: d'_def word2_put2_apart)
  have links': "links d' (hdr + 1) blocks 0"
    by (rule links_agree [OF space_links [OF s]]) (use b(2) in \<open>force intro!: w\<close>)+
  have "within t u x" if "x \<in> set used \<union> set blocks" for x using that s unfolding space_def t_def by blast
  then have "within (t - n) u x" "apart (t - n, n) x" if "x \<in> set used \<union> set blocks" for x
    using that t(1) unfolding within_def apart_def by fastforce+
  then show "space d' hdr u lim ((t - n, n) # used) blocks"
    unfolding space_def top len using s n links' t by (auto simp: space_def within_def t_def)
  show "keeps d d' hdr blocks" unfolding keeps_def d'_def by (auto simp: nth_put2)
qed
subsection \<open>Release\<close>

text \<open>Neighbouring free blocks with at most three bytes between them become one.\<close>

fun joinAll :: "region list \<Rightarrow> region list" where
  "joinAll (b # c # bs) =
     (if fst c \<le> fst b + snd b + 3 then joinAll ((fst b, fst c + snd c - fst b) # bs) else b # joinAll (c # bs))"
| "joinAll [] = []"
| "joinAll [b] = [b]"

definition loose :: "region list \<Rightarrow> bool" where
  "loose bs \<longleftrightarrow> sorted_wrt (\<lambda>x y. fst x + snd x \<le> fst y) bs"

lemma loose_simps [simp]: "loose []" "loose (b # bs) \<longleftrightarrow> (\<forall>y \<in> set bs. fst b + snd b \<le> fst y) \<and> loose bs"
  by (auto simp: loose_def)

lemma loose_join: "loose (b # c # bs) \<Longrightarrow> loose ((fst b, fst c + snd c - fst b) # bs)"
  by auto

lemma joinAll_hd: "\<exists>k cs. joinAll (b # bs) = (fst b, k) # cs"
  by (induction "b # bs" arbitrary: b bs rule: joinAll.induct) auto

lemma joinAll_covers:
  "loose bs \<Longrightarrow> x \<in> set bs \<Longrightarrow> \<exists>y \<in> set (joinAll bs). fst y \<le> fst x \<and> fst x + snd x \<le> fst y + snd y"
proof (induction bs arbitrary: x rule: joinAll.induct)
  case (1 b c bs)
  show ?case
  proof (cases "fst c \<le> fst b + snd b + 3")
    case True
    have l: "loose ((fst b, fst c + snd c - fst b) # bs)" using 1(3) by (rule loose_join)
    have "\<exists>y \<in> set (joinAll ((fst b, fst c + snd c - fst b) # bs)). fst y \<le> fst z \<and> fst z + snd z \<le> fst y + snd y"
      if "z \<in> set ((fst b, fst c + snd c - fst b) # bs)" for z by (rule 1(1) [OF True l that])
    from this [of "(fst b, fst c + snd c - fst b)"] this [of x] 1(3,4) True show ?thesis by force
  next
    case False
    with 1 show ?thesis by auto
  qed
qed auto

lemma joinAll_starts: "loose bs \<Longrightarrow> \<forall>x \<in> set bs. lo \<le> fst x \<Longrightarrow> y \<in> set (joinAll bs) \<Longrightarrow> lo \<le> fst y"
  by (induction bs arbitrary: y rule: joinAll.induct) (auto split: if_splits)

lemma joinAll_within: "loose bs \<Longrightarrow> \<forall>x \<in> set bs. within lo u x \<Longrightarrow> \<forall>y \<in> set (joinAll bs). within lo u y"
proof (induction bs rule: joinAll.induct)
  case (1 b c bs)
  show ?case
  proof (cases "fst c \<le> fst b + snd b + 3")
    case True
    have "within lo u b" "within lo u c" "fst b + snd b \<le> fst c" using 1(3,4) by simp_all
    then have "within lo u (fst b, fst c + snd c - fst b)" unfolding within_def fst_conv snd_conv by linarith
    then have "\<forall>x \<in> set ((fst b, fst c + snd c - fst b) # bs). within lo u x" using 1(4) by simp
    from 1(1) [OF True loose_join [OF 1(3)] this] True show ?thesis by simp
  next
    case False
    with 1 show ?thesis by simp
  qed
qed auto

lemma joinAll_spaced: "loose bs \<Longrightarrow> sorted_wrt spaced (joinAll bs)"
proof (induction bs rule: joinAll.induct)
  case (1 b c bs)
  show ?case
  proof (cases "fst c \<le> fst b + snd b + 3")
    case False
    have "\<forall>x \<in> set (c # bs). fst c \<le> fst x" using 1(3) by force
    then have "fst c \<le> fst y" if "y \<in> set (joinAll (c # bs))" for y
      using joinAll_starts [of "c # bs" "fst c" y] 1(3) that by simp
    with 1 False show ?thesis by (force simp: spaced_def)
  qed (use 1 loose_join in auto)
qed auto

lemma joinAll_apart:
  "loose bs \<Longrightarrow> 4 \<le> snd x \<Longrightarrow> \<forall>b \<in> set bs. 0 < snd b \<and> apart x b \<Longrightarrow> y \<in> set (joinAll bs) \<Longrightarrow> apart x y"
proof (induction bs arbitrary: y rule: joinAll.induct)
  case (1 b c bs)
  show ?case
  proof (cases "fst c \<le> fst b + snd b + 3")
    case True
    have "apart x b" "apart x c" "fst b + snd b \<le> fst c" "0 < snd b" using 1(3,5) by simp_all
    then have "0 < snd (fst b, fst c + snd c - fst b) \<and> apart x (fst b, fst c + snd c - fst b)"
      using True 1(4) unfolding apart_def fst_conv snd_conv by linarith
    then have "\<forall>b \<in> set ((fst b, fst c + snd c - fst b) # bs). 0 < snd b \<and> apart x b" using 1(5) by simp
    from 1(1) [OF True loose_join [OF 1(3)] 1(4) this] 1(6) True show ?thesis by simp
  next
    case False
    from 1(2) [OF False _ 1(4), of y] 1(3,5,6) False show ?thesis by (cases "y = b") auto
  qed
qed auto

lemma joinAll_sizes: "loose bs \<Longrightarrow> sizes bs \<le> sizes (joinAll bs)"
proof (induction bs rule: joinAll.induct)
  case (1 b c bs)
  then show ?case by (cases "fst c \<le> fst b + snd b + 3") (use loose_join [OF 1(3)] in force)+
qed auto

text \<open>Regions that lie apart in an interval are together no longer than it.\<close>

definition cover :: "region list \<Rightarrow> nat set" where
  "cover xs = (\<Union>x \<in> set xs. {fst x..<fst x + snd x})"

lemma apart_sizes: "sorted_wrt apart xs \<Longrightarrow> card (cover xs) = sizes xs"
proof (induction xs)
  case (Cons x xs)
  have "{fst x..<fst x + snd x} \<inter> cover xs = {}" using Cons.prems by (fastforce simp: cover_def apart_def)
  then have "card ({fst x..<fst x + snd x} \<union> cover xs) = snd x + card (cover xs)"
    by (subst card_Un_disjoint) (auto simp: cover_def)
  with Cons show ?case by (simp add: cover_def)
qed (simp add: cover_def)

lemma apart_fits: "sorted_wrt apart xs \<Longrightarrow> \<forall>x \<in> set xs. lo \<le> fst x \<and> fst x + snd x \<le> hi \<Longrightarrow> sizes xs \<le> hi - lo"
proof -
  assume a: "sorted_wrt apart xs" "\<forall>x \<in> set xs. lo \<le> fst x \<and> fst x + snd x \<le> hi"
  have "cover xs \<subseteq> {lo..<hi}" using a(2) by (fastforce simp: cover_def)
  then have "card (cover xs) \<le> card {lo..<hi}" by (intro card_mono) auto
  then show ?thesis using apart_sizes [OF a(1)] by simp
qed

lemma loose_apart: "loose bs \<Longrightarrow> sorted_wrt apart bs"
  unfolding loose_def by (erule sorted_wrt_mono_rel [rotated]) (auto simp: apart_def)
text \<open>The joining loop. What it may touch: the fragment count and the joined blocks.\<close>

definition keepsOut :: "byte list \<Rightarrow> byte list \<Rightarrow> nat \<Rightarrow> region list \<Rightarrow> bool" where
  "keepsOut d d' h bs \<longleftrightarrow> length d' = length d
     \<and> (\<forall>j. j \<noteq> h \<longrightarrow> (\<forall>b \<in> set bs. \<not> (fst b \<le> j \<and> j < fst b + snd b)) \<longrightarrow> d' ! j = d ! j)"

lemma keepsOut_word2:
  assumes "keepsOut d d' h bs" "a + 1 < h \<or> h < a" "\<forall>b \<in> set bs. a + 1 < fst b"
  shows "word2 d' a = word2 d a"
proof (rule word2_agree)
  have "\<forall>b \<in> set bs. \<not> (fst b \<le> a \<and> a < fst b + snd b) \<and> \<not> (fst b \<le> a + 1 \<and> a + 1 < fst b + snd b)" using assms(3) by fastforce
  then show "d' ! a = d ! a" "d' ! (a + 1) = d ! (a + 1)" using assms(1,2) unfolding keepsOut_def by auto
qed

lemma joinBlocks_ok:
  assumes "h + 7 < pb" "pb + ps \<le> pn" "4 \<le> ps" "4 \<le> ns" "pn + ns \<le> u" "u \<le> length d" "u < 65536"
    "word2 d (pn + 2) = ns" "pn - (pb + ps) \<le> unat (d ! (h + 7))"
  defines "d' \<equiv> put2 (put2 (d[h + 7 := d ! (h + 7) - word_of_int (int pn - int (pb + ps))]) pb (int (word2 d pn))) (pb + 2) (int (pn + ns) - int pb)"
  shows "joinBlocks d h pb ps pn = Inr d'" "word2 d' pb = word2 d pn" "word2 d' (pb + 2) = pn + ns - pb"
    "unat (d' ! (h + 7)) = unat (d ! (h + 7)) - (pn - (pb + ps))" "length d' = length d"
    "\<And>j. j \<noteq> h + 7 \<Longrightarrow> j < pb \<or> pb + 4 \<le> j \<Longrightarrow> d' ! j = d ! j"
proof -
  define f where "f = d ! (h + 7) - word_of_int (int pn - int (pb + ps))"
  define d1 where "d1 = d[h + 7 := f]"
  define d2 where "d2 = put2 d1 pb (int (word2 d pn))"
  have d': "d' = put2 d2 (pb + 2) (int (pn + ns) - int pb)" by (simp only: d'_def d2_def d1_def f_def)
  have len: "length d1 = length d" "length d2 = length d" by (simp_all add: d1_def d2_def)
  have w1: "word2 d1 a = word2 d a" if "h + 7 < a" for a using that by (simp add: d1_def word2_update)
  have w2: "word2 d2 a = word2 d a" if "pb + 1 < a" for a using that w1 [of a] assms(1) by (simp add: d2_def word2_put2_apart)
  have p1: "put2byteOf d1 pb (\<lambda>d. bindR (get2byte d pn) (\<lambda>v. Inr (int v))) = Inr d2"
    unfolding d2_def
    by (rule put2byteOf_ok) (use assms(1-6) len w1 [of pn] in \<open>simp_all add: get2byte_ok word2_update\<close>)
  have p2: "put2byteOf d2 (pb + 2) (\<lambda>d. bindR (get2byte d (pn + 2)) (\<lambda>v. Inr (int (pn + v) - int pb))) = Inr d'"
    unfolding d'
    by (rule put2byteOf_ok) (use assms(1-6,8) len w2 [of "pn + 2"] in \<open>simp_all add: get2byte_ok word2_update\<close>)
  show "joinBlocks d h pb ps pn = Inr d'"
    using p1 p2 assms(1-6) by (simp add: joinBlocks_def Let_def d1_def f_def)
  show "length d' = length d" by (simp add: d' len)
  show "word2 d' (pb + 2) = pn + ns - pb" unfolding d' using assms(1-7) len by (subst word2_put2) auto
  have "word2 d' pb = word2 d2 pb" unfolding d' by (rule word2_put2_apart) simp
  also have "\<dots> = word2 d pn" unfolding d2_def using word2_less [of d pn] assms(1-6) len by (subst word2_put2) auto
  finally show "word2 d' pb = word2 d pn" .
  show "d' ! j = d ! j" if "j \<noteq> h + 7" "j < pb \<or> pb + 4 \<le> j" for j
    using that by (auto simp: d' d2_def d1_def nth_put2)
  have "d' ! (h + 7) = f" using assms(1-6) by (simp add: d' d2_def d1_def nth_put2)
  moreover have "unat f = unat (d ! (h + 7)) - (pn - (pb + ps))"
  proof -
    have "f = d ! (h + 7) - of_nat (pn - (pb + ps))" using assms(2) by (simp add: f_def of_nat_diff)
    moreover have "pn - (pb + ps) < 256" using assms(9) unat_less_256 [of "d ! (h + 7)"] by linarith
    then have "unat (of_nat (pn - (pb + ps)) :: byte) = pn - (pb + ps)" by (simp add: unat_of_nat)
    ultimately show ?thesis using assms(9) by (metis unat_sub word_le_nat_alt)
  qed
  ultimately show "unat (d' ! (h + 7)) = unat (d ! (h + 7)) - (pn - (pb + ps))" by simp
qed
definition joinable :: "byte list \<Rightarrow> nat \<Rightarrow> nat \<Rightarrow> nat \<Rightarrow> region list \<Rightarrow> bool" where
  "joinable d u hdr addr bs \<longleftrightarrow> links d addr bs 0 \<and> addr + 1 < length d \<and> (addr + 1 < hdr + 7 \<or> hdr + 7 < addr)
     \<and> (\<forall>b \<in> set bs. addr + 4 \<le> fst b \<and> hdr + 8 \<le> fst b \<and> 4 \<le> snd b \<and> fst b + snd b \<le> u)
     \<and> loose bs \<and> u \<le> length d \<and> u < 65536 \<and> sizes (joinAll bs) \<le> sizes bs + unat (d ! (hdr + 7))"

definition joined :: "byte list \<Rightarrow> byte list \<Rightarrow> nat \<Rightarrow> nat \<Rightarrow> region list \<Rightarrow> bool" where
  "joined d d' hdr addr bs \<longleftrightarrow> links d' addr (joinAll bs) 0 \<and> keepsOut d d' (hdr + 7) (joinAll bs)
     \<and> unat (d' ! (hdr + 7)) + sizes (joinAll bs) = unat (d ! (hdr + 7)) + sizes bs"

lemma coalesce_nil: "addr + 1 < length d \<Longrightarrow> word2 d addr = 0 \<Longrightarrow> coalesce d hdr addr = Some (Inr d)"
  by (subst coalesce.simps) (simp add: get2byte_ok)

lemma coalesce_step:
  assumes "addr + 1 < length d" "word2 d addr = fst b" "0 < fst b" "fst b + 3 < length d" "word2 d (fst b + 2) = snd b"
  shows "coalesce d hdr addr = (if fst b + snd b + 3 \<ge> word2 d (fst b) \<and> word2 d (fst b) > 0
    then (case joinBlocks d hdr (fst b) (snd b) (word2 d (fst b)) of Inl e \<Rightarrow> Some (Inl e) | Inr data \<Rightarrow> coalesce data hdr addr)
    else coalesce d hdr (fst b))"
  by (subst coalesce.simps) (use assms in \<open>simp add: get2byte_ok\<close>)

lemma join_step:
  assumes "joinable d u hdr addr (b # c # bs)" "fst c \<le> fst b + snd b + 3"
  obtains d' where "coalesce d hdr addr = coalesce d' hdr addr" "joinable d' u hdr addr ((fst b, fst c + snd c - fst b) # bs)"
    "unat (d' ! (hdr + 7)) + (fst c + snd c - fst b) = unat (d ! (hdr + 7)) + snd b + snd c"
    "keepsOut d d' (hdr + 7) [(fst b, fst c + snd c - fst b)]"
proof -
  let ?m = "(fst b, fst c + snd c - fst b)"
  have p: "links d addr (b # c # bs) 0" "addr + 1 < length d" "addr + 1 < hdr + 7 \<or> hdr + 7 < addr"
    "\<forall>x \<in> set (b # c # bs). addr + 4 \<le> fst x \<and> hdr + 8 \<le> fst x \<and> 4 \<le> snd x \<and> fst x + snd x \<le> u"
    "loose (b # c # bs)" "u \<le> length d" "u < 65536" "sizes (joinAll (b # c # bs)) \<le> sizes (b # c # bs) + unat (d ! (hdr + 7))"
    using assms(1) unfolding joinable_def by blast+
  have o: "fst b + snd b \<le> fst c" "4 \<le> snd b" "4 \<le> snd c" "fst c + snd c \<le> u" "hdr + 8 \<le> fst b" "addr + 4 \<le> fst b" using p(4,5) by auto
  have m: "snd b + snd c + (fst c - (fst b + snd b)) = fst c + snd c - fst b" using o(1) by simp
  have "sizes (?m # bs) \<le> sizes (joinAll (?m # bs))" by (rule joinAll_sizes [OF loose_join [OF p(5)]])
  moreover have j: "joinAll (b # c # bs) = joinAll (?m # bs)" using assms(2) by simp
  ultimately have f: "fst c - (fst b + snd b) \<le> unat (d ! (hdr + 7))" using p(8) m by simp
  have w: "word2 d addr = fst b" "0 < fst b" "word2 d (fst b + 2) = snd b" "word2 d (fst b) = fst c" "word2 d (fst c + 2) = snd c" "0 < fst c" "links d (fst c) bs 0"
    using p(1) by auto
  define d' where "d' = put2 (put2 (d[hdr + 7 := d ! (hdr + 7) - word_of_int (int (fst c) - int (fst b + snd b))]) (fst b) (int (word2 d (fst c)))) (fst b + 2) (int (fst c + snd c) - int (fst b))"
  have "hdr + 7 < fst b" using o(5) by simp
  note jb = joinBlocks_ok [OF this o(1-4) p(6,7) w(5) f, folded d'_def]
  have "coalesce d hdr addr = coalesce d' hdr addr"
    using coalesce_step [OF p(2) w(1,2) _ w(3), of hdr] o p(6) assms(2) w(4,6) jb(1) by simp
  moreover have k: "keepsOut d d' (hdr + 7) [?m]" using jb(5,6) o unfolding keepsOut_def by auto
  moreover have u: "unat (d' ! (hdr + 7)) + (fst c + snd c - fst b) = unat (d ! (hdr + 7)) + snd b + snd c" using jb(4) f m by simp
  moreover have "joinable d' u hdr addr (?m # bs)" unfolding joinable_def
  proof (intro conjI)
    have "word2 d' addr = word2 d addr" by (rule keepsOut_word2 [OF k p(3)]) (use o(6) in simp)
    moreover have "links d' (fst b) bs 0"
    proof (rule links_agree [OF w(7) jb(2)])
      fix x assume x: "x \<in> set bs"
      then have "fst b + 4 \<le> fst x" "hdr + 7 < fst x" using p(5) o by auto
      then show "word2 d' (fst x) = word2 d (fst x) \<and> word2 d' (fst x + 2) = word2 d (fst x + 2)"
        by (auto intro!: word2_agree jb(6))
    qed
    ultimately show "links d' addr (?m # bs) 0" using w jb(3) by simp
    show "sizes (joinAll (?m # bs)) \<le> sizes (?m # bs) + unat (d' ! (hdr + 7))" using p(8) u unfolding j by simp
    show "loose (?m # bs)" by (rule loose_join [OF p(5)])
  qed (use p o jb(5) in auto)
  ultimately show thesis using that by blast
qed

lemma coalesce_spec: "joinable d u hdr addr bs \<Longrightarrow> \<exists>d'. coalesce d hdr addr = Some (Inr d') \<and> joined d d' hdr addr bs"
proof (induction bs arbitrary: d addr rule: joinAll.induct)
  case (1 b c bs)
  show ?case
  proof (cases "fst c \<le> fst b + snd b + 3")
    case True
    let ?m = "(fst b, fst c + snd c - fst b)"
    from join_step [OF 1(3) True] obtain d1 where
      d1: "coalesce d hdr addr = coalesce d1 hdr addr" "joinable d1 u hdr addr (?m # bs)"
        "unat (d1 ! (hdr + 7)) + (fst c + snd c - fst b) = unat (d ! (hdr + 7)) + snd b + snd c" "keepsOut d d1 (hdr + 7) [?m]" by metis
    from 1(1) [OF True d1(2)] obtain d' where d': "coalesce d1 hdr addr = Some (Inr d')" "joined d1 d' hdr addr (?m # bs)" by blast
    obtain y where y: "y \<in> set (joinAll (?m # bs))" "fst y \<le> fst b" "fst c + snd c \<le> fst y + snd y"
      using joinAll_covers [of "?m # bs" ?m] d1(2) 1(3) by (auto simp: joinable_def)
    have "keepsOut d d' (hdr + 7) (joinAll (?m # bs))"
      unfolding keepsOut_def
    proof (intro conjI allI impI)
      show "length d' = length d" using d'(2) d1(4) by (simp add: joined_def keepsOut_def)
      fix j assume j: "j \<noteq> hdr + 7" "\<forall>b \<in> set (joinAll (?m # bs)). \<not> (fst b \<le> j \<and> j < fst b + snd b)"
      then have e: "d' ! j = d1 ! j" using d'(2) unfolding joined_def keepsOut_def by blast
      have "\<not> (fst b \<le> j \<and> j < fst c + snd c)" using j(2) y by fastforce
      moreover have "fst b + (fst c + snd c - fst b) = fst c + snd c" using 1(3) by (auto simp: joinable_def)
      ultimately have "d1 ! j = d ! j" using d1(4) j(1) unfolding keepsOut_def by simp
      with e show "d' ! j = d ! j" by simp
    qed
    then have "joined d d' hdr addr (b # c # bs)" using d'(2) d1(3) True by (auto simp: joined_def)
    with d' d1(1) show ?thesis by simp
  next
    case False
    have p: "links d addr (b # c # bs) 0" "addr + 1 < length d" "addr + 1 < hdr + 7 \<or> hdr + 7 < addr" "fst b + 3 < length d"
        "\<forall>x \<in> set (c # bs). fst b + 4 \<le> fst x" "addr + 4 \<le> fst b" "hdr + 8 \<le> fst b" "loose (c # bs)"
      using 1(3) by (auto simp: joinable_def)
    have w: "word2 d addr = fst b" "0 < fst b" "word2 d (fst b + 2) = snd b" "word2 d (fst b) = fst c" using p(1) by auto
    have c: "coalesce d hdr addr = coalesce d hdr (fst b)"
      using coalesce_step [OF p(2) w(1,2) p(4) w(3), of hdr] False w(4) by simp
    have "joinable d u hdr (fst b) (c # bs)" using 1(3) False p(5) by (auto simp: joinable_def)
    from 1(2) [OF False this] obtain d' where d': "coalesce d hdr (fst b) = Some (Inr d')" "joined d d' hdr (fst b) (c # bs)" by blast
    have s: "\<forall>y \<in> set (joinAll (c # bs)). fst b + 4 \<le> fst y" using joinAll_starts [OF p(8) p(5)] by blast
    have k: "keepsOut d d' (hdr + 7) (joinAll (c # bs))" using d'(2) by (simp add: joined_def)
    have "word2 d' addr = word2 d addr" by (rule keepsOut_word2 [OF k p(3)]) (use s p(6) in force)
    moreover have "word2 d' (fst b + 2) = word2 d (fst b + 2)" by (rule keepsOut_word2 [OF k]) (use s p(7) in force)+
    ultimately have "joined d d' hdr addr (b # c # bs)" using d'(2) False w k by (auto simp: joined_def keepsOut_def)
    with d' c show ?thesis by simp
  qed
next
  case 2
  then show ?case using coalesce_nil [of addr d hdr] by (auto simp: joinable_def joined_def keepsOut_def)
next
  case (3 b)
  then have p: "addr + 1 < length d" "word2 d addr = fst b" "0 < fst b" "fst b + 3 < length d" "word2 d (fst b + 2) = snd b" "word2 d (fst b) = 0"
    by (auto simp: joinable_def)
  have "coalesce d hdr addr = Some (Inr d)" using coalesce_step [OF p(1-5), of hdr] coalesce_nil [of "fst b" d hdr] p(4,6) by simp
  with 3 show ?case by (auto simp: joinable_def joined_def keepsOut_def)
qed
text \<open>The released region joins the chain, which is then joined up.\<close>

definition firstOr0 :: "region list \<Rightarrow> nat" where
  "firstOr0 bs = (case bs of [] \<Rightarrow> 0 | b # _ \<Rightarrow> fst b)"

lemma links_first: "links d a bs 0 \<Longrightarrow> word2 d a = firstOr0 bs"
  by (cases bs) (auto simp: firstOr0_def)

definition linkIn :: "byte list \<Rightarrow> nat \<Rightarrow> region \<Rightarrow> nat \<Rightarrow> byte list" where
  "linkIn d t x e = put2 (put2 (put2 d t (int (fst x))) (fst x) (int e)) (fst x + 2) (int (snd x))"

lemma linkIn_words:
  assumes "t + 4 \<le> fst x" "fst x + 3 < length d" "fst x < 65536" "e < 65536" "snd x < 65536"
  shows "word2 (linkIn d t x e) t = fst x" "word2 (linkIn d t x e) (fst x) = e" "word2 (linkIn d t x e) (fst x + 2) = snd x"
    "\<And>a. a + 1 < t \<or> t + 1 < a \<Longrightarrow> a + 1 < fst x \<or> fst x + 3 < a \<Longrightarrow> word2 (linkIn d t x e) a = word2 d a"
    "\<And>j. j \<notin> {t, t + 1} \<Longrightarrow> j < fst x \<or> fst x + 4 \<le> j \<Longrightarrow> linkIn d t x e ! j = d ! j" "length (linkIn d t x e) = length d"
  using assms by (auto simp: linkIn_def word2_put2_apart word2_put2 nth_put2)

lemma release_order:
  assumes s: "space d hdr u lim (x # used) (bs1 @ bs2)" and o: "\<forall>b \<in> set bs1. fst b < fst x" "\<forall>b \<in> set bs2. fst x \<le> fst b"
  shows "loose (bs1 @ x # bs2)" "tailAddr (hdr + 1) bs1 + 4 \<le> fst x"
proof -
  have ap: "apart x b \<and> 4 \<le> snd b" if "b \<in> set bs1 \<union> set bs2" for b using s that by (auto simp: space_def within_def)
  have x: "4 \<le> snd x" "hdr + 8 \<le> fst x" using space_bounds(3) [OF s] by auto
  have b1: "fst b + snd b \<le> fst x" if "b \<in> set bs1" for b using ap [of b] o(1) that x(1) by (auto simp: apart_def)
  have b2: "fst x + snd x \<le> fst b" if "b \<in> set bs2" for b
    using ap [of b] o(2) that x(1) by (force simp: apart_def)
  have "sorted_wrt (\<lambda>x y. fst x + snd x \<le> fst y) (bs1 @ bs2)"
    using s unfolding space_def by (auto elim!: sorted_wrt_mono_rel [rotated] simp: spaced_def)
  with b1 b2 show "loose (bs1 @ x # bs2)" by (auto simp: loose_def sorted_wrt_append)
  have "tailAddr (hdr + 1) bs1 = hdr + 1 \<or> (\<exists>y \<in> set bs1. tailAddr (hdr + 1) bs1 = fst y)" by (auto simp: tailAddr_def)
  with b1 ap x show "tailAddr (hdr + 1) bs1 + 4 \<le> fst x" by fastforce
qed

lemma linkIn_ok:
  assumes s: "space d hdr u lim (x # used) (bs1 @ bs2)" and o: "\<forall>b \<in> set bs1. fst b < fst x" "\<forall>b \<in> set bs2. fst x \<le> fst b"
  defines "d' \<equiv> linkIn d (tailAddr (hdr + 1) bs1) x (firstOr0 bs2)"
  shows "links d' (hdr + 1) (bs1 @ x # bs2) 0" "keeps d d' hdr (x # bs1)"
    "word2 d' (hdr + 5) = word2 d (hdr + 5)" "d' ! (hdr + 7) = d ! (hdr + 7)"
proof -
  define t where "t = tailAddr (hdr + 1) bs1"
  note b = space_bounds [OF s]
  note so = sorted_split [OF space_addrs [OF s], folded t_def]
  have x: "4 \<le> snd x" "hdr + 8 \<le> fst x" "fst x + snd x \<le> length d" "fst x + snd x < 65536" using b(3) s by (auto simp: space_def within_def)
  have tx: "t + 4 \<le> fst x" using release_order(2) [OF s o] by (simp add: t_def)
  have l: "links d (hdr + 1) bs1 (word2 d t)" "links d t bs2 0" using space_links [OF s] by (auto simp: links_append t_def)
  have "firstOr0 bs2 < 65536" using links_first [OF l(2)] word2_less [of d t] by simp
  note w = linkIn_words [OF tx _ _ this, of d, folded d'_def [folded t_def]]
  have w: "word2 d' t = fst x" "word2 d' (fst x) = firstOr0 bs2" "word2 d' (fst x + 2) = snd x"
    "\<And>a. a + 1 < t \<or> t + 1 < a \<Longrightarrow> a + 1 < fst x \<or> fst x + 3 < a \<Longrightarrow> word2 d' a = word2 d a"
    "\<And>j. j \<notin> {t, t + 1} \<Longrightarrow> j < fst x \<or> fst x + 4 \<le> j \<Longrightarrow> d' ! j = d ! j" "length d' = length d"
    using w x by simp_all
  have lo: "loose (bs1 @ x # bs2)" by (rule release_order(1) [OF s o])
  have tl: "t = hdr + 1 \<or> hdr + 8 \<le> t" using so(4) b(2) by auto
  have "links d' (hdr + 1) bs1 (word2 d' t)" unfolding t_def
  proof (rule links_retarget [OF l(1)])
    fix y assume y: "y \<in> set bs1"
    then have "fst y + snd y \<le> fst x" "4 \<le> snd y" using lo b(2) by (auto simp: loose_def sorted_wrt_append)
    then have "fst y + 4 \<le> fst x" by linarith
    then show "word2 d' (fst y + 2) = word2 d (fst y + 2)" using so(2) y by (intro w(4)) auto
  next
    fix a assume "a \<in> set (butlast ((hdr + 1) # map fst bs1))"
    then show "word2 d' a = word2 d a" using so(1) tx by (intro w(4)) auto
  qed
  moreover have "links d' (fst x) bs2 0"
  proof (rule links_agree [OF l(2)])
    show "word2 d' (fst x) = word2 d t" using w(2) links_first [OF l(2)] by simp
    fix y assume "y \<in> set bs2"
    then have "fst x + 4 \<le> fst y" using lo x(1) by (auto simp: loose_def sorted_wrt_append)
    then show "word2 d' (fst y) = word2 d (fst y) \<and> word2 d' (fst y + 2) = word2 d (fst y + 2)" using tx by (auto intro!: w(4))
  qed
  ultimately show "links d' (hdr + 1) (bs1 @ x # bs2) 0" using w(1,3) x(2) by (simp add: links_append t_def)
  show "word2 d' (hdr + 5) = word2 d (hdr + 5)" by (rule w(4)) (use tl x in auto)
  show "d' ! (hdr + 7) = d ! (hdr + 7)" by (rule w(5)) (use tl x in auto)
  show "keeps d d' hdr (x # bs1)" unfolding keeps_def
  proof (intro conjI allI impI, rule w(6))
    fix j assume j: "j \<notin> {hdr + 1, hdr + 2, hdr + 5, hdr + 6, hdr + 7}" "\<forall>b \<in> set (x # bs1). \<not> (fst b \<le> j \<and> j < fst b + snd b)"
    have "j \<notin> {t, t + 1}"
    proof (cases "t = hdr + 1")
      case False
      then obtain y where y: "y \<in> set bs1" "t = fst y" using so(4) by auto
      then have "4 \<le> snd y" "\<not> (fst y \<le> j \<and> j < fst y + snd y)" using b(2) j(2) by auto
      then show ?thesis using y(2) by auto
    qed (use j(1) in auto)
    moreover have "\<not> (fst x \<le> j \<and> j < fst x + snd x)" using j(2) by simp
    ultimately show "d' ! j = d ! j" using x(1) by (intro w(5)) auto
  qed
qed
text \<open>A free block at the start of the content area goes back to the gap.\<close>

lemma digits_eq: "x * 256 + r = y * 256 + s \<Longrightarrow> r < 256 \<Longrightarrow> s < 256 \<Longrightarrow> x = y \<and> r = (s :: nat)"
proof -
  assume a: "x * 256 + r = y * 256 + s" "r < 256" "s < 256"
  have "x = y" using arg_cong [OF a(1), of "\<lambda>n. n div 256"] a(2,3) by simp
  with a(1) show ?thesis by simp
qed

lemma word2_eq: "word2 d a = word2 d b \<longleftrightarrow> d ! a = d ! b \<and> d ! (a + 1) = d ! (b + 1)"
proof
  assume "word2 d a = word2 d b"
  then have "unat (d ! a) = unat (d ! b) \<and> unat (d ! (a + 1)) = unat (d ! (b + 1))"
    unfolding word2_def by (rule digits_eq) simp_all
  then show "d ! a = d ! b \<and> d ! (a + 1) = d ! (b + 1)" by (simp add: word_unat_eq_iff)
qed (simp add: word2_def)

lemma dropFirst_head:
  assumes s: "space d hdr u lim used (b # bs)" and t: "fst b = word2 d (hdr + 5)"
  defines "d' \<equiv> put2 (d[hdr + 1 := d ! fst b, hdr + 2 := d ! (fst b + 1)]) (hdr + 5) (int (fst b + snd b))"
  shows "dropFirst d hdr = Inr d' \<and> space d' hdr u lim used bs \<and> keeps d d' hdr []"
proof (intro conjI)
  define d1 where "d1 = d[hdr + 1 := d ! fst b, hdr + 2 := d ! (fst b + 1)]"
  note bd = space_bounds [OF s]
  have b: "fst b + 3 < length d" "hdr + 8 \<le> fst b" "4 \<le> snd b" "fst b + snd b \<le> u" "u < 65536" using bd(2) s by (auto simp: space_def)
  have l: "word2 d (hdr + 1) = fst b" "word2 d (fst b + 2) = snd b" "links d (fst b) bs 0" using space_links [OF s] by auto
  have e: "d ! (hdr + 1) = d ! (hdr + 5)" "d ! (hdr + 2) = d ! (hdr + 6)"
    using word2_eq [of d "hdr + 1" "hdr + 5"] l(1) t by (auto simp: add.commute)
  have w1: "word2 d1 a = word2 d a" if "hdr + 3 \<le> a" for a using that by (simp add: d1_def word2_def)
  have len: "length d1 = length d" by (simp add: d1_def)
  have "put2byteOf d1 (hdr + 5) (\<lambda>d. bindR (get2byte d (fst b + 2)) (\<lambda>sz. Inr (int (fst b + sz)))) = Inr d'"
    unfolding d'_def d1_def [symmetric]
    by (rule put2byteOf_ok) (use b len w1 [of "fst b + 2"] l(2) in \<open>simp_all add: get2byte_ok word2_update\<close>)
  moreover have "get2byte d1 (hdr + 5) = Inr (fst b)" using b len w1 [of "hdr + 5"] t by (simp add: get2byte_ok)
  moreover have "get2byte d (hdr + 1) = Inr (fst b)" using b l(1) by (simp add: get2byte_ok)
  ultimately show "dropFirst d hdr = Inr d'"
    using b e by (simp add: dropFirst_def d1_def)
  have w: "word2 d' a = word2 d a" if "hdr + 8 \<le> a" for a
    unfolding d'_def d1_def [symmetric] using that w1 [of a] by (simp add: word2_put2_apart)
  have top: "word2 d' (hdr + 5) = fst b + snd b" unfolding d'_def using b by (subst word2_put2) auto
  have "word2 d' (hdr + 1) = word2 d1 (hdr + 1)" unfolding d'_def d1_def [symmetric] by (rule word2_put2_apart) simp
  also have "\<dots> = word2 d (fst b)" using b by (simp add: d1_def word2_def)
  finally have lk: "links d' (hdr + 1) bs 0" by (rule links_agree [OF l(3)]) (use bd(2) w in auto)
  have fr: "d' ! (hdr + 7) = d ! (hdr + 7)" "length d' = length d" by (simp_all add: d'_def nth_put2)
  have "within (fst b + snd b) u x" if x: "x \<in> set used \<union> set bs" for x
  proof -
    have "apart x b" "within (fst b) u x" using s x t by (auto simp: space_def apart_def spaced_def)
    then show ?thesis using b(3) unfolding apart_def within_def by linarith
  qed
  moreover have "lim \<le> fst b" using bd(2) by simp
  ultimately show "space d' hdr u lim used bs"
    using s b(4) t lk fr unfolding space_def top by auto
  show "keeps d d' hdr []" unfolding keeps_def using fr(2) by (auto simp: d'_def nth_put2)
qed

lemma dropFirst_ok:
  assumes s: "space d hdr u lim used blocks"
  shows "\<exists>d' blocks'. dropFirst d hdr = Inr d' \<and> space d' hdr u lim used blocks' \<and> keeps d d' hdr []"
proof (cases "word2 d (hdr + 1) = word2 d (hdr + 5)")
  case True
  moreover have "0 < word2 d (hdr + 5)" using s by (auto simp: space_def)
  ultimately obtain b bs where "blocks = b # bs" "fst b = word2 d (hdr + 5)" using space_links [OF s] by (cases blocks) auto
  with dropFirst_head s show ?thesis by blast
next
  case False
  then have "d ! (hdr + 1) \<noteq> d ! (hdr + 5) \<or> d ! (hdr + 2) \<noteq> d ! (hdr + 6)" using word2_eq [of d "hdr + 1" "hdr + 5"] by (auto simp: add.commute)
  then have "dropFirst d hdr = Inr d" using space_bounds(1) [OF s] by (auto simp: dropFirst_def)
  with s show ?thesis using keeps_refl by blast
qed

text \<open>Joining the chain after a region has been linked in.\<close>

lemma release_joined:
  assumes s: "space d hdr u lim (x # used) (bs1 @ bs2)" and o: "\<forall>b \<in> set bs1. fst b < fst x" "\<forall>b \<in> set bs2. fst x \<le> fst b"
  shows "\<exists>d'. coalesce (linkIn d (tailAddr (hdr + 1) bs1) x (firstOr0 bs2)) hdr (hdr + 1) = Some (Inr d')
    \<and> space d' hdr u lim used (joinAll (bs1 @ x # bs2)) \<and> keeps d d' hdr (joinAll (bs1 @ x # bs2))"
proof -
  define d1 where "d1 = linkIn d (tailAddr (hdr + 1) bs1) x (firstOr0 bs2)"
  let ?bs = "bs1 @ x # bs2"
  let ?t = "word2 d (hdr + 5)"
  note k = linkIn_ok [OF s o, folded d1_def]
  have lo: "loose ?bs" by (rule release_order(1) [OF s o])
  have len: "length d1 = length d" using k(2) by (simp add: keeps_def)
  have w: "\<forall>y \<in> set ?bs. within ?t u y" using s by (auto simp: space_def)
  have jw: "\<forall>y \<in> set (joinAll ?bs). within ?t u y" by (rule joinAll_within [OF lo w])
  have ja: "apart y b" if y: "y \<in> set used" and b: "b \<in> set (joinAll ?bs)" for y b
  proof (rule joinAll_apart [OF lo _ _ b])
    show "4 \<le> snd y" using space_bounds(3) [OF s] y by simp
    have "0 < snd b" if "b \<in> set ?bs" for b using bspec [OF w that] by (simp add: within_def)
    moreover have "apart x y" "\<forall>b \<in> set bs1 \<union> set bs2. apart y b" using s y by (auto simp: space_def)
    ultimately show "\<forall>b \<in> set ?bs. 0 < snd b \<and> apart y b" using apart_sym [of x y] by auto
  qed
  have "sorted_wrt apart (used @ joinAll ?bs)"
    using s ja loose_apart [of "joinAll ?bs"] joinAll_spaced [OF lo]
    by (auto simp: space_def sorted_wrt_append elim!: sorted_wrt_mono_rel [rotated]) (auto simp: apart_def spaced_def)
  then have "sizes (used @ joinAll ?bs) \<le> u - ?t"
    by (rule apart_fits) (use jw s in \<open>auto simp: space_def within_def\<close>)
  then have sz: "sizes (joinAll ?bs) \<le> sizes ?bs + unat (d1 ! (hdr + 7))" using s unfolding k(4) by (auto simp: space_def)
  have t: "hdr + 8 \<le> ?t" using s by (simp add: space_def)
  have "joinable d1 u hdr (hdr + 1) ?bs"
    unfolding joinable_def
  proof (intro conjI ballI)
    fix b assume "b \<in> set ?bs"
    then have "within ?t u b" using w by blast
    then show "hdr + 1 + 4 \<le> fst b" "hdr + 8 \<le> fst b" "4 \<le> snd b" "fst b + snd b \<le> u" using t by (simp_all add: within_def)
  qed (use k(1) lo sz s len space_bounds(1) [OF s] in \<open>simp_all add: space_def\<close>)
  from coalesce_spec [OF this] obtain d' where d': "coalesce d1 hdr (hdr + 1) = Some (Inr d')" "joined d1 d' hdr (hdr + 1) ?bs" by blast
  have ko: "keepsOut d1 d' (hdr + 7) (joinAll ?bs)" using d'(2) by (simp add: joined_def)
  have "word2 d' (hdr + 5) = word2 d1 (hdr + 5)" by (rule keepsOut_word2 [OF ko]) (use jw t in \<open>auto simp: within_def\<close>)
  then have top: "word2 d' (hdr + 5) = ?t" using k(3) by simp
  have "space d' hdr u lim used (joinAll ?bs)"
    unfolding space_def top
    using s d'(2) ko len k(4) jw ja joinAll_spaced [OF lo] by (auto simp: space_def joined_def keepsOut_def)
  moreover have "keeps d d' hdr (joinAll ?bs)"
    unfolding keeps_def
  proof (intro conjI allI impI)
    show "length d' = length d" using ko len by (simp add: keepsOut_def)
    fix j assume j: "j \<notin> {hdr + 1, hdr + 2, hdr + 5, hdr + 6, hdr + 7}" "\<forall>b \<in> set (joinAll ?bs). \<not> (fst b \<le> j \<and> j < fst b + snd b)"
    have "d' ! j = d1 ! j" using ko j unfolding keepsOut_def by auto
    moreover have "\<forall>b \<in> set (x # bs1). \<not> (fst b \<le> j \<and> j < fst b + snd b)"
    proof
      fix b assume "b \<in> set (x # bs1)"
      then obtain y where "y \<in> set (joinAll ?bs)" "fst y \<le> fst b" "fst b + snd b \<le> fst y + snd y" using joinAll_covers [OF lo, of b] by auto
      then show "\<not> (fst b \<le> j \<and> j < fst b + snd b)" using j(2) by fastforce
    qed
    ultimately show "d' ! j = d ! j" using k(2) j(1) unfolding keeps_def by auto
  qed
  ultimately show ?thesis using d'(1) unfolding d1_def by blast
qed
text \<open>freeSpace returns a region in use to the free space.\<close>

lemma freeSpace_ok:
  assumes s: "space (aData pg) (hdrOffset pg) u lim ((start, sz) # used) blocks"
  shows "\<exists>d' blocks'. freeSpace pg start sz = Some (Inr (pg\<lparr>aData := d', nFree := (nFree pg + sz) mod 65536\<rparr>))
    \<and> space d' (hdrOffset pg) u lim used blocks'
    \<and> (\<forall>x \<in> set used. bytesAt d' x = bytesAt (aData pg) x)
    \<and> length d' = length (aData pg)
    \<and> (\<forall>j < lim. j \<notin> {hdrOffset pg + 1, hdrOffset pg + 2, hdrOffset pg + 5, hdrOffset pg + 6, hdrOffset pg + 7} \<longrightarrow> d' ! j = aData pg ! j)"
proof -
  let ?d = "aData pg" and ?h = "hdrOffset pg" and ?x = "(start, sz)"
  define bs1 where "bs1 = takeWhile (\<lambda>b. fst b < start) blocks"
  define bs2 where "bs2 = dropWhile (\<lambda>b. fst b < start) blocks"
  have bl: "blocks = bs1 @ bs2" by (simp add: bs1_def bs2_def)
  have s': "space ?d ?h u lim (?x # used) (bs1 @ bs2)" using s bl by simp
  have o1: "\<forall>b \<in> set bs1. fst b < fst ?x" by (auto simp: bs1_def dest: set_takeWhileD)
  have "sorted_wrt (\<lambda>x y. fst x \<le> fst y) bs2"
    using s' by (auto simp: space_def sorted_wrt_append spaced_def elim!: sorted_wrt_mono_rel [rotated])
  moreover have "bs2 \<noteq> [] \<Longrightarrow> start \<le> fst (hd bs2)" unfolding bs2_def by (metis (mono_tags, lifting) hd_dropWhile not_le)
  ultimately have o2: "\<forall>b \<in> set bs2. fst ?x \<le> fst b" by (cases bs2) auto
  note b = space_bounds [OF s]
  have ip: "insertPoint ?d start (?h + 1) = Some (Inr (tailAddr (?h + 1) bs1, firstOr0 bs2))"
    using insertPoint_spec [OF space_links [OF s], of start] b by (simp add: bs1_def bs2_def firstOr0_def)
  have x: "4 \<le> sz" "?h + 8 \<le> start" "start + sz \<le> length ?d" using b(3) by auto
  have "tailAddr (?h + 1) bs1 + 4 \<le> start" using release_order(2) [OF s' o1 o2] by simp
  then have p: "bindR (put2byte ?d (tailAddr (?h + 1) bs1) (int start)) (\<lambda>data. bindR (put2byte data start (int (firstOr0 bs2))) (\<lambda>data.
      put2byte data (start + 2) (int sz))) = Inr (linkIn ?d (tailAddr (?h + 1) bs1) ?x (firstOr0 bs2))"
    using x by (simp add: put2byte_ok linkIn_def)
  from release_joined [OF s' o1 o2] obtain d1 where d1:
    "coalesce (linkIn ?d (tailAddr (?h + 1) bs1) ?x (firstOr0 bs2)) ?h (?h + 1) = Some (Inr d1)"
    "space d1 ?h u lim used (joinAll (bs1 @ ?x # bs2))" "keeps ?d d1 ?h (joinAll (bs1 @ ?x # bs2))" by blast
  from dropFirst_ok [OF d1(2)] obtain d2 bl' where d2: "dropFirst d1 ?h = Inr d2" "space d2 ?h u lim used bl'" "keeps d1 d2 ?h []" by blast
  have k: "keeps ?d d2 ?h (joinAll (bs1 @ ?x # bs2))" by (rule keeps_trans [OF d1(3)]) (rule keeps_mono [OF d2(3)], simp)
  have "freeSpace pg start sz = Some (Inr (pg\<lparr>aData := d2, nFree := (nFree pg + sz) mod 65536\<rparr>))"
    using x(1) ip p d1(1) d2(1) by (simp add: freeSpace_def Let_def)
  moreover have "bytesAt d2 y = bytesAt ?d y" if "y \<in> set used" for y
    by (rule keeps_bytes [OF k]) (use d1(2) space_bounds(3) [OF d1(2)] that in \<open>auto simp: space_def\<close>)
  moreover have "d2 ! j = ?d ! j" if "j < lim" "j \<notin> {?h + 1, ?h + 2, ?h + 5, ?h + 6, ?h + 7}" for j
    by (rule keeps_low [OF k _ that]) (use space_bounds(2) [OF d1(2)] in auto)
  moreover have "length d2 = length ?d" using k by (simp add: keeps_def)
  ultimately show ?thesis using d2(2) by blast
qed

end
