(* ===== verification/PageCells.thy ===== *)
theory PageCells
  imports PageSpace
begin

text \<open>
  The cells of a B-tree page. Defragmentation and allocation keep the cells of a page; a cell
  pointer is the address of a region in use. Shown: on a page with the layout of PageSpace,
  insertCell, dropCell and assemblePage are the list operations on the cells, and a page that
  is read back has the same cells and the same free space.
\<close>

subsection \<open>Defragmentation\<close>

text \<open>A cell that carries its own size, whatever bytes follow it.\<close>

definition wfCell :: "MemPage \<Rightarrow> byte list \<Rightarrow> bool" where
  "wfCell pg c \<longleftrightarrow> 4 \<le> length c \<and> (\<forall>r. cellSizePtr pg (c @ r) = Inr (length c))"

definition overwrite :: "byte list \<Rightarrow> nat \<Rightarrow> byte list \<Rightarrow> byte list" where
  "overwrite d a c = take a d @ c @ drop (a + length c) d"

lemma overwrite_ok:
  assumes "a + length c \<le> length d"
  shows "length (overwrite d a c) = length d" "bytesAt (overwrite d a c) (a, length c) = c"
    "j < a \<or> a + length c \<le> j \<Longrightarrow> overwrite d a c ! j = d ! j"
  using assms by (auto simp: overwrite_def bytesAt_def nth_append)

lemma length_bytesAt [simp]: "fst x + snd x \<le> length d \<Longrightarrow> length (bytesAt d x) = snd x"
  by (simp add: bytesAt_def)

lemma memcpyB_overwrite: "a + n \<le> length d \<Longrightarrow> s + n \<le> length src \<Longrightarrow> memcpyB d a src s n = Inr (overwrite d a (bytesAt src (s, n)))"
  by (simp add: memcpyB_def overwrite_def bytesAt_def)

lemma bytesAt_size: "wfCell pg (bytesAt d x) \<Longrightarrow> fst x + snd x \<le> length d \<Longrightarrow> cellSizePtr pg (drop (fst x) d) = Inr (snd x)"
  unfolding wfCell_def bytesAt_def by (metis append_take_drop_id length_bytesAt bytesAt_def)

text \<open>The cells one below the other, from an address down.\<close>

fun placeDown :: "nat \<Rightarrow> region list \<Rightarrow> region list" where
  "placeDown brk [] = []"
| "placeDown brk (x # xs) = (brk - snd x, snd x) # placeDown (brk - snd x) xs"

lemma placeDown_sizes [simp]: "sizes (placeDown brk xs) = sizes xs" "length (placeDown brk xs) = length xs"
  by (induction xs arbitrary: brk) auto

lemma placeDown_range:
  "sizes xs \<le> brk \<Longrightarrow> y \<in> set (placeDown brk xs) \<Longrightarrow> brk - sizes xs \<le> fst y \<and> fst y + snd y \<le> brk \<and> snd y \<in> snd ` set xs"
proof (induction xs arbitrary: brk)
  case (Cons x xs)
  show ?case
  proof (cases "y = (brk - snd x, snd x)")
    case False
    then have y: "y \<in> set (placeDown (brk - snd x) xs)" using Cons.prems(2) by simp
    have "sizes xs \<le> brk - snd x" using Cons.prems(1) by simp
    from Cons.IH [OF this y] show ?thesis by auto
  qed (use Cons.prems in auto)
qed simp

lemma placeDown_apart: "sizes xs \<le> brk \<Longrightarrow> sorted_wrt apart (placeDown brk xs)"
proof (induction xs arbitrary: brk)
  case (Cons x xs)
  have "sizes xs \<le> brk - snd x" using Cons.prems by simp
  then have "apart (brk - snd x, snd x) y" if "y \<in> set (placeDown (brk - snd x) xs)" for y
    using placeDown_range [OF _ that] by (simp add: apart_def)
  with Cons show ?case by simp
qed simp

definition points :: "byte list \<Rightarrow> nat \<Rightarrow> region list \<Rightarrow> bool" where
  "points d a xs \<longleftrightarrow> (\<forall>i < length xs. word2 d (a + 2 * i) = fst (xs ! i))"

lemma points_Nil [simp]: "points d a []"
  by (simp add: points_def)

lemma all_less_Suc_shift: "(\<forall>i < Suc n. P i) \<longleftrightarrow> P 0 \<and> (\<forall>i < n. P (Suc i))"
  by (auto simp: less_Suc_eq_0_disj)

lemma points_Cons [simp]: "points d a (x # xs) \<longleftrightarrow> word2 d a = fst x \<and> points d (a + 2) xs"
  by (simp add: points_def all_less_Suc_shift add.assoc)

lemma points_append: "points d a (xs @ ys) \<longleftrightarrow> points d a xs \<and> points d (a + 2 * length xs) ys"
  by (induction xs arbitrary: a) (auto simp: algebra_simps)

lemma points_agree: "points d a xs \<Longrightarrow> (\<And>j. a \<le> j \<Longrightarrow> j < a + 2 * length xs \<Longrightarrow> d' ! j = d ! j) \<Longrightarrow> points d' a xs"
  unfolding points_def word2_def by auto

lemma defragLoop_spec:
  assumes "points data (cellOffset pg + 2 * i) xs" "\<forall>x \<in> set xs. wfCell pg (bytesAt temp x) \<and> fst x + snd x \<le> length temp"
    "cellOffset pg + 2 * (i + length xs) + sizes xs \<le> brk" "brk \<le> length data" "brk < 65536"
  shows "\<exists>d'. defragLoop pg temp (length xs) i data brk = Inr (d', brk - sizes xs) \<and> length d' = length data
    \<and> points d' (cellOffset pg + 2 * i) (placeDown brk xs) \<and> map (bytesAt d') (placeDown brk xs) = map (bytesAt temp) xs
    \<and> (\<forall>j. j < cellOffset pg + 2 * i \<or> cellOffset pg + 2 * (i + length xs) \<le> j \<and> j < brk - sizes xs \<or> brk \<le> j \<longrightarrow> d' ! j = data ! j)"
  using assms
proof (induction xs arbitrary: i data brk)
  case (Cons x xs)
  let ?a = "cellOffset pg + 2 * i"
  define b where "b = brk - snd x"
  define d1 where "d1 = overwrite data b (bytesAt temp x)"
  define d2 where "d2 = put2 d1 ?a (int b)"
  have x: "wfCell pg (bytesAt temp x)" "fst x + snd x \<le> length temp" using Cons.prems(2) by auto
  have sz: "?a + 2 + 2 * length xs + sizes xs + snd x \<le> brk" "b + snd x = brk" using Cons.prems(3) by (auto simp: b_def)
  have len: "length (bytesAt temp x) = snd x" using x(2) by simp
  have fit: "b + length (bytesAt temp x) \<le> length data" using len sz(2) Cons.prems(4) by simp
  note s1 = overwrite_ok [OF fit, folded d1_def, unfolded len]
  have l2: "length d2 = length data" by (simp add: d2_def s1)
  have w2: "d2 ! j = data ! j" if "j \<noteq> ?a" "j \<noteq> ?a + 1" "j < b \<or> brk \<le> j" for j
    using that s1(3) [of j] sz(2) by (simp add: d2_def nth_put2)
  have go: "defragLoop pg temp (length (x # xs)) i data brk = defragLoop pg temp (length xs) (i + 1) d2 b"
    using Cons.prems(1,4) sz x bytesAt_size [OF x] s1(1)
    by (simp add: get2byte_ok memcpyB_overwrite put2byte_ok Let_def d2_def d1_def b_def)
  have "points d2 (cellOffset pg + 2 * (i + 1)) xs"
    by (rule points_agree [of data]) (use Cons.prems(1) sz in \<open>auto intro!: w2\<close>)
  moreover have "cellOffset pg + 2 * (i + 1 + length xs) + sizes xs \<le> b" using sz by simp
  moreover have "b \<le> length d2" "b < 65536" using Cons.prems(4,5) sz(2) l2 by auto
  ultimately obtain d' where d': "defragLoop pg temp (length xs) (i + 1) d2 b = Inr (d', b - sizes xs)" "length d' = length d2"
      "points d' (?a + 2) (placeDown b xs)" "map (bytesAt d') (placeDown b xs) = map (bytesAt temp) xs"
      "\<And>j. j < ?a + 2 \<or> ?a + 2 + 2 * length xs \<le> j \<and> j < b - sizes xs \<or> b \<le> j \<Longrightarrow> d' ! j = d2 ! j"
    using Cons.IH [of d2 "i + 1" b] Cons.prems(2) by (auto simp: algebra_simps)
  have "word2 d' ?a = word2 d2 ?a" by (rule word2_agree) (auto intro!: d'(5))
  also have "\<dots> = b" unfolding d2_def using Cons.prems(4,5) sz s1(1) by (subst word2_put2) auto
  finally have "points d' ?a (placeDown brk (x # xs))" using d'(3) by (simp add: b_def)
  moreover have "bytesAt d' (b, snd x) = bytesAt temp x"
  proof -
    have "bytesAt d' (b, snd x) = bytesAt d1 (b, snd x)"
      by (rule bytesAt_agree) (use d'(2) l2 s1(1) sz in \<open>auto simp: d'(5) d2_def nth_put2\<close>)
    then show ?thesis using s1(2) by simp
  qed
  moreover have "d' ! j = data ! j" if "j < ?a \<or> ?a + 2 + 2 * length xs \<le> j \<and> j < b - sizes xs \<or> brk \<le> j" for j
  proof -
    have "j < b \<or> brk \<le> j" "j \<noteq> ?a" "j \<noteq> ?a + 1" using that sz by linarith+
    then show ?thesis using w2 [of j] d'(5) [of j] that sz(2) by simp linarith
  qed
  ultimately show ?case using go d'(1,2,4) l2 by (auto simp: b_def algebra_simps)
qed auto
text \<open>What the operations on the space of a page leave of the bytes below an address.\<close>

definition keepsLow :: "byte list \<Rightarrow> byte list \<Rightarrow> nat \<Rightarrow> nat \<Rightarrow> bool" where
  "keepsLow d d' hdr a \<longleftrightarrow> length d' = length d
     \<and> (\<forall>j < a. j \<notin> {hdr + 1, hdr + 2, hdr + 5, hdr + 6, hdr + 7} \<longrightarrow> d' ! j = d ! j)"

lemma keepsLow_trans: "keepsLow d d' hdr a \<Longrightarrow> keepsLow d' d'' hdr a \<Longrightarrow> keepsLow d d'' hdr a"
  by (simp add: keepsLow_def)

lemma keepsLow_mono: "keepsLow d d' hdr a \<Longrightarrow> b \<le> a \<Longrightarrow> keepsLow d d' hdr b"
  by (simp add: keepsLow_def)

lemma keeps_keepsLow: "keeps d d' hdr bs \<Longrightarrow> \<forall>b \<in> set bs. a \<le> fst b \<Longrightarrow> keepsLow d d' hdr a"
  unfolding keepsLow_def by (auto intro: keeps_low) (simp add: keeps_def)

text \<open>The same cells, possibly elsewhere on the page.\<close>

definition moved :: "byte list \<Rightarrow> region list \<Rightarrow> byte list \<Rightarrow> region list \<Rightarrow> nat \<Rightarrow> bool" where
  "moved d xs d' xs' co \<longleftrightarrow> points d' co xs' \<and> map (bytesAt d') xs' = map (bytesAt d) xs"

lemma temp_copy:
  assumes "within t u x" "u \<le> length d" "u \<le> length temp"
  shows "bytesAt (overwrite temp t (bytesAt d (t, u - t))) x = bytesAt d x"
  using assms by (auto simp: bytesAt_def overwrite_def within_def nth_append intro!: nth_equalityI)

lemma defrag_cells:
  assumes s: "space d hdr u lim xs bl" and p: "points d (cellOffset pg) xs" "cellOffset pg + 2 * length xs \<le> lim"
    and c: "\<forall>x \<in> set xs. wfCell pg (bytesAt d x)" and t: "u \<le> length temp"
  defines "temp' \<equiv> overwrite temp (word2 d (hdr + 5)) (bytesAt d (word2 d (hdr + 5), u - word2 d (hdr + 5)))"
  shows "\<exists>d'. defragLoop pg temp' (length xs) 0 d u = Inr (d', u - sizes xs) \<and> length d' = length d
    \<and> moved d xs d' (placeDown u xs) (cellOffset pg) \<and> (\<forall>j < cellOffset pg. d' ! j = d ! j)"
proof -
  have w: "within (word2 d (hdr + 5)) u x" "u \<le> length d" if "x \<in> set xs" for x using s that by (auto simp: space_def)
  have len: "u \<le> length temp'" unfolding temp'_def using s t by (subst overwrite_ok) (auto simp: space_def)
  have cp: "bytesAt temp' x = bytesAt d x" if "x \<in> set xs" for x
    unfolding temp'_def by (rule temp_copy [OF w(1) w(2) t]) (rule that)+
  have "\<forall>x \<in> set xs. wfCell pg (bytesAt temp' x) \<and> fst x + snd x \<le> length temp'"
    using cp c w(1) len by (fastforce simp: within_def)
  moreover have "points d (cellOffset pg + 2 * 0) xs" using p(1) by simp
  moreover have "cellOffset pg + 2 * (0 + length xs) + sizes xs \<le> u" using p(2) s by (simp add: space_def)
  moreover have "u \<le> length d" "u < 65536" using s by (auto simp: space_def)
  ultimately obtain d' where d': "defragLoop pg temp' (length xs) 0 d u = Inr (d', u - sizes xs)" "length d' = length d"
    "points d' (cellOffset pg + 2 * 0) (placeDown u xs)" "map (bytesAt d') (placeDown u xs) = map (bytesAt temp') xs"
    "\<forall>j. j < cellOffset pg + 2 * 0 \<or> cellOffset pg + 2 * (0 + length xs) \<le> j \<and> j < u - sizes xs \<or> u \<le> j \<longrightarrow> d' ! j = d ! j"
    using defragLoop_spec [of d pg 0 xs temp' u] by blast
  moreover have "map (bytesAt temp') xs = map (bytesAt d) xs" using cp by simp
  ultimately show ?thesis by (auto simp: moved_def)
qed

lemma memsetB_overwrite: "a + n \<le> length d \<Longrightarrow> memsetB d a n = Inr (overwrite d a (replicate n 0))"
  by (simp add: memsetB_def overwrite_def)

text \<open>After defragmentation the free space is the gap, and the cells are packed at the end.\<close>

lemma defragmentPage_ok:
  assumes s: "space (aData pg) (hdrOffset pg) (usableSize pg) lim xs bl" and n: "nCell pg = length xs"
    and p: "points (aData pg) (cellOffset pg) xs" "cellOffset pg + 2 * length xs \<le> lim" "hdrOffset pg + 8 \<le> cellOffset pg"
    and c: "\<forall>x \<in> set xs. wfCell pg (bytesAt (aData pg) x)" and t: "usableSize pg \<le> length temp"
  shows "\<exists>d'. defragmentPage temp pg = Inr (pg\<lparr>aData := d'\<rparr>) \<and> keepsLow (aData pg) d' (hdrOffset pg) (cellOffset pg)
    \<and> space d' (hdrOffset pg) (usableSize pg) lim (placeDown (usableSize pg) xs) []
    \<and> moved (aData pg) xs d' (placeDown (usableSize pg) xs) (cellOffset pg)
    \<and> word2 d' (hdrOffset pg + 5) = usableSize pg - sizes xs"
proof -
  let ?d = "aData pg" and ?h = "hdrOffset pg" and ?u = "usableSize pg" and ?co = "cellOffset pg"
  let ?t = "word2 ?d (?h + 5)" and ?b = "?u - sizes xs" and ?a = "?co + 2 * length xs"
  from defrag_cells [OF s p(1,2) c t] obtain d1 where
    d1: "defragLoop pg (overwrite temp ?t (bytesAt ?d (?t, ?u - ?t))) (length xs) 0 ?d ?u = Inr (d1, ?b)" "length d1 = length ?d"
      "moved ?d xs d1 (placeDown ?u xs) ?co" "\<forall>j < ?co. d1 ! j = ?d ! j" by blast
  define d2 where "d2 = put2 d1 (?h + 5) (int ?b)"
  define d3 where "d3 = d2[?h + 1 := 0, ?h + 2 := 0, ?h + 7 := 0]"
  define d4 where "d4 = overwrite d3 ?a (replicate (?b - ?a) 0)"
  have u: "?h + 8 \<le> length ?d" "?u \<le> length ?d" "?u < 65536" "?t \<le> ?u" "lim + sizes xs \<le> ?u"
    using s space_bounds(1) [OF s] by (auto simp: space_def)
  have len: "length d2 = length ?d" "length d3 = length ?d" by (simp_all add: d2_def d3_def d1(2))
  have ab: "?a \<le> ?b" using p(2) u(5) by simp
  have fit: "?a + length (replicate (?b - ?a) (0 :: byte)) \<le> length d3" using ab u(2) len by simp
  have s4: "length d4 = length ?d" "\<And>j. j < ?a \<or> ?b \<le> j \<Longrightarrow> d4 ! j = d3 ! j"
    using overwrite_ok(1,3) [OF fit, folded d4_def] ab len by auto
  have "memcpyB temp ?t ?d ?t (?u - ?t) = Inr (overwrite temp ?t (bytesAt ?d (?t, ?u - ?t)))" using u t by (intro memcpyB_overwrite) auto
  moreover have "get2byte ?d (?h + 5) = Inr ?t" "put2byte d1 (?h + 5) (int ?b) = Inr d2"
    using u(1) d1(2) by (simp_all add: get2byte_ok put2byte_ok d2_def)
  moreover have "memsetB d3 ?a (?b - ?a) = Inr d4" using fit by (simp add: memsetB_overwrite d4_def)
  ultimately have run: "defragmentPage temp pg = Inr (pg\<lparr>aData := d4\<rparr>)"
    using d1(1) u len ab n unfolding d3_def by (simp add: defragmentPage_def Let_def del: of_nat_diff)
  have e: "d4 ! j = d1 ! j" if "j < ?a \<or> ?b \<le> j" "j \<notin> {?h + 1, ?h + 2, ?h + 5, ?h + 6, ?h + 7}" for j
    using s4(2) [OF that(1)] that(2) by (simp add: d3_def d2_def nth_put2)
  have w: "word2 d4 (?h + 1) = 0" "word2 d4 (?h + 5) = ?b" "d4 ! (?h + 7) = 0"
  proof -
    have "word2 d4 a = word2 d3 a" if "a + 1 < ?a" for a using that by (intro word2_agree s4(2)) auto
    then have "word2 d4 (?h + 1) = word2 d3 (?h + 1)" "word2 d4 (?h + 5) = word2 d3 (?h + 5)" using p(3) by auto
    moreover have "word2 d3 (?h + 1) = 0" using len u(1) by (simp add: d3_def word2_def)
    moreover have "word2 d3 (?h + 5) = word2 d2 (?h + 5)" by (simp add: d3_def word2_def)
    moreover have "word2 d2 (?h + 5) = ?b" unfolding d2_def using d1(2) u by (subst word2_put2) auto
    ultimately show "word2 d4 (?h + 1) = 0" "word2 d4 (?h + 5) = ?b" by auto
    show "d4 ! (?h + 7) = 0" using p(3) s4(2) [of "?h + 7"] len u(1) by (simp add: d3_def)
  qed
  have sz: "sizes xs \<le> ?u" using u(5) by simp
  have r: "?b \<le> fst y" "fst y + snd y \<le> ?u" "4 \<le> snd y" if "y \<in> set (placeDown ?u xs)" for y
    using placeDown_range [OF sz that] space_bounds(3) [OF s] by auto
  have "space d4 ?h ?u lim (placeDown ?u xs) []"
    unfolding space_def w using s4(1) s u sz r placeDown_apart [OF sz] w(1) by (auto simp: space_def within_def)
  moreover have "points d4 ?co (placeDown ?u xs)"
    using d1(3) unfolding moved_def by (auto elim!: points_agree intro!: e simp: p(3)) (use p(3) in auto)
  moreover have "bytesAt d4 y = bytesAt d1 y" if "y \<in> set (placeDown ?u xs)" for y
    by (rule bytesAt_agree) (use s4(1) d1(2) r [OF that] ab p(3) in \<open>auto intro!: e\<close>)
  then have "map (bytesAt d4) (placeDown ?u xs) = map (bytesAt ?d) xs" using d1(3) by (auto simp: moved_def cong: map_cong)
  moreover have "keepsLow ?d d4 ?h ?co" unfolding keepsLow_def using s4(1) e d1(4) by auto
  ultimately show ?thesis using run w(2) unfolding moved_def by blast
qed
subsection \<open>Allocation\<close>

lemma moved_trans: "moved d xs d' xs' co \<Longrightarrow> moved d' xs' d'' xs'' co \<Longrightarrow> moved d xs d'' xs'' co"
  by (simp add: moved_def)

text \<open>A page whose cells are the regions in use.\<close>

definition laid :: "MemPage \<Rightarrow> nat \<Rightarrow> region list \<Rightarrow> region list \<Rightarrow> bool" where
  "laid pg lim xs bl \<longleftrightarrow> space (aData pg) (hdrOffset pg) (usableSize pg) lim xs bl
     \<and> nCell pg = length xs \<and> points (aData pg) (cellOffset pg) xs
     \<and> cellOffset pg + 2 * length xs \<le> lim \<and> hdrOffset pg + 8 \<le> cellOffset pg
     \<and> (\<forall>x \<in> set xs. wfCell pg (bytesAt (aData pg) x))"

definition allocated :: "MemPage \<Rightarrow> nat \<Rightarrow> region list \<Rightarrow> byte list \<Rightarrow> nat \<Rightarrow> nat \<Rightarrow> bool" where
  "allocated pg lim xs d' idx n \<longleftrightarrow> (\<exists>xs' bl'. space d' (hdrOffset pg) (usableSize pg) lim ((idx, n) # xs') bl'
     \<and> moved (aData pg) xs d' xs' (cellOffset pg) \<and> keepsLow (aData pg) d' (hdrOffset pg) (cellOffset pg))"

lemma keeps_moved:
  assumes l: "laid pg lim xs bl" and k: "keeps (aData pg) d' (hdrOffset pg) bl"
  shows "moved (aData pg) xs d' xs (cellOffset pg)" "keepsLow (aData pg) d' (hdrOffset pg) (cellOffset pg)"
proof -
  have s: "space (aData pg) (hdrOffset pg) (usableSize pg) lim xs bl" using l by (simp add: laid_def)
  have lo: "keepsLow (aData pg) d' (hdrOffset pg) lim" by (rule keeps_keepsLow [OF k]) (use space_bounds(2) [OF s] in auto)
  have "points d' (cellOffset pg) xs" by (rule points_agree [of "aData pg"]) (use l lo in \<open>auto simp: laid_def keepsLow_def\<close>)
  moreover have "bytesAt d' x = bytesAt (aData pg) x" if "x \<in> set xs" for x
    by (rule keeps_bytes [OF k]) (use that s space_bounds(3) [OF s] in \<open>auto simp: space_def\<close>)
  ultimately show "moved (aData pg) xs d' xs (cellOffset pg)" by (simp add: moved_def)
  show "keepsLow (aData pg) d' (hdrOffset pg) (cellOffset pg)" by (rule keepsLow_mono [OF lo]) (use l in \<open>simp add: laid_def\<close>)
qed

lemma keeps_allocated:
  assumes "laid pg lim xs bl" "space d' (hdrOffset pg) (usableSize pg) lim ((idx, n) # xs) bl' \<and> keeps (aData pg) d' (hdrOffset pg) bl"
  shows "allocated pg lim xs d' idx n"
  unfolding allocated_def using assms keeps_moved by blast

lemma wfCell_update [simp]:
  "wfCell (pg\<lparr>aData := d\<rparr>) = wfCell pg" "wfCell (pg\<lparr>nFree := n\<rparr>) = wfCell pg"
  "wfCell (pg\<lparr>nCell := n\<rparr>) = wfCell pg" "wfCell (pg\<lparr>idxShift := b\<rparr>) = wfCell pg"
  by (intro ext, cases pg, simp only: wfCell_def cellSizePtr_def sqlite3BtreeParseCellPtr_def MemPage.update_convs MemPage.select_convs)+

lemma moved_wf: "moved d xs d' xs' co \<Longrightarrow> \<forall>x \<in> set xs. wfCell pg (bytesAt d x) \<Longrightarrow> \<forall>x \<in> set xs'. wfCell pg (bytesAt d' x)"
proof
  fix x assume a: "moved d xs d' xs' co" "\<forall>x \<in> set xs. wfCell pg (bytesAt d x)" "x \<in> set xs'"
  then have "bytesAt d' x \<in> set (map (bytesAt d') xs')" by simp
  then have "bytesAt d' x \<in> set (map (bytesAt d) xs)" using a(1) unfolding moved_def by metis
  then show "wfCell pg (bytesAt d' x)" using a(2) by auto
qed

lemma moved_length: "moved d xs d' xs' co \<Longrightarrow> length xs' = length xs"
  by (auto simp: moved_def dest: map_eq_imp_length_eq)

lemma sizes_bytes: "\<forall>x \<in> set xs. fst x + snd x \<le> length d \<Longrightarrow> sizes xs = sum_list (map length (map (bytesAt d) xs))"
  by (simp add: sizes_def cong: map_cong)

lemma moved_sizes:
  assumes "moved d xs d' xs' co" "\<forall>x \<in> set xs. fst x + snd x \<le> length d" "\<forall>x \<in> set xs'. fst x + snd x \<le> length d'"
  shows "sizes xs' = sizes xs"
  using assms(1) unfolding sizes_bytes [OF assms(2)] sizes_bytes [OF assms(3)] moved_def by (simp only:)

lemma laid_defrag:
  assumes l: "laid pg lim xs bl" and t: "usableSize pg \<le> length temp"
  obtains d' xs' where "defragmentPage temp pg = Inr (pg\<lparr>aData := d'\<rparr>)" "laid (pg\<lparr>aData := d'\<rparr>) lim xs' []"
    "moved (aData pg) xs d' xs' (cellOffset pg)" "keepsLow (aData pg) d' (hdrOffset pg) (cellOffset pg)"
    "word2 d' (hdrOffset pg + 5) = usableSize pg - sizes xs" "sizes xs' = sizes xs"
proof -
  have l': "space (aData pg) (hdrOffset pg) (usableSize pg) lim xs bl" "nCell pg = length xs" "points (aData pg) (cellOffset pg) xs"
    "cellOffset pg + 2 * length xs \<le> lim" "hdrOffset pg + 8 \<le> cellOffset pg" "\<forall>x \<in> set xs. wfCell pg (bytesAt (aData pg) x)"
    using l by (simp_all add: laid_def)
  from defragmentPage_ok [OF l' t] obtain d' where d': "defragmentPage temp pg = Inr (pg\<lparr>aData := d'\<rparr>)"
    "keepsLow (aData pg) d' (hdrOffset pg) (cellOffset pg)" "space d' (hdrOffset pg) (usableSize pg) lim (placeDown (usableSize pg) xs) []"
    "moved (aData pg) xs d' (placeDown (usableSize pg) xs) (cellOffset pg)" "word2 d' (hdrOffset pg + 5) = usableSize pg - sizes xs" by blast
  have "laid (pg\<lparr>aData := d'\<rparr>) lim (placeDown (usableSize pg) xs) []"
    using d'(3,4) l' moved_wf [OF d'(4) l'(6)] by (simp add: laid_def moved_def)
  with d' that show thesis by simp
qed

lemma allocateGap_ok:
  assumes l: "laid pg lim xs bl" and t: "usableSize pg \<le> length temp" and n: "4 \<le> n" "lim + sizes xs + n \<le> usableSize pg"
    and k: "lim + n \<le> word2 (aData pg) (hdrOffset pg + 5) \<or> lim = cellOffset pg + 2 * word2 (aData pg) (hdrOffset pg + 3)"
  shows "\<exists>idx d'. allocateGap temp pg f n = Inr (int idx, pg\<lparr>aData := d'\<rparr>) \<and> allocated pg lim xs d' idx n"
proof -
  let ?h = "hdrOffset pg" and ?d = "aData pg"
  let ?t = "word2 ?d (?h + 5)" and ?c = "f \<ge> 60 \<or> int (cellOffset pg + 2 * word2 ?d (?h + 3)) > int (word2 ?d (?h + 5)) - int n"
  have s: "space ?d ?h (usableSize pg) lim xs bl" using l by (simp add: laid_def)
  have g: "get2byte ?d (?h + 5) = Inr ?t" "get2byte ?d (?h + 3) = Inr (word2 ?d (?h + 3))"
    using space_bounds(1) [OF s] by (simp_all add: get2byte_ok)
  show ?thesis
  proof (cases ?c)
    case False
    then have "lim + n \<le> ?t" using k by linarith
    from keeps_allocated [OF l take_gap [OF s n(1) this]]
    have "allocated pg lim xs (put2 ?d (?h + 5) (int ?t - int n)) (?t - n) n" .
    moreover have "allocateGap temp pg f n = Inr (int (?t - n), pg\<lparr>aData := put2 ?d (?h + 5) (int ?t - int n)\<rparr>)"
      using g False \<open>lim + n \<le> ?t\<close> space_bounds(1) [OF s] by (simp add: allocateGap_def Let_def put2byte_ok of_nat_diff)
    ultimately show ?thesis by blast
  next
    case True
    from laid_defrag [OF l t] obtain d1 xs1 where d1: "defragmentPage temp pg = Inr (pg\<lparr>aData := d1\<rparr>)" "laid (pg\<lparr>aData := d1\<rparr>) lim xs1 []"
      "moved ?d xs d1 xs1 (cellOffset pg)" "keepsLow ?d d1 ?h (cellOffset pg)" "word2 d1 (?h + 5) = usableSize pg - sizes xs" "sizes xs1 = sizes xs" .
    let ?t1 = "word2 d1 (?h + 5)"
    have s1: "space d1 ?h (usableSize pg) lim xs1 []" using d1(2) by (simp add: laid_def)
    have f: "lim + n \<le> ?t1" using n(2) d1(5) by simp
    have "allocated (pg\<lparr>aData := d1\<rparr>) lim xs1 (put2 d1 (?h + 5) (int ?t1 - int n)) (?t1 - n) n"
      using keeps_allocated [OF d1(2)] take_gap [OF s1 n(1) f] by simp
    then have "allocated pg lim xs (put2 d1 (?h + 5) (int ?t1 - int n)) (?t1 - n) n"
      unfolding allocated_def using moved_trans [OF d1(3)] keepsLow_trans [OF d1(4)] by auto
    moreover have "allocateGap temp pg f n = Inr (int (?t1 - n), pg\<lparr>aData := put2 d1 (?h + 5) (int ?t1 - int n)\<rparr>)"
      using g True d1(1) f space_bounds(1) [OF s1] by (simp add: allocateGap_def Let_def get2byte_ok put2byte_ok of_nat_diff)
    ultimately show ?thesis by blast
  qed
qed

lemma allocateBlock_ok:
  assumes l: "laid pg lim xs bl" and n: "4 \<le> n" and f: "unat (aData pg ! (hdrOffset pg + 7)) < 60"
    and b: "dropWhile (\<lambda>b. snd b < n) bl = b # bl2"
  shows "\<exists>idx d'. allocateBlock pg (unat (aData pg ! (hdrOffset pg + 7))) n (tailAddr (hdrOffset pg + 1) (takeWhile (\<lambda>b. snd b < n) bl), fst b, snd b)
    = Inr (int idx, pg\<lparr>aData := d'\<rparr>) \<and> allocated pg lim xs d' idx n"
proof -
  let ?h = "hdrOffset pg" and ?d = "aData pg"
  define bl1 where "bl1 = takeWhile (\<lambda>b. snd b < n) bl"
  have bl: "bl = bl1 @ (fst b, snd b) # bl2" using takeWhile_dropWhile_id [of "\<lambda>b. snd b < n" bl] b by (simp add: bl1_def)
  have nb: "n \<le> snd b" using hd_dropWhile [of "\<lambda>b. snd b < n" bl] b by simp
  have s: "space ?d ?h (usableSize pg) lim xs (bl1 @ (fst b, snd b) # bl2)" using l bl by (simp add: laid_def)
  have bd: "fst b + 3 < length ?d" "?h + 8 \<le> length ?d" "tailAddr (?h + 1) bl1 + 1 < length ?d"
    using space_bounds [OF s] sorted_split(3) [OF space_addrs [OF s]] by auto
  show ?thesis
  proof (cases "snd b < n + 4")
    case True
    define t where "t = tailAddr (?h + 1) bl1"
    define v where "v = int (unat (?d ! (?h + 7))) + int (snd b) - int n"
    from keeps_allocated [OF l] take_whole [OF s n nb True f, folded t_def v_def] bl
    have "allocated pg lim xs (?d[t := ?d ! fst b, t + 1 := ?d ! (fst b + 1), ?h + 7 := word_of_int v]) (fst b) n" by simp
    moreover have "allocateBlock pg (unat (?d ! (?h + 7))) n (t, fst b, snd b)
        = Inr (int (fst b), pg\<lparr>aData := ?d[t := ?d ! fst b, t + 1 := ?d ! (fst b + 1), ?h + 7 := word_of_int v]\<rparr>)"
      using bd True unfolding t_def [symmetric] by (cases b) (simp add: allocateBlock_def v_def)
    ultimately show ?thesis unfolding t_def bl1_def by blast
  next
    case False
    then have "n + 4 \<le> snd b" by simp
    from keeps_allocated [OF l] take_part [OF s n this] bl
    have "allocated pg lim xs (put2 ?d (fst b + 2) (int (snd b) - int n)) (fst b + snd b - n) n" by simp
    moreover have "int (fst b) + int (snd b) - int n = int (fst b + snd b - n)" using nb by simp
    then have "allocateBlock pg f' n (t, fst b, snd b) = Inr (int (fst b + snd b - n), pg\<lparr>aData := put2 ?d (fst b + 2) (int (snd b) - int n)\<rparr>)" for f' t
      using bd False by (cases b) (simp add: allocateBlock_def put2byte_ok)
    ultimately show ?thesis by blast
  qed
qed

lemma allocateSpace_ok:
  assumes l: "laid pg lim xs bl" and t: "usableSize pg \<le> length temp" and n: "4 \<le> n" "lim + sizes xs + n \<le> usableSize pg"
    and k: "lim + n \<le> word2 (aData pg) (hdrOffset pg + 5) \<or> lim = cellOffset pg + 2 * word2 (aData pg) (hdrOffset pg + 3)"
    and f: "n \<le> nFree pg" "nOverflow pg = 0"
  shows "\<exists>idx d'. allocateSpace temp pg n = Some (Inr (int idx, pg\<lparr>nFree := nFree pg - n, aData := d'\<rparr>)) \<and> allocated pg lim xs d' idx n"
proof -
  let ?p = "pg\<lparr>nFree := nFree pg - n\<rparr>" and ?fr = "unat (aData pg ! (hdrOffset pg + 7))"
  have s: "space (aData pg) (hdrOffset pg) (usableSize pg) lim xs bl" using l by (simp add: laid_def)
  have l': "laid ?p lim xs bl" using l by (simp add: laid_def)
  have al: "allocated ?p = allocated pg" by (simp add: allocated_def fun_eq_iff)
  have g: "\<exists>idx d'. allocateGap temp ?p ?fr n = Inr (int idx, ?p\<lparr>aData := d'\<rparr>) \<and> allocated pg lim xs d' idx n"
    using allocateGap_ok [OF l', of temp n ?fr] t n k al by simp
  have fr: "rd (aData pg) (hdrOffset pg + 7) = Inr (aData pg ! (hdrOffset pg + 7))" using space_bounds(1) [OF s] by simp
  note unf = allocateSpace_def Let_def
  show ?thesis
  proof (cases "?fr < 60 \<and> dropWhile (\<lambda>b. snd b < n) bl \<noteq> []")
    case True
    then obtain b bl2 where b: "dropWhile (\<lambda>b. snd b < n) bl = b # bl2" by (cases "dropWhile (\<lambda>b. snd b < n) bl") auto
    from allocateBlock_ok [OF l' n(1) _ b] True al show ?thesis
      using f n(1) fr space_search [OF s, of n] b by (simp add: unf)
  next
    case False
    then consider "\<not> ?fr < 60" | "?fr < 60" "searchFree (aData pg) n (hdrOffset pg + 1) = Some (Inr None)"
      using space_search [OF s, of n] by (cases "dropWhile (\<lambda>b. snd b < n) bl") auto
    then show ?thesis using f n(1) fr g by cases (auto simp: unf)
  qed
qed
subsection \<open>The pointer array\<close>

lemma insertLoop_spec:
  "ins + 2 * k + 1 < length d \<Longrightarrow> \<exists>d'. insertLoop d ins k = Inr d' \<and> length d' = length d
    \<and> (\<forall>j. d' ! j = (if ins + 2 \<le> j \<and> j < ins + 2 + 2 * k then d ! (j - 2) else d ! j))"
proof (induction k arbitrary: d)
  case (Suc k)
  let ?p = "ins + 2 * Suc k"
  define d1 where "d1 = d[?p := d ! (?p - 2), ?p + 1 := d ! (?p - 1)]"
  have len: "length d1 = length d" by (simp add: d1_def)
  have n: "d1 ! j = (if j = ?p \<or> j = ?p + 1 then d ! (j - 2) else d ! j)" for j
    using Suc.prems by (auto simp: d1_def nth_list_update)
  have "insertLoop d ins (Suc k) = insertLoop d1 ins k" using Suc.prems by (simp add: Let_def d1_def)
  moreover obtain d' where d': "insertLoop d1 ins k = Inr d'" "length d' = length d1"
    "\<forall>j. d' ! j = (if ins + 2 \<le> j \<and> j < ins + 2 + 2 * k then d1 ! (j - 2) else d1 ! j)"
    using Suc.IH [of d1] Suc.prems len by auto
  moreover have "d' ! j = (if ins + 2 \<le> j \<and> j < ins + 2 + 2 * Suc k then d ! (j - 2) else d ! j)" for j
    unfolding d'(3) [rule_format] n by auto
  ultimately show ?case using len by auto
qed auto

lemma dropLoop_spec:
  "ptr + 2 * k + 1 < length d \<Longrightarrow> \<exists>d'. dropLoop d ptr k = Inr d' \<and> length d' = length d
    \<and> (\<forall>j. d' ! j = (if ptr \<le> j \<and> j < ptr + 2 * k then d ! (j + 2) else d ! j))"
proof (induction k arbitrary: d ptr)
  case (Suc k)
  define d1 where "d1 = d[ptr := d ! (ptr + 2), ptr + 1 := d ! (ptr + 3)]"
  have len: "length d1 = length d" by (simp add: d1_def)
  have n: "d1 ! j = (if j = ptr \<or> j = ptr + 1 then d ! (j + 2) else d ! j)" for j
    using Suc.prems by (auto simp: d1_def nth_list_update eval_nat_numeral)
  have "dropLoop d ptr (Suc k) = dropLoop d1 (ptr + 2) k" using Suc.prems by (simp add: Let_def d1_def)
  moreover obtain d' where d': "dropLoop d1 (ptr + 2) k = Inr d'" "length d' = length d1"
    "\<forall>j. d' ! j = (if ptr + 2 \<le> j \<and> j < ptr + 2 + 2 * k then d1 ! (j + 2) else d1 ! j)"
    using Suc.IH [where d = d1 and ptr = "ptr + 2"] Suc.prems len by auto
  moreover have "d' ! j = (if ptr \<le> j \<and> j < ptr + 2 * Suc k then d ! (j + 2) else d ! j)" for j
    unfolding d'(3) [rule_format] n by auto
  ultimately show ?case using len by auto
qed auto

lemma points_shift: "points d a xs \<Longrightarrow> (\<And>j. a \<le> j \<Longrightarrow> j < a + 2 * length xs \<Longrightarrow> d' ! (j + 2) = d ! j) \<Longrightarrow> points d' (a + 2) xs"
  unfolding points_def word2_def by (auto simp: algebra_simps)

lemma points_unshift: "points d (a + 2) xs \<Longrightarrow> (\<And>j. a \<le> j \<Longrightarrow> j < a + 2 * length xs \<Longrightarrow> d' ! j = d ! (j + 2)) \<Longrightarrow> points d' a xs"
  unfolding points_def word2_def by (auto simp: algebra_simps)

text \<open>The order of the regions in use does not matter, nor do the bytes outside header and free blocks.\<close>

lemma space_front: "space d hdr u lim (xs @ x # ys) bl \<longleftrightarrow> space d hdr u lim (x # xs @ ys) bl"
proof -
  have "sorted_wrt apart (xs @ x # ys) \<longleftrightarrow> sorted_wrt apart (x # xs @ ys)"
    using apart_sym by (auto simp: sorted_wrt_append)
  moreover have "set (xs @ x # ys) = set (x # xs @ ys)" "sizes (xs @ x # ys) = sizes (x # xs @ ys)" by auto
  ultimately show ?thesis unfolding space_def by (simp only:)
qed

lemma space_agree:
  assumes s: "space d hdr u lim xs bl" and "length d' = length d" "\<And>j. j \<in> {hdr + 1, hdr + 2, hdr + 5, hdr + 6, hdr + 7} \<Longrightarrow> d' ! j = d ! j"
    and b: "\<And>b j. b \<in> set bl \<Longrightarrow> fst b \<le> j \<Longrightarrow> j < fst b + snd b \<Longrightarrow> d' ! j = d ! j"
  shows "space d' hdr u lim xs bl"
proof -
  have h: "word2 d' (hdr + 1) = word2 d (hdr + 1)" "word2 d' (hdr + 5) = word2 d (hdr + 5)" by (rule word2_agree; rule assms(3); simp)+
  have "links d' (hdr + 1) bl 0"
  proof (rule links_agree [OF space_links [OF s] h(1)])
    fix x assume x: "x \<in> set bl"
    then have "4 \<le> snd x" using space_bounds(2) [OF s] by auto
    then show "word2 d' (fst x) = word2 d (fst x) \<and> word2 d' (fst x + 2) = word2 d (fst x + 2)"
      by (auto intro!: word2_agree b [OF x])
  qed
  then show ?thesis using s h(2) assms(2) assms(3) [of "hdr + 7"] unfolding space_def by simp
qed

text \<open>A cell written to its place, its pointer put between the others, the cells counted.\<close>

lemma insert_data:
  assumes s: "space d hdr u lim ((idx, length c) # xs) bl" and p: "points d co xs" "lim = co + 2 * (length xs + 1)" "hdr + 8 \<le> co"
    and i: "i \<le> length xs"
  obtains d2 d' where "insertLoop (overwrite d idx c) (co + 2 * i) (length xs - i) = Inr d2"
    "put2byte d2 (co + 2 * i) (int idx) = Inr (put2 d2 (co + 2 * i) (int idx))"
    "put2byte (put2 d2 (co + 2 * i) (int idx)) (hdr + 3) (int (length xs + 1)) = Inr d'"
    "space d' hdr u lim (take i xs @ (idx, length c) # drop i xs) bl" "points d' co (take i xs @ (idx, length c) # drop i xs)"
    "map (bytesAt d') (take i xs @ (idx, length c) # drop i xs) = take i (map (bytesAt d) xs) @ c # drop i (map (bytesAt d) xs)"
    "word2 d' (hdr + 3) = length xs + 1" "d' ! hdr = d ! hdr"
proof -
  let ?n = "length xs" and ?ins = "co + 2 * i"
  have x: "lim \<le> idx" "idx + length c \<le> length d" "lim \<le> length d" "lim < 65536" "idx < 65536" using s by (auto simp: space_def within_def)
  note sp = overwrite_ok [OF x(2)]
  have k: "?ins + 2 * (?n - i) + 1 < length (overwrite d idx c)" using x p(2) i sp(1) by simp
  from insertLoop_spec [OF k] obtain d2 where d2: "insertLoop (overwrite d idx c) ?ins (?n - i) = Inr d2" "length d2 = length d"
    "\<forall>j. d2 ! j = (if ?ins + 2 \<le> j \<and> j < ?ins + 2 + 2 * (?n - i) then overwrite d idx c ! (j - 2) else overwrite d idx c ! j)" using sp(1) by auto
  have e2: "?ins + 2 + 2 * (?n - i) = lim" using i p(2) by simp
  define d' where "d' = put2 (put2 d2 ?ins (int idx)) (hdr + 3) (int (?n + 1))"
  have len: "length d' = length d" by (simp add: d'_def d2(2))
  have hi: "d' ! j = overwrite d idx c ! j" if "lim \<le> j" for j
    using that d2(3) [rule_format, of j] p(2,3) i unfolding e2 by (simp add: d'_def nth_put2)
  have lo: "d' ! j = d ! j" if "j < ?ins" "j \<noteq> hdr + 3" "j \<noteq> hdr + 4" for j
    using that d2(3) [rule_format, of j] sp(3) [of j] x(1) p(2) i by (simp add: d'_def nth_put2)
  have mid: "d' ! (j + 2) = d ! j" if "?ins \<le> j" "j + 2 < lim" for j
    using that d2(3) [rule_format, of "j + 2"] sp(3) [of j] x(1) p(3) unfolding e2 by (simp add: d'_def nth_put2)
  have w3: "word2 d' (hdr + 3) = ?n + 1" unfolding d'_def using d2(2) x(3,4) p(2,3) by (subst word2_put2) auto
  have "word2 d' ?ins = word2 (put2 d2 ?ins (int idx)) ?ins" unfolding d'_def by (rule word2_put2_apart) (use p(3) in simp)
  also have "\<dots> = idx" using d2(2) x p(2) i by (subst word2_put2) auto
  finally have wi: "word2 d' ?ins = idx" .
  have pp: "points d co (take i xs)" "points d ?ins (drop i xs)" using p(1) i points_append [of d co "take i xs" "drop i xs"] by simp_all
  have "points d' co (take i xs)" by (rule points_agree [OF pp(1)]) (use i p(3) in \<open>auto intro!: lo\<close>)
  moreover have "points d' (?ins + 2) (drop i xs)" by (rule points_shift [OF pp(2)], rule mid) (use i p(2) in auto)
  ultimately have pts: "points d' co (take i xs @ (idx, length c) # drop i xs)" using i wi by (simp add: points_append)
  have "bytesAt d' y = bytesAt d y" if y: "y \<in> set xs" for y
  proof (rule bytesAt_agree [OF len])
    fix j assume j: "fst y \<le> j" "j < fst y + snd y"
    have "apart (idx, length c) y" "lim \<le> fst y" using s y space_bounds(3) [OF s] by (auto simp: space_def)
    then show "d' ! j = d ! j" using hi [of j] sp(3) [of j] j by (auto simp: apart_def)
  qed
  then have mx: "map (bytesAt d') xs = map (bytesAt d) xs" by simp
  have mc: "bytesAt d' (idx, length c) = c"
  proof -
    have "bytesAt d' (idx, length c) = bytesAt (overwrite d idx c) (idx, length c)" by (rule bytesAt_agree) (use len sp(1) x(1) hi in auto)
    then show ?thesis using sp(2) by simp
  qed
  have mp: "map (bytesAt d') (take i xs @ (idx, length c) # drop i xs) = take i (map (bytesAt d) xs) @ c # drop i (map (bytesAt d) xs)"
    by (simp only: map_append list.map(2) take_map [symmetric] drop_map [symmetric] mx mc)
  have "space d' hdr u lim ((idx, length c) # xs) bl"
  proof (rule space_agree [OF s len])
    fix j assume "j \<in> {hdr + 1, hdr + 2, hdr + 5, hdr + 6, hdr + 7}"
    then show "d' ! j = d ! j" using p(3) by (intro lo) auto
  next
    fix b j assume b: "b \<in> set bl" "fst b \<le> j" "j < fst b + snd b"
    then have "apart (idx, length c) b" "lim \<le> fst b" using s space_bounds(2) [OF s] by (auto simp: space_def)
    then show "d' ! j = d ! j" using hi [of j] sp(3) [of j] b by (auto simp: apart_def)
  qed
  then have sp': "space d' hdr u lim (take i xs @ (idx, length c) # drop i xs) bl" by (simp add: space_front)
  have "put2byte d2 ?ins (int idx) = Inr (put2 d2 ?ins (int idx))" using d2(2) x p(2) i by (intro put2byte_ok) auto
  moreover have "put2byte (put2 d2 ?ins (int idx)) (hdr + 3) (int (?n + 1)) = Inr d'" unfolding d'_def
    using d2(2) x(3) p(2,3) by (intro put2byte_ok) auto
  moreover have "d' ! hdr = d ! hdr" by (rule lo) (use p(3) in auto)
  ultimately show thesis using that d2(1) sp' pts mp w3 by blast
qed
subsection \<open>The cells of a page\<close>

text \<open>The cells of a page as findCell and cellSizePtr read them.\<close>

definition page_cells :: "MemPage \<Rightarrow> byte list list" where
  "page_cells pg = map (\<lambda>i. case findCell pg i of Inl e \<Rightarrow> [] | Inr c \<Rightarrow> (case cellSizePtr pg c of Inl e \<Rightarrow> [] | Inr n \<Rightarrow> take n c)) [0..<nCell pg]"

text \<open>
  The invariant of a page: its cells and free blocks have the layout of the content area, the
  header counts the cells, and nFree is what the pointers and the cells leave.
\<close>

definition page_ok :: "MemPage \<Rightarrow> region list \<Rightarrow> region list \<Rightarrow> bool" where
  "page_ok pg xs bl \<longleftrightarrow> laid pg (cellOffset pg + 2 * length xs) xs bl \<and> nOverflow pg = 0
     \<and> word2 (aData pg) (hdrOffset pg + 3) = length xs \<and> nFree pg + cellOffset pg + 2 * length xs + sizes xs = usableSize pg"

text \<open>The fields of a page that its flag byte determines.\<close>

definition flagged :: "MemPage \<Rightarrow> bool" where
  "flagged pg \<longleftrightarrow> decodeFlags pg (aData pg ! hdrOffset pg) = pg \<and> cellOffset pg = hdrOffset pg + 12 - (if leaf pg then 4 else 0)"

definition page_wf :: "MemPage \<Rightarrow> bool" where
  "page_wf pg \<longleftrightarrow> flagged pg \<and> (\<exists>xs bl. page_ok pg xs bl)"

lemma laid_size:
  assumes l: "laid pg lim xs bl" and i: "i < length xs"
  shows "findCell pg i = Inr (drop (fst (xs ! i)) (aData pg)) \<and> cellSizePtr pg (drop (fst (xs ! i)) (aData pg)) = Inr (snd (xs ! i))
    \<and> snd (xs ! i) = length (bytesAt (aData pg) (xs ! i))"
proof -
  have s: "space (aData pg) (hdrOffset pg) (usableSize pg) lim xs bl" using l by (simp add: laid_def)
  have x: "word2 (aData pg) (cellOffset pg + 2 * i) = fst (xs ! i)" "wfCell pg (bytesAt (aData pg) (xs ! i))"
    "fst (xs ! i) + snd (xs ! i) \<le> length (aData pg)" "cellOffset pg + 2 * i + 1 < length (aData pg)"
    using l i space_bounds(3) [OF s] nth_mem [OF i] s by (auto simp: laid_def points_def space_def)
  then show ?thesis using bytesAt_size [OF x(2,3)] by (simp add: findCell_def get2byte_ok)
qed

lemma laid_cells: "laid pg lim xs bl \<Longrightarrow> page_cells pg = map (bytesAt (aData pg)) xs"
proof (rule nth_equalityI)
  assume l: "laid pg lim xs bl"
  then have n: "nCell pg = length xs" by (simp add: laid_def)
  then show "length (page_cells pg) = length (map (bytesAt (aData pg)) xs)" by (simp add: page_cells_def)
  fix i assume "i < length (page_cells pg)"
  then have "i < length xs" by (simp add: page_cells_def n)
  with laid_size [OF l this] n show "page_cells pg ! i = map (bytesAt (aData pg)) xs ! i" by (simp add: page_cells_def bytesAt_def)
qed

lemma page_ok_cells: "page_ok pg xs bl \<Longrightarrow> page_cells pg = map (bytesAt (aData pg)) xs"
  by (auto simp: page_ok_def dest: laid_cells)

lemma page_ok_size:
  assumes "page_ok pg xs bl" "i < length xs"
  shows "bindR (findCell pg i) (cellSizePtr pg) = Inr (length (page_cells pg ! i))"
  using assms laid_size [of pg "cellOffset pg + 2 * length xs" xs bl i] page_ok_cells [OF assms(1)] by (simp add: page_ok_def)

text \<open>The parts of a page that its operations leave alone.\<close>

definition shape :: "MemPage \<Rightarrow> MemPage" where
  "shape pg = pg\<lparr>aData := [], nFree := 0, nCell := 0, idxShift := False\<rparr>"

lemma shape_update [simp]:
  "shape (pg\<lparr>aData := d\<rparr>) = shape pg" "shape (pg\<lparr>nFree := n\<rparr>) = shape pg" "shape (pg\<lparr>nCell := n\<rparr>) = shape pg"
  "shape (pg\<lparr>idxShift := b\<rparr>) = shape pg"
  by (simp_all add: shape_def)

lemma shape_fields:
  "shape pg' = shape pg \<Longrightarrow> hdrOffset pg' = hdrOffset pg \<and> cellOffset pg' = cellOffset pg \<and> leaf pg' = leaf pg \<and> pBt pg' = pBt pg
     \<and> isInit pg' = isInit pg \<and> pParent pg' = pParent pg \<and> wfCell pg' = wfCell pg"
proof (intro conjI)
  assume a: "shape pg' = shape pg"
  have "wfCell (shape pg') = wfCell pg'" "wfCell (shape pg) = wfCell pg" by (simp_all add: shape_def)
  then show "wfCell pg' = wfCell pg" using a by simp
qed (cases pg; cases pg'; simp add: shape_def)+

lemma flagged_shape:
  assumes "shape pg' = shape pg" "aData pg' ! hdrOffset pg = aData pg ! hdrOffset pg" "flagged pg"
  shows "flagged pg'"
proof -
  have "decodeFlags q f = q \<longleftrightarrow> decodeFlags (shape q) f = shape q" for q f
    by (cases q) (simp add: decodeFlags_def shape_def Let_def)
  then show ?thesis using assms shape_fields [OF assms(1)] unfolding flagged_def by metis
qed

text \<open>What insertCell relies on: the page can be written, the temporary space is a page long, no pointer map.\<close>

definition can_write :: "page_env \<Rightarrow> MemPage \<Rightarrow> bool" where
  "can_write env pg \<longleftrightarrow> env_write env = None \<and> usableSize pg \<le> length (env_temp env) \<and> \<not> bt_autoVacuum (pBt pg)"

lemma insertPlaced_ok:
  assumes s: "space (aData pg) (hdrOffset pg) (usableSize pg) lim ((idx, length c) # xs) bl"
    and p: "points (aData pg) (cellOffset pg) xs" "lim = cellOffset pg + 2 * (length xs + 1)" "hdrOffset pg + 8 \<le> cellOffset pg"
    and n: "nCell pg = length xs" "nOverflow pg = 0" "nFree pg + lim + sizes xs + length c = usableSize pg + 2" "\<not> bt_autoVacuum (pBt pg)"
    and w: "\<forall>x \<in> set xs. wfCell pg (bytesAt (aData pg) x)" "wfCell pg c" and i: "i \<le> length xs"
  shows "\<exists>pg' bl'. insertPlaced env pg i (c @ r) (length c) 0 idx = Inr (None, pg') \<and> shape pg' = shape pg
    \<and> aData pg' ! hdrOffset pg = aData pg ! hdrOffset pg \<and> page_ok pg' (take i xs @ (idx, length c) # drop i xs) bl'
    \<and> page_cells pg' = take i (map (bytesAt (aData pg)) xs) @ c # drop i (map (bytesAt (aData pg)) xs)"
proof -
  let ?d = "aData pg" and ?h = "hdrOffset pg" and ?u = "usableSize pg" and ?co = "cellOffset pg"
  let ?ys = "take i xs @ (idx, length c) # drop i xs"
  from insert_data [OF s p i] obtain d2 d' where d: "insertLoop (overwrite ?d idx c) (?co + 2 * i) (length xs - i) = Inr d2"
    "put2byte d2 (?co + 2 * i) (int idx) = Inr (put2 d2 (?co + 2 * i) (int idx))"
    "put2byte (put2 d2 (?co + 2 * i) (int idx)) (?h + 3) (int (length xs + 1)) = Inr d'"
    "space d' ?h ?u lim ?ys bl" "points d' ?co ?ys"
    "map (bytesAt d') ?ys = take i (map (bytesAt ?d) xs) @ c # drop i (map (bytesAt ?d) xs)" "word2 d' (?h + 3) = length xs + 1" "d' ! ?h = ?d ! ?h" .
  have b: "lim + sizes xs + length c \<le> ?u" "?u \<le> length ?d" "?u < 65536" "idx + length c \<le> length ?d" using s by (auto simp: space_def within_def)
  have m: "(length xs + 1) mod 65536 = length xs + 1" "nat ((int (nFree pg) - 2) mod 65536) = nFree pg - 2"
    using b p(2) n(3) by (auto simp: nat_diff_distrib)
  define pg' where "pg' = pg\<lparr>nCell := length xs + 1, nFree := nFree pg - 2, aData := d', idxShift := True\<rparr>"
  have "memcpyB ?d idx (c @ r) 0 (length c) = Inr (overwrite ?d idx c)" using b(4) by (simp add: memcpyB_overwrite bytesAt_def)
  then have "insertPlaced env pg i (c @ r) (length c) 0 idx = Inr (None, pg')"
    using d(1-3) n m by (simp add: insertPlaced_def Let_def pg'_def)
  moreover have "page_ok pg' ?ys bl"
  proof -
    have "wfCell pg (bytesAt d' x)" if "x \<in> set ?ys" for x
    proof -
      have "bytesAt d' x \<in> set (map (bytesAt d') ?ys)" unfolding set_map using that by (rule imageI)
      then have "bytesAt d' x = c \<or> bytesAt d' x \<in> set (map (bytesAt ?d) xs)" unfolding d(6) by (auto dest: in_set_takeD in_set_dropD)
      then show ?thesis using w by auto
    qed
    moreover have "sizes (take i xs) + sizes (drop i xs) = sizes xs" by (metis append_take_drop_id sizes_simps(3))
    moreover have "length ?ys = length xs + 1" using i by simp
    ultimately show ?thesis using d(4,5,7) p n b(1) by (simp add: page_ok_def laid_def pg'_def)
  qed
  moreover have "shape pg' = shape pg" "aData pg' ! ?h = ?d ! ?h" using d(8) by (simp_all add: pg'_def)
  moreover have "page_cells pg' = take i (map (bytesAt ?d) xs) @ c # drop i (map (bytesAt ?d) xs)"
    using page_ok_cells [OF \<open>page_ok pg' ?ys bl\<close>] d(6) by (simp add: pg'_def)
  ultimately show ?thesis by blast
qed
text \<open>insertCell on a page with room for the cell puts it between the others.\<close>

lemma insertCell_ok:
  assumes k: "page_ok pg xs bl" and w: "wfCell pg c" "length c + 2 \<le> nFree pg" "can_write env pg" and i: "i \<le> length xs"
  shows "\<exists>pg' xs' bl'. insertCell env pg i (c @ r) (length c) pTemp 0 = Some (Inr (None, pg')) \<and> shape pg' = shape pg
    \<and> aData pg' ! hdrOffset pg = aData pg ! hdrOffset pg \<and> page_ok pg' xs' bl' \<and> page_cells pg' = take i (page_cells pg) @ c # drop i (page_cells pg)"
proof -
  let ?d = "aData pg" and ?h = "hdrOffset pg" and ?u = "usableSize pg" and ?co = "cellOffset pg"
  let ?lim = "?co + 2 * (length xs + 1)" and ?n = "length c"
  have l: "laid pg (?co + 2 * length xs) xs bl" "nOverflow pg = 0" "word2 ?d (?h + 3) = length xs"
    "nFree pg + ?co + 2 * length xs + sizes xs = ?u" using k by (simp_all add: page_ok_def)
  have s: "space ?d ?h ?u (?co + 2 * length xs) xs bl" "nCell pg = length xs" "hdrOffset pg + 8 \<le> ?co" using l(1) by (auto simp: laid_def)
  have e: "env_write env = None" "?u \<le> length (env_temp env)" "\<not> bt_autoVacuum (pBt pg)" using w(3) by (auto simp: can_write_def)
  have fit: "?lim + sizes xs + ?n \<le> ?u" using l(4) w(2) by simp
  define pre where "pre = bindR (get2byte ?d (?h + 5)) (\<lambda>top.
    if int (?co + 2 * nCell pg + 2) > int top - int ?n then defragmentPage (env_temp env) pg else Inr pg)"
  have "\<exists>d1 xs1 bl1. pre = Inr (pg\<lparr>aData := d1\<rparr>) \<and> laid (pg\<lparr>aData := d1\<rparr>) ?lim xs1 bl1 \<and> moved ?d xs d1 xs1 ?co
    \<and> ?lim + ?n \<le> word2 d1 (?h + 5) \<and> sizes xs1 = sizes xs \<and> d1 ! ?h = ?d ! ?h"
  proof (cases "?lim + ?n \<le> word2 ?d (?h + 5)")
    case True
    then have "laid pg ?lim xs bl" using l(1) by (simp add: laid_def space_def)
    moreover have "moved ?d xs ?d xs ?co" using l(1) by (simp add: moved_def laid_def)
    moreover have "pre = Inr pg" using True s space_bounds(1) [OF s(1)] by (simp add: pre_def get2byte_ok)
    ultimately show ?thesis using True by (intro exI [of _ ?d]) auto
  next
    case False
    from laid_defrag [OF l(1) e(2)] obtain d1 xs1 where d1: "defragmentPage (env_temp env) pg = Inr (pg\<lparr>aData := d1\<rparr>)"
      "laid (pg\<lparr>aData := d1\<rparr>) (?co + 2 * length xs) xs1 []" "moved ?d xs d1 xs1 ?co"
      "keepsLow ?d d1 ?h ?co" "word2 d1 (?h + 5) = ?u - sizes xs" "sizes xs1 = sizes xs" .
    have f: "?lim + ?n \<le> word2 d1 (?h + 5)" using fit d1(5) by simp
    then have "laid (pg\<lparr>aData := d1\<rparr>) ?lim xs1 []" using d1(2) by (simp add: laid_def space_def)
    moreover have "pre = Inr (pg\<lparr>aData := d1\<rparr>)" using False s space_bounds(1) [OF s(1)] d1(1) by (simp add: pre_def get2byte_ok)
    moreover have "d1 ! ?h = ?d ! ?h" using d1(4) s(3) by (simp add: keepsLow_def)
    ultimately show ?thesis using d1(3,6) f by blast
  qed
  then obtain d1 xs1 bl1 where d1: "pre = Inr (pg\<lparr>aData := d1\<rparr>)" "laid (pg\<lparr>aData := d1\<rparr>) ?lim xs1 bl1" "moved ?d xs d1 xs1 ?co"
    "?lim + ?n \<le> word2 d1 (?h + 5)" "sizes xs1 = sizes xs" "d1 ! ?h = ?d ! ?h" by blast
  have n4: "4 \<le> ?n" using w(1) by (simp add: wfCell_def)
  obtain idx d2 where a: "allocateSpace (env_temp env) (pg\<lparr>aData := d1\<rparr>) ?n = Some (Inr (int idx, pg\<lparr>nFree := nFree pg - ?n, aData := d2\<rparr>))"
    "allocated (pg\<lparr>aData := d1\<rparr>) ?lim xs1 d2 idx ?n"
    using allocateSpace_ok [OF d1(2), of "env_temp env" ?n] e(2) n4 fit d1(4,5) w(2) l(2) by auto
  from a(2) obtain xs2 bl2 where x2: "space d2 ?h ?u ?lim ((idx, ?n) # xs2) bl2" "moved d1 xs1 d2 xs2 ?co" "keepsLow d1 d2 ?h ?co"
    by (auto simp: allocated_def)
  have fl: "d2 ! ?h = ?d ! ?h" using x2(3) s(3) d1(6) by (simp add: keepsLow_def)
  have mv: "moved ?d xs d2 xs2 ?co" by (rule moved_trans [OF d1(3) x2(2)])
  have len: "length xs2 = length xs" by (rule moved_length [OF mv])
  let ?p = "pg\<lparr>nFree := nFree pg - ?n, aData := d2\<rparr>"
  have "sizes xs2 = sizes xs" by (rule moved_sizes [OF mv]) (use space_bounds(3) [OF x2(1)] space_bounds(3) [OF s(1)] in auto)
  moreover have "\<forall>x \<in> set xs2. wfCell pg (bytesAt d2 x)" by (rule moved_wf [OF mv]) (use l(1) in \<open>simp add: laid_def\<close>)
  ultimately obtain pg' bl' where pg': "insertPlaced env ?p i (c @ r) ?n 0 idx = Inr (None, pg')" "shape pg' = shape ?p" "aData pg' ! ?h = d2 ! ?h"
      "page_ok pg' (take i xs2 @ (idx, ?n) # drop i xs2) bl'"
      "page_cells pg' = take i (map (bytesAt d2) xs2) @ c # drop i (map (bytesAt d2) xs2)"
    using insertPlaced_ok [of ?p ?lim idx c xs2 bl2 i env r] x2(1) mv len s(2,3) l(2,4) w(1,2) e(3) i by (auto simp: moved_def)
  have "page_cells pg = map (bytesAt d2) xs2" using page_ok_cells [OF k] mv by (simp add: moved_def)
  moreover have "insertCell env pg i (c @ r) ?n pTemp 0 = Some (Inr (None, pg'))"
    using l(2) w(2) e(1) d1(1) a(1) pg'(1) unfolding insertCell_def pre_def [symmetric] by simp
  ultimately show ?thesis using pg'(2-5) fl by auto
qed
text \<open>dropCell takes one cell away.\<close>

lemma drop_data:
  assumes s: "space d hdr u (co + 2 * length (xs @ x # ys)) (xs @ ys) bl" and p: "points d co (xs @ x # ys)" "hdr + 8 \<le> co"
  obtains d2 d' where "dropLoop d (co + 2 * length xs) (length ys) = Inr d2" "put2byte d2 (hdr + 3) (int (length (xs @ ys))) = Inr d'"
    "space d' hdr u (co + 2 * length (xs @ ys)) (xs @ ys) bl" "points d' co (xs @ ys)" "word2 d' (hdr + 3) = length (xs @ ys)"
    "map (bytesAt d') (xs @ ys) = map (bytesAt d) (xs @ ys)" "d' ! hdr = d ! hdr"
proof -
  let ?n = "length (xs @ ys)" and ?p = "co + 2 * length xs"
  have b: "co + 2 * (?n + 1) \<le> length d" "co + 2 * (?n + 1) < 65536" using s by (auto simp: space_def)
  then have "?p + 2 * length ys + 1 < length d" by simp
  from dropLoop_spec [OF this] obtain d2 where d2: "dropLoop d ?p (length ys) = Inr d2" "length d2 = length d"
    "\<forall>j. d2 ! j = (if ?p \<le> j \<and> j < ?p + 2 * length ys then d ! (j + 2) else d ! j)" by auto
  define d' where "d' = put2 d2 (hdr + 3) (int ?n)"
  have len: "length d' = length d" by (simp add: d'_def d2(2))
  have out: "d' ! j = d ! j" if "j < ?p \<or> ?p + 2 * length ys \<le> j" "j \<noteq> hdr + 3" "j \<noteq> hdr + 4" for j
    using that d2(3) [rule_format, of j] by (auto simp: d'_def nth_put2)
  have mid: "d' ! j = d ! (j + 2)" if "?p \<le> j" "j < ?p + 2 * length ys" for j
    using that d2(3) [rule_format, of j] p(2) by (simp add: d'_def nth_put2)
  have lim: "co + 2 * (?n + 1) \<le> fst y" if "y \<in> set (xs @ ys) \<union> set bl" for y
    using that space_bounds(2,3) [OF s] by auto
  have pp: "points d co xs" "points d (?p + 2) ys" using p(1) by (simp_all add: points_append)
  have "points d' co xs" by (rule points_agree [OF pp(1)]) (use p(2) in \<open>auto intro!: out\<close>)
  moreover have "points d' ?p ys" by (rule points_unshift [OF pp(2)], rule mid) auto
  ultimately have "points d' co (xs @ ys)" by (simp add: points_append)
  moreover have "space d' hdr u (co + 2 * length (xs @ x # ys)) (xs @ ys) bl"
  proof (rule space_agree [OF s len])
    fix j assume "j \<in> {hdr + 1, hdr + 2, hdr + 5, hdr + 6, hdr + 7}"
    then show "d' ! j = d ! j" using p(2) by (intro out) auto
  next
    fix b j assume "b \<in> set bl" "fst b \<le> j" "j < fst b + snd b"
    then show "d' ! j = d ! j" using lim [of b] p(2) by (intro out) auto
  qed
  then have "space d' hdr u (co + 2 * ?n) (xs @ ys) bl" using p(2) by (simp add: space_def)
  moreover have "bytesAt d' y = bytesAt d y" if "y \<in> set (xs @ ys)" for y
    by (rule bytesAt_agree [OF len]) (use that lim [of y] p(2) in \<open>auto intro!: out\<close>)
  then have "map (bytesAt d') (xs @ ys) = map (bytesAt d) (xs @ ys)" by simp
  moreover have "put2byte d2 (hdr + 3) (int ?n) = Inr d'" using d2(2) b p(2) by (simp add: d'_def put2byte_ok)
  moreover have "word2 d' (hdr + 3) = ?n" unfolding d'_def using d2(2) b p(2) by (subst word2_put2) auto
  moreover have "d' ! hdr = d ! hdr" by (rule out) (use p(2) in auto)
  ultimately show thesis using that d2(1) by blast
qed

lemma dropCell_ok:
  assumes k: "page_ok pg xs bl" and i: "i < length xs"
  shows "\<exists>pg' xs' bl'. dropCell pg i (length (page_cells pg ! i)) = Some (Inr pg') \<and> shape pg' = shape pg
    \<and> aData pg' ! hdrOffset pg = aData pg ! hdrOffset pg \<and> page_ok pg' xs' bl' \<and> page_cells pg' = take i (page_cells pg) @ drop (i + 1) (page_cells pg)"
proof -
  let ?d = "aData pg" and ?h = "hdrOffset pg" and ?u = "usableSize pg" and ?co = "cellOffset pg"
  define ys zs x where "ys = take i xs" and "zs = drop (i + 1) xs" and "x = xs ! i"
  have xs: "xs = ys @ x # zs" unfolding ys_def zs_def x_def using i by (simp add: id_take_nth_drop)
  have iy: "length ys = i" using i by (simp add: ys_def)
  have s: "space ?d ?h ?u (?co + 2 * length xs) (x # ys @ zs) bl" and pt: "points ?d ?co (ys @ x # zs)" "?h + 8 \<le> ?co"
    and n: "nCell pg = length xs" "nOverflow pg = 0" "nFree pg + ?co + 2 * length xs + sizes xs = ?u"
    and w: "\<forall>x \<in> set xs. wfCell pg (bytesAt ?d x)"
    using k xs by (simp_all add: page_ok_def laid_def space_front)
  have b: "?u < 65536" "?u \<le> length ?d" "fst x + snd x \<le> length ?d" "4 \<le> snd x" using s by (auto simp: space_def within_def)
  have cells: "page_cells pg = map (bytesAt ?d) xs" by (rule page_ok_cells [OF k])
  have sz: "length (page_cells pg ! i) = snd x" using cells i b(3) by (simp add: x_def)
  have s': "space ?d ?h ?u (?co + 2 * length xs) ((fst x, snd x) # ys @ zs) bl" using s by simp
  from freeSpace_ok [OF s'] obtain d1 bl1 where
    d1: "freeSpace pg (fst x) (snd x) = Some (Inr (pg\<lparr>aData := d1, nFree := (nFree pg + snd x) mod 65536\<rparr>))"
    "space d1 ?h ?u (?co + 2 * length xs) (ys @ zs) bl1" "\<forall>x \<in> set (ys @ zs). bytesAt d1 x = bytesAt ?d x"
    "\<forall>j < ?co + 2 * length xs. j \<notin> {?h + 1, ?h + 2, ?h + 5, ?h + 6, ?h + 7} \<longrightarrow> d1 ! j = ?d ! j" by blast
  have "points d1 ?co (ys @ x # zs)" by (rule points_agree [OF pt(1)]) (use d1(4) xs pt(2) in auto)
  from drop_data [OF d1(2) [unfolded xs] this pt(2)] obtain d2 d3 where
    d3: "dropLoop d1 (?co + 2 * length ys) (length zs) = Inr d2" "put2byte d2 (?h + 3) (int (length (ys @ zs))) = Inr d3"
    "space d3 ?h ?u (?co + 2 * length (ys @ zs)) (ys @ zs) bl1" "points d3 ?co (ys @ zs)" "word2 d3 (?h + 3) = length (ys @ zs)"
    "map (bytesAt d3) (ys @ zs) = map (bytesAt d1) (ys @ zs)" "d3 ! ?h = d1 ! ?h" .
  define pg' where "pg' = pg\<lparr>aData := d3, nFree := nFree pg + snd x + 2, nCell := length (ys @ zs), idxShift := True\<rparr>"
  have m: "(nFree pg + snd x) mod 65536 = nFree pg + snd x" "(nFree pg + snd x + 2) mod 65536 = nFree pg + snd x + 2"
    "nat ((int (length xs) - 1) mod 65536) = length (ys @ zs)" using n b(1) pt(2) xs by auto
  have "get2byte ?d (?co + 2 * i) = Inr (fst x)"
    using pt(1) iy b(2) n(3) xs by (subst get2byte_ok) (auto simp: points_append)
  then have "dropCell pg i (snd x) = Some (Inr pg')"
    using d1(1) d3(1,2) iy n(1) xs m by (simp add: dropCell_def Let_def pg'_def)
  moreover have mp: "map (bytesAt d3) (ys @ zs) = map (bytesAt ?d) (ys @ zs)" using d3(6) d1(3) unfolding map_eq_conv by metis
  then have "\<forall>y \<in> set (ys @ zs). wfCell pg (bytesAt d3 y)" using w xs by (auto simp: map_eq_conv)
  then have ok: "page_ok pg' (ys @ zs) bl1" using d3(3-5) n pt(2) xs by (simp add: page_ok_def laid_def pg'_def)
  moreover have "shape pg' = shape pg" by (simp add: pg'_def)
  moreover have "page_cells pg' = take i (page_cells pg) @ drop (i + 1) (page_cells pg)"
    using page_ok_cells [OF ok] mp cells by (simp add: pg'_def ys_def zs_def take_map drop_map)
  moreover have "d3 ! ?h = ?d ! ?h" using d3(7) d1(4) pt(2) by simp
  then have "aData pg' ! ?h = ?d ! ?h" by (simp add: pg'_def)
  ultimately show ?thesis using sz by auto
qed
subsection \<open>Empty pages and pages that are read back\<close>

definition page_start :: "MemPage \<Rightarrow> bool" where
  "page_start pg \<longleftrightarrow> hdrOffset pg + 12 \<le> usableSize pg \<and> usableSize pg \<le> length (aData pg) \<and> usableSize pg < 65536"

lemma zeroPage_ok:
  assumes "page_start pg"
  shows "\<exists>pg'. zeroPage pg flags = Inr pg' \<and> page_wf pg' \<and> page_cells pg' = [] \<and> isInit pg' \<and> pBt pg' = pBt pg
    \<and> hdrOffset pg' = hdrOffset pg \<and> aData pg' ! hdrOffset pg = flags \<and> word2 (aData pg') (hdrOffset pg + 5) = usableSize pg"
proof -
  let ?d = "aData pg" and ?h = "hdrOffset pg" and ?u = "usableSize pg"
  let ?co = "?h + 8 + (if flags AND PTF_LEAF = 0 then 4 else 0)"
  have b: "?h + 12 \<le> ?u" "?u \<le> length ?d" "?u < 65536" using assms by (auto simp: page_start_def)
  define d1 where "d1 = (overwrite ?d ?h (replicate (?u - ?h) 0))[?h := flags]"
  define d2 where "d2 = (overwrite d1 (?h + 1) (replicate 4 0))[?h + 7 := 0]"
  define d3 where "d3 = put2 d2 (?h + 5) (int ?u)"
  have f1: "?h + length (replicate (?u - ?h) (0 :: byte)) \<le> length ?d" using b by simp
  note s1 = overwrite_ok(1) [OF f1]
  have l1: "length d1 = length ?d" by (simp add: d1_def s1)
  have f2: "?h + 1 + length (replicate 4 (0 :: byte)) \<le> length d1" using b l1 by simp
  note s2 = overwrite_ok [OF f2]
  have len: "length d2 = length ?d" "length d3 = length ?d" using s2(1) l1 by (simp_all add: d2_def d3_def)
  have z: "d2 ! (?h + 1 + j) = 0" if "j < 4" for j
  proof -
    have "bytesAt (overwrite d1 (?h + 1) (replicate 4 0)) (?h + 1, 4) ! j = (replicate 4 0 :: byte list) ! j" using s2(2) by simp
    then have "overwrite d1 (?h + 1) (replicate 4 0) ! (?h + 1 + j) = 0" using that f2 s2(1) by (simp add: bytesAt_def)
    then show ?thesis using that by (simp add: d2_def)
  qed
  have "word2 d2 (?h + 1) = 0" "word2 d2 (?h + 3) = 0" using z [of 0] z [of 1] z [of 2] z [of 3] by (simp_all add: word2_def numeral_3_eq_3)
  then have w: "word2 d3 (?h + 1) = 0" "word2 d3 (?h + 3) = 0" by (simp_all add: d3_def word2_put2_apart)
  have w5: "word2 d3 (?h + 5) = ?u" unfolding d3_def using b len(1) by (subst word2_put2) auto
  have w7: "d3 ! (?h + 7) = 0" using b len(1) by (simp add: d3_def nth_put2 d2_def)
  have "overwrite d1 (?h + 1) (replicate 4 0) ! ?h = d1 ! ?h" by (rule s2(3)) simp
  then have w0: "d3 ! ?h = flags" using b s1 by (simp add: d3_def nth_put2 d2_def) (simp add: d1_def)
  note w = w w5 w7 w0
  have sp: "space d3 ?h ?u ?co [] []" unfolding space_def w using b len w by simp
  define pg' where "pg' = (decodeFlags (pg\<lparr>aData := d3, nFree := nat ((int ?u - int ?co) mod 65536)\<rparr>) flags)\<lparr>hdrOffset := ?h, cellOffset := ?co,
          nOverflow := 0, idxShift := False, nCell := 0, isInit := True\<rparr>"
  have "zeroPage pg flags = Inr pg'"
    using b l1 s1 f2 s2(1) len by (simp add: zeroPage_def Let_def memsetB_overwrite d1_def d2_def d3_def pg'_def put2byte_ok)
  moreover have g: "aData pg' = d3" "hdrOffset pg' = ?h" "cellOffset pg' = ?co" "pBt pg' = pBt pg" "nCell pg' = 0" "nOverflow pg' = 0" "isInit pg'"
      "nFree pg' = ?u - ?co"
    using b by (auto simp: pg'_def decodeFlags_def Let_def)
  moreover have "page_ok pg' [] []" using sp g w b by (simp add: page_ok_def laid_def)
  moreover have "flagged pg'" using w(5) by (auto simp: flagged_def pg'_def decodeFlags_def Let_def)
  moreover have "page_cells pg' = []" by (simp add: page_cells_def g)
  ultimately show ?thesis using w(3,5) by (auto simp: page_wf_def)
qed

lemma sumFree_spec:
  "links d a bl 0 \<Longrightarrow> sorted_wrt spaced bl \<Longrightarrow> \<forall>b \<in> set bl. fst b + 4 \<le> u \<Longrightarrow> u \<le> length d \<Longrightarrow>
   sumFree d u (firstOr0 bl) n = Inr (Some (n + int (sizes bl)))"
proof (induction bl arbitrary: a n)
  case Nil
  then show ?case by (simp add: sumFree.simps firstOr0_def)
next
  case (Cons b bl)
  have w: "word2 d (fst b) = firstOr0 bl" "word2 d (fst b + 2) = snd b" "0 < fst b" using Cons.prems(1) links_first by auto
  have "firstOr0 bl > 0 \<Longrightarrow> fst b + snd b + 3 < firstOr0 bl" using Cons.prems(2) by (cases bl) (auto simp: firstOr0_def spaced_def)
  then have "sumFree d u (fst b) n = sumFree d u (firstOr0 bl) (n + int (snd b))"
    using w Cons.prems(3,4) by (subst sumFree.simps) (auto simp: get2byte_ok)
  then show ?case using Cons.IH [of "fst b" "n + int (snd b)"] Cons.prems by (simp add: firstOr0_def)
qed

text \<open>A page object that has the bytes of a page but has not been read yet.\<close>

definition unread :: "MemPage \<Rightarrow> MemPage \<Rightarrow> bool" where
  "unread q pg \<longleftrightarrow> aData q = aData pg \<and> hdrOffset q = hdrOffset pg \<and> pBt q = pBt pg \<and> \<not> isInit q"

lemma decodeFlags_fields [simp]:
  "aData (decodeFlags q f) = aData q" "hdrOffset (decodeFlags q f) = hdrOffset q" "pBt (decodeFlags q f) = pBt q"
  "pParent (decodeFlags q f) = pParent q"
  by (simp_all add: decodeFlags_def Let_def)

lemma cellSizePtr_agree:
  assumes "childPtrSize p = childPtrSize q" "hasData p = hasData q" "intKey p = intKey q" "maxLocal p = maxLocal q"
    "minLocal p = minLocal q" "pBt p = pBt q"
  shows "cellSizePtr p = cellSizePtr q"
  unfolding cellSizePtr_def sqlite3BtreeParseCellPtr_def assms ..

lemma decodeFlags_agree:
  assumes "pBt q = pBt pg" "decodeFlags pg f = pg"
  shows "cellSizePtr (decodeFlags q f) = cellSizePtr pg" "leaf (decodeFlags q f) = leaf pg"
proof -
  have "cellSizePtr (decodeFlags q f) = cellSizePtr (decodeFlags pg f)"
    by (rule cellSizePtr_agree) (use assms(1) in \<open>simp_all add: decodeFlags_def Let_def\<close>)
  moreover have "leaf (decodeFlags q f) = leaf (decodeFlags pg f)" by (simp add: decodeFlags_def Let_def)
  ultimately show "cellSizePtr (decodeFlags q f) = cellSizePtr pg" "leaf (decodeFlags q f) = leaf pg" unfolding assms(2) .
qed

lemma initPage_ok:
  assumes pg: "page_wf pg" "usableSize pg \<le> bt_pageSize (pBt pg)" and q: "unread q pg" "pParent q = None \<or> pParent q = parent"
    and r: "nCell pg > 0 \<or> parent = None \<or> parent = Some 1"
  shows "\<exists>q'. sqlite3BtreeInitPage q parent = Inr (PAGE_OK, q') \<and> isInit q' \<and> pParent q' = parent \<and> aData q' = aData pg
    \<and> nCell q' = nCell pg \<and> nFree q' = nFree pg \<and> page_cells q' = page_cells pg \<and> page_wf q'"
proof -
  let ?d = "aData pg" and ?h = "hdrOffset pg" and ?u = "usableSize pg" and ?co = "cellOffset pg"
  obtain xs bl where k: "page_ok pg xs bl" and fl: "flagged pg" using pg(1) by (auto simp: page_wf_def)
  have s: "space ?d ?h ?u (?co + 2 * length xs) xs bl" and n: "nCell pg = length xs" "word2 ?d (?h + 3) = length xs"
      "nFree pg + ?co + 2 * length xs + sizes xs = ?u" "?h + 8 \<le> ?co"
    using k by (auto simp: page_ok_def laid_def)
  have len: "?h + 8 \<le> length ?d" by (rule space_bounds(1) [OF s])
  have e: "aData q = ?d" "hdrOffset q = ?h" "pBt q = pBt pg" "\<not> isInit q" using q(1) by (auto simp: unread_def)
  define q0 where "q0 = (if pParent q = None \<and> parent \<noteq> None then q\<lparr>pParent := parent\<rparr> else q)"
  define q1 where "q1 = (decodeFlags q0 (?d ! ?h))\<lparr>nOverflow := 0, idxShift := False, cellOffset := ?co, nCell := length xs\<rparr>"
  have e0: "aData q0 = ?d" "hdrOffset q0 = ?h" "pBt q0 = pBt pg" "pParent q0 = parent" using e q(2) by (auto simp: q0_def)
  have df: "decodeFlags pg (?d ! ?h) = pg" "?co = ?h + 12 - (if leaf pg then 4 else 0)" using fl by (auto simp: flagged_def)
  note da = decodeFlags_agree [OF e0(3) df(1)]
  have q1: "aData q1 = ?d" "hdrOffset q1 = ?h" "pBt q1 = pBt pg" "pParent q1 = parent" "nCell q1 = length xs" "cellOffset q1 = ?co" "leaf q1 = leaf pg"
    using da(2) e0 by (simp_all add: q1_def decodeFlags_def Let_def)
  define top frag where "top = word2 ?d (?h + 5)" and "frag = unat (?d ! (?h + 7))"
  have "\<forall>x \<in> set xs. 4 \<le> snd x" using space_bounds(3) [OF s] by auto
  then have sz: "4 * length xs \<le> sizes xs" by (induction xs) auto
  have mx: "\<not> int (length xs) > MX_CELL (pBt pg)" using sz n(3,4) pg(2) by (simp add: MX_CELL_def)
  have sf: "sumFree ?d ?u (word2 ?d (?h + 1)) m = Inr (Some (m + int (sizes bl)))" for m
    using sumFree_spec [OF space_links [OF s], of ?u m] s links_first [OF space_links [OF s]] by (force simp: space_def within_def)
  have eq: "top + frag + sizes xs + sizes bl = ?u" using s by (simp add: space_def top_def frag_def)
  have tot: "int frag + int top - int (?co + 2 * length xs) + int (sizes bl) = int (nFree pg)" using eq n(3) by linarith
  have mod: "int (nFree pg) mod 65536 = int (nFree pg)" "nFree pg < ?u" using s n(3,4) by (auto simp: space_def)
  define q' where "q' = q1\<lparr>nFree := nFree pg, isInit := True\<rparr>"
  have g: "rd ?d ?h = Inr (?d ! ?h)" "get2byte ?d (?h + 5) = Inr top" "get2byte ?d (?h + 3) = Inr (length xs)"
    "get2byte ?d (?h + 1) = Inr (word2 ?d (?h + 1))" "rd ?d (?h + 7) = Inr (?d ! (?h + 7))"
    using len n(2) by (simp_all add: get2byte_ok top_def)
  have co: "?h + 12 - (if leaf (decodeFlags q0 (?d ! ?h)) then 4 else 0) = ?co" using da(2) df(2) by simp
  have "sqlite3BtreeInitPage q parent = Inr (PAGE_OK, q')"
  proof -
    have c: "\<not> (pParent q \<noteq> parent \<and> (pParent q \<noteq> None \<or> isInit q))" "\<not> (length xs = 0 \<and> parent \<noteq> None \<and> parent \<noteq> Some 1)"
      using e q(2) r n(1) by auto
    let ?q2 = "(decodeFlags q0 (?d ! ?h))\<lparr>nOverflow := 0, idxShift := False\<rparr>"
    have q2: "?q2\<lparr>cellOffset := ?h + 12 - (if leaf ?q2 then 4 else 0)\<rparr>\<lparr>nCell := length xs\<rparr> = q1" using co by (simp add: q1_def)
    have f: "aData (?q2\<lparr>cellOffset := k\<rparr>) = ?d" "hdrOffset q0 = ?h" for k using e0 by simp_all
    have s2: "sumFree ?d ?u (word2 ?d (?h + 1)) (int (unat (?d ! (?h + 7))) + int top - int (?co + 2 * length xs)) = Inr (Some (int (nFree pg)))"
      using sf tot by (simp add: frag_def)
    show ?thesis
      unfolding sqlite3BtreeInitPage_def q0_def [symmetric] Let_def
      by (simp only: if_not_P [OF c(1)] if_not_P [OF e(4)] e0(1,2) g f bindR_simps q2 q1 if_not_P [OF mx] if_not_P [OF c(2)] s2 option.case
          MemPage.simps if_not_P)
        (use mod q1(3) in \<open>simp add: q'_def\<close>)
  qed
  moreover have sp: "cellSizePtr q' = cellSizePtr pg"
    unfolding da(1) [symmetric] by (rule cellSizePtr_agree) (simp_all add: q'_def q1_def)
  moreover have fc: "findCell q' = findCell pg" "nCell q' = nCell pg" using q1 n(1) by (simp_all add: findCell_def fun_eq_iff q'_def)
  have cs: "wfCell q' = wfCell pg" "page_cells q' = page_cells pg" unfolding wfCell_def fun_eq_iff page_cells_def sp fc by simp_all
  moreover have "page_ok q' xs bl" using k cs(1) q1 by (simp add: page_ok_def laid_def q'_def q1_def)
  moreover have "flagged q'" using df da(2) e0 by (auto simp: flagged_def q'_def q1_def decodeFlags_def Let_def)
  ultimately show ?thesis using q1 n(1) by (auto simp: page_wf_def q'_def)
qed

end
