(* ===== verification/PageEdit.thy ===== *)
theory PageEdit
  imports PageCells SeqStore
begin

text \<open>
  Editing B-tree pages. The insertions and deletions of a page as a sequence store, pages that
  are read back, the cells that wait in the overflow list of a full page, and pages assembled
  at once from a list of cells.
\<close>

subsection \<open>A page as a sequence of cells\<close>

text \<open>
  The edits of a page through its operations: a cell is inserted with insertCell from a buffer
  that holds exactly it, and removed with dropCell, which is given the size of the cell as
  cellSizePtr computes it.
\<close>

definition page_insert :: "page_env \<Rightarrow> MemPage \<Rightarrow> nat \<Rightarrow> byte list \<Rightarrow> MemPage option" where
  "page_insert env pg i c = (case insertCell env pg i c (length c) None 0 of Some (Inr (None, pg')) \<Rightarrow> Some pg' | _ \<Rightarrow> None)"

definition page_remove :: "MemPage \<Rightarrow> nat \<Rightarrow> MemPage option" where
  "page_remove pg i = (case bindR (findCell pg i) (cellSizePtr pg) of Inl e \<Rightarrow> None
     | Inr n \<Rightarrow> (case dropCell pg i n of Some (Inr pg') \<Rightarrow> Some pg' | _ \<Rightarrow> None))"

fun page_edit :: "page_env \<Rightarrow> MemPage \<Rightarrow> byte list edit \<Rightarrow> MemPage option" where
  "page_edit env pg (Append c) = page_insert env pg (nCell pg) c"
| "page_edit env pg (Insert c i) = page_insert env pg i c"
| "page_edit env pg (Remove i) = page_remove pg i"
| "page_edit env pg RemoveLast = (if nCell pg = 0 then Some pg else page_remove pg (nCell pg - 1))"

text \<open>A cell fits on a page of the kind the flags say: it is well-formed, and there is room for it and its pointer.\<close>

definition page_first :: "MemPage \<Rightarrow> byte \<Rightarrow> nat" where
  "page_first q flags = hdrOffset q + 8 + (if flags AND PTF_LEAF = 0 then 4 else 0)"

definition cells_size :: "byte list list \<Rightarrow> nat" where
  "cells_size cs = 2 * length cs + sum_list (map length cs)"

definition page_fits :: "MemPage \<Rightarrow> byte \<Rightarrow> byte list list \<Rightarrow> byte list \<Rightarrow> bool" where
  "page_fits q flags cs c \<longleftrightarrow> wfCell (decodeFlags q flags) c \<and> page_first q flags + cells_size (c # cs) \<le> usableSize q"

definition page_of :: "MemPage \<Rightarrow> byte \<Rightarrow> MemPage \<Rightarrow> bool" where
  "page_of q flags pg \<longleftrightarrow> page_wf pg \<and> aData pg ! hdrOffset pg = flags \<and> hdrOffset pg = hdrOffset q \<and> pBt pg = pBt q"

definition page_inv :: "page_env \<Rightarrow> MemPage \<Rightarrow> byte \<Rightarrow> MemPage \<Rightarrow> bool" where
  "page_inv env q flags pg \<longleftrightarrow> page_of q flags pg \<and> can_write env q"

lemma page_wf_space: "page_wf pg \<Longrightarrow> nFree pg + cellOffset pg + cells_size (page_cells pg) = usableSize pg"
proof -
  assume "page_wf pg"
  then obtain xs bl where k: "page_ok pg xs bl" by (auto simp: page_wf_def)
  then have s: "space (aData pg) (hdrOffset pg) (usableSize pg) (cellOffset pg + 2 * length xs) xs bl" by (simp add: page_ok_def laid_def)
  have "sizes xs = sum_list (map length (map (bytesAt (aData pg)) xs))"
    by (rule sizes_bytes) (use space_bounds(3) [OF s] in auto)
  then show ?thesis using k page_ok_cells [OF k] by (simp add: page_ok_def cells_size_def)
qed

lemma page_of_kind:
  assumes "page_of q flags pg"
  shows "wfCell (decodeFlags q flags) = wfCell pg" "cellOffset pg = page_first q flags" "usableSize pg = usableSize q"
proof -
  have f: "decodeFlags pg flags = pg" "cellOffset pg = hdrOffset q + 12 - (if leaf pg then 4 else 0)" "pBt q = pBt pg"
    using assms by (auto simp: page_of_def page_wf_def flagged_def)
  note a = decodeFlags_agree [OF f(3,1)]
  show "wfCell (decodeFlags q flags) = wfCell pg" by (simp add: wfCell_def fun_eq_iff a(1))
  have "leaf pg \<longleftrightarrow> flags AND PTF_LEAF \<noteq> 0" unfolding a(2) [symmetric] by (simp add: decodeFlags_def Let_def)
  then show "cellOffset pg = page_first q flags" using f(2) by (simp add: page_first_def)
  show "usableSize pg = usableSize q" using f(3) by simp
qed

lemma page_inv_kind:
  assumes "page_inv env q flags pg"
  shows "wfCell (decodeFlags q flags) = wfCell pg" "cellOffset pg = page_first q flags" "usableSize pg = usableSize q" "can_write env pg"
  using assms page_of_kind [of q flags pg] by (auto simp: page_inv_def page_of_def can_write_def)

lemma page_ok_length: "page_ok pg xs bl \<Longrightarrow> length (page_cells pg) = length xs"
  by (simp add: page_ok_cells)

lemma page_inv_next:
  "page_inv env q flags pg \<Longrightarrow> shape pg' = shape pg \<Longrightarrow> aData pg' ! hdrOffset pg = aData pg ! hdrOffset pg \<Longrightarrow> page_ok pg' xs' bl'
   \<Longrightarrow> page_inv env q flags pg'"
  using shape_fields [of pg' pg] flagged_shape [of pg' pg] by (auto simp: page_inv_def page_of_def page_wf_def)

lemma page_insert_step:
  assumes k: "page_inv env q flags pg" and f: "page_fits q flags (page_cells pg) c" and i: "i \<le> length (page_cells pg)"
  shows "\<exists>pg'. page_insert env pg i c = Some pg' \<and> page_inv env q flags pg' \<and> page_cells pg' = take i (page_cells pg) @ c # drop i (page_cells pg)"
proof -
  obtain xs bl where ok: "page_ok pg xs bl" "page_wf pg" using k by (auto simp: page_inv_def page_of_def page_wf_def)
  note kind = page_inv_kind [OF k]
  have w: "wfCell pg c" "length c + 2 \<le> nFree pg"
    using f kind page_wf_space [OF ok(2)] by (auto simp: page_fits_def cells_size_def)
  from insertCell_ok [OF ok(1) w kind(4), of i "[]" None] i page_ok_length [OF ok(1)] obtain pg' xs' bl' where
    p: "insertCell env pg i (c @ []) (length c) None 0 = Some (Inr (None, pg'))" "shape pg' = shape pg"
      "aData pg' ! hdrOffset pg = aData pg ! hdrOffset pg" "page_ok pg' xs' bl'" "page_cells pg' = take i (page_cells pg) @ c # drop i (page_cells pg)" by auto
  then show ?thesis using page_inv_next [OF k p(2-4)] by (simp add: page_insert_def)
qed

lemma page_remove_step:
  assumes k: "page_inv env q flags pg" and i: "i < length (page_cells pg)"
  shows "\<exists>pg'. page_remove pg i = Some pg' \<and> page_inv env q flags pg' \<and> page_cells pg' = take i (page_cells pg) @ drop (i + 1) (page_cells pg)"
proof -
  obtain xs bl where ok: "page_ok pg xs bl" using k by (auto simp: page_inv_def page_of_def page_wf_def)
  then have ix: "i < length xs" using i page_ok_length by simp
  have sz: "bindR (findCell pg i) (cellSizePtr pg) = Inr (length (page_cells pg ! i))"
    using page_ok_size [OF ok ix] .
  from dropCell_ok [OF ok ix] obtain pg' xs' bl' where
    p: "dropCell pg i (length (page_cells pg ! i)) = Some (Inr pg')" "shape pg' = shape pg"
      "aData pg' ! hdrOffset pg = aData pg ! hdrOffset pg" "page_ok pg' xs' bl'" "page_cells pg' = take i (page_cells pg) @ drop (i + 1) (page_cells pg)" by auto
  then show ?thesis using page_inv_next [OF k p(2-4)] sz by (simp add: page_remove_def)
qed

lemma page_edit_refines:
  assumes k: "page_inv env q flags pg" and e: "edit_list (page_fits q flags) (page_cells pg) e = Some ys"
  shows "\<exists>pg'. page_edit env pg e = Some pg' \<and> page_inv env q flags pg' \<and> page_cells pg' = ys"
proof -
  have n: "nCell pg = length (page_cells pg)" by (simp add: page_cells_def)
  show ?thesis
  proof (cases e)
    case (Append c)
    with e page_insert_step [OF k, of c "nCell pg"] n show ?thesis by (auto split: if_splits)
  next
    case (Insert c i)
    with e page_insert_step [OF k, of c i] show ?thesis by (auto split: if_splits)
  next
    case (Remove i)
    with e page_remove_step [OF k, of i] show ?thesis by (auto split: if_splits)
  next
    case RemoveLast
    show ?thesis
    proof (cases "nCell pg = 0")
      case False
      with page_remove_step [OF k, of "nCell pg - 1"] n e RemoveLast show ?thesis by (auto simp: butlast_conv_take)
    qed (use k e n RemoveLast in auto)
  qed
qed

interpretation pg: seq_store "page_inv env q flags" page_cells "page_fits q flags" "page_edit env" for env q flags
  by unfold_locales (rule page_edit_refines)
subsection \<open>Properties\<close>

text \<open>
  C7: a page is an ordered list of cells. From an empty page of any kind, every script of
  insertions and deletions that is valid on the list, and whose cells are well-formed and fit,
  runs without a fault and without an endless loop, whatever free blocks, fragments and
  defragmentations it leads to; the cells of the page are then exactly those of the list in
  their order, and nFree is exactly what they and their pointers leave.
\<close>

theorem page_script:
  assumes "page_start q" "can_write env q" "edits_list (page_fits q flags) [] es = Some ys"
  shows "\<exists>pg pg'. zeroPage q flags = Inr pg \<and> run_edits (page_edit env) pg es = Some pg' \<and> page_wf pg' \<and> page_cells pg' = ys
    \<and> nFree pg' + page_first q flags + cells_size ys = usableSize q"
proof -
  from zeroPage_ok [OF assms(1), of flags] obtain pg where pg: "zeroPage q flags = Inr pg" "page_inv env q flags pg" "page_cells pg = []"
    using assms(2) by (auto simp: page_inv_def page_of_def)
  from pg.run_edits_spec [OF pg(2), of es ys] pg(3) assms(3) obtain pg' where
    pg': "run_edits (page_edit env) pg es = Some pg'" "page_inv env q flags pg'" "page_cells pg' = ys" by auto
  have "page_wf pg'" using pg'(2) by (simp add: page_inv_def page_of_def)
  with pg(1) pg' page_wf_space [OF this] page_inv_kind(2,3) [OF pg'(2)] show ?thesis by auto
qed

definition sample_bt :: BtShared where
  "sample_bt = \<lparr>bt_pageSize = 512, bt_usableSize = 512, bt_maxLocal = 102, bt_minLocal = 39, bt_maxLeaf = 477, bt_minLeaf = 39, bt_autoVacuum = False\<rparr>"

definition sample_page :: MemPage where
  "sample_page = \<lparr>isInit = False, idxShift = False, nOverflow = 0, intKey = False, leaf = False, zeroData = False, leafData = False, hasData = False,
     hdrOffset = 0, childPtrSize = 0, maxLocal = 0, minLocal = 0, cellOffset = 0, nFree = 0, nCell = 0, aOvfl = [], pBt = sample_bt,
     aData = replicate 512 255, pgno = 2, pParent = None\<rparr>"

definition sample_env :: page_env where
  "sample_env = \<lparr>env_temp = replicate 512 0, env_write = None, env_ptrmapPut = \<lambda>_. None\<rparr>"

lemma sample_cells: "wfCell (decodeFlags sample_page 0x0d) [2, 1, 65, 66]" "wfCell (decodeFlags sample_page 0x0d) [3, 2, 7, 8, 9]"
  by (simp_all add: wfCell_def cellSizePtr_def sqlite3BtreeParseCellPtr_def decodeFlags_def sample_page_def sample_bt_def
      PTF_INTKEY_def PTF_LEAF_def PTF_LEAFDATA_def PTF_ZERODATA_def Let_def getVarint32_def sqlite3GetVarint_def)

theorem page_script_witness:
  "\<exists>pg pg'. zeroPage sample_page 0x0d = Inr pg
    \<and> run_edits (page_edit sample_env) pg [Append [2, 1, 65, 66], Insert [3, 2, 7, 8, 9] 0, Remove 1] = Some pg' \<and> page_wf pg'
    \<and> page_cells pg' = [[3, 2, 7, 8, 9]] \<and> nFree pg' + page_first sample_page 0x0d + cells_size [[3, 2, 7, 8, 9]] = usableSize sample_page"
proof (rule page_script)
  show "page_start sample_page" by (simp add: page_start_def sample_page_def sample_bt_def)
  show "can_write sample_env sample_page" by (simp add: can_write_def sample_env_def sample_page_def sample_bt_def)
  show "edits_list (page_fits sample_page 0x0d) [] [Append [2, 1, 65, 66], Insert [3, 2, 7, 8, 9] 0, Remove 1] = Some [[3, 2, 7, 8, 9]]"
    using sample_cells by (simp add: page_fits_def page_first_def cells_size_def) (simp add: sample_page_def sample_bt_def)
qed
text \<open>
  C14: a page survives being written and read back. When the bytes of a well-formed page are
  read into a page object that has not been initialised, sqlite3BtreeInitPage accepts them: its
  walk over the free blocks finds no corruption, the number of cells is within the limit for
  the page size, and it recomputes the same free space and finds the same cells.
\<close>

theorem page_reload:
  assumes "page_wf pg" "usableSize pg \<le> bt_pageSize (pBt pg)" "unread q pg" "pParent q = None \<or> pParent q = parent"
    "nCell pg > 0 \<or> parent = None \<or> parent = Some 1"
  shows "\<exists>q'. sqlite3BtreeInitPage q parent = Inr (PAGE_OK, q') \<and> isInit q' \<and> pParent q' = parent \<and> aData q' = aData pg
    \<and> nCell q' = nCell pg \<and> nFree q' = nFree pg \<and> page_cells q' = page_cells pg \<and> page_wf q'"
  using assms by (rule initPage_ok)

theorem page_reload_witness:
  "\<exists>pg q'. zeroPage sample_page 0x0d = Inr pg \<and> sqlite3BtreeInitPage (sample_page\<lparr>aData := aData pg\<rparr>) (Some 1) = Inr (PAGE_OK, q')
    \<and> isInit q' \<and> nFree q' = nFree pg \<and> page_cells q' = []"
proof -
  have "page_start sample_page" by (simp add: page_start_def sample_page_def sample_bt_def)
  from zeroPage_ok [OF this, of "0x0d"] obtain pg where pg: "zeroPage sample_page 0x0d = Inr pg" "page_wf pg" "page_cells pg = []"
    "pBt pg = pBt sample_page" "hdrOffset pg = hdrOffset sample_page" by blast
  have "unread (sample_page\<lparr>aData := aData pg\<rparr>) pg" using pg(4,5) by (simp add: unread_def sample_page_def)
  moreover have "usableSize pg \<le> bt_pageSize (pBt pg)" using pg(4) by (simp add: sample_page_def sample_bt_def)
  ultimately show ?thesis using page_reload [OF pg(2), of "sample_page\<lparr>aData := aData pg\<rparr>" "Some 1"] pg(1,3) by (auto simp: sample_page_def)
qed

text \<open>
  C15: returning space. When a region in use is given back with freeSpace, the search for its
  place and the loop that joins neighbouring free blocks end, the result is again a page whose
  free blocks are in order, lie apart from every region still in use and, with the fragments
  counted in the header, account for every byte; the regions still in use keep their bytes.
\<close>

theorem free_space_safe:
  assumes "space (aData pg) (hdrOffset pg) u lim ((start, sz) # used) blocks"
  shows "\<exists>d' blocks'. freeSpace pg start sz = Some (Inr (pg\<lparr>aData := d', nFree := (nFree pg + sz) mod 65536\<rparr>))
    \<and> space d' (hdrOffset pg) u lim used blocks' \<and> (\<forall>x \<in> set used. bytesAt d' x = bytesAt (aData pg) x)"
  using freeSpace_ok [OF assms] by blast

theorem free_space_safe_witness:
  "\<exists>d' blocks'. freeSpace (sample_page\<lparr>aData := [13, 0, 0, 0, 2, 0, 14, 0, 0, 0, 0, 0, 0, 0, 2, 1, 65, 66, 2, 3, 5, 6], nFree := 4\<rparr>) 18 4
      = Some (Inr (sample_page\<lparr>aData := d', nFree := 8\<rparr>))
    \<and> space d' 0 22 12 [(14, 4)] blocks' \<and> bytesAt d' (14, 4) = [2, 1, 65, 66]"
proof -
  let ?pg = "sample_page\<lparr>aData := [13, 0, 0, 0, 2, 0, 14, 0, 0, 0, 0, 0, 0, 0, 2, 1, 65, 66, 2, 3, 5, 6], nFree := 4\<rparr>"
  have h: "hdrOffset ?pg = 0" by (simp add: sample_page_def)
  have "space (aData ?pg) (hdrOffset ?pg) 22 12 [(18, 4), (14, 4)] []"
    unfolding h by (simp add: space_def word2_def within_def apart_def)
  from free_space_safe [OF this] h show ?thesis by (auto simp: bytesAt_def)
qed
subsection \<open>The overflow list of a full page\<close>

text \<open>
  The cells of a page with its overflow list: the cells in the page, into which the overflow
  cells are inserted in the order they were added, each at its index.
\<close>

definition insertAt :: "nat \<Rightarrow> 'a \<Rightarrow> 'a list \<Rightarrow> 'a list" where
  "insertAt i x xs = take i xs @ x # drop i xs"

fun overflow_view :: "byte list cres list \<Rightarrow> (byte list \<times> nat) list \<Rightarrow> byte list cres list" where
  "overflow_view V [] = V"
| "overflow_view V ((c, k) # ovs) = overflow_view (insertAt k (Inr c) V) ovs"

fun overflow_ok :: "nat \<Rightarrow> (byte list \<times> nat) list \<Rightarrow> bool" where
  "overflow_ok n [] \<longleftrightarrow> True"
| "overflow_ok n ((c, k) # ovs) \<longleftrightarrow> k \<le> n \<and> overflow_ok (n + 1) ovs"

definition page_view :: "MemPage \<Rightarrow> byte list cres list" where
  "page_view pg = overflow_view (map (findCell pg) [0..<nCell pg]) (take (nOverflow pg) (aOvfl pg))"

definition overflow_wf :: "MemPage \<Rightarrow> bool" where
  "overflow_wf pg \<longleftrightarrow> nOverflow pg \<le> length (aOvfl pg) \<and> overflow_ok (nCell pg) (take (nOverflow pg) (aOvfl pg))"

lemma overflow_view_snoc: "overflow_view V (ovs @ [(c, k)]) = insertAt k (Inr c) (overflow_view V ovs)"
  by (induction ovs arbitrary: V) auto

lemma overflow_ok_snoc: "overflow_ok n (ovs @ [(c, k)]) \<longleftrightarrow> overflow_ok n ovs \<and> k \<le> n + length ovs"
  by (induction ovs arbitrary: n) auto

lemma length_overflow_view: "overflow_ok (length V) ovs \<Longrightarrow> length (overflow_view V ovs) = length V + length ovs"
  by (induction V ovs rule: overflow_view.induct) (auto simp: insertAt_def)

lemma nth_insertAt: "k \<le> length xs \<Longrightarrow> j \<le> length xs \<Longrightarrow> insertAt k x xs ! j = (if j = k then x else if k < j then xs ! (j - 1) else xs ! j)"
  by (auto simp: insertAt_def nth_append nth_Cons')

lemma findOverflowLoop_view:
  assumes "i \<le> length (aOvfl pg)" "overflow_ok (nCell pg) (take i (aOvfl pg))" "j < nCell pg + i"
  shows "findOverflowLoop pg i j = overflow_view (map (findCell pg) [0..<nCell pg]) (take i (aOvfl pg)) ! j"
  using assms
proof (induction i arbitrary: j)
  case (Suc i)
  obtain c k where ck: "aOvfl pg ! i = (c, k)" by (cases "aOvfl pg ! i")
  let ?V = "overflow_view (map (findCell pg) [0..<nCell pg]) (take i (aOvfl pg))"
  have t: "take (Suc i) (aOvfl pg) = take i (aOvfl pg) @ [(c, k)]" using Suc.prems(1) ck by (simp add: take_Suc_conv_app_nth)
  have o: "overflow_ok (nCell pg) (take i (aOvfl pg))" "k \<le> nCell pg + i" using Suc.prems(1,2) unfolding t overflow_ok_snoc by auto
  have len: "length ?V = nCell pg + i" using length_overflow_view [of "map (findCell pg) [0..<nCell pg]" "take i (aOvfl pg)"] o(1) Suc.prems(1) by simp
  have "insertAt k (Inr c) ?V ! j = (if j = k then Inr c else if k < j then ?V ! (j - 1) else ?V ! j)"
    by (rule nth_insertAt) (use len o(2) Suc.prems(3) in auto)
  moreover have "findOverflowLoop pg i (j - 1) = ?V ! (j - 1)" if "k < j" by (rule Suc.IH) (use that Suc.prems o in auto)
  moreover have "findOverflowLoop pg i j = ?V ! j" if "j < k" by (rule Suc.IH) (use that Suc.prems o in auto)
  ultimately show ?case unfolding t overflow_view_snoc using Suc.prems(1) ck by auto
qed simp

text \<open>
  C16: a full page. When a cell does not fit, or cells are already waiting, insertCell keeps the
  bytes of the page and adds the cell to the overflow list, and findOverflowCell then finds at
  every index what a list would hold after the same insertion: the new cell at its index, and
  the other cells, in the page or waiting, moved up from there.
\<close>

theorem overflow_insert:
  assumes "overflow_wf pg" "nOverflow pg > 0 \<or> sz + 2 > nFree pg" "nOverflow pg < 5" "i \<le> nCell pg + nOverflow pg"
  shows "\<exists>pg'. insertCell env pg i c sz None nSkip = Some (Inr (None, pg')) \<and> overflow_wf pg' \<and> aData pg' = aData pg
    \<and> nCell pg' = nCell pg \<and> nFree pg' = 0 \<and> nOverflow pg' = nOverflow pg + 1
    \<and> (\<forall>j < nCell pg + nOverflow pg. findOverflowCell pg j = page_view pg ! j)
    \<and> (\<forall>j < nCell pg' + nOverflow pg'. findOverflowCell pg' j = insertAt i (Inr c) (page_view pg) ! j)"
proof -
  let ?n = "nOverflow pg"
  define pg' where "pg' = pg\<lparr>nOverflow := ?n + 1, aOvfl := take ?n (aOvfl pg) @ [(c, i)], nFree := 0\<rparr>"
  have f: "findCell pg' = findCell pg" by (simp add: pg'_def findCell_def fun_eq_iff)
  have o: "?n \<le> length (aOvfl pg)" "overflow_ok (nCell pg) (take ?n (aOvfl pg))" using assms(1) by (auto simp: overflow_wf_def)
  have t: "take (nOverflow pg') (aOvfl pg') = take ?n (aOvfl pg) @ [(c, i)]" using o(1) by (simp add: pg'_def)
  have w: "overflow_wf pg'" using o assms(4) unfolding overflow_wf_def t by (simp add: overflow_ok_snoc) (simp add: pg'_def)
  have v: "findOverflowCell p j = page_view p ! j" if "overflow_wf p" "j < nCell p + nOverflow p" for p j
    using that findOverflowLoop_view [of "nOverflow p" p j] by (simp add: overflow_wf_def findOverflowCell_def page_view_def)
  have n: "nCell pg' = nCell pg" by (simp add: pg'_def)
  have "page_view pg' = insertAt i (Inr c) (page_view pg)" unfolding page_view_def t f n overflow_view_snoc ..
  then have "findOverflowCell pg' j = insertAt i (Inr c) (page_view pg) ! j" if "j < nCell pg' + nOverflow pg'" for j using v [OF w that] by simp
  moreover have "insertCell env pg i c sz None nSkip = Some (Inr (None, pg'))"
    using assms(2,3) by (auto simp: insertCell_def insertOverflow_def pg'_def)
  ultimately show ?thesis using w v [OF assms(1)] by (auto simp: pg'_def)
qed

theorem overflow_insert_witness:
  "\<exists>pg'. insertCell sample_env (sample_page\<lparr>nOverflow := 1, aOvfl := [([4, 4, 4, 4], 0)]\<rparr>) 0 [5, 5, 5, 5] 4 None 0 = Some (Inr (None, pg'))
    \<and> findOverflowCell pg' 0 = Inr [5, 5, 5, 5] \<and> findOverflowCell pg' 1 = Inr [4, 4, 4, 4]"
  using overflow_insert [of "sample_page\<lparr>nOverflow := 1, aOvfl := [([4, 4, 4, 4], 0)]\<rparr>" 4 0 sample_env "[5, 5, 5, 5]" 0]
  by (auto simp: overflow_wf_def page_view_def insertAt_def sample_page_def)
subsection \<open>Pages assembled from a list of cells\<close>

fun placeUp :: "nat \<Rightarrow> byte list list \<Rightarrow> region list" where
  "placeUp a [] = []"
| "placeUp a (c # cs) = (a, length c) # placeUp (a + length c) cs"

definition bodies :: "byte list list \<Rightarrow> nat" where
  "bodies cs = sum_list (map length cs)"

lemma bodies_simps [simp]: "bodies [] = 0" "bodies (c # cs) = length c + bodies cs"
  by (simp_all add: bodies_def)

lemma placeUp_sizes [simp]: "sizes (placeUp a cs) = bodies cs" "length (placeUp a cs) = length cs"
  by (induction cs arbitrary: a) auto

lemma placeUp_range: "y \<in> set (placeUp a cs) \<Longrightarrow> a \<le> fst y \<and> fst y + snd y \<le> a + bodies cs \<and> snd y \<in> length ` set cs"
  by (induction cs arbitrary: a) fastforce+

lemma placeUp_apart: "sorted_wrt apart (placeUp a cs)"
  by (induction cs arbitrary: a) (auto simp: apart_def dest!: placeUp_range)

lemma assembleLoop_spec:
  assumes "ptr + 2 * length cs \<le> a" "a + bodies cs \<le> length d" "a + bodies cs < 65536"
  shows "\<exists>d'. assembleLoop d ptr a (map (\<lambda>c. (c, length c)) cs) = Inr d' \<and> length d' = length d
    \<and> points d' ptr (placeUp a cs) \<and> map (bytesAt d') (placeUp a cs) = cs
    \<and> (\<forall>j. j < ptr \<or> ptr + 2 * length cs \<le> j \<and> j < a \<or> a + bodies cs \<le> j \<longrightarrow> d' ! j = d ! j)"
  using assms
proof (induction cs arbitrary: d ptr a)
  case (Cons c cs)
  define d1 where "d1 = put2 d ptr (int a)"
  define d2 where "d2 = overwrite d1 a c"
  have l1: "length d1 = length d" by (simp add: d1_def)
  have fit: "a + length c \<le> length d1" using Cons.prems(2) l1 by simp
  note o = overwrite_ok [OF fit, folded d2_def]
  have go: "assembleLoop d ptr a (map (\<lambda>c. (c, length c)) (c # cs)) = assembleLoop d2 (ptr + 2) (a + length c) (map (\<lambda>c. (c, length c)) cs)"
    using Cons.prems l1 fit by (simp add: put2byte_ok d1_def [symmetric] memcpyB_overwrite bytesAt_def d2_def)
  obtain d' where d': "assembleLoop d2 (ptr + 2) (a + length c) (map (\<lambda>c. (c, length c)) cs) = Inr d'" "length d' = length d2"
    "points d' (ptr + 2) (placeUp (a + length c) cs)" "map (bytesAt d') (placeUp (a + length c) cs) = cs"
    "\<And>j. j < ptr + 2 \<or> ptr + 2 + 2 * length cs \<le> j \<and> j < a + length c \<or> a + length c + bodies cs \<le> j \<Longrightarrow> d' ! j = d2 ! j"
    using Cons.IH [where d = d2 and ptr = "ptr + 2" and a = "a + length c"] Cons.prems o(1) l1 by auto
  have "d' ! j = d ! j" if "j < ptr \<or> ptr + 2 + 2 * length cs \<le> j \<and> j < a \<or> a + length c + bodies cs \<le> j" for j
    using that d'(5) [of j] o(3) [of j] Cons.prems(1) by (auto simp: d1_def nth_put2)
  moreover have "word2 d' ptr = a"
  proof -
    have "word2 d' ptr = word2 d1 ptr" by (rule word2_agree) (use d'(5) o(3) Cons.prems(1) in auto)
    then show ?thesis unfolding d1_def using Cons.prems by (subst (asm) word2_put2) auto
  qed
  moreover have "bytesAt d' (a, length c) = c"
  proof -
    have "bytesAt d' (a, length c) = bytesAt d2 (a, length c)" by (rule bytesAt_agree) (use d' Cons.prems(1) in auto)
    then show ?thesis using o(2) by simp
  qed
  ultimately show ?case using go d' o(1) l1 by (auto simp: add.assoc)
qed simp

lemma space_refine:
  assumes s: "space d hdr u lim [(idx, n)] bl" and x: "sizes xs = n" "sorted_wrt apart xs" "\<forall>x \<in> set xs. 4 \<le> snd x \<and> idx \<le> fst x \<and> fst x + snd x \<le> idx + n"
  shows "space d hdr u lim xs bl"
proof -
  have "within (word2 d (hdr + 5)) u (idx, n)" "\<forall>b \<in> set bl. apart (idx, n) b" using s by (auto simp: space_def)
  then have "\<forall>x \<in> set xs. within (word2 d (hdr + 5)) u x" "\<forall>x \<in> set xs. \<forall>b \<in> set bl. apart x b"
    using x(3) by (fastforce simp: within_def apart_def)+
  then show ?thesis using s x by (auto simp: space_def)
qed

lemma assemble_nonempty:
  assumes pg: "page_wf pg" "nCell pg = 0" "word2 (aData pg) (hdrOffset pg + 5) = usableSize pg" "usableSize pg \<le> length temp"
    and cs: "\<forall>c \<in> set cs. wfCell pg c" "cells_size cs \<le> nFree pg" "cs \<noteq> []"
  shows "\<exists>pg'. assemblePage temp pg (map (\<lambda>c. (c, length c)) cs) = Some (Inr pg') \<and> page_wf pg' \<and> page_cells pg' = cs"
proof -
  let ?d = "aData pg" and ?h = "hdrOffset pg" and ?u = "usableSize pg" and ?co = "cellOffset pg" and ?n = "length cs"
  let ?lim = "?co + 2 * ?n"
  obtain bl where k: "page_ok pg [] bl" and fl: "flagged pg" using pg(1,2) by (auto simp: page_wf_def page_ok_def laid_def)
  have s: "space ?d ?h ?u ?co [] bl" and fr: "nFree pg + ?co = ?u" "nOverflow pg = 0" "?h + 8 \<le> ?co" using k by (auto simp: page_ok_def laid_def)
  have sz: "?lim + bodies cs \<le> ?u" "bodies cs \<le> nFree pg" using cs(2) fr(1) by (auto simp: cells_size_def bodies_def)
  have u: "?u < 65536" "?u \<le> length ?d" using s by (auto simp: space_def)
  have c4: "4 \<le> length c" if "c \<in> set cs" for c using cs(1) that by (auto simp: wfCell_def)
  then have n4: "4 \<le> bodies cs" using cs(3) by (cases cs) (auto simp: trans_le_add1)
  define d1 where "d1 = put2 ?d (?h + 3) (int ?n)"
  have e1: "d1 ! j = ?d ! j" if "j \<noteq> ?h + 3" "j \<noteq> ?h + 4" for j using that by (simp add: d1_def nth_put2)
  have w3: "word2 d1 (?h + 3) = ?n" unfolding d1_def using u sz fr(3) by (subst word2_put2) auto
  have "space d1 ?h ?u ?co [] bl"
    by (rule space_agree [OF s]) (use space_bounds(2) [OF s] in \<open>auto simp: d1_def intro!: e1 [unfolded d1_def]\<close>)
  moreover have w5: "word2 d1 (?h + 5) = ?u" unfolding pg(3) [symmetric] d1_def by (rule word2_put2_apart) simp
  ultimately have "laid (pg\<lparr>aData := d1\<rparr>) ?lim [] bl" using sz(1) pg(2) fr(3) by (auto simp: laid_def space_def)
  from allocateSpace_ok [OF this, of temp "bodies cs"] obtain idx d2 where a:
    "allocateSpace temp (pg\<lparr>aData := d1\<rparr>) (bodies cs) = Some (Inr (int idx, pg\<lparr>nFree := nFree pg - bodies cs, aData := d2\<rparr>))"
    "allocated (pg\<lparr>aData := d1\<rparr>) ?lim [] d2 idx (bodies cs)" using pg(4) n4 sz w3 fr(2) by auto
  from a(2) obtain bl2 where x2: "space d2 ?h ?u ?lim [(idx, bodies cs)] bl2" "keepsLow d1 d2 ?h ?co" by (auto simp: allocated_def moved_def)
  have ix: "?lim \<le> idx" "idx + bodies cs \<le> ?u" "length d2 = length ?d" using x2 by (auto simp: space_def within_def keepsLow_def d1_def)
  obtain d3 where d3: "assembleLoop d2 ?co idx (map (\<lambda>c. (c, length c)) cs) = Inr d3" "length d3 = length d2"
    "points d3 ?co (placeUp idx cs)" "map (bytesAt d3) (placeUp idx cs) = cs"
    "\<And>j. j < ?co \<or> ?lim \<le> j \<and> j < idx \<or> idx + bodies cs \<le> j \<Longrightarrow> d3 ! j = d2 ! j"
    using assembleLoop_spec [of ?co cs idx d2] ix u by auto
  define pg' where "pg' = pg\<lparr>aData := d3, nFree := nFree pg - bodies cs - 2 * ?n, nCell := ?n\<rparr>"
  have m: "nat ((int (nFree pg - bodies cs) - 2 * int ?n) mod 65536) = nFree pg - bodies cs - 2 * ?n" "?n mod 65536 = ?n"
    using sz(1) fr(1) u(1) by (auto simp: nat_diff_distrib)
  have "put2byte ?d (?h + 3) (int ?n) = Inr d1" using u sz fr(3) by (simp add: put2byte_ok d1_def)
  moreover have "sum_list (map snd (map (\<lambda>c. (c, length c)) cs)) = bodies cs" by (simp add: bodies_def comp_def)
  ultimately have "assemblePage temp pg (map (\<lambda>c. (c, length c)) cs) = Some (Inr pg')"
    using a(1) d3(1) cs(3) m unfolding assemblePage_def by (simp add: Let_def pg'_def)
  moreover have "space d3 ?h ?u ?lim [(idx, bodies cs)] bl2"
  proof (rule space_agree [OF x2(1) d3(2)])
    fix b j assume b: "b \<in> set bl2" "fst b \<le> j" "j < fst b + snd b"
    then have "apart (idx, bodies cs) b" "?lim \<le> fst b" using x2(1) space_bounds(2) [OF x2(1)] by (auto simp: space_def)
    then show "d3 ! j = d2 ! j" using b by (intro d3(5)) (auto simp: apart_def)
  qed (use fr(3) in \<open>auto intro!: d3(5)\<close>)
  then have "space d3 ?h ?u ?lim (placeUp idx cs) bl2"
    by (rule space_refine) (use placeUp_apart c4 in \<open>auto dest!: placeUp_range\<close>)
  moreover have "wfCell pg (bytesAt d3 y)" if "y \<in> set (placeUp idx cs)" for y
  proof -
    have "bytesAt d3 y \<in> set (map (bytesAt d3) (placeUp idx cs))" unfolding set_map using that by (rule imageI)
    then show ?thesis using cs(1) unfolding d3(4) by blast
  qed
  moreover have "word2 d3 (?h + 3) = word2 d1 (?h + 3)" "d3 ! ?h = ?d ! ?h"
    using fr(3) x2(2) e1 [of ?h] by (auto intro!: word2_agree simp: d3(5) keepsLow_def)
  ultimately have "page_ok pg' (placeUp idx cs) bl2" "d3 ! ?h = ?d ! ?h"
    using d3(3) w3 fr sz(1) by (simp_all add: page_ok_def laid_def pg'_def)
  moreover have "shape pg' = shape pg" by (simp add: pg'_def)
  ultimately have "page_wf pg'" "page_cells pg' = cs"
    using flagged_shape [of pg' pg] fl page_ok_cells [of pg' "placeUp idx cs" bl2] d3(4) by (auto simp: page_wf_def pg'_def)
  with \<open>assemblePage temp pg _ = _\<close> show ?thesis by blast
qed

lemma assemble_empty:
  assumes "page_wf pg" "nCell pg = 0"
  shows "assemblePage temp pg [] = Some (Inr pg) \<and> page_cells pg = []"
proof -
  obtain bl where k: "page_ok pg [] bl" using assms by (auto simp: page_wf_def page_ok_def laid_def)
  have z: "word2 (aData pg) (hdrOffset pg + 3) = 0" and s: "space (aData pg) (hdrOffset pg) (usableSize pg) (cellOffset pg) [] bl"
    using k by (auto simp: page_ok_def laid_def)
  have "aData pg ! (hdrOffset pg + 3) = 0" "aData pg ! (hdrOffset pg + 4) = 0" using z by (auto simp: word2_def unat_eq_0 add.commute)
  then have "put2 (aData pg) (hdrOffset pg + 3) 0 = aData pg" by (simp add: put2_def list_update_same_conv add.commute)
      (metis list_update_id)
  then have "put2byte (aData pg) (hdrOffset pg + 3) 0 = Inr (aData pg)" using space_bounds(1) [OF s] by (simp add: put2byte_ok)
  then show ?thesis using assms(2) by (simp add: assemblePage_def Let_def page_cells_def)
qed

text \<open>
  C17: a page filled at once, as balancing does it. On an empty page, assemblePage with a list of
  well-formed cells that fit stores exactly these cells in their order, and the result
  satisfies the invariant of the pages that were built by single insertions.
\<close>

theorem assemble_page:
  assumes "page_start q" "usableSize q \<le> length temp" "\<forall>c \<in> set cs. wfCell (decodeFlags q flags) c" "page_first q flags + cells_size cs \<le> usableSize q"
  shows "\<exists>pg pg'. zeroPage q flags = Inr pg \<and> assemblePage temp pg (map (\<lambda>c. (c, length c)) cs) = Some (Inr pg')
    \<and> page_wf pg' \<and> page_cells pg' = cs"
proof -
  from zeroPage_ok [OF assms(1), of flags] obtain pg where pg: "zeroPage q flags = Inr pg" "page_of q flags pg" "page_cells pg = []"
    "word2 (aData pg) (hdrOffset pg + 5) = usableSize pg" by (auto simp: page_of_def)
  note kind = page_of_kind [OF pg(2)]
  have wf: "page_wf pg" using pg(2) by (simp add: page_of_def)
  have n0: "nCell pg = 0" using pg(3) by (simp add: page_cells_def)
  have "\<exists>pg'. assemblePage temp pg (map (\<lambda>c. (c, length c)) cs) = Some (Inr pg') \<and> page_wf pg' \<and> page_cells pg' = cs"
  proof (cases "cs = []")
    case True
    with assemble_empty [OF wf n0] wf show ?thesis by auto
  next
    case False
    have "cells_size cs \<le> nFree pg" using page_wf_space [OF wf] pg(3) kind(2,3) assms(4) by (simp add: cells_size_def)
    with assemble_nonempty [OF wf n0 pg(4)] kind(1,3) assms(2,3) False show ?thesis by auto
  qed
  with pg(1) show ?thesis by blast
qed

theorem assemble_page_witness:
  "\<exists>pg pg'. zeroPage sample_page 0x0d = Inr pg
    \<and> assemblePage (replicate 512 0) pg (map (\<lambda>c. (c, length c)) [[2, 1, 65, 66], [3, 2, 7, 8, 9]]) = Some (Inr pg')
    \<and> page_wf pg' \<and> page_cells pg' = [[2, 1, 65, 66], [3, 2, 7, 8, 9]]"
proof (rule assemble_page)
  show "page_start sample_page" "usableSize sample_page \<le> length (replicate 512 (0 :: byte))"
    by (simp_all add: page_start_def sample_page_def sample_bt_def)
  show "\<forall>c \<in> set [[2, 1, 65, 66], [3, 2, 7, 8, 9]]. wfCell (decodeFlags sample_page 0x0d) c" using sample_cells by simp
  show "page_first sample_page 0x0d + cells_size [[2, 1, 65, 66], [3, 2, 7, 8, 9]] \<le> usableSize sample_page"
    by (simp add: page_first_def cells_size_def) (simp add: sample_page_def sample_bt_def)
qed

end
