(* ===== verification/Like.thy ===== *)
theory Like
  imports Utf
begin

text \<open>
  Pattern matching for LIKE and GLOB: patternCompare of func.c of the database library
  (misc/sqlite), over the UTF-8 reader of Utf.

  The pattern and the string are blocks of bytes with a cursor in each, so that stepping back
  one byte, as the code does before a character class, is arithmetic on the cursor. The int
  variables c and c2 are 32-bit words compared as signed where the code orders them. A loop of
  the C function that contains a recursive call is a function of its own; all of them are total,
  since every step moves a cursor. Shown: on terminated blocks the result is that of a plain
  description of patterns as lists of items, for every pattern, escape character and string.
\<close>

subsection \<open>Reading\<close>

definition readChar :: "byte list \<Rightarrow> nat \<Rightarrow> (u32 \<times> nat) cres" where
  "readChar z i = bindR (sqlite3Utf8Read (drop i z) None) (\<lambda>(c, k). Inr (c, i + k))"

definition skipChar :: "byte list \<Rightarrow> nat \<Rightarrow> nat cres" where
  "skipChar z i = bindR (SQLITE_SKIP_UTF8 (drop i z)) (\<lambda>t. Inr (length z - length t))"

record compareInfo =
  matchAll :: byte
  matchOne :: byte
  matchSet :: byte
  noCase :: bool

definition globInfo :: compareInfo where
  "globInfo = \<lparr>matchAll = 0x2a, matchOne = 0x3f, matchSet = 0x5b, noCase = False\<rparr>"

definition likeInfoNorm :: compareInfo where
  "likeInfoNorm = \<lparr>matchAll = 0x25, matchOne = 0x5f, matchSet = 0, noCase = True\<rparr>"

definition likeInfoAlt :: compareInfo where
  "likeInfoAlt = \<lparr>matchAll = 0x25, matchOne = 0x5f, matchSet = 0, noCase = False\<rparr>"

definition GlogUpperToLower :: "u32 \<Rightarrow> u32 cres" where
  "GlogUpperToLower a =
     (if sint a < 0x80
      then if sint a < 0 then Inl OutOfBounds else bindR (rd sqlite3UpperToLower (unat a)) (\<lambda>b. Inr (ucast b))
      else Inr a)"

definition foldCase :: "compareInfo \<Rightarrow> u32 \<Rightarrow> u32 cres" where
  "foldCase pInfo c = (if noCase pInfo then GlogUpperToLower c else Inr c)"

subsection \<open>Termination of the cursors\<close>

lemma utf8Loop_moves: "utf8Loop c k z t = Inr (c', k') \<Longrightarrow> k \<le> k'"
  by (induction c k z t arbitrary: c' k' rule: utf8Loop.induct) (auto split: if_splits dest!: Suc_leD)

lemma readChar_moves: "readChar z i = Inr (c, i') \<Longrightarrow> i < i' \<and> i < length z"
proof -
  assume a: "readChar z i = Inr (c, i')"
  then have "drop i z \<noteq> []" by (auto simp: readChar_def sqlite3Utf8Read_def bindR_def rd_def split: sum.splits if_splits)
  moreover obtain k where "sqlite3Utf8Read (drop i z) None = Inr (c, k)" "i' = i + k" using a by (auto simp: readChar_def bindR_Inr_iff)
  then have "0 < k" by (auto simp: sqlite3Utf8Read_def bindR_Inr_iff split: if_splits dest!: utf8Loop_moves)
  ultimately show ?thesis using \<open>i' = i + k\<close> by simp
qed

lemma skipCont_shorter: "skipCont z = Inr t \<Longrightarrow> length t \<le> length z"
  by (induction z) (auto split: if_splits)

lemma skipChar_moves: "skipChar z i = Inr i' \<Longrightarrow> i < i' \<and> i < length z"
proof -
  assume a: "skipChar z i = Inr i'"
  then obtain t where t: "SQLITE_SKIP_UTF8 (drop i z) = Inr t" "i' = length z - length t" by (auto simp: skipChar_def bindR_Inr_iff)
  then obtain b r where d: "drop i z = b # r"
    by (cases "drop i z") (auto simp: SQLITE_SKIP_UTF8_def rd_def)
  then have "length t \<le> length r" using t(1) by (auto simp: SQLITE_SKIP_UTF8_def split: if_splits dest: skipCont_shorter)
  moreover have "length z - i = Suc (length r)" using d by (metis length_Cons length_drop)
  ultimately show ?thesis using t(2) by linarith
qed

subsection \<open>The loops without recursive calls\<close>

text \<open>The wildcards after a matchAll. None is the return of 0 when the string has ended.\<close>

function starRun :: "compareInfo \<Rightarrow> byte list \<Rightarrow> byte list \<Rightarrow> nat \<Rightarrow> nat \<Rightarrow> (u32 \<times> nat \<times> nat) option cres" where
  "starRun pInfo zPattern zString p s = bindR (readChar zPattern p) (\<lambda>(c, p').
     if c = ucast (matchAll pInfo) \<or> c = ucast (matchOne pInfo)
     then if c = ucast (matchOne pInfo)
       then bindR (readChar zString s) (\<lambda>(x, s'). if x = 0 then Inr None else starRun pInfo zPattern zString p' s')
       else starRun pInfo zPattern zString p' s
     else Inr (Some (c, p', s)))"
  by pat_completeness auto
termination by (relation "measure (\<lambda>(_, zPattern, _, p, _). length zPattern - p)") (auto dest!: readChar_moves)

declare starRun.simps [simp del]

text \<open>The members of a character class: the last character read, whether c was seen, and the cursor.\<close>

function setLoop :: "byte list \<Rightarrow> u32 \<Rightarrow> u32 \<Rightarrow> u32 \<Rightarrow> bool \<Rightarrow> nat \<Rightarrow> (u32 \<times> bool \<times> nat) cres" where
  "setLoop zPattern c c2 prior_c seen p =
     (if c2 = 0 \<or> c2 = 0x5d then Inr (c2, seen, p)
      else bindR (if c2 = 0x2d then bindR (rd zPattern p) (\<lambda>b. Inr (b \<noteq> 0x5d \<and> b \<noteq> 0 \<and> sint prior_c > 0)) else Inr False) (\<lambda>range.
        if range
        then bindR (readChar zPattern p) (\<lambda>(c2, p).
          let seen = (seen \<or> sint c \<ge> sint prior_c \<and> sint c \<le> sint c2) in
          bindR (readChar zPattern p) (\<lambda>(c2, p). setLoop zPattern c c2 0 seen p))
        else bindR (readChar zPattern p) (\<lambda>(c2', p). setLoop zPattern c c2' c2 (seen \<or> c = c2) p)))"
  by pat_completeness auto
termination by (relation "measure (\<lambda>(zPattern, _, _, _, _, p). length zPattern - p)") (auto dest!: readChar_moves)

declare setLoop.simps [simp del]

text \<open>The branch for a character class: None is the return of 0, otherwise both cursors.\<close>

definition matchClass :: "byte list \<Rightarrow> byte list \<Rightarrow> nat \<Rightarrow> nat \<Rightarrow> (nat \<times> nat) option cres" where
  "matchClass zPattern zString p s =
     bindR (readChar zString s) (\<lambda>(c, s).
       if c = 0 then Inr None
       else bindR (readChar zPattern p) (\<lambda>(c2, p).
         bindR (if c2 = 0x5e then bindR (readChar zPattern p) (\<lambda>(c2, p). Inr (True, c2, p)) else Inr (False, c2, p)) (\<lambda>(invert, c2, p).
         bindR (if c2 = 0x5d then bindR (readChar zPattern p) (\<lambda>(c2, p). Inr (c = 0x5d, c2, p)) else Inr (False, c2, p)) (\<lambda>(seen, c2, p).
         bindR (setLoop zPattern c c2 0 seen p) (\<lambda>(c2, seen, p).
           if c2 = 0 \<or> (seen = invert) then Inr None else Inr (Some (p, s)))))))"

text \<open>The search for the next occurrence of c: the last character read and the cursor.\<close>

function scanLoop :: "compareInfo \<Rightarrow> byte list \<Rightarrow> u32 \<Rightarrow> u32 \<Rightarrow> nat \<Rightarrow> (u32 \<times> nat) cres" where
  "scanLoop pInfo zString c c2 s =
     (if c2 \<noteq> 0 \<and> c2 \<noteq> c
      then bindR (readChar zString s) (\<lambda>(c2, s). bindR (foldCase pInfo c2) (\<lambda>c2. scanLoop pInfo zString c c2 s))
      else Inr (c2, s))"
  by pat_completeness auto
termination by (relation "measure (\<lambda>(_, zString, _, _, s). length zString - s)") (auto dest!: readChar_moves)

declare scanLoop.simps [simp del]
lemma starRun_moves: "starRun pInfo P S p s = Inr (Some (c, p', s')) \<Longrightarrow> p < p' \<and> p < length P \<and> s \<le> s'"
proof (induction "length P - p" arbitrary: p s rule: less_induct)
  case less
  obtain d q where d: "readChar P p = Inr (d, q)" using less.prems by (subst (asm) starRun.simps) (auto simp: bindR_Inr_iff)
  from readChar_moves [OF d] have q: "p < q" "p < length P" "length P - q < length P - p" by auto
  consider "d = c \<and> q = p' \<and> s = s'" | "starRun pInfo P S q s = Inr (Some (c, p', s'))"
    | x s1 where "readChar S s = Inr (x, s1)" "starRun pInfo P S q s1 = Inr (Some (c, p', s'))"
    using less.prems by (subst (asm) starRun.simps) (auto simp: d bindR_Inr_iff split: if_splits)
  then show ?case
  proof cases
    case 2
    from less.hyps [OF q(3) this] q show ?thesis by linarith
  next
    case 3
    from less.hyps [OF q(3) 3(2)] readChar_moves [OF 3(1)] q show ?thesis by linarith
  qed (use q in simp)
qed

lemma setLoop_moves: "setLoop P c c2 prior seen p = Inr (c2', seen', p') \<Longrightarrow> p \<le> p'"
proof (induction "length P - p" arbitrary: p c2 prior seen rule: less_induct)
  case less
  show ?case
  proof (cases "c2 = 0 \<or> c2 = 0x5d")
    case False
    obtain d q where d: "readChar P p = Inr (d, q)"
      using less.prems False by (subst (asm) setLoop.simps) (auto simp: bindR_Inr_iff split: if_splits)
    from readChar_moves [OF d] have q: "p < q" "length P - q < length P - p" by auto
    consider x q2 seen1 where "readChar P q = Inr (x, q2)" "setLoop P c x 0 seen1 q2 = Inr (c2', seen', p')"
      | seen1 prior' where "setLoop P c d prior' seen1 q = Inr (c2', seen', p')"
      using less.prems [unfolded setLoop.simps [of P c c2 prior seen p]] False by (auto simp: d bindR_Inr_iff Let_def split: if_splits; blast)
    then show ?thesis
    proof cases
      case 1
      with readChar_moves [OF 1(1)] q less.hyps [OF _ 1(2)] show ?thesis by linarith
    next
      case 2
      from less.hyps [OF q(2) 2] q show ?thesis by linarith
    qed
  qed (use less.prems in \<open>simp add: setLoop.simps\<close>)
qed

lemma matchClass_moves: "matchClass P S p s = Inr (Some (p', s')) \<Longrightarrow> p < p' \<and> s < s' \<and> s < length S"
  by (auto simp: matchClass_def bindR_Inr_iff split: if_splits dest!: readChar_moves setLoop_moves)

lemma scanLoop_moves: "scanLoop pInfo S c c2 s = Inr (c', s') \<Longrightarrow> s \<le> s'"
proof (induction "length S - s" arbitrary: s c2 rule: less_induct)
  case less
  show ?case
  proof (cases "c2 \<noteq> 0 \<and> c2 \<noteq> c")
    case True
    then obtain d q d' where d: "readChar S s = Inr (d, q)" "scanLoop pInfo S c d' q = Inr (c', s')"
      using less.prems by (subst (asm) scanLoop.simps) (auto simp: bindR_Inr_iff)
    with readChar_moves [OF d(1)] less.hyps [OF _ d(2)] show ?thesis by fastforce
  qed (use less.prems in \<open>auto simp: scanLoop.simps\<close>)
qed

subsection \<open>The comparison\<close>

text \<open>
  patLoop is the main loop, starLit the loop that tries the rest of the pattern after each
  occurrence of a literal character, setStar the loop that tries a character class at each
  position.
\<close>

function patLoop :: "compareInfo \<Rightarrow> u32 \<Rightarrow> byte list \<Rightarrow> byte list \<Rightarrow> nat \<Rightarrow> nat \<Rightarrow> bool \<Rightarrow> bool cres"
  and starLit :: "compareInfo \<Rightarrow> u32 \<Rightarrow> byte list \<Rightarrow> byte list \<Rightarrow> u32 \<Rightarrow> nat \<Rightarrow> nat \<Rightarrow> bool cres"
  and setStar :: "compareInfo \<Rightarrow> u32 \<Rightarrow> byte list \<Rightarrow> byte list \<Rightarrow> nat \<Rightarrow> nat \<Rightarrow> bool cres" where
  "patLoop pInfo esc P S p s prevEscape = bindR (readChar P p) (\<lambda>(c, p1).
     if c = 0 then bindR (rd S s) (\<lambda>b. Inr (b = 0))
     else if \<not> prevEscape \<and> c = ucast (matchAll pInfo)
     then bindR (starRun pInfo P S p1 s) (\<lambda>r. case r of None \<Rightarrow> Inr False
       | Some (c, p2, s2) \<Rightarrow>
           if c = 0 then Inr True
           else if c = esc then bindR (readChar P p2) (\<lambda>(c, p3). if c = 0 then Inr False else starLit pInfo esc P S c p3 s2)
           else if c = ucast (matchSet pInfo) then setStar pInfo esc P S (p2 - 1) s2
           else starLit pInfo esc P S c p2 s2)
     else if \<not> prevEscape \<and> c = ucast (matchOne pInfo)
     then bindR (readChar S s) (\<lambda>(x, s1). if x = 0 then Inr False else patLoop pInfo esc P S p1 s1 prevEscape)
     else if c = ucast (matchSet pInfo)
     then bindR (matchClass P S p1 s) (\<lambda>r. case r of None \<Rightarrow> Inr False | Some (p2, s2) \<Rightarrow> patLoop pInfo esc P S p2 s2 prevEscape)
     else if esc = c \<and> \<not> prevEscape then patLoop pInfo esc P S p1 s True
     else bindR (readChar S s) (\<lambda>(c2, s1). bindR (foldCase pInfo c) (\<lambda>c. bindR (foldCase pInfo c2) (\<lambda>c2.
       if c \<noteq> c2 then Inr False else patLoop pInfo esc P S p1 s1 False))))"
| "starLit pInfo esc P S c p s = bindR (readChar S s) (\<lambda>(c2, s1).
     if c2 = 0 then Inr False
     else bindR (foldCase pInfo c2) (\<lambda>c2. bindR (foldCase pInfo c) (\<lambda>c. bindR (scanLoop pInfo S c c2 s1) (\<lambda>(c2, s2).
       if c2 = 0 then Inr False
       else bindR (patLoop pInfo esc P S p s2 False) (\<lambda>r. if r then Inr True else starLit pInfo esc P S c p s2)))))"
| "setStar pInfo esc P S p s = bindR (rd S s) (\<lambda>b.
     if b = 0 then Inr False
     else bindR (patLoop pInfo esc P S p s False) (\<lambda>r.
       if r then Inr True else bindR (skipChar S s) (\<lambda>s1. setStar pInfo esc P S p s1)))"
  by pat_completeness auto
termination
proof (relation "measure (\<lambda>x. case x of Inl (_, _, P, S, p, s, _) \<Rightarrow> 2 * (length P - p + (length S - s))
    | Inr (Inl (_, _, P, S, _, p, s)) \<Rightarrow> 2 * (length P - p + (length S - s)) + 1
    | Inr (Inr (_, _, P, S, p, s)) \<Rightarrow> 2 * (length P - p + (length S - s)) + 1)", goal_cases)
qed (auto dest!: readChar_moves starRun_moves matchClass_moves scanLoop_moves skipChar_moves)

declare patLoop.simps [simp del] starLit.simps [simp del] setStar.simps [simp del]

definition patternCompare :: "byte list \<Rightarrow> byte list \<Rightarrow> compareInfo \<Rightarrow> u32 \<Rightarrow> bool cres" where
  "patternCompare zPattern zString pInfo esc = patLoop pInfo esc zPattern zString 0 0 False"
text \<open>
  likeFunc: the arguments are the limit of the connection, the number of bytes of the pattern,
  and the texts as sqlite3\_value\_text returns them, None for NULL; zEsc is None when there are
  two arguments.
\<close>

datatype like_result = LikeUnset | LikeTooComplex | LikeBadEscape | LikeInt bool

definition likeFunc :: "compareInfo \<Rightarrow> nat \<Rightarrow> nat \<Rightarrow> byte list option \<Rightarrow> byte list option \<Rightarrow> byte list option option \<Rightarrow> like_result cres" where
  "likeFunc pInfo limit nB zB zA zEsc =
     (let compare = (\<lambda>escape. case (zA, zB) of (Some a, Some b) \<Rightarrow> bindR (patternCompare b a pInfo escape) (\<lambda>r. Inr (LikeInt r)) | _ \<Rightarrow> Inr LikeUnset) in
      if nB > limit then Inr LikeTooComplex
      else case zEsc of None \<Rightarrow> compare 0
        | Some None \<Rightarrow> Inr LikeUnset
        | Some (Some z) \<Rightarrow> bindR (sqlite3Utf8CharLen z None) (\<lambda>n.
            if n \<noteq> 1 then Inr LikeBadEscape else bindR (sqlite3Utf8Read z None) (\<lambda>(escape, k). compare escape)))"
subsection \<open>The characters of a block\<close>

function chars :: "byte list \<Rightarrow> u32 list" where
  "chars z = (case sqlite3Utf8Read z None of Inl e \<Rightarrow> [] | Inr (c, k) \<Rightarrow> if c = 0 then [] else c # chars (drop k z))"
  by pat_completeness auto
termination
proof (relation "measure length", goal_cases)
  case (2 z r c k)
  then have "readChar z 0 = Inr (c, k)" by (simp add: readChar_def)
  from readChar_moves [OF this] show ?case by auto
qed simp

declare chars.simps [simp del]

definition textAt :: "byte list \<Rightarrow> nat \<Rightarrow> u32 list" where
  "textAt z i = chars (drop i z)"

definition ends :: "byte list \<Rightarrow> nat \<Rightarrow> bool" where
  "ends z i \<longleftrightarrow> 0 \<in> set (drop i z)"

lemma utf8Loop_none:
  "0 \<in> set z \<Longrightarrow> \<exists>c' j. utf8Loop c k z None = Inr (c', k + j) \<and> 0 \<in> set (drop j z) \<and> skipCont z = Inr (drop j z)"
proof (induction z arbitrary: c k)
  case (Cons b z)
  show ?case
  proof (cases "contByte b")
    case True
    then have "b \<noteq> 0" by (auto simp: contByte_def)
    then have "0 \<in> set z" using Cons.prems by simp
    from Cons.IH [OF this, of "push_bit 6 c + ucast (0x3f AND b)" "k + 1"] obtain c' j where
      "utf8Loop (push_bit 6 c + ucast (0x3f AND b)) (k + 1) z None = Inr (c', k + 1 + j)" "0 \<in> set (drop j z)" "skipCont z = Inr (drop j z)" by blast
    then show ?thesis using True by (intro exI [of _ c'] exI [of _ "Suc j"]) simp
  qed (use Cons.prems in auto)
qed simp

lemma utf8Check_pos: "0x80 \<le> sint (utf8Check c)"
  by (simp add: utf8Check_def)

lemma sint_byte: "sint (ucast (b :: byte) :: u32) = uint b"
proof -
  have "uint b < 256" using uint_lt2p [of b] by simp
  then have "signed_take_bit 31 (uint b) = uint b" by (intro signed_take_bit_int_eq_self) (auto intro: order_trans [of _ 0])
  moreover have "uint (ucast b :: u32) = uint b" by (simp add: unsigned_ucast_eq take_bit_int_eq_self_iff \<open>uint b < 256\<close> order_less_trans [OF \<open>uint b < 256\<close>])
  ultimately show ?thesis by (simp add: sint_uint)
qed

lemma readChar_cases:
  assumes "ends z i"
  obtains c i' where "readChar z i = Inr (c, i')" "rd z i = Inr (z ! i)" "0 \<le> sint c" "c = 0 \<longleftrightarrow> z ! i = 0"
    "c = 0 \<Longrightarrow> textAt z i = []" "c \<noteq> 0 \<Longrightarrow> textAt z i = c # textAt z i'" "c \<noteq> 0 \<Longrightarrow> ends z i'" "c \<noteq> 0 \<Longrightarrow> skipChar z i = Inr i'"
    "sint c < 0x80 \<Longrightarrow> i' = i + 1 \<and> c = ucast (z ! i)"
proof -
  obtain b t where d: "drop i z = b # t" using assms by (cases "drop i z") (auto simp: ends_def)
  then have i: "i < length z" "z ! i = b" by (metis drop_all list.distinct(1) not_le, metis drop_all hd_drop_conv_nth list.distinct(1) list.sel(1) not_le)
  then have r: "rd z i = Inr b" by simp
  have dk: "drop (i + Suc k) z = drop k t" for k using d by (metis drop_Suc_Cons drop_drop add.commute)
  have lz: "length z = i + 1 + length t" using d i(1) by (metis Suc_eq_plus1 add.assoc add.commute le_add_diff_inverse length_Cons length_drop less_imp_le)
  show thesis
  proof (cases "b \<ge> 0xc0")
    case True
    then have "0 \<in> set t" using assms d by (auto simp: ends_def)
    have "unat (b - 0xc0) = unat b - 192" using True by (simp add: unat_sub_no_wrap)
    then have "unat (b - 0xc0) < 64" using unat_less_256 [of b] by linarith
    then have x: "unat (b - 0xc0) < length sqlite3UtfTrans1" by (simp add: trans_table)
    obtain c' j where u: "utf8Loop (ucast (sqlite3UtfTrans1 ! unat (b - 0xc0))) 1 t None = Inr (c', 1 + j)" "0 \<in> set (drop j t)" "skipCont t = Inr (drop j t)"
      using utf8Loop_none [OF \<open>0 \<in> set t\<close>] by blast
    have rc: "sqlite3Utf8Read (drop i z) None = Inr (utf8Check c', 1 + j)" using True x u(1) by (simp add: sqlite3Utf8Read_def d)
    have nz: "utf8Check c' \<noteq> 0" using utf8Check_pos [of c'] by auto
    have "b \<noteq> 0" using True by auto
    moreover have "j \<le> length t" using u(2) by (cases "j \<le> length t") auto
    then have "skipChar z i = Inr (i + Suc j)" using True u(3) lz by (simp add: skipChar_def SQLITE_SKIP_UTF8_def d)
    moreover have "textAt z i = utf8Check c' # textAt z (i + Suc j)" unfolding textAt_def by (subst chars.simps) (simp add: rc nz add.commute)
    ultimately show thesis using that [of "utf8Check c'" "i + Suc j"] rc i r nz utf8Check_pos [of c'] u(2) dk
      by (simp add: readChar_def ends_def)
  next
    case False
    have rc: "sqlite3Utf8Read (drop i z) None = Inr (ucast b, 1)" using False by (simp add: sqlite3Utf8Read_def d)
    have z0: "(ucast b :: u32) = 0 \<longleftrightarrow> b = 0" by (metis sint_byte sint_0 uint_0_iff ucast_0)
    have "textAt z i = (if b = 0 then [] else ucast b # textAt z (i + 1))"
      unfolding textAt_def by (subst chars.simps) (simp add: rc z0)
    moreover have "skipChar z i = Inr (i + 1)" using False lz by (simp add: skipChar_def SQLITE_SKIP_UTF8_def d)
    moreover have "ends z (i + 1)" if "b \<noteq> 0" using assms d dk [of 0] that by (simp add: ends_def)
    ultimately show thesis using that [of "ucast b" "i + 1"] rc i r z0 sint_byte [of b] by (simp add: readChar_def)
  qed
qed

text \<open>Folding the case of a character.\<close>

definition foldC :: "bool \<Rightarrow> u32 \<Rightarrow> u32" where
  "foldC nc c = (if nc \<and> 0x41 \<le> c \<and> c \<le> 0x5a then c + 0x20 else c)"

lemma sint_nonneg: "0 \<le> sint (c :: u32) \<Longrightarrow> sint c = uint c"
  using uint_lt2p [of c] by (cases "bit (uint c) 31") (simp_all add: sint_uint signed_take_bit_eq_take_bit_minus take_bit_int_eq_self)

lemma unat_char_byte: "unat (ucast (x :: byte) :: u32) = unat x"
  using ucast_of_nat_byte [of "unat x"] unat_of_nat_small [of "unat x", where 'n = 32] unat_less_256 [of x] by simp

lemma foldCase_ok: "0 \<le> sint c \<Longrightarrow> foldCase pInfo c = Inr (foldC (noCase pInfo) c)"
proof -
  assume "0 \<le> sint c"
  then have s: "sint c = uint c" by (rule sint_nonneg)
  show ?thesis
  proof (cases "noCase pInfo \<and> uint c < 128")
    case True
    then have u: "unat c < 128" unfolding unat_eq_nat_uint by (simp only: nat_less_iff uint_ge_0 of_nat_numeral)
    define b :: byte where "b = of_nat (unat c)"
    have b: "unat b = unat c" unfolding b_def using u by (intro unat_of_nat_small) simp
    have "unat (UpperToLower b) = (if 65 \<le> unat c \<and> unat c \<le> 90 then unat c + 32 else unat c)"
      using b u by (auto simp: UpperToLower_eq word_le_nat_alt unat_add_no_wrap)
    then have "unat (ucast (sqlite3UpperToLower ! unat c) :: u32) = (if 65 \<le> unat c \<and> unat c \<le> 90 then unat c + 32 else unat c)"
      using b unfolding UpperToLower_def unat_char_byte by simp
    then have "(ucast (sqlite3UpperToLower ! unat c) :: u32) = (if 65 \<le> unat c \<and> unat c \<le> 90 then c + 32 else c)"
      using u by (auto simp: word_unat_eq_iff unat_add_no_wrap)
    moreover have "length sqlite3UpperToLower = 256" unfolding UpperToLower_table by (simp only: length_map length_upt diff_zero)
    ultimately show ?thesis using True s u
      by (simp add: foldCase_def GlogUpperToLower_def foldC_def word_le_nat_alt)
  next
    case False
    moreover have "\<not> c \<le> 0x5a" if "\<not> uint c < 128" using that by (simp add: word_le_def)
    ultimately show ?thesis using s by (auto simp: foldCase_def GlogUpperToLower_def foldC_def)
  qed
qed

lemma foldC_simps [simp]: "foldC nc (foldC nc c) = foldC nc c" "foldC nc c = 0 \<longleftrightarrow> c = 0"
proof -
  have "unat (c + 0x20) = unat c + 32" if "c \<le> 0x5a"
    using that by (subst unat_add_no_wrap) (simp_all add: word_le_nat_alt)
  then show "foldC nc (foldC nc c) = foldC nc c" "foldC nc c = 0 \<longleftrightarrow> c = 0"
    by (auto simp: foldC_def word_le_nat_alt unat_eq_0 [symmetric])
qed
subsection \<open>Patterns as lists of items\<close>

datatype item = Star | One | Lit u32 | Class bool "(u32 \<times> u32) list" | Never

text \<open>The ranges of a class up to its closing bracket, after the character p (0 for none), and the rest of the pattern.\<close>

fun classBody :: "u32 \<Rightarrow> u32 list \<Rightarrow> ((u32 \<times> u32) list \<times> u32 list) option" where
  "classBody p [] = None"
| "classBody p [c] = (if c = 0x5d then Some ([], []) else None)"
| "classBody p (c # d # cs) =
     (if c = 0x5d then Some ([], d # cs)
      else if c = 0x2d \<and> p \<noteq> 0 \<and> d \<noteq> 0x5d then map_option (\<lambda>(rs, t). ((p, d) # rs, t)) (classBody 0 cs)
      else map_option (\<lambda>(rs, t). ((c, c) # rs, t)) (classBody c (d # cs)))"

fun classMembers :: "u32 list \<Rightarrow> ((u32 \<times> u32) list \<times> u32 list) option" where
  "classMembers (c # cs) =
     (if c = 0x5d then map_option (\<lambda>(rs, t). ((0x5d, 0x5d) # rs, t)) (classBody 0 cs) else classBody 0 (c # cs))"
| "classMembers [] = None"

fun classOf :: "u32 list \<Rightarrow> (bool \<times> (u32 \<times> u32) list \<times> u32 list) option" where
  "classOf (c # cs) = (if c = 0x5e then map_option (Pair True) (classMembers cs) else map_option (Pair False) (classMembers (c # cs)))"
| "classOf [] = None"

lemma classBody_shorter: "classBody p cs = Some (rs, t) \<Longrightarrow> length t < length cs"
  by (induction p cs arbitrary: rs t rule: classBody.induct) (auto split: if_splits dest: less_SucI)

lemma classMembers_shorter: "classMembers cs = Some (rs, t) \<Longrightarrow> length t < length cs"
  by (cases cs) (auto split: if_splits dest!: classBody_shorter)

lemma classOf_shorter: "classOf cs = Some (neg, rs, t) \<Longrightarrow> length t < length cs"
  using classMembers_shorter [of cs rs t] by (cases cs) (auto simp del: classMembers.simps split: if_splits dest!: classMembers_shorter)

text \<open>
  The items of a pattern. An escape character at the end of the pattern counts for nothing,
  except in a run of wildcards that contains a matchAll, where nothing matches (st).
\<close>

function items :: "compareInfo \<Rightarrow> u32 \<Rightarrow> bool \<Rightarrow> u32 list \<Rightarrow> item list" where
  "items pInfo esc st [] = []"
| "items pInfo esc st (c # cs) =
     (if c = ucast (matchAll pInfo) then Star # items pInfo esc True cs
      else if c = ucast (matchOne pInfo) then One # items pInfo esc st cs
      else if c = ucast (matchSet pInfo)
      then (case classOf cs of None \<Rightarrow> [Never] | Some (neg, rs, t) \<Rightarrow> Class neg rs # items pInfo esc False t)
      else if c = esc
      then (case cs of [] \<Rightarrow> if st then [Never] else [] | d # ds \<Rightarrow> Lit d # items pInfo esc False ds)
      else Lit c # items pInfo esc False cs)"
  by pat_completeness auto
termination by (relation "measure (\<lambda>(_, _, _, cs). length cs)") (auto dest: classOf_shorter)

definition inClass :: "u32 \<Rightarrow> (u32 \<times> u32) list \<Rightarrow> bool" where
  "inClass c rs \<longleftrightarrow> (\<exists>r \<in> set rs. fst r \<le> c \<and> c \<le> snd r)"

text \<open>A string matches a list of items.\<close>

fun matches :: "bool \<Rightarrow> item list \<Rightarrow> u32 list \<Rightarrow> bool" where
  "matches nc [] xs \<longleftrightarrow> xs = []"
| "matches nc (Star # is) xs \<longleftrightarrow> (\<exists>k \<le> length xs. matches nc is (drop k xs))"
| "matches nc (One # is) xs \<longleftrightarrow> (case xs of [] \<Rightarrow> False | _ # ys \<Rightarrow> matches nc is ys)"
| "matches nc (Lit c # is) xs \<longleftrightarrow> (case xs of [] \<Rightarrow> False | x # ys \<Rightarrow> foldC nc x = foldC nc c \<and> matches nc is ys)"
| "matches nc (Class neg rs # is) xs \<longleftrightarrow> (case xs of [] \<Rightarrow> False | x # ys \<Rightarrow> inClass x rs \<noteq> neg \<and> matches nc is ys)"
| "matches nc (Never # is) xs \<longleftrightarrow> False"

lemma star_step: "matches nc (Star # is) xs \<longleftrightarrow> matches nc is xs \<or> (\<exists>y ys. xs = y # ys \<and> matches nc (Star # is) ys)"
proof (cases xs)
  case (Cons y ys)
  have "(\<exists>k \<le> Suc n. P k) \<longleftrightarrow> P 0 \<or> (\<exists>k \<le> n. P (Suc k))" for P n
    by (metis Suc_le_mono le0 not0_implies_Suc)
  then show ?thesis using Cons by simp
qed simp

lemma star_any: "matches nc (Star # []) xs"
  by (auto intro: exI [of _ "length xs"])

lemma star_suffix: "matches nc (Star # is) (drop k xs) \<Longrightarrow> matches nc (Star # is) xs"
proof -
  assume "matches nc (Star # is) (drop k xs)"
  then obtain j where "j \<le> length xs - k" "matches nc is (drop (j + k) xs)" by (auto simp: drop_drop)
  then show ?thesis by (cases "k \<le> length xs") (auto intro: exI [of _ "j + k"] exI [of _ "length xs"])
qed

lemma star_star: "matches nc (Star # Star # is) xs \<longleftrightarrow> matches nc (Star # is) xs"
proof
  assume "matches nc (Star # Star # is) xs"
  then obtain k where "matches nc (Star # is) (drop k xs)" unfolding matches.simps(2) [of nc "Star # is"] by blast
  then show "matches nc (Star # is) xs" by (rule star_suffix)
next
  assume "matches nc (Star # is) xs"
  then show "matches nc (Star # Star # is) xs" unfolding star_step [of nc "Star # is" xs] by (rule disjI1)
qed

lemma star_one: "matches nc (Star # One # is) xs \<longleftrightarrow> (\<exists>y ys. xs = y # ys \<and> matches nc (Star # is) ys)"
proof (induction xs)
  case (Cons x xs)
  have "matches nc (Star # One # is) (x # xs) \<longleftrightarrow> matches nc is xs \<or> matches nc (Star # One # is) xs"
    using star_step [of nc "One # is" "x # xs"] by (simp del: matches.simps(2))
  also have "\<dots> \<longleftrightarrow> matches nc (Star # is) xs"
    unfolding Cons.IH using star_step [of nc "is" xs] by blast
  finally show ?case by simp
qed simp

subsection \<open>The loops read items\<close>

lemma word_le_sint: "0 \<le> sint a \<Longrightarrow> 0 \<le> sint b \<Longrightarrow> sint a \<le> sint b \<longleftrightarrow> a \<le> (b :: u32)"
  by (simp add: sint_nonneg word_le_def)

definition info_ok :: "compareInfo \<Rightarrow> u32 \<Rightarrow> bool" where
  "info_ok pInfo esc \<longleftrightarrow> matchAll pInfo \<noteq> 0 \<and> matchOne pInfo \<noteq> 0 \<and> matchAll pInfo \<noteq> matchOne pInfo \<and> matchSet pInfo < 0x80
     \<and> (esc = 0 \<or> matchSet pInfo = 0)"

lemma ucast_byte_eq [simp]: "(ucast (a :: byte) :: u32) = ucast b \<longleftrightarrow> a = b" "(ucast (a :: byte) :: u32) = 0 \<longleftrightarrow> a = 0" "(0 :: u32) = ucast a \<longleftrightarrow> a = 0"
proof -
  show e: "(ucast (a :: byte) :: u32) = ucast b \<longleftrightarrow> a = b" for a b by (simp add: word_unat_eq_iff unat_char_byte)
  show "(ucast (a :: byte) :: u32) = 0 \<longleftrightarrow> a = 0" "(0 :: u32) = ucast a \<longleftrightarrow> a = 0" using e [of a 0] e [of 0 a] by simp_all
qed

text \<open>What reading a character of a terminated block tells.\<close>

definition nextChar :: "byte list \<Rightarrow> nat \<Rightarrow> u32 \<Rightarrow> nat \<Rightarrow> bool" where
  "nextChar z i c i' \<longleftrightarrow> readChar z i = Inr (c, i') \<and> rd z i = Inr (z ! i) \<and> 0 \<le> sint c \<and> (c = 0 \<longleftrightarrow> z ! i = 0)
     \<and> (c = 0 \<longrightarrow> textAt z i = []) \<and> (c \<noteq> 0 \<longrightarrow> textAt z i = c # textAt z i' \<and> ends z i' \<and> skipChar z i = Inr i')
     \<and> (sint c < 0x80 \<longrightarrow> i' = i + 1 \<and> c = ucast (z ! i))"

lemma nextChar_ex: "ends z i \<Longrightarrow> \<exists>c i'. nextChar z i c i'"
  by (rule readChar_cases, assumption) (unfold nextChar_def, blast)

lemma starRun_spec:
  assumes "info_ok pInfo esc" "ends P p" "ends S s"
  shows "\<exists>r. starRun pInfo P S p s = Inr r \<and> (case r of
      None \<Rightarrow> \<not> matches nc (Star # items pInfo esc True (textAt P p)) (textAt S s)
    | Some (c, p', s') \<Rightarrow> c \<noteq> ucast (matchAll pInfo) \<and> c \<noteq> ucast (matchOne pInfo) \<and> 0 \<le> sint c \<and> ends S s'
        \<and> (c \<noteq> 0 \<longrightarrow> ends P p') \<and> (sint c < 0x80 \<longrightarrow> c \<noteq> 0 \<longrightarrow> ends P (p' - 1) \<and> textAt P (p' - 1) = c # textAt P p')
        \<and> (matches nc (Star # items pInfo esc True (textAt P p)) (textAt S s) \<longleftrightarrow>
           matches nc (Star # items pInfo esc True (if c = 0 then [] else c # textAt P p')) (textAt S s')))"
  using assms(2,3)
proof (induction "length P - p" arbitrary: p s rule: less_induct)
  case less
  have ok: "matchAll pInfo \<noteq> 0" "matchOne pInfo \<noteq> 0" "matchAll pInfo \<noteq> matchOne pInfo" using assms(1) by (auto simp: info_ok_def)
  obtain c p1 where "nextChar P p c p1" using nextChar_ex [OF less.prems(1)] by blast
  then have c: "readChar P p = Inr (c, p1)" "0 \<le> sint c" "c = 0 \<Longrightarrow> textAt P p = []" "c \<noteq> 0 \<Longrightarrow> textAt P p = c # textAt P p1"
    "c \<noteq> 0 \<Longrightarrow> ends P p1" "sint c < 0x80 \<Longrightarrow> p1 = p + 1" by (auto simp: nextChar_def)
  have m: "length P - p1 < length P - p" using readChar_moves [OF c(1)] by auto
  consider (one) "c = ucast (matchOne pInfo)" | (all) "c = ucast (matchAll pInfo)"
    | (other) "c \<noteq> ucast (matchOne pInfo)" "c \<noteq> ucast (matchAll pInfo)" by blast
  then show ?case
  proof cases
    case one
    then have cp: "textAt P p = c # textAt P p1" "ends P p1" using c(4,5) ok by auto
    obtain x s1 where "nextChar S s x s1" using nextChar_ex [OF less.prems(2)] by blast
    then have x: "readChar S s = Inr (x, s1)" "x = 0 \<Longrightarrow> textAt S s = []" "x \<noteq> 0 \<Longrightarrow> textAt S s = x # textAt S s1" "x \<noteq> 0 \<Longrightarrow> ends S s1"
      by (auto simp: nextChar_def)
    have run: "starRun pInfo P S p s = (if x = 0 then Inr None else starRun pInfo P S p1 s1)"
      by (subst starRun.simps) (simp add: c(1) one x(1))
    have it: "items pInfo esc True (textAt P p) = One # items pInfo esc True (textAt P p1)" using cp(1) one ok by simp
    show ?thesis
    proof (cases "x = 0")
      case True
      then show ?thesis unfolding run it star_one using x(2) by simp
    next
      case False
      have "matches nc (Star # items pInfo esc True (textAt P p)) (textAt S s) \<longleftrightarrow> matches nc (Star # items pInfo esc True (textAt P p1)) (textAt S s1)"
        unfolding it star_one using x(3) False by auto
      with less.hyps [OF m cp(2) x(4) [OF False]] show ?thesis by (simp only: run if_not_P [OF False])
    qed
  next
    case all
    then have cp: "textAt P p = c # textAt P p1" "ends P p1" using c(4,5) ok by auto
    have "starRun pInfo P S p s = starRun pInfo P S p1 s" by (subst starRun.simps) (use ok in \<open>simp add: c(1) all\<close>)
    moreover have "items pInfo esc True (textAt P p) = Star # items pInfo esc True (textAt P p1)" using cp(1) all by simp
    ultimately show ?thesis using less.hyps [OF m cp(2) less.prems(2)] by (simp only: star_star)
  next
    case other
    then have "starRun pInfo P S p s = Inr (Some (c, p1, s))" by (subst starRun.simps) (simp add: c(1))
    moreover have "textAt P p = (if c = 0 then [] else c # textAt P p1)" using c(3,4) by simp
    ultimately show ?thesis using other c less.prems by simp
  qed
qed
lemma sint_small: "sint (ucast (b :: byte) :: u32) < 0x80 \<longleftrightarrow> b < 0x80"
  by (simp add: sint_byte word_less_def)

lemma nextChar_ascii:
  assumes "nextChar z i c i'" "b < 0x80"
  shows "c = ucast b \<longleftrightarrow> z ! i = b"
proof
  assume "c = ucast b"
  then have "sint c < 0x80" using assms(2) sint_small by simp
  then show "z ! i = b" using assms(1) \<open>c = ucast b\<close> by (simp add: nextChar_def)
next
  assume b: "z ! i = b"
  obtain z' where "drop i z = b # z'" using assms(1) b by (auto simp: nextChar_def rd_def Cons_nth_drop_Suc [symmetric] split: if_splits)
  moreover have "\<not> b \<ge> 0xc0" using assms(2) by (auto simp: word_le_def word_less_def)
  ultimately show "c = ucast b" using assms(1) by (simp add: nextChar_def readChar_def sqlite3Utf8Read_def)
qed

lemma nextChar_bracket: "nextChar z i c i' \<Longrightarrow> c = 0x5d \<longleftrightarrow> z ! i = 0x5d"
  using nextChar_ascii [of z i c i' "0x5d"] by simp

text \<open>The class that setLoop reads from the current character c2 on.\<close>

definition curText :: "byte list \<Rightarrow> u32 \<Rightarrow> nat \<Rightarrow> u32 list" where
  "curText P c2 p = (if c2 = 0 then [] else c2 # textAt P p)"

lemma curText_next: "nextChar P p c p' \<Longrightarrow> curText P c p' = textAt P p"
  by (auto simp: nextChar_def curText_def)

definition classRead :: "byte list \<Rightarrow> u32 \<Rightarrow> bool \<Rightarrow> ((u32 \<times> u32) list \<times> u32 list) option \<Rightarrow> (u32 \<times> bool \<times> nat) cres \<Rightarrow> bool" where
  "classRead P c seen body r \<longleftrightarrow> (\<exists>c2 seen' p'. r = Inr (c2, seen', p') \<and> (case body of None \<Rightarrow> c2 = 0
     | Some (rs, t) \<Rightarrow> c2 \<noteq> 0 \<and> seen' = (seen \<or> inClass c rs) \<and> textAt P p' = t \<and> ends P p'))"

lemma classRead_add: "classRead P c (seen \<or> fst r \<le> c \<and> c \<le> snd r) body x \<Longrightarrow> classRead P c seen (map_option (\<lambda>(rs, t). (r # rs, t)) body) x"
  by (cases body) (auto simp: classRead_def inClass_def)

lemma setLoop_spec:
  assumes "c2 \<noteq> 0 \<longrightarrow> ends P p" "0 \<le> sint c" "0 \<le> sint prior" "0 \<le> sint c2"
  shows "classRead P c seen (classBody prior (curText P c2 p)) (setLoop P c c2 prior seen p)"
  using assms
proof (induction "length P - p" arbitrary: c2 prior seen p rule: less_induct)
  case less
  show ?case
  proof (cases "c2 = 0 \<or> c2 = 0x5d")
    case True
    then have "setLoop P c c2 prior seen p = Inr (c2, seen, p)" by (simp add: setLoop.simps)
    moreover have "classBody prior (0x5d # cs) = Some ([], cs)" for cs by (cases cs) auto
    ultimately show ?thesis using True less.prems(1) by (auto simp: classRead_def curText_def inClass_def)
  next
    case False
    then have e: "ends P p" using less.prems(1) by simp
    obtain d p1 where nd: "nextChar P p d p1" using nextChar_ex [OF e] by blast
    then have d: "readChar P p = Inr (d, p1)" "0 \<le> sint d" "d = 0 \<longleftrightarrow> P ! p = 0" "d \<noteq> 0 \<longrightarrow> ends P p1" "rd P p = Inr (P ! p)"
      "d = 0x5d \<longleftrightarrow> P ! p = 0x5d"
      using nextChar_bracket [OF nd] by (auto simp: nextChar_def)
    have m: "length P - p1 < length P - p" using readChar_moves [OF d(1)] by auto
    have cur: "curText P c2 p = c2 # curText P d p1" using False curText_next [OF nd] by (simp add: curText_def)
    have pr: "sint prior > 0 \<longleftrightarrow> prior \<noteq> 0" using less.prems(3) sint_nonneg [of prior] uint_0_iff [of prior] by linarith
    show ?thesis
    proof (cases "c2 = 0x2d \<and> d \<noteq> 0x5d \<and> d \<noteq> 0 \<and> prior \<noteq> 0")
      case range: True
      then obtain f p2 where nf: "nextChar P p1 f p2" using nextChar_ex d(4) by blast
      then have f: "readChar P p1 = Inr (f, p2)" "0 \<le> sint f" "f \<noteq> 0 \<longrightarrow> ends P p2" by (auto simp: nextChar_def)
      have m2: "length P - p2 < length P - p" using readChar_moves [OF f(1)] m by auto
      have "setLoop P c c2 prior seen p = setLoop P c f 0 (seen \<or> prior \<le> c \<and> c \<le> d) p2"
        by (subst setLoop.simps) (use range d f pr less.prems(2,3) in \<open>simp add: word_le_sint Let_def\<close>)
      moreover have "curText P c2 p = c2 # d # curText P f p2" using cur range curText_next [OF nf] by (simp add: curText_def)
      then have "classBody prior (curText P c2 p) = map_option (\<lambda>(rs, t). ((prior, d) # rs, t)) (classBody 0 (curText P f p2))"
        using range by simp
      ultimately show ?thesis
        using classRead_add [of P c seen "(prior, d)"] less.hyps [OF m2 f(3) less.prems(2) _ f(2)] by simp
    next
      case norange: False
      have "setLoop P c c2 prior seen p = setLoop P c d c2 (seen \<or> c = c2) p1"
        by (subst setLoop.simps) (use False norange d pr in auto)
      moreover have "classBody prior (curText P c2 p) = map_option (\<lambda>(rs, t). ((c2, c2) # rs, t)) (classBody c2 (curText P d p1))"
        unfolding cur using False norange by (auto simp: curText_def)
      moreover have "c = c2 \<longleftrightarrow> c2 \<le> c \<and> c \<le> c2" by auto
      ultimately show ?thesis
        using classRead_add [of P c seen "(c2, c2)"] less.hyps [OF m d(4) less.prems(2,4) d(2)] by simp
    qed
  qed
qed
lemma matchClass_spec:
  assumes P: "ends P p" and S: "ends S s"
  shows "\<exists>r. matchClass P S p s = Inr r \<and> (case textAt S s of [] \<Rightarrow> r = None | x # xs \<Rightarrow>
    (case classOf (textAt P p) of None \<Rightarrow> r = None | Some (neg, rs, t) \<Rightarrow>
      if inClass x rs \<noteq> neg then \<exists>p' s'. r = Some (p', s') \<and> textAt P p' = t \<and> ends P p' \<and> textAt S s' = xs \<and> ends S s' else r = None))"
proof -
  obtain c s1 where "nextChar S s c s1" using nextChar_ex [OF S] by blast
  then have c: "readChar S s = Inr (c, s1)" "0 \<le> sint c" "c = 0 \<Longrightarrow> textAt S s = []" "c \<noteq> 0 \<Longrightarrow> textAt S s = c # textAt S s1 \<and> ends S s1"
    by (auto simp: nextChar_def)
  obtain c2 p1 where n2: "nextChar P p c2 p1" using nextChar_ex [OF P] by blast
  define A where "A = (if c2 = 0x5e then bindR (readChar P p1) (\<lambda>(c2, p). Inr (True, c2, p)) else Inr (False, c2, p1))"
  have "\<exists>invert c3 p2. A = Inr (invert, c3, p2) \<and> 0 \<le> sint c3 \<and> (c3 \<noteq> 0 \<longrightarrow> ends P p2)
    \<and> classOf (textAt P p) = map_option (Pair invert) (classMembers (curText P c3 p2))"
  proof (cases "c2 = 0x5e")
    case True
    then have "ends P p1" "textAt P p = 0x5e # textAt P p1" using n2 by (auto simp: nextChar_def)
    moreover from nextChar_ex [OF this(1)] obtain c3 p2 where "nextChar P p1 c3 p2" by blast
    ultimately show ?thesis using True curText_next [of P p1 c3 p2] by (intro exI [of _ True]) (simp add: A_def nextChar_def)
  next
    case False
    have "classOf (curText P c2 p1) = map_option (Pair False) (classMembers (curText P c2 p1))" using False by (simp add: curText_def)
    then show ?thesis using False n2 curText_next [OF n2] by (intro exI [of _ False]) (simp add: A_def nextChar_def)
  qed
  then obtain invert c3 p2 where A: "A = Inr (invert, c3, p2)" "0 \<le> sint c3" "c3 \<noteq> 0 \<longrightarrow> ends P p2"
    "classOf (textAt P p) = map_option (Pair invert) (classMembers (curText P c3 p2))" by blast
  define B where "B = (if c3 = 0x5d then bindR (readChar P p2) (\<lambda>(c2, p). Inr (c = 0x5d, c2, p)) else Inr (False, c3, p2))"
  have "\<exists>seen c4 p3. B = Inr (seen, c4, p3) \<and> classRead P c False (classMembers (curText P c3 p2)) (setLoop P c c4 0 seen p3)"
  proof (cases "c3 = 0x5d")
    case True
    then have "ends P p2" using A(3) by auto
    from nextChar_ex [OF this] obtain c4 p3 where n4: "nextChar P p2 c4 p3" by blast
    have "classRead P c (c = 0x5d) (classBody 0 (curText P c4 p3)) (setLoop P c c4 0 (c = 0x5d) p3)"
      by (rule setLoop_spec) (use c(2) n4 in \<open>auto simp: nextChar_def\<close>)
    then have "classRead P c (False \<or> fst (0x5d :: u32, 0x5d :: u32) \<le> c \<and> c \<le> snd (0x5d :: u32, 0x5d :: u32)) (classBody 0 (curText P c4 p3)) (setLoop P c c4 0 (c = 0x5d) p3)"
      by (simp add: eq_iff conj_commute)
    note rd = classRead_add [OF this]
    have "classMembers (curText P c3 p2) = map_option (\<lambda>(rs, t). ((0x5d, 0x5d) # rs, t)) (classBody 0 (curText P c4 p3))"
      unfolding curText_next [OF n4] using True by (simp add: curText_def)
    moreover have "B = Inr (c = 0x5d, c4, p3)" using True n4 by (simp add: B_def nextChar_def)
    ultimately show ?thesis using rd by simp
  next
    case False
    have "classRead P c False (classBody 0 (curText P c3 p2)) (setLoop P c c3 0 False p2)"
      by (rule setLoop_spec) (use c(2) A in auto)
    moreover have "classMembers (curText P c3 p2) = classBody 0 (curText P c3 p2)" using False by (simp add: curText_def)
    moreover have "B = Inr (False, c3, p2)" using False by (simp add: B_def)
    ultimately show ?thesis by metis
  qed
  then obtain seen c4 p3 where B: "B = Inr (seen, c4, p3)" "classRead P c False (classMembers (curText P c3 p2)) (setLoop P c c4 0 seen p3)" by blast
  then obtain c5 seen' p4 where r: "setLoop P c c4 0 seen p3 = Inr (c5, seen', p4)" "case classMembers (curText P c3 p2) of None \<Rightarrow> c5 = 0
     | Some (rs, t) \<Rightarrow> c5 \<noteq> 0 \<and> seen' = (False \<or> inClass c rs) \<and> textAt P p4 = t \<and> ends P p4" unfolding classRead_def by blast
  have "matchClass P S p s = (if c = 0 then Inr None else if c5 = 0 \<or> seen' = invert then Inr None else Inr (Some (p4, s1)))"
    using n2 unfolding nextChar_def by (simp add: matchClass_def c(1) A_def [symmetric] A(1) B_def [symmetric] B(1) r(1))
  then show ?thesis using c(3,4) A(4) r(2) by (cases "c = 0"; cases "classMembers (curText P c3 p2)") auto
qed
text \<open>The search for an occurrence of a character.\<close>

lemma scanLoop_spec:
  assumes "x \<noteq> 0 \<longrightarrow> ends S s"
  shows "\<exists>c2 s'. scanLoop pInfo S c (foldC (noCase pInfo) x) s = Inr (c2, s') \<and>
    (case dropWhile (\<lambda>y. foldC (noCase pInfo) y \<noteq> c) (if x = 0 then [] else x # textAt S s) of [] \<Rightarrow> c2 = 0
     | y # ys \<Rightarrow> c2 \<noteq> 0 \<and> ends S s' \<and> textAt S s' = ys)"
  using assms
proof (induction "length S - s" arbitrary: s x rule: less_induct)
  case less
  let ?f = "foldC (noCase pInfo)"
  show ?case
  proof (cases "x \<noteq> 0 \<and> ?f x \<noteq> c")
    case True
    then have "ends S s" using less.prems by simp
    from nextChar_ex [OF this] obtain d s1 where "nextChar S s d s1" by blast
    then have d: "readChar S s = Inr (d, s1)" "0 \<le> sint d" "d \<noteq> 0 \<longrightarrow> ends S s1" "textAt S s = (if d = 0 then [] else d # textAt S s1)"
      by (auto simp: nextChar_def)
    have m: "length S - s1 < length S - s" using readChar_moves [OF d(1)] by auto
    have "scanLoop pInfo S c (?f x) s = scanLoop pInfo S c (?f d) s1" by (subst scanLoop.simps) (use True d in \<open>simp add: foldCase_ok\<close>)
    moreover have "dropWhile (\<lambda>y. ?f y \<noteq> c) (if x = 0 then [] else x # textAt S s) = dropWhile (\<lambda>y. ?f y \<noteq> c) (if d = 0 then [] else d # textAt S s1)"
      using True by (simp add: d(4))
    ultimately show ?thesis using less.hyps [OF m d(3)] by simp
  next
    case False
    then have "scanLoop pInfo S c (?f x) s = Inr (?f x, s)" by (subst scanLoop.simps) auto
    then show ?thesis using False less.prems by auto
  qed
qed

text \<open>What the three loops compute.\<close>

definition literal :: "compareInfo \<Rightarrow> u32 \<Rightarrow> u32 list \<Rightarrow> u32 list \<Rightarrow> bool" where
  "literal pInfo esc cs xs \<longleftrightarrow> (case cs of [] \<Rightarrow> xs = [] | d # ds \<Rightarrow> matches (noCase pInfo) (Lit d # items pInfo esc False ds) xs)"

definition patOK :: "compareInfo \<Rightarrow> u32 \<Rightarrow> byte list \<Rightarrow> byte list \<Rightarrow> nat \<Rightarrow> nat \<Rightarrow> bool \<Rightarrow> bool" where
  "patOK pInfo esc P S p s prevEscape \<longleftrightarrow> patLoop pInfo esc P S p s prevEscape =
     Inr (if prevEscape then literal pInfo esc (textAt P p) (textAt S s)
          else matches (noCase pInfo) (items pInfo esc False (textAt P p)) (textAt S s))"

definition starOK :: "compareInfo \<Rightarrow> u32 \<Rightarrow> byte list \<Rightarrow> byte list \<Rightarrow> u32 \<Rightarrow> nat \<Rightarrow> nat \<Rightarrow> bool" where
  "starOK pInfo esc P S c p s \<longleftrightarrow> starLit pInfo esc P S c p s =
     Inr (matches (noCase pInfo) (Star # Lit c # items pInfo esc False (textAt P p)) (textAt S s))"

definition setOK :: "compareInfo \<Rightarrow> u32 \<Rightarrow> byte list \<Rightarrow> byte list \<Rightarrow> nat \<Rightarrow> nat \<Rightarrow> bool" where
  "setOK pInfo esc P S p s \<longleftrightarrow> setStar pInfo esc P S p s =
     Inr (matches (noCase pInfo) (Star # items pInfo esc False (textAt P p)) (textAt S s))"

text \<open>The position of the next matching literal.\<close>

lemma star_lit:
  "matches nc (Star # Lit c # is) xs \<longleftrightarrow>
     (case dropWhile (\<lambda>x. foldC nc x \<noteq> foldC nc c) xs of [] \<Rightarrow> False | x # ys \<Rightarrow> matches nc is ys \<or> matches nc (Star # Lit c # is) ys)"
proof (induction xs)
  case (Cons x xs)
  have "matches nc (Star # Lit c # is) (x # xs) \<longleftrightarrow> foldC nc x = foldC nc c \<and> matches nc is xs \<or> matches nc (Star # Lit c # is) xs"
    using star_step [of nc "Lit c # is" "x # xs"] by (simp del: matches.simps(2))
  then show ?case using Cons.IH by (simp del: matches.simps(2))
qed simp

lemma foldC_pos: "0 \<le> sint c \<Longrightarrow> 0 \<le> sint (foldC nc c)"
proof (cases "nc \<and> 0x41 \<le> c \<and> c \<le> 0x5a")
  case True
  then have "unat c \<le> 90" by (simp add: word_le_nat_alt)
  moreover from this have "unat (c + 0x20) = unat c + 32" by (subst unat_add_no_wrap) simp_all
  ultimately have "unat (c + 0x20) < 2 ^ 31" by simp
  then have "uint (c + 0x20) < 2 ^ 31" by (metis uint_nat of_nat_less_iff of_nat_power of_nat_numeral)
  then have "signed_take_bit 31 (uint (c + 0x20)) = uint (c + 0x20)"
    by (intro signed_take_bit_int_eq_self) (auto intro: order_trans [of _ 0])
  then show ?thesis using True by (simp add: foldC_def sint_uint)
qed (auto simp: foldC_def)

lemma starLit_step:
  assumes e: "ends S s" and c: "0 \<le> sint c"
    and pat: "\<And>s'. ends S s' \<Longrightarrow> s < s' \<Longrightarrow> patOK pInfo esc P S p s' False"
    and star: "\<And>s' c. ends S s' \<Longrightarrow> s < s' \<Longrightarrow> 0 \<le> sint c \<Longrightarrow> starOK pInfo esc P S c p s'"
  shows "starOK pInfo esc P S c p s"
proof -
  let ?f = "foldC (noCase pInfo)" and ?it = "items pInfo esc False (textAt P p)"
  from nextChar_ex [OF e] obtain x s1 where "nextChar S s x s1" by blast
  then have x: "readChar S s = Inr (x, s1)" "0 \<le> sint x" "x = 0 \<Longrightarrow> textAt S s = []" "x \<noteq> 0 \<Longrightarrow> textAt S s = x # textAt S s1 \<and> ends S s1"
    by (auto simp: nextChar_def)
  show ?thesis
  proof (cases "x = 0")
    case True
    then show ?thesis using x(1,3) unfolding starOK_def by (subst starLit.simps) (simp add: x(1))
  next
    case False
    note xs = x(4) [OF False]
    have t: "textAt S s = x # textAt S s1" using xs by simp
    obtain c2 s' where sc: "scanLoop pInfo S (?f c) (?f x) s1 = Inr (c2, s')"
      "case dropWhile (\<lambda>y. ?f y \<noteq> ?f c) (textAt S s) of [] \<Rightarrow> c2 = 0 | y # ys \<Rightarrow> c2 \<noteq> 0 \<and> ends S s' \<and> textAt S s' = ys"
      using scanLoop_spec [of x S s1 pInfo "?f c"] xs False by auto
    have lt: "s < s'" using readChar_moves [OF x(1)] scanLoop_moves [OF sc(1)] by simp
    have run: "starLit pInfo esc P S c p s = (if c2 = 0 then Inr False
        else bindR (patLoop pInfo esc P S p s' False) (\<lambda>r. if r then Inr True else starLit pInfo esc P S (?f c) p s'))"
      by (subst starLit.simps) (use False x(1,2) c sc(1) in \<open>simp add: foldCase_ok\<close>)
    show ?thesis
    proof (cases "dropWhile (\<lambda>y. ?f y \<noteq> ?f c) (textAt S s)")
      case Nil
      have "c2 = 0" using sc(2) unfolding Nil by simp
      moreover have "\<not> matches (noCase pInfo) (Star # Lit c # ?it) (textAt S s)" unfolding star_lit [of _ _ _ "textAt S s"] Nil by simp
      ultimately show ?thesis unfolding starOK_def run by (simp only: if_True simp_thms)
    next
      case (Cons y ys)
      then have s': "c2 \<noteq> 0" "ends S s'" "textAt S s' = ys" using sc(2) by auto
      have fc: "0 \<le> sint (?f c)" by (rule foldC_pos [OF c])
      have "starLit pInfo esc P S c p s = Inr (matches (noCase pInfo) ?it ys \<or> matches (noCase pInfo) (Star # Lit (?f c) # ?it) ys)"
        unfolding run using pat [OF s'(2) lt] star [OF s'(2) lt fc] s'(1,3) by (simp add: patOK_def starOK_def del: matches.simps)
      moreover have "matches nc (Star # Lit (foldC nc c) # it) ys \<longleftrightarrow> matches nc (Star # Lit c # it) ys" for nc it
      proof -
        have "matches nc (Lit (foldC nc c) # it) zs \<longleftrightarrow> matches nc (Lit c # it) zs" for zs by (cases zs) auto
        then show ?thesis by (simp del: matches.simps(4))
      qed
      ultimately show ?thesis using star_lit [of "noCase pInfo" c ?it "textAt S s"] Cons by (simp add: starOK_def del: matches.simps)
    qed
  qed
qed
lemma setStar_step:
  assumes e: "ends S s" and pat: "patOK pInfo esc P S p s False" and P: "\<not> matches (noCase pInfo) (items pInfo esc False (textAt P p)) []"
    and set: "\<And>s'. ends S s' \<Longrightarrow> s < s' \<Longrightarrow> setOK pInfo esc P S p s'"
  shows "setOK pInfo esc P S p s"
proof -
  let ?it = "items pInfo esc False (textAt P p)" and ?m = "matches (noCase pInfo)"
  from nextChar_ex [OF e] obtain x s1 where "nextChar S s x s1" by blast
  then have x: "rd S s = Inr (S ! s)" "x = 0 \<longleftrightarrow> S ! s = 0" "x = 0 \<Longrightarrow> textAt S s = []"
      "x \<noteq> 0 \<Longrightarrow> textAt S s = x # textAt S s1 \<and> ends S s1 \<and> skipChar S s = Inr s1" by (auto simp: nextChar_def)
  show ?thesis
  proof (cases "x = 0")
    case True
    moreover have "\<not> ?m (Star # ?it) []" using P star_step [of "noCase pInfo" ?it "[]"] by blast
    ultimately show ?thesis using x(1,2,3) unfolding setOK_def by (subst setStar.simps) (simp del: matches.simps)
  next
    case False
    then have t: "textAt S s = x # textAt S s1" "ends S s1" "skipChar S s = Inr s1" using x(4) by auto
    have "s < s1" using skipChar_moves [OF t(3)] by simp
    then have "setStar pInfo esc P S p s1 = Inr (?m (Star # ?it) (textAt S s1))" using set [OF t(2)] by (simp only: setOK_def)
    moreover have "?m (Star # ?it) (textAt S s) \<longleftrightarrow> ?m ?it (textAt S s) \<or> ?m (Star # ?it) (textAt S s1)"
      using star_step [of "noCase pInfo" ?it "textAt S s"] t(1) by (simp del: matches.simps)
    ultimately show ?thesis using pat False x(1,2) t(3) unfolding setOK_def patOK_def
      by (subst setStar.simps) (simp del: matches.simps)
  qed
qed

text \<open>The comparison is right from the cursors that follow p and s.\<close>

definition later :: "compareInfo \<Rightarrow> u32 \<Rightarrow> byte list \<Rightarrow> byte list \<Rightarrow> nat \<Rightarrow> nat \<Rightarrow> bool" where
  "later pInfo esc P S p s \<longleftrightarrow> (\<forall>p' s' b. ends P p' \<longrightarrow> ends S s' \<longrightarrow> p < p' \<longrightarrow> s \<le> s' \<longrightarrow> (b \<longrightarrow> esc \<noteq> 0) \<longrightarrow> patOK pInfo esc P S p' s' b)"

lemma ends_less: "ends z i \<Longrightarrow> i < length z"
  by (cases "i < length z") (auto simp: ends_def)

lemma star_all:
  assumes "later pInfo esc P S p s" "ends P p'" "p < p'"
  shows "ends S s' \<Longrightarrow> s \<le> s' \<Longrightarrow> 0 \<le> sint c \<Longrightarrow> starOK pInfo esc P S c p' s'"
proof (induction "length S - s'" arbitrary: s' c rule: less_induct)
  case less
  show ?case
  proof (rule starLit_step [OF less.prems(1,3)])
    fix s2 assume "ends S s2" "s' < s2"
    then show "patOK pInfo esc P S p' s2 False" using assms less.prems(2) by (simp add: later_def)
  next
    fix s2 and c' :: u32 assume "ends S s2" "s' < s2" "0 \<le> sint c'"
    then show "starOK pInfo esc P S c' p' s2" using less.hyps less.prems(2) ends_less [OF \<open>ends S s2\<close>] by simp
  qed
qed

lemma set_all:
  assumes "later pInfo esc P S p s" "ends P p'" "p < p'" "\<not> matches (noCase pInfo) (items pInfo esc False (textAt P p')) []"
  shows "ends S s' \<Longrightarrow> s \<le> s' \<Longrightarrow> setOK pInfo esc P S p' s'"
proof (induction "length S - s'" arbitrary: s' rule: less_induct)
  case less
  show ?case
  proof (rule setStar_step [OF less.prems(1) _ assms(4)])
    show "patOK pInfo esc P S p' s' False" using assms less.prems by (simp add: later_def)
  next
    fix s2 assume "ends S s2" "s' < s2"
    then show "setOK pInfo esc P S p' s2" using less.hyps less.prems(2) ends_less [OF \<open>ends S s2\<close>] by simp
  qed
qed

text \<open>After the wildcards: nothing, an escaped character, a character class or a literal.\<close>

lemma after_star:
  assumes ok: "info_ok pInfo esc" and l: "later pInfo esc P S p s" and mv: "p < p2 - 1" "s \<le> s2"
    and d: "d \<noteq> ucast (matchAll pInfo)" "d \<noteq> ucast (matchOne pInfo)" "0 \<le> sint d" "ends S s2" "d \<noteq> 0 \<Longrightarrow> ends P p2"
      "sint d < 0x80 \<Longrightarrow> d \<noteq> 0 \<Longrightarrow> ends P (p2 - 1) \<and> textAt P (p2 - 1) = d # textAt P p2"
  shows "(if d = 0 then Inr True
     else if d = esc then bindR (readChar P p2) (\<lambda>(c, p3). if c = 0 then Inr False else starLit pInfo esc P S c p3 s2)
     else if d = ucast (matchSet pInfo) then setStar pInfo esc P S (p2 - 1) s2
     else starLit pInfo esc P S d p2 s2)
   = Inr (matches (noCase pInfo) (Star # items pInfo esc True (if d = 0 then [] else d # textAt P p2)) (textAt S s2))"
proof -
  let ?m = "matches (noCase pInfo)" and ?it = "items pInfo esc"
  have es: "esc \<noteq> 0 \<longrightarrow> matchSet pInfo = 0" and ms: "matchSet pInfo < 0x80" using ok by (auto simp: info_ok_def)
  consider (none) "d = 0" | (esc) "d \<noteq> 0" "d = esc" | (set) "d \<noteq> 0" "d \<noteq> esc" "d = ucast (matchSet pInfo)"
    | (lit) "d \<noteq> 0" "d \<noteq> esc" "d \<noteq> ucast (matchSet pInfo)" by blast
  then show ?thesis
  proof cases
    case none
    then show ?thesis using star_any [of "noCase pInfo" "textAt S s2"] by (simp del: matches.simps)
  next
    case esc
    obtain e p3 where "nextChar P p2 e p3" using nextChar_ex [OF d(5) [OF esc(1)]] by blast
    then have e: "readChar P p2 = Inr (e, p3)" "0 \<le> sint e" "e = 0 \<Longrightarrow> textAt P p2 = []" "e \<noteq> 0 \<Longrightarrow> textAt P p2 = e # textAt P p3 \<and> ends P p3"
      by (auto simp: nextChar_def)
    have nset: "d \<noteq> ucast (matchSet pInfo)" using es esc by auto
    show ?thesis
    proof (cases "e = 0")
      case True
      have "\<not> ?m [Star, Never] xs" for xs by simp
      then show ?thesis using esc nset d(1,2) e(1,3) True by (simp del: matches.simps)
    next
      case False
      have "p < p3" using mv(1) readChar_moves [OF e(1)] by linarith
      from star_all [OF l _ this d(4) mv(2) e(2)] e(4) [OF False] have "starOK pInfo esc P S e p3 s2" by blast
      then show ?thesis using esc nset d(1,2) e(1) e(4) [OF False] False by (simp add: starOK_def del: matches.simps)
    qed
  next
    case set
    then have "sint d < 0x80" using ms sint_small by simp
    then have p: "ends P (p2 - 1)" "textAt P (p2 - 1) = d # textAt P p2" using d(6) set(1) by auto
    have it: "?it st (d # textAt P p2) = (case classOf (textAt P p2) of None \<Rightarrow> [Never] | Some (neg, rs, t) \<Rightarrow> Class neg rs # ?it False t)" for st
      using set d(1,2) by simp
    have "\<not> ?m (?it False (textAt P (p2 - 1))) []" unfolding p(2) it by (auto split: option.splits)
    from set_all [OF l p(1) mv(1) this d(4) mv(2)] have "setStar pInfo esc P S (p2 - 1) s2 = Inr (?m (Star # ?it True (d # textAt P p2)) (textAt S s2))"
      unfolding setOK_def p(2) it .
    then show ?thesis using set by (simp del: matches.simps items.simps)
  next
    case lit
    have "p < p2" using mv(1) by simp
    from star_all [OF l d(5) [OF lit(1)] this d(4) mv(2) d(3)] have "starOK pInfo esc P S d p2 s2" .
    then show ?thesis using lit d(1,2) by (simp add: starOK_def del: matches.simps)
  qed
qed

lemma pat_star:
  assumes ok: "info_ok pInfo esc" and l: "later pInfo esc P S p s" and S: "ends S s"
    and c: "nextChar P p (ucast (matchAll pInfo)) p1"
  shows "patOK pInfo esc P S p s False"
proof -
  let ?m = "matches (noCase pInfo)" and ?it = "items pInfo esc"
  have a0: "matchAll pInfo \<noteq> 0" and a1: "matchOne pInfo \<noteq> matchAll pInfo" and es: "esc \<noteq> 0 \<longrightarrow> matchSet pInfo = 0" and ms: "matchSet pInfo < 0x80"
    using ok by (auto simp: info_ok_def)
  have P1: "readChar P p = Inr (ucast (matchAll pInfo), p1)" "textAt P p = ucast (matchAll pInfo) # textAt P p1" "ends P p1"
    using c a0 by (auto simp: nextChar_def)
  have p: "p < p1" using readChar_moves [OF P1(1)] by simp
  have m: "?m (?it False (textAt P p)) (textAt S s) \<longleftrightarrow> ?m (Star # ?it True (textAt P p1)) (textAt S s)" unfolding P1(2) by (simp del: matches.simps)
  obtain r where r: "starRun pInfo P S p1 s = Inr r" "case r of
      None \<Rightarrow> \<not> ?m (Star # ?it True (textAt P p1)) (textAt S s)
    | Some (c, p', s') \<Rightarrow> c \<noteq> ucast (matchAll pInfo) \<and> c \<noteq> ucast (matchOne pInfo) \<and> 0 \<le> sint c \<and> ends S s'
        \<and> (c \<noteq> 0 \<longrightarrow> ends P p') \<and> (sint c < 0x80 \<longrightarrow> c \<noteq> 0 \<longrightarrow> ends P (p' - 1) \<and> textAt P (p' - 1) = c # textAt P p')
        \<and> (?m (Star # ?it True (textAt P p1)) (textAt S s) \<longleftrightarrow> ?m (Star # ?it True (if c = 0 then [] else c # textAt P p')) (textAt S s'))"
    using starRun_spec [OF ok P1(3) S] by blast
  note run = patLoop.simps [of pInfo esc P S p s False, unfolded P1(1)]
  show ?thesis
  proof (cases r)
    case None
    then show ?thesis using r a0 m unfolding patOK_def run by (simp del: matches.simps)
  next
    case (Some t)
    obtain d p2 s2 where t: "t = (d, p2, s2)" by (cases t)
    have mv: "p1 < p2" "s \<le> s2" using starRun_moves [of pInfo P S p1 s d p2 s2] r(1) Some t by auto
    have q: "d \<noteq> ucast (matchAll pInfo)" "d \<noteq> ucast (matchOne pInfo)" "0 \<le> sint d" "ends S s2" "d \<noteq> 0 \<Longrightarrow> ends P p2"
      "sint d < 0x80 \<Longrightarrow> d \<noteq> 0 \<Longrightarrow> ends P (p2 - 1) \<and> textAt P (p2 - 1) = d # textAt P p2"
      "?m (Star # ?it True (textAt P p1)) (textAt S s) \<longleftrightarrow> ?m (Star # ?it True (if d = 0 then [] else d # textAt P p2)) (textAt S s2)"
      using r(2) Some t by (auto simp del: matches.simps)
    have "p < p2 - 1" using p mv(1) by simp
    note tail = after_star [OF ok l this mv(2) q(1-6)]
    show ?thesis using r(1) Some t a0 tail unfolding patOK_def run m q(7)
      by (simp del: matches.simps items.simps split del: if_split)
  qed
qed
text \<open>One character that is not a matchAll.\<close>

lemma pat_char:
  assumes ok: "info_ok pInfo esc" and l: "later pInfo esc P S p s" and S: "ends S s" and e: "prevEscape \<longrightarrow> esc \<noteq> 0"
    and c: "nextChar P p c p1" "c \<noteq> 0" "\<not> (\<not> prevEscape \<and> c = ucast (matchAll pInfo))"
  shows "patOK pInfo esc P S p s prevEscape"
proof -
  let ?m = "matches (noCase pInfo)" and ?it = "items pInfo esc"
  have es: "esc \<noteq> 0 \<longrightarrow> matchSet pInfo = 0" using ok by (auto simp: info_ok_def)
  have P1: "readChar P p = Inr (c, p1)" "textAt P p = c # textAt P p1" "ends P p1" "0 \<le> sint c" using c(1,2) by (auto simp: nextChar_def)
  have p: "p < p1" using readChar_moves [OF P1(1)] by simp
  have nxt: "patOK pInfo esc P S p' s' b" if "ends P p'" "ends S s'" "p < p'" "s \<le> s'" "b \<longrightarrow> esc \<noteq> 0" for p' s' b
    using l that by (simp add: later_def)
  note run = patLoop.simps [of pInfo esc P S p s prevEscape, unfolded P1(1)]
  obtain x s1 where "nextChar S s x s1" using nextChar_ex [OF S] by blast
  then have x: "readChar S s = Inr (x, s1)" "0 \<le> sint x" "textAt S s = (if x = 0 then [] else x # textAt S s1)" "x \<noteq> 0 \<Longrightarrow> ends S s1"
    by (auto simp: nextChar_def)
  have s1: "s \<le> s1" using readChar_moves [OF x(1)] by simp
  consider (one) "\<not> prevEscape" "c = ucast (matchOne pInfo)"
    | (set) "\<not> prevEscape" "c \<noteq> ucast (matchOne pInfo)" "c = ucast (matchSet pInfo)"
    | (esc) "\<not> prevEscape" "c \<noteq> ucast (matchOne pInfo)" "c \<noteq> ucast (matchSet pInfo)" "c = esc"
    | (lit) "prevEscape \<or> c \<noteq> ucast (matchOne pInfo) \<and> c \<noteq> esc" "c \<noteq> ucast (matchSet pInfo)" using e es c(2) by fastforce
  then show ?thesis
  proof cases
    case one
    have "patOK pInfo esc P S p1 s1 False" if "x \<noteq> 0" by (rule nxt [OF P1(3) x(4) [OF that] p s1]) simp
    then show ?thesis using one c(2,3) x(1,3) unfolding patOK_def run P1(2) by auto
  next
    case set
    obtain r where r: "matchClass P S p1 s = Inr r" "case textAt S s of [] \<Rightarrow> r = None | x # xs \<Rightarrow>
        (case classOf (textAt P p1) of None \<Rightarrow> r = None | Some (neg, rs, t) \<Rightarrow>
          if inClass x rs \<noteq> neg then \<exists>p' s'. r = Some (p', s') \<and> textAt P p' = t \<and> ends P p' \<and> textAt S s' = xs \<and> ends S s' else r = None)"
      using matchClass_spec [OF P1(3) S] by blast
    have g: "patLoop pInfo esc P S p2 s2 False = Inr (?m (?it False (textAt P p2)) (textAt S s2))" if "r = Some (p2, s2)" "ends P p2" "ends S s2" for p2 s2
      using nxt [of p2 s2 False] that matchClass_moves [of P S p1 s p2 s2] r(1) p by (simp add: patOK_def)
    show ?thesis using set c(2,3) r g unfolding patOK_def run P1(2)
      by (cases "textAt S s"; cases "classOf (textAt P p1)"; cases r) (auto split: if_splits)
  next
    case esc
    have "patOK pInfo esc P S p1 s True" by (rule nxt [OF P1(3) S p]) (use esc c(2) in auto)
    then show ?thesis using esc c(2,3) unfolding patOK_def run P1(2) by (cases "textAt P p1") (auto simp: literal_def)
  next
    case lit
    have "patOK pInfo esc P S p1 s1 False" if "x \<noteq> 0" by (rule nxt [OF P1(3) x(4) [OF that] p s1]) simp
    moreover have "patLoop pInfo esc P S p s prevEscape = (if foldC (noCase pInfo) c \<noteq> foldC (noCase pInfo) x then Inr False else patLoop pInfo esc P S p1 s1 False)"
      unfolding run using lit c(2,3) x(1,2) P1(4) by (auto simp: foldCase_ok)
    moreover have "foldC (noCase pInfo) c \<noteq> foldC (noCase pInfo) 0" using c(2) by (metis foldC_simps(2))
    ultimately have "patLoop pInfo esc P S p s prevEscape = Inr (?m (Lit c # ?it False (textAt P p1)) (textAt S s))"
      using x(3) by (cases "x = 0") (auto simp: patOK_def)
    then show ?thesis using lit c(2,3) by (auto simp: patOK_def P1(2) literal_def)
  qed
qed

lemma patLoop_spec:
  assumes ok: "info_ok pInfo esc"
  shows "ends P p \<Longrightarrow> ends S s \<Longrightarrow> (prevEscape \<longrightarrow> esc \<noteq> 0) \<Longrightarrow> patOK pInfo esc P S p s prevEscape"
proof (induction "length P - p + (length S - s)" arbitrary: p s prevEscape rule: less_induct)
  case less
  have l: "later pInfo esc P S p s" unfolding later_def
    using less.hyps ends_less [OF less.prems(1)] by auto
  obtain c p1 where c: "nextChar P p c p1" using nextChar_ex [OF less.prems(1)] by blast
  consider "c = 0" | "\<not> prevEscape" "c = ucast (matchAll pInfo)" | "c \<noteq> 0" "\<not> (\<not> prevEscape \<and> c = ucast (matchAll pInfo))" by blast
  then show ?case
  proof cases
    case 1
    obtain x s1 where "nextChar S s x s1" using nextChar_ex [OF less.prems(2)] by blast
    then have "rd S s = Inr (S ! s)" "S ! s = 0 \<longleftrightarrow> textAt S s = []" by (auto simp: nextChar_def)
    then show ?thesis using 1 c by (simp add: nextChar_def patOK_def patLoop.simps literal_def)
  next
    case 2
    with pat_star [OF ok l less.prems(2)] c show ?thesis by simp
  next
    case 3
    with pat_char [OF ok l less.prems(2,3) c] show ?thesis by blast
  qed
qed

subsection \<open>Properties\<close>

text \<open>
  C21: LIKE and GLOB match what their patterns say. For the three ways of comparing, every
  escape character (LIKE only), pattern and string, terminated by a zero byte, patternCompare
  reads no byte outside the two blocks and returns whether the characters of the string match
  the items of the pattern: any run of characters, one character, a class of characters or a
  literal, with letters compared without regard to case in the default form of LIKE. The
  backtracking search loses no match.
\<close>

theorem pattern_compare:
  assumes "(pInfo, esc) \<in> {(globInfo, 0), (likeInfoNorm, e), (likeInfoAlt, e)}" "0 \<in> set zPattern" "0 \<in> set zString"
  shows "patternCompare zPattern zString pInfo esc = Inr (matches (noCase pInfo) (items pInfo esc False (chars zPattern)) (chars zString))"
proof -
  have "info_ok pInfo esc" using assms(1) by (auto simp: info_ok_def globInfo_def likeInfoNorm_def likeInfoAlt_def)
  then show ?thesis using patLoop_spec [of pInfo esc zPattern 0 zString 0 False] assms(2,3)
    by (simp add: ends_def patOK_def textAt_def patternCompare_def)
qed
theorem pattern_compare_witness:
  "patternCompare [0x2a, 0x5b, 0x61, 0x2d, 0x63, 0x5d, 0x3f, 0] [0x78, 0x62, 0x62, 0x79, 0] globInfo 0 = Inr True
   \<and> matches False (items globInfo 0 False (chars [0x2a, 0x5b, 0x61, 0x2d, 0x63, 0x5d, 0x3f, 0])) (chars [0x78, 0x62, 0x62, 0x79, 0])"
proof -
  have t: "chars [0x2a, 0x5b, 0x61, 0x2d, 0x63, 0x5d, 0x3f, 0] = [0x2a, 0x5b, 0x61, 0x2d, 0x63, 0x5d, 0x3f]"
    "chars [0x78, 0x62, 0x62, 0x79, 0] = [0x78, 0x62, 0x62, 0x79]"
    by (simp_all add: chars.simps sqlite3Utf8Read_def)
  have "matches False (items globInfo 0 False [0x2a, 0x5b, 0x61, 0x2d, 0x63, 0x5d, 0x3f]) [0x78, 0x62, 0x62, 0x79]"
    by (simp add: globInfo_def) (auto simp: inClass_def intro!: exI [of _ 2])
  moreover have "noCase globInfo = False" by (simp add: globInfo_def)
  ultimately show ?thesis
    using pattern_compare [of globInfo 0 0 "[0x2a, 0x5b, 0x61, 0x2d, 0x63, 0x5d, 0x3f, 0]" "[0x78, 0x62, 0x62, 0x79, 0]"] t by simp
qed
lemma skipCont_suffix: "skipCont z = Inr t \<Longrightarrow> \<exists>k. t = drop k z"
proof (induction z)
  case (Cons b z)
  show ?case
  proof (cases "contByte b")
    case True
    then obtain k where "t = drop k z" using Cons by auto
    then show ?thesis by (intro exI [of _ "Suc k"]) simp
  next
    case False
    then show ?thesis using Cons.prems by (intro exI [of _ 0]) simp
  qed
qed simp

lemma skip_suffix: "SQLITE_SKIP_UTF8 (drop i z) = Inr t \<Longrightarrow> t = drop (length z - length t) z"
proof -
  assume "SQLITE_SKIP_UTF8 (drop i z) = Inr t"
  then have "t = drop 0 (drop 1 (drop i z)) \<or> (\<exists>k. t = drop k (drop 1 (drop i z)))"
    by (auto simp: SQLITE_SKIP_UTF8_def bindR_Inr_iff split: if_splits dest!: skipCont_suffix)
  then obtain k where "t = drop k (drop 1 (drop i z))" by blast
  then show ?thesis by (cases "k + 1 + i \<le> length z") (auto simp: drop_drop)
qed

lemma charLen_chars: "ends z i \<Longrightarrow> charLenLoop (drop i z) None r = Inr (r + length (textAt z i))"
proof (induction "length z - i" arbitrary: i r rule: less_induct)
  case less
  obtain c i' where c: "nextChar z i c i'" using nextChar_ex [OF less.prems] by blast
  have r0: "rd (drop i z) 0 = Inr (z ! i)" using ends_less [OF less.prems] by simp
  show ?case
  proof (cases "c = 0")
    case True
    then show ?thesis using c r0 by (subst charLenLoop.simps) (simp add: nextChar_def)
  next
    case False
    then have n: "textAt z i = c # textAt z i'" "ends z i'" "skipChar z i = Inr i'" "z ! i \<noteq> 0" using c by (auto simp: nextChar_def)
    then obtain t where t: "SQLITE_SKIP_UTF8 (drop i z) = Inr t" "i' = length z - length t" by (auto simp: skipChar_def bindR_Inr_iff)
    have "t = drop i' z" using skip_suffix [OF t(1)] t(2) by auto
    moreover have "length z - i' < length z - i" using skipChar_moves [OF n(3)] by auto
    ultimately show ?thesis using less.hyps [of i' "r + 1"] n r0 t(1) by (subst charLenLoop.simps) simp
  qed
qed

text \<open>
  C37: the SQL functions like() and glob(). A pattern longer than the limit and an escape text
  that is not exactly one character are errors, a NULL argument gives NULL, and otherwise the
  result is whether the text matches the pattern with that escape character.
\<close>

theorem like_function:
  assumes "pInfo \<in> {likeInfoNorm, likeInfoAlt, globInfo}" "pInfo = globInfo \<longrightarrow> zEsc = None"
    "\<forall>z \<in> set_option zA \<union> set_option zB. 0 \<in> set z" "\<forall>z. zEsc = Some (Some z) \<longrightarrow> 0 \<in> set z"
  shows "likeFunc pInfo limit nB zB zA zEsc = Inr
    (if nB > limit then LikeTooComplex
     else if zEsc = Some None then LikeUnset
     else if \<exists>z. zEsc = Some (Some z) \<and> length (chars z) \<noteq> 1 then LikeBadEscape
     else case (zA, zB) of (Some a, Some b) \<Rightarrow>
         LikeInt (matches (noCase pInfo) (items pInfo (case zEsc of Some (Some z) \<Rightarrow> hd (chars z) | _ \<Rightarrow> 0) False (chars b)) (chars a))
       | _ \<Rightarrow> LikeUnset)"
proof -
  define compare where "compare = (\<lambda>escape. case (zA, zB) of (Some a, Some b) \<Rightarrow> bindR (patternCompare b a pInfo escape) (\<lambda>r. Inr (LikeInt r)) | _ \<Rightarrow> Inr LikeUnset)"
  have cmp: "compare e = Inr (case (zA, zB) of (Some a, Some b) \<Rightarrow> LikeInt (matches (noCase pInfo) (items pInfo e False (chars b)) (chars a)) | _ \<Rightarrow> LikeUnset)"
    if "zEsc = None \<longrightarrow> e = 0" for e
  proof -
    have ok: "info_ok pInfo e" using assms(1,2) that by (auto simp: info_ok_def globInfo_def likeInfoNorm_def likeInfoAlt_def)
    then have "patternCompare b a pInfo e = Inr (matches (noCase pInfo) (items pInfo e False (chars b)) (chars a))" if "zA = Some a" "zB = Some b" for a b
      using patLoop_spec [OF ok, of b 0 a 0 False] assms(3) that by (simp add: ends_def patOK_def textAt_def patternCompare_def)
    then show ?thesis by (auto simp: compare_def split: option.splits)
  qed
  have like: "likeFunc pInfo limit nB zB zA zEsc = (if nB > limit then Inr LikeTooComplex
      else case zEsc of None \<Rightarrow> compare 0
        | Some None \<Rightarrow> Inr LikeUnset
        | Some (Some z) \<Rightarrow> bindR (sqlite3Utf8CharLen z None) (\<lambda>n.
            if n \<noteq> 1 then Inr LikeBadEscape else bindR (sqlite3Utf8Read z None) (\<lambda>(escape, k). compare escape)))"
    unfolding likeFunc_def compare_def Let_def ..
  show ?thesis
  proof (cases "zEsc")
    case None
    then show ?thesis unfolding like using cmp [of 0] by (cases zA; cases zB) simp_all
  next
    case (Some q)
    show ?thesis
    proof (cases q)
      case None
      then show ?thesis unfolding like using Some by simp
    next
      case z: (Some z)
      then have e: "ends z 0" using assms(4) Some by (auto simp: ends_def)
      have n: "sqlite3Utf8CharLen z None = Inr (length (chars z))" using charLen_chars [OF e, of 0] by (simp add: sqlite3Utf8CharLen_def textAt_def)
      obtain c i where "nextChar z 0 c i" using nextChar_ex [OF e] by blast
      then have "sqlite3Utf8Read z None = Inr (c, i)" "chars z = (if c = 0 then [] else c # textAt z i)"
        by (auto simp: nextChar_def readChar_def bindR_Inr_iff textAt_def [of z 0])
      then show ?thesis unfolding like using Some z n cmp [of c] by (cases zA; cases zB) auto
    qed
  qed
qed

theorem like_function_witness:
  "likeFunc likeInfoNorm 50000 3 (Some [0x25, 0x42, 0]) (Some [0x61, 0x62, 0]) (Some (Some [0x5c, 0x5c, 0])) = Inr LikeBadEscape
   \<and> likeFunc globInfo 2 3 (Some [0x25, 0x42, 0]) None None = Inr LikeTooComplex"
proof -
  have "chars [0x5c, 0x5c, 0] = [0x5c, 0x5c]" by (simp add: chars.simps sqlite3Utf8Read_def)
  then show ?thesis
    using like_function [of likeInfoNorm "Some (Some [0x5c, 0x5c, 0])" "Some [0x61, 0x62, 0]" "Some [0x25, 0x42, 0]" 50000 3]
      like_function [of globInfo None None "Some [0x25, 0x42, 0]" 2 3] by (auto simp: globInfo_def likeInfoNorm_def)
qed

end
