(* ===== verification/RecordFormat.thy ===== *)
theory RecordFormat
  imports Varint
begin

text \<open>
  The format of records: the serial types of vdbeaux.c, the opcode MakeRecord of vdbe.c, which
  turns registers of the virtual machine into a record, and sqlite3VdbeRecordUnpack, which
  reads one, in misc/sqlite.

  A value is a record of the fields of struct Mem that the code uses: the integer, the bits of
  the floating-point number, the bytes from z on, their number and the flags. The outcome of
  every memory request is an argument. The registers of MakeRecord are those after applyAffinity,
  which the opcode calls on each register before it uses it. Lengths are naturals; an int that
  is computed from an unsigned header field is an integer, and the count of zero bytes is a
  word, since it can wrap around. Shown: what MakeRecord writes, RecordUnpack reads back value
  by value.
\<close>

subsection \<open>Values\<close>

record VdbeMem =
  vm_i :: u64
  vm_r :: u64
  vm_z :: "byte list"
  vm_n :: nat
  vm_flags :: "16 word"

definition MEM_Null :: "16 word" where "MEM_Null = 0x0001"
definition MEM_Str :: "16 word" where "MEM_Str = 0x0002"
definition MEM_Int :: "16 word" where "MEM_Int = 0x0004"
definition MEM_Real :: "16 word" where "MEM_Real = 0x0008"
definition MEM_Blob :: "16 word" where "MEM_Blob = 0x0010"
definition MEM_Term :: "16 word" where "MEM_Term = 0x0020"
definition MEM_Dyn :: "16 word" where "MEM_Dyn = 0x0040"
definition MEM_Static :: "16 word" where "MEM_Static = 0x0080"
definition MEM_Ephem :: "16 word" where "MEM_Ephem = 0x0100"
definition MEM_Zero :: "16 word" where "MEM_Zero = 0x0800"

definition has :: "VdbeMem \<Rightarrow> 16 word \<Rightarrow> bool" where
  "has m f \<longleftrightarrow> vm_flags m AND f \<noteq> 0"

text \<open>
  The outcome of sqlite3VdbeMemGrow with the content kept: enough space, or a failure of
  malloc, or one of realloc, which also makes the value NULL. After a failure z is a null
  pointer.
\<close>

datatype grow = Grown | NoMalloc | NoRealloc

definition sqlite3VdbeMemExpandBlob :: "grow \<Rightarrow> VdbeMem \<Rightarrow> VdbeMem" where
  "sqlite3VdbeMemExpandBlob g m =
     (if has m MEM_Zero
      then case g of
          Grown \<Rightarrow> m\<lparr>vm_z := take (vm_n m) (vm_z m) @ replicate (unat (vm_i m)) 0, vm_n := vm_n m + unat (vm_i m),
                     vm_flags := vm_flags m AND NOT (MEM_Ephem OR MEM_Static) AND NOT (MEM_Zero OR MEM_Term)\<rparr>
        | NoMalloc \<Rightarrow> m\<lparr>vm_z := [], vm_flags := vm_flags m AND NOT (MEM_Ephem OR MEM_Static)\<rparr>
        | NoRealloc \<Rightarrow> m\<lparr>vm_z := [], vm_flags := MEM_Null\<rparr>
      else m)"

subsection \<open>Serial types\<close>

definition MAX_6BYTE :: u64 where
  "MAX_6BYTE = push_bit 32 0x00008000 - 1"

definition sqlite3VdbeSerialType :: "VdbeMem \<Rightarrow> int \<Rightarrow> u32" where
  "sqlite3VdbeSerialType m file_format =
     (if has m MEM_Null then 0
      else if has m MEM_Int
      then let i = vm_i m in
        if file_format \<ge> 4 \<and> i AND 1 = i then ucast (8 + i)
        else let u = (if sint i < 0 then - i else i) in
          if u \<le> 127 then 1 else if u \<le> 32767 then 2 else if u \<le> 8388607 then 3
          else if u \<le> 2147483647 then 4 else if u \<le> MAX_6BYTE then 5 else 6
      else if has m MEM_Real then 7
      else let n = of_nat (vm_n m) + (if has m MEM_Zero then ucast (vm_i m) else 0) in
        n * 2 + 12 + (if has m MEM_Str then 1 else 0))"

definition sqlite3VdbeSerialTypeLen :: "u32 \<Rightarrow> nat" where
  "sqlite3VdbeSerialTypeLen serial_type =
     (if serial_type \<ge> 12 then unat ((serial_type - 12) div 2) else [0, 1, 2, 3, 4, 6, 8, 8, 0, 0, 0, 0] ! unat serial_type)"

text \<open>The loop that writes a number, the last byte first.\<close>

fun putNumber :: "byte list \<Rightarrow> nat \<Rightarrow> u64 \<Rightarrow> byte list cres" where
  "putNumber buf 0 v = Inr buf"
| "putNumber buf (Suc i) v = bindR (wr buf i (ucast (v AND 0xFF))) (\<lambda>buf. putNumber buf i (drop_bit 8 v))"

definition sqlite3VdbeSerialPut :: "byte list \<Rightarrow> nat \<Rightarrow> VdbeMem \<Rightarrow> int \<Rightarrow> (nat \<times> byte list) cres" where
  "sqlite3VdbeSerialPut buf nBuf m file_format =
     (let serial_type = sqlite3VdbeSerialType m file_format in
      if serial_type \<le> 7 \<and> serial_type > 0
      then let len = sqlite3VdbeSerialTypeLen serial_type in
        bindR (putNumber buf len (if serial_type = 7 then vm_r m else vm_i m)) (\<lambda>buf. Inr (len, buf))
      else if serial_type \<ge> 12
      then if length (vm_z m) < vm_n m then Inl OutOfBounds
        else bindR (putBytes buf 0 (take (vm_n m) (vm_z m))) (\<lambda>buf.
          if has m MEM_Zero
          then let len = vm_n m + unat (vm_i m); len = (if len > nBuf then nBuf else len) in
            if len < vm_n m then Inl OutOfBounds
            else bindR (putBytes buf (vm_n m) (replicate (len - vm_n m) 0)) (\<lambda>buf. Inr (len, buf))
          else Inr (vm_n m, buf))
      else Inr (0, buf))"

text \<open>Whether the bits are those of a NaN, which is not equal to itself.\<close>

definition sqlite3IsNaN :: "u64 \<Rightarrow> bool" where
  "sqlite3IsNaN x \<longleftrightarrow> drop_bit 52 x AND 0x7FF = 0x7FF \<and> take_bit 52 x \<noteq> 0"

text \<open>Four bytes as an unsigned int.\<close>

definition fourAt :: "byte list \<Rightarrow> nat \<Rightarrow> u32 cres" where
  "fourAt buf k = bindR (rd buf k) (\<lambda>a. bindR (rd buf (k + 1)) (\<lambda>b. bindR (rd buf (k + 2)) (\<lambda>c. bindR (rd buf (k + 3)) (\<lambda>d.
     Inr (push_bit 24 (ucast a) OR push_bit 16 (ucast b) OR push_bit 8 (ucast c) OR ucast d)))))"

definition intMem :: "VdbeMem \<Rightarrow> u64 \<Rightarrow> nat \<Rightarrow> (VdbeMem \<times> nat) cres" where
  "intMem m i n = Inr (m\<lparr>vm_i := i, vm_flags := MEM_Int\<rparr>, n)"

definition sqlite3VdbeSerialGet :: "byte list \<Rightarrow> u32 \<Rightarrow> VdbeMem \<Rightarrow> (VdbeMem \<times> nat) cres" where
  "sqlite3VdbeSerialGet buf serial_type m =
     (if serial_type \<in> {0, 10, 11} then Inr (m\<lparr>vm_flags := MEM_Null\<rparr>, 0)
      else if serial_type = 1 then bindR (rd buf 0) (\<lambda>a. intMem m (scast a) 1)
      else if serial_type = 2
      then bindR (rd buf 0) (\<lambda>a. bindR (rd buf 1) (\<lambda>b. intMem m (scast (push_bit 8 (scast a) OR ucast b :: u32)) 2))
      else if serial_type = 3
      then bindR (rd buf 0) (\<lambda>a. bindR (rd buf 1) (\<lambda>b. bindR (rd buf 2) (\<lambda>c.
        intMem m (scast (push_bit 16 (scast a) OR push_bit 8 (ucast b) OR ucast c :: u32)) 3)))
      else if serial_type = 4 then bindR (fourAt buf 0) (\<lambda>x. intMem m (scast x) 4)
      else if serial_type = 5
      then bindR (rd buf 0) (\<lambda>a. bindR (rd buf 1) (\<lambda>b. bindR (fourAt buf 2) (\<lambda>y.
        let x = scast (push_bit 8 (scast a) OR ucast b :: u32) in intMem m (push_bit 32 x OR ucast y) 6)))
      else if serial_type = 6 \<or> serial_type = 7
      then bindR (fourAt buf 0) (\<lambda>x. bindR (fourAt buf 4) (\<lambda>y.
        let x = push_bit 32 (scast x) OR ucast y in
        if serial_type = 6 then intMem m x 8
        else Inr (m\<lparr>vm_r := x, vm_flags := if sqlite3IsNaN x then MEM_Null else MEM_Real\<rparr>, 8)))
      else if serial_type = 8 \<or> serial_type = 9 then intMem m (ucast (serial_type - 8)) 0
      else let len = unat ((serial_type - 12) div 2) in
        Inr (m\<lparr>vm_z := buf, vm_n := len,
               vm_flags := if serial_type AND 1 \<noteq> 0 then MEM_Str OR MEM_Ephem else MEM_Blob OR MEM_Ephem\<rparr>, len))"

subsection \<open>Records\<close>

text \<open>
  The first loop of MakeRecord: the registers, and the numbers nData, nHdr and nZero. The
  outcomes of expanding a blob are taken from a list, one for each register. nZero is an int,
  which wraps around.
\<close>

fun sizeLoop :: "int \<Rightarrow> (VdbeMem \<times> grow) list \<Rightarrow> nat \<Rightarrow> nat \<Rightarrow> u32 \<Rightarrow> VdbeMem list \<times> nat \<times> nat \<times> u32" where
  "sizeLoop file_format [] nData nHdr nZero = ([], nData, nHdr, nZero)"
| "sizeLoop file_format ((m, g) # ms) nData nHdr nZero =
     (let m = (if has m MEM_Zero \<and> vm_n m > 0 then sqlite3VdbeMemExpandBlob g m else m);
          serial_type = sqlite3VdbeSerialType m file_format; len = sqlite3VdbeSerialTypeLen serial_type;
          nZero = (if has m MEM_Zero then nZero + ucast (vm_i m) else if len \<noteq> 0 then 0 else nZero);
          (ms', r) = sizeLoop file_format ms (nData + len) (nHdr + sqlite3VarintLen (ucast serial_type)) nZero in
      (m # ms', r))"

fun typeLoop :: "int \<Rightarrow> byte list \<Rightarrow> nat \<Rightarrow> VdbeMem list \<Rightarrow> (nat \<times> byte list) cres" where
  "typeLoop file_format rec i [] = Inr (i, rec)"
| "typeLoop file_format rec i (m # ms) =
     bindR (putVarint32 (drop i rec) (sqlite3VdbeSerialType m file_format)) (\<lambda>(n, t). typeLoop file_format (take i rec @ t) (i + n) ms)"

fun dataLoop :: "int \<Rightarrow> byte list \<Rightarrow> nat \<Rightarrow> nat \<Rightarrow> VdbeMem list \<Rightarrow> (nat \<times> byte list) cres" where
  "dataLoop file_format rec nByte i [] = Inr (i, rec)"
| "dataLoop file_format rec nByte i (m # ms) =
     bindR (sqlite3VdbeSerialPut (drop i rec) (nByte - i) m file_format) (\<lambda>(n, t). dataLoop file_format (take i rec @ t) nByte (i + n) ms)"

datatype make_result = TooBig | NoMem | Made VdbeMem

text \<open>fresh is the block sqlite3VdbeMemGrow provides for the record, None when there is no memory.\<close>

definition OP_MakeRecord :: "int \<Rightarrow> nat \<Rightarrow> (nat \<Rightarrow> byte list option) \<Rightarrow> VdbeMem \<Rightarrow> (VdbeMem \<times> grow) list \<Rightarrow> make_result cres" where
  "OP_MakeRecord file_format limit fresh pOut regs =
     (let (ms, nData, nHdr, nZero) = sizeLoop file_format regs 0 0 0;
          nVarint = sqlite3VarintLen (of_nat nHdr); nHdr = nHdr + nVarint;
          nHdr = (if nVarint < sqlite3VarintLen (of_nat nHdr) then nHdr + 1 else nHdr);
          nByte = nat (int (nHdr + nData) - sint nZero) in
      if nByte > limit then Inr TooBig
      else case fresh nByte of None \<Rightarrow> Inr NoMem
        | Some zNewRecord \<Rightarrow>
            bindR (putVarint32 zNewRecord (of_nat nHdr)) (\<lambda>(i, rec).
            bindR (typeLoop file_format rec i ms) (\<lambda>(i, rec).
            bindR (dataLoop file_format rec nByte i ms) (\<lambda>(i, rec).
              let out = pOut\<lparr>vm_z := rec, vm_n := nByte, vm_flags := MEM_Blob OR MEM_Dyn\<rparr> in
              Inr (Made (if nZero \<noteq> 0 then out\<lparr>vm_i := scast nZero, vm_flags := vm_flags out OR MEM_Zero\<rparr> else out))))))"

text \<open>The loop of RecordUnpack with k fields left; m0 is the content of the cells before.\<close>

fun unpackLoop :: "byte list \<Rightarrow> int \<Rightarrow> u32 \<Rightarrow> VdbeMem \<Rightarrow> nat \<Rightarrow> nat \<Rightarrow> int \<Rightarrow> VdbeMem list cres" where
  "unpackLoop aKey nKey szHdr m0 0 idx d = Inr []"
| "unpackLoop aKey nKey szHdr m0 (Suc k) idx d =
     (if idx < unat szHdr
      then bindR (getVarint32 (drop idx aKey)) (\<lambda>(serial_type, n).
        if d \<ge> nKey \<and> sqlite3VdbeSerialTypeLen serial_type > 0 then Inr []
        else if d < 0 then Inl OutOfBounds
        else bindR (sqlite3VdbeSerialGet (drop (nat d) aKey) serial_type (m0\<lparr>vm_flags := 0\<rparr>)) (\<lambda>(m, len).
          bindR (unpackLoop aKey nKey szHdr m0 k (idx + n) (d + int len)) (\<lambda>ms. Inr (m # ms))))
      else Inr [])"

definition sqlite3VdbeRecordUnpack :: "nat \<Rightarrow> int \<Rightarrow> byte list \<Rightarrow> bool \<Rightarrow> VdbeMem \<Rightarrow> VdbeMem list option cres" where
  "sqlite3VdbeRecordUnpack nField nKey aKey memory m0 =
     (if \<not> memory then Inr None
      else bindR (getVarint32 aKey) (\<lambda>(szHdr, idx). bindR (unpackLoop aKey nKey szHdr m0 (nField + 1) idx (sint szHdr)) (\<lambda>ms. Inr (Some ms))))"

subsection \<open>Numbers\<close>

text \<open>The last k bytes of a number, the high byte first.\<close>

fun numBytes :: "nat \<Rightarrow> u64 \<Rightarrow> byte list" where
  "numBytes 0 v = []"
| "numBytes (Suc k) v = numBytes k (drop_bit 8 v) @ [ucast v]"

lemma length_numBytes [simp]: "length (numBytes k v) = k"
  by (induction k arbitrary: v) auto

lemma ucast_low_byte: "(ucast (v AND 0xFF) :: byte) = ucast (v :: u64)"
  by (rule byte_eqI) (auto simp: bit_simps upt_64)

lemma putNumber_ok: "k \<le> length buf \<Longrightarrow> putNumber buf k v = Inr (numBytes k v @ drop k buf)"
proof (induction k arbitrary: buf v)
  case (Suc k)
  have "drop k (buf[k := b]) = b # drop (Suc k) buf" for b
    using Suc.prems by (simp add: drop_update_swap Cons_nth_drop_Suc [symmetric])
  with Suc show ?case by (simp add: wr_def ucast_low_byte)
qed simp

text \<open>A number that fits in k + 1 bits is the sign extension of its low bits.\<close>

lemma signed_small:
  assumes "- (2 ^ k) \<le> sint i" "sint i < 2 ^ k" "k < 63"
  shows "signed_take_bit k i = (i :: u64)"
proof (rule bit_word_eqI)
  fix n assume n: "n < LENGTH(64)"
  have same: "signed_take_bit k (sint i) = sint i"
    using assms by (simp add: signed_take_bit_int_eq_self_iff)
  have "bit (sint i) n = bit (sint i) (min k n)"
    using arg_cong [OF same, of "\<lambda>x. bit x n"] by (simp only: bit_signed_take_bit_iff possible_bit_int simp_thms)
  moreover have "\<not> LENGTH(64) \<le> n" "\<not> LENGTH(64) \<le> min k n" using n by (simp_all add: min_def)
  ultimately have "bit i n = bit i (min k n)" by (simp only: bit_sint_iff simp_thms)
  with n show "bit (signed_take_bit k i) n = bit i n" by (simp add: bit_signed_take_bit_iff)
qed

lemma u_abs: "uint (if sint i < 0 then - i else i) = \<bar>sint i\<bar>" for i :: u64
proof -
  have word: "uint (word_of_int x :: u64) = x" if "0 \<le> x" "x \<le> 2 ^ 63" for x
    using that by (simp add: uint_word_of_int_eq take_bit_int_eq_self_iff)
  have neg: "- i = word_of_int (- sint i)" and pos: "i = word_of_int (sint i)" by simp_all
  have "- (2 ^ 63) \<le> sint i" "sint i < 2 ^ 63" using sint_ge [of i] sint_lt [of i] by simp_all
  then show ?thesis
    using word [of "- sint i", folded neg] word [of "sint i", folded pos] by (cases "sint i < 0") simp_all
qed

lemma word_le_uint: "(u :: u64) \<le> w \<longleftrightarrow> uint u \<le> uint w"
  by (rule word_le_def)

lemma uint_MAX_6BYTE: "uint MAX_6BYTE = 2 ^ 47 - 1"
  by (simp add: MAX_6BYTE_def)

text \<open>The serial type of an integer, by its range.\<close>

definition intType :: "int \<Rightarrow> u64 \<Rightarrow> u32" where
  "intType file_format i =
     (if file_format \<ge> 4 \<and> i = 0 then 8 else if file_format \<ge> 4 \<and> i = 1 then 9
      else if \<bar>sint i\<bar> < 2 ^ 7 then 1 else if \<bar>sint i\<bar> < 2 ^ 15 then 2 else if \<bar>sint i\<bar> < 2 ^ 23 then 3
      else if \<bar>sint i\<bar> < 2 ^ 31 then 4 else if \<bar>sint i\<bar> < 2 ^ 47 then 5 else 6)"

lemma one_bit: "i AND 1 = i \<longleftrightarrow> i = 0 \<or> i = (1 :: u64)"
proof -
  have "i AND 1 = 0 \<or> i AND 1 = 1" by (simp add: and_one_eq mod2_eq_if)
  then show ?thesis by auto
qed

lemma SerialType_int:
  assumes "\<not> has m MEM_Null" "has m MEM_Int"
  shows "sqlite3VdbeSerialType m file_format = intType file_format (vm_i m)"
  using assms u_abs [of "vm_i m"]
  by (auto simp: sqlite3VdbeSerialType_def intType_def Let_def one_bit word_le_uint uint_MAX_6BYTE simp del: uint_le_0_iff)

subsection \<open>Reading a number back\<close>

lemma numBytes_upto:
  "numBytes 1 v = [ucast v]"
  "numBytes 2 v = [ucast (drop_bit 8 v), ucast v]"
  "numBytes 3 v = [ucast (drop_bit 16 v), ucast (drop_bit 8 v), ucast v]"
  "numBytes 4 v = [ucast (drop_bit 24 v), ucast (drop_bit 16 v), ucast (drop_bit 8 v), ucast v]"
  "numBytes 6 v = [ucast (drop_bit 40 v), ucast (drop_bit 32 v), ucast (drop_bit 24 v), ucast (drop_bit 16 v), ucast (drop_bit 8 v), ucast v]"
  "numBytes 8 v = [ucast (drop_bit 56 v), ucast (drop_bit 48 v), ucast (drop_bit 40 v), ucast (drop_bit 32 v),
     ucast (drop_bit 24 v), ucast (drop_bit 16 v), ucast (drop_bit 8 v), ucast v]"
  by (simp_all add: numeral_eq_Suc)

text \<open>The words the reader assembles are the sign extensions of the bytes written.\<close>

definition low4 :: "u64 \<Rightarrow> u32" where
  "low4 v = push_bit 24 (ucast (ucast (drop_bit 24 v) :: byte)) OR push_bit 16 (ucast (ucast (drop_bit 16 v) :: byte))
     OR push_bit 8 (ucast (ucast (drop_bit 8 v) :: byte)) OR ucast (ucast v :: byte)"

lemma low4_eq: "low4 v = ucast v"
  by (rule u32_eqI, erule all_bits [rotated]) (simp add: upt_64 low4_def bit_simps)

lemma sign_1: "scast (ucast v :: byte) = signed_take_bit 7 (v :: u64)"
  by (rule u64_eqI, erule all_bits [rotated]) (simp add: upt_64 bit_simps)

lemma sign_2: "scast (push_bit 8 (scast (ucast (drop_bit 8 v) :: byte)) OR ucast (ucast v :: byte) :: u32) = signed_take_bit 15 (v :: u64)"
  by (rule u64_eqI, erule all_bits [rotated]) (simp add: upt_64 bit_simps)

lemma sign_3:
  "scast (push_bit 16 (scast (ucast (drop_bit 16 v) :: byte)) OR push_bit 8 (ucast (ucast (drop_bit 8 v) :: byte)) OR ucast (ucast v :: byte) :: u32)
     = signed_take_bit 23 (v :: u64)"
  by (rule u64_eqI, erule all_bits [rotated]) (simp add: upt_64 bit_simps)

lemma sign_4: "scast (ucast v :: u32) = signed_take_bit 31 (v :: u64)"
  by (rule u64_eqI, erule all_bits [rotated]) (simp add: upt_64 bit_simps)

lemma sign_6:
  "push_bit 32 (scast (push_bit 8 (scast (ucast (drop_bit 40 v) :: byte)) OR ucast (ucast (drop_bit 32 v) :: byte) :: u32)) OR ucast (ucast v :: u32)
     = signed_take_bit 47 (v :: u64)"
  by (rule u64_eqI, erule all_bits [rotated]) (simp add: upt_64 bit_simps)

lemma sign_8: "push_bit 32 (scast (ucast (drop_bit 32 v) :: u32)) OR ucast (ucast v :: u32) = (v :: u64)"
  by (rule u64_eqI, erule all_bits [rotated]) (simp add: upt_64 bit_simps)

lemma rd_nth: "rd (xs @ t) i = Inr (xs ! i)" if "i < length xs"
  using that by (simp add: rd_def nth_append)

lemma TypeLen_small [simp]:
  "sqlite3VdbeSerialTypeLen 0 = 0" "sqlite3VdbeSerialTypeLen 1 = 1" "sqlite3VdbeSerialTypeLen 2 = 2" "sqlite3VdbeSerialTypeLen 3 = 3"
  "sqlite3VdbeSerialTypeLen 4 = 4" "sqlite3VdbeSerialTypeLen 5 = 6" "sqlite3VdbeSerialTypeLen 6 = 8" "sqlite3VdbeSerialTypeLen 7 = 8"
  "sqlite3VdbeSerialTypeLen 8 = 0" "sqlite3VdbeSerialTypeLen 9 = 0"
  by (simp_all add: sqlite3VdbeSerialTypeLen_def word_le_nat_alt)

lemma fourAt_numBytes:
  "fourAt (numBytes 4 v @ t) 0 = Inr (ucast v)"
  "fourAt (numBytes 6 v @ t) 2 = Inr (ucast v)"
  "fourAt (numBytes 8 v @ t) 0 = Inr (ucast (drop_bit 32 v))"
  "fourAt (numBytes 8 v @ t) 4 = Inr (ucast v)"
  using low4_eq [of v] low4_eq [of "drop_bit 32 v"]
  by (simp_all add: fourAt_def rd_nth numBytes_upto low4_def)

lemma rd_numBytes:
  "rd (numBytes 1 v @ t) 0 = Inr (ucast v)"
  "rd (numBytes 2 v @ t) 0 = Inr (ucast (drop_bit 8 v))" "rd (numBytes 2 v @ t) 1 = Inr (ucast v)"
  "rd (numBytes 3 v @ t) 0 = Inr (ucast (drop_bit 16 v))" "rd (numBytes 3 v @ t) 1 = Inr (ucast (drop_bit 8 v))"
  "rd (numBytes 3 v @ t) 2 = Inr (ucast v)"
  "rd (numBytes 6 v @ t) 0 = Inr (ucast (drop_bit 40 v))" "rd (numBytes 6 v @ t) 1 = Inr (ucast (drop_bit 32 v))"
  by (simp_all add: rd_nth numBytes_upto)

lemma get_small:
  "sqlite3VdbeSerialGet (numBytes 1 v @ t) 1 m = intMem m (signed_take_bit 7 v) 1"
  "sqlite3VdbeSerialGet (numBytes 2 v @ t) 2 m = intMem m (signed_take_bit 15 v) 2"
  "sqlite3VdbeSerialGet (numBytes 3 v @ t) 3 m = intMem m (signed_take_bit 23 v) 3"
  "sqlite3VdbeSerialGet (numBytes 4 v @ t) 4 m = intMem m (signed_take_bit 31 v) 4"
  "sqlite3VdbeSerialGet (numBytes 6 v @ t) 5 m = intMem m (signed_take_bit 47 v) 6"
  "sqlite3VdbeSerialGet (numBytes 8 v @ t) 6 m = intMem m v 8"
  "sqlite3VdbeSerialGet (numBytes 8 v @ t) 7 m =
     Inr (m\<lparr>vm_r := v, vm_flags := if sqlite3IsNaN v then MEM_Null else MEM_Real\<rparr>, 8)"
  by (simp_all add: sqlite3VdbeSerialGet_def fourAt_numBytes rd_numBytes sign_1 sign_2 sign_3 sign_4 sign_6 sign_8 [unfolded sign_4] Let_def
    del: numBytes.simps One_nat_def)

lemma get_int:
  "sqlite3VdbeSerialGet (numBytes (sqlite3VdbeSerialTypeLen (intType f i)) i @ t) (intType f i) m
     = intMem m i (sqlite3VdbeSerialTypeLen (intType f i))"
proof -
  have small: "\<bar>sint i\<bar> < 2 ^ k \<Longrightarrow> k < 63 \<Longrightarrow> signed_take_bit k i = i" for k
    by (rule signed_small) auto
  show ?thesis
    by (simp add: intType_def get_small small del: numBytes.simps One_nat_def) (simp add: sqlite3VdbeSerialGet_def)
qed

subsection \<open>Values\<close>

text \<open>
  What a register stands for. A NaN is NULL; a blob may end in zero bytes that are not stored.
\<close>

datatype sqlval = SNull | SInt u64 | SReal u64 | SText "byte list" | SBlob "byte list"

definition content :: "VdbeMem \<Rightarrow> byte list" where
  "content m = take (vm_n m) (vm_z m) @ (if has m MEM_Zero then replicate (unat (vm_i m)) 0 else [])"

definition sqlValue :: "VdbeMem \<Rightarrow> sqlval" where
  "sqlValue m =
     (if has m MEM_Null then SNull
      else if has m MEM_Int then SInt (vm_i m)
      else if has m MEM_Real then (if sqlite3IsNaN (vm_r m) then SNull else SReal (vm_r m))
      else if has m MEM_Str then SText (content m) else SBlob (content m))"

text \<open>
  A register that the machine keeps: a text or a blob has its bytes and stays below the limit
  of its serial type, and only a blob has a zero tail.
\<close>

definition validMem :: "VdbeMem \<Rightarrow> bool" where
  "validMem m \<longleftrightarrow>
     (has m MEM_Null \<or> has m MEM_Int \<or> has m MEM_Real
      \<or> (has m MEM_Str \<or> has m MEM_Blob) \<and> vm_n m \<le> length (vm_z m) \<and> length (content m) < 2 ^ 30)
     \<and> (has m MEM_Zero \<longrightarrow> has m MEM_Blob \<and> \<not> has m MEM_Null \<and> \<not> has m MEM_Int \<and> \<not> has m MEM_Real)"

definition serialBytes :: "int \<Rightarrow> VdbeMem \<Rightarrow> byte list" where
  "serialBytes file_format m =
     (if has m MEM_Null then []
      else if has m MEM_Int then numBytes (sqlite3VdbeSerialTypeLen (intType file_format (vm_i m))) (vm_i m)
      else if has m MEM_Real then numBytes 8 (vm_r m)
      else content m)"

text \<open>The four kinds of registers, with what the serial type is.\<close>

lemma SerialType_text:
  assumes "\<not> has m MEM_Null" "\<not> has m MEM_Int" "\<not> has m MEM_Real" "validMem m"
  shows "unat (sqlite3VdbeSerialType m f) = 2 * length (content m) + 12 + (if has m MEM_Str then 1 else 0)"
proof -
  have len: "length (content m) = vm_n m + (if has m MEM_Zero then unat (vm_i m) else 0)" "length (content m) < 2 ^ 30"
    using assms by (auto simp: validMem_def content_def)
  have "sqlite3VdbeSerialType m f = of_nat (2 * length (content m) + 12 + (if has m MEM_Str then 1 else 0))"
    using assms(1-3) by (simp add: sqlite3VdbeSerialType_def len(1) algebra_simps)
  moreover have "2 * length (content m) + 12 + (if has m MEM_Str then 1 else 0) < 2 ^ LENGTH(32)"
    using len(2) by simp
  ultimately show ?thesis by (simp only: unat_of_nat mod_less)
qed

lemma SerialType_null: "has m MEM_Null \<Longrightarrow> sqlite3VdbeSerialType m f = 0"
  by (simp add: sqlite3VdbeSerialType_def)

lemma SerialType_real:
  "\<not> has m MEM_Null \<Longrightarrow> \<not> has m MEM_Int \<Longrightarrow> has m MEM_Real \<Longrightarrow> sqlite3VdbeSerialType m f = 7"
  by (simp add: sqlite3VdbeSerialType_def)

lemma TypeLen_text: "12 \<le> unat t \<Longrightarrow> sqlite3VdbeSerialTypeLen t = (unat t - 12) div 2"
  by (simp add: sqlite3VdbeSerialTypeLen_def word_le_nat_alt unat_sub unat_div)

lemma SerialTypeLen_ok:
  assumes "validMem m"
  shows "sqlite3VdbeSerialTypeLen (sqlite3VdbeSerialType m f) = length (serialBytes f m)"
proof -
  consider "has m MEM_Null" | "\<not> has m MEM_Null" "has m MEM_Int" | "\<not> has m MEM_Null" "\<not> has m MEM_Int" "has m MEM_Real"
    | "\<not> has m MEM_Null" "\<not> has m MEM_Int" "\<not> has m MEM_Real" by blast
  then show ?thesis
    using SerialType_text [of m f] assms
    by cases (simp_all add: SerialType_null SerialType_int SerialType_real TypeLen_text serialBytes_def)
qed

text \<open>Writing a value, in full or up to the zero tail, and reading it back.\<close>

lemma SerialPut_ok:
  assumes "validMem m" "nBuf \<le> length buf" "if has m MEM_Zero then vm_n m \<le> nBuf else length (serialBytes f m) \<le> nBuf"
  shows "sqlite3VdbeSerialPut buf nBuf m f =
    Inr (min nBuf (length (serialBytes f m)), take nBuf (serialBytes f m) @ drop (min nBuf (length (serialBytes f m))) buf)"
proof -
  have int: "0 < intType f (vm_i m) \<and> intType f (vm_i m) < 7 \<or>
      intType f (vm_i m) \<in> {8, 9} \<and> sqlite3VdbeSerialTypeLen (intType f (vm_i m)) = 0"
    by (simp add: intType_def)
  consider "has m MEM_Null" | "\<not> has m MEM_Null" "has m MEM_Int" | "\<not> has m MEM_Null" "\<not> has m MEM_Int" "has m MEM_Real"
    | "\<not> has m MEM_Null" "\<not> has m MEM_Int" "\<not> has m MEM_Real" by blast
  then show ?thesis
  proof cases
    case 1
    with assms show ?thesis by (simp add: sqlite3VdbeSerialPut_def SerialType_null serialBytes_def)
  next
    case 2
    with assms int show ?thesis
      by (auto simp: sqlite3VdbeSerialPut_def SerialType_int serialBytes_def validMem_def putNumber_ok Let_def min_def)
  next
    case 3
    with assms show ?thesis
      by (auto simp: sqlite3VdbeSerialPut_def SerialType_real serialBytes_def validMem_def putNumber_ok Let_def min_def simp del: numBytes.simps)
  next
    case 4
    then have t: "12 \<le> sqlite3VdbeSerialType m f" "\<not> sqlite3VdbeSerialType m f \<le> 7"
      using SerialType_text [of m f] assms by (simp_all add: word_le_nat_alt)
    have n: "vm_n m \<le> length (vm_z m)" using 4 assms by (simp add: validMem_def)
    show ?thesis
    proof (cases "has m MEM_Zero")
      case zero: True
      show ?thesis
      proof (cases "vm_n m + unat (vm_i m) \<le> nBuf")
        case True
        then show ?thesis
          using 4 assms n zero by (simp add: sqlite3VdbeSerialPut_def t serialBytes_def content_def putBytes_ok add.commute)
      next
        case False
        then show ?thesis
          using 4 assms n zero by (simp add: sqlite3VdbeSerialPut_def t serialBytes_def content_def putBytes_ok min_def) linarith
      qed
    next
      case False
      then show ?thesis
        using 4 assms n by (simp add: sqlite3VdbeSerialPut_def t serialBytes_def content_def putBytes_ok)
    qed
  qed
qed

lemmas mem_flags = has_def MEM_Null_def MEM_Str_def MEM_Int_def MEM_Real_def MEM_Blob_def MEM_Zero_def MEM_Dyn_def MEM_Ephem_def
  MEM_Static_def MEM_Term_def

lemma SerialGet_text:
  assumes "12 \<le> unat t"
  shows "sqlite3VdbeSerialGet buf t m = Inr (m\<lparr>vm_z := buf, vm_n := (unat t - 12) div 2,
      vm_flags := if odd (unat t) then MEM_Str OR MEM_Ephem else MEM_Blob OR MEM_Ephem\<rparr>, (unat t - 12) div 2)"
proof -
  have ne: "t \<noteq> 0" "t \<noteq> 10" "t \<noteq> 11" "t \<noteq> 1" "t \<noteq> 2" "t \<noteq> 3" "t \<noteq> 4" "t \<noteq> 5" "t \<noteq> 6" "t \<noteq> 7" "t \<noteq> 8" "t \<noteq> 9"
    using assms by auto
  have "12 \<le> t" using assms by (simp add: word_le_nat_alt)
  then have "unat ((t - 12) div 2) = (unat t - 12) div 2" by (simp add: unat_sub unat_div)
  moreover have "t AND 1 \<noteq> 0 \<longleftrightarrow> odd (unat t)" using even_of_nat [of "unat t", where ?'a = "32 word"]
    by (simp add: and_one_eq mod2_eq_if)
  ultimately show ?thesis unfolding sqlite3VdbeSerialGet_def by (simp add: ne Let_def)
qed

lemma sqlValue_read:
  "sqlValue (m\<lparr>vm_z := z, vm_n := n, vm_flags := MEM_Str OR MEM_Ephem\<rparr>) = SText (take n z)"
  "sqlValue (m\<lparr>vm_z := z, vm_n := n, vm_flags := MEM_Blob OR MEM_Ephem\<rparr>) = SBlob (take n z)"
  by (simp_all add: sqlValue_def content_def mem_flags)

lemma SerialGet_ok:
  assumes "validMem m"
  shows "\<exists>m'. sqlite3VdbeSerialGet (serialBytes f m @ t) (sqlite3VdbeSerialType m f) m0 = Inr (m', length (serialBytes f m)) \<and> sqlValue m' = sqlValue m"
proof -
  consider "has m MEM_Null" | "\<not> has m MEM_Null" "has m MEM_Int" | "\<not> has m MEM_Null" "\<not> has m MEM_Int" "has m MEM_Real"
    | "\<not> has m MEM_Null" "\<not> has m MEM_Int" "\<not> has m MEM_Real" by blast
  then show ?thesis
  proof cases
    case 1
    then show ?thesis by (simp add: SerialType_null sqlite3VdbeSerialGet_def sqlValue_def serialBytes_def) (simp add: mem_flags)
  next
    case 2
    then show ?thesis by (simp add: SerialType_int get_int intMem_def sqlValue_def serialBytes_def) (simp add: mem_flags)
  next
    case 3
    then show ?thesis by (simp add: SerialType_real get_small sqlValue_def serialBytes_def del: numBytes.simps) (simp add: mem_flags)
  next
    case 4
    then show ?thesis
      using SerialType_text [of m f] assms
      by (simp add: SerialGet_text sqlValue_read serialBytes_def sqlValue_def [of m])
  qed
qed

subsection \<open>The parts of a record\<close>

definition typeBytes :: "int \<Rightarrow> VdbeMem \<Rightarrow> byte list" where
  "typeBytes f m = varintBytes (ucast (sqlite3VdbeSerialType m f))"

definition typesOf :: "int \<Rightarrow> VdbeMem list \<Rightarrow> byte list" where
  "typesOf f ms = concat (map (typeBytes f) ms)"

definition dataOf :: "int \<Rightarrow> VdbeMem list \<Rightarrow> byte list" where
  "dataOf f ms = concat (map (serialBytes f) ms)"

lemma parts_simps [simp]:
  "typesOf f [] = []" "typesOf f (m # ms) = typeBytes f m @ typesOf f ms"
  "dataOf f [] = []" "dataOf f (m # ms) = serialBytes f m @ dataOf f ms"
  by (simp_all add: typesOf_def dataOf_def)

text \<open>
  The registers that only add zero bytes, and the number of zero bytes at the end of the data
  that need not be stored.
\<close>

definition onlyZeros :: "int \<Rightarrow> VdbeMem list \<Rightarrow> bool" where
  "onlyZeros f ms \<longleftrightarrow> list_all (\<lambda>m. has m MEM_Zero \<or> serialBytes f m = []) ms"

fun tailZeros :: "int \<Rightarrow> VdbeMem list \<Rightarrow> nat" where
  "tailZeros f [] = 0"
| "tailZeros f (m # ms) =
     (if onlyZeros f ms then (if has m MEM_Zero then unat (vm_i m) else 0) + length (dataOf f ms) else tailZeros f ms)"

text \<open>A register as the first loop leaves it: a blob with a zero tail has nothing else.\<close>

definition pureMem :: "VdbeMem \<Rightarrow> bool" where
  "pureMem m \<longleftrightarrow> validMem m \<and> (has m MEM_Zero \<longrightarrow> vm_n m = 0)"

lemma pure_zero: "pureMem m \<Longrightarrow> has m MEM_Zero \<Longrightarrow> serialBytes f m = replicate (unat (vm_i m)) 0"
  by (auto simp: pureMem_def validMem_def serialBytes_def content_def)

lemma pure_zero_len: "pureMem m \<Longrightarrow> has m MEM_Zero \<Longrightarrow> length (serialBytes f m) = unat (vm_i m)"
  by (simp add: pure_zero)

lemma onlyZeros_simps [simp]:
  "onlyZeros f []" "onlyZeros f (m # ms) \<longleftrightarrow> (has m MEM_Zero \<or> serialBytes f m = []) \<and> onlyZeros f ms"
  by (simp_all add: onlyZeros_def)

lemma tailZeros_all: "list_all pureMem ms \<Longrightarrow> onlyZeros f ms \<Longrightarrow> tailZeros f ms = length (dataOf f ms)"
  by (induction ms) (auto simp: pure_zero)

lemma tailZeros_le: "list_all pureMem ms \<Longrightarrow> tailZeros f ms \<le> length (dataOf f ms)"
  by (induction ms) (auto simp: pure_zero)

lemma onlyZeros_data: "list_all pureMem ms \<Longrightarrow> onlyZeros f ms \<Longrightarrow> dataOf f ms = replicate (length (dataOf f ms)) 0"
  by (induction ms) (auto simp: pure_zero replicate_add)

lemma tailZeros_data:
  "list_all pureMem ms \<Longrightarrow> dataOf f ms = take (length (dataOf f ms) - tailZeros f ms) (dataOf f ms) @ replicate (tailZeros f ms) 0"
proof (induction ms)
  case (Cons m ms)
  then have pure: "pureMem m" "list_all pureMem ms" by simp_all
  show ?case
  proof (cases "onlyZeros f ms")
    case True
    note zeros = onlyZeros_data [OF pure(2) True]
    show ?thesis
    proof (cases "has m MEM_Zero")
      case True
      with \<open>onlyZeros f ms\<close> zeros pure show ?thesis by (simp add: pure_zero replicate_add)
    next
      case False
      with \<open>onlyZeros f ms\<close> zeros show ?thesis by simp
    qed
  next
    case False
    with Cons tailZeros_le [OF pure(2), of f] show ?thesis by simp
  qed
qed simp

subsection \<open>The loops of MakeRecord\<close>

text \<open>What the first loop makes of a register when the memory it asks for is there.\<close>

definition expand :: "VdbeMem \<Rightarrow> VdbeMem" where
  "expand m = (if has m MEM_Zero \<and> vm_n m > 0 then sqlite3VdbeMemExpandBlob Grown m else m)"

lemma expand_zero:
  assumes "has m MEM_Zero" "vm_n m > 0"
  shows "has (expand m) MEM_Zero = False" "has (expand m) MEM_Null = has m MEM_Null" "has (expand m) MEM_Int = has m MEM_Int"
    "has (expand m) MEM_Real = has m MEM_Real" "has (expand m) MEM_Str = has m MEM_Str" "has (expand m) MEM_Blob = has m MEM_Blob"
  using assms by (simp_all add: expand_def sqlite3VdbeMemExpandBlob_def mem_flags and.assoc)

lemma expand_same: "\<not> (has m MEM_Zero \<and> vm_n m > 0) \<Longrightarrow> expand m = m"
  by (auto simp: expand_def)

lemma expand_content: "validMem m \<Longrightarrow> content (expand m) = content m"
proof (cases "has m MEM_Zero \<and> vm_n m > 0")
  case True
  assume "validMem m"
  with True have "vm_n m \<le> length (vm_z m)" by (auto simp: validMem_def)
  moreover have "content (expand m) = take (vm_n (expand m)) (vm_z (expand m))"
    using True by (simp add: content_def expand_zero)
  ultimately show ?thesis
    using True by (simp add: content_def expand_def sqlite3VdbeMemExpandBlob_def)
qed (simp add: expand_same)

lemma expand_ok:
  assumes "validMem m"
  shows "pureMem (expand m)" "sqlValue (expand m) = sqlValue m"
proof -
  have "pureMem (expand m) \<and> sqlValue (expand m) = sqlValue m"
  proof (cases "has m MEM_Zero \<and> vm_n m > 0")
    case True
    have "vm_n (expand m) = length (vm_z (expand m))"
      using assms True by (auto simp: validMem_def expand_def sqlite3VdbeMemExpandBlob_def)
    with True assms expand_content [OF assms] show ?thesis
      by (auto simp: pureMem_def validMem_def sqlValue_def expand_zero)
  next
    case False
    with assms show ?thesis by (auto simp: expand_same pureMem_def)
  qed
  then show "pureMem (expand m)" "sqlValue (expand m) = sqlValue m" by simp_all
qed

lemma putVarint32_ok:
  "length (varintBytes (ucast v)) \<le> length p \<Longrightarrow>
   putVarint32 p v = Inr (length (varintBytes (ucast v)), varintBytes (ucast v) @ drop (length (varintBytes (ucast v))) p)"
  by (simp add: putVarint32_fits PutVarint_ok)

lemma split_at: "k \<le> length b \<Longrightarrow> \<exists>b1 b2. b = b1 @ b2 \<and> length b1 = k"
  by (rule exI [of _ "take k b"], rule exI [of _ "drop k b"]) simp

lemma typeLoop_ok:
  "length b = length (typesOf f ms) \<Longrightarrow> typeLoop f (a @ b @ c) (length a) ms = Inr (length a + length b, a @ typesOf f ms @ c)"
proof (induction ms arbitrary: a b)
  case (Cons m ms)
  let ?t = "typeBytes f m"
  from Cons.prems obtain b1 b2 where b: "b = b1 @ b2" "length b1 = length ?t"
    using split_at [of "length ?t" b] by auto
  have "putVarint32 (b @ c) (sqlite3VdbeSerialType m f) = Inr (length ?t, ?t @ b2 @ c)"
    using b by (simp add: putVarint32_ok typeBytes_def)
  then show ?case using Cons.prems Cons.IH [of b2 "a @ ?t"] b by simp
qed simp

lemma dataLoop_ok:
  "list_all pureMem ms \<Longrightarrow> length b = length (dataOf f ms) - tailZeros f ms \<Longrightarrow>
   dataLoop f (a @ b @ c) (length a + length b) (length a) ms = Inr (length a + length b, a @ take (length b) (dataOf f ms) @ c)"
proof (induction ms arbitrary: a b)
  case (Cons m ms)
  let ?s = "serialBytes f m"
  have m: "validMem m" "has m MEM_Zero \<Longrightarrow> vm_n m = 0" "has m MEM_Zero \<Longrightarrow> length ?s = unat (vm_i m)" and ms: "list_all pureMem ms"
    using Cons.prems(1) pure_zero_len [of m f] by (simp_all add: pureMem_def [of m])
  have le: "tailZeros f ms \<le> length (dataOf f ms)" by (rule tailZeros_le [OF ms])
  have fits: "length ?s \<le> length b" if "\<not> has m MEM_Zero" using Cons.prems(2) le that by (cases "onlyZeros f ms") simp_all
  let ?k = "min (length b) (length ?s)"
  have lb: "length b = (if onlyZeros f ms then if has m MEM_Zero then 0 else length ?s else length ?s + (length (dataOf f ms) - tailZeros f ms))"
    using Cons.prems(2) le m(3) by simp
  then have "length (drop ?k b) = length (dataOf f ms) - tailZeros f ms"
    using tailZeros_all [OF ms, of f] by simp
  note IH = Cons.IH [OF ms this, of "a @ take (length b) ?s"]
  have "sqlite3VdbeSerialPut (b @ c) (length b) m f = Inr (?k, take (length b) ?s @ drop ?k b @ c)"
    using SerialPut_ok [of m "length b" "b @ c" f] m(1,2) fits by simp
  moreover have "length (take (length b) ?s) = ?k" by (simp add: min.commute)
  moreover have "take (length b) ?s @ take (length b - ?k) (dataOf f ms) = take (length b) (?s @ dataOf f ms)"
    by (auto simp: min_def)
  ultimately show ?case using IH by simp
qed simp

text \<open>The first loop: the numbers of bytes, and the zero bytes at the end modulo the width of int.\<close>

lemma sizeLoop_ok:
  assumes "list_all (\<lambda>(m, g). validMem m \<and> g = Grown) regs"
  shows "sizeLoop f regs nData nHdr nZero =
    (let ms = map (expand \<circ> fst) regs in
     (ms, nData + length (dataOf f ms), nHdr + length (typesOf f ms),
      if onlyZeros f ms then nZero + of_nat (length (dataOf f ms)) else of_nat (tailZeros f ms)))"
  using assms
proof (induction regs arbitrary: nData nHdr nZero)
  case (Cons r regs)
  obtain m where r: "r = (m, Grown)" and m: "validMem m" and regs: "list_all (\<lambda>(m, g). validMem m \<and> g = Grown) regs"
    using Cons.prems by (cases r) simp
  let ?m = "expand m" and ?ms = "map (expand \<circ> fst) regs"
  note pm = expand_ok(1) [OF m]
  have len: "sqlite3VdbeSerialTypeLen (sqlite3VdbeSerialType ?m f) = length (serialBytes f ?m)"
    using pm by (simp add: pureMem_def SerialTypeLen_ok)
  have types: "sqlite3VarintLen (ucast (sqlite3VdbeSerialType ?m f)) = length (typeBytes f ?m)"
    by (simp add: typeBytes_def VarintLen_ok)
  have zero: "(ucast (vm_i ?m) :: u32) = of_nat (length (serialBytes f ?m))" if "has ?m MEM_Zero"
    using pure_zero_len [OF pm that, of f] by simp
  have pms: "list_all pureMem ?ms"
    using regs by (induction regs) (auto simp: expand_ok)
  have m': "(if has m MEM_Zero \<and> vm_n m > 0 then sqlite3VdbeMemExpandBlob Grown m else m) = ?m"
    by (simp add: expand_def)
  show ?case
    unfolding r sizeLoop.simps m' Let_def len types Cons.IH [OF regs]
    using zero pure_zero_len [OF pm, of f] tailZeros_all [OF pms, of f] by (auto simp: ac_simps unat_eq_zero)
qed simp

subsection \<open>The size of the header\<close>

lemma drop_bit_unat: "drop_bit k v = 0 \<longleftrightarrow> unat v < 2 ^ k" for v :: u64
proof -
  have "drop_bit k v = 0 \<longleftrightarrow> unat (drop_bit k v) = 0" by (simp add: unat_eq_zero)
  also have "unat (drop_bit k v) = unat v div 2 ^ k" by (simp only: unat_drop_bit_eq) (simp only: drop_bit_eq_div)
  also have "unat v div 2 ^ k = 0 \<longleftrightarrow> unat v < 2 ^ k" by (simp add: div_eq_0_iff)
  finally show ?thesis .
qed

lemma VarintLen_bounds:
  assumes "n < 2 ^ 56"
  shows "0 < sqlite3VarintLen (of_nat n)" "n < 2 ^ (7 * sqlite3VarintLen (of_nat n))"
    "sqlite3VarintLen (of_nat n) = 1 \<or> 2 ^ (7 * (sqlite3VarintLen (of_nat n) - 1)) \<le> n"
proof -
  let ?v = "of_nat n :: u64"
  have n: "unat ?v = n" using assms by (simp add: unat_of_nat)
  have "sqlite3VarintLen ?v = length (varintBuf ?v)"
    using assms n varintBuf_pos [of ?v] by (simp add: VarintLen_ok varintBytes_def drop_bit_unat)
  moreover obtain k where k: "length (varintBuf ?v) = Suc k" using varintBuf_pos [of ?v] by (cases "length (varintBuf ?v)") auto
  ultimately show "0 < sqlite3VarintLen ?v" "n < 2 ^ (7 * sqlite3VarintLen ?v)"
    "sqlite3VarintLen ?v = 1 \<or> 2 ^ (7 * (sqlite3VarintLen ?v - 1)) \<le> n"
    using varintBuf_covers [of ?v] varintBuf_minimal [OF k] n by (auto simp: drop_bit_unat)
qed

lemma VarintLen_unique:
  assumes "n < 2 ^ 56" "n < 2 ^ (7 * k)" "0 < k" "k = 1 \<or> 2 ^ (7 * (k - 1)) \<le> n"
  shows "sqlite3VarintLen (of_nat n) = k"
proof -
  let ?l = "sqlite3VarintLen (of_nat n)"
  note b = VarintLen_bounds [OF assms(1)]
  have mono: "\<not> i \<le> j" if "n < 2 ^ (7 * i)" "2 ^ (7 * j) \<le> n" for i j
  proof
    assume "i \<le> j"
    then have "(2 :: nat) ^ (7 * i) \<le> 2 ^ (7 * j)" by (intro power_increasing) simp_all
    with that show False by linarith
  qed
  have "\<not> ?l < k" using mono [of ?l "k - 1"] assms b by auto
  moreover have "\<not> k < ?l" using mono [of k "?l - 1"] assms b by auto
  ultimately show ?thesis by simp
qed

definition headerSize :: "nat \<Rightarrow> nat" where
  "headerSize nHdr =
     (let nVarint = sqlite3VarintLen (of_nat nHdr); nHdr = nHdr + nVarint in
      if nVarint < sqlite3VarintLen (of_nat nHdr) then nHdr + 1 else nHdr)"

text \<open>The header counts its own size, which may make it one byte longer, and once is enough.\<close>

lemma headerSize_ok:
  assumes "n < 2 ^ 31"
  shows "headerSize n = n + sqlite3VarintLen (of_nat (headerSize n))" "headerSize n \<le> n + 10"
proof -
  let ?v = "sqlite3VarintLen (of_nat n)"
  have n: "n < 2 ^ 56" using assms by (rule order.strict_trans) simp
  note b = VarintLen_bounds [OF n]
  have v: "?v \<le> 9" using varintBuf_length_le [of "of_nat n"] by (auto simp: VarintLen_ok varintBytes_def)
  have small: "n + ?v + 1 < 2 ^ 56" using assms v by simp
  have grow: "n + ?v + 1 < 2 ^ (7 * Suc ?v)"
  proof -
    have "(128 :: nat) ^ 1 \<le> 128 ^ ?v" by (rule power_increasing) (use b in auto)
    moreover have "(2 :: nat) ^ (7 * Suc ?v) = 128 * 128 ^ ?v" by (simp only: power_mult power_Suc) simp
    ultimately show ?thesis using b(2) v by (simp add: power_mult del: mult_Suc_right)
  qed
  have "headerSize n = n + sqlite3VarintLen (of_nat (headerSize n)) \<and> headerSize n \<le> n + 10"
  proof (cases "n + ?v < 2 ^ (7 * ?v)")
    case True
    then have "sqlite3VarintLen (of_nat (n + ?v)) = ?v"
      using small b by (intro VarintLen_unique) auto
    then show ?thesis using assms v by (simp add: headerSize_def)
  next
    case False
    then have "sqlite3VarintLen (of_nat (n + ?v)) = Suc ?v" "sqlite3VarintLen (of_nat (n + ?v + 1)) = Suc ?v"
      using small grow by (intro VarintLen_unique; auto)+
    then show ?thesis using assms v by (simp add: headerSize_def)
  qed
  then show "headerSize n = n + sqlite3VarintLen (of_nat (headerSize n))" "headerSize n \<le> n + 10" by simp_all
qed

subsection \<open>Writing a record\<close>

definition recordBytes :: "int \<Rightarrow> VdbeMem list \<Rightarrow> byte list" where
  "recordBytes f ms = varintBytes (of_nat (headerSize (length (typesOf f ms)))) @ typesOf f ms @ dataOf f ms"

lemma ucast_of_nat_u32: "n < 2 ^ 32 \<Longrightarrow> (ucast (of_nat n :: u32) :: u64) = of_nat n"
  by (simp add: unsigned_of_nat take_bit_nat_eq_self)

text \<open>Reading the wrapped number of zero bytes adds a multiple of 2^32 to the size.\<close>

lemma sint_wrap:
  "int n - sint (of_nat n :: u32) = 2 ^ 32 * ((int n + 2 ^ 31) div 2 ^ 32)"
proof -
  have "sint (of_nat n :: u32) = (int n + 2 ^ 31) mod 2 ^ 32 - 2 ^ 31"
    by (simp add: signed_of_nat signed_take_bit_eq_take_bit_shift take_bit_eq_mod)
  then show ?thesis using mult_div_mod_eq [of "2 ^ 32" "int n + 2 ^ 31"] by linarith
qed

lemma sint_count: "n < 2 ^ 31 \<Longrightarrow> sint (of_nat n :: u32) = int n"
  using sint_wrap [of n] by simp

lemma nByte_small:
  assumes "nat (int (a + d) - sint (of_nat z :: u32)) \<le> limit" "limit < 2 ^ 31" "z \<le> d"
  shows "z < 2 ^ 31" "sint (of_nat z :: u32) = int z" "nat (int (a + d) - sint (of_nat z :: u32)) = a + d - z"
proof -
  let ?k = "(int z + 2 ^ 31) div 2 ^ 32"
  have "int (a + d) - sint (of_nat z :: u32) = int (a + d - z) + 2 ^ 32 * ?k"
    using sint_wrap [of z] assms(3) by (simp add: of_nat_diff)
  moreover have "0 \<le> ?k" by simp
  ultimately have "?k = 0" using assms(1,2) by (cases "?k = 0") auto
  then show "z < 2 ^ 31" by (simp add: div_eq_0_iff)
  show "sint (of_nat z :: u32) = int z" using sint_wrap [of z] \<open>?k = 0\<close> by simp
  then show "nat (int (a + d) - sint (of_nat z :: u32)) = a + d - z" using assms(3) by simp
qed

lemma pure_expanded: "list_all (\<lambda>(m, g). validMem m \<and> g = Grown) regs \<Longrightarrow> list_all pureMem (map (expand \<circ> fst) regs)"
  by (induction regs) (auto simp: expand_ok)

text \<open>The register that holds the record, with the zero tail left out.\<close>

lemma sqlValue_blob:
  "sqlValue (p\<lparr>vm_z := z, vm_n := n, vm_flags := MEM_Blob OR MEM_Dyn\<rparr>) = SBlob (take n z)"
  "sqlValue (p\<lparr>vm_z := z, vm_n := n, vm_i := i, vm_flags := (MEM_Blob OR MEM_Dyn) OR MEM_Zero\<rparr>) = SBlob (take n z @ replicate (unat i) 0)"
  by (simp_all add: sqlValue_def content_def mem_flags)

definition madeMem :: "VdbeMem \<Rightarrow> byte list \<Rightarrow> nat \<Rightarrow> u32 \<Rightarrow> VdbeMem" where
  "madeMem p rec nByte nZero =
     (let out = p\<lparr>vm_z := rec, vm_n := nByte, vm_flags := MEM_Blob OR MEM_Dyn\<rparr> in
      if nZero \<noteq> 0 then out\<lparr>vm_i := scast nZero, vm_flags := vm_flags out OR MEM_Zero\<rparr> else out)"

lemma sqlValue_made:
  assumes "t < 2 ^ 31"
  shows "sqlValue (madeMem p z n (of_nat t)) = SBlob (take n z @ replicate t 0)" "vm_n (madeMem p z n w) = n"
proof -
  have t: "unat (of_nat t :: u32) = t" using assms by (simp add: unat_of_nat)
  have s: "sint (of_nat t :: u32) = int t" by (rule sint_count [OF assms])
  have "scast (of_nat t :: u32) = (of_int (sint (of_nat t :: u32)) :: u64)" by (simp only: of_int_sint)
  also have "\<dots> = of_nat t" by (simp only: s of_int_of_nat_eq)
  finally have u: "unat (scast (of_nat t :: u32) :: u64) = t" using assms by (simp add: unat_of_nat)
  have made: "madeMem p z n w = (if w = 0 then p\<lparr>vm_z := z, vm_n := n, vm_flags := MEM_Blob OR MEM_Dyn\<rparr>
      else p\<lparr>vm_z := z, vm_n := n, vm_i := scast w, vm_flags := (MEM_Blob OR MEM_Dyn) OR MEM_Zero\<rparr>)" for w
    by (simp add: madeMem_def Let_def)
  have zero: "t = 0" if "(of_nat t :: u32) = 0" using t that by simp
  show "sqlValue (madeMem p z n (of_nat t)) = SBlob (take n z @ replicate t 0)"
  proof (cases "(of_nat t :: u32) = 0")
    case True
    have "sqlValue (madeMem p z n (of_nat t)) = SBlob (take n z)" unfolding made if_P [OF True] by (rule sqlValue_blob)
    with zero [OF True] show ?thesis by simp
  next
    case False
    then show ?thesis unfolding made by (simp only: if_False sqlValue_blob u)
  qed
  show "vm_n (madeMem p z n w) = n" by (simp add: madeMem_def Let_def)
qed

text \<open>The three passes over the block, one after the other.\<close>

lemma record_written:
  assumes pure: "list_all pureMem ms" and size: "length (typesOf f ms) < 2 ^ 31" and h: "h = headerSize (length (typesOf f ms))"
    and n: "n = h + length (dataOf f ms) - tailZeros f ms" and block: "n \<le> length b"
  shows "\<exists>r. bindR (putVarint32 b (of_nat h)) (\<lambda>(i, rec). bindR (typeLoop f rec i ms) (\<lambda>(i, rec). dataLoop f rec n i ms)) = Inr (n, r)
    \<and> n \<le> length r \<and> take n r @ replicate (tailZeros f ms) 0 = recordBytes f ms"
proof -
  let ?h = "varintBytes (of_nat h)" and ?t = "typesOf f ms" and ?d = "dataOf f ms" and ?k = "length (dataOf f ms) - tailZeros f ms"
  have hs: "length ?h + length ?t = h" and h32: "h < 2 ^ 32"
    using headerSize_ok [OF size, folded h] size by (simp_all add: VarintLen_ok)
  have le: "tailZeros f ms \<le> length ?d" by (rule tailZeros_le [OF pure])
  obtain b0 b' where b0: "b = b0 @ b'" "length b0 = length ?h" using split_at [of "length ?h" b] block n hs le by fastforce
  obtain b1 b'' where b1: "b' = b1 @ b''" "length b1 = length ?t" using split_at [of "length ?t" b'] block n hs le b0 by fastforce
  obtain b2 c where b2: "b'' = b2 @ c" "length b2 = ?k" using split_at [of ?k b''] block n hs le b0 b1 by fastforce
  have 1: "putVarint32 b (of_nat h) = Inr (length ?h, ?h @ b1 @ b2 @ c)"
    using putVarint32_ok [of "of_nat h" b] b0 b1 b2 by (simp add: ucast_of_nat_u32 [OF h32])
  have 2: "typeLoop f (?h @ b1 @ b2 @ c) (length ?h) ms = Inr (length ?h + length b1, ?h @ ?t @ b2 @ c)"
    by (rule typeLoop_ok [OF b1(2)])
  have 3: "dataLoop f (?h @ ?t @ b2 @ c) n (length ?h + length b1) ms = Inr (n, ?h @ ?t @ take ?k ?d @ c)"
    using dataLoop_ok [OF pure b2(2), of "?h @ ?t" c] b1(2) b2(2) n hs le by simp
  have len: "n = length (?h @ ?t @ take ?k ?d)" using n hs le by simp
  have "take n (?h @ ?t @ take ?k ?d @ c) = ?h @ ?t @ take ?k ?d" unfolding len by simp
  then have "take n (?h @ ?t @ take ?k ?d @ c) @ replicate (tailZeros f ms) 0 = recordBytes f ms"
    unfolding recordBytes_def h [symmetric] using tailZeros_data [OF pure, of f, symmetric] by simp
  moreover have "n \<le> length (?h @ ?t @ take ?k ?d @ c)" unfolding len by simp
  ultimately show ?thesis using 1 2 3 by (intro exI [of _ "?h @ ?t @ take ?k ?d @ c"]) simp
qed

lemma MakeRecord_headerSize:
  "OP_MakeRecord f limit fresh p regs =
     (let (ms, nData, nHdr, nZero) = sizeLoop f regs 0 0 0; h = headerSize nHdr; nByte = nat (int (h + nData) - sint nZero) in
      if nByte > limit then Inr TooBig
      else case fresh nByte of None \<Rightarrow> Inr NoMem
        | Some b \<Rightarrow>
            bindR (bindR (putVarint32 b (of_nat h)) (\<lambda>(i, rec). bindR (typeLoop f rec i ms) (\<lambda>(i, rec). dataLoop f rec nByte i ms)))
              (\<lambda>(i, rec). Inr (Made (madeMem p rec nByte nZero))))"
  unfolding OP_MakeRecord_def headerSize_def madeMem_def Let_def
  by (simp add: bindR_def case_prod_beta split: sum.splits option.splits prod.splits)

lemma MakeRecord_ok:
  assumes regs: "list_all (\<lambda>(m, g). validMem m \<and> g = Grown) regs" and fresh: "\<And>n b. fresh n = Some b \<Longrightarrow> n \<le> length b"
    and limit: "limit < 2 ^ 31" and ms: "ms = map (expand \<circ> fst) regs"
    and size: "length (typesOf f ms) < 2 ^ 31" and n: "n = headerSize (length (typesOf f ms)) + length (dataOf f ms) - tailZeros f ms"
  shows "if limit < n \<or> 2 ^ 31 \<le> tailZeros f ms then OP_MakeRecord f limit fresh p regs = Inr TooBig
    else if fresh n = None then OP_MakeRecord f limit fresh p regs = Inr NoMem
    else \<exists>out. OP_MakeRecord f limit fresh p regs = Inr (Made out) \<and> vm_n out = n \<and> sqlValue out = SBlob (recordBytes f ms)"
proof -
  let ?h = "headerSize (length (typesOf f ms))" and ?d = "dataOf f ms" and ?z = "tailZeros f ms"
  let ?nByte = "nat (int (?h + length ?d) - sint (of_nat ?z :: u32))"
  have pure: "list_all pureMem ms" using pure_expanded [OF regs] ms by simp
  have loop: "sizeLoop f regs 0 0 0 = (ms, length ?d, length (typesOf f ms), of_nat ?z)"
    using sizeLoop_ok [OF regs, of f 0 0 0] tailZeros_all [OF pure, of f] ms by (simp add: Let_def)
  note le = tailZeros_le [OF pure, of f]
  note make = MakeRecord_headerSize [of f limit fresh p regs, unfolded loop Let_def prod.case]
  have small: "?nByte = n" if "?z < 2 ^ 31"
    using sint_count [OF that] le n by simp
  show ?thesis
  proof (cases "limit < n \<or> 2 ^ 31 \<le> ?z")
    case True
    then have "limit < ?nByte"
      using small nByte_small(1) [OF _ limit le, of ?h] by (cases "?z < 2 ^ 31") (auto simp: not_less [symmetric])
    with True show ?thesis by (simp only: make if_True simp_thms)
  next
    case False
    then have nb: "?nByte = n" "\<not> limit < n" "?z < 2 ^ 31" using small by auto
    show ?thesis
    proof (cases "fresh n")
      case None
      with False nb show ?thesis by (simp only: make if_False option.case simp_thms if_True)
    next
      case (Some b)
      obtain r where r: "bindR (putVarint32 b (of_nat ?h)) (\<lambda>(i, rec). bindR (typeLoop f rec i ms) (\<lambda>(i, rec). dataLoop f rec n i ms)) = Inr (n, r)"
        "take n r @ replicate ?z 0 = recordBytes f ms"
        using record_written [OF pure size refl n fresh [OF Some]] by blast
      have "OP_MakeRecord f limit fresh p regs = Inr (Made (madeMem p r n (of_nat ?z)))"
        using nb Some r(1) by (simp only: make if_False option.case bindR_simps prod.case)
      with False Some sqlValue_made [OF nb(3), of p r n] r(2) show ?thesis by simp
    qed
  qed
qed

subsection \<open>Reading a record\<close>

lemma getVarint32_bytes: "getVarint32 (varintBytes (ucast t) @ xs) = Inr (t, length (varintBytes (ucast t)))" for t :: u32
proof -
  have "(ucast (ucast t :: u64) :: u32) = t" by (rule bit_word_eqI) (simp add: bit_unsigned_iff)
  then show ?thesis by (simp add: getVarint32_low decode_varintBytes)
qed

lemma typeBytes_pos: "0 < length (typeBytes f m)"
  by (auto simp: typeBytes_def varintBytes_def)

lemma unpackLoop_ok:
  "list_all validMem ms \<Longrightarrow> length ms \<le> k \<Longrightarrow> drop idx rec = typesOf f ms @ rest \<Longrightarrow> drop d rec = dataOf f ms \<Longrightarrow> d \<le> length rec \<Longrightarrow>
   unat szHdr = idx + length (typesOf f ms) \<Longrightarrow>
   \<exists>ms'. unpackLoop rec (int (length rec)) szHdr m0 k idx (int d) = Inr ms' \<and> map sqlValue ms' = map sqlValue ms"
proof (induction ms arbitrary: k idx d)
  case Nil
  then show ?case by (cases k) simp_all
next
  case (Cons m ms)
  obtain k' where k: "k = Suc k'" using Cons.prems(2) by (cases k) auto
  let ?t = "sqlite3VdbeSerialType m f" and ?s = "serialBytes f m"
  obtain m' where m': "sqlite3VdbeSerialGet (?s @ dataOf f ms) ?t (m0\<lparr>vm_flags := 0\<rparr>) = Inr (m', length ?s)" "sqlValue m' = sqlValue m"
    using SerialGet_ok [of m f "dataOf f ms"] Cons.prems(1) by auto
  have idx: "drop (idx + length (typeBytes f m)) rec = typesOf f ms @ rest"
    using arg_cong [OF Cons.prems(3), of "drop (length (typeBytes f m))"] by (simp add: add.commute)
  have d: "drop (d + length ?s) rec = dataOf f ms"
    using arg_cong [OF Cons.prems(4), of "drop (length ?s)"] by (simp add: add.commute)
  have len: "length rec - d = length ?s + length (dataOf f ms)" using arg_cong [OF Cons.prems(4), of length] by simp
  have "d + length ?s \<le> length rec" using len Cons.prems(5) by linarith
  then obtain ms' where ms': "unpackLoop rec (int (length rec)) szHdr m0 k' (idx + length (typeBytes f m)) (int (d + length ?s)) = Inr ms'"
    "map sqlValue ms' = map sqlValue ms"
    using Cons.IH [OF _ _ idx d, of k'] Cons.prems k by auto
  have "\<not> (int d \<ge> int (length rec) \<and> sqlite3VdbeSerialTypeLen ?t > 0)"
    using len Cons.prems(1) by (auto simp: SerialTypeLen_ok)
  moreover have "idx < unat szHdr" using Cons.prems(6) typeBytes_pos [of f m] by simp
  moreover have "getVarint32 (drop idx rec) = Inr (?t, length (typeBytes f m))"
    by (simp add: Cons.prems(3) typeBytes_def getVarint32_bytes)
  ultimately show ?case using m' ms' Cons.prems(4) by (simp add: k)
qed

lemma RecordUnpack_ok:
  assumes valid: "list_all validMem ms" and fields: "length ms \<le> nField + 1" and size: "length (typesOf f ms) < 2 ^ 31 - 32"
  shows "\<exists>ms'. sqlite3VdbeRecordUnpack nField (int (length (recordBytes f ms))) (recordBytes f ms) True m0 = Inr (Some ms')
    \<and> map sqlValue ms' = map sqlValue ms"
proof -
  let ?h = "headerSize (length (typesOf f ms))" and ?rec = "recordBytes f ms"
  have hs: "length (varintBytes (of_nat ?h)) + length (typesOf f ms) = ?h" and h: "?h < 2 ^ 31"
    using headerSize_ok [of "length (typesOf f ms)"] size by (simp_all add: VarintLen_ok)
  have u: "unat (of_nat ?h :: u32) = ?h" and s: "sint (of_nat ?h :: u32) = int ?h"
    using h sint_wrap [of ?h] by (simp_all add: unat_of_nat)
  have get: "getVarint32 ?rec = Inr (of_nat ?h, length (varintBytes (of_nat ?h)))"
    using getVarint32_bytes [of "of_nat ?h" "typesOf f ms @ dataOf f ms"] h by (simp add: recordBytes_def ucast_of_nat_u32)
  obtain ms' where "unpackLoop ?rec (int (length ?rec)) (of_nat ?h) m0 (nField + 1) (length (varintBytes (of_nat ?h))) (int ?h) = Inr ms'"
    "map sqlValue ms' = map sqlValue ms"
    using unpackLoop_ok [OF valid fields, of "length (varintBytes (of_nat ?h))" ?rec f "dataOf f ms" ?h "of_nat ?h" m0] hs u
    by (auto simp: recordBytes_def)
  then show ?thesis by (simp only: sqlite3VdbeRecordUnpack_def get bindR_simps prod.case s) simp
qed

text \<open>The bytes of a record that are stored.\<close>

definition storedSize :: "int \<Rightarrow> VdbeMem list \<Rightarrow> nat" where
  "storedSize f ms = headerSize (length (typesOf f ms)) + length (dataOf f ms) - tailZeros f ms"

lemma typesOf_length: "length (typesOf f ms) \<le> 9 * length ms"
proof (induction ms)
  case (Cons m ms)
  have "length (typeBytes f m) \<le> 9"
    using varintBuf_length_le [of "ucast (sqlite3VdbeSerialType m f)"] by (auto simp: typeBytes_def varintBytes_def)
  with Cons show ?case by simp
qed simp

lemma map_expand_value:
  "list_all (\<lambda>(m, g). validMem m \<and> g = Grown) regs \<Longrightarrow> map (sqlValue \<circ> (expand \<circ> fst)) regs = map (sqlValue \<circ> fst) regs"
  by (induction regs) (auto simp: expand_ok)

lemma pure_valid: "list_all pureMem ms \<Longrightarrow> list_all validMem ms"
  by (auto simp: list_all_iff pureMem_def)

text \<open>A blob whose bytes were lost when it could not be expanded.\<close>

definition lostMem :: "VdbeMem \<Rightarrow> VdbeMem" where
  "lostMem m = m\<lparr>vm_z := [], vm_flags := vm_flags m AND NOT (MEM_Ephem OR MEM_Static)\<rparr>"

lemma has_lostMem:
  "has (lostMem m) MEM_Null = has m MEM_Null" "has (lostMem m) MEM_Int = has m MEM_Int" "has (lostMem m) MEM_Real = has m MEM_Real"
  "has (lostMem m) MEM_Str = has m MEM_Str" "has (lostMem m) MEM_Zero = has m MEM_Zero"
  by (simp_all add: lostMem_def mem_flags and.assoc)

lemma SerialType_lostMem: "sqlite3VdbeSerialType (lostMem m) f = sqlite3VdbeSerialType m f"
  by (simp add: sqlite3VdbeSerialType_def has_lostMem) (simp add: lostMem_def)

lemma SerialPut_lostMem:
  assumes "validMem m" "has m MEM_Zero" "0 < vm_n m"
  shows "sqlite3VdbeSerialPut buf nBuf (lostMem m) f = Inl OutOfBounds"
proof -
  have "\<not> has m MEM_Null" "\<not> has m MEM_Int" "\<not> has m MEM_Real" using assms by (auto simp: validMem_def)
  then have "12 \<le> sqlite3VdbeSerialType m f" "\<not> sqlite3VdbeSerialType m f \<le> 7"
    using SerialType_text [of m f] assms(1) by (simp_all add: word_le_nat_alt)
  with assms show ?thesis by (simp add: sqlite3VdbeSerialPut_def SerialType_lostMem) (simp add: lostMem_def)
qed

subsection \<open>Properties\<close>

text \<open>
  C19: MakeRecord refuses a record whose stored bytes exceed the limit or whose zero tail passes
  2^31 bytes, reports a lack of memory, and otherwise produces a blob from which RecordUnpack
  reads exactly the values of the registers: NULL, integers of every width, floating-point
  numbers, texts and blobs, also blobs with a zero tail, which is not stored when it ends the
  record. No access leaves a block.
\<close>

theorem record_roundtrip:
  assumes regs: "list_all (\<lambda>(m, g). validMem m \<and> g = Grown) regs" and fresh: "\<forall>n b. fresh n = Some b \<longrightarrow> n \<le> length b"
    and limit: "limit < 2 ^ 31" and many: "length regs \<le> 2 ^ 20" "length regs \<le> nField + 1"
  shows "let ms = map (expand \<circ> fst) regs; n = storedSize file_format ms in
    if limit < n \<or> 2 ^ 31 \<le> tailZeros file_format ms then OP_MakeRecord file_format limit fresh p regs = Inr TooBig
    else if fresh n = None then OP_MakeRecord file_format limit fresh p regs = Inr NoMem
    else \<exists>out rec ms'. OP_MakeRecord file_format limit fresh p regs = Inr (Made out) \<and> vm_n out = n \<and> sqlValue out = SBlob rec
      \<and> sqlite3VdbeRecordUnpack nField (int (length rec)) rec True m0 = Inr (Some ms')
      \<and> map sqlValue ms' = map (sqlValue \<circ> fst) regs"
proof -
  let ?ms = "map (expand \<circ> fst) regs"
  have size: "length (typesOf file_format ?ms) < 2 ^ 31 - 32" using typesOf_length [of file_format ?ms] many(1) by simp
  then have size': "length (typesOf file_format ?ms) < 2 ^ 31" by simp
  have valid: "list_all validMem ?ms" by (rule pure_valid [OF pure_expanded [OF regs]])
  obtain ms' where "sqlite3VdbeRecordUnpack nField (int (length (recordBytes file_format ?ms))) (recordBytes file_format ?ms) True m0 = Inr (Some ms')"
    "map sqlValue ms' = map sqlValue ?ms"
    using RecordUnpack_ok [OF valid _ size, of nField m0] many(2) by auto
  with MakeRecord_ok [OF regs _ limit refl size' refl, of fresh p] fresh map_expand_value [OF regs] show ?thesis
    by (auto simp: Let_def storedSize_def [symmetric])
qed

definition sampleRegs :: "(VdbeMem \<times> grow) list" where
  "sampleRegs =
     [(\<lparr>vm_i = 300, vm_r = 0, vm_z = [], vm_n = 0, vm_flags = MEM_Int\<rparr>, Grown),
      (\<lparr>vm_i = 0, vm_r = 0, vm_z = [97, 98, 0], vm_n = 2, vm_flags = MEM_Str OR MEM_Term\<rparr>, Grown),
      (\<lparr>vm_i = 2, vm_r = 0, vm_z = [7], vm_n = 1, vm_flags = MEM_Blob OR MEM_Zero\<rparr>, Grown),
      (\<lparr>vm_i = 5, vm_r = 0, vm_z = [], vm_n = 0, vm_flags = MEM_Blob OR MEM_Zero\<rparr>, Grown)]"

theorem record_roundtrip_witness:
  "\<exists>out rec ms'. OP_MakeRecord 4 100 (\<lambda>n. Some (replicate n 255)) (fst (hd sampleRegs)) sampleRegs = Inr (Made out)
    \<and> vm_n out = 12 \<and> sqlValue out = SBlob rec
    \<and> sqlite3VdbeRecordUnpack 3 (int (length rec)) rec True (fst (hd sampleRegs)) = Inr (Some ms')
    \<and> map sqlValue ms' = [SInt 300, SText [97, 98], SBlob [7, 0, 0], SBlob [0, 0, 0, 0, 0]]"
proof -
  have 1: "list_all (\<lambda>(m, g). validMem m \<and> g = Grown) sampleRegs"
    by (simp add: sampleRegs_def validMem_def content_def mem_flags)
  have 2: "storedSize 4 (map (expand \<circ> fst) sampleRegs) = 12" "tailZeros 4 (map (expand \<circ> fst) sampleRegs) = 5" by code_simp+
  have 3: "map (sqlValue \<circ> fst) sampleRegs = [SInt 300, SText [97, 98], SBlob [7, 0, 0], SBlob [0, 0, 0, 0, 0]]" by code_simp
  have 4: "length sampleRegs = 4" by (simp add: sampleRegs_def)
  show ?thesis
    using record_roundtrip [OF 1, of "\<lambda>n. Some (replicate n 255)" 100 3 4 "fst (hd sampleRegs)" "fst (hd sampleRegs)"]
    by (simp add: 2 3 4 Let_def)
qed

text \<open>
  C20: the serial type of a register is one of the defined types, the constants 0 and 1 only
  from file format 4 on; its length is the number of bytes that writing the value takes, bytes
  behind them are kept, and reading these bytes at that type gives the value back.
\<close>

theorem serial_type_sound:
  assumes "validMem m" "t = sqlite3VdbeSerialType m file_format" "sqlite3VdbeSerialTypeLen t \<le> length buf"
  shows "(\<exists>q m'. sqlite3VdbeSerialPut buf (length buf) m file_format = Inr (sqlite3VdbeSerialTypeLen t, q)
      \<and> drop (sqlite3VdbeSerialTypeLen t) q = drop (sqlite3VdbeSerialTypeLen t) buf
      \<and> sqlite3VdbeSerialGet q t m0 = Inr (m', sqlite3VdbeSerialTypeLen t) \<and> sqlValue m' = sqlValue m)
    \<and> t \<noteq> 10 \<and> t \<noteq> 11 \<and> (file_format < 4 \<longrightarrow> t \<noteq> 8 \<and> t \<noteq> 9)"
proof -
  let ?s = "serialBytes file_format m" and ?t = "sqlite3VdbeSerialType m file_format"
  have len: "sqlite3VdbeSerialTypeLen t = length ?s" using assms by (simp add: SerialTypeLen_ok)
  have n: "vm_n m \<le> length ?s" if "has m MEM_Zero" using assms(1) that by (auto simp: validMem_def serialBytes_def content_def)
  have "sqlite3VdbeSerialPut buf (length buf) m file_format = Inr (length ?s, ?s @ drop (length ?s) buf)"
    using SerialPut_ok [OF assms(1), of "length buf" buf file_format] assms(3) len n order_trans [OF n] by simp
  moreover obtain m' where "sqlite3VdbeSerialGet (?s @ drop (length ?s) buf) ?t m0 = Inr (m', length ?s)" "sqlValue m' = sqlValue m"
    using SerialGet_ok [OF assms(1), of file_format "drop (length ?s) buf" m0] by blast
  moreover have "?t \<noteq> 10 \<and> ?t \<noteq> 11 \<and> (file_format < 4 \<longrightarrow> ?t \<noteq> 8 \<and> ?t \<noteq> 9)"
  proof (cases "has m MEM_Null \<or> has m MEM_Int \<or> has m MEM_Real")
    case True
    then show ?thesis
      by (cases "has m MEM_Null"; cases "has m MEM_Int") (simp_all add: SerialType_null SerialType_int SerialType_real intType_def)
  next
    case False
    with SerialType_text [of m file_format] assms(1) have "12 \<le> unat ?t" by simp
    then show ?thesis by auto
  qed
  ultimately show ?thesis using assms(2) len by simp
qed

theorem serial_type_sound_witness:
  "\<exists>q m'. sqlite3VdbeSerialPut [9, 9, 9] 3 (fst (hd sampleRegs)) 1 = Inr (2, q) \<and> drop 2 q = [9]
    \<and> sqlite3VdbeSerialGet q 2 (fst (hd sampleRegs)) = Inr (m', 2) \<and> sqlValue m' = SInt 300"
proof -
  have 1: "validMem (fst (hd sampleRegs))" by (simp add: sampleRegs_def validMem_def mem_flags)
  have 2: "sqlite3VdbeSerialType (fst (hd sampleRegs)) 1 = 2" "sqlValue (fst (hd sampleRegs)) = SInt 300"
    by (simp_all add: sampleRegs_def sqlite3VdbeSerialType_def sqlValue_def mem_flags)
  show ?thesis using serial_type_sound [OF 1 2(1) [symmetric], of "[9, 9, 9]"] 2(2) by (simp add: numeral_3_eq_3)
qed

text \<open>
  When the memory to expand a blob with a zero tail cannot be had, MakeRecord goes on with
  the register whose bytes are gone and copies from a null pointer.
\<close>

theorem make_record_no_memory:
  assumes "validMem m" "has m MEM_Zero" "0 < vm_n m" "\<forall>n. \<exists>b. fresh n = Some b \<and> n \<le> length b"
    "vm_n m + 20 \<le> limit"
  shows "OP_MakeRecord file_format limit fresh p [(m, NoMalloc)] = Inl OutOfBounds"
proof -
  let ?m = "lostMem m"
  have lost: "sqlite3VdbeMemExpandBlob NoMalloc m = ?m" using assms by (simp add: sqlite3VdbeMemExpandBlob_def lostMem_def)
  have content: "length (content m) = vm_n m + unat (vm_i m)" "length (content m) < 2 ^ 30" "serialBytes file_format m = content m"
    using assms by (auto simp: validMem_def content_def serialBytes_def)
  have i: "sint (ucast (vm_i ?m) :: u32) = int (unat (vm_i m))"
  proof -
    have "unat (vm_i m) < 2 ^ 31" using content by simp
    then have "sint (of_nat (unat (vm_i m)) :: u32) = int (unat (vm_i m))" by (rule sint_count)
    moreover have "(of_nat (unat (vm_i m)) :: u32) = ucast (vm_i ?m)" by (simp add: lostMem_def)
    ultimately show ?thesis by (simp only:)
  qed
  let ?t = "typesOf file_format [m]"
  have loop: "sizeLoop file_format [(m, NoMalloc)] 0 0 0 = ([?m], length (content m), length ?t, ucast (vm_i ?m))"
    using assms content(3) by (simp add: lost SerialType_lostMem SerialTypeLen_ok has_lostMem typeBytes_def VarintLen_ok Let_def)
  have t: "length ?t \<le> 9" using typesOf_length [of file_format "[m]"] by simp
  let ?h = "headerSize (length ?t)" and ?n = "headerSize (length ?t) + vm_n m"
  have hs: "length (varintBytes (of_nat ?h)) + length ?t = ?h" and h: "?h \<le> 19"
    using headerSize_ok [of "length ?t"] t by (simp_all add: VarintLen_ok)
  obtain b where b: "fresh ?n = Some b" "?n \<le> length b" using assms(4) by blast
  obtain b0 b' where b0: "b = b0 @ b'" "length b0 = length (varintBytes (of_nat ?h))"
    using split_at [of "length (varintBytes (of_nat ?h))" b] b hs by fastforce
  obtain b1 c where b1: "b' = b1 @ c" "length b1 = length ?t"
    using split_at [of "length ?t" b'] b b0 hs by fastforce
  have 1: "putVarint32 b (of_nat ?h) = Inr (length b0, varintBytes (of_nat ?h) @ b1 @ c)"
    using putVarint32_ok [of "of_nat ?h" b] b0 b1 h by (simp add: ucast_of_nat_u32)
  have "typesOf file_format [?m] = ?t" by (simp add: typeBytes_def SerialType_lostMem)
  then have 2: "typeLoop file_format (varintBytes (of_nat ?h) @ b1 @ c) (length b0) [?m] = Inr (length b0 + length b1, varintBytes (of_nat ?h) @ ?t @ c)"
    using typeLoop_ok [of b1 file_format "[?m]" "varintBytes (of_nat ?h)" c] b0 b1 by simp
  have 3: "nat (int (?h + length (content m)) - sint (ucast (vm_i ?m) :: u32)) = ?n" "\<not> limit < ?n"
    using i content(1) h assms(5) by simp_all
  show ?thesis
    unfolding MakeRecord_headerSize loop Let_def prod.case 3(1) b(1) if_not_P [OF 3(2)] option.case 1 2 bindR_simps
      dataLoop.simps SerialPut_lostMem [OF assms(1-3)] ..
qed

theorem make_record_no_memory_witness:
  "OP_MakeRecord 4 100 (\<lambda>n. Some (replicate n 255)) (fst (hd sampleRegs)) [(fst (sampleRegs ! 2), NoMalloc)] = Inl OutOfBounds"
  by (rule make_record_no_memory) (simp_all add: sampleRegs_def validMem_def content_def mem_flags)

end
