(* ===== verification/PageFile.thy ===== *)
theory PageFile
  imports BtreePage
begin

text \<open>
  The database file as the B-tree sees it, and the pointer map kept in it (btree.c, btreeInt.h
  and the entry points of pager.c they call). The state holds the content of every page, the
  size of the file, the pages whose change was announced to the pager (bf_touched), and the part
  of BtShared that changes. A page number is a 32-bit word and indexes the pages directly, so that two names of
  one page share its bytes as two MemPage pointers into the page cache do.

  Of the pager the model has what its callers observe: the refusal of page numbers that are
  zero, too big or that of the page with the lock bytes, the limit on the size of the file, and
  the growth of the file when a page beyond its end is written. Every other outcome of a
  request (an I/O error, no memory, a lock) is the head of the schedule bf_errs, 0 for success;
  an empty schedule succeeds. bf_noRead names the pages that are not in the cache and that
  sqlite3PagerDontRollback acts on: acquiring such a page without its content leaves zeros.
  The journal itself is not modelled: whether pager_write records the old content of a page there
  depends on the journal being open and on the page having been in the file when the transaction
  began, and sqlite3PagerDontRollback is the promise that it need not be recorded. Both announce to
  the pager that the page is going to change, which is what bf_touched says of a page.
  The file is not an in-memory database, its size is known, and no error is pending in the
  pager. Reference counts and the mutex are not modelled.

  An operation maps a state to a fault, or to a result code or value with the new state: bindD
  returns early with the code of a call that failed.
\<close>

subsection \<open>State and sequencing\<close>

record BtFile =
  bf_bt :: BtShared
  bf_nTrunc :: u32
  bf_page :: "u32 \<Rightarrow> byte list"
  bf_dbSize :: u32
  bf_mxPgno :: u32
  bf_touched :: "u32 set"
  bf_noRead :: "u32 \<Rightarrow> bool"
  bf_isInit :: "u32 \<Rightarrow> bool"
  bf_pParent :: "u32 \<Rightarrow> u32 option"
  bf_errs :: "int list"

type_synonym 'a db = "BtFile \<Rightarrow> ((int + 'a) \<times> BtFile) cres"

definition SQLITE_CORRUPT :: int where "SQLITE_CORRUPT = 11"
definition SQLITE_FULL :: int where "SQLITE_FULL = 13"

definition retD :: "'a \<Rightarrow> 'a db" where
  "retD x = (\<lambda>s. Inr (Inr x, s))"

definition failD :: "int \<Rightarrow> 'a db" where
  "failD rc = (\<lambda>s. Inr (Inl rc, s))"

definition bindD :: "'a db \<Rightarrow> ('a \<Rightarrow> 'b db) \<Rightarrow> 'b db" where
  "bindD m f = (\<lambda>s. bindR (m s) (\<lambda>(r, s). case r of Inl rc \<Rightarrow> Inr (Inl rc, s) | Inr x \<Rightarrow> f x s))"

definition getD :: "(BtFile \<Rightarrow> 'a) \<Rightarrow> 'a db" where
  "getD f = (\<lambda>s. Inr (Inr (f s), s))"

definition modD :: "(BtFile \<Rightarrow> BtFile) \<Rightarrow> unit db" where
  "modD f = (\<lambda>s. Inr (Inr (), f s))"

text \<open>The bytes of a page: four of them read or written, and a copy between two pages.\<close>

definition get4byte :: "u32 \<Rightarrow> nat \<Rightarrow> u32 db" where
  "get4byte p a = (\<lambda>s. bindR (sqlite3Get4byte (drop a (bf_page s p))) (\<lambda>(v, _). Inr (Inr v, s)))"

definition setPage :: "u32 \<Rightarrow> byte list \<Rightarrow> BtFile \<Rightarrow> BtFile" where
  "setPage p d s = s\<lparr>bf_page := (bf_page s)(p := d)\<rparr>"

definition put4byte :: "u32 \<Rightarrow> nat \<Rightarrow> u32 \<Rightarrow> unit db" where
  "put4byte p a v = (\<lambda>s. bindR (sqlite3Put4byte (drop a (bf_page s p)) v) (\<lambda>q.
     Inr (Inr (), setPage p (take a (bf_page s p) @ q) s)))"

definition memcpyP :: "u32 \<Rightarrow> nat \<Rightarrow> u32 \<Rightarrow> nat \<Rightarrow> int \<Rightarrow> unit db" where
  "memcpyP p a q b n = (\<lambda>s. if n < 0 then Inl OutOfBounds
     else bindR (memcpyB (bf_page s p) a (bf_page s q) b (nat n)) (\<lambda>d. Inr (Inr (), setPage p d s)))"

subsection \<open>The pager\<close>

definition PENDING_BYTE :: nat where "PENDING_BYTE = 0x40000000"

definition PENDING_BYTE_PAGE :: "BtShared \<Rightarrow> u32" where
  "PENDING_BYTE_PAGE bt = of_nat (PENDING_BYTE div bt_pageSize bt + 1)"

definition PAGER_MAX_PGNO :: u32 where "PAGER_MAX_PGNO = 2147483647"

definition sqlite3PagerPagecount :: "BtFile \<Rightarrow> u32" where
  "sqlite3PagerPagecount s =
     (if bf_dbSize s = of_nat (PENDING_BYTE div bt_pageSize (bf_bt s)) then bf_dbSize s + 1 else bf_dbSize s)"

text \<open>The outcome of a request that depends on the system.\<close>

definition request :: "unit db" where
  "request = (\<lambda>s. case bf_errs s of [] \<Rightarrow> Inr (Inr (), s)
     | e # es \<Rightarrow> Inr (if e = 0 then Inr () else Inl e, s\<lparr>bf_errs := es\<rparr>))"

definition pagerAcquire :: "u32 \<Rightarrow> unit db" where
  "pagerAcquire pg = (\<lambda>s.
     if PAGER_MAX_PGNO < pg \<or> pg = 0 \<or> pg = PENDING_BYTE_PAGE (bf_bt s) then failD SQLITE_CORRUPT s
     else bindD request (\<lambda>_ s.
       let nMax = sqlite3PagerPagecount s in
       if nMax < pg \<and> max (bf_mxPgno s) nMax < pg then failD SQLITE_FULL s else retD () s) s)"

text \<open>
  A write that succeeds makes the page dirty, after recording its old content where the journal
  needs it, and the file reaches at least as far as the page.
\<close>

definition pager_write :: "u32 \<Rightarrow> unit db" where
  "pager_write pg = bindD request (\<lambda>_. modD (\<lambda>s.
     let s = s\<lparr>bf_touched := insert pg (bf_touched s)\<rparr> in
     if bf_dbSize s < pg then
       s\<lparr>bf_dbSize := (if pg = of_nat (PENDING_BYTE div bt_pageSize (bf_bt s)) then pg + 1 else pg)\<rparr>
     else s))"

text \<open>
  A page that was acquired without its content and is marked as not needing to be rolled back
  needs no record in the journal and keeps the zeros of the cache; a page that was told not to be
  written is always rolled back from then on.
\<close>

definition sqlite3PagerDontRollback :: "u32 \<Rightarrow> unit db" where
  "sqlite3PagerDontRollback pg = modD (\<lambda>s. if bf_noRead s pg
     then setPage pg (replicate (bt_pageSize (bf_bt s)) 0) (s\<lparr>bf_touched := insert pg (bf_touched s)\<rparr>) else s)"

definition sqlite3PagerDontWrite :: "u32 \<Rightarrow> unit db" where
  "sqlite3PagerDontWrite pg = modD (\<lambda>s. s\<lparr>bf_noRead := (bf_noRead s)(pg := False)\<rparr>)"

subsection \<open>The pointer map\<close>

definition PTRMAP_ROOTPAGE :: byte where "PTRMAP_ROOTPAGE = 1"
definition PTRMAP_FREEPAGE :: byte where "PTRMAP_FREEPAGE = 2"
definition PTRMAP_OVERFLOW1 :: byte where "PTRMAP_OVERFLOW1 = 3"
definition PTRMAP_OVERFLOW2 :: byte where "PTRMAP_OVERFLOW2 = 4"
definition PTRMAP_BTREE :: byte where "PTRMAP_BTREE = 5"

definition ptrmapPageno :: "BtShared \<Rightarrow> u32 \<Rightarrow> u32" where
  "ptrmapPageno bt pg =
     (let nPagesPerMapPage = of_nat (bt_usableSize bt div 5 + 1);
          iPtrMap = (pg - 2) div nPagesPerMapPage;
          ret = iPtrMap * nPagesPerMapPage + 2 in
      if ret = PENDING_BYTE_PAGE bt then ret + 1 else ret)"

definition PTRMAP_PTROFFSET :: "BtShared \<Rightarrow> u32 \<Rightarrow> u32" where
  "PTRMAP_PTROFFSET bt pg = 5 * (pg - ptrmapPageno bt pg - 1)"

definition PTRMAP_ISPAGE :: "BtShared \<Rightarrow> u32 \<Rightarrow> bool" where
  "PTRMAP_ISPAGE bt pg \<longleftrightarrow> ptrmapPageno bt pg = pg"

text \<open>The entry of a page: a byte for the type and four for the parent. The offset is an int.\<close>

definition ptrmapOffset :: "BtShared \<Rightarrow> u32 \<Rightarrow> nat cres" where
  "ptrmapOffset bt key = (let offset = sint (PTRMAP_PTROFFSET bt key) in if offset < 0 then Inl OutOfBounds else Inr (nat offset))"

definition ptrmapPut :: "u32 \<Rightarrow> byte \<Rightarrow> u32 \<Rightarrow> unit db" where
  "ptrmapPut key eType parent = (\<lambda>s.
     if key = 0 then failD SQLITE_CORRUPT s
     else let iPtrmap = ptrmapPageno (bf_bt s) key in
       bindD (pagerAcquire iPtrmap) (\<lambda>_ s.
       bindR (ptrmapOffset (bf_bt s) key) (\<lambda>offset.
       bindR (rd (bf_page s iPtrmap) offset) (\<lambda>t.
       bindD (get4byte iPtrmap (offset + 1)) (\<lambda>v.
         if eType \<noteq> t \<or> v \<noteq> parent then
           bindD (pager_write iPtrmap) (\<lambda>_ s.
           bindR (wr (bf_page s iPtrmap) offset eType) (\<lambda>d. put4byte iPtrmap (offset + 1) parent (setPage iPtrmap d s)))
         else retD ()) s))) s)"

definition ptrmapGet :: "u32 \<Rightarrow> (byte \<times> u32) db" where
  "ptrmapGet key = (\<lambda>s. let iPtrmap = ptrmapPageno (bf_bt s) key in
     bindD (pagerAcquire iPtrmap) (\<lambda>_ s.
     bindR (ptrmapOffset (bf_bt s) key) (\<lambda>offset.
     bindR (rd (bf_page s iPtrmap) offset) (\<lambda>eType.
     bindD (get4byte iPtrmap (offset + 1)) (\<lambda>parent.
       if eType < 1 \<or> 5 < eType then failD SQLITE_CORRUPT else retD (eType, parent)) s))) s)"

subsection \<open>Four bytes of a page\<close>

named_theorems page_words \<open>reading a word of a page after a write\<close>

definition word4 :: "byte list \<Rightarrow> nat \<Rightarrow> u32" where
  "word4 d a = push_bit 24 (ucast (d ! a)) OR push_bit 16 (ucast (d ! (a + 1))) OR push_bit 8 (ucast (d ! (a + 2))) OR ucast (d ! (a + 3))"

definition put4 :: "byte list \<Rightarrow> nat \<Rightarrow> u32 \<Rightarrow> byte list" where
  "put4 d a v = take a d @ fourBytes v @ drop (a + 4) d"

lemma Get4byte_word4: "a + 4 \<le> length d \<Longrightarrow> sqlite3Get4byte (drop a d) = Inr (word4 d a, 4)"
  by (simp add: sqlite3Get4byte_def word4_def)

lemma Put4byte_put4: "a + 4 \<le> length d \<Longrightarrow> sqlite3Put4byte (drop a d) v = Inr (fourBytes v @ drop (a + 4) d)"
  by (simp add: Put4byte_ok add.commute)

lemma length_put4 [simp]: "a + 4 \<le> length d \<Longrightarrow> length (put4 d a v) = length d"
  by (simp add: put4_def fourBytes_def)

lemma put4_nth: "a + 4 \<le> length d \<Longrightarrow> j < a \<or> a + 4 \<le> j \<Longrightarrow> put4 d a v ! j = d ! j"
  by (auto simp: put4_def fourBytes_def nth_append)

lemma word4_agree: "(\<And>j. a \<le> j \<Longrightarrow> j < a + 4 \<Longrightarrow> d ! j = e ! j) \<Longrightarrow> word4 d a = word4 e a"
  by (simp add: word4_def)

lemma word4_put4_same [page_words]: "a + 4 \<le> length d \<Longrightarrow> word4 (put4 d a v) a = v"
proof -
  assume a: "a + 4 \<le> length d"
  then have "drop a (put4 d a v) = fourBytes v @ drop (a + 4) d" by (simp add: put4_def)
  then have "sqlite3Get4byte (drop a (put4 d a v)) = Inr (v, 4)"
    using decode_fourBytes [of v] by (simp add: fourBytes_def)
  with Get4byte_word4 [of a "put4 d a v"] a show ?thesis by simp
qed

lemma word4_put4_other [page_words]: "a + 4 \<le> length d \<Longrightarrow> b + 4 \<le> a \<or> a + 4 \<le> b \<Longrightarrow> word4 (put4 d a v) b = word4 d b"
  by (rule word4_agree) (auto simp: put4_nth)

lemma fourBytes_word4: "a + 4 \<le> length d \<Longrightarrow> fourBytes (word4 d a) = take 4 (drop a d)"
proof -
  assume a: "a + 4 \<le> length d"
  have b: "ucast (drop_bit n (push_bit 24 (ucast (w :: byte)) OR push_bit 16 (ucast (x :: byte)) OR push_bit 8 (ucast (y :: byte)) OR ucast (z :: byte) :: u32))
      = (if n = 24 then w else if n = 16 then x else if n = 8 then y else z)" if "n \<in> {0, 8, 16, 24}" for n w x y z
    using that by (intro bit_word_eqI) (auto simp: bit_simps dest: bit_imp_le_length)
  have "fourBytes (word4 d a) = [d ! a, d ! (a + 1), d ! (a + 2), d ! (a + 3)]"
    using b [of 24] b [of 16] b [of 8] b [of 0] by (simp add: fourBytes_def word4_def)
  also have "\<dots> = take 4 (drop a d)"
    using a by (intro nth_equalityI) (auto simp: less_Suc_eq eval_nat_numeral)
  finally show ?thesis .
qed

lemma memcpyB_put4: "a + 4 \<le> length d \<Longrightarrow> b + 4 \<le> length e \<Longrightarrow> memcpyB d a e b 4 = Inr (put4 d a (word4 e b))"
  by (simp add: memcpyB_def put4_def fourBytes_word4)

subsection \<open>Reasoning about operations\<close>

text \<open>
  runs m s Q E: the operation m does not fault from state s; a value it returns satisfies Q
  with the new state, an error code satisfies E. The rules follow the code; for a page of the
  file the pager changes the schedule and the set of pages announced only.
\<close>

named_theorems runs_intros \<open>rules that follow an operation on the database file\<close>

definition runs :: "'a db \<Rightarrow> BtFile \<Rightarrow> ('a \<Rightarrow> BtFile \<Rightarrow> bool) \<Rightarrow> (int \<Rightarrow> BtFile \<Rightarrow> bool) \<Rightarrow> bool" where
  "runs m s Q E \<longleftrightarrow> (case m s of Inl e \<Rightarrow> False | Inr (Inl rc, t) \<Rightarrow> E rc t | Inr (Inr x, t) \<Rightarrow> Q x t)"

lemma runs_cases:
  assumes "runs m s Q E"
  obtains (err) rc t where "m s = Inr (Inl rc, t)" "E rc t" | (val) x t where "m s = Inr (Inr x, t)" "Q x t"
proof (cases "m s")
  case (Inr y)
  obtain r t where "y = (r, t)" by (cases y)
  with assms Inr that show thesis by (cases r) (auto simp: runs_def)
qed (use assms in \<open>simp add: runs_def\<close>)

lemma runs_mono: "runs m s Q E \<Longrightarrow> (\<And>x t. Q x t \<Longrightarrow> Q' x t) \<Longrightarrow> (\<And>rc t. E rc t \<Longrightarrow> E' rc t) \<Longrightarrow> runs m s Q' E'"
  by (auto simp: runs_def split: sum.splits prod.splits)

lemma runs_ret [runs_intros]: "Q x s \<Longrightarrow> runs (retD x) s Q E"
  by (simp add: runs_def retD_def)

lemma runs_fail [runs_intros]: "E rc s \<Longrightarrow> runs (failD rc) s Q E"
  by (simp add: runs_def failD_def)

lemma runs_getD [runs_intros]: "Q (f s) s \<Longrightarrow> runs (getD f) s Q E"
  by (simp add: runs_def getD_def)

lemma runs_modD [runs_intros]: "Q () (f s) \<Longrightarrow> runs (modD f) s Q E"
  by (simp add: runs_def modD_def)

lemma runs_bind [runs_intros]: "runs m s (\<lambda>x t. runs (f x) t Q E) E \<Longrightarrow> runs (bindD m f) s Q E"
  by (auto simp: runs_def bindD_def bindR_def split: sum.splits prod.splits)

lemma runs_if: "(b \<Longrightarrow> runs m s Q E) \<Longrightarrow> (\<not> b \<Longrightarrow> runs n s Q E) \<Longrightarrow> runs (if b then m else n) s Q E"
  by simp

lemma runs_apply: "m s = n s \<Longrightarrow> runs n s Q E \<Longrightarrow> runs m s Q E"
  by (simp add: runs_def)

lemma runs_get4 [runs_intros]: "a + 4 \<le> length (bf_page s p) \<Longrightarrow> Q (word4 (bf_page s p) a) s \<Longrightarrow> runs (get4byte p a) s Q E"
  by (simp add: runs_def get4byte_def Get4byte_word4)

lemma runs_put4 [runs_intros]:
  "a + 4 \<le> length (bf_page s p) \<Longrightarrow> Q () (setPage p (put4 (bf_page s p) a v) s) \<Longrightarrow> runs (put4byte p a v) s Q E"
  by (simp add: runs_def put4byte_def Put4byte_put4 put4_def)

lemma runs_copy4 [runs_intros]:
  "a + 4 \<le> length (bf_page s p) \<Longrightarrow> b + 4 \<le> length (bf_page s q) \<Longrightarrow>
   Q () (setPage p (put4 (bf_page s p) a (word4 (bf_page s q) b)) s) \<Longrightarrow> runs (memcpyP p a q b 4) s Q E"
  by (simp add: runs_def memcpyP_def memcpyB_put4)

lemma setPage_simps [simp]:
  "bf_page (setPage p d s) = (bf_page s)(p := d)"
  "bf_bt (setPage p d s) = bf_bt s" "bf_nTrunc (setPage p d s) = bf_nTrunc s" "bf_dbSize (setPage p d s) = bf_dbSize s"
  "bf_mxPgno (setPage p d s) = bf_mxPgno s" "bf_touched (setPage p d s) = bf_touched s"
  "bf_noRead (setPage p d s) = bf_noRead s" "bf_errs (setPage p d s) = bf_errs s"
  "bf_isInit (setPage p d s) = bf_isInit s" "bf_pParent (setPage p d s) = bf_pParent s"
  by (simp_all add: setPage_def)

text \<open>The writes to pages are moved outside the other updates of the state.\<close>

lemma setPage_upd [simp]:
  "setPage p d (setPage p d' s) = setPage p d s"
  "(setPage p d s)\<lparr>bf_errs := e\<rparr> = setPage p d (s\<lparr>bf_errs := e\<rparr>)" "(setPage p d s)\<lparr>bf_touched := j\<rparr> = setPage p d (s\<lparr>bf_touched := j\<rparr>)"
  "(setPage p d s)\<lparr>bf_noRead := h\<rparr> = setPage p d (s\<lparr>bf_noRead := h\<rparr>)" "(setPage p d s)\<lparr>bf_isInit := f\<rparr> = setPage p d (s\<lparr>bf_isInit := f\<rparr>)"
  "(setPage p d s)\<lparr>bf_pParent := g\<rparr> = setPage p d (s\<lparr>bf_pParent := g\<rparr>)"
  by (simp_all add: setPage_def)

lemma runs_request [runs_intros]:
  assumes "\<And>e. set e \<subseteq> set (bf_errs s) \<Longrightarrow> Q () (s\<lparr>bf_errs := e\<rparr>)"
    and "\<And>rc e. rc \<in> set (bf_errs s) \<Longrightarrow> rc \<noteq> 0 \<Longrightarrow> set e \<subseteq> set (bf_errs s) \<Longrightarrow> E rc (s\<lparr>bf_errs := e\<rparr>)"
  shows "runs request s Q E"
proof (cases "bf_errs s")
  case Nil
  then have "s\<lparr>bf_errs := []\<rparr> = s" by (metis BtFile.surjective BtFile.update_convs(10))
  with assms(1) [of "[]"] Nil show ?thesis by (simp add: runs_def request_def)
next
  case (Cons e es)
  with assms(1) [of es] assms(2) [of e es] show ?thesis by (auto simp: runs_def request_def)
qed

text \<open>The shape of a database file, the pages in it, and those that hold data.\<close>

definition bt_shape :: "BtShared \<Rightarrow> bool" where
  "bt_shape bt \<longleftrightarrow> 512 \<le> bt_pageSize bt \<and> bt_pageSize bt \<le> 32768 \<and> 500 \<le> bt_usableSize bt \<and> bt_usableSize bt \<le> bt_pageSize bt"

definition page_shape :: "BtFile \<Rightarrow> bool" where
  "page_shape s \<longleftrightarrow> bt_shape (bf_bt s)
     \<and> (\<forall>p. length (bf_page s p) = bt_pageSize (bf_bt s))
     \<and> 1 \<le> bf_dbSize s \<and> bf_dbSize s \<le> PAGER_MAX_PGNO \<and> bf_nTrunc s \<le> sqlite3PagerPagecount s"

definition in_file :: "BtFile \<Rightarrow> u32 \<Rightarrow> bool" where
  "in_file s p \<longleftrightarrow> 1 \<le> p \<and> p \<le> sqlite3PagerPagecount s \<and> p \<noteq> PENDING_BYTE_PAGE (bf_bt s)"

definition regular :: "BtShared \<Rightarrow> u32 \<Rightarrow> bool" where
  "regular bt p \<longleftrightarrow> 2 \<le> p \<and> p \<le> PAGER_MAX_PGNO \<and> p \<noteq> PENDING_BYTE_PAGE bt \<and> (bt_autoVacuum bt \<longrightarrow> \<not> PTRMAP_ISPAGE bt p)"

lemma unat_pending:
  assumes shape: "bt_shape bt"
  shows "unat (PENDING_BYTE_PAGE bt) = PENDING_BYTE div bt_pageSize bt + 1"
    "32768 \<le> PENDING_BYTE div bt_pageSize bt" "PENDING_BYTE div bt_pageSize bt \<le> 2097152"
proof -
  have assms: "512 \<le> bt_pageSize bt" "bt_pageSize bt \<le> 32768" using shape by (auto simp: bt_shape_def)
  have a: "PENDING_BYTE div 32768 \<le> PENDING_BYTE div bt_pageSize bt" using assms by (intro div_le_mono2) auto
  have b: "PENDING_BYTE div bt_pageSize bt \<le> PENDING_BYTE div 512" using assms by (intro div_le_mono2) auto
  show "32768 \<le> PENDING_BYTE div bt_pageSize bt" "PENDING_BYTE div bt_pageSize bt \<le> 2097152" using a b by (simp_all add: PENDING_BYTE_def)
  with unat_of_nat_small [where 'n = 32, of "PENDING_BYTE div bt_pageSize bt + 1"]
  show "unat (PENDING_BYTE_PAGE bt) = PENDING_BYTE div bt_pageSize bt + 1" by (simp add: PENDING_BYTE_PAGE_def)
qed

lemma unat_max_pgno [simp]: "unat PAGER_MAX_PGNO = 2147483647"
  by (simp add: PAGER_MAX_PGNO_def)

lemma unat_pagecount:
  assumes "page_shape s"
  shows "unat (sqlite3PagerPagecount s) = (if unat (bf_dbSize s) = PENDING_BYTE div bt_pageSize (bf_bt s) then unat (bf_dbSize s) + 1 else unat (bf_dbSize s))"
proof -
  let ?P = "PENDING_BYTE div bt_pageSize (bf_bt s)"
  have g: "bt_shape (bf_bt s)" and d: "unat (bf_dbSize s) \<le> 2147483647"
    using assms by (auto simp: page_shape_def word_le_nat_alt)
  have "unat (of_nat ?P :: u32) = ?P" using unat_pending [OF g] by (intro unat_of_nat_small) simp
  then have e: "bf_dbSize s = of_nat ?P \<longleftrightarrow> unat (bf_dbSize s) = ?P" by (simp add: word_unat_eq_iff)
  have "unat (bf_dbSize s + 1) = unat (bf_dbSize s) + 1" using d by (simp add: unat_word_ariths)
  with e show ?thesis by (simp add: sqlite3PagerPagecount_def)
qed

lemma in_file_dbSize:
  assumes "page_shape s" "in_file s p"
  shows "p \<le> bf_dbSize s" "p \<le> PAGER_MAX_PGNO"
proof -
  have g: "bt_shape (bf_bt s)" "unat (bf_dbSize s) \<le> 2147483647" using assms(1) by (auto simp: page_shape_def word_le_nat_alt)
  have "unat p \<noteq> PENDING_BYTE div bt_pageSize (bf_bt s) + 1" using assms(2) unat_pending [OF g(1)] by (auto simp: in_file_def word_unat_eq_iff)
  with assms(2) unat_pagecount [OF assms(1)] have "unat p \<le> unat (bf_dbSize s)" by (auto simp: in_file_def word_le_nat_alt split: if_splits)
  with g(2) show "p \<le> bf_dbSize s" "p \<le> PAGER_MAX_PGNO" by (simp_all add: word_le_nat_alt)
qed

lemma pagecount_bound: "page_shape s \<Longrightarrow> unat (sqlite3PagerPagecount s) \<le> 2147483647"
proof -
  assume s: "page_shape s"
  then have g: "bt_shape (bf_bt s)" "unat (bf_dbSize s) \<le> 2147483647" by (auto simp: page_shape_def word_le_nat_alt)
  from unat_pagecount [OF s] unat_pending [OF g(1)] g(2) show ?thesis by (auto split: if_splits)
qed

lemma runs_write [runs_intros]:
  assumes "page_shape s" "in_file s p"
    and "\<And>e. set e \<subseteq> set (bf_errs s) \<Longrightarrow> Q () (s\<lparr>bf_errs := e, bf_touched := insert p (bf_touched s)\<rparr>)"
    and "\<And>rc e. rc \<in> set (bf_errs s) \<Longrightarrow> rc \<noteq> 0 \<Longrightarrow> set e \<subseteq> set (bf_errs s) \<Longrightarrow> E rc (s\<lparr>bf_errs := e\<rparr>)"
  shows "runs (pager_write p) s Q E"
  unfolding pager_write_def using in_file_dbSize(1) [OF assms(1,2)]
  by (intro runs_intros assms(4)) (simp_all add: Let_def leD assms(3))

lemma runs_acquire [runs_intros]:
  assumes "page_shape s" "in_file s p"
    and "\<And>e. set e \<subseteq> set (bf_errs s) \<Longrightarrow> Q () (s\<lparr>bf_errs := e\<rparr>)"
    and "\<And>rc e. rc \<in> set (bf_errs s) \<Longrightarrow> rc \<noteq> 0 \<Longrightarrow> set e \<subseteq> set (bf_errs s) \<Longrightarrow> E rc (s\<lparr>bf_errs := e\<rparr>)"
  shows "runs (pagerAcquire p) s Q E"
proof -
  let ?n = "bindD request (\<lambda>_ s. let nMax = sqlite3PagerPagecount s in
       if nMax < p \<and> max (bf_mxPgno s) nMax < p then failD SQLITE_FULL s else retD () s)"
  have "pagerAcquire p s = ?n s" using assms(2) in_file_dbSize [OF assms(1,2)] by (auto simp: pagerAcquire_def in_file_def)
  moreover have "runs ?n s Q E"
  proof (intro runs_intros assms(4))
    fix e assume e: "set e \<subseteq> set (bf_errs s)"
    have "sqlite3PagerPagecount (s\<lparr>bf_errs := e\<rparr>) = sqlite3PagerPagecount s" by (simp add: sqlite3PagerPagecount_def)
    with assms(2) assms(3) [OF e] show "runs (\<lambda>s. let nMax = sqlite3PagerPagecount s in
       if nMax < p \<and> max (bf_mxPgno s) nMax < p then failD SQLITE_FULL s else retD () s) (s\<lparr>bf_errs := e\<rparr>) Q E"
      by (auto simp: runs_def retD_def in_file_def Let_def)
  qed auto
  ultimately show ?thesis by (rule runs_apply)
qed

subsection \<open>Entries of the pointer map\<close>

definition mapSpan :: "BtShared \<Rightarrow> nat" where
  "mapSpan bt = bt_usableSize bt div 5 + 1"

text \<open>The page of the map for a page, and the position of its entry there, as naturals.\<close>

lemma unat_ptrmapPageno:
  assumes s: "bt_shape bt" and p: "2 \<le> p" "p \<le> PAGER_MAX_PGNO"
  shows "unat (ptrmapPageno bt p) = (let r = (unat p - 2) div mapSpan bt * mapSpan bt + 2 in if r = unat (PENDING_BYTE_PAGE bt) then r + 1 else r)"
proof -
  define n :: u32 where "n = of_nat (bt_usableSize bt div 5 + 1)"
  let ?n = n and ?r = "(unat p - 2) div mapSpan bt * mapSpan bt + 2"
  have n: "unat ?n = mapSpan bt" unfolding mapSpan_def n_def using s by (intro unat_of_nat_small) (auto simp: bt_shape_def)
  have p2: "2 \<le> unat p" "unat p \<le> 2147483647" using p by (simp_all add: word_le_nat_alt)
  then have "unat (p - 2) = unat p - 2" using p(1) by (simp add: unat_sub)
  then have d: "unat ((p - 2) div ?n) = (unat p - 2) div mapSpan bt" by (simp add: unat_div n)
  have le: "(unat p - 2) div mapSpan bt * mapSpan bt \<le> unat p - 2" by simp
  then have lt: "(unat p - 2) div mapSpan bt * mapSpan bt < 4294967290" using p2 by linarith
  have m: "unat ((p - 2) div ?n * ?n) = (unat p - 2) div mapSpan bt * mapSpan bt"
    using unat_mult_no_wrap [of "(p - 2) div ?n" ?n] lt unfolding d n by simp
  then have r: "unat ((p - 2) div ?n * ?n + 2) = ?r"
    using unat_add_no_wrap [of "(p - 2) div ?n * ?n" 2] lt unfolding m by simp
  have "unat ((p - 2) div ?n * ?n + 2 + 1) = ?r + 1"
    using unat_add_no_wrap [of "(p - 2) div ?n * ?n + 2" 1] lt unfolding r by simp
  with r show ?thesis unfolding ptrmapPageno_def Let_def n_def [symmetric] by (simp add: word_unat_eq_iff)
qed

lemma span_split: "0 < n \<Longrightarrow> (q :: nat) = m div n * n \<Longrightarrow> q \<le> m \<and> m < q + n"
  by (metis div_mod_decomp le_add1 mod_less_divisor nat_add_left_cancel_less)

lemma regular_map:
  assumes s: "bt_shape bt" "bt_autoVacuum bt" and p: "regular bt p"
  shows "unat (ptrmapPageno bt p) < unat p" "unat p < unat (ptrmapPageno bt p) + mapSpan bt" "2 \<le> unat (ptrmapPageno bt p)"
    "unat (ptrmapPageno bt p) \<noteq> unat (PENDING_BYTE_PAGE bt)" "PTRMAP_ISPAGE bt (ptrmapPageno bt p)"
proof -
  let ?n = "mapSpan bt" and ?m = "unat p - 2" and ?P = "unat (PENDING_BYTE_PAGE bt)" and ?q = "ptrmapPageno bt p"
  have p2: "2 \<le> p" "p \<le> PAGER_MAX_PGNO" "unat p \<noteq> ?P" "unat ?q \<noteq> unat p"
    using p s(2) by (auto simp: regular_def PTRMAP_ISPAGE_def word_unat_eq_iff)
  have n: "101 \<le> ?n" using s(1) by (auto simp: mapSpan_def bt_shape_def)
  have u: "2 \<le> unat p" "unat p \<le> 2147483647" using p2(1,2) by (simp_all add: word_le_nat_alt)
  define r where "r = ?m div ?n * ?n"
  have r: "r \<le> ?m" "?m < r + ?n" using span_split [of ?n r ?m] n by (auto simp: r_def)
  have q: "unat ?q = (if r + 2 = ?P then r + 3 else r + 2)" using unat_ptrmapPageno [OF s(1) p2(1,2)] by (simp add: r_def Let_def)
  show lt: "unat ?q < unat p" using q r u p2(3,4) by (auto split: if_splits)
  show "unat p < unat ?q + ?n" "2 \<le> unat ?q" "unat ?q \<noteq> ?P" using q r u by (auto split: if_splits)
  have "2 \<le> ?q" "?q \<le> PAGER_MAX_PGNO" using q lt u by (auto simp: word_le_nat_alt)
  note w = unat_ptrmapPageno [OF s(1) this]
  have e: "(unat ?q - 2) div ?n * ?n = r"
  proof -
    have "(unat ?q - 2) div ?n = r div ?n"
    proof (rule div_nat_eqI)
      have "r div ?n * ?n = r" by (simp add: r_def)
      then show "?n * (r div ?n) \<le> unat ?q - 2" "unat ?q - 2 < ?n * Suc (r div ?n)" using q n by (auto simp: mult.commute)
    qed
    then show ?thesis by (simp add: r_def)
  qed
  from w have "unat (ptrmapPageno bt ?q) = (if r + 2 = ?P then r + 2 + 1 else r + 2)" unfolding e Let_def .
  with q have "unat (ptrmapPageno bt ?q) = unat ?q" by simp
  then show "PTRMAP_ISPAGE bt ?q" by (simp add: PTRMAP_ISPAGE_def word_unat_eq_iff)
qed

definition entryAt :: "BtShared \<Rightarrow> u32 \<Rightarrow> nat" where
  "entryAt bt p = 5 * (unat p - unat (ptrmapPageno bt p) - 1)"

definition entry :: "BtFile \<Rightarrow> u32 \<Rightarrow> byte \<times> u32" where
  "entry s p = (let d = bf_page s (ptrmapPageno (bf_bt s) p); a = entryAt (bf_bt s) p in (d ! a, word4 d (a + 1)))"

definition setEntry :: "byte list \<Rightarrow> nat \<Rightarrow> byte \<Rightarrow> u32 \<Rightarrow> byte list" where
  "setEntry d a t v = put4 (d[a := t]) (a + 1) v"

lemma regular_entry:
  assumes s: "bt_shape bt" "bt_autoVacuum bt" and p: "regular bt p"
  shows "ptrmapOffset bt p = Inr (entryAt bt p)" "entryAt bt p + 5 \<le> bt_usableSize bt"
proof -
  let ?q = "ptrmapPageno bt p" and ?k = "unat p - unat (ptrmapPageno bt p) - 1"
  note m = regular_map [OF s p]
  have k: "unat (p - ?q - 1) = ?k" using m(1) by (simp add: unat_sub word_le_nat_alt)
  have b: "?k + 2 \<le> mapSpan bt" using m(1,2) by simp
  then show f: "entryAt bt p + 5 \<le> bt_usableSize bt" by (simp add: entryAt_def mapSpan_def)
  have lt: "5 * ?k < 4294967296" using f s(1) by (simp add: entryAt_def bt_shape_def)
  have "unat (PTRMAP_PTROFFSET bt p) = 5 * ?k"
    using unat_mult_no_wrap [of 5 "p - ?q - 1"] lt unfolding PTRMAP_PTROFFSET_def k by simp
  then have "sint (PTRMAP_PTROFFSET bt p) = int (entryAt bt p)"
    using f s(1) sint_u32_small [of "PTRMAP_PTROFFSET bt p"] by (simp add: entryAt_def bt_shape_def)
  then show "ptrmapOffset bt p = Inr (entryAt bt p)" by (simp add: ptrmapOffset_def Let_def)
qed

lemma entries_apart:
  assumes s: "bt_shape bt" "bt_autoVacuum bt" and p: "regular bt p" "regular bt q" "p \<noteq> q" "ptrmapPageno bt p = ptrmapPageno bt q"
  shows "entryAt bt p + 5 \<le> entryAt bt q \<or> entryAt bt q + 5 \<le> entryAt bt p"
proof -
  have "unat p \<noteq> unat q" using p(3) by (simp add: word_unat_eq_iff)
  then show ?thesis using regular_map(1) [OF s p(1)] regular_map(1) [OF s p(2)] p(4) unfolding entryAt_def by auto
qed

lemma setEntry_ok:
  assumes "a + 5 \<le> length d"
  shows "length (setEntry d a t v) = length d" "setEntry d a t v ! a = t" "word4 (setEntry d a t v) (a + 1) = v"
    "j < a \<or> a + 5 \<le> j \<Longrightarrow> setEntry d a t v ! j = d ! j"
  using assms by (auto simp: setEntry_def page_words put4_nth)

lemma put4_word4: "a + 4 \<le> length d \<Longrightarrow> put4 d a (word4 d a) = d"
  by (simp add: put4_def fourBytes_word4) (metis append_take_drop_id add.commute drop_drop)

lemma setEntry_same: "a + 5 \<le> length d \<Longrightarrow> setEntry d a (d ! a) (word4 d (a + 1)) = d"
  by (simp add: setEntry_def put4_word4)

lemma entry_setEntry:
  assumes "page_shape s" "bt_autoVacuum (bf_bt s)" "regular (bf_bt s) p" "regular (bf_bt s) q"
    and d: "d = setEntry (bf_page s (ptrmapPageno (bf_bt s) p)) (entryAt (bf_bt s) p) t v"
  shows "entry (setPage (ptrmapPageno (bf_bt s) p) d s) q = (if q = p then (t, v) else entry s q)"
proof -
  let ?bt = "bf_bt s"
  have s: "bt_shape ?bt" "\<And>p. length (bf_page s p) = bt_pageSize ?bt" using assms(1) by (auto simp: page_shape_def)
  have f: "entryAt ?bt p + 5 \<le> length (bf_page s (ptrmapPageno ?bt p))"
    using regular_entry(2) [OF s(1) assms(2,3)] s by (auto simp: bt_shape_def)
  note ok = setEntry_ok [OF f, where t = t and v = v, folded d]
  show ?thesis
  proof (cases "q \<noteq> p \<and> ptrmapPageno ?bt p = ptrmapPageno ?bt q")
    case True
    with entries_apart [OF s(1) assms(2,4,3)] have a: "entryAt ?bt q + 5 \<le> entryAt ?bt p \<or> entryAt ?bt p + 5 \<le> entryAt ?bt q" by auto
    then have "d ! j = bf_page s (ptrmapPageno ?bt p) ! j" if "entryAt ?bt q \<le> j" "j < entryAt ?bt q + 5" for j using that by (intro ok(4)) auto
    then have "d ! entryAt ?bt q = bf_page s (ptrmapPageno ?bt p) ! entryAt ?bt q" "word4 d (entryAt ?bt q + 1) = word4 (bf_page s (ptrmapPageno ?bt p)) (entryAt ?bt q + 1)"
      by (auto intro!: word4_agree)
    with True show ?thesis by (simp add: entry_def Let_def)
  qed (use ok in \<open>auto simp: entry_def Let_def\<close>)
qed

lemma map_page_in_file:
  assumes "page_shape s" "bt_autoVacuum (bf_bt s)" "regular (bf_bt s) p" "in_file s p"
  shows "in_file s (ptrmapPageno (bf_bt s) p)"
proof -
  have s: "bt_shape (bf_bt s)" using assms(1) by (simp add: page_shape_def)
  note m = regular_map [OF s assms(2,3)]
  with assms(4) show ?thesis by (auto simp: in_file_def word_le_nat_alt)
qed

lemma page_shape_upd [simp]:
  "page_shape (s\<lparr>bf_errs := e\<rparr>) = page_shape s" "page_shape (s\<lparr>bf_touched := j\<rparr>) = page_shape s"
  "page_shape (s\<lparr>bf_isInit := f\<rparr>) = page_shape s" "page_shape (s\<lparr>bf_pParent := g\<rparr>) = page_shape s" "page_shape (s\<lparr>bf_noRead := h\<rparr>) = page_shape s"
  "length d = bt_pageSize (bf_bt s) \<Longrightarrow> page_shape s \<Longrightarrow> page_shape (setPage p d s)"
  by (auto simp: page_shape_def sqlite3PagerPagecount_def)

lemma in_file_upd [simp]:
  "in_file (s\<lparr>bf_errs := e\<rparr>) q = in_file s q" "in_file (s\<lparr>bf_touched := j\<rparr>) q = in_file s q"
  "in_file (s\<lparr>bf_isInit := f\<rparr>) q = in_file s q" "in_file (s\<lparr>bf_pParent := g\<rparr>) q = in_file s q" "in_file (s\<lparr>bf_noRead := h\<rparr>) q = in_file s q"
  "in_file (setPage p d s) q = in_file s q"
  by (simp_all add: in_file_def sqlite3PagerPagecount_def)

lemma runs_ptrmapPut:
  assumes s: "page_shape s" "bt_autoVacuum (bf_bt s)" and p: "regular (bf_bt s) p" "in_file s p"
    and ip: "ip = ptrmapPageno (bf_bt s) p" and d: "d = setEntry (bf_page s ip) (entryAt (bf_bt s) p) t v"
    and Q: "\<And>e j. set e \<subseteq> set (bf_errs s) \<Longrightarrow> j = bf_touched s \<and> d = bf_page s ip \<or> j = insert ip (bf_touched s) \<Longrightarrow>
        Q () (setPage ip d (s\<lparr>bf_errs := e, bf_touched := j\<rparr>))"
    and E: "\<And>rc e. rc \<in> set (bf_errs s) \<Longrightarrow> rc \<noteq> 0 \<Longrightarrow> set e \<subseteq> set (bf_errs s) \<Longrightarrow> E rc (s\<lparr>bf_errs := e\<rparr>)"
  shows "runs (ptrmapPut p t v) s Q E"
proof -
  let ?a = "entryAt (bf_bt s) p"
  have b: "bt_shape (bf_bt s)" "length (bf_page s ip) = bt_pageSize (bf_bt s)" using s(1) by (auto simp: page_shape_def)
  note off = regular_entry [OF b(1) s(2) p(1)]
  have f: "?a + 5 \<le> length (bf_page s ip)" using off(2) b by (auto simp: bt_shape_def)
  have i: "in_file s ip" unfolding ip using map_page_in_file [OF s p] .
  have nz: "p \<noteq> 0" using p(2) by (auto simp: in_file_def)
  let ?w = "if t \<noteq> bf_page s ip ! ?a \<or> word4 (bf_page s ip) (?a + 1) \<noteq> v then
      bindD (pager_write ip) (\<lambda>_ s. bindR (wr (bf_page s ip) ?a t) (\<lambda>d. put4byte ip (?a + 1) v (setPage ip d s))) else retD ()"
  let ?n = "bindD (pagerAcquire ip) (\<lambda>_. ?w)"
  have eq: "ptrmapPut p t v s = ?n s"
  proof -
    have "runs (pagerAcquire ip) s (\<lambda>_ u. bf_bt u = bf_bt s \<and> bf_page u = bf_page s) (\<lambda>_ _. True)" by (intro runs_acquire s(1) i) auto
    then show ?thesis
    proof (rule runs_cases)
      fix x u assume u: "pagerAcquire ip s = Inr (Inr x, u)" "bf_bt u = bf_bt s \<and> bf_page u = bf_page s"
      have g: "bindD (get4byte ip (?a + 1)) h u = h (word4 (bf_page s ip) (?a + 1)) u" for h :: "u32 \<Rightarrow> unit db"
        using f u(2) by (simp add: bindD_def get4byte_def Get4byte_word4)
      have r: "rd (bf_page u ip) ?a = Inr (bf_page s ip ! ?a)" using f u(2) by simp
      show ?thesis unfolding ptrmapPut_def Let_def ip [symmetric] bindD_def [of "pagerAcquire ip"] using nz off(1) u(2) g r by (simp add: u(1))
    qed (simp add: ptrmapPut_def nz Let_def ip [symmetric] bindD_def)
  qed
  have "runs ?n s Q E"
  proof (intro runs_intros runs_if s(1) i)
    fix e assume e: "set e \<subseteq> set (bf_errs s)" and "\<not> (t \<noteq> bf_page s ip ! ?a \<or> word4 (bf_page s ip) (?a + 1) \<noteq> v)"
    then have "d = bf_page s ip" using setEntry_same [OF f] d by auto
    with Q [OF e, of "bf_touched s"] show "Q () (s\<lparr>bf_errs := e\<rparr>)" by (simp add: setPage_def)
  next
    fix e e' assume "set e \<subseteq> set (bf_errs s)" "set e' \<subseteq> set (bf_errs (s\<lparr>bf_errs := e\<rparr>))"
    then have e: "set e' \<subseteq> set (bf_errs s)" by auto
    let ?t = "s\<lparr>bf_errs := e, bf_errs := e', bf_touched := insert ip (bf_touched (s\<lparr>bf_errs := e\<rparr>))\<rparr>"
    have "bindR (wr (bf_page ?t ip) ?a t) (\<lambda>d. put4byte ip (?a + 1) v (setPage ip d ?t)) = Inr (Inr (), setPage ip d ?t)"
      using f by (simp add: put4byte_def Put4byte_put4 d setEntry_def put4_def setPage_def)
    with Q [OF e, of "insert ip (bf_touched s)"]
    show "runs (\<lambda>s. bindR (wr (bf_page s ip) ?a t) (\<lambda>d. put4byte ip (?a + 1) v (setPage ip d s))) ?t Q E" by (simp add: runs_def)
  qed (use s(1) i in \<open>auto intro: E\<close>)
  with eq show ?thesis by (rule runs_apply)
qed

lemma runs_ptrmapGet:
  assumes s: "page_shape s" "bt_autoVacuum (bf_bt s)" and p: "regular (bf_bt s) p" "in_file s p"
    and t: "1 \<le> fst (entry s p)" "fst (entry s p) \<le> 5"
    and Q: "\<And>e. set e \<subseteq> set (bf_errs s) \<Longrightarrow> Q (entry s p) (s\<lparr>bf_errs := e\<rparr>)"
    and E: "\<And>rc e. rc \<in> set (bf_errs s) \<Longrightarrow> rc \<noteq> 0 \<Longrightarrow> set e \<subseteq> set (bf_errs s) \<Longrightarrow> E rc (s\<lparr>bf_errs := e\<rparr>)"
  shows "runs (ptrmapGet p) s Q E"
proof -
  let ?a = "entryAt (bf_bt s) p" and ?ip = "ptrmapPageno (bf_bt s) p"
  have b: "bt_shape (bf_bt s)" "length (bf_page s ?ip) = bt_pageSize (bf_bt s)" using s(1) by (auto simp: page_shape_def)
  note off = regular_entry [OF b(1) s(2) p(1)]
  have f: "?a + 5 \<le> length (bf_page s ?ip)" using off(2) b by (auto simp: bt_shape_def)
  have "runs (pagerAcquire ?ip) s (\<lambda>_ u. \<exists>e. set e \<subseteq> set (bf_errs s) \<and> u = s\<lparr>bf_errs := e\<rparr>) E"
    by (intro runs_acquire s(1) map_page_in_file [OF s p] E) auto
  then show ?thesis
  proof (rule runs_cases)
    fix x u assume u: "pagerAcquire ?ip s = Inr (Inr x, u)" "\<exists>e. set e \<subseteq> set (bf_errs s) \<and> u = s\<lparr>bf_errs := e\<rparr>"
    then obtain e where e: "set e \<subseteq> set (bf_errs s)" "u = s\<lparr>bf_errs := e\<rparr>" by blast
    have "ptrmapGet p s = Inr (Inr (entry s p), u)" unfolding ptrmapGet_def bindD_def Let_def u(1)
      using t f off(1) by (simp add: e(2) get4byte_def Get4byte_word4 entry_def Let_def retD_def not_less [symmetric])
    with Q [OF e(1)] show ?thesis by (simp add: runs_def e(2))
  qed (simp add: runs_def ptrmapGet_def bindD_def Let_def)
qed

lemma entry_setPage:
  assumes "page_shape s" "bt_autoVacuum (bf_bt s)" "regular (bf_bt s) q" "p = 1 \<or> regular (bf_bt s) p"
  shows "entry (setPage p d s) q = entry s q"
proof -
  have s: "bt_shape (bf_bt s)" using assms(1) by (simp add: page_shape_def)
  have "ptrmapPageno (bf_bt s) q \<noteq> p"
    using regular_map [OF s assms(2,3)] assms(2,4) by (auto simp: regular_def)
  then show ?thesis by (simp add: entry_def Let_def)
qed

lemma entry_upd [simp]:
  "entry (s\<lparr>bf_errs := e\<rparr>) q = entry s q" "entry (s\<lparr>bf_touched := j\<rparr>) q = entry s q" "entry (s\<lparr>bf_isInit := f\<rparr>) q = entry s q"
  "entry (s\<lparr>bf_pParent := g\<rparr>) q = entry s q" "entry (s\<lparr>bf_noRead := h\<rparr>) q = entry s q"
  by (simp_all add: entry_def)

end
