(* ===== verification/FreeList.thy ===== *)
theory FreeList
  imports PageFile
begin

text \<open>
  The free pages of the database file, allocateBtreePage and freePage of btree.c. The free
  pages form a list of trunk pages that starts at byte 32 of page 1: the first four bytes of a
  trunk hold the next trunk, the next four the number of its leaves, and the leaves follow.
  Byte 36 of page 1 holds the number of free pages, trunks and leaves.

  The search loop follows the links of the file and is an option: it does not end on a file
  whose trunks form a ring. The memory that the cache keeps with a page is the fields bf_isInit
  and bf_pParent of the state. The build does not define SQLITE_SECURE_DELETE, nor does it omit
  auto-vacuum.
\<close>

subsection \<open>Allocation\<close>

datatype trunk_result = Taken u32 | NextTrunk u32

text \<open>The distance of two page numbers, as an int.\<close>

definition absC :: "u32 \<Rightarrow> u32" where
  "absC d = (if sint d < 0 then - d else d)"

fun closestLoop :: "byte list \<Rightarrow> u32 \<Rightarrow> nat \<Rightarrow> nat \<Rightarrow> nat \<Rightarrow> u32 \<Rightarrow> nat cres" where
  "closestLoop d nearby 0 i closest dist = Inr closest"
| "closestLoop d nearby (Suc m) i closest dist =
     bindR (sqlite3Get4byte (drop (8 + i * 4) d)) (\<lambda>(v, _).
       let d2 = absC (v - nearby) in
       if sint d2 < sint dist then closestLoop d nearby m (Suc i) i d2
       else closestLoop d nearby m (Suc i) closest dist)"

definition closestLeaf :: "u32 \<Rightarrow> u32 \<Rightarrow> int \<Rightarrow> nat db" where
  "closestLeaf iTrunk nearby k =
     (if 0 < nearby then bindD (get4byte iTrunk 8) (\<lambda>v s.
        bindR (closestLoop (bf_page s iTrunk) nearby (nat (k - 1)) 1 0 (absC (v - nearby))) (\<lambda>c. retD c s))
      else retD 0)"

text \<open>The three ways a trunk page is used: it is taken itself, the search wants it, or a leaf is taken.\<close>

definition detachLeaf :: "u32 \<Rightarrow> int \<Rightarrow> nat \<Rightarrow> u32 \<Rightarrow> trunk_result db" where
  "detachLeaf iTrunk k closest iPage =
     bindD (getD sqlite3PagerPagecount) (\<lambda>nPage.
       if nPage < iPage then failD SQLITE_CORRUPT
       else
         bindD (if int closest < k - 1 then memcpyP iTrunk (8 + closest * 4) iTrunk (nat (4 + k * 4)) 4 else retD ()) (\<lambda>_.
         bindD (put4byte iTrunk 4 (word_of_int (k - 1))) (\<lambda>_.
         bindD (pagerAcquire iPage) (\<lambda>_.
         bindD (sqlite3PagerDontRollback iPage) (\<lambda>_.
         bindD (pager_write iPage) (\<lambda>_. retD (Taken iPage)))))))"

definition takeLeaf :: "u32 \<Rightarrow> u32 \<Rightarrow> bool \<Rightarrow> int \<Rightarrow> trunk_result db" where
  "takeLeaf iTrunk nearby searchList k =
     bindD (pager_write iTrunk) (\<lambda>_.
     bindD (closestLeaf iTrunk nearby k) (\<lambda>closest.
     bindD (get4byte iTrunk (8 + closest * 4)) (\<lambda>iPage.
       if \<not> searchList \<or> iPage = nearby then detachLeaf iTrunk k closest iPage
       else retD (NextTrunk iTrunk))))"

definition setLink :: "u32 option \<Rightarrow> u32 \<Rightarrow> unit db" where
  "setLink prev iTrunk = (case prev of None \<Rightarrow> memcpyP 1 32 iTrunk 0 4 | Some p \<Rightarrow> memcpyP p 0 iTrunk 0 4)"

definition takeWanted :: "u32 option \<Rightarrow> u32 \<Rightarrow> int \<Rightarrow> unit db" where
  "takeWanted prev iTrunk k =
     bindD (pager_write iTrunk) (\<lambda>_.
       if k = 0 then setLink prev iTrunk
       else
         bindD (get4byte iTrunk 8) (\<lambda>iNewTrunk.
         bindD (pagerAcquire iNewTrunk) (\<lambda>_.
         bindD (pager_write iNewTrunk) (\<lambda>_.
         bindD (memcpyP iNewTrunk 0 iTrunk 0 4) (\<lambda>_.
         bindD (put4byte iNewTrunk 4 (word_of_int (k - 1))) (\<lambda>_.
         bindD (memcpyP iNewTrunk 8 iTrunk 12 ((k - 1) * 4)) (\<lambda>_.
           case prev of None \<Rightarrow> put4byte 1 32 iNewTrunk
           | Some p \<Rightarrow> bindD (pager_write p) (\<lambda>_. put4byte p 0 iNewTrunk))))))))"

definition trunkStep :: "u32 option \<Rightarrow> u32 \<Rightarrow> bool \<Rightarrow> trunk_result db" where
  "trunkStep prev nearby searchList =
     bindD (case prev of Some p \<Rightarrow> get4byte p 0 | None \<Rightarrow> get4byte 1 32) (\<lambda>iTrunk.
     bindD (pagerAcquire iTrunk) (\<lambda>_.
     bindD (get4byte iTrunk 4) (\<lambda>kw.
     bindD (getD (\<lambda>s. int (bt_usableSize (bf_bt s)))) (\<lambda>usable.
       let k = sint kw in
       if k = 0 \<and> \<not> searchList then
         bindD (pager_write iTrunk) (\<lambda>_. bindD (memcpyP 1 32 iTrunk 0 4) (\<lambda>_. retD (Taken iTrunk)))
       else if usable div 4 - 8 < k then failD SQLITE_CORRUPT
       else if searchList \<and> nearby = iTrunk then bindD (takeWanted prev iTrunk k) (\<lambda>_. retD (Taken nearby))
       else takeLeaf iTrunk nearby searchList k))))"

partial_function (option) trunkLoop :: "u32 option \<Rightarrow> u32 \<Rightarrow> bool \<Rightarrow> BtFile \<Rightarrow> ((int + u32) \<times> BtFile) cres option" where
  "trunkLoop prev nearby searchList s = (case trunkStep prev nearby searchList s of
     Inl e \<Rightarrow> Some (Inl e)
   | Inr (Inl rc, s) \<Rightarrow> Some (Inr (Inl rc, s))
   | Inr (Inr (Taken pg), s) \<Rightarrow> Some (Inr (Inr pg, s))
   | Inr (Inr (NextTrunk iTrunk), s) \<Rightarrow> trunkLoop (Some iTrunk) nearby searchList s)"

definition newPageNo :: "BtFile \<Rightarrow> u32" where
  "newPageNo s =
     (let bt = bf_bt s; pend = PENDING_BYTE_PAGE bt;
          pg = sqlite3PagerPagecount s + 1;
          pg = (if bf_nTrunc s \<noteq> 0 then if bf_nTrunc s + 1 = pend then bf_nTrunc s + 1 + 1 else bf_nTrunc s + 1 else pg) in
      if bt_autoVacuum bt \<and> PTRMAP_ISPAGE bt pg then if pg + 1 = pend then pg + 1 + 1 else pg + 1 else pg)"

definition newPage :: "u32 db" where
  "newPage =
     bindD (getD newPageNo) (\<lambda>pg.
     bindD (modD (\<lambda>s. if bf_nTrunc s \<noteq> 0 then s\<lparr>bf_nTrunc := pg\<rparr> else s)) (\<lambda>_.
     bindD (pagerAcquire pg) (\<lambda>_. bindD (pager_write pg) (\<lambda>_. retD pg))))"

text \<open>Whether the whole list is to be searched for the page nearby; then the count is reduced.\<close>

definition beginReuse :: "u32 \<Rightarrow> bool \<Rightarrow> int \<Rightarrow> bool db" where
  "beginReuse nearby exact n =
     bindD (getD sqlite3PagerPagecount) (\<lambda>nPage.
     bindD (if exact \<and> nearby \<le> nPage then bindD (ptrmapGet nearby) (\<lambda>(eType, _). retD (eType = PTRMAP_FREEPAGE)) else retD False) (\<lambda>searchList.
     bindD (pager_write 1) (\<lambda>_.
     bindD (put4byte 1 36 (word_of_int (n - 1))) (\<lambda>_. retD searchList))))"

definition allocateBtreePage :: "u32 \<Rightarrow> bool \<Rightarrow> BtFile \<Rightarrow> ((int + u32) \<times> BtFile) cres option" where
  "allocateBtreePage nearby exact s = (case get4byte 1 36 s of
     Inl e \<Rightarrow> Some (Inl e)
   | Inr (Inl rc, s) \<Rightarrow> Some (Inr (Inl rc, s))
   | Inr (Inr nw, s) \<Rightarrow>
       if 0 < sint nw then (case beginReuse nearby exact (sint nw) s of
           Inl e \<Rightarrow> Some (Inl e)
         | Inr (Inl rc, s) \<Rightarrow> Some (Inr (Inl rc, s))
         | Inr (Inr searchList, s) \<Rightarrow> trunkLoop None nearby searchList s)
       else Some (newPage s))"

subsection \<open>Release\<close>

text \<open>The page becomes the first trunk, a new trunk before a full one, or a leaf of the first trunk.\<close>

definition linkFree :: "u32 \<Rightarrow> u32 \<Rightarrow> BtShared \<Rightarrow> unit db" where
  "linkFree pg n bt =
     (if n = 0 then
        bindD (pager_write pg) (\<lambda>_ s.
        bindR (memsetB (bf_page s pg) 0 8) (\<lambda>d. put4byte 1 32 pg (setPage pg d s)))
      else
        bindD (get4byte 1 32) (\<lambda>iTrunk.
        bindD (pagerAcquire iTrunk) (\<lambda>_.
        bindD (get4byte iTrunk 4) (\<lambda>kw.
          let k = sint kw in
          if int (bt_usableSize bt) div 4 - 8 \<le> k then
            bindD (pager_write pg) (\<lambda>_. bindD (put4byte pg 0 iTrunk) (\<lambda>_. bindD (put4byte pg 4 0) (\<lambda>_. put4byte 1 32 pg)))
          else if k < 0 then failD SQLITE_CORRUPT
          else
            bindD (pager_write iTrunk) (\<lambda>_. bindD (put4byte iTrunk 4 (kw + 1)) (\<lambda>_.
            bindD (put4byte iTrunk (nat (8 + k * 4)) pg) (\<lambda>_. sqlite3PagerDontWrite pg)))))))"

definition freePage :: "u32 \<Rightarrow> unit db" where
  "freePage pg =
     bindD (modD (\<lambda>s. s\<lparr>bf_isInit := (bf_isInit s)(pg := False), bf_pParent := (bf_pParent s)(pg := None)\<rparr>)) (\<lambda>_.
     bindD (pager_write 1) (\<lambda>_.
     bindD (get4byte 1 36) (\<lambda>n.
     bindD (put4byte 1 36 (n + 1)) (\<lambda>_.
     bindD (getD bf_bt) (\<lambda>bt.
     bindD (if bt_autoVacuum bt then ptrmapPut pg PTRMAP_FREEPAGE 0 else retD ()) (\<lambda>_.
     linkFree pg n bt))))))"

subsection \<open>The list as an abstract value\<close>

definition trunk :: "byte list \<Rightarrow> u32 \<Rightarrow> u32 list \<Rightarrow> bool" where
  "trunk d nxt ls \<longleftrightarrow> word4 d 0 = nxt \<and> word4 d 4 = of_nat (length ls) \<and> (\<forall>i < length ls. word4 d (8 + 4 * i) = ls ! i)"

fun trunks :: "(u32 \<Rightarrow> byte list) \<Rightarrow> u32 \<Rightarrow> (u32 \<times> u32 list) list \<Rightarrow> bool" where
  "trunks P p [] \<longleftrightarrow> p = 0"
| "trunks P p ((q, ls) # ts) \<longleftrightarrow> p = q \<and> (\<exists>nxt. trunk (P q) nxt ls \<and> trunks P nxt ts)"

definition pages_of :: "(u32 \<times> u32 list) list \<Rightarrow> u32 list" where
  "pages_of ts = concat (map (\<lambda>(q, ls). q # ls) ts)"

definition limit :: "BtFile \<Rightarrow> u32" where
  "limit s = (if bf_nTrunc s \<noteq> 0 then bf_nTrunc s else sqlite3PagerPagecount s)"

definition data_page :: "BtFile \<Rightarrow> u32 \<Rightarrow> bool" where
  "data_page s p \<longleftrightarrow> regular (bf_bt s) p \<and> p \<le> limit s"

definition free_list :: "BtFile \<Rightarrow> (u32 \<times> u32 list) list \<Rightarrow> bool" where
  "free_list s ts \<longleftrightarrow> word4 (bf_page s 1) 36 = of_nat (length (pages_of ts)) \<and> trunks (bf_page s) (word4 (bf_page s 1) 32) ts
     \<and> distinct (pages_of ts) \<and> (\<forall>(q, ls) \<in> set ts. length ls \<le> bt_usableSize (bf_bt s) div 4 - 8)"

text \<open>
  A well-formed file with the free pages ts and the pages U in use: U maps the number of a page
  in use to its bytes. Page 1 and the pages of the pointer map belong to neither; in a file with
  a pointer map every free page has the entry of a free page.
\<close>

definition file_ok :: "BtFile \<Rightarrow> (u32 \<times> u32 list) list \<Rightarrow> (u32 \<Rightarrow> byte list option) \<Rightarrow> bool" where
  "file_ok s ts U \<longleftrightarrow> page_shape s \<and> free_list s ts \<and> (\<forall>p \<in> set (pages_of ts) \<union> dom U. data_page s p)
     \<and> set (pages_of ts) \<inter> dom U = {} \<and> (\<forall>p d. U p = Some d \<longrightarrow> bf_page s p = d)
     \<and> (bt_autoVacuum (bf_bt s) \<longrightarrow> (\<forall>p \<in> set (pages_of ts). entry s p = (PTRMAP_FREEPAGE, 0)))"

lemma pages_of_simps [simp]:
  "pages_of [] = []" "pages_of ((q, ls) # ts) = q # ls @ pages_of ts" "pages_of (ts @ us) = pages_of ts @ pages_of us"
  by (simp_all add: pages_of_def)

lemma trunks_cong: "(\<And>q. q \<in> set (pages_of ts) \<Longrightarrow> P q = P' q) \<Longrightarrow> trunks P p ts = trunks P' p ts"
  by (induction P p ts rule: trunks.induct) auto

lemma data_page_in_file: "page_shape s \<Longrightarrow> data_page s p \<Longrightarrow> in_file s p"
  by (auto simp: data_page_def in_file_def regular_def limit_def page_shape_def word_le_nat_alt split: if_splits)

lemma data_page_upd [simp]:
  "data_page (s\<lparr>bf_errs := e\<rparr>) q = data_page s q" "data_page (s\<lparr>bf_touched := j\<rparr>) q = data_page s q" "data_page (s\<lparr>bf_isInit := f\<rparr>) q = data_page s q"
  "data_page (s\<lparr>bf_pParent := g\<rparr>) q = data_page s q" "data_page (s\<lparr>bf_noRead := h\<rparr>) q = data_page s q" "data_page (setPage p d s) q = data_page s q"
  by (simp_all add: data_page_def limit_def sqlite3PagerPagecount_def)

lemma pages_bound:
  assumes "distinct xs" "\<And>x. x \<in> set xs \<Longrightarrow> 2 \<le> x \<and> x \<le> PAGER_MAX_PGNO"
  shows "length xs < 2147483647"
proof -
  have "unat ` set xs \<subseteq> {2..2147483647}" using assms(2) by (auto simp: word_le_nat_alt)
  then have "card (unat ` set xs) \<le> card {2..2147483647 :: nat}" by (intro card_mono) auto
  moreover have "card (unat ` set xs) = length xs" using distinct_card [OF assms(1)]
    by (subst card_image) (auto simp: inj_on_def word_unat_eq_iff)
  ultimately show ?thesis by simp
qed

lemma free_count:
  assumes "file_ok s ts U"
  shows "length (pages_of ts) < 2147483647" "word4 (bf_page s 1) 36 = of_nat (length (pages_of ts))"
    "word4 (bf_page s 1) 36 = 0 \<longleftrightarrow> ts = []" "sint (word4 (bf_page s 1) 36) = int (length (pages_of ts))"
proof -
  show l: "length (pages_of ts) < 2147483647" using assms
    by (intro pages_bound) (auto simp: file_ok_def free_list_def data_page_def regular_def)
  show w: "word4 (bf_page s 1) 36 = of_nat (length (pages_of ts))" using assms by (simp add: file_ok_def free_list_def)
  have "word4 (bf_page s 1) 36 = 0 \<longleftrightarrow> length (pages_of ts) = 0" using l unat_of_nat_small [where 'n = 32, of "length (pages_of ts)"]
    by (simp add: w word_unat_eq_iff)
  then show "word4 (bf_page s 1) 36 = 0 \<longleftrightarrow> ts = []" by (cases ts) auto
  show "sint (word4 (bf_page s 1) 36) = int (length (pages_of ts))" using l w sint_of_nat [of "length (pages_of ts)"] by simp
qed

lemma trunk_append:
  assumes "trunk d nxt ls" "8 + 4 * length ls + 4 \<le> length d"
  shows "trunk (put4 (put4 d 4 (of_nat (length ls) + 1)) (8 + 4 * length ls) p) nxt (ls @ [p])"
  using assms by (auto simp: trunk_def page_words nth_append less_Suc_eq_le)

subsection \<open>Releasing a page\<close>

text \<open>
  What an operation leaves alone: the shape of the file; and the content of every page whose change
  was not announced to the pager.
\<close>

definition same_shape :: "BtFile \<Rightarrow> BtFile \<Rightarrow> bool" where
  "same_shape s t \<longleftrightarrow> bf_bt t = bf_bt s \<and> bf_nTrunc t = bf_nTrunc s \<and> bf_dbSize t = bf_dbSize s \<and> set (bf_errs t) \<subseteq> set (bf_errs s)"

definition announced :: "BtFile \<Rightarrow> BtFile \<Rightarrow> bool" where
  "announced s t \<longleftrightarrow> bf_touched s \<subseteq> bf_touched t \<and> (\<forall>q. q \<notin> bf_touched t \<longrightarrow> bf_page t q = bf_page s q)"

lemma data_page_same: "same_shape s t \<Longrightarrow> data_page t p = data_page s p"
  by (simp add: same_shape_def data_page_def limit_def sqlite3PagerPagecount_def)

text \<open>The pointer map entry of the page that is freed; page 1 and the data pages stay.\<close>

definition marked :: "BtFile \<Rightarrow> u32 \<Rightarrow> BtFile \<Rightarrow> bool" where
  "marked s p t \<longleftrightarrow> same_shape s t \<and> announced s t \<and> page_shape t
     \<and> (\<forall>q. q = 1 \<or> regular (bf_bt s) q \<longrightarrow> bf_page t q = bf_page s q)
     \<and> (bt_autoVacuum (bf_bt s) \<longrightarrow> (\<forall>q. regular (bf_bt s) q \<longrightarrow> entry t q = (if q = p then (PTRMAP_FREEPAGE, 0) else entry s q)))"

lemma runs_mark:
  assumes s: "page_shape s" and p: "data_page s p"
    and Q: "\<And>t. marked s p t \<Longrightarrow> Q () t"
    and E: "\<And>rc e. rc \<in> set (bf_errs s) \<Longrightarrow> rc \<noteq> 0 \<Longrightarrow> set e \<subseteq> set (bf_errs s) \<Longrightarrow> E rc (s\<lparr>bf_errs := e\<rparr>)"
  shows "runs (if bt_autoVacuum (bf_bt s) then ptrmapPut p PTRMAP_FREEPAGE 0 else retD ()) s Q E"
proof (rule runs_if)
  assume a: "bt_autoVacuum (bf_bt s)"
  have r: "regular (bf_bt s) p" "in_file s p" using p data_page_in_file [OF s p] by (auto simp: data_page_def)
  let ?ip = "ptrmapPageno (bf_bt s) p"
  have b: "bt_shape (bf_bt s)" "\<And>p. length (bf_page s p) = bt_pageSize (bf_bt s)" using s by (auto simp: page_shape_def)
  note m = regular_map [OF b(1) a r(1)] and w = regular_entry(2) [OF b(1) a r(1)]
  have f: "entryAt (bf_bt s) p + 5 \<le> length (bf_page s ?ip)" using w b by (auto simp: bt_shape_def)
  have i: "q \<noteq> ?ip" if "q = 1 \<or> regular (bf_bt s) q" for q using that m a by (auto simp: regular_def)
  show "runs (ptrmapPut p PTRMAP_FREEPAGE 0) s Q E"
  proof (rule runs_ptrmapPut [OF s a r refl refl])
    fix e j assume e: "set e \<subseteq> set (bf_errs s)"
      and j: "j = bf_touched s \<and> setEntry (bf_page s ?ip) (entryAt (bf_bt s) p) PTRMAP_FREEPAGE 0 = bf_page s ?ip \<or> j = insert ?ip (bf_touched s)"
    let ?s = "s\<lparr>bf_errs := e, bf_touched := j\<rparr>"
    have s': "page_shape ?s" "bt_autoVacuum (bf_bt ?s)" "regular (bf_bt ?s) p" using s a r by simp_all
    have "marked s p (setPage ?ip (setEntry (bf_page s ?ip) (entryAt (bf_bt s) p) PTRMAP_FREEPAGE 0) ?s)"
      unfolding marked_def
    proof (intro conjI allI impI)
      fix q assume "regular (bf_bt s) q"
      then show "entry (setPage ?ip (setEntry (bf_page s ?ip) (entryAt (bf_bt s) p) PTRMAP_FREEPAGE 0) ?s) q = (if q = p then (PTRMAP_FREEPAGE, 0) else entry s q)"
        using entry_setEntry [OF s' _ refl, of q] by simp
    qed (use e j s i setEntry_ok(1) [OF f] b in \<open>auto simp: same_shape_def announced_def\<close>)
    then show "Q () (setPage ?ip (setEntry (bf_page s ?ip) (entryAt (bf_bt s) p) PTRMAP_FREEPAGE 0) ?s)" by (rule Q)
  qed (rule E)
next
  assume "\<not> bt_autoVacuum (bf_bt s)"
  then show "runs (retD ()) s Q E" using s by (intro runs_ret Q) (auto simp: marked_def same_shape_def announced_def)
qed

lemma file_okI:
  assumes ok: "file_ok s ts U" and t: "page_shape t" "same_shape s t" "free_list t us"
    and p: "set (pages_of us) \<subseteq> set (pages_of ts) \<union> dom U" "dom V \<subseteq> set (pages_of ts) \<union> dom U" "set (pages_of us) \<inter> dom V = {}"
    and V: "\<And>p d. V p = Some d \<Longrightarrow> bf_page t p = d"
    and e: "\<And>p. bt_autoVacuum (bf_bt s) \<Longrightarrow> p \<in> set (pages_of us) \<Longrightarrow> entry t p = (PTRMAP_FREEPAGE, 0)"
  shows "file_ok t us V"
proof -
  have "bf_bt t = bf_bt s" using t(2) by (simp add: same_shape_def)
  moreover have "data_page t p" if "p \<in> set (pages_of us) \<union> dom V" for p
  proof -
    have "p \<in> set (pages_of ts) \<union> dom U" using that assms(5,6) by blast
    with ok data_page_same [OF t(2)] show ?thesis by (simp add: file_ok_def)
  qed
  ultimately show ?thesis using t(1,3) p(3) V e by (auto simp: file_ok_def)
qed


text \<open>The three ways the page joins the list, on the bytes of the pages.\<close>

lemma free_list_upd [simp]:
  "free_list (s\<lparr>bf_errs := e\<rparr>) ts = free_list s ts" "free_list (s\<lparr>bf_touched := j\<rparr>) ts = free_list s ts" "free_list (s\<lparr>bf_noRead := h\<rparr>) ts = free_list s ts"
  by (simp_all add: free_list_def)

definition counted :: "BtFile \<Rightarrow> u32 \<Rightarrow> BtFile \<Rightarrow> bool" where
  "counted s p t \<longleftrightarrow> same_shape s t \<and> announced s t \<and> 1 \<in> bf_touched t \<and> page_shape t
     \<and> bf_page t 1 = put4 (bf_page s 1) 36 (word4 (bf_page s 1) 36 + 1)
     \<and> (\<forall>q. regular (bf_bt s) q \<longrightarrow> bf_page t q = bf_page s q)
     \<and> (bt_autoVacuum (bf_bt s) \<longrightarrow> (\<forall>q. regular (bf_bt s) q \<longrightarrow> entry t q = (if q = p then (PTRMAP_FREEPAGE, 0) else entry s q)))"

fun release :: "nat \<Rightarrow> (u32 \<times> u32 list) list \<Rightarrow> u32 \<Rightarrow> (u32 \<times> u32 list) list" where
  "release m [] p = [(p, [])]"
| "release m ((q, ls) # ts) p = (if length ls < m then (q, ls @ [p]) # ts else (p, []) # (q, ls) # ts)"

definition released :: "BtFile \<Rightarrow> (u32 \<times> u32 list) list \<Rightarrow> (u32 \<Rightarrow> byte list option) \<Rightarrow> u32 \<Rightarrow> BtFile \<Rightarrow> bool" where
  "released s ts U p t \<longleftrightarrow> same_shape s t \<and> announced s t \<and> drop 8 (bf_page t p) = drop 8 (bf_page s p)
     \<and> file_ok t (release (bt_usableSize (bf_bt s) div 4 - 8) ts p) (U(p := None))"

lemma set_release: "set (pages_of (release m ts p)) = insert p (set (pages_of ts))"
  by (cases "(m, ts, p)" rule: release.cases) auto

lemma page_one_not_regular [simp]: "\<not> regular bt 1" "regular bt q \<Longrightarrow> q \<noteq> 1" "regular bt q \<Longrightarrow> q \<noteq> 0"
  by (auto simp: regular_def word_le_nat_alt)

lemma drop_put4: "a + 4 \<le> 8 \<Longrightarrow> 8 \<le> length d \<Longrightarrow> drop 8 (put4 d a v) = drop 8 d"
  by (rule nth_equalityI) (auto simp: put4_nth)

lemma releasedI:
  assumes ok: "file_ok s ts U" "p \<in> dom U" and c: "counted s p c" and t: "page_shape t" "same_shape c t" "announced c t" "free_list t us"
    and us: "us = release (bt_usableSize (bf_bt s) div 4 - 8) ts p" and d: "drop 8 (bf_page t p) = drop 8 (bf_page c p)"
    and V: "\<And>q. q \<in> dom U \<Longrightarrow> q \<noteq> p \<Longrightarrow> q \<noteq> 1 \<Longrightarrow> bf_page t q = bf_page c q"
    and e: "\<And>q. bt_autoVacuum (bf_bt s) \<Longrightarrow> regular (bf_bt s) q \<Longrightarrow> entry t q = entry c q"
  shows "released s ts U p t"
proof -
  have sh: "same_shape s t" using c t(2) by (auto simp: counted_def same_shape_def)
  have jr: "announced s t" using c t(3) by (auto simp: counted_def announced_def)
  have reg: "regular (bf_bt s) q" if "q \<in> set (pages_of ts) \<union> dom U" for q using ok(1) that by (auto simp: file_ok_def data_page_def)
  have us': "set (pages_of us) = insert p (set (pages_of ts))" using us set_release by simp
  have dr: "drop 8 (bf_page t p) = drop 8 (bf_page s p)" using d c reg [of p] ok(2) by (simp add: counted_def)
  have "file_ok t us (U(p := None))"
  proof (rule file_okI [OF ok(1) t(1) sh t(4)])
    fix q d assume q: "(U(p := None)) q = Some d"
    then have q': "q \<in> dom U" "q \<noteq> p" "U q = Some d" by (auto split: if_splits)
    with reg [of q] have "q \<noteq> 1" by auto
    with q' V reg c ok(1) show "bf_page t q = d" by (auto simp: counted_def file_ok_def)
  next
    fix q assume q: "bt_autoVacuum (bf_bt s)" "q \<in> set (pages_of us)"
    then have "q \<in> set (pages_of ts) \<union> dom U" using us' ok(2) by auto
    with e [OF q(1)] reg c q us' ok(1) show "entry t q = (PTRMAP_FREEPAGE, 0)" by (auto simp: counted_def file_ok_def)
  qed (use us' ok in \<open>auto simp: file_ok_def\<close>)
  with sh jr us dr show ?thesis by (auto simp: released_def)
qed

lemma counted_facts:
  assumes ok: "file_ok s ts U" "p \<in> dom U" and c: "counted s p c"
  shows "regular (bf_bt s) p" "page_shape c" "bf_bt c = bf_bt s" "length (bf_page c q) = bt_pageSize (bf_bt s)" "length (bf_page s q) = bt_pageSize (bf_bt s)"
    "512 \<le> bt_pageSize (bf_bt s)" "word4 (bf_page c 1) 36 = of_nat (length (pages_of ts)) + 1" "word4 (bf_page c 1) 32 = word4 (bf_page s 1) 32"
    "p \<notin> set (pages_of ts)" "q \<in> set (pages_of ts) \<Longrightarrow> regular (bf_bt s) q" "q \<in> set (pages_of ts) \<Longrightarrow> bf_page c q = bf_page s q"
proof -
  have s: "page_shape s" using ok(1) by (simp add: file_ok_def)
  show "regular (bf_bt s) p" "p \<notin> set (pages_of ts)" using ok by (auto simp: file_ok_def data_page_def)
  show "page_shape c" "bf_bt c = bf_bt s" using c by (auto simp: counted_def same_shape_def)
  then show l: "length (bf_page c q) = bt_pageSize (bf_bt s)" "length (bf_page s q) = bt_pageSize (bf_bt s)" "512 \<le> bt_pageSize (bf_bt s)" for q
    using s by (auto simp: page_shape_def bt_shape_def)
  show r: "regular (bf_bt s) q" if "q \<in> set (pages_of ts)" for q using ok(1) that by (auto simp: file_ok_def data_page_def)
  then show "bf_page c q = bf_page s q" if "q \<in> set (pages_of ts)" for q using c that by (auto simp: counted_def)
  show "word4 (bf_page c 1) 36 = of_nat (length (pages_of ts)) + 1" "word4 (bf_page c 1) 32 = word4 (bf_page s 1) 32"
    using c l free_count(2) [OF ok(1)] by (auto simp: counted_def page_words)
qed

lemma link_first:
  assumes ok: "file_ok s [] U" "p \<in> dom U" and c: "counted s p c" and e: "set e \<subseteq> set (bf_errs c)"
  shows "released s [] U p (setPage 1 (put4 (bf_page c 1) 32 p) (setPage p (put4 (put4 (bf_page c p) 0 0) 4 0) (c\<lparr>bf_errs := e, bf_touched := insert p (bf_touched c)\<rparr>)))"
    (is "released _ _ _ _ ?t")
proof -
  note f = counted_facts [OF ok c]
  show ?thesis
  proof (rule releasedI [OF ok c, where us = "[(p, [])]"])
    show "free_list ?t [(p, [])]" using f by (auto simp: free_list_def trunk_def page_words)
  next
    fix q assume q: "bt_autoVacuum (bf_bt s)" "regular (bf_bt s) q"
    then show "entry ?t q = entry c q" using f by (subst entry_setPage, simp_all)+
  next
    show "page_shape ?t" using f(2-6) by simp
  next
    show "drop 8 (bf_page ?t p) = drop 8 (bf_page c p)" using f(1) f(4-6) by (simp add: drop_put4)
  qed (use f(1) c e in \<open>auto simp: same_shape_def announced_def counted_def\<close>)
qed

lemma memsetB_two_words: "8 \<le> length d \<Longrightarrow> memsetB d 0 8 = Inr (put4 (put4 d 0 0) 4 0)"
proof -
  assume "8 \<le> length d"
  moreover have "fourBytes 0 = replicate 4 0" by (simp add: fourBytes_def eval_nat_numeral)
  ultimately show ?thesis by (simp add: memsetB_def put4_def) (simp add: eval_nat_numeral)
qed


lemma link_full:
  assumes ok: "file_ok s ts U" "p \<in> dom U" and c: "counted s p c" and e: "set e \<subseteq> set (bf_errs c)"
    and k: "release (bt_usableSize (bf_bt s) div 4 - 8) ts p = (p, []) # ts"
  shows "released s ts U p (setPage 1 (put4 (bf_page c 1) 32 p) (setPage p (put4 (put4 (bf_page c p) 0 (word4 (bf_page c 1) 32)) 4 0) (c\<lparr>bf_errs := e, bf_touched := insert p (bf_touched c)\<rparr>)))"
    (is "released _ _ _ _ ?t")
proof -
  note f = counted_facts [OF ok c]
  show ?thesis
  proof (rule releasedI [OF ok c, where us = "(p, []) # ts"])
    have "trunks (bf_page s) (word4 (bf_page s 1) 32) ts" using ok(1) by (simp add: file_ok_def free_list_def)
    then have "trunks (bf_page ?t) (word4 (bf_page s 1) 32) ts"
      by (rule trunks_cong [THEN iffD1, rotated]) (use f(9,11) f(10) [of 1] in auto)
    then show "free_list ?t ((p, []) # ts)" using ok(1) f by (auto simp: file_ok_def free_list_def trunk_def page_words add.commute)
  next
    fix q assume q: "bt_autoVacuum (bf_bt s)" "regular (bf_bt s) q"
    then show "entry ?t q = entry c q" using f by (subst entry_setPage, simp_all)+
  next
    show "page_shape ?t" using f(2-6) by simp
  next
    show "drop 8 (bf_page ?t p) = drop 8 (bf_page c p)" using f(1) f(4-6) by (simp add: drop_put4)
  qed (use f(1) c e k in \<open>auto simp: same_shape_def announced_def counted_def\<close>)
qed

lemma link_leaf:
  assumes ok: "file_ok s ((q, ls) # ts) U" "p \<in> dom U" and c: "counted s p c" and e: "set e \<subseteq> set (bf_errs c)"
    and k: "length ls < bt_usableSize (bf_bt s) div 4 - 8"
  shows "released s ((q, ls) # ts) U p (setPage q (put4 (put4 (bf_page c q) 4 (of_nat (length ls) + 1)) (8 + 4 * length ls) p)
    (c\<lparr>bf_errs := e, bf_touched := insert q (bf_touched c), bf_noRead := nr\<rparr>))" (is "released _ _ _ _ ?t")
proof -
  note f = counted_facts [OF ok c]
  have fit: "8 + 4 * length ls + 4 \<le> bt_pageSize (bf_bt s)" using k f(2,3) by (auto simp: page_shape_def bt_shape_def)
  show ?thesis
  proof (rule releasedI [OF ok c, where us = "(q, ls @ [p]) # ts"])
    from ok(1) obtain nxt where n: "word4 (bf_page s 1) 32 = q" "trunk (bf_page s q) nxt ls" "trunks (bf_page s) nxt ts" by (auto simp: file_ok_def free_list_def)
    have dq: "q \<notin> set (pages_of ts)" "q \<noteq> 1" using ok(1) f(10) [of q] by (auto simp: file_ok_def free_list_def)
    from n(3) have "trunks (bf_page ?t) nxt ts"
      by (rule trunks_cong [THEN iffD1, rotated]) (use f(11) dq in auto)
    moreover have "trunk (bf_page ?t q) nxt (ls @ [p])" using trunk_append [OF n(2), of p] fit f(5,11) by simp
    moreover have "bf_page ?t 1 = bf_page c 1" using dq by simp
    ultimately show "free_list ?t ((q, ls @ [p]) # ts)" unfolding free_list_def
      using ok(1) f(3,7-9) k n(1) by (intro conjI) (auto simp: file_ok_def free_list_def add.commute simp del: setPage_simps(1))
  next
    fix r assume r: "bt_autoVacuum (bf_bt s)" "regular (bf_bt s) r"
    then show "entry ?t r = entry c r" using f(2,3) f(10) [of q] by (subst entry_setPage, simp_all)+
  next
    show "page_shape ?t" using f(2-4) fit by auto
  next
    show "drop 8 (bf_page ?t p) = drop 8 (bf_page c p)" using f(9) by auto
  next
    fix r assume "r \<in> dom U" "r \<noteq> p"
    then show "bf_page ?t r = bf_page c r" using ok(1) by (auto simp: file_ok_def)
  qed (use c e k in \<open>auto simp: same_shape_def announced_def counted_def\<close>)
qed


lemma counted_begin:
  assumes s: "page_shape s" and p: "regular (bf_bt s) p" and e: "set e \<subseteq> set (bf_errs s)"
    and m: "marked (setPage 1 (put4 (bf_page s 1) 36 (word4 (bf_page s 1) 36 + 1)) (s\<lparr>bf_isInit := f, bf_pParent := g, bf_errs := e, bf_touched := insert 1 (bf_touched s)\<rparr>)) p t"
      (is "marked ?s p t")
  shows "counted s p t"
proof -
  have "entry ?s q = entry s q" if "bt_autoVacuum (bf_bt s)" "regular (bf_bt s) q" for q
    using that s by (subst entry_setPage) simp_all
  then show ?thesis using m e by (auto simp: counted_def marked_def same_shape_def announced_def)
qed

lemma runs_memset8:
  "8 \<le> length (bf_page s p) \<Longrightarrow> runs m (setPage p (put4 (put4 (bf_page s p) 0 0) 4 0) s) Q E \<Longrightarrow>
   runs (\<lambda>s. bindR (memsetB (bf_page s p) 0 8) (\<lambda>d. m (setPage p d s))) s Q E"
  by (simp add: runs_def memsetB_two_words)

lemma one_in_file: "page_shape s \<Longrightarrow> in_file s 1"
  using unat_pagecount [of s] unat_pending [of "bf_bt s"] by (auto simp: in_file_def page_shape_def word_le_nat_alt word_unat_eq_iff)

definition system_error :: "BtFile \<Rightarrow> int \<Rightarrow> BtFile \<Rightarrow> bool" where
  "system_error s rc t \<longleftrightarrow> rc \<noteq> 0 \<and> rc \<in> set (bf_errs s) \<and> announced s t"

lemma system_errorI: "rc \<in> set (bf_errs t) \<Longrightarrow> rc \<noteq> 0 \<Longrightarrow> same_shape s t \<Longrightarrow> announced s t \<Longrightarrow> system_error s rc (t\<lparr>bf_errs := e\<rparr>)"
  by (auto simp: system_error_def same_shape_def announced_def)

lemma runs_link:
  assumes ok: "file_ok s ts U" "p \<in> dom U" and c: "counted s p c" and n: "n = word4 (bf_page s 1) 36" and bt: "bt = bf_bt s"
  shows "runs (linkFree p n bt) c (\<lambda>_. released s ts U p) (system_error s)"
proof -
  note f = counted_facts [OF ok c]
  have sh: "same_shape s c" "announced s c" using c by (simp_all add: counted_def)
  have inf: "in_file c q" if "data_page s q" for q using that f(2) data_page_same [OF sh(1)] data_page_in_file by blast
  have p: "in_file c p" using ok by (intro inf) (auto simp: file_ok_def)
  have p1: "p \<noteq> 1" using f(1) by auto
  show ?thesis
  proof (cases ts)
    case Nil
    with n free_count(3) [OF ok(1)] have "n = 0" by simp
    moreover have "runs (bindD (pager_write p) (\<lambda>_ s. bindR (memsetB (bf_page s p) 0 8) (\<lambda>d. put4byte 1 32 p (setPage p d s)))) c (\<lambda>_. released s ts U p) (system_error s)"
    proof (intro runs_bind runs_write runs_memset8 runs_put4 f(2) p, goal_cases)
      case (3 e)
      with link_first [OF ok [unfolded Nil] c] p1 Nil show ?case by simp
    qed (use f(4-6) sh p1 in \<open>auto intro: system_errorI\<close>)
    ultimately show ?thesis by (simp add: linkFree_def)
  next
    case (Cons a us)
    obtain q ls where a: "a = (q, ls)" by (cases a)
    have nz: "n \<noteq> 0" using n free_count(3) [OF ok(1)] Cons by simp
    have mem: "q \<in> set (pages_of ts)" using Cons a by simp
    have q: "word4 (bf_page c 1) 32 = q" using ok(1) f(8) Cons a by (simp add: file_ok_def free_list_def)
    have qf: "in_file c q" using ok(1) mem by (intro inf) (simp add: file_ok_def)
    have qs: "bf_page c q = bf_page s q" "q \<noteq> p" "q \<noteq> 1" using f(9) f(10,11) [OF mem] mem by auto
    have k: "word4 (bf_page c q) 4 = of_nat (length ls)" "length ls \<le> bt_usableSize (bf_bt s) div 4 - 8"
      using ok(1) Cons a qs(1) by (auto simp: file_ok_def free_list_def trunk_def)
    have u: "bt_usableSize (bf_bt s) \<le> bt_pageSize (bf_bt s)" "bt_pageSize (bf_bt s) \<le> 32768" "500 \<le> bt_usableSize (bf_bt s)"
      using f(2,3) by (auto simp: page_shape_def bt_shape_def)
    have sk: "sint (word4 (bf_page c q) 4) = int (length ls)" using k u sint_of_nat [of "length ls"] by simp
    have err: "system_error s rc (c\<lparr>bf_errs := e\<rparr>)" if "rc \<in> set (bf_errs c)" "rc \<noteq> 0" for rc e using that sh by (intro system_errorI)
    let ?full = "bindD (pager_write p) (\<lambda>_. bindD (put4byte p 0 q) (\<lambda>_. bindD (put4byte p 4 0) (\<lambda>_. put4byte 1 32 p)))"
    let ?leaf = "bindD (pager_write q) (\<lambda>_. bindD (put4byte q 4 (of_nat (length ls) + 1)) (\<lambda>_.
             bindD (put4byte q (8 + 4 * length ls) p) (\<lambda>_. sqlite3PagerDontWrite p)))"
    have full: "runs ?full (c\<lparr>bf_errs := e\<rparr>) (\<lambda>_. released s ts U p) (system_error s)" if e: "set e \<subseteq> set (bf_errs c)" "\<not> length ls < bt_usableSize (bf_bt s) div 4 - 8" for e
    proof (intro runs_bind runs_write runs_put4, goal_cases)
      case (6 e')
      have full: "release (bt_usableSize (bf_bt s) div 4 - 8) ts p = (p, []) # ts" using e Cons a by simp
      from 6 e link_full [OF ok c _ full, of e'] p1 q show ?case by simp
    qed (use f(2-6) p p1 err e in auto)
    have leaf: "runs ?leaf (c\<lparr>bf_errs := e\<rparr>) (\<lambda>_. released s ts U p) (system_error s)" if e: "set e \<subseteq> set (bf_errs c)" "length ls < bt_usableSize (bf_bt s) div 4 - 8" for e
      unfolding sqlite3PagerDontWrite_def
    proof (intro runs_bind runs_write runs_put4 runs_modD, goal_cases)
      case (5 e')
      with e link_leaf [OF ok [unfolded Cons a] c, of e' "(bf_noRead c)(p := False)"] qs Cons a show ?case by simp
    qed (use f(2-6) qf qs err e u in auto)
    show ?thesis unfolding linkFree_def if_not_P [OF nz]
    proof (intro runs_bind runs_get4 runs_acquire f(2), goal_cases)
      case (4 e)
      have "nat (8 + int (length ls) * 4) = 8 + 4 * length ls" by simp
      with 4 full leaf k q u sk show ?case by (simp add: Let_def bt)
    qed (use f(4-6) q qf err in auto)
  qed
qed

lemma freePage_runs:
  assumes ok: "file_ok s ts U" "p \<in> dom U"
  shows "runs (freePage p) s (\<lambda>_. released s ts U p) (system_error s)"
proof -
  have s: "page_shape s" "data_page s p" "regular (bf_bt s) p" using ok by (auto simp: file_ok_def data_page_def)
  have l: "length (bf_page s q) = bt_pageSize (bf_bt s)" "512 \<le> bt_pageSize (bf_bt s)" for q using s(1) by (auto simp: page_shape_def bt_shape_def)
  show ?thesis unfolding freePage_def
  proof (intro runs_bind runs_modD runs_getD runs_write runs_get4 runs_put4, goal_cases)
    case (5 e)
    then have e: "set e \<subseteq> set (bf_errs s)" by simp
    show ?case
    proof (rule runs_mark, goal_cases)
      case (3 c)
      then have "counted s p c" using s(1) by (intro counted_begin [OF s(1,3) e]) simp
      then show ?case by (rule runs_link [OF ok]) simp_all
    next
      case (4 rc e')
      then show ?case using e by (intro system_errorI) (auto simp: same_shape_def announced_def)
    qed (use s l in simp_all)
  qed (use s l one_in_file [OF s(1)] in \<open>auto intro!: system_errorI simp: same_shape_def announced_def\<close>)
qed

subsection \<open>A page at the end of the file\<close>

definition obtained :: "BtFile \<Rightarrow> (u32 \<times> u32 list) list \<Rightarrow> (u32 \<Rightarrow> byte list option) \<Rightarrow> u32 \<Rightarrow> BtFile \<Rightarrow> bool" where
  "obtained s ts U p t \<longleftrightarrow> U p = None \<and> bf_bt t = bf_bt s \<and> set (bf_errs t) \<subseteq> set (bf_errs s) \<and> announced s t
     \<and> (\<exists>us. file_ok t us (U(p \<mapsto> bf_page t p)) \<and> set (pages_of us) = set (pages_of ts) - {p})"

text \<open>The page after a page of the pointer map is a page for data.\<close>

lemma after_map_page:
  assumes s: "bt_shape bt" and q: "PTRMAP_ISPAGE bt q" "2 \<le> q" "q \<le> PAGER_MAX_PGNO" and p: "unat p = unat q + 1 \<or> unat p = unat q + 2" "p \<le> PAGER_MAX_PGNO"
  shows "\<not> PTRMAP_ISPAGE bt p"
proof
  assume i: "PTRMAP_ISPAGE bt p"
  let ?n = "mapSpan bt" and ?P = "unat (PENDING_BYTE_PAGE bt)"
  define r where "r = (unat q - 2) div ?n * ?n"
  define r' where "r' = (unat p - 2) div ?n * ?n"
  have n: "101 \<le> ?n" using s by (auto simp: mapSpan_def bt_shape_def)
  have p2: "2 \<le> p" using p(1) q(2) by (auto simp: word_le_nat_alt)
  from unat_ptrmapPageno [OF s q(2,3)] have "unat (ptrmapPageno bt q) = (if r + 2 = ?P then r + 2 + 1 else r + 2)" unfolding r_def Let_def .
  moreover from unat_ptrmapPageno [OF s p2 p(2)] have "unat (ptrmapPageno bt p) = (if r' + 2 = ?P then r' + 2 + 1 else r' + 2)" unfolding r'_def Let_def .
  ultimately have eq: "unat q = (if r + 2 = ?P then r + 3 else r + 2)" "unat p = (if r' + 2 = ?P then r' + 3 else r' + 2)"
    using q(1) i by (simp_all add: PTRMAP_ISPAGE_def)
  have "r = r'" unfolding r_def r'_def
  proof -
    have "?n * (r div ?n) = r" by (simp add: r_def)
    then have "(unat p - 2) div ?n = r div ?n" using eq(1) p(1) n by (intro div_nat_eqI) (auto split: if_splits)
    then show "(unat q - 2) div ?n * ?n = (unat p - 2) div ?n * ?n" using n by (simp add: r_def)
  qed
  with eq p(1) show False by (auto split: if_splits)
qed

lemma newPageNo_ok:
  assumes s: "page_shape s" and p: "newPageNo s \<le> PAGER_MAX_PGNO"
  shows "regular (bf_bt s) (newPageNo s)" "limit s < newPageNo s"
proof -
  let ?bt = "bf_bt s" and ?P = "unat (PENDING_BYTE_PAGE (bf_bt s))"
  have b: "bt_shape ?bt" using s by (simp add: page_shape_def)
  have "unat (sqlite3PagerPagecount s) \<noteq> 0" using unat_pagecount [OF s] s by (auto simp: page_shape_def word_le_nat_alt split: if_splits)
  then have lim: "1 \<le> unat (limit s)" "unat (limit s) \<le> 2147483647"
    using s pagecount_bound [OF s] by (auto simp: limit_def page_shape_def word_le_nat_alt unat_gt_0 Suc_le_eq)
  define g where "g = (if bf_nTrunc s \<noteq> 0 then if bf_nTrunc s + 1 = PENDING_BYTE_PAGE ?bt then bf_nTrunc s + 1 + 1 else bf_nTrunc s + 1 else sqlite3PagerPagecount s + 1)"
  have l1: "unat (limit s + 1) = unat (limit s) + 1" "unat (limit s + 1 + 1) = unat (limit s) + 2" using lim by (simp_all add: unat_word_ariths)
  have pc: "unat (sqlite3PagerPagecount s) + 1 \<noteq> ?P" using unat_pagecount [OF s] unat_pending(1) [OF b] by auto
  have g: "unat g = (if unat (limit s) + 1 = ?P then unat (limit s) + 2 else unat (limit s) + 1)"
    using l1 pc by (auto simp: g_def limit_def word_unat_eq_iff)
  have g1: "unat (g + 1) = unat g + 1" "unat (g + 1 + 1) = unat g + 2" using g lim by (auto simp: unat_word_ariths)
  have no: "newPageNo s = (if bt_autoVacuum ?bt \<and> PTRMAP_ISPAGE ?bt g then if g + 1 = PENDING_BYTE_PAGE ?bt then g + 1 + 1 else g + 1 else g)"
    by (simp add: newPageNo_def Let_def g_def)
  then have u: "unat (newPageNo s) = (if bt_autoVacuum ?bt \<and> PTRMAP_ISPAGE ?bt g then if unat g + 1 = ?P then unat g + 2 else unat g + 1 else unat g)"
    using g1 by (auto simp: word_unat_eq_iff)
  have ge: "unat g \<noteq> ?P" "unat (limit s) < unat g" using g by (auto split: if_splits)
  show "limit s < newPageNo s" using u ge by (auto simp: word_less_nat_alt)
  have np: "unat (newPageNo s) \<noteq> ?P" "2 \<le> unat (newPageNo s)" using u ge lim by auto
  have "\<not> PTRMAP_ISPAGE ?bt (newPageNo s)" if a: "bt_autoVacuum ?bt"
  proof (cases "PTRMAP_ISPAGE ?bt g")
    case True
    have g2: "2 \<le> g" using ge(2) lim(1) by (simp add: word_le_nat_alt)
    have gm: "g \<le> PAGER_MAX_PGNO" using u p True a by (auto simp: word_le_nat_alt split: if_splits)
    show ?thesis by (rule after_map_page [OF b True g2 gm]) (use u p True a in auto)
  qed (use no in simp)
  with np p show "regular ?bt (newPageNo s)" by (auto simp: regular_def word_le_nat_alt word_unat_eq_iff)
qed

definition alloc_error :: "BtFile \<Rightarrow> int \<Rightarrow> BtFile \<Rightarrow> bool" where
  "alloc_error s rc t \<longleftrightarrow> (rc \<noteq> 0 \<and> rc \<in> set (bf_errs s) \<or> rc = SQLITE_FULL \<or> rc = SQLITE_CORRUPT) \<and> announced s t"

lemma runs_acquire_any:
  assumes "\<And>e. pg \<le> PAGER_MAX_PGNO \<Longrightarrow> set e \<subseteq> set (bf_errs s) \<Longrightarrow> Q () (s\<lparr>bf_errs := e\<rparr>)"
    and "\<And>rc e. rc \<noteq> 0 \<and> rc \<in> set (bf_errs s) \<or> rc = SQLITE_FULL \<or> rc = SQLITE_CORRUPT \<Longrightarrow> set e \<subseteq> set (bf_errs s) \<Longrightarrow> E rc (s\<lparr>bf_errs := e\<rparr>)"
  shows "runs (pagerAcquire pg) s Q E"
proof (cases "PAGER_MAX_PGNO < pg \<or> pg = 0 \<or> pg = PENDING_BYTE_PAGE (bf_bt s)")
  case True
  have "s\<lparr>bf_errs := bf_errs s\<rparr> = s" by simp
  with assms(2) [of SQLITE_CORRUPT "bf_errs s"] True show ?thesis by (simp add: runs_def pagerAcquire_def failD_def)
next
  case False
  let ?n = "bindD request (\<lambda>_ s. let nMax = sqlite3PagerPagecount s in
       if nMax < pg \<and> max (bf_mxPgno s) nMax < pg then failD SQLITE_FULL s else retD () s)"
  have "runs ?n s Q E"
  proof (intro runs_bind runs_request)
    fix e assume "set e \<subseteq> set (bf_errs s)"
    with assms(1) [of e] assms(2) [of SQLITE_FULL e] False show "runs (\<lambda>s. let nMax = sqlite3PagerPagecount s in
       if nMax < pg \<and> max (bf_mxPgno s) nMax < pg then failD SQLITE_FULL s else retD () s) (s\<lparr>bf_errs := e\<rparr>) Q E"
      by (simp add: runs_def Let_def failD_def retD_def not_less)
  qed (use assms(2) in auto)
  with False show ?thesis by (intro runs_apply [of "pagerAcquire pg" s ?n]) (simp_all add: pagerAcquire_def)
qed

text \<open>The size of the file after a page beyond its end was written.\<close>

definition grown :: "BtFile \<Rightarrow> u32 \<Rightarrow> u32" where
  "grown s pg = (if bf_dbSize s < pg then if pg = of_nat (PENDING_BYTE div bt_pageSize (bf_bt s)) then pg + 1 else pg else bf_dbSize s)"

lemma runs_write_any:
  assumes "\<And>e. set e \<subseteq> set (bf_errs s) \<Longrightarrow> Q () (s\<lparr>bf_errs := e, bf_touched := insert pg (bf_touched s), bf_dbSize := grown s pg\<rparr>)"
    and "\<And>rc e. rc \<in> set (bf_errs s) \<Longrightarrow> rc \<noteq> 0 \<Longrightarrow> set e \<subseteq> set (bf_errs s) \<Longrightarrow> E rc (s\<lparr>bf_errs := e\<rparr>)"
  shows "runs (pager_write pg) s Q E"
proof -
  have "(let s = (s\<lparr>bf_errs := e\<rparr>)\<lparr>bf_touched := insert pg (bf_touched (s\<lparr>bf_errs := e\<rparr>))\<rparr> in
     if bf_dbSize s < pg then s\<lparr>bf_dbSize := (if pg = of_nat (PENDING_BYTE div bt_pageSize (bf_bt s)) then pg + 1 else pg)\<rparr> else s)
     = s\<lparr>bf_errs := e, bf_touched := insert pg (bf_touched s), bf_dbSize := grown s pg\<rparr>" for e
    by (simp add: Let_def grown_def)
  with assms show ?thesis unfolding pager_write_def by (intro runs_intros) (simp_all only:)
qed

lemma grown_ok:
  assumes s: "page_shape s" and p: "regular (bf_bt s) p" and n: "n = 0 \<or> n = p" and t: "t = s\<lparr>bf_nTrunc := n, bf_errs := e, bf_touched := j, bf_dbSize := grown s p\<rparr>"
  shows "page_shape t" "p \<le> sqlite3PagerPagecount t" "sqlite3PagerPagecount s \<le> sqlite3PagerPagecount t"
proof -
  let ?P = "PENDING_BYTE div bt_pageSize (bf_bt s)"
  have b: "bt_shape (bf_bt s)" "unat (bf_dbSize s) \<le> 2147483647" "1 \<le> unat (bf_dbSize s)" using s by (auto simp: page_shape_def word_le_nat_alt)
  note P = unat_pending [OF b(1)]
  have up: "2 \<le> unat p" "unat p \<le> 2147483647" "unat p \<noteq> ?P + 1" using p P(1) by (auto simp: regular_def word_le_nat_alt word_unat_eq_iff)
  have oP: "unat (of_nat ?P :: u32) = ?P" using P by (intro unat_of_nat_small) simp
  have p1: "unat (p + 1) = unat p + 1" using up by (simp add: unat_word_ariths)
  have g: "unat (grown s p) = (if unat (bf_dbSize s) < unat p then if unat p = ?P then ?P + 1 else unat p else unat (bf_dbSize s))"
    using oP p1 by (auto simp: grown_def word_less_nat_alt word_unat_eq_iff)
  have gb: "1 \<le> grown s p" "grown s p \<le> PAGER_MAX_PGNO" using g b up P by (auto simp: word_le_nat_alt split: if_splits)
  have d1: "unat (bf_dbSize s + 1) = unat (bf_dbSize s) + 1" using b(2) by (simp add: unat_word_ariths)
  have pc: "unat (sqlite3PagerPagecount t) = (if unat (grown s p) = ?P then unat (grown s p) + 1 else unat (grown s p))"
  proof -
    have "unat (grown s p + 1) = unat (grown s p) + 1" using gb(2) by (simp add: unat_word_ariths word_le_nat_alt)
    then show ?thesis using oP by (auto simp: sqlite3PagerPagecount_def t word_unat_eq_iff)
  qed
  show le: "p \<le> sqlite3PagerPagecount t" using pc g by (auto simp: word_le_nat_alt)
  show "sqlite3PagerPagecount s \<le> sqlite3PagerPagecount t" using pc g unat_pagecount [OF s] up(3) by (auto simp: word_le_nat_alt split: if_splits)
  show "page_shape t" using s gb n le unfolding page_shape_def by (auto simp: t)
qed

lemma newPage_runs:
  assumes ok: "file_ok s [] U"
  shows "runs newPage s (obtained s [] U) (alloc_error s)"
proof -
  let ?p = "newPageNo s"
  have s: "page_shape s" "\<And>q. q \<in> dom U \<Longrightarrow> data_page s q" using ok by (auto simp: file_ok_def)
  have err: "alloc_error s rc (t\<lparr>bf_errs := e\<rparr>)" if "rc \<noteq> 0 \<and> rc \<in> set (bf_errs t) \<or> rc = SQLITE_FULL \<or> rc = SQLITE_CORRUPT" "set (bf_errs t) \<subseteq> set (bf_errs s)" "bf_page t = bf_page s" "bf_touched t = bf_touched s" for rc t e
    using that by (auto simp: alloc_error_def announced_def)
  have main: "obtained s [] U ?p (s\<lparr>bf_nTrunc := n, bf_errs := e, bf_touched := insert ?p (bf_touched s), bf_dbSize := grown s ?p\<rparr>)" (is "obtained _ _ _ _ ?t")
    if p: "?p \<le> PAGER_MAX_PGNO" and e: "set e \<subseteq> set (bf_errs s)" and n: "n = (if bf_nTrunc s \<noteq> 0 then ?p else 0)" for n e
  proof -
    note r = newPageNo_ok [OF s(1) p]
    have "n = 0 \<or> n = ?p" using n by simp
    note g = grown_ok [OF s(1) r(1) this refl, where e = e and j = "insert ?p (bf_touched s)"]
    have lt: "limit s \<le> limit ?t" "?p \<le> limit ?t"
    proof -
      have "?p \<noteq> 0" using r(2) by auto
      then have "limit ?t = (if bf_nTrunc s \<noteq> 0 then ?p else sqlite3PagerPagecount ?t)" by (simp add: limit_def n)
      then show "limit s \<le> limit ?t" "?p \<le> limit ?t" using g(2,3) r(2) by (auto simp: limit_def)
    qed
    have "?p \<notin> dom U" using s(2) [of ?p] r(2) by (metis data_page_def not_less)
    then have none: "U ?p = None" by blast
    have "data_page ?t q" if "q \<in> dom (U(?p \<mapsto> bf_page ?t ?p))" for q
    proof (cases "q = ?p")
      case False
      with that have "data_page s q" by (intro s(2)) auto
      then show ?thesis using lt(1) by (auto simp: data_page_def)
    qed (use r(1) lt(2) in \<open>simp add: data_page_def\<close>)
    moreover have "free_list ?t []" using ok by (simp add: file_ok_def free_list_def)
    ultimately have "file_ok ?t [] (U(?p \<mapsto> bf_page ?t ?p))" using g(1) ok by (auto simp: file_ok_def)
    with none e show ?thesis by (auto simp: obtained_def announced_def intro!: exI [of _ "[]"])
  qed
  have tr: "(if bf_nTrunc s \<noteq> 0 then s\<lparr>bf_nTrunc := ?p\<rparr> else s) = s\<lparr>bf_nTrunc := (if bf_nTrunc s \<noteq> 0 then ?p else 0)\<rparr>" by (cases "bf_nTrunc s = 0") auto
  show ?thesis unfolding newPage_def
  proof (intro runs_bind runs_getD runs_modD runs_acquire_any runs_write_any runs_ret, goal_cases)
    case (1 e e')
    with main [of e' "if bf_nTrunc s \<noteq> 0 then ?p else 0"] show ?case unfolding tr by (auto simp: grown_def)
  qed (use err in \<open>auto simp: tr\<close>)
qed

end
