(* ===== verification/FreeAlloc.thy ===== *)
theory FreeAlloc
  imports FreeList
begin

text \<open>
  Taking pages from the free list of the database file (allocateBtreePage of btree.c, defined
  in FreeList): the leaf nearest to a wanted page, a trunk without leaves, or exactly the page
  wanted, for which the whole list is searched. The file with the clients of its pages is an
  instance of the contract of PageSupply.
\<close>

subsection \<open>Reusing a free page\<close>

lemma closestLoop_ok:
  assumes "trunk d nxt ls" "8 + 4 * length ls \<le> length d" "i + m = length ls" "c < i" "dist = absC (ls ! c - nearby)"
    "\<And>j. j < i \<Longrightarrow> sint dist \<le> sint (absC (ls ! j - nearby))"
  shows "\<exists>c'. closestLoop d nearby m i c dist = Inr c' \<and> c' < length ls \<and> (\<forall>j < length ls. sint (absC (ls ! c' - nearby)) \<le> sint (absC (ls ! j - nearby)))"
  using assms
proof (induction m arbitrary: i c dist)
  case 0
  then show ?case by auto
next
  case (Suc m)
  then have v: "sqlite3Get4byte (drop (8 + i * 4) d) = Inr (ls ! i, 4)" by (simp add: Get4byte_word4 trunk_def mult.commute)
  let ?d2 = "absC (ls ! i - nearby)"
  show ?case
  proof (cases "sint ?d2 < sint dist")
    case True
    have "\<exists>c'. closestLoop d nearby m (Suc i) i ?d2 = Inr c' \<and> c' < length ls \<and> (\<forall>j < length ls. sint (absC (ls ! c' - nearby)) \<le> sint (absC (ls ! j - nearby)))"
      by (rule Suc.IH [OF Suc.prems(1,2)]) (use Suc.prems True in \<open>auto simp: less_Suc_eq intro: less_imp_le order_trans\<close>)
    then show ?thesis using True v by (simp add: Let_def)
  next
    case False
    have "\<exists>c'. closestLoop d nearby m (Suc i) c dist = Inr c' \<and> c' < length ls \<and> (\<forall>j < length ls. sint (absC (ls ! c' - nearby)) \<le> sint (absC (ls ! j - nearby)))"
      by (rule Suc.IH [OF Suc.prems(1,2)]) (use Suc.prems False in \<open>auto simp: less_Suc_eq\<close>)
    then show ?thesis using False v by (simp add: Let_def)
  qed
qed

lemma closestLeaf_runs:
  assumes "trunk (bf_page s q) nxt ls" "8 + 4 * length ls \<le> length (bf_page s q)" "ls \<noteq> []"
    and Q: "\<And>c. c < length ls \<Longrightarrow> 0 < nearby \<Longrightarrow> \<forall>j < length ls. sint (absC (ls ! c - nearby)) \<le> sint (absC (ls ! j - nearby)) \<Longrightarrow> Q c s"
      "nearby = 0 \<Longrightarrow> Q 0 s"
  shows "runs (closestLeaf q nearby (int (length ls))) s Q E"
proof (cases "0 < nearby")
  case True
  have l: "0 < length ls" using assms(3) by simp
  have w: "word4 (bf_page s q) 8 = ls ! 0" using assms(1) l by (auto simp: trunk_def dest: spec [of _ 0])
  have "\<exists>c'. closestLoop (bf_page s q) nearby (length ls - 1) 1 0 (absC (ls ! 0 - nearby)) = Inr c' \<and> c' < length ls
      \<and> (\<forall>j < length ls. sint (absC (ls ! c' - nearby)) \<le> sint (absC (ls ! j - nearby)))"
    by (rule closestLoop_ok [OF assms(1,2)]) (use l in auto)
  then obtain c' where c': "closestLoop (bf_page s q) nearby (length ls - 1) 1 0 (absC (ls ! 0 - nearby)) = Inr c'" "c' < length ls"
      "\<forall>j < length ls. sint (absC (ls ! c' - nearby)) \<le> sint (absC (ls ! j - nearby))" by blast
  have n: "nat (int (length ls) - 1) = length ls - 1" by simp
  have "sqlite3Get4byte (drop 8 (bf_page s q)) = Inr (ls ! 0, 4)" using Get4byte_word4 [of 8 "bf_page s q"] assms(2) l w by (cases ls) auto
  then have "closestLeaf q nearby (int (length ls)) s = Inr (Inr c', s)"
    using True c'(1) unfolding closestLeaf_def n by (simp add: bindD_def get4byte_def retD_def)
  with Q(1) [OF c'(2) True c'(3)] show ?thesis by (simp add: runs_def)
next
  case False
  then have "nearby = 0" using word_gt_0 [of nearby] by blast
  then show ?thesis using Q(2) by (simp add: closestLeaf_def runs_ret)
qed

lemma drop_leaf:
  assumes "distinct ls" "c < length ls"
  shows "set (butlast (ls[c := last ls])) = set ls - {ls ! c}" "distinct (butlast (ls[c := last ls]))"
proof -
  obtain xs y where ls: "ls = xs @ [y]" using assms(2) by (cases ls rule: rev_cases) auto
  show "set (butlast (ls[c := last ls])) = set ls - {ls ! c}"
  proof (cases "c < length xs")
    case True
    then have b: "butlast (ls[c := last ls]) = xs[c := y]" by (simp add: ls list_update_append butlast_append)
    have "set (xs[c := y]) = insert y (set xs - {xs ! c})" using assms(1) True by (intro set_update_distinct) (auto simp: ls)
    then show ?thesis unfolding b using True assms(1) by (auto simp: ls nth_append)
  qed (use assms in \<open>auto simp: ls list_update_append nth_append\<close>)
  show "distinct (butlast (ls[c := last ls]))"
  proof (cases "c < length xs")
    case True
    then have "butlast (ls[c := last ls]) = xs[c := y]" by (simp add: ls list_update_append butlast_append)
    then show ?thesis using assms(1) by (auto simp: ls intro!: distinct_list_update)
  qed (use assms in \<open>auto simp: ls list_update_append\<close>)
qed

lemma trunk_drop_leaf:
  assumes t: "trunk d nxt ls" "8 + 4 * length ls \<le> length d" and c: "c < length ls"
    and d1: "d1 = (if c < length ls - 1 then put4 d (8 + c * 4) (word4 d (4 + 4 * length ls)) else d)"
  shows "trunk (put4 d1 4 (of_nat (length ls - 1))) nxt (butlast (ls[c := last ls]))"
proof -
  let ?k = "length ls"
  have w: "word4 d (8 + 4 * j) = ls ! j" if "j < ?k" for j using t(1) that by (simp add: trunk_def)
  have la: "word4 d (4 + 4 * ?k) = last ls" using w [of "?k - 1"] c by (cases ls rule: rev_cases) (auto simp: algebra_simps)
  have len: "length d1 = length d" using d1 t(2) c by auto
  have w1: "word4 d1 (8 + 4 * j) = (if j = c \<and> c < ?k - 1 then last ls else ls ! j)" if "j < ?k" for j
  proof (cases "j = c \<or> \<not> c < ?k - 1")
    case False
    then have "8 + 4 * j + 4 \<le> 8 + c * 4 \<or> 8 + c * 4 + 4 \<le> 8 + 4 * j" by auto
    with word4_put4_other [of "8 + c * 4" d "8 + 4 * j"] False w [OF that] t(2) c show ?thesis by (simp add: d1)
  qed (use that w t(2) c la in \<open>auto simp: d1 page_words mult.commute\<close>)
  have h: "word4 d1 0 = nxt" "length d1 \<ge> 8" using t c len unfolding d1 by (auto simp: page_words trunk_def)
  have "word4 (put4 d1 4 (of_nat (?k - 1))) (8 + 4 * i) = butlast (ls[c := last ls]) ! i" if "i < ?k - 1" for i
    using that w1 [of i] t(2) len c by (auto simp: page_words nth_butlast nth_list_update)
  then show ?thesis using h c by (auto simp: trunk_def page_words)
qed

text \<open>A position in the list of trunks: the trunk before it, or none at the start.\<close>

definition prevOf :: "(u32 \<times> u32 list) list \<Rightarrow> u32 option" where
  "prevOf pre = (if pre = [] then None else Some (fst (last pre)))"

definition linkOf :: "(u32 \<Rightarrow> byte list) \<Rightarrow> u32 option \<Rightarrow> u32" where
  "linkOf P prev = (case prev of None \<Rightarrow> word4 (P 1) 32 | Some p \<Rightarrow> word4 (P p) 0)"

definition putLink :: "u32 option \<Rightarrow> u32 \<Rightarrow> (u32 \<Rightarrow> byte list) \<Rightarrow> u32 \<Rightarrow> byte list" where
  "putLink prev y P = (case prev of None \<Rightarrow> P(1 := put4 (P 1) 32 y) | Some p \<Rightarrow> P(p := put4 (P p) 0 y))"

lemma trunk_put_link: "trunk d nxt ls \<Longrightarrow> 4 \<le> length d \<Longrightarrow> trunk (put4 d 0 y) y ls"
  by (auto simp: trunk_def page_words)

lemma trunks_from: "trunks P x (pre @ ts) \<Longrightarrow> pre \<noteq> [] \<Longrightarrow> trunks P (word4 (P (fst (last pre))) 0) ts"
proof (induction pre arbitrary: x)
  case (Cons a pre)
  obtain q ls where "a = (q, ls)" by (cases a)
  with Cons show ?case by (cases "pre = []") (auto simp: trunk_def)
qed simp

lemma trunks_link: "trunks P (word4 (P 1) 32) (pre @ ts) \<Longrightarrow> trunks P (linkOf P (prevOf pre)) ts"
  using trunks_from [of P _ pre ts] by (auto simp: linkOf_def prevOf_def)

lemma trunks_relink_inner:
  "trunks P x (pre @ ts) \<Longrightarrow> pre \<noteq> [] \<Longrightarrow> distinct (pages_of pre) \<Longrightarrow> (\<And>r. r \<in> set (pages_of pre) \<Longrightarrow> 4 \<le> length (P r) \<and> P' r = putLink (prevOf pre) y P r) \<Longrightarrow>
   trunks P' y us \<Longrightarrow> trunks P' x (pre @ us)"
proof (induction pre arbitrary: x)
  case (Cons a pre)
  obtain q ls where a: "a = (q, ls)" by (cases a)
  from Cons.prems(1) a obtain nxt where n: "x = q" "trunk (P q) nxt ls" "trunks P nxt (pre @ ts)" by auto
  have Pq: "4 \<le> length (P q)" "P' q = putLink (prevOf (a # pre)) y P q" using Cons.prems(4) [of q] a by auto
  show ?case
  proof (cases "pre = []")
    case True
    then show ?thesis using n Cons.prems(5) Pq trunk_put_link [OF n(2), of y] a by (auto simp: putLink_def prevOf_def)
  next
    case False
    have lst: "fst (last pre) \<in> set (pages_of pre)" using False by (cases pre rule: rev_cases) (auto simp: pages_of_def split: prod.splits)
    have "trunks P' nxt (pre @ us)"
    proof (rule Cons.IH [OF n(3) False])
      fix r assume "r \<in> set (pages_of pre)"
      then show "4 \<le> length (P r) \<and> P' r = putLink (prevOf pre) y P r" using Cons.prems(4) [of r] a False by (auto simp: prevOf_def)
    qed (use Cons.prems a in auto)
    moreover have "P' q = P q" using Pq(2) lst Cons.prems(3) a False by (auto simp: putLink_def prevOf_def)
    ultimately show ?thesis using n a by auto
  qed
qed simp

lemma trunks_relink:
  assumes "trunks P (word4 (P 1) 32) (pre @ ts)" "distinct (pages_of pre)" "\<And>r. 36 \<le> length (P r)" "1 \<notin> set (pages_of pre)"
    and "\<And>r. r = 1 \<or> r \<in> set (pages_of pre) \<Longrightarrow> P' r = putLink (prevOf pre) y P r" "trunks P' y us"
  shows "trunks P' (word4 (P' 1) 32) (pre @ us)"
proof (cases "pre = []")
  case True
  then have "P' 1 = put4 (P 1) 32 y" using assms(5) [of 1] by (simp add: putLink_def prevOf_def)
  with True assms(3,6) show ?thesis by (simp add: page_words)
next
  case False
  have lst: "fst (last pre) \<in> set (pages_of pre)" using False by (cases pre rule: rev_cases) (auto simp: pages_of_def split: prod.splits)
  have "P' 1 = P 1" using assms(4) assms(5) [of 1] lst False by (auto simp: putLink_def prevOf_def)
  moreover have "trunks P' (word4 (P 1) 32) (pre @ us)"
  proof (rule trunks_relink_inner [OF assms(1) False assms(2) _ assms(6)])
    fix r assume "r \<in> set (pages_of pre)"
    then show "4 \<le> length (P r) \<and> P' r = putLink (prevOf pre) y P r" using assms(3) [of r] assms(5) by simp
  qed
  ultimately show ?thesis by simp
qed

lemma trunks_change:
  "trunks P x (pre @ (q, ls) # post) \<Longrightarrow> (\<And>r. r \<in> set (pages_of pre) \<union> set (pages_of post) \<Longrightarrow> P' r = P r) \<Longrightarrow>
   trunk (P' q) (word4 (P q) 0) ls' \<Longrightarrow> trunks P' x (pre @ (q, ls') # post)"
proof (induction pre arbitrary: x)
  case Nil
  then have "trunks P (word4 (P q) 0) post" by (auto simp: trunk_def)
  then have "trunks P' (word4 (P q) 0) post" by (rule trunks_cong [THEN iffD1, rotated]) (use Nil in auto)
  with Nil show ?case by auto
next
  case (Cons a pre)
  obtain r rs where a: "a = (r, rs)" by (cases a)
  with Cons.prems(1) obtain nxt where n: "x = r" "trunk (P r) nxt rs" "trunks P nxt (pre @ (q, ls) # post)" by auto
  have "trunks P' nxt (pre @ (q, ls') # post)" by (rule Cons.IH [OF n(3)]) (use Cons.prems a in auto)
  with n Cons.prems(2) [of r] a show ?case by auto
qed

text \<open>The state in which the list is searched: the count of page 1 is reduced, nothing else changed.\<close>

definition reduced :: "BtFile \<Rightarrow> BtFile \<Rightarrow> bool" where
  "reduced s c \<longleftrightarrow> same_shape s c \<and> announced s c \<and> 1 \<in> bf_touched c \<and> page_shape c
     \<and> bf_page c = (bf_page s)(1 := put4 (bf_page s 1) 36 (word4 (bf_page s 1) 36 - 1))"

lemma obtainedI:
  assumes ok: "file_ok s ts U" and c: "reduced s c" and t: "page_shape t" "same_shape c t" "announced c t" "free_list t us"
    and p: "p \<in> set (pages_of ts)" and us: "set (pages_of us) = set (pages_of ts) - {p}"
    and V: "\<And>q. q \<in> dom U \<Longrightarrow> bf_page t q = bf_page c q"
    and e: "\<And>q. bt_autoVacuum (bf_bt s) \<Longrightarrow> q \<in> set (pages_of us) \<Longrightarrow> entry t q = entry c q"
  shows "obtained s ts U p t"
proof -
  have sh: "same_shape s t" using c t(2) by (auto simp: reduced_def same_shape_def)
  have jr: "announced s t" using c t(3) by (auto simp: reduced_def announced_def)
  have reg: "regular (bf_bt s) q" if "q \<in> set (pages_of ts) \<union> dom U" for q using ok that by (auto simp: file_ok_def data_page_def)
  have "entry c q = entry s q" if "bt_autoVacuum (bf_bt s)" "q \<in> set (pages_of us)" for q
  proof -
    have "entry c q = entry (setPage 1 (bf_page c 1) s) q" using c by (simp add: entry_def reduced_def same_shape_def)
    also have "\<dots> = entry s q" using that reg us ok by (intro entry_setPage) (auto simp: file_ok_def)
    finally show ?thesis .
  qed
  note ec = this
  have U: "U p = None" using ok p by (auto simp: file_ok_def)
  have "file_ok t us (U(p \<mapsto> bf_page t p))"
  proof (rule file_okI [OF ok t(1) sh t(4)])
    fix q d assume q: "(U(p \<mapsto> bf_page t p)) q = Some d"
    show "bf_page t q = d"
    proof (cases "q = p")
      case False
      with q have m: "U q = Some d" by simp
      then have "q \<in> dom U" by blast
      moreover from this have "q \<noteq> 1" using reg [of q] by (metis UnI2 page_one_not_regular(1))
      ultimately show ?thesis using V c ok m by (simp add: file_ok_def reduced_def)
    qed (use q in simp)
  qed (use us p ok e ec in \<open>auto simp: file_ok_def\<close>)
  with U sh jr us show ?thesis by (auto simp: obtained_def same_shape_def)
qed


text \<open>The trunk at a position, in the state in which the list is searched.\<close>

lemma located:
  assumes ok: "file_ok s (pre @ (q, ls) # post) U" and c: "reduced s c"
  shows "linkOf (bf_page c) (prevOf pre) = q" "in_file c q" "trunk (bf_page c q) (word4 (bf_page c q) 0) ls" "trunks (bf_page c) (word4 (bf_page c q) 0) post"
    "sint (word4 (bf_page c q) 4) = int (length ls)" "length ls \<le> bt_usableSize (bf_bt s) div 4 - 8" "8 + 4 * length ls + 24 \<le> bt_pageSize (bf_bt s)"
    "trunks (bf_page c) (word4 (bf_page c 1) 32) (pre @ (q, ls) # post)"
    "word4 (bf_page c 1) 36 = of_nat (length (pages_of (pre @ (q, ls) # post)) - 1)"
    "distinct (pages_of (pre @ (q, ls) # post))" "1 \<notin> set (pages_of (pre @ (q, ls) # post))"
proof -
  let ?ts = "pre @ (q, ls) # post"
  have s: "page_shape s" "bt_shape (bf_bt s)" "length (bf_page s 1) = bt_pageSize (bf_bt s)" using ok by (auto simp: file_ok_def page_shape_def)
  then have b: "512 \<le> bt_pageSize (bf_bt s)" "bt_usableSize (bf_bt s) \<le> bt_pageSize (bf_bt s)" "500 \<le> bt_usableSize (bf_bt s)" "bt_usableSize (bf_bt s) \<le> 32768" by (auto simp: bt_shape_def)
  have r: "\<forall>p \<in> set (pages_of ?ts). data_page s p" using ok by (simp add: file_ok_def)
  show one: "1 \<notin> set (pages_of ?ts)" using r page_one_not_regular(1) by (metis data_page_def)
  have pc: "bf_page c r = bf_page s r" if "r \<noteq> 1" for r using c that by (simp add: reduced_def)
  have p1: "bf_page c 1 = put4 (bf_page s 1) 36 (word4 (bf_page s 1) 36 - 1)" using c by (simp add: reduced_def)
  have t: "trunks (bf_page s) (word4 (bf_page s 1) 32) ?ts" using ok by (simp add: file_ok_def free_list_def)
  then have "trunks (bf_page c) (word4 (bf_page s 1) 32) ?ts" by (rule trunks_cong [THEN iffD1, rotated]) (metis one pc)
  moreover have "word4 (bf_page c 1) 32 = word4 (bf_page s 1) 32" using p1 s b by (simp add: page_words)
  ultimately show tc: "trunks (bf_page c) (word4 (bf_page c 1) 32) ?ts" by simp
  from trunks_link [OF this] show "linkOf (bf_page c) (prevOf pre) = q" "trunk (bf_page c q) (word4 (bf_page c q) 0) ls" "trunks (bf_page c) (word4 (bf_page c q) 0) post"
    by (auto simp: trunk_def)
  show "distinct (pages_of ?ts)" using ok by (simp add: file_ok_def free_list_def)
  show k: "length ls \<le> bt_usableSize (bf_bt s) div 4 - 8" using ok by (simp add: file_ok_def free_list_def)
  show "8 + 4 * length ls + 24 \<le> bt_pageSize (bf_bt s)" using k b by auto
  have "word4 (bf_page c q) 4 = of_nat (length ls)" using \<open>trunk (bf_page c q) (word4 (bf_page c q) 0) ls\<close> by (simp add: trunk_def)
  with k b sint_of_nat [of "length ls"] show "sint (word4 (bf_page c q) 4) = int (length ls)" by simp
  show "in_file c q" using r c data_page_in_file [of c q] data_page_same [of s c q] by (auto simp: reduced_def)
  have "word4 (bf_page s 1) 36 = of_nat (length (pages_of ?ts))" using free_count(2) [OF ok] .
  then show "word4 (bf_page c 1) 36 = of_nat (length (pages_of ?ts) - 1)" using p1 s b by (simp add: page_words of_nat_diff)
qed

lemma reduced_length:
  assumes "reduced s c"
  shows "page_shape c" "length (bf_page c r) = bt_pageSize (bf_bt s)" "512 \<le> bt_pageSize (bf_bt s)" "bf_bt c = bf_bt s"
proof -
  show p: "page_shape c" and "bf_bt c = bf_bt s" using assms by (auto simp: reduced_def same_shape_def)
  then show "length (bf_page c r) = bt_pageSize (bf_bt s)" "512 \<le> bt_pageSize (bf_bt s)" by (auto simp: page_shape_def bt_shape_def)
qed

lemma reduced_upd:
  "reduced s c \<Longrightarrow> set e \<subseteq> set (bf_errs c) \<Longrightarrow> bf_touched c \<subseteq> j \<Longrightarrow> reduced s (c\<lparr>bf_errs := e, bf_touched := j\<rparr>)"
  "reduced s c \<Longrightarrow> set e \<subseteq> set (bf_errs c) \<Longrightarrow> reduced s (c\<lparr>bf_errs := e\<rparr>)"
  by (auto simp: reduced_def same_shape_def announced_def)

lemma reduced_error: "reduced s c \<Longrightarrow> rc \<in> set (bf_errs c) \<Longrightarrow> rc \<noteq> 0 \<Longrightarrow> announced c t \<Longrightarrow> system_error s rc t"
  by (auto simp: reduced_def same_shape_def announced_def system_error_def)

text \<open>The bytes after a leaf was taken; the page itself may hold zeros.\<close>

lemma leaf_taken:
  assumes ok: "file_ok s (pre @ (q, ls) # post) U" and c: "reduced s c" and i: "i < length ls" and q: "q \<in> j" and j: "bf_touched c \<subseteq> j" and e: "set e \<subseteq> set (bf_errs c)"
    and d1: "d1 = (if i < length ls - 1 then put4 (bf_page c q) (8 + i * 4) (word4 (bf_page c q) (4 + 4 * length ls)) else bf_page c q)"
    and z: "z = bf_page c (ls ! i) \<or> length z = bt_pageSize (bf_bt s) \<and> ls ! i \<in> j"
  shows "obtained s (pre @ (q, ls) # post) U (ls ! i) (setPage (ls ! i) z (setPage q (put4 d1 4 (of_nat (length ls - 1))) (c\<lparr>bf_errs := e, bf_touched := j\<rparr>)))" (is "obtained _ ?ts _ ?p ?t")
proof -
  note l = located [OF ok c] and b = reduced_length [OF c]
  let ?ls = "butlast (ls[i := last ls])" and ?us = "pre @ (q, butlast (ls[i := last ls])) # post"
  have mem: "?p \<in> set ls" using i by simp
  have dl: "distinct ls" using l(10) by simp
  note dr = drop_leaf [OF dl i]
  have pq: "?p \<noteq> q" "?p \<notin> set (pages_of pre)" "?p \<notin> set (pages_of post)" "?p \<noteq> 1" "q \<notin> set (pages_of pre)" "q \<notin> set (pages_of post)" "q \<noteq> 1"
    using l(10,11) mem by auto
  have len: "length (put4 d1 4 (of_nat (length ls - 1))) = bt_pageSize (bf_bt s)" using d1 b l(7) i by auto
  have tr: "trunk (bf_page ?t q) (word4 (bf_page c q) 0) ?ls"
    using trunk_drop_leaf [OF l(3) _ i d1] b l(7) pq by simp
  have "trunks (bf_page ?t) (word4 (bf_page c 1) 32) ?us" by (rule trunks_change [where P = "bf_page c" and P' = "bf_page ?t", OF l(8) _ tr]) (use pq in auto)
  moreover have "bf_page ?t 1 = bf_page c 1" using pq by simp
  moreover have "word4 (bf_page c 1) 36 = of_nat (length (pages_of ?us))" using l(9) i by simp
  moreover have "distinct (pages_of ?us)" using l(10) dr by auto
  moreover have "\<forall>(r, rs) \<in> set ?us. length rs \<le> bt_usableSize (bf_bt s) div 4 - 8" using ok by (auto simp: file_ok_def free_list_def)
  ultimately have fl: "free_list ?t ?us" using b(4) unfolding free_list_def by (simp del: setPage_simps(1))
  show ?thesis
  proof (rule obtainedI [OF ok c _ _ _ fl])
    show "set (pages_of ?us) = set (pages_of ?ts) - {?p}" using dr(1) pq by auto
    have "length z = bt_pageSize (bf_bt s)" using z b by auto
    then show "page_shape ?t" using b len by (intro page_shape_upd(6)) simp_all
  next
    fix r assume r: "bt_autoVacuum (bf_bt s)" "r \<in> set (pages_of ?us)"
    have reg: "regular (bf_bt s) x" if "x \<in> set (pages_of ?ts)" for x using ok that by (auto simp: file_ok_def data_page_def)
    have "r \<in> set (pages_of ?ts)" using r(2) dr(1) by auto
    then have "regular (bf_bt s) r" by (rule reg)
    moreover have "regular (bf_bt s) q" by (rule reg) simp
    moreover have "regular (bf_bt s) ?p" by (rule reg) (use mem in simp)
    ultimately show "entry ?t r = entry c r" using r(1) b len by (subst entry_setPage, simp_all)+
  next
    fix r assume "r \<in> dom U"
    then have "r \<notin> set (pages_of ?ts)" using ok by (auto simp: file_ok_def)
    then show "bf_page ?t r = bf_page c r" using mem by auto
  qed (use mem e j q z in \<open>auto simp: same_shape_def announced_def\<close>)
qed

lemma absC_dist:
  assumes "unat x < 2147483648" "unat y < 2147483648"
  shows "sint (absC (x - y)) = \<bar>int (unat x) - int (unat y)\<bar>"
proof -
  have s: "sint (word_of_int z :: u32) = z" if "- 2147483648 \<le> z" "z < 2147483648" for z
    using that by (simp add: signed_of_int signed_take_bit_int_eq_self)
  have d: "x - y = word_of_int (int (unat x) - int (unat y))" by simp
  have n: "- (x - y) = word_of_int (- (int (unat x) - int (unat y)))" by simp
  have "sint (x - y) = int (unat x) - int (unat y)" "sint (- (x - y)) = - (int (unat x) - int (unat y))"
    unfolding n unfolding d by (rule s; use assms in linarith)+
  then show ?thesis by (auto simp: absC_def)
qed

definition near :: "u32 \<Rightarrow> u32 \<Rightarrow> u32 list \<Rightarrow> bool" where
  "near nearby p ls \<longleftrightarrow> (0 < nearby \<longrightarrow> (\<forall>x \<in> set ls. sint (absC (p - nearby)) \<le> sint (absC (x - nearby))))"

lemma near_member:
  assumes "near nearby p ls" "nearby \<in> set ls" "0 < nearby" "unat p < 2147483648" "unat nearby < 2147483648"
  shows "p = nearby"
proof -
  have "sint (absC (p - nearby)) \<le> sint (absC (nearby - nearby))" using assms(1-3) unfolding near_def by blast
  then have "int (unat p) = int (unat nearby)" using absC_dist [OF assms(4,5)] absC_dist [OF assms(5,5)] by linarith
  then show ?thesis by (simp only: of_nat_eq_iff word_unat_eq_iff)
qed

lemma detachLeaf_runs:
  assumes ok: "file_ok s ts U" and ts: "ts = pre @ (q, ls) # post" and c: "reduced s c" and q: "q \<in> bf_touched c" and i: "i < length ls"
  shows "runs (detachLeaf q (int (length ls)) i (ls ! i)) c (\<lambda>r t. r = Taken (ls ! i) \<and> obtained s ts U (ls ! i) t) (system_error s)"
proof -
  note l = located [OF ok [unfolded ts] c] and b = reduced_length [OF c]
  let ?p = "ls ! i" and ?k = "length ls"
  have fit: "8 + 4 * ?k + 24 \<le> length (bf_page c q)" using l(7) b by simp
  have "data_page s ?p" using ok ts i by (simp add: file_ok_def)
  then have inf: "in_file c ?p" using c data_page_in_file [of c ?p] data_page_same [of s c ?p] by (auto simp: reduced_def)
  then have cnt: "\<not> sqlite3PagerPagecount c < ?p" by (simp add: in_file_def not_less)
  have pq: "?p \<noteq> q" using l(10) i by auto
  define d1 where "d1 = (if i < ?k - 1 then put4 (bf_page c q) (8 + i * 4) (word4 (bf_page c q) (4 + 4 * ?k)) else bf_page c q)"
  have ld: "length d1 = bt_pageSize (bf_bt s)" using fit i b by (auto simp: d1_def)
  let ?d = "put4 d1 4 (of_nat (?k - 1))"
  have n: "nat (4 + int ?k * 4) = 4 + 4 * ?k" "word_of_int (int ?k - 1) = (of_nat (?k - 1) :: u32)" using i by (auto simp: of_nat_diff)
  have m: "runs (if int i < int ?k - 1 then memcpyP q (8 + i * 4) q (4 + 4 * ?k) 4 else retD ()) c Q E" if "Q () (setPage q d1 c)" for Q :: "unit \<Rightarrow> BtFile \<Rightarrow> bool" and E
  proof (rule runs_if)
    assume "int i < int ?k - 1"
    then have "i < ?k - 1" by linarith
    with that fit show "runs (memcpyP q (8 + i * 4) q (4 + 4 * ?k) 4) c Q E" by (intro runs_copy4) (auto simp: d1_def)
  next
    assume "\<not> int i < int ?k - 1"
    then have "setPage q d1 c = c" using i by (simp add: d1_def setPage_def)
    with that show "runs (retD ()) c Q E" by (intro runs_ret) simp
  qed
  let ?c = "setPage q ?d c"
  have sc: "page_shape ?c" using b ld fit by simp
  have err: "system_error s rc t" if "rc \<in> set (bf_errs c)" "rc \<noteq> 0" "announced c t" for rc t using reduced_error [OF c] that by blast
  have fin: "runs (bindD (pagerAcquire ?p) (\<lambda>_. bindD (sqlite3PagerDontRollback ?p) (\<lambda>_. bindD (pager_write ?p) (\<lambda>_. retD (Taken ?p))))) ?c
     (\<lambda>r t. r = Taken ?p \<and> obtained s ts U ?p t) (system_error s)"
  proof (intro runs_bind runs_acquire sc, goal_cases)
    case (2 e)
    define z where "z = (if bf_noRead c ?p then replicate (bt_pageSize (bf_bt s)) 0 else bf_page c ?p)"
    define j where "j = (if bf_noRead c ?p then insert ?p (bf_touched c) else bf_touched c)"
    have tw: "(bf_page c)(q := ?d, ?p := bf_page c ?p) = (bf_page c)(q := ?d)" using pq by auto
    have st: "(if bf_noRead (?c\<lparr>bf_errs := e\<rparr>) ?p then setPage ?p (replicate (bt_pageSize (bf_bt (?c\<lparr>bf_errs := e\<rparr>))) 0)
        (?c\<lparr>bf_errs := e, bf_touched := insert ?p (bf_touched (?c\<lparr>bf_errs := e\<rparr>))\<rparr>) else ?c\<lparr>bf_errs := e\<rparr>)
      = setPage ?p z (setPage q ?d (c\<lparr>bf_errs := e, bf_touched := j\<rparr>))"
      using b pq tw by (auto simp: z_def j_def setPage_def)
    have z: "z = bf_page c ?p \<or> length z = bt_pageSize (bf_bt s) \<and> ?p \<in> insert ?p j" and lz: "length z = bt_pageSize (bf_bt s)" using b by (auto simp: z_def)
    have j: "bf_touched c \<subseteq> j" "z = bf_page c ?p \<or> ?p \<in> j" by (auto simp: j_def z_def)
    show ?case unfolding sqlite3PagerDontRollback_def
    proof (intro runs_modD, unfold st, intro runs_write runs_ret runs_bind, goal_cases)
      case (3 e')
      then have e': "set e' \<subseteq> set (bf_errs c)" using 2 by auto
      have "obtained s ts U ?p (setPage ?p z (setPage q ?d (c\<lparr>bf_errs := e', bf_touched := insert ?p j\<rparr>)))" unfolding ts
        by (rule leaf_taken [OF ok [unfolded ts] c i _ _ e' d1_def z]) (use q j in auto)
      then show ?case by simp
    next
      case (4 rc e')
      with 2 show ?case by (intro err) (use q j in \<open>auto simp: announced_def\<close>)
    qed (use sc inf lz b ld in \<open>auto intro!: page_shape_upd(6)\<close>)
  qed (use inf err q in \<open>auto simp: announced_def\<close>)
  show ?thesis unfolding detachLeaf_def n
    by (rule runs_bind, rule runs_getD, subst if_not_P [OF cnt], rule runs_bind, rule m, rule runs_bind, rule runs_put4) (use ld fit i fin b in auto)
qed

lemma takeLeaf_runs:
  assumes ok: "file_ok s ts U" and ts: "ts = pre @ (q, ls) # post" and c: "reduced s c" and ls: "ls \<noteq> []"
  shows "runs (takeLeaf q nearby search (int (length ls))) c (\<lambda>r t. case r of
      Taken p \<Rightarrow> obtained s ts U p t \<and> p \<in> set ls \<and> near nearby p ls \<and> (search \<longrightarrow> p = nearby)
    | NextTrunk r \<Rightarrow> search \<and> r = q \<and> reduced s t \<and> q \<in> bf_touched t \<and> (\<exists>x \<in> set ls. x \<noteq> nearby \<and> near nearby x ls)) (system_error s)"
    (is "runs _ _ ?Q _")
proof -
  note l = located [OF ok [unfolded ts] c] and b = reduced_length [OF c]
  have fit: "8 + 4 * length ls + 24 \<le> length (bf_page c q)" using l(7) b by simp
  have w: "word4 (bf_page c q) (8 + i * 4) = ls ! i" if "i < length ls" for i using l(3) that by (simp add: trunk_def mult.commute)
  have step: "runs (bindD (get4byte q (8 + i * 4)) (\<lambda>iPage. if \<not> search \<or> iPage = nearby then detachLeaf q (int (length ls)) i iPage else retD (NextTrunk q)))
      (c\<lparr>bf_errs := e, bf_touched := insert q (bf_touched c)\<rparr>) ?Q (system_error s)" (is "runs _ ?c _ _")
    if i: "i < length ls" "near nearby (ls ! i) ls" and e: "set e \<subseteq> set (bf_errs c)" for i e
  proof (intro runs_bind runs_get4)
    have c': "reduced s ?c" using c e by (intro reduced_upd) auto
    have d: "runs (detachLeaf q (int (length ls)) i (ls ! i)) ?c ?Q (system_error s)" if "\<not> search \<or> ls ! i = nearby"
      by (rule runs_mono [OF detachLeaf_runs [OF ok ts c' _ i(1)]]) (use that i in auto)
    have "runs (retD (NextTrunk q)) ?c ?Q (system_error s)" if "search" "ls ! i \<noteq> nearby"
      using that c' i by (intro runs_ret) (auto intro!: bexI [of _ "ls ! i"])
    with d show "runs (if \<not> search \<or> word4 (bf_page ?c q) (8 + i * 4) = nearby then detachLeaf q (int (length ls)) i (word4 (bf_page ?c q) (8 + i * 4)) else retD (NextTrunk q)) ?c ?Q (system_error s)"
      using w [OF i(1)] by auto
  qed (use fit i in simp)
  show ?thesis unfolding takeLeaf_def
  proof (intro runs_bind runs_write b(1) l(2), goal_cases)
    case (1 e)
    show ?case
    proof (rule closestLeaf_runs [where nxt = "word4 (bf_page c q) 0" and ls = ls])
      fix i assume "i < length ls" "\<forall>j < length ls. sint (absC (ls ! i - nearby)) \<le> sint (absC (ls ! j - nearby))"
      then show "runs (bindD (get4byte q (8 + i * 4)) (\<lambda>iPage. if \<not> search \<or> iPage = nearby then detachLeaf q (int (length ls)) i iPage else retD (NextTrunk q)))
        (c\<lparr>bf_errs := e, bf_touched := insert q (bf_touched c)\<rparr>) ?Q (system_error s)" using 1 by (intro step) (auto simp: near_def in_set_conv_nth)
    next
      assume "nearby = 0"
      then show "runs (bindD (get4byte q (8 + 0 * 4)) (\<lambda>iPage. if \<not> search \<or> iPage = nearby then detachLeaf q (int (length ls)) 0 iPage else retD (NextTrunk q)))
        (c\<lparr>bf_errs := e, bf_touched := insert q (bf_touched c)\<rparr>) ?Q (system_error s)" using 1 ls by (intro step) (auto simp: near_def)
    qed (use l(3) fit ls in auto)
  next
    case (2 rc e)
    then show ?case using reduced_error [OF c] by (auto simp: announced_def)
  qed
qed


text \<open>A trunk that is taken itself: the link to it is set to what follows, or to its first leaf, which becomes a trunk.\<close>

lemma page_in_use:
  assumes "file_ok s ts U" "r \<in> dom U"
  shows "data_page s r" "regular (bf_bt s) r" "r \<noteq> 1" "r \<notin> set (pages_of ts)"
proof -
  show "data_page s r" "r \<notin> set (pages_of ts)" using assms by (auto simp: file_ok_def)
  then show "regular (bf_bt s) r" "r \<noteq> 1" by (auto simp: data_page_def)
qed

lemma prev_in_pre: "pre \<noteq> [] \<Longrightarrow> fst (last pre) \<in> set (pages_of pre)"
  by (cases pre rule: rev_cases) (auto simp: pages_of_def split: prod.splits)

lemma putLink_other: "r \<noteq> 1 \<Longrightarrow> r \<notin> set (pages_of pre) \<Longrightarrow> putLink (prevOf pre) y P r = P r"
  using prev_in_pre [of pre] by (auto simp: putLink_def prevOf_def)

lemma trunk_taken:
  assumes ok: "file_ok s ts U" and ts: "ts = pre @ (q, ls) # post" and c: "reduced s c"
    and t: "page_shape t" "same_shape c t" "announced c t" "bf_page t = putLink (prevOf pre) y P"
    and P: "\<And>r. r \<notin> set ls \<Longrightarrow> P r = bf_page c r" and tr: "trunks P y us"
    and us: "set (pages_of us) = set ls \<union> set (pages_of post)" "length (pages_of us) = length ls + length (pages_of post)"
      "\<And>r rs. (r, rs) \<in> set us \<Longrightarrow> length rs \<le> length ls \<or> (r, rs) \<in> set post"
  shows "obtained s ts U q t"
proof -
  note l = located [OF ok [unfolded ts] c] and b = reduced_length [OF c]
  have ts_ok: "\<And>r. r \<in> set (pages_of ts) \<Longrightarrow> regular (bf_bt s) r" using ok by (auto simp: file_ok_def data_page_def)
  have dis: "distinct (pages_of us)" using us(1,2) l(10) by (intro card_distinct) (simp add: card_Un_disjoint distinct_card)
  have out: "r \<noteq> 1" "r \<notin> set (pages_of pre)" if "r \<in> set (pages_of us)" for r using that us(1) l(10,11) by auto
  have "trunks (bf_page t) y us" using tr by (rule trunks_cong [THEN iffD1, rotated]) (use out t(4) putLink_other in auto)
  then have tk: "trunks (bf_page t) (word4 (bf_page t 1) 32) (pre @ us)"
  proof (rule trunks_relink [OF l(8), rotated -1])
    fix r assume r: "r = 1 \<or> r \<in> set (pages_of pre)"
    then have "r \<notin> set ls" "fst (last pre) \<notin> set ls" "1 \<notin> set ls" if "pre \<noteq> []" using l(10,11) prev_in_pre [OF that] by auto
    then show "bf_page t r = putLink (prevOf pre) y (bf_page c) r" using r P l(11) by (auto simp: t(4) putLink_def prevOf_def)
  qed (use b l(10,11) in auto)
  have c36: "word4 (bf_page t 1) 36 = word4 (bf_page c 1) 36"
  proof -
    have "P 1 = bf_page c 1" using P l(11) by simp
    then show ?thesis using b prev_in_pre [of pre] l(11) by (auto simp: t(4) putLink_def prevOf_def page_words)
  qed
  have "free_list t (pre @ us)" unfolding free_list_def
  proof (intro conjI tk)
    show "word4 (bf_page t 1) 36 = of_nat (length (pages_of (pre @ us)))" using c36 l(9) us(2) by simp
    show "distinct (pages_of (pre @ us))" using dis l(10) us(1) by auto
    have "bf_bt t = bf_bt s" using t(2) b by (simp add: same_shape_def)
    moreover have "length rs \<le> bt_usableSize (bf_bt s) div 4 - 8" if "(r, rs) \<in> set pre \<union> set post" for r rs using ok ts that by (auto simp: file_ok_def free_list_def)
    moreover note l(6) us(3)
    ultimately show "\<forall>(r, rs) \<in> set (pre @ us). length rs \<le> bt_usableSize (bf_bt t) div 4 - 8" by fastforce
  qed
  then show ?thesis
  proof (rule obtainedI [OF ok c t(1-3)])
    show "q \<in> set (pages_of ts)" by (simp add: ts)
    show "set (pages_of (pre @ us)) = set (pages_of ts) - {q}" using us(1) l(10) by (auto simp: ts)
  next
    fix r assume "r \<in> dom U"
    from page_in_use [OF ok this] show "bf_page t r = bf_page c r" using P putLink_other by (simp add: t(4) ts)
  next
    fix r assume r: "bt_autoVacuum (bf_bt s)" "r \<in> set (pages_of (pre @ us))"
    then have "r \<in> set (pages_of ts)" using us(1) by (auto simp: ts)
    then have reg: "regular (bf_bt s) r" by (rule ts_ok)
    have bs: "bt_shape (bf_bt s)" using ok by (simp add: file_ok_def page_shape_def)
    let ?m = "ptrmapPageno (bf_bt s) r"
    have "?m \<noteq> 1" "\<not> regular (bf_bt s) ?m" using regular_map [OF bs r(1) reg] r(1) by (auto simp: regular_def)
    then have "?m \<notin> set (pages_of ts)" "?m \<noteq> 1" using ts_ok by auto
    then have "bf_page t ?m = bf_page c ?m" using P putLink_other by (simp add: t(4) ts)
    moreover have "bf_bt t = bf_bt c" "bf_bt c = bf_bt s" using t(2) b by (simp_all add: same_shape_def)
    ultimately show "entry t r = entry c r" by (simp add: entry_def Let_def)
  qed
qed

lemma trunk_copy:
  assumes "trunk e nxt (x # xs)" "12 + 4 * length xs \<le> length e" "8 + 4 * length xs \<le> length d" "word4 d 4 = of_nat (length xs)"
  obtains D where "memcpyB d 8 e 12 (4 * length xs) = Inr D" "length D = length d" "trunk D (word4 d 0) xs"
proof -
  define D where "D = take 8 d @ take (4 * length xs) (drop 12 e) @ drop (8 + 4 * length xs) d"
  have m: "memcpyB d 8 e 12 (4 * length xs) = Inr D" using assms(2,3) by (simp add: memcpyB_def D_def)
  have len: "length D = length d" using assms(2,3) by (simp add: D_def)
  have lo: "D ! j = d ! j" if "j < 8" for j using that assms(3) by (simp add: D_def nth_append)
  have hi: "D ! (8 + j) = e ! (12 + j)" if "j < 4 * length xs" for j using that assms(2,3) by (simp add: D_def nth_append)
  have "word4 D (8 + 4 * i) = xs ! i" if "i < length xs" for i
  proof -
    have "word4 D (8 + 4 * i) = word4 e (8 + 4 * Suc i)" using that hi [of "4 * i"] hi [of "4 * i + 1"] hi [of "4 * i + 2"] hi [of "4 * i + 3"]
      by (simp add: word4_def algebra_simps)
    also have "\<dots> = (x # xs) ! Suc i" using assms(1) that by (auto simp: trunk_def)
    finally show ?thesis by simp
  qed
  moreover have "word4 D 0 = word4 d 0" "word4 D 4 = word4 d 4" by (rule word4_agree, simp add: lo)+
  ultimately have "trunk D (word4 d 0) xs" using assms(4) by (simp add: trunk_def)
  with m len show thesis by (rule that)
qed

lemma setPage_putLink:
  "prevOf pre = None \<Longrightarrow> bf_page (setPage 1 (put4 (bf_page u 1) 32 y) u) = putLink (prevOf pre) y (bf_page u)"
  "prevOf pre = Some p \<Longrightarrow> bf_page (setPage p (put4 (bf_page u p) 0 y) u) = putLink (prevOf pre) y (bf_page u)"
  by (simp_all add: putLink_def)

lemma empty_trunk_taken:
  assumes ok: "file_ok s ts U" and ts: "ts = pre @ (q, []) # post" and c: "reduced s c" and j: "pre \<noteq> [] \<Longrightarrow> fst (last pre) \<in> bf_touched c" and e: "set e \<subseteq> set (bf_errs c)"
  shows "runs (setLink (prevOf pre) q) (c\<lparr>bf_errs := e, bf_touched := insert q (bf_touched c)\<rparr>) (\<lambda>_. obtained s ts U q) (system_error s)" (is "runs _ ?c _ _")
proof -
  note l = located [OF ok [unfolded ts] c] and b = reduced_length [OF c]
  have taken: "obtained s ts U q t" if t: "page_shape t" "same_shape c t" "announced c t" "bf_page t = putLink (prevOf pre) (word4 (bf_page c q) 0) (bf_page c)" for t
    by (rule trunk_taken [OF ok ts c t, where us = post]) (use l(4) in auto)
  have one: "1 \<in> bf_touched c" using c by (simp add: reduced_def)
  show ?thesis
  proof (cases "prevOf pre")
    case None
    let ?t = "setPage 1 (put4 (bf_page ?c 1) 32 (word4 (bf_page ?c q) 0)) ?c"
    have "obtained s ts U q ?t"
    proof (rule taken)
      show "bf_page ?t = putLink (prevOf pre) (word4 (bf_page c q) 0) (bf_page c)" using setPage_putLink(1) [OF None, of ?c "word4 (bf_page c q) 0"] by simp
    qed (use b e one in \<open>auto simp: same_shape_def announced_def\<close>)
    then show ?thesis unfolding setLink_def using None b by (auto intro!: runs_copy4)
  next
    case (Some p)
    then have p: "p \<in> bf_touched c" using j by (auto simp: prevOf_def split: if_splits)
    let ?t = "setPage p (put4 (bf_page ?c p) 0 (word4 (bf_page ?c q) 0)) ?c"
    have "obtained s ts U q ?t"
    proof (rule taken)
      show "bf_page ?t = putLink (prevOf pre) (word4 (bf_page c q) 0) (bf_page c)" using setPage_putLink(2) [OF Some, of ?c "word4 (bf_page c q) 0"] by simp
    qed (use b e p in \<open>auto simp: same_shape_def announced_def\<close>)
    then show ?thesis unfolding setLink_def using Some b by (auto intro!: runs_copy4)
  qed
qed

lemma runs_memcpy: "0 \<le> n \<Longrightarrow> memcpyB (bf_page s p) a (bf_page s q) b (nat n) = Inr d \<Longrightarrow> Q () (setPage p d s) \<Longrightarrow> runs (memcpyP p a q b n) s Q E"
  by (simp add: runs_def memcpyP_def)

lemma takeWanted_runs:
  assumes ok: "file_ok s ts U" and ts: "ts = pre @ (q, ls) # post" and c: "reduced s c" and j: "pre \<noteq> [] \<Longrightarrow> fst (last pre) \<in> bf_touched c"
  shows "runs (takeWanted (prevOf pre) q (int (length ls))) c (\<lambda>_. obtained s ts U q) (system_error s)"
proof (cases ls)
  case Nil
  note l = located [OF ok [unfolded ts] c] and b = reduced_length [OF c]
  show ?thesis unfolding takeWanted_def Nil
  proof (intro runs_bind runs_write b(1) l(2), goal_cases)
    case (1 e)
    then show ?case using empty_trunk_taken [OF ok ts [unfolded Nil] c j] by simp
  qed (use reduced_error [OF c] in \<open>auto simp: announced_def\<close>)
next
  case (Cons x xs)
  note l = located [OF ok [unfolded ts] c] and b = reduced_length [OF c]
  have one: "1 \<in> bf_touched c" using c by (simp add: reduced_def)
  have x: "in_file c x" "x \<noteq> q" "x \<noteq> 1" "x \<notin> set (pages_of pre)" "x \<notin> set (pages_of post)"
  proof -
    have "data_page s x" using ok ts Cons by (simp add: file_ok_def)
    then show "in_file c x" using c data_page_in_file [of c x] data_page_same [of s c x] by (auto simp: reduced_def)
  qed (use l(10,11) Cons in auto)
  have w8: "word4 (bf_page c q) 8 = x" using l(3) Cons by (auto simp: trunk_def dest: spec [of _ 0])
  define d2 where "d2 = put4 (put4 (bf_page c x) 0 (word4 (bf_page c q) 0)) 4 (of_nat (length xs))"
  have d2: "length d2 = bt_pageSize (bf_bt s)" "word4 d2 0 = word4 (bf_page c q) 0" "word4 d2 4 = of_nat (length xs)" using b by (simp_all add: d2_def page_words)
  obtain D where D: "memcpyB d2 8 (bf_page c q) 12 (4 * length xs) = Inr D" "length D = bt_pageSize (bf_bt s)" "trunk D (word4 (bf_page c q) 0) xs"
    using trunk_copy [of "bf_page c q" _ x xs d2] l(3,7) b d2 Cons by auto
  have taken: "obtained s ts U q t" if t: "page_shape t" "same_shape c t" "announced c t" "bf_page t = putLink (prevOf pre) x ((bf_page c)(x := D))" for t
  proof (rule trunk_taken [OF ok ts c t, where us = "(x, xs) # post"])
    have "trunks ((bf_page c)(x := D)) (word4 (bf_page c q) 0) post" using l(4) by (rule trunks_cong [THEN iffD1, rotated]) (use x in auto)
    then show "trunks ((bf_page c)(x := D)) x ((x, xs) # post)" using D(3) by auto
  qed (use Cons in auto)
  have eq: "(int (length ls) - 1) * 4 = int (4 * length xs)" "word_of_int (int (length ls) - 1) = (of_nat (length xs) :: u32)" "int (length ls) \<noteq> 0" using Cons by auto
  have fin: "runs (case prevOf pre of None \<Rightarrow> put4byte 1 32 x | Some p \<Rightarrow> bindD (pager_write p) (\<lambda>_. put4byte p 0 x))
      (setPage x D (c\<lparr>bf_errs := e, bf_touched := insert x (insert q (bf_touched c))\<rparr>)) (\<lambda>_. obtained s ts U q) (system_error s)" (is "runs _ ?u _ _")
    if e: "set e \<subseteq> set (bf_errs c)" for e
  proof -
    have sh: "page_shape ?u" using b D(2) by simp
    have P: "bf_page ?u = (bf_page c)(x := D)" by simp
    show ?thesis
    proof (cases "prevOf pre")
      case None
      have "obtained s ts U q (setPage 1 (put4 (bf_page ?u 1) 32 x) ?u)"
      proof (rule taken)
        show "bf_page (setPage 1 (put4 (bf_page ?u 1) 32 x) ?u) = putLink (prevOf pre) x ((bf_page c)(x := D))" using setPage_putLink(1) [OF None, of ?u x] by simp
      qed (use b D(2) e one x in \<open>auto simp: same_shape_def announced_def\<close>)
      then show ?thesis using None b D(2) by (auto intro!: runs_put4)
    next
      case (Some p)
      then have p: "p \<in> set (pages_of pre)" using prev_in_pre [of pre] by (auto simp: prevOf_def split: if_splits)
      then have "data_page s p" using ok ts by (simp add: file_ok_def)
      then have pf: "in_file c p" using c data_page_in_file [of c p] data_page_same [of s c p] by (auto simp: reduced_def)
      have "runs (bindD (pager_write p) (\<lambda>_. put4byte p 0 x)) ?u (\<lambda>_. obtained s ts U q) (system_error s)"
      proof (intro runs_bind runs_write runs_put4 sh, goal_cases)
        case (3 e')
        let ?v = "setPage x D (c\<lparr>bf_errs := e', bf_touched := insert p (insert x (insert q (bf_touched c)))\<rparr>)"
        have "obtained s ts U q (setPage p (put4 (bf_page ?v p) 0 x) ?v)"
        proof (rule taken)
          show "bf_page (setPage p (put4 (bf_page ?v p) 0 x) ?v) = putLink (prevOf pre) x ((bf_page c)(x := D))" using setPage_putLink(2) [OF Some, of ?v x] by simp
        qed (use b D(2) e 3 in \<open>auto simp: same_shape_def announced_def\<close>)
        then show ?case by simp
      next
        case (4 rc e')
        then show ?case using e by (intro reduced_error [OF c]) (auto simp: announced_def)
      qed (use pf b D(2) in auto)
      then show ?thesis using Some by simp
    qed
  qed
  show ?thesis unfolding takeWanted_def eq if_not_P [OF eq(3)]
  proof (intro runs_bind runs_write runs_get4 runs_acquire runs_copy4 runs_put4 b(1) l(2), goal_cases)
    case (9 e ea eb)
    then have "set eb \<subseteq> set (bf_errs c)" by auto
    note f = fin [OF this]
    have w: "word4 (bf_page (c\<lparr>bf_errs := e, bf_touched := insert q (bf_touched c)\<rparr>) q) 8 = x" "nat (4 * int (length xs)) = 4 * length xs" using w8 by simp_all
    show ?case unfolding w(1) by (rule runs_memcpy [where d = D]) (use f D(1) x(2) w(2) in \<open>simp_all add: d2_def\<close>)
  qed (use b x w8 in \<open>auto intro!: reduced_error [OF c] simp: announced_def\<close>)
qed


subsection \<open>The search\<close>

definition linkRead :: "u32 option \<Rightarrow> u32 db" where
  "linkRead prev = (case prev of Some p \<Rightarrow> get4byte p 0 | None \<Rightarrow> get4byte 1 32)"

lemma runs_linkRead: "(\<And>p. 36 \<le> length (bf_page s p)) \<Longrightarrow> Q (linkOf (bf_page s) prev) s \<Longrightarrow> runs (linkRead prev) s Q E"
proof -
  assume l: "\<And>p. 36 \<le> length (bf_page s p)" and Q: "Q (linkOf (bf_page s) prev) s"
  show ?thesis
  proof (cases prev)
    case None
    then show ?thesis using l [of 1] Q by (simp add: linkRead_def linkOf_def runs_get4)
  next
    case (Some p)
    then show ?thesis using l [of p] Q by (simp add: linkRead_def linkOf_def runs_get4)
  qed
qed

lemma trunkStep_runs:
  assumes ok: "file_ok s ts U" and ts: "ts = pre @ (q, ls) # post" and c: "reduced s c"
    and R: "\<And>e. set e \<subseteq> set (bf_errs c) \<Longrightarrow> runs (if ls = [] \<and> \<not> search then
         bindD (pager_write q) (\<lambda>_. bindD (memcpyP 1 32 q 0 4) (\<lambda>_. retD (Taken q)))
       else if search \<and> nearby = q then bindD (takeWanted (prevOf pre) q (int (length ls))) (\<lambda>_. retD (Taken nearby))
       else takeLeaf q nearby search (int (length ls))) (c\<lparr>bf_errs := e\<rparr>) Q (system_error s)"
  shows "runs (trunkStep (prevOf pre) nearby search) c Q (system_error s)"
proof -
  note l = located [OF ok [unfolded ts] c] and b = reduced_length [OF c]
  have u: "\<not> int (bt_usableSize (bf_bt s)) div 4 - 8 < int (length ls)"
    using l(6) ok by (auto simp: file_ok_def page_shape_def bt_shape_def)
  show ?thesis unfolding trunkStep_def linkRead_def [symmetric]
  proof (intro runs_bind runs_linkRead runs_acquire runs_get4 runs_getD b(1), goal_cases)
    case (4 e)
    with R [of e] l(1,5) b u show ?case by (auto simp: Let_def split: if_splits)
  qed (use b l(1,2) in \<open>auto intro!: reduced_error [OF c] simp: announced_def\<close>)
qed

definition first_choice :: "u32 \<Rightarrow> (u32 \<times> u32 list) list \<Rightarrow> u32 \<Rightarrow> bool" where
  "first_choice nearby ts p \<longleftrightarrow> (case ts of [] \<Rightarrow> True | (q, ls) # _ \<Rightarrow> if ls = [] then p = q else p \<in> set ls \<and> near nearby p ls)"

lemma trunkStep_plain:
  assumes ok: "file_ok s ts U" and ts: "ts \<noteq> []" and c: "reduced s c"
  shows "runs (trunkStep None nearby False) c (\<lambda>r t. \<exists>p. r = Taken p \<and> obtained s ts U p t \<and> first_choice nearby ts p) (system_error s)" (is "runs _ _ ?Q _")
proof -
  obtain q ls post where t: "ts = [] @ (q, ls) # post" using ts by (cases ts) auto
  note l = located [OF ok [unfolded t] c] and b = reduced_length [OF c]
  have p: "prevOf [] = None" by (simp add: prevOf_def)
  show ?thesis
  proof (rule trunkStep_runs [OF ok t c, unfolded p])
    fix e assume e: "set e \<subseteq> set (bf_errs c)"
    let ?c = "c\<lparr>bf_errs := e\<rparr>"
    have c': "reduced s ?c" using c e by (rule reduced_upd(2))
    have "runs (bindD (pager_write q) (\<lambda>_. bindD (memcpyP 1 32 q 0 4) (\<lambda>_. retD (Taken q)))) ?c ?Q (system_error s)" if ls: "ls = []"
    proof (rule runs_bind, rule runs_write)
      fix e' assume "set e' \<subseteq> set (bf_errs ?c)"
      then have "runs (setLink (prevOf []) q) (?c\<lparr>bf_errs := e', bf_touched := insert q (bf_touched ?c)\<rparr>) (\<lambda>_. obtained s ts U q) (system_error s)"
        using t ls by (intro empty_trunk_taken [OF ok _ c']) auto
      then have "runs (memcpyP 1 32 q 0 4) (?c\<lparr>bf_errs := e', bf_touched := insert q (bf_touched ?c)\<rparr>) (\<lambda>_. obtained s ts U q) (system_error s)"
        by (simp add: setLink_def prevOf_def)
      then show "runs (bindD (memcpyP 1 32 q 0 4) (\<lambda>_. retD (Taken q))) (?c\<lparr>bf_errs := e', bf_touched := insert q (bf_touched ?c)\<rparr>) ?Q (system_error s)"
        by (intro runs_bind, elim runs_mono) (use t ls in \<open>auto intro!: runs_ret simp: first_choice_def\<close>)
    qed (use b l(2) e in \<open>auto intro!: reduced_error [OF c'] simp: announced_def\<close>)
    moreover have "runs (takeLeaf q nearby False (int (length ls))) ?c ?Q (system_error s)" if ls: "ls \<noteq> []"
      by (rule runs_mono [OF takeLeaf_runs [OF ok t c' ls]]) (use t ls in \<open>auto simp: first_choice_def split: trunk_result.splits\<close>)
    ultimately show "runs (if ls = [] \<and> \<not> False then bindD (pager_write q) (\<lambda>_. bindD (memcpyP 1 32 q 0 4) (\<lambda>_. retD (Taken q)))
       else if False \<and> nearby = q then bindD (takeWanted None q (int (length ls))) (\<lambda>_. retD (Taken nearby))
       else takeLeaf q nearby False (int (length ls))) ?c ?Q (system_error s)" by simp
  qed
qed

text \<open>
  A search looks at every trunk up to the page. It reads the place of the first leaf also in a
  trunk without leaves, so what an earlier use of that page left there must not be the page.
\<close>

definition no_stale :: "BtFile \<Rightarrow> (u32 \<times> u32 list) list \<Rightarrow> u32 \<Rightarrow> bool" where
  "no_stale s ts p \<longleftrightarrow> (\<forall>(q, ls) \<in> set ts. ls = [] \<longrightarrow> q \<noteq> p \<longrightarrow> word4 (bf_page s q) 8 \<noteq> p)"

lemma data_page_small: "data_page s p \<Longrightarrow> unat p < 2147483648 \<and> 0 < p"
  by (auto simp: data_page_def regular_def word_le_nat_alt word_less_nat_alt)

lemma trunkStep_search:
  assumes ok: "file_ok s ts U" and ts: "ts = pre @ (q, ls) # post" and c: "reduced s c" and j: "pre \<noteq> [] \<Longrightarrow> fst (last pre) \<in> bf_touched c"
    and p: "nearby \<in> set (pages_of ts)" and st: "no_stale s ts nearby"
  shows "runs (trunkStep (prevOf pre) nearby True) c
    (\<lambda>r t. r = Taken nearby \<and> obtained s ts U nearby t \<or> r = NextTrunk q \<and> reduced s t \<and> q \<in> bf_touched t \<and> nearby \<noteq> q \<and> nearby \<notin> set ls) (system_error s)" (is "runs _ _ ?Q _")
proof (rule trunkStep_runs [OF ok ts c])
  fix e assume e: "set e \<subseteq> set (bf_errs c)"
  note l = located [OF ok [unfolded ts] c] and b = reduced_length [OF c]
  let ?c = "c\<lparr>bf_errs := e\<rparr>"
  have c': "reduced s ?c" using c e by (rule reduced_upd(2))
  have small: "unat r < 2147483648 \<and> 0 < r" if "r \<in> set (pages_of ts)" for r using ok that by (intro data_page_small [of s]) (simp add: file_ok_def)
  have "runs (bindD (takeWanted (prevOf pre) q (int (length ls))) (\<lambda>_. retD (Taken nearby))) ?c ?Q (system_error s)" if "nearby = q"
    by (rule runs_bind, rule runs_mono [OF takeWanted_runs [OF ok ts c']]) (use j that in \<open>auto intro!: runs_ret\<close>)
  moreover have "runs (takeLeaf q nearby True (int (length ls))) ?c ?Q (system_error s)" if q: "nearby \<noteq> q"
  proof (cases "ls = []")
    case True
    have w: "word4 (bf_page c q) 8 \<noteq> nearby"
    proof -
      have "q \<noteq> 1" using l(11) by auto
      then have "bf_page c q = bf_page s q" using c by (simp add: reduced_def)
      with st ts True q show ?thesis by (auto simp: no_stale_def)
    qed
    have cl: "runs (closestLeaf q nearby 0) t (\<lambda>i u. i = 0 \<and> u = t) E" if "12 \<le> length (bf_page t q)" for t E
      using that Get4byte_word4 [of 8 "bf_page t q"] by (auto simp: runs_def closestLeaf_def bindD_def get4byte_def retD_def)
    have k: "int (length ls) = 0" using True by simp
    show ?thesis unfolding takeLeaf_def k
    proof (intro runs_bind runs_write, goal_cases)
      case (3 e')
      show ?case
      proof (rule runs_mono [OF cl])
        fix i :: nat and t assume it: "i = 0 \<and> t = ?c\<lparr>bf_errs := e', bf_touched := insert q (bf_touched ?c)\<rparr>"
        have "set e' \<subseteq> set (bf_errs c)" using 3 e by auto
        then have "reduced s t" using it reduced_upd(1) [OF c, of e' "insert q (bf_touched c)"] by auto
        then show "runs (bindD (get4byte q (8 + i * 4)) (\<lambda>iPage. if \<not> True \<or> iPage = nearby then detachLeaf q 0 i iPage else retD (NextTrunk q))) t ?Q (system_error s)"
          by (intro runs_bind runs_get4) (use it w q b True in \<open>auto intro!: runs_ret\<close>)
      qed (use b in auto)
    qed (use b l(2) in \<open>auto intro!: reduced_error [OF c'] simp: announced_def\<close>)
  next
    case False
    have "nearby \<notin> set ls" if "x \<in> set ls" "x \<noteq> nearby" "near nearby x ls" for x
      using near_member [OF that(3)] that small [of x] small [OF p] by (auto simp: ts)
    then show ?thesis using q by (intro runs_mono [OF takeLeaf_runs [OF ok ts c' False]]) (auto split: trunk_result.splits)
  qed
  ultimately show "runs (if ls = [] \<and> \<not> True then bindD (pager_write q) (\<lambda>_. bindD (memcpyP 1 32 q 0 4) (\<lambda>_. retD (Taken q)))
       else if True \<and> nearby = q then bindD (takeWanted (prevOf pre) q (int (length ls))) (\<lambda>_. retD (Taken nearby))
       else takeLeaf q nearby True (int (length ls))) ?c ?Q (system_error s)" by simp
qed

text \<open>An operation that may not end: it ends, and its outcome is described as before.\<close>

definition settles :: "((int + 'a) \<times> BtFile) cres option \<Rightarrow> ('a \<Rightarrow> BtFile \<Rightarrow> bool) \<Rightarrow> (int \<Rightarrow> BtFile \<Rightarrow> bool) \<Rightarrow> bool" where
  "settles m Q E \<longleftrightarrow> (case m of None \<Rightarrow> False | Some (Inl e) \<Rightarrow> False | Some (Inr (Inl rc, t)) \<Rightarrow> E rc t | Some (Inr (Inr x, t)) \<Rightarrow> Q x t)"

lemma trunkLoop_search:
  assumes ok: "file_ok s ts U" and p: "nearby \<in> set (pages_of ts)" and st: "no_stale s ts nearby"
  shows "ts = pre @ post \<Longrightarrow> reduced s c \<Longrightarrow> (pre \<noteq> [] \<Longrightarrow> fst (last pre) \<in> bf_touched c) \<Longrightarrow> nearby \<in> set (pages_of post) \<Longrightarrow>
    settles (trunkLoop (prevOf pre) nearby True c) (\<lambda>r t. r = nearby \<and> obtained s ts U nearby t) (system_error s)"
proof (induction post arbitrary: pre c)
  case (Cons a post)
  obtain q ls where a: "a = (q, ls)" by (cases a)
  have ts: "ts = pre @ (q, ls) # post" using Cons.prems(1) a by simp
  have "runs (trunkStep (prevOf pre) nearby True) c
    (\<lambda>r t. r = Taken nearby \<and> obtained s ts U nearby t \<or> r = NextTrunk q \<and> reduced s t \<and> q \<in> bf_touched t \<and> nearby \<noteq> q \<and> nearby \<notin> set ls) (system_error s)"
    by (rule trunkStep_search [OF ok ts Cons.prems(2) _ p st]) (rule Cons.prems(3))
  then show ?case
  proof (rule runs_cases)
    fix r t assume val: "trunkStep (prevOf pre) nearby True c = Inr (Inr r, t)"
      "r = Taken nearby \<and> obtained s ts U nearby t \<or> r = NextTrunk q \<and> reduced s t \<and> q \<in> bf_touched t \<and> nearby \<noteq> q \<and> nearby \<notin> set ls"
    then consider "r = Taken nearby" "obtained s ts U nearby t" | "r = NextTrunk q" "reduced s t" "q \<in> bf_touched t" "nearby \<noteq> q" "nearby \<notin> set ls" by blast
    then show ?thesis
    proof cases
      case 2
      have "settles (trunkLoop (prevOf (pre @ [a])) nearby True t) (\<lambda>r t. r = nearby \<and> obtained s ts U nearby t) (system_error s)"
        by (rule Cons.IH) (use Cons.prems a 2 in auto)
      then show ?thesis using val 2 a by (subst trunkLoop.simps) (simp add: prevOf_def)
    qed (use val in \<open>subst trunkLoop.simps, simp add: settles_def\<close>)
  qed (subst trunkLoop.simps, simp add: settles_def)
qed simp


subsection \<open>Allocation as a whole\<close>

lemma reduced_begin:
  assumes "page_shape s" "set e \<subseteq> set (bf_errs s)"
  shows "reduced s (setPage 1 (put4 (bf_page s 1) 36 (word4 (bf_page s 1) 36 - 1)) (s\<lparr>bf_errs := e, bf_touched := insert 1 (bf_touched s)\<rparr>))"
proof -
  have "512 \<le> length (bf_page s 1)" "length (bf_page s 1) = bt_pageSize (bf_bt s)" using assms(1) by (auto simp: page_shape_def bt_shape_def)
  then show ?thesis using assms by (auto simp: reduced_def same_shape_def announced_def)
qed

lemma runs_reduce:
  assumes ok: "file_ok s ts U" and t: "t = s\<lparr>bf_errs := e\<rparr>" "set e \<subseteq> set (bf_errs s)"
  shows "runs (bindD (pager_write 1) (\<lambda>_. bindD (put4byte 1 36 (word_of_int (sint (word4 (bf_page s 1) 36) - 1))) (\<lambda>_. retD b))) t
    (\<lambda>r c. r = b \<and> reduced s c) (system_error s)"
proof -
  have s: "page_shape s" "512 \<le> length (bf_page s 1)" using ok by (auto simp: file_ok_def page_shape_def bt_shape_def)
  show ?thesis
  proof (intro runs_bind runs_write runs_put4 runs_ret, goal_cases)
    case (4 e')
    with reduced_begin [OF s(1), of e'] t show ?case by simp
  qed (use s t one_in_file [OF s(1)] in \<open>auto simp: system_error_def announced_def\<close>)
qed

lemma beginReuse_plain:
  assumes ok: "file_ok s ts U"
  shows "runs (beginReuse nearby False (sint (word4 (bf_page s 1) 36))) s (\<lambda>r c. \<not> r \<and> reduced s c) (system_error s)"
proof -
  have "s = s\<lparr>bf_errs := bf_errs s\<rparr>" by simp
  from runs_reduce [OF ok this, of False] show ?thesis unfolding beginReuse_def
    by (intro runs_bind [of "getD sqlite3PagerPagecount"] runs_getD, intro runs_bind [of "if _ then _ else _"]) (auto intro!: runs_ret elim: runs_mono)
qed

lemma beginReuse_exact:
  assumes ok: "file_ok s ts U" and a: "bt_autoVacuum (bf_bt s)" and p: "nearby \<in> set (pages_of ts)"
  shows "runs (beginReuse nearby True (sint (word4 (bf_page s 1) 36))) s (\<lambda>r c. r \<and> reduced s c) (system_error s)"
proof -
  have s: "page_shape s" "data_page s nearby" "entry s nearby = (PTRMAP_FREEPAGE, 0)" using ok p a by (auto simp: file_ok_def)
  have f: "in_file s nearby" "regular (bf_bt s) nearby" using data_page_in_file [OF s(1,2)] s(2) by (auto simp: data_page_def)
  then have n: "nearby \<le> sqlite3PagerPagecount s" by (simp add: in_file_def)
  have g: "runs (ptrmapGet nearby) s (\<lambda>x t. \<exists>e. set e \<subseteq> set (bf_errs s) \<and> t = s\<lparr>bf_errs := e\<rparr> \<and> x = (PTRMAP_FREEPAGE, 0)) (system_error s)"
    by (rule runs_ptrmapGet [OF s(1) a f(2,1)]) (use s(3) in \<open>auto simp: PTRMAP_FREEPAGE_def system_error_def announced_def\<close>)
  have red: "runs (bindD (pager_write 1) (\<lambda>_. bindD (put4byte 1 36 (word_of_int (sint (word4 (bf_page s 1) 36) - 1))) (\<lambda>_. retD True))) t (\<lambda>r c. r \<and> reduced s c) (system_error s)"
    if "t = s\<lparr>bf_errs := e\<rparr>" "set e \<subseteq> set (bf_errs s)" for t e using runs_reduce [OF ok that, of True] by (rule runs_mono) auto
  show ?thesis unfolding beginReuse_def
    by (rule runs_bind, rule runs_getD, rule runs_bind, simp only: n simp_thms if_True, rule runs_bind, rule runs_mono [OF g])
       (use red in \<open>auto intro!: runs_ret\<close>)
qed

theorem alloc_plain:
  assumes ok: "file_ok s ts U"
  shows "settles (allocateBtreePage nearby False s) (\<lambda>p t. obtained s ts U p t \<and> first_choice nearby ts p) (if ts = [] then alloc_error s else system_error s)"
proof -
  have g: "get4byte 1 36 s = Inr (Inr (word4 (bf_page s 1) 36), s)" using ok by (auto simp: get4byte_def Get4byte_word4 file_ok_def page_shape_def bt_shape_def)
  show ?thesis
  proof (cases ts)
    case Nil
    then have "sint (word4 (bf_page s 1) 36) = 0" using free_count(4) [OF ok] by simp
    then have "allocateBtreePage nearby False s = Some (newPage s)" by (simp add: allocateBtreePage_def g)
    with newPage_runs [OF ok [unfolded Nil]] show ?thesis by (auto simp: Nil settles_def runs_def first_choice_def split: sum.splits prod.splits)
  next
    case (Cons a us)
    then have ne: "ts \<noteq> []" and pos: "0 < sint (word4 (bf_page s 1) 36)" using free_count(4) [OF ok] by (cases a, auto)+
    from beginReuse_plain [OF ok, of nearby] show ?thesis
    proof (rule runs_cases)
      fix b c assume c: "beginReuse nearby False (sint (word4 (bf_page s 1) 36)) s = Inr (Inr b, c)" "\<not> b \<and> reduced s c"
      from trunkStep_plain [OF ok ne, of c nearby] c(2) have "runs (trunkStep None nearby False) c (\<lambda>r t. \<exists>p. r = Taken p \<and> obtained s ts U p t \<and> first_choice nearby ts p) (system_error s)" by simp
      then have "settles (trunkLoop None nearby False c) (\<lambda>p t. obtained s ts U p t \<and> first_choice nearby ts p) (system_error s)"
        by (rule runs_cases) (subst trunkLoop.simps, auto simp: settles_def)+
      then show ?thesis using c pos ne by (simp add: allocateBtreePage_def g)
    qed (use pos ne in \<open>auto simp: allocateBtreePage_def g settles_def\<close>)
  qed
qed

theorem alloc_exact:
  assumes ok: "file_ok s ts U" and a: "bt_autoVacuum (bf_bt s)" and p: "nearby \<in> set (pages_of ts)" and st: "no_stale s ts nearby"
  shows "settles (allocateBtreePage nearby True s) (\<lambda>q t. q = nearby \<and> obtained s ts U nearby t) (system_error s)"
proof -
  have g: "get4byte 1 36 s = Inr (Inr (word4 (bf_page s 1) 36), s)" using ok by (auto simp: get4byte_def Get4byte_word4 file_ok_def page_shape_def bt_shape_def)
  have pos: "0 < sint (word4 (bf_page s 1) 36)" using free_count(4) [OF ok] p by (cases "pages_of ts") auto
  from beginReuse_exact [OF ok a p] show ?thesis
  proof (rule runs_cases)
    fix b c assume c: "beginReuse nearby True (sint (word4 (bf_page s 1) 36)) s = Inr (Inr b, c)" "b \<and> reduced s c"
    have "settles (trunkLoop (prevOf []) nearby True c) (\<lambda>q t. q = nearby \<and> obtained s ts U nearby t) (system_error s)"
      by (rule trunkLoop_search [OF ok p st, where post = ts]) (use c p in auto)
    then show ?thesis using c pos by (simp add: allocateBtreePage_def g prevOf_def)
  qed (use pos in \<open>auto simp: allocateBtreePage_def g settles_def\<close>)
qed

end
