(* ===== verification/PageSupply.thy ===== *)
theory PageSupply
  imports Prelude
begin

text \<open>
  The contract of a file that lends pages: a request hands out a page that is not in use, a
  page in use can be given back, and its owner may replace its bytes. The file with its clients
  is a state machine whose state pairs the file with the pages in use and their bytes; only the
  owner of a page changes it there. A request can fail, which no step describes. The locale
  shows once that in every reachable state each page in use holds what its owner wrote last and
  that a request lends only a page that nobody uses.
\<close>

datatype ('e, 'p, 'd) page_event = Lent 'e 'p | Surrendered 'p | Rewritten 'p 'd

inductive supply_step ::
  "('e \<Rightarrow> 's \<Rightarrow> ('p \<times> 's) option) \<Rightarrow> ('s \<Rightarrow> 'p \<Rightarrow> 's option) \<Rightarrow> ('s \<Rightarrow> 'p \<Rightarrow> 'd \<Rightarrow> 's option) \<Rightarrow> ('s \<Rightarrow> 'p \<Rightarrow> 'd)
   \<Rightarrow> 's \<times> ('p \<Rightarrow> 'd option) \<Rightarrow> ('e, 'p, 'd) page_event \<Rightarrow> 's \<times> ('p \<Rightarrow> 'd option) \<Rightarrow> bool"
  for tk gv wt view where
  lend: "tk e s = Some (p, t) \<Longrightarrow> supply_step tk gv wt view (s, U) (Lent e p) (t, U(p \<mapsto> view t p))"
| give: "p \<in> dom U \<Longrightarrow> gv s p = Some t \<Longrightarrow> supply_step tk gv wt view (s, U) (Surrendered p) (t, U(p := None))"
| rewrite: "p \<in> dom U \<Longrightarrow> wt s p d = Some t \<Longrightarrow> supply_step tk gv wt view (s, U) (Rewritten p d) (t, U(p \<mapsto> d))"

inductive supply_run ::
  "('e \<Rightarrow> 's \<Rightarrow> ('p \<times> 's) option) \<Rightarrow> ('s \<Rightarrow> 'p \<Rightarrow> 's option) \<Rightarrow> ('s \<Rightarrow> 'p \<Rightarrow> 'd \<Rightarrow> 's option) \<Rightarrow> ('s \<Rightarrow> 'p \<Rightarrow> 'd)
   \<Rightarrow> 's \<times> ('p \<Rightarrow> 'd option) \<Rightarrow> ('e, 'p, 'd) page_event list \<Rightarrow> 's \<times> ('p \<Rightarrow> 'd option) \<Rightarrow> bool"
  for tk gv wt view where
  start: "supply_run tk gv wt view x [] x"
| step: "supply_run tk gv wt view x es y \<Longrightarrow> supply_step tk gv wt view y e z \<Longrightarrow> supply_run tk gv wt view x (es @ [e]) z"

locale page_supply =
  fixes inv :: "'s \<Rightarrow> ('p \<Rightarrow> 'd option) \<Rightarrow> bool"
    and tk :: "'e \<Rightarrow> 's \<Rightarrow> ('p \<times> 's) option"
    and gv :: "'s \<Rightarrow> 'p \<Rightarrow> 's option"
    and wt :: "'s \<Rightarrow> 'p \<Rightarrow> 'd \<Rightarrow> 's option"
    and view :: "'s \<Rightarrow> 'p \<Rightarrow> 'd"
  assumes tk_ok: "inv s U \<Longrightarrow> tk e s = Some (p, t) \<Longrightarrow> U p = None \<and> inv t (U(p \<mapsto> view t p))"
    and gv_ok: "inv s U \<Longrightarrow> p \<in> dom U \<Longrightarrow> gv s p = Some t \<Longrightarrow> inv t (U(p := None))"
    and wt_ok: "inv s U \<Longrightarrow> p \<in> dom U \<Longrightarrow> wt s p d = Some t \<Longrightarrow> inv t (U(p \<mapsto> d))"
    and view_ok: "inv s U \<Longrightarrow> U p = Some d \<Longrightarrow> view s p = d"
begin

lemma step_inv: "supply_step tk gv wt view x e y \<Longrightarrow> inv (fst x) (snd x) \<Longrightarrow> inv (fst y) (snd y)"
  by (induction rule: supply_step.induct) (auto simp del: fun_upd_apply dest: tk_ok gv_ok wt_ok)

lemma run_inv: "supply_run tk gv wt view x es y \<Longrightarrow> inv (fst x) (snd x) \<Longrightarrow> inv (fst y) (snd y)"
  by (induction rule: supply_run.induct) (auto dest: step_inv)

lemma run_supply:
  assumes "inv s U" "supply_run tk gv wt view (s, U) es (t, V)"
  shows "inv t V" "V p = Some d \<Longrightarrow> view t p = d" "tk e t = Some (p, u) \<Longrightarrow> V p = None"
  using run_inv [OF assms(2)] assms(1) view_ok tk_ok by auto

end

end
