(* ===== verification/PageUse.thy ===== *)
theory PageUse
  imports FreeAlloc PageSupply
begin

text \<open>
  The pages of the database file in use: the page allocator of FreeList under any sequence of
  its clients' calls, as an instance of the contract of PageSupply, the entries of the pointer
  map, and the defect of the search for an exact page.
\<close>

subsection \<open>The allocator and its clients\<close>

definition lendPage :: "u32 \<Rightarrow> BtFile \<Rightarrow> (u32 \<times> BtFile) option" where
  "lendPage nearby s = (case allocateBtreePage nearby False s of Some (Inr (Inr p, t)) \<Rightarrow> Some (p, t) | _ \<Rightarrow> None)"

definition returnPage :: "BtFile \<Rightarrow> u32 \<Rightarrow> BtFile option" where
  "returnPage s p = (case freePage p s of Inr (Inr _, t) \<Rightarrow> Some t | _ \<Rightarrow> None)"

definition rewritePage :: "BtFile \<Rightarrow> u32 \<Rightarrow> byte list \<Rightarrow> BtFile option" where
  "rewritePage s p d = (case pager_write p s of
     Inr (Inr _, t) \<Rightarrow> if length d = length (bf_page t p) then Some (setPage p d t) else None | _ \<Rightarrow> None)"

lemma file_ok_rewrite:
  assumes ok: "file_ok s ts U" and p: "p \<in> dom U" and d: "length d = bt_pageSize (bf_bt s)"
  shows "file_ok (setPage p d s) ts (U(p \<mapsto> d))"
proof -
  note u = page_in_use [OF ok p]
  have s: "page_shape s" using ok by (simp add: file_ok_def)
  have "trunks (bf_page s) (word4 (bf_page s 1) 32) ts" using ok by (simp add: file_ok_def free_list_def)
  then have "trunks (bf_page (setPage p d s)) (word4 (bf_page s 1) 32) ts"
    by (rule trunks_cong [THEN iffD1, rotated]) (use u(4) in auto)
  then have fl: "free_list (setPage p d s) ts" using ok u(3) by (simp add: file_ok_def free_list_def)
  have e: "entry (setPage p d s) q = entry s q" if "bt_autoVacuum (bf_bt s)" "q \<in> set (pages_of ts)" for q
    using that ok u(2) by (intro entry_setPage) (auto simp: file_ok_def data_page_def)
  show ?thesis
    by (rule file_okI [OF ok _ _ fl]) (use s d p u(4) ok e in \<open>auto simp: same_shape_def file_ok_def split: if_splits\<close>)
qed

lemma file_ok_upd [simp]: "file_ok (s\<lparr>bf_errs := e\<rparr>) ts U = file_ok s ts U" "file_ok (s\<lparr>bf_touched := j\<rparr>) ts U = file_ok s ts U"
  by (simp_all add: file_ok_def)

lemma rewrite_ok:
  assumes ok: "file_ok s ts U" and p: "p \<in> dom U" and t: "rewritePage s p d = Some t"
  shows "file_ok t ts (U(p \<mapsto> d))"
proof -
  have s: "page_shape s" using ok by (simp add: file_ok_def)
  have f: "in_file s p" using data_page_in_file [OF s page_in_use(1) [OF ok p]] .
  have "runs (pager_write p) s (\<lambda>_ u. \<exists>e j. u = s\<lparr>bf_errs := e, bf_touched := j\<rparr>) (\<lambda>_ _. True)" by (rule runs_write [OF s f]) auto
  then show ?thesis
  proof (rule runs_cases)
    fix x u assume u: "pager_write p s = Inr (Inr x, u)" "\<exists>e j. u = s\<lparr>bf_errs := e, bf_touched := j\<rparr>"
    then obtain e j where e: "u = s\<lparr>bf_errs := e, bf_touched := j\<rparr>" by blast
    then have t': "t = setPage p d u" "length d = length (bf_page s p)" using t u(1) by (auto simp: rewritePage_def split: if_splits)
    have "length d = bt_pageSize (bf_bt u)" using t'(2) s by (simp add: e page_shape_def)
    moreover have "file_ok u ts U" using ok by (simp add: e)
    ultimately show ?thesis using file_ok_rewrite [of u ts U p d] p t'(1) by blast
  qed (use t in \<open>simp add: rewritePage_def\<close>)
qed

interpretation pages: page_supply "\<lambda>s U. \<exists>ts. file_ok s ts U" lendPage returnPage rewritePage bf_page
proof
  fix s U nearby p t assume "\<exists>ts. file_ok s ts U" and t: "lendPage nearby s = Some (p, t)"
  then obtain ts where ok: "file_ok s ts U" by blast
  from alloc_plain [OF ok, of nearby] t have "obtained s ts U p t"
    by (auto simp: settles_def lendPage_def split: option.splits sum.splits prod.splits)
  then show "U p = None \<and> (\<exists>ts. file_ok t ts (U(p \<mapsto> bf_page t p)))" by (auto simp: obtained_def)
next
  fix s U p t assume "\<exists>ts. file_ok s ts U" and p: "p \<in> dom U" and t: "returnPage s p = Some t"
  then obtain ts where ok: "file_ok s ts U" by blast
  from freePage_runs [OF ok p] t have "released s ts U p t" by (auto simp: runs_def returnPage_def split: sum.splits prod.splits)
  then show "\<exists>ts. file_ok t ts (U(p := None))" by (auto simp: released_def)
next
  fix s U p d t assume "\<exists>ts. file_ok s ts U" "p \<in> dom U" "rewritePage s p d = Some t"
  then show "\<exists>ts. file_ok t ts (U(p \<mapsto> d))" using rewrite_ok by blast
next
  fix s U p d assume "\<exists>ts. file_ok s ts U" "U p = Some d"
  then show "bf_page s p = d" by (auto simp: file_ok_def)
qed


lemma settles_mono: "settles m Q E \<Longrightarrow> (\<And>x t. Q x t \<Longrightarrow> Q' x t) \<Longrightarrow> (\<And>rc t. E rc t \<Longrightarrow> E' rc t) \<Longrightarrow> settles m Q' E'"
  by (auto simp: settles_def split: option.splits sum.splits prod.splits)

lemma settles_ok:
  assumes "settles m Q (\<lambda>_ _. False)"
  obtains x t where "m = Some (Inr (Inr x, t))" "Q x t"
proof (cases m)
  case (Some r)
  show thesis
  proof (cases r)
    case (Inr y)
    obtain v t where "y = (v, t)" by (cases y)
    with assms Some Inr that show thesis by (cases v) (auto simp: settles_def)
  qed (use assms Some in \<open>simp add: settles_def\<close>)
qed (use assms in \<open>simp add: settles_def\<close>)

lemma error_nonzero:
  "system_error s rc t \<Longrightarrow> rc \<noteq> 0 \<and> announced s t" "alloc_error s rc t \<Longrightarrow> rc \<noteq> 0 \<and> announced s t"
  by (auto simp: system_error_def alloc_error_def SQLITE_FULL_def SQLITE_CORRUPT_def)

text \<open>
  C8: whatever sequence of allocations, releases and writes by the owners of the pages runs
  on a well-formed database file, the allocations being for any page near a given one (exact is
  0), the pages in use hold what their owners wrote; a further allocation of this kind ends
  without a fault and returns a page that is not in use, or an error code; a release of a page in
  use ends with success or an error of the system. The change of a page, also by a call that
  fails, was announced to the pager: every page the call changed had pager\_write succeed on it,
  or sqlite3PagerDontRollback act on it. (A request for an exact page need not keep this, as shown below.)
\<close>

theorem pages_in_use:
  assumes "file_ok s ts U" "supply_run lendPage returnPage rewritePage bf_page (s, U) es (t, V)"
  shows "(\<forall>p d. V p = Some d \<longrightarrow> bf_page t p = d)
    \<and> settles (allocateBtreePage nearby False t) (\<lambda>p u. V p = None \<and> announced t u) (\<lambda>rc u. rc \<noteq> 0 \<and> announced t u)
    \<and> (\<forall>p \<in> dom V. runs (freePage p) t (\<lambda>_ u. announced t u) (\<lambda>rc u. rc \<in> set (bf_errs t) \<and> rc \<noteq> 0 \<and> announced t u))"
proof -
  from pages.run_supply(1) [OF exI [of _ ts] assms(2)] assms(1) obtain us where ok: "file_ok t us V" by auto
  have "settles (allocateBtreePage nearby False t) (\<lambda>p u. V p = None \<and> announced t u) (\<lambda>rc u. rc \<noteq> 0 \<and> announced t u)"
    using alloc_plain [OF ok, of nearby] by (rule settles_mono) (auto simp: obtained_def dest: error_nonzero split: if_splits)
  moreover have "runs (freePage p) t (\<lambda>_ u. announced t u) (\<lambda>rc u. rc \<in> set (bf_errs t) \<and> rc \<noteq> 0 \<and> announced t u)" if "p \<in> dom V" for p
    using freePage_runs [OF ok that] by (rule runs_mono) (auto simp: released_def system_error_def)
  ultimately show ?thesis using ok by (auto simp: file_ok_def)
qed

text \<open>
  C12: when the free list is not empty and the system reports no error, an allocation succeeds:
  it takes the first trunk page if that has no leaves, and else a leaf of it, one whose number
  is nearest to the page asked for. The list loses exactly that page.
\<close>

theorem alloc_nearest:
  assumes "file_ok s ((q, ls) # ts) U" "bf_errs s = []"
  shows "\<exists>p t us. allocateBtreePage nearby False s = Some (Inr (Inr p, t)) \<and> U p = None \<and> file_ok t us (U(p \<mapsto> bf_page t p))
    \<and> set (pages_of us) = set (pages_of ((q, ls) # ts)) - {p}
    \<and> (if ls = [] then p = q else p \<in> set ls \<and> (0 < nearby \<and> nearby \<le> PAGER_MAX_PGNO \<longrightarrow>
        (\<forall>x \<in> set ls. \<bar>int (unat p) - int (unat nearby)\<bar> \<le> \<bar>int (unat x) - int (unat nearby)\<bar>)))"
proof -
  have "settles (allocateBtreePage nearby False s) (\<lambda>p t. obtained s ((q, ls) # ts) U p t \<and> first_choice nearby ((q, ls) # ts) p) (\<lambda>_ _. False)"
    using alloc_plain [OF assms(1), of nearby] assms(2) by (elim settles_mono) (auto simp: system_error_def)
  then obtain p t where a: "allocateBtreePage nearby False s = Some (Inr (Inr p, t))"
      "obtained s ((q, ls) # ts) U p t" "first_choice nearby ((q, ls) # ts) p" by (rule settles_ok) auto
  have small: "unat x < 2147483648" if "x \<in> set (q # ls)" for x
    using assms(1) that data_page_small [of s x] by (auto simp: file_ok_def)
  have "\<bar>int (unat p) - int (unat nearby)\<bar> \<le> \<bar>int (unat x) - int (unat nearby)\<bar>"
    if "ls \<noteq> []" "0 < nearby" "nearby \<le> PAGER_MAX_PGNO" "x \<in> set ls" for x
  proof -
    have n: "unat nearby < 2147483648" using that(3) by (simp add: word_le_nat_alt)
    have p: "p \<in> set ls" "sint (absC (p - nearby)) \<le> sint (absC (x - nearby))" using a(3) that by (auto simp: first_choice_def near_def)
    show ?thesis using p absC_dist [OF small n, of p] absC_dist [OF small n, of x] that(4) by simp
  qed
  with a show ?thesis by (auto simp: obtained_def first_choice_def split: if_splits)
qed

text \<open>
  C9: in an auto-vacuum file, a request for exactly one page of the free list returns that
  page, trunk or leaf, wherever it is in the list, and the list keeps all others, provided that
  no trunk without leaves holds the number of the page in the place of its first leaf.
\<close>

theorem alloc_wanted:
  assumes "file_ok s ts U" "bt_autoVacuum (bf_bt s)" "nearby \<in> set (pages_of ts)" "no_stale s ts nearby" "bf_errs s = []"
  shows "\<exists>t us. allocateBtreePage nearby True s = Some (Inr (Inr nearby, t)) \<and> file_ok t us (U(nearby \<mapsto> bf_page t nearby))
    \<and> set (pages_of us) = set (pages_of ts) - {nearby}"
proof -
  have "settles (allocateBtreePage nearby True s) (\<lambda>q t. q = nearby \<and> obtained s ts U nearby t) (\<lambda>_ _. False)"
    using alloc_exact [OF assms(1-4)] assms(5) by (elim settles_mono) (auto simp: system_error_def)
  then obtain t where "allocateBtreePage nearby True s = Some (Inr (Inr nearby, t))" "obtained s ts U nearby t" by (rule settles_ok) auto
  then show ?thesis by (auto simp: obtained_def)
qed

subsection \<open>The pointer map\<close>

lemma acquire_quiet:
  assumes "page_shape s" "in_file s p" "bf_errs s = []"
  shows "pagerAcquire p s = Inr (Inr (), s)"
proof -
  have "s\<lparr>bf_errs := []\<rparr> = s" using assms(3) by (metis BtFile.surjective BtFile.update_convs(10))
  then have "runs (pagerAcquire p) s (\<lambda>_ t. t = s) (\<lambda>_ _. False)" using assms by (intro runs_acquire) auto
  then show ?thesis by (rule runs_cases) auto
qed

lemma ptrmapGet_quiet:
  assumes s: "page_shape s" "bt_autoVacuum (bf_bt s)" and p: "regular (bf_bt s) p" "in_file s p" and e: "bf_errs s = []"
  shows "ptrmapGet p s = Inr (if 1 \<le> fst (entry s p) \<and> fst (entry s p) \<le> 5 then Inr (entry s p) else Inl SQLITE_CORRUPT, s)"
proof -
  let ?a = "entryAt (bf_bt s) p" and ?ip = "ptrmapPageno (bf_bt s) p"
  have b: "bt_shape (bf_bt s)" "length (bf_page s ?ip) = bt_pageSize (bf_bt s)" using s(1) by (auto simp: page_shape_def)
  note off = regular_entry [OF b(1) s(2) p(1)]
  have f: "?a + 5 \<le> length (bf_page s ?ip)" using off(2) b by (auto simp: bt_shape_def)
  have a: "pagerAcquire ?ip s = Inr (Inr (), s)" by (rule acquire_quiet [OF s(1) map_page_in_file [OF s p] e])
  have z: "1 \<le> w \<longleftrightarrow> w \<noteq> 0" for w :: byte by (simp add: word_le_nat_alt Suc_le_eq unat_gt_0)
  show ?thesis unfolding ptrmapGet_def Let_def bindD_def a
    using f off(1) by (auto simp: z get4byte_def Get4byte_word4 entry_def Let_def retD_def failD_def not_less)
qed

text \<open>
  C18: an entry written to the pointer map is read back, and the entry of every other page
  reads as before, error or not.
\<close>

theorem ptrmap_roundtrip:
  assumes s: "page_shape s" "bt_autoVacuum (bf_bt s)" and p: "regular (bf_bt s) p" "in_file s p" and q: "regular (bf_bt s) q" "in_file s q" "p \<noteq> q"
    and ty: "1 \<le> ty" "ty \<le> 5" and e: "bf_errs s = []"
  shows "\<exists>t. ptrmapPut p ty v s = Inr (Inr (), t) \<and> ptrmapGet p t = Inr (Inr (ty, v), t) \<and> (\<exists>r. ptrmapGet q s = Inr (r, s) \<and> ptrmapGet q t = Inr (r, t))"
proof -
  let ?ip = "ptrmapPageno (bf_bt s) p" and ?a = "entryAt (bf_bt s) p"
  define d where "d = setEntry (bf_page s ?ip) ?a ty v"
  have b: "bt_shape (bf_bt s)" "length (bf_page s ?ip) = bt_pageSize (bf_bt s)" using s(1) by (auto simp: page_shape_def)
  have f: "?a + 5 \<le> length (bf_page s ?ip)" using regular_entry(2) [OF b(1) s(2) p(1)] b by (auto simp: bt_shape_def)
  have ld: "length d = bt_pageSize (bf_bt s)" using setEntry_ok(1) [OF f] b by (simp add: d_def)
  have "runs (ptrmapPut p ty v) s (\<lambda>_ t. \<exists>j. t = setPage ?ip d (s\<lparr>bf_errs := [], bf_touched := j\<rparr>)) (\<lambda>_ _. False)"
    by (rule runs_ptrmapPut [OF s p refl d_def]) (use e in auto)
  then obtain j t where t: "ptrmapPut p ty v s = Inr (Inr (), t)" "t = setPage ?ip d (s\<lparr>bf_errs := [], bf_touched := j\<rparr>)"
    by (rule runs_cases) auto
  let ?u = "s\<lparr>bf_errs := [], bf_touched := j\<rparr>"
  have en: "entry t r = (if r = p then (ty, v) else entry s r)" if "regular (bf_bt s) r" for r
    using entry_setEntry [of ?u p r d ty v] s p(1) that t(2) by (simp add: d_def)
  have sh: "page_shape t" "bt_autoVacuum (bf_bt t)" "bf_bt t = bf_bt s" "bf_errs t = []" "in_file t p" "in_file t q" using s ld p(2) q(2) by (simp_all add: t(2))
  have "ptrmapGet p t = Inr (Inr (ty, v), t)" using ptrmapGet_quiet [OF sh(1,2) _ sh(5,4)] en [OF p(1)] p(1) sh(3) ty by simp
  moreover have "\<exists>r. ptrmapGet q s = Inr (r, s) \<and> ptrmapGet q t = Inr (r, t)"
    using ptrmapGet_quiet [OF s q(1,2) e] ptrmapGet_quiet [OF sh(1,2) _ sh(6,4)] en [OF q(1)] q(1,3) sh(3) by auto
  ultimately show ?thesis using t(1) by blast
qed


subsection \<open>A stale leaf\<close>

text \<open>
  freePage makes a new trunk of a page by writing its first eight bytes only; the place of the
  first leaf keeps what the page held before. A search for an exact page reads that place
  although the trunk has no leaves.
\<close>

lemma trunks_cong_heads: "(\<And>q ls. (q, ls) \<in> set ts \<Longrightarrow> P q = P' q) \<Longrightarrow> trunks P p ts = trunks P' p ts"
  by (induction P p ts rule: trunks.induct) fastforce+

definition stale_taken :: "BtFile \<Rightarrow> u32 \<Rightarrow> u32 \<Rightarrow> BtFile \<Rightarrow> bool" where
  "stale_taken c q x t \<longleftrightarrow> page_shape t \<and> bf_bt t = bf_bt c \<and> bf_dbSize t = bf_dbSize c \<and> bf_nTrunc t = bf_nTrunc c \<and> bf_errs t = []
     \<and> bf_page t q = put4 (bf_page c q) 4 (- 1) \<and> (\<forall>r. r \<noteq> q \<longrightarrow> r \<noteq> x \<longrightarrow> bf_page t r = bf_page c r)"

lemma stale_step:
  assumes ok: "file_ok s ts U" and ts: "ts = (q, []) # post" and c: "reduced s c" and e: "bf_errs c = []"
    and x: "x \<in> set (pages_of post)" "word4 (bf_page c q) 8 = x"
  shows "\<exists>t. trunkStep None x True c = Inr (Inr (Taken x), t) \<and> stale_taken c q x t"
proof -
  have ts': "ts = [] @ (q, []) # post" using ts by simp
  note l = located [OF ok [unfolded ts'] c] and b = reduced_length [OF c]
  have xq: "x \<noteq> q" using l(10) x(1) by auto
  have "data_page s x" using ok ts x(1) by (simp add: file_ok_def)
  then have inf: "in_file c x" using c data_page_in_file [of c x] data_page_same [of s c x] by (auto simp: reduced_def)
  have ne: "set e' \<subseteq> set (bf_errs u) \<Longrightarrow> bf_errs u = [] \<Longrightarrow> e' = []" for e' and u :: BtFile by auto
  have cl: "runs (closestLeaf q x 0) t Q E" if "12 \<le> length (bf_page t q)" "Q 0 t" for t Q E
    using that Get4byte_word4 [of 8 "bf_page t q"] by (auto simp: runs_def closestLeaf_def bindD_def get4byte_def retD_def)
  let ?Q = "\<lambda>r t. r = Taken x \<and> stale_taken c q x t"
  have det: "runs (detachLeaf q 0 0 x) (c\<lparr>bf_errs := [], bf_touched := j\<rparr>) ?Q (\<lambda>_ _. False)" for j
  proof -
    let ?c = "c\<lparr>bf_errs := [], bf_touched := j\<rparr>"
    have cnt: "\<not> sqlite3PagerPagecount ?c < x" using inf by (auto simp: in_file_def sqlite3PagerPagecount_def not_less split: if_splits)
    have st: "stale_taken c q x (setPage q (put4 (bf_page c q) 4 (- 1)) (c\<lparr>bf_errs := [], bf_touched := k\<rparr>))"
      "stale_taken c q x (setPage x (replicate (bt_pageSize (bf_bt s)) 0) (setPage q (put4 (bf_page c q) 4 (- 1)) (c\<lparr>bf_errs := [], bf_touched := k\<rparr>)))" for k
      using b xq by (auto simp: stale_taken_def intro!: page_shape_upd(6))
    have w: "runs (bindD (pager_write x) (\<lambda>_. retD (Taken x))) u ?Q (\<lambda>_ _. False)" if "page_shape u" "in_file u x" "bf_errs u = []" "stale_taken c q x (u\<lparr>bf_errs := [], bf_touched := insert x (bf_touched u)\<rparr>)" for u
      using that by (intro runs_bind runs_write runs_ret) auto
    show ?thesis unfolding detachLeaf_def
    proof (rule runs_bind, rule runs_getD, subst if_not_P [OF cnt], rule runs_bind, subst if_not_P, simp, rule runs_ret, rule runs_bind, rule runs_put4, goal_cases)
      case 2
      show ?case unfolding sqlite3PagerDontRollback_def
      proof (rule runs_bind, rule runs_acquire, goal_cases)
        case (3 e')
        then have "e' = []" by simp
        then show ?case by (intro runs_bind [of "modD _"] runs_modD w) (use b inf xq st in \<open>auto intro!: page_shape_upd(6)\<close>)
      qed (use b inf in auto)
    qed (use b in simp)
  qed
  have "runs (takeLeaf q x True 0) c ?Q (\<lambda>_ _. False)" unfolding takeLeaf_def
  proof (rule runs_bind, rule runs_write [OF b(1) l(2)], rule runs_bind, rule cl, goal_cases)
    case (2 e')
    then have "e' = []" using e by simp
    then show ?case using det [of "insert q (bf_touched c)"] by (intro runs_bind runs_get4) (use b x(2) in auto)
  qed (use b e in auto)
  then have tl: "runs (takeLeaf q x True 0) (c\<lparr>bf_errs := []\<rparr>) ?Q (\<lambda>_ _. False)" using e by (metis BtFile.surjective BtFile.update_convs(10))
  have u: "0 \<le> int (bt_usableSize (bf_bt s)) div 4 - 8" using ok by (auto simp: file_ok_def page_shape_def bt_shape_def)
  have q: "word4 (bf_page c 1) 32 = q" "sint (word4 (bf_page c q) 4) = 0" using l(1,5) by (simp_all add: prevOf_def linkOf_def)
  have "runs (trunkStep None x True) c ?Q (\<lambda>_ _. False)" unfolding trunkStep_def
  proof (rule runs_bind, simp only: option.case, rule runs_get4, goal_cases)
    case 2
    show ?case
    proof (rule runs_bind, rule runs_acquire [OF b(1)], goal_cases)
      case (2 e')
      then have "e' = []" using e by simp
      then show ?case by (intro runs_bind [of "get4byte _ _"] runs_get4 runs_bind [of "getD _"] runs_getD) (use b q u xq tl in \<open>auto simp: Let_def\<close>)
    qed (use q l(2) e in auto)
  qed (use b in simp)
  then show ?thesis by (rule runs_cases) auto
qed

lemma corrupt_release:
  assumes t: "page_shape t" "bf_errs t = []" and q: "regular (bf_bt t) q" "in_file t q" "word4 (bf_page t 1) 32 = q" "word4 (bf_page t q) 4 = - 1"
    and n: "word4 (bf_page t 1) 36 \<noteq> 0" and r: "data_page t r"
  shows "\<exists>u. freePage r t = Inr (Inl SQLITE_CORRUPT, u)"
proof -
  have l: "length (bf_page t p) = bt_pageSize (bf_bt t)" "512 \<le> bt_pageSize (bf_bt t)" for p using t(1) by (auto simp: page_shape_def bt_shape_def)
  have u: "\<not> int (bt_usableSize (bf_bt t)) div 4 - 8 \<le> - 1" using t(1) by (auto simp: page_shape_def bt_shape_def)
  have link: "runs (linkFree r (word4 (bf_page t 1) 36) (bf_bt t)) c (\<lambda>_ _. False) (\<lambda>rc _. rc = SQLITE_CORRUPT)"
    if c: "page_shape c" "bf_bt c = bf_bt t" "bf_errs c = []" "in_file c q" "word4 (bf_page c 1) 32 = q" "bf_page c q = bf_page t q" for c
  proof -
    have lc: "length (bf_page c p) = bt_pageSize (bf_bt t)" for p using c(1,2) by (auto simp: page_shape_def)
    show ?thesis unfolding linkFree_def if_not_P [OF n]
    proof (rule runs_bind, rule runs_get4, goal_cases)
      case 2
      show ?case
        by (rule runs_bind, rule runs_acquire [OF c(1)], unfold c(5), rule c(4), rule runs_bind, rule runs_get4)
          (use c lc l q(4) u in \<open>auto simp: Let_def intro!: runs_fail\<close>)
    qed (use lc l in simp)
  qed
  have "runs (freePage r) t (\<lambda>_ _. False) (\<lambda>rc _. rc = SQLITE_CORRUPT)" unfolding freePage_def
  proof (intro runs_bind runs_modD runs_getD runs_write runs_get4 runs_put4, goal_cases)
    case (5 e)
    then have e: "e = []" using t(2) by simp
    show ?case
    proof (rule runs_mark, goal_cases)
      case (3 c)
      then have m: "page_shape c" "bf_bt c = bf_bt t" "bf_errs c = []" "bf_page c 1 = put4 (bf_page t 1) 36 (word4 (bf_page t 1) 36 + 1)" "bf_page c q = bf_page t q" "in_file c q"
        using e q by (auto simp: marked_def same_shape_def in_file_def sqlite3PagerPagecount_def)
      have "word4 (bf_page c 1) 32 = q" using m(4) q(3) l by (simp add: page_words)
      then show ?case using link [OF m(1-3,6) _ m(5)] by simp
    qed (use t r l e in simp_all)
  qed (use t l one_in_file [OF t(1)] in auto)
  then show ?thesis by (rule runs_cases) auto
qed

lemma in_pages: "(h, hs) \<in> set ts \<Longrightarrow> h \<in> set (pages_of ts) \<and> set hs \<subseteq> set (pages_of ts)"
  by (force simp: pages_of_def)

lemma leaf_not_head: "distinct (pages_of ts) \<Longrightarrow> (r, ls) \<in> set ts \<Longrightarrow> x \<in> set ls \<Longrightarrow> (h, hs) \<in> set ts \<Longrightarrow> h \<noteq> x"
proof (induction ts)
  case (Cons a ts)
  obtain q ks where "a = (q, ks)" by (cases a)
  with Cons in_pages [of r ls ts] in_pages [of h hs ts] show ?case by auto
qed simp

text \<open>The state of a search of a list whose first trunk is empty and stale.\<close>

lemma stale_search:
  assumes ok: "file_ok s ts U" and ts: "ts = (q, []) # post" and a: "bt_autoVacuum (bf_bt s)" and e: "bf_errs s = []"
    and x: "(r, ls) \<in> set post" "x \<in> set ls" "word4 (bf_page s q) 8 = x"
  shows "\<exists>t. allocateBtreePage x True s = Some (Inr (Inr x, t)) \<and> trunks (bf_page t) (word4 (bf_page t q) 0) post
    \<and> (\<forall>v \<in> dom U. \<exists>u. freePage v t = Inr (Inl SQLITE_CORRUPT, u))"
proof -
  have xp: "x \<in> set (pages_of post)" using x(1,2) by (force simp: pages_of_def)
  then have xt: "x \<in> set (pages_of ts)" by (simp add: ts)
  have g: "get4byte 1 36 s = Inr (Inr (word4 (bf_page s 1) 36), s)" using ok by (auto simp: get4byte_def Get4byte_word4 file_ok_def page_shape_def bt_shape_def)
  have pos: "0 < sint (word4 (bf_page s 1) 36)" using free_count(4) [OF ok] by (simp add: ts)
  have "runs (beginReuse x True (sint (word4 (bf_page s 1) 36))) s (\<lambda>r c. r \<and> reduced s c) (\<lambda>_ _. False)"
    using beginReuse_exact [OF ok a xt] e by (elim runs_mono) (auto simp: system_error_def)
  then obtain c where c: "beginReuse x True (sint (word4 (bf_page s 1) 36)) s = Inr (Inr True, c)" "reduced s c" by (rule runs_cases) auto
  have ts': "ts = [] @ (q, []) # post" using ts by simp
  note l = located [OF ok [unfolded ts'] c(2)] and b = reduced_length [OF c(2)]
  have ec: "bf_errs c = []" using c(2) e by (auto simp: reduced_def same_shape_def)
  have q1: "q \<noteq> 1" "x \<noteq> q" "x \<noteq> 1" using l(10,11) xp by auto
  have "bf_page c q = bf_page s q" using c(2) q1 by (simp add: reduced_def)
  with stale_step [OF ok ts c(2) ec xp] x(3) obtain t where t: "trunkStep None x True c = Inr (Inr (Taken x), t)" "stale_taken c q x t" by auto
  have alloc: "allocateBtreePage x True s = Some (Inr (Inr x, t))" using pos c(1) t(1) by (simp add: allocateBtreePage_def g trunkLoop.simps)
  have pg: "bf_page t 1 = bf_page c 1" "bf_page t q = put4 (bf_page c q) 4 (- 1)" "page_shape t" "bf_errs t = []" "bf_bt t = bf_bt s" using t(2) q1 b(4) by (auto simp: stale_taken_def)
  have same: "same_shape s t" using t(2) c(2) by (auto simp: stale_taken_def reduced_def same_shape_def)
  have w0: "word4 (bf_page t q) 0 = word4 (bf_page c q) 0" "word4 (bf_page t q) 4 = - 1" using pg(2) b by (simp_all add: page_words)
  have "bf_page t h = bf_page c h" if "(h, hs) \<in> set post" for h hs
  proof -
    have "h \<noteq> q" using l(10) in_pages [OF that] by auto
    moreover have "h \<noteq> x" using leaf_not_head [OF _ x(1,2) that] l(10) by auto
    ultimately show ?thesis using t(2) by (simp add: stale_taken_def)
  qed
  then have tr: "trunks (bf_page t) (word4 (bf_page t q) 0) post" using l(4) w0 trunks_cong_heads [of post "bf_page t" "bf_page c"] by auto
  have dq: "data_page s q" using ok by (simp add: file_ok_def ts)
  have "\<exists>u. freePage v t = Inr (Inl SQLITE_CORRUPT, u)" if v: "v \<in> dom U" for v
  proof (rule corrupt_release [where q = q])
    have "word4 (bf_page t 1) 36 = of_nat (length (pages_of post))" using pg(1) l(9) by simp
    moreover have "0 < length (pages_of post)" "length (pages_of post) < 2147483647" using xp free_count(1) [OF ok] by (auto simp: ts)
    ultimately show "word4 (bf_page t 1) 36 \<noteq> 0" using unat_of_nat_small [where 'n = 32, of "length (pages_of post)"] by (auto simp: word_unat_eq_iff)
    show "data_page t v" using page_in_use(1) [OF ok v] data_page_same [OF same] by simp
    show "in_file t q" using dq data_page_same [OF same] data_page_in_file [OF pg(3)] by blast
    show "word4 (bf_page t 1) 32 = q" using l(1) pg(1) by (simp add: linkOf_def prevOf_def)
  qed (use pg w0 dq in \<open>auto simp: data_page_def\<close>)
  with alloc tr show ?thesis by blast
qed

text \<open>
  C13: let a page that holds the number x at byte 8, as an interior B-tree page whose right child
  is x does, be freed when the first trunk is full and has the leaf x. A request for
  exactly x then returns x although x stays a leaf of the list, and in the state it leaves the
  release of any other page in use reports a corrupt file.
\<close>

theorem stale_leaf_lent_twice:
  assumes ok: "file_ok s ((q, ls) # ts) U" and a: "bt_autoVacuum (bf_bt s)" and e: "bf_errs s = []"
    and k: "length ls = bt_usableSize (bf_bt s) div 4 - 8" and p: "U p = Some d" and x: "x \<in> set ls" "word4 d 8 = x"
  shows "\<exists>s1 t. freePage p s = Inr (Inr (), s1) \<and> allocateBtreePage x True s1 = Some (Inr (Inr x, t))
    \<and> trunks (bf_page t) (word4 (bf_page t p) 0) ((q, ls) # ts) \<and> (\<forall>r \<in> dom U - {p}. \<exists>u. freePage r t = Inr (Inl SQLITE_CORRUPT, u))"
proof -
  have d: "p \<in> dom U" "bf_page s p = d" using p ok by (auto simp: file_ok_def)
  have "runs (freePage p) s (\<lambda>_. released s ((q, ls) # ts) U p) (\<lambda>_ _. False)"
    using freePage_runs [OF ok d(1)] e by (elim runs_mono) (auto simp: system_error_def)
  then obtain s1 where s1: "freePage p s = Inr (Inr (), s1)" "released s ((q, ls) # ts) U p s1" by (rule runs_cases) auto
  then have r: "file_ok s1 ((p, []) # (q, ls) # ts) (U(p := None))" "drop 8 (bf_page s1 p) = drop 8 d" "bf_bt s1 = bf_bt s" "bf_errs s1 = []"
    using k d(2) e by (auto simp: released_def same_shape_def)
  have "word4 (bf_page s1 p) 8 = word4 d 8"
  proof -
    have l: "12 \<le> length d" using ok d(2) by (auto simp: file_ok_def page_shape_def bt_shape_def)
    have "length (bf_page s1 p) = length d" using r(1,3) ok d(2) by (auto simp: file_ok_def page_shape_def)
    then have "bf_page s1 p ! (8 + j) = d ! (8 + j)" if "8 + j < length d" for j using that r(2) nth_drop [of 8 "bf_page s1 p" j] nth_drop [of 8 d j] by simp
    from this [of 0] this [of 1] this [of 2] this [of 3] show ?thesis using l by (simp add: word4_def)
  qed
  with stale_search [OF r(1) refl _ r(4), of q ls x] a r(3) x obtain t where t: "allocateBtreePage x True s1 = Some (Inr (Inr x, t))"
      "trunks (bf_page t) (word4 (bf_page t p) 0) ((q, ls) # ts)" "\<forall>v \<in> dom (U(p := None)). \<exists>u. freePage v t = Inr (Inl SQLITE_CORRUPT, u)" by auto
  then have "\<forall>r \<in> dom U - {p}. \<exists>u. freePage r t = Inr (Inl SQLITE_CORRUPT, u)" by auto
  with s1(1) t show ?thesis by blast
qed


subsection \<open>A concrete file\<close>

text \<open>
  A file of 130 pages of 512 bytes with a pointer map on the pages 2 and 105, a full trunk on
  page 4, and the pages 3 and 126 in use; page 3 holds the number 5 at byte 8.
\<close>

definition trunkBytes :: "u32 list \<Rightarrow> byte list" where
  "trunkBytes ls = fourBytes 0 @ fourBytes (of_nat (length ls)) @ concat (map fourBytes ls) @ replicate (504 - 4 * length ls) 0"

definition demo_leaves :: "u32 list" where
  "demo_leaves = map of_nat ([5..<105] @ [106..<126])"

definition demo_map :: "byte list" where
  "demo_map = map (\<lambda>j. if j mod 5 = 0 then 2 else 0) [0..<512]"

definition demo_pages :: "u32 \<Rightarrow> byte list" where
  "demo_pages p = (if p = 1 then put4 (put4 (replicate 512 0) 32 4) 36 121 else if p = 2 \<or> p = 105 then demo_map
     else if p = 3 then put4 (replicate 512 0) 8 5 else if p = 4 then trunkBytes demo_leaves else replicate 512 0)"

definition demo_bt :: BtShared where
  "demo_bt = \<lparr>bt_pageSize = 512, bt_usableSize = 512, bt_maxLocal = 102, bt_minLocal = 39, bt_maxLeaf = 477, bt_minLeaf = 39, bt_autoVacuum = True\<rparr>"

definition demo_file :: BtFile where
  "demo_file = \<lparr>bf_bt = demo_bt, bf_nTrunc = 0, bf_page = demo_pages, bf_dbSize = 130, bf_mxPgno = 1000, bf_touched = {},
     bf_noRead = \<lambda>_. True, bf_isInit = \<lambda>_. True, bf_pParent = \<lambda>_. None, bf_errs = []\<rparr>"

definition demo_use :: "u32 \<Rightarrow> byte list option" where
  "demo_use = [3 \<mapsto> demo_pages 3, 126 \<mapsto> demo_pages 126]"

lemma word4_append: "word4 (xs @ fourBytes v @ ys) (length xs) = v"
proof -
  have "sqlite3Get4byte (drop (length xs) (xs @ fourBytes v @ ys)) = Inr (v, 4)" using decode_fourBytes [of v ys] by (simp add: fourBytes_def)
  moreover have "length xs + 4 \<le> length (xs @ fourBytes v @ ys)" by (simp add: fourBytes_def)
  ultimately show ?thesis using Get4byte_word4 [of "length xs" "xs @ fourBytes v @ ys"] by simp
qed

lemma length_fourBytes_list [simp]: "length (concat (map fourBytes ls)) = 4 * length ls"
  by (induction ls) (auto simp: fourBytes_def)

lemma trunk_trunkBytes: "trunk (trunkBytes ls) 0 ls"
proof -
  have f: "length (fourBytes v) = 4" for v by (simp add: fourBytes_def)
  have "word4 (trunkBytes ls) (8 + 4 * i) = ls ! i" if "i < length ls" for i
  proof -
    have "ls = take i ls @ ls ! i # drop (Suc i) ls" using that by (simp add: id_take_nth_drop)
    then have "concat (map fourBytes ls) = concat (map fourBytes (take i ls)) @ fourBytes (ls ! i) @ concat (map fourBytes (drop (Suc i) ls))"
      by (metis concat.simps(2) concat_append list.simps(9) map_append)
    then have e: "trunkBytes ls = (fourBytes 0 @ fourBytes (of_nat (length ls)) @ concat (map fourBytes (take i ls))) @ fourBytes (ls ! i)
        @ concat (map fourBytes (drop (Suc i) ls)) @ replicate (504 - 4 * length ls) 0" by (simp add: trunkBytes_def)
    show ?thesis using word4_append [of "fourBytes 0 @ fourBytes (of_nat (length ls)) @ concat (map fourBytes (take i ls))" "ls ! i"] that
      unfolding e by (simp add: f min_def)
  qed
  moreover have "word4 (trunkBytes ls) 0 = 0" using word4_append [of "[]" 0] by (simp add: trunkBytes_def)
  moreover have "word4 (trunkBytes ls) 4 = of_nat (length ls)" using word4_append [of "fourBytes 0" "of_nat (length ls)"] by (simp add: trunkBytes_def f)
  ultimately show ?thesis by (simp add: trunk_def)
qed

lemma demo_length: "length demo_leaves = 120"
  by (simp add: demo_leaves_def del: upt_rec_numeral)

lemma demo_lengths: "length (demo_pages p) = 512"
  by (simp add: demo_pages_def demo_map_def trunkBytes_def fourBytes_def demo_length del: upt_rec_numeral)

lemma demo_shape: "page_shape demo_file"
  by (simp add: page_shape_def bt_shape_def demo_file_def demo_bt_def demo_lengths PAGER_MAX_PGNO_def sqlite3PagerPagecount_def PENDING_BYTE_def)

lemma unat_demo: "n < 200 \<Longrightarrow> unat (of_nat n :: u32) = n"
  by (rule unat_of_nat_small) simp

lemma demo_data_page:
  assumes "3 \<le> n" "n \<le> 130" "n \<noteq> 105"
  shows "data_page demo_file (of_nat n)"
proof -
  let ?p = "of_nat n :: u32"
  have u: "unat ?p = n" using assms by (intro unat_demo) simp
  have pend: "unat (PENDING_BYTE_PAGE demo_bt) = 2097153" by (simp add: PENDING_BYTE_PAGE_def demo_bt_def PENDING_BYTE_def)
  have sh: "bt_shape demo_bt" by (simp add: bt_shape_def demo_bt_def)
  have le: "2 \<le> ?p" "?p \<le> PAGER_MAX_PGNO" using u assms by (simp_all add: word_le_nat_alt)
  have sp: "mapSpan demo_bt = 103" by (simp add: mapSpan_def demo_bt_def)
  have d: "(n - 2) div 103 = (if n < 105 then 0 else 1)" using assms by (simp add: div_nat_eqI)
  have "unat (ptrmapPageno demo_bt ?p) = (if n < 105 then 2 else 105)"
    using unat_ptrmapPageno [OF sh le] unfolding u sp d pend by (simp add: Let_def)
  then have "\<not> PTRMAP_ISPAGE demo_bt ?p" using u assms by (auto simp: PTRMAP_ISPAGE_def split: if_splits)
  moreover have "?p \<noteq> PENDING_BYTE_PAGE demo_bt" using u pend assms by auto
  moreover have "limit demo_file = 130" by (simp add: limit_def demo_file_def demo_bt_def sqlite3PagerPagecount_def PENDING_BYTE_def)
  ultimately show ?thesis using le u assms(2) by (simp add: data_page_def regular_def demo_file_def word_le_nat_alt)
qed

lemma demo_entry:
  assumes "3 \<le> n" "n \<le> 130" "n \<noteq> 105"
  shows "entry demo_file (of_nat n) = (PTRMAP_FREEPAGE, 0)"
proof -
  let ?p = "of_nat n :: u32"
  have r: "regular demo_bt ?p" "bt_shape demo_bt" "bt_autoVacuum demo_bt" using demo_data_page [OF assms] demo_shape by (auto simp: data_page_def page_shape_def demo_file_def demo_bt_def)
  note m = regular_map [OF r(2,3,1)]
  have u: "unat ?p = n" using assms by (intro unat_demo) simp
  have le: "2 \<le> ?p" "?p \<le> PAGER_MAX_PGNO" using u assms by (simp_all add: word_le_nat_alt)
  have pend: "unat (PENDING_BYTE_PAGE demo_bt) = 2097153" by (simp add: PENDING_BYTE_PAGE_def demo_bt_def PENDING_BYTE_def)
  have sp: "mapSpan demo_bt = 103" by (simp add: mapSpan_def demo_bt_def)
  have d: "(n - 2) div 103 = (if n < 105 then 0 else 1)" using assms by (simp add: div_nat_eqI)
  have q: "unat (ptrmapPageno demo_bt ?p) = (if n < 105 then 2 else 105)"
    using unat_ptrmapPageno [OF r(2) le] unfolding u sp d pend by (simp add: Let_def)
  then have "ptrmapPageno demo_bt ?p = 2 \<or> ptrmapPageno demo_bt ?p = 105" by (auto simp: word_unat_eq_iff split: if_splits)
  then have pg: "bf_page demo_file (ptrmapPageno demo_bt ?p) = demo_map" by (auto simp: demo_file_def demo_pages_def)
  obtain k where k: "entryAt demo_bt ?p = 5 * k" "5 * k + 5 \<le> 512" using regular_entry(2) [OF r(2,3,1)] by (auto simp: entryAt_def demo_bt_def)
  have j: "demo_map ! j = (if j mod 5 = 0 then 2 else 0)" if "j < 512" for j using that by (simp add: demo_map_def del: upt_rec_numeral)
  have "(5 * k + 1) mod 5 = 1" "(5 * k + 2) mod 5 = 2" "(5 * k + 3) mod 5 = 3" "(5 * k + 4) mod 5 = 4" by presburger+
  then have z: "demo_map ! (5 * k) = 2" "demo_map ! (5 * k + 1) = 0" "demo_map ! (5 * k + 2) = 0" "demo_map ! (5 * k + 3) = 0" "demo_map ! (5 * k + 4) = 0"
    using k(2) j [of "5 * k"] j [of "5 * k + 1"] j [of "5 * k + 2"] j [of "5 * k + 3"] j [of "5 * k + 4"] by simp_all
  have a: "5 * k + 1 + 1 = 5 * k + 2" "5 * k + 1 + 2 = 5 * k + 3" "5 * k + 1 + 3 = 5 * k + 4" by simp_all
  have "word4 demo_map (5 * k + 1) = 0" unfolding word4_def a z by simp
  then show ?thesis using pg k(1) z(1) by (simp add: entry_def Let_def demo_file_def PTRMAP_FREEPAGE_def)
qed

lemma demo_leaf: "p \<in> set demo_leaves \<Longrightarrow> \<exists>n. 5 \<le> n \<and> n < 126 \<and> n \<noteq> 105 \<and> p = of_nat n"
proof -
  assume "p \<in> set demo_leaves"
  then obtain n where "n \<in> {5..<105} \<union> {106..<126}" "p = of_nat n" unfolding demo_leaves_def set_map set_append set_upt by blast
  then show ?thesis by (intro exI [of _ n]) auto
qed

lemma demo_member: "p \<in> set (pages_of [(4, demo_leaves)]) \<union> dom demo_use \<Longrightarrow> \<exists>n. 3 \<le> n \<and> n \<le> 130 \<and> n \<noteq> 105 \<and> p = of_nat n"
proof -
  assume "p \<in> set (pages_of [(4, demo_leaves)]) \<union> dom demo_use"
  then consider "p \<in> set demo_leaves" | "p = of_nat 4" | "p = of_nat 3" | "p = of_nat 126" by (auto simp: demo_use_def split: if_splits)
  then show ?thesis
  proof cases
    case 1
    with demo_leaf obtain n where "5 \<le> n" "n < 126" "n \<noteq> 105" "p = of_nat n" by blast
    then show ?thesis by (intro exI [of _ n]) simp
  next
    case 2
    then show ?thesis by (intro exI [of _ 4]) simp
  next
    case 3
    then show ?thesis by (intro exI [of _ 3]) simp
  next
    case 4
    then show ?thesis by (intro exI [of _ 126]) simp
  qed
qed

lemma demo_distinct: "distinct (pages_of [(4, demo_leaves)])" "set (pages_of [(4, demo_leaves)]) \<inter> dom demo_use = {}"
proof -
  have i: "inj_on (of_nat :: nat \<Rightarrow> u32) {0..<200}" by (rule inj_onI) (metis atLeastLessThan_iff unat_demo)
  have "pages_of [(4, demo_leaves)] = map of_nat (4 # [5..<105] @ [106..<126])" by (simp add: demo_leaves_def del: upt_rec_numeral)
  moreover have "distinct (map of_nat (4 # [5..<105] @ [106..<126]) :: u32 list)"
    unfolding distinct_map by (intro conjI inj_on_subset [OF i]) (auto simp del: upt_rec_numeral)
  ultimately show "distinct (pages_of [(4, demo_leaves)])" by simp
  have no: "unat p \<noteq> 3 \<and> unat p \<noteq> 126" if "p \<in> set (pages_of [(4, demo_leaves)])" for p
    using that demo_leaf [of p] by (auto simp: unat_demo)
  from no [of 3] no [of 126] show "set (pages_of [(4, demo_leaves)]) \<inter> dom demo_use = {}" by (auto simp: demo_use_def split: if_splits)
qed

lemma demo_ok: "file_ok demo_file [(4, demo_leaves)] demo_use"
proof -
  have "free_list demo_file [(4, demo_leaves)]"
    using trunk_trunkBytes [of demo_leaves] demo_distinct(1) demo_length
    by (auto simp: free_list_def demo_file_def demo_pages_def page_words demo_bt_def)
  moreover have "\<forall>p \<in> set (pages_of [(4, demo_leaves)]) \<union> dom demo_use. data_page demo_file p" using demo_member demo_data_page by blast
  moreover have "\<forall>p \<in> set (pages_of [(4, demo_leaves)]). entry demo_file p = (PTRMAP_FREEPAGE, 0)" using demo_member demo_entry by blast
  moreover have "\<forall>p d. demo_use p = Some d \<longrightarrow> bf_page demo_file p = d" by (auto simp: demo_use_def demo_file_def split: if_splits)
  ultimately show ?thesis using demo_shape demo_distinct(2) by (simp add: file_ok_def)
qed

text \<open>The file of the example, with a run of a request and a release.\<close>

theorem pages_in_use_witness:
  "\<exists>p t. supply_run lendPage returnPage rewritePage bf_page (demo_file, demo_use) [Lent 60 p] (t, demo_use(p \<mapsto> bf_page t p))
    \<and> bf_page t 3 = demo_pages 3
    \<and> settles (allocateBtreePage 60 False t) (\<lambda>q u. (demo_use(p \<mapsto> bf_page t p)) q = None \<and> announced t u) (\<lambda>rc u. rc \<noteq> 0 \<and> announced t u)"
proof -
  have "settles (allocateBtreePage 60 False demo_file) (\<lambda>p t. obtained demo_file [(4, demo_leaves)] demo_use p t) (\<lambda>_ _. False)"
    using alloc_plain [OF demo_ok, of 60] by (elim settles_mono) (auto simp: system_error_def demo_file_def)
  then obtain p t where t: "allocateBtreePage 60 False demo_file = Some (Inr (Inr p, t))" "obtained demo_file [(4, demo_leaves)] demo_use p t" by (rule settles_ok)
  then have "lendPage 60 demo_file = Some (p, t)" by (simp add: lendPage_def)
  then have "supply_run lendPage returnPage rewritePage bf_page (demo_file, demo_use) ([] @ [Lent 60 p]) (t, demo_use(p \<mapsto> bf_page t p))"
    by (intro supply_run.step [OF supply_run.start] supply_step.lend)
  then have run: "supply_run lendPage returnPage rewritePage bf_page (demo_file, demo_use) [Lent 60 p] (t, demo_use(p \<mapsto> bf_page t p))" by (simp only: append_Nil)
  note use = pages_in_use [OF demo_ok run, of 60]
  have "demo_use p = None" using t(2) by (simp add: obtained_def)
  then have "p \<noteq> 3" by (auto simp: demo_use_def)
  then have "(demo_use(p \<mapsto> bf_page t p)) 3 = Some (demo_pages 3)" by (simp add: demo_use_def)
  with use have "bf_page t 3 = demo_pages 3" by blast
  with run use show ?thesis by blast
qed

lemma demo_has: "5 \<le> n \<Longrightarrow> n < 105 \<Longrightarrow> of_nat n \<in> set demo_leaves"
  by (simp add: demo_leaves_def del: upt_rec_numeral)

theorem alloc_nearest_witness: "\<exists>t. allocateBtreePage 60 False demo_file = Some (Inr (Inr 60, t))"
proof -
  have ne: "demo_leaves \<noteq> []" using demo_length by auto
  have "bf_errs demo_file = []" by (simp add: demo_file_def)
  from alloc_nearest [OF demo_ok this, of 60, unfolded if_not_P [OF ne]] obtain p t where p: "allocateBtreePage 60 False demo_file = Some (Inr (Inr p, t))"
      "0 < (60 :: u32) \<and> 60 \<le> PAGER_MAX_PGNO \<longrightarrow> (\<forall>x \<in> set demo_leaves. \<bar>int (unat p) - int (unat (60 :: u32))\<bar> \<le> \<bar>int (unat x) - int (unat (60 :: u32))\<bar>)" by blast
  moreover have "(60 :: u32) \<in> set demo_leaves" using demo_has [of 60] by simp
  ultimately have "\<bar>int (unat p) - int (unat (60 :: u32))\<bar> \<le> 0" by (auto simp: PAGER_MAX_PGNO_def)
  then have "int (unat p) = int (unat (60 :: u32))" by linarith
  then have "p = 60" by (simp only: of_nat_eq_iff word_unat_eq_iff)
  with p(1) show ?thesis by blast
qed

theorem alloc_wanted_witness: "\<exists>t. allocateBtreePage 77 True demo_file = Some (Inr (Inr 77, t))"
proof -
  have "(77 :: u32) \<in> set (pages_of [(4, demo_leaves)])" using demo_has [of 77] by simp
  moreover have "no_stale demo_file [(4, demo_leaves)] 77" using demo_length by (auto simp: no_stale_def)
  moreover have "bt_autoVacuum (bf_bt demo_file)" "bf_errs demo_file = []" by (simp_all add: demo_file_def demo_bt_def)
  ultimately show ?thesis using alloc_wanted [OF demo_ok, of 77] by blast
qed

theorem ptrmap_roundtrip_witness: "\<exists>t. ptrmapPut 3 PTRMAP_BTREE 9 demo_file = Inr (Inr (), t) \<and> ptrmapGet 3 t = Inr (Inr (PTRMAP_BTREE, 9), t)"
proof -
  have d: "data_page demo_file 3" "data_page demo_file 126" using demo_data_page [of 3] demo_data_page [of 126] by simp_all
  then have "in_file demo_file 3" "in_file demo_file 126" "regular (bf_bt demo_file) 3" "regular (bf_bt demo_file) 126"
    using data_page_in_file [OF demo_shape] by (auto simp: data_page_def)
  then show ?thesis using ptrmap_roundtrip [OF demo_shape, of 3 126 PTRMAP_BTREE 9] by (auto simp: demo_file_def demo_bt_def PTRMAP_BTREE_def)
qed

theorem stale_leaf_lent_twice_witness:
  "\<exists>s1 t u. freePage 3 demo_file = Inr (Inr (), s1) \<and> allocateBtreePage 5 True s1 = Some (Inr (Inr 5, t)) \<and> freePage 126 t = Inr (Inl SQLITE_CORRUPT, u)"
proof -
  have "bt_autoVacuum (bf_bt demo_file)" "bf_errs demo_file = []" "length demo_leaves = bt_usableSize (bf_bt demo_file) div 4 - 8"
    using demo_length by (simp_all add: demo_file_def demo_bt_def)
  moreover have "demo_use 3 = Some (demo_pages 3)" "126 \<in> dom demo_use - {3}" by (simp_all add: demo_use_def)
  moreover have "(5 :: u32) \<in> set demo_leaves" "word4 (demo_pages 3) 8 = 5" using demo_has [of 5] by (simp_all add: demo_pages_def page_words)
  ultimately show ?thesis using stale_leaf_lent_twice [OF demo_ok, of 3 "demo_pages 3" 5] by blast
qed

end
