(* ===== verification/Mem5.thy ===== *)
theory Mem5
  imports Prelude
begin

text \<open>
  The buddy allocator of the database library, misc/sqlite/mem5.c: a fixed pool of blocks, runs of
  a power of two of which are handed out, with one doubly linked list of free runs per size
  threaded through the free blocks, and one control byte per block.

  The build options are arguments: ns is NSIZE, the number of sizes, and lm is
  SQLITE_POW2_LOGMIN, the logarithm of the size of a block; NBLOCK is the length of the pool. A
  block is a record of the two integers of its list view and of the other bytes, so that the
  union of the source is read and written through either view. A pointer into the pool is the
  index of its block. The mutex is whether it has been allocated; holding it is not modelled,
  since one call is taken as one step. Arguments: the outcome of the fault injector, the alarm
  callback as a function on the state, and the integer found behind the array of list heads,
  which one loop reads.
\<close>

record Mem5Block =
  b_next :: int
  b_prev :: int
  b_rest :: "byte list"

record mem5 =
  alarmThreshold :: int
  alarmCallback :: "nat option"
  alarmArg :: nat
  alarmBusy :: bool
  mutex :: bool
  nAlloc :: u64
  totalAlloc :: u64
  totalExcess :: u64
  currentOut :: u32
  currentCount :: u32
  maxOut :: u32
  maxCount :: u32
  maxRequest :: u32
  aiFreelist :: "int list"
  aCtrl :: "byte list"
  aPool :: "Mem5Block list"

text \<open>The callback: its identity, its argument, the memory in use, the size requested, and the state it may change.\<close>

type_synonym alarm = "nat \<Rightarrow> nat \<Rightarrow> int \<Rightarrow> nat \<Rightarrow> mem5 \<Rightarrow> mem5"

definition POW2_MAX :: "nat \<Rightarrow> nat \<Rightarrow> nat" where "POW2_MAX ns lm = 2 ^ (ns - 1 + lm)"
definition SZ_MAX :: "nat \<Rightarrow> nat" where "SZ_MAX ns = 2 ^ (ns - 1)"
definition CTRL_LOGSIZE :: byte where "CTRL_LOGSIZE = 0x1f"
definition CTRL_FREE :: byte where "CTRL_FREE = 0x20"

subsection \<open>The lists of free blocks\<close>

definition blockAt :: "mem5 \<Rightarrow> int \<Rightarrow> Mem5Block cres" where
  "blockAt m i = (if i < 0 then Inl OutOfBounds else rd (aPool m) (nat i))"

definition setBlock :: "mem5 \<Rightarrow> int \<Rightarrow> (Mem5Block \<Rightarrow> Mem5Block) \<Rightarrow> mem5 cres" where
  "setBlock m i f = bindR (blockAt m i) (\<lambda>b. Inr (m\<lparr>aPool := (aPool m)[nat i := f b]\<rparr>))"

definition setFreelist :: "mem5 \<Rightarrow> nat \<Rightarrow> int \<Rightarrow> mem5 cres" where
  "setFreelist m iLogsize x = bindR (wr (aiFreelist m) iLogsize x) (\<lambda>fl. Inr (m\<lparr>aiFreelist := fl\<rparr>))"

definition setCtrl :: "mem5 \<Rightarrow> nat \<Rightarrow> byte \<Rightarrow> mem5 cres" where
  "setCtrl m i c = bindR (wr (aCtrl m) i c) (\<lambda>cs. Inr (m\<lparr>aCtrl := cs\<rparr>))"

definition memsys5Unlink :: "mem5 \<Rightarrow> nat \<Rightarrow> nat \<Rightarrow> mem5 cres" where
  "memsys5Unlink m i iLogsize =
     bindR (blockAt m (int i)) (\<lambda>b.
       let next = b_next b; prev = b_prev b in
       bindR (if prev < 0 then setFreelist m iLogsize next else setBlock m prev (\<lambda>b. b\<lparr>b_next := next\<rparr>)) (\<lambda>m.
       if next \<ge> 0 then setBlock m next (\<lambda>b. b\<lparr>b_prev := prev\<rparr>) else Inr m))"

definition memsys5Link :: "mem5 \<Rightarrow> nat \<Rightarrow> nat \<Rightarrow> mem5 cres" where
  "memsys5Link m i iLogsize =
     bindR (rd (aiFreelist m) iLogsize) (\<lambda>x.
     bindR (setBlock m (int i) (\<lambda>b. b\<lparr>b_next := x, b_prev := -1\<rparr>)) (\<lambda>m.
     bindR (if x \<ge> 0 then setBlock m x (\<lambda>b. b\<lparr>b_prev := int i\<rparr>) else Inr m) (\<lambda>m.
       setFreelist m iLogsize (int i))))"

text \<open>The loop of the first call over the blocks of the greatest size; k is the number of them left.\<close>

fun enterLoop :: "nat \<Rightarrow> mem5 \<Rightarrow> nat \<Rightarrow> nat \<Rightarrow> mem5 cres" where
  "enterLoop ns m i 0 = Inr m"
| "enterLoop ns m i (Suc k) =
     bindR (setCtrl m i (of_nat (ns - 1) OR CTRL_FREE)) (\<lambda>m.
     bindR (memsys5Link m i (ns - 1)) (\<lambda>m. enterLoop ns m (i + SZ_MAX ns) k))"

definition memsys5Enter :: "nat \<Rightarrow> mem5 \<Rightarrow> mem5 cres" where
  "memsys5Enter ns m =
     (if \<not> mutex m
      then enterLoop ns (m\<lparr>mutex := True, aiFreelist := replicate ns (-1)\<rparr>) 0 (length (aPool m) div SZ_MAX ns)
      else Inr m)"

subsection \<open>Statistics and the alarm\<close>

definition sqlite3_memory_used :: "mem5 \<Rightarrow> int" where
  "sqlite3_memory_used m = uint (currentOut m)"

definition sqlite3_memory_highwater :: "nat \<Rightarrow> mem5 \<Rightarrow> bool \<Rightarrow> (int \<times> mem5) cres" where
  "sqlite3_memory_highwater ns m resetFlag =
     bindR (memsys5Enter ns m) (\<lambda>m. Inr (uint (maxOut m), if resetFlag then m\<lparr>maxOut := currentOut m\<rparr> else m))"

definition memsys5Alarm :: "alarm \<Rightarrow> mem5 \<Rightarrow> nat \<Rightarrow> mem5" where
  "memsys5Alarm call m nByte =
     (case alarmCallback m of None \<Rightarrow> m
      | Some xCallback \<Rightarrow> if alarmBusy m then m
          else (call xCallback (alarmArg m) (uint (currentOut m)) nByte (m\<lparr>alarmBusy := True\<rparr>))\<lparr>alarmBusy := False\<rparr>)"

definition sqlite3_memory_alarm :: "nat \<Rightarrow> mem5 \<Rightarrow> nat option \<Rightarrow> nat \<Rightarrow> int \<Rightarrow> mem5 cres" where
  "sqlite3_memory_alarm ns m xCallback pArg iThreshold =
     bindR (memsys5Enter ns m) (\<lambda>m. Inr (m\<lparr>alarmCallback := xCallback, alarmArg := pArg, alarmThreshold := iThreshold\<rparr>))"

definition sqlite3MallocSize :: "nat \<Rightarrow> mem5 \<Rightarrow> nat option \<Rightarrow> nat cres" where
  "sqlite3MallocSize lm m p =
     (case p of None \<Rightarrow> Inr 0 | Some i \<Rightarrow> bindR (rd (aCtrl m) i) (\<lambda>c. Inr (2 ^ (unat (c AND CTRL_LOGSIZE) + lm))))"

subsection \<open>Requests\<close>

text \<open>The walk along a list for its lowest index; None when the list is circular.\<close>

partial_function (option) firstLoop :: "mem5 \<Rightarrow> int \<Rightarrow> int \<Rightarrow> int cres option" where
  "firstLoop m i iFirst =
     (if i > 0
      then case blockAt m i of Inl e \<Rightarrow> Some (Inl e) | Inr b \<Rightarrow> firstLoop m (b_next b) (if i < iFirst then i else iFirst)
      else Some (Inr iFirst))"

definition memsys5UnlinkFirst :: "mem5 \<Rightarrow> nat \<Rightarrow> (nat \<times> mem5) cres option" where
  "memsys5UnlinkFirst m iLogsize =
     (case rd (aiFreelist m) iLogsize of Inl e \<Rightarrow> Some (Inl e)
      | Inr i \<Rightarrow> (case firstLoop m i i of None \<Rightarrow> None
          | Some r \<Rightarrow> Some (bindR r (\<lambda>iFirst.
              if iFirst < 0 then Inl OutOfBounds
              else bindR (memsys5Unlink m (nat iFirst) iLogsize) (\<lambda>m. Inr (nat iFirst, m))))))"

text \<open>Rounding up: iFullSz is POW2_MIN doubled iLogsize times.\<close>

function fullLoop :: "nat \<Rightarrow> nat \<Rightarrow> nat \<Rightarrow> nat" where
  "fullLoop lm nByte iLogsize = (if 2 ^ (lm + iLogsize) < nByte then fullLoop lm nByte (iLogsize + 1) else iLogsize)"
  by pat_completeness auto
termination
proof (relation "measure (\<lambda>(lm, nByte, l). nByte - 2 ^ (lm + l))", simp)
  fix lm nByte l :: nat
  assume "2 ^ (lm + l) < nByte"
  moreover have "(0 :: nat) < 2 ^ (lm + l)" by simp
  ultimately show "((lm, nByte, l + 1), lm, nByte, l) \<in> measure (\<lambda>(lm, nByte, l). nByte - 2 ^ (lm + l))"
    by (auto intro!: diff_less_mono2)
qed

declare fullLoop.simps [simp del]

text \<open>The search for a list that is not empty; behind is the integer behind the array.\<close>

function binLoop :: "nat \<Rightarrow> int \<Rightarrow> int list \<Rightarrow> nat \<Rightarrow> nat" where
  "binLoop ns behind fl iBin =
     (if (if iBin < length fl then fl ! iBin else behind) < 0 \<and> iBin < ns then binLoop ns behind fl (iBin + 1) else iBin)"
  by pat_completeness auto
termination by (relation "measure (\<lambda>(ns, behind, fl, b). ns - b)") auto

declare binLoop.simps [simp del]

text \<open>Splitting a block down to the size requested; d is iBin less iLogsize.\<close>

fun splitLoop :: "mem5 \<Rightarrow> nat \<Rightarrow> nat \<Rightarrow> nat \<Rightarrow> mem5 cres" where
  "splitLoop m i iLogsize 0 = Inr m"
| "splitLoop m i iLogsize (Suc d) =
     (let iBin = iLogsize + d; newSize = 2 ^ iBin in
      bindR (setCtrl m (i + newSize) (CTRL_FREE OR of_nat iBin)) (\<lambda>m.
      bindR (memsys5Link m (i + newSize) iBin) (\<lambda>m. splitLoop m i iLogsize d)))"

definition mallocStats :: "mem5 \<Rightarrow> nat \<Rightarrow> nat \<Rightarrow> mem5" where
  "mallocStats m iFullSz nByte =
     (let m = m\<lparr>nAlloc := nAlloc m + 1, totalAlloc := totalAlloc m + of_nat iFullSz,
                totalExcess := totalExcess m + of_nat (iFullSz - nByte),
                currentCount := currentCount m + 1, currentOut := currentOut m + of_nat iFullSz\<rparr>;
          m = (if maxCount m < currentCount m then m\<lparr>maxCount := currentCount m\<rparr> else m) in
      if maxOut m < currentOut m then m\<lparr>maxOut := currentOut m\<rparr> else m)"

definition memsys5Malloc :: "nat \<Rightarrow> nat \<Rightarrow> int \<Rightarrow> alarm \<Rightarrow> bool \<Rightarrow> mem5 \<Rightarrow> nat \<Rightarrow> (nat option \<times> mem5) cres option" where
  "memsys5Malloc ns lm behind call fault m nByte =
     (let m = (if of_nat nByte > maxRequest m then m\<lparr>maxRequest := of_nat nByte\<rparr> else m) in
      if fault then Some (Inr (None, m))
      else if nByte > POW2_MAX ns lm then Some (Inr (None, m))
      else
        let iLogsize = fullLoop lm nByte 0; iFullSz = 2 ^ (lm + iLogsize);
            m = (if alarmCallback m \<noteq> None \<and> uint (currentOut m + of_nat iFullSz) \<ge> alarmThreshold m
                 then memsys5Alarm call m iFullSz else m);
            iBin = binLoop ns behind (aiFreelist m) iLogsize in
        if iBin \<ge> ns then Some (Inr (None, m))
        else case memsys5UnlinkFirst m iBin of None \<Rightarrow> None
          | Some r \<Rightarrow> Some (bindR r (\<lambda>(i, m).
              bindR (splitLoop m i iLogsize (iBin - iLogsize)) (\<lambda>m.
              bindR (setCtrl m i (of_nat iLogsize)) (\<lambda>m. Inr (Some i, mallocStats m iFullSz nByte))))))"

subsection \<open>Releases\<close>

function freeLoop :: "nat \<Rightarrow> mem5 \<Rightarrow> nat \<Rightarrow> nat \<Rightarrow> nat \<Rightarrow> (nat \<times> nat \<times> mem5) cres" where
  "freeLoop ns m i iLogsize sz =
     (if iLogsize < ns - 1
      then let iBuddy = (if odd (i div 2 ^ iLogsize) then i - sz else i + sz) in
        bindR (rd (aCtrl m) iBuddy) (\<lambda>c.
        if c \<noteq> CTRL_FREE OR of_nat iLogsize then Inr (i, iLogsize, m)
        else bindR (memsys5Unlink m iBuddy iLogsize) (\<lambda>m.
          let iLogsize = iLogsize + 1 in
          if iBuddy < i
          then bindR (setCtrl m iBuddy (CTRL_FREE OR of_nat iLogsize)) (\<lambda>m.
            bindR (setCtrl m i 0) (\<lambda>m. freeLoop ns m iBuddy iLogsize (sz * 2)))
          else bindR (setCtrl m i (CTRL_FREE OR of_nat iLogsize)) (\<lambda>m.
            bindR (setCtrl m iBuddy 0) (\<lambda>m. freeLoop ns m i iLogsize (sz * 2)))))
      else Inr (i, iLogsize, m))"
  by pat_completeness auto
termination by (relation "measure (\<lambda>(ns, m, i, l, s). ns - l)") auto

declare freeLoop.simps [simp del]

definition memsys5Free :: "nat \<Rightarrow> nat \<Rightarrow> mem5 \<Rightarrow> nat \<Rightarrow> mem5 cres" where
  "memsys5Free ns lm m i =
     bindR (rd (aCtrl m) i) (\<lambda>c.
       let iLogsize = unat (c AND CTRL_LOGSIZE); sz = 2 ^ iLogsize in
       bindR (setCtrl m i (c OR CTRL_FREE)) (\<lambda>m.
       bindR (rd (aCtrl m) (i + sz - 1)) (\<lambda>e.
       bindR (setCtrl m (i + sz - 1) (e OR CTRL_FREE)) (\<lambda>m.
       bindR (setCtrl (m\<lparr>currentCount := currentCount m - 1, currentOut := currentOut m - of_nat (sz * 2 ^ lm)\<rparr>)
                i (CTRL_FREE OR of_nat iLogsize)) (\<lambda>m.
       bindR (freeLoop ns m i iLogsize sz) (\<lambda>(i, iLogsize, m). memsys5Link m i iLogsize))))))"

subsection \<open>The interface\<close>

definition sqlite3_malloc :: "nat \<Rightarrow> nat \<Rightarrow> int \<Rightarrow> alarm \<Rightarrow> bool \<Rightarrow> mem5 \<Rightarrow> int \<Rightarrow> (nat option \<times> mem5) cres option" where
  "sqlite3_malloc ns lm behind call fault m nBytes =
     (if nBytes > 0
      then case memsys5Enter ns m of Inl e \<Rightarrow> Some (Inl e) | Inr m \<Rightarrow> memsys5Malloc ns lm behind call fault m (nat nBytes)
      else Some (Inr (None, m)))"

definition sqlite3_free :: "nat \<Rightarrow> nat \<Rightarrow> mem5 \<Rightarrow> nat option \<Rightarrow> mem5 cres" where
  "sqlite3_free ns lm m pPrior = (case pPrior of None \<Rightarrow> Inr m | Some i \<Rightarrow> memsys5Free ns lm m i)"

text \<open>memcpy of whole blocks.\<close>

definition copyBlocks :: "mem5 \<Rightarrow> nat \<Rightarrow> nat \<Rightarrow> nat \<Rightarrow> mem5 cres" where
  "copyBlocks m p q n =
     (if p + n \<le> length (aPool m) \<and> q + n \<le> length (aPool m)
      then Inr (m\<lparr>aPool := take p (aPool m) @ take n (drop q (aPool m)) @ drop (p + n) (aPool m)\<rparr>) else Inl OutOfBounds)"

definition sqlite3_realloc ::
  "nat \<Rightarrow> nat \<Rightarrow> int \<Rightarrow> alarm \<Rightarrow> bool \<Rightarrow> mem5 \<Rightarrow> nat option \<Rightarrow> int \<Rightarrow> (nat option \<times> mem5) cres option" where
  "sqlite3_realloc ns lm behind call fault m pPrior nBytes =
     (case pPrior of None \<Rightarrow> sqlite3_malloc ns lm behind call fault m nBytes
      | Some q \<Rightarrow>
          if nBytes \<le> 0 then Some (bindR (sqlite3_free ns lm m pPrior) (\<lambda>m. Inr (None, m)))
          else case sqlite3MallocSize lm m pPrior of Inl e \<Rightarrow> Some (Inl e)
            | Inr nOld \<Rightarrow>
                if nBytes \<le> int nOld then Some (Inr (pPrior, m))
                else case memsys5Malloc ns lm behind call fault m (nat nBytes) of None \<Rightarrow> None
                  | Some r \<Rightarrow> Some (bindR r (\<lambda>(p, m).
                      case p of None \<Rightarrow> Inr (None, m)
                      | Some i \<Rightarrow> bindR (copyBlocks m i q (nOld div 2 ^ lm)) (\<lambda>m.
                          bindR (memsys5Free ns lm m q) (\<lambda>m. Inr (Some i, m))))))"

end
