(* ===== verification/Mem5Blocks.thy ===== *)
theory Mem5Blocks
  imports Mem5
begin

text \<open>
  The blocks of the allocator of Mem5: the lists of free blocks as lists of indices, the tiling
  of the pool by blocks at multiples of their sizes, and what linking, unlinking, splitting and
  coalescing do to both. Shown: the buddy of a block always starts a block of at most its size,
  so the control byte that is tested there is meaningful; no two buddies of the same size are
  both free; and an aligned run without a block in use lies inside a free block.
\<close>

subsection \<open>Doubly linked lists\<close>

text \<open>
  A segment of a list from index c on, p being the index before, that continues with c' after
  p'; a list is a segment that ends in -1.
\<close>

fun dseg :: "Mem5Block list \<Rightarrow> int \<Rightarrow> int \<Rightarrow> nat list \<Rightarrow> int \<Rightarrow> int \<Rightarrow> bool" where
  "dseg P p c [] p' c' \<longleftrightarrow> p = p' \<and> c = c'"
| "dseg P p c (x # xs) p' c' \<longleftrightarrow> c = int x \<and> x < length P \<and> b_prev (P ! x) = p \<and> dseg P (int x) (b_next (P ! x)) xs p' c'"

definition dlist :: "Mem5Block list \<Rightarrow> int \<Rightarrow> int \<Rightarrow> nat list \<Rightarrow> bool" where
  "dlist P p c xs \<longleftrightarrow> (\<exists>p'. dseg P p c xs p' (-1))"

lemma dlist_simps [simp]:
  "dlist P p c [] \<longleftrightarrow> c = -1"
  "dlist P p c (x # xs) \<longleftrightarrow> c = int x \<and> x < length P \<and> b_prev (P ! x) = p \<and> dlist P (int x) (b_next (P ! x)) xs"
  by (auto simp: dlist_def)

lemma dseg_append: "dseg P p c (us @ vs) q e \<longleftrightarrow> (\<exists>p' c'. dseg P p c us p' c' \<and> dseg P p' c' vs q e)"
  by (induction us arbitrary: p c) auto

lemma dlist_append: "dlist P p c (us @ vs) \<longleftrightarrow> (\<exists>p' c'. dseg P p c us p' c' \<and> dlist P p' c' vs)"
  by (auto simp: dlist_def dseg_append)

lemma dseg_frame: "length Q = length P \<Longrightarrow> (\<And>x. x \<in> set xs \<Longrightarrow> Q ! x = P ! x) \<Longrightarrow> dseg Q p c xs q e = dseg P p c xs q e"
  by (induction xs arbitrary: p c) auto

lemma dlist_frame: "length Q = length P \<Longrightarrow> (\<And>x. x \<in> set xs \<Longrightarrow> Q ! x = P ! x) \<Longrightarrow> dlist Q p c xs = dlist P p c xs"
  unfolding dlist_def using dseg_frame [of Q P xs] by blast

lemma dseg_update [simp]: "x \<notin> set xs \<Longrightarrow> dseg (P[x := b]) p c xs q e = dseg P p c xs q e"
  by (rule dseg_frame) (auto intro: nth_list_update_neq)

lemma dlist_update [simp]: "x \<notin> set xs \<Longrightarrow> dlist (P[x := b]) p c xs = dlist P p c xs"
  by (rule dlist_frame) (auto intro: nth_list_update_neq)

lemma dlist_bounds: "dlist P p c xs \<Longrightarrow> x \<in> set xs \<Longrightarrow> x < length P"
  by (induction xs arbitrary: p c) auto

lemma setBlock_in [simp]:
  "x < length (aPool m) \<Longrightarrow> setBlock m (int x) f = Inr (m\<lparr>aPool := (aPool m)[x := f (aPool m ! x)]\<rparr>)"
  by (simp add: setBlock_def blockAt_def)

lemma blockAt_in [simp]: "x < length (aPool m) \<Longrightarrow> blockAt m (int x) = Inr (aPool m ! x)"
  by (simp add: blockAt_def)

lemma setFreelist_in [simp]: "l < length (aiFreelist m) \<Longrightarrow> setFreelist m l x = Inr (m\<lparr>aiFreelist := (aiFreelist m)[l := x]\<rparr>)"
  by (simp add: setFreelist_def)

lemma setCtrl_in [simp]: "i < length (aCtrl m) \<Longrightarrow> setCtrl m i c = Inr (m\<lparr>aCtrl := (aCtrl m)[i := c]\<rparr>)"
  by (simp add: setCtrl_def)

text \<open>What a change of links leaves: everything outside the nodes in S.\<close>

definition onlyNodes :: "nat set \<Rightarrow> mem5 \<Rightarrow> mem5 \<Rightarrow> bool" where
  "onlyNodes S m m' \<longleftrightarrow> m' = m\<lparr>aPool := aPool m', aiFreelist := aiFreelist m'\<rparr> \<and> length (aPool m') = length (aPool m)
     \<and> (\<forall>x. x \<notin> S \<longrightarrow> aPool m' ! x = aPool m ! x)"

lemma link_list:
  assumes "dlist (aPool m) (-1) (aiFreelist m ! l) xs" "distinct xs" "i \<notin> set xs" "i < length (aPool m)" "l < length (aiFreelist m)"
  shows "\<exists>m'. memsys5Link m i l = Inr m' \<and> onlyNodes (insert i (set xs)) m m'
    \<and> dlist (aPool m') (-1) (int i) (i # xs) \<and> aiFreelist m' = (aiFreelist m)[l := int i]"
  using assms by (cases xs) (auto simp: memsys5Link_def onlyNodes_def)

lemma unlink_list:
  assumes xs: "dlist (aPool m) (-1) (aiFreelist m ! l) xs" "distinct xs" "i \<in> set xs" and l: "l < length (aiFreelist m)"
  shows "\<exists>m' c. memsys5Unlink m i l = Inr m' \<and> onlyNodes (set xs - {i}) m m'
    \<and> dlist (aPool m') (-1) c (remove1 i xs) \<and> aiFreelist m' = (aiFreelist m)[l := c]"
proof -
  let ?P = "aPool m"
  obtain us vs where x: "xs = us @ i # vs" using split_list [OF xs(3)] by blast
  obtain p where us: "dseg ?P (-1) (aiFreelist m ! l) us p (int i)" and i: "i < length ?P" "b_prev (?P ! i) = p"
    and vs: "dlist ?P (int i) (b_next (?P ! i)) vs"
    using xs(1) x by (auto simp: dlist_append)
  have d: "i \<notin> set us" "i \<notin> set vs" "set us \<inter> set vs = {}" "distinct us" "distinct vs" using xs(2) x by auto
  show ?thesis
  proof (cases us rule: rev_cases)
    case Nil
    then have "p = -1" using us by simp
    with Nil i vs d l x show ?thesis
      by (cases vs) (auto simp: memsys5Unlink_def onlyNodes_def Let_def)
  next
    case (snoc ws u)
    then have u: "p = int u" "u < length ?P" "dseg ?P (-1) (aiFreelist m ! l) ws (b_prev (?P ! u)) (int u)"
      using us by (auto simp: dseg_append)
    show ?thesis
      using snoc i vs d l x u
      by (cases vs) (auto simp: memsys5Unlink_def onlyNodes_def Let_def dlist_append dseg_append remove1_append)
  qed
qed

text \<open>The lists of all sizes: list l holds the nodes in S l.\<close>

definition freeLists :: "nat \<Rightarrow> mem5 \<Rightarrow> (nat \<Rightarrow> nat set) \<Rightarrow> bool" where
  "freeLists ns m S \<longleftrightarrow> length (aiFreelist m) = ns \<and> (\<forall>l k. l \<noteq> k \<longrightarrow> S l \<inter> S k = {})
     \<and> (\<forall>l < ns. \<exists>xs. distinct xs \<and> set xs = S l \<and> dlist (aPool m) (-1) (aiFreelist m ! l) xs)"

lemma freeLists_list:
  assumes "freeLists ns m S" "l < ns"
  obtains xs where "distinct xs" "set xs = S l" "dlist (aPool m) (-1) (aiFreelist m ! l) xs"
  using assms by (auto simp: freeLists_def)

lemma freeLists_cong:
  assumes "freeLists ns m S" "aiFreelist m' = aiFreelist m" "length (aPool m') = length (aPool m)"
    "\<And>l x. l < ns \<Longrightarrow> x \<in> S l \<Longrightarrow> aPool m' ! x = aPool m ! x"
  shows "freeLists ns m' S"
proof -
  have "dlist (aPool m') (-1) (aiFreelist m ! l) xs"
    if "l < ns" "set xs = S l" "dlist (aPool m) (-1) (aiFreelist m ! l) xs" for l xs
    using that assms(3,4) dlist_frame [of "aPool m'" "aPool m" xs] by metis
  with assms(1,2) show ?thesis unfolding freeLists_def by metis
qed

text \<open>Replacing one list, with changes that stay within its nodes and one more.\<close>

lemma freeLists_replace:
  assumes lists: "freeLists ns m S" and only: "onlyNodes (insert i (S l)) m m'" and i: "\<And>k. k \<noteq> l \<Longrightarrow> i \<notin> S k"
    and l: "l < ns" "aiFreelist m' = (aiFreelist m)[l := c]" "dlist (aPool m') (-1) c xs" "distinct xs" "set xs \<subseteq> insert i (S l)"
  shows "freeLists ns m' (S(l := set xs))"
  unfolding freeLists_def
proof (intro conjI allI impI)
  show "length (aiFreelist m') = ns" using lists l by (simp add: freeLists_def)
  show "(S(l := set xs)) k \<inter> (S(l := set xs)) j = {}" if "k \<noteq> j" for k j
  proof -
    have "S l \<inter> S j = {}" if "j \<noteq> l" for j using lists that unfolding freeLists_def by blast
    then have "set xs \<inter> S j = {}" if "j \<noteq> l" for j using l(5) i [OF that] that by blast
    moreover have "S k \<inter> S j = {}" using lists that unfolding freeLists_def by blast
    ultimately show ?thesis using that by (auto simp: Int_commute)
  qed
  show "\<exists>xs'. distinct xs' \<and> set xs' = (S(l := set xs)) k \<and> dlist (aPool m') (-1) (aiFreelist m' ! k) xs'" if "k < ns" for k
  proof (cases "k = l")
    case True
    with l lists show ?thesis by (auto simp: freeLists_def)
  next
    case False
    from freeLists_list [OF lists that] obtain ys where ys: "distinct ys" "set ys = S k" "dlist (aPool m) (-1) (aiFreelist m ! k) ys" .
    have "x \<notin> insert i (S l)" if "x \<in> set ys" for x
      using that ys(2) i [OF False] lists False by (auto simp: freeLists_def)
    then have "dlist (aPool m') (-1) (aiFreelist m ! k) ys"
      using ys(3) only dlist_frame [of "aPool m'" "aPool m" ys] unfolding onlyNodes_def by metis
    with ys False l show ?thesis by auto
  qed
qed

lemma link_ok:
  assumes "freeLists ns m S" "l < ns" "i < length (aPool m)" "\<And>k. i \<notin> S k"
  shows "\<exists>m'. memsys5Link m i l = Inr m' \<and> onlyNodes (insert i (S l)) m m' \<and> freeLists ns m' (S(l := insert i (S l)))"
proof -
  from freeLists_list [OF assms(1,2)] obtain xs where xs: "distinct xs" "set xs = S l" "dlist (aPool m) (-1) (aiFreelist m ! l) xs" .
  have len: "l < length (aiFreelist m)" and i: "i \<notin> set xs" using assms xs(2) by (simp_all add: freeLists_def)
  from link_list [OF xs(3,1) i assms(3) len] xs(2) obtain m' where m': "memsys5Link m i l = Inr m'" "onlyNodes (insert i (S l)) m m'"
    "dlist (aPool m') (-1) (int i) (i # xs)" "aiFreelist m' = (aiFreelist m)[l := int i]"
    by auto
  have "freeLists ns m' (S(l := set (i # xs)))"
    by (rule freeLists_replace [OF assms(1) m'(2) _ assms(2) m'(4,3)]) (use assms xs in auto)
  with m' xs(2) show ?thesis by auto
qed

lemma unlink_ok:
  assumes "freeLists ns m S" "l < ns" "i \<in> S l"
  shows "\<exists>m'. memsys5Unlink m i l = Inr m' \<and> onlyNodes (S l - {i}) m m' \<and> freeLists ns m' (S(l := S l - {i}))"
proof -
  from freeLists_list [OF assms(1,2)] obtain xs where xs: "distinct xs" "set xs = S l" "dlist (aPool m) (-1) (aiFreelist m ! l) xs" .
  have len: "l < length (aiFreelist m)" and i: "i \<in> set xs" using assms xs(2) by (simp_all add: freeLists_def)
  from unlink_list [OF xs(3,1) i len] xs(2) obtain m' c where m': "memsys5Unlink m i l = Inr m'" "onlyNodes (S l - {i}) m m'"
    "dlist (aPool m') (-1) c (remove1 i xs)" "aiFreelist m' = (aiFreelist m)[l := c]"
    by auto
  have "freeLists ns m' (S(l := set (remove1 i xs)))"
  proof (rule freeLists_replace [OF assms(1) _ _ assms(2) m'(4,3)])
    show "onlyNodes (insert i (S l)) m m'" using m'(2) by (auto simp: onlyNodes_def)
    show "i \<notin> S k" if "k \<noteq> l" for k using assms(1,3) that by (auto simp: freeLists_def)
  qed (use xs set_remove1_subset [of i xs] in auto)
  with m' xs show ?thesis by auto
qed

text \<open>The walk returns a node of the list, whatever it stops at.\<close>

lemma firstLoop_ok:
  "dlist (aPool m) p c xs \<Longrightarrow> \<exists>r. firstLoop m c f = Some (Inr r) \<and> (r = f \<or> r \<in> int ` set xs)"
proof (induction xs arbitrary: p c f)
  case Nil
  then show ?case by (simp add: firstLoop.simps)
next
  case (Cons x xs)
  show ?case
  proof (cases "x = 0")
    case True
    with Cons.prems show ?thesis by (simp add: firstLoop.simps [of m 0])
  next
    case False
    with Cons.prems Cons.IH [of "int x" "b_next (aPool m ! x)" "if int x < f then int x else f"]
    show ?thesis by (auto simp: firstLoop.simps [of m "int x"] split: if_splits)
  qed
qed

lemma unlinkFirst_ok:
  assumes "freeLists ns m S" "l < ns" "S l \<noteq> {}"
  shows "\<exists>i m'. memsys5UnlinkFirst m l = Some (Inr (i, m')) \<and> i \<in> S l \<and> onlyNodes (S l - {i}) m m' \<and> freeLists ns m' (S(l := S l - {i}))"
proof -
  from freeLists_list [OF assms(1,2)] obtain xs where xs: "distinct xs" "set xs = S l" "dlist (aPool m) (-1) (aiFreelist m ! l) xs" .
  with assms(3) obtain y ys where y: "xs = y # ys" by (cases xs) auto
  from firstLoop_ok [OF xs(3), of "aiFreelist m ! l"] xs(3) y obtain i where
    "firstLoop m (aiFreelist m ! l) (aiFreelist m ! l) = Some (Inr (int i))" "i \<in> S l"
    using xs(2) by auto
  moreover have "rd (aiFreelist m) l = Inr (aiFreelist m ! l)" using assms(1,2) by (simp add: freeLists_def)
  moreover from unlink_ok [OF assms(1,2) \<open>i \<in> S l\<close>] obtain m' where
    "memsys5Unlink m i l = Inr m'" "onlyNodes (S l - {i}) m m'" "freeLists ns m' (S(l := S l - {i}))" by blast
  ultimately show ?thesis by (simp add: memsys5UnlinkFirst_def)
qed

subsection \<open>Buddies\<close>

text \<open>
  The pool as blocks: a block starts at an index, has a logarithmic size, and is free or not.
  The blocks tile the pool, each at a multiple of its size.
\<close>

type_synonym blocks = "nat \<Rightarrow> (nat \<times> bool) option"

definition covers :: "blocks \<Rightarrow> nat \<Rightarrow> nat \<Rightarrow> bool" where
  "covers B i x \<longleftrightarrow> (\<exists>l f. B i = Some (l, f) \<and> i \<le> x \<and> x < i + 2 ^ l)"

definition tiling :: "nat \<Rightarrow> nat \<Rightarrow> blocks \<Rightarrow> bool" where
  "tiling ns N B \<longleftrightarrow> 0 < ns \<and> 2 ^ (ns - 1) dvd N
     \<and> (\<forall>i l f. B i = Some (l, f) \<longrightarrow> l < ns \<and> 2 ^ l dvd i \<and> i + 2 ^ l \<le> N)
     \<and> (\<forall>x < N. \<exists>i. covers B i x) \<and> (\<forall>i j x. covers B i x \<longrightarrow> covers B j x \<longrightarrow> i = j)"

definition bud :: "nat \<Rightarrow> nat \<Rightarrow> nat" where
  "bud i l = (if odd (i div 2 ^ l) then i - 2 ^ l else i + 2 ^ l)"

definition coalesced :: "nat \<Rightarrow> blocks \<Rightarrow> bool" where
  "coalesced ns B \<longleftrightarrow> (\<forall>i l. B i = Some (l, True) \<longrightarrow> l + 1 < ns \<longrightarrow> B (bud i l) \<noteq> Some (l, True))"

lemma tilingD:
  assumes "tiling ns N B" "B i = Some (l, f)"
  shows "l < ns" "2 ^ l dvd i" "i + 2 ^ l \<le> N" "i < N"
proof -
  show "l < ns" "2 ^ l dvd i" "i + 2 ^ l \<le> N" using assms by (auto simp: tiling_def)
  then show "i < N" using zero_less_power [of "2 :: nat" l] by linarith
qed

lemma tiling_cover: "tiling ns N B \<Longrightarrow> x < N \<Longrightarrow> \<exists>i. covers B i x"
  by (simp add: tiling_def)

lemma tiling_unique: "tiling ns N B \<Longrightarrow> covers B i x \<Longrightarrow> covers B j x \<Longrightarrow> i = j"
  unfolding tiling_def by blast

lemma covers_self: "B i = Some (l, f) \<Longrightarrow> covers B i i"
  by (auto simp: covers_def)

lemma coversI: "B i = Some (l, f) \<Longrightarrow> i \<le> x \<Longrightarrow> x < i + 2 ^ l \<Longrightarrow> covers B i x"
  by (auto simp: covers_def)

lemma dvd_le_below: "d dvd a \<Longrightarrow> d dvd c \<Longrightarrow> a \<le> x \<Longrightarrow> x < c + d \<Longrightarrow> a \<le> c" for d :: nat
proof -
  assume "d dvd a" "d dvd c" "a \<le> x" "x < c + d"
  then obtain k n where k: "a = d * k" "c = d * n" by (auto elim!: dvdE)
  with \<open>a \<le> x\<close> \<open>x < c + d\<close> have "d * k < d * (n + 1)" by simp
  then have "k \<le> n" by (simp only: mult_less_cancel1) simp
  then show ?thesis using k by simp
qed

lemma dvd_less_step: "d dvd a \<Longrightarrow> d dvd c \<Longrightarrow> a < c \<Longrightarrow> a + d \<le> c" for d :: nat
  using dvd_le_below [of d "a + d" c "a + d"] dvd_le_below [of d c a c] by fastforce

text \<open>The buddy and the block make up a block of the next size.\<close>

lemma bud_cases:
  assumes "2 ^ l dvd i"
  obtains "bud i l = i + 2 ^ l" "2 ^ (l + 1) dvd i" "odd (bud i l div 2 ^ l)"
  | "i = bud i l + 2 ^ l" "2 ^ (l + 1) dvd bud i l" "odd (i div 2 ^ l)"
proof -
  obtain q where q: "i = 2 ^ l * q" using assms by (auto elim: dvdE)
  show thesis
  proof (cases "odd q")
    case True
    then obtain r where "q = 2 * r + 1" by (auto elim: oddE)
    with q True that(2) show thesis by (simp add: bud_def algebra_simps)
  next
    case False
    then obtain r where "q = 2 * r" by (auto elim: evenE)
    with q False that(1) show thesis by (simp add: bud_def algebra_simps)
  qed
qed

lemma even_part: "2 ^ (l + 1) dvd i \<Longrightarrow> even (i div 2 ^ l)" for i :: nat
  by (auto elim!: dvdE simp: mult.assoc)

lemma bud_min:
  assumes "2 ^ l dvd i"
  shows "2 ^ (l + 1) dvd min i (bud i l)" "2 ^ l dvd bud i l" "bud i l \<noteq> i" "bud (bud i l) l = i"
    "min i (bud i l) \<le> x \<and> x < min i (bud i l) + 2 ^ (l + 1) \<longleftrightarrow> i \<le> x \<and> x < i + 2 ^ l \<or> bud i l \<le> x \<and> x < bud i l + 2 ^ l"
proof -
  have pos: "(0 :: nat) < 2 ^ l" by simp
  have two: "(2 :: nat) ^ (l + 1) = 2 ^ l + 2 ^ l" by simp
  have half: "2 ^ (l + 1) dvd b \<Longrightarrow> 2 ^ l dvd b" for b :: nat using dvd_mult_right by (auto intro: power_le_dvd)
  show "2 ^ (l + 1) dvd min i (bud i l)" using assms by (cases rule: bud_cases) (auto simp: min_def)
  show "2 ^ l dvd bud i l" using assms by (cases rule: bud_cases) (auto dest: half)
  show "bud i l \<noteq> i" using assms pos by (cases rule: bud_cases) linarith+
  show "bud (bud i l) l = i"
    using assms
  proof (cases rule: bud_cases)
    case 1
    then show ?thesis using bud_def [of "bud i l" l] by simp
  next
    case 2
    then show ?thesis using even_part [OF 2(2)] by (simp add: bud_def [of "bud i l"])
  qed
  show "min i (bud i l) \<le> x \<and> x < min i (bud i l) + 2 ^ (l + 1) \<longleftrightarrow> i \<le> x \<and> x < i + 2 ^ l \<or> bud i l \<le> x \<and> x < bud i l + 2 ^ l"
    using assms unfolding two by (cases rule: bud_cases) (auto simp: min_def)
qed

lemma tilingI:
  assumes "tiling ns N A" "\<And>i l f. B i = Some (l, f) \<Longrightarrow> l < ns \<and> 2 ^ l dvd i \<and> i + 2 ^ l \<le> N"
    "\<And>x. x < N \<Longrightarrow> \<exists>i. covers B i x" "\<And>i j x. covers B i x \<Longrightarrow> covers B j x \<Longrightarrow> i = j"
  shows "tiling ns N B"
  using assms(1) unfolding tiling_def by (intro conjI allI impI) (auto dest: assms(2,3) intro: assms(4))

lemma buddy_inside: "tiling ns N B \<Longrightarrow> B i = Some (l, f) \<Longrightarrow> l + 1 < ns \<Longrightarrow> bud i l + 2 ^ l \<le> N"
proof -
  assume B: "tiling ns N B" "B i = Some (l, f)" "l + 1 < ns"
  note D = tilingD [OF B(1,2)]
  have N: "2 ^ (l + 1) dvd N"
    using B(1,3) power_le_dvd [of 2 "ns - 1" N "l + 1"] by (simp add: tiling_def)
  show ?thesis
    using D(2)
  proof (cases rule: bud_cases)
    case 1
    with dvd_less_step [OF 1(2) N D(4)] show ?thesis by simp
  next
    case 2
    with D(3) show ?thesis by linarith
  qed
qed

text \<open>The buddy of a block starts a block, which is not larger.\<close>

lemma buddy_block:
  assumes B: "tiling ns N B" "B i = Some (l, f)" "l + 1 < ns"
  shows "\<exists>k g. B (bud i l) = Some (k, g) \<and> k \<le> l"
proof -
  let ?b = "bud i l"
  note D = tilingD [OF B(1,2)] and M = bud_min [OF tilingD(2) [OF B(1,2)]]
  have "?b < N" using buddy_inside [OF B] zero_less_power [of "2 :: nat" l] by linarith
  then obtain j k g where j: "B j = Some (k, g)" "j \<le> ?b" "?b < j + 2 ^ k"
    using tiling_cover [OF B(1), of ?b] by (auto simp: covers_def)
  note J = tilingD [OF B(1) j(1)]
  show ?thesis
  proof (cases "k \<le> l")
    case True
    then have "2 ^ k dvd ?b" using M(2) by (auto intro: dvd_trans [OF le_imp_power_dvd])
    then have "?b \<le> j" using dvd_le_below [of "2 ^ k" ?b j ?b] J(2) j by simp
    with j True show ?thesis by auto
  next
    case False
    let ?m = "min i ?b" and ?d = "2 ^ (l + 1) :: nat"
    have d: "?d dvd j" "?d dvd j + 2 ^ k"
      using False power_le_dvd [OF J(2), of "l + 1"] le_imp_power_dvd [of "l + 1" k "2 :: nat"] by (auto intro: dvd_add)
    have m: "?m \<le> ?b" "?b < ?m + ?d" using M(5) [of ?b] by simp_all
    have "j \<le> ?m" using dvd_le_below [OF d(1) M(1) j(2) m(2)] .
    moreover have "?m + ?d \<le> j + 2 ^ k" using dvd_less_step [OF M(1) d(2)] m(1) j(3) by simp
    moreover have "?m \<le> i" "i < ?m + ?d" using M(5) [of i] by simp_all
    ultimately have "covers B j i" using j(1) by (auto intro: coversI)
    with tiling_unique [OF B(1) _ covers_self [of B i l f, OF B(2)]] have "j = i" by blast
    with j B(2) False show ?thesis by simp
  qed
qed

lemma tiling_merge:
  assumes B: "tiling ns N B" "B i = Some (l, f)" "B (bud i l) = Some (l, g)" "l + 1 < ns" and m: "m = min i (bud i l)"
  shows "tiling ns N (B(i := None, bud i l := None, m \<mapsto> (l + 1, h)))" (is "tiling ns N ?B")
proof -
  let ?b = "bud i l"
  note D = tilingD [OF B(1,2)] and M = bud_min [OF tilingD(2) [OF B(1,2)], folded m]
  have cov: "covers ?B k x \<longleftrightarrow> (k = m \<and> (covers B i x \<or> covers B ?b x)) \<or> (k \<noteq> i \<and> k \<noteq> ?b \<and> covers B k x)" for k x
  proof (cases "k = m")
    case True
    then have "covers ?B k x \<longleftrightarrow> m \<le> x \<and> x < m + 2 ^ (l + 1)" by (simp add: covers_def)
    also have "\<dots> \<longleftrightarrow> covers B i x \<or> covers B ?b x" unfolding M(5) using B(2,3) by (simp add: covers_def)
    finally show ?thesis using True m by auto
  next
    case False
    then show ?thesis by (auto simp: covers_def)
  qed
  have geom: "k < ns \<and> 2 ^ k dvd j \<and> j + 2 ^ k \<le> N" if "?B j = Some (k, e)" for j k e
  proof (cases "j = m")
    case True
    then have "k = l + 1" using that by simp
    moreover have "m + 2 ^ (l + 1) \<le> N"
      using D(2)
    proof (cases rule: bud_cases)
      case 1
      with buddy_inside [OF B(1,2,4)] show ?thesis by (simp add: m)
    next
      case 2
      then have "m = ?b" by (simp add: m)
      with D(3) 2(1) show ?thesis by simp
    qed
    ultimately show ?thesis using True M(1) B(4) by simp
  next
    case False
    with that have "B j = Some (k, e)" by (auto split: if_splits)
    from tilingD [OF B(1) this] show ?thesis by simp
  qed
  have uniq: "a = b" if "covers ?B a x" "covers ?B b x" for a b x
  proof -
    have "b = m" if "covers B i x \<or> covers B ?b x" "covers ?B b x" for b
      using that unfolding cov using tiling_unique [OF B(1), of _ x] by blast
    with that tiling_unique [OF B(1), of _ x] show ?thesis unfolding cov by blast
  qed
  have ex: "\<exists>j. covers ?B j x" if "x < N" for x
  proof -
    from tiling_cover [OF B(1) that] obtain j where "covers B j x" ..
    then have "covers ?B m x \<or> covers ?B j x" unfolding cov by (cases "j = i \<or> j = ?b") auto
    then show ?thesis by blast
  qed
  show ?thesis by (rule tilingI [OF B(1) geom ex uniq])
qed

lemma tiling_split:
  assumes B: "tiling ns N B" "B i = Some (l + 1, f)"
  shows "tiling ns N (B(i \<mapsto> (l, g), i + 2 ^ l \<mapsto> (l, h)))" (is "tiling ns N ?B") "B (i + 2 ^ l) = None"
proof -
  let ?j = "i + 2 ^ l"
  note D = tilingD [OF B]
  have ne: "?j \<noteq> i" by simp
  have two: "(2 :: nat) ^ (l + 1) = 2 ^ l + 2 ^ l" by simp
  have "covers B i ?j" using B(2) by (simp add: covers_def)
  then show none: "B ?j = None"
    using tiling_unique [OF B(1), of i ?j ?j] covers_self [of B ?j] ne by (cases "B ?j") auto
  have cov: "covers ?B k x \<longleftrightarrow> (k = i \<and> i \<le> x \<and> x < ?j) \<or> (k = ?j \<and> ?j \<le> x \<and> x < ?j + 2 ^ l) \<or> (k \<noteq> i \<and> k \<noteq> ?j \<and> covers B k x)" for k x
    by (auto simp: covers_def)
  have ci: "covers B i x \<longleftrightarrow> i \<le> x \<and> x < i + 2 ^ l \<or> ?j \<le> x \<and> x < ?j + 2 ^ l" for x
    using B(2) two by (auto simp: covers_def)
  have geom: "k < ns \<and> 2 ^ k dvd a \<and> a + 2 ^ k \<le> N" if "?B a = Some (k, e)" for a k e
  proof (cases "a = i \<or> a = ?j")
    case True
    then have "k = l" using that by (auto split: if_splits)
    moreover have "2 ^ l dvd i" using D(2) by (auto intro: power_le_dvd)
    ultimately show ?thesis using True D(1,3) two by auto
  next
    case False
    with that have "B a = Some (k, e)" by (auto split: if_splits)
    from tilingD [OF B(1) this] show ?thesis by simp
  qed
  have uniq: "a = b" if "covers ?B a x" "covers ?B b x" for a b x
  proof (cases "covers B i x")
    case True
    have "\<not> (k \<noteq> i \<and> covers B k x)" for k using tiling_unique [OF B(1) True] by blast
    with that show ?thesis unfolding cov by (metis linorder_not_less)
  next
    case False
    then have "\<not> (i \<le> x \<and> x < ?j)" "\<not> (?j \<le> x \<and> x < ?j + 2 ^ l)" using ci by blast+
    with that have "covers B a x" "covers B b x" unfolding cov by blast+
    then show ?thesis by (rule tiling_unique [OF B(1)])
  qed
  have ex: "\<exists>j. covers ?B j x" if "x < N" for x
  proof -
    from tiling_cover [OF B(1) that] obtain k where k: "covers B k x" ..
    moreover from k none have "k \<noteq> ?j" by (auto simp: covers_def)
    ultimately have "covers ?B i x \<or> covers ?B ?j x \<or> covers ?B k x" unfolding cov using ci [of x] ne by (cases "k = i") auto
    then show ?thesis by blast
  qed
  show "tiling ns N ?B" by (rule tilingI [OF B(1) geom ex uniq])
qed

text \<open>An aligned run of blocks without a block in use lies in a free block of at least its size.\<close>

lemma free_run:
  assumes B: "tiling ns N B" "coalesced ns B" and a: "l < ns" "2 ^ l dvd a" "a + 2 ^ l \<le> N"
    and free: "\<And>i x k. a \<le> x \<Longrightarrow> x < a + 2 ^ l \<Longrightarrow> covers B i x \<Longrightarrow> B i \<noteq> Some (k, False)"
  shows "\<exists>i k. l \<le> k \<and> B i = Some (k, True)"
proof (rule ccontr)
  assume none: "\<not> ?thesis"
  define A where "A = {k. \<exists>i f x. B i = Some (k, f) \<and> a \<le> x \<and> x < a + 2 ^ l \<and> covers B i x}"
  have "a < N" using a(3) zero_less_power [of "2 :: nat" l] by linarith
  from tiling_cover [OF B(1) this] have "\<exists>k. k \<in> A" by (force simp: A_def covers_def)
  then obtain k where k: "k \<in> A" "\<And>j. j \<in> A \<Longrightarrow> k \<le> j" using LeastI_ex [of "\<lambda>k. k \<in> A"] Least_le [of "\<lambda>k. k \<in> A"] by blast
  from k(1) obtain i f x where i: "B i = Some (k, f)" "a \<le> x" "x < a + 2 ^ l" "covers B i x" by (auto simp: A_def)
  with free have f: "f" by (cases f) auto
  with none i have kl: "k < l" by (metis not_less)
  let ?b = "bud i k" and ?m = "min i (bud i k)" and ?d = "2 ^ (k + 1) :: nat"
  note M = bud_min [OF tilingD(2) [OF B(1) i(1)]]
  have x: "?m \<le> x" "x < ?m + ?d" using M(5) [of x] i(1,4) by (auto simp: covers_def)
  have d: "?d dvd a" "?d dvd a + 2 ^ l"
    using kl power_le_dvd [OF a(2), of "k + 1"] le_imp_power_dvd [of "k + 1" l "2 :: nat"] by (auto intro: dvd_add)
  have "a \<le> ?m" by (rule dvd_le_below [OF d(1) M(1) i(2) x(2)])
  moreover have "?m + ?d \<le> a + 2 ^ l" using dvd_less_step [OF M(1) d(2)] x(1) i(3) by simp
  moreover have "?m \<le> ?b" "?b < ?m + ?d" using M(5) [of ?b] by simp_all
  ultimately have b: "a \<le> ?b" "?b < a + 2 ^ l" by linarith+
  have kns: "k + 1 < ns" using kl a(1) by simp
  from buddy_block [OF B(1) i(1) kns] obtain j g where j: "B ?b = Some (j, g)" "j \<le> k" by blast
  have c: "covers B ?b ?b" using j(1) by (simp add: covers_def)
  from j(1) b c have "j \<in> A" unfolding A_def by blast
  from k(2) [OF this] j have "B ?b = Some (k, g)" by simp
  moreover have "g" using free [OF b c] j(1) by (cases g) auto
  ultimately show False using B(2) i(1) f kns by (auto simp: coalesced_def)
qed

subsection \<open>The state of the allocator\<close>

definition freeOf :: "blocks \<Rightarrow> nat \<Rightarrow> nat set" where
  "freeOf B l = {i. B i = Some (l, True)}"

definition ctrlByte :: "nat \<Rightarrow> bool \<Rightarrow> byte" where
  "ctrlByte l f = (if f then CTRL_FREE OR of_nat l else of_nat l)"

text \<open>The control bytes are right but for the blocks in H, which an operation has in hand.\<close>

definition poolInv :: "nat \<Rightarrow> mem5 \<Rightarrow> blocks \<Rightarrow> nat set \<Rightarrow> bool" where
  "poolInv ns m B H \<longleftrightarrow> ns \<le> 32 \<and> tiling ns (length (aPool m)) B \<and> coalesced ns B \<and> freeLists ns m (freeOf B)
     \<and> length (aCtrl m) = length (aPool m) \<and> (\<forall>i l f. B i = Some (l, f) \<longrightarrow> i \<notin> H \<longrightarrow> aCtrl m ! i = ctrlByte l f)"

lemma poolInvD:
  assumes "poolInv ns m B H"
  shows "ns \<le> 32" "tiling ns (length (aPool m)) B" "coalesced ns B" "freeLists ns m (freeOf B)" "length (aCtrl m) = length (aPool m)"
    "B i = Some (l, f) \<Longrightarrow> i \<notin> H \<Longrightarrow> aCtrl m ! i = ctrlByte l f"
  using assms by (auto simp: poolInv_def)

text \<open>The parts of the state that the operations on blocks change, and the blocks of memory they leave.\<close>

definition otherParts :: "mem5 \<Rightarrow> mem5" where
  "otherParts m = m\<lparr>aPool := [], aiFreelist := [], aCtrl := []\<rparr>"

definition sameBut :: "nat set \<Rightarrow> mem5 \<Rightarrow> mem5 \<Rightarrow> bool" where
  "sameBut S m m' \<longleftrightarrow> otherParts m' = otherParts m \<and> length (aPool m') = length (aPool m)
     \<and> (\<forall>x. x \<notin> S \<longrightarrow> aPool m' ! x = aPool m ! x)"

lemma sameBut_refl [simp]: "sameBut S m m"
  by (simp add: sameBut_def)

lemma sameBut_trans: "sameBut S m m' \<Longrightarrow> sameBut T m' m'' \<Longrightarrow> S \<union> T \<subseteq> U \<Longrightarrow> sameBut U m m''"
  unfolding sameBut_def by (metis Un_iff subsetD)

lemma sameBut_ctrl [simp]: "sameBut S (m\<lparr>aCtrl := c\<rparr>) m' \<longleftrightarrow> sameBut S m m'" "sameBut S m (m'\<lparr>aCtrl := c\<rparr>) \<longleftrightarrow> sameBut S m m'"
  by (simp_all add: sameBut_def otherParts_def)

lemma onlyNodes_sameBut: "onlyNodes S m m' \<Longrightarrow> sameBut S m m'"
  unfolding onlyNodes_def sameBut_def otherParts_def by (cases m; cases m') auto

definition usedOf :: "blocks \<Rightarrow> nat \<Rightarrow> nat option" where
  "usedOf B i = (case B i of Some (l, False) \<Rightarrow> Some l | _ \<Rightarrow> None)"

definition freeHeads :: "blocks \<Rightarrow> nat set" where
  "freeHeads B = {i. \<exists>l. B i = Some (l, True)}"

lemma usedOf_iff: "usedOf B i = Some l \<longleftrightarrow> B i = Some (l, False)"
  by (auto simp: usedOf_def split: option.splits bool.splits prod.splits)

lemma usedOf_upd [simp]:
  "usedOf (B(i \<mapsto> (l, False))) = (usedOf B)(i \<mapsto> l)" "usedOf (B(i \<mapsto> (l, True))) = (usedOf B)(i := None)"
  "usedOf (B(i := None)) = (usedOf B)(i := None)"
  by (auto simp: usedOf_def fun_eq_iff)

lemma freeOf_upd [simp]:
  "freeOf (B(i \<mapsto> (l, True))) k = (if k = l then insert i (freeOf B k) else freeOf B k - {i})"
  "freeOf (B(i \<mapsto> (l, False))) k = freeOf B k - {i}"
  "freeOf (B(i := None)) k = freeOf B k - {i}"
  by (auto simp: freeOf_def)

lemma freeOf_heads: "freeOf B l \<subseteq> freeHeads B"
  by (auto simp: freeOf_def freeHeads_def)

text \<open>The control byte tells the size and whether the block is free.\<close>

lemma small_byte: "list_all P [0..<32] \<Longrightarrow> l < 32 \<Longrightarrow> P l"
  by (simp add: list_all_iff)

lemma unat_ctrlByte: "l < 32 \<Longrightarrow> unat (ctrlByte l f) = l + (if f then 32 else 0)"
proof -
  have "list_all (\<lambda>l. unat (ctrlByte l True) = l + 32 \<and> unat (ctrlByte l False) = l) [0..<32]" by code_simp
  then show "l < 32 \<Longrightarrow> ?thesis" by (cases f) (auto dest: small_byte)
qed

lemma ctrlByte_free: "k < 32 \<Longrightarrow> l < 32 \<Longrightarrow> ctrlByte k g = CTRL_FREE OR of_nat l \<longleftrightarrow> k = l \<and> g"
proof -
  assume kl: "k < 32" "l < 32"
  have "k = l \<and> g" if eq: "ctrlByte k g = ctrlByte l True"
  proof -
    from arg_cong [OF eq, of unat] have "k + (if g then 32 else 0) = l + 32"
      by (simp only: unat_ctrlByte [OF kl(1)] unat_ctrlByte [OF kl(2)] if_True)
    with kl show ?thesis by (cases g) simp_all
  qed
  then have "ctrlByte k g = ctrlByte l True \<longleftrightarrow> k = l \<and> g" by (cases g) auto
  then show ?thesis unfolding ctrlByte_def [of l] if_True .
qed

lemma ctrlByte_size: "l < 32 \<Longrightarrow> unat (ctrlByte l f AND CTRL_LOGSIZE) = l"
proof -
  have "list_all (\<lambda>l. unat (ctrlByte l True AND CTRL_LOGSIZE) = l \<and> unat (ctrlByte l False AND CTRL_LOGSIZE) = l) [0..<32]" by code_simp
  then show "l < 32 \<Longrightarrow> ?thesis" by (cases f) (auto dest: small_byte)
qed

lemma coalesced_less:
  "coalesced ns B \<Longrightarrow> (\<And>i l. A i = Some (l, True) \<Longrightarrow> B i = Some (l, True)) \<Longrightarrow> coalesced ns A"
  unfolding coalesced_def by blast

text \<open>A block becomes free beside a buddy that is not.\<close>

lemma coalesced_insert:
  assumes "coalesced ns B" "2 ^ l dvd i" "\<And>j k f. B j = Some (k, f) \<Longrightarrow> 2 ^ k dvd j" "l + 1 < ns \<longrightarrow> B (bud i l) \<noteq> Some (l, True)"
  shows "coalesced ns (B(i \<mapsto> (l, True)))"
  unfolding coalesced_def
proof (intro allI impI)
  fix j k assume j: "(B(i \<mapsto> (l, True))) j = Some (k, True)" "k + 1 < ns"
  note M = bud_min [OF assms(2)]
  show "(B(i \<mapsto> (l, True))) (bud j k) \<noteq> Some (k, True)"
  proof (cases "j = i")
    case True
    with j assms(4) M(3) show ?thesis by auto
  next
    case False
    with j have Bj: "B j = Some (k, True)" by simp
    show ?thesis
    proof
      assume c: "(B(i \<mapsto> (l, True))) (bud j k) = Some (k, True)"
      with Bj j(2) assms(1) have "bud j k = i" "k = l" by (auto simp: coalesced_def split: if_splits)
      with bud_min(4) [OF assms(3) [OF Bj]] Bj j(2) assms(4) show False by auto
    qed
  qed
qed

text \<open>One round of the loop that splits.\<close>

lemma split_step:
  assumes inv: "poolInv ns m B {i}" and B: "B i = Some (k + 1, False)"
  shows "\<exists>m1 m2. setCtrl m (i + 2 ^ k) (CTRL_FREE OR of_nat k) = Inr m1 \<and> memsys5Link m1 (i + 2 ^ k) k = Inr m2
    \<and> poolInv ns m2 (B(i \<mapsto> (k, False), i + 2 ^ k \<mapsto> (k, True))) {i} \<and> sameBut (insert (i + 2 ^ k) (freeOf B k)) m m2"
proof -
  let ?j = "i + 2 ^ k" and ?m1 = "m\<lparr>aCtrl := (aCtrl m)[i + 2 ^ k := CTRL_FREE OR of_nat k]\<rparr>"
  let ?B = "B(i \<mapsto> (k, False), ?j \<mapsto> (k, True))" and ?B1 = "B(i \<mapsto> (k, False))"
  note P = poolInvD [OF inv]
  note D = tilingD [OF P(2) B]
  have ne: "?j \<noteq> i" by simp
  note T = tiling_split(1) [OF P(2) B, of False True] tiling_split(2) [OF P(2) B]
  have j: "?j < length (aPool m)" using tilingD(4) [OF T(1), of ?j k True] by simp
  have al: "2 ^ k dvd i" "k + 1 < ns" using D by (auto intro: power_le_dvd)
  have lists: "freeLists ns ?m1 (freeOf B)" by (rule freeLists_cong [OF P(4)]) simp_all
  have nofree: "?j \<notin> freeOf B l" "i \<notin> freeOf B l" for l using T(2) B by (auto simp: freeOf_def)
  from link_ok [OF lists, of k ?j] al(2) j nofree obtain m2 where
    m2: "memsys5Link ?m1 ?j k = Inr m2" "onlyNodes (insert ?j (freeOf B k)) ?m1 m2" "freeLists ns m2 ((freeOf B)(k := insert ?j (freeOf B k)))"
    by auto
  have "(freeOf B)(k := insert ?j (freeOf B k)) = freeOf ?B" using nofree by (auto simp: fun_eq_iff)
  with m2(3) have F: "freeLists ns m2 (freeOf ?B)" by simp
  have S: "sameBut (insert ?j (freeOf B k)) m m2" using onlyNodes_sameBut [OF m2(2)] by simp
  have ctrl: "aCtrl m2 = aCtrl ?m1" using m2(2) by (cases m2) (auto simp: onlyNodes_def)
  have C: "coalesced ns ?B"
  proof (rule coalesced_insert)
    show "coalesced ns ?B1" by (rule coalesced_less [OF P(3)]) (auto split: if_splits)
    show "2 ^ k dvd ?j" using al(1) by simp
    show "2 ^ b dvd a" if "?B1 a = Some (b, f)" for a b f
      using that al(1) tilingD(2) [OF P(2), of a b f] by (auto split: if_splits)
    have "bud i k = ?j" using even_part [OF D(2)] by (simp add: bud_def)
    then show "k + 1 < ns \<longrightarrow> ?B1 (bud ?j k) \<noteq> Some (k, True)" using bud_min(4) [OF al(1)] by auto
  qed
  have K: "aCtrl m2 ! a = ctrlByte b f" if "?B a = Some (b, f)" "a \<notin> {i}" for a b f
    using that P(5) P(6) [of a b f] j unfolding ctrl by (auto simp: ctrlByte_def split: if_splits)
  have "length (aCtrl m2) = length (aPool m2)" "length (aPool m2) = length (aPool m)"
    using S P(5) ctrl by (simp_all add: sameBut_def)
  then have "poolInv ns m2 ?B {i}" using P(1) T(1) C F K unfolding poolInv_def by auto
  with m2(1) S j P(5) show ?thesis by auto
qed

lemma splitLoop_ok:
  "poolInv ns m B {i} \<Longrightarrow> B i = Some (l + d, False) \<Longrightarrow>
   \<exists>m' B'. splitLoop m i l d = Inr m' \<and> poolInv ns m' B' {i} \<and> B' i = Some (l, False) \<and> usedOf B' = (usedOf B)(i \<mapsto> l)
     \<and> sameBut (freeHeads B') m m' \<and> freeHeads B \<subseteq> freeHeads B'"
proof (induction d arbitrary: m B)
  case 0
  then show ?case by (intro exI [of _ m] exI [of _ B]) (auto simp: fun_eq_iff usedOf_iff)
next
  case (Suc d)
  let ?k = "l + d" and ?B = "B(i \<mapsto> (l + d, False), i + 2 ^ (l + d) \<mapsto> (l + d, True))"
  from split_step [OF Suc.prems(1), of ?k] Suc.prems(2) obtain m1 m2 where
    s: "setCtrl m (i + 2 ^ ?k) (CTRL_FREE OR of_nat ?k) = Inr m1" "memsys5Link m1 (i + 2 ^ ?k) ?k = Inr m2"
      "poolInv ns m2 ?B {i}" "sameBut (insert (i + 2 ^ ?k) (freeOf B ?k)) m m2" by auto
  have T: "B (i + 2 ^ ?k) = None"
    using tiling_split(2) [OF poolInvD(2) [OF Suc.prems(1)]] Suc.prems(2) by simp
  have "?B i = Some (l + d, False)" by simp
  from Suc.IH [OF s(3) this] obtain m' B' where m': "splitLoop m2 i l d = Inr m'" "poolInv ns m' B' {i}" "B' i = Some (l, False)"
    "usedOf B' = (usedOf ?B)(i \<mapsto> l)" "sameBut (freeHeads B') m2 m'" "freeHeads ?B \<subseteq> freeHeads B'" by blast
  have "(usedOf B)(i + 2 ^ ?k := None) = usedOf B" using T by (auto simp: usedOf_def)
  then have "usedOf B' = (usedOf B)(i \<mapsto> l)" using m'(4) by (auto simp: fun_eq_iff)
  moreover have "insert (i + 2 ^ ?k) (freeHeads B) \<subseteq> freeHeads B'"
  proof -
    have "insert (i + 2 ^ ?k) (freeHeads B) \<subseteq> freeHeads ?B" using Suc.prems(2) by (auto simp: freeHeads_def)
    with m'(6) show ?thesis by blast
  qed
  moreover from this sameBut_trans [OF s(4) m'(5), of "freeHeads B'"] freeOf_heads [of B ?k] have "sameBut (freeHeads B') m m'" by auto
  moreover have "splitLoop m i l (Suc d) = Inr m'" using s(1,2) m'(1) by (simp add: Let_def)
  ultimately show ?case using m'(2,3) by blast
qed

text \<open>One round of the loop that coalesces, when the buddy is free.\<close>

lemma merge_step:
  assumes inv: "poolInv ns m B {i}" and B: "B i = Some (l, False)" "B (bud i l) = Some (l, True)" "l + 1 < ns"
    and h: "h = min i (bud i l)" "o' = max i (bud i l)"
  shows "\<exists>m1 m2 m3. memsys5Unlink m (bud i l) l = Inr m1 \<and> setCtrl m1 h (CTRL_FREE OR of_nat (l + 1)) = Inr m2 \<and> setCtrl m2 o' 0 = Inr m3
    \<and> poolInv ns m3 (B(i := None, bud i l := None, h \<mapsto> (l + 1, False))) {h} \<and> aCtrl m3 ! h = ctrlByte (l + 1) True
    \<and> sameBut (freeOf B l) m m3"
proof -
  let ?b = "bud i l" and ?B = "B(i := None, bud i l := None, h \<mapsto> (l + 1, False))"
  note P = poolInvD [OF inv]
  note D = tilingD [OF P(2) B(1)] tilingD [OF P(2) B(2)] and M = bud_min [OF tilingD(2) [OF P(2) B(1)]]
  have ho: "h \<noteq> o'" "{h, o'} = {i, ?b}" "h < length (aPool m)" "o' < length (aPool m)"
    using M(3) D(4,8) h by (auto simp: min_def max_def)
  from unlink_ok [OF P(4), of l ?b] B D(1) obtain m1 where m1: "memsys5Unlink m ?b l = Inr m1"
    "onlyNodes (freeOf B l - {?b}) m m1" "freeLists ns m1 ((freeOf B)(l := freeOf B l - {?b}))" by (auto simp: freeOf_def)
  have ctrl: "aCtrl m1 = aCtrl m" "length (aPool m1) = length (aPool m)" using m1(2) by (cases m1; auto simp: onlyNodes_def)+
  let ?m3 = "m1\<lparr>aCtrl := (aCtrl m)[h := CTRL_FREE OR of_nat (l + 1), o' := 0]\<rparr>"
  have i: "i \<notin> freeOf B k" "?b \<in> freeOf B k \<longleftrightarrow> k = l" for k using B by (auto simp: freeOf_def)
  have "h = i \<or> h = ?b" using h by (simp add: min_def)
  then have "(freeOf B)(l := freeOf B l - {?b}) = freeOf ?B" using i by (auto simp: fun_eq_iff)
  with m1(3) have F1: "freeLists ns m1 (freeOf ?B)" by simp
  have F: "freeLists ns ?m3 (freeOf ?B)" by (rule freeLists_cong [OF F1]) simp_all
  have S: "sameBut (freeOf B l) m ?m3"
    using sameBut_trans [OF onlyNodes_sameBut [OF m1(2)] sameBut_refl [of "{}"], of "freeOf B l"] by simp
  have T: "tiling ns (length (aPool ?m3)) ?B" using tiling_merge [OF P(2) B h(1)] ctrl by simp
  have C: "coalesced ns ?B" by (rule coalesced_less [OF P(3)]) (auto split: if_splits)
  have K: "aCtrl ?m3 ! a = ctrlByte b f" if "?B a = Some (b, f)" "a \<notin> {h}" for a b f
  proof -
    from that have a: "a \<noteq> i" "a \<noteq> ?b" "B a = Some (b, f)" by (simp_all split: if_splits)
    then have "h \<noteq> a" "o' \<noteq> a" unfolding h by (simp_all add: min_def max_def)
    with P(6) [OF a(3)] a(1) show ?thesis by simp
  qed
  have "poolInv ns ?m3 ?B {h}" using P(1,5) ctrl T C F K unfolding poolInv_def by auto
  moreover have "aCtrl ?m3 ! h = ctrlByte (l + 1) True" using ho P(5) by (simp add: ctrlByte_def)
  moreover have "setCtrl m1 h (CTRL_FREE OR of_nat (l + 1)) = Inr (m1\<lparr>aCtrl := (aCtrl m)[h := CTRL_FREE OR of_nat (l + 1)]\<rparr>)"
    "setCtrl (m1\<lparr>aCtrl := (aCtrl m)[h := CTRL_FREE OR of_nat (l + 1)]\<rparr>) o' 0 = Inr ?m3"
    using ho(3,4) P(5) ctrl by simp_all
  ultimately show ?thesis using m1(1) S by blast
qed

lemma freeLoop_ok:
  assumes "poolInv ns m B {i}" "B i = Some (l, False)" "aCtrl m ! i = ctrlByte l True" "sz = 2 ^ l"
  shows "\<exists>i' l' m' B'. freeLoop ns m i l sz = Inr (i', l', m') \<and> poolInv ns m' B' {i'} \<and> B' i' = Some (l', False)
    \<and> aCtrl m' ! i' = ctrlByte l' True \<and> (l' + 1 < ns \<longrightarrow> B' (bud i' l') \<noteq> Some (l', True))
    \<and> (usedOf B')(i' := None) = (usedOf B)(i := None) \<and> i' \<in> insert i (freeHeads B) \<and> freeHeads B' \<subseteq> freeHeads B
    \<and> sameBut (freeHeads B) m m'"
  using assms
proof (induction "ns - 1 - l" arbitrary: m i l sz B)
  case 0
  note inv = "0.prems"(1) and Bi = "0.prems"(2)
  note D = tilingD [OF poolInvD(2) [OF inv] Bi]
  have "\<not> l < ns - 1" "\<not> l + 1 < ns" using "0.hyps" D(1) by simp_all
  with 0 show ?case by (simp add: freeLoop.simps) blast
next
  case (Suc d)
  note inv = Suc.prems(1) and Bi = Suc.prems(2)
  note P = poolInvD [OF inv] and l = Suc.prems(4)
  have ll: "l < ns - 1" "l + 1 < ns" using Suc.hyps(2) by simp_all
  let ?b = "bud i l"
  have b: "(if odd (i div 2 ^ l) then i - sz else i + sz) = ?b" by (simp add: bud_def l)
  note M = bud_min [OF tilingD(2) [OF P(2) Bi]]
  from buddy_block [OF P(2) Bi ll(2)] obtain k g where k: "B ?b = Some (k, g)" "k \<le> l" by blast
  note K = tilingD [OF P(2) k(1)]
  have c: "rd (aCtrl m) ?b = Inr (ctrlByte k g)" using P(5) P(6) [OF k(1)] K(4) M(3) by simp
  have test: "ctrlByte k g \<noteq> CTRL_FREE OR of_nat l \<longleftrightarrow> B ?b \<noteq> Some (l, True)"
    using ctrlByte_free [of k l g] K(1) ll P(1) k(1) by simp
  show ?case
  proof (cases "B ?b = Some (l, True)")
    case False
    then have "freeLoop ns m i l sz = Inr (i, l, m)"
      unfolding freeLoop.simps [of ns m i l sz] using ll(1) by (simp add: Let_def b c test)
    with Suc.prems False show ?thesis using sameBut_refl by blast
  next
    case True
    let ?h = "min i ?b" and ?o = "max i ?b"
    let ?B = "B(i := None, ?b := None, ?h \<mapsto> (l + 1, False))"
    from merge_step [OF inv Bi True ll(2) refl refl] obtain m1 m2 m3 where
      s: "memsys5Unlink m ?b l = Inr m1" "setCtrl m1 ?h (CTRL_FREE OR of_nat (l + 1)) = Inr m2" "setCtrl m2 ?o 0 = Inr m3"
        "poolInv ns m3 ?B {?h}" "aCtrl m3 ! ?h = ctrlByte (l + 1) True" "sameBut (freeOf B l) m m3" by blast
    have "freeLoop ns m i l sz = freeLoop ns m3 ?h (l + 1) (sz * 2)"
      unfolding freeLoop.simps [of ns m i l sz]
      using ll(1) s(1-3) M(3) True test by (cases "?b < i") (simp_all add: Let_def b c min_def max_def)
    moreover have "d = ns - 1 - (l + 1)" "sz * 2 = 2 ^ (l + 1)" using Suc.hyps(2) l by simp_all
    moreover have "?B ?h = Some (l + 1, False)" by simp
    ultimately obtain i' l' m' B' where r: "freeLoop ns m i l sz = Inr (i', l', m')" "poolInv ns m' B' {i'}" "B' i' = Some (l', False)"
      "aCtrl m' ! i' = ctrlByte l' True" "l' + 1 < ns \<longrightarrow> B' (bud i' l') \<noteq> Some (l', True)"
      "(usedOf B')(i' := None) = (usedOf ?B)(?h := None)" "i' \<in> insert ?h (freeHeads ?B)" "freeHeads B' \<subseteq> freeHeads ?B" "sameBut (freeHeads ?B) m3 m'"
      using Suc.hyps(1) [OF _ s(4) _ s(5)] by metis
    have sub: "freeHeads ?B \<subseteq> freeHeads B" by (auto simp: freeHeads_def split: if_splits)
    have "usedOf B ?b = None" using True by (simp add: usedOf_def)
    then have "(usedOf ?B)(?h := None) = (usedOf B)(i := None)" by (auto simp: fun_eq_iff min_def)
    moreover have "?h \<in> insert i (freeHeads B)" using True by (auto simp: min_def freeHeads_def)
    moreover have "sameBut (freeHeads B) m m'" using sameBut_trans [OF s(6) r(9)] sub freeOf_heads [of B l] by blast
    ultimately show ?thesis using r sub by (metis (no_types, lifting) insert_iff subset_iff)
  qed
qed

subsection \<open>Requests and releases on blocks\<close>

lemma tiling_flag: "tiling ns N B \<Longrightarrow> B i = Some (l, f) \<Longrightarrow> tiling ns N (B(i \<mapsto> (l, g)))"
proof -
  assume B: "tiling ns N B" "B i = Some (l, f)"
  let ?B = "B(i \<mapsto> (l, g))"
  have cov: "covers ?B j x \<longleftrightarrow> covers B j x" for j x using B(2) by (auto simp: covers_def)
  have "k < ns \<and> 2 ^ k dvd j \<and> j + 2 ^ k \<le> N" if "?B j = Some (k, h)" for j k h
  proof -
    have "\<exists>f. B j = Some (k, f)" using that B(2) by (auto split: if_splits)
    then show ?thesis using tilingD [OF B(1)] by blast
  qed
  then show ?thesis by (rule tilingI [OF B(1)]) (use tiling_cover [OF B(1)] tiling_unique [OF B(1)] in \<open>simp_all add: cov\<close>)
qed

text \<open>A free header is not inside a block in use.\<close>

lemma used_cell:
  assumes "tiling ns N B" "B j = Some (k, False)" "j \<le> x" "x < j + 2 ^ k"
  shows "x \<notin> freeHeads B" "B x = Some (l, f) \<Longrightarrow> x = j"
proof -
  have "covers B j x" using assms(2-4) by (auto simp: covers_def)
  then show h: "x = j" if "B x = Some (l, f)" for l f
    using tiling_unique [OF assms(1) _ covers_self [of B x l f, OF that]] by auto
  show "x \<notin> freeHeads B" using h assms(2) by (auto simp: freeHeads_def)
qed

lemma poolInv_cong:
  assumes "poolInv ns m B H" "aPool m' = aPool m" "aiFreelist m' = aiFreelist m" "aCtrl m' = aCtrl m"
  shows "poolInv ns m' B H"
  using assms freeLists_cong [OF poolInvD(4) [OF assms(1)], of m'] unfolding poolInv_def by auto

lemma block_free_ok:
  assumes inv: "poolInv ns m B {}" and B: "B i = Some (l, False)"
  shows "\<exists>m' B'. memsys5Free ns lm m i = Inr m' \<and> poolInv ns m' B' {} \<and> usedOf B' = (usedOf B)(i := None)
    \<and> sameBut (insert i (freeHeads B)) (m\<lparr>currentCount := currentCount m - 1, currentOut := currentOut m - of_nat (2 ^ l * 2 ^ lm)\<rparr>) m'"
proof -
  note P = poolInvD [OF inv]
  note D = tilingD [OF P(2) B]
  let ?e = "i + 2 ^ l - 1"
  have e: "i \<le> ?e" "?e < i + 2 ^ l" "?e < length (aPool m)" using D(3) zero_less_power [of "2 :: nat" l] by linarith+
  have l: "l < 32" using D(1) P(1) by simp
  let ?m1 = "m\<lparr>aCtrl := (aCtrl m)[i := ctrlByte l False OR CTRL_FREE]\<rparr>"
  let ?m2 = "?m1\<lparr>aCtrl := (aCtrl ?m1)[?e := aCtrl ?m1 ! ?e OR CTRL_FREE]\<rparr>"
  let ?m3 = "?m2\<lparr>currentCount := currentCount m - 1, currentOut := currentOut m - of_nat (2 ^ l * 2 ^ lm)\<rparr>"
  let ?m4 = "?m3\<lparr>aCtrl := (aCtrl ?m3)[i := ctrlByte l True]\<rparr>"
  have "freeLists ns ?m4 (freeOf B)" by (rule freeLists_cong [OF P(4)]) simp_all
  moreover have "aCtrl ?m4 ! j = ctrlByte k f" if "B j = Some (k, f)" "j \<notin> {i}" for j k f
  proof -
    have "j \<noteq> ?e" using used_cell(2) [OF P(2) B e(1,2)] that by auto
    with that P(6) [of j k f] show ?thesis by simp
  qed
  ultimately have inv4: "poolInv ns ?m4 B {i}" using P unfolding poolInv_def by auto
  have "aCtrl ?m4 ! i = ctrlByte l True" using D(4) P(5) by simp
  from freeLoop_ok [OF inv4 B this refl] obtain i' l' m5 B5 where
    r: "freeLoop ns ?m4 i l (2 ^ l) = Inr (i', l', m5)" "poolInv ns m5 B5 {i'}" "B5 i' = Some (l', False)" "aCtrl m5 ! i' = ctrlByte l' True"
      "l' + 1 < ns \<longrightarrow> B5 (bud i' l') \<noteq> Some (l', True)" "(usedOf B5)(i' := None) = (usedOf B)(i := None)"
      "i' \<in> insert i (freeHeads B)" "freeHeads B5 \<subseteq> freeHeads B" "sameBut (freeHeads B) ?m4 m5" by blast
  note Q = poolInvD [OF r(2)] and E = tilingD [OF poolInvD(2) [OF r(2)] r(3)]
  have no: "i' \<notin> freeOf B5 k" for k using r(3) by (simp add: freeOf_def)
  from link_ok [OF Q(4) E(1,4) no] obtain m6 where
    m6: "memsys5Link m5 i' l' = Inr m6" "onlyNodes (insert i' (freeOf B5 l')) m5 m6" "freeLists ns m6 ((freeOf B5)(l' := insert i' (freeOf B5 l')))"
    by blast
  let ?B = "B5(i' \<mapsto> (l', True))"
  have "(freeOf B5)(l' := insert i' (freeOf B5 l')) = freeOf ?B" using no by (auto simp: fun_eq_iff)
  with m6(3) have F: "freeLists ns m6 (freeOf ?B)" by simp
  have ctrl: "aCtrl m6 = aCtrl m5" "length (aPool m6) = length (aPool m5)" using m6(2) by (cases m6; auto simp: onlyNodes_def)+
  have T: "tiling ns (length (aPool m6)) ?B" using tiling_flag [OF Q(2) r(3)] ctrl by simp
  have C: "coalesced ns ?B" by (rule coalesced_insert [OF Q(3) E(2) _ r(5)]) (rule tilingD(2) [OF Q(2)])
  have "aCtrl m6 ! j = ctrlByte k f" if "?B j = Some (k, f)" for j k f
    using that Q(6) [of j k f] r(4) ctrl by (auto split: if_splits)
  then have "poolInv ns m6 ?B {}" using Q(1,5) T C F ctrl unfolding poolInv_def by auto
  moreover have "usedOf ?B = (usedOf B)(i := None)" using r(6) by simp
  moreover have S: "sameBut (insert i (freeHeads B)) ?m4 m6"
  proof (rule sameBut_trans [OF r(9) onlyNodes_sameBut [OF m6(2)]])
    show "freeHeads B \<union> insert i' (freeOf B5 l') \<subseteq> insert i (freeHeads B)" using r(7,8) freeOf_heads [of B5 l'] by blast
  qed
  moreover have "memsys5Free ns lm m i = Inr m6"
  proof -
    have c: "rd (aCtrl m) i = Inr (ctrlByte l False)" using P(5,6) B D(4) by simp
    have or: "CTRL_FREE OR of_nat l = ctrlByte l True" by (simp add: ctrlByte_def)
    have s1: "setCtrl m i (ctrlByte l False OR CTRL_FREE) = Inr ?m1" "rd (aCtrl ?m1) ?e = Inr (aCtrl ?m1 ! ?e)"
      "setCtrl ?m1 ?e (aCtrl ?m1 ! ?e OR CTRL_FREE) = Inr ?m2" "setCtrl ?m3 i (ctrlByte l True) = Inr ?m4"
      using D(4) e(3) P(5) by simp_all
    have s3: "?m2\<lparr>currentCount := currentCount ?m2 - 1, currentOut := currentOut ?m2 - of_nat (2 ^ l * 2 ^ lm)\<rparr> = ?m3" by simp
    show ?thesis
      unfolding memsys5Free_def c bindR_simps Let_def ctrlByte_size [OF l] s1(1) s1(2) s1(3) s3 or s1(4) r(1) prod.case m6(1) ..
  qed
  moreover have "sameBut (insert i (freeHeads B)) (m\<lparr>currentCount := currentCount m - 1, currentOut := currentOut m - of_nat (2 ^ l * 2 ^ lm)\<rparr>) m6"
  proof -
    have "?m4 = m\<lparr>currentCount := currentCount m - 1, currentOut := currentOut m - of_nat (2 ^ l * 2 ^ lm)\<rparr>\<lparr>aCtrl := aCtrl ?m4\<rparr>" by simp
    with S show ?thesis by (metis sameBut_ctrl(1))
  qed
  ultimately show ?thesis by blast
qed

lemma upto_step: "(\<And>k. l + 1 \<le> k \<Longrightarrow> k < r \<Longrightarrow> P k) \<Longrightarrow> P l \<Longrightarrow> l \<le> k \<Longrightarrow> k < r \<Longrightarrow> P k" for l :: nat
  by (cases "k = l") auto

lemma fullLoop_ok: "fullLoop lm n l = r \<Longrightarrow> l \<le> r \<and> n \<le> 2 ^ (lm + r) \<and> (\<forall>k. l \<le> k \<longrightarrow> k < r \<longrightarrow> 2 ^ (lm + k) < n)"
proof (induction lm n l rule: fullLoop.induct)
  case (1 lm n l)
  show ?case
  proof (cases "2 ^ (lm + l) < n")
    case True
    with 1 have r: "fullLoop lm n (l + 1) = r" by (simp add: fullLoop.simps [of lm n l])
    note IH = "1.IH" [OF True r]
    have "2 ^ (lm + k) < n" if "l \<le> k" "k < r" for k
      by (rule upto_step [of l r "\<lambda>k. 2 ^ (lm + k) < n", OF _ True that]) (use IH in blast)
    with IH show ?thesis by simp
  next
    case False
    with 1 show ?thesis by (simp add: fullLoop.simps [of lm n l])
  qed
qed

lemma binLoop_ok:
  "length fl = ns \<Longrightarrow> b \<le> ns \<Longrightarrow> binLoop ns behind fl b = r \<Longrightarrow>
   b \<le> r \<and> r \<le> ns \<and> (r < ns \<longrightarrow> 0 \<le> fl ! r) \<and> (\<forall>k. b \<le> k \<longrightarrow> k < r \<longrightarrow> fl ! k < 0)"
proof (induction ns behind fl b rule: binLoop.induct)
  case (1 ns behind fl b)
  show ?case
  proof (cases "b < ns \<and> fl ! b < 0")
    case True
    with 1 have r: "binLoop ns behind fl (b + 1) = r" by (simp add: binLoop.simps [of ns behind fl b])
    from 1 True r have IH: "b + 1 \<le> r \<and> r \<le> ns \<and> (r < ns \<longrightarrow> 0 \<le> fl ! r) \<and> (\<forall>k. b + 1 \<le> k \<longrightarrow> k < r \<longrightarrow> fl ! k < 0)" by auto
    have "fl ! k < 0" if "b \<le> k" "k < r" for k
      by (rule upto_step [of b r, OF _ _ that]) (use IH True in auto)
    with IH show ?thesis by simp
  next
    case False
    then have "binLoop ns behind fl b = b" using "1.prems"(1) by (auto simp: binLoop.simps [of ns behind fl b])
    with 1 False show ?thesis by auto
  qed
qed

lemma head_sign: "freeLists ns m S \<Longrightarrow> l < ns \<Longrightarrow> aiFreelist m ! l < 0 \<longleftrightarrow> S l = {}"
proof -
  assume "freeLists ns m S" "l < ns"
  then obtain xs where "set xs = S l" "dlist (aPool m) (-1) (aiFreelist m ! l) xs" by (rule freeLists_list)
  then show ?thesis by (cases xs) auto
qed

text \<open>Taking a block from the list of its size or of the next size that has one.\<close>

definition takeBlock :: "nat \<Rightarrow> int \<Rightarrow> mem5 \<Rightarrow> nat \<Rightarrow> (nat option \<times> mem5) cres option" where
  "takeBlock ns behind m iLogsize =
     (let iBin = binLoop ns behind (aiFreelist m) iLogsize in
      if iBin \<ge> ns then Some (Inr (None, m))
      else case memsys5UnlinkFirst m iBin of None \<Rightarrow> None
        | Some r \<Rightarrow> Some (bindR r (\<lambda>(i, m).
            bindR (splitLoop m i iLogsize (iBin - iLogsize)) (\<lambda>m.
            bindR (setCtrl m i (of_nat iLogsize)) (\<lambda>m. Inr (Some i, m))))))"

lemma takeBlock_ok:
  assumes inv: "poolInv ns m B {}" and l: "l < ns"
  shows "(\<forall>k \<ge> l. freeOf B k = {}) \<and> takeBlock ns behind m l = Some (Inr (None, m))
    \<or> (\<exists>k \<ge> l. freeOf B k \<noteq> {}) \<and> (\<exists>i m' B'. takeBlock ns behind m l = Some (Inr (Some i, m')) \<and> poolInv ns m' B' {}
        \<and> usedOf B i = None \<and> usedOf B' = (usedOf B)(i \<mapsto> l) \<and> sameBut (freeHeads B') m m')"
proof -
  note P = poolInvD [OF inv]
  let ?r = "binLoop ns behind (aiFreelist m) l"
  have r: "l \<le> ?r" "?r \<le> ns" "?r < ns \<longrightarrow> 0 \<le> aiFreelist m ! ?r" "\<And>k. l \<le> k \<Longrightarrow> k < ?r \<Longrightarrow> aiFreelist m ! k < 0"
    using binLoop_ok [OF _ _ refl, of "aiFreelist m" ns l behind] P(4) l by (auto simp: freeLists_def)
  show ?thesis
  proof (cases "?r < ns")
    case False
    have "freeOf B k = {}" if "l \<le> k" for k
    proof (cases "k < ns")
      case True
      with r(2,4) that False head_sign [OF P(4)] show ?thesis by auto
    next
      case False
      with tilingD(1) [OF P(2)] show ?thesis by (auto simp: freeOf_def)
    qed
    moreover have "takeBlock ns behind m l = Some (Inr (None, m))" using False by (simp add: takeBlock_def)
    ultimately show ?thesis by blast
  next
    case True
    then have ne: "freeOf B ?r \<noteq> {}" using head_sign [OF P(4) True] r(3) by auto
    from unlinkFirst_ok [OF P(4) True ne] obtain i m1 where
      i: "memsys5UnlinkFirst m ?r = Some (Inr (i, m1))" "i \<in> freeOf B ?r" "onlyNodes (freeOf B ?r - {i}) m m1"
        "freeLists ns m1 ((freeOf B)(?r := freeOf B ?r - {i}))" by blast
    let ?B1 = "B(i \<mapsto> (?r, False))"
    have Bi: "B i = Some (?r, True)" using i(2) by (simp add: freeOf_def)
    have "(freeOf B)(?r := freeOf B ?r - {i}) = freeOf ?B1" using Bi by (auto simp: fun_eq_iff freeOf_def)
    with i(4) have F1: "freeLists ns m1 (freeOf ?B1)" by simp
    have ctrl: "aCtrl m1 = aCtrl m" "length (aPool m1) = length (aPool m)" using i(3) by (cases m1; auto simp: onlyNodes_def)+
    have "coalesced ns ?B1" by (rule coalesced_less [OF P(3)]) (auto split: if_splits)
    moreover have "tiling ns (length (aPool m1)) ?B1" using tiling_flag [OF P(2) Bi] ctrl by simp
    moreover have "aCtrl m1 ! j = ctrlByte k f" if "?B1 j = Some (k, f)" "j \<notin> {i}" for j k f
      using that P(6) [of j k f] ctrl by auto
    ultimately have inv1: "poolInv ns m1 ?B1 {i}" using P(1,5) F1 ctrl unfolding poolInv_def by auto
    have B1: "?B1 i = Some (l + (?r - l), False)" using r(1) by simp
    from splitLoop_ok [OF inv1 B1] obtain m2 B' where s: "splitLoop m1 i l (?r - l) = Inr m2" "poolInv ns m2 B' {i}"
      "B' i = Some (l, False)" "usedOf B' = (usedOf ?B1)(i \<mapsto> l)" "sameBut (freeHeads B') m1 m2" "freeHeads ?B1 \<subseteq> freeHeads B'" by blast
    note Q = poolInvD [OF s(2)] and E = tilingD [OF poolInvD(2) [OF s(2)] s(3)]
    let ?m3 = "m2\<lparr>aCtrl := (aCtrl m2)[i := of_nat l]\<rparr>"
    have "freeLists ns ?m3 (freeOf B')" by (rule freeLists_cong [OF Q(4)]) simp_all
    moreover have "aCtrl ?m3 ! j = ctrlByte k f" if "B' j = Some (k, f)" for j k f
      using that Q(6) [of j k f] s(3) E(4) Q(5) by (cases "j = i") (auto simp: ctrlByte_def)
    ultimately have "poolInv ns ?m3 B' {}" using Q unfolding poolInv_def by auto
    moreover have "takeBlock ns behind m l = Some (Inr (Some i, ?m3))"
      using True i(1) s(1) E(4) Q(5) by (simp add: takeBlock_def Let_def)
    moreover have "freeOf B ?r - {i} \<subseteq> freeHeads ?B1" by (auto simp: freeOf_def freeHeads_def)
    with s(6) have "freeOf B ?r - {i} \<subseteq> freeHeads B'" by blast
    then have "sameBut (freeHeads B') m ?m3" using sameBut_trans [OF onlyNodes_sameBut [OF i(3)] s(5), of "freeHeads B'"] by simp
    moreover have "usedOf B i = None" using Bi by (simp add: usedOf_def)
    moreover have "usedOf B' = (usedOf B)(i \<mapsto> l)" using s(4) by simp
    ultimately show ?thesis using ne r(1) by blast
  qed
qed

lemma takeBlock_stats:
  "map_option (\<lambda>r. bindR r (\<lambda>(p, m). Inr (p, if p = None then m else F m))) (takeBlock ns behind m l) =
     (let iBin = binLoop ns behind (aiFreelist m) l in
      if iBin \<ge> ns then Some (Inr (None, m))
      else case memsys5UnlinkFirst m iBin of None \<Rightarrow> None
        | Some r \<Rightarrow> Some (bindR r (\<lambda>(i, m).
            bindR (splitLoop m i l (iBin - l)) (\<lambda>m. bindR (setCtrl m i (of_nat l)) (\<lambda>m. Inr (Some i, F m))))))"
proof (cases "memsys5UnlinkFirst m (binLoop ns behind (aiFreelist m) l)")
  case (Some r)
  show ?thesis
    by (cases r) (auto simp: takeBlock_def Let_def Some bindR_def split: sum.splits)
qed (simp add: takeBlock_def Let_def)

lemma Malloc_takeBlock:
  "memsys5Malloc ns lm behind call fault m n =
     (let m = (if of_nat n > maxRequest m then m\<lparr>maxRequest := of_nat n\<rparr> else m) in
      if fault \<or> n > POW2_MAX ns lm then Some (Inr (None, m))
      else let iLogsize = fullLoop lm n 0; iFullSz = 2 ^ (lm + iLogsize);
            m = (if alarmCallback m \<noteq> None \<and> uint (currentOut m + of_nat iFullSz) \<ge> alarmThreshold m
                 then memsys5Alarm call m iFullSz else m) in
        map_option (\<lambda>r. bindR r (\<lambda>(p, m). Inr (p, if p = None then m else mallocStats m iFullSz n))) (takeBlock ns behind m iLogsize))"
  unfolding memsys5Malloc_def takeBlock_stats Let_def by simp

end
