(* ===== verification/ObjectPool.thy ===== *)
theory ObjectPool
  imports Prelude
begin

text \<open>
  The contract of an allocator of objects of any size: a request hands out a run of cells that
  overlaps no object in use or is refused, an object in use can be given back or resized, which
  keeps its cells, and its owner may write any cell of it. The allocator with its clients is a
  state machine whose state pairs the allocator with the objects in use and their cells; only
  the calls of its owner change an object in it. The locale shows once that in every reachable
  state the memory of each object holds what its owner stored there, that objects lie apart,
  and when a request is granted.
\<close>

datatype ('e, 'c) object_event =
    Asked 'e int "nat option"
  | GivenBack nat
  | Resized 'e nat int "nat option"
  | Stored nat nat 'c

inductive object_step ::
  "('e \<Rightarrow> 's \<Rightarrow> int \<Rightarrow> (nat option \<times> 's) option) \<Rightarrow> ('s \<Rightarrow> nat \<Rightarrow> 's option) \<Rightarrow> ('e \<Rightarrow> 's \<Rightarrow> nat \<Rightarrow> int \<Rightarrow> (nat option \<times> 's) option)
   \<Rightarrow> ('s \<Rightarrow> nat \<Rightarrow> 'c \<Rightarrow> 's) \<Rightarrow> ('s \<Rightarrow> nat \<Rightarrow> 'c list)
   \<Rightarrow> 's \<times> (nat \<Rightarrow> 'c list option) \<Rightarrow> ('e, 'c) object_event \<Rightarrow> 's \<times> (nat \<Rightarrow> 'c list option) \<Rightarrow> bool"
  for tk gv rs st view where
  refuse: "tk e s n = Some (None, t) \<Longrightarrow> object_step tk gv rs st view (s, U) (Asked e n None) (t, U)"
| grant: "tk e s n = Some (Some i, t) \<Longrightarrow> object_step tk gv rs st view (s, U) (Asked e n (Some i)) (t, U(i \<mapsto> view t i))"
| give_back: "U i = Some cs \<Longrightarrow> gv s i = Some t \<Longrightarrow> object_step tk gv rs st view (s, U) (GivenBack i) (t, U(i := None))"
| keep: "U i = Some cs \<Longrightarrow> 0 < n \<Longrightarrow> rs e s i n = Some (None, t) \<Longrightarrow> object_step tk gv rs st view (s, U) (Resized e i n None) (t, U)"
| move: "U i = Some cs \<Longrightarrow> 0 < n \<Longrightarrow> rs e s i n = Some (Some j, t) \<Longrightarrow>
    object_step tk gv rs st view (s, U) (Resized e i n (Some j)) (t, (U(i := None))(j \<mapsto> cs @ drop (length cs) (view t j)))"
| store: "U i = Some cs \<Longrightarrow> k < length cs \<Longrightarrow> object_step tk gv rs st view (s, U) (Stored i k c) (st s (i + k) c, U(i \<mapsto> cs[k := c]))"

inductive object_run ::
  "('e \<Rightarrow> 's \<Rightarrow> int \<Rightarrow> (nat option \<times> 's) option) \<Rightarrow> ('s \<Rightarrow> nat \<Rightarrow> 's option) \<Rightarrow> ('e \<Rightarrow> 's \<Rightarrow> nat \<Rightarrow> int \<Rightarrow> (nat option \<times> 's) option)
   \<Rightarrow> ('s \<Rightarrow> nat \<Rightarrow> 'c \<Rightarrow> 's) \<Rightarrow> ('s \<Rightarrow> nat \<Rightarrow> 'c list)
   \<Rightarrow> 's \<times> (nat \<Rightarrow> 'c list option) \<Rightarrow> ('e, 'c) object_event list \<Rightarrow> 's \<times> (nat \<Rightarrow> 'c list option) \<Rightarrow> bool"
  for tk gv rs st view where
  start: "object_run tk gv rs st view x [] x"
| step: "object_run tk gv rs st view x es y \<Longrightarrow> object_step tk gv rs st view y e z \<Longrightarrow> object_run tk gv rs st view x (es @ [e]) z"

text \<open>Objects that lie apart within the pool of N cells.\<close>

definition apart :: "nat \<Rightarrow> (nat \<Rightarrow> 'c list option) \<Rightarrow> bool" where
  "apart N U \<longleftrightarrow> (\<forall>i cs. U i = Some cs \<longrightarrow> i + length cs \<le> N)
     \<and> (\<forall>i j cs ds. U i = Some cs \<longrightarrow> U j = Some ds \<longrightarrow> i \<noteq> j \<longrightarrow> {i..<i + length cs} \<inter> {j..<j + length ds} = {})"

locale object_pool =
  fixes inv :: "'s \<Rightarrow> (nat \<Rightarrow> 'c list option) \<Rightarrow> bool"
    and cells :: nat
    and bytes :: nat
    and refuses :: "'e \<Rightarrow> (nat \<Rightarrow> 'c list option) \<Rightarrow> int \<Rightarrow> bool"
    and tk :: "'e \<Rightarrow> 's \<Rightarrow> int \<Rightarrow> (nat option \<times> 's) option"
    and gv :: "'s \<Rightarrow> nat \<Rightarrow> 's option"
    and rs :: "'e \<Rightarrow> 's \<Rightarrow> nat \<Rightarrow> int \<Rightarrow> (nat option \<times> 's) option"
    and st :: "'s \<Rightarrow> nat \<Rightarrow> 'c \<Rightarrow> 's"
    and view :: "'s \<Rightarrow> nat \<Rightarrow> 'c list"
  assumes tk_ok: "inv s U \<Longrightarrow> \<exists>r t. tk e s n = Some (r, t) \<and> (case r of None \<Rightarrow> inv t U \<and> refuses e U n
      | Some i \<Rightarrow> \<exists>cs. U i = None \<and> inv t (U(i \<mapsto> cs)) \<and> n \<le> int (length cs * bytes) \<and> \<not> refuses e U n)"
    and gv_ok: "inv s U \<Longrightarrow> U i = Some cs \<Longrightarrow> \<exists>t. gv s i = Some t \<and> inv t (U(i := None))"
    and rs_ok: "inv s U \<Longrightarrow> U i = Some cs \<Longrightarrow> 0 < n \<Longrightarrow> \<exists>r t. rs e s i n = Some (r, t) \<and> (case r of None \<Rightarrow> inv t U
      | Some j \<Rightarrow> \<exists>ds. inv t ((U(i := None))(j \<mapsto> cs @ ds)) \<and> n \<le> int (length (cs @ ds) * bytes))"
    and st_ok: "inv s U \<Longrightarrow> U i = Some cs \<Longrightarrow> k < length cs \<Longrightarrow> inv (st s (i + k) c) (U(i \<mapsto> cs[k := c]))"
    and view_ok: "inv s U \<Longrightarrow> U i = Some cs \<Longrightarrow> view s i = cs"
    and apart_ok: "inv s U \<Longrightarrow> apart cells U"
begin

lemma view_upd: "inv t (U(i \<mapsto> cs)) \<Longrightarrow> view t i = cs"
  using view_ok [of t "U(i \<mapsto> cs)" i cs] by (simp add: fun_upd_same del: fun_upd_apply)

lemma step_inv: "object_step tk gv rs st view x e y \<Longrightarrow> inv (fst x) (snd x) \<Longrightarrow> inv (fst y) (snd y)"
proof (induction rule: object_step.induct)
  case (refuse e s n t U)
  with tk_ok [of s U e n] show ?case by auto
next
  case (grant e s n i t U)
  with tk_ok [of s U e n] obtain cs where "inv t (U(i \<mapsto> cs))" by (auto simp del: fun_upd_apply)
  with view_upd [OF this] show ?case by (simp del: fun_upd_apply)
next
  case (give_back U i cs s t)
  with gv_ok [of s U i cs] show ?case by (auto simp del: fun_upd_apply)
next
  case (keep U i cs n e s t)
  with rs_ok [of s U i cs n e] show ?case by auto
next
  case (move U i cs n e s j t)
  with rs_ok [of s U i cs n e] obtain ds where ds: "inv t ((U(i := None))(j \<mapsto> cs @ ds))" by (auto simp del: fun_upd_apply)
  with view_upd [OF ds] show ?case by (simp del: fun_upd_apply)
next
  case (store U i cs k s c)
  with st_ok show ?case by (simp del: fun_upd_apply)
qed

lemma run_inv: "object_run tk gv rs st view x es y \<Longrightarrow> inv (fst x) (snd x) \<Longrightarrow> inv (fst y) (snd y)"
  by (induction rule: object_run.induct) (auto dest: step_inv)

lemma run_objects:
  assumes "inv s U" "object_run tk gv rs st view (s, U) es (t, V)"
  shows "apart cells V" "V i = Some cs \<Longrightarrow> view t i = cs"
  using run_inv [OF assms(2)] assms(1) by (auto intro: apart_ok view_ok)

text \<open>A request in a reachable state, and exactly when it is granted.\<close>

lemma run_asked:
  assumes "inv s U" "object_run tk gv rs st view (s, U) es (t, V)"
  shows "\<exists>r u. tk e t n = Some (r, u) \<and> (r = None \<longleftrightarrow> refuses e V n)
    \<and> (case r of None \<Rightarrow> True | Some i \<Rightarrow> V i = None \<and> n \<le> int (length (view u i) * bytes) \<and> apart cells (V(i \<mapsto> view u i)))"
proof -
  have "inv t V" using run_inv [OF assms(2)] assms(1) by simp
  from tk_ok [OF this, of e n] obtain r u where r: "tk e t n = Some (r, u)" "case r of None \<Rightarrow> inv u V \<and> refuses e V n
      | Some i \<Rightarrow> \<exists>cs. V i = None \<and> inv u (V(i \<mapsto> cs)) \<and> n \<le> int (length cs * bytes) \<and> \<not> refuses e V n" by blast
  show ?thesis
  proof (cases r)
    case (Some i)
    with r(2) obtain cs where cs: "V i = None" "inv u (V(i \<mapsto> cs))" "n \<le> int (length cs * bytes)" "\<not> refuses e V n" by auto
    with view_upd [OF cs(2)] apart_ok [OF cs(2)] r(1) Some show ?thesis by (auto simp del: fun_upd_apply)
  qed (use r in auto)
qed

lemma run_given_back:
  assumes "inv s U" "object_run tk gv rs st view (s, U) es (t, V)" "V i = Some cs"
  shows "\<exists>u. gv t i = Some u"
  using run_inv [OF assms(2)] assms(1,3) gv_ok by fastforce

lemma run_resized:
  assumes "inv s U" "object_run tk gv rs st view (s, U) es (t, V)" "V i = Some cs" "0 < n"
  shows "\<exists>r u. rs e t i n = Some (r, u) \<and> (case r of None \<Rightarrow> True | Some j \<Rightarrow> take (length cs) (view u j) = cs \<and> n \<le> int (length (view u j) * bytes))"
proof -
  have "inv t V" using run_inv [OF assms(2)] assms(1) by simp
  from rs_ok [OF this assms(3,4), of e] obtain r u where r: "rs e t i n = Some (r, u)" "case r of None \<Rightarrow> inv u V
      | Some j \<Rightarrow> \<exists>ds. inv u ((V(i := None))(j \<mapsto> cs @ ds)) \<and> n \<le> int (length (cs @ ds) * bytes)" by blast
  show ?thesis
  proof (cases r)
    case (Some j)
    with r(2) obtain ds where "inv u ((V(i := None))(j \<mapsto> cs @ ds))" "n \<le> int (length (cs @ ds) * bytes)" by auto
    with view_upd [OF this(1)] r(1) Some show ?thesis by auto
  qed (use r in auto)
qed

end

end
