(* ===== verification/Mem5Objects.thy ===== *)
theory Mem5Objects
  imports Mem5Blocks ObjectPool
begin

text \<open>
  The allocator of Mem5 as its callers see it: the objects they hold and their contents, the
  effect of each call on them, the interpretation of the contract of ObjectPool, and the
  properties.
\<close>

subsection \<open>The objects handed out\<close>

text \<open>
  What the callers see: the objects they hold, each a run of blocks from an index on with its
  contents. The counters agree with them.
\<close>

type_synonym objects = "nat \<Rightarrow> Mem5Block list option"

definition contents :: "mem5 \<Rightarrow> blocks \<Rightarrow> objects" where
  "contents m B i = map_option (\<lambda>l. take (2 ^ l) (drop i (aPool m))) (usedOf B i)"

definition outBytes :: "nat \<Rightarrow> objects \<Rightarrow> nat" where
  "outBytes lm U = (\<Sum>i \<in> dom U. length (the (U i)) * 2 ^ lm)"

definition memInv :: "nat \<Rightarrow> nat \<Rightarrow> nat \<Rightarrow> mem5 \<Rightarrow> objects \<Rightarrow> bool" where
  "memInv ns lm N m U \<longleftrightarrow> mutex m \<and> length (aPool m) = N \<and> (\<exists>B. poolInv ns m B {} \<and> U = contents m B)
     \<and> currentCount m = of_nat (card (dom U)) \<and> currentOut m = of_nat (outBytes lm U)"

text \<open>Room for a run of 2^l blocks at a multiple of its size.\<close>

definition room :: "nat \<Rightarrow> objects \<Rightarrow> nat \<Rightarrow> bool" where
  "room N U l \<longleftrightarrow> (\<exists>a. 2 ^ l dvd a \<and> a + 2 ^ l \<le> N \<and> (\<forall>i cs. U i = Some cs \<longrightarrow> {a..<a + 2 ^ l} \<inter> {i..<i + length cs} = {}))"

lemma contents_Some:
  assumes "tiling ns (length (aPool m)) B"
  shows "contents m B i = Some cs \<longleftrightarrow> (\<exists>l. B i = Some (l, False) \<and> cs = take (2 ^ l) (drop i (aPool m)) \<and> length cs = 2 ^ l)"
proof -
  have "length (take (2 ^ l) (drop i (aPool m))) = 2 ^ l" if "B i = Some (l, False)" for l
    using tilingD(3) [OF assms that] by simp
  then show ?thesis by (auto simp: contents_def usedOf_iff)
qed

lemma contents_finite: "tiling ns (length (aPool m)) B \<Longrightarrow> finite (dom (contents m B))"
proof (rule finite_subset)
  assume T: "tiling ns (length (aPool m)) B"
  show "dom (contents m B) \<subseteq> {..<length (aPool m)}"
    using tilingD(4) [OF T] by (auto simp: contents_Some [OF T])
qed simp

lemma contents_apart:
  assumes "tiling ns (length (aPool m)) B" "contents m B i = Some cs" "contents m B j = Some ds" "i \<noteq> j"
  shows "{i..<i + length cs} \<inter> {j..<j + length ds} = {}"
proof (rule ccontr)
  assume "\<not> ?thesis"
  then obtain x where "x \<in> {i..<i + length cs}" "x \<in> {j..<j + length ds}" by blast
  then have "covers B i x" "covers B j x" using assms(2,3) by (auto simp: contents_Some [OF assms(1)] covers_def)
  with tiling_unique [OF assms(1)] assms(4) show False by blast
qed

lemma run_cong:
  "length P = length Q \<Longrightarrow> (\<And>x. j \<le> x \<Longrightarrow> x < j + n \<Longrightarrow> P ! x = Q ! x) \<Longrightarrow> take n (drop j P) = take n (drop j Q)"
  by (rule nth_equalityI) (auto simp: nth_append)

text \<open>The contents after a change of headers.\<close>

lemma contents_same:
  assumes "usedOf B i = usedOf A i" "length (aPool m') = length (aPool m)"
    "\<And>l x. B i = Some (l, False) \<Longrightarrow> i \<le> x \<Longrightarrow> x < i + 2 ^ l \<Longrightarrow> aPool m' ! x = aPool m ! x"
  shows "contents m' B i = contents m A i"
proof (cases "usedOf B i")
  case (Some l)
  have "take (2 ^ l) (drop i (aPool m')) = take (2 ^ l) (drop i (aPool m))"
    by (rule run_cong [OF assms(2)]) (use assms(3) Some in \<open>simp add: usedOf_iff\<close>)
  with Some assms(1) show ?thesis by (simp add: contents_def)
qed (use assms(1) in \<open>simp add: contents_def\<close>)

lemma outBytes_grant: "finite (dom U) \<Longrightarrow> U i = None \<Longrightarrow> outBytes lm (U(i \<mapsto> cs)) = outBytes lm U + length cs * 2 ^ lm"
proof -
  assume U: "finite (dom U)" "U i = None"
  then have "i \<notin> dom U" by auto
  moreover have "(\<Sum>x \<in> dom U. length (the ((U(i \<mapsto> cs)) x)) * 2 ^ lm) = outBytes lm U"
    unfolding outBytes_def by (rule sum.cong) (use U(2) in auto)
  ultimately show ?thesis using U(1) by (simp add: outBytes_def)
qed

lemma outBytes_return: "finite (dom U) \<Longrightarrow> U i = Some cs \<Longrightarrow> outBytes lm U = outBytes lm (U(i := None)) + length cs * 2 ^ lm"
  using outBytes_grant [of "U(i := None)" i lm cs] by (simp add: fun_upd_idem)

lemma card_return: "finite (dom U) \<Longrightarrow> U i = Some cs \<Longrightarrow> card (dom U) = Suc (card (dom (U(i := None))))"
proof -
  assume "finite (dom U)" "U i = Some cs"
  then have "Suc (card (dom U - {i})) = card (dom U)" by (intro card_Suc_Diff1) auto
  then show ?thesis by simp
qed

lemma contents_bounds: "tiling ns (length (aPool m)) B \<Longrightarrow> contents m B i = Some cs \<Longrightarrow> i + length cs \<le> length (aPool m)"
  using tilingD(3) by (fastforce simp: contents_Some)

text \<open>All objects together fit into the pool.\<close>

lemma contents_total:
  assumes "tiling ns (length (aPool m)) B"
  shows "outBytes lm (contents m B) \<le> length (aPool m) * 2 ^ lm"
proof -
  let ?U = "contents m B"
  have "(\<Sum>i \<in> dom ?U. card {i..<i + length (the (?U i))}) = card (\<Union>i \<in> dom ?U. {i..<i + length (the (?U i))})"
  proof (rule card_UN_disjoint [symmetric])
    show "finite (dom ?U)" by (rule contents_finite [OF assms])
    show "\<forall>i \<in> dom ?U. \<forall>j \<in> dom ?U. i \<noteq> j \<longrightarrow> {i..<i + length (the (?U i))} \<inter> {j..<j + length (the (?U j))} = {}"
      using contents_apart [OF assms] by (metis domD option.sel)
  qed simp
  also have "\<dots> \<le> card {0..<length (aPool m)}"
    by (rule card_mono) (use contents_bounds [OF assms] in force)+
  finally have "(\<Sum>i \<in> dom ?U. length (the (?U i))) \<le> length (aPool m)" by simp
  then show ?thesis by (simp add: outBytes_def sum_distrib_right [symmetric])
qed

text \<open>There is room exactly when a block of at least the size is free.\<close>

lemma room_free:
  assumes inv: "poolInv ns m B {}" and l: "l < ns"
  shows "room (length (aPool m)) (contents m B) l \<longleftrightarrow> (\<exists>k \<ge> l. freeOf B k \<noteq> {})"
proof
  note P = poolInvD [OF inv]
  assume "room (length (aPool m)) (contents m B) l"
  then obtain a where a: "2 ^ l dvd a" "a + 2 ^ l \<le> length (aPool m)"
    "\<And>i cs. contents m B i = Some cs \<Longrightarrow> {a..<a + 2 ^ l} \<inter> {i..<i + length cs} = {}" by (auto simp: room_def)
  have "B i \<noteq> Some (k, False)" if x: "a \<le> x" "x < a + 2 ^ l" "covers B i x" for i x k
  proof
    assume Bi: "B i = Some (k, False)"
    then obtain cs where cs: "contents m B i = Some cs" "length cs = 2 ^ k"
      using contents_Some [OF P(2), of i "take (2 ^ k) (drop i (aPool m))"] tilingD(3) [OF P(2) Bi] by auto
    have "x \<in> {a..<a + 2 ^ l} \<inter> {i..<i + length cs}" using x Bi cs(2) by (auto simp: covers_def)
    with a(3) [OF cs(1)] show False by blast
  qed
  with free_run [OF P(2,3) l a(1,2)] show "\<exists>k \<ge> l. freeOf B k \<noteq> {}" by (auto simp: freeOf_def)
next
  note P = poolInvD [OF inv]
  assume "\<exists>k \<ge> l. freeOf B k \<noteq> {}"
  then obtain k i where k: "l \<le> k" "B i = Some (k, True)" by (auto simp: freeOf_def)
  note D = tilingD [OF P(2) k(2)]
  have le: "(2 :: nat) ^ l \<le> 2 ^ k" using k(1) by simp
  have "{i..<i + 2 ^ l} \<inter> {j..<j + length cs} = {}" if cs: "contents m B j = Some cs" for j cs
  proof (rule ccontr)
    assume "\<not> ?thesis"
    then obtain x where x: "x \<in> {i..<i + 2 ^ l}" "x \<in> {j..<j + length cs}" by blast
    have "i \<le> x" "x < i + 2 ^ k" using x(1) le unfolding atLeastLessThan_iff by linarith+
    then have "covers B i x" using k(2) by (auto simp: covers_def)
    moreover have "covers B j x" using x(2) cs by (auto simp: contents_Some [OF P(2)] covers_def)
    ultimately have "i = j" by (rule tiling_unique [OF P(2)])
    with cs k(2) show False by (simp add: contents_Some [OF P(2)])
  qed
  moreover have "2 ^ l dvd i" using D(2) k(1) by (rule power_le_dvd)
  moreover have "i + 2 ^ l \<le> length (aPool m)" using D(3) le by linarith
  ultimately show "room (length (aPool m)) (contents m B) l" unfolding room_def by blast
qed

lemma memInv_cong:
  assumes "memInv ns lm N m U" "mutex m' = mutex m" "aPool m' = aPool m" "aiFreelist m' = aiFreelist m" "aCtrl m' = aCtrl m"
    "currentCount m' = currentCount m" "currentOut m' = currentOut m"
  shows "memInv ns lm N m' U"
proof -
  from assms(1) obtain B where "poolInv ns m B {}" "U = contents m B" by (auto simp: memInv_def)
  then have "poolInv ns m' B {}" "U = contents m' B"
    using poolInv_cong [of ns m B "{}" m'] assms(3-5) by (simp_all add: contents_def fun_eq_iff)
  with assms show ?thesis unfolding memInv_def by auto
qed

lemma mallocStats_same:
  "mutex (mallocStats m f n) = mutex m" "aPool (mallocStats m f n) = aPool m" "aiFreelist (mallocStats m f n) = aiFreelist m"
  "aCtrl (mallocStats m f n) = aCtrl m" "currentCount (mallocStats m f n) = currentCount m + 1" "currentOut (mallocStats m f n) = currentOut m + of_nat f"
  by (simp_all add: mallocStats_def Let_def)

text \<open>A step of the allocator on blocks, seen by the callers.\<close>

lemma takeBlock_inv:
  assumes inv: "memInv ns lm N m U" and l: "l < ns"
  shows "\<not> room N U l \<and> takeBlock ns behind m l = Some (Inr (None, m))
    \<or> room N U l \<and> (\<exists>i m' cs. takeBlock ns behind m l = Some (Inr (Some i, m')) \<and> U i = None \<and> length cs = 2 ^ l
        \<and> memInv ns lm N (mallocStats m' (2 ^ (lm + l)) n) (U(i \<mapsto> cs)))"
proof -
  from inv obtain B where B: "poolInv ns m B {}" "U = contents m B" "length (aPool m) = N" by (auto simp: memInv_def)
  note r = room_free [OF B(1) l, unfolded B(3), folded B(2)]
  from takeBlock_ok [OF B(1) l, of behind] show ?thesis
  proof (elim disjE conjE exE)
    assume "\<forall>k\<ge>l. freeOf B k = {}" "takeBlock ns behind m l = Some (Inr (None, m))"
    then show ?thesis using r by auto
  next
    fix k i m' B'
    assume ne: "l \<le> k" "freeOf B k \<noteq> {}"
      and t: "takeBlock ns behind m l = Some (Inr (Some i, m'))" "poolInv ns m' B' {}"
        "usedOf B i = None" "usedOf B' = (usedOf B)(i \<mapsto> l)" "sameBut (freeHeads B') m m'"
    let ?s = "mallocStats m' (2 ^ (lm + l)) n" and ?cs = "take (2 ^ l) (drop i (aPool m'))"
    note Q = poolInvD [OF t(2)]
    have len: "length (aPool m') = length (aPool m)" "otherParts m' = otherParts m" using t(5) by (simp_all add: sameBut_def)
    have Bi: "B' i = Some (l, False)" using t(4) usedOf_iff [of B' i l] by simp
    have U: "contents m' B' = U(i \<mapsto> ?cs)"
    proof
      fix j
      show "contents m' B' j = (U(i \<mapsto> ?cs)) j"
      proof (cases "j = i")
        case True
        then show ?thesis using t(4) by (simp add: contents_def)
      next
        case False
        have "contents m' B' j = contents m B j"
        proof (rule contents_same [OF _ len(1)])
          show "usedOf B' j = usedOf B j" using False t(4) by simp
          show "aPool m' ! x = aPool m ! x" if "B' j = Some (k, False)" "j \<le> x" "x < j + 2 ^ k" for k x
            using used_cell(1) [OF Q(2) that] t(5) by (simp add: sameBut_def)
        qed
        with False B(2) show ?thesis by simp
      qed
    qed
    have Ui: "U i = None" using t(3) B(2) by (simp add: contents_def)
    have fin: "finite (dom U)" using contents_finite [OF poolInvD(2) [OF B(1)]] B(2) by simp
    have cs: "length ?cs = 2 ^ l" using tilingD(3) [OF Q(2) Bi] by simp
    have parts: "mutex m' = mutex m" "currentCount m' = currentCount m" "currentOut m' = currentOut m"
      using len(2) by (cases m; cases m'; simp add: otherParts_def)+
    have "poolInv ns ?s B' {}" by (rule poolInv_cong [OF t(2)]) (simp_all add: mallocStats_same)
    moreover have "contents ?s B' = U(i \<mapsto> ?cs)" using U by (simp add: contents_def fun_eq_iff mallocStats_same)
    moreover have "outBytes lm (U(i \<mapsto> ?cs)) = outBytes lm U + 2 ^ (lm + l)"
      using outBytes_grant [OF fin Ui, of lm ?cs] cs by (simp add: power_add mult.commute)
    moreover have "card (dom (U(i \<mapsto> ?cs))) = Suc (card (dom U))" using fin Ui by (simp add: domIff)
    ultimately have "memInv ns lm N ?s (U(i \<mapsto> ?cs))"
      using inv len(1) B(3) parts unfolding memInv_def by (auto simp: mallocStats_same)
    moreover have "room N U l" using r ne by blast
    ultimately show ?thesis using t(1) Ui cs by blast
  qed
qed

text \<open>A callback that keeps the objects as they are.\<close>

definition quietAlarm :: "nat \<Rightarrow> nat \<Rightarrow> nat \<Rightarrow> alarm \<Rightarrow> bool" where
  "quietAlarm ns lm N call \<longleftrightarrow> (\<forall>f a u n m U. memInv ns lm N m U \<longrightarrow> memInv ns lm N (call f a u n m) U)"

lemma alarm_inv:
  assumes "quietAlarm ns lm N call" "memInv ns lm N m U"
  shows "memInv ns lm N (memsys5Alarm call m n) U"
proof (cases "alarmCallback m")
  case (Some f)
  have "memInv ns lm N (m\<lparr>alarmBusy := True\<rparr>) U" by (rule memInv_cong [OF assms(2)]) simp_all
  with assms(1) have "memInv ns lm N (call f (alarmArg m) (uint (currentOut m)) n (m\<lparr>alarmBusy := True\<rparr>)) U"
    by (simp add: quietAlarm_def)
  then have "memInv ns lm N ((call f (alarmArg m) (uint (currentOut m)) n (m\<lparr>alarmBusy := True\<rparr>))\<lparr>alarmBusy := False\<rparr>) U"
    by (rule memInv_cong) simp_all
  with Some assms(2) show ?thesis by (simp add: memsys5Alarm_def)
qed (use assms(2) in \<open>simp add: memsys5Alarm_def\<close>)

text \<open>The number of blocks for a request is that of the least size that is large enough.\<close>

definition refused :: "nat \<Rightarrow> nat \<Rightarrow> nat \<Rightarrow> bool \<Rightarrow> objects \<Rightarrow> nat \<Rightarrow> bool" where
  "refused ns lm N fault U n \<longleftrightarrow> fault \<or> POW2_MAX ns lm < n \<or> \<not> room N U (fullLoop lm n 0)"

lemma fullLoop_size: "n \<le> POW2_MAX ns lm \<Longrightarrow> 0 < ns \<Longrightarrow> fullLoop lm n 0 < ns \<and> n \<le> 2 ^ fullLoop lm n 0 * 2 ^ lm"
proof -
  assume n: "n \<le> POW2_MAX ns lm" "0 < ns"
  note f = fullLoop_ok [of lm n 0 "fullLoop lm n 0", OF refl]
  have "\<not> ns - 1 < fullLoop lm n 0" using f n(1) by (auto simp: POW2_MAX_def add.commute dest: spec [of _ "ns - 1"])
  with f n(2) show ?thesis by (auto simp: power_add mult.commute)
qed

lemma Malloc_inv:
  assumes inv: "memInv ns lm N m U" and call: "quietAlarm ns lm N call"
  shows "\<exists>r m'. memsys5Malloc ns lm behind call fault m n = Some (Inr (r, m')) \<and>
    (case r of None \<Rightarrow> memInv ns lm N m' U \<and> refused ns lm N fault U n
     | Some i \<Rightarrow> \<exists>cs. U i = None \<and> memInv ns lm N m' (U(i \<mapsto> cs)) \<and> n \<le> length cs * 2 ^ lm \<and> \<not> refused ns lm N fault U n)"
proof -
  let ?m1 = "if of_nat n > maxRequest m then m\<lparr>maxRequest := of_nat n\<rparr> else m"
  let ?l = "fullLoop lm n 0"
  let ?m2 = "if alarmCallback ?m1 \<noteq> None \<and> uint (currentOut ?m1 + of_nat (2 ^ (lm + ?l))) \<ge> alarmThreshold ?m1
    then memsys5Alarm call ?m1 (2 ^ (lm + ?l)) else ?m1"
  note make = Malloc_takeBlock [of ns lm behind call fault m n, unfolded Let_def]
  have inv1: "memInv ns lm N ?m1 U" by (rule memInv_cong [OF inv]) simp_all
  show ?thesis
  proof (cases "fault \<or> n > POW2_MAX ns lm")
    case True
    then have "memsys5Malloc ns lm behind call fault m n = Some (Inr (None, ?m1))" unfolding make by (simp only: if_True)
    with True inv1 show ?thesis by (auto simp: refused_def)
  next
    case False
    have ns: "0 < ns" using inv by (auto simp: memInv_def poolInv_def tiling_def)
    have l: "?l < ns" "n \<le> 2 ^ ?l * 2 ^ lm" using fullLoop_size [of n ns lm] ns False by simp_all
    have inv2: "memInv ns lm N ?m2 U" using alarm_inv [OF call inv1] inv1 by (simp only: split: if_split) blast
    have m: "memsys5Malloc ns lm behind call fault m n =
      map_option (\<lambda>r. bindR r (\<lambda>(p, m). Inr (p, if p = None then m else mallocStats m (2 ^ (lm + ?l)) n))) (takeBlock ns behind ?m2 ?l)"
      unfolding make using False by (simp only: if_False)
    from takeBlock_inv [OF inv2 l(1), of behind n] show ?thesis
    proof (elim disjE conjE exE)
      assume "\<not> room N U ?l" "takeBlock ns behind ?m2 ?l = Some (Inr (None, ?m2))"
      then show ?thesis using inv2 unfolding m by (simp add: refused_def)
    next
      fix i m' cs
      assume "room N U ?l" "takeBlock ns behind ?m2 ?l = Some (Inr (Some i, m'))" "U i = None" "length cs = 2 ^ ?l"
        "memInv ns lm N (mallocStats m' (2 ^ (lm + ?l)) n) (U(i \<mapsto> cs))"
      then show ?thesis using l False unfolding m by (auto simp: refused_def)
    qed
  qed
qed

lemma Free_inv:
  assumes inv: "memInv ns lm N m U" and U: "U i = Some cs"
  shows "\<exists>m'. memsys5Free ns lm m i = Inr m' \<and> memInv ns lm N m' (U(i := None))"
proof -
  from inv obtain B where B: "poolInv ns m B {}" "U = contents m B" "length (aPool m) = N" by (auto simp: memInv_def)
  note P = poolInvD [OF B(1)]
  from U B(2) obtain l where l: "B i = Some (l, False)" "length cs = 2 ^ l" by (auto simp: contents_Some [OF P(2)])
  let ?m1 = "m\<lparr>currentCount := currentCount m - 1, currentOut := currentOut m - of_nat (2 ^ l * 2 ^ lm)\<rparr>"
  from block_free_ok [OF B(1) l(1), of lm] obtain m' B' where
    m': "memsys5Free ns lm m i = Inr m'" "poolInv ns m' B' {}" "usedOf B' = (usedOf B)(i := None)" "sameBut (insert i (freeHeads B)) ?m1 m'" by blast
  have len: "length (aPool m') = length (aPool m)" "otherParts m' = otherParts ?m1" using m'(4) by (simp_all add: sameBut_def)
  have parts: "mutex m' = mutex m" "currentCount m' = currentCount m - 1" "currentOut m' = currentOut m - of_nat (2 ^ l * 2 ^ lm)"
    using len(2) by (cases m; cases m'; simp add: otherParts_def)+
  have "contents m' B' = U(i := None)"
  proof
    fix j
    show "contents m' B' j = (U(i := None)) j"
    proof (cases "j = i")
      case True
      then show ?thesis using m'(3) by (simp add: contents_def)
    next
      case False
      have "contents m' B' j = contents m B j"
      proof (rule contents_same [OF _ len(1)])
        show u: "usedOf B' j = usedOf B j" using False m'(3) by simp
        show "aPool m' ! x = aPool m ! x" if "B' j = Some (k, False)" "j \<le> x" "x < j + 2 ^ k" for k x
        proof -
          have "B j = Some (k, False)" using that(1) u usedOf_iff [of B' j k] usedOf_iff [of B j k] by simp
          note c = used_cell [OF P(2) this that(2,3)]
          have "x \<noteq> i" using c(2) l(1) False by auto
          with c(1) m'(4) show ?thesis by (simp add: sameBut_def)
        qed
      qed
      with False B(2) show ?thesis by simp
    qed
  qed
  moreover have fin: "finite (dom U)" using contents_finite [OF P(2)] B(2) by simp
  moreover have "outBytes lm U = outBytes lm (U(i := None)) + 2 ^ l * 2 ^ lm" using outBytes_return [OF fin U] l(2) by simp
  moreover note card_return [OF fin U]
  ultimately have "memInv ns lm N m' (U(i := None))"
    using inv m'(2) len(1) B(3) parts unfolding memInv_def by auto
  with m'(1) show ?thesis by blast
qed

lemma contents_write:
  assumes T: "tiling ns (length (aPool m)) B" and U: "contents m B i = Some cs" and k: "k < length cs"
  shows "contents (m\<lparr>aPool := (aPool m)[i + k := b]\<rparr>) B = (contents m B)(i \<mapsto> cs[k := b])"
proof
  fix j
  let ?m = "m\<lparr>aPool := (aPool m)[i + k := b]\<rparr>"
  from U obtain l where l: "B i = Some (l, False)" "cs = take (2 ^ l) (drop i (aPool m))" "length cs = 2 ^ l"
    by (auto simp: contents_Some [OF T])
  show "contents ?m B j = ((contents m B)(i \<mapsto> cs[k := b])) j"
  proof (cases "j = i")
    case True
    have "usedOf B i = Some l" using l(1) by (simp add: usedOf_iff)
    with True l(2) show ?thesis by (simp add: contents_def drop_update_swap take_update_swap)
  next
    case False
    have "contents ?m B j = contents m B j"
    proof (rule contents_same)
      show "aPool ?m ! x = aPool m ! x" if "B j = Some (h, False)" "j \<le> x" "x < j + 2 ^ h" for h x
      proof -
        have "covers B j x" using that by (auto simp: covers_def)
        moreover have "covers B i (i + k)" using l k by (auto simp: covers_def)
        ultimately have "x \<noteq> i + k" using tiling_unique [OF T] False by blast
        then show ?thesis by simp
      qed
    qed simp_all
    with False show ?thesis by simp
  qed
qed

text \<open>An owner may write any block of an object.\<close>

lemma write_inv:
  assumes inv: "memInv ns lm N m U" and U: "U i = Some cs" and k: "k < length cs"
  shows "memInv ns lm N (m\<lparr>aPool := (aPool m)[i + k := b]\<rparr>) (U(i \<mapsto> cs[k := b]))"
proof -
  let ?m = "m\<lparr>aPool := (aPool m)[i + k := b]\<rparr>"
  from inv obtain B where B: "poolInv ns m B {}" "U = contents m B" "length (aPool m) = N" by (auto simp: memInv_def)
  note P = poolInvD [OF B(1)]
  from U B(2) obtain l where l: "B i = Some (l, False)" "length cs = 2 ^ l" by (auto simp: contents_Some [OF P(2)])
  have "i + k \<notin> freeHeads B" using used_cell(1) [OF P(2) l(1), of "i + k"] k l(2) by simp
  then have "i + k \<notin> freeOf B j" for j using freeOf_heads [of B j] by blast
  then have "freeLists ns ?m (freeOf B)" by (intro freeLists_cong [OF P(4)]) (auto intro: nth_list_update_neq)
  then have "poolInv ns ?m B {}" using P unfolding poolInv_def by auto
  moreover have "contents ?m B = U(i \<mapsto> cs[k := b])" using contents_write [OF P(2) _ k] U B(2) by simp
  moreover have "outBytes lm (U(i \<mapsto> cs[k := b])) = outBytes lm U"
    unfolding outBytes_def using U by (intro sum.cong) auto
  moreover have "dom (U(i \<mapsto> cs[k := b])) = dom U" using U by auto
  ultimately show ?thesis using inv B(3) unfolding memInv_def by auto
qed

text \<open>Copying is writing one block after the other.\<close>

fun copyLoop :: "mem5 \<Rightarrow> nat \<Rightarrow> Mem5Block list \<Rightarrow> mem5" where
  "copyLoop m p [] = m"
| "copyLoop m p (b # bs) = copyLoop (m\<lparr>aPool := (aPool m)[p := b]\<rparr>) (p + 1) bs"

lemma copyLoop_eq:
  "p + length bs \<le> length (aPool m) \<Longrightarrow> copyLoop m p bs = m\<lparr>aPool := take p (aPool m) @ bs @ drop (p + length bs) (aPool m)\<rparr>"
proof (induction bs arbitrary: m p)
  case (Cons b bs)
  let ?P = "aPool m"
  have "take (p + 1) (?P[p := b]) = take p ?P @ [b]" using Cons.prems by (simp add: take_Suc_conv_app_nth)
  with Cons.IH [of "p + 1" "m\<lparr>aPool := ?P[p := b]\<rparr>"] Cons.prems show ?case by simp
qed simp

lemma copyLoop_inv:
  "memInv ns lm N m U \<Longrightarrow> U i = Some cs \<Longrightarrow> k + length bs \<le> length cs \<Longrightarrow>
   memInv ns lm N (copyLoop m (i + k) bs) (U(i \<mapsto> take k cs @ bs @ drop (k + length bs) cs))"
proof (induction bs arbitrary: m U cs k)
  case Nil
  then show ?case by (simp add: fun_upd_idem)
next
  case (Cons b bs)
  have "memInv ns lm N (m\<lparr>aPool := (aPool m)[i + k := b]\<rparr>) (U(i \<mapsto> cs[k := b]))"
    using write_inv [OF Cons.prems(1,2)] Cons.prems(3) by simp
  moreover have "k + 1 + length bs \<le> length (cs[k := b])" using Cons.prems(3) by simp
  ultimately have "memInv ns lm N (copyLoop (m\<lparr>aPool := (aPool m)[i + k := b]\<rparr>) (i + (k + 1)) bs)
      (U(i \<mapsto> take (k + 1) (cs[k := b]) @ bs @ drop (k + 1 + length bs) (cs[k := b])))"
    using Cons.IH [of "m\<lparr>aPool := (aPool m)[i + k := b]\<rparr>" "U(i \<mapsto> cs[k := b])" "cs[k := b]" "k + 1"]
    unfolding fun_upd_upd by (simp add: fun_upd_same del: fun_upd_apply)
  moreover have "take (k + 1) (cs[k := b]) = take k cs @ [b]" using Cons.prems(3) by (simp add: take_Suc_conv_app_nth)
  ultimately show ?case using Cons.prems(3) by (simp del: fun_upd_apply)
qed

text \<open>What an object is in the pool.\<close>

lemma memInv_object:
  assumes "memInv ns lm N m U" "U i = Some cs"
  shows "cs = take (length cs) (drop i (aPool m))" "i + length cs \<le> N" "0 < length cs" "length (aPool m) = N"
    "sqlite3MallocSize lm m (Some i) = Inr (length cs * 2 ^ lm)"
proof -
  from assms(1) obtain B where B: "poolInv ns m B {}" "U = contents m B" and N: "length (aPool m) = N" by (auto simp: memInv_def)
  note P = poolInvD [OF B(1)]
  from assms(2) B(2) obtain l where l: "B i = Some (l, False)" "cs = take (2 ^ l) (drop i (aPool m))" "length cs = 2 ^ l"
    by (auto simp: contents_Some [OF P(2)])
  note D = tilingD [OF P(2) l(1)]
  show "cs = take (length cs) (drop i (aPool m))" "i + length cs \<le> N" "0 < length cs" "length (aPool m) = N"
    using l D(3) N by simp_all
  have "rd (aCtrl m) i = Inr (ctrlByte l False)" using P(5,6) l(1) D(4) by simp
  then show "sqlite3MallocSize lm m (Some i) = Inr (length cs * 2 ^ lm)"
    using ctrlByte_size [of l False] D(1) P(1) l(3) by (simp add: sqlite3MallocSize_def power_add)
qed

lemma memInv_apart:
  assumes "memInv ns lm N m U" "U i = Some cs" "U j = Some ds" "i \<noteq> j"
  shows "{i..<i + length cs} \<inter> {j..<j + length ds} = {}"
proof -
  from assms(1) obtain B where "poolInv ns m B {}" "U = contents m B" by (auto simp: memInv_def)
  with contents_apart [OF poolInvD(2)] assms(2-4) show ?thesis by blast
qed

lemma copyBlocks_inv:
  assumes inv: "memInv ns lm N m U" and U: "U q = Some cs" "U i = Some ds" and len: "length cs \<le> length ds"
  shows "\<exists>m'. copyBlocks m i q (length cs) = Inr m' \<and> memInv ns lm N m' (U(i \<mapsto> cs @ drop (length cs) ds))"
proof -
  note q = memInv_object [OF inv U(1)] and i = memInv_object [OF inv U(2)]
  have "copyBlocks m i q (length cs) = Inr (copyLoop m i cs)"
    using q(1,2,4) i(2) len copyLoop_eq [of i cs m] by (simp add: copyBlocks_def)
  moreover have "memInv ns lm N (copyLoop m i cs) (U(i \<mapsto> cs @ drop (length cs) ds))"
    using copyLoop_inv [OF inv U(2), of 0 cs] len by simp
  ultimately show ?thesis by blast
qed

text \<open>The state before the first call: nothing is set up.\<close>

definition freshMem :: "nat \<Rightarrow> nat \<Rightarrow> mem5 \<Rightarrow> bool" where
  "freshMem ns N m \<longleftrightarrow> \<not> mutex m \<and> 0 < ns \<and> ns \<le> 32 \<and> SZ_MAX ns dvd N \<and> length (aPool m) = N \<and> length (aCtrl m) = N
     \<and> currentCount m = 0 \<and> currentOut m = 0"

definition ready :: "nat \<Rightarrow> nat \<Rightarrow> nat \<Rightarrow> mem5 \<Rightarrow> objects \<Rightarrow> bool" where
  "ready ns lm N m U \<longleftrightarrow> memInv ns lm N m U \<or> freshMem ns N m \<and> U = Map.empty"

text \<open>The blocks that the first call has linked: the first j of the greatest size.\<close>

definition bigBlocks :: "nat \<Rightarrow> nat \<Rightarrow> blocks" where
  "bigBlocks ns j i = (if SZ_MAX ns dvd i \<and> i < j * SZ_MAX ns then Some (ns - 1, True) else None)"

lemma enterLoop_ok:
  assumes "length (aPool m) = N" "length (aCtrl m) = N" "0 < ns" "(j + k) * SZ_MAX ns \<le> N"
    "freeLists ns m (freeOf (bigBlocks ns j))" "\<And>i. bigBlocks ns j i \<noteq> None \<Longrightarrow> aCtrl m ! i = ctrlByte (ns - 1) True"
  shows "\<exists>m'. enterLoop ns m (j * SZ_MAX ns) k = Inr m' \<and> freeLists ns m' (freeOf (bigBlocks ns (j + k)))
    \<and> (\<forall>i. bigBlocks ns (j + k) i \<noteq> None \<longrightarrow> aCtrl m' ! i = ctrlByte (ns - 1) True) \<and> length (aCtrl m') = N \<and> length (aPool m') = N
    \<and> otherParts m' = otherParts m"
  using assms
proof (induction k arbitrary: m j)
  case 0
  then show ?case by simp
next
  case (Suc k)
  let ?i = "j * SZ_MAX ns" and ?S = "freeOf (bigBlocks ns j)"
  have pos: "0 < SZ_MAX ns" by (simp add: SZ_MAX_def)
  have i: "?i < N" using Suc.prems(4) pos by (simp add: algebra_simps)
  let ?m1 = "m\<lparr>aCtrl := (aCtrl m)[?i := of_nat (ns - 1) OR CTRL_FREE]\<rparr>"
  have c: "setCtrl m ?i (of_nat (ns - 1) OR CTRL_FREE) = Inr ?m1" using i Suc.prems(2) by simp
  have lists: "freeLists ns ?m1 ?S" by (rule freeLists_cong [OF Suc.prems(5)]) simp_all
  have no: "?i \<notin> ?S l" for l by (simp add: freeOf_def bigBlocks_def)
  have "ns - 1 < ns" "?i < length (aPool ?m1)" using Suc.prems(1,3) i by simp_all
  from link_ok [OF lists this no] obtain m2 where m2: "memsys5Link ?m1 ?i (ns - 1) = Inr m2"
    "onlyNodes (insert ?i (?S (ns - 1))) ?m1 m2" "freeLists ns m2 (?S(ns - 1 := insert ?i (?S (ns - 1))))" by blast
  have S: "sameBut (insert ?i (?S (ns - 1))) m m2" using onlyNodes_sameBut [OF m2(2)] by simp
  have ctrl: "aCtrl m2 = aCtrl ?m1" using m2(2) by (cases m2) (auto simp: onlyNodes_def)
  have nx: "bigBlocks ns (j + 1) = (bigBlocks ns j)(?i \<mapsto> (ns - 1, True))"
  proof
    fix x
    have "x < (j + 1) * SZ_MAX ns \<longleftrightarrow> x < j * SZ_MAX ns \<or> x = j * SZ_MAX ns" if d: "SZ_MAX ns dvd x"
      using dvd_less_step [of "SZ_MAX ns" "j * SZ_MAX ns" x] d pos by (auto simp: not_less intro: linorder_cases [of x "j * SZ_MAX ns"])
    then show "bigBlocks ns (j + 1) x = ((bigBlocks ns j)(?i \<mapsto> (ns - 1, True))) x" by (auto simp: bigBlocks_def)
  qed
  have "?S(ns - 1 := insert ?i (?S (ns - 1))) = freeOf (bigBlocks ns (j + 1))"
    unfolding nx using no by (auto simp: fun_eq_iff)
  with m2(3) have F: "freeLists ns m2 (freeOf (bigBlocks ns (j + 1)))" by simp
  have K: "aCtrl m2 ! x = ctrlByte (ns - 1) True" if "bigBlocks ns (j + 1) x \<noteq> None" for x
    using that Suc.prems(2) Suc.prems(6) [of x] i unfolding nx ctrl by (cases "x = ?i") (auto simp: ctrlByte_def or.commute)
  have len: "length (aPool m2) = N" "length (aCtrl m2) = N" "otherParts m2 = otherParts m"
    using S ctrl Suc.prems(1,2) by (simp_all add: sameBut_def)
  have "(j + 1 + k) * SZ_MAX ns \<le> N" using Suc.prems(4) by simp
  from Suc.IH [OF len(1,2) Suc.prems(3) this F K] len(3) c m2(1) show ?case by (simp add: add.commute)
qed

lemma bigBlocks_tiling:
  assumes "0 < ns" "N = n * SZ_MAX ns"
  shows "tiling ns N (bigBlocks ns n)"
proof -
  let ?d = "2 ^ (ns - 1) :: nat"
  have N: "N = n * ?d" and pos: "0 < ?d" using assms by (simp_all add: SZ_MAX_def)
  have B: "bigBlocks ns n i = Some (l, f) \<longleftrightarrow> ?d dvd i \<and> i < N \<and> l = ns - 1 \<and> f" for i l f
    using N by (auto simp: bigBlocks_def SZ_MAX_def)
  have "\<exists>i. covers (bigBlocks ns n) i x" if "x < N" for x
  proof -
    have "x div ?d * ?d \<le> x" "x < x div ?d * ?d + ?d"
      using div_mult_mod_eq [of x ?d] mod_less_divisor [OF pos, of x] by linarith+
    moreover have "bigBlocks ns n (x div ?d * ?d) = Some (ns - 1, True)" using le_less_trans [OF _ that] \<open>x div ?d * ?d \<le> x\<close> unfolding B by auto
    ultimately have "covers (bigBlocks ns n) (x div ?d * ?d) x" unfolding covers_def by blast
    then show ?thesis ..
  qed
  moreover have "i = j" if "covers (bigBlocks ns n) i x" "covers (bigBlocks ns n) j x" for i j x
    using that dvd_le_below [of ?d i j x] dvd_le_below [of ?d j i x] unfolding covers_def B by auto
  moreover have "i + ?d \<le> N" if "?d dvd i" "i < N" for i
    by (rule dvd_less_step [OF that(1) _ that(2)]) (simp add: N)
  ultimately show ?thesis unfolding tiling_def B using assms(1) N by auto
qed

lemma Enter_inv:
  assumes "ready ns lm N m U"
  shows "\<exists>m'. memsys5Enter ns m = Inr m' \<and> memInv ns lm N m' U"
  using assms unfolding ready_def
proof
  assume "memInv ns lm N m U"
  then show ?thesis by (auto simp: memsys5Enter_def memInv_def)
next
  assume f: "freshMem ns N m \<and> U = Map.empty"
  then have "SZ_MAX ns dvd N" by (simp add: freshMem_def)
  then obtain n where n: "N = n * SZ_MAX ns" by (metis dvdE mult.commute)
  let ?m = "m\<lparr>mutex := True, aiFreelist := replicate ns (-1)\<rparr>"
  have "freeOf (bigBlocks ns 0) = (\<lambda>l. {})" by (auto simp: freeOf_def bigBlocks_def)
  then have "freeLists ns ?m (freeOf (bigBlocks ns 0))" by (simp add: freeLists_def)
  then obtain m' where m': "enterLoop ns ?m 0 n = Inr m'" "freeLists ns m' (freeOf (bigBlocks ns n))"
    "\<And>i. bigBlocks ns n i \<noteq> None \<Longrightarrow> aCtrl m' ! i = ctrlByte (ns - 1) True" "length (aCtrl m') = N" "length (aPool m') = N" "otherParts m' = otherParts ?m"
    using enterLoop_ok [of ?m N ns 0 n] f n by (auto simp: freshMem_def bigBlocks_def)
  have parts: "mutex m'" "currentCount m' = 0" "currentOut m' = 0"
    using m'(6) f by (cases m; cases m'; simp add: otherParts_def freshMem_def)+
  have "N div SZ_MAX ns = n" using n by (simp add: SZ_MAX_def)
  then have "memsys5Enter ns m = Inr m'" using f m'(1) by (simp add: memsys5Enter_def freshMem_def)
  moreover have "coalesced ns (bigBlocks ns n)" by (auto simp: coalesced_def bigBlocks_def)
  then have "poolInv ns m' (bigBlocks ns n) {}"
    using f n m' bigBlocks_tiling [of ns N n] unfolding poolInv_def by (auto simp: freshMem_def bigBlocks_def split: if_splits)
  moreover have "contents m' (bigBlocks ns n) = Map.empty" by (auto simp: contents_def usedOf_def bigBlocks_def)
  ultimately show ?thesis using parts m'(5) f unfolding memInv_def by (auto simp: outBytes_def)
qed

subsection \<open>The calls of the interface\<close>

lemma malloc_inv:
  assumes "ready ns lm N m U" "quietAlarm ns lm N call"
  shows "\<exists>r m'. sqlite3_malloc ns lm behind call fault m n = Some (Inr (r, m')) \<and>
    (case r of None \<Rightarrow> ready ns lm N m' U \<and> (n \<le> 0 \<or> refused ns lm N fault U (nat n))
     | Some i \<Rightarrow> \<exists>cs. U i = None \<and> ready ns lm N m' (U(i \<mapsto> cs)) \<and> 0 < n \<and> n \<le> int (length cs * 2 ^ lm) \<and> \<not> refused ns lm N fault U (nat n))"
proof (cases "n > 0")
  case True
  from Enter_inv [OF assms(1)] obtain m1 where m1: "memsys5Enter ns m = Inr m1" "memInv ns lm N m1 U" by blast
  from Malloc_inv [OF m1(2) assms(2), of behind fault "nat n"] obtain r m' where
    r: "memsys5Malloc ns lm behind call fault m1 (nat n) = Some (Inr (r, m'))"
      "case r of None \<Rightarrow> memInv ns lm N m' U \<and> refused ns lm N fault U (nat n)
       | Some i \<Rightarrow> \<exists>cs. U i = None \<and> memInv ns lm N m' (U(i \<mapsto> cs)) \<and> nat n \<le> length cs * 2 ^ lm \<and> \<not> refused ns lm N fault U (nat n)" by blast
  have "sqlite3_malloc ns lm behind call fault m n = Some (Inr (r, m'))" using True m1(1) r(1) by (simp add: sqlite3_malloc_def)
  with r(2) True show ?thesis by (cases r) (auto simp: ready_def nat_le_iff)
next
  case False
  with assms(1) show ?thesis by (simp add: sqlite3_malloc_def)
qed

lemma free_inv:
  assumes "ready ns lm N m U" "U i = Some cs"
  shows "\<exists>m'. sqlite3_free ns lm m (Some i) = Inr m' \<and> ready ns lm N m' (U(i := None))"
  using assms Free_inv [of ns lm N m U i cs] by (auto simp: ready_def sqlite3_free_def)

lemma realloc_inv:
  assumes ready: "ready ns lm N m U" and call: "quietAlarm ns lm N call" and U: "U q = Some cs" and n: "0 < n"
  shows "\<exists>r m'. sqlite3_realloc ns lm behind call fault m (Some q) n = Some (Inr (r, m')) \<and>
    (case r of None \<Rightarrow> ready ns lm N m' U \<and> int (length cs * 2 ^ lm) < n \<and> refused ns lm N fault U (nat n)
     | Some i \<Rightarrow> \<exists>ds. ready ns lm N m' ((U(q := None))(i \<mapsto> cs @ ds)) \<and> n \<le> int (length (cs @ ds) * 2 ^ lm) \<and> (i \<noteq> q \<longrightarrow> U i = None))"
proof -
  have inv: "memInv ns lm N m U" using ready U by (auto simp: ready_def)
  note q = memInv_object [OF inv U]
  show ?thesis
  proof (cases "n \<le> int (length cs * 2 ^ lm)")
    case True
    have "(U(q := None))(q \<mapsto> cs @ []) = U" using U by (simp add: fun_upd_idem)
    with True q(5) n ready show ?thesis
      by (intro exI [of _ "Some q"] exI [of _ m]) (auto simp: sqlite3_realloc_def intro!: exI [of _ "[] :: Mem5Block list"])
  next
    case False
    from Malloc_inv [OF inv call, of behind fault "nat n"] obtain r m1 where
      r: "memsys5Malloc ns lm behind call fault m (nat n) = Some (Inr (r, m1))"
        "case r of None \<Rightarrow> memInv ns lm N m1 U \<and> refused ns lm N fault U (nat n)
         | Some i \<Rightarrow> \<exists>ds. U i = None \<and> memInv ns lm N m1 (U(i \<mapsto> ds)) \<and> nat n \<le> length ds * 2 ^ lm \<and> \<not> refused ns lm N fault U (nat n)" by blast
    have start: "sqlite3_realloc ns lm behind call fault m (Some q) n = Some (bindR (Inr (r, m1)) (\<lambda>(p, m).
        case p of None \<Rightarrow> Inr (None, m)
        | Some i \<Rightarrow> bindR (copyBlocks m i q (length cs)) (\<lambda>m. bindR (memsys5Free ns lm m q) (\<lambda>m. Inr (Some i, m)))))"
      using False n q(5) r(1) by (simp add: sqlite3_realloc_def split: option.split)
    show ?thesis
    proof (cases r)
      case None
      with start r(2) False show ?thesis by (simp add: ready_def)
    next
      case (Some i)
      with r(2) obtain ds where ds: "U i = None" "memInv ns lm N m1 (U(i \<mapsto> ds))" "nat n \<le> length ds * 2 ^ lm" by auto
      have ne: "i \<noteq> q" using ds(1) U by auto
      have "length cs * 2 ^ lm < length ds * 2 ^ lm" using False ds(3) by linarith
      then have len: "length cs \<le> length ds" by simp
      have Uq: "(U(i \<mapsto> ds)) q = Some cs" "(U(i \<mapsto> ds)) i = Some ds" using U ne by simp_all
      from copyBlocks_inv [OF ds(2) Uq len] obtain m2 where
        m2: "copyBlocks m1 i q (length cs) = Inr m2" "memInv ns lm N m2 (U(i \<mapsto> cs @ drop (length cs) ds))" unfolding fun_upd_upd by blast
      have "(U(i \<mapsto> cs @ drop (length cs) ds)) q = Some cs" using U ne by simp
      from Free_inv [OF m2(2) this] obtain m3 where
        m3: "memsys5Free ns lm m2 q = Inr m3" "memInv ns lm N m3 ((U(i \<mapsto> cs @ drop (length cs) ds))(q := None))" by blast
      have "sqlite3_realloc ns lm behind call fault m (Some q) n = Some (Inr (Some i, m3))" using start Some m2(1) m3(1) by simp
      moreover have "(U(i \<mapsto> cs @ drop (length cs) ds))(q := None) = (U(q := None))(i \<mapsto> cs @ drop (length cs) ds)"
        using ne by (simp add: fun_upd_twist)
      moreover have "n \<le> int (length (cs @ drop (length cs) ds) * 2 ^ lm)" using ds(3) len by (simp add: nat_le_iff)
      ultimately show ?thesis using m3(2) ds(1) unfolding ready_def by (intro exI [of _ "Some i"] exI [of _ m3]) auto
    qed
  qed
qed

subsection \<open>The allocator as a pool of objects\<close>

definition returned :: "'a cres option \<Rightarrow> 'a option" where
  "returned r = (case r of Some (Inr x) \<Rightarrow> Some x | _ \<Rightarrow> None)"

lemma returned_simps [simp]: "returned (Some (Inr x)) = Some x" "returned (Some (Inl e)) = None" "returned None = None"
  by (simp_all add: returned_def)

lemma returned_Some: "returned r = Some x \<longleftrightarrow> r = Some (Inr x)"
  by (simp add: returned_def split: option.splits sum.splits)

text \<open>The calls, with the outcome of the fault injector and the integer behind the list heads as inputs.\<close>

definition askPool :: "nat \<Rightarrow> nat \<Rightarrow> alarm \<Rightarrow> bool \<times> int \<Rightarrow> mem5 \<Rightarrow> int \<Rightarrow> (nat option \<times> mem5) option" where
  "askPool ns lm call e m n = returned (sqlite3_malloc ns lm (snd e) call (fst e) m n)"

definition returnPool :: "nat \<Rightarrow> nat \<Rightarrow> mem5 \<Rightarrow> nat \<Rightarrow> mem5 option" where
  "returnPool ns lm m i = ok (sqlite3_free ns lm m (Some i))"

definition resizePool :: "nat \<Rightarrow> nat \<Rightarrow> alarm \<Rightarrow> bool \<times> int \<Rightarrow> mem5 \<Rightarrow> nat \<Rightarrow> int \<Rightarrow> (nat option \<times> mem5) option" where
  "resizePool ns lm call e m i n = returned (sqlite3_realloc ns lm (snd e) call (fst e) m (Some i) n)"

definition storePool :: "mem5 \<Rightarrow> nat \<Rightarrow> Mem5Block \<Rightarrow> mem5" where
  "storePool m x b = m\<lparr>aPool := (aPool m)[x := b]\<rparr>"

definition viewPool :: "nat \<Rightarrow> mem5 \<Rightarrow> nat \<Rightarrow> Mem5Block list" where
  "viewPool lm m i = (case sqlite3MallocSize lm m (Some i) of Inr n \<Rightarrow> take (n div 2 ^ lm) (drop i (aPool m)) | Inl e \<Rightarrow> [])"

abbreviation poolRun where
  "poolRun ns lm call \<equiv> object_run (askPool ns lm call) (returnPool ns lm) (resizePool ns lm call) storePool (viewPool lm)"

lemma ready_apart: "ready ns lm N m U \<Longrightarrow> apart N U"
  using memInv_object(2) memInv_apart unfolding ready_def apart_def by fastforce

interpretation buddy: object_pool "\<lambda>m U. ready ns lm N m U \<and> quietAlarm ns lm N call" N "2 ^ lm"
  "\<lambda>e U n. n \<le> 0 \<or> refused ns lm N (fst e) U (nat n)" "askPool ns lm call" "returnPool ns lm" "resizePool ns lm call" storePool "viewPool lm"
  for ns lm N call
proof (unfold_locales, goal_cases)
  case (1 m U e n)
  then show ?case using malloc_inv [of ns lm N m U call "snd e" "fst e" n] by (fastforce simp: askPool_def split: option.splits)
next
  case (2 m U i cs)
  then show ?case using free_inv [of ns lm N m U i cs] by (auto simp: returnPool_def simp del: fun_upd_apply)
next
  case (3 m U i cs n e)
  then show ?case using realloc_inv [of ns lm N m U call i cs n "snd e" "fst e"] by (fastforce simp: resizePool_def split: option.splits)
next
  case (4 m U i cs k c)
  then show ?case using write_inv [of ns lm N m U i cs k c] by (auto simp: ready_def storePool_def simp del: fun_upd_apply)
next
  case (5 m U i cs)
  then have "memInv ns lm N m U" by (auto simp: ready_def)
  with 5 memInv_object(1,5) [of ns lm N m U i cs] show ?case by (simp add: viewPool_def)
next
  case (6 m U)
  then show ?case by (auto intro: ready_apart)
qed

lemma start_ready: "freshMem ns N m \<Longrightarrow> ready ns lm N m Map.empty"
  by (simp add: ready_def)

lemma run_ready:
  assumes "freshMem ns N m" "quietAlarm ns lm N call" "poolRun ns lm call (m, Map.empty) es (t, V)"
  shows "ready ns lm N t V"
  using buddy.run_inv [OF assms(3)] start_ready [OF assms(1)] assms(2) by auto

lemma returnPool_free: "(\<exists>u. returnPool ns lm m i = Some u) \<longleftrightarrow> (\<exists>u. sqlite3_free ns lm m (Some i) = Inr u)"
  by (simp add: returnPool_def)

text \<open>The counters in bytes, when the pool has fewer than 2^32 of them.\<close>

lemma ready_used:
  assumes "ready ns lm N m U" "N * 2 ^ lm < 2 ^ 32"
  shows "sqlite3_memory_used m = int (outBytes lm U)"
proof -
  have b: "outBytes lm U < 2 ^ 32 \<and> currentOut m = of_nat (outBytes lm U)"
    using assms(1) unfolding ready_def
  proof
    assume "memInv ns lm N m U"
    then obtain B where "poolInv ns m B {}" "U = contents m B" "length (aPool m) = N" "currentOut m = of_nat (outBytes lm U)"
      by (auto simp: memInv_def)
    with contents_total [OF poolInvD(2), of ns m B "{}" lm] assms(2) show ?thesis by auto
  next
    assume "freshMem ns N m \<and> U = Map.empty"
    then show ?thesis by (simp add: freshMem_def outBytes_def)
  qed
  have "uint (of_nat k :: u32) = int k" if "k < 2 ^ 32" for k using that by (simp add: unsigned_of_nat take_bit_nat_eq_self)
  from this [of "outBytes lm U"] b show ?thesis unfolding sqlite3_memory_used_def by (simp only:)
qed

lemma room_empty: "SZ_MAX ns dvd N \<Longrightarrow> 0 < N \<Longrightarrow> l < ns \<Longrightarrow> room N Map.empty l"
proof -
  assume N: "SZ_MAX ns dvd N" "0 < N" "l < ns"
  have "(2 :: nat) ^ l \<le> 2 ^ (ns - 1)" using N(3) by simp
  also have "\<dots> \<le> N" using dvd_imp_le [OF N(1,2)] by (simp add: SZ_MAX_def)
  finally have "2 ^ l dvd (0 :: nat) \<and> 0 + 2 ^ l \<le> N" by simp
  then show ?thesis unfolding room_def by (metis option.distinct(1))
qed

lemma ready_size: "ready ns lm N m U \<Longrightarrow> SZ_MAX ns dvd N \<and> 0 < ns"
  by (auto simp: ready_def memInv_def freshMem_def poolInv_def tiling_def SZ_MAX_def)

subsection \<open>Properties\<close>

text \<open>
  C10: after any sequence of requests, releases, resizings and writes by the owners, starting
  with a pool that was never used, the objects handed out lie apart within the pool, the memory
  of each holds exactly what its owner stored, and every object can be released without a
  fault. Resizing an object ends without a fault and either refuses or gives an object that is
  large enough and begins with the old contents.
\<close>

theorem buddy_objects:
  assumes "freshMem ns N m" "quietAlarm ns lm N call" "poolRun ns lm call (m, Map.empty) es (t, V)"
  shows "apart N V \<and> (\<forall>i cs. V i = Some cs \<longrightarrow> viewPool lm t i = cs \<and> (\<exists>u. sqlite3_free ns lm t (Some i) = Inr u)
    \<and> (\<forall>behind fault n. 0 < n \<longrightarrow> (\<exists>r u. sqlite3_realloc ns lm behind call fault t (Some i) n = Some (Inr (r, u))
        \<and> (case r of None \<Rightarrow> True | Some j \<Rightarrow> take (length cs) (viewPool lm u j) = cs \<and> n \<le> int (length (viewPool lm u j) * 2 ^ lm)))))"
proof (intro conjI allI impI)
  have start: "ready ns lm N m Map.empty \<and> quietAlarm ns lm N call" using start_ready [OF assms(1)] assms(2) by blast
  note run = start assms(3)
  show "apart N V" by (rule buddy.run_objects(1) [OF run])
  fix i cs assume V: "V i = Some cs"
  show "viewPool lm t i = cs" by (rule buddy.run_objects(2) [OF run V])
  show "\<exists>u. sqlite3_free ns lm t (Some i) = Inr u" using buddy.run_given_back [OF run V] by (simp add: returnPool_free)
  fix behind :: int and fault and n :: int assume "0 < n"
  from buddy.run_resized [OF run V this, of "(fault, behind)"]
  show "\<exists>r u. sqlite3_realloc ns lm behind call fault t (Some i) n = Some (Inr (r, u))
      \<and> (case r of None \<Rightarrow> True | Some j \<Rightarrow> take (length cs) (viewPool lm u j) = cs \<and> n \<le> int (length (viewPool lm u j) * 2 ^ lm))"
    by (simp add: resizePool_def returned_Some)
qed

text \<open>
  C11: the allocator never refuses without need. After any such sequence a request for n bytes
  is granted exactly when no fault is injected, n is at most POW2_MAX and somewhere in the pool
  an aligned run of the size of n rounded up to a power of two overlaps no object; in
  particular, when every object has been given back, every request up to POW2_MAX is granted.
\<close>

theorem buddy_grants:
  assumes "freshMem ns N m" "quietAlarm ns lm N call" "poolRun ns lm call (m, Map.empty) es (t, V)" "0 < n" "0 < N"
  shows "(\<exists>r u. sqlite3_malloc ns lm behind call fault t n = Some (Inr (r, u))
      \<and> (r \<noteq> None \<longleftrightarrow> \<not> fault \<and> nat n \<le> POW2_MAX ns lm \<and> room N V (fullLoop lm (nat n) 0)))
    \<and> (V = Map.empty \<longrightarrow> nat n \<le> POW2_MAX ns lm \<longrightarrow> (\<exists>i u. sqlite3_malloc ns lm behind call False t n = Some (Inr (Some i, u))))"
proof -
  note rdy = run_ready [OF assms(1-3)]
  have asked: "\<exists>r u. sqlite3_malloc ns lm behind call fault t n = Some (Inr (r, u))
      \<and> (r \<noteq> None \<longleftrightarrow> \<not> fault \<and> nat n \<le> POW2_MAX ns lm \<and> room N V (fullLoop lm (nat n) 0))" for fault
  proof -
    from malloc_inv [OF rdy assms(2), of behind fault n] obtain r u where
      r: "sqlite3_malloc ns lm behind call fault t n = Some (Inr (r, u))" "case r of None \<Rightarrow> ready ns lm N u V \<and> (n \<le> 0 \<or> refused ns lm N fault V (nat n))
       | Some i \<Rightarrow> \<exists>cs. V i = None \<and> ready ns lm N u (V(i \<mapsto> cs)) \<and> 0 < n \<and> n \<le> int (length cs * 2 ^ lm) \<and> \<not> refused ns lm N fault V (nat n)" by blast
    then have "r \<noteq> None \<longleftrightarrow> \<not> refused ns lm N fault V (nat n)" using assms(4) by (cases r) auto
    with r(1) show ?thesis by (auto simp: refused_def)
  qed
  have "room N V (fullLoop lm (nat n) 0)" if "V = Map.empty" "nat n \<le> POW2_MAX ns lm"
    using room_empty [of ns N] ready_size [OF rdy] fullLoop_size [of "nat n" ns lm] that assms(5) by simp
  with asked [of fault] asked [of False] show ?thesis by blast
qed

text \<open>
  C38: with a pool of fewer than 2^32 bytes, the memory in use that is reported after any such
  sequence is exactly the size of the objects handed out and not given back, in whole blocks,
  and the calls for the high-water mark and for a new alarm return and leave the objects alone.
\<close>

theorem memory_used_exact:
  assumes "freshMem ns N m" "quietAlarm ns lm N call" "poolRun ns lm call (m, Map.empty) es (t, V)" "N * 2 ^ lm < 2 ^ 32"
  shows "sqlite3_memory_used t = int (outBytes lm V)
    \<and> (\<exists>h u. sqlite3_memory_highwater ns t reset = Inr (h, u) \<and> ready ns lm N u V \<and> sqlite3_memory_used u = int (outBytes lm V))
    \<and> (\<exists>u. sqlite3_memory_alarm ns t f a th = Inr u \<and> ready ns lm N u V \<and> sqlite3_memory_used u = int (outBytes lm V))"
proof -
  note rdy = run_ready [OF assms(1-3)]
  from Enter_inv [OF rdy] obtain u where u: "memsys5Enter ns t = Inr u" "memInv ns lm N u V" by blast
  have 1: "memInv ns lm N (if reset then u\<lparr>maxOut := currentOut u\<rparr> else u) V" by (rule memInv_cong [OF u(2)]) simp_all
  have 2: "memInv ns lm N (u\<lparr>alarmCallback := f, alarmArg := a, alarmThreshold := th\<rparr>) V" by (rule memInv_cong [OF u(2)]) simp_all
  show ?thesis
    using ready_used [OF rdy assms(4)] ready_used [of ns lm N _ V, OF _ assms(4)] u(1) 1 2
    by (simp add: sqlite3_memory_highwater_def sqlite3_memory_alarm_def ready_def)
qed

text \<open>A pool of eight blocks of 64 bytes, in which two of four blocks are the largest objects.\<close>

definition smallPool :: mem5 where
  "smallPool = \<lparr>alarmThreshold = 0, alarmCallback = None, alarmArg = 0, alarmBusy = False, mutex = False,
     nAlloc = 0, totalAlloc = 0, totalExcess = 0, currentOut = 0, currentCount = 0, maxOut = 0, maxCount = 0, maxRequest = 0,
     aiFreelist = [0, 0, 0], aCtrl = replicate 8 0, aPool = replicate 8 \<lparr>b_next = 0, b_prev = 0, b_rest = []\<rparr>\<rparr>"

definition silentAlarm :: alarm where
  "silentAlarm f a u n m = m"

lemma smallPool_fresh: "freshMem 3 8 smallPool" "quietAlarm 3 6 8 silentAlarm"
  by (simp_all add: smallPool_def freshMem_def SZ_MAX_def quietAlarm_def silentAlarm_def)

lemma smallPool_start: "poolRun 3 6 silentAlarm (smallPool, Map.empty) [] (smallPool, Map.empty)"
  by (rule object_run.start)

text \<open>A request for 100 bytes gets two blocks.\<close>

lemma smallPool_run:
  "\<exists>i t cs. poolRun 3 6 silentAlarm (smallPool, Map.empty) [Asked (False, 0) 100 (Some i)] (t, [i \<mapsto> cs]) \<and> 100 \<le> int (length cs * 2 ^ 6)"
proof -
  have "ready 3 6 8 smallPool Map.empty" by (rule start_ready [OF smallPool_fresh(1)])
  note m = malloc_inv [OF this smallPool_fresh(2), of 0 False 100]
  have "\<not> refused 3 6 8 False Map.empty 100"
    using room_empty [of 3 8] fullLoop_size [of 100 3 6] by (simp add: refused_def POW2_MAX_def SZ_MAX_def)
  with m obtain i t cs where i: "sqlite3_malloc 3 6 0 silentAlarm False smallPool 100 = Some (Inr (Some i, t))"
    "ready 3 6 8 t [i \<mapsto> cs]" "100 \<le> int (length cs * 2 ^ 6)" by (auto split: option.splits simp del: fun_upd_apply)
  have "viewPool 6 t i = cs" using buddy.view_ok [of 3 6 8 t "[i \<mapsto> cs]" silentAlarm i cs] i(2) smallPool_fresh(2) by simp
  moreover have "askPool 3 6 silentAlarm (False, 0) smallPool 100 = Some (Some i, t)" using i(1) by (simp add: askPool_def)
  ultimately have "object_step (askPool 3 6 silentAlarm) (returnPool 3 6) (resizePool 3 6 silentAlarm) storePool (viewPool 6)
      (smallPool, Map.empty) (Asked (False, 0) 100 (Some i)) (t, [i \<mapsto> cs])"
    using object_step.grant [of "askPool 3 6 silentAlarm" "(False, 0)" smallPool 100 i t] by metis
  from object_run.step [OF smallPool_start this] i(3) show ?thesis by (auto simp del: fun_upd_apply)
qed

theorem buddy_objects_witness:
  "\<exists>i t cs. 100 \<le> int (length cs * 2 ^ 6) \<and> apart 8 [i \<mapsto> cs] \<and> viewPool 6 t i = cs \<and> (\<exists>u. sqlite3_free 3 6 t (Some i) = Inr u)"
proof -
  from smallPool_run obtain i t cs where
    "poolRun 3 6 silentAlarm (smallPool, Map.empty) [Asked (False, 0) 100 (Some i)] (t, [i \<mapsto> cs])" "100 \<le> int (length cs * 2 ^ 6)" by blast
  moreover from buddy_objects [OF smallPool_fresh this(1)]
  have "apart 8 [i \<mapsto> cs]" "viewPool 6 t i = cs \<and> (\<exists>u. sqlite3_free 3 6 t (Some i) = Inr u)" by simp_all
  ultimately show ?thesis by blast
qed

theorem buddy_grants_witness: "\<exists>i u. sqlite3_malloc 3 6 0 silentAlarm False smallPool 256 = Some (Inr (Some i, u))"
  using buddy_grants [OF smallPool_fresh smallPool_start, of 256 0 False] by (simp add: POW2_MAX_def)

theorem memory_used_exact_witness:
  "\<exists>i t cs. 100 \<le> int (length cs * 2 ^ 6) \<and> sqlite3_memory_used t = int (outBytes 6 [i \<mapsto> cs])"
proof -
  from smallPool_run obtain i t cs where
    "poolRun 3 6 silentAlarm (smallPool, Map.empty) [Asked (False, 0) 100 (Some i)] (t, [i \<mapsto> cs])" "100 \<le> int (length cs * 2 ^ 6)" by blast
  moreover from memory_used_exact [OF smallPool_fresh this(1)] have "sqlite3_memory_used t = int (outBytes 6 [i \<mapsto> cs])" by simp
  ultimately show ?thesis by blast
qed

end
