(* ===== verification/Fault.thy ===== *)
theory Fault
  imports Prelude
begin

text \<open>
  The fault injector, misc/sqlite/fault.c, which makes requests for memory fail on schedule. The
  array of injectors is a list; an int is a 32-bit word read with its sign, and benign a 16-bit
  one. Shown: the schedule that a configuration sets, and the counts of failures.
\<close>

record FaultInjector =
  iCountdown :: u32
  nRepeat :: u32
  nBenign :: u32
  nFail :: u32
  enable :: bool
  benign :: "16 word"

type_synonym injectors = "FaultInjector list"

definition sqlite3FaultConfig :: "injectors \<Rightarrow> nat \<Rightarrow> u32 \<Rightarrow> u32 \<Rightarrow> injectors cres" where
  "sqlite3FaultConfig aFault i nDelay n =
     wr aFault i \<lparr>iCountdown = nDelay, nRepeat = n, nBenign = 0, nFail = 0, enable = sint nDelay \<ge> 0, benign = 0\<rparr>"

definition sqlite3FaultFailures :: "injectors \<Rightarrow> nat \<Rightarrow> u32 cres" where
  "sqlite3FaultFailures aFault i = bindR (rd aFault i) (\<lambda>f. Inr (nFail f))"

definition sqlite3FaultBenignFailures :: "injectors \<Rightarrow> nat \<Rightarrow> u32 cres" where
  "sqlite3FaultBenignFailures aFault i = bindR (rd aFault i) (\<lambda>f. Inr (nBenign f))"

definition sqlite3FaultPending :: "injectors \<Rightarrow> nat \<Rightarrow> u32 cres" where
  "sqlite3FaultPending aFault i = bindR (rd aFault i) (\<lambda>f. Inr (if enable f then iCountdown f else -1))"

definition changeBenign :: "injectors \<Rightarrow> int \<Rightarrow> 16 word \<Rightarrow> injectors cres" where
  "changeBenign aFault i d =
     (if i < 0 then Inr (map (\<lambda>f. f\<lparr>benign := benign f + d\<rparr>) aFault)
      else bindR (rd aFault (nat i)) (\<lambda>f. wr aFault (nat i) (f\<lparr>benign := benign f + d\<rparr>)))"

definition sqlite3FaultBeginBenign :: "injectors \<Rightarrow> int \<Rightarrow> injectors cres" where
  "sqlite3FaultBeginBenign aFault i = changeBenign aFault i 1"

definition sqlite3FaultEndBenign :: "injectors \<Rightarrow> int \<Rightarrow> injectors cres" where
  "sqlite3FaultEndBenign aFault i = changeBenign aFault i (-1)"

definition faultStep :: "FaultInjector \<Rightarrow> bool \<times> FaultInjector" where
  "faultStep f =
     (if \<not> enable f then (False, f)
      else if sint (iCountdown f) > 0 then (False, f\<lparr>iCountdown := iCountdown f - 1\<rparr>)
      else let f = f\<lparr>nFail := nFail f + 1\<rparr>;
               f = (if sint (benign f) > 0 then f\<lparr>nBenign := nBenign f + 1\<rparr> else f);
               f = f\<lparr>nRepeat := nRepeat f - 1\<rparr> in
        (True, if sint (nRepeat f) \<le> 0 then f\<lparr>enable := False\<rparr> else f))"

definition sqlite3FaultStep :: "injectors \<Rightarrow> nat \<Rightarrow> (bool \<times> injectors) cres" where
  "sqlite3FaultStep aFault i = bindR (rd aFault i) (\<lambda>f. let (r, f') = faultStep f in bindR (wr aFault i f') (\<lambda>a. Inr (r, a)))"

subsection \<open>The schedule\<close>

text \<open>The answers to k questions in a row.\<close>

fun faultSteps :: "injectors \<Rightarrow> nat \<Rightarrow> nat \<Rightarrow> (bool list \<times> injectors) cres" where
  "faultSteps a i 0 = Inr ([], a)"
| "faultSteps a i (Suc k) = bindR (faultSteps a i k) (\<lambda>(rs, a). bindR (sqlite3FaultStep a i) (\<lambda>(r, a). Inr (rs @ [r], a)))"

text \<open>The failures among the first k answers after a delay of d, m in a row.\<close>

definition failures :: "nat \<Rightarrow> nat \<Rightarrow> nat \<Rightarrow> nat" where
  "failures d m k = min m (k - d)"

text \<open>The injector after k questions.\<close>

definition injectorAt :: "nat \<Rightarrow> nat \<Rightarrow> 16 word \<Rightarrow> nat \<Rightarrow> FaultInjector" where
  "injectorAt d n b k =
     (let m = max 1 n; c = failures d m k in
      \<lparr>iCountdown = of_nat (d - k), nRepeat = of_nat n - of_nat c, nBenign = if sint b > 0 then of_nat c else 0, nFail = of_nat c,
       enable = c < m, benign = b\<rparr>)"

lemma injector_step:
  assumes "d < 2 ^ 31" "n < 2 ^ 31"
  shows "faultStep (injectorAt d n b k) = (d \<le> k \<and> k < d + max 1 n, injectorAt d n b (Suc k))"
proof -
  obtain m where m: "max 1 n = m" "0 < m" "n = m \<or> n = 0 \<and> m = 1" by (cases n) auto
  consider "k < d" | "d \<le> k" "k < d + m" | "d + m \<le> k" by linarith
  then show ?thesis
  proof cases
    case 1
    then have c: "failures d m k = 0" "failures d m (Suc k) = 0" by (simp_all add: failures_def)
    have s: "sint (of_nat (d - k) :: u32) = int (d - k)" using assms by (intro sint_of_nat) simp
    have "(of_nat (d - k) :: u32) - 1 = of_nat (d - Suc k)" using 1 by (simp add: of_nat_diff)
    with s 1 m(2) show ?thesis unfolding injectorAt_def Let_def m(1) c by (simp add: faultStep_def)
  next
    case 2
    let ?c = "k - d"
    have c: "failures d m k = ?c" "failures d m (Suc k) = Suc ?c" using 2 by (auto simp: failures_def)
    have rep: "sint (of_nat n - of_nat (Suc ?c) :: u32) \<le> 0 \<longleftrightarrow> \<not> Suc ?c < m"
    proof (cases "Suc ?c \<le> n")
      case True
      then have "(of_nat n - of_nat (Suc ?c) :: u32) = of_nat (n - Suc ?c)" by (simp add: of_nat_diff)
      moreover have "sint (of_nat (n - Suc ?c) :: u32) = int (n - Suc ?c)" using assms by (intro sint_of_nat) simp
      ultimately show ?thesis using True m(3) by auto
    next
      case False
      with 2 m(3) have "n = 0" "?c = 0" "m = 1" by auto
      then show ?thesis by simp
    qed
    have "(of_nat n - of_nat ?c :: u32) - 1 = of_nat n - of_nat (Suc ?c)" by simp
    then have "sint (of_nat n - of_nat ?c - 1 :: u32) \<le> 0 \<longleftrightarrow> \<not> Suc ?c < m" using rep by (simp only:)
    moreover have "?c < m" using 2 by linarith
    ultimately have "faultStep (injectorAt d n b k) = (True, injectorAt d n b (Suc k))"
      using 2 unfolding injectorAt_def Let_def m(1) c by (simp add: faultStep_def Let_def add.commute del: of_nat_diff)
    with 2 m(1) show ?thesis by simp
  next
    case 3
    then have c: "failures d m k = m" "failures d m (Suc k) = m" by (auto simp: failures_def)
    from 3 show ?thesis unfolding injectorAt_def Let_def m(1) c by (simp add: faultStep_def)
  qed
qed

lemma injector_steps:
  assumes "d < 2 ^ 31" "n < 2 ^ 31" "i < length a" "a ! i = injectorAt d n b 0"
  shows "faultSteps a i k = Inr (map (\<lambda>j. d \<le> j \<and> j < d + max 1 n) [0..<k], a[i := injectorAt d n b k])"
proof (induction k)
  case 0
  then show ?case using assms(4) [symmetric] by (simp add: list_update_id)
next
  case (Suc k)
  with assms(3) injector_step [OF assms(1,2), of b k] show ?case by (simp add: sqlite3FaultStep_def)
qed

subsection \<open>Properties\<close>

text \<open>
  C39: after a configuration with a delay d and a number n of failures, the questions are
  answered with d successes, then with n failures, or one when n is 0, then with successes
  forever. The failures are counted, as benign ones when they were declared benign.
\<close>

theorem fault_schedule:
  assumes "i < length a" "d < 2 ^ 31" "n < 2 ^ 31"
  shows "\<exists>a1 a2 a3. sqlite3FaultConfig a i (of_nat d) (of_nat n) = Inr a1 \<and> (if quiet then sqlite3FaultBeginBenign a1 (int i) else Inr a1) = Inr a2
    \<and> faultSteps a2 i k = Inr (map (\<lambda>j. d \<le> j \<and> j < d + max 1 n) [0..<k], a3)
    \<and> sqlite3FaultFailures a3 i = Inr (of_nat (min (max 1 n) (k - d)))
    \<and> sqlite3FaultBenignFailures a3 i = Inr (if quiet then of_nat (min (max 1 n) (k - d)) else 0)
    \<and> sqlite3FaultPending a3 i = Inr (if k - d < max 1 n then of_nat (d - k) else -1)"
proof -
  let ?b = "if quiet then 1 else 0 :: 16 word"
  let ?a1 = "a[i := injectorAt d n 0 0]" and ?a2 = "a[i := injectorAt d n ?b 0]" and ?a3 = "a[i := injectorAt d n ?b k]"
  have "sqlite3FaultConfig a i (of_nat d) (of_nat n) = Inr ?a1"
    using assms sint_of_nat [OF assms(2)] by (simp add: sqlite3FaultConfig_def injectorAt_def failures_def max_def)
  moreover have "(if quiet then sqlite3FaultBeginBenign ?a1 (int i) else Inr ?a1) = Inr ?a2"
    using assms(1) by (simp add: sqlite3FaultBeginBenign_def changeBenign_def injectorAt_def failures_def)
  moreover have "faultSteps ?a2 i k = Inr (map (\<lambda>j. d \<le> j \<and> j < d + max 1 n) [0..<k], ?a3)"
    using injector_steps [OF assms(2,3), of i ?a2 ?b k] assms(1) by simp
  moreover have "sqlite3FaultFailures ?a3 i = Inr (of_nat (min (max 1 n) (k - d)))"
    "sqlite3FaultBenignFailures ?a3 i = Inr (if quiet then of_nat (min (max 1 n) (k - d)) else 0)"
    "sqlite3FaultPending ?a3 i = Inr (if k - d < max 1 n then of_nat (d - k) else -1)"
    using assms(1) by (auto simp: sqlite3FaultFailures_def sqlite3FaultBenignFailures_def sqlite3FaultPending_def injectorAt_def failures_def Let_def min_def)
  ultimately show ?thesis by blast
qed

theorem fault_schedule_witness:
  "\<exists>a1 a3. sqlite3FaultConfig [\<lparr>iCountdown = 0, nRepeat = 0, nBenign = 0, nFail = 0, enable = False, benign = 0\<rparr>] 0 2 2 = Inr a1
    \<and> faultSteps a1 0 6 = Inr ([False, False, True, True, False, False], a3) \<and> sqlite3FaultFailures a3 0 = Inr 2"
proof -
  have u: "[0..<6] = [0, 1, 2, 3, 4, 5 :: nat]" by (simp add: upt_rec)
  from fault_schedule [of 0 "[\<lparr>iCountdown = 0, nRepeat = 0, nBenign = 0, nFail = 0, enable = False, benign = 0\<rparr>]" 2 2 False 6]
  show ?thesis by (auto simp: u)
qed

end
