(* ===== verification/Spec2Isabelle.thy ===== *)
theory Spec2Isabelle
  imports BitArray CArray Chunk URLEscape Fifo Prng Bitvec BitvecTest StrUtil Varint Utf Hash Complete PageEdit Like RecordFormat PageUse Mem5Objects Fault
begin

text \<open>
  A verification library for the C code of BathyScaphe, a browser for bulletin boards. The
  program is an Objective-C application over two bodies of C code: the base layer of the
  framework SGFoundation (frameworks/SGFoundation/framework/source), which provides bit
  arrays, pointer arrays, a small-object allocator and URL escaping, and the database library
  in misc/sqlite, in which the application keeps its index of threads. Paths below are
  relative to src/.

  \<^bold>\<open>How the code is modelled.\<close> A struct is a record, an enumeration or union a datatype, a
  32-bit or 64-bit integer a word of that width wherever it can wrap. Memory that is only read
  is the list of bytes from the pointer to the end of its block, so that an access outside the
  block is a value: a function returns a fault of Prelude.fault or its result. Memory that is
  written is a block passed in and returned, or an explicit heap of linked elements. The
  outcome of every memory request, the contents of fresh memory, the seed of the random
  generator and the callbacks of the parser driver are arguments. Code runs as on a 32-bit
  Intel target with ASCII and with the assertions of the database library compiled out.

  \<^bold>\<open>Interfaces.\<close> Prelude has the machine types, faults and generic lemmas. Each of the
  following theories states one contract as a locale, proves what a client may rely on once,
  and is interpreted on the model of the code:
  \<^item> IndexSet (a set of indices): BitArray and Bitvec.
  \<^item> SeqStore (a list edited in place): CArray and the B-tree pages of PageEdit.
  \<^item> BlockPool (a pool of blocks with its clients, a state machine): Chunk.
  \<^item> ObjectPool (an allocator of objects of any size with its clients, a state machine): Mem5Objects.
  \<^item> PageSupply (a file that lends pages, with its clients, a state machine): PageUse.
  \<^item> MapStore (a keyed table that may run out of memory): Hash.
  \<^item> Codec (a self-delimiting code): the variable-length and four-byte integers of Varint and
    the UTF-16 forms of Utf; the locale text\_encoding of Utf extends the idea to translation.
  \<^item> the locale fifo\_queue of Fifo (a queue).

  \<^bold>\<open>SGFoundation.\<close>
  \<^item> BitArray: base/collection/SGBaseBitArray.c, every function under its own name. Shown: the
    recorded capacity is the store's, growing and shrinking keep bits and clear new ones, and
    the array is a set.
  \<^item> CArray: base/collection/SGBaseCArray.c. Shown: the edits are those of a list; the growth
    loop newCapacityLoop, a partial function whose value is None when it runs forever, ends
    exactly for requests of at most 2 ^ 31.
  \<^item> Chunk: base/allocator/SGBaseChunk.c. Shown: under any interleaving of requests, returns
    and writes by owners no block is handed out twice and a refusal means a full chunk.
  \<^item> URLEscape: extensions/data/SGURLEscape.c with the formats of sscanf and sprintf it uses.
    Shown: decoding inverts encoding; a truncated escape makes decoding read past its input.

  \<^bold>\<open>The database library, storage.\<close>
  \<^item> Fifo: vdbefifo.c over a heap of pages. Shown: every script of pushes and pops runs and answers
    as a queue does, also when memory is refused; the queue is cleared without leaks.
  \<^item> Prng: random.c. Shown: RC4's permutation invariant; saving and restoring replays.
  \<^item> Bitvec, BitvecTest: bitvec.c. Shown: a set of page numbers through bitmap, hash table and
    sub-vectors (seven levels of recursion are enough for every size up to 2 ^ 32 - 125, so
    that is the fuel), and that the built-in self test passes on every program, for the sizes
    from 1 to 2 ^ 31 - 8 whose bitmap an int can measure.
  \<^item> Hash: hash.c and hash.h over a heap of doubly linked elements. Shown: a finite map from
    keys, string keys up to case, through insertion, replacement, removal, growth and lack of
    memory; clearing frees everything. The fuel of a walk is the number of elements.
  \<^item> BtreePage: the page layer of btree.c with the structs of btreeInt.h, one definition per
    function and per loop. PageSpace is the layout of a page (free blocks as a chain through
    the bytes, regions that lie apart, fragments counted in the header) and what release and
    allocation do to it; PageCells has defragmentation, allocation, insertion, deletion and
    initialisation of pages, and PageEdit the properties: a page is an ordered list of cells
    through any script of edits, survives being read back, and is the same page when it is
    assembled at once; the overflow list of a full page. The loops over the free list are
    partial functions (None when a corrupt list is circular), shown to end on such pages.
  \<^item> PageFile: the database file as the B-tree sees it through the pager, with the pointer map of
    btree.c; FreeList: allocateBtreePage and freePage, the list of free pages kept in trunk pages,
    and what freeing and growing do to it; FreeAlloc: reusing a free page, with the search for an
    exact page as a partial function, shown to end; PageUse: the properties. Shown: pages in use
    keep their bytes under any sequence of releases, writes and requests that name no exact page,
    every page changed was announced to the pager (pager\_write or sqlite3PagerDontRollback; the
    journal itself is not modelled), the nearest leaf or exactly the wanted page is taken, pointer map entries are independent; and that a
    stale number in a trunk without leaves makes the search lend a page that stays on the list.
    Operations on the file return early with an error code (bindD); the predicate runs is the
    calculus in which their proofs follow the code.
  \<^item> Varint: the integer formats of util.c. Shown: round trips, and that the unrolled reader
    equals a byte-by-byte reference.

  \<^item> RecordFormat: the serial types and sqlite3VdbeRecordUnpack of vdbeaux.c, the opcode
    MakeRecord of vdbe.c and sqlite3VdbeMemExpandBlob of vdbemem.c, over the integers of Varint.
    Shown: the serial types describe the bytes written; a record is read back value by value,
    with its zero tail left out; the fault when a blob cannot be expanded.

  \<^item> Mem5: mem5.c, the allocator that splits a fixed pool into blocks of powers of two. Mem5Blocks
    has the tiling of the pool by blocks, the linked lists of free blocks and what splitting and
    coalescing buddies do to them; Mem5Objects the objects as the callers see them. Shown: no
    object overlaps another or loses its contents, a request is refused only when no aligned
    run of its size is free, and the memory reported as used is exact. The walk along a list
    is a partial function, shown to end.
  \<^item> Fault: fault.c. Shown: the schedule of simulated failures.

  \<^bold>\<open>The database library, text and SQL.\<close>
  \<^item> StrUtil: comparison, numbers, quotes and blob literals of util.c. Shown: the order of
    comparison, the exact ranges of the conversions, the grammar of numbers, round trips.
  \<^item> Utf: utf.c. Shown: the self test passes on every code point, translation keeps the text
    and stays inside its blocks, except for UTF-16 text of an odd number of bytes; a text whose
    new block an int cannot measure is refused.
  \<^item> Keyword: keywordhash.h and the token codes of parse.h. Shown: the hashed lookup equals a
    search of the plain list of keywords.
  \<^item> Tokenize: tokenize.c. Shown: tokens are nonempty and inside the text, the parser driver
    ends (fuel: the length of the text, since every token has a byte), feeds exactly the
    significant tokens and reports errors consistently; the two kinds of input on which it faults.
  \<^item> Complete: sqlite3\_complete of complete.c. Shown: the table-driven machine equals a plain
    description of lexemes and statements, in which blank text is complete.
  \<^item> Like: patternCompare and likeFunc of func.c, over the UTF-8 reader of Utf. Shown: the
    backtracking comparison is total and equals a plain description of patterns as items;
    the errors of the SQL functions.

  The components meet here: the schema tables of a connection are hash tables keyed by names
  that StrUtil compares and unquotes, the tokenizer calls the keyword lookup, which compares
  with StrUtil, the self test of the page set draws its numbers from Prng, and the property
  below composes unquoting, comparison and lookup.

  \<^bold>\<open>Not modelled.\<close> The rest of the database library: the B-tree above its pages (cursors,
  balancing, overflow chains), the pager and operating system layers, the other
  memory allocators, the virtual machine but
  for the record format, the code generator and query planner, the LALR tables of parse.c, the
  full-text extensions, printf.c, date.c and the rest of func.c; floating-point conversion,
  which rests on the rounding of the target; the mutexes, since one call is taken as one step. The
  Objective-C application and framework classes, which mostly call Cocoa. The importer and
  Quick Look plug-ins, which are glue around system callbacks.
\<close>

text \<open>
  C40: names are found whatever their case and quotes. In a string-keyed table after any
  sequence of calls, a name that was written in quotes of any kind and unquoted in place finds
  the same data as every name that compares equal to it without regard to case.
\<close>

theorem identifier_lookup:
  assumes "allocator alloc" "\<forall>c \<in> set cs. callOK HASH_STRING c" "0 \<notin> set s" "0 \<notin> set s'"
    "sqlite3StrICmp (s @ 0 # u) (s' @ 0 # u') = Inr 0" "quoteEnd q = Some e" "c \<noteq> e"
  shows "\<exists>rs T b d. run_calls (hashCall alloc) (sqlite3HashInit HASH_STRING copyKey, Map.empty) cs = Some (rs, T)
    \<and> sqlite3Dequote (Some (q # double_quotes e s' @ e # c # t)) = Inr (Some b)
    \<and> sqlite3HashFind T b (length s' + 1) = Inr d \<and> sqlite3HashFind T (s @ 0 # u) (length s + 1) = Inr d"
proof -
  from hash_runs [OF assms(1,2)] obtain rs H hp m where
    r: "run_calls (hashCall alloc) (sqlite3HashInit HASH_STRING copyKey, Map.empty) cs = Some (rs, (H, hp))"
      "tableOf alloc HASH_STRING (H, hp) m" by metis
  from Dequote_spec [OF assms(6,4,7), of t] obtain b where
    b: "sqlite3Dequote (Some (q # double_quotes e s' @ e # c # t)) = Inr (Some b)" "take (length s' + 1) b = s' @ [0]"
      "length b = length (q # double_quotes e s' @ e # c # t)" by blast
  have l: "lower s = lower s'" using StrICmp_spec [OF assms(3,4), of u u'] assms(5) by auto
  have "length s' + 1 \<le> length b" using arg_cong [OF b(2), of length] by simp
  moreover have "take (length s') b = s'" using arg_cong [OF b(2), of "take (length s')"] by simp
  ultimately have "keyOK HASH_STRING b (length s' + 1)" using assms(4) by (simp add: keyOK_def)
  from table_find [OF r(2) this] b(2) have "sqlite3HashFind (H, hp) b (length s' + 1) = Inr (m (lower (s' @ [0])))"
    by (simp add: canon_def)
  moreover have "keyOK HASH_STRING (s @ 0 # u) (length s + 1)" using assms(3) by (simp add: keyOK_def)
  from table_find [OF r(2) this] have "sqlite3HashFind (H, hp) (s @ 0 # u) (length s + 1) = Inr (m (lower (s @ [0])))"
    by (simp add: canon_def)
  moreover have "lower (s @ [0]) = lower (s' @ [0])" using l by (simp add: lower_def)
  ultimately show ?thesis using r(1) b(1) by metis
qed

theorem identifier_lookup_witness:
  "\<exists>rs T b d. run_calls (hashCall (\<lambda>hp. Suc (Max (insert 0 (dom hp))))) (sqlite3HashInit HASH_STRING True, Map.empty)
      [\<lparr>c_pKey = [0x54, 0x31, 0], c_nKey = 3, c_data = Some (7 :: int), c_elem = True, c_key = True, c_first = True, c_grow = True\<rparr>] = Some (rs, T)
    \<and> sqlite3Dequote (Some (0x22 # double_quotes 0x22 [0x74, 0x31] @ 0x22 # 0 # [])) = Inr (Some b)
    \<and> sqlite3HashFind T b 3 = Inr d \<and> sqlite3HashFind T [0x54, 0x31, 0] 3 = Inr d"
proof -
  have c: "\<forall>c \<in> set [\<lparr>c_pKey = [0x54, 0x31, 0], c_nKey = 3, c_data = Some (7 :: int), c_elem = True, c_key = True, c_first = True, c_grow = True\<rparr>].
      callOK HASH_STRING c" by (simp add: callOK_def keyOK_def numeral_3_eq_3)
  have i: "sqlite3StrICmp ([0x54, 0x31] @ 0 # []) ([0x74, 0x31] @ 0 # []) = Inr 0" by (simp add: UpperToLower_eq)
  have q: "quoteEnd 0x22 = Some 0x22" "(0 :: byte) \<noteq> 0x22" by (simp_all add: quoteEnd_def)
  have n: "length [0x74, 0x31 :: byte] + 1 = 3" "length [0x54, 0x31 :: byte] + 1 = 3" by simp_all
  have "0 \<notin> set [0x54, 0x31 :: byte]" "0 \<notin> set [0x74, 0x31 :: byte]" by simp_all
  from identifier_lookup [OF allocator_exists c this i q, of True "[]"] show ?thesis unfolding n append_Cons append_Nil .
qed

end
